(* ===== verification/Nanopb_Prelude.thy ===== *)
theory Nanopb_Prelude
  imports Main "HOL-Library.Word"
begin

text \<open>
  Shared material of the development: the names of the machine types, the sequencing
  combinators that stand for C's early returns, and the generic facts on lists and words
  that the component theories rely on.

  The platform is the one the application is built for (64-bit iOS): \<open>size_t\<close>,
  \<open>uintptr_t\<close> and pointers have 64 bits, \<open>unsigned\<close> has 32 bits, integers are little endian,
  \<open>uint_fast8_t\<close> has 8 bits. The build settings of the pods define \<open>PB_FIELD_32BIT\<close>,
  \<open>PB_NO_PACKED_STRUCTS\<close> and \<open>PB_ENABLE_MALLOC\<close>, so \<open>pb_size_t\<close> is a 32-bit type and
  dynamic allocation is compiled in.
\<close>

unbundle bit_operations_syntax

section \<open>Machine types\<close>

type_synonym byte = "8 word"
type_synonym u16 = "16 word"
type_synonym u32 = "32 word"
type_synonym u64 = "64 word"
type_synonym size_t = "64 word"
type_synonym addr = "64 word"

section \<open>Collections of rewrite rules\<close>

named_theorems stream_simps \<open>unfolding rules of the stream operations\<close>
named_theorems pb_consts \<open>numeric values of the constants of pb.h\<close>

section \<open>Sequencing\<close>

text \<open>
  \<open>and_then r k\<close> is the C idiom \<^verbatim>\<open>if (!f(stream)) return false; k(stream)\<close>:
  \<open>r\<close> is the pair of the returned flag and the stream after the call.
\<close>

definition and_then :: "bool \<times> 'a \<Rightarrow> ('a \<Rightarrow> bool \<times> 'a) \<Rightarrow> bool \<times> 'a" where
  "and_then r k = (if fst r then k (snd r) else (False, snd r))"

lemma and_then_True [simp]: "and_then (True, s) k = k s"
  by (simp add: and_then_def)

lemma and_then_False [simp]: "and_then (False, s) k = (False, s)"
  by (simp add: and_then_def)

lemma and_then_split: "P (and_then r k) \<longleftrightarrow>
    (\<forall>s. r = (True, s) \<longrightarrow> P (k s)) \<and> (\<forall>s. r = (False, s) \<longrightarrow> P (False, s))"
  by (cases r) (auto simp: and_then_def)

lemma and_then_assoc: "and_then (and_then r f) g = and_then r (\<lambda>s. and_then (f s) g)"
  by (simp add: and_then_def)

text \<open>
  The same idiom for calls that may fail to return: \<open>None\<close> is a computation that has run out
  of its recursion budget.
\<close>

definition oand_then ::
  "(bool \<times> 'a) option \<Rightarrow> ('a \<Rightarrow> (bool \<times> 'a) option) \<Rightarrow> (bool \<times> 'a) option" where
  "oand_then r k = (case r of None \<Rightarrow> None
     | Some (ok, s) \<Rightarrow> if ok then k s else Some (False, s))"

lemma oand_then_simps [simp]:
  "oand_then None k = None"
  "oand_then (Some (True, s)) k = k s"
  "oand_then (Some (False, s)) k = Some (False, s)"
  by (simp_all add: oand_then_def)

lemma oand_then_Some:
  "oand_then r k = Some y \<longleftrightarrow>
     (\<exists>s. r = Some (True, s) \<and> k s = Some y) \<or> (\<exists>s. r = Some (False, s) \<and> y = (False, s))"
  by (auto simp: oand_then_def split: option.splits prod.splits if_splits)

text \<open>A sequence of such calls.\<close>

primrec oseq :: "('a \<Rightarrow> (bool \<times> 'a) option) list \<Rightarrow> 'a \<Rightarrow> (bool \<times> 'a) option" where
  "oseq [] s = Some (True, s)"
| "oseq (f # fs) s = oand_then (f s) (oseq fs)"

section \<open>Words\<close>

text \<open>The overflow test of C code: \<open>a + b < a\<close> holds exactly if the sum wraps around.\<close>

lemma word_add_overflow_iff:
  fixes a b :: "'a::len word"
  shows "a + b < a \<longleftrightarrow> 2 ^ LENGTH('a) \<le> unat a + unat b"
  by (metis linorder_not_less no_olen_add_nat)

lemma unat_add_no_overflow:
  fixes a b :: "'a::len word"
  shows "unat a + unat b < 2 ^ LENGTH('a) \<Longrightarrow> unat (a + b) = unat a + unat b"
  by (simp add: unat_add_lem)

lemma unat_of_nat_64: "n < 2 ^ 64 \<Longrightarrow> unat (of_nat n :: 64 word) = n"
  by (simp add: unsigned_of_nat take_bit_nat_eq_self)

lemma unat_of_nat_32: "n < 2 ^ 32 \<Longrightarrow> unat (of_nat n :: 32 word) = n"
  by (simp add: unsigned_of_nat take_bit_nat_eq_self)

lemma unat_byte_less [simp]: "unat (b :: byte) < 256"
  using unsigned_less [of b] by simp

lemma unat_of_nat_8: "n < 256 \<Longrightarrow> unat (of_nat n :: byte) = n"
  by (simp add: unsigned_of_nat take_bit_nat_eq_self)

lemma sint_of_nat_32: "n < 2 ^ 31 \<Longrightarrow> sint (of_nat n :: u32) = int n"
  by (simp add: sint_uint uint_nat unat_of_nat_32 signed_take_bit_int_eq_self)

lemma word_and_127: "x AND 127 = take_bit 7 (x :: 'a::len word)"
  by (simp add: take_bit_eq_mask mask_eq_exp_minus_1)

lemma unat_take_bit_word: "unat (take_bit n (x :: 'a::len word)) = unat x mod 2 ^ n"
  by (simp only: unsigned_take_bit_eq take_bit_eq_mod [of n "unat x"])

lemma unat_and_127: "unat (x AND 127) = unat (x :: 'a::len word) mod 128"
  by (simp add: word_and_127 unat_take_bit_word)

lemma unat_and_255: "unat (x AND 255) = unat (x :: 'a::len word) mod 256"
proof -
  have "x AND 255 = take_bit 8 x" by (simp add: take_bit_eq_mask mask_eq_exp_minus_1)
  then show ?thesis by (simp add: unat_take_bit_word)
qed

lemma unat_ucast_byte: "unat (ucast (x :: 'a::len word) :: byte) = unat x mod 256"
  by (simp add: unsigned_ucast_eq take_bit_eq_mod)

lemma unat_drop_bit_word: "unat (drop_bit n (x :: 'a::len word)) = unat x div 2 ^ n"
  by (simp only: unat_drop_bit_eq drop_bit_eq_div [of n "unat x"])

lemma unat_lt_64: "unat (v :: u64) < 18446744073709551616"
  by (rule order_less_le_trans [OF unsigned_less]) simp

lemma unat_lt_32: "unat (v :: u32) < 4294967296"
  by (rule order_less_le_trans [OF unsigned_less]) simp

lemma unat_ucast_up:
  fixes x :: "'a::len word"
  assumes "LENGTH('a) \<le> LENGTH('b::len)"
  shows "unat (ucast x :: 'b word) = unat x"
proof -
  have "unat x < 2 ^ LENGTH('a)" by (rule unsigned_less)
  also have "\<dots> \<le> 2 ^ LENGTH('b)" using assms by simp
  finally show ?thesis by (simp add: unsigned_ucast_eq take_bit_nat_eq_self)
qed

lemma sint_64:
  fixes v :: u64
  assumes n: "unat v = n"
  shows "sint v = (if n < 2 ^ 63 then int n else int n - 2 ^ 64)"
proof -
  have u: "uint v = int n" using n by auto
  have b: "n < 2 ^ 64" using unat_lt_64 [of v] n by simp
  have s: "sint v = signed_take_bit 63 (int n)" by (simp add: sint_uint u)
  show ?thesis
  proof (cases "n < 2 ^ 63")
    case True
    then show ?thesis using s by (simp add: signed_take_bit_int_eq_self)
  next
    case False
    with b have "signed_take_bit 63 (int n - 2 ^ 64) = int n - 2 ^ 64"
      by (intro signed_take_bit_int_eq_self) simp_all
    moreover have "signed_take_bit 63 (int n - 2 ^ 64) = signed_take_bit 63 (int n)"
      by (simp add: signed_take_bit_eq_iff_take_bit_eq take_bit_eq_mod)
    ultimately show ?thesis using False s by simp
  qed
qed

lemma unat_not_64: "unat (NOT v) = 2 ^ 64 - 1 - unat (v :: u64)"
proof -
  have "NOT v = - 1 - v" by (simp add: not_eq_complement)
  moreover have "v \<le> - 1" by simp
  ultimately have "unat (NOT v) = unat (- 1 :: u64) - unat v" by (simp add: unat_sub del: word_n1_ge)
  then show ?thesis by (simp add: unsigned_minus_1_eq_mask mask_eq_exp_minus_1)
qed

lemma unat_push_bit: "unat (push_bit k v) = 2 ^ k * unat (v :: 'a::len word) mod 2 ^ LENGTH('a)"
  by (simp only: unsigned_push_bit_eq push_bit_eq_mult [of k "unat v"] take_bit_eq_mod mult.commute)

lemma byte_and_128: "b AND 128 = 0 \<longleftrightarrow> unat (b :: byte) < 128"
proof -
  have "b AND 128 = 0 \<longleftrightarrow> \<not> bit (unat b) 7"
    using and_exp_eq_0_iff_not_bit [of b 7] by (simp add: bit_unsigned_iff)
  also have "\<dots> \<longleftrightarrow> even (unat b div 128)"
    by (simp add: bit_iff_odd)
  also have "unat b div 128 = (if unat b < 128 then 0 else 1)"
  proof -
    have "unat b div 128 = 1" if "128 \<le> unat b"
      by (rule div_nat_eqI) (use that unat_byte_less [of b] in simp_all)
    then show ?thesis by auto
  qed
  finally show ?thesis by (simp split: if_splits)
qed

lemma unat_cont_byte: "m < 128 \<Longrightarrow> unat (of_nat m + 128 :: byte) = m + 128"
  using unat_of_nat_8 [of "m + 128"] by simp

lemma byte_or_128: "m < 128 \<Longrightarrow> of_nat m OR 128 = (of_nat (m + 128) :: byte)"
  using disjunctive_add_eq_or [of "of_nat m" "128 :: byte"]
  by (simp add: byte_and_128 unat_of_nat_8)

text \<open>Assembling a number from seven-bit groups.\<close>

lemma or_push_bit_add:
  fixes r x :: "'a::len word"
  assumes "unat r < 2 ^ k"
  shows "r OR push_bit k x = r + push_bit k x"
proof -
  have "r AND push_bit k x = 0"
  proof (rule bit_word_eqI)
    fix i assume "i < LENGTH('a)"
    have "\<not> bit r i" if "k \<le> i"
    proof -
      have "unat r < 2 ^ i" by (rule order_less_le_trans [OF assms]) (use that in simp)
      then have "\<not> bit (unat r) i" by (simp add: bit_iff_odd)
      then show ?thesis using \<open>i < LENGTH('a)\<close> by (simp add: bit_unsigned_iff)
    qed
    then show "bit (r AND push_bit k x) i = bit (0 :: 'a word) i"
      by (auto simp: bit_and_iff bit_push_bit_iff)
  qed
  then show ?thesis by (simp add: disjunctive_add_eq_or)
qed

lemma push_bit_of_nat_word: "push_bit k (of_nat n :: 'a::len word) = of_nat (2 ^ k * n)"
  by (simp add: push_bit_eq_mult mult.commute)

lemma ucast_and_127: "ucast (b AND 127) = (of_nat (unat b mod 128) :: 'a::len word)" for b :: byte
  by (metis of_nat_unat unat_and_127)

lemma byte_and_128_neq: "b AND 128 \<noteq> 0 \<longleftrightarrow> 128 \<le> unat (b :: byte)"
  by (simp add: byte_and_128 not_less)

lemma or_push_bit_accum:
  assumes "r < 2 ^ k"
  shows "(of_nat r :: 'a::len word) OR push_bit k (ucast (b AND 127)) =
    of_nat (r + 2 ^ k * (unat (b :: byte) mod 128))"
proof -
  have "unat (of_nat r :: 'a word) \<le> r" by (simp add: unsigned_of_nat)
  with assms(1) have "unat (of_nat r :: 'a word) < 2 ^ k" by linarith
  then have "(of_nat r :: 'a word) OR push_bit k (of_nat (unat b mod 128)) =
      of_nat r + push_bit k (of_nat (unat b mod 128))" by (rule or_push_bit_add)
  then show ?thesis by (simp only: ucast_and_127 push_bit_of_nat_word of_nat_add)
qed

lemma varint_accum_less:
  assumes "r < 2 ^ (7 * k)"
  shows "r + 2 ^ (7 * k) * (m mod 128) < (2 :: nat) ^ (7 * Suc k)"
proof -
  have "m mod 128 \<le> 127" using mod_less_divisor [of 128 m] by linarith
  then have "2 ^ (7 * k) * (m mod 128) \<le> 2 ^ (7 * k) * 127" by (rule mult_le_mono2)
  with assms have "r + 2 ^ (7 * k) * (m mod 128) < 2 ^ (7 * k) * 128" by linarith
  also have "\<dots> = 2 ^ (7 * Suc k)" by (simp add: power_add)
  finally show ?thesis .
qed

lemma byte_and_112: "unat b < 128 \<Longrightarrow> b AND 112 = 0 \<longleftrightarrow> unat (b :: byte) < 16"
proof -
  assume "unat b < 128"
  moreover have "\<forall>n \<in> set [0..<128]. ((of_nat n :: byte) AND 112 = 0) = (n < 16)" by code_simp
  ultimately have "((of_nat (unat b) :: byte) AND 112 = 0) = (unat b < 16)"
    by (metis atLeastLessThan_iff set_upt zero_le)
  then show ?thesis by simp
qed
lemma byte_and_127: "b AND 127 = 0 \<longleftrightarrow> unat (b :: byte) mod 128 = 0"
  by (metis unat_and_127 unat_eq_0)

lemma varint_accum_append:
  assumes "r < 2 ^ i" "v < 2 ^ j"
  shows "r + 2 ^ i * v < (2 :: nat) ^ (i + j)"
proof -
  from assms(2) have "2 ^ i * (v + 1) \<le> 2 ^ i * 2 ^ j" by (intro mult_le_mono2) simp
  with assms(1) show ?thesis by (simp add: power_add)
qed

lemma or_push_byte:
  assumes "r < 2 ^ k"
  shows "(of_nat r :: 'a::len word) OR push_bit k (ucast b) = of_nat (r + 2 ^ k * unat (b :: byte))"
proof -
  have "unat (of_nat r :: 'a word) \<le> r" by (simp add: unsigned_of_nat)
  with assms have "unat (of_nat r :: 'a word) < 2 ^ k" by linarith
  then have "(of_nat r :: 'a word) OR push_bit k (of_nat (unat b)) =
      of_nat r + push_bit k (of_nat (unat b))" by (rule or_push_bit_add)
  moreover have "ucast b = (of_nat (unat b) :: 'a word)" by simp
  ultimately show ?thesis by (simp only: push_bit_of_nat_word of_nat_add)
qed

lemma unat_and_1: "unat (x AND 1) = unat (x :: 'a::len word) mod 2"
proof -
  have "x AND 1 = take_bit 1 x" by (simp add: take_bit_eq_mask)
  then show ?thesis by (simp only: unat_take_bit_word) simp
qed

lemma unat_and_7: "unat (x AND 7) = unat (x :: 'a::len word) mod 8"
proof -
  have "x AND 7 = take_bit 3 x" by (simp add: take_bit_eq_mask mask_eq_exp_minus_1)
  then show ?thesis by (simp add: unat_take_bit_word)
qed

section \<open>Lists\<close>

lemma take_append_update:
  "i \<le> length xs \<Longrightarrow> take i xs @ take n ys @ drop (i + n) xs = xs
     \<longleftrightarrow> take n ys @ drop (i + n) xs = drop i xs"
  by (metis append_take_drop_id same_append_eq)

lemma length_le_take_drop: "n \<le> length xs \<Longrightarrow> length (take n xs) = n"
  by simp

end
