(* ===== verification/Pb_Types.thy ===== *)
theory Pb_Types
  imports Nanopb_Prelude
begin

text \<open>
  The declarations of \<^verbatim>\<open>nanopb/pb.h\<close>: the field type bits, the field descriptor, wire types,
  error macros, and the macros from which the generated descriptor tables are written.
  The macros take C structures as arguments and read member offsets and sizes off them; a
  structure is modelled by its layout, computed by the rules of the platform ABI.
\<close>

section \<open>Field type bits\<close>

type_synonym pb_type = "8 word"
type_synonym pb_size_t = "32 word"
type_synonym pb_ssize_t = "32 word" \<comment> \<open>signed: read through \<open>scast\<close>\<close>

definition PB_LTYPE_BOOL :: pb_type where [pb_consts]: "PB_LTYPE_BOOL = 0x00"
definition PB_LTYPE_VARINT :: pb_type where [pb_consts]: "PB_LTYPE_VARINT = 0x01"
definition PB_LTYPE_UVARINT :: pb_type where [pb_consts]: "PB_LTYPE_UVARINT = 0x02"
definition PB_LTYPE_SVARINT :: pb_type where [pb_consts]: "PB_LTYPE_SVARINT = 0x03"
definition PB_LTYPE_FIXED32 :: pb_type where [pb_consts]: "PB_LTYPE_FIXED32 = 0x04"
definition PB_LTYPE_FIXED64 :: pb_type where [pb_consts]: "PB_LTYPE_FIXED64 = 0x05"
definition PB_LTYPE_LAST_PACKABLE :: pb_type where [pb_consts]: "PB_LTYPE_LAST_PACKABLE = 0x05"
definition PB_LTYPE_BYTES :: pb_type where [pb_consts]: "PB_LTYPE_BYTES = 0x06"
definition PB_LTYPE_STRING :: pb_type where [pb_consts]: "PB_LTYPE_STRING = 0x07"
definition PB_LTYPE_SUBMESSAGE :: pb_type where [pb_consts]: "PB_LTYPE_SUBMESSAGE = 0x08"
definition PB_LTYPE_EXTENSION :: pb_type where [pb_consts]: "PB_LTYPE_EXTENSION = 0x09"
definition PB_LTYPE_FIXED_LENGTH_BYTES :: pb_type
  where [pb_consts]: "PB_LTYPE_FIXED_LENGTH_BYTES = 0x0A"
definition PB_LTYPES_COUNT :: nat where [pb_consts]: "PB_LTYPES_COUNT = 0x0B"
definition PB_LTYPE_MASK :: pb_type where [pb_consts]: "PB_LTYPE_MASK = 0x0F"

definition PB_HTYPE_REQUIRED :: pb_type where [pb_consts]: "PB_HTYPE_REQUIRED = 0x00"
definition PB_HTYPE_OPTIONAL :: pb_type where [pb_consts]: "PB_HTYPE_OPTIONAL = 0x10"
definition PB_HTYPE_REPEATED :: pb_type where [pb_consts]: "PB_HTYPE_REPEATED = 0x20"
definition PB_HTYPE_ONEOF :: pb_type where [pb_consts]: "PB_HTYPE_ONEOF = 0x30"
definition PB_HTYPE_MASK :: pb_type where [pb_consts]: "PB_HTYPE_MASK = 0x30"

definition PB_ATYPE_STATIC :: pb_type where [pb_consts]: "PB_ATYPE_STATIC = 0x00"
definition PB_ATYPE_POINTER :: pb_type where [pb_consts]: "PB_ATYPE_POINTER = 0x80"
definition PB_ATYPE_CALLBACK :: pb_type where [pb_consts]: "PB_ATYPE_CALLBACK = 0x40"
definition PB_ATYPE_MASK :: pb_type where [pb_consts]: "PB_ATYPE_MASK = 0xC0"

definition PB_ATYPE :: "pb_type \<Rightarrow> pb_type" where "PB_ATYPE x = x AND PB_ATYPE_MASK"
definition PB_HTYPE :: "pb_type \<Rightarrow> pb_type" where "PB_HTYPE x = x AND PB_HTYPE_MASK"
definition PB_LTYPE :: "pb_type \<Rightarrow> pb_type" where "PB_LTYPE x = x AND PB_LTYPE_MASK"

definition PB_SIZE_MAX :: pb_size_t where [pb_consts]: "PB_SIZE_MAX = - 1"
definition PB_MAX_REQUIRED_FIELDS :: "32 word" where [pb_consts]: "PB_MAX_REQUIRED_FIELDS = 64"

lemmas pb_type_defs = PB_ATYPE_def PB_HTYPE_def PB_LTYPE_def pb_consts

section \<open>Field descriptors and wire types\<close>

record pb_field =
  pf_tag :: pb_size_t
  pf_type :: pb_type
  pf_data_offset :: pb_size_t
  pf_size_offset :: pb_ssize_t
  pf_data_size :: pb_size_t
  pf_array_size :: pb_size_t
  pf_ptr :: addr

text \<open>
  \<open>pb_wire_type_t\<close> is a C enum; the decoder casts any three bits to it, so it is kept as
  an unsigned number and the four enumerators are constants.
\<close>

type_synonym pb_wire_type = "32 word"

definition PB_WT_VARINT :: pb_wire_type where [pb_consts]: "PB_WT_VARINT = 0"
definition PB_WT_64BIT :: pb_wire_type where [pb_consts]: "PB_WT_64BIT = 1"
definition PB_WT_STRING :: pb_wire_type where [pb_consts]: "PB_WT_STRING = 2"
definition PB_WT_32BIT :: pb_wire_type where [pb_consts]: "PB_WT_32BIT = 5"

text \<open>
  Layout of \<open>struct pb_bytes_array_s\<close> (a 32-bit size, then the bytes) and the allocation size
  of an array of \<open>n\<close> bytes.
\<close>

definition pb_bytes_array_offsetof_bytes :: size_t where
  [pb_consts]: "pb_bytes_array_offsetof_bytes = 4"

definition PB_BYTES_ARRAY_T_ALLOCSIZE :: "size_t \<Rightarrow> size_t" where
  "PB_BYTES_ARRAY_T_ALLOCSIZE n = n + pb_bytes_array_offsetof_bytes"

section \<open>Error messages\<close>

text \<open>\<open>PB_SET_ERROR\<close> keeps an error message that has been set before.\<close>

definition PB_SET_ERROR :: "string option \<Rightarrow> string \<Rightarrow> string option" where
  "PB_SET_ERROR errmsg msg = (case errmsg of None \<Rightarrow> Some msg | Some m \<Rightarrow> Some m)"

definition PB_GET_ERROR :: "string option \<Rightarrow> string" where
  "PB_GET_ERROR errmsg = (case errmsg of None \<Rightarrow> ''(none)'' | Some m \<Rightarrow> m)"

lemma PB_SET_ERROR_not_None [simp]: "PB_SET_ERROR e m \<noteq> None"
  by (simp add: PB_SET_ERROR_def split: option.splits)

lemma PB_SET_ERROR_None [simp]: "PB_SET_ERROR None m = Some m"
  by (simp add: PB_SET_ERROR_def)

lemma PB_SET_ERROR_Some [simp]: "PB_SET_ERROR (Some e) m = Some e"
  by (simp add: PB_SET_ERROR_def)

section \<open>Structure layouts\<close>

text \<open>
  The part of the C type system the generated structures use. \<open>CPtr n\<close> is a pointer to an
  object of size \<open>n\<close>; \<open>CArr k t\<close> is an array of \<open>k\<close> items; \<open>CStruct sz al\<close> is a nested
  structure of the given size and alignment.
\<close>

datatype ctype = CBool | CInt8 | CInt16 | CInt32 | CInt64 | CEnum | CSize | CPtr nat
  | CStruct nat nat | CArr nat ctype

primrec csizeof :: "ctype \<Rightarrow> nat" where
  "csizeof CBool = 1"
| "csizeof CInt8 = 1"
| "csizeof CInt16 = 2"
| "csizeof CInt32 = 4"
| "csizeof CInt64 = 8"
| "csizeof CEnum = 4"
| "csizeof CSize = 4"
| "csizeof (CPtr n) = 8"
| "csizeof (CStruct sz al) = sz"
| "csizeof (CArr k t) = k * csizeof t"

primrec calignof :: "ctype \<Rightarrow> nat" where
  "calignof CBool = 1"
| "calignof CInt8 = 1"
| "calignof CInt16 = 2"
| "calignof CInt32 = 4"
| "calignof CInt64 = 8"
| "calignof CEnum = 4"
| "calignof CSize = 4"
| "calignof (CPtr n) = 8"
| "calignof (CStruct sz al) = al"
| "calignof (CArr k t) = calignof t"

text \<open>\<open>sizeof(m[0])\<close>: the item size of an array, the size of what a pointer points to.\<close>

fun csizeof_item :: "ctype \<Rightarrow> nat" where
  "csizeof_item (CPtr n) = n"
| "csizeof_item (CArr k t) = csizeof t"
| "csizeof_item t = csizeof t"

definition align_up :: "nat \<Rightarrow> nat \<Rightarrow> nat" where
  "align_up n a = (n + a - 1) div a * a"

text \<open>
  A structure is the list of its members in order; each member is the list of the alternatives
  that share its storage, a single one for an ordinary member and several for a union.
\<close>

type_synonym cmember = "(string \<times> ctype) list"
type_synonym cstruct = "cmember list"

definition memb :: "string \<Rightarrow> ctype \<Rightarrow> cmember" where
  "memb n t = [(n, t)]"

definition memb_align :: "cmember \<Rightarrow> nat" where
  "memb_align alts = Max (set (1 # map (calignof \<circ> snd) alts))"

definition memb_size :: "cmember \<Rightarrow> nat" where
  "memb_size alts = align_up (Max (set (0 # map (csizeof \<circ> snd) alts))) (memb_align alts)"

text \<open>Offset of a member, the first member being placed at \<open>off\<close> (aligned upwards).\<close>

fun offset_from :: "nat \<Rightarrow> cstruct \<Rightarrow> string \<Rightarrow> nat" where
  "offset_from off [] m = 0"
| "offset_from off (alts # ms) m =
     (let o' = align_up off (memb_align alts)
      in if m \<in> set (map fst alts) then o' else offset_from (o' + memb_size alts) ms m)"

fun end_from :: "nat \<Rightarrow> cstruct \<Rightarrow> nat" where
  "end_from off [] = off"
| "end_from off (alts # ms) = end_from (align_up off (memb_align alts) + memb_size alts) ms"

definition struct_align :: "cstruct \<Rightarrow> nat" where
  "struct_align st = Max (set (1 # map memb_align st))"

definition struct_size :: "cstruct \<Rightarrow> nat" where
  "struct_size st = align_up (end_from 0 st) (struct_align st)"

definition offsetof :: "cstruct \<Rightarrow> string \<Rightarrow> nat" where
  "offsetof st m = offset_from 0 st m"

definition member_type :: "cstruct \<Rightarrow> string \<Rightarrow> ctype" where
  "member_type st m = (case map_of (concat st) m of None \<Rightarrow> CBool | Some t \<Rightarrow> t)"

section \<open>The macros of the descriptor tables\<close>

definition pb_membersize :: "cstruct \<Rightarrow> string \<Rightarrow> nat" where
  "pb_membersize st m = csizeof (member_type st m)"

definition pb_itemsize :: "cstruct \<Rightarrow> string \<Rightarrow> nat" where
  "pb_itemsize st m = csizeof_item (member_type st m)"

definition pb_arraysize :: "cstruct \<Rightarrow> string \<Rightarrow> nat" where
  "pb_arraysize st m = pb_membersize st m div pb_itemsize st m"

definition pb_delta :: "cstruct \<Rightarrow> string \<Rightarrow> string \<Rightarrow> int" where
  "pb_delta st m1 m2 = int (offsetof st m1) - int (offsetof st m2)"

definition PB_LAST_FIELD :: pb_field where
  "PB_LAST_FIELD = \<lparr>pf_tag = 0, pf_type = 0, pf_data_offset = 0, pf_size_offset = 0,
     pf_data_size = 0, pf_array_size = 0, pf_ptr = 0\<rparr>"

datatype pb_placement = P_FIRST | P_OTHER | P_UNION | P_CHOOSE

definition PB_DATAOFFSET_FIRST :: "cstruct \<Rightarrow> string \<Rightarrow> string \<Rightarrow> pb_size_t" where
  "PB_DATAOFFSET_FIRST st m1 m2 = of_nat (offsetof st m1)"

definition PB_DATAOFFSET_OTHER :: "cstruct \<Rightarrow> string \<Rightarrow> string \<Rightarrow> pb_size_t" where
  "PB_DATAOFFSET_OTHER st m1 m2 =
     of_nat (offsetof st m1) - of_nat (offsetof st m2) - of_nat (pb_membersize st m2)"

definition PB_DATAOFFSET_UNION :: "cstruct \<Rightarrow> string \<Rightarrow> string \<Rightarrow> pb_size_t" where
  "PB_DATAOFFSET_UNION st m1 m2 = PB_SIZE_MAX"

definition PB_DATAOFFSET_CHOOSE :: "cstruct \<Rightarrow> string \<Rightarrow> string \<Rightarrow> pb_size_t" where
  "PB_DATAOFFSET_CHOOSE st m1 m2 =
     (if offsetof st m1 = offsetof st m2 then PB_DATAOFFSET_FIRST st m1 m2
      else PB_DATAOFFSET_OTHER st m1 m2)"

definition PB_DATAOFFSET :: "pb_placement \<Rightarrow> cstruct \<Rightarrow> string \<Rightarrow> string \<Rightarrow> pb_size_t" where
  "PB_DATAOFFSET p = (case p of
      P_FIRST \<Rightarrow> PB_DATAOFFSET_FIRST
    | P_OTHER \<Rightarrow> PB_DATAOFFSET_OTHER
    | P_UNION \<Rightarrow> PB_DATAOFFSET_UNION
    | P_CHOOSE \<Rightarrow> PB_DATAOFFSET_CHOOSE)"

text \<open>A descriptor initialiser \<^verbatim>\<open>{tag, type, data_offset, size_offset, data_size, array_size, ptr}\<close>.\<close>

definition pb_field_init ::
  "pb_size_t \<Rightarrow> pb_type \<Rightarrow> pb_size_t \<Rightarrow> int \<Rightarrow> nat \<Rightarrow> nat \<Rightarrow> addr \<Rightarrow> pb_field" where
  "pb_field_init tag type doff soff dsize asize ptr =
     \<lparr>pf_tag = tag, pf_type = type, pf_data_offset = doff, pf_size_offset = of_int soff,
      pf_data_size = of_nat dsize, pf_array_size = of_nat asize, pf_ptr = ptr\<rparr>"

type_synonym field_macro =
  "pb_size_t \<Rightarrow> cstruct \<Rightarrow> string \<Rightarrow> pb_size_t \<Rightarrow> pb_type \<Rightarrow> addr \<Rightarrow> pb_field"

definition PB_REQUIRED_STATIC :: field_macro where
  "PB_REQUIRED_STATIC tag st m fd ltype ptr =
     pb_field_init tag (PB_ATYPE_STATIC OR PB_HTYPE_REQUIRED OR ltype) fd 0
       (pb_membersize st m) 0 ptr"

definition PB_OPTIONAL_STATIC :: field_macro where
  "PB_OPTIONAL_STATIC tag st m fd ltype ptr =
     pb_field_init tag (PB_ATYPE_STATIC OR PB_HTYPE_OPTIONAL OR ltype) fd
       (pb_delta st (''has_'' @ m) m) (pb_membersize st m) 0 ptr"

definition PB_SINGULAR_STATIC :: field_macro where
  "PB_SINGULAR_STATIC tag st m fd ltype ptr =
     pb_field_init tag (PB_ATYPE_STATIC OR PB_HTYPE_OPTIONAL OR ltype) fd 0
       (pb_membersize st m) 0 ptr"

definition PB_REPEATED_STATIC :: field_macro where
  "PB_REPEATED_STATIC tag st m fd ltype ptr =
     pb_field_init tag (PB_ATYPE_STATIC OR PB_HTYPE_REPEATED OR ltype) fd
       (pb_delta st (m @ ''_count'') m) (pb_itemsize st m) (pb_arraysize st m) ptr"

definition PB_REQUIRED_POINTER :: field_macro where
  "PB_REQUIRED_POINTER tag st m fd ltype ptr =
     pb_field_init tag (PB_ATYPE_POINTER OR PB_HTYPE_REQUIRED OR ltype) fd 0
       (pb_itemsize st m) 0 ptr"

definition PB_OPTIONAL_POINTER :: field_macro where
  "PB_OPTIONAL_POINTER tag st m fd ltype ptr =
     pb_field_init tag (PB_ATYPE_POINTER OR PB_HTYPE_OPTIONAL OR ltype) fd 0
       (pb_itemsize st m) 0 ptr"

definition PB_SINGULAR_POINTER :: field_macro where
  "PB_SINGULAR_POINTER tag st m fd ltype ptr =
     pb_field_init tag (PB_ATYPE_POINTER OR PB_HTYPE_OPTIONAL OR ltype) fd 0
       (pb_itemsize st m) 0 ptr"

definition PB_REPEATED_POINTER :: field_macro where
  "PB_REPEATED_POINTER tag st m fd ltype ptr =
     pb_field_init tag (PB_ATYPE_POINTER OR PB_HTYPE_REPEATED OR ltype) fd
       (pb_delta st (m @ ''_count'') m) (pb_itemsize st m) 0 ptr"

definition PB_REQUIRED_CALLBACK :: field_macro where
  "PB_REQUIRED_CALLBACK tag st m fd ltype ptr =
     pb_field_init tag (PB_ATYPE_CALLBACK OR PB_HTYPE_REQUIRED OR ltype) fd 0
       (pb_membersize st m) 0 ptr"

definition PB_OPTIONAL_CALLBACK :: field_macro where
  "PB_OPTIONAL_CALLBACK tag st m fd ltype ptr =
     pb_field_init tag (PB_ATYPE_CALLBACK OR PB_HTYPE_OPTIONAL OR ltype) fd 0
       (pb_membersize st m) 0 ptr"

definition PB_SINGULAR_CALLBACK :: field_macro where
  "PB_SINGULAR_CALLBACK tag st m fd ltype ptr =
     pb_field_init tag (PB_ATYPE_CALLBACK OR PB_HTYPE_OPTIONAL OR ltype) fd 0
       (pb_membersize st m) 0 ptr"

definition PB_REPEATED_CALLBACK :: field_macro where
  "PB_REPEATED_CALLBACK tag st m fd ltype ptr =
     pb_field_init tag (PB_ATYPE_CALLBACK OR PB_HTYPE_REPEATED OR ltype) fd 0
       (pb_membersize st m) 0 ptr"

definition PB_OPTEXT_STATIC :: field_macro where
  "PB_OPTEXT_STATIC tag st m fd ltype ptr =
     pb_field_init tag (PB_ATYPE_STATIC OR PB_HTYPE_REQUIRED OR ltype) 0 0
       (pb_membersize st m) 0 ptr"

definition PB_OPTEXT_POINTER :: field_macro where
  "PB_OPTEXT_POINTER tag st m fd ltype ptr = PB_OPTIONAL_POINTER tag st m fd ltype ptr"

definition PB_OPTEXT_CALLBACK :: field_macro where
  "PB_OPTEXT_CALLBACK tag st m fd ltype ptr = PB_OPTIONAL_CALLBACK tag st m fd ltype ptr"

datatype pb_proto_type = T_BOOL | T_BYTES | T_DOUBLE | T_ENUM | T_UENUM | T_FIXED32 | T_FIXED64
  | T_FLOAT | T_INT32 | T_INT64 | T_MESSAGE | T_SFIXED32 | T_SFIXED64 | T_SINT32 | T_SINT64
  | T_STRING | T_UINT32 | T_UINT64 | T_EXTENSION | T_FIXED_LENGTH_BYTES

primrec PB_LTYPE_MAP :: "pb_proto_type \<Rightarrow> pb_type" where
  "PB_LTYPE_MAP T_BOOL = PB_LTYPE_BOOL"
| "PB_LTYPE_MAP T_BYTES = PB_LTYPE_BYTES"
| "PB_LTYPE_MAP T_DOUBLE = PB_LTYPE_FIXED64"
| "PB_LTYPE_MAP T_ENUM = PB_LTYPE_VARINT"
| "PB_LTYPE_MAP T_UENUM = PB_LTYPE_UVARINT"
| "PB_LTYPE_MAP T_FIXED32 = PB_LTYPE_FIXED32"
| "PB_LTYPE_MAP T_FIXED64 = PB_LTYPE_FIXED64"
| "PB_LTYPE_MAP T_FLOAT = PB_LTYPE_FIXED32"
| "PB_LTYPE_MAP T_INT32 = PB_LTYPE_VARINT"
| "PB_LTYPE_MAP T_INT64 = PB_LTYPE_VARINT"
| "PB_LTYPE_MAP T_MESSAGE = PB_LTYPE_SUBMESSAGE"
| "PB_LTYPE_MAP T_SFIXED32 = PB_LTYPE_FIXED32"
| "PB_LTYPE_MAP T_SFIXED64 = PB_LTYPE_FIXED64"
| "PB_LTYPE_MAP T_SINT32 = PB_LTYPE_SVARINT"
| "PB_LTYPE_MAP T_SINT64 = PB_LTYPE_SVARINT"
| "PB_LTYPE_MAP T_STRING = PB_LTYPE_STRING"
| "PB_LTYPE_MAP T_UINT32 = PB_LTYPE_UVARINT"
| "PB_LTYPE_MAP T_UINT64 = PB_LTYPE_UVARINT"
| "PB_LTYPE_MAP T_EXTENSION = PB_LTYPE_EXTENSION"
| "PB_LTYPE_MAP T_FIXED_LENGTH_BYTES = PB_LTYPE_FIXED_LENGTH_BYTES"

datatype pb_rules = R_REQUIRED | R_OPTIONAL | R_SINGULAR | R_REPEATED | R_OPTEXT

datatype pb_alloc = A_STATIC | A_POINTER | A_CALLBACK

text \<open>The token pasting \<^verbatim>\<open>PB_ ## rules ## _ ## allocation\<close>.\<close>

fun pb_field_macro :: "pb_rules \<Rightarrow> pb_alloc \<Rightarrow> field_macro" where
  "pb_field_macro R_REQUIRED A_STATIC = PB_REQUIRED_STATIC"
| "pb_field_macro R_REQUIRED A_POINTER = PB_REQUIRED_POINTER"
| "pb_field_macro R_REQUIRED A_CALLBACK = PB_REQUIRED_CALLBACK"
| "pb_field_macro R_OPTIONAL A_STATIC = PB_OPTIONAL_STATIC"
| "pb_field_macro R_OPTIONAL A_POINTER = PB_OPTIONAL_POINTER"
| "pb_field_macro R_OPTIONAL A_CALLBACK = PB_OPTIONAL_CALLBACK"
| "pb_field_macro R_SINGULAR A_STATIC = PB_SINGULAR_STATIC"
| "pb_field_macro R_SINGULAR A_POINTER = PB_SINGULAR_POINTER"
| "pb_field_macro R_SINGULAR A_CALLBACK = PB_SINGULAR_CALLBACK"
| "pb_field_macro R_REPEATED A_STATIC = PB_REPEATED_STATIC"
| "pb_field_macro R_REPEATED A_POINTER = PB_REPEATED_POINTER"
| "pb_field_macro R_REPEATED A_CALLBACK = PB_REPEATED_CALLBACK"
| "pb_field_macro R_OPTEXT A_STATIC = PB_OPTEXT_STATIC"
| "pb_field_macro R_OPTEXT A_POINTER = PB_OPTEXT_POINTER"
| "pb_field_macro R_OPTEXT A_CALLBACK = PB_OPTEXT_CALLBACK"

definition PB_FIELD ::
  "pb_size_t \<Rightarrow> pb_proto_type \<Rightarrow> pb_rules \<Rightarrow> pb_alloc \<Rightarrow> pb_placement \<Rightarrow> cstruct \<Rightarrow> string
     \<Rightarrow> string \<Rightarrow> addr \<Rightarrow> pb_field" where
  "PB_FIELD tag type rules allocation placement message field prevfield ptr =
     pb_field_macro rules allocation tag message field
       (PB_DATAOFFSET placement message field prevfield) (PB_LTYPE_MAP type) ptr"

definition PB_REPEATED_FIXED_COUNT ::
  "pb_size_t \<Rightarrow> pb_proto_type \<Rightarrow> pb_placement \<Rightarrow> cstruct \<Rightarrow> string \<Rightarrow> string \<Rightarrow> addr \<Rightarrow> pb_field" where
  "PB_REPEATED_FIXED_COUNT tag type placement message field prevfield ptr =
     pb_field_init tag (PB_ATYPE_STATIC OR PB_HTYPE_REPEATED OR PB_LTYPE_MAP type)
       (PB_DATAOFFSET placement message field prevfield) 0
       (pb_itemsize message field) (pb_arraysize message field) ptr"

text \<open>
  Oneof fields: \<open>u\<close> is the name of the union. Its alternatives are the members named
  \<^verbatim>\<open>u.m\<close>; an anonymous union has its alternatives under their own names. There are no macros
  for callback allocation: such a table does not compile, and the last case below never arises.
\<close>

definition PB_ONEOF_STATIC :: "string \<Rightarrow> field_macro" where
  "PB_ONEOF_STATIC u tag st m fd ltype ptr =
     pb_field_init tag (PB_ATYPE_STATIC OR PB_HTYPE_ONEOF OR ltype) fd
       (pb_delta st (''which_'' @ u) (u @ ''.'' @ m)) (pb_membersize st (u @ ''.'' @ m)) 0 ptr"

definition PB_ONEOF_POINTER :: "string \<Rightarrow> field_macro" where
  "PB_ONEOF_POINTER u tag st m fd ltype ptr =
     pb_field_init tag (PB_ATYPE_POINTER OR PB_HTYPE_ONEOF OR ltype) fd
       (pb_delta st (''which_'' @ u) (u @ ''.'' @ m)) (pb_itemsize st (u @ ''.'' @ m)) 0 ptr"

definition PB_ONEOF_FIELD ::
  "string \<Rightarrow> pb_size_t \<Rightarrow> pb_proto_type \<Rightarrow> pb_alloc \<Rightarrow> pb_placement \<Rightarrow> cstruct \<Rightarrow> string
     \<Rightarrow> string \<Rightarrow> addr \<Rightarrow> pb_field" where
  "PB_ONEOF_FIELD u tag type allocation placement message field prevfield ptr =
     (case allocation of A_POINTER \<Rightarrow> PB_ONEOF_POINTER | _ \<Rightarrow> PB_ONEOF_STATIC) u tag message field
       (PB_DATAOFFSET placement message (u @ ''.'' @ field) prevfield) (PB_LTYPE_MAP type) ptr"

definition PB_ANONYMOUS_ONEOF_STATIC :: "string \<Rightarrow> field_macro" where
  "PB_ANONYMOUS_ONEOF_STATIC u tag st m fd ltype ptr =
     pb_field_init tag (PB_ATYPE_STATIC OR PB_HTYPE_ONEOF OR ltype) fd
       (pb_delta st (''which_'' @ u) m) (pb_membersize st m) 0 ptr"

definition PB_ANONYMOUS_ONEOF_POINTER :: "string \<Rightarrow> field_macro" where
  "PB_ANONYMOUS_ONEOF_POINTER u tag st m fd ltype ptr =
     pb_field_init tag (PB_ATYPE_POINTER OR PB_HTYPE_ONEOF OR ltype) fd
       (pb_delta st (''which_'' @ u) m) (pb_itemsize st m) 0 ptr"

definition PB_ANONYMOUS_ONEOF_FIELD ::
  "string \<Rightarrow> pb_size_t \<Rightarrow> pb_proto_type \<Rightarrow> pb_alloc \<Rightarrow> pb_placement \<Rightarrow> cstruct \<Rightarrow> string
     \<Rightarrow> string \<Rightarrow> addr \<Rightarrow> pb_field" where
  "PB_ANONYMOUS_ONEOF_FIELD u tag type allocation placement message field prevfield ptr =
     (case allocation of A_POINTER \<Rightarrow> PB_ANONYMOUS_ONEOF_POINTER
      | _ \<Rightarrow> PB_ANONYMOUS_ONEOF_STATIC)
       u tag message field (PB_DATAOFFSET placement message field prevfield)
       (PB_LTYPE_MAP type) ptr"

lemmas pb_macro_defs =
  PB_FIELD_def PB_REPEATED_FIXED_COUNT_def pb_field_init_def
  PB_REQUIRED_STATIC_def PB_OPTIONAL_STATIC_def PB_SINGULAR_STATIC_def PB_REPEATED_STATIC_def
  PB_REQUIRED_POINTER_def PB_OPTIONAL_POINTER_def PB_SINGULAR_POINTER_def PB_REPEATED_POINTER_def
  PB_REQUIRED_CALLBACK_def PB_OPTIONAL_CALLBACK_def PB_SINGULAR_CALLBACK_def
  PB_REPEATED_CALLBACK_def PB_OPTEXT_STATIC_def PB_OPTEXT_POINTER_def PB_OPTEXT_CALLBACK_def
  PB_DATAOFFSET_def PB_DATAOFFSET_FIRST_def PB_DATAOFFSET_OTHER_def PB_DATAOFFSET_UNION_def
  PB_DATAOFFSET_CHOOSE_def

lemmas pb_layout_defs =
  pb_membersize_def pb_itemsize_def pb_arraysize_def pb_delta_def offsetof_def member_type_def
  struct_size_def struct_align_def align_up_def memb_def memb_align_def memb_size_def

end
