(* ===== verification/Pb_Istream.thy ===== *)
theory Pb_Istream
  imports Pb_Types
begin

text \<open>
  Input streams: \<open>struct pb_istream_s\<close> of \<^verbatim>\<open>nanopb/pb_decode.h\<close>, the stream functions of
  \<^verbatim>\<open>nanopb/pb_decode.c\<close>, and the interface an input callback implements.
\<close>

section \<open>The stream structure\<close>

text \<open>
  A callback gets the stream's state, whether the destination buffer is non-null, and the number
  of bytes; it returns a flag, the bytes it stored and the new state. The function pointer
  comparison \<^verbatim>\<open>stream->callback != buf_read\<close> of \<open>pb_read\<close> is the flag \<open>is_buf_read\<close>.
\<close>

type_synonym 's icallback = "'s \<Rightarrow> bool \<Rightarrow> size_t \<Rightarrow> bool \<times> byte list \<times> 's"

record 's pb_istream =
  is_callback :: "'s icallback"
  is_buf_read :: bool
  is_state :: 's
  is_bytes_left :: size_t
  is_errmsg :: "string option"

definition is_set_error :: "string \<Rightarrow> 's pb_istream \<Rightarrow> 's pb_istream" where
  "is_set_error msg strm = strm\<lparr>is_errmsg := PB_SET_ERROR (is_errmsg strm) msg\<rparr>"

lemma is_set_error_simps [simp]:
  "is_callback (is_set_error m s) = is_callback s"
  "is_buf_read (is_set_error m s) = is_buf_read s"
  "is_state (is_set_error m s) = is_state s"
  "is_bytes_left (is_set_error m s) = is_bytes_left s"
  "is_errmsg (is_set_error m s) \<noteq> None"
  by (simp_all add: is_set_error_def)

text \<open>
  The result of a reading function: \<open>None\<close> stands for a returned \<open>false\<close>, \<open>Some v\<close> for a returned
  \<open>true\<close> with \<open>v\<close> stored at the destination.
\<close>

type_synonym ('a, 's) rd = "'a option \<times> 's pb_istream"

definition is_return_error :: "'s pb_istream \<Rightarrow> string \<Rightarrow> ('a, 's) rd" where
  "is_return_error strm msg = (None, is_set_error msg strm)"

definition rd_then :: "('a, 's) rd \<Rightarrow> ('a \<Rightarrow> 's pb_istream \<Rightarrow> ('b, 's) rd) \<Rightarrow> ('b, 's) rd" where
  "rd_then r k = (case r of (None, s) \<Rightarrow> (None, s) | (Some v, s) \<Rightarrow> k v s)"

lemma rd_then_simps [simp]:
  "rd_then (None, s) k = (None, s)"
  "rd_then (Some v, s) k = k v s"
  by (simp_all add: rd_then_def)

section \<open>Memory buffers as streams\<close>

record ibuf =
  ib_bytes :: "byte list"
  ib_next :: nat
  ib_oob :: bool

definition buf_read :: "ibuf icallback" where
  "buf_read st nonnull count =
     (let n = unat count; source = drop (ib_next st) (ib_bytes st) in
      (True, (if nonnull then take n source else []),
       \<lparr>ib_bytes = ib_bytes st, ib_next = ib_next st + n,
        ib_oob = (ib_oob st \<or> length source < n)\<rparr>))"

definition pb_istream_from_buffer :: "byte list \<Rightarrow> size_t \<Rightarrow> ibuf pb_istream" where
  "pb_istream_from_buffer buf bufsize =
     \<lparr>is_callback = buf_read, is_buf_read = True,
      is_state = \<lparr>ib_bytes = buf, ib_next = 0, ib_oob = False\<rparr>,
      is_bytes_left = bufsize, is_errmsg = None\<rparr>"

text \<open>The end of \<open>pb_read\<close>: the length check, the callback, the counter.\<close>

definition pb_read_raw :: "'s pb_istream \<Rightarrow> bool \<Rightarrow> size_t \<Rightarrow> (byte list, 's) rd" where
  "pb_read_raw strm nonnull count =
     (if is_bytes_left strm < count then is_return_error strm ''end-of-stream''
      else (case is_callback strm (is_state strm) nonnull count of
              (ok, bs, st') \<Rightarrow>
                let strm' = strm\<lparr>is_state := st'\<rparr> in
                if \<not> ok then is_return_error strm' ''io error''
                else (Some bs, strm'\<lparr>is_bytes_left := is_bytes_left strm' - count\<rparr>)))"

text \<open>Skipping on a custom stream: 16 bytes at a time into a scratch array.\<close>

function skip_loop :: "'s pb_istream \<Rightarrow> size_t \<Rightarrow> (byte list, 's) rd" where
  "skip_loop strm count =
     (if 16 < count
      then rd_then (pb_read_raw strm True 16) (\<lambda>_ strm. skip_loop strm (count - 16))
      else rd_then (pb_read_raw strm True count) (\<lambda>_ strm. (Some [], strm)))"
  by pat_completeness auto
termination
proof (relation "measure (\<lambda>(strm, count). unat count)")
  fix count :: size_t and strm s' :: "'s pb_istream"
  assume "16 < count"
  then show "((s', count - 16), strm, count) \<in> measure (\<lambda>(strm, count). unat count)"
    by (simp add: unat_sub word_less_nat_alt order_less_imp_le)
qed simp

declare skip_loop.simps [simp del]

definition pb_read :: "'s pb_istream \<Rightarrow> bool \<Rightarrow> size_t \<Rightarrow> (byte list, 's) rd" where
  "pb_read strm nonnull count =
     (if count = 0 then (Some [], strm)
      else if \<not> nonnull \<and> \<not> is_buf_read strm then skip_loop strm count
      else pb_read_raw strm nonnull count)"

definition pb_readbyte :: "'s pb_istream \<Rightarrow> (byte, 's) rd" where
  "pb_readbyte strm =
     (if is_bytes_left strm = 0 then is_return_error strm ''end-of-stream''
      else (case is_callback strm (is_state strm) True 1 of
              (ok, bs, st') \<Rightarrow>
                let strm' = strm\<lparr>is_state := st'\<rparr> in
                if \<not> ok then is_return_error strm' ''io error''
                else (Some (hd bs), strm'\<lparr>is_bytes_left := is_bytes_left strm' - 1\<rparr>)))"

text \<open>Every byte read makes the stream shorter: the measure of the decoding loops.\<close>

lemma pb_readbyte_shorter:
  assumes "pb_readbyte s = (Some b, s')"
  shows "unat (is_bytes_left s') < unat (is_bytes_left s)"
proof -
  from assms have "is_bytes_left s \<noteq> 0" "is_bytes_left s' = is_bytes_left s - 1"
    by (auto simp: pb_readbyte_def is_return_error_def Let_def split: if_splits prod.splits)
  then show ?thesis
    by (metis unat_minus_one word_unat_eq_iff unat_gt_0 diff_less zero_less_one)
qed

lemma pb_read_raw_shorter:
  assumes "pb_read_raw s w n = (Some bs, s')"
  shows "unat (is_bytes_left s') = unat (is_bytes_left s) - unat n \<and> n \<le> is_bytes_left s"
  using assms
  by (auto simp: pb_read_raw_def is_return_error_def Let_def not_less unat_sub
      split: if_splits prod.splits)

section \<open>The interface of an input callback\<close>

locale istream_callback =
  fixes cb :: "'s \<Rightarrow> bool \<Rightarrow> size_t \<Rightarrow> bool \<times> byte list \<times> 's"
    and rest :: "'s \<Rightarrow> byte list"
    and okst :: "'s \<Rightarrow> bool"
  assumes cb_delivers: "\<lbrakk>okst st; unat n \<le> length (rest st)\<rbrakk> \<Longrightarrow>
      \<exists>st'. cb st nonnull n = (True, if nonnull then take (unat n) (rest st) else [], st')
        \<and> okst st' \<and> rest st' = drop (unat n) (rest st)"

definition ib_rest :: "ibuf \<Rightarrow> byte list" where
  "ib_rest st = drop (ib_next st) (ib_bytes st)"

definition ib_ok :: "ibuf \<Rightarrow> bool" where
  "ib_ok st \<longleftrightarrow> \<not> ib_oob st \<and> ib_next st \<le> length (ib_bytes st)"

lemma buf_read_delivers:
  assumes "ib_ok st" "unat n \<le> length (ib_rest st)"
  shows "\<exists>st'. buf_read st nonnull n = (True, if nonnull then take (unat n) (ib_rest st) else [], st')
        \<and> ib_ok st' \<and> ib_rest st' = drop (unat n) (ib_rest st)"
  using assms by (auto simp: buf_read_def Let_def ib_ok_def ib_rest_def add.commute)

interpretation bufin: istream_callback buf_read ib_rest ib_ok
  by unfold_locales (rule buf_read_delivers)

context istream_callback
begin

text \<open>A well-formed stream: the callback can deliver all the bytes the counter promises.\<close>

definition istream_ok :: "'s pb_istream \<Rightarrow> bool" where
  "istream_ok s \<longleftrightarrow> is_callback s = cb \<and> okst (is_state s)
     \<and> unat (is_bytes_left s) \<le> length (rest (is_state s))"

definition input :: "'s pb_istream \<Rightarrow> byte list" where
  "input s = take (unat (is_bytes_left s)) (rest (is_state s))"

text \<open>\<open>s'\<close> is \<open>s\<close> after reading \<open>k\<close> bytes.\<close>

definition consumed :: "'s pb_istream \<Rightarrow> nat \<Rightarrow> 's pb_istream \<Rightarrow> bool" where
  "consumed s k s' \<longleftrightarrow> istream_ok s' \<and> is_buf_read s' = is_buf_read s
     \<and> rest (is_state s') = drop k (rest (is_state s))
     \<and> unat (is_bytes_left s') + k = unat (is_bytes_left s)"

text \<open>Reading that leaves the error message alone.\<close>

definition consumed_ok :: "'s pb_istream \<Rightarrow> nat \<Rightarrow> 's pb_istream \<Rightarrow> bool" where
  "consumed_ok s k s' \<longleftrightarrow> consumed s k s' \<and> is_errmsg s' = is_errmsg s"

lemma length_input: "istream_ok s \<Longrightarrow> length (input s) = unat (is_bytes_left s)"
  by (simp add: istream_ok_def input_def)

lemma consumed_input: "consumed s k s' \<Longrightarrow> input s' = drop k (input s)"
proof -
  assume c: "consumed s k s'"
  then have "unat (is_bytes_left s) = k + unat (is_bytes_left s')" by (simp add: consumed_def)
  with c show ?thesis by (simp add: consumed_def input_def take_drop add.commute)
qed

lemma consumed_ok_input: "consumed_ok s k s' \<Longrightarrow> input s' = drop k (input s)"
  by (simp add: consumed_ok_def consumed_input)

lemma consumed_istream_ok: "consumed s k s' \<Longrightarrow> istream_ok s'"
  by (simp add: consumed_def)

lemma consumed_okD:
  "consumed_ok s k s' \<Longrightarrow> istream_ok s' \<and> input s' = drop k (input s)"
  by (auto simp: consumed_ok_def consumed_input consumed_istream_ok)

lemma consumed_trans: "consumed s j s' \<Longrightarrow> consumed s' k s'' \<Longrightarrow> consumed s (j + k) s''"
  by (auto simp: consumed_def add.commute)

lemma consumed_ok_trans:
  "consumed_ok s j s' \<Longrightarrow> consumed_ok s' k s'' \<Longrightarrow> consumed_ok s (j + k) s''"
  by (auto simp: consumed_ok_def intro: consumed_trans)

lemma consumed_0: "istream_ok s \<Longrightarrow> consumed s 0 s"
  by (simp add: consumed_def)

lemma consumed_ok_0: "istream_ok s \<Longrightarrow> consumed_ok s 0 s"
  by (simp add: consumed_ok_def consumed_0)

lemma istream_ok_set_error [simp]: "istream_ok (is_set_error m s) = istream_ok s"
  by (simp add: istream_ok_def)

lemma consumed_set_error: "consumed s k s' \<Longrightarrow> consumed s k (is_set_error m s')"
  by (simp add: consumed_def)

lemma input_set_error [simp]: "input (is_set_error m s) = input s"
  by (simp add: input_def)

lemma pb_readbyte_Cons:
  assumes ok: "istream_ok s" and inp: "input s = b # bs"
  shows "\<exists>s'. pb_readbyte s = (Some b, s') \<and> consumed_ok s 1 s'"
proof -
  from ok inp have "0 < unat (is_bytes_left s)"
    using length_input by force
  then have ne: "is_bytes_left s \<noteq> 0" by auto
  from ok have "unat (1 :: 64 word) \<le> length (rest (is_state s))"
    using \<open>0 < unat (is_bytes_left s)\<close> by (simp add: istream_ok_def)
  with ok obtain st' where st': "cb (is_state s) True 1 =
      (True, take 1 (rest (is_state s)), st')" "okst st'" "rest st' = drop 1 (rest (is_state s))"
    using cb_delivers [of "is_state s" 1 True] by (auto simp: istream_ok_def)
  have "hd (take 1 (rest (is_state s))) = b"
    using inp \<open>0 < unat (is_bytes_left s)\<close>
    by (cases "rest (is_state s)") (auto simp: input_def take_Cons')
  moreover have "unat (is_bytes_left s - 1) = unat (is_bytes_left s) - 1"
    using ne by (simp add: unat_minus_one)
  ultimately show ?thesis
    using ok ne st' \<open>0 < unat (is_bytes_left s)\<close>
    by (auto simp: pb_readbyte_def istream_ok_def consumed_ok_def consumed_def)
qed

lemma pb_readbyte_Nil:
  assumes ok: "istream_ok s" and inp: "input s = []"
  shows "pb_readbyte s = is_return_error s ''end-of-stream''"
proof -
  have "is_bytes_left s = 0"
    using length_input [OF ok] inp by (simp add: unat_eq_0 [symmetric])
  then show ?thesis by (simp add: pb_readbyte_def)
qed

lemma pb_read_raw_enough:
  assumes ok: "istream_ok s" and n: "unat n \<le> length (input s)"
  shows "\<exists>s'. pb_read_raw s w n = (Some (if w then take (unat n) (input s) else []), s')
      \<and> consumed_ok s (unat n) s'"
proof -
  have le: "unat n \<le> unat (is_bytes_left s)"
    using n length_input [OF ok] by simp
  with ok have "unat n \<le> length (rest (is_state s))" by (simp add: istream_ok_def)
  with ok obtain st' where st': "cb (is_state s) w n =
      (True, if w then take (unat n) (rest (is_state s)) else [], st')" "okst st'"
      "rest st' = drop (unat n) (rest (is_state s))"
    using cb_delivers [of "is_state s" n w] by (auto simp: istream_ok_def)
  have "\<not> is_bytes_left s < n" "unat (is_bytes_left s - n) = unat (is_bytes_left s) - unat n"
    using le by (simp_all add: word_less_nat_alt unat_sub word_le_nat_alt)
  then show ?thesis
    using ok st' le
    by (auto simp: pb_read_raw_def istream_ok_def consumed_ok_def consumed_def input_def min_absorb1)
qed

lemma pb_read_raw_short:
  assumes ok: "istream_ok s" and n: "length (input s) < unat n"
  shows "pb_read_raw s w n = is_return_error s ''end-of-stream''"
  using n length_input [OF ok] by (simp add: pb_read_raw_def word_less_nat_alt)

lemma skip_loop_enough:
  assumes "istream_ok s" "unat n \<le> length (input s)"
  shows "\<exists>s'. skip_loop s n = (Some [], s') \<and> consumed_ok s (unat n) s'"
  using assms
proof (induction s n rule: skip_loop.induct)
  case (1 s n)
  show ?case
  proof (cases "16 < n")
    case False
    from pb_read_raw_enough [OF "1.prems", of True]
    obtain s' where "pb_read_raw s True n = (Some (take (unat n) (input s)), s')"
      "consumed_ok s (unat n) s'" by auto
    with False show ?thesis by (simp add: skip_loop.simps [of s n])
  next
    case True
    then have n16: "unat n = 16 + unat (n - 16)"
      by (simp add: unat_sub word_less_nat_alt order_less_imp_le)
    with "1.prems" have "unat (16 :: 64 word) \<le> length (input s)" by simp
    from pb_read_raw_enough [OF "1.prems"(1) this, of True]
    obtain s1 where s1: "pb_read_raw s True 16 = (Some (take 16 (input s)), s1)"
      "consumed_ok s 16 s1" by auto
    then have "istream_ok s1" "input s1 = drop 16 (input s)"
      by (auto simp: consumed_ok_def consumed_def consumed_ok_input)
    moreover from this n16 "1.prems" have "unat (n - 16) \<le> length (input s1)" by simp
    ultimately obtain s2 where
      s2: "skip_loop s1 (n - 16) = (Some [], s2)" "consumed_ok s1 (unat (n - 16)) s2"
      using "1.IH" [OF True] by blast
    have "consumed_ok s (unat n) s2"
      using consumed_ok_trans [OF s1(2) s2(2)] n16 by simp
    with True s1 s2 show ?thesis by (simp add: skip_loop.simps [of s n])
  qed
qed

text \<open>\<open>pb_read\<close> on a long enough stream, whether it stores or skips.\<close>

lemma pb_read_enough:
  assumes ok: "istream_ok s" and n: "unat n \<le> length (input s)"
  shows "\<exists>s'. pb_read s w n = (Some (if w then take (unat n) (input s) else []), s')
      \<and> consumed_ok s (unat n) s'"
proof (cases "n = 0")
  case True
  with ok show ?thesis by (simp add: pb_read_def consumed_ok_0)
next
  case False
  with skip_loop_enough [OF ok n] pb_read_raw_enough [OF ok n, of w] show ?thesis
    by (auto simp: pb_read_def)
qed

end

end
