(* ===== verification/Pb_Wire.thy ===== *)
theory Pb_Wire
  imports Nanopb_Prelude
begin

text \<open>
  The protocol buffer wire format, as a specification: base-128 varints, zigzag numbers,
  little-endian words. Encoder and decoder are both proved against these definitions.
\<close>

section \<open>Varints\<close>

fun varint_bytes :: "nat \<Rightarrow> byte list" where
  "varint_bytes n =
     (if n < 128 then [of_nat n] else of_nat (n mod 128 + 128) # varint_bytes (n div 128))"

declare varint_bytes.simps [simp del]

lemma varint_bytes_small: "n < 128 \<Longrightarrow> varint_bytes n = [of_nat n]"
  by (simp add: varint_bytes.simps)

lemma varint_bytes_big:
  "128 \<le> n \<Longrightarrow> varint_bytes n = of_nat (n mod 128 + 128) # varint_bytes (n div 128)"
  by (simp add: varint_bytes.simps [of n])

text \<open>A varint on the wire: continuation bytes have the top bit set, the last byte has not.\<close>

fun is_varint :: "byte list \<Rightarrow> bool" where
  "is_varint [] = False"
| "is_varint [b] = (unat b < 128)"
| "is_varint (b # bs) = (128 \<le> unat b \<and> is_varint bs)"

fun varint_val :: "byte list \<Rightarrow> nat" where
  "varint_val [] = 0"
| "varint_val (b # bs) = unat b mod 128 + 128 * varint_val bs"

lemma is_varint_Cons:
  "is_varint (b # bs) \<longleftrightarrow> (if bs = [] then unat b < 128 else 128 \<le> unat b \<and> is_varint bs)"
  by (cases bs) simp_all

lemma varint_bytes_nonempty [simp]: "varint_bytes n \<noteq> []"
  by (cases "n < 128") (simp_all add: varint_bytes_small varint_bytes_big)

lemma is_varint_varint_bytes: "is_varint (varint_bytes n)"
proof (induction n rule: varint_bytes.induct)
  case (1 n)
  then show ?case
    by (cases "n < 128")
      (simp_all add: varint_bytes_small varint_bytes_big is_varint_Cons unat_of_nat_8 unat_cont_byte)
qed

lemma varint_val_varint_bytes: "varint_val (varint_bytes n) = n"
proof (induction n rule: varint_bytes.induct)
  case (1 n)
  then show ?case
    by (cases "n < 128") (simp_all add: varint_bytes_small varint_bytes_big unat_of_nat_8 unat_cont_byte)
qed

lemma length_varint_bytes:
  "n < 128 ^ k \<Longrightarrow> 0 < k \<Longrightarrow> length (varint_bytes n) \<le> k"
proof (induction k arbitrary: n)
  case 0
  then show ?case by simp
next
  case (Suc k)
  show ?case
  proof (cases "n < 128")
    case True
    then show ?thesis by (simp add: varint_bytes_small)
  next
    case False
    with Suc.prems have "k \<noteq> 0" by (cases k) auto
    moreover have "n div 128 < 128 ^ k"
      using Suc.prems by (simp add: less_mult_imp_div_less mult.commute)
    ultimately show ?thesis
      using False Suc.IH [of "n div 128"] by (simp add: varint_bytes_big)
  qed
qed

lemma length_varint_bytes_64: "n < 2 ^ 64 \<Longrightarrow> length (varint_bytes n) \<le> 10"
  by (rule length_varint_bytes) simp_all

lemma length_varint_bytes_32: "n < 2 ^ 32 \<Longrightarrow> length (varint_bytes n) \<le> 5"
  by (rule length_varint_bytes) simp_all

lemma varint_bytes_inject [simp]: "varint_bytes m = varint_bytes n \<longleftrightarrow> m = n"
  by (metis varint_val_varint_bytes)

text \<open>Varints are self-delimiting.\<close>

lemma is_varint_prefix_unique:
  "is_varint a \<Longrightarrow> is_varint b \<Longrightarrow> a @ x = b @ y \<Longrightarrow> a = b \<and> x = y"
proof (induction a arbitrary: b)
  case Nil
  then show ?case by simp
next
  case (Cons c a)
  then obtain b' where b: "b = c # b'" by (cases b) auto
  show ?case
  proof (cases "a = [] \<or> b' = []")
    case True
    with Cons.prems b show ?thesis by (auto simp: is_varint_Cons split: if_splits)
  next
    case False
    with Cons.prems b have "is_varint a" "is_varint b'" "a @ x = b' @ y"
      by (simp_all add: is_varint_Cons)
    from Cons.IH [OF this] b show ?thesis by simp
  qed
qed

text \<open>The continuation bytes of the lowest \<open>k\<close> groups of a number.\<close>

lemma varint_bytes_split:
  "128 ^ k \<le> n \<Longrightarrow> \<exists>cs. varint_bytes n = cs @ varint_bytes (n div 128 ^ k) \<and> length cs = k
     \<and> (\<forall>c \<in> set cs. 128 \<le> unat c) \<and> varint_val cs = n mod 128 ^ k"
proof (induction k arbitrary: n)
  case 0
  then show ?case by simp
next
  case (Suc k)
  have "(1 :: nat) \<le> 128 ^ k" by simp
  then have n: "128 \<le> n" using Suc.prems by (simp add: order_trans [rotated])
  have "128 ^ k \<le> n div 128" using Suc.prems by (simp add: less_eq_div_iff_mult_less_eq mult.commute)
  from Suc.IH [OF this] obtain cs where cs: "varint_bytes (n div 128) = cs @ varint_bytes (n div 128 div 128 ^ k)"
    "length cs = k" "\<forall>c \<in> set cs. 128 \<le> unat c" "varint_val cs = n div 128 mod 128 ^ k" by blast
  let ?c = "of_nat (n mod 128 + 128) :: byte"
  have u: "unat ?c = n mod 128 + 128" using unat_cont_byte [of "n mod 128"] by simp
  have "varint_bytes n = (?c # cs) @ varint_bytes (n div 128 ^ Suc k)"
    using n cs(1) by (simp add: varint_bytes_big div_mult2_eq)
  moreover have "varint_val (?c # cs) = n mod 128 ^ Suc k"
    using u cs(4) mod_mult2_eq [of n 128 "128 ^ k"] by (simp add: algebra_simps)
  moreover have "\<forall>c \<in> set (?c # cs). 128 \<le> unat c" using u cs(3) by simp
  ultimately show ?case using cs(2) by (metis length_Cons)
qed

lemma varint_val_append: "varint_val (xs @ ys) = varint_val xs + 128 ^ length xs * varint_val ys"
  by (induction xs) (simp_all add: algebra_simps)

lemma is_varint_iff:
  "is_varint bs \<longleftrightarrow> bs \<noteq> [] \<and> (\<forall>c \<in> set (butlast bs). 128 \<le> unat c) \<and> unat (last bs) < 128"
  by (induction bs) (auto simp: is_varint_Cons)

lemma varint_val_less: "varint_val bs < 128 ^ length bs"
proof (induction bs)
  case (Cons b bs)
  have "unat b mod 128 \<le> 127" using mod_less_divisor [of 128 "unat b"] by linarith
  with Cons show ?case by simp
qed simp

lemma last_varint_bytes: "0 < n \<Longrightarrow> last (varint_bytes n) \<noteq> 0"
proof (induction n rule: varint_bytes.induct)
  case (1 n)
  show ?case
  proof (cases "n < 128")
    case True
    with "1.prems" have "unat (of_nat n :: byte) \<noteq> 0" by (simp add: unat_of_nat_8)
    with True show ?thesis by (auto simp: varint_bytes_small)
  next
    case False
    then have "0 < n div 128" by (simp add: div_greater_zero_iff)
    with 1 False show ?thesis by (simp add: varint_bytes_big)
  qed
qed

lemma varint_bytes_sign_extension: "varint_bytes 536870911 = [255, 255, 255, 255, 1]"
  by (simp add: varint_bytes.simps)

section \<open>Zigzag numbers\<close>

definition zigzag :: "int \<Rightarrow> nat" where
  "zigzag i = (if i < 0 then nat (- 2 * i - 1) else nat (2 * i))"

definition unzigzag :: "nat \<Rightarrow> int" where
  "unzigzag n = (if odd n then - int (n div 2) - 1 else int (n div 2))"

lemma unzigzag_zigzag [simp]: "unzigzag (zigzag i) = i"
proof (cases "i < 0")
  case True
  define k where "k = nat (- i - 1)"
  with True have k: "i = - int k - 1" by simp
  then have "zigzag i = 2 * k + 1" by (simp add: zigzag_def nat_add_distrib nat_mult_distrib)
  with k show ?thesis by (simp add: unzigzag_def)
next
  case False
  then show ?thesis by (auto simp: zigzag_def unzigzag_def nat_mult_distrib)
qed

lemma zigzag_unzigzag [simp]: "zigzag (unzigzag n) = n"
  by (auto simp: zigzag_def unzigzag_def elim!: oddE evenE)

section \<open>Little-endian words\<close>

fun le_bytes :: "nat \<Rightarrow> nat \<Rightarrow> byte list" where
  "le_bytes 0 n = []"
| "le_bytes (Suc k) n = of_nat (n mod 256) # le_bytes k (n div 256)"

fun le_val :: "byte list \<Rightarrow> nat" where
  "le_val [] = 0"
| "le_val (b # bs) = unat b + 256 * le_val bs"

lemma length_le_bytes [simp]: "length (le_bytes k n) = k"
  by (induction k arbitrary: n) simp_all

lemma le_bytes_4:
  "le_bytes 4 n = [of_nat (n mod 256), of_nat (n div 2 ^ 8 mod 256), of_nat (n div 2 ^ 16 mod 256),
     of_nat (n div 2 ^ 24 mod 256)]"
proof -
  have "(4 :: nat) = Suc (Suc (Suc (Suc 0)))" by simp
  then show ?thesis
    by (simp only: le_bytes.simps div_mult2_eq [symmetric]) simp
qed

lemma le_bytes_8:
  "le_bytes 8 n = [of_nat (n mod 256), of_nat (n div 2 ^ 8 mod 256), of_nat (n div 2 ^ 16 mod 256),
     of_nat (n div 2 ^ 24 mod 256), of_nat (n div 2 ^ 32 mod 256), of_nat (n div 2 ^ 40 mod 256),
     of_nat (n div 2 ^ 48 mod 256), of_nat (n div 2 ^ 56 mod 256)]"
proof -
  have "(8 :: nat) = Suc (Suc (Suc (Suc (Suc (Suc (Suc (Suc 0)))))))" by simp
  then show ?thesis
    by (simp only: le_bytes.simps div_mult2_eq [symmetric]) simp
qed

lemma le_val_bytes: "le_val (le_bytes k n) = n mod 256 ^ k"
proof (induction k arbitrary: n)
  case 0
  then show ?case by simp
next
  case (Suc k)
  have "n mod (256 * 256 ^ k) = n mod 256 + 256 * (n div 256 mod 256 ^ k)"
    using mod_mult2_eq [of n 256 "256 ^ k"] by (simp add: algebra_simps)
  with Suc show ?case by (simp add: unat_of_nat_8)
qed

lemma le_val_less: "le_val bs < 256 ^ length bs"
proof (induction bs)
  case Nil
  then show ?case by simp
next
  case (Cons b bs)
  have "unat b + 256 * le_val bs < 256 + 256 * le_val bs" by simp
  also have "\<dots> \<le> 256 * 256 ^ length bs"
    using Cons by (metis add.commute mult_Suc_right mult_le_mono2 Suc_leI)
  finally show ?case by simp
qed

lemma le_bytes_val: "le_bytes (length bs) (le_val bs) = bs"
  by (induction bs) simp_all

text \<open>The value of a little-endian prefix, extended by its next byte.\<close>

lemma le_val_append: "le_val (xs @ ys) = le_val xs + 2 ^ (8 * length xs) * le_val ys"
proof -
  have "le_val (xs @ ys) = le_val xs + 256 ^ length xs * le_val ys"
    by (induction xs) (simp_all add: algebra_simps)
  then show ?thesis by (simp add: power_mult)
qed

lemma or_le_byte:
  "(of_nat (le_val bs) :: 'a::len word) OR push_bit (8 * length bs) (ucast b) = of_nat (le_val (bs @ [b]))"
proof -
  have "le_val bs < 2 ^ (8 * length bs)" using le_val_less [of bs] by (simp add: power_mult)
  from or_push_byte [OF this, of b] show ?thesis by (simp add: le_val_append)
qed

lemma le_word_4:
  "push_bit 0 (ucast b0) OR push_bit 8 (ucast b1) OR push_bit 16 (ucast b2) OR push_bit 24 (ucast b3)
     = (of_nat (le_val [b0, b1, b2, b3]) :: 'a::len word)"
  using or_le_byte [of "[b0]" b1, where 'a = 'a] or_le_byte [of "[b0, b1]" b2, where 'a = 'a]
    or_le_byte [of "[b0, b1, b2]" b3, where 'a = 'a]
  by (simp add: or.assoc [symmetric] del: le_val.simps(2) of_nat_add) (simp add: or.assoc)

lemma le_word_8:
  "push_bit 0 (ucast b0) OR push_bit 8 (ucast b1) OR push_bit 16 (ucast b2) OR push_bit 24 (ucast b3)
     OR push_bit 32 (ucast b4) OR push_bit 40 (ucast b5) OR push_bit 48 (ucast b6) OR push_bit 56 (ucast b7)
     = (of_nat (le_val [b0, b1, b2, b3, b4, b5, b6, b7]) :: 'a::len word)"
  using le_word_4 [of b0 b1 b2 b3, where 'a = 'a] or_le_byte [of "[b0, b1, b2, b3]" b4, where 'a = 'a]
    or_le_byte [of "[b0, b1, b2, b3, b4]" b5, where 'a = 'a]
    or_le_byte [of "[b0, b1, b2, b3, b4, b5]" b6, where 'a = 'a]
    or_le_byte [of "[b0, b1, b2, b3, b4, b5, b6]" b7, where 'a = 'a]
  by (simp add: or.assoc [symmetric] del: le_val.simps(2) of_nat_add)

section \<open>Field keys\<close>

text \<open>The key of a field: the tag number shifted over the three bits of the wire type.\<close>

definition wire_key :: "u32 \<Rightarrow> u32 \<Rightarrow> nat" where
  "wire_key wt field_number = 8 * unat field_number + unat wt"

end
