(* ===== verification/Pb_Decode_Basic.thy ===== *)
theory Pb_Decode_Basic
  imports Pb_Istream Pb_Wire
begin

text \<open>
  The helper functions of \<^verbatim>\<open>nanopb/pb_decode.c\<close> that read one primitive item: varints, tags,
  fixed-width words, length-delimited substreams, and the functions that skip a field.
\<close>

section \<open>Definitions\<close>

text \<open>
  The loop of \<open>pb_decode_varint32_eof\<close>. It ends with the accumulated result, the bit position
  after the last byte and the last byte itself. \<open>bitpos\<close> is a \<open>uint_fast8_t\<close>: eight bits, so the
  addition wraps around at 256.
\<close>

function varint32_loop ::
  "'s pb_istream \<Rightarrow> 8 word \<Rightarrow> u32 \<Rightarrow> (u32 \<times> 8 word \<times> byte, 's) rd" where
  "varint32_loop strm bitpos result =
     (case pb_readbyte strm of
        (None, strm) \<Rightarrow> (None, strm)
      | (Some byt, strm') \<Rightarrow>
          if 32 \<le> bitpos \<and>
             (let sign_extension = (if bitpos < 63 then 0xFF else 0x01) in
              byt AND 0x7F \<noteq> 0 \<and> (drop_bit 31 result = 0 \<or> byt \<noteq> sign_extension))
          then is_return_error strm' ''varint overflow''
          else
            let result = (if 32 \<le> bitpos then result
                          else result OR push_bit (unat bitpos) (ucast (byt AND 0x7F)));
                bitpos = bitpos + 7
            in if byt AND 0x80 \<noteq> 0 then varint32_loop strm' bitpos result
               else (Some (result, bitpos, byt), strm'))"
  by pat_completeness auto
termination
  by (relation "measure (\<lambda>(strm, bitpos, result). unat (is_bytes_left strm))")
    (auto dest: pb_readbyte_shorter [OF sym])

declare varint32_loop.simps [simp del]

text \<open>The value, the end-of-file flag and the stream.\<close>

definition pb_decode_varint32_eof :: "'s pb_istream \<Rightarrow> u32 option \<times> bool \<times> 's pb_istream" where
  "pb_decode_varint32_eof strm =
     (case pb_readbyte strm of
        (None, strm) \<Rightarrow> (None, is_bytes_left strm = 0, strm)
      | (Some byt, strm) \<Rightarrow>
          if byt AND 0x80 = 0 then (Some (ucast byt), False, strm)
          else (case varint32_loop strm 7 (ucast (byt AND 0x7F)) of
                  (None, strm) \<Rightarrow> (None, False, strm)
                | (Some (result, bitpos, byt), strm) \<Rightarrow>
                    if bitpos = 35 \<and> byt AND 0x70 \<noteq> 0
                    then (None, False, is_set_error ''varint overflow'' strm)
                    else (Some result, False, strm)))"

definition pb_decode_varint32 :: "'s pb_istream \<Rightarrow> (u32, 's) rd" where
  "pb_decode_varint32 strm =
     (case pb_decode_varint32_eof strm of (r, eof, strm) \<Rightarrow> (r, strm))"

function varint64_loop :: "'s pb_istream \<Rightarrow> 8 word \<Rightarrow> u64 \<Rightarrow> (u64, 's) rd" where
  "varint64_loop strm bitpos result =
     (if 64 \<le> bitpos then is_return_error strm ''varint overflow''
      else (case pb_readbyte strm of
              (None, strm) \<Rightarrow> (None, strm)
            | (Some byt, strm') \<Rightarrow>
                let result = result OR push_bit (unat bitpos) (ucast (byt AND 0x7F));
                    bitpos = bitpos + 7
                in if byt AND 0x80 \<noteq> 0 then varint64_loop strm' bitpos result
                   else (Some result, strm')))"
  by pat_completeness auto
termination
  by (relation "measure (\<lambda>(strm, bitpos, result). unat (is_bytes_left strm))")
    (auto dest: pb_readbyte_shorter [OF sym])

declare varint64_loop.simps [simp del]

definition pb_decode_varint :: "'s pb_istream \<Rightarrow> (u64, 's) rd" where
  "pb_decode_varint strm = varint64_loop strm 0 0"

lemma pb_read_1_shorter:
  assumes "pb_read s True 1 = (Some bs, s')"
  shows "unat (is_bytes_left s') < unat (is_bytes_left s)"
proof -
  from assms have "pb_read_raw s True 1 = (Some bs, s')" by (simp add: pb_read_def)
  from pb_read_raw_shorter [OF this] show ?thesis
    by (auto simp: word_le_nat_alt)
qed

function pb_skip_varint :: "'s pb_istream \<Rightarrow> (unit, 's) rd" where
  "pb_skip_varint strm =
     (case pb_read strm True 1 of
        (None, strm) \<Rightarrow> (None, strm)
      | (Some bs, strm') \<Rightarrow> if hd bs AND 0x80 \<noteq> 0 then pb_skip_varint strm' else (Some (), strm'))"
  by pat_completeness auto
termination
  by (relation "measure (\<lambda>strm. unat (is_bytes_left strm))")
    (auto dest: pb_read_1_shorter [OF sym])

declare pb_skip_varint.simps [simp del]

text \<open>\<^verbatim>\<open>pb_read(stream, NULL, n)\<close>, whose only result is the flag.\<close>

definition pb_skip_bytes :: "'s pb_istream \<Rightarrow> size_t \<Rightarrow> (unit, 's) rd" where
  "pb_skip_bytes strm n = rd_then (pb_read strm False n) (\<lambda>_ strm. (Some (), strm))"

definition pb_skip_string :: "'s pb_istream \<Rightarrow> (unit, 's) rd" where
  "pb_skip_string strm =
     rd_then (pb_decode_varint32 strm) (\<lambda>len strm. pb_skip_bytes strm (ucast len))"

text \<open>The flag, the wire type, the tag, the end-of-file flag and the stream.\<close>

definition pb_decode_tag ::
  "'s pb_istream \<Rightarrow> bool \<times> pb_wire_type \<times> u32 \<times> bool \<times> 's pb_istream" where
  "pb_decode_tag strm =
     (case pb_decode_varint32_eof strm of
        (None, eof, strm) \<Rightarrow> (False, 0, 0, eof, strm)
      | (Some temp, eof, strm) \<Rightarrow>
          if temp = 0 then (False, 0, 0, True, strm)
          else (True, temp AND 7, drop_bit 3 temp, eof, strm))"

definition pb_skip_field :: "'s pb_istream \<Rightarrow> pb_wire_type \<Rightarrow> (unit, 's) rd" where
  "pb_skip_field strm wire_type =
     (if wire_type = PB_WT_VARINT then pb_skip_varint strm
      else if wire_type = PB_WT_64BIT then pb_skip_bytes strm 8
      else if wire_type = PB_WT_STRING then pb_skip_string strm
      else if wire_type = PB_WT_32BIT then pb_skip_bytes strm 4
      else is_return_error strm ''invalid wire_type'')"

text \<open>
  The varint branch of \<open>read_raw_value\<close>: one byte at a time into a buffer of \<open>max_size\<close> bytes;
  \<open>sz\<close> bytes have been stored so far. Running over the buffer returns false with no message.
\<close>

function raw_varint_loop :: "'s pb_istream \<Rightarrow> size_t \<Rightarrow> byte list \<Rightarrow> (byte list, 's) rd" where
  "raw_varint_loop strm max_size buf =
     (if max_size < of_nat (length buf + 1) then (None, strm)
      else (case pb_read strm True 1 of
              (None, strm) \<Rightarrow> (None, strm)
            | (Some bs, strm') \<Rightarrow>
                let buf = buf @ [hd bs]
                in if hd bs AND 0x80 \<noteq> 0 then raw_varint_loop strm' max_size buf
                   else (Some buf, strm')))"
  by pat_completeness auto
termination
  by (relation "measure (\<lambda>(strm, max_size, buf). unat (is_bytes_left strm))")
    (auto dest: pb_read_1_shorter [OF sym])

declare raw_varint_loop.simps [simp del]

definition read_raw_value :: "'s pb_istream \<Rightarrow> pb_wire_type \<Rightarrow> size_t \<Rightarrow> (byte list, 's) rd" where
  "read_raw_value strm wire_type max_size =
     (if wire_type = PB_WT_VARINT then raw_varint_loop strm max_size []
      else if wire_type = PB_WT_64BIT then pb_read strm True 8
      else if wire_type = PB_WT_32BIT then pb_read strm True 4
      else is_return_error strm ''invalid wire_type'')"

text \<open>On success the pair of the stream and the substream, both sharing the state.\<close>

definition pb_make_string_substream :: "'s pb_istream \<Rightarrow> ('s pb_istream, 's) rd" where
  "pb_make_string_substream strm =
     rd_then (pb_decode_varint32 strm) (\<lambda>sz strm.
       let substream = strm in
       if is_bytes_left substream < ucast sz then is_return_error strm ''parent stream too short''
       else (Some (substream\<lparr>is_bytes_left := ucast sz\<rparr>),
             strm\<lparr>is_bytes_left := is_bytes_left strm - ucast sz\<rparr>))"

definition pb_close_string_substream :: "'s pb_istream \<Rightarrow> 's pb_istream \<Rightarrow> (unit, 's) rd" where
  "pb_close_string_substream strm substream =
     (case (if is_bytes_left substream \<noteq> 0
            then pb_read substream False (is_bytes_left substream)
            else (Some [], substream)) of
        (None, substream) \<Rightarrow> (None, strm)
      | (Some _, substream) \<Rightarrow>
          (Some (), strm\<lparr>is_state := is_state substream, is_errmsg := is_errmsg substream\<rparr>))"

definition pb_decode_bool :: "'s pb_istream \<Rightarrow> (bool, 's) rd" where
  "pb_decode_bool strm = rd_then (pb_decode_varint32 strm) (\<lambda>v strm. (Some (v \<noteq> 0), strm))"

definition pb_decode_svarint :: "'s pb_istream \<Rightarrow> (u64, 's) rd" where
  "pb_decode_svarint strm =
     rd_then (pb_decode_varint strm) (\<lambda>v strm.
       (Some (if v AND 1 \<noteq> 0 then NOT (drop_bit 1 v) else drop_bit 1 v), strm))"

definition pb_decode_fixed32 :: "'s pb_istream \<Rightarrow> (u32, 's) rd" where
  "pb_decode_fixed32 strm =
     rd_then (pb_read strm True 4) (\<lambda>bytes strm.
       (Some (push_bit 0 (ucast (bytes ! 0)) OR push_bit 8 (ucast (bytes ! 1))
          OR push_bit 16 (ucast (bytes ! 2)) OR push_bit 24 (ucast (bytes ! 3))), strm))"

definition pb_decode_fixed64 :: "'s pb_istream \<Rightarrow> (u64, 's) rd" where
  "pb_decode_fixed64 strm =
     rd_then (pb_read strm True 8) (\<lambda>bytes strm.
       (Some (push_bit 0 (ucast (bytes ! 0)) OR push_bit 8 (ucast (bytes ! 1))
          OR push_bit 16 (ucast (bytes ! 2)) OR push_bit 24 (ucast (bytes ! 3))
          OR push_bit 32 (ucast (bytes ! 4)) OR push_bit 40 (ucast (bytes ! 5))
          OR push_bit 48 (ucast (bytes ! 6)) OR push_bit 56 (ucast (bytes ! 7))), strm))"

section \<open>Varints of 64 bits\<close>

context istream_callback
begin

lemma varint64_loop_ok:
  assumes "istream_ok s" "input s = bs @ rst" "is_varint bs"
    and "bitpos = of_nat (7 * k)" "k + length bs \<le> 10"
    and "result = of_nat r" "r < 2 ^ (7 * k)"
  shows "\<exists>s'. varint64_loop s bitpos result = (Some (of_nat (r + 2 ^ (7 * k) * varint_val bs)), s')
    \<and> consumed_ok s (length bs) s'"
  using assms
proof (induction bs arbitrary: s bitpos result k r)
  case Nil
  then show ?case by simp
next
  case (Cons b bs)
  from Cons.prems have k9: "k \<le> 9" by simp
  then have "2 ^ (7 * k) \<le> (2 :: nat) ^ 63" by (intro power_increasing) simp_all
  with Cons.prems(7) have "r < 2 ^ 63" by linarith
  then have ur: "unat result = r" using Cons.prems(6) by (simp add: unat_of_nat_64)
  have ub: "unat bitpos = 7 * k" using k9 Cons.prems(4) unat_of_nat_8 [of "7 * k"] by simp
  from pb_readbyte_Cons [OF Cons.prems(1), of b] Cons.prems(2)
  obtain s1 where s1: "pb_readbyte s = (Some b, s1)" "consumed_ok s 1 s1" by auto
  let ?r = "r + 2 ^ (7 * k) * (unat b mod 128)"
  have res: "result OR push_bit (unat bitpos) (ucast (b AND 127)) = of_nat ?r"
    using or_push_bit_accum [OF Cons.prems(7), where 'a = 64 and b = b] ub Cons.prems(6) by simp
  have "\<not> 64 \<le> bitpos" using ub k9 by (simp add: word_le_nat_alt)
  note unf = varint64_loop.simps [of s bitpos result] s1(1) res this
  show ?case
  proof (cases "bs = []")
    case True
    with Cons.prems(3) have "unat b < 128" by simp
    with unf s1(2) True show ?thesis by (simp add: byte_and_128)
  next
    case False
    with Cons.prems(3) have b: "128 \<le> unat b" "is_varint bs" by (simp_all add: is_varint_Cons)
    have lt: "?r < 2 ^ (7 * Suc k)" using Cons.prems(7) by (rule varint_accum_less)
    have "\<exists>s'. varint64_loop s1 (of_nat (7 * Suc k)) (of_nat ?r) =
        (Some (of_nat (?r + 2 ^ (7 * Suc k) * varint_val bs)), s') \<and> consumed_ok s1 (length bs) s'"
    proof (rule Cons.IH)
      show "istream_ok s1" "input s1 = bs @ rst"
        using s1(2) Cons.prems(2) by (auto dest: consumed_okD)
      show "Suc k + length bs \<le> 10" using Cons.prems(5) by simp
    qed (use b lt in simp_all)
    then obtain s2 where s2: "varint64_loop s1 (of_nat (7 * Suc k)) (of_nat ?r) =
        (Some (of_nat (?r + 2 ^ (7 * Suc k) * varint_val bs)), s2)" "consumed_ok s1 (length bs) s2"
      by blast
    have "bitpos + 7 = of_nat (7 * Suc k)" using Cons.prems(4) by simp
    with unf s2 b have "varint64_loop s bitpos result =
        (Some (of_nat (?r + 2 ^ (7 * Suc k) * varint_val bs)), s2)"
      by (simp add: byte_and_128_neq del: of_nat_add of_nat_mult)
    moreover have "?r + 2 ^ (7 * Suc k) * varint_val bs = r + 2 ^ (7 * k) * varint_val (b # bs)"
      by (simp add: power_add algebra_simps)
    ultimately have "varint64_loop s bitpos result =
        (Some (of_nat (r + 2 ^ (7 * k) * varint_val (b # bs))), s2)" by (simp only:)
    moreover have "consumed_ok s (length (b # bs)) s2"
      using consumed_ok_trans [OF s1(2) s2(2)] by simp
    ultimately show ?thesis by blast
  qed
qed

lemma pb_decode_varint_ok:
  assumes "istream_ok s" "input s = bs @ rst" "is_varint bs" "length bs \<le> 10"
  shows "\<exists>s'. pb_decode_varint s = (Some (of_nat (varint_val bs)), s') \<and> consumed_ok s (length bs) s'"
  using varint64_loop_ok [OF assms(1-3), of 0 0 0 0] assms(4) by (simp add: pb_decode_varint_def)

end

section \<open>Varints of 32 bits\<close>

text \<open>
  The last of five bytes must leave the bits 4 to 6 clear for the value to fit in 32 bits; the
  decoder recognises five bytes by the bit position 35.
\<close>

lemma varint_five_overflow:
  assumes "length cs \<le> 4" "unat e < 128"
  shows "length cs = 4 \<and> e AND 112 \<noteq> 0 \<longleftrightarrow> 2 ^ 32 \<le> varint_val (cs @ [e])"
proof (cases "length cs = 4")
  case True
  with varint_val_less [of cs] have "varint_val cs < 268435456" by simp
  with True assms(2) show ?thesis by (auto simp: varint_val_append byte_and_112)
next
  case False
  with assms(1) have "length (cs @ [e]) \<le> 4" by simp
  then have "128 ^ length (cs @ [e]) \<le> (128 :: nat) ^ 4" by (intro power_increasing) simp_all
  with varint_val_less [of "cs @ [e]"] have "varint_val (cs @ [e]) < 128 ^ 4" by linarith
  with False show ?thesis by simp
qed

lemma bitpos_35: "n \<le> 5 \<Longrightarrow> of_nat (7 * n) = (35 :: 8 word) \<longleftrightarrow> n = 5"
proof -
  assume "n \<le> 5"
  then have "n \<in> {0, 1, 2, 3, 4, 5}" by auto
  then show ?thesis by auto
qed

context istream_callback
begin

lemma varint32_loop_step:
  assumes "istream_ok s" "input s = b # bs" "k \<le> 4" "r < 2 ^ (7 * k)"
  shows "\<exists>s'. varint32_loop s (of_nat (7 * k)) (of_nat r) =
      (if 128 \<le> unat b
       then varint32_loop s' (of_nat (7 * Suc k)) (of_nat (r + 2 ^ (7 * k) * (unat b mod 128)))
       else (Some (of_nat (r + 2 ^ (7 * k) * (unat b mod 128)), of_nat (7 * Suc k), b), s'))
    \<and> consumed_ok s 1 s'"
proof -
  from pb_readbyte_Cons [OF assms(1,2)]
  obtain s1 where s1: "pb_readbyte s = (Some b, s1)" "consumed_ok s 1 s1" by blast
  let ?p = "of_nat (7 * k) :: 8 word"
  have "unat ?p = 7 * k" using assms(3) by (intro unat_of_nat_8) simp
  then have "\<not> 32 \<le> ?p" "unat ?p = 7 * k" using assms(3) by (simp_all only: word_le_nat_alt) simp
  moreover have "?p + 7 = of_nat (7 * Suc k)" by simp
  ultimately show ?thesis
    using s1 or_push_bit_accum [OF assms(4), where 'a = 32 and b = b]
      varint32_loop.simps [of s ?p "of_nat r"]
    by (intro exI [of _ s1]) (simp add: byte_and_128_neq Let_def del: of_nat_add of_nat_mult)
qed

lemma varint32_loop_conts:
  assumes "istream_ok s" "input s = cs @ rst" "\<forall>c \<in> set cs. 128 \<le> unat c"
    and "k + length cs \<le> 5" "r < 2 ^ (7 * k)"
  shows "\<exists>s'. varint32_loop s (of_nat (7 * k)) (of_nat r) =
      varint32_loop s' (of_nat (7 * (k + length cs))) (of_nat (r + 2 ^ (7 * k) * varint_val cs))
    \<and> consumed_ok s (length cs) s'"
  using assms
proof (induction cs arbitrary: s k r)
  case Nil
  then show ?case using consumed_ok_0 by auto
next
  case (Cons c cs)
  let ?r = "r + 2 ^ (7 * k) * (unat c mod 128)"
  from Cons.prems obtain s1 where s1: "varint32_loop s (of_nat (7 * k)) (of_nat r) =
      varint32_loop s1 (of_nat (7 * Suc k)) (of_nat ?r)" "consumed_ok s 1 s1"
    using varint32_loop_step [of s c "cs @ rst" k r] by (auto simp del: of_nat_add of_nat_mult)
  have "istream_ok s1" "input s1 = cs @ rst" using s1(2) Cons.prems(2) by (auto dest: consumed_okD)
  from Cons.IH [OF this _ _ varint_accum_less [OF Cons.prems(5)]] Cons.prems(3,4)
  obtain s2 where s2: "varint32_loop s1 (of_nat (7 * Suc k)) (of_nat ?r) =
      varint32_loop s2 (of_nat (7 * (Suc k + length cs)))
        (of_nat (?r + 2 ^ (7 * Suc k) * varint_val cs))"
    "consumed_ok s1 (length cs) s2" by auto
  have "?r + 2 ^ (7 * Suc k) * varint_val cs = r + 2 ^ (7 * k) * varint_val (c # cs)"
    by (simp add: power_add algebra_simps)
  with s1(1) s2(1) have "varint32_loop s (of_nat (7 * k)) (of_nat r) =
      varint32_loop s2 (of_nat (7 * (k + length (c # cs))))
        (of_nat (r + 2 ^ (7 * k) * varint_val (c # cs)))" 
    by (simp only: length_Cons add_Suc_shift)
  moreover have "consumed_ok s (length (c # cs)) s2"
    using consumed_ok_trans [OF s1(2) s2(2)] by simp
  ultimately show ?case by blast
qed

text \<open>Beyond the fifth byte, a byte that ends a canonical varint is refused.\<close>

lemma varint32_loop_too_long:
  assumes "istream_ok s" "input s = bs @ rst" "is_varint bs" "last bs \<noteq> 0"
    and "5 \<le> k" "k + length bs \<le> 9"
  shows "\<exists>s'. varint32_loop s (of_nat (7 * k)) result = (None, s') \<and> is_errmsg s' \<noteq> None"
  using assms
proof (induction bs arbitrary: s k)
  case Nil
  then show ?case by simp
next
  case (Cons b bs)
  from pb_readbyte_Cons [OF Cons.prems(1), of b] Cons.prems(2)
  obtain s1 where s1: "pb_readbyte s = (Some b, s1)" "consumed_ok s 1 s1" by auto
  let ?p = "of_nat (7 * k) :: 8 word"
  have u: "unat ?p = 7 * k" using Cons.prems(6) by (intro unat_of_nat_8) simp
  have p: "32 \<le> ?p" "?p < 63" using Cons.prems(5,6)
    by (simp_all only: word_le_nat_alt word_less_nat_alt u) simp_all
  have p7: "?p + 7 = of_nat (7 * Suc k)" by simp
  note unf = varint32_loop.simps [of s ?p result] s1(1) p p7
  show ?case
  proof (cases "b AND 127 \<noteq> 0 \<and> (drop_bit 31 result = 0 \<or> b \<noteq> 255)")
    case True
    with unf show ?thesis
      by (simp add: is_return_error_def del: of_nat_add of_nat_mult not_None_eq)
  next
    case False
    have "bs \<noteq> []"
    proof
      assume "bs = []"
      with Cons.prems have "unat b < 128" "b \<noteq> 0" by simp_all
      then have "b AND 127 \<noteq> 0" "b \<noteq> 255" by (auto simp: byte_and_127 unat_eq_0)
      with False show False by simp
    qed
    with Cons.prems have b: "128 \<le> unat b" "is_varint bs" "last bs \<noteq> 0" by (simp_all add: is_varint_Cons)
    have "istream_ok s1" "input s1 = bs @ rst" using s1(2) Cons.prems(2) by (auto dest: consumed_okD)
    from Cons.IH [OF this b(2,3), of "Suc k"] Cons.prems(5,6)
    have "\<exists>s'. varint32_loop s1 (of_nat (7 * Suc k)) result = (None, s') \<and> is_errmsg s' \<noteq> None" by simp
    with unf False b(1) show ?thesis
      by (auto simp add: byte_and_128_neq simp del: of_nat_add of_nat_mult)
  qed
qed


lemma varint32_loop_end:
  assumes "istream_ok s" "input s = ds @ e # rst" "\<forall>c \<in> set ds. 128 \<le> unat c" "unat e < 128"
    and "k + length ds \<le> 4" "r < 2 ^ (7 * k)"
  shows "\<exists>s'. varint32_loop s (of_nat (7 * k)) (of_nat r) =
      (Some (of_nat (r + 2 ^ (7 * k) * varint_val (ds @ [e])), of_nat (7 * Suc (k + length ds)), e), s')
    \<and> consumed_ok s (length (ds @ [e])) s'"
proof -
  let ?r = "r + 2 ^ (7 * k) * varint_val ds" and ?k = "k + length ds"
  from varint32_loop_conts [OF assms(1-3), of k r] assms(5,6)
  obtain s1 where s1: "varint32_loop s (of_nat (7 * k)) (of_nat r) =
      varint32_loop s1 (of_nat (7 * ?k)) (of_nat ?r)" "consumed_ok s (length ds) s1" by auto
  have "varint_val ds < 2 ^ (7 * length ds)"
    using varint_val_less [of ds] by (simp add: power_mult)
  from varint_accum_append [OF assms(6) this] have lt: "?r < 2 ^ (7 * ?k)" by (simp add: algebra_simps)
  have "istream_ok s1" "input s1 = e # rst" using s1(2) assms(1,2) by (auto dest: consumed_okD)
  from varint32_loop_step [OF this _ lt] assms(4,5)
  obtain s2 where s2: "varint32_loop s1 (of_nat (7 * ?k)) (of_nat ?r) =
      (Some (of_nat (?r + 2 ^ (7 * ?k) * (unat e mod 128)), of_nat (7 * Suc ?k), e), s2)"
    "consumed_ok s1 1 s2" by auto
  have p: "2 ^ (7 * length ds) = (128 :: nat) ^ length ds" by (simp add: power_mult)
  have "?r + 2 ^ (7 * ?k) * (unat e mod 128) = r + 2 ^ (7 * k) * varint_val (ds @ [e])"
    by (simp add: varint_val_append power_add distrib_left p)
  with s1(1) s2(1) have "varint32_loop s (of_nat (7 * k)) (of_nat r) =
      (Some (of_nat (r + 2 ^ (7 * k) * varint_val (ds @ [e])), of_nat (7 * Suc ?k), e), s2)"
    by (simp only:)
  with consumed_ok_trans [OF s1(2) s2(2)] show ?thesis by auto
qed

text \<open>A varint of at most five bytes: its value if it fits in 32 bits, an error otherwise.\<close>

lemma pb_decode_varint32_eof_short:
  assumes ok: "istream_ok s" and inp: "input s = bs @ rst" and vi: "is_varint bs"
    and len: "length bs \<le> 5"
  shows "\<exists>s'. consumed_ok s (length bs) s' \<and> pb_decode_varint32_eof s =
     (if varint_val bs < 2 ^ 32 then (Some (of_nat (varint_val bs)), False, s')
      else (None, False, is_set_error ''varint overflow'' s'))"
proof -
  from vi obtain b cs where bs: "bs = b # cs" by (cases bs) auto
  from pb_readbyte_Cons [OF ok, of b] inp bs
  obtain s1 where s1: "pb_readbyte s = (Some b, s1)" "consumed_ok s 1 s1" by auto
  show ?thesis
  proof (cases "cs = []")
    case True
    with vi bs have "unat b < 128" by simp
    moreover from this have "ucast b = (of_nat (unat b mod 128) :: u32)" by simp
    ultimately show ?thesis
      using s1 bs True by (intro exI [of _ s1]) (simp add: pb_decode_varint32_eof_def byte_and_128)
  next
    case False
    then obtain ds e where cs: "cs = ds @ [e]" by (metis rev_exhaust)
    with vi bs have b: "128 \<le> unat b" "\<forall>c \<in> set ds. 128 \<le> unat c" "unat e < 128"
      by (auto simp: is_varint_iff butlast_append)
    have "istream_ok s1" "input s1 = ds @ e # rst"
      using s1(2) inp bs cs by (auto dest: consumed_okD)
    from varint32_loop_end [OF this b(2,3), of 1 "unat b mod 128"] len bs cs
    obtain s2 where s2: "varint32_loop s1 7 (ucast (b AND 127)) =
        (Some (of_nat (varint_val bs), of_nat (7 * Suc (Suc (length ds))), e), s2)"
      "consumed_ok s1 (length (ds @ [e])) s2" by (auto simp: ucast_and_127)
    have "(of_nat (7 * Suc (Suc (length ds))) = (35 :: 8 word) \<and> e AND 112 \<noteq> 0)
        \<longleftrightarrow> \<not> varint_val bs < 2 ^ 32"
      using varint_five_overflow [of "b # ds" e] bitpos_35 [of "Suc (Suc (length ds))"] b(3) len bs cs
      by (simp add: not_less)
    with s1(1) s2(1) b(1) consumed_ok_trans [OF s1(2) s2(2)] bs cs show ?thesis
      by (intro exI [of _ s2]) (simp add: pb_decode_varint32_eof_def byte_and_128 del: of_nat_mult of_nat_Suc varint_val.simps)
  qed
qed


text \<open>After five continuation bytes the decoder is in its sign extension phase.\<close>

lemma pb_decode_varint32_eof_long:
  assumes ok: "istream_ok s" and inp: "input s = cs @ rst" and cs: "\<forall>c \<in> set cs. 128 \<le> unat c"
    and len: "length cs = 5"
  shows "\<exists>s'. consumed_ok s 5 s' \<and> pb_decode_varint32_eof s =
     (case varint32_loop s' 35 (of_nat (varint_val cs)) of
        (None, strm) \<Rightarrow> (None, False, strm)
      | (Some (result, bitpos, byt), strm) \<Rightarrow>
          if bitpos = 35 \<and> byt AND 0x70 \<noteq> 0 then (None, False, is_set_error ''varint overflow'' strm)
          else (Some result, False, strm))"
proof -
  from len obtain b ds where bs: "cs = b # ds" "length ds = 4" by (cases cs) auto
  from pb_readbyte_Cons [OF ok, of b] inp bs
  obtain s1 where s1: "pb_readbyte s = (Some b, s1)" "consumed_ok s 1 s1" by auto
  have "istream_ok s1" "input s1 = ds @ rst" using s1(2) inp bs by (auto dest: consumed_okD)
  from varint32_loop_conts [OF this, of 1 "unat b mod 128"] cs bs
  obtain s2 where s2: "varint32_loop s1 7 (ucast (b AND 127)) =
      varint32_loop s2 35 (of_nat (varint_val cs))"
    "consumed_ok s1 4 s2" by (auto simp: ucast_and_127)
  have "\<not> unat b < 128" using cs bs by simp
  with s1(1) s2(1) consumed_ok_trans [OF s1(2) s2(2)] show ?thesis
    by (intro exI [of _ s2]) (simp add: pb_decode_varint32_eof_def byte_and_128)
qed

lemma varint32_loop_sign_extension:
  assumes "istream_ok s" "input s = [255, 255, 255, 255, 1] @ rst" "drop_bit 31 result \<noteq> 0"
  shows "\<exists>s'. varint32_loop s 35 result = (Some (result, 70, 1), s') \<and> consumed_ok s 5 s'"
proof -
  have step: "\<exists>s'. varint32_loop s p result =
      (if b = 255 then varint32_loop s' (p + 7) result else (Some (result, p + 7, b), s'))
      \<and> consumed_ok s 1 s' \<and> istream_ok s' \<and> input s' = bs"
    if "istream_ok s" "input s = b # bs" "32 \<le> p \<and> b = (if p < 63 then 255 else 1)" for s p b bs
  proof -
    from pb_readbyte_Cons [OF that(1,2)]
    obtain s1 where "pb_readbyte s = (Some b, s1)" "consumed_ok s 1 s1" by blast
    with that assms(3) show ?thesis
      by (intro exI [of _ s1]) (auto dest: consumed_okD simp: varint32_loop.simps [of s] Let_def)
  qed
  from step [OF assms(1), of 255 "[255, 255, 255, 1] @ rst" 35] assms(2) obtain s1 where
    s1: "varint32_loop s 35 result = varint32_loop s1 42 result" "consumed_ok s 1 s1"
      "istream_ok s1" "input s1 = 255 # 255 # 255 # 1 # rst" by auto
  from step [OF s1(3,4), of 42] obtain s2 where
    s2: "varint32_loop s1 42 result = varint32_loop s2 49 result" "consumed_ok s1 1 s2"
      "istream_ok s2" "input s2 = 255 # 255 # 1 # rst" by auto
  from step [OF s2(3,4), of 49] obtain s3 where
    s3: "varint32_loop s2 49 result = varint32_loop s3 56 result" "consumed_ok s2 1 s3"
      "istream_ok s3" "input s3 = 255 # 1 # rst" by auto
  from step [OF s3(3,4), of 56] obtain s4 where
    s4: "varint32_loop s3 56 result = varint32_loop s4 63 result" "consumed_ok s3 1 s4"
      "istream_ok s4" "input s4 = 1 # rst" by auto
  from step [OF s4(3,4), of 63] obtain s5 where
    s5: "varint32_loop s4 63 result = (Some (result, 70, 1), s5)" "consumed_ok s4 1 s5" by auto
  note c = consumed_ok_trans [OF consumed_ok_trans [OF consumed_ok_trans [OF
        consumed_ok_trans [OF s1(2) s2(2)] s3(2)] s4(2)] s5(2)]
  from c s1(1) s2(1) s3(1) s4(1) s5(1) show ?thesis by (simp add: eval_nat_numeral)
qed

text \<open>Padding: bytes \<open>0x80\<close> beyond the fifth change only the bit position, which is a number of eight bits.\<close>

lemma varint32_loop_padding:
  assumes "istream_ok s" "input s = replicate j 128 @ rst" "32 \<le> p" "p + 7 * j \<le> 262"
  shows "\<exists>s'. varint32_loop s (of_nat p) result = varint32_loop s' (of_nat (p + 7 * j)) result \<and> consumed_ok s j s'"
  using assms
proof (induction j arbitrary: s p)
  case 0
  then show ?case using consumed_ok_0 by auto
next
  case (Suc j)
  from pb_readbyte_Cons [OF Suc.prems(1), of 128] Suc.prems(2) obtain s1 where
    s1: "pb_readbyte s = (Some 128, s1)" "consumed_ok s 1 s1" by auto
  have "unat (of_nat p :: 8 word) = p" using Suc.prems(4) by (intro unat_of_nat_8) simp
  then have "32 \<le> (of_nat p :: 8 word)" using Suc.prems(3) by (simp add: word_le_nat_alt)
  then have step: "varint32_loop s (of_nat p) result = varint32_loop s1 (of_nat (p + 7)) result"
    using s1(1) by (simp add: varint32_loop.simps [of s] Let_def)
  have "istream_ok s1" "input s1 = replicate j 128 @ rst" using s1(2) Suc.prems(2) by (auto dest: consumed_okD)
  from Suc.IH [OF this, of "p + 7"] Suc.prems(3,4) obtain s2 where
    "varint32_loop s1 (of_nat (p + 7)) result = varint32_loop s2 (of_nat (p + 7 + 7 * j)) result" "consumed_ok s1 j s2" by auto
  with step consumed_ok_trans [OF s1(2) this(2)] show ?case by (auto simp: add.assoc)
qed

text \<open>
  Five bytes that continue and \<open>j\<close> bytes of padding before the last byte \<open>e\<close>: for \<open>j < 32\<close> and \<open>e = 0\<close> the
  overflow of the fifth byte is not noticed, for \<open>j = 32\<close> the last byte is added at bit 3.
\<close>

lemma pb_decode_varint32_padded:
  assumes ok: "istream_ok s" and inp: "input s = cs @ replicate j 128 @ e # rst" and cs: "length cs = 5" "\<forall>c \<in> set cs. 128 \<le> unat c"
    and e: "unat e < 128" "j < 32 \<and> e = 0 \<or> j = 32"
  shows "\<exists>s'. pb_decode_varint32 s = (Some (of_nat (varint_val cs) OR (if j = 32 then push_bit 3 (ucast e) else 0)), s') \<and> consumed_ok s (6 + j) s'"
proof -
  from cs(1) obtain c ds where c: "cs = c # ds" "length ds = 4" by (cases cs) auto
  from pb_readbyte_Cons [OF ok, of c] inp c(1) obtain s1 where s1: "pb_readbyte s = (Some c, s1)" "consumed_ok s 1 s1" by auto
  have i1: "istream_ok s1" "input s1 = ds @ replicate j 128 @ e # rst" using s1(2) inp c(1) by (auto dest: consumed_okD)
  have lt: "unat c mod 128 < 2 ^ (7 * 1)" using mod_less_divisor [of 128 "unat c"] by simp
  from varint32_loop_conts [OF i1, of 1 "unat c mod 128"] cs(2) c lt obtain s2 where
    s2: "varint32_loop s1 (of_nat (7 * 1)) (of_nat (unat c mod 128)) = varint32_loop s2 (of_nat (7 * 5)) (of_nat (varint_val cs))" "consumed_ok s1 4 s2"
    by (auto simp del: of_nat_add of_nat_mult)
  have i2: "istream_ok s2" "input s2 = replicate j 128 @ e # rst" using s2(2) i1(2) c(2) by (auto dest: consumed_okD)
  have "(32 :: nat) \<le> 35" "35 + 7 * j \<le> 262" using e(2) by auto
  from varint32_loop_padding [OF i2 this, of "of_nat (varint_val cs)"] obtain s3 where
    s3: "varint32_loop s2 (of_nat 35) (of_nat (varint_val cs)) = varint32_loop s3 (of_nat (35 + 7 * j)) (of_nat (varint_val cs))" "consumed_ok s2 j s3"
    by blast
  have i3: "istream_ok s3" "input s3 = e # rst" using s3(2) i2(2) by (auto dest: consumed_okD)
  from pb_readbyte_Cons [OF i3] obtain s4 where s4: "pb_readbyte s3 = (Some e, s4)" "consumed_ok s3 1 s4" by blast
  have e128: "e AND 128 = 0" using e(1) by (metis byte_and_128_neq linorder_not_less)
  have last_byte: "\<exists>bp. varint32_loop s3 (of_nat (35 + 7 * j)) (of_nat (varint_val cs)) =
      (Some (of_nat (varint_val cs) OR (if j = 32 then push_bit 3 (ucast e) else 0), bp, e), s4) \<and> \<not> (bp = 35 \<and> e AND 112 \<noteq> 0)"
  proof (cases "j = 32")
    case True
    have "(ucast (e AND 127) :: u32) = of_nat (unat e mod 128)" by (rule ucast_and_127)
    also have "\<dots> = ucast e" using e(1) by simp
    finally show ?thesis using s4(1) e128 True by (simp add: varint32_loop.simps [of s3] Let_def)
  next
    case False
    with e(2) have j: "e = 0" "j < 32" by auto
    then have "unat (of_nat (35 + 7 * j) :: 8 word) = 35 + 7 * j" by (intro unat_of_nat_8) simp
    then have "32 \<le> (of_nat (35 + 7 * j) :: 8 word)" by (simp only: word_le_nat_alt) simp
    then show ?thesis using s4(1) False j(1) by (simp add: varint32_loop.simps [of s3] Let_def)
  qed
  have c0: "c AND 128 \<noteq> 0" "ucast (c AND 127) = (of_nat (unat c mod 128) :: u32)"
    using cs(2) c(1) by (simp_all add: byte_and_128_neq ucast_and_127)
  have "consumed_ok s (6 + j) s4"
    using consumed_ok_trans [OF consumed_ok_trans [OF consumed_ok_trans [OF s1(2) s2(2)] s3(2)] s4(2)] by (simp add: add.commute)
  then show ?thesis using last_byte s1(1) c0 s2(1) s3(1)
    by (auto simp: pb_decode_varint32_def pb_decode_varint32_eof_def)
qed

text \<open>
  The 32-bit decoder on the canonical varint of \<open>n\<close>: the number if it has 32 bits, its low half if
  \<open>n\<close> is a negative \<open>int32\<close> extended to 64 bits, an error for every other number below \<open>2 ^ 63\<close>.
\<close>

lemma pb_decode_varint32_eof_ok:
  assumes "istream_ok s" "input s = varint_bytes n @ rst" "n < 2 ^ 32"
  shows "\<exists>s'. pb_decode_varint32_eof s = (Some (of_nat n), False, s')
    \<and> consumed_ok s (length (varint_bytes n)) s'"
  using pb_decode_varint32_eof_short [OF assms(1,2) is_varint_varint_bytes] assms(3)
    length_varint_bytes_32 [OF assms(3)] by (auto simp: varint_val_varint_bytes)

lemma pb_decode_varint32_eof_negative:
  assumes "istream_ok s" "input s = varint_bytes (2 ^ 64 - j) @ rst" "0 < j" "j \<le> 2 ^ 31"
  shows "\<exists>s'. pb_decode_varint32_eof s = (Some (- of_nat j), False, s') \<and> consumed_ok s 10 s'"
proof -
  let ?n = "2 ^ 64 - j :: nat"
  have d: "?n div 128 ^ 5 = 2 ^ 29 - 1" using assms(3,4) by (intro div_nat_eqI) simp_all
  have le: "128 ^ 5 \<le> ?n" using assms(4) by simp
  from varint_bytes_split [OF this] d obtain cs where
    cs: "varint_bytes ?n = cs @ [255, 255, 255, 255, 1]" "length cs = 5"
      "\<forall>c \<in> set cs. 128 \<le> unat c" "varint_val cs = ?n mod 128 ^ 5"
    by (auto simp: varint_bytes_sign_extension)
  from pb_decode_varint32_eof_long [OF assms(1) _ cs(3,2)] assms(2) cs(1)
  obtain s1 where s1: "consumed_ok s 5 s1" "pb_decode_varint32_eof s =
     (case varint32_loop s1 35 (of_nat (varint_val cs)) of
        (None, strm) \<Rightarrow> (None, False, strm)
      | (Some (result, bitpos, byt), strm) \<Rightarrow>
          if bitpos = 35 \<and> byt AND 0x70 \<noteq> 0 then (None, False, is_set_error ''varint overflow'' strm)
          else (Some result, False, strm))" by auto
  have m: "varint_val cs = 2 ^ 35 - j"
    using assms(3,4) cs(4) d div_mult_mod_eq [of ?n "128 ^ 5"] by simp linarith
  have v: "(of_nat (varint_val cs) :: u32) = - of_nat j"
    using assms(3,4) m by (simp add: of_nat_diff)
  have "2 ^ 35 - j = 7 * 2 ^ 32 + (2 ^ 32 - j)" using assms(4) by simp
  then have "(2 ^ 35 - j) mod 2 ^ 32 = 2 ^ 32 - j" using assms(3,4) by (simp only: mod_mult_self3) simp
  then have "unat (of_nat (varint_val cs) :: u32) = 2 ^ 32 - j"
    using m by (simp add: unsigned_of_nat take_bit_eq_mod)
  then have "unat (drop_bit 31 (of_nat (varint_val cs) :: u32)) \<noteq> 0"
    using assms(4) by (simp add: unat_drop_bit_word div_eq_0_iff)
  then have "drop_bit 31 (of_nat (varint_val cs) :: u32) \<noteq> 0" by auto
  moreover have "istream_ok s1" "input s1 = [255, 255, 255, 255, 1] @ rst"
    using s1(1) assms(1,2) cs(1,2) by (auto dest: consumed_okD)
  ultimately obtain s2 where "varint32_loop s1 35 (of_nat (varint_val cs)) = (Some (of_nat (varint_val cs), 70, 1), s2)"
    "consumed_ok s1 5 s2" using varint32_loop_sign_extension by blast
  with s1 v consumed_ok_trans [OF s1(1), of 5 s2] show ?thesis by (intro exI [of _ s2]) simp
qed

lemma pb_decode_varint32_eof_overflow:
  assumes "istream_ok s" "input s = varint_bytes n @ rst" "2 ^ 32 \<le> n" "n < 2 ^ 63"
  shows "\<exists>s'. pb_decode_varint32_eof s = (None, False, s') \<and> is_errmsg s' \<noteq> None"
proof (cases "n < 2 ^ 35")
  case True
  then have "length (varint_bytes n) \<le> 5" by (intro length_varint_bytes) simp_all
  from pb_decode_varint32_eof_short [OF assms(1,2) is_varint_varint_bytes this] assms(3)
  show ?thesis by (auto simp: varint_val_varint_bytes simp del: not_None_eq)
next
  case False
  then have "128 ^ 5 \<le> n" by simp
  from varint_bytes_split [OF this] obtain cs where
    cs: "varint_bytes n = cs @ varint_bytes (n div 2 ^ 35)" "length cs = 5"
      "\<forall>c \<in> set cs. 128 \<le> unat c" by auto
  from pb_decode_varint32_eof_long [OF assms(1) _ cs(3,2)] assms(2) cs(1)
  obtain s1 where s1: "consumed_ok s 5 s1" "pb_decode_varint32_eof s =
     (case varint32_loop s1 35 (of_nat (varint_val cs)) of
        (None, strm) \<Rightarrow> (None, False, strm)
      | (Some (result, bitpos, byt), strm) \<Rightarrow>
          if bitpos = 35 \<and> byt AND 0x70 \<noteq> 0 then (None, False, is_set_error ''varint overflow'' strm)
          else (Some result, False, strm))" by auto
  have "istream_ok s1" "input s1 = varint_bytes (n div 2 ^ 35) @ rst"
    using s1(1) assms(1,2) cs(1,2) by (auto dest: consumed_okD)
  moreover have "n div 2 ^ 35 < 128 ^ 4" using assms(4) by (simp add: less_mult_imp_div_less)
  then have "length (varint_bytes (n div 2 ^ 35)) \<le> 4" by (intro length_varint_bytes) simp_all
  moreover have "0 < n div 2 ^ 35" using False by (simp add: div_greater_zero_iff)
  ultimately obtain s2 where "varint32_loop s1 (of_nat (7 * 5)) (of_nat (varint_val cs)) = (None, s2)"
      "is_errmsg s2 \<noteq> None"
    using varint32_loop_too_long [OF _ _ is_varint_varint_bytes last_varint_bytes,
        of s1 "n div 2 ^ 35" rst 5 "of_nat (varint_val cs)"] by auto
  with s1(2) show ?thesis by simp
qed

end

section \<open>Items of the wire format\<close>

lemma zigzag_word_decoded:
  fixes v :: u64
  defines "z \<equiv> of_nat (zigzag (sint v)) :: u64"
  shows "unat z = zigzag (sint v)" "(if z AND 1 \<noteq> 0 then NOT (drop_bit 1 z) else drop_bit 1 z) = v"
proof -
  define m where "m = unat v"
  have m: "m < 2 ^ 64" using unat_lt_64 [of v] m_def by simp
  have zz: "zigzag (sint v) = (if m < 2 ^ 63 then 2 * m else 2 * (2 ^ 64 - m) - 1)"
    using m sint_64 [OF m_def [symmetric]] by (auto simp: zigzag_def nat_diff_distrib nat_mult_distrib)
  show uz: "unat z = zigzag (sint v)"
    unfolding z_def using m zz by (intro unat_of_nat_64) (simp split: if_splits)
  have odd: "z AND 1 \<noteq> 0 \<longleftrightarrow> odd (unat z)"
    using unat_and_1 [of z] by (metis odd_iff_mod_2_eq_one unat_eq_0 even_iff_mod_2_eq_zero)
  have d: "unat (drop_bit 1 z) = unat z div 2" by (simp add: unat_drop_bit_word)
  show "(if z AND 1 \<noteq> 0 then NOT (drop_bit 1 z) else drop_bit 1 z) = v"
  proof (cases "m < 2 ^ 63")
    case True
    then show ?thesis using odd d uz zz m_def by (intro unsigned_word_eqI [where 'a = nat]) simp
  next
    case False
    then have "unat z = 2 * (2 ^ 64 - 1 - m) + 1" using uz zz m by simp
    then have "odd (unat z)" "unat (NOT (drop_bit 1 z)) = m"
      using d m by (simp_all add: unat_not_64)
    then show ?thesis using odd m_def by (intro unsigned_word_eqI [where 'a = nat]) simp
  qed
qed

text \<open>The payload of a field of a wire type.\<close>

definition is_payload :: "pb_wire_type \<Rightarrow> byte list \<Rightarrow> bool" where
  "is_payload wt bs \<longleftrightarrow>
     wt = PB_WT_VARINT \<and> is_varint bs \<or> wt = PB_WT_64BIT \<and> length bs = 8
     \<or> wt = PB_WT_STRING \<and> (\<exists>d. bs = varint_bytes (length d) @ d \<and> length d < 2 ^ 32)
     \<or> wt = PB_WT_32BIT \<and> length bs = 4"

context istream_callback
begin

text \<open>\<open>reads r s n v\<close>: the call with result \<open>r\<close> took \<open>n\<close> bytes from \<open>s\<close> and returned \<open>v\<close>.\<close>

definition reads :: "('a, 's) rd \<Rightarrow> 's pb_istream \<Rightarrow> nat \<Rightarrow> 'a \<Rightarrow> bool" where
  "reads r s n v \<longleftrightarrow> (\<exists>s'. r = (Some v, s') \<and> consumed_ok s n s')"

lemma reads_then:
  assumes "reads r s m v"
    and "\<And>s'. consumed_ok s m s' \<Longrightarrow> istream_ok s' \<Longrightarrow> input s' = drop m (input s) \<Longrightarrow> reads (k v s') s' n w"
  shows "reads (rd_then r k) s (m + n) w"
proof -
  from assms(1) obtain s1 where s1: "r = (Some v, s1)" "consumed_ok s m s1"
    by (auto simp: reads_def)
  with assms(2) [of s1] consumed_okD [OF s1(2)] obtain s2 where "k v s1 = (Some w, s2)" "consumed_ok s1 n s2"
    by (auto simp: reads_def)
  with s1 consumed_ok_trans [OF s1(2)] show ?thesis by (auto simp: reads_def)
qed

lemma reads_map:
  "reads r s n v \<Longrightarrow> reads (rd_then r (\<lambda>x s. (Some (f x), s))) s n (f v)"
  by (auto simp: reads_def)

lemma reads_cong: "reads r s n v \<Longrightarrow> v = w \<Longrightarrow> reads r s n w"
  by simp

lemma pb_read_reads:
  assumes "istream_ok s" "input s = bs @ rst" "length bs = unat n"
  shows "reads (pb_read s True n) s (length bs) bs"
  using pb_read_enough [OF assms(1), of n True] assms(2,3) by (auto simp: reads_def)

lemma pb_skip_bytes_reads:
  assumes "istream_ok s" "unat n \<le> length (input s)"
  shows "reads (pb_skip_bytes s n) s (unat n) ()"
  using pb_read_enough [OF assms, of False] by (auto simp: reads_def pb_skip_bytes_def)

lemma pb_decode_varint_reads:
  assumes "istream_ok s" "input s = varint_bytes (unat v) @ rst"
  shows "reads (pb_decode_varint s) s (length (varint_bytes (unat v))) v"
proof -
  have "length (varint_bytes (unat v)) \<le> 10"
    using unat_lt_64 [of v] by (intro length_varint_bytes_64) simp
  from pb_decode_varint_ok [OF assms is_varint_varint_bytes this] show ?thesis
    by (simp add: reads_def varint_val_varint_bytes)
qed

lemma pb_decode_varint32_reads:
  assumes "istream_ok s" "input s = varint_bytes (unat v) @ rst"
  shows "reads (pb_decode_varint32 s) s (length (varint_bytes (unat v))) v"
  using pb_decode_varint32_eof_ok [OF assms] unat_lt_32 [of v]
  by (auto simp: reads_def pb_decode_varint32_def)

lemma pb_decode_svarint_reads:
  assumes "istream_ok s" "input s = varint_bytes (zigzag (sint v)) @ rst"
  shows "reads (pb_decode_svarint s) s (length (varint_bytes (zigzag (sint v)))) v"
  using reads_map [OF pb_decode_varint_reads [OF assms(1), of "of_nat (zigzag (sint v))" rst],
      of "\<lambda>v. if v AND 1 \<noteq> 0 then NOT (drop_bit 1 v) else drop_bit 1 v"]
    assms(2) zigzag_word_decoded [of v]
  by (simp add: pb_decode_svarint_def)

lemma pb_decode_fixed32_reads:
  assumes "istream_ok s" "input s = le_bytes 4 (unat v) @ rst"
  shows "reads (pb_decode_fixed32 s) s 4 v"
proof -
  have l: "length (le_bytes 4 (unat v)) = 4" by simp
  obtain b0 b1 b2 b3 where b: "le_bytes 4 (unat v) = [b0, b1, b2, b3]"
    using le_bytes_4 [of "unat v"] by blast
  from pb_read_reads [OF assms, of 4] l have "reads (pb_read s True 4) s 4 (le_bytes 4 (unat v))" by simp
  then have "reads (pb_decode_fixed32 s) s 4 (of_nat (le_val (le_bytes 4 (unat v))))"
    unfolding pb_decode_fixed32_def by (rule reads_map [THEN reads_cong]) (simp add: b le_word_4 del: le_val.simps push_bit_0_id)
  then show ?thesis using unat_lt_32 [of v] by (simp add: le_val_bytes)
qed
lemma pb_decode_fixed64_reads:
  assumes "istream_ok s" "input s = le_bytes 8 (unat v) @ rst"
  shows "reads (pb_decode_fixed64 s) s 8 v"
proof -
  have l: "length (le_bytes 8 (unat v)) = 8" by simp
  obtain b0 b1 b2 b3 b4 b5 b6 b7 where b: "le_bytes 8 (unat v) = [b0, b1, b2, b3, b4, b5, b6, b7]"
    using le_bytes_8 [of "unat v"] by blast
  from pb_read_reads [OF assms, of 8] l have "reads (pb_read s True 8) s 8 (le_bytes 8 (unat v))" by simp
  then have "reads (pb_decode_fixed64 s) s 8 (of_nat (le_val (le_bytes 8 (unat v))))"
    unfolding pb_decode_fixed64_def by (rule reads_map [THEN reads_cong]) (simp add: b le_word_8 del: le_val.simps push_bit_0_id)
  then show ?thesis using unat_lt_64 [of v] by (simp add: le_val_bytes)
qed

lemma pb_decode_bool_reads:
  assumes "istream_ok s" "input s = varint_bytes (if b then 1 else 0) @ rst"
  shows "reads (pb_decode_bool s) s 1 b"
  using reads_map [OF pb_decode_varint32_reads [OF assms(1), of "if b then 1 else 0" rst], of "\<lambda>v. v \<noteq> 0"] assms(2)
  by (auto simp: pb_decode_bool_def varint_bytes_small split: if_splits)

lemma pb_decode_tag_ok:
  assumes "istream_ok s" "input s = varint_bytes (wire_key wt tag) @ rst" "unat wt < 8" "unat tag < 2 ^ 29" "tag \<noteq> 0"
  shows "\<exists>s'. pb_decode_tag s = (True, wt, tag, False, s')
    \<and> consumed_ok s (length (varint_bytes (wire_key wt tag))) s'"
proof -
  let ?n = "wire_key wt tag"
  have n: "?n < 2 ^ 32" using assms(3,4) by (simp add: wire_key_def)
  with pb_decode_varint32_eof_ok [OF assms(1,2)] obtain s1 where
    s1: "pb_decode_varint32_eof s = (Some (of_nat ?n), False, s1)"
      "consumed_ok s (length (varint_bytes ?n)) s1" by blast
  have u: "unat (of_nat ?n :: u32) = ?n" using n by (rule unat_of_nat_32)
  have "unat tag \<noteq> 0" using assms(5) by (simp add: unat_eq_0)
  then have "(of_nat ?n :: u32) \<noteq> 0" using u by (auto simp: wire_key_def)
  moreover have "of_nat ?n AND 7 = wt"
    using u assms(3) by (intro unsigned_word_eqI [where 'a = nat]) (simp only: unat_and_7, simp add: wire_key_def)
  moreover have "drop_bit 3 (of_nat ?n :: u32) = tag"
    using u assms(3) by (intro unsigned_word_eqI [where 'a = nat]) (simp only: unat_drop_bit_word, simp add: wire_key_def)
  ultimately show ?thesis using s1 by (simp add: pb_decode_tag_def)
qed

lemma pb_decode_tag_eof:
  assumes "istream_ok s" "input s = []"
  shows "\<exists>s'. pb_decode_tag s = (False, 0, 0, True, s') \<and> consumed s 0 s'"
  using assms consumed_0 [of s] length_input [of s]
  by (auto simp: pb_decode_tag_def pb_decode_varint32_eof_def pb_readbyte_Nil is_return_error_def
      unat_eq_0 intro: consumed_set_error)

lemma pb_skip_varint_reads:
  assumes "istream_ok s" "input s = bs @ rst" "is_varint bs"
  shows "reads (pb_skip_varint s) s (length bs) ()"
  using assms
proof (induction bs arbitrary: s)
  case (Cons b bs)
  from pb_read_reads [OF Cons.prems(1), of "[b]" "bs @ rst" 1] Cons.prems(2)
  obtain s1 where s1: "pb_read s True 1 = (Some [b], s1)" "consumed_ok s 1 s1"
    by (auto simp: reads_def)
  have "istream_ok s1" "input s1 = bs @ rst" using s1(2) Cons.prems(2) by (auto dest: consumed_okD)
  show ?case
  proof (cases "bs = []")
    case True
    with s1 Cons.prems(3) show ?thesis
      by (simp add: pb_skip_varint.simps [of s] byte_and_128 reads_def)
  next
    case False
    with Cons.prems(3) have b: "128 \<le> unat b" "is_varint bs" by (simp_all add: is_varint_Cons)
    from Cons.IH [OF \<open>istream_ok s1\<close> \<open>input s1 = bs @ rst\<close> b(2)]
    obtain s2 where s2: "pb_skip_varint s1 = (Some (), s2)" "consumed_ok s1 (length bs) s2"
      by (auto simp: reads_def)
    with s1 b(1) consumed_ok_trans [OF s1(2) s2(2)] show ?thesis
      by (simp add: pb_skip_varint.simps [of s] byte_and_128_neq reads_def)
  qed
qed simp

lemma pb_skip_string_reads:
  assumes "istream_ok s" "input s = varint_bytes (length bs) @ bs @ rst" "length bs < 2 ^ 32"
  shows "reads (pb_skip_string s) s (length (varint_bytes (length bs)) + length bs) ()"
proof -
  let ?n = "of_nat (length bs) :: u32"
  have u: "unat ?n = length bs" using assms(3) by (intro unat_of_nat_32)
  have u64: "unat (ucast ?n :: u64) = length bs" by (simp add: unat_ucast_up u)
  have "reads (pb_decode_varint32 s) s (length (varint_bytes (length bs))) ?n"
    using pb_decode_varint32_reads [OF assms(1), of ?n] assms(2) u by simp
  then show ?thesis unfolding pb_skip_string_def
  proof (rule reads_then)
    fix s' assume "istream_ok s'" "input s' = drop (length (varint_bytes (length bs))) (input s)"
    then show "reads (pb_skip_bytes s' (ucast ?n)) s' (length bs) ()"
      using pb_skip_bytes_reads [of s' "ucast ?n"] u64 assms(2) by simp
  qed
qed


text \<open>\<open>pb_skip_field\<close> takes exactly one payload of the wire type it is given.\<close>

lemma pb_skip_field_reads:
  assumes "istream_ok s" "input s = bs @ rst" "is_payload wt bs"
  shows "reads (pb_skip_field s wt) s (length bs) ()"
proof -
  have fixed: "reads (pb_skip_bytes s n) s (length bs) ()" if "length bs = unat n" for n
    using pb_skip_bytes_reads [OF assms(1), of n] assms(2) that by simp
  from assms(3) consider
    "wt = PB_WT_VARINT" "is_varint bs" | "wt = PB_WT_64BIT" "length bs = unat (8 :: size_t)"
    | d where "wt = PB_WT_STRING" "bs = varint_bytes (length d) @ d" "length d < 2 ^ 32"
    | "wt = PB_WT_32BIT" "length bs = unat (4 :: size_t)"
    by (auto simp: is_payload_def pb_consts)
  then show ?thesis
  proof cases
    case 1
    then show ?thesis using pb_skip_varint_reads [OF assms(1,2)] by (simp add: pb_skip_field_def)
  next
    case 2
    then show ?thesis using fixed by (simp add: pb_skip_field_def pb_consts)
  next
    case 3
    with assms(2) have "input s = varint_bytes (length d) @ d @ rst" by simp
    from pb_skip_string_reads [OF assms(1) this 3(3)] 3 show ?thesis
      by (simp add: pb_skip_field_def pb_consts)
  next
    case 4
    then show ?thesis using fixed by (simp add: pb_skip_field_def pb_consts)
  qed
qed

lemma raw_varint_loop_reads:
  assumes "istream_ok s" "input s = bs @ rst" "is_varint bs" "length buf + length bs \<le> unat max_size"
  shows "reads (raw_varint_loop s max_size buf) s (length bs) (buf @ bs)"
  using assms
proof (induction bs arbitrary: s buf)
  case (Cons b bs)
  from pb_read_reads [OF Cons.prems(1), of "[b]" "bs @ rst" 1] Cons.prems(2)
  obtain s1 where s1: "pb_read s True 1 = (Some [b], s1)" "consumed_ok s 1 s1"
    by (auto simp: reads_def)
  have s1ok: "istream_ok s1" "input s1 = bs @ rst" using s1(2) Cons.prems(2) by (auto dest: consumed_okD)
  have "unat (of_nat (length buf + 1) :: size_t) = length buf + 1"
    using Cons.prems(4) unat_lt_64 [of max_size] by (intro unat_of_nat_64) simp
  then have "\<not> max_size < of_nat (length buf + 1)"
    using Cons.prems(4) by (simp only: word_less_nat_alt) simp
  note unf = raw_varint_loop.simps [of s max_size buf] this s1(1)
  show ?case
  proof (cases "bs = []")
    case True
    with unf s1 Cons.prems(3) show ?thesis
      by (simp add: byte_and_128 reads_def del: of_nat_Suc of_nat_add)
  next
    case False
    with Cons.prems(3) have b: "128 \<le> unat b" "is_varint bs" by (simp_all add: is_varint_Cons)
    with Cons.IH [OF s1ok b(2), of "buf @ [b]"] Cons.prems(4)
    obtain s2 where s2: "raw_varint_loop s1 max_size (buf @ [b]) = (Some (buf @ b # bs), s2)"
      "consumed_ok s1 (length bs) s2" by (auto simp: reads_def)
    with unf b(1) consumed_ok_trans [OF s1(2) s2(2)] show ?thesis
      by (simp add: byte_and_128_neq reads_def del: of_nat_Suc of_nat_add)
  qed
qed simp

lemma read_raw_value_reads:
  assumes "istream_ok s" "input s = bs @ rst" "is_payload wt bs" "wt \<noteq> PB_WT_STRING"
    and "length bs \<le> unat max_size"
  shows "reads (read_raw_value s wt max_size) s (length bs) bs"
  using assms(3,4) pb_read_reads [OF assms(1,2), of 8] pb_read_reads [OF assms(1,2), of 4]
    raw_varint_loop_reads [OF assms(1,2), of "[]" max_size] assms(5)
  by (auto simp: is_payload_def read_raw_value_def pb_consts)

lemma pb_close_string_substream_ok:
  assumes "consumed sub k sub'"
  shows "\<exists>st. pb_close_string_substream par sub' =
      (Some (), par\<lparr>is_state := st, is_errmsg := is_errmsg sub'\<rparr>)
    \<and> okst st \<and> rest st = drop (unat (is_bytes_left sub)) (rest (is_state sub))"
proof -
  let ?m = "is_bytes_left sub'"
  have ok: "istream_ok sub'" using assms by (rule consumed_istream_ok)
  have "unat ?m \<le> length (input sub')" using length_input [OF ok] by simp
  from pb_read_enough [OF ok this, of False] consumed_ok_0 [OF ok] obtain sub'' where
    r: "(if ?m \<noteq> 0 then pb_read sub' False ?m else (Some [], sub')) = (Some [], sub'')"
      "consumed_ok sub' (unat ?m) sub''" by (cases "?m = 0") auto
  have "unat (is_bytes_left sub) = unat ?m + k" using assms by (simp add: consumed_def)
  with assms r(2) have "okst (is_state sub'')" "is_errmsg sub'' = is_errmsg sub'"
      "rest (is_state sub'') = drop (unat (is_bytes_left sub)) (rest (is_state sub))"
    by (simp_all add: consumed_ok_def consumed_def istream_ok_def)
  with r(1) show ?thesis by (intro exI [of _ "is_state sub''"]) (simp add: pb_close_string_substream_def)
qed

text \<open>
  A length-delimited item as a substream: it holds exactly the item, and closing it after any
  amount of reading leaves the parent stream behind the item.
\<close>

lemma substream_roundtrip:
  assumes ok: "istream_ok s" and inp: "input s = varint_bytes (length d) @ d @ rst"
    and len: "length d < 2 ^ 32"
  shows "\<exists>sub s'. pb_make_string_substream s = (Some sub, s')
    \<and> istream_ok sub \<and> input sub = d \<and> is_errmsg sub = is_errmsg s
    \<and> (\<forall>k sub'. consumed sub k sub' \<longrightarrow> (\<exists>s''. pb_close_string_substream s' sub' = (Some (), s'')
          \<and> consumed s (length (varint_bytes (length d)) + length d) s''
          \<and> is_errmsg s'' = is_errmsg sub'))"
proof -
  let ?n = "of_nat (length d) :: u32" and ?h = "length (varint_bytes (length d))"
  have u: "unat ?n = length d" using len by (intro unat_of_nat_32)
  have u64: "unat (ucast ?n :: u64) = length d" by (simp add: unat_ucast_up u)
  from pb_decode_varint32_reads [OF ok, of ?n] inp u obtain s1 where
    s1: "pb_decode_varint32 s = (Some ?n, s1)" "consumed_ok s ?h s1" by (auto simp: reads_def)
  have ok1: "istream_ok s1" and inp1: "input s1 = d @ rst" and e1: "is_errmsg s1 = is_errmsg s"
    using consumed_okD [OF s1(2)] s1(2) inp by (simp_all add: consumed_ok_def)
  have le: "length d \<le> unat (is_bytes_left s1)" using length_input [OF ok1] inp1 by simp
  let ?sub = "s1\<lparr>is_bytes_left := ucast ?n\<rparr>"
  let ?par = "s1\<lparr>is_bytes_left := is_bytes_left s1 - ucast ?n\<rparr>"
  have mk: "pb_make_string_substream s = (Some ?sub, ?par)"
    using s1(1) le u64 by (simp add: pb_make_string_substream_def Let_def word_less_nat_alt)
  have sub: "istream_ok ?sub" using ok1 le u64 by (simp add: istream_ok_def)
  have inps: "input ?sub = d"
    using inp1 u64 le by (metis (no_types, lifting) input_def take_take append_eq_conv_conj min.absorb1 pb_istream.select_convs(3,4) pb_istream.update_convs(4) pb_istream.surjective)
  have "\<exists>s''. pb_close_string_substream ?par sub' = (Some (), s'')
      \<and> consumed s (?h + length d) s'' \<and> is_errmsg s'' = is_errmsg sub'"
    if "consumed ?sub k sub'" for k sub'
  proof -
    from pb_close_string_substream_ok [OF that, of ?par] obtain st where
      st: "pb_close_string_substream ?par sub' = (Some (), ?par\<lparr>is_state := st, is_errmsg := is_errmsg sub'\<rparr>)"
        "okst st" "rest st = drop (length d) (rest (is_state s1))" by (auto simp: u64)
    with s1(2) u64 le show ?thesis
      by (auto simp: consumed_ok_def consumed_def istream_ok_def unat_sub word_le_nat_alt add.commute)
  qed
  with mk sub inps e1 show ?thesis by (intro exI [of _ ?sub] exI [of _ ?par]) auto
qed

end

end
