(* ===== verification/Pb_Iter.thy ===== *)
theory Pb_Iter
  imports Pb_Types
begin

text \<open>
  The field iterator of \<^verbatim>\<open>nanopb/pb_common.c\<close>, which walks through the descriptor table of a
  message and computes the addresses of the members from the offsets in the table.
\<close>

section \<open>Definitions\<close>

text \<open>
  A descriptor table is an array that ends with \<open>PB_LAST_FIELD\<close>; a \<open>const pb_field_t*\<close> into it is
  the table together with an index. Reading behind the end of the array is undefined in C; the
  model sees the terminator there.
\<close>

definition field_at :: "pb_field list \<Rightarrow> nat \<Rightarrow> pb_field" where
  "field_at flds i = (if i < length flds then flds ! i else PB_LAST_FIELD)"

record pb_field_iter =
  it_start :: "pb_field list"
  it_pos :: nat
  it_required_field_index :: "32 word"
  it_dest_struct :: addr
  it_pData :: addr
  it_pSize :: addr

text \<open>\<^verbatim>\<open>*iter->pos\<close>\<close>

definition it_field :: "pb_field_iter \<Rightarrow> pb_field" where
  "it_field iter = field_at (it_start iter) (it_pos iter)"

definition pb_field_iter_begin :: "pb_field list \<Rightarrow> addr \<Rightarrow> bool \<times> pb_field_iter" where
  "pb_field_iter_begin flds dest_struct =
     (let pos = field_at flds 0;
          pData = dest_struct + ucast (pf_data_offset pos);
          pSize = pData + scast (pf_size_offset pos)
      in (pf_tag pos \<noteq> 0,
          \<lparr>it_start = flds, it_pos = 0, it_required_field_index = 0,
           it_dest_struct = dest_struct, it_pData = pData, it_pSize = pSize\<rparr>))"

text \<open>The size of the previous field in the structure, from its descriptor.\<close>

definition it_prev_size :: "pb_field \<Rightarrow> size_t" where
  "it_prev_size prev_field =
     (if PB_ATYPE (pf_type prev_field) = PB_ATYPE_STATIC \<and>
         PB_HTYPE (pf_type prev_field) = PB_HTYPE_REPEATED
      then ucast (pf_data_size prev_field) * ucast (pf_array_size prev_field)
      else if PB_ATYPE (pf_type prev_field) = PB_ATYPE_POINTER then 8
      else ucast (pf_data_size prev_field))"

definition pb_field_iter_next :: "pb_field_iter \<Rightarrow> bool \<times> pb_field_iter" where
  "pb_field_iter_next iter =
     (let prev_field = it_field iter in
      if pf_tag prev_field = 0 then (False, iter)
      else
        let iter = iter\<lparr>it_pos := it_pos iter + 1\<rparr>; pos = it_field iter in
        if pf_tag pos = 0
        then (False, snd (pb_field_iter_begin (it_start iter) (it_dest_struct iter)))
        else if PB_HTYPE (pf_type prev_field) = PB_HTYPE_ONEOF \<and>
                PB_HTYPE (pf_type pos) = PB_HTYPE_ONEOF \<and>
                pf_data_offset pos = PB_SIZE_MAX
        then (True, iter)
        else
          let iter = (if PB_HTYPE (pf_type prev_field) = PB_HTYPE_REQUIRED
                      then iter\<lparr>it_required_field_index := it_required_field_index iter + 1\<rparr>
                      else iter);
              pData = it_pData iter + it_prev_size prev_field + ucast (pf_data_offset pos);
              pSize = pData + scast (pf_size_offset pos)
          in (True, iter\<lparr>it_pData := pData, it_pSize := pSize\<rparr>))"

text \<open>The field the search looks for.\<close>

definition it_matches :: "u32 \<Rightarrow> pb_field \<Rightarrow> bool" where
  "it_matches tag f \<longleftrightarrow> pf_tag f = tag \<and> PB_LTYPE (pf_type f) \<noteq> PB_LTYPE_EXTENSION"

text \<open>
  The loop \<^verbatim>\<open>do ... while (iter->pos != start)\<close> of \<open>pb_field_iter_find\<close> and of
  \<open>find_extension_field\<close> in \<^verbatim>\<open>pb_decode.c\<close>, with the condition they return true for. It ends if \<open>start\<close> is a position the iterator
  comes back to; \<open>None\<close> is a search that never ends.
\<close>

partial_function (option) find_loop ::
  "nat \<Rightarrow> (pb_field \<Rightarrow> bool) \<Rightarrow> pb_field_iter \<Rightarrow> (bool \<times> pb_field_iter) option" where
  "find_loop start P iter =
     (if P (it_field iter) then Some (True, iter)
      else if it_pos (snd (pb_field_iter_next iter)) = start
      then Some (False, snd (pb_field_iter_next iter))
      else find_loop start P (snd (pb_field_iter_next iter)))"

definition pb_field_iter_find :: "pb_field_iter \<Rightarrow> u32 \<Rightarrow> (bool \<times> pb_field_iter) option" where
  "pb_field_iter_find iter tag = find_loop (it_pos iter) (it_matches tag) iter"

section \<open>The sequence of iterator states\<close>

text \<open>Number of fields in front of the terminator; a table is well-formed if it has one.\<close>

definition nfields :: "pb_field list \<Rightarrow> nat" where
  "nfields flds = length (takeWhile (\<lambda>f. pf_tag f \<noteq> 0) flds)"

definition wf_fields :: "pb_field list \<Rightarrow> bool" where
  "wf_fields flds \<longleftrightarrow> nfields flds < length flds"

text \<open>The iterator after \<open>i\<close> steps from the beginning.\<close>

primrec iter_at :: "pb_field list \<Rightarrow> addr \<Rightarrow> nat \<Rightarrow> pb_field_iter" where
  "iter_at flds dest 0 = snd (pb_field_iter_begin flds dest)"
| "iter_at flds dest (Suc i) = snd (pb_field_iter_next (iter_at flds dest i))"

lemma field_at_tag_nonzero: "i < nfields flds \<Longrightarrow> pf_tag (field_at flds i) \<noteq> 0"
proof -
  assume i: "i < nfields flds"
  then have "i < length flds"
    unfolding nfields_def using length_takeWhile_le [of "\<lambda>f. pf_tag f \<noteq> 0" flds] by linarith
  moreover have "takeWhile (\<lambda>f. pf_tag f \<noteq> 0) flds ! i = flds ! i"
    using i by (simp add: nfields_def takeWhile_nth)
  moreover have "takeWhile (\<lambda>f. pf_tag f \<noteq> 0) flds ! i \<in> set (takeWhile (\<lambda>f. pf_tag f \<noteq> 0) flds)"
    using i by (intro nth_mem) (simp add: nfields_def)
  then have "pf_tag (takeWhile (\<lambda>f. pf_tag f \<noteq> 0) flds ! i) \<noteq> 0" by (rule set_takeWhileD [THEN conjunct2])
  ultimately show ?thesis by (simp add: field_at_def)
qed

lemma all_fields_iff:
  "(\<forall>i < nfields flds. P (field_at flds i)) \<longleftrightarrow> list_all P (takeWhile (\<lambda>f. pf_tag f \<noteq> 0) flds)"
proof -
  have "field_at flds i = takeWhile (\<lambda>f. pf_tag f \<noteq> 0) flds ! i" if "i < nfields flds" for i
  proof -
    have "i < length flds" using that length_takeWhile_le [of "\<lambda>f. pf_tag f \<noteq> 0" flds]
      unfolding nfields_def by linarith
    with that show ?thesis by (simp add: field_at_def nfields_def takeWhile_nth)
  qed
  then show ?thesis by (auto simp: list_all_length nfields_def)
qed

lemma field_at_nfields: "pf_tag (field_at flds (nfields flds)) = 0"
  using nth_length_takeWhile [of "\<lambda>f. pf_tag f \<noteq> 0" flds]
  by (auto simp: field_at_def nfields_def PB_LAST_FIELD_def)

lemma pb_field_iter_begin_simps [simp]:
  "it_start (snd (pb_field_iter_begin flds dest)) = flds"
  "it_pos (snd (pb_field_iter_begin flds dest)) = 0"
  "it_dest_struct (snd (pb_field_iter_begin flds dest)) = dest"
  by (simp_all add: pb_field_iter_begin_def Let_def)

lemma pb_field_iter_next_invariant [simp]:
  "it_start (snd (pb_field_iter_next it)) = it_start it"
  "it_dest_struct (snd (pb_field_iter_next it)) = it_dest_struct it"
  by (auto simp: pb_field_iter_next_def Let_def)

lemma iter_at_invariant [simp]:
  "it_start (iter_at flds dest i) = flds" "it_dest_struct (iter_at flds dest i) = dest"
  by (induction i) simp_all

lemma pb_field_iter_next_wrap:
  assumes "pf_tag (it_field it) \<noteq> 0" "pf_tag (field_at (it_start it) (Suc (it_pos it))) = 0"
  shows "pb_field_iter_next it = (False, iter_at (it_start it) (it_dest_struct it) 0)"
  using assms by (simp add: pb_field_iter_next_def it_field_def)

lemma pb_field_iter_next_step:
  assumes "pf_tag (it_field it) \<noteq> 0" "pf_tag (field_at (it_start it) (Suc (it_pos it))) \<noteq> 0"
  shows "fst (pb_field_iter_next it)" "it_pos (snd (pb_field_iter_next it)) = Suc (it_pos it)"
  using assms by (auto simp: pb_field_iter_next_def it_field_def Let_def)

lemma iter_at_pos: "i < nfields flds \<Longrightarrow> it_pos (iter_at flds dest i) = i"
proof (induction i)
  case (Suc i)
  then have IH: "it_pos (iter_at flds dest i) = i" by simp
  with Suc.prems show ?case
    using pb_field_iter_next_step(2) [of "iter_at flds dest i"]
      field_at_tag_nonzero [of i flds] field_at_tag_nonzero [of "Suc i" flds]
    by (simp add: it_field_def)
qed simp

lemma iter_at_field: "i < nfields flds \<Longrightarrow> it_field (iter_at flds dest i) = field_at flds i"
  by (simp add: it_field_def iter_at_pos)

text \<open>One step: to the next field, and from the last field back to the first.\<close>

lemma pb_field_iter_next_iter_at:
  assumes "i < nfields flds"
  shows "pb_field_iter_next (iter_at flds dest i) =
    (if Suc i < nfields flds then (True, iter_at flds dest (Suc i))
     else (False, iter_at flds dest 0))"
proof (cases "Suc i < nfields flds")
  case True
  then have "fst (pb_field_iter_next (iter_at flds dest i))"
    using assms by (intro pb_field_iter_next_step(1))
      (simp_all add: iter_at_field iter_at_pos field_at_tag_nonzero)
  with True show ?thesis by (simp add: prod_eq_iff)
next
  case False
  with assms have "Suc i = nfields flds" by simp
  with assms have "pb_field_iter_next (iter_at flds dest i) = (False, iter_at flds dest 0)"
    using pb_field_iter_next_wrap [of "iter_at flds dest i"]
    by (simp add: iter_at_field iter_at_pos field_at_tag_nonzero field_at_nfields)
  with False show ?thesis by simp
qed

declare iter_at.simps(2) [simp del]

lemma pb_field_iter_begin_eq:
  "pb_field_iter_begin flds dest = (0 < nfields flds, iter_at flds dest 0)"
proof -
  have "pf_tag (field_at flds 0) \<noteq> 0 \<longleftrightarrow> 0 < nfields flds"
    using field_at_tag_nonzero [of 0 flds] field_at_nfields [of flds] by (cases "nfields flds") auto
  then show ?thesis by (simp add: prod_eq_iff) (simp add: pb_field_iter_begin_def Let_def)
qed

section \<open>Loops over the fields\<close>

text \<open>
  The walk over the fields of a message, \<^verbatim>\<open>do ... while (pb_field_iter_next(&iter))\<close>, with the
  iterator started: the loop of \<open>pb_encode\<close>, \<open>pb_check_proto3_default_value\<close>,
  \<open>pb_message_set_to_defaults\<close> and \<open>pb_release\<close>.
\<close>

lemma pb_field_iter_next_pos:
  assumes "pb_field_iter_next it = (True, it')"
  shows "it_start it' = it_start it" "it_pos it' = Suc (it_pos it)"
    "Suc (it_pos it) < length (it_start it)"
proof -
  have tag: "pf_tag (it_field it) \<noteq> 0"
    using assms by (auto simp: pb_field_iter_next_def)
  have tag': "pf_tag (field_at (it_start it) (Suc (it_pos it))) \<noteq> 0"
    using assms pb_field_iter_next_wrap [OF tag] by auto
  show "Suc (it_pos it) < length (it_start it)"
    using tag' by (auto simp: field_at_def PB_LAST_FIELD_def split: if_splits)
  show "it_start it' = it_start it" "it_pos it' = Suc (it_pos it)"
    using assms pb_field_iter_next_step(2) [OF tag tag'] pb_field_iter_next_invariant(1) [of it] by simp_all
qed

lemma pb_field_iter_next_shorter:
  "pb_field_iter_next it = (True, it') \<Longrightarrow>
     length (it_start it') - it_pos it' < length (it_start it) - it_pos it"
  using pb_field_iter_next_pos [of it it'] by simp

function iter_loop ::
  "('s \<Rightarrow> pb_field_iter \<Rightarrow> (bool \<times> 's) option) \<Rightarrow> pb_field_iter \<Rightarrow> 's \<Rightarrow> (bool \<times> 's) option" where
  "iter_loop body iter s =
     oand_then (body s iter) (\<lambda>s.
       case pb_field_iter_next iter of (again, iter') \<Rightarrow>
         if again then iter_loop body iter' s else Some (True, s))"
  by pat_completeness auto
termination
  by (relation "measure (\<lambda>(body, iter, s). length (it_start iter) - it_pos iter)")
    (auto dest: pb_field_iter_next_shorter [OF sym])

declare iter_loop.simps [simp del]

lemma iter_loop_iter_at:
  assumes "i < nfields flds"
  shows "iter_loop body (iter_at flds dest i) s =
    oseq (map (\<lambda>j s. body s (iter_at flds dest j)) [i..<nfields flds]) s"
  using assms
proof (induction "nfields flds - i" arbitrary: i s)
  case (Suc m)
  have upt: "[i..<nfields flds] = i # [Suc i..<nfields flds]" using Suc.prems by (rule upt_conv_Cons)
  have rest: "(case pb_field_iter_next (iter_at flds dest i) of (again, iter') \<Rightarrow>
      if again then iter_loop body iter' s' else Some (True, s')) =
      oseq (map (\<lambda>j s. body s (iter_at flds dest j)) [Suc i..<nfields flds]) s'" for s'
  proof (cases "Suc i < nfields flds")
    case True
    moreover have "m = nfields flds - Suc i" using Suc.hyps(2) by simp
    ultimately show ?thesis
      using Suc.hyps(1) [of "Suc i" s'] by (simp add: pb_field_iter_next_iter_at [OF Suc.prems])
  next
    case False
    then show ?thesis by (simp add: pb_field_iter_next_iter_at [OF Suc.prems])
  qed
  show ?case by (subst iter_loop.simps) (simp only: rest upt list.map oseq.simps)
qed simp

section \<open>Searching\<close>

text \<open>
  The search runs from its start position upwards to the end of the table, then from the
  beginning up to the start position.
\<close>

lemma find_loop_step:
  assumes "i < nfields flds"
  shows "find_loop start P (iter_at flds dest i) =
    (if P (field_at flds i) then Some (True, iter_at flds dest i)
     else let j = (if Suc i < nfields flds then Suc i else 0)
          in if j = start then Some (False, iter_at flds dest j)
             else find_loop start P (iter_at flds dest j))"
proof -
  have next_it: "snd (pb_field_iter_next (iter_at flds dest i)) =
      iter_at flds dest (if Suc i < nfields flds then Suc i else 0)"
    by (simp add: pb_field_iter_next_iter_at [OF assms])
  have "it_pos (iter_at flds dest (if Suc i < nfields flds then Suc i else 0)) =
      (if Suc i < nfields flds then Suc i else 0)"
    using assms by (auto intro: iter_at_pos)
  then show ?thesis
    using find_loop.simps [of start P "iter_at flds dest i"]
    unfolding next_it iter_at_field [OF assms] Let_def by (simp only:)
qed

lemma find_loop_up:
  assumes "start \<le> i" "i < nfields flds"
  shows "(\<exists>j. i \<le> j \<and> j < nfields flds \<and> P (field_at flds j)
      \<and> find_loop start P (iter_at flds dest i) = Some (True, iter_at flds dest j))
    \<or> (\<forall>j. i \<le> j \<and> j < nfields flds \<longrightarrow> \<not> P (field_at flds j))
      \<and> find_loop start P (iter_at flds dest i) =
          (if start = 0 then Some (False, iter_at flds dest 0)
           else find_loop start P (iter_at flds dest 0))"
  using assms
proof (induction "nfields flds - i" arbitrary: i)
  case 0
  then show ?case by simp
next
  case (Suc m)
  note step = find_loop_step [OF Suc.prems(2), of start P dest]
  show ?case
  proof (cases "P (field_at flds i)")
    case True
    with step Suc.prems(2) show ?thesis by (intro disjI1 exI [of _ i]) simp
  next
    case no: False
    show ?thesis
    proof (cases "Suc i < nfields flds")
      case False
      with Suc.prems(2) have "j = i" if "i \<le> j" "j < nfields flds" for j using that by simp
      moreover from False no have "find_loop start P (iter_at flds dest i) =
          (if start = 0 then Some (False, iter_at flds dest 0)
           else find_loop start P (iter_at flds dest 0))" by (simp only: step Let_def if_False) auto
      ultimately show ?thesis using no by blast
    next
      case True
      with no Suc.prems(1) have step: "find_loop start P (iter_at flds dest i) =
          find_loop start P (iter_at flds dest (Suc i))"
        by (simp only: step Let_def if_False if_True) simp
      have "m = nfields flds - Suc i" "start \<le> Suc i" using Suc by simp_all
      from Suc.hyps(1) [OF this True] show ?thesis
      proof (elim disjE exE conjE)
        fix j assume "Suc i \<le> j" "j < nfields flds" "P (field_at flds j)"
          "find_loop start P (iter_at flds dest (Suc i)) = Some (True, iter_at flds dest j)"
        with step show ?thesis by (metis Suc_leD)
      next
        assume none: "\<forall>j. Suc i \<le> j \<and> j < nfields flds \<longrightarrow> \<not> P (field_at flds j)"
          and eq: "find_loop start P (iter_at flds dest (Suc i)) =
            (if start = 0 then Some (False, iter_at flds dest 0)
             else find_loop start P (iter_at flds dest 0))"
        have "\<forall>j. i \<le> j \<and> j < nfields flds \<longrightarrow> \<not> P (field_at flds j)"
          using none no by (metis Suc_leI le_neq_implies_less)
        with eq step show ?thesis by simp
      qed
    qed
  qed
qed

lemma find_loop_below:
  assumes "i < start" "start < nfields flds"
  shows "(\<exists>j. i \<le> j \<and> j < start \<and> P (field_at flds j)
      \<and> find_loop start P (iter_at flds dest i) = Some (True, iter_at flds dest j))
    \<or> (\<forall>j. i \<le> j \<and> j < start \<longrightarrow> \<not> P (field_at flds j))
      \<and> find_loop start P (iter_at flds dest i) = Some (False, iter_at flds dest start)"
  using assms
proof (induction "start - i" arbitrary: i)
  case 0
  then show ?case by simp
next
  case (Suc m)
  have i: "i < nfields flds" "Suc i < nfields flds" using Suc.prems by simp_all
  note step = find_loop_step [OF i(1), of start P dest]
  show ?case
  proof (cases "P (field_at flds i)")
    case True
    with step Suc.prems(1) show ?thesis by (intro disjI1 exI [of _ i]) simp
  next
    case no: False
    show ?thesis
    proof (cases "Suc i = start")
      case True
      then have "j = i" if "i \<le> j" "j < start" for j using that by simp
      moreover from True no i(2) have "find_loop start P (iter_at flds dest i) =
          Some (False, iter_at flds dest start)" by (simp only: step Let_def if_False if_True) simp
      ultimately show ?thesis using no by blast
    next
      case False
      with no i(2) have step: "find_loop start P (iter_at flds dest i) =
          find_loop start P (iter_at flds dest (Suc i))" by (simp only: step Let_def if_False if_True)
      have "m = start - Suc i" "Suc i < start" using Suc False by simp_all
      from Suc.hyps(1) [OF this Suc.prems(2)] show ?thesis
        using step no by (metis Suc_leD Suc_leI le_neq_implies_less)
    qed
  qed
qed

lemma find_loop_result:
  assumes "i < nfields flds"
  shows "(\<exists>j < nfields flds. P (field_at flds j)
      \<and> find_loop i P (iter_at flds dest i) = Some (True, iter_at flds dest j))
    \<or> (\<forall>j < nfields flds. \<not> P (field_at flds j))
      \<and> find_loop i P (iter_at flds dest i) = Some (False, iter_at flds dest i)"
proof -
  from find_loop_up [OF order_refl assms, of P dest] show ?thesis
  proof (elim disjE exE conjE)
    fix j assume "j < nfields flds" "P (field_at flds j)"
      "find_loop i P (iter_at flds dest i) = Some (True, iter_at flds dest j)"
    then show ?thesis by auto
  next
    assume up: "\<forall>j. i \<le> j \<and> j < nfields flds \<longrightarrow> \<not> P (field_at flds j)"
      and eq: "find_loop i P (iter_at flds dest i) =
        (if i = 0 then Some (False, iter_at flds dest 0)
         else find_loop i P (iter_at flds dest 0))"
    show ?thesis
    proof (cases "i = 0")
      case True
      with up eq show ?thesis by simp
    next
      case False
      then have "0 < i" by simp
      from find_loop_below [OF this assms, of P dest] False eq up assms show ?thesis
        by (auto simp: not_le intro: less_trans) (metis not_le)
    qed
  qed
qed

lemma pb_field_iter_find_result:
  assumes "i < nfields flds"
  shows "(\<exists>j < nfields flds. it_matches tag (field_at flds j)
      \<and> pb_field_iter_find (iter_at flds dest i) tag = Some (True, iter_at flds dest j))
    \<or> (\<forall>j < nfields flds. \<not> it_matches tag (field_at flds j))
      \<and> pb_field_iter_find (iter_at flds dest i) tag = Some (False, iter_at flds dest i)"
  using find_loop_result [OF assms, of "it_matches tag" dest] assms
  by (simp add: pb_field_iter_find_def iter_at_pos)

text \<open>If exactly one field has the tag, the search ends there, wherever it started.\<close>

corollary pb_field_iter_find_unique:
  assumes "i < nfields flds" "j < nfields flds" "it_matches tag (field_at flds j)"
    and "\<And>k. k < nfields flds \<Longrightarrow> it_matches tag (field_at flds k) \<Longrightarrow> k = j"
  shows "pb_field_iter_find (iter_at flds dest i) tag = Some (True, iter_at flds dest j)"
  using pb_field_iter_find_result [OF assms(1), of tag dest] assms(2-4) by blast

end
