(* ===== verification/Pb_Memory.thy ===== *)
theory Pb_Memory
  imports Pb_Types Pb_Wire
begin

text \<open>
  The memory behind \<open>void*\<close> pointers: a total function from addresses to bytes, read and written in
  little-endian order. Which addresses a program may touch is not part of it; results that need
  this say it in their assumptions.
\<close>

type_synonym mem = "addr \<Rightarrow> byte"

section \<open>Loads\<close>

definition load_bytes :: "mem \<Rightarrow> addr \<Rightarrow> nat \<Rightarrow> byte list" where
  "load_bytes m a n = map (\<lambda>i. m (a + of_nat i)) [0..<n]"

definition load_u8 :: "mem \<Rightarrow> addr \<Rightarrow> 8 word" where
  "load_u8 m a = m a"

definition load_u16 :: "mem \<Rightarrow> addr \<Rightarrow> 16 word" where
  "load_u16 m a = of_nat (le_val (load_bytes m a 2))"

definition load_u32 :: "mem \<Rightarrow> addr \<Rightarrow> u32" where
  "load_u32 m a = of_nat (le_val (load_bytes m a 4))"

definition load_u64 :: "mem \<Rightarrow> addr \<Rightarrow> u64" where
  "load_u64 m a = of_nat (le_val (load_bytes m a 8))"

abbreviation load_ptr :: "mem \<Rightarrow> addr \<Rightarrow> addr" where
  "load_ptr \<equiv> load_u64"

lemma length_load_bytes [simp]: "length (load_bytes m a n) = n"
  by (simp add: load_bytes_def)

lemma load_bytes_Suc: "load_bytes m a (Suc n) = m a # load_bytes m (a + 1) n"
proof -
  have "map (\<lambda>i. m (a + of_nat i)) [Suc 0..<Suc n] = map (\<lambda>i. m (a + 1 + of_nat i)) [0..<n]"
    by (simp only: map_Suc_upt [symmetric] map_map) (simp add: algebra_simps)
  moreover have "[0..<Suc n] = 0 # [Suc 0..<Suc n]" by (rule upt_conv_Cons) simp
  ultimately show ?thesis unfolding load_bytes_def by (simp only: list.map) simp
qed

lemma load_bytes_0 [simp]: "load_bytes m a 0 = []"
  by (simp add: load_bytes_def)

lemma load_bytes_add: "load_bytes m a (j + k) = load_bytes m a j @ load_bytes m (a + of_nat j) k"
  by (induction j arbitrary: a) (simp_all add: load_bytes_Suc algebra_simps)

section \<open>Stores\<close>

fun store_bytes :: "mem \<Rightarrow> addr \<Rightarrow> byte list \<Rightarrow> mem" where
  "store_bytes m a [] = m"
| "store_bytes m a (b # bs) = store_bytes (m(a := b)) (a + 1) bs"

definition store_u8 :: "mem \<Rightarrow> addr \<Rightarrow> 8 word \<Rightarrow> mem" where
  "store_u8 m a v = m(a := v)"

definition store_u16 :: "mem \<Rightarrow> addr \<Rightarrow> 16 word \<Rightarrow> mem" where
  "store_u16 m a v = store_bytes m a (le_bytes 2 (unat v))"

definition store_u32 :: "mem \<Rightarrow> addr \<Rightarrow> u32 \<Rightarrow> mem" where
  "store_u32 m a v = store_bytes m a (le_bytes 4 (unat v))"

definition store_u64 :: "mem \<Rightarrow> addr \<Rightarrow> u64 \<Rightarrow> mem" where
  "store_u64 m a v = store_bytes m a (le_bytes 8 (unat v))"

abbreviation store_ptr :: "mem \<Rightarrow> addr \<Rightarrow> addr \<Rightarrow> mem" where
  "store_ptr \<equiv> store_u64"

text \<open>The addresses of \<open>n\<close> bytes from \<open>a\<close> on.\<close>

definition range_of :: "addr \<Rightarrow> nat \<Rightarrow> addr set" where
  "range_of a n = (\<lambda>i. a + of_nat i) ` {..<n}"

lemma range_of_iff: "x \<in> range_of a n \<longleftrightarrow> unat (x - a) < n"
proof
  assume "x \<in> range_of a n"
  then obtain i where i: "x = a + of_nat i" "i < n" by (auto simp: range_of_def)
  have "unat (x - a) = unat (of_nat i :: addr)" using i(1) by simp
  also have "\<dots> \<le> i" by (simp add: unsigned_of_nat)
  finally show "unat (x - a) < n" using i(2) by simp
next
  assume "unat (x - a) < n"
  moreover have "x = a + of_nat (unat (x - a))" by simp
  ultimately show "x \<in> range_of a n" unfolding range_of_def by (metis image_eqI lessThan_iff)
qed

lemma range_of_Suc: "range_of a (Suc n) = insert a (range_of (a + 1) n)"
  by (simp add: range_of_def lessThan_Suc_eq_insert_0 image_image algebra_simps)

lemma store_bytes_outside: "x \<notin> range_of a (length bs) \<Longrightarrow> store_bytes m a bs x = m x"
  by (induction m a bs rule: store_bytes.induct) (simp_all add: range_of_Suc)

lemma load_bytes_cong:
  "(\<And>x. x \<in> range_of a n \<Longrightarrow> m x = m' x) \<Longrightarrow> load_bytes m a n = load_bytes m' a n"
  by (auto simp: load_bytes_def range_of_def)

lemma load_store_bytes:
  "length bs \<le> 2 ^ 64 \<Longrightarrow> load_bytes (store_bytes m a bs) a (length bs) = bs"
proof (induction bs arbitrary: m a)
  case (Cons b bs)
  have "a \<notin> range_of (a + 1) (length bs)"
  proof
    assume "a \<in> range_of (a + 1) (length bs)"
    then have "unat (- 1 :: addr) < length bs" by (simp add: range_of_iff)
    with Cons.prems show False by (simp add: unsigned_minus_1_eq_mask mask_eq_exp_minus_1)
  qed
  then have "store_bytes (m(a := b)) (a + 1) bs a = b" by (simp add: store_bytes_outside)
  with Cons show ?case by (simp add: load_bytes_Suc)
qed simp

lemma load_store_disjoint:
  "range_of a n \<inter> range_of c (length bs) = {} \<Longrightarrow>
     load_bytes (store_bytes m c bs) a n = load_bytes m a n"
  by (rule load_bytes_cong) (auto intro: store_bytes_outside)

lemma load_store_u8 [simp]: "load_u8 (store_u8 m a v) a = v"
  by (simp add: load_u8_def store_u8_def)

lemma load_store_u16 [simp]: "load_u16 (store_u16 m a v) a = v"
  using load_store_bytes [of "le_bytes 2 (unat v)" m a] unsigned_less [of v, where 'a = nat]
  by (simp add: load_u16_def store_u16_def le_val_bytes)

lemma load_store_u32 [simp]: "load_u32 (store_u32 m a v) a = v"
  using load_store_bytes [of "le_bytes 4 (unat v)" m a] unsigned_less [of v, where 'a = nat]
  by (simp add: load_u32_def store_u32_def le_val_bytes)

lemma load_store_u64 [simp]: "load_u64 (store_u64 m a v) a = v"
  using load_store_bytes [of "le_bytes 8 (unat v)" m a] unsigned_less [of v, where 'a = nat]
  by (simp add: load_u64_def store_u64_def le_val_bytes)

lemma load_u32_bytes: "le_bytes 4 (unat (load_u32 m a)) = load_bytes m a 4"
proof -
  have "le_val (load_bytes m a 4) < 2 ^ 32" using le_val_less [of "load_bytes m a 4"] by simp
  then have "unat (load_u32 m a) = le_val (load_bytes m a 4)"
    by (simp add: load_u32_def unat_of_nat_32)
  then show ?thesis using le_bytes_val [of "load_bytes m a 4"] by simp
qed

lemma load_u64_bytes: "le_bytes 8 (unat (load_u64 m a)) = load_bytes m a 8"
proof -
  have "le_val (load_bytes m a 8) < 2 ^ 64" using le_val_less [of "load_bytes m a 8"] by simp
  then have "unat (load_u64 m a) = le_val (load_bytes m a 8)"
    by (simp add: load_u64_def unat_of_nat_64)
  then show ?thesis using le_bytes_val [of "load_bytes m a 8"] by simp
qed

section \<open>Layouts of the library's own structures\<close>

text \<open>
  Layouts of \<open>pb_callback_t\<close> (the function pointer, then \<open>arg\<close>), of \<open>pb_extension_t\<close> (\<open>type\<close>, \<open>dest\<close>,
  \<open>next\<close>, \<open>found\<close>) and of \<open>pb_extension_type_t\<close> (\<open>decode\<close>, \<open>encode\<close>, \<open>arg\<close>).
\<close>

definition pb_callback_funcs :: "mem \<Rightarrow> addr \<Rightarrow> addr" where
  "pb_callback_funcs m p = load_ptr m p"

definition pb_callback_arg :: "addr \<Rightarrow> addr" where
  "pb_callback_arg p = p + 8"

definition ext_type :: "mem \<Rightarrow> addr \<Rightarrow> addr" where
  "ext_type m x = load_ptr m x"

definition ext_dest_addr :: "addr \<Rightarrow> addr" where
  "ext_dest_addr x = x + 8"

definition ext_dest :: "mem \<Rightarrow> addr \<Rightarrow> addr" where
  "ext_dest m x = load_ptr m (ext_dest_addr x)"

definition ext_next :: "mem \<Rightarrow> addr \<Rightarrow> addr" where
  "ext_next m x = load_ptr m (x + 16)"

definition ext_found_addr :: "addr \<Rightarrow> addr" where
  "ext_found_addr x = x + 24"

definition exttype_decode :: "mem \<Rightarrow> addr \<Rightarrow> addr" where
  "exttype_decode m ty = load_ptr m ty"

definition exttype_encode :: "mem \<Rightarrow> addr \<Rightarrow> addr" where
  "exttype_encode m ty = load_ptr m (ty + 8)"

definition exttype_arg :: "mem \<Rightarrow> addr \<Rightarrow> addr" where
  "exttype_arg m ty = load_ptr m (ty + 16)"

end
