(* ===== verification/Pb_Decode_Mem.thy ===== *)
theory Pb_Decode_Mem
  imports Pb_Istream Pb_Iter Pb_Memory
begin

text \<open>
  The parts of \<^verbatim>\<open>nanopb/pb_decode.c\<close> that manage memory: default values, allocation and release.
\<close>

section \<open>State and environment\<close>

text \<open>
  The memory and the state of the allocator. The allocator (\<open>realloc\<close> and \<open>free\<close> of the C library,
  behind \<open>pb_realloc\<close> and \<open>pb_free\<close>) and the functions behind the function pointers of
  \<open>pb_callback_t\<close> and \<open>pb_extension_type_t\<close> are parameters. A decoding callback is called on streams
  of the caller's type and on buffer streams; it is a function of each. \<open>de_local\<close> gives the address
  of the local variable \<open>fixed_count_size\<close> of the call of \<open>pb_decode_noinit\<close> at a nesting depth,
  the only local variable of the decoder whose address is taken.
\<close>

record 'h dst =
  ds_mem :: mem
  ds_heap :: 'h

type_synonym ('s, 'h) dec = "'s pb_istream \<times> 'h dst"

record ('s, 'h) dec_env =
  de_fields :: "addr \<Rightarrow> pb_field list"
  de_realloc :: "'h dst \<Rightarrow> addr \<Rightarrow> size_t \<Rightarrow> addr \<times> 'h dst"
  de_free :: "'h dst \<Rightarrow> addr \<Rightarrow> 'h dst"
  de_callback :: "addr \<Rightarrow> pb_field \<Rightarrow> addr \<Rightarrow> 's pb_istream \<times> 'h dst \<Rightarrow> bool \<times> 's pb_istream \<times> 'h dst"
  de_callback_buf :: "addr \<Rightarrow> pb_field \<Rightarrow> addr \<Rightarrow> ibuf pb_istream \<times> 'h dst \<Rightarrow> bool \<times> ibuf pb_istream \<times> 'h dst"
  de_ext_decode :: "addr \<Rightarrow> addr \<Rightarrow> u32 \<Rightarrow> pb_wire_type \<Rightarrow> 's pb_istream \<times> 'h dst \<Rightarrow> bool \<times> 's pb_istream \<times> 'h dst"
  de_local :: "nat \<Rightarrow> addr"

definition upd_mem :: "(mem \<Rightarrow> mem) \<Rightarrow> 'h dst \<Rightarrow> 'h dst" where
  "upd_mem f d = d\<lparr>ds_mem := f (ds_mem d)\<rparr>"

definition mem_set :: "mem \<Rightarrow> addr \<Rightarrow> byte \<Rightarrow> nat \<Rightarrow> mem" where
  "mem_set m p b n = store_bytes m p (replicate n b)"

definition mem_copy :: "mem \<Rightarrow> addr \<Rightarrow> addr \<Rightarrow> nat \<Rightarrow> mem" where
  "mem_copy m dest src n = store_bytes m dest (load_bytes m src n)"

text \<open>\<^verbatim>\<open>PB_RETURN_ERROR(stream, msg)\<close> in a function that also has the memory as its state.\<close>

definition dec_error :: "('s, 'h) dec \<Rightarrow> string \<Rightarrow> bool \<times> ('s, 'h) dec" where
  "dec_error sd msg = (False, is_set_error msg (fst sd), snd sd)"

section \<open>Default values\<close>

text \<open>The descriptor of an extension field is a table of its own, its \<open>arg\<close> the address.\<close>

definition iter_from_extension :: "('s, 'h) dec_env \<Rightarrow> mem \<Rightarrow> addr \<Rightarrow> pb_field_iter" where
  "iter_from_extension env m extension =
     (let flds = de_fields env (exttype_arg m (ext_type m extension));
          iter = snd (pb_field_iter_begin flds (ext_dest m extension))
      in iter\<lparr>it_pData := (if PB_ATYPE (pf_type (field_at flds 0)) = PB_ATYPE_POINTER
                           then ext_dest_addr extension else ext_dest m extension),
              it_pSize := ext_found_addr extension\<rparr>)"

text \<open>
  The loop over a chain of extensions: \<open>k\<close> bounds its length, \<open>body\<close> is applied to each extension.
\<close>

primrec ext_chain_loop ::
  "nat \<Rightarrow> ('d \<Rightarrow> mem) \<Rightarrow> (addr \<Rightarrow> 'd \<Rightarrow> 'd option) \<Rightarrow> addr \<Rightarrow> 'd \<Rightarrow> 'd option" where
  "ext_chain_loop 0 memof body ext d = (if ext = 0 then Some d else None)"
| "ext_chain_loop (Suc k) memof body ext d =
     (if ext = 0 then Some d
      else (case body ext d of None \<Rightarrow> None
            | Some d \<Rightarrow> ext_chain_loop k memof body (ext_next (memof d) ext) d))"

text \<open>
  \<open>pb_field_set_to_default\<close> with the recursive calls as arguments: \<open>dflt\<close> for
  \<open>pb_message_set_to_defaults\<close>, \<open>fdflt\<close> for the function itself on an extension field.
\<close>

definition field_set_to_default ::
  "nat \<Rightarrow> ('s, 'h) dec_env \<Rightarrow> (pb_field list \<Rightarrow> addr \<Rightarrow> mem \<Rightarrow> mem option)
     \<Rightarrow> (pb_field_iter \<Rightarrow> mem \<Rightarrow> mem option) \<Rightarrow> pb_field_iter \<Rightarrow> mem \<Rightarrow> mem option" where
  "field_set_to_default n env dflt fdflt iter m =
     (let f = it_field iter; type = pf_type f in
      if PB_LTYPE type = PB_LTYPE_EXTENSION then
        ext_chain_loop n id (\<lambda>ext m.
            let m = store_u8 m (ext_found_addr ext) 0
            in fdflt (iter_from_extension env m ext) m)
          (load_ptr m (it_pData iter)) m
      else if PB_ATYPE type = PB_ATYPE_STATIC then
        let init_data = \<not> (PB_HTYPE type = PB_HTYPE_REPEATED \<or> PB_HTYPE type = PB_HTYPE_ONEOF);
            m = (if PB_HTYPE type = PB_HTYPE_OPTIONAL \<and> it_pSize iter \<noteq> it_pData iter
                 then store_u8 m (it_pSize iter) 0
                 else if PB_HTYPE type = PB_HTYPE_REPEATED \<or> PB_HTYPE type = PB_HTYPE_ONEOF
                 then store_u32 m (it_pSize iter) 0
                 else m)
        in if \<not> init_data then Some m
           else if PB_LTYPE type = PB_LTYPE_SUBMESSAGE
           then dflt (de_fields env (pf_ptr f)) (it_pData iter) m
           else if pf_ptr f \<noteq> 0
           then Some (mem_copy m (it_pData iter) (pf_ptr f) (unat (pf_data_size f)))
           else Some (mem_set m (it_pData iter) 0 (unat (pf_data_size f)))
      else if PB_ATYPE type = PB_ATYPE_POINTER then
        let m = store_ptr m (it_pData iter) 0
        in Some (if PB_HTYPE type = PB_HTYPE_REPEATED \<or> PB_HTYPE type = PB_HTYPE_ONEOF
                 then store_u32 m (it_pSize iter) 0 else m)
      else Some m)"

text \<open>\<open>pb_field_set_to_default\<close> and \<open>pb_message_set_to_defaults\<close>, to a nesting depth.\<close>

fun pb_field_set_to_default :: "nat \<Rightarrow> ('s, 'h) dec_env \<Rightarrow> pb_field_iter \<Rightarrow> mem \<Rightarrow> mem option"
  and pb_message_set_to_defaults ::
    "nat \<Rightarrow> ('s, 'h) dec_env \<Rightarrow> pb_field list \<Rightarrow> addr \<Rightarrow> mem \<Rightarrow> mem option" where
  "pb_field_set_to_default 0 env iter m = None"
| "pb_field_set_to_default (Suc n) env iter m =
     field_set_to_default n env (pb_message_set_to_defaults n env) (pb_field_set_to_default n env)
       iter m"
| "pb_message_set_to_defaults 0 env flds dest_struct m = None"
| "pb_message_set_to_defaults (Suc n) env flds dest_struct m =
     (case pb_field_iter_begin flds dest_struct of
        (False, iter) \<Rightarrow> Some m
      | (True, iter) \<Rightarrow>
          map_option snd (iter_loop (\<lambda>m it.
            map_option (Pair True) (pb_field_set_to_default n env it m)) iter m))"

section \<open>Allocation\<close>

text \<open>
  \<open>check_limit\<close> is \<open>2 ^ 32\<close>. The division is unsigned; \<open>array_size\<close> is not zero there.
\<close>

definition alloc_too_large :: "size_t \<Rightarrow> size_t \<Rightarrow> bool" where
  "alloc_too_large data_size array_size \<longleftrightarrow>
     (2 ^ 32 \<le> data_size \<or> 2 ^ 32 \<le> array_size) \<and> (- 1) div array_size < data_size"

definition allocate_field ::
  "('s, 'h) dec_env \<Rightarrow> addr \<Rightarrow> size_t \<Rightarrow> size_t \<Rightarrow> ('s, 'h) dec \<Rightarrow> bool \<times> ('s, 'h) dec" where
  "allocate_field env pData data_size array_size sd =
     (let ptr = load_ptr (ds_mem (snd sd)) pData in
      if data_size = 0 \<or> array_size = 0 then dec_error sd ''invalid size''
      else if alloc_too_large data_size array_size then dec_error sd ''size too large''
      else (case de_realloc env (snd sd) ptr (array_size * data_size) of
              (ptr, d) \<Rightarrow>
                if ptr = 0 then dec_error (fst sd, d) ''realloc failed''
                else (True, fst sd, upd_mem (\<lambda>m. store_ptr m pData ptr) d)))"

definition initialize_pointer_field ::
  "nat \<Rightarrow> ('s, 'h) dec_env \<Rightarrow> addr \<Rightarrow> pb_field \<Rightarrow> 'h dst \<Rightarrow> 'h dst option" where
  "initialize_pointer_field n env pItem f d =
     (if PB_LTYPE (pf_type f) = PB_LTYPE_STRING \<or> PB_LTYPE (pf_type f) = PB_LTYPE_BYTES
      then Some (upd_mem (\<lambda>m. store_ptr m pItem 0) d)
      else if PB_LTYPE (pf_type f) = PB_LTYPE_SUBMESSAGE
      then map_option (\<lambda>m. d\<lparr>ds_mem := m\<rparr>)
             (pb_message_set_to_defaults n env (de_fields env (pf_ptr f)) pItem
               (mem_set (ds_mem d) pItem 0 (unat (pf_data_size f))))
      else Some d)"

section \<open>Release\<close>

text \<open>\<^verbatim>\<open>while (count--) { pb_release(fields, pItem); pItem += data_size; }\<close>\<close>

primrec release_items ::
  "(addr \<Rightarrow> 'h dst \<Rightarrow> 'h dst option) \<Rightarrow> size_t \<Rightarrow> nat \<Rightarrow> addr \<Rightarrow> 'h dst \<Rightarrow> 'h dst option" where
  "release_items rel data_size 0 pItem d = Some d"
| "release_items rel data_size (Suc k) pItem d =
     (case rel pItem d of None \<Rightarrow> None
      | Some d \<Rightarrow> release_items rel data_size k (pItem + data_size) d)"

text \<open>\<^verbatim>\<open>while (count--) { pb_free(*pItem); *pItem++ = NULL; }\<close>\<close>

primrec free_entries :: "('s, 'h) dec_env \<Rightarrow> nat \<Rightarrow> addr \<Rightarrow> 'h dst \<Rightarrow> 'h dst" where
  "free_entries env 0 pItem d = d"
| "free_entries env (Suc k) pItem d =
     free_entries env k (pItem + 8)
       (upd_mem (\<lambda>m. store_ptr m pItem 0) (de_free env d (load_ptr (ds_mem d) pItem)))"

text \<open>The number of submessages in a field: 1, the count member, or the size of a fixed array.\<close>

definition release_count :: "pb_field_iter \<Rightarrow> mem \<Rightarrow> pb_size_t" where
  "release_count iter m =
     (let f = it_field iter; type = pf_type f in
      if PB_HTYPE type = PB_HTYPE_REPEATED then
        let count = (if PB_ATYPE type = PB_ATYPE_STATIC \<and> it_pSize iter = it_pData iter
                     then pf_array_size f else load_u32 m (it_pSize iter))
        in if PB_ATYPE type = PB_ATYPE_STATIC \<and> pf_array_size f < count then pf_array_size f
           else count
      else 1)"

text \<open>The last part of \<open>pb_release_single_field\<close>: the allocation of a pointer field.\<close>

definition release_pointer :: "('s, 'h) dec_env \<Rightarrow> pb_field_iter \<Rightarrow> 'h dst \<Rightarrow> 'h dst" where
  "release_pointer env iter d =
     (let f = it_field iter; type = pf_type f in
      if PB_ATYPE type = PB_ATYPE_POINTER then
        let d = (if PB_HTYPE type = PB_HTYPE_REPEATED \<and>
                    (PB_LTYPE type = PB_LTYPE_STRING \<or> PB_LTYPE type = PB_LTYPE_BYTES)
                 then free_entries env (unat (load_u32 (ds_mem d) (it_pSize iter)))
                        (load_ptr (ds_mem d) (it_pData iter)) d
                 else d);
            d = (if PB_HTYPE type = PB_HTYPE_REPEATED
                 then upd_mem (\<lambda>m. store_u32 m (it_pSize iter) 0) d else d);
            d = de_free env d (load_ptr (ds_mem d) (it_pData iter))
        in upd_mem (\<lambda>m. store_ptr m (it_pData iter) 0) d
      else d)"

definition release_single_field ::
  "nat \<Rightarrow> ('s, 'h) dec_env \<Rightarrow> (pb_field list \<Rightarrow> addr \<Rightarrow> 'h dst \<Rightarrow> 'h dst option)
     \<Rightarrow> (pb_field_iter \<Rightarrow> 'h dst \<Rightarrow> 'h dst option) \<Rightarrow> pb_field_iter \<Rightarrow> 'h dst \<Rightarrow> 'h dst option" where
  "release_single_field n env rel frel iter d =
     (let f = it_field iter; type = pf_type f; m = ds_mem d in
      if PB_HTYPE type = PB_HTYPE_ONEOF \<and> load_u32 m (it_pSize iter) \<noteq> pf_tag f then Some d
      else
        map_option (release_pointer env iter)
          (if PB_LTYPE type = PB_LTYPE_EXTENSION then
             ext_chain_loop n ds_mem (\<lambda>ext d. frel (iter_from_extension env (ds_mem d) ext) d)
               (load_ptr m (it_pData iter)) d
           else if PB_LTYPE type = PB_LTYPE_SUBMESSAGE \<and> PB_ATYPE type \<noteq> PB_ATYPE_CALLBACK then
             let pItem = (if PB_ATYPE type = PB_ATYPE_POINTER then load_ptr m (it_pData iter)
                          else it_pData iter)
             in if pItem \<noteq> 0
                then release_items (rel (de_fields env (pf_ptr f))) (ucast (pf_data_size f))
                       (unat (release_count iter m)) pItem d
                else Some d
           else Some d))"

fun pb_release_single_field :: "nat \<Rightarrow> ('s, 'h) dec_env \<Rightarrow> pb_field_iter \<Rightarrow> 'h dst \<Rightarrow> 'h dst option"
  and pb_release ::
    "nat \<Rightarrow> ('s, 'h) dec_env \<Rightarrow> pb_field list \<Rightarrow> addr \<Rightarrow> 'h dst \<Rightarrow> 'h dst option" where
  "pb_release_single_field 0 env iter d = None"
| "pb_release_single_field (Suc n) env iter d =
     release_single_field n env (pb_release n env) (pb_release_single_field n env) iter d"
| "pb_release 0 env flds dest_struct d = None"
| "pb_release (Suc n) env flds dest_struct d =
     (if dest_struct = 0 then Some d
      else (case pb_field_iter_begin flds dest_struct of
              (False, iter) \<Rightarrow> Some d
            | (True, iter) \<Rightarrow>
                map_option snd (iter_loop (\<lambda>d it.
                  map_option (Pair True) (pb_release_single_field n env it d)) iter d)))"

end
