(* ===== verification/Pb_Decode.thy ===== *)
theory Pb_Decode
  imports Pb_Decode_Basic Pb_Decode_Mem
begin

text \<open>
  The message decoder of \<^verbatim>\<open>nanopb/pb_decode.c\<close>: the field decoders, fields by allocation type,
  extensions and whole messages. As in the encoder, the functions take the recursive calls as
  arguments, and \<open>pb_decode_noinit\<close> and \<open>pb_decode\<close> tie the knot with a bound on the nesting depth.
  The state is the stream and the memory; a result is the returned flag and the new state.
\<close>

section \<open>Field decoders\<close>

type_synonym ('s, 'h) dec_result = "(bool \<times> 's pb_istream \<times> 'h dst) option"
type_synonym ('s, 'h) pb_decoder = "pb_field \<Rightarrow> addr \<Rightarrow> 's pb_istream \<times> 'h dst \<Rightarrow> ('s, 'h) dec_result"
type_synonym ('s, 'h) pdec = "pb_field list \<Rightarrow> addr \<Rightarrow> 's pb_istream \<times> 'h dst \<Rightarrow> ('s, 'h) dec_result"

text \<open>A read from the stream, whose value the continuation stores.\<close>

definition dec_then ::
  "('a, 's) rd \<Rightarrow> 'h dst \<Rightarrow> ('a \<Rightarrow> 's pb_istream \<times> 'h dst \<Rightarrow> bool \<times> 's pb_istream \<times> 'h dst)
     \<Rightarrow> bool \<times> 's pb_istream \<times> 'h dst" where
  "dec_then r d k = (case r of (None, s) \<Rightarrow> (False, s, d) | (Some v, s) \<Rightarrow> k v (s, d))"

definition dec_store :: "(mem \<Rightarrow> mem) \<Rightarrow> 's pb_istream \<times> 'h dst \<Rightarrow> 's pb_istream \<times> 'h dst" where
  "dec_store f sd = (fst sd, upd_mem f (snd sd))"

definition pb_dec_bool :: "('s, 'h) pb_decoder" where
  "pb_dec_bool field dest sd = Some (dec_then (pb_decode_varint32 (fst sd)) (snd sd)
     (\<lambda>v sd. (True, dec_store (\<lambda>m. store_u8 m dest (if v \<noteq> 0 then 1 else 0)) sd)))"

text \<open>
  The integer is stored, truncated to the size of the field, before the check that truncation
  has not changed it.
\<close>

definition pb_dec_varint :: "('s, 'h) pb_decoder" where
  "pb_dec_varint field dest sd = Some (dec_then (pb_decode_varint (fst sd)) (snd sd)
     (\<lambda>v sd.
        let svalue = (if pf_data_size field = 8 then v else scast (ucast v :: u32)) in
        if pf_data_size field = 8 then (True, dec_store (\<lambda>m. store_u64 m dest svalue) sd)
        else if pf_data_size field = 4 then
          let sd = dec_store (\<lambda>m. store_u32 m dest (ucast svalue)) sd in
          if scast (ucast svalue :: u32) \<noteq> svalue then dec_error sd ''integer too large'' else (True, sd)
        else if pf_data_size field = 2 then
          let sd = dec_store (\<lambda>m. store_u16 m dest (ucast svalue)) sd in
          if scast (ucast svalue :: u16) \<noteq> svalue then dec_error sd ''integer too large'' else (True, sd)
        else if pf_data_size field = 1 then
          let sd = dec_store (\<lambda>m. store_u8 m dest (ucast svalue)) sd in
          if scast (ucast svalue :: 8 word) \<noteq> svalue then dec_error sd ''integer too large'' else (True, sd)
        else dec_error sd ''invalid data_size''))"

definition pb_dec_uvarint :: "('s, 'h) pb_decoder" where
  "pb_dec_uvarint field dest sd = Some (dec_then (pb_decode_varint (fst sd)) (snd sd)
     (\<lambda>v sd.
        if pf_data_size field = 8 then (True, dec_store (\<lambda>m. store_u64 m dest v) sd)
        else if pf_data_size field = 4 then
          let sd = dec_store (\<lambda>m. store_u32 m dest (ucast v)) sd in
          if ucast (ucast v :: u32) \<noteq> v then dec_error sd ''integer too large'' else (True, sd)
        else if pf_data_size field = 2 then
          let sd = dec_store (\<lambda>m. store_u16 m dest (ucast v)) sd in
          if ucast (ucast v :: u16) \<noteq> v then dec_error sd ''integer too large'' else (True, sd)
        else if pf_data_size field = 1 then
          let sd = dec_store (\<lambda>m. store_u8 m dest (ucast v)) sd in
          if ucast (ucast v :: 8 word) \<noteq> v then dec_error sd ''integer too large'' else (True, sd)
        else dec_error sd ''invalid data_size''))"

definition pb_dec_svarint :: "('s, 'h) pb_decoder" where
  "pb_dec_svarint field dest sd = Some (dec_then (pb_decode_svarint (fst sd)) (snd sd)
     (\<lambda>v sd.
        if pf_data_size field = 8 then (True, dec_store (\<lambda>m. store_u64 m dest v) sd)
        else if pf_data_size field = 4 then
          let sd = dec_store (\<lambda>m. store_u32 m dest (ucast v)) sd in
          if scast (ucast v :: u32) \<noteq> v then dec_error sd ''integer too large'' else (True, sd)
        else if pf_data_size field = 2 then
          let sd = dec_store (\<lambda>m. store_u16 m dest (ucast v)) sd in
          if scast (ucast v :: u16) \<noteq> v then dec_error sd ''integer too large'' else (True, sd)
        else if pf_data_size field = 1 then
          let sd = dec_store (\<lambda>m. store_u8 m dest (ucast v)) sd in
          if scast (ucast v :: 8 word) \<noteq> v then dec_error sd ''integer too large'' else (True, sd)
        else dec_error sd ''invalid data_size''))"

definition pb_dec_fixed32 :: "('s, 'h) pb_decoder" where
  "pb_dec_fixed32 field dest sd = Some (dec_then (pb_decode_fixed32 (fst sd)) (snd sd)
     (\<lambda>v sd. (True, dec_store (\<lambda>m. store_u32 m dest v) sd)))"

definition pb_dec_fixed64 :: "('s, 'h) pb_decoder" where
  "pb_dec_fixed64 field dest sd = Some (dec_then (pb_decode_fixed64 (fst sd)) (snd sd)
     (\<lambda>v sd. (True, dec_store (\<lambda>m. store_u64 m dest v) sd)))"

text \<open>
  \<^verbatim>\<open>pb_read(stream, dest, n)\<close> with a destination in memory. If it fails, nothing has been stored:
  the length check comes first, and what a failing callback has stored is left open by the model.
\<close>

definition dec_read ::
  "addr \<Rightarrow> size_t \<Rightarrow> 's pb_istream \<times> 'h dst \<Rightarrow> bool \<times> 's pb_istream \<times> 'h dst" where
  "dec_read dest n sd = dec_then (pb_read (fst sd) True n) (snd sd)
     (\<lambda>bs sd. (True, dec_store (\<lambda>m. store_bytes m dest bs) sd))"

text \<open>The size is a 32-bit number, so the comparison with \<open>PB_SIZE_MAX\<close> never fails.\<close>

definition pb_dec_bytes :: "('s, 'h) dec_env \<Rightarrow> ('s, 'h) pb_decoder" where
  "pb_dec_bytes env field dest sd = Some (dec_then (pb_decode_varint32 (fst sd)) (snd sd)
     (\<lambda>sz sd.
        let alloc_size = PB_BYTES_ARRAY_T_ALLOCSIZE (ucast sz) in
        if PB_SIZE_MAX < sz then dec_error sd ''bytes overflow''
        else if alloc_size < ucast sz then dec_error sd ''size too large''
        else
          and_then
            (if PB_ATYPE (pf_type field) = PB_ATYPE_POINTER then allocate_field env dest alloc_size 1 sd
             else if ucast (pf_data_size field) < alloc_size then dec_error sd ''bytes overflow''
             else (True, sd))
            (\<lambda>sd.
               let bdest = (if PB_ATYPE (pf_type field) = PB_ATYPE_POINTER
                            then load_ptr (ds_mem (snd sd)) dest else dest)
               in dec_read (bdest + pb_bytes_array_offsetof_bytes) (ucast sz)
                    (dec_store (\<lambda>m. store_u32 m bdest sz) sd))))"

text \<open>The sum \<open>size + 1\<close> is computed with 32 bits.\<close>

definition pb_dec_string :: "('s, 'h) dec_env \<Rightarrow> ('s, 'h) pb_decoder" where
  "pb_dec_string env field dest sd = Some (dec_then (pb_decode_varint32 (fst sd)) (snd sd)
     (\<lambda>sz sd.
        let alloc_size = ucast (sz + 1) :: size_t in
        if alloc_size < ucast sz then dec_error sd ''size too large''
        else
          and_then
            (if PB_ATYPE (pf_type field) = PB_ATYPE_POINTER then allocate_field env dest alloc_size 1 sd
             else if ucast (pf_data_size field) < alloc_size then dec_error sd ''string overflow''
             else (True, sd))
            (\<lambda>sd.
               let dest = (if PB_ATYPE (pf_type field) = PB_ATYPE_POINTER
                           then load_ptr (ds_mem (snd sd)) dest else dest)
               in case dec_read dest (ucast sz) sd of (status, sd) \<Rightarrow>
                    (status, dec_store (\<lambda>m. store_u8 m (dest + ucast sz) 0) sd))))"

text \<open>
  The use of a substream: \<open>body\<close> runs on it, then it is closed, and the flag of \<open>body\<close> is returned
  unless closing fails.
\<close>

definition with_substream ::
  "('s pb_istream \<times> 'h dst \<Rightarrow> ('s, 'h) dec_result) \<Rightarrow> 's pb_istream \<times> 'h dst \<Rightarrow> ('s, 'h) dec_result" where
  "with_substream body sd =
     (case pb_make_string_substream (fst sd) of
        (None, strm) \<Rightarrow> Some (False, strm, snd sd)
      | (Some substream, strm) \<Rightarrow>
          (case body (substream, snd sd) of
             None \<Rightarrow> None
           | Some (status, substream, d) \<Rightarrow>
               (case pb_close_string_substream strm substream of
                  (None, strm) \<Rightarrow> Some (False, strm, d)
                | (Some _, strm) \<Rightarrow> Some (status, strm, d))))"

text \<open>
  The missing descriptor is noticed after the substream has been made, and then the substream is
  not closed.
\<close>

definition pb_dec_submessage ::
  "('s, 'h) dec_env \<Rightarrow> ('s, 'h) pdec \<Rightarrow> ('s, 'h) pdec \<Rightarrow> ('s, 'h) pb_decoder" where
  "pb_dec_submessage env pdecode pnoinit field dest sd =
     (if pf_ptr field = 0 then
        (case pb_make_string_substream (fst sd) of
           (None, strm) \<Rightarrow> Some (False, strm, snd sd)
         | (Some substream, strm) \<Rightarrow> Some (dec_error (strm, snd sd) ''invalid field descriptor''))
      else
        with_substream
          (if PB_HTYPE (pf_type field) = PB_HTYPE_REPEATED
           then pdecode (de_fields env (pf_ptr field)) dest
           else pnoinit (de_fields env (pf_ptr field)) dest) sd)"

definition pb_dec_fixed_length_bytes :: "('s, 'h) pb_decoder" where
  "pb_dec_fixed_length_bytes field dest sd = Some (dec_then (pb_decode_varint32 (fst sd)) (snd sd)
     (\<lambda>sz sd.
        if PB_SIZE_MAX < sz then dec_error sd ''bytes overflow''
        else if sz = 0 then (True, dec_store (\<lambda>m. mem_set m dest 0 (unat (pf_data_size field))) sd)
        else if sz \<noteq> pf_data_size field then dec_error sd ''incorrect fixed length bytes size''
        else dec_read dest (ucast (pf_data_size field)) sd))"

text \<open>
  The dispatch table. Calling the null entry for extensions, or an entry that does not exist, is
  undefined in C; the model does not return.
\<close>

definition PB_DECODERS ::
  "('s, 'h) dec_env \<Rightarrow> ('s, 'h) pdec \<Rightarrow> ('s, 'h) pdec \<Rightarrow> pb_type \<Rightarrow> ('s, 'h) pb_decoder" where
  "PB_DECODERS env pdecode pnoinit ltype =
     (if ltype = PB_LTYPE_BOOL then pb_dec_bool
      else if ltype = PB_LTYPE_VARINT then pb_dec_varint
      else if ltype = PB_LTYPE_UVARINT then pb_dec_uvarint
      else if ltype = PB_LTYPE_SVARINT then pb_dec_svarint
      else if ltype = PB_LTYPE_FIXED32 then pb_dec_fixed32
      else if ltype = PB_LTYPE_FIXED64 then pb_dec_fixed64
      else if ltype = PB_LTYPE_BYTES then pb_dec_bytes env
      else if ltype = PB_LTYPE_STRING then pb_dec_string env
      else if ltype = PB_LTYPE_SUBMESSAGE then pb_dec_submessage env pdecode pnoinit
      else if ltype = PB_LTYPE_FIXED_LENGTH_BYTES then pb_dec_fixed_length_bytes
      else (\<lambda>field dest sd. None))"

section \<open>Fields\<close>

text \<open>\<^verbatim>\<open>base + data_size * (*size)\<close>: the product of two 32-bit numbers is a 32-bit number.\<close>

definition item_addr :: "addr \<Rightarrow> pb_field \<Rightarrow> pb_size_t \<Rightarrow> addr" where
  "item_addr base f sz = base + ucast (pf_data_size f * sz)"

text \<open>
  The loop over a packed array in static memory. It returns the status; \<open>k\<close> bounds the number of
  iterations.
\<close>

primrec static_packed_loop ::
  "nat \<Rightarrow> ('s, 'h) pb_decoder \<Rightarrow> pb_field_iter \<Rightarrow> 's pb_istream \<times> 'h dst \<Rightarrow> ('s, 'h) dec_result" where
  "static_packed_loop 0 func iter sd = None"
| "static_packed_loop (Suc k) func iter sd =
     (let f = it_field iter; sz = load_u32 (ds_mem (snd sd)) (it_pSize iter) in
      if 0 < is_bytes_left (fst sd) \<and> sz < pf_array_size f then
        oand_then (func f (item_addr (it_pData iter) f sz) sd) (\<lambda>sd.
          static_packed_loop k func iter
            (dec_store (\<lambda>m. store_u32 m (it_pSize iter) (load_u32 m (it_pSize iter) + 1)) sd))
      else Some (True, sd))"

definition decode_static_packed ::
  "('s, 'h) pb_decoder \<Rightarrow> pb_field_iter \<Rightarrow> 's pb_istream \<times> 'h dst \<Rightarrow> ('s, 'h) dec_result" where
  "decode_static_packed func iter sd =
     (case pb_make_string_substream (fst sd) of
        (None, strm) \<Rightarrow> Some (False, strm, snd sd)
      | (Some substream, strm) \<Rightarrow>
          (case static_packed_loop (Suc (unat (is_bytes_left substream))) func iter
                  (substream, snd sd) of
             None \<Rightarrow> None
           | Some (status, substream, d) \<Rightarrow>
               if is_bytes_left substream \<noteq> 0 then Some (dec_error (strm, d) ''array overflow'')
               else (case pb_close_string_substream strm substream of
                       (None, strm) \<Rightarrow> Some (False, strm, d)
                     | (Some _, strm) \<Rightarrow> Some (status, strm, d))))"

definition decode_static_field ::
  "nat \<Rightarrow> ('s, 'h) dec_env \<Rightarrow> ('s, 'h) pdec \<Rightarrow> ('s, 'h) pdec \<Rightarrow> pb_wire_type \<Rightarrow> pb_field_iter
     \<Rightarrow> 's pb_istream \<times> 'h dst \<Rightarrow> ('s, 'h) dec_result" where
  "decode_static_field n env pdecode pnoinit wire_type iter sd =
     (let f = it_field iter; type = pf_type f;
          func = PB_DECODERS env pdecode pnoinit (PB_LTYPE type);
          m = ds_mem (snd sd)
      in if PB_HTYPE type = PB_HTYPE_REQUIRED then func f (it_pData iter) sd
         else if PB_HTYPE type = PB_HTYPE_OPTIONAL then
           func f (it_pData iter)
             (if it_pSize iter \<noteq> it_pData iter
              then dec_store (\<lambda>m. store_u8 m (it_pSize iter) 1) sd else sd)
         else if PB_HTYPE type = PB_HTYPE_REPEATED then
           (if wire_type = PB_WT_STRING \<and> PB_LTYPE type \<le> PB_LTYPE_LAST_PACKABLE
            then decode_static_packed func iter sd
            else
              let sz = load_u32 m (it_pSize iter);
                  sd = dec_store (\<lambda>m. store_u32 m (it_pSize iter) (sz + 1)) sd
              in if pf_array_size f \<le> sz then Some (dec_error sd ''array overflow'')
                 else func f (item_addr (it_pData iter) f sz) sd)
         else
           (case (if PB_LTYPE type = PB_LTYPE_SUBMESSAGE \<and> load_u32 m (it_pSize iter) \<noteq> pf_tag f
                  then pb_message_set_to_defaults n env (de_fields env (pf_ptr f)) (it_pData iter)
                         (mem_set m (it_pData iter) 0 (unat (pf_data_size f)))
                  else Some m) of
              None \<Rightarrow> None
            | Some m \<Rightarrow>
                func f (it_pData iter)
                  (fst sd, (snd sd)\<lparr>ds_mem := store_u32 m (it_pSize iter) (pf_tag f)\<rparr>)))"

text \<open>
  The loop over a packed array in allocated memory; the generated tables give every such field
  a data size, so the division is defined. The message \<open>too many array entries\<close> goes to
  the outer stream; it is returned with the status here and set by the caller.
\<close>

primrec pointer_packed_loop ::
  "nat \<Rightarrow> nat \<Rightarrow> ('s, 'h) dec_env \<Rightarrow> ('s, 'h) pb_decoder \<Rightarrow> pb_field_iter \<Rightarrow> size_t
     \<Rightarrow> 's pb_istream \<times> 'h dst \<Rightarrow> (string option \<times> bool \<times> 's pb_istream \<times> 'h dst) option" where
  "pointer_packed_loop 0 n env func iter allocated_size sd = None"
| "pointer_packed_loop (Suc k) n env func iter allocated_size sd =
     (let f = it_field iter; sz = load_u32 (ds_mem (snd sd)) (it_pSize iter) in
      if is_bytes_left (fst sd) = 0 then Some (None, True, sd)
      else if sz = PB_SIZE_MAX then Some (Some ''too many array entries'', False, sd)
      else
        let grow = (allocated_size < ucast sz + 1);
            remain = (is_bytes_left (fst sd) - 1) div ucast (pf_data_size f) + 1;
            allocated_size =
              (if grow then
                 (if remain < ucast PB_SIZE_MAX - allocated_size then allocated_size + remain
                  else allocated_size + 1)
               else allocated_size)
        in case (if grow
                 then allocate_field env (it_pData iter) (ucast (pf_data_size f)) allocated_size sd
                 else (True, sd)) of
             (False, sd) \<Rightarrow> Some (None, False, sd)
           | (True, sd) \<Rightarrow>
               let pItem = item_addr (load_ptr (ds_mem (snd sd)) (it_pData iter)) f
                             (load_u32 (ds_mem (snd sd)) (it_pSize iter)) in
               (case initialize_pointer_field n env pItem f (snd sd) of
                  None \<Rightarrow> None
                | Some d \<Rightarrow>
                    (case func f pItem (fst sd, d) of
                       None \<Rightarrow> None
                     | Some (False, sd) \<Rightarrow> Some (None, False, sd)
                     | Some (True, sd) \<Rightarrow>
                         pointer_packed_loop k n env func iter allocated_size
                           (dec_store (\<lambda>m. store_u32 m (it_pSize iter)
                              (load_u32 m (it_pSize iter) + 1)) sd))))"

definition decode_pointer_packed ::
  "nat \<Rightarrow> ('s, 'h) dec_env \<Rightarrow> ('s, 'h) pb_decoder \<Rightarrow> pb_field_iter
     \<Rightarrow> 's pb_istream \<times> 'h dst \<Rightarrow> ('s, 'h) dec_result" where
  "decode_pointer_packed n env func iter sd =
     (case pb_make_string_substream (fst sd) of
        (None, strm) \<Rightarrow> Some (False, strm, snd sd)
      | (Some substream, strm) \<Rightarrow>
          (case pointer_packed_loop (Suc (unat (is_bytes_left substream))) n env func iter
                  (ucast (load_u32 (ds_mem (snd sd)) (it_pSize iter))) (substream, snd sd) of
             None \<Rightarrow> None
           | Some (msg, status, substream, d) \<Rightarrow>
               let strm = (case msg of None \<Rightarrow> strm | Some e \<Rightarrow> strm\<lparr>is_errmsg := Some e\<rparr>) in
               (case pb_close_string_substream strm substream of
                  (None, strm) \<Rightarrow> Some (False, strm, d)
                | (Some _, strm) \<Rightarrow> Some (status, strm, d))))"

definition decode_pointer_field ::
  "nat \<Rightarrow> ('s, 'h) dec_env \<Rightarrow> ('s, 'h) pdec \<Rightarrow> ('s, 'h) pdec \<Rightarrow> pb_wire_type \<Rightarrow> pb_field_iter
     \<Rightarrow> 's pb_istream \<times> 'h dst \<Rightarrow> ('s, 'h) dec_result" where
  "decode_pointer_field n env pdecode pnoinit wire_type iter sd =
     (let f = it_field iter; type = pf_type f;
          func = PB_DECODERS env pdecode pnoinit (PB_LTYPE type);
          m = ds_mem (snd sd)
      in if PB_HTYPE type \<noteq> PB_HTYPE_REPEATED then
           (case (if PB_LTYPE type = PB_LTYPE_SUBMESSAGE \<and> load_ptr m (it_pData iter) \<noteq> 0
                  then pb_release_single_field n env iter (snd sd) else Some (snd sd)) of
              None \<Rightarrow> None
            | Some d \<Rightarrow>
                let d = (if PB_HTYPE type = PB_HTYPE_ONEOF
                         then upd_mem (\<lambda>m. store_u32 m (it_pSize iter) (pf_tag f)) d else d)
                in if PB_LTYPE type = PB_LTYPE_STRING \<or> PB_LTYPE type = PB_LTYPE_BYTES
                   then func f (it_pData iter) (fst sd, d)
                   else
                     oand_then
                       (Some (allocate_field env (it_pData iter) (ucast (pf_data_size f)) 1 (fst sd, d)))
                       (\<lambda>sd.
                          let p = load_ptr (ds_mem (snd sd)) (it_pData iter) in
                          case initialize_pointer_field n env p f (snd sd) of
                            None \<Rightarrow> None
                          | Some d \<Rightarrow> func f (load_ptr (ds_mem d) (it_pData iter)) (fst sd, d)))
         else if wire_type = PB_WT_STRING \<and> PB_LTYPE type \<le> PB_LTYPE_LAST_PACKABLE
         then decode_pointer_packed n env func iter sd
         else
           let sz = load_u32 m (it_pSize iter) in
           if sz = PB_SIZE_MAX then Some (dec_error sd ''too many array entries'')
           else
             oand_then
               (Some (allocate_field env (it_pData iter) (ucast (pf_data_size f)) (ucast (sz + 1)) sd))
               (\<lambda>sd.
                  let sz = load_u32 (ds_mem (snd sd)) (it_pSize iter);
                      pItem = item_addr (load_ptr (ds_mem (snd sd)) (it_pData iter)) f sz;
                      d = upd_mem (\<lambda>m. store_u32 m (it_pSize iter) (sz + 1)) (snd sd)
                  in case initialize_pointer_field n env pItem f d of
                       None \<Rightarrow> None
                     | Some d \<Rightarrow> func f pItem (fst sd, d)))"

text \<open>
  \<^verbatim>\<open>do { callback } while (substream.bytes_left)\<close>: a callback that takes nothing from the stream and
  returns true is called forever. The function pointer is read again for every call.
\<close>

partial_function (option) callback_loop ::
  "('s pb_istream \<times> 'h dst \<Rightarrow> bool \<times> 's pb_istream \<times> 'h dst) \<Rightarrow> 's pb_istream \<times> 'h dst
     \<Rightarrow> (bool \<times> 's pb_istream \<times> 'h dst) option" where
  "callback_loop cb sd =
     (case cb sd of (ok, sd) \<Rightarrow>
        if \<not> ok then Some (False, sd)
        else if is_bytes_left (fst sd) \<noteq> 0 then callback_loop cb sd
        else Some (True, sd))"

definition decode_callback_field ::
  "('s, 'h) dec_env \<Rightarrow> pb_wire_type \<Rightarrow> pb_field_iter \<Rightarrow> 's pb_istream \<times> 'h dst \<Rightarrow> ('s, 'h) dec_result" where
  "decode_callback_field env wire_type iter sd =
     (let pCallback = it_pData iter; decode = pb_callback_funcs (ds_mem (snd sd)) pCallback;
          arg = pb_callback_arg pCallback; f = it_field iter
      in if pCallback = 0 \<or> decode = 0 then
           (case pb_skip_field (fst sd) wire_type of (r, strm) \<Rightarrow> Some (r \<noteq> None, strm, snd sd))
         else if wire_type = PB_WT_STRING then
           (case pb_make_string_substream (fst sd) of
              (None, strm) \<Rightarrow> Some (False, strm, snd sd)
            | (Some substream, strm) \<Rightarrow>
                (case callback_loop (\<lambda>sd. de_callback env (pb_callback_funcs (ds_mem (snd sd)) pCallback) f arg sd)
                        (substream, snd sd) of
                   None \<Rightarrow> None
                 | Some (False, substream, d) \<Rightarrow> Some (dec_error (strm, d) ''callback failed'')
                 | Some (True, substream, d) \<Rightarrow>
                     (case pb_close_string_substream strm substream of
                        (None, strm) \<Rightarrow> Some (False, strm, d)
                      | (Some _, strm) \<Rightarrow> Some (True, strm, d))))
         else
           (case read_raw_value (fst sd) wire_type 10 of
              (None, strm) \<Rightarrow> Some (False, strm, snd sd)
            | (Some buffer, strm) \<Rightarrow>
                (case de_callback_buf env decode f arg
                        (pb_istream_from_buffer buffer (of_nat (length buffer)), snd sd) of
                   (ok, substream, d) \<Rightarrow> Some (ok, strm, d))))"

text \<open>The iterator is moved to the old field of the union and back.\<close>

definition pb_release_union_field ::
  "nat \<Rightarrow> ('s, 'h) dec_env \<Rightarrow> pb_field_iter \<Rightarrow> 's pb_istream \<times> 'h dst
     \<Rightarrow> (bool \<times> ('s pb_istream \<times> 'h dst) \<times> pb_field_iter) option" where
  "pb_release_union_field n env iter sd =
     (let old_tag = load_u32 (ds_mem (snd sd)) (it_pSize iter); new_tag = pf_tag (it_field iter) in
      if old_tag = 0 \<or> old_tag = new_tag then Some (True, sd, iter)
      else
        case pb_field_iter_find iter old_tag of
          None \<Rightarrow> None
        | Some (False, iter) \<Rightarrow> Some (False, (is_set_error ''invalid union tag'' (fst sd), snd sd), iter)
        | Some (True, iter) \<Rightarrow>
            (case pb_release_single_field n env iter (snd sd) of
               None \<Rightarrow> None
             | Some d \<Rightarrow>
                 (case pb_field_iter_find iter new_tag of
                    None \<Rightarrow> None
                  | Some (False, iter) \<Rightarrow>
                      Some (False, (is_set_error ''iterator error'' (fst sd), d), iter)
                  | Some (True, iter) \<Rightarrow> Some (True, (fst sd, d), iter))))"

definition decode_field ::
  "nat \<Rightarrow> ('s, 'h) dec_env \<Rightarrow> ('s, 'h) pdec \<Rightarrow> ('s, 'h) pdec \<Rightarrow> pb_wire_type \<Rightarrow> pb_field_iter
     \<Rightarrow> 's pb_istream \<times> 'h dst \<Rightarrow> (bool \<times> ('s pb_istream \<times> 'h dst) \<times> pb_field_iter) option" where
  "decode_field n env pdecode pnoinit wire_type iter sd =
     oand_then
       (if PB_HTYPE (pf_type (it_field iter)) = PB_HTYPE_ONEOF
        then pb_release_union_field n env iter sd else Some (True, sd, iter))
       (\<lambda>(sd, iter).
          let at = PB_ATYPE (pf_type (it_field iter)) in
          map_option (\<lambda>(ok, sd). (ok, sd, iter))
            (if at = PB_ATYPE_STATIC then decode_static_field n env pdecode pnoinit wire_type iter sd
             else if at = PB_ATYPE_POINTER
             then decode_pointer_field n env pdecode pnoinit wire_type iter sd
             else if at = PB_ATYPE_CALLBACK then decode_callback_field env wire_type iter sd
             else Some (dec_error sd ''invalid field type'')))"

section \<open>Extensions\<close>

definition default_extension_decoder ::
  "nat \<Rightarrow> ('s, 'h) dec_env \<Rightarrow> ('s, 'h) pdec \<Rightarrow> ('s, 'h) pdec \<Rightarrow> addr \<Rightarrow> u32 \<Rightarrow> pb_wire_type
     \<Rightarrow> 's pb_istream \<times> 'h dst \<Rightarrow> ('s, 'h) dec_result" where
  "default_extension_decoder n env pdecode pnoinit extension tag wire_type sd =
     (let m = ds_mem (snd sd);
          field = field_at (de_fields env (exttype_arg m (ext_type m extension))) 0
      in if pf_tag field \<noteq> tag then Some (True, sd)
         else
           let iter = iter_from_extension env m extension;
               sd = dec_store (\<lambda>m. store_u8 m (ext_found_addr extension) 1) sd
           in map_option (\<lambda>(ok, sd, iter). (ok, sd))
                (decode_field n env pdecode pnoinit wire_type iter sd))"

primrec decode_extension_loop ::
  "nat \<Rightarrow> nat \<Rightarrow> ('s, 'h) dec_env \<Rightarrow> ('s, 'h) pdec \<Rightarrow> ('s, 'h) pdec \<Rightarrow> u32 \<Rightarrow> pb_wire_type \<Rightarrow> size_t
     \<Rightarrow> addr \<Rightarrow> 's pb_istream \<times> 'h dst \<Rightarrow> ('s, 'h) dec_result" where
  "decode_extension_loop 0 n env pdecode pnoinit tag wire_type pos extension sd =
     (if extension \<noteq> 0 \<and> pos = is_bytes_left (fst sd) then None else Some (True, sd))"
| "decode_extension_loop (Suc k) n env pdecode pnoinit tag wire_type pos extension sd =
     (if extension \<noteq> 0 \<and> pos = is_bytes_left (fst sd) then
        let m = ds_mem (snd sd); decode = exttype_decode m (ext_type m extension) in
        oand_then
          (if decode \<noteq> 0 then Some (de_ext_decode env decode extension tag wire_type sd)
           else default_extension_decoder n env pdecode pnoinit extension tag wire_type sd)
          (\<lambda>sd. decode_extension_loop k n env pdecode pnoinit tag wire_type pos
                   (ext_next (ds_mem (snd sd)) extension) sd)
      else Some (True, sd))"

definition decode_extension ::
  "nat \<Rightarrow> ('s, 'h) dec_env \<Rightarrow> ('s, 'h) pdec \<Rightarrow> ('s, 'h) pdec \<Rightarrow> u32 \<Rightarrow> pb_wire_type \<Rightarrow> pb_field_iter
     \<Rightarrow> 's pb_istream \<times> 'h dst \<Rightarrow> ('s, 'h) dec_result" where
  "decode_extension n env pdecode pnoinit tag wire_type iter sd =
     decode_extension_loop n n env pdecode pnoinit tag wire_type (is_bytes_left (fst sd))
       (load_ptr (ds_mem (snd sd)) (it_pData iter)) sd"

definition find_extension_field :: "pb_field_iter \<Rightarrow> (bool \<times> pb_field_iter) option" where
  "find_extension_field iter =
     find_loop (it_pos iter) (\<lambda>f. PB_LTYPE (pf_type f) = PB_LTYPE_EXTENSION) iter"

section \<open>Messages\<close>

text \<open>
  The local variables of \<open>pb_decode_noinit\<close> that live across the iterations of its loop. The pointer
  \<open>fixed_count_field\<close> into the table is the index of the field; \<open>fixed_count_size\<close> is in memory.
\<close>

record noinit_locals =
  nl_iter :: pb_field_iter
  nl_fields_seen :: "u32 list"
  nl_extension_range_start :: u32
  nl_fixed_count_field :: "nat option"

definition fixed_count_wrong :: "addr \<Rightarrow> noinit_locals \<Rightarrow> mem \<Rightarrow> bool" where
  "fixed_count_wrong loc l m =
     (case nl_fixed_count_field l of None \<Rightarrow> False
      | Some i \<Rightarrow> load_u32 m loc \<noteq> pf_array_size (field_at (it_start (nl_iter l)) i))"

text \<open>
  An unknown tag: an extension may take it, otherwise the field is skipped. The result is the flag
  that ends the function if it is false.
\<close>

definition decode_unknown ::
  "nat \<Rightarrow> ('s, 'h) dec_env \<Rightarrow> ('s, 'h) pdec \<Rightarrow> ('s, 'h) pdec \<Rightarrow> u32 \<Rightarrow> pb_wire_type \<Rightarrow> noinit_locals
     \<Rightarrow> 's pb_istream \<times> 'h dst \<Rightarrow> (bool \<times> ('s pb_istream \<times> 'h dst) \<times> noinit_locals) option" where
  "decode_unknown n env pdecode pnoinit tag wire_type l sd =
     (let skip = (\<lambda>l sd. case pb_skip_field (fst sd) wire_type of (r, strm) \<Rightarrow>
                    Some (r \<noteq> None, (strm, snd sd), l))
      in if nl_extension_range_start l \<le> tag then
           (case find_extension_field (nl_iter l) of
              None \<Rightarrow> None
            | Some (found, iter) \<Rightarrow>
                let l = l\<lparr>nl_iter := iter,
                          nl_extension_range_start := (if found then pf_tag (it_field iter) else - 1)\<rparr>
                in if nl_extension_range_start l \<le> tag then
                     (case decode_extension n env pdecode pnoinit tag wire_type iter sd of
                        None \<Rightarrow> None
                      | Some (False, sd') \<Rightarrow> Some (False, sd', l)
                      | Some (True, sd') \<Rightarrow>
                          if is_bytes_left (fst sd) \<noteq> is_bytes_left (fst sd')
                          then Some (True, sd', l) else skip l sd')
                   else skip l sd)
         else skip l sd)"

text \<open>
  A known field: the bookkeeping for fixed count and required fields, then the field itself.
  \<open>loc\<close> is the address of \<open>fixed_count_size\<close>.
\<close>

definition decode_known ::
  "nat \<Rightarrow> ('s, 'h) dec_env \<Rightarrow> ('s, 'h) pdec \<Rightarrow> ('s, 'h) pdec \<Rightarrow> addr \<Rightarrow> pb_wire_type \<Rightarrow> noinit_locals
     \<Rightarrow> 's pb_istream \<times> 'h dst \<Rightarrow> (bool \<times> ('s pb_istream \<times> 'h dst) \<times> noinit_locals) option" where
  "decode_known n env pdecode pnoinit loc wire_type l sd =
     (let iter = nl_iter l; type = pf_type (it_field iter) in
      oand_then
        (if PB_HTYPE type = PB_HTYPE_REPEATED \<and> it_pSize iter = it_pData iter then
           if nl_fixed_count_field l \<noteq> Some (it_pos iter) then
             (if fixed_count_wrong loc l (ds_mem (snd sd))
              then Some (False, (is_set_error ''wrong size for fixed count field'' (fst sd), snd sd), l)
              else Some (True, dec_store (\<lambda>m. store_u32 m loc 0) sd,
                     l\<lparr>nl_fixed_count_field := Some (it_pos iter), nl_iter := iter\<lparr>it_pSize := loc\<rparr>\<rparr>))
           else Some (True, sd, l\<lparr>nl_iter := iter\<lparr>it_pSize := loc\<rparr>\<rparr>)
         else Some (True, sd, l))
        (\<lambda>(sd, l).
           let iter = nl_iter l; req = it_required_field_index iter;
               l = (if PB_HTYPE type = PB_HTYPE_REQUIRED \<and> req < PB_MAX_REQUIRED_FIELDS
                    then l\<lparr>nl_fields_seen :=
                             (nl_fields_seen l)[unat (drop_bit 5 req) :=
                                nl_fields_seen l ! unat (drop_bit 5 req)
                                  OR push_bit (unat (req AND 31)) 1]\<rparr>
                    else l)
           in map_option (\<lambda>(ok, sd, iter). (ok, sd, l\<lparr>nl_iter := iter\<rparr>))
                (decode_field n env pdecode pnoinit wire_type iter sd)))"

text \<open>
  \<^verbatim>\<open>while (stream->bytes_left)\<close>; \<open>k\<close> bounds the number of iterations, each of which takes at least
  the tag from the stream.
\<close>

primrec noinit_loop ::
  "nat \<Rightarrow> nat \<Rightarrow> ('s, 'h) dec_env \<Rightarrow> ('s, 'h) pdec \<Rightarrow> ('s, 'h) pdec \<Rightarrow> addr
     \<Rightarrow> ('s pb_istream \<times> 'h dst) \<times> noinit_locals
     \<Rightarrow> (bool \<times> ('s pb_istream \<times> 'h dst) \<times> noinit_locals) option" where
  "noinit_loop 0 n env pdecode pnoinit loc st = None"
| "noinit_loop (Suc k) n env pdecode pnoinit loc st =
     (case st of (sd, l) \<Rightarrow>
        if is_bytes_left (fst sd) = 0 then Some (True, sd, l)
        else
          (case pb_decode_tag (fst sd) of (ok, wire_type, tag, eof, strm) \<Rightarrow>
             if \<not> ok then Some (eof, (strm, snd sd), l)
             else
               (case pb_field_iter_find (nl_iter l) tag of
                  None \<Rightarrow> None
                | Some (found, iter) \<Rightarrow>
                    oand_then
                      (if found
                       then decode_known n env pdecode pnoinit loc wire_type (l\<lparr>nl_iter := iter\<rparr>)
                              (strm, snd sd)
                       else decode_unknown n env pdecode pnoinit tag wire_type (l\<lparr>nl_iter := iter\<rparr>)
                              (strm, snd sd))
                      (noinit_loop k n env pdecode pnoinit loc))))"

text \<open>
  \<^verbatim>\<open>do { ... } while (pb_field_iter_next(&iter))\<close>: the required field index and the type of the last
  field of the table, and the iterator after the loop.
\<close>

function seek_end :: "pb_field_iter \<Rightarrow> 32 word \<times> pb_type \<times> pb_field_iter" where
  "seek_end iter =
     (case pb_field_iter_next iter of (again, iter') \<Rightarrow>
        if again then seek_end iter'
        else (it_required_field_index iter, pf_type (it_field iter), iter'))"
  by pat_completeness auto
termination
  by (relation "measure (\<lambda>iter. length (it_start iter) - it_pos iter)")
    (auto dest: pb_field_iter_next_shorter [OF sym])

declare seek_end.simps [simp del]

definition req_field_count :: "pb_field_iter \<Rightarrow> 32 word" where
  "req_field_count iter =
     (case seek_end iter of (count, last_type, iter) \<Rightarrow>
        let count = (if PB_HTYPE last_type = PB_HTYPE_REQUIRED \<and> pf_tag (it_field iter) \<noteq> 0
                     then count + 1 else count)
        in if PB_MAX_REQUIRED_FIELDS < count then PB_MAX_REQUIRED_FIELDS else count)"

definition required_seen :: "32 word \<Rightarrow> u32 list \<Rightarrow> bool" where
  "required_seen count fields_seen \<longleftrightarrow>
     (\<forall>i \<in> set [0..<unat (drop_bit 5 count)]. fields_seen ! i = - 1) \<and>
     (count AND 31 \<noteq> 0 \<longrightarrow>
        fields_seen ! unat (drop_bit 5 count) = drop_bit (unat (32 - (count AND 31))) (- 1))"

definition decode_noinit_body ::
  "nat \<Rightarrow> ('s, 'h) dec_env \<Rightarrow> ('s, 'h) pdec \<Rightarrow> ('s, 'h) pdec \<Rightarrow> ('s, 'h) pdec" where
  "decode_noinit_body n env pdecode pnoinit flds dest_struct sd =
     (let loc = de_local env n;
          l = \<lparr>nl_iter = snd (pb_field_iter_begin flds dest_struct), nl_fields_seen = [0, 0],
               nl_extension_range_start = 0, nl_fixed_count_field = None\<rparr>
      in map_option (\<lambda>(ok, sd, l). (ok, sd))
           (oand_then
              (noinit_loop (Suc (unat (is_bytes_left (fst sd)))) n env pdecode pnoinit loc
                 (dec_store (\<lambda>m. store_u32 m loc 0) sd, l))
              (\<lambda>(sd, l).
                 if fixed_count_wrong loc l (ds_mem (snd sd))
                 then Some (False, (is_set_error ''wrong size for fixed count field'' (fst sd), snd sd), l)
                 else if \<not> required_seen (req_field_count (nl_iter l)) (nl_fields_seen l)
                 then Some (False, (is_set_error ''missing required field'' (fst sd), snd sd), l)
                 else Some (True, sd, l))))"

definition decode_body ::
  "nat \<Rightarrow> ('s, 'h) dec_env \<Rightarrow> ('s, 'h) pdec \<Rightarrow> ('s, 'h) pdec" where
  "decode_body n env pnoinit flds dest_struct sd =
     (case pb_message_set_to_defaults n env flds dest_struct (ds_mem (snd sd)) of
        None \<Rightarrow> None
      | Some m \<Rightarrow>
          (case pnoinit flds dest_struct (fst sd, (snd sd)\<lparr>ds_mem := m\<rparr>) of
             None \<Rightarrow> None
           | Some (True, sd) \<Rightarrow> Some (True, sd)
           | Some (False, sd) \<Rightarrow>
               map_option (\<lambda>d. (False, fst sd, d)) (pb_release n env flds dest_struct (snd sd))))"

text \<open>\<open>pb_decode\<close> adds the default values and the release on failure to \<open>pb_decode_noinit\<close>.\<close>

fun pb_decode_noinit :: "nat \<Rightarrow> ('s, 'h) dec_env \<Rightarrow> ('s, 'h) pdec"
  and pb_decode :: "nat \<Rightarrow> ('s, 'h) dec_env \<Rightarrow> ('s, 'h) pdec" where
  "pb_decode_noinit 0 env flds dest_struct sd = None"
| "pb_decode_noinit (Suc n) env flds dest_struct sd =
     decode_noinit_body n env (pb_decode n env) (pb_decode_noinit n env) flds dest_struct sd"
| "pb_decode 0 env flds dest_struct sd = None"
| "pb_decode (Suc n) env flds dest_struct sd =
     decode_body n env (pb_decode_noinit n env) flds dest_struct sd"

definition pb_decode_delimited_noinit :: "nat \<Rightarrow> ('s, 'h) dec_env \<Rightarrow> ('s, 'h) pdec" where
  "pb_decode_delimited_noinit n env flds dest_struct sd =
     with_substream (pb_decode_noinit n env flds dest_struct) sd"

definition pb_decode_delimited :: "nat \<Rightarrow> ('s, 'h) dec_env \<Rightarrow> ('s, 'h) pdec" where
  "pb_decode_delimited n env flds dest_struct sd =
     with_substream (pb_decode n env flds dest_struct) sd"

definition pb_decode_nullterminated :: "nat \<Rightarrow> ('s, 'h) dec_env \<Rightarrow> ('s, 'h) pdec" where
  "pb_decode_nullterminated n env flds dest_struct sd = pb_decode n env flds dest_struct sd"

end
