(* ===== verification/Pb_Frame.thy ===== *)
theory Pb_Frame
  imports Pb_Decode
begin

text \<open>
  What a decoding step may change: the memory outside a region stays as it is, and the stream
  only gets shorter. The lemmas of this theory hold for any input and any stream callback.
\<close>

section \<open>Memory\<close>

definition frame :: "addr set \<Rightarrow> mem \<Rightarrow> mem \<Rightarrow> bool" where
  "frame A m m' \<longleftrightarrow> (\<forall>x. x \<notin> A \<longrightarrow> m' x = m x)"

lemma frame_refl [simp, intro]: "frame A m m"
  by (simp add: frame_def)

lemma frame_trans: "frame A m m' \<Longrightarrow> frame A m' m'' \<Longrightarrow> frame A m m''"
  by (simp add: frame_def)

lemma frame_mono: "frame A m m' \<Longrightarrow> A \<subseteq> B \<Longrightarrow> frame B m m'"
  by (auto simp: frame_def)

lemma frame_store_bytes: "range_of a (length bs) \<subseteq> A \<Longrightarrow> frame A m (store_bytes m a bs)"
  unfolding frame_def by (metis store_bytes_outside subsetD)

lemma frame_store_bytes_le: "range_of a n \<subseteq> A \<Longrightarrow> length bs \<le> n \<Longrightarrow> frame A m (store_bytes m a bs)"
  by (rule frame_store_bytes) (auto simp: range_of_def)

lemma frame_store_u8: "range_of a 1 \<subseteq> A \<Longrightarrow> frame A m (store_u8 m a v)"
  by (auto simp: frame_def store_u8_def range_of_def)

lemma frame_store_u16: "range_of a 2 \<subseteq> A \<Longrightarrow> frame A m (store_u16 m a v)"
  unfolding store_u16_def by (rule frame_store_bytes) simp

lemma frame_store_u32: "range_of a 4 \<subseteq> A \<Longrightarrow> frame A m (store_u32 m a v)"
  unfolding store_u32_def by (rule frame_store_bytes) simp

lemma frame_store_u64: "range_of a 8 \<subseteq> A \<Longrightarrow> frame A m (store_u64 m a v)"
  unfolding store_u64_def by (rule frame_store_bytes) simp

lemma frame_mem_set: "range_of a n \<subseteq> A \<Longrightarrow> frame A m (mem_set m a b n)"
  unfolding mem_set_def by (rule frame_store_bytes) simp

lemma frame_mem_copy: "range_of a n \<subseteq> A \<Longrightarrow> frame A m (mem_copy m a p n)"
  unfolding mem_copy_def by (rule frame_store_bytes) simp

lemmas frame_stores = frame_store_u8 frame_store_u16 frame_store_u32 frame_store_u64 frame_mem_set
  frame_mem_copy

lemma frame_load_bytes:
  assumes "frame A m m'" "range_of a n \<inter> A = {}"
  shows "load_bytes m' a n = load_bytes m a n"
  using assms by (intro load_bytes_cong) (auto simp: frame_def)

lemma frame_load_u32: "frame A m m' \<Longrightarrow> range_of a 4 \<inter> A = {} \<Longrightarrow> load_u32 m' a = load_u32 m a"
  by (simp add: load_u32_def frame_load_bytes)

lemma frame_load_u64: "frame A m m' \<Longrightarrow> range_of a 8 \<inter> A = {} \<Longrightarrow> load_u64 m' a = load_u64 m a"
  by (simp add: load_u64_def frame_load_bytes)

lemma range_of_sub: "off + k \<le> n \<Longrightarrow> range_of (a + of_nat off) k \<subseteq> range_of a n"
  unfolding range_of_def
proof safe
  fix i assume "off + k \<le> n" "i < k"
  then have "a + of_nat off + of_nat i = a + of_nat (off + i)" "off + i < n" by simp_all
  then show "a + of_nat off + of_nat i \<in> (\<lambda>i. a + of_nat i) ` {..<n}" by blast
qed

lemma range_of_mono: "k \<le> n \<Longrightarrow> range_of a k \<subseteq> range_of a n"
  using range_of_sub [of 0 k n a] by simp

text \<open>Offsets below \<open>2 ^ 64\<close> that do not overlap give disjoint ranges.\<close>

lemma range_of_disjoint:
  assumes "a + k \<le> b \<or> b + n \<le> a" "a + k \<le> 2 ^ 64" "b + n \<le> 2 ^ 64"
  shows "range_of (p + of_nat a) k \<inter> range_of (p + of_nat b) n = {}"
proof -
  have "a + i = b + j" if "p + of_nat a + of_nat i = p + of_nat b + of_nat j" "i < k" "j < n" for i j
  proof -
    have "(of_nat (a + i) :: addr) = of_nat (b + j)" using that(1) by (simp add: add.assoc)
    then have "unat (of_nat (a + i) :: addr) = unat (of_nat (b + j) :: addr)" by simp
    moreover have "a + i < 2 ^ 64" "b + j < 2 ^ 64" using that(2,3) assms(2,3) by linarith+
    ultimately show ?thesis by (simp only: unat_of_nat_64)
  qed
  with assms(1) show ?thesis by (fastforce simp: range_of_def)
qed

section \<open>Streams\<close>

text \<open>A callback stores at most the bytes it is asked for.\<close>

definition reader_bounded :: "'s pb_istream \<Rightarrow> bool" where
  "reader_bounded s \<longleftrightarrow> (\<forall>st w n. length (fst (snd (is_callback s st w n))) \<le> unat n)"

text \<open>
  An invariant of the callback's state and the number of bytes left that reading keeps. It may be
  shifted, as a substream does to the stream it is made from.
\<close>

definition reader_inv :: "'s icallback \<Rightarrow> ('s \<Rightarrow> nat \<Rightarrow> bool) \<Rightarrow> bool" where
  "reader_inv c I \<longleftrightarrow> (\<forall>st b b'. I st b \<longrightarrow> b' \<le> b \<longrightarrow> I st b')
     \<and> (\<forall>st w n b ok bs st'. I st b \<longrightarrow> unat n \<le> b \<longrightarrow> c st w n = (ok, bs, st') \<longrightarrow>
          I st' (if ok then b - unat n else b))"

lemma reader_inv_mono: "reader_inv c I \<Longrightarrow> I st b \<Longrightarrow> b' \<le> b \<Longrightarrow> I st b'"
  unfolding reader_inv_def by blast

lemma reader_inv_step:
  "reader_inv c I \<Longrightarrow> I st b \<Longrightarrow> unat n \<le> b \<Longrightarrow> c st w n = (ok, bs, st') \<Longrightarrow> I st' (if ok then b - unat n else b)"
  unfolding reader_inv_def by blast

lemma reader_inv_shift:
  assumes "reader_inv c I"
  shows "reader_inv c (\<lambda>st b. I st (b + k))"
  unfolding reader_inv_def
proof (intro conjI allI impI)
  fix st b b' assume "I st (b + k)" "b' \<le> b"
  then show "I st (b' + k)" using reader_inv_mono [OF assms, of st "b + k" "b' + k"] by simp
next
  fix st w n b ok bs st' assume I: "I st (b + k)" and n: "unat n \<le> b" and c: "c st w n = (ok, bs, st')"
  have "I st' (if ok then b + k - unat n else b + k)" using n reader_inv_step [OF assms I _ c] by simp
  then show "I st' ((if ok then b - unat n else b) + k)" using n by (cases ok) simp_all
qed

definition stream_le :: "'s pb_istream \<Rightarrow> 's pb_istream \<Rightarrow> bool" where
  "stream_le s s' \<longleftrightarrow> is_callback s' = is_callback s
     \<and> unat (is_bytes_left s') \<le> unat (is_bytes_left s)
     \<and> (\<forall>I. reader_inv (is_callback s) I \<longrightarrow> I (is_state s) (unat (is_bytes_left s)) \<longrightarrow>
          I (is_state s') (unat (is_bytes_left s')))"

lemma stream_leI:
  assumes "is_callback s' = is_callback s" "unat (is_bytes_left s') \<le> unat (is_bytes_left s)"
    "\<And>I. reader_inv (is_callback s) I \<Longrightarrow> I (is_state s) (unat (is_bytes_left s)) \<Longrightarrow>
       I (is_state s') (unat (is_bytes_left s'))"
  shows "stream_le s s'"
  unfolding stream_le_def using assms by (intro conjI allI impI)

text \<open>Fewer bytes left, in the same state.\<close>

lemma stream_le_less:
  "is_callback s' = is_callback s \<Longrightarrow> is_state s' = is_state s \<Longrightarrow>
     unat (is_bytes_left s') \<le> unat (is_bytes_left s) \<Longrightarrow> stream_le s s'"
  by (rule stream_leI) (auto intro: reader_inv_mono)

definition stream_less :: "'s pb_istream \<Rightarrow> 's pb_istream \<Rightarrow> bool" where
  "stream_less s s' \<longleftrightarrow> stream_le s s' \<and> unat (is_bytes_left s') < unat (is_bytes_left s)"

lemma stream_le_refl [simp, intro]: "stream_le s s"
  by (simp add: stream_le_def)

lemma stream_le_inv:
  "stream_le s t \<Longrightarrow> reader_inv (is_callback s) I \<Longrightarrow> I (is_state s) (unat (is_bytes_left s)) \<Longrightarrow>
     I (is_state t) (unat (is_bytes_left t))"
  unfolding stream_le_def by blast

lemma stream_le_simps:
  assumes "stream_le s t"
  shows "is_callback t = is_callback s" "unat (is_bytes_left t) \<le> unat (is_bytes_left s)"
  using assms by (simp_all add: stream_le_def)

lemma stream_le_trans:
  assumes "stream_le s t" "stream_le t u"
  shows "stream_le s u"
proof (rule stream_leI)
  fix I assume I: "reader_inv (is_callback s) I" "I (is_state s) (unat (is_bytes_left s))"
  have "I (is_state t) (unat (is_bytes_left t))" using assms(1) I by (rule stream_le_inv)
  then show "I (is_state u) (unat (is_bytes_left u))"
    using I(1) stream_le_simps(1) [OF assms(1)] by (intro stream_le_inv [OF assms(2), of I]) simp_all
qed (use assms [THEN stream_le_simps(1)] assms [THEN stream_le_simps(2)] in simp_all)

lemma stream_less_le: "stream_less s t \<Longrightarrow> stream_le s t"
  by (simp add: stream_less_def)

lemma stream_less_trans: "stream_less s t \<Longrightarrow> stream_le t u \<Longrightarrow> stream_less s u"
  unfolding stream_less_def using stream_le_trans stream_le_simps(2) by fastforce

lemma stream_less_trans2: "stream_le s t \<Longrightarrow> stream_less t u \<Longrightarrow> stream_less s u"
  unfolding stream_less_def using stream_le_trans stream_le_simps(2) by fastforce

lemma stream_less_error [simp]: "stream_less s (is_set_error msg t) = stream_less s t"
  by (simp add: stream_less_def stream_le_def)

lemma stream_le_error [simp]: "stream_le s (is_set_error msg t) = stream_le s t"
  by (simp add: stream_le_def)

lemma stream_le_bounded: "stream_le s t \<Longrightarrow> reader_bounded s \<Longrightarrow> reader_bounded t"
  by (simp add: stream_le_def reader_bounded_def)

text \<open>
  What every reading function does to the stream: \<open>shrinks\<close> if it may read nothing, \<open>takes\<close> if it reads at
  least one byte when it succeeds.
\<close>

definition shrinks :: "'s pb_istream \<Rightarrow> ('a, 's) rd \<Rightarrow> bool" where
  "shrinks s r \<longleftrightarrow> stream_le s (snd r)"

definition takes :: "'s pb_istream \<Rightarrow> ('a, 's) rd \<Rightarrow> bool" where
  "takes s r \<longleftrightarrow> stream_le s (snd r) \<and> (fst r \<noteq> None \<longrightarrow> stream_less s (snd r))"

lemma takes_shrinks: "takes s r \<Longrightarrow> shrinks s r"
  by (simp add: takes_def shrinks_def)

lemma takes_error [simp]: "takes s (is_return_error t msg) = stream_le s t"
  by (simp add: takes_def is_return_error_def)

lemma shrinks_error [simp]: "shrinks s (is_return_error t msg) = stream_le s t"
  by (simp add: shrinks_def is_return_error_def)

lemma takes_None: "takes s (None, t) \<longleftrightarrow> stream_le s t"
  by (simp add: takes_def)

lemma takes_Some: "takes s (Some v, t) \<longleftrightarrow> stream_less s t"
  by (auto simp: takes_def stream_less_le)

lemma shrinks_pair: "shrinks s (v, t) \<longleftrightarrow> stream_le s t"
  by (simp add: shrinks_def)

lemma shrinks_then:
  assumes "shrinks s r" "\<And>v t. stream_le s t \<Longrightarrow> r = (Some v, t) \<Longrightarrow> shrinks t (k v t)"
  shows "shrinks s (rd_then r k)"
  using assms stream_le_trans
  by (cases r; cases "fst r") (fastforce simp: shrinks_def)+

lemma takes_then:
  assumes "takes s r" "\<And>v t. r = (Some v, t) \<Longrightarrow> stream_less s t \<Longrightarrow> shrinks t (k v t)"
  shows "takes s (rd_then r k)"
proof (cases r)
  case (Pair v t)
  then show ?thesis
    using assms stream_less_trans [of s t] stream_less_le
    by (cases v) (auto simp: takes_None takes_Some shrinks_def takes_def)
qed

lemma takes_map: "takes s r \<Longrightarrow> takes s (rd_then r (\<lambda>v t. (Some (f v), t)))"
  by (rule takes_then) (simp_all add: shrinks_pair)

lemma pb_readbyte_takes: "takes s (pb_readbyte s)"
proof (cases "pb_readbyte s")
  case (Pair v t)
  obtain ok bs st' where c: "is_callback s (is_state s) True 1 = (ok, bs, st')" by (cases "is_callback s (is_state s) True 1")
  have "stream_le s t"
  proof (cases "is_bytes_left s = 0")
    case True
    then show ?thesis using Pair by (auto simp: pb_readbyte_def is_return_error_def)
  next
    case False
    then have u: "unat (is_bytes_left s - 1) = unat (is_bytes_left s) - 1" "1 \<le> unat (is_bytes_left s)"
      by (simp_all add: unat_minus_one unat_gt_0 Suc_le_eq)
    have "I st' (if ok then unat (is_bytes_left s) - 1 else unat (is_bytes_left s))"
      if "reader_inv (is_callback s) I" "I (is_state s) (unat (is_bytes_left s))" for I
      using reader_inv_step [OF that _ c] u by (cases ok) simp_all
    with False Pair c u show ?thesis
      by (intro stream_leI) (auto simp: pb_readbyte_def is_return_error_def Let_def split: if_splits)
  qed
  with Pair pb_readbyte_shorter [of s _ t] show ?thesis
    by (cases v) (auto simp: takes_None takes_Some stream_less_def)
qed

lemma pb_read_raw_shrinks: "shrinks s (pb_read_raw s w n)"
proof (cases "is_bytes_left s < n")
  case True
  then show ?thesis by (simp add: pb_read_raw_def)
next
  case False
  then have u: "unat n \<le> unat (is_bytes_left s)" "unat (is_bytes_left s - n) = unat (is_bytes_left s) - unat n"
    by (simp_all add: not_less word_le_nat_alt unat_sub)
  obtain ok bs st' where c: "is_callback s (is_state s) w n = (ok, bs, st')" by (cases "is_callback s (is_state s) w n")
  have "I st' (if ok then unat (is_bytes_left s) - unat n else unat (is_bytes_left s))"
    if "reader_inv (is_callback s) I" "I (is_state s) (unat (is_bytes_left s))" for I
    using reader_inv_step [OF that _ c] u by simp
  with False c u show ?thesis
    unfolding shrinks_def by (intro stream_leI) (auto simp: pb_read_raw_def is_return_error_def Let_def split: if_splits)
qed

lemma pb_read_raw_takes: "n \<noteq> 0 \<Longrightarrow> takes s (pb_read_raw s w n)"
  using pb_read_raw_shrinks [of s w n] pb_read_raw_shorter [of s w n]
  by (cases "pb_read_raw s w n")
    (auto simp: takes_def shrinks_def stream_less_def word_le_nat_alt unat_eq_0 [symmetric])

lemma skip_loop_takes: "n \<noteq> 0 \<Longrightarrow> takes s (skip_loop s n)"
proof (induction s n rule: skip_loop.induct)
  case (1 s n)
  show ?case
  proof (cases "16 < n")
    case True
    then have "n - 16 \<noteq> 0" by auto
    with True show ?thesis
      using 1(1) [OF True]
      by (subst skip_loop.simps) (auto intro!: takes_then pb_read_raw_takes takes_shrinks)
  next
    case False
    with 1(2) show ?thesis
      by (subst skip_loop.simps) (auto intro!: takes_then pb_read_raw_takes simp: shrinks_pair)
  qed
qed

lemma pb_read_takes: "n \<noteq> 0 \<Longrightarrow> takes s (pb_read s w n)"
  by (simp add: pb_read_def skip_loop_takes pb_read_raw_takes)

lemma pb_read_shrinks: "shrinks s (pb_read s w n)"
proof (cases "n = 0")
  case True
  then show ?thesis by (simp add: pb_read_def shrinks_pair)
qed (rule takes_shrinks [OF pb_read_takes])

lemma pb_read_length:
  assumes "reader_bounded s" "pb_read s True n = (Some bs, t)"
  shows "length bs \<le> unat n"
proof (cases "n = 0")
  case True
  with assms(2) show ?thesis by (simp add: pb_read_def)
next
  case False
  with assms(2) have "fst (snd (is_callback s (is_state s) True n)) = bs"
    by (auto simp: pb_read_def pb_read_raw_def is_return_error_def Let_def split: if_splits prod.splits)
  with assms(1) show ?thesis by (auto simp: reader_bounded_def)
qed

section \<open>Primitive items\<close>

lemma varint32_loop_shrinks: "shrinks s (varint32_loop s bitpos result)"
proof (induction s bitpos result rule: varint32_loop.induct)
  case (1 s bitpos result)
  obtain v t where r: "pb_readbyte s = (v, t)" by (cases "pb_readbyte s")
  have "stream_le s t" using pb_readbyte_takes [of s] r by (simp add: takes_def)
  then show ?case
    using r 1
    by (subst varint32_loop.simps)
      (auto simp: shrinks_def is_return_error_def Let_def split: option.splits intro: stream_le_trans)
qed

lemma pb_decode_varint32_eof_stream:
  assumes "pb_decode_varint32_eof s = (v, eof, t)"
  shows "stream_le s t" "v \<noteq> None \<Longrightarrow> stream_less s t"
proof -
  obtain b u where r: "pb_readbyte s = (b, u)" by (cases "pb_readbyte s")
  have u: "stream_le s u" "b \<noteq> None \<Longrightarrow> stream_less s u"
    using pb_readbyte_takes [of s] r by (auto simp: takes_def)
  have "stream_le s t \<and> (v \<noteq> None \<longrightarrow> stream_less s t)"
  proof (cases b)
    case None
    with assms r u show ?thesis by (auto simp: pb_decode_varint32_eof_def)
  next
    case (Some x)
    then have less: "stream_less s u" using u(2) by simp
    obtain w x' where l: "varint32_loop u 7 (ucast (x AND 127)) = (w, x')"
      by (cases "varint32_loop u 7 (ucast (x AND 127))")
    have "stream_le u x'" using varint32_loop_shrinks [of u 7 "ucast (x AND 127)"] l by (simp add: shrinks_def)
    with less have "stream_less s x'" by (rule stream_less_trans)
    with assms r Some l less show ?thesis
      by (auto simp: pb_decode_varint32_eof_def stream_less_le split: if_splits option.splits)
  qed
  then show "stream_le s t" "v \<noteq> None \<Longrightarrow> stream_less s t" by simp_all
qed

lemma pb_decode_varint32_takes: "takes s (pb_decode_varint32 s)"
  using pb_decode_varint32_eof_stream [of s]
  by (auto simp: takes_def pb_decode_varint32_def split: prod.splits)

lemma varint64_loop_shrinks: "shrinks s (varint64_loop s bitpos result)"
proof (induction s bitpos result rule: varint64_loop.induct)
  case (1 s bitpos result)
  obtain v t where r: "pb_readbyte s = (v, t)" by (cases "pb_readbyte s")
  have "stream_le s t" using pb_readbyte_takes [of s] r by (simp add: takes_def)
  then show ?case
    using r 1
    by (subst varint64_loop.simps)
      (auto simp: shrinks_def is_return_error_def Let_def split: option.splits intro: stream_le_trans)
qed

lemma pb_decode_varint_takes: "takes s (pb_decode_varint s)"
proof -
  obtain v t where r: "pb_readbyte s = (v, t)" by (cases "pb_readbyte s")
  have "takes s (v, t)" using pb_readbyte_takes [of s] r by simp
  then show ?thesis
    using r varint64_loop_shrinks stream_less_trans [of s t] stream_less_le [of s]
    by (subst pb_decode_varint_def, subst varint64_loop.simps)
      (fastforce simp: takes_def shrinks_def is_return_error_def Let_def split: option.splits)
qed

lemma pb_decode_svarint_takes: "takes s (pb_decode_svarint s)"
  unfolding pb_decode_svarint_def by (rule takes_map) (rule pb_decode_varint_takes)

lemma pb_decode_fixed32_takes: "takes s (pb_decode_fixed32 s)"
  unfolding pb_decode_fixed32_def by (rule takes_map) (rule pb_read_takes, simp)

lemma pb_decode_fixed64_takes: "takes s (pb_decode_fixed64 s)"
  unfolding pb_decode_fixed64_def by (rule takes_map) (rule pb_read_takes, simp)

lemma pb_skip_varint_shrinks: "shrinks s (pb_skip_varint s)"
proof (induction s rule: pb_skip_varint.induct)
  case (1 s)
  obtain v t where r: "pb_read s True 1 = (v, t)" by (cases "pb_read s True 1")
  have "stream_le s t" using pb_read_shrinks [of s True 1] r by (simp add: shrinks_def)
  then show ?case
    using r 1 stream_le_trans
    by (subst pb_skip_varint.simps) (auto simp: shrinks_def split: option.splits)
qed

lemma pb_skip_bytes_shrinks: "shrinks s (pb_skip_bytes s n)"
  unfolding pb_skip_bytes_def by (rule shrinks_then) (simp_all add: pb_read_shrinks shrinks_pair)

lemma pb_skip_field_shrinks: "shrinks s (pb_skip_field s wt)"
proof -
  have "shrinks s (pb_skip_string s)"
    unfolding pb_skip_string_def
    by (rule shrinks_then) (simp_all add: pb_skip_bytes_shrinks takes_shrinks pb_decode_varint32_takes)
  then show ?thesis by (simp add: pb_skip_field_def pb_skip_varint_shrinks pb_skip_bytes_shrinks)
qed

lemma pb_decode_tag_stream:
  assumes "pb_decode_tag s = (ok, wt, tag, eof, t)"
  shows "stream_le s t" "ok \<Longrightarrow> stream_less s t" "ok \<Longrightarrow> tag < 2 ^ 29"
proof -
  obtain v e u where r: "pb_decode_varint32_eof s = (v, e, u)" by (cases "pb_decode_varint32_eof s")
  note st = pb_decode_varint32_eof_stream [OF r]
  show "stream_le s t" "ok \<Longrightarrow> stream_less s t"
    using assms r st by (auto simp: pb_decode_tag_def split: option.splits if_splits)
  have "drop_bit 3 x < 2 ^ 29" for x :: u32
  proof -
    have "unat (drop_bit 3 x) = unat x div 8" by (simp add: unat_drop_bit_eq drop_bit_eq_div [of _ "unat x"])
    with unat_lt_32 [of x] show ?thesis by (simp add: word_less_nat_alt)
  qed
  then show "ok \<Longrightarrow> tag < 2 ^ 29"
    using assms r by (auto simp: pb_decode_tag_def split: option.splits if_splits)
qed

text \<open>The two streams of a substream together are shorter than the stream it was made from.\<close>

lemma pb_make_string_substream_stream:
  assumes "pb_make_string_substream s = (v, t)"
  shows "stream_le s t" "v = Some sub \<Longrightarrow> stream_le s sub" "v = Some sub \<Longrightarrow> stream_less s t"
proof -
  obtain w u where r: "pb_decode_varint32 s = (w, u)" by (cases "pb_decode_varint32 s")
  have u: "stream_le s u" "w \<noteq> None \<Longrightarrow> stream_less s u"
    using pb_decode_varint32_takes [of s] r by (auto simp: takes_def)
  have shrink: "stream_le u (u\<lparr>is_bytes_left := is_bytes_left u - n\<rparr>)" "stream_le u (u\<lparr>is_bytes_left := n\<rparr>)"
    if "n \<le> is_bytes_left u" for n
    using that by (auto intro!: stream_le_less simp: word_le_nat_alt unat_sub)
  show "stream_le s t" "v = Some sub \<Longrightarrow> stream_le s sub" "v = Some sub \<Longrightarrow> stream_less s t"
    using assms r u shrink [of "ucast (the w)"] stream_le_trans [OF u(1)] stream_less_trans [OF u(2)]
    by (auto simp: pb_make_string_substream_def is_return_error_def Let_def rd_then_def not_less
        split: option.splits if_splits)
qed

text \<open>
  A substream that is made, used and closed: the stream it was made from goes on behind its end.
\<close>

lemma pb_close_string_substream_stream:
  assumes make: "pb_make_string_substream s = (Some sub, t)" and used: "stream_le sub sub'"
    and t': "is_callback t' = is_callback t" "is_state t' = is_state t" "is_bytes_left t' = is_bytes_left t"
    and close: "pb_close_string_substream t' sub' = (w, u)"
  shows "stream_le s u"
proof -
  obtain sz v where v: "pb_decode_varint32 s = (Some sz, v)" "ucast sz \<le> is_bytes_left v"
      "sub = v\<lparr>is_bytes_left := ucast sz\<rparr>" "t = v\<lparr>is_bytes_left := is_bytes_left v - ucast sz\<rparr>"
    using make by (auto simp: pb_make_string_substream_def rd_then_def is_return_error_def Let_def not_less
        split: option.splits prod.splits if_splits)
  have "stream_le s v" using pb_decode_varint32_takes [of s] v(1) by (simp add: takes_def)
  moreover have "stream_le v u"
  proof (rule stream_leI)
    have left: "unat (is_bytes_left sub) + unat (is_bytes_left t) = unat (is_bytes_left v)"
      using v(2-4) by (simp add: word_le_nat_alt unat_sub)
    have u: "is_callback u = is_callback t'" "is_bytes_left u = is_bytes_left t'"
      using close by (auto simp: pb_close_string_substream_def split: prod.splits option.splits)
    then show "is_callback u = is_callback v" "unat (is_bytes_left u) \<le> unat (is_bytes_left v)"
      using t' v(4) left by simp_all
    fix I assume I: "reader_inv (is_callback v) I" "I (is_state v) (unat (is_bytes_left v))"
    let ?I = "\<lambda>st b. I st (b + unat (is_bytes_left t))"
    obtain r sub'' where r: "(if is_bytes_left sub' \<noteq> 0 then pb_read sub' False (is_bytes_left sub') else (Some [], sub')) = (r, sub'')"
      by (cases "if is_bytes_left sub' \<noteq> 0 then pb_read sub' False (is_bytes_left sub') else (Some [], sub')")
    then have "stream_le sub' sub''"
      using pb_read_shrinks [of sub' False "is_bytes_left sub'"] by (auto simp: shrinks_def split: if_splits)
    with used have "stream_le sub sub''" by (rule stream_le_trans)
    moreover have "reader_inv (is_callback sub) ?I" "?I (is_state sub) (unat (is_bytes_left sub))"
      using I left v(3) reader_inv_shift [OF I(1)] by simp_all
    ultimately have "?I (is_state sub'') (unat (is_bytes_left sub''))" by (rule stream_le_inv)
    then have "I (is_state sub'') (unat (is_bytes_left t))" by (rule reader_inv_mono [OF I(1)]) simp
    moreover have "I (is_state t) (unat (is_bytes_left t))"
      using I v(4) left by (auto intro: reader_inv_mono)
    moreover have "is_state u \<in> {is_state t', is_state sub''}"
      using close r by (auto simp: pb_close_string_substream_def split: option.splits)
    ultimately show "I (is_state u) (unat (is_bytes_left u))" using u(2) t'(2,3) by auto
  qed
  ultimately show ?thesis by (rule stream_le_trans)
qed

section \<open>Steps of the decoder\<close>

text \<open>A step within a region: the stream gets no longer, memory changes only in the region.\<close>

definition dstep :: "addr set \<Rightarrow> ('s, 'h) dec \<Rightarrow> ('s, 'h) dec \<Rightarrow> bool" where
  "dstep A sd sd' \<longleftrightarrow> stream_le (fst sd) (fst sd') \<and> frame A (ds_mem (snd sd)) (ds_mem (snd sd'))"

text \<open>The call returns, after a step within the region.\<close>

definition dpost :: "addr set \<Rightarrow> ('s, 'h) dec \<Rightarrow> ('s, 'h) dec_result \<Rightarrow> bool" where
  "dpost A sd r \<longleftrightarrow> (\<exists>ok sd'. r = Some (ok, sd') \<and> dstep A sd sd')"

text \<open>Moreover, it has read something if it has succeeded.\<close>

definition dpost1 :: "addr set \<Rightarrow> ('s, 'h) dec \<Rightarrow> ('s, 'h) dec_result \<Rightarrow> bool" where
  "dpost1 A sd r \<longleftrightarrow> (\<exists>ok sd'. r = Some (ok, sd') \<and> dstep A sd sd' \<and> (ok \<longrightarrow> stream_less (fst sd) (fst sd')))"

lemma dstep_refl [simp, intro]: "dstep A sd sd"
  by (simp add: dstep_def)

lemma dstep_trans: "dstep A sd sd' \<Longrightarrow> dstep A sd' sd'' \<Longrightarrow> dstep A sd sd''"
  unfolding dstep_def by (blast intro: stream_le_trans frame_trans)

lemma dstep_mono: "dstep A sd sd' \<Longrightarrow> A \<subseteq> B \<Longrightarrow> dstep B sd sd'"
  unfolding dstep_def by (blast intro: frame_mono)

lemma dstep_store: "frame A (ds_mem (snd sd)) (f (ds_mem (snd sd))) \<Longrightarrow> dstep A sd (dec_store f sd)"
  by (simp add: dstep_def dec_store_def upd_mem_def)

lemma dstep_stream: "stream_le (fst sd) s \<Longrightarrow> dstep A sd (s, snd sd)"
  by (simp add: dstep_def)

lemma dstep_bounded: "dstep A sd sd' \<Longrightarrow> reader_bounded (fst sd) \<Longrightarrow> reader_bounded (fst sd')"
  unfolding dstep_def by (blast intro: stream_le_bounded)

lemma dpost_mono: "dpost A sd r \<Longrightarrow> A \<subseteq> B \<Longrightarrow> dpost B sd r"
  unfolding dpost_def by (blast intro: dstep_mono)

lemma dpost_trans: "dstep A sd sd' \<Longrightarrow> dpost A sd' r \<Longrightarrow> dpost A sd r"
  unfolding dpost_def by (blast intro: dstep_trans)

lemma dpost1_mono: "dpost1 A sd r \<Longrightarrow> A \<subseteq> B \<Longrightarrow> dpost1 B sd r"
  unfolding dpost1_def by (blast intro: dstep_mono)

lemma dpost1_dpost: "dpost1 A sd r \<Longrightarrow> dpost A sd r"
  by (auto simp: dpost_def dpost1_def)

lemma dpost_Some: "dpost A sd (Some (ok, sd')) \<longleftrightarrow> dstep A sd sd'"
  by (simp add: dpost_def)

lemma dpost_error: "dstep A sd sd' \<Longrightarrow> dpost A sd (Some (dec_error sd' msg))"
  by (auto simp: dpost_def dec_error_def dstep_def)

lemma dpost_oand_then:
  assumes "dpost A sd r" "\<And>sd'. dstep A sd sd' \<Longrightarrow> dpost A sd' (k sd')"
  shows "dpost A sd (oand_then r k)"
proof -
  from assms(1) obtain ok sd' where r: "r = Some (ok, sd')" "dstep A sd sd'" by (auto simp: dpost_def)
  with assms(2) [OF r(2)] show ?thesis by (cases ok) (auto simp: dpost_Some intro: dpost_trans)
qed

text \<open>A read followed by a store of what was read.\<close>

lemma dec_then_dpost1:
  assumes "takes (fst sd) r"
    and "\<And>v t. stream_less (fst sd) t \<Longrightarrow> r = (Some v, t) \<Longrightarrow> dpost A (t, snd sd) (Some (k v (t, snd sd)))"
  shows "dpost1 A sd (Some (dec_then r (snd sd) k))"
proof (cases r)
  case (Pair v t)
  show ?thesis
  proof (cases v)
    case None
    with assms(1) Pair show ?thesis by (auto simp: dec_then_def dpost1_def dstep_stream takes_None)
  next
    case (Some x)
    then have less: "stream_less (fst sd) t" using assms(1) Pair by (simp add: takes_Some)
    obtain ok sd' where k: "k x (t, snd sd) = (ok, sd')" by (cases "k x (t, snd sd)")
    then have "dstep A (t, snd sd) sd'" using assms(2) [OF less] Pair Some by (simp add: dpost_Some)
    moreover from this have "stream_le t (fst sd')" by (simp add: dstep_def)
    ultimately show ?thesis
      using less k Pair Some dstep_trans [OF dstep_stream [OF stream_less_le [OF less]]] stream_less_trans [OF less]
      by (auto simp: dec_then_def dpost1_def)
  qed
qed

lemma dpost_store:
  "frame A (ds_mem (snd sd)) (f (ds_mem (snd sd))) \<Longrightarrow> dpost A sd (Some (ok, dec_store f sd))"
  by (simp add: dpost_Some dstep_store)

lemma dpost_store_error:
  "frame A (ds_mem (snd sd)) (f (ds_mem (snd sd))) \<Longrightarrow> dpost A sd (Some (dec_error (dec_store f sd) msg))"
  by (intro dpost_error dstep_store)

lemmas dpost_stores = dpost_store dpost_store_error

section \<open>Scalars\<close>

lemma range_of_1_le: "0 < n \<Longrightarrow> range_of a n \<subseteq> A \<Longrightarrow> range_of a 1 \<subseteq> A"
  using range_of_mono [of 1 n a] by auto

lemma pb_dec_bool_post:
  assumes "range_of dest 1 \<subseteq> A"
  shows "dpost1 A sd (pb_dec_bool f dest sd)"
  unfolding pb_dec_bool_def
  by (rule dec_then_dpost1 [OF pb_decode_varint32_takes]) (intro dpost_stores frame_stores assms)

lemma pb_dec_varint_post:
  assumes "range_of dest (unat (pf_data_size f)) \<subseteq> A"
  shows "dpost1 A sd (pb_dec_varint f dest sd)"
  unfolding pb_dec_varint_def
  by (rule dec_then_dpost1 [OF pb_decode_varint_takes])
    (use assms in \<open>auto simp: Let_def simp del: One_nat_def intro!: dpost_stores frame_stores dpost_error dstep_store\<close>)

lemma pb_dec_uvarint_post:
  assumes "range_of dest (unat (pf_data_size f)) \<subseteq> A"
  shows "dpost1 A sd (pb_dec_uvarint f dest sd)"
  unfolding pb_dec_uvarint_def
  by (rule dec_then_dpost1 [OF pb_decode_varint_takes])
    (use assms in \<open>auto simp: Let_def simp del: One_nat_def intro!: dpost_stores frame_stores dpost_error dstep_store\<close>)

lemma pb_dec_svarint_post:
  assumes "range_of dest (unat (pf_data_size f)) \<subseteq> A"
  shows "dpost1 A sd (pb_dec_svarint f dest sd)"
  unfolding pb_dec_svarint_def
  by (rule dec_then_dpost1 [OF pb_decode_svarint_takes])
    (use assms in \<open>auto simp: Let_def simp del: One_nat_def intro!: dpost_stores frame_stores dpost_error dstep_store\<close>)

lemma pb_dec_fixed32_post:
  assumes "range_of dest 4 \<subseteq> A"
  shows "dpost1 A sd (pb_dec_fixed32 f dest sd)"
  unfolding pb_dec_fixed32_def
  by (rule dec_then_dpost1 [OF pb_decode_fixed32_takes]) (intro dpost_stores frame_stores assms)

lemma pb_dec_fixed64_post:
  assumes "range_of dest 8 \<subseteq> A"
  shows "dpost1 A sd (pb_dec_fixed64 f dest sd)"
  unfolding pb_dec_fixed64_def
  by (rule dec_then_dpost1 [OF pb_decode_fixed64_takes]) (intro dpost_stores frame_stores assms)

text \<open>Reading bytes to memory: at most as many as asked for are stored.\<close>

lemma dec_read_post:
  assumes "reader_bounded (fst sd)" "range_of dest (unat n) \<subseteq> A"
  shows "dpost A sd (Some (dec_read dest n sd))"
proof -
  obtain v t where r: "pb_read (fst sd) True n = (v, t)" by (cases "pb_read (fst sd) True n")
  have st: "stream_le (fst sd) t" using pb_read_shrinks [of "fst sd" True n] r by (simp add: shrinks_def)
  show ?thesis
  proof (cases v)
    case None
    then show ?thesis using r st by (simp add: dec_read_def dec_then_def dpost_Some dstep_stream)
  next
    case (Some bs)
    then have "length bs \<le> unat n" using pb_read_length [OF assms(1)] r by simp
    then have "frame A (ds_mem (snd sd)) (store_bytes (ds_mem (snd sd)) dest bs)"
      using assms(2) by (rule frame_store_bytes_le [rotated])
    then have "dstep A (t, snd sd) (dec_store (\<lambda>m. store_bytes m dest bs) (t, snd sd))" by (intro dstep_store) simp
    then show ?thesis
      using Some r dstep_trans [OF dstep_stream [OF st]] by (simp add: dec_read_def dec_then_def dpost_Some)
  qed
qed

end
