(* ===== verification/Pb_Init.thy ===== *)
theory Pb_Init
  imports Pb_Iter Pb_Memory
begin

text \<open>
  Initialisers of message structures, and the addresses of members as the field iterator
  computes them.
\<close>

section \<open>Initialisers\<close>

text \<open>A brace-enclosed initialiser of a structure: one value per member, in order.\<close>

datatype cinit = IBool bool | IInt int | INull | IStruct "cinit list"

text \<open>The bytes of an integer of a given size in memory.\<close>

definition int_bytes :: "nat \<Rightarrow> int \<Rightarrow> byte list" where
  "int_bytes n i = le_bytes n (nat (i mod 2 ^ (8 * n)))"

text \<open>The offset of member number \<open>i\<close>, and its type; the generated structures have no unions.\<close>

definition member_name :: "cstruct \<Rightarrow> nat \<Rightarrow> string" where
  "member_name st i = fst (hd (st ! i))"

section \<open>Offsets\<close>

text \<open>
  The offset of the data of field \<open>i\<close> from the start of the structure, accumulated as the
  iterator does.
\<close>

primrec field_off :: "pb_field list \<Rightarrow> nat \<Rightarrow> addr" where
  "field_off flds 0 = ucast (pf_data_offset (field_at flds 0))"
| "field_off flds (Suc i) =
     (let prev = field_at flds i; f = field_at flds (Suc i) in
      if PB_HTYPE (pf_type prev) = PB_HTYPE_ONEOF \<and> PB_HTYPE (pf_type f) = PB_HTYPE_ONEOF \<and>
         pf_data_offset f = PB_SIZE_MAX
      then field_off flds i
      else field_off flds i + it_prev_size prev + ucast (pf_data_offset f))"

lemma iter_at_pData:
  "i < nfields flds \<Longrightarrow> it_pData (iter_at flds dest i) = dest + field_off flds i"
proof (induction i)
  case 0
  show ?case by (simp add: iter_at.simps(1) pb_field_iter_begin_def Let_def)
next
  case (Suc i)
  then have IH: "it_pData (iter_at flds dest i) = dest + field_off flds i" and i: "i < nfields flds"
    by simp_all
  have tags: "pf_tag (field_at flds i) \<noteq> 0" "pf_tag (field_at flds (Suc i)) \<noteq> 0"
    using Suc.prems i by (simp_all add: field_at_tag_nonzero)
  have "it_pos (iter_at flds dest i) = i" using i by (rule iter_at_pos)
  then show ?case
    using IH tags
    by (auto simp: iter_at.simps(2) pb_field_iter_next_def it_field_def Let_def algebra_simps)
qed

text \<open>Except for the later members of a union, the size member is found from the data member.\<close>

lemma iter_at_pSize:
  assumes "i < nfields flds" "pf_data_offset (field_at flds i) \<noteq> PB_SIZE_MAX"
  shows "it_pSize (iter_at flds dest i) =
    dest + field_off flds i + scast (pf_size_offset (field_at flds i))"
proof (cases i)
  case 0
  then show ?thesis by (simp add: iter_at.simps(1) pb_field_iter_begin_def Let_def)
next
  case (Suc j)
  have tags: "pf_tag (field_at flds j) \<noteq> 0" "pf_tag (field_at flds (Suc j)) \<noteq> 0"
    using assms(1) Suc by (simp_all add: field_at_tag_nonzero)
  have "it_pos (iter_at flds dest j) = j" "it_pData (iter_at flds dest j) = dest + field_off flds j"
    using assms(1) Suc by (auto intro: iter_at_pos iter_at_pData)
  then show ?thesis
    using tags assms(2) Suc
    by (simp add: iter_at.simps(2) pb_field_iter_next_def it_field_def Let_def algebra_simps)
qed

text \<open>The same for the size member, which a union shares.\<close>

primrec field_soff :: "pb_field list \<Rightarrow> nat \<Rightarrow> addr" where
  "field_soff flds 0 = field_off flds 0 + scast (pf_size_offset (field_at flds 0))"
| "field_soff flds (Suc i) =
     (let prev = field_at flds i; f = field_at flds (Suc i) in
      if PB_HTYPE (pf_type prev) = PB_HTYPE_ONEOF \<and> PB_HTYPE (pf_type f) = PB_HTYPE_ONEOF \<and>
         pf_data_offset f = PB_SIZE_MAX
      then field_soff flds i
      else field_off flds (Suc i) + scast (pf_size_offset f))"

lemma iter_at_pSize_soff:
  "i < nfields flds \<Longrightarrow> it_pSize (iter_at flds dest i) = dest + field_soff flds i"
proof (induction i)
  case 0
  show ?case by (simp add: iter_at.simps(1) pb_field_iter_begin_def Let_def)
next
  case (Suc i)
  then have IH: "it_pSize (iter_at flds dest i) = dest + field_soff flds i" and i: "i < nfields flds"
    by simp_all
  have tags: "pf_tag (field_at flds i) \<noteq> 0" "pf_tag (field_at flds (Suc i)) \<noteq> 0"
    using Suc.prems i by (simp_all add: field_at_tag_nonzero)
  have "it_pos (iter_at flds dest i) = i" "it_pData (iter_at flds dest i) = dest + field_off flds i"
    using i by (auto intro: iter_at_pos iter_at_pData)
  then show ?case
    using IH tags
    by (auto simp: iter_at.simps(2) pb_field_iter_next_def it_field_def Let_def algebra_simps)
qed

end
