(* ===== verification/Pb_Decode_Fits.thy ===== *)
theory Pb_Decode_Fits
  imports Pb_Frame Pb_Init
begin

text \<open>
  Descriptor tables that fit their structures, and the memory that setting default values and
  releasing a message may change: only the structure itself and the heap.
\<close>

section \<open>Tables that fit\<close>

text \<open>
  \<open>ssz\<close> gives the size of the structure a table describes, \<open>rk\<close> ranks the tables by nesting, \<open>ptrs\<close> tells
  which structures hold pointer fields, directly or in nested structures. A field fits if its data, its size member and, for
  a submessage, the structure of the submessage lie inside the structure. Pointers are followed to
  depth one: what a pointer field points to holds no further pointers. Callback and extension fields are excluded.
\<close>

definition kind_fits :: "pb_field \<Rightarrow> bool \<Rightarrow> bool" where
  "kind_fits f ptr \<longleftrightarrow>
     (PB_ATYPE (pf_type f) = PB_ATYPE_STATIC \<or> PB_ATYPE (pf_type f) = PB_ATYPE_POINTER \<and> ptr)
     \<and> PB_LTYPE (pf_type f) \<in> {PB_LTYPE_BOOL, PB_LTYPE_VARINT, PB_LTYPE_UVARINT, PB_LTYPE_SVARINT,
          PB_LTYPE_FIXED32, PB_LTYPE_FIXED64, PB_LTYPE_BYTES, PB_LTYPE_STRING, PB_LTYPE_SUBMESSAGE,
          PB_LTYPE_FIXED_LENGTH_BYTES}"

definition item_fits :: "pb_field \<Rightarrow> bool" where
  "item_fits f \<longleftrightarrow> (PB_LTYPE (pf_type f) = PB_LTYPE_BOOL \<longrightarrow> 1 \<le> unat (pf_data_size f))
     \<and> (PB_LTYPE (pf_type f) = PB_LTYPE_FIXED32 \<longrightarrow> 4 \<le> unat (pf_data_size f))
     \<and> (PB_LTYPE (pf_type f) = PB_LTYPE_FIXED64 \<longrightarrow> 8 \<le> unat (pf_data_size f))"

definition item_count :: "pb_field \<Rightarrow> nat" where
  "item_count f = (if PB_HTYPE (pf_type f) = PB_HTYPE_REPEATED then unat (pf_array_size f) else 1)"

definition data_fits :: "pb_field \<Rightarrow> nat \<Rightarrow> nat \<Rightarrow> bool" where
  "data_fits f off tsize \<longleftrightarrow>
     off + (if PB_ATYPE (pf_type f) = PB_ATYPE_POINTER then 8 else unat (pf_data_size f) * item_count f) \<le> tsize"

definition size_fits :: "pb_field \<Rightarrow> nat \<Rightarrow> nat \<Rightarrow> nat \<Rightarrow> bool" where
  "size_fits f off soff tsize \<longleftrightarrow>
     (PB_HTYPE (pf_type f) = PB_HTYPE_OPTIONAL \<and> PB_ATYPE (pf_type f) = PB_ATYPE_STATIC \<and> soff \<noteq> off \<longrightarrow> soff + 1 \<le> tsize)
     \<and> (PB_HTYPE (pf_type f) = PB_HTYPE_REPEATED \<or> PB_HTYPE (pf_type f) = PB_HTYPE_ONEOF \<longrightarrow> soff + 4 \<le> tsize)"

definition array_fits :: "pb_field \<Rightarrow> nat \<Rightarrow> nat \<Rightarrow> bool" where
  "array_fits f off soff \<longleftrightarrow>
     (PB_HTYPE (pf_type f) = PB_HTYPE_REPEATED \<and> PB_ATYPE (pf_type f) = PB_ATYPE_STATIC \<longrightarrow>
        unat (pf_data_size f) * unat (pf_array_size f) < 2 ^ 32)
     \<and> (PB_HTYPE (pf_type f) = PB_HTYPE_REPEATED \<and> PB_ATYPE (pf_type f) = PB_ATYPE_POINTER \<longrightarrow>
        pf_data_size f \<noteq> 0 \<and> PB_LTYPE (pf_type f) \<noteq> PB_LTYPE_STRING \<and> PB_LTYPE (pf_type f) \<noteq> PB_LTYPE_BYTES
        \<and> (off + 8 \<le> soff \<or> soff + 4 \<le> off))"

definition sub_fits ::
  "(addr \<Rightarrow> pb_field list) \<Rightarrow> pb_field list set \<Rightarrow> (pb_field list \<Rightarrow> nat) \<Rightarrow> (pb_field list \<Rightarrow> nat)
     \<Rightarrow> (pb_field list \<Rightarrow> bool) \<Rightarrow> pb_field list \<Rightarrow> pb_field \<Rightarrow> bool" where
  "sub_fits tables T ssz rk ptrs flds f \<longleftrightarrow> (PB_LTYPE (pf_type f) = PB_LTYPE_SUBMESSAGE \<longrightarrow>
     pf_ptr f \<noteq> 0 \<and> tables (pf_ptr f) \<in> T \<and> rk (tables (pf_ptr f)) < rk flds
     \<and> ssz (tables (pf_ptr f)) \<le> unat (pf_data_size f)
     \<and> (ptrs (tables (pf_ptr f)) \<longrightarrow> PB_ATYPE (pf_type f) = PB_ATYPE_STATIC \<and> ptrs flds))"

definition field_fits ::
  "(addr \<Rightarrow> pb_field list) \<Rightarrow> pb_field list set \<Rightarrow> (pb_field list \<Rightarrow> nat) \<Rightarrow> (pb_field list \<Rightarrow> nat)
     \<Rightarrow> (pb_field list \<Rightarrow> bool) \<Rightarrow> pb_field list \<Rightarrow> nat \<Rightarrow> bool" where
  "field_fits tables T ssz rk ptrs flds i \<longleftrightarrow>
     (let f = field_at flds i; off = unat (field_off flds i); soff = unat (field_soff flds i)
      in kind_fits f (ptrs flds) \<and> item_fits f \<and> data_fits f off (ssz flds) \<and> size_fits f off soff (ssz flds)
         \<and> array_fits f off soff \<and> sub_fits tables T ssz rk ptrs flds f)"

locale decode_tables =
  fixes tables :: "addr \<Rightarrow> pb_field list" and T :: "pb_field list set" and ssz :: "pb_field list \<Rightarrow> nat"
    and rk :: "pb_field list \<Rightarrow> nat" and ptrs :: "pb_field list \<Rightarrow> bool"
  assumes fits: "\<lbrakk>flds \<in> T; i < nfields flds\<rbrakk> \<Longrightarrow> field_fits tables T ssz rk ptrs flds i"
    and nonempty: "flds \<in> T \<Longrightarrow> 0 < nfields flds"
    and small: "flds \<in> T \<Longrightarrow> ssz flds < 2 ^ 63"

text \<open>
  What the decoder relies on of \<open>realloc\<close> and \<open>free\<close>: they change memory only in the heap \<open>H\<close>, and a block
  that \<open>realloc\<close> returns lies in the heap with all the bytes that were asked for.
\<close>

definition allocator_ok :: "('s, 'h) dec_env \<Rightarrow> addr set \<Rightarrow> bool" where
  "allocator_ok env H \<longleftrightarrow>
     (\<forall>d p n. frame H (ds_mem d) (ds_mem (snd (de_realloc env d p n)))
        \<and> (fst (de_realloc env d p n) \<noteq> 0 \<longrightarrow> range_of (fst (de_realloc env d p n)) (unat n) \<subseteq> H))
     \<and> (\<forall>d p. frame H (ds_mem d) (ds_mem (de_free env d p)))"

lemma allocator_okD:
  assumes "allocator_ok env H"
  shows "de_realloc env d p n = (q, d') \<Longrightarrow> frame H (ds_mem d) (ds_mem d')"
    "de_realloc env d p n = (q, d') \<Longrightarrow> q \<noteq> 0 \<Longrightarrow> range_of q (unat n) \<subseteq> H"
    "frame H (ds_mem d) (ds_mem (de_free env d p))"
  using assms unfolding allocator_ok_def by (metis fst_conv snd_conv)+

context decode_tables
begin

lemma fitsD:
  assumes "flds \<in> T" "i < nfields flds"
  shows "kind_fits (field_at flds i) (ptrs flds)" "item_fits (field_at flds i)"
    "data_fits (field_at flds i) (unat (field_off flds i)) (ssz flds)"
    "size_fits (field_at flds i) (unat (field_off flds i)) (unat (field_soff flds i)) (ssz flds)"
    "array_fits (field_at flds i) (unat (field_off flds i)) (unat (field_soff flds i))"
    "sub_fits tables T ssz rk ptrs flds (field_at flds i)"
  using fits [OF assms] by (simp_all add: field_fits_def Let_def)

text \<open>The part of the structure that a field may use.\<close>

lemma field_ranges:
  fixes dest :: addr
  assumes "flds \<in> T" "i < nfields flds"
  defines "f \<equiv> field_at flds i" and "it \<equiv> iter_at flds dest i"
  shows "PB_ATYPE (pf_type f) = PB_ATYPE_STATIC \<Longrightarrow>
      range_of (it_pData it) (unat (pf_data_size f) * item_count f) \<subseteq> range_of dest (ssz flds)"
    "PB_ATYPE (pf_type f) = PB_ATYPE_POINTER \<Longrightarrow> range_of (it_pData it) 8 \<subseteq> range_of dest (ssz flds)"
    "PB_HTYPE (pf_type f) = PB_HTYPE_OPTIONAL \<Longrightarrow> PB_ATYPE (pf_type f) = PB_ATYPE_STATIC \<Longrightarrow>
       it_pSize it \<noteq> it_pData it \<Longrightarrow> range_of (it_pSize it) 1 \<subseteq> range_of dest (ssz flds)"
    "PB_HTYPE (pf_type f) = PB_HTYPE_REPEATED \<or> PB_HTYPE (pf_type f) = PB_HTYPE_ONEOF \<Longrightarrow>
       range_of (it_pSize it) 4 \<subseteq> range_of dest (ssz flds)"
    "PB_HTYPE (pf_type f) = PB_HTYPE_REPEATED \<Longrightarrow> PB_ATYPE (pf_type f) = PB_ATYPE_POINTER \<Longrightarrow>
       range_of (it_pSize it) 4 \<inter> range_of (it_pData it) 8 = {}"
proof -
  note ff = fitsD [OF assms(1,2), folded f_def]
  have pd: "it_pData it = dest + of_nat (unat (field_off flds i))"
    and ps: "it_pSize it = dest + of_nat (unat (field_soff flds i))"
    using assms(2) by (simp_all add: it_def iter_at_pData iter_at_pSize_soff)
  have sz: "ssz flds < 2 ^ 63" using assms(1) by (rule small)
  show "range_of (it_pData it) (unat (pf_data_size f) * item_count f) \<subseteq> range_of dest (ssz flds)"
    if "PB_ATYPE (pf_type f) = PB_ATYPE_STATIC"
    unfolding pd using ff(3) that by (intro range_of_sub) (simp add: data_fits_def pb_consts)
  show p8: "range_of (it_pData it) 8 \<subseteq> range_of dest (ssz flds)" if "PB_ATYPE (pf_type f) = PB_ATYPE_POINTER"
    unfolding pd using ff(3) that by (intro range_of_sub) (simp add: data_fits_def)
  show "range_of (it_pSize it) 1 \<subseteq> range_of dest (ssz flds)"
    if "PB_HTYPE (pf_type f) = PB_HTYPE_OPTIONAL" "PB_ATYPE (pf_type f) = PB_ATYPE_STATIC" "it_pSize it \<noteq> it_pData it"
  proof -
    have "unat (field_soff flds i) \<noteq> unat (field_off flds i)" using that(3) unfolding pd ps by metis
    then show ?thesis unfolding ps using ff(4) that by (intro range_of_sub) (simp add: size_fits_def)
  qed
  show "range_of (it_pSize it) 4 \<subseteq> range_of dest (ssz flds)"
    if "PB_HTYPE (pf_type f) = PB_HTYPE_REPEATED \<or> PB_HTYPE (pf_type f) = PB_HTYPE_ONEOF"
    unfolding ps using ff(4) that by (intro range_of_sub) (auto simp: size_fits_def)
  show "range_of (it_pSize it) 4 \<inter> range_of (it_pData it) 8 = {}"
    if h: "PB_HTYPE (pf_type f) = PB_HTYPE_REPEATED" "PB_ATYPE (pf_type f) = PB_ATYPE_POINTER"
  proof -
    have "unat (field_off flds i) + 8 \<le> ssz flds" "unat (field_soff flds i) + 4 \<le> ssz flds"
      using ff(3,4) h by (simp_all add: data_fits_def size_fits_def)
    moreover have "unat (field_soff flds i) + 4 \<le> unat (field_off flds i)
        \<or> unat (field_off flds i) + 8 \<le> unat (field_soff flds i)"
      using ff(5) h by (auto simp: array_fits_def)
    ultimately show ?thesis unfolding pd ps using sz by (intro range_of_disjoint) simp_all
  qed
qed

lemma fits_submessage:
  assumes "flds \<in> T" "i < nfields flds" "PB_LTYPE (pf_type (field_at flds i)) = PB_LTYPE_SUBMESSAGE"
  defines "f \<equiv> field_at flds i"
  shows "pf_ptr f \<noteq> 0" "tables (pf_ptr f) \<in> T" "rk (tables (pf_ptr f)) < rk flds"
    "ssz (tables (pf_ptr f)) \<le> unat (pf_data_size f)"
    "ptrs (tables (pf_ptr f)) \<Longrightarrow> PB_ATYPE (pf_type f) = PB_ATYPE_STATIC \<and> ptrs flds"
  using fitsD(6) [OF assms(1,2)] assms(3) by (simp_all add: f_def sub_fits_def)

lemma fits_atype:
  assumes "flds \<in> T" "i < nfields flds" "PB_ATYPE (pf_type (field_at flds i)) \<noteq> PB_ATYPE_STATIC"
  shows "PB_ATYPE (pf_type (field_at flds i)) = PB_ATYPE_POINTER" "ptrs flds"
  using fitsD(1) [OF assms(1,2)] assms(3) by (simp_all add: kind_fits_def)

lemma fits_not_extension:
  assumes "flds \<in> T" "i < nfields flds"
  shows "PB_LTYPE (pf_type (field_at flds i)) \<noteq> PB_LTYPE_EXTENSION"
  using fitsD(1) [OF assms] by (auto simp: kind_fits_def pb_consts)

end

text \<open>A walk over the fields whose every step is related by a preorder.\<close>

lemma iter_loop_rel:
  assumes "0 < nfields flds" "reflp R" "transp R"
    and "\<And>i s. i < nfields flds \<Longrightarrow> \<exists>s'. body s (iter_at flds dest i) = Some (True, s') \<and> R s s'"
  shows "\<exists>s'. iter_loop body (iter_at flds dest 0) s = Some (True, s') \<and> R s s'"
proof -
  have "\<exists>s'. oseq (map (\<lambda>j s. body s (iter_at flds dest j)) xs) s = Some (True, s') \<and> R s s'"
    if "set xs \<subseteq> {..<nfields flds}" for xs
    using that
  proof (induction xs arbitrary: s)
    case Nil
    then show ?case using assms(2) by (simp add: reflp_def)
  next
    case (Cons x xs)
    then obtain s1 where s1: "body s (iter_at flds dest x) = Some (True, s1)" "R s s1"
      using assms(4) [of x s] by auto
    from Cons obtain s2 where "oseq (map (\<lambda>j s. body s (iter_at flds dest j)) xs) s1 = Some (True, s2)" "R s1 s2"
      by auto
    with s1 assms(3) show ?case by (auto dest: transpD)
  qed
  then show ?thesis unfolding iter_loop_iter_at [OF assms(1)] by (simp add: subset_iff)
qed

lemma reflp_frame: "reflp (frame A)" "transp (frame A)"
  by (auto intro: reflpI transpI frame_trans)

context decode_tables
begin

section \<open>Default values\<close>

lemma field_set_to_default_frame:
  assumes T: "flds \<in> T" "i < nfields flds" and env: "de_fields env = tables"
    and sub: "\<And>sub q m. \<lbrakk>sub \<in> T; rk sub < rk flds\<rbrakk> \<Longrightarrow>
      \<exists>m'. dflt sub q m = Some m' \<and> frame (range_of q (ssz sub)) m m'"
  shows "\<exists>m'. field_set_to_default n env dflt fdflt (iter_at flds dest i) m = Some m'
    \<and> frame (range_of dest (ssz flds)) m m'"
proof -
  let ?f = "field_at flds i" and ?it = "iter_at flds dest i" and ?R = "range_of dest (ssz flds)"
  let ?ty = "pf_type ?f"
  note fr = field_ranges [OF T, of dest]
  note ne = fits_not_extension [OF T]
  define m1 where "m1 = (if PB_HTYPE ?ty = PB_HTYPE_OPTIONAL \<and> it_pSize ?it \<noteq> it_pData ?it then store_u8 m (it_pSize ?it) 0
    else if PB_HTYPE ?ty = PB_HTYPE_REPEATED \<or> PB_HTYPE ?ty = PB_HTYPE_ONEOF then store_u32 m (it_pSize ?it) 0 else m)"
  show ?thesis
  proof (cases "PB_ATYPE ?ty = PB_ATYPE_STATIC")
    case True
    have m1: "frame ?R m m1" using fr(3) [OF _ True] fr(4) by (auto simp: m1_def simp del: One_nat_def intro: frame_stores)
    have data: "range_of (it_pData ?it) (unat (pf_data_size ?f)) \<subseteq> ?R"
      if "PB_HTYPE ?ty \<noteq> PB_HTYPE_REPEATED" using fr(1) [OF True] that by (simp add: item_count_def)
    consider (size) "PB_HTYPE ?ty = PB_HTYPE_REPEATED \<or> PB_HTYPE ?ty = PB_HTYPE_ONEOF"
      | (msg) "\<not> (PB_HTYPE ?ty = PB_HTYPE_REPEATED \<or> PB_HTYPE ?ty = PB_HTYPE_ONEOF)" "PB_LTYPE ?ty = PB_LTYPE_SUBMESSAGE"
      | (data) "\<not> (PB_HTYPE ?ty = PB_HTYPE_REPEATED \<or> PB_HTYPE ?ty = PB_HTYPE_ONEOF)" "PB_LTYPE ?ty \<noteq> PB_LTYPE_SUBMESSAGE"
      by blast
    then show ?thesis
    proof cases
      case size
      then show ?thesis using m1 True ne
        by (simp add: field_set_to_default_def iter_at_field T(2) Let_def m1_def [symmetric])
    next
      case msg
      note fs = fits_submessage [OF T msg(2)]
      from sub [OF fs(2,3), of "it_pData ?it" m1] obtain m' where
        m': "dflt (tables (pf_ptr ?f)) (it_pData ?it) m1 = Some m'"
          "frame (range_of (it_pData ?it) (ssz (tables (pf_ptr ?f)))) m1 m'" by blast
      have "frame ?R m1 m'"
        using m'(2) data msg(1) range_of_mono [OF fs(4), of "it_pData ?it"] by (elim frame_mono) auto
      with m1 m'(1) msg True ne show ?thesis
        by (auto simp: field_set_to_default_def iter_at_field T(2) Let_def m1_def [symmetric] env intro: frame_trans)
    next
      case data
      then have r: "range_of (it_pData ?it) (unat (pf_data_size ?f)) \<subseteq> ?R" using \<open>PB_HTYPE ?ty \<noteq> PB_HTYPE_REPEATED \<Longrightarrow> _\<close> by blast
      have "frame ?R m (mem_copy m1 (it_pData ?it) p (unat (pf_data_size ?f)))"
        "frame ?R m (mem_set m1 (it_pData ?it) 0 (unat (pf_data_size ?f)))" for p
        using frame_trans [OF m1] r by (auto intro: frame_stores)
      then show ?thesis using data True ne
        by (auto simp: field_set_to_default_def iter_at_field T(2) Let_def m1_def [symmetric])
    qed
  next
    case False
    note at = fits_atype [OF T False]
    have "frame ?R m (store_u64 m (it_pData ?it) 0)" using fr(2) [OF at(1)] by (rule frame_store_u64)
    moreover have "PB_HTYPE ?ty = PB_HTYPE_REPEATED \<or> PB_HTYPE ?ty = PB_HTYPE_ONEOF \<Longrightarrow>
        frame ?R m (store_u32 (store_u64 m (it_pData ?it) 0) (it_pSize ?it) 0)"
      using fr(4) frame_trans [OF calculation] by (auto intro: frame_stores)
    ultimately show ?thesis using False at(1) ne
      by (auto simp: field_set_to_default_def iter_at_field T(2) Let_def)
  qed
qed

lemma set_to_defaults_frame:
  assumes env: "de_fields env = tables"
  shows "\<lbrakk>flds \<in> T; i < nfields flds; 2 * rk flds + 1 \<le> n\<rbrakk> \<Longrightarrow>
      \<exists>m'. pb_field_set_to_default n env (iter_at flds dest i) m = Some m' \<and> frame (range_of dest (ssz flds)) m m'"
    and "\<lbrakk>flds \<in> T; 2 * rk flds + 2 \<le> n\<rbrakk> \<Longrightarrow>
      \<exists>m'. pb_message_set_to_defaults n env flds dest m = Some m' \<and> frame (range_of dest (ssz flds)) m m'"
proof (induction n arbitrary: flds i dest m)
  case (Suc n)
  {
    case 1
    show ?case unfolding pb_field_set_to_default.simps
      using 1 by (intro field_set_to_default_frame env Suc.IH(2)) auto
  next
    case 2
    have "\<exists>m'. iter_loop (\<lambda>m it. map_option (Pair True) (pb_field_set_to_default n env it m)) (iter_at flds dest 0) m
        = Some (True, m') \<and> frame (range_of dest (ssz flds)) m m'"
    proof (rule iter_loop_rel [OF nonempty [OF 2(1)] reflp_frame])
      fix i s assume "i < nfields flds"
      with Suc.IH(1) [OF 2(1) this, of dest s] 2(2)
      show "\<exists>s'. map_option (Pair True) (pb_field_set_to_default n env (iter_at flds dest i) s) = Some (True, s')
        \<and> frame (range_of dest (ssz flds)) s s'" by auto
    qed
    then show ?case
      using nonempty [OF 2(1)] by (auto simp: pb_field_iter_begin_eq simp del: iter_at.simps)
  }
qed simp_all

end

section \<open>Release\<close>

lemma release_items_rel:
  assumes "reflp R" "transp R"
    and "\<And>k d. k < count \<Longrightarrow> \<exists>d'. rel (p + of_nat k * ds) d = Some d' \<and> R d d'"
  shows "\<exists>d'. release_items rel ds count p d = Some d' \<and> R d d'"
  using assms(3)
proof (induction count arbitrary: p d)
  case 0
  then show ?case using assms(1) by (simp add: reflp_def)
next
  case (Suc count)
  from Suc.prems [of 0 d] obtain d1 where d1: "rel p d = Some d1" "R d d1" by auto
  have "\<exists>d'. rel (p + ds + of_nat k * ds) d = Some d' \<and> R d d'" if "k < count" for k d
    using Suc.prems [of "Suc k" d] that by (simp add: algebra_simps)
  from Suc.IH [OF this] obtain d2 where "release_items rel ds count (p + ds) d1 = Some d2" "R d1 d2" by blast
  with d1 assms(2) show ?case by (auto dest: transpD)
qed

text \<open>Frames of states.\<close>

definition dframe :: "addr set \<Rightarrow> 'h dst \<Rightarrow> 'h dst \<Rightarrow> bool" where
  "dframe A d d' \<longleftrightarrow> frame A (ds_mem d) (ds_mem d')"

lemma reflp_dframe: "reflp (dframe A)" "transp (dframe A)"
  by (auto simp: dframe_def intro!: reflpI transpI intro: frame_trans)

lemma dframe_refl [simp, intro]: "dframe A d d"
  by (simp add: dframe_def)

lemma dframe_trans: "dframe A d d' \<Longrightarrow> dframe A d' d'' \<Longrightarrow> dframe A d d''"
  unfolding dframe_def by (rule frame_trans)

lemma dframe_mono: "dframe A d d' \<Longrightarrow> A \<subseteq> B \<Longrightarrow> dframe B d d'"
  unfolding dframe_def by (rule frame_mono)

lemma dframe_upd: "frame A (ds_mem d) (f (ds_mem d)) \<Longrightarrow> dframe A d (upd_mem f d)"
  by (simp add: dframe_def upd_mem_def)

lemma dframe_free: "allocator_ok env H \<Longrightarrow> H \<subseteq> A \<Longrightarrow> dframe A d (de_free env d p)"
  unfolding dframe_def by (blast intro: frame_mono allocator_okD(3))

context decode_tables
begin

definition release_region :: "addr set \<Rightarrow> pb_field list \<Rightarrow> addr \<Rightarrow> addr set" where
  "release_region H flds dest = (if ptrs flds then range_of dest (ssz flds) \<union> H else {})"

lemma release_pointer_frame:
  assumes T: "flds \<in> T" "i < nfields flds" and al: "allocator_ok env H"
  shows "dframe (release_region H flds dest) d (release_pointer env (iter_at flds dest i) d)"
proof (cases "PB_ATYPE (pf_type (field_at flds i)) = PB_ATYPE_POINTER")
  case False
  then show ?thesis by (simp add: release_pointer_def iter_at_field T(2) Let_def)
next
  case True
  let ?f = "field_at flds i" and ?it = "iter_at flds dest i"
  note fr = field_ranges [OF T, of dest]
  have "ptrs flds" using fits_atype [OF T] True by (simp add: pb_consts)
  then have reg: "release_region H flds dest = range_of dest (ssz flds) \<union> H" by (simp add: release_region_def)
  have nstr: "\<not> (PB_HTYPE (pf_type ?f) = PB_HTYPE_REPEATED \<and>
      (PB_LTYPE (pf_type ?f) = PB_LTYPE_STRING \<or> PB_LTYPE (pf_type ?f) = PB_LTYPE_BYTES))"
    using fitsD(5) [OF T] True by (auto simp: array_fits_def)
  define d1 where "d1 = (if PB_HTYPE (pf_type ?f) = PB_HTYPE_REPEATED
    then upd_mem (\<lambda>m. store_u32 m (it_pSize ?it) 0) d else d)"
  have d1: "dframe (release_region H flds dest) d d1"
    unfolding d1_def reg using fr(4) by (auto intro!: dframe_upd frame_stores)
  have d2: "dframe (release_region H flds dest) d1 (de_free env d1 (load_ptr (ds_mem d1) (it_pData ?it)))"
    using al by (rule dframe_free) (simp add: reg)
  have d3: "dframe (release_region H flds dest) d' (upd_mem (\<lambda>m. store_ptr m (it_pData ?it) 0) d')" for d' :: "'h dst"
    unfolding reg using fr(2) [OF True] by (intro dframe_upd frame_stores) auto
  have "release_pointer env ?it d =
      upd_mem (\<lambda>m. store_ptr m (it_pData ?it) 0) (de_free env d1 (load_ptr (ds_mem d1) (it_pData ?it)))"
    using True nstr by (simp add: release_pointer_def iter_at_field T(2) Let_def d1_def)
  then show ?thesis using dframe_trans [OF dframe_trans [OF d1 d2] d3] by simp
qed

lemma array_item_range:
  assumes "k < n"
  shows "range_of (p + of_nat k * ucast (ds :: 32 word)) (unat ds) \<subseteq> range_of p (unat ds * n)"
proof -
  have "(of_nat k * ucast ds :: addr) = of_nat (k * unat ds)" by simp
  moreover have "k * unat ds + unat ds \<le> unat ds * n"
  proof -
    have "k * unat ds + unat ds = unat ds * Suc k" by simp
    also have "\<dots> \<le> unat ds * n" using assms by (intro mult_le_mono2) simp
    finally show ?thesis .
  qed
  ultimately show ?thesis using range_of_sub [of "k * unat ds" "unat ds" "unat ds * n" p] by simp
qed

lemma release_single_field_frame:
  assumes T: "flds \<in> T" "i < nfields flds" and env: "de_fields env = tables" and al: "allocator_ok env H"
    and sub: "\<And>sub q d. \<lbrakk>sub \<in> T; rk sub < rk flds\<rbrakk> \<Longrightarrow>
      \<exists>d'. rel sub q d = Some d' \<and> dframe (release_region H sub q) d d'"
  shows "\<exists>d'. release_single_field n env rel frel (iter_at flds dest i) d = Some d'
    \<and> dframe (release_region H flds dest) d d'"
proof -
  let ?f = "field_at flds i" and ?it = "iter_at flds dest i" and ?A = "release_region H flds dest"
  let ?ty = "pf_type ?f"
  have "\<exists>d'. release_items (rel (tables (pf_ptr ?f))) (ucast (pf_data_size ?f))
      (unat (release_count ?it (ds_mem d)))
      (if PB_ATYPE ?ty = PB_ATYPE_POINTER then load_ptr (ds_mem d) (it_pData ?it) else it_pData ?it) d = Some d'
    \<and> dframe ?A d d'" if sm: "PB_LTYPE ?ty = PB_LTYPE_SUBMESSAGE"
  proof (rule release_items_rel [OF reflp_dframe])
    let ?p = "if PB_ATYPE ?ty = PB_ATYPE_POINTER then load_ptr (ds_mem d) (it_pData ?it) else it_pData ?it"
    let ?sub = "tables (pf_ptr ?f)"
    note fs = fits_submessage [OF T sm]
    fix k d' assume k: "k < unat (release_count ?it (ds_mem d))"
    let ?q = "?p + of_nat k * ucast (pf_data_size ?f)"
    have "release_region H ?sub ?q \<subseteq> ?A"
    proof (cases "ptrs ?sub")
      case True
      with fs(5) have st: "PB_ATYPE ?ty = PB_ATYPE_STATIC" "ptrs flds" by simp_all
      have "k < item_count ?f"
        using k st(1) by (auto simp: release_count_def iter_at_field T(2) Let_def item_count_def word_less_nat_alt split: if_splits)
      then have "range_of ?q (unat (pf_data_size ?f)) \<subseteq> range_of (it_pData ?it) (unat (pf_data_size ?f) * item_count ?f)"
        using array_item_range [of k "item_count ?f"] st(1) by (simp add: pb_consts)
      also have "\<dots> \<subseteq> range_of dest (ssz flds)" using field_ranges(1) [OF T st(1)] .
      finally have "range_of ?q (ssz ?sub) \<subseteq> range_of dest (ssz flds)"
        using range_of_mono [OF fs(4), of ?q] by blast
      with st(2) show ?thesis by (auto simp: release_region_def)
    qed (simp add: release_region_def)
    with sub [OF fs(2,3), of ?q d'] show "\<exists>d''. rel ?sub ?q d' = Some d'' \<and> dframe ?A d' d''"
      by (auto intro: dframe_mono)
  qed
  note items = this
  define p where "p = (if PB_ATYPE ?ty = PB_ATYPE_POINTER then load_ptr (ds_mem d) (it_pData ?it) else it_pData ?it)"
  have "\<exists>d1. (if PB_LTYPE ?ty = PB_LTYPE_SUBMESSAGE \<and> PB_ATYPE ?ty \<noteq> PB_ATYPE_CALLBACK then
      if p \<noteq> 0 then release_items (rel (tables (pf_ptr ?f))) (ucast (pf_data_size ?f))
           (unat (release_count ?it (ds_mem d))) p d else Some d
      else Some d) = Some d1 \<and> dframe ?A d d1"
    using items [folded p_def] by simp
  then obtain d1 where d1: "(if PB_LTYPE ?ty = PB_LTYPE_SUBMESSAGE \<and> PB_ATYPE ?ty \<noteq> PB_ATYPE_CALLBACK then
      if p \<noteq> 0 then release_items (rel (tables (pf_ptr ?f))) (ucast (pf_data_size ?f))
           (unat (release_count ?it (ds_mem d))) p d else Some d
      else Some d) = Some d1" "dframe ?A d d1" by blast
  have "dframe ?A d (release_pointer env ?it d1)"
    using dframe_trans [OF d1(2) release_pointer_frame [OF T al]] .
  then show ?thesis
    using d1(1) fits_not_extension [OF T]
    by (auto simp: release_single_field_def iter_at_field T(2) env Let_def p_def [symmetric] split: if_splits)
qed

lemma release_frame:
  assumes env: "de_fields env = tables" and al: "allocator_ok env H"
  shows "\<lbrakk>flds \<in> T; i < nfields flds; 2 * rk flds + 1 \<le> n\<rbrakk> \<Longrightarrow>
      \<exists>d'. pb_release_single_field n env (iter_at flds dest i) d = Some d' \<and> dframe (release_region H flds dest) d d'"
    and "\<lbrakk>flds \<in> T; 2 * rk flds + 2 \<le> n\<rbrakk> \<Longrightarrow>
      \<exists>d'. pb_release n env flds dest d = Some d' \<and> dframe (release_region H flds dest) d d'"
proof (induction n arbitrary: flds i dest d)
  case (Suc n)
  {
    case 1
    show ?case unfolding pb_release_single_field.simps
      using 1 by (intro release_single_field_frame env al Suc.IH(2)) auto
  next
    case 2
    have "\<exists>d'. iter_loop (\<lambda>d it. map_option (Pair True) (pb_release_single_field n env it d)) (iter_at flds dest 0) d
        = Some (True, d') \<and> dframe (release_region H flds dest) d d'"
    proof (rule iter_loop_rel [OF nonempty [OF 2(1)] reflp_dframe])
      fix i s assume "i < nfields flds"
      with Suc.IH(1) [OF 2(1) this, of dest s] 2(2)
      show "\<exists>s'. map_option (Pair True) (pb_release_single_field n env (iter_at flds dest i) s) = Some (True, s')
        \<and> dframe (release_region H flds dest) s s'" by auto
    qed
    then show ?case
      using nonempty [OF 2(1)] by (auto simp: pb_field_iter_begin_eq simp del: iter_at.simps)
  }
qed simp_all

end

end
