(* ===== verification/Pb_Decode_Items.thy ===== *)
theory Pb_Decode_Items
  imports Pb_Decode_Fits
begin

text \<open>
  The memory and the part of the stream that the single decoding steps use: allocation, strings, byte
  arrays and substreams. Every step returns, changes memory only inside a region and reads forward.
\<close>

section \<open>Allocation\<close>

text \<open>The overflow check is exact, although it does not divide when both factors are small.\<close>

lemma alloc_too_large_iff:
  assumes "array_size \<noteq> 0"
  shows "alloc_too_large data_size array_size \<longleftrightarrow> 2 ^ 64 \<le> unat data_size * unat array_size"
proof -
  have pos: "0 < unat array_size" using assms by (simp add: unat_gt_0)
  have "(- 1) div array_size < data_size \<longleftrightarrow> (2 ^ 64 - 1) div unat array_size < unat data_size"
    by (simp add: word_less_nat_alt unat_div unsigned_minus_1_eq_mask mask_eq_exp_minus_1)
  also have "\<dots> \<longleftrightarrow> 2 ^ 64 - 1 < unat data_size * unat array_size"
    using pos by (rule div_less_iff_less_mult)
  also have "\<dots> \<longleftrightarrow> 2 ^ 64 \<le> unat data_size * unat array_size" by (simp add: less_eq_Suc_le)
  finally have div: "(- 1) div array_size < data_size \<longleftrightarrow> 2 ^ 64 \<le> unat data_size * unat array_size" .
  have "unat data_size * unat array_size < 2 ^ 64" if "\<not> (2 ^ 32 \<le> data_size \<or> 2 ^ 32 \<le> array_size)"
  proof -
    have "unat data_size < 2 ^ 32" "unat array_size < 2 ^ 32" using that by (simp_all add: word_le_nat_alt)
    then have "unat data_size * unat array_size < 2 ^ 32 * 2 ^ 32" by (intro mult_strict_mono) simp_all
    then show ?thesis by simp
  qed
  then show ?thesis unfolding alloc_too_large_def div by (meson not_less)
qed

lemma unat_alloc_size:
  fixes data_size array_size :: size_t
  assumes "array_size \<noteq> 0" "\<not> alloc_too_large data_size array_size"
  shows "unat (array_size * data_size) = unat data_size * unat array_size"
  using assms by (simp add: alloc_too_large_iff not_le unat_mult_lem [THEN iffD1] mult.commute)

lemma allocate_field_post:
  assumes al: "allocator_ok env H"
    and r: "allocate_field env pData data_size array_size sd = (ok, sd')"
  shows "dstep (H \<union> range_of pData 8) sd sd'"
    and "ok \<Longrightarrow> fst sd' = fst sd"
    and "ok \<Longrightarrow> range_of (load_ptr (ds_mem (snd sd')) pData) (unat data_size * unat array_size) \<subseteq> H"
proof -
  let ?p = "load_ptr (ds_mem (snd sd)) pData"
  obtain q d' where q: "de_realloc env (snd sd) ?p (array_size * data_size) = (q, d')"
    by (cases "de_realloc env (snd sd) ?p (array_size * data_size)")
  note alD = allocator_okD(1,2) [OF al q]
  have 1: "frame (H \<union> range_of pData 8) (ds_mem (snd sd)) (ds_mem d')"
    using alD(1) by (rule frame_mono) simp
  have 2: "frame (H \<union> range_of pData 8) (ds_mem (snd sd)) (store_u64 (ds_mem d') pData q)"
    using frame_trans [OF 1] by (auto intro: frame_stores)
  have err: "dstep (H \<union> range_of pData 8) sd sd'" if "(False, sd') = dec_error (fst sd, d) msg"
    "frame (H \<union> range_of pData 8) (ds_mem (snd sd)) (ds_mem d)" for msg d
    using that by (simp add: dec_error_def dstep_def)
  show "dstep (H \<union> range_of pData 8) sd sd'"
    using r q 1 2 by (auto simp: allocate_field_def Let_def dec_error_def upd_mem_def dstep_def split: if_splits)
  show "fst sd' = fst sd" if ok
    using r q that by (auto simp: allocate_field_def Let_def dec_error_def split: if_splits)
  show "range_of (load_ptr (ds_mem (snd sd')) pData) (unat data_size * unat array_size) \<subseteq> H" if ok
  proof -
    from r q that have "array_size \<noteq> 0" "\<not> alloc_too_large data_size array_size" "q \<noteq> 0"
      "snd sd' = upd_mem (\<lambda>m. store_ptr m pData q) d'"
      by (auto simp: allocate_field_def Let_def dec_error_def split: if_splits)
    then show ?thesis using alD(2) unat_alloc_size [of array_size data_size] by (simp add: upd_mem_def)
  qed
qed

section \<open>Strings and byte arrays\<close>

lemma string_tail_post:
  assumes "reader_bounded (fst sd)" "range_of dest (unat sz + 1) \<subseteq> A"
  shows "dpost A sd (Some (case dec_read dest (ucast (sz :: u32)) sd of (status, sd) \<Rightarrow>
      (status, dec_store (\<lambda>m. store_u8 m (dest + ucast sz) 0) sd)))"
proof -
  have u: "unat (ucast sz :: size_t) = unat sz" by (simp add: unat_ucast_up)
  have "range_of dest (unat sz) \<subseteq> A" using assms(2) range_of_mono [of "unat sz" "unat sz + 1" dest] by auto
  then have "dpost A sd (Some (dec_read dest (ucast sz) sd))" using assms(1) by (intro dec_read_post) (simp_all add: u)
  then obtain ok sd' where sd': "dec_read dest (ucast sz) sd = (ok, sd')" "dstep A sd sd'"
    by (cases "dec_read dest (ucast sz) sd") (simp add: dpost_Some)
  have "range_of (dest + of_nat (unat sz)) 1 \<subseteq> A" using assms(2) range_of_sub [of "unat sz" 1 "unat sz + 1" dest] by auto
  then have "dstep A sd' (dec_store (\<lambda>m. store_u8 m (dest + ucast sz) 0) sd')"
    by (intro dstep_store frame_store_u8) simp
  then show ?thesis using sd' by (auto simp: dpost_Some intro: dstep_trans)
qed

lemma bytes_tail_post:
  assumes "reader_bounded (fst sd)" "range_of dest (unat sz + 4) \<subseteq> A"
  shows "dpost A sd (Some (dec_read (dest + pb_bytes_array_offsetof_bytes) (ucast (sz :: u32))
      (dec_store (\<lambda>m. store_u32 m dest sz) sd)))"
proof -
  have u: "unat (ucast sz :: size_t) = unat sz" by (simp add: unat_ucast_up)
  have "range_of dest 4 \<subseteq> A" using assms(2) range_of_mono [of 4 "unat sz + 4" dest] by auto
  then have st: "dstep A sd (dec_store (\<lambda>m. store_u32 m dest sz) sd)" by (intro dstep_store frame_store_u32)
  have "range_of (dest + of_nat 4) (unat sz) \<subseteq> A" using assms(2) range_of_sub [of 4 "unat sz" "unat sz + 4" dest] by auto
  then have "dpost A (dec_store (\<lambda>m. store_u32 m dest sz) sd)
      (Some (dec_read (dest + pb_bytes_array_offsetof_bytes) (ucast sz) (dec_store (\<lambda>m. store_u32 m dest sz) sd)))"
    using assms(1) dstep_bounded [OF st] by (intro dec_read_post) (simp_all add: u pb_consts)
  with st show ?thesis by (rule dpost_trans)
qed

text \<open>Where a string or byte array goes: into the structure, or into a new block of the heap.\<close>

lemma placed_post:
  assumes al: "PB_ATYPE (pf_type f) = PB_ATYPE_POINTER \<Longrightarrow> allocator_ok env H \<and> H \<union> range_of dest 8 \<subseteq> A"
    and st: "PB_ATYPE (pf_type f) \<noteq> PB_ATYPE_POINTER \<Longrightarrow> range_of dest (unat (pf_data_size f)) \<subseteq> A"
    and bd: "reader_bounded (fst sd)"
    and k: "\<And>p sd'. reader_bounded (fst sd') \<Longrightarrow> range_of p (unat alloc_size) \<subseteq> A \<Longrightarrow> dpost A sd' (Some (k p sd'))"
  shows "dpost A sd (Some (and_then
      (if PB_ATYPE (pf_type f) = PB_ATYPE_POINTER then allocate_field env dest alloc_size 1 sd
       else if ucast (pf_data_size f) < alloc_size then dec_error sd msg else (True, sd))
      (\<lambda>sd. k (if PB_ATYPE (pf_type f) = PB_ATYPE_POINTER then load_ptr (ds_mem (snd sd)) dest else dest) sd)))"
proof (cases "PB_ATYPE (pf_type f) = PB_ATYPE_POINTER")
  case True
  obtain ok sd' where r: "allocate_field env dest alloc_size 1 sd = (ok, sd')"
    by (cases "allocate_field env dest alloc_size 1 sd")
  note af = allocate_field_post [OF conjunct1 [OF al [OF True]] r]
  have step: "dstep A sd sd'" using af(1) al [OF True] by (blast intro: dstep_mono)
  show ?thesis
  proof (cases ok)
    case False
    then show ?thesis using True r step by (simp add: and_then_def dpost_Some)
  next
    case ok: True
    have "range_of (load_ptr (ds_mem (snd sd')) dest) (unat alloc_size) \<subseteq> A" using af(3) [OF ok] al [OF True] by auto
    then have "dpost A sd' (Some (k (load_ptr (ds_mem (snd sd')) dest) sd'))"
      using dstep_bounded [OF step bd] by (intro k)
    then show ?thesis using True r ok dpost_trans [OF step] by (simp add: and_then_def)
  qed
next
  case False
  show ?thesis
  proof (cases "ucast (pf_data_size f) < alloc_size")
    case True
    then show ?thesis using False dpost_error [of A sd sd msg] by (simp add: and_then_def dec_error_def)
  next
    case fit: False
    then have "range_of dest (unat alloc_size) \<subseteq> A"
      using st [OF False] range_of_mono [of "unat alloc_size" "unat (pf_data_size f)" dest]
      by (auto simp: word_less_nat_alt unat_ucast_up)
    then show ?thesis using False fit k [OF bd] by (simp add: and_then_def)
  qed
qed

lemma pb_dec_bytes_post:
  assumes "PB_ATYPE (pf_type f) = PB_ATYPE_POINTER \<Longrightarrow> allocator_ok env H \<and> H \<union> range_of dest 8 \<subseteq> A"
    and "PB_ATYPE (pf_type f) \<noteq> PB_ATYPE_POINTER \<Longrightarrow> range_of dest (unat (pf_data_size f)) \<subseteq> A"
    and "reader_bounded (fst sd)"
  shows "dpost A sd (pb_dec_bytes env f dest sd)"
  unfolding pb_dec_bytes_def
proof (rule dpost1_dpost, rule dec_then_dpost1 [OF pb_decode_varint32_takes])
  fix sz t assume t: "stream_less (fst sd) t"
  have rb: "reader_bounded (fst (t, snd sd))" using stream_le_bounded [OF stream_less_le [OF t] assms(3)] by simp
  have u: "unat (PB_BYTES_ARRAY_T_ALLOCSIZE (ucast (sz :: u32))) = unat sz + 4"
    using unat_lt_32 [of sz] by (simp add: PB_BYTES_ARRAY_T_ALLOCSIZE_def pb_consts unat_word_ariths unat_ucast_up)
  have "dpost A (t, snd sd) (Some (and_then
      (if PB_ATYPE (pf_type f) = PB_ATYPE_POINTER
       then allocate_field env dest (PB_BYTES_ARRAY_T_ALLOCSIZE (ucast sz)) 1 (t, snd sd)
       else if ucast (pf_data_size f) < PB_BYTES_ARRAY_T_ALLOCSIZE (ucast sz) then dec_error (t, snd sd) ''bytes overflow''
       else (True, (t, snd sd)))
      (\<lambda>sd. dec_read ((if PB_ATYPE (pf_type f) = PB_ATYPE_POINTER then load_ptr (ds_mem (snd sd)) dest else dest)
             + pb_bytes_array_offsetof_bytes) (ucast sz)
         (dec_store (\<lambda>m. store_u32 m (if PB_ATYPE (pf_type f) = PB_ATYPE_POINTER then load_ptr (ds_mem (snd sd)) dest
            else dest) sz) sd))))"
    using assms(1,2) rb
    by (intro placed_post [where k = "\<lambda>p sd. dec_read (p + pb_bytes_array_offsetof_bytes) (ucast sz)
         (dec_store (\<lambda>m. store_u32 m p sz) sd)" and H = H] bytes_tail_post) (simp_all add: u)
  then show "dpost A (t, snd sd) (Some (let alloc_size = PB_BYTES_ARRAY_T_ALLOCSIZE (ucast sz) in
        if PB_SIZE_MAX < sz then dec_error (t, snd sd) ''bytes overflow''
        else if alloc_size < ucast sz then dec_error (t, snd sd) ''size too large''
        else
          and_then
            (if PB_ATYPE (pf_type f) = PB_ATYPE_POINTER then allocate_field env dest alloc_size 1 (t, snd sd)
             else if ucast (pf_data_size f) < alloc_size then dec_error (t, snd sd) ''bytes overflow''
             else (True, (t, snd sd)))
            (\<lambda>sd.
               let bdest = (if PB_ATYPE (pf_type f) = PB_ATYPE_POINTER
                            then load_ptr (ds_mem (snd sd)) dest else dest)
               in dec_read (bdest + pb_bytes_array_offsetof_bytes) (ucast sz)
                    (dec_store (\<lambda>m. store_u32 m bdest sz) sd))))"
    by (simp add: Let_def dpost_error)
qed

lemma pb_dec_string_post:
  assumes "PB_ATYPE (pf_type f) = PB_ATYPE_POINTER \<Longrightarrow> allocator_ok env H \<and> H \<union> range_of dest 8 \<subseteq> A"
    and "PB_ATYPE (pf_type f) \<noteq> PB_ATYPE_POINTER \<Longrightarrow> range_of dest (unat (pf_data_size f)) \<subseteq> A"
    and "reader_bounded (fst sd)"
  shows "dpost A sd (pb_dec_string env f dest sd)"
  unfolding pb_dec_string_def
proof (rule dpost1_dpost, rule dec_then_dpost1 [OF pb_decode_varint32_takes])
  fix sz t assume t: "stream_less (fst sd) t"
  have rb: "reader_bounded (fst (t, snd sd))" using stream_le_bounded [OF stream_less_le [OF t] assms(3)] by simp
  let ?a = "ucast (sz + 1 :: u32) :: size_t"
  have "dpost A (t, snd sd) (Some (and_then
      (if PB_ATYPE (pf_type f) = PB_ATYPE_POINTER then allocate_field env dest ?a 1 (t, snd sd)
       else if ucast (pf_data_size f) < ?a then dec_error (t, snd sd) ''string overflow'' else (True, (t, snd sd)))
      (\<lambda>sd. case dec_read (if PB_ATYPE (pf_type f) = PB_ATYPE_POINTER then load_ptr (ds_mem (snd sd)) dest else dest)
           (ucast sz) sd of (status, sd') \<Rightarrow> (status, dec_store (\<lambda>m. store_u8 m
             ((if PB_ATYPE (pf_type f) = PB_ATYPE_POINTER then load_ptr (ds_mem (snd sd)) dest else dest) + ucast sz) 0) sd'))))"
    if "\<not> ?a < ucast sz"
  proof -
    have "unat ?a = unat sz + 1"
    proof (cases "sz = - 1")
      case True
      have "(- 1 :: u32) = 4294967295" by simp
      then have "?a < ucast sz" unfolding True by (simp only:) simp
      then show ?thesis using that by simp
    next
      case False
      then have "unat (sz + 1) = unat sz + 1" by (metis Suc_eq_plus1 add.commute add_eq_0_iff unatSuc)
      then show ?thesis by (simp add: unat_ucast_up)
    qed
    then show ?thesis
      using assms(1,2) rb
      by (intro placed_post [where k = "\<lambda>p sd. case dec_read p (ucast sz) sd of (status, sd') \<Rightarrow>
          (status, dec_store (\<lambda>m. store_u8 m (p + ucast sz) 0) sd')" and H = H] string_tail_post) simp_all
  qed
  then show "dpost A (t, snd sd) (Some (let alloc_size = ?a in
        if alloc_size < ucast sz then dec_error (t, snd sd) ''size too large''
        else
          and_then
            (if PB_ATYPE (pf_type f) = PB_ATYPE_POINTER then allocate_field env dest alloc_size 1 (t, snd sd)
             else if ucast (pf_data_size f) < alloc_size then dec_error (t, snd sd) ''string overflow''
             else (True, (t, snd sd)))
            (\<lambda>sd.
               let dest = (if PB_ATYPE (pf_type f) = PB_ATYPE_POINTER
                           then load_ptr (ds_mem (snd sd)) dest else dest)
               in case dec_read dest (ucast sz) sd of (status, sd) \<Rightarrow>
                    (status, dec_store (\<lambda>m. store_u8 m (dest + ucast sz) 0) sd))))"
    by (simp add: Let_def dpost_error)
qed

lemma pb_dec_fixed_length_bytes_post:
  assumes "range_of dest (unat (pf_data_size f)) \<subseteq> A" "reader_bounded (fst sd)"
  shows "dpost A sd (pb_dec_fixed_length_bytes f dest sd)"
  unfolding pb_dec_fixed_length_bytes_def
proof (rule dpost1_dpost, rule dec_then_dpost1 [OF pb_decode_varint32_takes])
  fix sz t assume t: "stream_less (fst sd) t"
  have rb: "reader_bounded (fst (t, snd sd))" using stream_le_bounded [OF stream_less_le [OF t] assms(2)] by simp
  have "dpost A (t, snd sd) (Some (dec_read dest (ucast (pf_data_size f)) (t, snd sd)))"
    using assms(1) rb by (intro dec_read_post) (simp_all add: unat_ucast_up)
  then show "dpost A (t, snd sd) (Some (if PB_SIZE_MAX < sz then dec_error (t, snd sd) ''bytes overflow''
        else if sz = 0 then (True, dec_store (\<lambda>m. mem_set m dest 0 (unat (pf_data_size f))) (t, snd sd))
        else if sz \<noteq> pf_data_size f then dec_error (t, snd sd) ''incorrect fixed length bytes size''
        else dec_read dest (ucast (pf_data_size f)) (t, snd sd)))"
    using assms(1) by (auto intro!: dpost_error dpost_store frame_stores)
qed

text \<open>A substream is used and closed.\<close>

lemma with_substream_post:
  assumes "\<And>sub. stream_le (fst sd) sub \<Longrightarrow> dpost A (sub, snd sd) (body (sub, snd sd))"
  shows "dpost A sd (with_substream body sd)"
proof -
  obtain v t where r: "pb_make_string_substream (fst sd) = (v, t)" by (cases "pb_make_string_substream (fst sd)")
  note ms = pb_make_string_substream_stream [OF r]
  show ?thesis
  proof (cases v)
    case None
    then show ?thesis using r ms(1) by (simp add: with_substream_def dpost_Some dstep_stream)
  next
    case (Some sub)
    from assms [OF ms(2) [OF Some]] obtain ok sub' d' where
      b: "body (sub, snd sd) = Some (ok, sub', d')" "stream_le sub sub'" "frame A (ds_mem (snd sd)) (ds_mem d')"
      by (auto simp: dpost_def dstep_def)
    obtain w u where c: "pb_close_string_substream t sub' = (w, u)" by (cases "pb_close_string_substream t sub'")
    have "stream_le (fst sd) u"
      using pb_close_string_substream_stream [OF r [unfolded Some] b(2) _ _ _ c] by simp
    then show ?thesis
      using r Some b c by (auto simp: with_substream_def dpost_Some dstep_def split: option.splits)
  qed
qed

end
