(* ===== verification/Pb_Decode_Fields.thy ===== *)
theory Pb_Decode_Fields
  imports Pb_Decode_Items
begin

text \<open>
  Static and pointer fields: whatever the input, decoding a field of a table that fits its structure
  returns, and changes only the structure, the heap and the local variables of the decoder.
\<close>

definition local_vars :: "('s, 'h) dec_env \<Rightarrow> addr set" where
  "local_vars env = (\<Union>n. range_of (de_local env n) 4)"

lemma local_vars_range: "range_of (de_local env n) 4 \<subseteq> local_vars env"
  by (auto simp: local_vars_def)

lemma PB_HTYPE_cases:
  "PB_HTYPE ty \<in> {PB_HTYPE_REQUIRED, PB_HTYPE_OPTIONAL, PB_HTYPE_REPEATED, PB_HTYPE_ONEOF}"
proof -
  have "ty AND 2 ^ k = (if bit ty k then 2 ^ k else 0)" for k
    by (rule bit_word_eqI) (auto simp: bit_simps)
  from this [of 4] this [of 5] have "ty AND 16 \<in> {0, 16}" "ty AND 32 \<in> {0, 32}" by (auto split: if_splits)
  moreover have "ty AND 48 = (ty AND 16) OR (ty AND 32)" by (simp flip: bit.conj_disj_distrib)
  ultimately show ?thesis by (auto simp: pb_type_defs)
qed

context decode_tables
begin

section \<open>The decoders of the field types\<close>

text \<open>The memory a message may change, and when its structure is apart from the heap.\<close>

definition region :: "('s, 'h) dec_env \<Rightarrow> addr set \<Rightarrow> pb_field list \<Rightarrow> addr \<Rightarrow> addr set" where
  "region env H flds dest = range_of dest (ssz flds) \<union> (if ptrs flds then H else {}) \<union> local_vars env"

lemma frame_region: "frame (range_of dest (ssz flds)) m m' \<Longrightarrow> frame (region env H flds dest) m m'"
  by (erule frame_mono) (auto simp: region_def)

lemma dframe_region: "dframe (release_region H flds dest) d d' \<Longrightarrow> dframe (region env H flds dest) d d'"
  by (erule dframe_mono) (auto simp: region_def release_region_def)

definition apart :: "addr set \<Rightarrow> pb_field list \<Rightarrow> addr \<Rightarrow> bool" where
  "apart H flds dest \<longleftrightarrow> (ptrs flds \<longrightarrow> range_of dest (ssz flds) \<inter> H = {})"

definition decodes_below :: "('s, 'h) dec_env \<Rightarrow> addr set \<Rightarrow> nat \<Rightarrow> ('s, 'h) pdec \<Rightarrow> bool" where
  "decodes_below env H r pdec \<longleftrightarrow> (\<forall>sub q sd. sub \<in> T \<longrightarrow> rk sub < r \<longrightarrow> apart H sub q \<longrightarrow>
     reader_bounded (fst sd) \<longrightarrow> dpost (region env H sub q) sd (pdec sub q sd))"

lemma decodes_belowD:
  "\<lbrakk>decodes_below env H r pdec; sub \<in> T; rk sub < r; apart H sub q; reader_bounded (fst sd)\<rbrakk> \<Longrightarrow>
     dpost (region env H sub q) sd (pdec sub q sd)"
  unfolding decodes_below_def by blast

text \<open>
  The decoder of a field's type, at the address \<open>p\<close> of an item: a static item lies in the structure, an
  allocated one in the heap; strings and byte arrays in the heap are allocated by the decoder itself.
\<close>

definition item_place :: "addr set \<Rightarrow> pb_field list \<Rightarrow> addr \<Rightarrow> pb_field \<Rightarrow> addr \<Rightarrow> bool" where
  "item_place H flds dest f p \<longleftrightarrow>
     (if PB_ATYPE (pf_type f) = PB_ATYPE_POINTER then
        (if PB_LTYPE (pf_type f) = PB_LTYPE_STRING \<or> PB_LTYPE (pf_type f) = PB_LTYPE_BYTES
         then range_of p 8 \<subseteq> range_of dest (ssz flds) else range_of p (unat (pf_data_size f)) \<subseteq> H)
      else range_of p (unat (pf_data_size f)) \<subseteq> range_of dest (ssz flds))"

lemma pb_dec_submessage_post:
  assumes T: "flds \<in> T" "i < nfields flds" and env: "de_fields env = tables" and ap: "apart H flds dest"
    and dec: "decodes_below env H (rk flds) pdecode" "decodes_below env H (rk flds) pnoinit"
    and sm: "PB_LTYPE (pf_type (field_at flds i)) = PB_LTYPE_SUBMESSAGE"
    and place: "item_place H flds dest (field_at flds i) p" and bd: "reader_bounded (fst sd)"
  shows "dpost (region env H flds dest) sd (pb_dec_submessage env pdecode pnoinit (field_at flds i) p sd)"
proof -
  let ?f = "field_at flds i" let ?sub = "tables (pf_ptr ?f)"
  note fs = fits_submessage [OF T sm]
  have kinds: "PB_ATYPE (pf_type ?f) \<noteq> PB_ATYPE_STATIC \<Longrightarrow> PB_ATYPE (pf_type ?f) = PB_ATYPE_POINTER \<and> ptrs flds"
    using fits_atype [OF T] by blast
  have rng: "range_of p (unat (pf_data_size ?f)) \<subseteq>
      (if PB_ATYPE (pf_type ?f) = PB_ATYPE_POINTER then H else range_of dest (ssz flds))"
    using place sm by (auto simp: item_place_def pb_consts)
  have sub: "range_of p (ssz ?sub) \<subseteq> range_of p (unat (pf_data_size ?f))" using fs(4) by (rule range_of_mono)
  have reg: "region env H ?sub p \<subseteq> region env H flds dest"
    using rng sub kinds fs(5) by (auto simp: region_def pb_consts split: if_splits)
  have ap': "apart H ?sub p"
    using rng sub ap fs(5) by (fastforce simp: apart_def pb_consts)
  have "dpost (region env H flds dest) (s, snd sd) (pdec ?sub p (s, snd sd))"
    if "decodes_below env H (rk flds) pdec" "stream_le (fst sd) s" for pdec s
    using decodes_belowD [OF that(1) fs(2,3) ap', of "(s, snd sd)"] stream_le_bounded [OF that(2) bd]
    by (auto intro: dpost_mono [OF _ reg])
  then show ?thesis
    using fs(1) dec by (auto simp: pb_dec_submessage_def env intro!: with_substream_post)
qed

text \<open>A number of a packable type takes at least one byte of the stream and stays in its item.\<close>

lemma packable_decoder_post:
  assumes T: "flds \<in> T" "i < nfields flds"
    and pack: "PB_LTYPE (pf_type (field_at flds i)) \<le> PB_LTYPE_LAST_PACKABLE"
  shows "dpost1 (range_of p (unat (pf_data_size (field_at flds i)))) sd
      (PB_DECODERS env pdecode pnoinit (PB_LTYPE (pf_type (field_at flds i))) (field_at flds i) p sd)"
proof -
  let ?f = "field_at flds i" let ?lt = "PB_LTYPE (pf_type ?f)" and ?A = "range_of p (unat (pf_data_size ?f))"
  note kf = fitsD(1,2) [OF T]
  have widths: "?lt = PB_LTYPE_BOOL \<Longrightarrow> range_of p 1 \<subseteq> ?A" "?lt = PB_LTYPE_FIXED32 \<Longrightarrow> range_of p 4 \<subseteq> ?A"
    "?lt = PB_LTYPE_FIXED64 \<Longrightarrow> range_of p 8 \<subseteq> ?A"
    using kf(2) by (simp_all add: item_fits_def range_of_mono del: One_nat_def)
  have "?lt \<in> {PB_LTYPE_BOOL, PB_LTYPE_VARINT, PB_LTYPE_UVARINT, PB_LTYPE_SVARINT, PB_LTYPE_FIXED32, PB_LTYPE_FIXED64}"
    using pack kf(1) by (auto simp: kind_fits_def pb_consts)
  then show ?thesis
    using widths
    by (auto simp: PB_DECODERS_def pb_consts simp del: One_nat_def
        intro: pb_dec_bool_post pb_dec_varint_post pb_dec_uvarint_post pb_dec_svarint_post pb_dec_fixed32_post pb_dec_fixed64_post)
qed

lemma decoder_post:
  assumes T: "flds \<in> T" "i < nfields flds" and env: "de_fields env = tables" and ap: "apart H flds dest"
    and al: "allocator_ok env H"
    and dec: "decodes_below env H (rk flds) pdecode" "decodes_below env H (rk flds) pnoinit"
    and place: "item_place H flds dest (field_at flds i) p" and bd: "reader_bounded (fst sd)"
  shows "dpost (region env H flds dest) sd
      (PB_DECODERS env pdecode pnoinit (PB_LTYPE (pf_type (field_at flds i))) (field_at flds i) p sd)" (is ?any)
    and "PB_LTYPE (pf_type (field_at flds i)) \<le> PB_LTYPE_LAST_PACKABLE \<Longrightarrow>
      dpost1 (region env H flds dest) sd
      (PB_DECODERS env pdecode pnoinit (PB_LTYPE (pf_type (field_at flds i))) (field_at flds i) p sd)" (is "_ \<Longrightarrow> ?packed")
proof -
  let ?f = "field_at flds i" and ?A = "region env H flds dest"
  let ?lt = "PB_LTYPE (pf_type ?f)"
  note kf = fitsD(1,2) [OF T]
  have ptr: "PB_ATYPE (pf_type ?f) = PB_ATYPE_POINTER \<Longrightarrow> ptrs flds" using kf(1) by (auto simp: kind_fits_def pb_consts)
  have data: "range_of p (unat (pf_data_size ?f)) \<subseteq> ?A" if "?lt \<noteq> PB_LTYPE_STRING" "?lt \<noteq> PB_LTYPE_BYTES"
    using place that ptr by (auto simp: item_place_def region_def split: if_splits)
  have string: "PB_ATYPE (pf_type ?f) = PB_ATYPE_POINTER \<Longrightarrow> allocator_ok env H \<and> H \<union> range_of p 8 \<subseteq> ?A"
    "PB_ATYPE (pf_type ?f) \<noteq> PB_ATYPE_POINTER \<Longrightarrow> range_of p (unat (pf_data_size ?f)) \<subseteq> ?A"
    if "?lt = PB_LTYPE_STRING \<or> ?lt = PB_LTYPE_BYTES"
    using place that ptr al by (auto simp: item_place_def region_def)
  have packed: "?lt \<le> PB_LTYPE_LAST_PACKABLE \<Longrightarrow> ?packed"
    using packable_decoder_post [OF T] data by (rule dpost1_mono) (auto simp: pb_consts)
  then show "?lt \<le> PB_LTYPE_LAST_PACKABLE \<Longrightarrow> ?packed" .
  have sub: "dpost ?A sd (pb_dec_submessage env pdecode pnoinit ?f p sd)" if "?lt = PB_LTYPE_SUBMESSAGE"
    using pb_dec_submessage_post [OF T env ap dec that place bd] .
  have bs: "dpost ?A sd (pb_dec_bytes env ?f p sd)" "dpost ?A sd (pb_dec_string env ?f p sd)"
    if "?lt = PB_LTYPE_STRING \<or> ?lt = PB_LTYPE_BYTES"
    using string [OF that] bd by (blast intro: pb_dec_bytes_post pb_dec_string_post)+
  have fl: "dpost ?A sd (pb_dec_fixed_length_bytes ?f p sd)" if "?lt = PB_LTYPE_FIXED_LENGTH_BYTES"
    using data that bd by (intro pb_dec_fixed_length_bytes_post) (simp_all add: pb_consts)
  from kf(1) consider "?lt \<le> PB_LTYPE_LAST_PACKABLE" | "?lt = PB_LTYPE_SUBMESSAGE" | "?lt = PB_LTYPE_STRING"
      | "?lt = PB_LTYPE_BYTES" | "?lt = PB_LTYPE_FIXED_LENGTH_BYTES"
    by (auto simp: kind_fits_def pb_consts)
  then show ?any
  proof cases
    case 1
    then show ?thesis by (intro dpost1_dpost packed)
  qed (use sub bs fl in \<open>auto simp: PB_DECODERS_def pb_consts\<close>)
qed

end


section \<open>Static fields\<close>

lemma dpost1_step:
  assumes "dpost1 A sd r"
  obtains sd' where "r = Some (False, sd')" "dstep A sd sd'"
    | sd' where "r = Some (True, sd')" "dstep A sd sd'" "unat (is_bytes_left (fst sd')) < unat (is_bytes_left (fst sd))"
  using assms by (auto simp: dpost1_def stream_less_def split: bool.splits) (metis (full_types))

text \<open>Every item of a packed array takes a byte or more, so the loop ends with the substream.\<close>

lemma static_packed_loop_post:
  assumes func: "\<And>sz sd. sz < pf_array_size (it_field it) \<Longrightarrow> reader_bounded (fst sd) \<Longrightarrow>
      dpost1 A sd (func (it_field it) (item_addr (it_pData it) (it_field it) sz) sd)"
    and sz: "range_of (it_pSize it) 4 \<subseteq> A"
  shows "reader_bounded (fst sd) \<Longrightarrow> unat (is_bytes_left (fst sd)) < k \<Longrightarrow>
    dpost A sd (static_packed_loop k func it sd)"
proof (induction k arbitrary: sd)
  case (Suc k)
  let ?sz = "load_u32 (ds_mem (snd sd)) (it_pSize it)"
  show ?case
  proof (cases "0 < is_bytes_left (fst sd) \<and> ?sz < pf_array_size (it_field it)")
    case False
    then show ?thesis by (auto simp: Let_def dpost_Some)
  next
    case True
    from func [OF conjunct2 [OF True] Suc.prems(1)] show ?thesis
    proof (cases rule: dpost1_step)
      case (1 sd')
      then show ?thesis using True by (simp add: Let_def dpost_Some)
    next
      case (2 sd')
      let ?sd = "dec_store (\<lambda>m. store_u32 m (it_pSize it) (load_u32 m (it_pSize it) + 1)) sd'"
      have "dstep A sd' ?sd" using sz by (intro dstep_store frame_store_u32)
      with 2(2) have st: "dstep A sd ?sd" by (rule dstep_trans)
      have "dpost A ?sd (static_packed_loop k func it ?sd)"
        using Suc.prems 2(3) dstep_bounded [OF st] by (intro Suc.IH) (simp_all add: dec_store_def)
      then show ?thesis using True 2(1) dpost_trans [OF st] by (simp add: Let_def)
    qed
  qed
qed simp

lemma decode_static_packed_post:
  assumes func: "\<And>sz sd. sz < pf_array_size (it_field it) \<Longrightarrow> reader_bounded (fst sd) \<Longrightarrow>
      dpost1 A sd (func (it_field it) (item_addr (it_pData it) (it_field it) sz) sd)"
    and sz: "range_of (it_pSize it) 4 \<subseteq> A" and bd: "reader_bounded (fst sd)"
  shows "dpost A sd (decode_static_packed func it sd)"
proof -
  obtain v t where r: "pb_make_string_substream (fst sd) = (v, t)" by (cases "pb_make_string_substream (fst sd)")
  note ms = pb_make_string_substream_stream [OF r]
  show ?thesis
  proof (cases v)
    case None
    then show ?thesis using r ms(1) by (simp add: decode_static_packed_def dpost_Some dstep_stream)
  next
    case (Some sub)
    have "dpost A (sub, snd sd) (static_packed_loop (Suc (unat (is_bytes_left sub))) func it (sub, snd sd))"
      using stream_le_bounded [OF ms(2) [OF Some] bd] by (intro static_packed_loop_post func sz) simp_all
    then obtain ok sub' d' where
      b: "static_packed_loop (Suc (unat (is_bytes_left sub))) func it (sub, snd sd) = Some (ok, sub', d')"
        "stream_le sub sub'" "frame A (ds_mem (snd sd)) (ds_mem d')" by (auto simp: dpost_def dstep_def)
    obtain w u where c: "pb_close_string_substream t sub' = (w, u)" by (cases "pb_close_string_substream t sub'")
    have "stream_le (fst sd) u"
      using pb_close_string_substream_stream [OF r [unfolded Some] b(2) _ _ _ c] by simp
    then show ?thesis
      using r Some b c ms(1) by (auto simp: decode_static_packed_def dec_error_def dpost_Some dstep_def
          simp del: static_packed_loop.simps split: option.splits)
  qed
qed

context decode_tables
begin

text \<open>
  The iterators that the decoder uses: those of the walk over the table, and for a repeated field
  without count member the one whose \<open>pSize\<close> points to a local variable.
\<close>

definition iter_ok :: "('s, 'h) dec_env \<Rightarrow> pb_field list \<Rightarrow> addr \<Rightarrow> nat \<Rightarrow> pb_field_iter \<Rightarrow> bool" where
  "iter_ok env flds dest i it \<longleftrightarrow> i < nfields flds \<and>
     (it = iter_at flds dest i \<or>
      PB_HTYPE (pf_type (field_at flds i)) = PB_HTYPE_REPEATED
      \<and> it_pSize (iter_at flds dest i) = it_pData (iter_at flds dest i)
      \<and> (\<exists>loc. it = (iter_at flds dest i)\<lparr>it_pSize := loc\<rparr> \<and> range_of loc 4 \<subseteq> local_vars env))"

lemma iter_ok_simps:
  assumes "iter_ok env flds dest i it"
  shows "i < nfields flds" "it_field it = field_at flds i" "it_pData it = it_pData (iter_at flds dest i)"
    "it_pos it = i" "it_start it = flds"
    "PB_HTYPE (pf_type (field_at flds i)) \<noteq> PB_HTYPE_REPEATED \<Longrightarrow> it = iter_at flds dest i"
  using assms by (auto simp: iter_ok_def it_field_def iter_at_pos)

lemma iter_ok_pointer:
  assumes "flds \<in> T" "iter_ok env flds dest i it" "PB_ATYPE (pf_type (field_at flds i)) = PB_ATYPE_POINTER"
  shows "it = iter_at flds dest i"
proof (rule ccontr)
  assume "it \<noteq> iter_at flds dest i"
  with assms(2) have h: "PB_HTYPE (pf_type (field_at flds i)) = PB_HTYPE_REPEATED" "i < nfields flds"
    "it_pSize (iter_at flds dest i) = it_pData (iter_at flds dest i)" by (auto simp: iter_ok_def)
  have "it_pData (iter_at flds dest i) \<in> range_of (it_pData (iter_at flds dest i)) 4 \<inter> range_of (it_pData (iter_at flds dest i)) 8"
    by (auto simp: range_of_def intro!: image_eqI [of _ _ 0])
  with field_ranges(5) [OF assms(1) h(2,1) assms(3), of dest] h(3) show False by simp
qed

lemma iter_ok_size_range:
  assumes "flds \<in> T" "iter_ok env flds dest i it"
    "PB_HTYPE (pf_type (field_at flds i)) = PB_HTYPE_REPEATED \<or> PB_HTYPE (pf_type (field_at flds i)) = PB_HTYPE_ONEOF"
  shows "range_of (it_pSize it) 4 \<subseteq> region env H flds dest"
  using assms(2) field_ranges(4) [OF assms(1) iter_ok_simps(1) [OF assms(2)] assms(3), of dest]
  by (auto simp: iter_ok_def region_def)

lemma static_item_place:
  assumes T: "flds \<in> T" "i < nfields flds" and st: "PB_ATYPE (pf_type (field_at flds i)) = PB_ATYPE_STATIC"
  shows "PB_HTYPE (pf_type (field_at flds i)) \<noteq> PB_HTYPE_REPEATED \<Longrightarrow>
      item_place H flds dest (field_at flds i) (it_pData (iter_at flds dest i))"
    and "PB_HTYPE (pf_type (field_at flds i)) = PB_HTYPE_REPEATED \<Longrightarrow> sz < pf_array_size (field_at flds i) \<Longrightarrow>
      item_place H flds dest (field_at flds i) (item_addr (it_pData (iter_at flds dest i)) (field_at flds i) sz)"
proof -
  let ?f = "field_at flds i" and ?p = "it_pData (iter_at flds dest i)"
  note fr = field_ranges(1) [OF T st, of dest]
  show "item_place H flds dest ?f ?p" if "PB_HTYPE (pf_type ?f) \<noteq> PB_HTYPE_REPEATED"
    using fr st that by (simp add: item_place_def item_count_def pb_consts)
  show "item_place H flds dest ?f (item_addr ?p ?f sz)"
    if h: "PB_HTYPE (pf_type ?f) = PB_HTYPE_REPEATED" "sz < pf_array_size ?f"
  proof -
    have lt: "unat sz < unat (pf_array_size ?f)" using h(2) by (simp add: word_less_nat_alt)
    have "unat (pf_data_size ?f) * unat (pf_array_size ?f) < 2 ^ 32"
      using fitsD(5) [OF T] h(1) st by (simp add: array_fits_def)
    moreover have "unat (pf_data_size ?f) * unat sz \<le> unat (pf_data_size ?f) * unat (pf_array_size ?f)"
      using lt by simp
    ultimately have "unat (pf_data_size ?f) * unat sz < 2 ^ 32" by (rule le_less_trans [rotated])
    then have "unat (pf_data_size ?f * sz) = unat (pf_data_size ?f) * unat sz"
      by (intro unat_mult_lem [THEN iffD1]) simp
    moreover have "(ucast (pf_data_size ?f * sz) :: addr) = of_nat (unat (pf_data_size ?f * sz))" by simp
    ultimately have "item_addr ?p ?f sz = ?p + of_nat (unat sz) * ucast (pf_data_size ?f)"
      unfolding item_addr_def by (simp only: of_nat_mult) simp
    moreover have "range_of (?p + of_nat (unat sz) * ucast (pf_data_size ?f)) (unat (pf_data_size ?f)) \<subseteq> range_of dest (ssz flds)"
      using array_item_range [OF lt] fr unfolding item_count_def if_P [OF h(1)] by (rule subset_trans)
    ultimately show ?thesis using st by (simp add: item_place_def pb_consts)
  qed
qed

lemma oneof_static_defaults:
  assumes T: "flds \<in> T" "i < nfields flds" and env: "de_fields env = tables" and n: "2 * rk flds \<le> n"
    and st: "PB_ATYPE (pf_type (field_at flds i)) = PB_ATYPE_STATIC"
    and h: "PB_HTYPE (pf_type (field_at flds i)) \<noteq> PB_HTYPE_REPEATED"
    and sm: "PB_LTYPE (pf_type (field_at flds i)) = PB_LTYPE_SUBMESSAGE"
  shows "\<exists>m'. pb_message_set_to_defaults n env (tables (pf_ptr (field_at flds i))) (it_pData (iter_at flds dest i))
      (mem_set m (it_pData (iter_at flds dest i)) 0 (unat (pf_data_size (field_at flds i)))) = Some m'
    \<and> frame (range_of dest (ssz flds)) m m'"
proof -
  let ?f = "field_at flds i" and ?p = "it_pData (iter_at flds dest i)" and ?R = "range_of dest (ssz flds)"
  note fs = fits_submessage [OF T sm]
  have r: "range_of ?p (unat (pf_data_size ?f)) \<subseteq> ?R"
    using field_ranges(1) [OF T st, of dest] h by (simp add: item_count_def)
  have "2 * rk (tables (pf_ptr ?f)) + 2 \<le> n" using fs(3) n by simp
  from set_to_defaults_frame(2) [OF env fs(2) this] obtain m' where
    m': "pb_message_set_to_defaults n env (tables (pf_ptr ?f)) ?p (mem_set m ?p 0 (unat (pf_data_size ?f))) = Some m'"
      "frame (range_of ?p (ssz (tables (pf_ptr ?f)))) (mem_set m ?p 0 (unat (pf_data_size ?f))) m'" by blast
  have "frame ?R (mem_set m ?p 0 (unat (pf_data_size ?f))) m'"
    using m'(2) r range_of_mono [OF fs(4), of ?p] by (elim frame_mono) blast
  with frame_mem_set [OF r] have "frame ?R m m'" by (rule frame_trans)
  with m'(1) show ?thesis by blast
qed

lemma decode_static_field_post:
  assumes T: "flds \<in> T" and it: "iter_ok env flds dest i it" and env: "de_fields env = tables"
    and ap: "apart H flds dest" and al: "allocator_ok env H" and n: "2 * rk flds \<le> n"
    and dec: "decodes_below env H (rk flds) pdecode" "decodes_below env H (rk flds) pnoinit"
    and st: "PB_ATYPE (pf_type (field_at flds i)) = PB_ATYPE_STATIC" and bd: "reader_bounded (fst sd)"
  shows "dpost (region env H flds dest) sd (decode_static_field n env pdecode pnoinit wt it sd)"
proof -
  let ?f = "field_at flds i" and ?A = "region env H flds dest" and ?it = "iter_at flds dest i"
  let ?ht = "PB_HTYPE (pf_type ?f)"
  let ?func = "PB_DECODERS env pdecode pnoinit (PB_LTYPE (pf_type ?f))"
  note io = iter_ok_simps(1-5) [OF it]
  note dp = decoder_post [OF T io(1) env ap al dec]
  note pl = static_item_place [OF T io(1) st]
  have step: "dpost ?A sd (?func ?f p sd')" if "dstep ?A sd sd'" "item_place H flds dest ?f p" for p sd'
    using dp(1) [OF that(2) dstep_bounded [OF that(1) bd]] by (rule dpost_trans [OF that(1)])
  consider (req) "?ht = PB_HTYPE_REQUIRED" | (opt) "?ht = PB_HTYPE_OPTIONAL" | (rep) "?ht = PB_HTYPE_REPEATED"
    | (oneof) "?ht \<noteq> PB_HTYPE_REQUIRED" "?ht \<noteq> PB_HTYPE_OPTIONAL" "?ht \<noteq> PB_HTYPE_REPEATED" by blast
  then show ?thesis
  proof cases
    case req
    with step [OF dstep_refl] pl(1) show ?thesis by (simp add: decode_static_field_def Let_def io pb_consts)
  next
    case opt
    have "dstep ?A sd (if it_pSize it \<noteq> it_pData it then dec_store (\<lambda>m. store_u8 m (it_pSize it) 1) sd else sd)"
      using field_ranges(3) [OF T io(1) opt st, of dest] iter_ok_simps(6) [OF it] opt
      by (auto simp: region_def pb_consts simp del: One_nat_def intro!: dstep_store frame_store_u8)
    with step pl(1) opt show ?thesis by (simp add: decode_static_field_def Let_def io pb_consts)
  next
    case rep
    note sz = iter_ok_size_range [OF T it disjI1 [OF rep]]
    have "dpost ?A sd (decode_static_packed ?func it sd)" if "PB_LTYPE (pf_type ?f) \<le> PB_LTYPE_LAST_PACKABLE"
      using pl(2) [OF rep] dp(2) that by (intro decode_static_packed_post sz bd) (simp_all add: io)
    moreover have "dstep ?A sd (dec_store (\<lambda>m. store_u32 m (it_pSize it) v) sd)" for v
      using sz by (intro dstep_store frame_store_u32)
    ultimately show ?thesis
      using rep step pl(2) [OF rep]
      by (auto simp: decode_static_field_def Let_def io pb_consts not_le intro!: dpost_error)
  next
    case oneof
    have "\<exists>m'. (if PB_LTYPE (pf_type ?f) = PB_LTYPE_SUBMESSAGE \<and> load_u32 (ds_mem (snd sd)) (it_pSize it) \<noteq> pf_tag ?f
        then pb_message_set_to_defaults n env (tables (pf_ptr ?f)) (it_pData it)
               (mem_set (ds_mem (snd sd)) (it_pData it) 0 (unat (pf_data_size ?f))) else Some (ds_mem (snd sd))) = Some m'
        \<and> frame ?A (ds_mem (snd sd)) m'"
      using oneof_static_defaults [OF T io(1) env n st oneof(3), of dest "ds_mem (snd sd)"]
        frame_region by (auto simp: io)
    then obtain m' where m': "(if PB_LTYPE (pf_type ?f) = PB_LTYPE_SUBMESSAGE \<and> load_u32 (ds_mem (snd sd)) (it_pSize it) \<noteq> pf_tag ?f
        then pb_message_set_to_defaults n env (tables (pf_ptr ?f)) (it_pData it)
               (mem_set (ds_mem (snd sd)) (it_pData it) 0 (unat (pf_data_size ?f))) else Some (ds_mem (snd sd))) = Some m'"
        "frame ?A (ds_mem (snd sd)) m'" by blast
    from oneof have ht: "?ht = PB_HTYPE_ONEOF" using PB_HTYPE_cases [of "pf_type ?f"] by blast
    have "frame ?A (ds_mem (snd sd)) (store_u32 m' (it_pSize it) (pf_tag ?f))"
      using m'(2) frame_store_u32 [OF iter_ok_size_range [OF T it disjI2 [OF ht]]] by (rule frame_trans)
    then have "dstep ?A sd (fst sd, (snd sd)\<lparr>ds_mem := store_u32 m' (it_pSize it) (pf_tag ?f)\<rparr>)" by (simp add: dstep_def)
    with step pl(1) [OF oneof(3)] oneof m'(1) show ?thesis
      by (simp add: decode_static_field_def Let_def io env cong: if_cong)
  qed
qed

section \<open>Pointer fields\<close>

lemma initialize_pointer_field_post:
  assumes T: "flds \<in> T" "i < nfields flds" and env: "de_fields env = tables" and n: "2 * rk flds \<le> n"
    and p: "range_of p (unat (pf_data_size (field_at flds i))) \<subseteq> H"
    and ns: "PB_LTYPE (pf_type (field_at flds i)) \<noteq> PB_LTYPE_STRING" "PB_LTYPE (pf_type (field_at flds i)) \<noteq> PB_LTYPE_BYTES"
  shows "\<exists>d'. initialize_pointer_field n env p (field_at flds i) d = Some d' \<and> dframe H d d'"
proof (cases "PB_LTYPE (pf_type (field_at flds i)) = PB_LTYPE_SUBMESSAGE")
  case False
  then show ?thesis using ns by (simp add: initialize_pointer_field_def)
next
  case True
  let ?f = "field_at flds i" let ?m = "mem_set (ds_mem d) p 0 (unat (pf_data_size ?f))"
  note fs = fits_submessage [OF T True]
  have "2 * rk (tables (pf_ptr ?f)) + 2 \<le> n" using fs(3) n by simp
  from set_to_defaults_frame(2) [OF env fs(2) this, of p ?m] obtain m' where
    m': "pb_message_set_to_defaults n env (tables (pf_ptr ?f)) p ?m = Some m'"
      "frame (range_of p (ssz (tables (pf_ptr ?f)))) ?m m'" by blast
  have "frame H ?m m'" using m'(2) p range_of_mono [OF fs(4), of p] by (elim frame_mono) blast
  with frame_mem_set [OF p] have "frame H (ds_mem d) m'" by (rule frame_trans)
  then show ?thesis using m'(1) True ns by (simp add: initialize_pointer_field_def env dframe_def pb_consts)
qed

text \<open>
  The addresses of a repeated pointer field: the pointer and the count do not overlap, and neither
  lies in the heap.
\<close>

lemma pointer_field_apart:
  assumes T: "flds \<in> T" "i < nfields flds" and ap: "apart H flds dest"
    and at: "PB_ATYPE (pf_type (field_at flds i)) = PB_ATYPE_POINTER"
  shows "range_of (it_pData (iter_at flds dest i)) 8 \<subseteq> range_of dest (ssz flds)"
    "range_of (it_pData (iter_at flds dest i)) 8 \<inter> H = {}"
    "PB_HTYPE (pf_type (field_at flds i)) = PB_HTYPE_REPEATED \<Longrightarrow>
       range_of (it_pSize (iter_at flds dest i)) 4 \<inter> (H \<union> range_of (it_pData (iter_at flds dest i)) 8) = {}"
    "ptrs flds"
proof -
  show ptr: "ptrs flds" using fits_atype [OF T] at by (simp add: pb_consts)
  then have "range_of dest (ssz flds) \<inter> H = {}" using ap by (simp add: apart_def)
  then show "range_of (it_pData (iter_at flds dest i)) 8 \<subseteq> range_of dest (ssz flds)"
    "range_of (it_pData (iter_at flds dest i)) 8 \<inter> H = {}"
    "PB_HTYPE (pf_type (field_at flds i)) = PB_HTYPE_REPEATED \<Longrightarrow>
       range_of (it_pSize (iter_at flds dest i)) 4 \<inter> (H \<union> range_of (it_pData (iter_at flds dest i)) 8) = {}"
    using field_ranges(2) [OF T at, of dest] field_ranges(4,5) [OF T _, of dest] at by blast+
qed

end

lemma initialize_packable:
  assumes "PB_LTYPE (pf_type f) \<le> PB_LTYPE_LAST_PACKABLE"
  shows "initialize_pointer_field n env p f d = Some d"
  using assms by (auto simp: initialize_pointer_field_def pb_consts)

text \<open>An item of an allocated array, although the product of its address is a 32-bit number.\<close>

lemma pointer_item_range:
  assumes "range_of p (unat ds * k) \<subseteq> H" "unat sz < k"
  shows "range_of (p + ucast (ds * sz :: u32)) (unat ds) \<subseteq> H"
proof -
  have "unat (ds * sz) + unat ds \<le> unat ds * k"
  proof -
    have "unat (ds * sz) \<le> unat ds * unat sz" by (simp add: unat_word_ariths)
    then have "unat (ds * sz) + unat ds \<le> unat ds * Suc (unat sz)" by simp
    also have "\<dots> \<le> unat ds * k" using assms(2) by (intro mult_le_mono2) simp
    finally show ?thesis .
  qed
  from range_of_sub [OF this, of p] assms(1) show ?thesis by simp
qed

text \<open>
  The allocation of a packed array: the count never exceeds the number of items allocated, and the
  allocated items lie in the heap. The first allocation of a call happens when the count is
  reached, so that nothing has to be known of an array of an earlier call.
\<close>

definition packed_inv :: "addr set \<Rightarrow> pb_field_iter \<Rightarrow> size_t \<Rightarrow> mem \<Rightarrow> bool" where
  "packed_inv H it allocated_size m \<longleftrightarrow>
     (let sz = load_u32 m (it_pSize it) in
      unat sz \<le> unat allocated_size \<and> unat allocated_size < 2 ^ 32
      \<and> (unat sz < unat allocated_size \<longrightarrow>
           range_of (load_ptr m (it_pData it)) (unat (pf_data_size (it_field it)) * unat allocated_size) \<subseteq> H))"

lemma PB_SIZE_MAX_eq: "PB_SIZE_MAX = 4294967295"
  by (simp add: pb_consts)

lemma unat_plus_one:
  assumes "sz \<noteq> PB_SIZE_MAX"
  shows "unat (sz + 1) = unat sz + 1"
proof -
  have "sz \<noteq> - 1" using assms by (simp add: pb_consts)
  then show ?thesis by (metis Suc_eq_plus1 add.commute add_eq_0_iff unatSuc)
qed

text \<open>The number of items after the array has grown.\<close>

lemma packed_growth:
  fixes allocated_size bytes_left ds :: size_t
  assumes "unat allocated_size < 2 ^ 32 - 1" "ds \<noteq> 0" "bytes_left \<noteq> 0"
  defines "remain \<equiv> (bytes_left - 1) div ds + 1"
  defines "new \<equiv> if remain < ucast PB_SIZE_MAX - allocated_size then allocated_size + remain else allocated_size + 1"
  shows "unat allocated_size < unat new" "unat new < 2 ^ 32"
proof -
  have "unat ((bytes_left - 1) div ds) \<le> unat (bytes_left - 1)" by (simp add: unat_div)
  also have "\<dots> < 2 ^ 64 - 1"
    using assms(3) unat_lt_64 [of bytes_left] by (simp add: unat_minus_one)
  finally have remain: "unat remain = unat ((bytes_left - 1) div ds) + 1"
    unfolding remain_def by (simp add: unat_word_ariths)
  have max: "ucast PB_SIZE_MAX = (4294967295 :: size_t)" unfolding PB_SIZE_MAX_eq by simp
  have sub: "unat (4294967295 - allocated_size) = 4294967295 - unat allocated_size"
    using assms(1) by (simp add: unat_sub word_le_nat_alt)
  show "unat allocated_size < unat new" "unat new < 2 ^ 32"
    using assms(1) remain sub
    by (auto simp: new_def max word_less_nat_alt unat_word_ariths)
qed

lemma packed_grow:
  fixes it :: pb_field_iter and sd :: "('s, 'h) dec" and allocated_size :: size_t
  assumes al: "allocator_ok env H" and ds: "pf_data_size (it_field it) \<noteq> 0"
    and apart: "range_of (it_pSize it) 4 \<inter> (H \<union> range_of (it_pData it) 8) = {}"
    and inv: "packed_inv H it allocated_size (ds_mem (snd sd))"
    and sz: "load_u32 (ds_mem (snd sd)) (it_pSize it) \<noteq> PB_SIZE_MAX"
    and left: "is_bytes_left (fst sd) \<noteq> 0"
  defines "grow \<equiv> allocated_size < ucast (load_u32 (ds_mem (snd sd)) (it_pSize it)) + 1"
    and "remain \<equiv> (is_bytes_left (fst sd) - 1) div ucast (pf_data_size (it_field it)) + 1"
  defines "new \<equiv> if grow then (if remain < ucast PB_SIZE_MAX - allocated_size then allocated_size + remain
     else allocated_size + 1) else allocated_size"
  assumes r: "(if grow then allocate_field env (it_pData it) (ucast (pf_data_size (it_field it))) new sd else (True, sd)) = (ok, sd')"
  shows "dstep (H \<union> range_of (it_pData it) 8) sd sd'" "ok \<Longrightarrow> fst sd' = fst sd"
    "ok \<Longrightarrow> load_u32 (ds_mem (snd sd')) (it_pSize it) = load_u32 (ds_mem (snd sd)) (it_pSize it)"
    "ok \<Longrightarrow> unat (load_u32 (ds_mem (snd sd)) (it_pSize it)) < unat new" "ok \<Longrightarrow> unat new < 2 ^ 32"
    "ok \<Longrightarrow> range_of (load_ptr (ds_mem (snd sd')) (it_pData it)) (unat (pf_data_size (it_field it)) * unat new) \<subseteq> H"
proof -
  let ?sz = "load_u32 (ds_mem (snd sd)) (it_pSize it)"
  have u: "unat (ucast ?sz + 1 :: size_t) = unat ?sz + 1"
    using unat_lt_32 [of ?sz] by (simp add: unat_word_ariths unat_ucast_up)
  have grow: "grow \<longleftrightarrow> unat allocated_size \<le> unat ?sz" unfolding grow_def by (auto simp: word_less_nat_alt u)
  have i: "unat ?sz \<le> unat allocated_size" "unat allocated_size < 2 ^ 32"
    using inv by (simp_all add: packed_inv_def Let_def)
  have uds: "unat (ucast (pf_data_size (it_field it)) :: size_t) = unat (pf_data_size (it_field it))" by (simp add: unat_ucast_up)
  show st: "dstep (H \<union> range_of (it_pData it) 8) sd sd'"
    using r allocate_field_post(1) [OF al] by (auto split: if_splits)
  show "ok \<Longrightarrow> fst sd' = fst sd" using r allocate_field_post(2) [OF al] by (auto split: if_splits)
  show "ok \<Longrightarrow> load_u32 (ds_mem (snd sd')) (it_pSize it) = ?sz"
    using st apart by (auto simp: dstep_def intro: frame_load_u32)
  show "ok \<Longrightarrow> range_of (load_ptr (ds_mem (snd sd')) (it_pData it)) (unat (pf_data_size (it_field it)) * unat new) \<subseteq> H"
  proof (cases grow)
    case True
    then show "ok \<Longrightarrow> ?thesis" using r allocate_field_post(3) [OF al] by (fastforce simp: uds)
  next
    case False
    then show ?thesis using r inv grow by (simp add: new_def packed_inv_def Let_def)
  qed
  have "unat ?sz < unat new \<and> unat new < 2 ^ 32"
  proof (cases grow)
    case True
    with grow i(1) have eq: "unat allocated_size = unat ?sz" by simp
    moreover have "unat ?sz \<noteq> 2 ^ 32 - 1" using sz by (simp add: PB_SIZE_MAX_eq word_unat_eq_iff)
    ultimately have lt: "unat allocated_size < 2 ^ 32 - 1" using unat_lt_32 [of ?sz] by simp
    have dsz: "(ucast (pf_data_size (it_field it)) :: size_t) \<noteq> 0" using ds uds by (simp add: word_unat_eq_iff)
    have "new = (if remain < ucast PB_SIZE_MAX - allocated_size then allocated_size + remain else allocated_size + 1)"
      by (simp only: new_def True if_True)
    with packed_growth [OF lt dsz left, folded remain_def] show ?thesis by (simp only: eq)
  next
    case False
    then show ?thesis using grow i by (simp add: new_def)
  qed
  then show "ok \<Longrightarrow> unat ?sz < unat new" "ok \<Longrightarrow> unat new < 2 ^ 32" by simp_all
qed

lemma pointer_packed_loop_post:
  assumes al: "allocator_ok env H" and ds: "pf_data_size (it_field it) \<noteq> 0"
    and pack: "PB_LTYPE (pf_type (it_field it)) \<le> PB_LTYPE_LAST_PACKABLE"
    and apart: "range_of (it_pSize it) 4 \<inter> (H \<union> range_of (it_pData it) 8) = {}" "range_of (it_pData it) 8 \<inter> H = {}"
    and func: "\<And>p sd. dpost1 (range_of p (unat (pf_data_size (it_field it)))) sd (func (it_field it) p sd)"
    and A: "H \<union> range_of (it_pData it) 8 \<union> range_of (it_pSize it) 4 \<subseteq> A"
  shows "\<lbrakk>packed_inv H it allocated_size (ds_mem (snd sd)); unat (is_bytes_left (fst sd)) < k\<rbrakk> \<Longrightarrow>
    \<exists>msg ok sd'. pointer_packed_loop k n env func it allocated_size sd = Some (msg, ok, sd') \<and> dstep A sd sd'"
proof (induction k arbitrary: allocated_size sd)
  case (Suc k)
  let ?f = "it_field it" and ?sz = "load_u32 (ds_mem (snd sd)) (it_pSize it)"
  define grow where "grow \<longleftrightarrow> allocated_size < ucast ?sz + 1"
  define remain where "remain = (is_bytes_left (fst sd) - 1) div ucast (pf_data_size ?f) + 1"
  define new where "new = (if grow then (if remain < ucast PB_SIZE_MAX - allocated_size then allocated_size + remain
     else allocated_size + 1) else allocated_size)"
  obtain ok sd1 where r: "(if grow then allocate_field env (it_pData it) (ucast (pf_data_size ?f)) new sd else (True, sd)) = (ok, sd1)"
    by (cases "if grow then allocate_field env (it_pData it) (ucast (pf_data_size ?f)) new sd else (True, sd)")
  consider (stop) "is_bytes_left (fst sd) = 0 \<or> ?sz = PB_SIZE_MAX"
    | (fail) "is_bytes_left (fst sd) \<noteq> 0" "?sz \<noteq> PB_SIZE_MAX" "\<not> ok" | (item) "is_bytes_left (fst sd) \<noteq> 0" "?sz \<noteq> PB_SIZE_MAX" ok
    by blast
  then show ?case
  proof cases
    case stop
    then have "pointer_packed_loop (Suc k) n env func it allocated_size sd =
        Some (if is_bytes_left (fst sd) = 0 then None else Some ''too many array entries'', is_bytes_left (fst sd) = 0, sd)"
      by (cases "is_bytes_left (fst sd) = 0") (simp_all add: Let_def)
    then show ?thesis by blast
  next
    case fail
    note g = packed_grow [OF al ds apart(1) Suc.prems(1) fail(2,1), folded grow_def remain_def, folded new_def, OF r]
    from g(1) have "dstep A sd sd1" using A by (elim dstep_mono) blast
    moreover have "pointer_packed_loop (Suc k) n env func it allocated_size sd = Some (None, False, sd1)"
      unfolding pointer_packed_loop.simps Let_def grow_def [symmetric] remain_def [symmetric] new_def [symmetric] r
      using fail by simp
    ultimately show ?thesis by blast
  next
    case item
    note g = packed_grow [OF al ds apart(1) Suc.prems(1) item(2,1), folded grow_def remain_def, folded new_def, OF r]
    let ?p = "load_ptr (ds_mem (snd sd1)) (it_pData it)" let ?q = "item_addr ?p ?f ?sz"
    note g' = g(2-6) [OF item(3)]
    have st1: "dstep A sd sd1" using g(1) A by (elim dstep_mono) blast
    have q: "range_of ?q (unat (pf_data_size ?f)) \<subseteq> H"
      unfolding item_addr_def using g'(5,3) by (rule pointer_item_range)
    have eq: "pointer_packed_loop (Suc k) n env func it allocated_size sd =
      (case func ?f ?q sd1 of None \<Rightarrow> None | Some (False, sd) \<Rightarrow> Some (None, False, sd)
       | Some (True, sd) \<Rightarrow> pointer_packed_loop k n env func it new
           (dec_store (\<lambda>m. store_u32 m (it_pSize it) (load_u32 m (it_pSize it) + 1)) sd))"
      unfolding pointer_packed_loop.simps Let_def grow_def [symmetric] remain_def [symmetric] new_def [symmetric] r
      using item g'(2) by (simp add: initialize_packable [OF pack])
    from func [of ?q sd1] show ?thesis
    proof (cases rule: dpost1_step)
      case (1 sd2)
      have "dstep A sd1 sd2" using 1(2) q A by (elim dstep_mono) blast
      with st1 have "dstep A sd sd2" by (rule dstep_trans)
      then show ?thesis unfolding eq 1(1) by auto
    next
      case (2 sd2)
      have fr: "frame H (ds_mem (snd sd1)) (ds_mem (snd sd2))" using 2(2) q by (auto simp: dstep_def elim: frame_mono)
      have pd: "load_ptr (ds_mem (snd sd2)) (it_pData it) = ?p" using frame_load_u64 [OF fr apart(2)] by simp
      have ps: "load_u32 (ds_mem (snd sd2)) (it_pSize it) = ?sz"
        using frame_load_u32 [OF fr, of "it_pSize it"] apart(1) g'(2) by auto
      let ?sd = "dec_store (\<lambda>m. store_u32 m (it_pSize it) (load_u32 m (it_pSize it) + 1)) sd2"
      have "dstep A sd1 sd2" using 2(2) q A by (elim dstep_mono) blast
      moreover have "dstep A sd2 ?sd" using A by (intro dstep_store frame_store_u32) blast
      ultimately have st: "dstep A sd ?sd" using st1 by (blast intro: dstep_trans)
      have "unat (?sz + 1) = unat ?sz + 1"
        using item(2) by (rule unat_plus_one)
      moreover have "load_ptr (store_u32 (ds_mem (snd sd2)) (it_pSize it) (?sz + 1)) (it_pData it) = ?p"
        using frame_load_u64 [OF frame_store_u32 [OF order_refl], of "it_pData it" "it_pSize it" "ds_mem (snd sd2)" "?sz + 1"]
          apart(1) pd by (simp add: Int_Un_distrib Int_commute)
      ultimately have "packed_inv H it new (ds_mem (snd ?sd))"
        using g'(3-5) by (simp add: packed_inv_def Let_def dec_store_def upd_mem_def ps)
      moreover have "unat (is_bytes_left (fst ?sd)) < k" using Suc.prems(2) 2(3) g'(1) by (simp add: dec_store_def)
      ultimately obtain msg ok' sd3 where "pointer_packed_loop k n env func it new ?sd = Some (msg, ok', sd3)" "dstep A ?sd sd3"
        using Suc.IH by blast
      then show ?thesis unfolding eq 2(1) using dstep_trans [OF st] by auto
    qed
  qed
qed simp

lemma decode_pointer_packed_post:
  assumes al: "allocator_ok env H" and ds: "pf_data_size (it_field it) \<noteq> 0"
    and pack: "PB_LTYPE (pf_type (it_field it)) \<le> PB_LTYPE_LAST_PACKABLE"
    and apart: "range_of (it_pSize it) 4 \<inter> (H \<union> range_of (it_pData it) 8) = {}" "range_of (it_pData it) 8 \<inter> H = {}"
    and func: "\<And>p sd. dpost1 (range_of p (unat (pf_data_size (it_field it)))) sd (func (it_field it) p sd)"
    and A: "H \<union> range_of (it_pData it) 8 \<union> range_of (it_pSize it) 4 \<subseteq> A"
  shows "dpost A sd (decode_pointer_packed n env func it sd)"
proof -
  let ?sz = "load_u32 (ds_mem (snd sd)) (it_pSize it)"
  obtain v t where r: "pb_make_string_substream (fst sd) = (v, t)" by (cases "pb_make_string_substream (fst sd)")
  note ms = pb_make_string_substream_stream [OF r]
  show ?thesis
  proof (cases v)
    case None
    then show ?thesis using r ms(1) by (simp add: decode_pointer_packed_def dpost_Some dstep_stream)
  next
    case (Some sub)
    let ?loop = "pointer_packed_loop (Suc (unat (is_bytes_left sub))) n env func it (ucast ?sz) (sub, snd sd)"
    have "packed_inv H it (ucast ?sz) (ds_mem (snd (sub, snd sd)))"
      using unat_lt_32 [of ?sz] by (simp add: packed_inv_def Let_def unat_ucast_up)
    from pointer_packed_loop_post [where func = func and A = A, OF al ds pack apart func A this, of "Suc (unat (is_bytes_left sub))" n]
    obtain msg ok sub' d' where b: "?loop = Some (msg, ok, sub', d')" "stream_le sub sub'" "frame A (ds_mem (snd sd)) (ds_mem d')"
      by (auto simp: dstep_def simp del: pointer_packed_loop.simps)
    define t' where "t' = (case msg of None \<Rightarrow> t | Some e \<Rightarrow> t\<lparr>is_errmsg := Some e\<rparr>)"
    obtain w u where c: "pb_close_string_substream t' sub' = (w, u)" by (cases "pb_close_string_substream t' sub'")
    have "stream_le (fst sd) u"
      by (rule pb_close_string_substream_stream [OF r [unfolded Some] b(2) _ _ _ c])
        (simp_all add: t'_def split: option.splits)
    then show ?thesis
      using r Some b c by (auto simp: decode_pointer_packed_def dpost_Some dstep_def Let_def t'_def [symmetric]
          simp del: pointer_packed_loop.simps split: option.splits)
  qed
qed

context decode_tables
begin

text \<open>A new block for a single item, and what the decoder does with it.\<close>

lemma pointer_item_post:
  assumes T: "flds \<in> T" "i < nfields flds" and env: "de_fields env = tables" and ap: "apart H flds dest"
    and al: "allocator_ok env H" and n: "2 * rk flds \<le> n"
    and dec: "decodes_below env H (rk flds) pdecode" "decodes_below env H (rk flds) pnoinit"
    and at: "PB_ATYPE (pf_type (field_at flds i)) = PB_ATYPE_POINTER"
    and ns: "PB_LTYPE (pf_type (field_at flds i)) \<noteq> PB_LTYPE_STRING" "PB_LTYPE (pf_type (field_at flds i)) \<noteq> PB_LTYPE_BYTES"
    and p: "range_of p (unat (pf_data_size (field_at flds i))) \<subseteq> H" and bd: "reader_bounded s"
  shows "\<exists>d'. initialize_pointer_field n env p (field_at flds i) d = Some d'
    \<and> load_ptr (ds_mem d') (it_pData (iter_at flds dest i)) = load_ptr (ds_mem d) (it_pData (iter_at flds dest i))
    \<and> dpost (region env H flds dest) (s, d)
        (PB_DECODERS env pdecode pnoinit (PB_LTYPE (pf_type (field_at flds i))) (field_at flds i) p (s, d'))"
proof -
  note pa = pointer_field_apart [OF T ap at]
  from initialize_pointer_field_post [OF T env n p ns] obtain d' where
    d': "initialize_pointer_field n env p (field_at flds i) d = Some d'" "frame H (ds_mem d) (ds_mem d')"
    by (auto simp: dframe_def)
  have "item_place H flds dest (field_at flds i) p" using at ns p by (simp add: item_place_def)
  from decoder_post(1) [OF T env ap al dec this, of "(s, d')"] bd
  have "dpost (region env H flds dest) (s, d')
      (PB_DECODERS env pdecode pnoinit (PB_LTYPE (pf_type (field_at flds i))) (field_at flds i) p (s, d'))" by simp
  moreover have "dstep (region env H flds dest) (s, d) (s, d')"
    using frame_mono [OF d'(2), of "region env H flds dest"] pa(4) by (auto simp: dstep_def region_def)
  ultimately show ?thesis
    using d'(1) frame_load_u64 [OF d'(2) pa(2)] by (auto intro: dpost_trans)
qed

lemma decode_pointer_repeated_post:
  assumes T: "flds \<in> T" "i < nfields flds" and env: "de_fields env = tables" and ap: "apart H flds dest"
    and al: "allocator_ok env H" and n: "2 * rk flds \<le> n"
    and dec: "decodes_below env H (rk flds) pdecode" "decodes_below env H (rk flds) pnoinit"
    and at: "PB_ATYPE (pf_type (field_at flds i)) = PB_ATYPE_POINTER"
    and ht: "PB_HTYPE (pf_type (field_at flds i)) = PB_HTYPE_REPEATED" and bd: "reader_bounded (fst sd)"
  shows "dpost (region env H flds dest) sd (decode_pointer_field n env pdecode pnoinit wt (iter_at flds dest i) sd)"
proof -
  let ?f = "field_at flds i" and ?A = "region env H flds dest" and ?it = "iter_at flds dest i"
  let ?func = "PB_DECODERS env pdecode pnoinit (PB_LTYPE (pf_type ?f))" and ?sz = "load_u32 (ds_mem (snd sd)) (it_pSize ?it)"
  note pa = pointer_field_apart [OF T ap at]
  have A: "H \<union> range_of (it_pData ?it) 8 \<union> range_of (it_pSize ?it) 4 \<subseteq> ?A"
    using pa(1,4) field_ranges(4) [OF T disjI1 [OF ht], of dest] by (auto simp: region_def)
  have af: "pf_data_size ?f \<noteq> 0" "PB_LTYPE (pf_type ?f) \<noteq> PB_LTYPE_STRING" "PB_LTYPE (pf_type ?f) \<noteq> PB_LTYPE_BYTES"
    using fitsD(5) [OF T] ht at by (simp_all add: array_fits_def)
  have packed: "dpost ?A sd (decode_pointer_packed n env ?func ?it sd)" if "PB_LTYPE (pf_type ?f) \<le> PB_LTYPE_LAST_PACKABLE"
    using packable_decoder_post [OF T that] af(1) that pa(2,3) ht A al
    by (intro decode_pointer_packed_post [where H = H]) (simp_all add: iter_at_field T(2))
  have single: "dpost ?A sd (oand_then (Some (allocate_field env (it_pData ?it) (ucast (pf_data_size ?f)) (ucast (?sz + 1)) sd))
       (\<lambda>sd. let sz = load_u32 (ds_mem (snd sd)) (it_pSize ?it);
                 pItem = item_addr (load_ptr (ds_mem (snd sd)) (it_pData ?it)) ?f sz;
                 d = upd_mem (\<lambda>m. store_u32 m (it_pSize ?it) (sz + 1)) (snd sd)
             in case initialize_pointer_field n env pItem ?f d of None \<Rightarrow> None
                | Some d \<Rightarrow> ?func ?f pItem (fst sd, d)))" (is "dpost _ _ (oand_then (Some ?al) ?k)")
    if sz: "?sz \<noteq> PB_SIZE_MAX"
  proof -
    obtain ok sd1 where r: "?al = (ok, sd1)" by (cases ?al)
    note ap = allocate_field_post [OF al r]
    have st1: "dstep ?A sd sd1" using ap(1) A by (elim dstep_mono) blast
    show ?thesis
    proof (cases ok)
      case False
      then show ?thesis using r st1 by (simp add: dpost_Some)
    next
      case True
      let ?q = "item_addr (load_ptr (ds_mem (snd sd1)) (it_pData ?it)) ?f ?sz"
      have same: "load_u32 (ds_mem (snd sd1)) (it_pSize ?it) = ?sz"
        using ap(1) pa(3) [OF ht] by (auto simp: dstep_def intro: frame_load_u32)
      have "unat (?sz + 1) = unat ?sz + 1"
        using sz by (rule unat_plus_one)
      then have q: "range_of ?q (unat (pf_data_size ?f)) \<subseteq> H"
        unfolding item_addr_def using ap(3) [OF True]
        by (intro pointer_item_range [where k = "unat (?sz + 1)"]) (simp_all add: unat_ucast_up)
      let ?d = "upd_mem (\<lambda>m. store_u32 m (it_pSize ?it) (?sz + 1)) (snd sd1)"
      have "dstep ?A sd1 (fst sd1, ?d)" using A by (auto simp: dstep_def upd_mem_def intro!: frame_store_u32)
      with st1 have st: "dstep ?A sd (fst sd1, ?d)" by (rule dstep_trans)
      from pointer_item_post [OF T env \<open>apart H flds dest\<close> \<open>allocator_ok env H\<close> n dec at af(2,3) q
          dstep_bounded [OF st bd, simplified], of ?d]
      obtain d' where "initialize_pointer_field n env ?q ?f ?d = Some d'" "dpost ?A (fst sd1, ?d) (?func ?f ?q (fst sd1, d'))"
        by blast
      then show ?thesis using r True same dpost_trans [OF st] by (simp add: Let_def)
    qed
  qed
  show ?thesis
    using packed single ht by (auto simp: decode_pointer_field_def iter_at_field T(2) Let_def intro: dpost_error)
qed

lemma decode_pointer_single_post:
  assumes T: "flds \<in> T" "i < nfields flds" and env: "de_fields env = tables" and ap: "apart H flds dest"
    and al: "allocator_ok env H" and n: "2 * rk flds + 1 \<le> n"
    and dec: "decodes_below env H (rk flds) pdecode" "decodes_below env H (rk flds) pnoinit"
    and at: "PB_ATYPE (pf_type (field_at flds i)) = PB_ATYPE_POINTER"
    and ht: "PB_HTYPE (pf_type (field_at flds i)) \<noteq> PB_HTYPE_REPEATED" and bd: "reader_bounded (fst sd)"
  shows "dpost (region env H flds dest) sd (decode_pointer_field n env pdecode pnoinit wt (iter_at flds dest i) sd)"
proof -
  let ?f = "field_at flds i" and ?A = "region env H flds dest" and ?it = "iter_at flds dest i"
  let ?lt = "PB_LTYPE (pf_type ?f)"
  let ?func = "PB_DECODERS env pdecode pnoinit ?lt"
  note pa = pointer_field_apart [OF T ap at]
  have A: "H \<union> range_of (it_pData ?it) 8 \<subseteq> ?A" using pa(1,4) by (auto simp: region_def)
  have "\<exists>d1. (if ?lt = PB_LTYPE_SUBMESSAGE \<and> load_ptr (ds_mem (snd sd)) (it_pData ?it) \<noteq> 0
      then pb_release_single_field n env ?it (snd sd) else Some (snd sd)) = Some d1 \<and> dframe ?A (snd sd) d1"
    using release_frame(1) [OF env al T n, of dest "snd sd"] dframe_region by auto
  then obtain d1 where d1: "(if ?lt = PB_LTYPE_SUBMESSAGE \<and> load_ptr (ds_mem (snd sd)) (it_pData ?it) \<noteq> 0
      then pb_release_single_field n env ?it (snd sd) else Some (snd sd)) = Some d1" "dframe ?A (snd sd) d1" by blast
  define d2 where "d2 = (if PB_HTYPE (pf_type ?f) = PB_HTYPE_ONEOF
      then upd_mem (\<lambda>m. store_u32 m (it_pSize ?it) (pf_tag ?f)) d1 else d1)"
  have "dframe ?A d1 d2"
    using field_ranges(4) [OF T disjI2, of dest] by (auto simp: d2_def region_def intro!: dframe_upd frame_store_u32)
  with d1(2) have st: "dstep ?A sd (fst sd, d2)" by (auto simp: dstep_def dframe_def intro: frame_trans)
  have bd2: "reader_bounded (fst (fst sd, d2))" using bd by simp
  have str: "dpost ?A sd (?func ?f (it_pData ?it) (fst sd, d2))" if "?lt = PB_LTYPE_STRING \<or> ?lt = PB_LTYPE_BYTES"
    using that at pa(1) by (intro dpost_trans [OF st] decoder_post(1) [OF T env ap al dec _ bd2]) (simp add: item_place_def)
  have new: "dpost ?A sd (oand_then
      (Some (allocate_field env (it_pData ?it) (ucast (pf_data_size ?f)) 1 (fst sd, d2)))
      (\<lambda>sd. let p = load_ptr (ds_mem (snd sd)) (it_pData ?it) in
         case initialize_pointer_field n env p ?f (snd sd) of None \<Rightarrow> None
         | Some d \<Rightarrow> ?func ?f (load_ptr (ds_mem d) (it_pData ?it)) (fst sd, d)))" (is "dpost _ _ (oand_then (Some ?al) ?k)")
    if ns: "?lt \<noteq> PB_LTYPE_STRING" "?lt \<noteq> PB_LTYPE_BYTES"
  proof -
    obtain ok sd1 where r: "?al = (ok, sd1)" by (cases ?al)
    note alp = allocate_field_post [OF al r]
    have st1: "dstep ?A sd sd1" using dstep_trans [OF st dstep_mono [OF alp(1) A]] .
    show ?thesis
    proof (cases ok)
      case False
      then show ?thesis using r st1 by (simp add: dpost_Some)
    next
      case True
      let ?p = "load_ptr (ds_mem (snd sd1)) (it_pData ?it)"
      have p: "range_of ?p (unat (pf_data_size ?f)) \<subseteq> H" using alp(3) [OF True] by (simp add: unat_ucast_up)
      have n': "2 * rk flds \<le> n" using n by simp
      from pointer_item_post [OF T env ap al n' dec at ns p dstep_bounded [OF st1 bd], of "snd sd1"]
      obtain d' where "initialize_pointer_field n env ?p ?f (snd sd1) = Some d'"
        "load_ptr (ds_mem d') (it_pData ?it) = ?p" "dpost ?A sd1 (?func ?f ?p (fst sd1, d'))" by auto
      then show ?thesis using r True dpost_trans [OF st1] by (simp add: Let_def)
    qed
  qed
  show ?thesis
    using str new ht d1(1)
    by (auto simp: decode_pointer_field_def iter_at_field T(2) Let_def d2_def [symmetric] cong: if_cong)
qed

end

end
