(* ===== verification/Pb_Decode_Safe.thy ===== *)
theory Pb_Decode_Safe
  imports Pb_Decode_Fields
begin

text \<open>
  Whole messages: the decoder returns on every input and stays inside the structure, the heap and its
  local variables, for every set of descriptor tables that fit their structures.
\<close>

context decode_tables
begin

section \<open>Fields\<close>

lemma pb_release_union_field_post:
  assumes T: "flds \<in> T" "i < nfields flds" and env: "de_fields env = tables" and al: "allocator_ok env H"
    and n: "2 * rk flds + 1 \<le> n"
  shows "\<exists>ok sd' j. pb_release_union_field n env (iter_at flds dest i) sd = Some (ok, sd', iter_at flds dest j)
    \<and> j < nfields flds \<and> dstep (region env H flds dest) sd sd'"
proof -
  let ?it = "iter_at flds dest i" and ?A = "region env H flds dest"
  let ?old = "load_u32 (ds_mem (snd sd)) (it_pSize ?it)" and ?new = "pf_tag (it_field ?it)"
  have err: "dstep ?A sd (is_set_error msg (fst sd), d)" if "dframe ?A (snd sd) d" for msg d
    using that by (simp add: dstep_def dframe_def)
  show ?thesis
  proof (cases "?old = 0 \<or> ?old = ?new")
    case True
    then show ?thesis using T(2) by (auto simp: pb_release_union_field_def Let_def)
  next
    case False
    from pb_field_iter_find_result [OF T(2), of ?old dest] show ?thesis
    proof (elim disjE exE conjE)
      fix j assume j: "j < nfields flds" "pb_field_iter_find ?it ?old = Some (True, iter_at flds dest j)"
      from release_frame(1) [OF env al T(1) j(1) n, of dest "snd sd"] obtain d where
        d: "pb_release_single_field n env (iter_at flds dest j) (snd sd) = Some d" "dframe ?A (snd sd) d"
        using dframe_region by blast
      then have st: "dstep ?A sd (fst sd, d)" by (simp add: dstep_def dframe_def)
      from pb_field_iter_find_result [OF j(1), of ?new dest] show ?thesis
        using False j d st err [OF d(2)] by (auto simp: pb_release_union_field_def Let_def)
    next
      assume "pb_field_iter_find ?it ?old = Some (False, ?it)"
      then show ?thesis using False T(2) err [of "snd sd"] by (auto simp: pb_release_union_field_def Let_def)
    qed
  qed
qed

text \<open>The preconditions on the environment that all of the following lemmas share.\<close>

definition dec_ok :: "nat \<Rightarrow> ('s, 'h) dec_env \<Rightarrow> addr set \<Rightarrow> ('s, 'h) pdec \<Rightarrow> ('s, 'h) pdec \<Rightarrow> pb_field list \<Rightarrow> addr \<Rightarrow> bool" where
  "dec_ok n env H pdecode pnoinit flds dest \<longleftrightarrow> flds \<in> T \<and> de_fields env = tables \<and> allocator_ok env H \<and> apart H flds dest
     \<and> 2 * rk flds + 1 \<le> n \<and> decodes_below env H (rk flds) pdecode \<and> decodes_below env H (rk flds) pnoinit"

lemma decode_at_post:
  assumes ok: "dec_ok n env H pdecode pnoinit flds dest" and it: "iter_ok env flds dest i it" and bd: "reader_bounded (fst sd)"
  shows "dpost (region env H flds dest) sd
     (let at = PB_ATYPE (pf_type (it_field it)) in
      if at = PB_ATYPE_STATIC then decode_static_field n env pdecode pnoinit wt it sd
      else if at = PB_ATYPE_POINTER then decode_pointer_field n env pdecode pnoinit wt it sd
      else if at = PB_ATYPE_CALLBACK then decode_callback_field env wt it sd
      else Some (dec_error sd ''invalid field type''))"
proof -
  let ?ty = "pf_type (field_at flds i)"
  note io = iter_ok_simps(1,2) [OF it]
  from ok have a: "flds \<in> T" "de_fields env = tables" "allocator_ok env H" "apart H flds dest" "2 * rk flds + 1 \<le> n"
    "decodes_below env H (rk flds) pdecode" "decodes_below env H (rk flds) pnoinit" "2 * rk flds \<le> n" by (simp_all add: dec_ok_def)
  show ?thesis
  proof (cases "PB_ATYPE ?ty = PB_ATYPE_STATIC")
    case True
    with decode_static_field_post [OF a(1) it a(2,4,3,8,6,7) True bd] show ?thesis by (simp add: io Let_def)
  next
    case False
    note at = fits_atype(1) [OF a(1) io(1) False]
    have "it = iter_at flds dest i" using a(1) it at by (rule iter_ok_pointer)
    with decode_pointer_repeated_post [OF a(1) io(1) a(2,4,3,8,6,7) at _ bd]
      decode_pointer_single_post [OF a(1) io(1) a(2,4,3,5-7) at _ bd] False at
    show ?thesis by (auto simp: iter_at_field [OF io(1)] Let_def)
  qed
qed

lemma decode_field_post:
  assumes ok: "dec_ok n env H pdecode pnoinit flds dest" and it: "iter_ok env flds dest i it" and bd: "reader_bounded (fst sd)"
  shows "\<exists>b sd' j it'. decode_field n env pdecode pnoinit wt it sd = Some (b, sd', it') \<and> iter_ok env flds dest j it'
    \<and> dstep (region env H flds dest) sd sd'"
proof -
  let ?A = "region env H flds dest"
  let ?u = "if PB_HTYPE (pf_type (it_field it)) = PB_HTYPE_ONEOF then pb_release_union_field n env it sd else Some (True, sd, it)"
  note io = iter_ok_simps [OF it]
  have "\<exists>b sd' j it'. ?u = Some (b, sd', it') \<and> iter_ok env flds dest j it' \<and> dstep ?A sd sd'"
  proof (cases "PB_HTYPE (pf_type (it_field it)) = PB_HTYPE_ONEOF")
    case True
    then have "it = iter_at flds dest i" by (intro io(6)) (simp add: io(2) pb_consts)
    with pb_release_union_field_post [OF _ io(1), of env H n dest sd] ok True show ?thesis
      by (auto simp: dec_ok_def iter_ok_def)
  qed (use it in auto)
  then obtain b sd1 j it1 where u: "?u = Some (b, sd1, it1)" "iter_ok env flds dest j it1" "dstep ?A sd sd1" by blast
  show ?thesis
  proof (cases b)
    case False
    with u show ?thesis unfolding decode_field_def by auto
  next
    case True
    from decode_at_post [OF ok u(2) dstep_bounded [OF u(3) bd], of wt] obtain b' sd2 where
      "(let at = PB_ATYPE (pf_type (it_field it1)) in
      if at = PB_ATYPE_STATIC then decode_static_field n env pdecode pnoinit wt it1 sd1
      else if at = PB_ATYPE_POINTER then decode_pointer_field n env pdecode pnoinit wt it1 sd1
      else if at = PB_ATYPE_CALLBACK then decode_callback_field env wt it1 sd1
      else Some (dec_error sd1 ''invalid field type'')) = Some (b', sd2)" "dstep ?A sd1 sd2"
      by (auto simp: dpost_def)
    then show ?thesis
      using u(2) dstep_trans [OF u(3)] True unfolding decode_field_def u(1) Let_def by simp blast
  qed
qed

section \<open>Unknown fields\<close>

text \<open>A changed \<open>pSize\<close> is recomputed with the first step of a search.\<close>

lemma find_loop_iter_ok:
  assumes it: "iter_ok env flds dest i it"
  shows "\<exists>j it'. find_loop i P it = Some (\<exists>k < nfields flds. P (field_at flds k), it') \<and> iter_ok env flds dest j it'
    \<and> ((\<exists>k < nfields flds. P (field_at flds k)) \<longrightarrow> P (it_field it'))"
proof (cases "it = iter_at flds dest i \<or> \<not> P (field_at flds i)")
  case True
  note io = iter_ok_simps [OF it]
  have "find_loop i P it = find_loop i P (iter_at flds dest i)"
  proof (cases "it = iter_at flds dest i")
    case False
    then obtain loc where loc: "it = (iter_at flds dest i)\<lparr>it_pSize := loc\<rparr>"
      "PB_HTYPE (pf_type (field_at flds i)) = PB_HTYPE_REPEATED" using it by (auto simp: iter_ok_def)
    then have "pb_field_iter_next it = pb_field_iter_next (iter_at flds dest i)"
      using iter_at_field [OF io(1), of dest] iter_at_pos [OF io(1), of dest] field_at_tag_nonzero [OF io(1)]
      by (simp add: pb_field_iter_next_def Let_def it_field_def pb_consts)
    then show ?thesis
      using True False io(1,2)
      by (subst (1 2) find_loop.simps) (simp add: iter_at_field)
  qed simp
  then show ?thesis
    using find_loop_result [OF io(1), of P dest] io(1) by (auto simp: iter_ok_def iter_at_field)
next
  case False
  note io = iter_ok_simps [OF it]
  have "find_loop i P it = Some (True, it)" using False io(2) by (subst find_loop.simps) simp
  then show ?thesis using False it io(1,2) by auto
qed

lemma pb_field_iter_find_ok:
  assumes it: "iter_ok env flds dest i it"
  shows "\<exists>found j it'. pb_field_iter_find it tag = Some (found, it') \<and> iter_ok env flds dest j it'"
  using find_loop_iter_ok [OF it, of "it_matches tag"] iter_ok_simps(4) [OF it]
  unfolding pb_field_iter_find_def by blast

text \<open>A table that fits has no extension fields, so every unknown field is skipped.\<close>

lemma decode_unknown_post:
  assumes T: "flds \<in> T" and it: "iter_ok env flds dest i (nl_iter l)" and tag: "tag < 2 ^ 29"
  shows "\<exists>b sd' j l'. decode_unknown n env pdecode pnoinit tag wt l sd = Some (b, sd', l')
    \<and> iter_ok env flds dest j (nl_iter l') \<and> dstep A sd sd'"
proof -
  obtain v t where r: "pb_skip_field (fst sd) wt = (v, t)" by (cases "pb_skip_field (fst sd) wt")
  have st: "dstep A sd (t, snd sd)" using pb_skip_field_shrinks [of "fst sd" wt] r by (intro dstep_stream) (simp add: shrinks_def)
  have "\<not> (\<exists>k < nfields flds. PB_LTYPE (pf_type (field_at flds k)) = PB_LTYPE_EXTENSION)"
    using fits_not_extension [OF T] by blast
  with find_loop_iter_ok [OF it, of "\<lambda>f. PB_LTYPE (pf_type f) = PB_LTYPE_EXTENSION"]
  obtain j it' where f: "find_extension_field (nl_iter l) = Some (False, it')" "iter_ok env flds dest j it'"
    using iter_ok_simps(4) [OF it] by (auto simp: find_extension_field_def)
  have "\<not> (- 1 :: u32) \<le> tag" using tag by (simp add: word_le_nat_alt word_less_nat_alt unsigned_minus_1_eq_mask mask_eq_exp_minus_1)
  then show ?thesis using r st f it by (auto simp: decode_unknown_def Let_def)
qed

section \<open>Known fields\<close>

lemma decode_known_post:
  assumes ok: "dec_ok n env H pdecode pnoinit flds dest" and it: "iter_ok env flds dest i (nl_iter l)"
    and loc: "range_of loc 4 \<subseteq> local_vars env" and bd: "reader_bounded (fst sd)"
  shows "\<exists>b sd' j l'. decode_known n env pdecode pnoinit loc wt l sd = Some (b, sd', l')
    \<and> iter_ok env flds dest j (nl_iter l') \<and> dstep (region env H flds dest) sd sd'"
proof -
  let ?A = "region env H flds dest" and ?it = "nl_iter l"
  note io = iter_ok_simps [OF it]
  let ?fixed = "PB_HTYPE (pf_type (it_field ?it)) = PB_HTYPE_REPEATED \<and> it_pSize ?it = it_pData ?it"
  let ?first = "if ?fixed then
           if nl_fixed_count_field l \<noteq> Some (it_pos ?it) then
             (if fixed_count_wrong loc l (ds_mem (snd sd))
              then Some (False, (is_set_error ''wrong size for fixed count field'' (fst sd), snd sd), l)
              else Some (True, dec_store (\<lambda>m. store_u32 m loc 0) sd,
                     l\<lparr>nl_fixed_count_field := Some (it_pos ?it), nl_iter := ?it\<lparr>it_pSize := loc\<rparr>\<rparr>))
           else Some (True, sd, l\<lparr>nl_iter := ?it\<lparr>it_pSize := loc\<rparr>\<rparr>)
         else Some (True, sd, l)"
  have locit: "iter_ok env flds dest i (?it\<lparr>it_pSize := loc\<rparr>)" if ?fixed
    using it loc that io(2) by (auto simp: iter_ok_def iter_at_field)
  have "dstep ?A sd (dec_store (\<lambda>m. store_u32 m loc 0) sd)"
    using loc by (intro dstep_store frame_store_u32) (auto simp: region_def)
  moreover have "dstep ?A sd (is_set_error msg (fst sd), snd sd)" for msg by (simp add: dstep_def)
  ultimately have "\<exists>b sd1 l1. ?first = Some (b, sd1, l1) \<and> iter_ok env flds dest i (nl_iter l1) \<and> dstep ?A sd sd1"
    using it locit by (cases ?fixed) (auto simp del: split_paired_Ex)
  then obtain b sd1 l1 where u: "?first = Some (b, sd1, l1)" "iter_ok env flds dest i (nl_iter l1)" "dstep ?A sd sd1" by blast
  show ?thesis
  proof (cases b)
    case False
    then show ?thesis using u unfolding decode_known_def Let_def u(1) by auto
  next
    case True
    from decode_field_post [OF ok u(2) dstep_bounded [OF u(3) bd], of wt] obtain b' sd2 j it2 where
      "decode_field n env pdecode pnoinit wt (nl_iter l1) sd1 = Some (b', sd2, it2)" "iter_ok env flds dest j it2" "dstep ?A sd1 sd2"
      by blast
    then show ?thesis
      using True dstep_trans [OF u(3)] unfolding decode_known_def Let_def u(1) by (auto simp del: split_paired_Ex)
  qed
qed

section \<open>Messages\<close>

text \<open>Every field takes its tag from the stream, so the loop over the fields ends.\<close>

lemma noinit_loop_post:
  assumes ok: "dec_ok n env H pdecode pnoinit flds dest" and loc: "range_of loc 4 \<subseteq> local_vars env"
  shows "\<lbrakk>iter_ok env flds dest i (nl_iter l); reader_bounded (fst sd); unat (is_bytes_left (fst sd)) < k\<rbrakk> \<Longrightarrow>
    \<exists>b sd' j l'. noinit_loop k n env pdecode pnoinit loc (sd, l) = Some (b, sd', l')
      \<and> iter_ok env flds dest j (nl_iter l') \<and> dstep (region env H flds dest) sd sd'"
proof (induction k arbitrary: i sd l)
  case (Suc k)
  let ?A = "region env H flds dest"
  show ?case
  proof (cases "is_bytes_left (fst sd) = 0")
    case True
    then show ?thesis using Suc.prems(1) by (auto simp del: split_paired_Ex)
  next
    case left: False
    obtain b wt tag eof t where tag: "pb_decode_tag (fst sd) = (b, wt, tag, eof, t)" by (cases "pb_decode_tag (fst sd)")
    note ts = pb_decode_tag_stream [OF tag]
    have st: "dstep ?A sd (t, snd sd)" using ts(1) by (rule dstep_stream)
    show ?thesis
    proof (cases b)
      case False
      then show ?thesis using left tag st Suc.prems(1) by auto
    next
      case True
      obtain found j it where f: "pb_field_iter_find (nl_iter l) tag = Some (found, it)" "iter_ok env flds dest j it"
        using pb_field_iter_find_ok [OF Suc.prems(1)] by blast
      let ?l = "l\<lparr>nl_iter := it\<rparr>"
      let ?step = "if found then decode_known n env pdecode pnoinit loc wt ?l (t, snd sd)
        else decode_unknown n env pdecode pnoinit tag wt ?l (t, snd sd)"
      have it: "iter_ok env flds dest j (nl_iter ?l)" using f(2) by simp
      have bd: "reader_bounded (fst (t, snd sd))" using dstep_bounded [OF st Suc.prems(2)] .
      have "\<exists>b1 sd1 j1 l1. ?step = Some (b1, sd1, l1) \<and> iter_ok env flds dest j1 (nl_iter l1) \<and> dstep ?A (t, snd sd) sd1"
        using decode_known_post [OF ok it loc bd, of wt] decode_unknown_post [OF _ it ts(3) [OF True], of n pdecode pnoinit wt "(t, snd sd)" ?A] ok
        by (cases found) (simp_all add: dec_ok_def del: split_paired_Ex)
      then obtain b1 sd1 j1 l1 where s: "?step = Some (b1, sd1, l1)" "iter_ok env flds dest j1 (nl_iter l1)" "dstep ?A (t, snd sd) sd1"
        by blast
      have st1: "dstep ?A sd sd1" using st s(3) by (rule dstep_trans)
      have eq: "noinit_loop (Suc k) n env pdecode pnoinit loc (sd, l) =
          oand_then (Some (b1, sd1, l1)) (noinit_loop k n env pdecode pnoinit loc)"
        using left tag True f(1) by (simp add: s(1) [symmetric])
      show ?thesis
      proof (cases b1)
        case False
        then show ?thesis unfolding eq using s(2) st1 by (auto simp del: split_paired_Ex)
      next
        case True
        have "unat (is_bytes_left (fst sd1)) < k"
          using ts(2) [OF \<open>b\<close>] s(3) Suc.prems(3) by (auto simp: dstep_def stream_less_def dest: stream_le_simps(2))
        from Suc.IH [OF s(2) dstep_bounded [OF st1 Suc.prems(2)] this] show ?thesis
          unfolding eq using True dstep_trans [OF st1] by (auto simp del: split_paired_Ex)
      qed
    qed
  qed
qed simp

lemma decode_noinit_body_post:
  assumes ok: "dec_ok n env H pdecode pnoinit flds dest" and bd: "reader_bounded (fst sd)"
  shows "dpost (region env H flds dest) sd (decode_noinit_body n env pdecode pnoinit flds dest sd)"
proof -
  let ?A = "region env H flds dest" and ?loc = "de_local env n"
  let ?l = "\<lparr>nl_iter = snd (pb_field_iter_begin flds dest), nl_fields_seen = [0, 0],
               nl_extension_range_start = 0, nl_fixed_count_field = None\<rparr>"
  let ?sd = "dec_store (\<lambda>m. store_u32 m ?loc 0) sd" and ?k = "Suc (unat (is_bytes_left (fst sd)))"
  note loc = local_vars_range [of env n]
  have st: "dstep ?A sd ?sd" using loc by (intro dstep_store frame_store_u32) (auto simp: region_def)
  have "0 < nfields flds" using ok nonempty by (simp add: dec_ok_def)
  then have it: "iter_ok env flds dest 0 (nl_iter ?l)" by (simp add: iter_ok_def)
  have "unat (is_bytes_left (fst ?sd)) < ?k" by (simp add: dec_store_def)
  from noinit_loop_post [OF ok loc it dstep_bounded [OF st bd] this]
  obtain b sd1 l1 where r: "noinit_loop ?k n env pdecode pnoinit ?loc (?sd, ?l) = Some (b, sd1, l1)" "dstep ?A ?sd sd1" by blast
  have st1: "dstep ?A sd sd1" using st r(2) by (rule dstep_trans)
  then have "dstep ?A sd (is_set_error msg (fst sd1), snd sd1)" for msg by (simp add: dstep_def)
  with st1 show ?thesis
    unfolding decode_noinit_body_def Let_def r(1) by (cases b) (auto simp: dpost_Some)
qed

lemma decode_body_post:
  assumes T: "flds \<in> T" and env: "de_fields env = tables" and al: "allocator_ok env H" and ap: "apart H flds dest"
    and n: "2 * rk flds + 2 \<le> n" and bd: "reader_bounded (fst sd)"
    and dec: "\<And>sd. reader_bounded (fst sd) \<Longrightarrow> dpost (region env H flds dest) sd (pnoinit flds dest sd)"
  shows "dpost (region env H flds dest) sd (decode_body n env pnoinit flds dest sd)"
proof -
  let ?A = "region env H flds dest"
  from set_to_defaults_frame(2) [OF env T n, of dest "ds_mem (snd sd)"] obtain m where
    m: "pb_message_set_to_defaults n env flds dest (ds_mem (snd sd)) = Some m" "frame ?A (ds_mem (snd sd)) m"
    using frame_region by blast
  let ?sd = "(fst sd, (snd sd)\<lparr>ds_mem := m\<rparr>)"
  have st: "dstep ?A sd ?sd" using m(2) by (simp add: dstep_def)
  from dec [of ?sd] bd obtain b sd1 where r: "pnoinit flds dest ?sd = Some (b, sd1)" "dstep ?A ?sd sd1"
    by (auto simp: dpost_def)
  have st1: "dstep ?A sd sd1" using st r(2) by (rule dstep_trans)
  from release_frame(2) [OF env al T n, of dest "snd sd1"] obtain d where
    d: "pb_release n env flds dest (snd sd1) = Some d" "dframe ?A (snd sd1) d" using dframe_region by blast
  have "dstep ?A sd1 (fst sd1, d)" using d(2) by (simp add: dstep_def dframe_def)
  with st1 have "dstep ?A sd (fst sd1, d)" by (rule dstep_trans)
  with st1 m(1) r(1) d(1) show ?thesis by (cases b) (auto simp: decode_body_def dpost_Some)
qed

text \<open>
  The whole decoder: with enough depth for the nesting of the tables it returns for every input, the
  stream only gets shorter, and memory outside the structure, the heap and the local variables
  keeps its contents.
\<close>

theorem decode_post:
  assumes env: "de_fields env = tables" and al: "allocator_ok env H"
  shows "\<lbrakk>flds \<in> T; apart H flds dest; 2 * rk flds + 2 \<le> n; reader_bounded (fst sd)\<rbrakk> \<Longrightarrow>
      dpost (region env H flds dest) sd (pb_decode_noinit n env flds dest sd)"
    and "\<lbrakk>flds \<in> T; apart H flds dest; 2 * rk flds + 3 \<le> n; reader_bounded (fst sd)\<rbrakk> \<Longrightarrow>
      dpost (region env H flds dest) sd (pb_decode n env flds dest sd)"
proof (induction n arbitrary: flds dest sd)
  case (Suc n)
  {
    case 1
    have "decodes_below env H (rk flds) (pb_decode n env)" "decodes_below env H (rk flds) (pb_decode_noinit n env)"
      unfolding decodes_below_def using Suc.IH 1(3) by auto
    then show ?case
      using 1 env al by (simp only: pb_decode_noinit.simps) (intro decode_noinit_body_post, simp_all add: dec_ok_def)
  next
    case 2
    then show ?case unfolding pb_decode.simps by (intro decode_body_post env al Suc.IH(1)) simp_all
  }
qed simp_all

end

section \<open>Memory buffers as input\<close>

lemma reader_bounded_buffer: "reader_bounded (pb_istream_from_buffer buf bufsize)"
  by (simp add: reader_bounded_def pb_istream_from_buffer_def buf_read_def Let_def)

text \<open>As long as the counter promises no more bytes than there are, no read is out of bounds.\<close>

definition buffer_inv :: "byte list \<Rightarrow> nat \<Rightarrow> ibuf \<Rightarrow> nat \<Rightarrow> bool" where
  "buffer_inv buf k st b \<longleftrightarrow> ib_bytes st = buf \<and> \<not> ib_oob st \<and> ib_next st + b \<le> k"

lemma reader_inv_buffer:
  assumes "k \<le> length buf"
  shows "reader_inv buf_read (buffer_inv buf k)"
  unfolding reader_inv_def
proof (intro conjI allI impI)
  fix st b b' assume "buffer_inv buf k st b" "b' \<le> b"
  then show "buffer_inv buf k st b'" by (simp add: buffer_inv_def)
next
  fix st w n b ok bs st' assume "buffer_inv buf k st b" "unat n \<le> b" "buf_read st w n = (ok, bs, st')"
  then show "buffer_inv buf k st' (if ok then b - unat n else b)"
    using assms by (auto simp: buffer_inv_def buf_read_def Let_def)
qed

lemma stream_le_buffer:
  assumes "stream_le (pb_istream_from_buffer buf bufsize) s" "unat bufsize \<le> length buf"
  shows "buffer_inv buf (unat bufsize) (is_state s) (unat (is_bytes_left s))"
  using assms(1)
proof (rule stream_le_inv)
  show "reader_inv (is_callback (pb_istream_from_buffer buf bufsize)) (buffer_inv buf (unat bufsize))"
    using reader_inv_buffer [OF assms(2)] by (simp add: pb_istream_from_buffer_def)
qed (simp add: pb_istream_from_buffer_def buffer_inv_def)

context decode_tables
begin

theorem decode_buffer_safe:
  assumes "de_fields env = tables" "allocator_ok env H" "flds \<in> T" "apart H flds dest" "2 * rk flds + 3 \<le> n"
    and "unat bufsize \<le> length buf"
  shows "\<exists>ok s d'. pb_decode n env flds dest (pb_istream_from_buffer buf bufsize, d) = Some (ok, s, d')
    \<and> buffer_inv buf (unat bufsize) (is_state s) (unat (is_bytes_left s))
    \<and> frame (region env H flds dest) (ds_mem d) (ds_mem d')"
proof -
  have "dpost (region env H flds dest) (pb_istream_from_buffer buf bufsize, d)
      (pb_decode n env flds dest (pb_istream_from_buffer buf bufsize, d))"
    using decode_post(2) [OF assms(1-5)] reader_bounded_buffer by simp
  then show ?thesis
    using stream_le_buffer [OF _ assms(6)] by (auto simp: dpost_def dstep_def)
qed

end

end
