(* ===== verification/Cct_Tables.thy ===== *)
theory Cct_Tables
  imports Pb_Init
begin

text \<open>
  The generated description of the messages of the log transport: \<^verbatim>\<open>cct.nanopb.h\<close> (enumerations,
  structures, initialisers, tags) and \<^verbatim>\<open>cct.nanopb.c\<close> (descriptor tables, default values). The
  tables are written with the macros of \<^verbatim>\<open>pb.h\<close>, as in the source.
\<close>

section \<open>Enumerations\<close>

datatype gdt_cct_NetworkConnectionInfo_NetworkType =
    gdt_cct_NetworkConnectionInfo_NetworkType_NONE
  | gdt_cct_NetworkConnectionInfo_NetworkType_MOBILE
  | gdt_cct_NetworkConnectionInfo_NetworkType_WIFI
  | gdt_cct_NetworkConnectionInfo_NetworkType_MOBILE_MMS
  | gdt_cct_NetworkConnectionInfo_NetworkType_MOBILE_SUPL
  | gdt_cct_NetworkConnectionInfo_NetworkType_MOBILE_DUN
  | gdt_cct_NetworkConnectionInfo_NetworkType_MOBILE_HIPRI
  | gdt_cct_NetworkConnectionInfo_NetworkType_WIMAX
  | gdt_cct_NetworkConnectionInfo_NetworkType_BLUETOOTH
  | gdt_cct_NetworkConnectionInfo_NetworkType_DUMMY
  | gdt_cct_NetworkConnectionInfo_NetworkType_ETHERNET
  | gdt_cct_NetworkConnectionInfo_NetworkType_MOBILE_FOTA
  | gdt_cct_NetworkConnectionInfo_NetworkType_MOBILE_IMS
  | gdt_cct_NetworkConnectionInfo_NetworkType_MOBILE_CBS
  | gdt_cct_NetworkConnectionInfo_NetworkType_WIFI_P2P
  | gdt_cct_NetworkConnectionInfo_NetworkType_MOBILE_IA
  | gdt_cct_NetworkConnectionInfo_NetworkType_MOBILE_EMERGENCY
  | gdt_cct_NetworkConnectionInfo_NetworkType_PROXY
  | gdt_cct_NetworkConnectionInfo_NetworkType_VPN

primrec gdt_cct_NetworkConnectionInfo_NetworkType_val :: "gdt_cct_NetworkConnectionInfo_NetworkType \<Rightarrow> int" where
  "gdt_cct_NetworkConnectionInfo_NetworkType_val gdt_cct_NetworkConnectionInfo_NetworkType_NONE = - 1"
| "gdt_cct_NetworkConnectionInfo_NetworkType_val gdt_cct_NetworkConnectionInfo_NetworkType_MOBILE = 0"
| "gdt_cct_NetworkConnectionInfo_NetworkType_val gdt_cct_NetworkConnectionInfo_NetworkType_WIFI = 1"
| "gdt_cct_NetworkConnectionInfo_NetworkType_val gdt_cct_NetworkConnectionInfo_NetworkType_MOBILE_MMS = 2"
| "gdt_cct_NetworkConnectionInfo_NetworkType_val gdt_cct_NetworkConnectionInfo_NetworkType_MOBILE_SUPL = 3"
| "gdt_cct_NetworkConnectionInfo_NetworkType_val gdt_cct_NetworkConnectionInfo_NetworkType_MOBILE_DUN = 4"
| "gdt_cct_NetworkConnectionInfo_NetworkType_val gdt_cct_NetworkConnectionInfo_NetworkType_MOBILE_HIPRI = 5"
| "gdt_cct_NetworkConnectionInfo_NetworkType_val gdt_cct_NetworkConnectionInfo_NetworkType_WIMAX = 6"
| "gdt_cct_NetworkConnectionInfo_NetworkType_val gdt_cct_NetworkConnectionInfo_NetworkType_BLUETOOTH = 7"
| "gdt_cct_NetworkConnectionInfo_NetworkType_val gdt_cct_NetworkConnectionInfo_NetworkType_DUMMY = 8"
| "gdt_cct_NetworkConnectionInfo_NetworkType_val gdt_cct_NetworkConnectionInfo_NetworkType_ETHERNET = 9"
| "gdt_cct_NetworkConnectionInfo_NetworkType_val gdt_cct_NetworkConnectionInfo_NetworkType_MOBILE_FOTA = 10"
| "gdt_cct_NetworkConnectionInfo_NetworkType_val gdt_cct_NetworkConnectionInfo_NetworkType_MOBILE_IMS = 11"
| "gdt_cct_NetworkConnectionInfo_NetworkType_val gdt_cct_NetworkConnectionInfo_NetworkType_MOBILE_CBS = 12"
| "gdt_cct_NetworkConnectionInfo_NetworkType_val gdt_cct_NetworkConnectionInfo_NetworkType_WIFI_P2P = 13"
| "gdt_cct_NetworkConnectionInfo_NetworkType_val gdt_cct_NetworkConnectionInfo_NetworkType_MOBILE_IA = 14"
| "gdt_cct_NetworkConnectionInfo_NetworkType_val gdt_cct_NetworkConnectionInfo_NetworkType_MOBILE_EMERGENCY = 15"
| "gdt_cct_NetworkConnectionInfo_NetworkType_val gdt_cct_NetworkConnectionInfo_NetworkType_PROXY = 16"
| "gdt_cct_NetworkConnectionInfo_NetworkType_val gdt_cct_NetworkConnectionInfo_NetworkType_VPN = 17"

definition gdt_cct_NetworkConnectionInfo_NetworkType_MIN :: gdt_cct_NetworkConnectionInfo_NetworkType where
  "gdt_cct_NetworkConnectionInfo_NetworkType_MIN = gdt_cct_NetworkConnectionInfo_NetworkType_NONE"

definition gdt_cct_NetworkConnectionInfo_NetworkType_MAX :: gdt_cct_NetworkConnectionInfo_NetworkType where
  "gdt_cct_NetworkConnectionInfo_NetworkType_MAX = gdt_cct_NetworkConnectionInfo_NetworkType_VPN"

definition gdt_cct_NetworkConnectionInfo_NetworkType_ARRAYSIZE :: int where
  "gdt_cct_NetworkConnectionInfo_NetworkType_ARRAYSIZE = gdt_cct_NetworkConnectionInfo_NetworkType_val gdt_cct_NetworkConnectionInfo_NetworkType_VPN + 1"

datatype gdt_cct_NetworkConnectionInfo_MobileSubtype =
    gdt_cct_NetworkConnectionInfo_MobileSubtype_UNKNOWN_MOBILE_SUBTYPE
  | gdt_cct_NetworkConnectionInfo_MobileSubtype_GPRS
  | gdt_cct_NetworkConnectionInfo_MobileSubtype_EDGE
  | gdt_cct_NetworkConnectionInfo_MobileSubtype_UMTS
  | gdt_cct_NetworkConnectionInfo_MobileSubtype_CDMA
  | gdt_cct_NetworkConnectionInfo_MobileSubtype_EVDO_0
  | gdt_cct_NetworkConnectionInfo_MobileSubtype_EVDO_A
  | gdt_cct_NetworkConnectionInfo_MobileSubtype_RTT
  | gdt_cct_NetworkConnectionInfo_MobileSubtype_HSDPA
  | gdt_cct_NetworkConnectionInfo_MobileSubtype_HSUPA
  | gdt_cct_NetworkConnectionInfo_MobileSubtype_HSPA
  | gdt_cct_NetworkConnectionInfo_MobileSubtype_IDEN
  | gdt_cct_NetworkConnectionInfo_MobileSubtype_EVDO_B
  | gdt_cct_NetworkConnectionInfo_MobileSubtype_LTE
  | gdt_cct_NetworkConnectionInfo_MobileSubtype_EHRPD
  | gdt_cct_NetworkConnectionInfo_MobileSubtype_HSPAP
  | gdt_cct_NetworkConnectionInfo_MobileSubtype_GSM
  | gdt_cct_NetworkConnectionInfo_MobileSubtype_TD_SCDMA
  | gdt_cct_NetworkConnectionInfo_MobileSubtype_IWLAN
  | gdt_cct_NetworkConnectionInfo_MobileSubtype_LTE_CA
  | gdt_cct_NetworkConnectionInfo_MobileSubtype_COMBINED

primrec gdt_cct_NetworkConnectionInfo_MobileSubtype_val :: "gdt_cct_NetworkConnectionInfo_MobileSubtype \<Rightarrow> int" where
  "gdt_cct_NetworkConnectionInfo_MobileSubtype_val gdt_cct_NetworkConnectionInfo_MobileSubtype_UNKNOWN_MOBILE_SUBTYPE = 0"
| "gdt_cct_NetworkConnectionInfo_MobileSubtype_val gdt_cct_NetworkConnectionInfo_MobileSubtype_GPRS = 1"
| "gdt_cct_NetworkConnectionInfo_MobileSubtype_val gdt_cct_NetworkConnectionInfo_MobileSubtype_EDGE = 2"
| "gdt_cct_NetworkConnectionInfo_MobileSubtype_val gdt_cct_NetworkConnectionInfo_MobileSubtype_UMTS = 3"
| "gdt_cct_NetworkConnectionInfo_MobileSubtype_val gdt_cct_NetworkConnectionInfo_MobileSubtype_CDMA = 4"
| "gdt_cct_NetworkConnectionInfo_MobileSubtype_val gdt_cct_NetworkConnectionInfo_MobileSubtype_EVDO_0 = 5"
| "gdt_cct_NetworkConnectionInfo_MobileSubtype_val gdt_cct_NetworkConnectionInfo_MobileSubtype_EVDO_A = 6"
| "gdt_cct_NetworkConnectionInfo_MobileSubtype_val gdt_cct_NetworkConnectionInfo_MobileSubtype_RTT = 7"
| "gdt_cct_NetworkConnectionInfo_MobileSubtype_val gdt_cct_NetworkConnectionInfo_MobileSubtype_HSDPA = 8"
| "gdt_cct_NetworkConnectionInfo_MobileSubtype_val gdt_cct_NetworkConnectionInfo_MobileSubtype_HSUPA = 9"
| "gdt_cct_NetworkConnectionInfo_MobileSubtype_val gdt_cct_NetworkConnectionInfo_MobileSubtype_HSPA = 10"
| "gdt_cct_NetworkConnectionInfo_MobileSubtype_val gdt_cct_NetworkConnectionInfo_MobileSubtype_IDEN = 11"
| "gdt_cct_NetworkConnectionInfo_MobileSubtype_val gdt_cct_NetworkConnectionInfo_MobileSubtype_EVDO_B = 12"
| "gdt_cct_NetworkConnectionInfo_MobileSubtype_val gdt_cct_NetworkConnectionInfo_MobileSubtype_LTE = 13"
| "gdt_cct_NetworkConnectionInfo_MobileSubtype_val gdt_cct_NetworkConnectionInfo_MobileSubtype_EHRPD = 14"
| "gdt_cct_NetworkConnectionInfo_MobileSubtype_val gdt_cct_NetworkConnectionInfo_MobileSubtype_HSPAP = 15"
| "gdt_cct_NetworkConnectionInfo_MobileSubtype_val gdt_cct_NetworkConnectionInfo_MobileSubtype_GSM = 16"
| "gdt_cct_NetworkConnectionInfo_MobileSubtype_val gdt_cct_NetworkConnectionInfo_MobileSubtype_TD_SCDMA = 17"
| "gdt_cct_NetworkConnectionInfo_MobileSubtype_val gdt_cct_NetworkConnectionInfo_MobileSubtype_IWLAN = 18"
| "gdt_cct_NetworkConnectionInfo_MobileSubtype_val gdt_cct_NetworkConnectionInfo_MobileSubtype_LTE_CA = 19"
| "gdt_cct_NetworkConnectionInfo_MobileSubtype_val gdt_cct_NetworkConnectionInfo_MobileSubtype_COMBINED = 100"

definition gdt_cct_NetworkConnectionInfo_MobileSubtype_MIN :: gdt_cct_NetworkConnectionInfo_MobileSubtype where
  "gdt_cct_NetworkConnectionInfo_MobileSubtype_MIN = gdt_cct_NetworkConnectionInfo_MobileSubtype_UNKNOWN_MOBILE_SUBTYPE"

definition gdt_cct_NetworkConnectionInfo_MobileSubtype_MAX :: gdt_cct_NetworkConnectionInfo_MobileSubtype where
  "gdt_cct_NetworkConnectionInfo_MobileSubtype_MAX = gdt_cct_NetworkConnectionInfo_MobileSubtype_COMBINED"

definition gdt_cct_NetworkConnectionInfo_MobileSubtype_ARRAYSIZE :: int where
  "gdt_cct_NetworkConnectionInfo_MobileSubtype_ARRAYSIZE = gdt_cct_NetworkConnectionInfo_MobileSubtype_val gdt_cct_NetworkConnectionInfo_MobileSubtype_COMBINED + 1"

datatype gdt_cct_ClientInfo_ClientType =
    gdt_cct_ClientInfo_ClientType_CLIENT_UNKNOWN
  | gdt_cct_ClientInfo_ClientType_IOS_FIREBASE

primrec gdt_cct_ClientInfo_ClientType_val :: "gdt_cct_ClientInfo_ClientType \<Rightarrow> int" where
  "gdt_cct_ClientInfo_ClientType_val gdt_cct_ClientInfo_ClientType_CLIENT_UNKNOWN = 0"
| "gdt_cct_ClientInfo_ClientType_val gdt_cct_ClientInfo_ClientType_IOS_FIREBASE = 15"

definition gdt_cct_ClientInfo_ClientType_MIN :: gdt_cct_ClientInfo_ClientType where
  "gdt_cct_ClientInfo_ClientType_MIN = gdt_cct_ClientInfo_ClientType_CLIENT_UNKNOWN"

definition gdt_cct_ClientInfo_ClientType_MAX :: gdt_cct_ClientInfo_ClientType where
  "gdt_cct_ClientInfo_ClientType_MAX = gdt_cct_ClientInfo_ClientType_IOS_FIREBASE"

definition gdt_cct_ClientInfo_ClientType_ARRAYSIZE :: int where
  "gdt_cct_ClientInfo_ClientType_ARRAYSIZE = gdt_cct_ClientInfo_ClientType_val gdt_cct_ClientInfo_ClientType_IOS_FIREBASE + 1"

datatype gdt_cct_QosTierConfiguration_QosTier =
    gdt_cct_QosTierConfiguration_QosTier_DEFAULT
  | gdt_cct_QosTierConfiguration_QosTier_UNMETERED_ONLY
  | gdt_cct_QosTierConfiguration_QosTier_UNMETERED_OR_DAILY
  | gdt_cct_QosTierConfiguration_QosTier_FAST_IF_RADIO_AWAKE
  | gdt_cct_QosTierConfiguration_QosTier_NEVER

primrec gdt_cct_QosTierConfiguration_QosTier_val :: "gdt_cct_QosTierConfiguration_QosTier \<Rightarrow> int" where
  "gdt_cct_QosTierConfiguration_QosTier_val gdt_cct_QosTierConfiguration_QosTier_DEFAULT = 0"
| "gdt_cct_QosTierConfiguration_QosTier_val gdt_cct_QosTierConfiguration_QosTier_UNMETERED_ONLY = 1"
| "gdt_cct_QosTierConfiguration_QosTier_val gdt_cct_QosTierConfiguration_QosTier_UNMETERED_OR_DAILY = 2"
| "gdt_cct_QosTierConfiguration_QosTier_val gdt_cct_QosTierConfiguration_QosTier_FAST_IF_RADIO_AWAKE = 3"
| "gdt_cct_QosTierConfiguration_QosTier_val gdt_cct_QosTierConfiguration_QosTier_NEVER = 4"

definition gdt_cct_QosTierConfiguration_QosTier_MIN :: gdt_cct_QosTierConfiguration_QosTier where
  "gdt_cct_QosTierConfiguration_QosTier_MIN = gdt_cct_QosTierConfiguration_QosTier_DEFAULT"

definition gdt_cct_QosTierConfiguration_QosTier_MAX :: gdt_cct_QosTierConfiguration_QosTier where
  "gdt_cct_QosTierConfiguration_QosTier_MAX = gdt_cct_QosTierConfiguration_QosTier_NEVER"

definition gdt_cct_QosTierConfiguration_QosTier_ARRAYSIZE :: int where
  "gdt_cct_QosTierConfiguration_QosTier_ARRAYSIZE = gdt_cct_QosTierConfiguration_QosTier_val gdt_cct_QosTierConfiguration_QosTier_NEVER + 1"

section \<open>Structures\<close>

definition gdt_cct_IosClientInfo :: cstruct where
  "gdt_cct_IosClientInfo =
    [memb ''os_major_version'' (CPtr 8),
     memb ''os_full_version'' (CPtr 8),
     memb ''application_build'' (CPtr 8),
     memb ''country'' (CPtr 8),
     memb ''model'' (CPtr 8),
     memb ''language_code'' (CPtr 8),
     memb ''application_bundle_id'' (CPtr 8)]"

definition gdt_cct_ClientInfo :: cstruct where
  "gdt_cct_ClientInfo =
    [memb ''has_client_type'' CBool,
     memb ''client_type'' CEnum,
     memb ''has_ios_client_info'' CBool,
     memb ''ios_client_info'' (CStruct (struct_size gdt_cct_IosClientInfo) (struct_align gdt_cct_IosClientInfo))]"

definition gdt_cct_NetworkConnectionInfo :: cstruct where
  "gdt_cct_NetworkConnectionInfo =
    [memb ''has_network_type'' CBool,
     memb ''network_type'' CEnum,
     memb ''has_mobile_subtype'' CBool,
     memb ''mobile_subtype'' CEnum]"

definition gdt_cct_LogEvent :: cstruct where
  "gdt_cct_LogEvent =
    [memb ''has_event_time_ms'' CBool,
     memb ''event_time_ms'' CInt64,
     memb ''source_extension'' (CPtr 8),
     memb ''has_event_code'' CBool,
     memb ''event_code'' CInt32,
     memb ''has_timezone_offset_seconds'' CBool,
     memb ''timezone_offset_seconds'' CInt64,
     memb ''has_event_uptime_ms'' CBool,
     memb ''event_uptime_ms'' CInt64,
     memb ''has_network_connection_info'' CBool,
     memb ''network_connection_info'' (CStruct (struct_size gdt_cct_NetworkConnectionInfo) (struct_align gdt_cct_NetworkConnectionInfo))]"

definition gdt_cct_LogRequest :: cstruct where
  "gdt_cct_LogRequest =
    [memb ''has_client_info'' CBool,
     memb ''client_info'' (CStruct (struct_size gdt_cct_ClientInfo) (struct_align gdt_cct_ClientInfo)),
     memb ''has_log_source'' CBool,
     memb ''log_source'' CInt32,
     memb ''log_event_count'' CSize,
     memb ''log_event'' (CPtr (struct_size gdt_cct_LogEvent)),
     memb ''has_request_time_ms'' CBool,
     memb ''request_time_ms'' CInt64,
     memb ''has_request_uptime_ms'' CBool,
     memb ''request_uptime_ms'' CInt64,
     memb ''has_qos_tier'' CBool,
     memb ''qos_tier'' CEnum]"

definition gdt_cct_BatchedLogRequest :: cstruct where
  "gdt_cct_BatchedLogRequest =
    [memb ''log_request_count'' CSize,
     memb ''log_request'' (CPtr (struct_size gdt_cct_LogRequest))]"

definition gdt_cct_QosTierConfiguration :: cstruct where
  "gdt_cct_QosTierConfiguration =
    [memb ''has_qos_tier'' CBool,
     memb ''qos_tier'' CEnum,
     memb ''has_log_source'' CBool,
     memb ''log_source'' CInt32]"

definition gdt_cct_QosTiersOverride :: cstruct where
  "gdt_cct_QosTiersOverride =
    [memb ''qos_tier_configuration_count'' CSize,
     memb ''qos_tier_configuration'' (CPtr (struct_size gdt_cct_QosTierConfiguration)),
     memb ''has_qos_tier_fingerprint'' CBool,
     memb ''qos_tier_fingerprint'' CInt64]"

definition gdt_cct_LogResponse :: cstruct where
  "gdt_cct_LogResponse =
    [memb ''has_next_request_wait_millis'' CBool,
     memb ''next_request_wait_millis'' CInt64,
     memb ''has_qos_tier'' CBool,
     memb ''qos_tier'' (CStruct (struct_size gdt_cct_QosTiersOverride) (struct_align gdt_cct_QosTiersOverride))]"

section \<open>Initialisers\<close>

definition gdt_cct_IosClientInfo_init_default :: "cinit list" where
  "gdt_cct_IosClientInfo_init_default =
     [INull, INull, INull, INull, INull, INull, INull]"

definition gdt_cct_ClientInfo_init_default :: "cinit list" where
  "gdt_cct_ClientInfo_init_default =
     [IBool False,
      IInt (gdt_cct_ClientInfo_ClientType_val gdt_cct_ClientInfo_ClientType_MIN),
      IBool False, IStruct gdt_cct_IosClientInfo_init_default]"

definition gdt_cct_NetworkConnectionInfo_init_default :: "cinit list" where
  "gdt_cct_NetworkConnectionInfo_init_default =
     [IBool False,
      IInt (gdt_cct_NetworkConnectionInfo_NetworkType_val gdt_cct_NetworkConnectionInfo_NetworkType_NONE),
      IBool False,
      IInt (gdt_cct_NetworkConnectionInfo_MobileSubtype_val gdt_cct_NetworkConnectionInfo_MobileSubtype_UNKNOWN_MOBILE_SUBTYPE)]"

definition gdt_cct_LogEvent_init_default :: "cinit list" where
  "gdt_cct_LogEvent_init_default =
     [IBool False, IInt 0, INull, IBool False, IInt 0, IBool False, IInt 0, IBool False,
      IInt 0, IBool False, IStruct gdt_cct_NetworkConnectionInfo_init_default]"

definition gdt_cct_LogRequest_init_default :: "cinit list" where
  "gdt_cct_LogRequest_init_default =
     [IBool False, IStruct gdt_cct_ClientInfo_init_default, IBool False, IInt 0, IInt 0,
      INull, IBool False, IInt 0, IBool False, IInt 0, IBool False,
      IInt (gdt_cct_QosTierConfiguration_QosTier_val gdt_cct_QosTierConfiguration_QosTier_DEFAULT)]"

definition gdt_cct_BatchedLogRequest_init_default :: "cinit list" where
  "gdt_cct_BatchedLogRequest_init_default =
     [IInt 0, INull]"

definition gdt_cct_QosTierConfiguration_init_default :: "cinit list" where
  "gdt_cct_QosTierConfiguration_init_default =
     [IBool False,
      IInt (gdt_cct_QosTierConfiguration_QosTier_val gdt_cct_QosTierConfiguration_QosTier_MIN),
      IBool False, IInt 0]"

definition gdt_cct_QosTiersOverride_init_default :: "cinit list" where
  "gdt_cct_QosTiersOverride_init_default =
     [IInt 0, INull, IBool False, IInt 0]"

definition gdt_cct_LogResponse_init_default :: "cinit list" where
  "gdt_cct_LogResponse_init_default =
     [IBool False, IInt 0, IBool False, IStruct gdt_cct_QosTiersOverride_init_default]"

definition gdt_cct_IosClientInfo_init_zero :: "cinit list" where
  "gdt_cct_IosClientInfo_init_zero =
     [INull, INull, INull, INull, INull, INull, INull]"

definition gdt_cct_ClientInfo_init_zero :: "cinit list" where
  "gdt_cct_ClientInfo_init_zero =
     [IBool False,
      IInt (gdt_cct_ClientInfo_ClientType_val gdt_cct_ClientInfo_ClientType_MIN),
      IBool False, IStruct gdt_cct_IosClientInfo_init_zero]"

definition gdt_cct_NetworkConnectionInfo_init_zero :: "cinit list" where
  "gdt_cct_NetworkConnectionInfo_init_zero =
     [IBool False,
      IInt (gdt_cct_NetworkConnectionInfo_NetworkType_val gdt_cct_NetworkConnectionInfo_NetworkType_MIN),
      IBool False,
      IInt (gdt_cct_NetworkConnectionInfo_MobileSubtype_val gdt_cct_NetworkConnectionInfo_MobileSubtype_MIN)]"

definition gdt_cct_LogEvent_init_zero :: "cinit list" where
  "gdt_cct_LogEvent_init_zero =
     [IBool False, IInt 0, INull, IBool False, IInt 0, IBool False, IInt 0, IBool False,
      IInt 0, IBool False, IStruct gdt_cct_NetworkConnectionInfo_init_zero]"

definition gdt_cct_LogRequest_init_zero :: "cinit list" where
  "gdt_cct_LogRequest_init_zero =
     [IBool False, IStruct gdt_cct_ClientInfo_init_zero, IBool False, IInt 0, IInt 0, INull,
      IBool False, IInt 0, IBool False, IInt 0, IBool False,
      IInt (gdt_cct_QosTierConfiguration_QosTier_val gdt_cct_QosTierConfiguration_QosTier_MIN)]"

definition gdt_cct_BatchedLogRequest_init_zero :: "cinit list" where
  "gdt_cct_BatchedLogRequest_init_zero =
     [IInt 0, INull]"

definition gdt_cct_QosTierConfiguration_init_zero :: "cinit list" where
  "gdt_cct_QosTierConfiguration_init_zero =
     [IBool False,
      IInt (gdt_cct_QosTierConfiguration_QosTier_val gdt_cct_QosTierConfiguration_QosTier_MIN),
      IBool False, IInt 0]"

definition gdt_cct_QosTiersOverride_init_zero :: "cinit list" where
  "gdt_cct_QosTiersOverride_init_zero =
     [IInt 0, INull, IBool False, IInt 0]"

definition gdt_cct_LogResponse_init_zero :: "cinit list" where
  "gdt_cct_LogResponse_init_zero =
     [IBool False, IInt 0, IBool False, IStruct gdt_cct_QosTiersOverride_init_zero]"

section \<open>Tags\<close>

definition gdt_cct_BatchedLogRequest_log_request_tag :: pb_size_t where
  "gdt_cct_BatchedLogRequest_log_request_tag = 1"

definition gdt_cct_IosClientInfo_os_major_version_tag :: pb_size_t where
  "gdt_cct_IosClientInfo_os_major_version_tag = 3"

definition gdt_cct_IosClientInfo_os_full_version_tag :: pb_size_t where
  "gdt_cct_IosClientInfo_os_full_version_tag = 4"

definition gdt_cct_IosClientInfo_application_build_tag :: pb_size_t where
  "gdt_cct_IosClientInfo_application_build_tag = 5"

definition gdt_cct_IosClientInfo_country_tag :: pb_size_t where
  "gdt_cct_IosClientInfo_country_tag = 6"

definition gdt_cct_IosClientInfo_model_tag :: pb_size_t where
  "gdt_cct_IosClientInfo_model_tag = 7"

definition gdt_cct_IosClientInfo_language_code_tag :: pb_size_t where
  "gdt_cct_IosClientInfo_language_code_tag = 8"

definition gdt_cct_IosClientInfo_application_bundle_id_tag :: pb_size_t where
  "gdt_cct_IosClientInfo_application_bundle_id_tag = 11"

definition gdt_cct_ClientInfo_client_type_tag :: pb_size_t where
  "gdt_cct_ClientInfo_client_type_tag = 1"

definition gdt_cct_ClientInfo_ios_client_info_tag :: pb_size_t where
  "gdt_cct_ClientInfo_ios_client_info_tag = 4"

definition gdt_cct_NetworkConnectionInfo_network_type_tag :: pb_size_t where
  "gdt_cct_NetworkConnectionInfo_network_type_tag = 1"

definition gdt_cct_NetworkConnectionInfo_mobile_subtype_tag :: pb_size_t where
  "gdt_cct_NetworkConnectionInfo_mobile_subtype_tag = 2"

definition gdt_cct_QosTierConfiguration_qos_tier_tag :: pb_size_t where
  "gdt_cct_QosTierConfiguration_qos_tier_tag = 2"

definition gdt_cct_QosTierConfiguration_log_source_tag :: pb_size_t where
  "gdt_cct_QosTierConfiguration_log_source_tag = 3"

definition gdt_cct_QosTiersOverride_qos_tier_configuration_tag :: pb_size_t where
  "gdt_cct_QosTiersOverride_qos_tier_configuration_tag = 1"

definition gdt_cct_QosTiersOverride_qos_tier_fingerprint_tag :: pb_size_t where
  "gdt_cct_QosTiersOverride_qos_tier_fingerprint_tag = 2"

definition gdt_cct_LogEvent_event_time_ms_tag :: pb_size_t where
  "gdt_cct_LogEvent_event_time_ms_tag = 1"

definition gdt_cct_LogEvent_event_code_tag :: pb_size_t where
  "gdt_cct_LogEvent_event_code_tag = 11"

definition gdt_cct_LogEvent_event_uptime_ms_tag :: pb_size_t where
  "gdt_cct_LogEvent_event_uptime_ms_tag = 17"

definition gdt_cct_LogEvent_source_extension_tag :: pb_size_t where
  "gdt_cct_LogEvent_source_extension_tag = 6"

definition gdt_cct_LogEvent_timezone_offset_seconds_tag :: pb_size_t where
  "gdt_cct_LogEvent_timezone_offset_seconds_tag = 15"

definition gdt_cct_LogEvent_network_connection_info_tag :: pb_size_t where
  "gdt_cct_LogEvent_network_connection_info_tag = 23"

definition gdt_cct_LogRequest_request_time_ms_tag :: pb_size_t where
  "gdt_cct_LogRequest_request_time_ms_tag = 4"

definition gdt_cct_LogRequest_request_uptime_ms_tag :: pb_size_t where
  "gdt_cct_LogRequest_request_uptime_ms_tag = 8"

definition gdt_cct_LogRequest_client_info_tag :: pb_size_t where
  "gdt_cct_LogRequest_client_info_tag = 1"

definition gdt_cct_LogRequest_log_source_tag :: pb_size_t where
  "gdt_cct_LogRequest_log_source_tag = 2"

definition gdt_cct_LogRequest_log_event_tag :: pb_size_t where
  "gdt_cct_LogRequest_log_event_tag = 3"

definition gdt_cct_LogRequest_qos_tier_tag :: pb_size_t where
  "gdt_cct_LogRequest_qos_tier_tag = 9"

definition gdt_cct_LogResponse_next_request_wait_millis_tag :: pb_size_t where
  "gdt_cct_LogResponse_next_request_wait_millis_tag = 1"

definition gdt_cct_LogResponse_qos_tier_tag :: pb_size_t where
  "gdt_cct_LogResponse_qos_tier_tag = 3"

definition gdt_cct_NetworkConnectionInfo_size :: nat where
  "gdt_cct_NetworkConnectionInfo_size = 13"

definition gdt_cct_QosTierConfiguration_size :: nat where
  "gdt_cct_QosTierConfiguration_size = 13"

section \<open>Descriptor tables\<close>

text \<open>The addresses the linker gives to the tables and default values that other tables refer to.\<close>

record cct_link =
  lk_gdt_cct_NetworkConnectionInfo_fields :: addr
  lk_gdt_cct_NetworkConnectionInfo_network_type_default :: addr
  lk_gdt_cct_NetworkConnectionInfo_mobile_subtype_default :: addr
  lk_gdt_cct_IosClientInfo_fields :: addr
  lk_gdt_cct_LogRequest_fields :: addr
  lk_gdt_cct_ClientInfo_fields :: addr
  lk_gdt_cct_LogEvent_fields :: addr
  lk_gdt_cct_LogRequest_qos_tier_default :: addr
  lk_gdt_cct_QosTierConfiguration_log_source_default :: addr
  lk_gdt_cct_QosTierConfiguration_fields :: addr
  lk_gdt_cct_QosTiersOverride_fields :: addr

definition gdt_cct_LogEvent_fields :: "cct_link \<Rightarrow> pb_field list" where
  "gdt_cct_LogEvent_fields lk =
    [PB_FIELD 1 T_INT64 R_OPTIONAL A_STATIC P_FIRST gdt_cct_LogEvent ''event_time_ms'' ''event_time_ms''
       0,
     PB_FIELD 6 T_BYTES R_OPTIONAL A_POINTER P_OTHER gdt_cct_LogEvent ''source_extension'' ''event_time_ms''
       0,
     PB_FIELD 11 T_INT32 R_OPTIONAL A_STATIC P_OTHER gdt_cct_LogEvent ''event_code'' ''source_extension''
       0,
     PB_FIELD 15 T_SINT64 R_OPTIONAL A_STATIC P_OTHER gdt_cct_LogEvent ''timezone_offset_seconds'' ''event_code''
       0,
     PB_FIELD 17 T_INT64 R_OPTIONAL A_STATIC P_OTHER gdt_cct_LogEvent ''event_uptime_ms'' ''timezone_offset_seconds''
       0,
     PB_FIELD 23 T_MESSAGE R_OPTIONAL A_STATIC P_OTHER gdt_cct_LogEvent ''network_connection_info'' ''event_uptime_ms''
       (lk_gdt_cct_NetworkConnectionInfo_fields lk),
     PB_LAST_FIELD]"

definition gdt_cct_NetworkConnectionInfo_fields :: "cct_link \<Rightarrow> pb_field list" where
  "gdt_cct_NetworkConnectionInfo_fields lk =
    [PB_FIELD 1 T_ENUM R_OPTIONAL A_STATIC P_FIRST gdt_cct_NetworkConnectionInfo ''network_type'' ''network_type''
       (lk_gdt_cct_NetworkConnectionInfo_network_type_default lk),
     PB_FIELD 2 T_UENUM R_OPTIONAL A_STATIC P_OTHER gdt_cct_NetworkConnectionInfo ''mobile_subtype'' ''network_type''
       (lk_gdt_cct_NetworkConnectionInfo_mobile_subtype_default lk),
     PB_LAST_FIELD]"

definition gdt_cct_IosClientInfo_fields :: "cct_link \<Rightarrow> pb_field list" where
  "gdt_cct_IosClientInfo_fields lk =
    [PB_FIELD 3 T_BYTES R_OPTIONAL A_POINTER P_FIRST gdt_cct_IosClientInfo ''os_major_version'' ''os_major_version''
       0,
     PB_FIELD 4 T_BYTES R_OPTIONAL A_POINTER P_OTHER gdt_cct_IosClientInfo ''os_full_version'' ''os_major_version''
       0,
     PB_FIELD 5 T_BYTES R_OPTIONAL A_POINTER P_OTHER gdt_cct_IosClientInfo ''application_build'' ''os_full_version''
       0,
     PB_FIELD 6 T_BYTES R_OPTIONAL A_POINTER P_OTHER gdt_cct_IosClientInfo ''country'' ''application_build''
       0,
     PB_FIELD 7 T_BYTES R_OPTIONAL A_POINTER P_OTHER gdt_cct_IosClientInfo ''model'' ''country''
       0,
     PB_FIELD 8 T_BYTES R_OPTIONAL A_POINTER P_OTHER gdt_cct_IosClientInfo ''language_code'' ''model''
       0,
     PB_FIELD 11 T_BYTES R_OPTIONAL A_POINTER P_OTHER gdt_cct_IosClientInfo ''application_bundle_id'' ''language_code''
       0,
     PB_LAST_FIELD]"

definition gdt_cct_ClientInfo_fields :: "cct_link \<Rightarrow> pb_field list" where
  "gdt_cct_ClientInfo_fields lk =
    [PB_FIELD 1 T_UENUM R_OPTIONAL A_STATIC P_FIRST gdt_cct_ClientInfo ''client_type'' ''client_type''
       0,
     PB_FIELD 4 T_MESSAGE R_OPTIONAL A_STATIC P_OTHER gdt_cct_ClientInfo ''ios_client_info'' ''client_type''
       (lk_gdt_cct_IosClientInfo_fields lk),
     PB_LAST_FIELD]"

definition gdt_cct_BatchedLogRequest_fields :: "cct_link \<Rightarrow> pb_field list" where
  "gdt_cct_BatchedLogRequest_fields lk =
    [PB_FIELD 1 T_MESSAGE R_REPEATED A_POINTER P_FIRST gdt_cct_BatchedLogRequest ''log_request'' ''log_request''
       (lk_gdt_cct_LogRequest_fields lk),
     PB_LAST_FIELD]"

definition gdt_cct_LogRequest_fields :: "cct_link \<Rightarrow> pb_field list" where
  "gdt_cct_LogRequest_fields lk =
    [PB_FIELD 1 T_MESSAGE R_OPTIONAL A_STATIC P_FIRST gdt_cct_LogRequest ''client_info'' ''client_info''
       (lk_gdt_cct_ClientInfo_fields lk),
     PB_FIELD 2 T_INT32 R_OPTIONAL A_STATIC P_OTHER gdt_cct_LogRequest ''log_source'' ''client_info''
       0,
     PB_FIELD 3 T_MESSAGE R_REPEATED A_POINTER P_OTHER gdt_cct_LogRequest ''log_event'' ''log_source''
       (lk_gdt_cct_LogEvent_fields lk),
     PB_FIELD 4 T_INT64 R_OPTIONAL A_STATIC P_OTHER gdt_cct_LogRequest ''request_time_ms'' ''log_event''
       0,
     PB_FIELD 8 T_INT64 R_OPTIONAL A_STATIC P_OTHER gdt_cct_LogRequest ''request_uptime_ms'' ''request_time_ms''
       0,
     PB_FIELD 9 T_UENUM R_OPTIONAL A_STATIC P_OTHER gdt_cct_LogRequest ''qos_tier'' ''request_uptime_ms''
       (lk_gdt_cct_LogRequest_qos_tier_default lk),
     PB_LAST_FIELD]"

definition gdt_cct_QosTierConfiguration_fields :: "cct_link \<Rightarrow> pb_field list" where
  "gdt_cct_QosTierConfiguration_fields lk =
    [PB_FIELD 2 T_UENUM R_OPTIONAL A_STATIC P_FIRST gdt_cct_QosTierConfiguration ''qos_tier'' ''qos_tier''
       0,
     PB_FIELD 3 T_INT32 R_OPTIONAL A_STATIC P_OTHER gdt_cct_QosTierConfiguration ''log_source'' ''qos_tier''
       (lk_gdt_cct_QosTierConfiguration_log_source_default lk),
     PB_LAST_FIELD]"

definition gdt_cct_QosTiersOverride_fields :: "cct_link \<Rightarrow> pb_field list" where
  "gdt_cct_QosTiersOverride_fields lk =
    [PB_FIELD 1 T_MESSAGE R_REPEATED A_POINTER P_FIRST gdt_cct_QosTiersOverride ''qos_tier_configuration'' ''qos_tier_configuration''
       (lk_gdt_cct_QosTierConfiguration_fields lk),
     PB_FIELD 2 T_INT64 R_OPTIONAL A_STATIC P_OTHER gdt_cct_QosTiersOverride ''qos_tier_fingerprint'' ''qos_tier_configuration''
       0,
     PB_LAST_FIELD]"

definition gdt_cct_LogResponse_fields :: "cct_link \<Rightarrow> pb_field list" where
  "gdt_cct_LogResponse_fields lk =
    [PB_FIELD 1 T_INT64 R_OPTIONAL A_STATIC P_FIRST gdt_cct_LogResponse ''next_request_wait_millis'' ''next_request_wait_millis''
       0,
     PB_FIELD 3 T_MESSAGE R_OPTIONAL A_STATIC P_OTHER gdt_cct_LogResponse ''qos_tier'' ''next_request_wait_millis''
       (lk_gdt_cct_QosTiersOverride_fields lk),
     PB_LAST_FIELD]"

definition gdt_cct_NetworkConnectionInfo_network_type_default :: int where
  "gdt_cct_NetworkConnectionInfo_network_type_default = gdt_cct_NetworkConnectionInfo_NetworkType_val gdt_cct_NetworkConnectionInfo_NetworkType_NONE"

definition gdt_cct_NetworkConnectionInfo_mobile_subtype_default :: int where
  "gdt_cct_NetworkConnectionInfo_mobile_subtype_default = gdt_cct_NetworkConnectionInfo_MobileSubtype_val gdt_cct_NetworkConnectionInfo_MobileSubtype_UNKNOWN_MOBILE_SUBTYPE"

definition gdt_cct_LogRequest_qos_tier_default :: int where
  "gdt_cct_LogRequest_qos_tier_default = gdt_cct_QosTierConfiguration_QosTier_val gdt_cct_QosTierConfiguration_QosTier_DEFAULT"

definition gdt_cct_QosTierConfiguration_log_source_default :: int where
  "gdt_cct_QosTierConfiguration_log_source_default = 0"

text \<open>The table behind an address that a descriptor holds.\<close>

definition cct_tables :: "cct_link \<Rightarrow> addr \<Rightarrow> pb_field list" where
  "cct_tables lk p =
    (if p = lk_gdt_cct_NetworkConnectionInfo_fields lk then gdt_cct_NetworkConnectionInfo_fields lk
     else if p = lk_gdt_cct_IosClientInfo_fields lk then gdt_cct_IosClientInfo_fields lk
     else if p = lk_gdt_cct_LogRequest_fields lk then gdt_cct_LogRequest_fields lk
     else if p = lk_gdt_cct_ClientInfo_fields lk then gdt_cct_ClientInfo_fields lk
     else if p = lk_gdt_cct_LogEvent_fields lk then gdt_cct_LogEvent_fields lk
     else if p = lk_gdt_cct_QosTierConfiguration_fields lk then gdt_cct_QosTierConfiguration_fields lk
     else if p = lk_gdt_cct_QosTiersOverride_fields lk then gdt_cct_QosTiersOverride_fields lk
     else [PB_LAST_FIELD])"

lemmas cct_struct_defs =
  gdt_cct_IosClientInfo_def
  gdt_cct_ClientInfo_def
  gdt_cct_NetworkConnectionInfo_def
  gdt_cct_LogEvent_def
  gdt_cct_LogRequest_def
  gdt_cct_BatchedLogRequest_def
  gdt_cct_QosTierConfiguration_def
  gdt_cct_QosTiersOverride_def
  gdt_cct_LogResponse_def

lemmas cct_table_defs =
  gdt_cct_LogEvent_fields_def
  gdt_cct_NetworkConnectionInfo_fields_def
  gdt_cct_IosClientInfo_fields_def
  gdt_cct_ClientInfo_fields_def
  gdt_cct_BatchedLogRequest_fields_def
  gdt_cct_LogRequest_fields_def
  gdt_cct_QosTierConfiguration_fields_def
  gdt_cct_QosTiersOverride_fields_def
  gdt_cct_LogResponse_fields_def

lemmas cct_tag_defs =
  gdt_cct_BatchedLogRequest_log_request_tag_def
  gdt_cct_IosClientInfo_os_major_version_tag_def
  gdt_cct_IosClientInfo_os_full_version_tag_def
  gdt_cct_IosClientInfo_application_build_tag_def
  gdt_cct_IosClientInfo_country_tag_def
  gdt_cct_IosClientInfo_model_tag_def
  gdt_cct_IosClientInfo_language_code_tag_def
  gdt_cct_IosClientInfo_application_bundle_id_tag_def
  gdt_cct_ClientInfo_client_type_tag_def
  gdt_cct_ClientInfo_ios_client_info_tag_def
  gdt_cct_NetworkConnectionInfo_network_type_tag_def
  gdt_cct_NetworkConnectionInfo_mobile_subtype_tag_def
  gdt_cct_QosTierConfiguration_qos_tier_tag_def
  gdt_cct_QosTierConfiguration_log_source_tag_def
  gdt_cct_QosTiersOverride_qos_tier_configuration_tag_def
  gdt_cct_QosTiersOverride_qos_tier_fingerprint_tag_def
  gdt_cct_LogEvent_event_time_ms_tag_def
  gdt_cct_LogEvent_event_code_tag_def
  gdt_cct_LogEvent_event_uptime_ms_tag_def
  gdt_cct_LogEvent_source_extension_tag_def
  gdt_cct_LogEvent_timezone_offset_seconds_tag_def
  gdt_cct_LogEvent_network_connection_info_tag_def
  gdt_cct_LogRequest_request_time_ms_tag_def
  gdt_cct_LogRequest_request_uptime_ms_tag_def
  gdt_cct_LogRequest_client_info_tag_def
  gdt_cct_LogRequest_log_source_tag_def
  gdt_cct_LogRequest_log_event_tag_def
  gdt_cct_LogRequest_qos_tier_tag_def
  gdt_cct_LogResponse_next_request_wait_millis_tag_def
  gdt_cct_LogResponse_qos_tier_tag_def

end
