(* ===== verification/Firebasecore_Tables.thy ===== *)
theory Firebasecore_Tables
  imports Pb_Init
begin

text \<open>
  The generated description of the diagnostics message: \<^verbatim>\<open>firebasecore.nanopb.h\<close> and
  \<^verbatim>\<open>firebasecore.nanopb.c\<close>.
\<close>

section \<open>Enumerations\<close>

datatype logs_proto_mobilesdk_ios_ICoreConfiguration_ConfigurationType =
    logs_proto_mobilesdk_ios_ICoreConfiguration_ConfigurationType_UNKNOWN_CONFIGURATION_TYPE
  | logs_proto_mobilesdk_ios_ICoreConfiguration_ConfigurationType_CORE
  | logs_proto_mobilesdk_ios_ICoreConfiguration_ConfigurationType_SDK

primrec logs_proto_mobilesdk_ios_ICoreConfiguration_ConfigurationType_val :: "logs_proto_mobilesdk_ios_ICoreConfiguration_ConfigurationType \<Rightarrow> int" where
  "logs_proto_mobilesdk_ios_ICoreConfiguration_ConfigurationType_val logs_proto_mobilesdk_ios_ICoreConfiguration_ConfigurationType_UNKNOWN_CONFIGURATION_TYPE = 0"
| "logs_proto_mobilesdk_ios_ICoreConfiguration_ConfigurationType_val logs_proto_mobilesdk_ios_ICoreConfiguration_ConfigurationType_CORE = 1"
| "logs_proto_mobilesdk_ios_ICoreConfiguration_ConfigurationType_val logs_proto_mobilesdk_ios_ICoreConfiguration_ConfigurationType_SDK = 2"

definition logs_proto_mobilesdk_ios_ICoreConfiguration_ConfigurationType_MIN :: logs_proto_mobilesdk_ios_ICoreConfiguration_ConfigurationType where
  "logs_proto_mobilesdk_ios_ICoreConfiguration_ConfigurationType_MIN = logs_proto_mobilesdk_ios_ICoreConfiguration_ConfigurationType_UNKNOWN_CONFIGURATION_TYPE"

definition logs_proto_mobilesdk_ios_ICoreConfiguration_ConfigurationType_MAX :: logs_proto_mobilesdk_ios_ICoreConfiguration_ConfigurationType where
  "logs_proto_mobilesdk_ios_ICoreConfiguration_ConfigurationType_MAX = logs_proto_mobilesdk_ios_ICoreConfiguration_ConfigurationType_SDK"

definition logs_proto_mobilesdk_ios_ICoreConfiguration_ConfigurationType_ARRAYSIZE :: int where
  "logs_proto_mobilesdk_ios_ICoreConfiguration_ConfigurationType_ARRAYSIZE = logs_proto_mobilesdk_ios_ICoreConfiguration_ConfigurationType_val logs_proto_mobilesdk_ios_ICoreConfiguration_ConfigurationType_SDK + 1"

datatype logs_proto_mobilesdk_ios_ICoreConfiguration_BuildType =
    logs_proto_mobilesdk_ios_ICoreConfiguration_BuildType_UNKNOWN_BUILD_TYPE
  | logs_proto_mobilesdk_ios_ICoreConfiguration_BuildType_INTERNAL
  | logs_proto_mobilesdk_ios_ICoreConfiguration_BuildType_EAP
  | logs_proto_mobilesdk_ios_ICoreConfiguration_BuildType_PROD

primrec logs_proto_mobilesdk_ios_ICoreConfiguration_BuildType_val :: "logs_proto_mobilesdk_ios_ICoreConfiguration_BuildType \<Rightarrow> int" where
  "logs_proto_mobilesdk_ios_ICoreConfiguration_BuildType_val logs_proto_mobilesdk_ios_ICoreConfiguration_BuildType_UNKNOWN_BUILD_TYPE = 0"
| "logs_proto_mobilesdk_ios_ICoreConfiguration_BuildType_val logs_proto_mobilesdk_ios_ICoreConfiguration_BuildType_INTERNAL = 1"
| "logs_proto_mobilesdk_ios_ICoreConfiguration_BuildType_val logs_proto_mobilesdk_ios_ICoreConfiguration_BuildType_EAP = 2"
| "logs_proto_mobilesdk_ios_ICoreConfiguration_BuildType_val logs_proto_mobilesdk_ios_ICoreConfiguration_BuildType_PROD = 3"

definition logs_proto_mobilesdk_ios_ICoreConfiguration_BuildType_MIN :: logs_proto_mobilesdk_ios_ICoreConfiguration_BuildType where
  "logs_proto_mobilesdk_ios_ICoreConfiguration_BuildType_MIN = logs_proto_mobilesdk_ios_ICoreConfiguration_BuildType_UNKNOWN_BUILD_TYPE"

definition logs_proto_mobilesdk_ios_ICoreConfiguration_BuildType_MAX :: logs_proto_mobilesdk_ios_ICoreConfiguration_BuildType where
  "logs_proto_mobilesdk_ios_ICoreConfiguration_BuildType_MAX = logs_proto_mobilesdk_ios_ICoreConfiguration_BuildType_PROD"

definition logs_proto_mobilesdk_ios_ICoreConfiguration_BuildType_ARRAYSIZE :: int where
  "logs_proto_mobilesdk_ios_ICoreConfiguration_BuildType_ARRAYSIZE = logs_proto_mobilesdk_ios_ICoreConfiguration_BuildType_val logs_proto_mobilesdk_ios_ICoreConfiguration_BuildType_PROD + 1"

datatype logs_proto_mobilesdk_ios_ICoreConfiguration_ServiceType =
    logs_proto_mobilesdk_ios_ICoreConfiguration_ServiceType_UNKNOWN_SDK_SERVICE
  | logs_proto_mobilesdk_ios_ICoreConfiguration_ServiceType_ICORE
  | logs_proto_mobilesdk_ios_ICoreConfiguration_ServiceType_ADMOB
  | logs_proto_mobilesdk_ios_ICoreConfiguration_ServiceType_APP_INVITE
  | logs_proto_mobilesdk_ios_ICoreConfiguration_ServiceType_SIGN_IN
  | logs_proto_mobilesdk_ios_ICoreConfiguration_ServiceType_GCM
  | logs_proto_mobilesdk_ios_ICoreConfiguration_ServiceType_MAPS
  | logs_proto_mobilesdk_ios_ICoreConfiguration_ServiceType_SCION
  | logs_proto_mobilesdk_ios_ICoreConfiguration_ServiceType_ANALYTICS
  | logs_proto_mobilesdk_ios_ICoreConfiguration_ServiceType_APP_INDEXING
  | logs_proto_mobilesdk_ios_ICoreConfiguration_ServiceType_CONFIG
  | logs_proto_mobilesdk_ios_ICoreConfiguration_ServiceType_DURABLE_DEEP_LINKS
  | logs_proto_mobilesdk_ios_ICoreConfiguration_ServiceType_CRASH
  | logs_proto_mobilesdk_ios_ICoreConfiguration_ServiceType_AUTH
  | logs_proto_mobilesdk_ios_ICoreConfiguration_ServiceType_DATABASE
  | logs_proto_mobilesdk_ios_ICoreConfiguration_ServiceType_STORAGE
  | logs_proto_mobilesdk_ios_ICoreConfiguration_ServiceType_MESSAGING
  | logs_proto_mobilesdk_ios_ICoreConfiguration_ServiceType_MEASUREMENT
  | logs_proto_mobilesdk_ios_ICoreConfiguration_ServiceType_REMOTE_CONFIG
  | logs_proto_mobilesdk_ios_ICoreConfiguration_ServiceType_DYNAMIC_LINKS
  | logs_proto_mobilesdk_ios_ICoreConfiguration_ServiceType_INVITES
  | logs_proto_mobilesdk_ios_ICoreConfiguration_ServiceType_AUTH_UI
  | logs_proto_mobilesdk_ios_ICoreConfiguration_ServiceType_FIRESTORE
  | logs_proto_mobilesdk_ios_ICoreConfiguration_ServiceType_PERFORMANCE
  | logs_proto_mobilesdk_ios_ICoreConfiguration_ServiceType_ML_VISION_ON_DEVICE_FACE
  | logs_proto_mobilesdk_ios_ICoreConfiguration_ServiceType_ML_VISION_ON_DEVICE_BARCODE
  | logs_proto_mobilesdk_ios_ICoreConfiguration_ServiceType_ML_VISION_ON_DEVICE_TEXT
  | logs_proto_mobilesdk_ios_ICoreConfiguration_ServiceType_ML_VISION_ON_DEVICE_LABEL
  | logs_proto_mobilesdk_ios_ICoreConfiguration_ServiceType_ML_MODEL_INTERPRETER
  | logs_proto_mobilesdk_ios_ICoreConfiguration_ServiceType_IN_APP_MESSAGING
  | logs_proto_mobilesdk_ios_ICoreConfiguration_ServiceType_FUNCTIONS
  | logs_proto_mobilesdk_ios_ICoreConfiguration_ServiceType_ML_NATURAL_LANGUAGE
  | logs_proto_mobilesdk_ios_ICoreConfiguration_ServiceType_ML_VISION_ON_DEVICE_AUTOML
  | logs_proto_mobilesdk_ios_ICoreConfiguration_ServiceType_ML_VISION_ON_DEVICE_OBJECT_DETECTION

primrec logs_proto_mobilesdk_ios_ICoreConfiguration_ServiceType_val :: "logs_proto_mobilesdk_ios_ICoreConfiguration_ServiceType \<Rightarrow> int" where
  "logs_proto_mobilesdk_ios_ICoreConfiguration_ServiceType_val logs_proto_mobilesdk_ios_ICoreConfiguration_ServiceType_UNKNOWN_SDK_SERVICE = 0"
| "logs_proto_mobilesdk_ios_ICoreConfiguration_ServiceType_val logs_proto_mobilesdk_ios_ICoreConfiguration_ServiceType_ICORE = 1"
| "logs_proto_mobilesdk_ios_ICoreConfiguration_ServiceType_val logs_proto_mobilesdk_ios_ICoreConfiguration_ServiceType_ADMOB = 2"
| "logs_proto_mobilesdk_ios_ICoreConfiguration_ServiceType_val logs_proto_mobilesdk_ios_ICoreConfiguration_ServiceType_APP_INVITE = 3"
| "logs_proto_mobilesdk_ios_ICoreConfiguration_ServiceType_val logs_proto_mobilesdk_ios_ICoreConfiguration_ServiceType_SIGN_IN = 5"
| "logs_proto_mobilesdk_ios_ICoreConfiguration_ServiceType_val logs_proto_mobilesdk_ios_ICoreConfiguration_ServiceType_GCM = 6"
| "logs_proto_mobilesdk_ios_ICoreConfiguration_ServiceType_val logs_proto_mobilesdk_ios_ICoreConfiguration_ServiceType_MAPS = 7"
| "logs_proto_mobilesdk_ios_ICoreConfiguration_ServiceType_val logs_proto_mobilesdk_ios_ICoreConfiguration_ServiceType_SCION = 8"
| "logs_proto_mobilesdk_ios_ICoreConfiguration_ServiceType_val logs_proto_mobilesdk_ios_ICoreConfiguration_ServiceType_ANALYTICS = 9"
| "logs_proto_mobilesdk_ios_ICoreConfiguration_ServiceType_val logs_proto_mobilesdk_ios_ICoreConfiguration_ServiceType_APP_INDEXING = 10"
| "logs_proto_mobilesdk_ios_ICoreConfiguration_ServiceType_val logs_proto_mobilesdk_ios_ICoreConfiguration_ServiceType_CONFIG = 11"
| "logs_proto_mobilesdk_ios_ICoreConfiguration_ServiceType_val logs_proto_mobilesdk_ios_ICoreConfiguration_ServiceType_DURABLE_DEEP_LINKS = 12"
| "logs_proto_mobilesdk_ios_ICoreConfiguration_ServiceType_val logs_proto_mobilesdk_ios_ICoreConfiguration_ServiceType_CRASH = 13"
| "logs_proto_mobilesdk_ios_ICoreConfiguration_ServiceType_val logs_proto_mobilesdk_ios_ICoreConfiguration_ServiceType_AUTH = 14"
| "logs_proto_mobilesdk_ios_ICoreConfiguration_ServiceType_val logs_proto_mobilesdk_ios_ICoreConfiguration_ServiceType_DATABASE = 15"
| "logs_proto_mobilesdk_ios_ICoreConfiguration_ServiceType_val logs_proto_mobilesdk_ios_ICoreConfiguration_ServiceType_STORAGE = 16"
| "logs_proto_mobilesdk_ios_ICoreConfiguration_ServiceType_val logs_proto_mobilesdk_ios_ICoreConfiguration_ServiceType_MESSAGING = 17"
| "logs_proto_mobilesdk_ios_ICoreConfiguration_ServiceType_val logs_proto_mobilesdk_ios_ICoreConfiguration_ServiceType_MEASUREMENT = 18"
| "logs_proto_mobilesdk_ios_ICoreConfiguration_ServiceType_val logs_proto_mobilesdk_ios_ICoreConfiguration_ServiceType_REMOTE_CONFIG = 19"
| "logs_proto_mobilesdk_ios_ICoreConfiguration_ServiceType_val logs_proto_mobilesdk_ios_ICoreConfiguration_ServiceType_DYNAMIC_LINKS = 20"
| "logs_proto_mobilesdk_ios_ICoreConfiguration_ServiceType_val logs_proto_mobilesdk_ios_ICoreConfiguration_ServiceType_INVITES = 21"
| "logs_proto_mobilesdk_ios_ICoreConfiguration_ServiceType_val logs_proto_mobilesdk_ios_ICoreConfiguration_ServiceType_AUTH_UI = 22"
| "logs_proto_mobilesdk_ios_ICoreConfiguration_ServiceType_val logs_proto_mobilesdk_ios_ICoreConfiguration_ServiceType_FIRESTORE = 23"
| "logs_proto_mobilesdk_ios_ICoreConfiguration_ServiceType_val logs_proto_mobilesdk_ios_ICoreConfiguration_ServiceType_PERFORMANCE = 24"
| "logs_proto_mobilesdk_ios_ICoreConfiguration_ServiceType_val logs_proto_mobilesdk_ios_ICoreConfiguration_ServiceType_ML_VISION_ON_DEVICE_FACE = 26"
| "logs_proto_mobilesdk_ios_ICoreConfiguration_ServiceType_val logs_proto_mobilesdk_ios_ICoreConfiguration_ServiceType_ML_VISION_ON_DEVICE_BARCODE = 27"
| "logs_proto_mobilesdk_ios_ICoreConfiguration_ServiceType_val logs_proto_mobilesdk_ios_ICoreConfiguration_ServiceType_ML_VISION_ON_DEVICE_TEXT = 28"
| "logs_proto_mobilesdk_ios_ICoreConfiguration_ServiceType_val logs_proto_mobilesdk_ios_ICoreConfiguration_ServiceType_ML_VISION_ON_DEVICE_LABEL = 29"
| "logs_proto_mobilesdk_ios_ICoreConfiguration_ServiceType_val logs_proto_mobilesdk_ios_ICoreConfiguration_ServiceType_ML_MODEL_INTERPRETER = 30"
| "logs_proto_mobilesdk_ios_ICoreConfiguration_ServiceType_val logs_proto_mobilesdk_ios_ICoreConfiguration_ServiceType_IN_APP_MESSAGING = 31"
| "logs_proto_mobilesdk_ios_ICoreConfiguration_ServiceType_val logs_proto_mobilesdk_ios_ICoreConfiguration_ServiceType_FUNCTIONS = 32"
| "logs_proto_mobilesdk_ios_ICoreConfiguration_ServiceType_val logs_proto_mobilesdk_ios_ICoreConfiguration_ServiceType_ML_NATURAL_LANGUAGE = 33"
| "logs_proto_mobilesdk_ios_ICoreConfiguration_ServiceType_val logs_proto_mobilesdk_ios_ICoreConfiguration_ServiceType_ML_VISION_ON_DEVICE_AUTOML = 34"
| "logs_proto_mobilesdk_ios_ICoreConfiguration_ServiceType_val logs_proto_mobilesdk_ios_ICoreConfiguration_ServiceType_ML_VISION_ON_DEVICE_OBJECT_DETECTION = 35"

definition logs_proto_mobilesdk_ios_ICoreConfiguration_ServiceType_MIN :: logs_proto_mobilesdk_ios_ICoreConfiguration_ServiceType where
  "logs_proto_mobilesdk_ios_ICoreConfiguration_ServiceType_MIN = logs_proto_mobilesdk_ios_ICoreConfiguration_ServiceType_UNKNOWN_SDK_SERVICE"

definition logs_proto_mobilesdk_ios_ICoreConfiguration_ServiceType_MAX :: logs_proto_mobilesdk_ios_ICoreConfiguration_ServiceType where
  "logs_proto_mobilesdk_ios_ICoreConfiguration_ServiceType_MAX = logs_proto_mobilesdk_ios_ICoreConfiguration_ServiceType_ML_VISION_ON_DEVICE_OBJECT_DETECTION"

definition logs_proto_mobilesdk_ios_ICoreConfiguration_ServiceType_ARRAYSIZE :: int where
  "logs_proto_mobilesdk_ios_ICoreConfiguration_ServiceType_ARRAYSIZE = logs_proto_mobilesdk_ios_ICoreConfiguration_ServiceType_val logs_proto_mobilesdk_ios_ICoreConfiguration_ServiceType_ML_VISION_ON_DEVICE_OBJECT_DETECTION + 1"

datatype logs_proto_mobilesdk_ios_ICoreConfiguration_PodName =
    logs_proto_mobilesdk_ios_ICoreConfiguration_PodName_UNKNOWN_POD_NAME
  | logs_proto_mobilesdk_ios_ICoreConfiguration_PodName_GOOGLE
  | logs_proto_mobilesdk_ios_ICoreConfiguration_PodName_FIREBASE

primrec logs_proto_mobilesdk_ios_ICoreConfiguration_PodName_val :: "logs_proto_mobilesdk_ios_ICoreConfiguration_PodName \<Rightarrow> int" where
  "logs_proto_mobilesdk_ios_ICoreConfiguration_PodName_val logs_proto_mobilesdk_ios_ICoreConfiguration_PodName_UNKNOWN_POD_NAME = 0"
| "logs_proto_mobilesdk_ios_ICoreConfiguration_PodName_val logs_proto_mobilesdk_ios_ICoreConfiguration_PodName_GOOGLE = 1"
| "logs_proto_mobilesdk_ios_ICoreConfiguration_PodName_val logs_proto_mobilesdk_ios_ICoreConfiguration_PodName_FIREBASE = 2"

definition logs_proto_mobilesdk_ios_ICoreConfiguration_PodName_MIN :: logs_proto_mobilesdk_ios_ICoreConfiguration_PodName where
  "logs_proto_mobilesdk_ios_ICoreConfiguration_PodName_MIN = logs_proto_mobilesdk_ios_ICoreConfiguration_PodName_UNKNOWN_POD_NAME"

definition logs_proto_mobilesdk_ios_ICoreConfiguration_PodName_MAX :: logs_proto_mobilesdk_ios_ICoreConfiguration_PodName where
  "logs_proto_mobilesdk_ios_ICoreConfiguration_PodName_MAX = logs_proto_mobilesdk_ios_ICoreConfiguration_PodName_FIREBASE"

definition logs_proto_mobilesdk_ios_ICoreConfiguration_PodName_ARRAYSIZE :: int where
  "logs_proto_mobilesdk_ios_ICoreConfiguration_PodName_ARRAYSIZE = logs_proto_mobilesdk_ios_ICoreConfiguration_PodName_val logs_proto_mobilesdk_ios_ICoreConfiguration_PodName_FIREBASE + 1"

datatype logs_proto_mobilesdk_ios_ICoreConfiguration_DeploymentType =
    logs_proto_mobilesdk_ios_ICoreConfiguration_DeploymentType_UNKNOWN
  | logs_proto_mobilesdk_ios_ICoreConfiguration_DeploymentType_COCOAPODS
  | logs_proto_mobilesdk_ios_ICoreConfiguration_DeploymentType_ZIP_FILE
  | logs_proto_mobilesdk_ios_ICoreConfiguration_DeploymentType_CARTHAGE
  | logs_proto_mobilesdk_ios_ICoreConfiguration_DeploymentType_SPM

primrec logs_proto_mobilesdk_ios_ICoreConfiguration_DeploymentType_val :: "logs_proto_mobilesdk_ios_ICoreConfiguration_DeploymentType \<Rightarrow> int" where
  "logs_proto_mobilesdk_ios_ICoreConfiguration_DeploymentType_val logs_proto_mobilesdk_ios_ICoreConfiguration_DeploymentType_UNKNOWN = 0"
| "logs_proto_mobilesdk_ios_ICoreConfiguration_DeploymentType_val logs_proto_mobilesdk_ios_ICoreConfiguration_DeploymentType_COCOAPODS = 1"
| "logs_proto_mobilesdk_ios_ICoreConfiguration_DeploymentType_val logs_proto_mobilesdk_ios_ICoreConfiguration_DeploymentType_ZIP_FILE = 2"
| "logs_proto_mobilesdk_ios_ICoreConfiguration_DeploymentType_val logs_proto_mobilesdk_ios_ICoreConfiguration_DeploymentType_CARTHAGE = 3"
| "logs_proto_mobilesdk_ios_ICoreConfiguration_DeploymentType_val logs_proto_mobilesdk_ios_ICoreConfiguration_DeploymentType_SPM = 4"

definition logs_proto_mobilesdk_ios_ICoreConfiguration_DeploymentType_MIN :: logs_proto_mobilesdk_ios_ICoreConfiguration_DeploymentType where
  "logs_proto_mobilesdk_ios_ICoreConfiguration_DeploymentType_MIN = logs_proto_mobilesdk_ios_ICoreConfiguration_DeploymentType_UNKNOWN"

definition logs_proto_mobilesdk_ios_ICoreConfiguration_DeploymentType_MAX :: logs_proto_mobilesdk_ios_ICoreConfiguration_DeploymentType where
  "logs_proto_mobilesdk_ios_ICoreConfiguration_DeploymentType_MAX = logs_proto_mobilesdk_ios_ICoreConfiguration_DeploymentType_SPM"

definition logs_proto_mobilesdk_ios_ICoreConfiguration_DeploymentType_ARRAYSIZE :: int where
  "logs_proto_mobilesdk_ios_ICoreConfiguration_DeploymentType_ARRAYSIZE = logs_proto_mobilesdk_ios_ICoreConfiguration_DeploymentType_val logs_proto_mobilesdk_ios_ICoreConfiguration_DeploymentType_SPM + 1"

section \<open>Structures\<close>

definition logs_proto_mobilesdk_ios_ICoreConfiguration :: cstruct where
  "logs_proto_mobilesdk_ios_ICoreConfiguration =
    [memb ''has_configuration_type'' CBool,
     memb ''configuration_type'' CEnum,
     memb ''sdk_service_installed_count'' CSize,
     memb ''sdk_service_installed'' (CPtr (csizeof CEnum)),
     memb ''device_model'' (CPtr 8),
     memb ''app_id'' (CPtr 8),
     memb ''bundle_id'' (CPtr 8),
     memb ''has_pod_name'' CBool,
     memb ''pod_name'' CEnum,
     memb ''icore_version'' (CPtr 8),
     memb ''sdk_version'' (CPtr 8),
     memb ''has_sdk_name'' CBool,
     memb ''sdk_name'' CEnum,
     memb ''has_app_count'' CBool,
     memb ''app_count'' CInt32,
     memb ''os_version'' (CPtr 8),
     memb ''min_supported_ios_version'' (CPtr 8),
     memb ''has_use_default_app'' CBool,
     memb ''use_default_app'' CBool,
     memb ''has_deployed_in_app_store'' CBool,
     memb ''deployed_in_app_store'' CBool,
     memb ''has_dynamic_framework_count'' CBool,
     memb ''dynamic_framework_count'' CInt32,
     memb ''apple_framework_version'' (CPtr 8),
     memb ''has_using_zip_file'' CBool,
     memb ''using_zip_file'' CBool,
     memb ''has_deployment_type'' CBool,
     memb ''deployment_type'' CEnum,
     memb ''platform_info'' (CPtr 8),
     memb ''has_swizzling_enabled'' CBool,
     memb ''swizzling_enabled'' CBool,
     memb ''has_using_gdt'' CBool,
     memb ''using_gdt'' CBool]"

section \<open>Initialisers\<close>

definition logs_proto_mobilesdk_ios_ICoreConfiguration_init_default :: "cinit list" where
  "logs_proto_mobilesdk_ios_ICoreConfiguration_init_default =
     [IBool False,
      IInt (logs_proto_mobilesdk_ios_ICoreConfiguration_ConfigurationType_val logs_proto_mobilesdk_ios_ICoreConfiguration_ConfigurationType_MIN),
      IInt 0, INull, INull, INull, INull, IBool False,
      IInt (logs_proto_mobilesdk_ios_ICoreConfiguration_PodName_val logs_proto_mobilesdk_ios_ICoreConfiguration_PodName_MIN),
      INull, INull, IBool False,
      IInt (logs_proto_mobilesdk_ios_ICoreConfiguration_ServiceType_val logs_proto_mobilesdk_ios_ICoreConfiguration_ServiceType_MIN),
      IBool False, IInt 0, INull, INull, IBool False, IInt 0, IBool False, IInt 0,
      IBool False, IInt 0, INull, IBool False, IInt 0, IBool False,
      IInt (logs_proto_mobilesdk_ios_ICoreConfiguration_DeploymentType_val logs_proto_mobilesdk_ios_ICoreConfiguration_DeploymentType_MIN),
      INull, IBool False, IInt 0, IBool False, IInt 0]"

definition logs_proto_mobilesdk_ios_ICoreConfiguration_init_zero :: "cinit list" where
  "logs_proto_mobilesdk_ios_ICoreConfiguration_init_zero =
     [IBool False,
      IInt (logs_proto_mobilesdk_ios_ICoreConfiguration_ConfigurationType_val logs_proto_mobilesdk_ios_ICoreConfiguration_ConfigurationType_MIN),
      IInt 0, INull, INull, INull, INull, IBool False,
      IInt (logs_proto_mobilesdk_ios_ICoreConfiguration_PodName_val logs_proto_mobilesdk_ios_ICoreConfiguration_PodName_MIN),
      INull, INull, IBool False,
      IInt (logs_proto_mobilesdk_ios_ICoreConfiguration_ServiceType_val logs_proto_mobilesdk_ios_ICoreConfiguration_ServiceType_MIN),
      IBool False, IInt 0, INull, INull, IBool False, IInt 0, IBool False, IInt 0,
      IBool False, IInt 0, INull, IBool False, IInt 0, IBool False,
      IInt (logs_proto_mobilesdk_ios_ICoreConfiguration_DeploymentType_val logs_proto_mobilesdk_ios_ICoreConfiguration_DeploymentType_MIN),
      INull, IBool False, IInt 0, IBool False, IInt 0]"

section \<open>Tags\<close>

definition logs_proto_mobilesdk_ios_ICoreConfiguration_pod_name_tag :: pb_size_t where
  "logs_proto_mobilesdk_ios_ICoreConfiguration_pod_name_tag = 16"

definition logs_proto_mobilesdk_ios_ICoreConfiguration_configuration_type_tag :: pb_size_t where
  "logs_proto_mobilesdk_ios_ICoreConfiguration_configuration_type_tag = 1"

definition logs_proto_mobilesdk_ios_ICoreConfiguration_icore_version_tag :: pb_size_t where
  "logs_proto_mobilesdk_ios_ICoreConfiguration_icore_version_tag = 18"

definition logs_proto_mobilesdk_ios_ICoreConfiguration_sdk_version_tag :: pb_size_t where
  "logs_proto_mobilesdk_ios_ICoreConfiguration_sdk_version_tag = 19"

definition logs_proto_mobilesdk_ios_ICoreConfiguration_sdk_service_installed_tag :: pb_size_t where
  "logs_proto_mobilesdk_ios_ICoreConfiguration_sdk_service_installed_tag = 7"

definition logs_proto_mobilesdk_ios_ICoreConfiguration_sdk_name_tag :: pb_size_t where
  "logs_proto_mobilesdk_ios_ICoreConfiguration_sdk_name_tag = 20"

definition logs_proto_mobilesdk_ios_ICoreConfiguration_device_model_tag :: pb_size_t where
  "logs_proto_mobilesdk_ios_ICoreConfiguration_device_model_tag = 9"

definition logs_proto_mobilesdk_ios_ICoreConfiguration_os_version_tag :: pb_size_t where
  "logs_proto_mobilesdk_ios_ICoreConfiguration_os_version_tag = 22"

definition logs_proto_mobilesdk_ios_ICoreConfiguration_app_id_tag :: pb_size_t where
  "logs_proto_mobilesdk_ios_ICoreConfiguration_app_id_tag = 10"

definition logs_proto_mobilesdk_ios_ICoreConfiguration_bundle_id_tag :: pb_size_t where
  "logs_proto_mobilesdk_ios_ICoreConfiguration_bundle_id_tag = 12"

definition logs_proto_mobilesdk_ios_ICoreConfiguration_min_supported_ios_version_tag :: pb_size_t where
  "logs_proto_mobilesdk_ios_ICoreConfiguration_min_supported_ios_version_tag = 24"

definition logs_proto_mobilesdk_ios_ICoreConfiguration_use_default_app_tag :: pb_size_t where
  "logs_proto_mobilesdk_ios_ICoreConfiguration_use_default_app_tag = 25"

definition logs_proto_mobilesdk_ios_ICoreConfiguration_app_count_tag :: pb_size_t where
  "logs_proto_mobilesdk_ios_ICoreConfiguration_app_count_tag = 21"

definition logs_proto_mobilesdk_ios_ICoreConfiguration_deployed_in_app_store_tag :: pb_size_t where
  "logs_proto_mobilesdk_ios_ICoreConfiguration_deployed_in_app_store_tag = 26"

definition logs_proto_mobilesdk_ios_ICoreConfiguration_dynamic_framework_count_tag :: pb_size_t where
  "logs_proto_mobilesdk_ios_ICoreConfiguration_dynamic_framework_count_tag = 27"

definition logs_proto_mobilesdk_ios_ICoreConfiguration_apple_framework_version_tag :: pb_size_t where
  "logs_proto_mobilesdk_ios_ICoreConfiguration_apple_framework_version_tag = 28"

definition logs_proto_mobilesdk_ios_ICoreConfiguration_using_zip_file_tag :: pb_size_t where
  "logs_proto_mobilesdk_ios_ICoreConfiguration_using_zip_file_tag = 29"

definition logs_proto_mobilesdk_ios_ICoreConfiguration_deployment_type_tag :: pb_size_t where
  "logs_proto_mobilesdk_ios_ICoreConfiguration_deployment_type_tag = 30"

definition logs_proto_mobilesdk_ios_ICoreConfiguration_platform_info_tag :: pb_size_t where
  "logs_proto_mobilesdk_ios_ICoreConfiguration_platform_info_tag = 31"

definition logs_proto_mobilesdk_ios_ICoreConfiguration_swizzling_enabled_tag :: pb_size_t where
  "logs_proto_mobilesdk_ios_ICoreConfiguration_swizzling_enabled_tag = 33"

definition logs_proto_mobilesdk_ios_ICoreConfiguration_using_gdt_tag :: pb_size_t where
  "logs_proto_mobilesdk_ios_ICoreConfiguration_using_gdt_tag = 36"

section \<open>Descriptor tables\<close>

definition logs_proto_mobilesdk_ios_ICoreConfiguration_fields :: "pb_field list" where
  "logs_proto_mobilesdk_ios_ICoreConfiguration_fields =
    [PB_FIELD 1 T_UENUM R_OPTIONAL A_STATIC P_FIRST logs_proto_mobilesdk_ios_ICoreConfiguration ''configuration_type'' ''configuration_type''
       0,
     PB_FIELD 7 T_UENUM R_REPEATED A_POINTER P_OTHER logs_proto_mobilesdk_ios_ICoreConfiguration ''sdk_service_installed'' ''configuration_type''
       0,
     PB_FIELD 9 T_BYTES R_OPTIONAL A_POINTER P_OTHER logs_proto_mobilesdk_ios_ICoreConfiguration ''device_model'' ''sdk_service_installed''
       0,
     PB_FIELD 10 T_BYTES R_OPTIONAL A_POINTER P_OTHER logs_proto_mobilesdk_ios_ICoreConfiguration ''app_id'' ''device_model''
       0,
     PB_FIELD 12 T_BYTES R_OPTIONAL A_POINTER P_OTHER logs_proto_mobilesdk_ios_ICoreConfiguration ''bundle_id'' ''app_id''
       0,
     PB_FIELD 16 T_UENUM R_OPTIONAL A_STATIC P_OTHER logs_proto_mobilesdk_ios_ICoreConfiguration ''pod_name'' ''bundle_id''
       0,
     PB_FIELD 18 T_BYTES R_OPTIONAL A_POINTER P_OTHER logs_proto_mobilesdk_ios_ICoreConfiguration ''icore_version'' ''pod_name''
       0,
     PB_FIELD 19 T_BYTES R_OPTIONAL A_POINTER P_OTHER logs_proto_mobilesdk_ios_ICoreConfiguration ''sdk_version'' ''icore_version''
       0,
     PB_FIELD 20 T_UENUM R_OPTIONAL A_STATIC P_OTHER logs_proto_mobilesdk_ios_ICoreConfiguration ''sdk_name'' ''sdk_version''
       0,
     PB_FIELD 21 T_INT32 R_OPTIONAL A_STATIC P_OTHER logs_proto_mobilesdk_ios_ICoreConfiguration ''app_count'' ''sdk_name''
       0,
     PB_FIELD 22 T_BYTES R_OPTIONAL A_POINTER P_OTHER logs_proto_mobilesdk_ios_ICoreConfiguration ''os_version'' ''app_count''
       0,
     PB_FIELD 24 T_BYTES R_OPTIONAL A_POINTER P_OTHER logs_proto_mobilesdk_ios_ICoreConfiguration ''min_supported_ios_version'' ''os_version''
       0,
     PB_FIELD 25 T_BOOL R_OPTIONAL A_STATIC P_OTHER logs_proto_mobilesdk_ios_ICoreConfiguration ''use_default_app'' ''min_supported_ios_version''
       0,
     PB_FIELD 26 T_BOOL R_OPTIONAL A_STATIC P_OTHER logs_proto_mobilesdk_ios_ICoreConfiguration ''deployed_in_app_store'' ''use_default_app''
       0,
     PB_FIELD 27 T_INT32 R_OPTIONAL A_STATIC P_OTHER logs_proto_mobilesdk_ios_ICoreConfiguration ''dynamic_framework_count'' ''deployed_in_app_store''
       0,
     PB_FIELD 28 T_BYTES R_OPTIONAL A_POINTER P_OTHER logs_proto_mobilesdk_ios_ICoreConfiguration ''apple_framework_version'' ''dynamic_framework_count''
       0,
     PB_FIELD 29 T_BOOL R_OPTIONAL A_STATIC P_OTHER logs_proto_mobilesdk_ios_ICoreConfiguration ''using_zip_file'' ''apple_framework_version''
       0,
     PB_FIELD 30 T_UENUM R_OPTIONAL A_STATIC P_OTHER logs_proto_mobilesdk_ios_ICoreConfiguration ''deployment_type'' ''using_zip_file''
       0,
     PB_FIELD 31 T_BYTES R_OPTIONAL A_POINTER P_OTHER logs_proto_mobilesdk_ios_ICoreConfiguration ''platform_info'' ''deployment_type''
       0,
     PB_FIELD 33 T_BOOL R_OPTIONAL A_STATIC P_OTHER logs_proto_mobilesdk_ios_ICoreConfiguration ''swizzling_enabled'' ''platform_info''
       0,
     PB_FIELD 36 T_BOOL R_OPTIONAL A_STATIC P_OTHER logs_proto_mobilesdk_ios_ICoreConfiguration ''using_gdt'' ''swizzling_enabled''
       0,
     PB_LAST_FIELD]"

lemmas firebasecore_struct_defs =
  logs_proto_mobilesdk_ios_ICoreConfiguration_def

lemmas firebasecore_table_defs =
  logs_proto_mobilesdk_ios_ICoreConfiguration_fields_def

lemmas firebasecore_tag_defs =
  logs_proto_mobilesdk_ios_ICoreConfiguration_pod_name_tag_def
  logs_proto_mobilesdk_ios_ICoreConfiguration_configuration_type_tag_def
  logs_proto_mobilesdk_ios_ICoreConfiguration_icore_version_tag_def
  logs_proto_mobilesdk_ios_ICoreConfiguration_sdk_version_tag_def
  logs_proto_mobilesdk_ios_ICoreConfiguration_sdk_service_installed_tag_def
  logs_proto_mobilesdk_ios_ICoreConfiguration_sdk_name_tag_def
  logs_proto_mobilesdk_ios_ICoreConfiguration_device_model_tag_def
  logs_proto_mobilesdk_ios_ICoreConfiguration_os_version_tag_def
  logs_proto_mobilesdk_ios_ICoreConfiguration_app_id_tag_def
  logs_proto_mobilesdk_ios_ICoreConfiguration_bundle_id_tag_def
  logs_proto_mobilesdk_ios_ICoreConfiguration_min_supported_ios_version_tag_def
  logs_proto_mobilesdk_ios_ICoreConfiguration_use_default_app_tag_def
  logs_proto_mobilesdk_ios_ICoreConfiguration_app_count_tag_def
  logs_proto_mobilesdk_ios_ICoreConfiguration_deployed_in_app_store_tag_def
  logs_proto_mobilesdk_ios_ICoreConfiguration_dynamic_framework_count_tag_def
  logs_proto_mobilesdk_ios_ICoreConfiguration_apple_framework_version_tag_def
  logs_proto_mobilesdk_ios_ICoreConfiguration_using_zip_file_tag_def
  logs_proto_mobilesdk_ios_ICoreConfiguration_deployment_type_tag_def
  logs_proto_mobilesdk_ios_ICoreConfiguration_platform_info_tag_def
  logs_proto_mobilesdk_ios_ICoreConfiguration_swizzling_enabled_tag_def
  logs_proto_mobilesdk_ios_ICoreConfiguration_using_gdt_tag_def

end
