(* ===== verification/Pb_Ostream.thy ===== *)
theory Pb_Ostream
  imports Pb_Types
begin

text \<open>
  Output streams: \<open>struct pb_ostream_s\<close> of \<^verbatim>\<open>nanopb/pb_encode.h\<close> and the stream functions of
  \<^verbatim>\<open>nanopb/pb_encode.c\<close>, the interface a stream callback implements, and the notion of what an
  encoding routine writes, from which all results on the encoder are composed.
\<close>

section \<open>The stream structure\<close>

text \<open>
  The callback gets the stream's \<open>state\<close>, the bytes and their number; it returns a flag and the
  new state. The header file's rules for callbacks (use \<open>state\<close> for your own data, \<open>pb_write\<close>
  updates \<open>bytes_written\<close>) are what makes the rest of the stream invisible to it. A null
  callback marks a sizing stream. Error messages are values, a null message is \<open>None\<close>.
\<close>

type_synonym 's ocallback = "'s \<Rightarrow> byte list \<Rightarrow> size_t \<Rightarrow> bool \<times> 's"

record 's pb_ostream =
  os_callback :: "'s ocallback option"
  os_state :: 's
  os_max_size :: size_t
  os_bytes_written :: size_t
  os_errmsg :: "string option"

definition os_set_error :: "string \<Rightarrow> 's pb_ostream \<Rightarrow> 's pb_ostream" where
  "os_set_error msg strm = strm\<lparr>os_errmsg := PB_SET_ERROR (os_errmsg strm) msg\<rparr>"

definition os_return_error :: "'s pb_ostream \<Rightarrow> string \<Rightarrow> bool \<times> 's pb_ostream" where
  "os_return_error strm msg = (False, os_set_error msg strm)"

lemma os_set_error_simps [simp]:
  "os_callback (os_set_error m s) = os_callback s"
  "os_state (os_set_error m s) = os_state s"
  "os_max_size (os_set_error m s) = os_max_size s"
  "os_bytes_written (os_set_error m s) = os_bytes_written s"
  "os_errmsg (os_set_error m s) \<noteq> None"
  by (simp_all add: os_set_error_def)

text \<open>
  The initialiser of a sizing stream. Its state is a null pointer in C; it is never read, since
  the callback is null, and the model keeps an arbitrary value of the state type there.
\<close>

definition PB_OSTREAM_SIZING :: "'s \<Rightarrow> 's pb_ostream" where
  "PB_OSTREAM_SIZING st = \<lparr>os_callback = None, os_state = st, os_max_size = 0,
     os_bytes_written = 0, os_errmsg = None\<rparr>"

section \<open>Memory buffers as streams\<close>

text \<open>
  The state of a buffer stream is a pointer into the caller's buffer: the buffer's bytes, the
  position the pointer has reached, and a flag that records an access outside the buffer,
  which is undefined behaviour in C.
\<close>

record obuf =
  ob_bytes :: "byte list"
  ob_next :: nat
  ob_oob :: bool

text \<open>The loop \<^verbatim>\<open>for (i = 0; i < count; i++) dest[i] = buf[i]\<close>, \<open>k\<close> iterations from \<open>i\<close> on.\<close>

primrec copy_loop :: "nat \<Rightarrow> nat \<Rightarrow> nat \<Rightarrow> byte list \<Rightarrow> byte list \<Rightarrow> byte list" where
  "copy_loop 0 i dest buf mem = mem"
| "copy_loop (Suc k) i dest buf mem = copy_loop k (Suc i) dest buf (mem[dest + i := buf ! i])"

definition buf_write :: "obuf ocallback" where
  "buf_write st buf count =
     (let dest = ob_next st; n = unat count in
      (True, \<lparr>ob_bytes = copy_loop n 0 dest buf (ob_bytes st),
              ob_next = dest + n,
              ob_oob = (ob_oob st \<or> length (ob_bytes st) < dest + n \<or> length buf < n)\<rparr>))"

definition pb_ostream_from_buffer :: "byte list \<Rightarrow> size_t \<Rightarrow> obuf pb_ostream" where
  "pb_ostream_from_buffer buf bufsize =
     \<lparr>os_callback = Some buf_write,
      os_state = \<lparr>ob_bytes = buf, ob_next = 0, ob_oob = False\<rparr>,
      os_max_size = bufsize, os_bytes_written = 0, os_errmsg = None\<rparr>"

definition pb_write :: "'s pb_ostream \<Rightarrow> byte list \<Rightarrow> size_t \<Rightarrow> bool \<times> 's pb_ostream" where
  "pb_write strm buf count =
     (case (if 0 < count then os_callback strm else None) of
        None \<Rightarrow> (True, strm\<lparr>os_bytes_written := os_bytes_written strm + count\<rparr>)
      | Some cb \<Rightarrow>
          if os_bytes_written strm + count < os_bytes_written strm \<or>
             os_max_size strm < os_bytes_written strm + count
          then os_return_error strm ''stream full''
          else (case cb (os_state strm) buf count of
                  (False, st') \<Rightarrow> os_return_error (strm\<lparr>os_state := st'\<rparr>) ''io error''
                | (True, st') \<Rightarrow>
                    (True, strm\<lparr>os_state := st',
                                os_bytes_written := os_bytes_written strm + count\<rparr>)))"

section \<open>The copy loop\<close>

lemma length_copy_loop [simp]: "length (copy_loop k i d buf mem) = length mem"
  by (induction k arbitrary: i mem) simp_all

lemma copy_loop_nth:
  assumes "d + i + k \<le> length mem" and "j < length mem"
  shows "copy_loop k i d buf mem ! j =
    (if d + i \<le> j \<and> j < d + i + k then buf ! (j - d) else mem ! j)"
  using assms
proof (induction k arbitrary: i mem)
  case 0
  then show ?case by auto
next
  case (Suc k)
  have "copy_loop (Suc k) i d buf mem ! j =
      (if d + Suc i \<le> j \<and> j < d + Suc i + k then buf ! (j - d) else mem[d + i := buf ! i] ! j)"
    using Suc.prems by (simp add: Suc.IH)
  also have "\<dots> = (if d + i \<le> j \<and> j < d + i + Suc k then buf ! (j - d) else mem ! j)"
    using Suc.prems by (cases "j = d + i") auto
  finally show ?case .
qed

lemma copy_loop_eq:
  assumes "d + n \<le> length mem" and "n \<le> length buf"
  shows "copy_loop n 0 d buf mem = take d mem @ take n buf @ drop (d + n) mem"
proof (rule nth_equalityI)
  show "length (copy_loop n 0 d buf mem) = length (take d mem @ take n buf @ drop (d + n) mem)"
    using assms by simp
next
  fix j assume "j < length (copy_loop n 0 d buf mem)"
  then show "copy_loop n 0 d buf mem ! j = (take d mem @ take n buf @ drop (d + n) mem) ! j"
    using assms by (auto simp: copy_loop_nth nth_append)
qed

section \<open>The interface of a stream callback\<close>

text \<open>
  What the encoder relies on: as long as the callback's state has room, the callback accepts the
  bytes, appends exactly them to what has been written, and stays well-formed.
\<close>

locale ostream_callback =
  fixes cb :: "'s \<Rightarrow> byte list \<Rightarrow> size_t \<Rightarrow> bool \<times> 's"
    and written :: "'s \<Rightarrow> byte list"
    and room :: "'s \<Rightarrow> nat"
    and okst :: "'s \<Rightarrow> bool"
  assumes cb_accepts: "\<lbrakk>okst st; unat n \<le> length buf; unat n \<le> room st\<rbrakk> \<Longrightarrow>
      \<exists>st'. cb st buf n = (True, st') \<and> okst st' \<and>
        written st' = written st @ take (unat n) buf \<and> room st' = room st - unat n"

text \<open>The buffer callback implements it: \<open>room\<close> is what is left of the buffer.\<close>

definition ob_written :: "obuf \<Rightarrow> byte list" where
  "ob_written st = take (ob_next st) (ob_bytes st)"

definition ob_room :: "obuf \<Rightarrow> nat" where
  "ob_room st = length (ob_bytes st) - ob_next st"

definition ob_ok :: "obuf \<Rightarrow> bool" where
  "ob_ok st \<longleftrightarrow> \<not> ob_oob st \<and> ob_next st \<le> length (ob_bytes st)"

lemma buf_write_accepts:
  assumes "ob_ok st" "unat n \<le> length buf" "unat n \<le> ob_room st"
  shows "\<exists>st'. buf_write st buf n = (True, st') \<and> ob_ok st' \<and>
    ob_written st' = ob_written st @ take (unat n) buf \<and> ob_room st' = ob_room st - unat n"
proof -
  from assms have "ob_next st + unat n \<le> length (ob_bytes st)"
    by (auto simp: ob_ok_def ob_room_def)
  with assms show ?thesis
    by (auto simp: buf_write_def Let_def ob_ok_def ob_written_def ob_room_def copy_loop_eq)
qed

interpretation bufcb: ostream_callback buf_write ob_written ob_room ob_ok
  by unfold_locales (rule buf_write_accepts)

section \<open>What an encoding routine writes\<close>

text \<open>
  The abstract result of an encoding routine: the bytes it stands for, an error that does not
  depend on the stream, or a message so large (2^63 bytes) that the 64-bit size arithmetic of
  \<open>pb_encode_submessage\<close> is not covered.
\<close>

datatype enc = Bytes (enc_bytes: "byte list") | Enc_error | Too_big

fun enc_seq :: "enc \<Rightarrow> enc \<Rightarrow> enc" where
  "enc_seq (Bytes a) (Bytes b) = Bytes (a @ b)"
| "enc_seq (Bytes a) r = r"
| "enc_seq r _ = r"

lemma enc_seq_Nil [simp]: "enc_seq (Bytes []) r = r"
  by (cases r) simp_all

lemma enc_seq_assoc: "enc_seq (enc_seq a b) c = enc_seq a (enc_seq b c)"
  by (cases a; cases b; cases c) simp_all

lemma enc_seq_eq_Bytes:
  "enc_seq a b = Bytes bs \<longleftrightarrow> (\<exists>x y. a = Bytes x \<and> b = Bytes y \<and> bs = x @ y)"
  by (cases a; cases b) auto

text \<open>An encoding routine on a sizing stream: only the counter and the error message change.\<close>

definition sizes :: "('s pb_ostream \<Rightarrow> bool \<times> 's pb_ostream) \<Rightarrow> enc \<Rightarrow> bool" where
  "sizes f r \<longleftrightarrow> (\<forall>s. os_callback s = None \<longrightarrow> (case r of
      Bytes bs \<Rightarrow> f s = (True, s\<lparr>os_bytes_written := os_bytes_written s + of_nat (length bs)\<rparr>)
    | Enc_error \<Rightarrow> \<exists>s'. f s = (False, s') \<and> os_callback s' = None
    | Too_big \<Rightarrow> True))"

lemma sizes_BytesD: "sizes f (Bytes bs) \<Longrightarrow> os_callback s = None \<Longrightarrow>
    f s = (True, s\<lparr>os_bytes_written := os_bytes_written s + of_nat (length bs)\<rparr>)"
  by (simp add: sizes_def)

lemma sizes_ErrorD: "sizes f Enc_error \<Longrightarrow> os_callback s = None \<Longrightarrow>
    \<exists>s'. f s = (False, s') \<and> os_callback s' = None"
  by (simp add: sizes_def)

lemma sizes_seq:
  assumes f: "sizes f r" and g: "sizes g q"
  shows "sizes (\<lambda>s. and_then (f s) g) (enc_seq r q)"
proof (cases r)
  case (Bytes a)
  have seq: "and_then (f s) g = g (s\<lparr>os_bytes_written := os_bytes_written s + of_nat (length a)\<rparr>)"
    if "os_callback s = None" for s
    using sizes_BytesD [OF f [unfolded Bytes] that] by simp
  show ?thesis
  proof (cases q)
    case (Bytes b)
    with \<open>r = Bytes a\<close> show ?thesis
      using sizes_BytesD [OF g [unfolded Bytes]] by (simp add: sizes_def seq algebra_simps)
  next
    case Enc_error
    with \<open>r = Bytes a\<close> show ?thesis
      using sizes_ErrorD [OF g [unfolded Enc_error]] by (simp add: sizes_def seq)
  next
    case Too_big
    with \<open>r = Bytes a\<close> show ?thesis by (simp add: sizes_def)
  qed
next
  case Enc_error
  have "\<exists>s'. and_then (f s) g = (False, s') \<and> os_callback s' = None"
    if "os_callback s = None" for s
    using sizes_ErrorD [OF f [unfolded Enc_error] that] by auto
  with Enc_error show ?thesis by (simp add: sizes_def)
next
  case Too_big
  then show ?thesis by (simp add: sizes_def)
qed

context ostream_callback
begin

text \<open>
  A well-formed stream: the buffer behind the callback has room for all that \<open>max_size\<close> allows,
  and the size arithmetic stays below the word size.
\<close>

definition stream_ok :: "'s pb_ostream \<Rightarrow> bool" where
  "stream_ok s \<longleftrightarrow> os_callback s = Some cb \<and> okst (os_state s)
     \<and> os_bytes_written s \<le> os_max_size s \<and> unat (os_max_size s) < 2 ^ 63
     \<and> unat (os_max_size s) - unat (os_bytes_written s) \<le> room (os_state s)"

text \<open>\<open>s'\<close> is \<open>s\<close> after writing \<open>bs\<close>.\<close>

definition emitted :: "'s pb_ostream \<Rightarrow> byte list \<Rightarrow> 's pb_ostream \<Rightarrow> bool" where
  "emitted s bs s' \<longleftrightarrow> stream_ok s' \<and> written (os_state s') = written (os_state s) @ bs
     \<and> room (os_state s') = room (os_state s) - length bs
     \<and> os_max_size s' = os_max_size s \<and> (os_errmsg s = None \<longrightarrow> os_errmsg s' = None)
     \<and> unat (os_bytes_written s') = unat (os_bytes_written s) + length bs"

text \<open>
  \<open>s'\<close> is \<open>s\<close> after a failed call: something may have been written, but not past the limit, and
  the stream is still well-formed.
\<close>

definition aborted :: "'s pb_ostream \<Rightarrow> 's pb_ostream \<Rightarrow> bool" where
  "aborted s s' \<longleftrightarrow> stream_ok s' \<and> os_max_size s' = os_max_size s
     \<and> (\<exists>bs. written (os_state s') = written (os_state s) @ bs
          \<and> room (os_state s') = room (os_state s) - length bs
          \<and> unat (os_bytes_written s') = unat (os_bytes_written s) + length bs)"

definition emits :: "('s pb_ostream \<Rightarrow> bool \<times> 's pb_ostream) \<Rightarrow> enc \<Rightarrow> bool" where
  "emits f r \<longleftrightarrow> (\<forall>s. stream_ok s \<longrightarrow> (case r of
      Bytes bs \<Rightarrow>
        if unat (os_bytes_written s) + length bs \<le> unat (os_max_size s)
        then (\<exists>s'. f s = (True, s') \<and> emitted s bs s')
        else (\<exists>s'. f s = (False, s') \<and> aborted s s')
    | Enc_error \<Rightarrow> \<exists>s'. f s = (False, s') \<and> aborted s s'
    | Too_big \<Rightarrow> True))"

text \<open>A routine implements an abstract result if it does so on sizing and on writing streams.\<close>

definition implements :: "('s pb_ostream \<Rightarrow> bool \<times> 's pb_ostream) \<Rightarrow> enc \<Rightarrow> bool" where
  "implements f r \<longleftrightarrow> sizes f r \<and> emits f r"

lemma emitted_Nil: "stream_ok s \<Longrightarrow> emitted s [] s"
  by (simp add: emitted_def)

lemma emitted_aborted_trans:
  "emitted s bs s' \<Longrightarrow> aborted s' s'' \<Longrightarrow> aborted s s''"
  by (auto simp: emitted_def aborted_def intro: exI [where x = "bs @ _"])

lemma emitted_trans: "emitted s a s' \<Longrightarrow> emitted s' b s'' \<Longrightarrow> emitted s (a @ b) s''"
  by (auto simp: emitted_def)

lemma emitted_stream_ok: "emitted s a s' \<Longrightarrow> stream_ok s'"
  by (simp add: emitted_def)

lemma stream_ok_set_error [simp]: "stream_ok (os_set_error m s) = stream_ok s"
  by (simp add: stream_ok_def)

lemma aborted_refl_error: "stream_ok s \<Longrightarrow> aborted s (os_set_error m s)"
  by (auto simp: aborted_def)

lemma implements_Too_big [simp]: "implements f Too_big"
  by (simp add: implements_def sizes_def emits_def)

lemma implements_return: "implements (\<lambda>s. (True, s)) (Bytes [])"
  by (auto simp: implements_def sizes_def emits_def emitted_Nil stream_ok_def word_le_nat_alt)

lemma emits_BytesD:
  assumes "emits f (Bytes bs)" "stream_ok s"
    and "unat (os_bytes_written s) + length bs \<le> unat (os_max_size s)"
  obtains s' where "f s = (True, s')" "emitted s bs s'"
  using assms(1) [unfolded emits_def, rule_format, OF assms(2)] assms(3) by auto

lemma emits_fullD:
  assumes "emits f (Bytes bs)" "stream_ok s"
    and "\<not> unat (os_bytes_written s) + length bs \<le> unat (os_max_size s)"
  obtains s' where "f s = (False, s')" "aborted s s'"
  using assms(1) [unfolded emits_def, rule_format, OF assms(2)] assms(3) by auto

lemma emits_ErrorD:
  assumes "emits f Enc_error" "stream_ok s"
  obtains s' where "f s = (False, s')" "aborted s s'"
  using assms(1) [unfolded emits_def, rule_format, OF assms(2)] by auto

lemma emits_seq:
  assumes f: "emits f r" and g: "emits g q"
  shows "emits (\<lambda>s. and_then (f s) g) (enc_seq r q)"
proof (cases r)
  case (Bytes a)
  show ?thesis
    unfolding emits_def
  proof (intro allI impI)
    fix s assume ok: "stream_ok s"
    show "case enc_seq r q of
        Bytes bs \<Rightarrow>
          if unat (os_bytes_written s) + length bs \<le> unat (os_max_size s)
          then \<exists>s'. and_then (f s) g = (True, s') \<and> emitted s bs s'
          else \<exists>s'. and_then (f s) g = (False, s') \<and> aborted s s'
      | Enc_error \<Rightarrow> \<exists>s'. and_then (f s) g = (False, s') \<and> aborted s s'
      | Too_big \<Rightarrow> True"
    proof (cases "unat (os_bytes_written s) + length a \<le> unat (os_max_size s)")
      case True
      from emits_BytesD [OF f [unfolded Bytes] ok True]
      obtain s1 where s1: "f s = (True, s1)" "emitted s a s1" .
      then have "stream_ok s1" "os_max_size s1 = os_max_size s"
        "unat (os_bytes_written s1) = unat (os_bytes_written s) + length a"
        by (auto simp: emitted_def)
      note s1' = this
      show ?thesis
      proof (cases q)
        case q: (Bytes b)
        show ?thesis
        proof (cases "unat (os_bytes_written s1) + length b \<le> unat (os_max_size s1)")
          case True
          from emits_BytesD [OF g [unfolded q] s1'(1) True]
          obtain s2 where "g s1 = (True, s2)" "emitted s1 b s2" .
          then show ?thesis
            using s1 s1' True Bytes q by (auto simp: add.assoc intro: emitted_trans)
        next
          case False
          from emits_fullD [OF g [unfolded q] s1'(1) False]
          obtain s2 where "g s1 = (False, s2)" "aborted s1 s2" .
          then show ?thesis
            using s1 s1' False Bytes q by (auto simp: add.assoc intro: emitted_aborted_trans)
        qed
      next
        case q: Enc_error
        from emits_ErrorD [OF g [unfolded q] s1'(1)]
        obtain s2 where "g s1 = (False, s2)" "aborted s1 s2" .
        then show ?thesis
          using s1 Bytes q by (auto intro: emitted_aborted_trans)
      next
        case Too_big
        with Bytes show ?thesis by simp
      qed
    next
      case False
      from emits_fullD [OF f [unfolded Bytes] ok False]
      obtain s1 where "f s = (False, s1)" "aborted s s1" .
      with Bytes False show ?thesis
        by (cases q) auto
    qed
  qed
next
  case Enc_error
  have "\<exists>s'. and_then (f s) g = (False, s') \<and> aborted s s'" if "stream_ok s" for s
    using emits_ErrorD [OF f [unfolded Enc_error] that] by (metis and_then_False)
  with Enc_error show ?thesis by (simp add: emits_def)
next
  case Too_big
  then show ?thesis by (simp add: emits_def)
qed

lemma implements_seq:
  "implements f r \<Longrightarrow> implements g q \<Longrightarrow> implements (\<lambda>s. and_then (f s) g) (enc_seq r q)"
  by (simp add: implements_def sizes_seq emits_seq)

lemma implements_error: "implements (\<lambda>s. os_return_error s m) Enc_error"
  by (auto simp: implements_def sizes_def emits_def os_return_error_def aborted_refl_error)

lemma pb_write_sizes:
  assumes "unat n \<le> length buf"
  shows "sizes (\<lambda>s. pb_write s buf n) (Bytes (take (unat n) buf))"
  using assms by (simp add: sizes_def pb_write_def)

lemma pb_write_fits:
  assumes ok: "stream_ok s" and n: "unat n \<le> length buf"
    and fits: "unat (os_bytes_written s) + unat n \<le> unat (os_max_size s)"
  shows "\<exists>s'. pb_write s buf n = (True, s') \<and> emitted s (take (unat n) buf) s'"
proof (cases "n = 0")
  case True
  with ok show ?thesis by (simp add: pb_write_def emitted_Nil)
next
  case False
  have add: "unat (os_bytes_written s + n) = unat (os_bytes_written s) + unat n"
    using fits by (metis le_less_trans unat_add_no_overflow unsigned_less)
  from ok fits have "unat n \<le> room (os_state s)" by (auto simp: stream_ok_def)
  with ok n obtain st' where st': "cb (os_state s) buf n = (True, st')" "okst st'"
    "written st' = written (os_state s) @ take (unat n) buf"
    "room st' = room (os_state s) - unat n"
    using cb_accepts [of "os_state s" n buf] by (auto simp: stream_ok_def)
  have fit: "\<not> (os_bytes_written s + n < os_bytes_written s \<or>
      os_max_size s < os_bytes_written s + n)"
    using add fits by (simp add: word_less_nat_alt)
  from False have "0 < n" by (simp add: word_gt_0)
  with ok st' fit have "pb_write s buf n =
      (True, s\<lparr>os_state := st', os_bytes_written := os_bytes_written s + n\<rparr>)"
    by (simp add: pb_write_def stream_ok_def)
  with ok st' n fits add show ?thesis
    by (auto simp: emitted_def stream_ok_def word_le_nat_alt)
qed

lemma pb_write_full:
  assumes ok: "stream_ok s"
    and full: "\<not> unat (os_bytes_written s) + unat n \<le> unat (os_max_size s)"
  shows "pb_write s buf n = os_return_error s ''stream full''"
proof -
  from ok have "unat (os_bytes_written s) \<le> unat (os_max_size s)"
    by (simp add: stream_ok_def word_le_nat_alt)
  with full have "0 < n"
    by (metis add.right_neutral word_gt_0 unat_0)
  moreover have "os_bytes_written s + n < os_bytes_written s \<or>
      os_max_size s < os_bytes_written s + n"
  proof (cases "unat (os_bytes_written s) + unat n < 2 ^ 64")
    case True
    then have "unat (os_bytes_written s + n) = unat (os_bytes_written s) + unat n"
      by (simp add: unat_add_no_overflow)
    with full show ?thesis by (simp add: word_less_nat_alt)
  next
    case False
    then show ?thesis by (simp add: word_add_overflow_iff)
  qed
  ultimately show ?thesis
    using ok by (simp add: pb_write_def stream_ok_def)
qed

lemma pb_write_implements:
  assumes n: "unat n \<le> length buf"
  shows "implements (\<lambda>s. pb_write s buf n) (Bytes (take (unat n) buf))"
proof -
  have "emits (\<lambda>s. pb_write s buf n) (Bytes (take (unat n) buf))"
    using n pb_write_fits [of _ n buf] pb_write_full [of _ n buf]
    by (auto simp: emits_def os_return_error_def aborted_refl_error)
  with n show ?thesis by (simp add: implements_def pb_write_sizes)
qed

lemma pb_write_list_implements:
  "length bs < 2 ^ 64 \<Longrightarrow> implements (\<lambda>s. pb_write s bs (of_nat (length bs))) (Bytes bs)"
  using pb_write_implements [of "of_nat (length bs)" bs] by (simp add: unat_of_nat_64)

end

end
