(* ===== verification/Pb_Encode_Basic.thy ===== *)
theory Pb_Encode_Basic
  imports Pb_Ostream Pb_Wire
begin

text \<open>
  The helper functions of \<^verbatim>\<open>nanopb/pb_encode.c\<close> that write one primitive item: varints, zigzag
  varints, fixed-width words, tags and length-prefixed strings. Each is shown to write exactly
  the bytes of the wire format.
\<close>

section \<open>Definitions\<close>

text \<open>
  The loop of \<open>pb_encode_varint\<close>: \<open>buffer\<close> holds the bytes stored so far, the index \<open>i\<close> is its
  length.
\<close>

function varint_loop :: "u64 \<Rightarrow> byte list \<Rightarrow> byte list" where
  "varint_loop value buffer =
     (if value = 0 then buffer
      else varint_loop (drop_bit 7 value) (buffer @ [ucast ((value AND 0x7F) OR 0x80)]))"
  by pat_completeness auto
termination
proof (relation "measure (\<lambda>(value, buffer). unat value)")
  fix v :: u64 and buffer :: "byte list"
  assume "v \<noteq> 0"
  then have "0 < unat v" by (simp add: unat_gt_0)
  then show "((drop_bit 7 v, buffer @ [ucast ((v AND 0x7F) OR 0x80)]), v, buffer)
      \<in> measure (\<lambda>(value, buffer). unat value)"
    by (simp add: unat_drop_bit_word)
qed simp

declare varint_loop.simps [simp del]

definition pb_encode_varint :: "'s pb_ostream \<Rightarrow> u64 \<Rightarrow> bool \<times> 's pb_ostream" where
  "pb_encode_varint strm value =
     (if value \<le> 0x7F then pb_write strm [ucast value] 1
      else
        let buffer = varint_loop value [];
            i = length buffer;
            buffer = buffer[i - 1 := buffer ! (i - 1) AND 0x7F]
        in pb_write strm buffer (of_nat i))"

definition pb_encode_svarint :: "'s pb_ostream \<Rightarrow> u64 \<Rightarrow> bool \<times> 's pb_ostream" where
  "pb_encode_svarint strm value =
     (let zigzagged = (if sint value < 0 then NOT (push_bit 1 value) else push_bit 1 value)
      in pb_encode_varint strm zigzagged)"

definition pb_encode_fixed32 :: "'s pb_ostream \<Rightarrow> u32 \<Rightarrow> bool \<times> 's pb_ostream" where
  "pb_encode_fixed32 strm val =
     (let bytes = [ucast (val AND 0xFF),
                   ucast (drop_bit 8 val AND 0xFF),
                   ucast (drop_bit 16 val AND 0xFF),
                   ucast (drop_bit 24 val AND 0xFF)]
      in pb_write strm bytes 4)"

definition pb_encode_fixed64 :: "'s pb_ostream \<Rightarrow> u64 \<Rightarrow> bool \<times> 's pb_ostream" where
  "pb_encode_fixed64 strm val =
     (let bytes = [ucast (val AND 0xFF),
                   ucast (drop_bit 8 val AND 0xFF),
                   ucast (drop_bit 16 val AND 0xFF),
                   ucast (drop_bit 24 val AND 0xFF),
                   ucast (drop_bit 32 val AND 0xFF),
                   ucast (drop_bit 40 val AND 0xFF),
                   ucast (drop_bit 48 val AND 0xFF),
                   ucast (drop_bit 56 val AND 0xFF)]
      in pb_write strm bytes 8)"

definition pb_encode_tag :: "'s pb_ostream \<Rightarrow> pb_wire_type \<Rightarrow> u32 \<Rightarrow> bool \<times> 's pb_ostream" where
  "pb_encode_tag strm wiretype field_number =
     (let tag = push_bit 3 (ucast field_number :: u64) OR ucast wiretype
      in pb_encode_varint strm tag)"

definition pb_encode_tag_for_field :: "'s pb_ostream \<Rightarrow> pb_field \<Rightarrow> bool \<times> 's pb_ostream" where
  "pb_encode_tag_for_field strm field =
     (let lt = PB_LTYPE (pf_type field) in
      if lt = PB_LTYPE_BOOL \<or> lt = PB_LTYPE_VARINT \<or> lt = PB_LTYPE_UVARINT \<or> lt = PB_LTYPE_SVARINT
      then pb_encode_tag strm PB_WT_VARINT (pf_tag field)
      else if lt = PB_LTYPE_FIXED32 then pb_encode_tag strm PB_WT_32BIT (pf_tag field)
      else if lt = PB_LTYPE_FIXED64 then pb_encode_tag strm PB_WT_64BIT (pf_tag field)
      else if lt = PB_LTYPE_BYTES \<or> lt = PB_LTYPE_STRING \<or> lt = PB_LTYPE_SUBMESSAGE
              \<or> lt = PB_LTYPE_FIXED_LENGTH_BYTES
      then pb_encode_tag strm PB_WT_STRING (pf_tag field)
      else os_return_error strm ''invalid field type'')"

definition pb_encode_string :: "'s pb_ostream \<Rightarrow> byte list \<Rightarrow> size_t \<Rightarrow> bool \<times> 's pb_ostream" where
  "pb_encode_string strm buffer sz =
     and_then (pb_encode_varint strm sz) (\<lambda>strm. pb_write strm buffer sz)"

section \<open>The varint loop computes the varint\<close>

text \<open>The groups the loop stores, before the last one loses its continuation bit.\<close>

fun varint_groups :: "nat \<Rightarrow> byte list" where
  "varint_groups n = (if n = 0 then [] else of_nat (n mod 128 + 128) # varint_groups (n div 128))"

declare varint_groups.simps [simp del]

lemma varint_group_byte:
  "ucast ((v AND 0x7F) OR 0x80) = (of_nat (unat v mod 128 + 128) :: byte)" for v :: u64
proof -
  have "ucast ((v AND 0x7F) OR 0x80) = (ucast (v AND 0x7F) :: byte) OR 0x80"
    by (simp add: unsigned_or_eq)
  also have "ucast (v AND 0x7F) = (of_nat (unat v mod 128) :: byte)"
    by (metis of_nat_unat unat_and_127 ucast_id)
  also have "of_nat (unat v mod 128) OR 0x80 = (of_nat (unat v mod 128 + 128) :: byte)"
    by (rule byte_or_128) simp
  finally show ?thesis .
qed

lemma varint_loop_groups: "varint_loop v buf = buf @ varint_groups (unat v)"
proof (induction v buf rule: varint_loop.induct)
  case (1 v buf)
  show ?case
  proof (cases "v = 0")
    case True
    then show ?thesis by (simp add: varint_loop.simps varint_groups.simps)
  next
    case False
    then have "unat v \<noteq> 0" by (simp add: unat_eq_0)
    with False "1" show ?thesis
      by (simp add: varint_loop.simps [of v] varint_groups.simps [of "unat v"]
          varint_group_byte unat_drop_bit_word)
  qed
qed

lemma cont_byte_and_127: "m < 128 \<Longrightarrow> (of_nat m + 128 :: byte) AND 127 = of_nat m"
  by (simp add: word_unat_eq_iff unat_and_127 unat_cont_byte unat_of_nat_8)

lemma varint_groups_last:
  "0 < n \<Longrightarrow> (varint_groups n)[length (varint_groups n) - 1 :=
     varint_groups n ! (length (varint_groups n) - 1) AND 0x7F] = varint_bytes n"
proof (induction n rule: varint_bytes.induct)
  case (1 n)
  show ?case
  proof (cases "n < 128")
    case True
    with "1.prems" show ?thesis
      by (simp add: varint_groups.simps [of n] varint_groups.simps [of 0] varint_bytes_small
          cont_byte_and_127)
  next
    case False
    then have pos: "0 < n div 128" by simp
    then have "varint_groups (n div 128) \<noteq> []" by (simp add: varint_groups.simps [of "n div 128"])
    then obtain k where k: "length (varint_groups (n div 128)) = Suc k"
      by (cases "varint_groups (n div 128)") auto
    from False "1.IH" pos k have "(varint_groups (n div 128))[k := varint_groups (n div 128) ! k AND 127]
        = varint_bytes (n div 128)" by simp
    with False k show ?thesis
      by (simp add: varint_groups.simps [of n] varint_bytes_big)
  qed
qed

text \<open>The local array \<^verbatim>\<open>pb_byte_t buffer[10]\<close> is large enough for every 64-bit value.\<close>

lemma length_varint_loop: "length (varint_loop v []) \<le> 10"
proof (cases "v = 0")
  case True
  then show ?thesis by (simp add: varint_loop.simps)
next
  case False
  then have "0 < unat v" by (simp add: unat_gt_0)
  then have "length (varint_groups (unat v)) = length (varint_bytes (unat v))"
    using varint_groups_last by (metis length_list_update)
  also have "\<dots> \<le> 10"
    using unsigned_less [of v] by (intro length_varint_bytes_64) simp
  finally show ?thesis by (simp add: varint_loop_groups)
qed

text \<open>Functional correctness of \<open>pb_encode_varint\<close>, as an equation between stream operations.\<close>

lemma pb_encode_varint_eq:
  "pb_encode_varint strm v =
     pb_write strm (varint_bytes (unat v)) (of_nat (length (varint_bytes (unat v))))"
proof (cases "v \<le> 0x7F")
  case True
  then have "unat v < 128" by (simp add: word_le_nat_alt)
  then show ?thesis
    using True by (simp add: pb_encode_varint_def varint_bytes_small)
next
  case False
  then have "0 < unat v" by (simp add: word_le_nat_alt)
  from varint_groups_last [OF this] False show ?thesis
    by (simp add: pb_encode_varint_def varint_loop_groups Let_def)
      (metis length_list_update)
qed

section \<open>Zigzag, fixed words and tags\<close>

lemma unat_zigzag_word:
  fixes v :: u64
  shows "unat (if sint v < 0 then NOT (push_bit 1 v) else push_bit 1 v) = zigzag (sint v)"
proof -
  obtain n where n: "unat v = n" by simp
  have b: "n < 2 ^ 64" using unat_lt_64 [of v] n by simp
  have p: "unat (push_bit 1 v) = 2 * n mod 2 ^ 64"
    by (simp only: unat_push_bit n) simp
  show ?thesis
  proof (cases "n < 2 ^ 63")
    case True
    with n p show ?thesis
      by (simp add: sint_64 [OF n] zigzag_def nat_mult_distrib)
  next
    case False
    with b have "2 * n mod 2 ^ 64 = 2 * n - 2 ^ 64"
      by (simp add: mod_if)
    with p False b have "unat (NOT (push_bit 1 v)) = 2 ^ 65 - 1 - 2 * n"
      by (simp only: unat_not_64) simp
    moreover have "zigzag (int n - 2 ^ 64) = 2 ^ 65 - 1 - 2 * n"
      using False b by (simp add: zigzag_def nat_diff_distrib nat_mult_distrib)
    ultimately show ?thesis
      using False b by (simp only: sint_64 [OF n]) simp
  qed
qed

lemma pb_encode_svarint_eq:
  "pb_encode_svarint strm v =
     pb_write strm (varint_bytes (zigzag (sint v))) (of_nat (length (varint_bytes (zigzag (sint v)))))"
  by (simp only: pb_encode_svarint_def Let_def pb_encode_varint_eq unat_zigzag_word)

lemma byte_and_255: "ucast (x AND 0xFF) = (of_nat (unat x mod 256) :: byte)"
  for x :: "'a::len word"
  by (simp add: word_unat_eq_iff unat_ucast_byte unat_and_255 unat_of_nat_8)

lemma fixed32_bytes:
  "[ucast (val AND 0xFF), ucast (drop_bit 8 val AND 0xFF), ucast (drop_bit 16 val AND 0xFF),
    ucast (drop_bit 24 val AND 0xFF)] = le_bytes 4 (unat val)" for val :: u32
  by (simp only: byte_and_255 unat_drop_bit_word le_bytes_4)

lemma fixed64_bytes:
  "[ucast (val AND 0xFF), ucast (drop_bit 8 val AND 0xFF), ucast (drop_bit 16 val AND 0xFF),
    ucast (drop_bit 24 val AND 0xFF), ucast (drop_bit 32 val AND 0xFF),
    ucast (drop_bit 40 val AND 0xFF), ucast (drop_bit 48 val AND 0xFF),
    ucast (drop_bit 56 val AND 0xFF)] = le_bytes 8 (unat val)" for val :: u64
  by (simp only: byte_and_255 unat_drop_bit_word le_bytes_8)

lemma pb_encode_fixed32_eq: "pb_encode_fixed32 strm v = pb_write strm (le_bytes 4 (unat v)) 4"
  by (simp only: pb_encode_fixed32_def Let_def fixed32_bytes)

lemma pb_encode_fixed64_eq: "pb_encode_fixed64 strm v = pb_write strm (le_bytes 8 (unat v)) 8"
  by (simp only: pb_encode_fixed64_def Let_def fixed64_bytes)

lemma unat_tag_word:
  fixes fn :: u32
  assumes "unat wt < 8"
  shows "unat (push_bit 3 (ucast fn :: u64) OR ucast (wt::u32)) = wire_key wt fn"
proof -
  have f: "unat fn < 2 ^ 32" using unat_lt_32 [of fn] by simp
  have a: "push_bit 3 (ucast fn :: u64) AND ucast wt = 0"
  proof (rule bit_word_eqI)
    fix i assume "i < LENGTH(64)"
    have "\<not> bit wt i" if "3 \<le> i"
    proof -
      have "unat wt < 2 ^ i" using assms power_increasing [OF that, of "2::nat"] by simp
      then have "\<not> bit (unat wt) i"  by (simp add: bit_iff_odd)
      then show ?thesis by (auto simp: bit_unsigned_iff)
    qed
    then show "bit (push_bit 3 (ucast fn :: u64) AND ucast wt) i = bit (0 :: u64) i"
      by (auto simp: bit_and_iff bit_push_bit_iff bit_unsigned_iff)
  qed
  then have "push_bit 3 (ucast fn :: u64) OR ucast wt = push_bit 3 (ucast fn) + ucast wt"
    by (simp add: disjunctive_add_eq_or)
  moreover have "unat (push_bit 3 (ucast fn :: u64)) = 8 * unat fn"
  proof -
    have "8 * unat fn < 2 ^ 64" using unat_lt_32 [of fn] by simp
    then show ?thesis by (simp only: unat_push_bit) (simp add: unat_ucast_up)
  qed
  moreover have "unat (ucast wt :: u64) = unat wt"
    by (simp add: unat_ucast_up)
  ultimately show ?thesis
    using f assms by (simp add: unat_add_no_overflow wire_key_def)
qed

lemma pb_encode_tag_eq:
  assumes "unat wt < 8"
  shows "pb_encode_tag strm wt fn =
    pb_write strm (varint_bytes (wire_key wt fn)) (of_nat (length (varint_bytes (wire_key wt fn))))"
  using assms by (simp add: pb_encode_tag_def Let_def pb_encode_varint_eq unat_tag_word)

section \<open>What the basic encoders write\<close>

definition e_varint :: "nat \<Rightarrow> enc" where
  "e_varint n = Bytes (varint_bytes n)"

definition e_tag :: "pb_wire_type \<Rightarrow> u32 \<Rightarrow> enc" where
  "e_tag wt field_number = e_varint (wire_key wt field_number)"

text \<open>The wire type of a field, by its data type.\<close>

definition wire_type_of :: "pb_type \<Rightarrow> pb_wire_type option" where
  "wire_type_of type =
     (let lt = PB_LTYPE type in
      if lt \<le> PB_LTYPE_SVARINT then Some PB_WT_VARINT
      else if lt = PB_LTYPE_FIXED32 then Some PB_WT_32BIT
      else if lt = PB_LTYPE_FIXED64 then Some PB_WT_64BIT
      else if lt \<in> {PB_LTYPE_BYTES, PB_LTYPE_STRING, PB_LTYPE_SUBMESSAGE,
                    PB_LTYPE_FIXED_LENGTH_BYTES} then Some PB_WT_STRING
      else None)"

definition e_field_tag :: "pb_field \<Rightarrow> enc" where
  "e_field_tag f = (case wire_type_of (pf_type f) of
      None \<Rightarrow> Enc_error | Some wt \<Rightarrow> e_tag wt (pf_tag f))"

definition e_string :: "byte list \<Rightarrow> enc" where
  "e_string bs = enc_seq (e_varint (length bs)) (Bytes bs)"

lemma unat_wt [simp]:
  "unat PB_WT_VARINT = 0" "unat PB_WT_64BIT = 1" "unat PB_WT_STRING = 2" "unat PB_WT_32BIT = 5"
  by (simp_all add: pb_consts)

lemma word_le_3_cases: "x \<le> 3 \<longleftrightarrow> x = 0 \<or> x = 1 \<or> x = 2 \<or> x = (3 :: 8 word)"
proof
  assume "x \<le> 3"
  then have "unat x \<le> 3" by (simp add: word_le_nat_alt)
  then consider "unat x = 0" | "unat x = 1" | "unat x = 2" | "unat x = 3" by linarith
  then show "x = 0 \<or> x = 1 \<or> x = 2 \<or> x = 3"
    by cases (simp_all add: word_unat_eq_iff)
qed auto

lemma pb_encode_tag_for_field_cases:
  "pb_encode_tag_for_field strm f = (case wire_type_of (pf_type f) of
      None \<Rightarrow> os_return_error strm ''invalid field type''
    | Some wt \<Rightarrow> pb_encode_tag strm wt (pf_tag f))"
  by (auto simp: pb_encode_tag_for_field_def wire_type_of_def Let_def pb_consts word_le_3_cases)

lemma wire_type_of_less: "wire_type_of type = Some wt \<Longrightarrow> unat wt < 8"
  by (auto simp: wire_type_of_def Let_def split: if_splits)

context ostream_callback
begin

lemma varint_write_implements:
  "n < 2 ^ 64 \<Longrightarrow>
     implements (\<lambda>s. pb_write s (varint_bytes n) (of_nat (length (varint_bytes n)))) (e_varint n)"
  unfolding e_varint_def
  by (rule pb_write_list_implements) (use length_varint_bytes_64 [of n] in simp)

lemma pb_encode_varint_implements:
  "implements (\<lambda>s. pb_encode_varint s v) (e_varint (unat v))"
  using varint_write_implements [of "unat v"] unat_lt_64 [of v] by (simp add: pb_encode_varint_eq)

lemma pb_encode_svarint_implements:
  "implements (\<lambda>s. pb_encode_svarint s v) (e_varint (zigzag (sint v)))"
proof -
  have "zigzag (sint v) < 2 ^ 64"
    by (simp add: unat_zigzag_word [symmetric] unat_lt_64)
  then show ?thesis
    using varint_write_implements [of "zigzag (sint v)"] by (simp add: pb_encode_svarint_eq)
qed

lemma pb_encode_fixed32_implements:
  "implements (\<lambda>s. pb_encode_fixed32 s v) (Bytes (le_bytes 4 (unat v)))"
  using pb_write_list_implements [of "le_bytes 4 (unat v)"] by (simp add: pb_encode_fixed32_eq)

lemma pb_encode_fixed64_implements:
  "implements (\<lambda>s. pb_encode_fixed64 s v) (Bytes (le_bytes 8 (unat v)))"
  using pb_write_list_implements [of "le_bytes 8 (unat v)"] by (simp add: pb_encode_fixed64_eq)

lemma pb_encode_tag_implements:
  assumes "unat wt < 8"
  shows "implements (\<lambda>s. pb_encode_tag s wt fn) (e_tag wt fn)"
proof -
  have "wire_key wt fn < 2 ^ 64"
    using assms unat_lt_32 [of fn] by (simp add: wire_key_def)
  with assms show ?thesis
    using varint_write_implements [of "wire_key wt fn"] by (simp add: pb_encode_tag_eq e_tag_def)
qed

lemma pb_encode_tag_for_field_implements:
  "implements (\<lambda>s. pb_encode_tag_for_field s f) (e_field_tag f)"
  by (cases "wire_type_of (pf_type f)")
    (auto simp: pb_encode_tag_for_field_cases e_field_tag_def
      intro: implements_error pb_encode_tag_implements wire_type_of_less)

lemma pb_encode_string_implements:
  assumes "unat n \<le> length buf"
  shows "implements (\<lambda>s. pb_encode_string s buf n) (e_string (take (unat n) buf))"
proof -
  have "implements (\<lambda>s. and_then (pb_encode_varint s n) (\<lambda>s. pb_write s buf n))
      (enc_seq (e_varint (unat n)) (Bytes (take (unat n) buf)))"
    by (intro implements_seq pb_encode_varint_implements pb_write_implements assms)
  with assms show ?thesis by (simp add: pb_encode_string_def e_string_def min_absorb2)
qed

end

end
