(* ===== verification/Pb_Encode.thy ===== *)
theory Pb_Encode
  imports Pb_Encode_Basic Pb_Iter Pb_Memory
begin

text \<open>
  The message encoder of \<^verbatim>\<open>nanopb/pb_encode.c\<close>: fields, arrays, submessages, extensions and whole
  messages. The functions call each other recursively through submessage fields and extensions.
  Each function below takes the recursive call of \<open>pb_encode\<close> as its argument \<open>penc\<close>; \<open>pb_encode\<close>
  itself ties the knot with a bound on the nesting depth, and \<open>None\<close> is the result of a call that
  exceeds the bound.
\<close>

section \<open>Environment\<close>

text \<open>
  What the encoder sees besides its arguments: the memory that holds the message, the constant
  descriptor tables, and the functions behind the function pointers of \<open>pb_callback_t\<close> and
  \<open>pb_extension_type_t\<close>, which belong to the program that uses the library. An encoding callback
  gets the stream, the field descriptor and the address of the \<open>arg\<close> member; an extension encoder
  the stream and the address of the extension.
\<close>

record 's enc_env =
  ee_mem :: mem
  ee_fields :: "addr \<Rightarrow> pb_field list"
  ee_callback :: "addr \<Rightarrow> 's pb_ostream \<Rightarrow> pb_field \<Rightarrow> addr \<Rightarrow> bool \<times> 's pb_ostream"
  ee_ext_encode :: "addr \<Rightarrow> 's pb_ostream \<Rightarrow> addr \<Rightarrow> bool \<times> 's pb_ostream"

type_synonym 's penc = "'s pb_ostream \<Rightarrow> pb_field list \<Rightarrow> addr \<Rightarrow> (bool \<times> 's pb_ostream) option"
type_synonym 's pb_encoder =
  "'s pb_ostream \<Rightarrow> pb_field \<Rightarrow> addr \<Rightarrow> (bool \<times> 's pb_ostream) option"

section \<open>Field encoders\<close>

text \<open>\<open>sizeof(bool)\<close> is 1, so the loop over the bytes of the flag looks at one byte.\<close>

definition safe_read_bool :: "mem \<Rightarrow> addr \<Rightarrow> bool" where
  "safe_read_bool m p = (load_u8 m p \<noteq> 0)"

definition pb_enc_bool :: "mem \<Rightarrow> 's pb_encoder" where
  "pb_enc_bool m strm field src =
     Some (pb_encode_varint strm (if safe_read_bool m src then 1 else 0))"

definition pb_enc_varint :: "mem \<Rightarrow> 's pb_encoder" where
  "pb_enc_varint m strm field src =
     Some (if pf_data_size field = 1 then pb_encode_varint strm (scast (load_u8 m src))
           else if pf_data_size field = 2 then pb_encode_varint strm (scast (load_u16 m src))
           else if pf_data_size field = 4 then pb_encode_varint strm (scast (load_u32 m src))
           else if pf_data_size field = 8 then pb_encode_varint strm (load_u64 m src)
           else os_return_error strm ''invalid data_size'')"

definition pb_enc_uvarint :: "mem \<Rightarrow> 's pb_encoder" where
  "pb_enc_uvarint m strm field src =
     Some (if pf_data_size field = 1 then pb_encode_varint strm (ucast (load_u8 m src))
           else if pf_data_size field = 2 then pb_encode_varint strm (ucast (load_u16 m src))
           else if pf_data_size field = 4 then pb_encode_varint strm (ucast (load_u32 m src))
           else if pf_data_size field = 8 then pb_encode_varint strm (load_u64 m src)
           else os_return_error strm ''invalid data_size'')"

definition pb_enc_svarint :: "mem \<Rightarrow> 's pb_encoder" where
  "pb_enc_svarint m strm field src =
     Some (if pf_data_size field = 1 then pb_encode_svarint strm (scast (load_u8 m src))
           else if pf_data_size field = 2 then pb_encode_svarint strm (scast (load_u16 m src))
           else if pf_data_size field = 4 then pb_encode_svarint strm (scast (load_u32 m src))
           else if pf_data_size field = 8 then pb_encode_svarint strm (load_u64 m src)
           else os_return_error strm ''invalid data_size'')"

definition pb_enc_fixed64 :: "mem \<Rightarrow> 's pb_encoder" where
  "pb_enc_fixed64 m strm field src = Some (pb_encode_fixed64 strm (load_u64 m src))"

definition pb_enc_fixed32 :: "mem \<Rightarrow> 's pb_encoder" where
  "pb_enc_fixed32 m strm field src = Some (pb_encode_fixed32 strm (load_u32 m src))"

definition pb_enc_bytes :: "mem \<Rightarrow> 's pb_encoder" where
  "pb_enc_bytes m strm field src =
     Some (if src = 0 then pb_encode_string strm [] 0
           else
             let size = load_u32 m src;
                 allocsize = PB_BYTES_ARRAY_T_ALLOCSIZE (ucast size)
             in if allocsize < ucast size \<or>
                   (PB_ATYPE (pf_type field) = PB_ATYPE_STATIC \<and>
                    ucast (pf_data_size field) < allocsize)
                then os_return_error strm ''bytes size exceeded''
                else pb_encode_string strm
                       (load_bytes m (src + pb_bytes_array_offsetof_bytes) (unat size))
                       (ucast size))"

text \<open>The loop that replaces \<open>strnlen\<close>.\<close>

function strnlen_loop :: "mem \<Rightarrow> size_t \<Rightarrow> size_t \<Rightarrow> addr \<Rightarrow> size_t" where
  "strnlen_loop m max_size sz p =
     (if sz < max_size \<and> load_u8 m p \<noteq> 0 then strnlen_loop m max_size (sz + 1) (p + 1) else sz)"
  by pat_completeness auto
termination
proof (relation "measure (\<lambda>(m, max_size, sz, p). unat max_size - unat sz)")
  fix m :: mem and max_size sz :: size_t and p :: addr
  assume "sz < max_size \<and> load_u8 m p \<noteq> 0"
  then have "sz < max_size" ..
  then have "unat sz + unat (1 :: size_t) < 2 ^ LENGTH(64)"
    using unat_lt_64 [of max_size] by (simp add: word_less_nat_alt)
  then have "unat (sz + 1) = unat sz + 1" by (simp only: unat_add_no_overflow) simp
  with \<open>sz < max_size\<close>
  show "((m, max_size, sz + 1, p + 1), m, max_size, sz, p)
      \<in> measure (\<lambda>(m, max_size, sz, p). unat max_size - unat sz)"
    by (simp add: word_less_nat_alt)
qed simp

declare strnlen_loop.simps [simp del]

definition pb_enc_string :: "mem \<Rightarrow> 's pb_encoder" where
  "pb_enc_string m strm field src =
     (let max_size = (if PB_ATYPE (pf_type field) = PB_ATYPE_POINTER then - 1
                      else ucast (pf_data_size field));
          sz = (if src = 0 then 0 else strnlen_loop m max_size 0 src)
      in Some (pb_encode_string strm (load_bytes m src (unat sz)) sz))"

text \<open>
  Two passes over the submessage: one on a sizing stream, one on a substream that is limited to
  the size of the first pass.
\<close>

definition pb_encode_submessage ::
  "'s penc \<Rightarrow> 's pb_ostream \<Rightarrow> pb_field list \<Rightarrow> addr \<Rightarrow> (bool \<times> 's pb_ostream) option" where
  "pb_encode_submessage penc strm flds src_struct =
     (case penc (PB_OSTREAM_SIZING (os_state strm)) flds src_struct of
        None \<Rightarrow> None
      | Some (False, substream) \<Rightarrow> Some (False, strm\<lparr>os_errmsg := os_errmsg substream\<rparr>)
      | Some (True, substream) \<Rightarrow>
          let sz = os_bytes_written substream in
          oand_then (Some (pb_encode_varint strm sz)) (\<lambda>strm.
            case os_callback strm of
              None \<Rightarrow> Some (pb_write strm [] sz)
            | Some cb \<Rightarrow>
                if os_max_size strm < os_bytes_written strm + sz
                then Some (os_return_error strm ''stream full'')
                else
                  (case penc (substream\<lparr>os_callback := Some cb, os_state := os_state strm,
                                        os_max_size := sz, os_bytes_written := 0,
                                        os_errmsg := None\<rparr>) flds src_struct of
                     None \<Rightarrow> None
                   | Some (status, substream) \<Rightarrow>
                       let strm = strm\<lparr>os_bytes_written :=
                                          os_bytes_written strm + os_bytes_written substream,
                                        os_state := os_state substream,
                                        os_errmsg := os_errmsg substream\<rparr>
                       in if os_bytes_written substream \<noteq> sz
                          then Some (os_return_error strm ''submsg size changed'')
                          else Some (status, strm))))"

definition pb_enc_submessage :: "'s enc_env \<Rightarrow> 's penc \<Rightarrow> 's pb_encoder" where
  "pb_enc_submessage env penc strm field src =
     (if pf_ptr field = 0 then Some (os_return_error strm ''invalid field descriptor'')
      else pb_encode_submessage penc strm (ee_fields env (pf_ptr field)) src)"

definition pb_enc_fixed_length_bytes :: "mem \<Rightarrow> 's pb_encoder" where
  "pb_enc_fixed_length_bytes m strm field src =
     Some (pb_encode_string strm (load_bytes m src (unat (pf_data_size field)))
       (ucast (pf_data_size field)))"

text \<open>
  The dispatch table. Its entry for extensions is a null pointer and it has no entries from 11 on;
  calling those is undefined, and no execution of the encoder does so.
\<close>

definition PB_ENCODERS :: "'s enc_env \<Rightarrow> 's penc \<Rightarrow> pb_type \<Rightarrow> 's pb_encoder" where
  "PB_ENCODERS env penc ltype =
     (let m = ee_mem env in
      if ltype = PB_LTYPE_BOOL then pb_enc_bool m
      else if ltype = PB_LTYPE_VARINT then pb_enc_varint m
      else if ltype = PB_LTYPE_UVARINT then pb_enc_uvarint m
      else if ltype = PB_LTYPE_SVARINT then pb_enc_svarint m
      else if ltype = PB_LTYPE_FIXED32 then pb_enc_fixed32 m
      else if ltype = PB_LTYPE_FIXED64 then pb_enc_fixed64 m
      else if ltype = PB_LTYPE_BYTES then pb_enc_bytes m
      else if ltype = PB_LTYPE_STRING then pb_enc_string m
      else if ltype = PB_LTYPE_SUBMESSAGE then pb_enc_submessage env penc
      else if ltype = PB_LTYPE_FIXED_LENGTH_BYTES then pb_enc_fixed_length_bytes m
      else (\<lambda>strm field src. None))"

section \<open>Arrays and fields\<close>

text \<open>\<^verbatim>\<open>for (i = 0; i < count; i++) { if (!body(stream, p)) return false; p += data_size; }\<close>\<close>

primrec array_loop ::
  "('s pb_ostream \<Rightarrow> addr \<Rightarrow> (bool \<times> 's pb_ostream) option) \<Rightarrow> size_t \<Rightarrow> nat \<Rightarrow> addr
     \<Rightarrow> 's pb_ostream \<Rightarrow> (bool \<times> 's pb_ostream) option" where
  "array_loop body data_size 0 p strm = Some (True, strm)"
| "array_loop body data_size (Suc k) p strm =
     oand_then (body strm p) (array_loop body data_size k (p + data_size))"

definition encode_array ::
  "'s enc_env \<Rightarrow> 's pb_ostream \<Rightarrow> pb_field \<Rightarrow> addr \<Rightarrow> size_t \<Rightarrow> 's pb_encoder
     \<Rightarrow> (bool \<times> 's pb_ostream) option" where
  "encode_array env strm field pData count func =
     (if count = 0 then Some (True, strm)
      else if PB_ATYPE (pf_type field) \<noteq> PB_ATYPE_POINTER \<and> ucast (pf_array_size field) < count
      then Some (os_return_error strm ''array max size exceeded'')
      else
        let lt = PB_LTYPE (pf_type field); data_size = ucast (pf_data_size field) in
        if lt \<le> PB_LTYPE_LAST_PACKABLE then
          oand_then (Some (pb_encode_tag strm PB_WT_STRING (pf_tag field))) (\<lambda>strm.
            case (if lt = PB_LTYPE_FIXED32 then Some (True, 4 * count)
                  else if lt = PB_LTYPE_FIXED64 then Some (True, 8 * count)
                  else map_option (map_prod id os_bytes_written)
                         (array_loop (\<lambda>s p. func s field p) data_size (unat count) pData
                            (PB_OSTREAM_SIZING (os_state strm)))) of
              None \<Rightarrow> None
            | Some (False, sz) \<Rightarrow> Some (False, strm)
            | Some (True, sz) \<Rightarrow>
                oand_then (Some (pb_encode_varint strm sz)) (\<lambda>strm.
                  case os_callback strm of
                    None \<Rightarrow> Some (pb_write strm [] sz)
                  | Some _ \<Rightarrow>
                      array_loop (\<lambda>s p. func s field p) data_size (unat count) pData strm))
        else
          array_loop (\<lambda>s p.
              oand_then (Some (pb_encode_tag_for_field s field)) (\<lambda>s.
                if PB_ATYPE (pf_type field) = PB_ATYPE_POINTER \<and>
                   (lt = PB_LTYPE_STRING \<or> lt = PB_LTYPE_BYTES)
                then func s field (load_ptr (ee_mem env) p)
                else func s field p))
            data_size (unat count) pData strm)"

text \<open>
  The result \<open>False\<close> of the loop body ends the loop: a member is not zero. The recursion into
  static submessages is bounded by the nesting depth of the structure, the first argument.
\<close>

fun pb_check_proto3_default_value :: "nat \<Rightarrow> 's enc_env \<Rightarrow> pb_field \<Rightarrow> addr \<Rightarrow> bool option" where
  "pb_check_proto3_default_value 0 env field pData = None"
| "pb_check_proto3_default_value (Suc n) env field pData =
     (let m = ee_mem env; type = pf_type field;
          pSize = pData + scast (pf_size_offset field);
          catch_all = Some (\<forall>b \<in> set (load_bytes m pData (unat (pf_data_size field))). b = 0);
          rest =
            (if PB_ATYPE type = PB_ATYPE_STATIC \<and> PB_LTYPE type = PB_LTYPE_BYTES
             then Some (load_u32 m pData = 0)
             else if PB_ATYPE type = PB_ATYPE_STATIC \<and> PB_LTYPE type = PB_LTYPE_STRING
             then Some (load_u8 m pData = 0)
             else if PB_ATYPE type = PB_ATYPE_STATIC \<and> PB_LTYPE type = PB_LTYPE_FIXED_LENGTH_BYTES
             then Some (pf_data_size field = 0)
             else if PB_ATYPE type = PB_ATYPE_STATIC \<and> PB_LTYPE type = PB_LTYPE_SUBMESSAGE
             then (case pb_field_iter_begin (ee_fields env (pf_ptr field)) pData of
                     (False, iter) \<Rightarrow> Some True
                   | (True, iter) \<Rightarrow>
                       map_option fst
                         (iter_loop (\<lambda>u it. map_option (\<lambda>b. (b, u))
                             (pb_check_proto3_default_value n env (it_field it) (it_pData it)))
                           iter ()))
             else if PB_ATYPE type = PB_ATYPE_POINTER \<and> PB_LTYPE_LAST_PACKABLE < PB_LTYPE type
             then Some (load_ptr m pData = 0)
             else catch_all)
      in if PB_HTYPE type = PB_HTYPE_REQUIRED then Some False
         else if PB_HTYPE type = PB_HTYPE_REPEATED \<and> pf_size_offset field \<noteq> 0
         then Some (load_u32 m pSize = 0)
         else if PB_HTYPE type = PB_HTYPE_REPEATED \<and> PB_ATYPE type = PB_ATYPE_STATIC
         then Some False
         else if PB_HTYPE type = PB_HTYPE_ONEOF then Some (load_u32 m pSize = 0)
         else if PB_HTYPE type = PB_HTYPE_OPTIONAL \<and> pf_size_offset field \<noteq> 0
         then Some (\<not> safe_read_bool m pSize)
         else rest)"

text \<open>
  \<open>pSize\<close> points to the \<open>has\<close> or count member or to the local variable \<open>implicit_has\<close>; the reads
  through it are the local values below. (The generated tables give every oneof field a size
  offset; without one the C code would read the four bytes of a count at the address of a \<open>bool\<close>.)
  The four repetition rules are all values of \<open>PB_HTYPE\<close>, so the \<open>default\<close> branch does not exist here.
\<close>

definition encode_basic_field ::
  "nat \<Rightarrow> 's enc_env \<Rightarrow> 's penc \<Rightarrow> 's pb_ostream \<Rightarrow> pb_field \<Rightarrow> addr \<Rightarrow> (bool \<times> 's pb_ostream) option" where
  "encode_basic_field n env penc strm field pData =
     (let m = ee_mem env; type = pf_type field;
          func = PB_ENCODERS env penc (PB_LTYPE type);
          pSize = pData + scast (pf_size_offset field);
          has0 = (if pf_size_offset field \<noteq> 0 then Some False
                  else if PB_HTYPE type = PB_HTYPE_OPTIONAL
                  then map_option Not (pb_check_proto3_default_value n env field pData)
                  else Some True)
      in case has0 of
           None \<Rightarrow> None
         | Some implicit_has0 \<Rightarrow>
             let pData' = (if PB_ATYPE type = PB_ATYPE_POINTER then load_ptr m pData else pData);
                 implicit_has = (if PB_ATYPE type = PB_ATYPE_POINTER then pData' \<noteq> 0
                                 else implicit_has0);
                 one = oand_then (Some (pb_encode_tag_for_field strm field))
                         (\<lambda>strm. func strm field pData')
             in if PB_HTYPE type = PB_HTYPE_REQUIRED then
                  (if pData' = 0 then Some (os_return_error strm ''missing required field'')
                   else one)
                else if PB_HTYPE type = PB_HTYPE_OPTIONAL then
                  (if (if pf_size_offset field \<noteq> 0 then safe_read_bool m pSize else implicit_has)
                   then one else Some (True, strm))
                else if PB_HTYPE type = PB_HTYPE_REPEATED then
                  encode_array env strm field pData'
                    (ucast (if pf_size_offset field \<noteq> 0 then load_u32 m pSize
                            else pf_array_size field)) func
                else
                  (if (if pf_size_offset field \<noteq> 0 then load_u32 m pSize
                       else if implicit_has then 1 else 0) = pf_tag field
                   then one else Some (True, strm)))"

definition encode_callback_field ::
  "'s enc_env \<Rightarrow> 's pb_ostream \<Rightarrow> pb_field \<Rightarrow> addr \<Rightarrow> bool \<times> 's pb_ostream" where
  "encode_callback_field env strm field pData =
     (let encode = pb_callback_funcs (ee_mem env) pData in
      if encode \<noteq> 0 then
        (case ee_callback env encode strm field (pb_callback_arg pData) of
           (False, strm) \<Rightarrow> os_return_error strm ''callback error''
         | (True, strm) \<Rightarrow> (True, strm))
      else (True, strm))"

definition encode_field ::
  "nat \<Rightarrow> 's enc_env \<Rightarrow> 's penc \<Rightarrow> 's pb_ostream \<Rightarrow> pb_field \<Rightarrow> addr \<Rightarrow> (bool \<times> 's pb_ostream) option" where
  "encode_field n env penc strm field pData =
     (let at = PB_ATYPE (pf_type field) in
      if at = PB_ATYPE_STATIC \<or> at = PB_ATYPE_POINTER
      then encode_basic_field n env penc strm field pData
      else if at = PB_ATYPE_CALLBACK then Some (encode_callback_field env strm field pData)
      else Some (os_return_error strm ''invalid field type''))"

section \<open>Extensions and messages\<close>

text \<open>The \<open>arg\<close> of an extension type points to the descriptor of the extension field.\<close>

definition default_extension_encoder ::
  "nat \<Rightarrow> 's enc_env \<Rightarrow> 's penc \<Rightarrow> 's pb_ostream \<Rightarrow> addr \<Rightarrow> (bool \<times> 's pb_ostream) option" where
  "default_extension_encoder n env penc strm extension =
     (let m = ee_mem env;
          field = field_at (ee_fields env (exttype_arg m (ext_type m extension))) 0
      in if PB_ATYPE (pf_type field) = PB_ATYPE_POINTER
         then encode_field n env penc strm field (ext_dest_addr extension)
         else encode_field n env penc strm field (ext_dest m extension))"

primrec extension_loop ::
  "nat \<Rightarrow> nat \<Rightarrow> 's enc_env \<Rightarrow> 's penc \<Rightarrow> addr \<Rightarrow> 's pb_ostream \<Rightarrow> (bool \<times> 's pb_ostream) option" where
  "extension_loop 0 n env penc extension strm =
     (if extension = 0 then Some (True, strm) else None)"
| "extension_loop (Suc k) n env penc extension strm =
     (if extension = 0 then Some (True, strm)
      else
        let m = ee_mem env; encode = exttype_encode m (ext_type m extension) in
        oand_then
          (if encode \<noteq> 0 then Some (ee_ext_encode env encode strm extension)
           else default_extension_encoder n env penc strm extension)
          (extension_loop k n env penc (ext_next m extension)))"

definition encode_extension_field ::
  "nat \<Rightarrow> 's enc_env \<Rightarrow> 's penc \<Rightarrow> 's pb_ostream \<Rightarrow> pb_field \<Rightarrow> addr \<Rightarrow> (bool \<times> 's pb_ostream) option" where
  "encode_extension_field n env penc strm field pData =
     extension_loop n n env penc (load_ptr (ee_mem env) pData) strm"

definition encode_any_field ::
  "nat \<Rightarrow> 's enc_env \<Rightarrow> 's penc \<Rightarrow> 's pb_ostream \<Rightarrow> pb_field \<Rightarrow> addr \<Rightarrow> (bool \<times> 's pb_ostream) option" where
  "encode_any_field n env penc strm field pData =
     (if PB_LTYPE (pf_type field) = PB_LTYPE_EXTENSION
      then encode_extension_field n env penc strm field pData
      else encode_field n env penc strm field pData)"

text \<open>
  The bound limits the nesting of submessages, the nesting of structures in
  \<open>pb_check_proto3_default_value\<close> and the length of extension chains.
\<close>

primrec pb_encode :: "nat \<Rightarrow> 's enc_env \<Rightarrow> 's penc" where
  "pb_encode 0 env strm flds src_struct = None"
| "pb_encode (Suc n) env strm flds src_struct =
     (case pb_field_iter_begin flds src_struct of
        (False, iter) \<Rightarrow> Some (True, strm)
      | (True, iter) \<Rightarrow> iter_loop (\<lambda>s it. encode_any_field n env (pb_encode n env) s (it_field it) (it_pData it))
             iter strm)"

definition pb_encode_delimited :: "nat \<Rightarrow> 's enc_env \<Rightarrow> 's penc" where
  "pb_encode_delimited n env strm flds src_struct =
     pb_encode_submessage (pb_encode n env) strm flds src_struct"

definition pb_encode_nullterminated :: "nat \<Rightarrow> 's enc_env \<Rightarrow> 's penc" where
  "pb_encode_nullterminated n env strm flds src_struct =
     oand_then (pb_encode n env strm flds src_struct) (\<lambda>strm. Some (pb_write strm [0] 1))"

text \<open>The inner \<open>None\<close> is the result \<open>false\<close>, \<open>Some\<close> the size stored by a successful call.\<close>

definition pb_get_encoded_size :: "nat \<Rightarrow> 's enc_env \<Rightarrow> 's \<Rightarrow> pb_field list \<Rightarrow> addr \<Rightarrow> size_t option option" where
  "pb_get_encoded_size n env st flds src_struct =
     map_option (\<lambda>(ok, strm). if ok then Some (os_bytes_written strm) else None)
       (pb_encode n env (PB_OSTREAM_SIZING st) flds src_struct)"

end
