(* ===== verification/Pb_Encode_Spec.thy ===== *)
theory Pb_Encode_Spec
  imports Pb_Encode
begin

text \<open>
  What the message encoder writes: a specification that maps descriptor table and memory to bytes,
  with no streams, no sizing passes and no substreams, and the proof that the encoder implements it.
\<close>

section \<open>Specification\<close>

text \<open>A length-delimited item: the length as a varint, then the bytes.\<close>

fun e_delimited :: "enc \<Rightarrow> enc" where
  "e_delimited (Bytes bs) =
     (if length bs < 2 ^ 63 then Bytes (varint_bytes (length bs) @ bs) else Too_big)"
| "e_delimited r = r"

text \<open>The comparison for evaluation, on binary numbers.\<close>

lemma e_delimited_code [code]:
  "e_delimited (Bytes bs) =
     (if int (length bs) < 9223372036854775808 then Bytes (varint_bytes (length bs) @ bs) else Too_big)"
  "e_delimited Enc_error = Enc_error"
  "e_delimited Too_big = Too_big"
proof -
  have "length bs < 2 ^ 63 \<longleftrightarrow> int (length bs) < 9223372036854775808" by simp
  then show "e_delimited (Bytes bs) =
     (if int (length bs) < 9223372036854775808 then Bytes (varint_bytes (length bs) @ bs) else Too_big)" by simp
qed simp_all

definition e_concat :: "enc list \<Rightarrow> enc" where
  "e_concat rs = foldr enc_seq rs (Bytes [])"

lemma e_concat_simps [simp]:
  "e_concat [] = Bytes []"
  "e_concat (r # rs) = enc_seq r (e_concat rs)"
  by (simp_all add: e_concat_def)

text \<open>A result that is known if all its parts are.\<close>

primrec all_some :: "'a option list \<Rightarrow> 'a list option" where
  "all_some [] = Some []"
| "all_some (x # xs) = (case x of None \<Rightarrow> None
     | Some y \<Rightarrow> map_option (\<lambda>ys. y # ys) (all_some xs))"

lemma all_some_Some: "all_some xs = Some ys \<longleftrightarrow> xs = map Some ys"
  by (induction xs arbitrary: ys) (auto split: option.splits simp: Cons_eq_map_conv)

type_synonym e_sub = "pb_field list \<Rightarrow> addr \<Rightarrow> enc option"

definition e_int :: "mem \<Rightarrow> pb_size_t \<Rightarrow> addr \<Rightarrow> u64 option" where
  "e_int m sz src =
     (if sz = 1 then Some (scast (load_u8 m src)) else if sz = 2 then Some (scast (load_u16 m src))
      else if sz = 4 then Some (scast (load_u32 m src)) else if sz = 8 then Some (load_u64 m src)
      else None)"

definition e_uint :: "mem \<Rightarrow> pb_size_t \<Rightarrow> addr \<Rightarrow> u64 option" where
  "e_uint m sz src =
     (if sz = 1 then Some (ucast (load_u8 m src)) else if sz = 2 then Some (ucast (load_u16 m src))
      else if sz = 4 then Some (ucast (load_u32 m src)) else if sz = 8 then Some (load_u64 m src)
      else None)"

text \<open>The characters of a C string, at most \<open>n\<close> of them.\<close>

definition c_string :: "mem \<Rightarrow> addr \<Rightarrow> nat \<Rightarrow> byte list" where
  "c_string m a n = takeWhile (\<lambda>b. b \<noteq> 0) (load_bytes m a n)"

text \<open>The content of one value, by its data type: what follows the tag.\<close>

definition e_value :: "'s enc_env \<Rightarrow> e_sub \<Rightarrow> pb_field \<Rightarrow> addr \<Rightarrow> enc option" where
  "e_value env esub f src =
     (let m = ee_mem env; lt = PB_LTYPE (pf_type f); sz = pf_data_size f in
      if lt = PB_LTYPE_BOOL then Some (e_varint (if load_u8 m src \<noteq> 0 then 1 else 0))
      else if lt = PB_LTYPE_VARINT then
        Some (case e_int m sz src of None \<Rightarrow> Enc_error | Some v \<Rightarrow> e_varint (unat v))
      else if lt = PB_LTYPE_UVARINT then
        Some (case e_uint m sz src of None \<Rightarrow> Enc_error | Some v \<Rightarrow> e_varint (unat v))
      else if lt = PB_LTYPE_SVARINT then
        Some (case e_int m sz src of None \<Rightarrow> Enc_error | Some v \<Rightarrow> e_varint (zigzag (sint v)))
      else if lt = PB_LTYPE_FIXED32 then Some (Bytes (load_bytes m src 4))
      else if lt = PB_LTYPE_FIXED64 then Some (Bytes (load_bytes m src 8))
      else if lt = PB_LTYPE_BYTES then
        Some (if src = 0 then e_string []
              else if PB_ATYPE (pf_type f) = PB_ATYPE_STATIC \<and>
                      unat (pf_data_size f) < unat (load_u32 m src) + 4 then Enc_error
              else e_string (load_bytes m (src + 4) (unat (load_u32 m src))))
      else if lt = PB_LTYPE_STRING then
        Some (if src = 0 then e_string []
              else e_string (c_string m src
                (if PB_ATYPE (pf_type f) = PB_ATYPE_POINTER then 2 ^ 64 - 1 else unat sz)))
      else if lt = PB_LTYPE_SUBMESSAGE then
        (if pf_ptr f = 0 then Some Enc_error
         else map_option e_delimited (esub (ee_fields env (pf_ptr f)) src))
      else if lt = PB_LTYPE_FIXED_LENGTH_BYTES then Some (e_string (load_bytes m src (unat sz)))
      else None)"

definition e_tagged :: "'s enc_env \<Rightarrow> e_sub \<Rightarrow> pb_field \<Rightarrow> addr \<Rightarrow> enc option" where
  "e_tagged env esub f src =
     (if wire_type_of (pf_type f) = None then Some Enc_error
      else map_option (enc_seq (e_field_tag f)) (e_value env esub f src))"

definition array_item :: "pb_field \<Rightarrow> addr \<Rightarrow> nat \<Rightarrow> addr" where
  "array_item f p i = p + of_nat i * ucast (pf_data_size f)"

definition e_array :: "'s enc_env \<Rightarrow> e_sub \<Rightarrow> pb_field \<Rightarrow> addr \<Rightarrow> nat \<Rightarrow> enc option" where
  "e_array env esub f p count =
     (if count = 0 then Some (Bytes [])
      else if PB_ATYPE (pf_type f) \<noteq> PB_ATYPE_POINTER \<and> unat (pf_array_size f) < count
      then Some Enc_error
      else if PB_LTYPE (pf_type f) \<le> PB_LTYPE_LAST_PACKABLE then
        map_option (\<lambda>rs. enc_seq (e_tag PB_WT_STRING (pf_tag f)) (e_delimited (e_concat rs)))
          (all_some (map (\<lambda>i. e_value env esub f (array_item f p i)) [0..<count]))
      else
        map_option e_concat (all_some (map (\<lambda>i. e_tagged env esub f
          (if PB_ATYPE (pf_type f) = PB_ATYPE_POINTER \<and>
              PB_LTYPE (pf_type f) \<in> {PB_LTYPE_STRING, PB_LTYPE_BYTES}
           then load_ptr (ee_mem env) (array_item f p i) else array_item f p i)) [0..<count])))"


section \<open>Sequences of encoders\<close>

lemma array_loop_oseq:
  "array_loop body ds k p s = oseq (map (\<lambda>i s. body s (p + of_nat i * ds)) [0..<k]) s"
proof (induction k arbitrary: p s)
  case (Suc k)
  have "map (\<lambda>i s. body s (p + of_nat i * ds)) [0..<Suc k] =
      (\<lambda>s. body s p) # map (\<lambda>i s. body s (p + ds + of_nat i * ds)) [0..<k]"
    unfolding map_upt_Suc by (simp add: algebra_simps)
  moreover have "array_loop body ds k (p + ds) =
      oseq (map (\<lambda>i s. body s (p + ds + of_nat i * ds)) [0..<k])"
    using Suc by (simp add: fun_eq_iff)
  ultimately show ?case by (simp del: upt_Suc)
qed simp

lemma strnlen_loop_eq:
  assumes "sz \<le> max_size"
  shows "unat (strnlen_loop m max_size sz p) =
    unat sz + length (c_string m p (unat max_size - unat sz))"
  using assms
proof (induction m max_size sz p rule: strnlen_loop.induct)
  case (1 m max_size sz p)
  show ?case
  proof (cases "sz < max_size \<and> load_u8 m p \<noteq> 0")
    case True
    then have "unat sz + unat (1 :: size_t) < 2 ^ LENGTH(64)"
      using unat_lt_64 [of max_size] by (simp add: word_less_nat_alt)
    then have s: "unat (sz + 1) = unat sz + 1" by (simp only: unat_add_no_overflow) simp
    then have "sz + 1 \<le> max_size" using True by (simp add: word_le_nat_alt word_less_nat_alt)
    moreover have "unat max_size - unat sz = Suc (unat max_size - unat (sz + 1))"
      using True s by (auto simp: word_less_nat_alt)
    ultimately show ?thesis
      using True "1.IH" s
      by (simp add: strnlen_loop.simps [of m max_size sz p] c_string_def load_bytes_Suc load_u8_def)
  next
    case False
    have "c_string m p (unat max_size - unat sz) = []"
    proof (cases "unat max_size - unat sz")
      case (Suc k)
      then have "load_u8 m p = 0" using False by (simp add: word_less_nat_alt)
      with Suc show ?thesis by (simp add: c_string_def load_bytes_Suc load_u8_def)
    qed (simp add: c_string_def)
    moreover have "strnlen_loop m max_size sz p = sz"
      using False by (simp only: strnlen_loop.simps [of m max_size sz p]) auto
    ultimately show ?thesis by simp
  qed
qed

lemma load_bytes_c_string: "load_bytes m p (length (c_string m p n)) = c_string m p n"
proof -
  have "take (length (c_string m p n)) (load_bytes m p n) = c_string m p n"
    by (simp add: c_string_def takeWhile_eq_take [symmetric])
  moreover have "length (c_string m p n) \<le> n"
    using length_takeWhile_le [of "\<lambda>b. b \<noteq> 0" "load_bytes m p n"] by (simp add: c_string_def)
  ultimately show ?thesis
    by (metis add_diff_inverse_nat append_eq_conv_conj length_load_bytes linorder_not_le load_bytes_add)
qed

context ostream_callback
begin

text \<open>A routine that always returns and implements an abstract result.\<close>

definition oimplements :: "('s pb_ostream \<Rightarrow> (bool \<times> 's pb_ostream) option) \<Rightarrow> enc \<Rightarrow> bool" where
  "oimplements f r \<longleftrightarrow> (\<exists>g. f = (\<lambda>s. Some (g s)) \<and> implements g r)"

lemma oimplements_Some: "implements g r \<Longrightarrow> oimplements (\<lambda>s. Some (g s)) r"
  by (auto simp: oimplements_def)

lemma oimplements_seq:
  assumes "oimplements f r" "oimplements g q"
  shows "oimplements (\<lambda>s. oand_then (f s) g) (enc_seq r q)"
proof -
  from assms obtain f' g' where f: "f = (\<lambda>s. Some (f' s))" "implements f' r"
    and g: "g = (\<lambda>s. Some (g' s))" "implements g' q" by (auto simp: oimplements_def)
  have "(\<lambda>s. oand_then (f s) g) = (\<lambda>s. Some (and_then (f' s) g'))"
    unfolding f g by (auto simp: oand_then_def and_then_def split: prod.splits)
  with implements_seq [OF f(2) g(2)] show ?thesis by (auto simp: oimplements_def)
qed

lemma oimplements_return: "oimplements (\<lambda>s. Some (True, s)) (Bytes [])"
  by (rule oimplements_Some [OF implements_return])

lemma oimplements_error: "oimplements (\<lambda>s. Some (os_return_error s m)) Enc_error"
  by (rule oimplements_Some [OF implements_error])

lemma oimplements_oseq:
  "list_all2 oimplements fs rs \<Longrightarrow> oimplements (oseq fs) (e_concat rs)"
proof (induction fs rs rule: list_all2_induct)
  case Nil
  have "oseq [] = (\<lambda>s. Some (True, s))" by (simp add: fun_eq_iff)
  then show ?case using oimplements_return by simp
next
  case (Cons f fs r rs)
  have "oseq (f # fs) = (\<lambda>s. oand_then (f s) (oseq fs))" by (simp add: fun_eq_iff)
  then show ?case using oimplements_seq [OF Cons(1,3)] by simp
qed


text \<open>
  The size first, then the data: on a sizing stream the data is only counted, on any other
  stream \<open>h\<close> writes it.
\<close>

lemma emits_same:
  assumes "emits f r" "\<And>s. stream_ok s \<Longrightarrow> g s = f s"
  shows "emits g r"
  using assms by (cases r) (simp_all add: emits_def)

lemma sizes_same:
  assumes "sizes f r" "\<And>s. os_callback s = None \<Longrightarrow> g s = f s"
  shows "sizes g r"
  using assms by (cases r) (simp_all add: sizes_def)

lemma implements_delimited:
  assumes h: "emits h (Bytes bs)" and len: "length bs < 2 ^ 63"
  shows "implements (\<lambda>s. and_then (pb_encode_varint s (of_nat (length bs)))
      (\<lambda>s. case os_callback s of None \<Rightarrow> pb_write s [] (of_nat (length bs)) | Some _ \<Rightarrow> h s))
    (e_delimited (Bytes bs))"
proof -
  have u: "unat (of_nat (length bs) :: u64) = length bs" using len by (intro unat_of_nat_64) simp
  let ?k = "\<lambda>s. case os_callback s of None \<Rightarrow> pb_write s [] (of_nat (length bs)) | Some _ \<Rightarrow> h s"
  have "sizes ?k (Bytes bs)" by (simp add: sizes_def pb_write_def)
  moreover have "emits ?k (Bytes bs)"
    by (rule emits_same [OF h]) (simp add: stream_ok_def)
  ultimately have "implements ?k (Bytes bs)" by (simp add: implements_def)
  from implements_seq [OF pb_encode_varint_implements [of "of_nat (length bs)"] this] len show ?thesis
    by (simp add: u e_varint_def)
qed

lemma sub_stream_emits:
  assumes g: "emits g (Bytes bs)" and ok: "stream_ok s"
    and fits: "unat (os_bytes_written s) + length bs \<le> unat (os_max_size s)"
  shows "\<exists>sub. g \<lparr>os_callback = Some cb, os_state = os_state s, os_max_size = of_nat (length bs),
            os_bytes_written = 0, os_errmsg = None\<rparr> = (True, sub)
    \<and> os_bytes_written sub = of_nat (length bs)
    \<and> emitted s bs (s\<lparr>os_bytes_written := os_bytes_written s + of_nat (length bs),
          os_state := os_state sub, os_errmsg := os_errmsg sub\<rparr>)"
proof -
  let ?sub = "\<lparr>os_callback = Some cb, os_state = os_state s, os_max_size = of_nat (length bs),
      os_bytes_written = 0, os_errmsg = None\<rparr>"
  have len: "length bs < 2 ^ 63" using fits ok by (simp add: stream_ok_def)
  then have u: "unat (of_nat (length bs) :: u64) = length bs" by (intro unat_of_nat_64) simp
  have "stream_ok ?sub" using ok fits len u by (auto simp: stream_ok_def)
  from emits_BytesD [OF g this] u obtain sub where
    sub: "g ?sub = (True, sub)" "emitted ?sub bs sub" by auto
  then have w: "unat (os_bytes_written sub) = length bs" by (simp add: emitted_def)
  then have w': "os_bytes_written sub = of_nat (length bs)" by (simp flip: w)
  have "unat (os_bytes_written s + of_nat (length bs)) = unat (os_bytes_written s) + length bs"
    using fits unat_lt_64 [of "os_max_size s"] u by (subst unat_add_no_overflow) simp_all
  with sub(2) ok fits u have "emitted s bs (s\<lparr>os_bytes_written := os_bytes_written s + of_nat (length bs),
      os_state := os_state sub, os_errmsg := os_errmsg sub\<rparr>)"
    by (auto simp: emitted_def stream_ok_def word_le_nat_alt)
  with sub(1) w' show ?thesis by blast
qed


end

text \<open>The submessage body behind the length: the limited substream, or the stream is full.\<close>

definition submessage_body ::
  "('s pb_ostream \<Rightarrow> bool \<times> 's pb_ostream) \<Rightarrow> size_t \<Rightarrow> 's pb_ostream \<Rightarrow> bool \<times> 's pb_ostream" where
  "submessage_body g sz s =
     (if os_max_size s < os_bytes_written s + sz then os_return_error s ''stream full''
      else (case g \<lparr>os_callback = os_callback s, os_state = os_state s, os_max_size = sz,
                    os_bytes_written = 0, os_errmsg = None\<rparr> of
              (status, sub) \<Rightarrow>
                 let s = s\<lparr>os_bytes_written := os_bytes_written s + os_bytes_written sub,
                           os_state := os_state sub, os_errmsg := os_errmsg sub\<rparr>
                 in if os_bytes_written sub \<noteq> sz
                    then os_return_error s ''submsg size changed'' else (status, s)))"

context ostream_callback
begin

lemma submessage_body_emits:
  assumes g: "emits g (Bytes bs)" and len: "length bs < 2 ^ 63"
  shows "emits (submessage_body g (of_nat (length bs))) (Bytes bs)" (is "emits ?f _")
proof -
  have u: "unat (of_nat (length bs) :: u64) = length bs" using len by (intro unat_of_nat_64) simp
  have "if unat (os_bytes_written s) + length bs \<le> unat (os_max_size s)
      then \<exists>s'. ?f s = (True, s') \<and> emitted s bs s' else \<exists>s'. ?f s = (False, s') \<and> aborted s s'"
    if ok: "stream_ok s" for s
  proof -
    have "unat (os_bytes_written s) \<le> unat (os_max_size s)" "unat (os_max_size s) < 2 ^ 63"
      using ok by (simp_all add: stream_ok_def word_le_nat_alt)
    then have "unat (os_bytes_written s + of_nat (length bs)) = unat (os_bytes_written s) + length bs"
      using u len by (subst unat_add_no_overflow) simp_all
    then have full: "os_max_size s < os_bytes_written s + of_nat (length bs)
        \<longleftrightarrow> \<not> unat (os_bytes_written s) + length bs \<le> unat (os_max_size s)"
      by (simp add: word_less_nat_alt not_le)
    show ?thesis
    proof (cases "unat (os_bytes_written s) + length bs \<le> unat (os_max_size s)")
      case False
      then show ?thesis
        using full ok by (simp add: submessage_body_def os_return_error_def aborted_refl_error)
    next
      case True
      from sub_stream_emits [OF g ok this] obtain sub where
        sub: "g \<lparr>os_callback = os_callback s, os_state = os_state s, os_max_size = of_nat (length bs),
            os_bytes_written = 0, os_errmsg = None\<rparr> = (True, sub)"
          "os_bytes_written sub = of_nat (length bs)"
          "emitted s bs (s\<lparr>os_bytes_written := os_bytes_written s + of_nat (length bs),
            os_state := os_state sub, os_errmsg := os_errmsg sub\<rparr>)"
        using ok by (auto simp: stream_ok_def)
      then show ?thesis using True full by (simp add: submessage_body_def)
    qed
  qed
  then show ?thesis by (simp add: emits_def)
qed

lemma pb_encode_submessage_implements:
  assumes "oimplements (\<lambda>s. penc s flds src) r"
  shows "oimplements (\<lambda>s. pb_encode_submessage penc s flds src) (e_delimited r)"
proof -
  from assms obtain g where g: "\<And>s. penc s flds src = Some (g s)" "sizes g r" "emits g r"
    by (auto simp: oimplements_def implements_def fun_eq_iff)
  show ?thesis
  proof (cases r)
    case (Bytes bs)
    have size: "g \<lparr>os_callback = None, os_state = st, os_max_size = 0, os_bytes_written = 0, os_errmsg = None\<rparr> =
        (True, \<lparr>os_callback = None, os_state = st, os_max_size = 0, os_bytes_written = of_nat (length bs),
                os_errmsg = None\<rparr>)" for st
      using sizes_BytesD [OF g(2) [unfolded Bytes], of "PB_OSTREAM_SIZING st"]
      by (simp add: PB_OSTREAM_SIZING_def)
    have eq: "pb_encode_submessage penc s flds src = Some (and_then (pb_encode_varint s (of_nat (length bs)))
        (\<lambda>s. case os_callback s of None \<Rightarrow> pb_write s [] (of_nat (length bs))
          | Some _ \<Rightarrow> submessage_body g (of_nat (length bs)) s))" for s
      by (auto simp: pb_encode_submessage_def g(1) size PB_OSTREAM_SIZING_def Let_def and_then_def
          oand_then_def submessage_body_def split: option.splits prod.splits)
    show ?thesis
    proof (cases "length bs < 2 ^ 63")
      case True
      show ?thesis unfolding eq Bytes
        by (intro oimplements_Some implements_delimited submessage_body_emits True
            g(3) [unfolded Bytes])
    next
      case False
      then show ?thesis unfolding eq Bytes by (intro oimplements_Some) simp
    qed
  next
    case Enc_error
    have "\<exists>sub. g (PB_OSTREAM_SIZING st) = (False, sub)" for st
      using sizes_ErrorD [OF g(2) [unfolded Enc_error], of "PB_OSTREAM_SIZING st"]
      by (auto simp: PB_OSTREAM_SIZING_def)
    then obtain e where e: "g (PB_OSTREAM_SIZING st) = (False, e st)" for st by metis
    have "pb_encode_submessage penc s flds src =
        Some (False, s\<lparr>os_errmsg := os_errmsg (e (os_state s))\<rparr>)" for s
      by (simp add: pb_encode_submessage_def g(1) e)
    moreover have "implements (\<lambda>s. (False, s\<lparr>os_errmsg := os_errmsg (e (os_state s))\<rparr>)) Enc_error"
      by (auto simp: implements_def sizes_def emits_def aborted_def stream_ok_def)
    ultimately show ?thesis using Enc_error by (simp add: oimplements_Some)
  next
    case Too_big
    have "\<exists>y. pb_encode_submessage penc s flds src = Some y" for s
      by (auto simp: pb_encode_submessage_def g(1) oand_then_def Let_def
          split: prod.splits option.splits bool.splits)
    then obtain h where "\<And>s. pb_encode_submessage penc s flds src = Some (h s)" by metis
    with Too_big show ?thesis by (simp add: oimplements_Some)
  qed
qed


section \<open>Single values\<close>

lemma pb_enc_bytes_implements:
  assumes "PB_LTYPE (pf_type f) = PB_LTYPE_BYTES"
  shows "oimplements (\<lambda>s. pb_enc_bytes m s f src)
    (if src = 0 then e_string []
     else if PB_ATYPE (pf_type f) = PB_ATYPE_STATIC \<and>
             unat (pf_data_size f) < unat (load_u32 m src) + 4 then Enc_error
     else e_string (load_bytes m (src + 4) (unat (load_u32 m src))))"
proof (cases "src = 0")
  case True
  then show ?thesis
    using pb_encode_string_implements [of 0 "[]"] by (simp add: pb_enc_bytes_def oimplements_Some)
next
  case False
  let ?n = "load_u32 m src"
  have n: "unat (ucast ?n :: size_t) = unat ?n" by (simp add: unat_ucast_up)
  have a: "unat (PB_BYTES_ARRAY_T_ALLOCSIZE (ucast ?n)) = unat ?n + 4"
    unfolding PB_BYTES_ARRAY_T_ALLOCSIZE_def pb_bytes_array_offsetof_bytes_def
    using unat_lt_32 [of ?n] by (subst unat_add_no_overflow) (simp_all add: n)
  have "\<not> PB_BYTES_ARRAY_T_ALLOCSIZE (ucast ?n) < ucast ?n"
    by (simp add: word_less_nat_alt n a)
  moreover have "(ucast (pf_data_size f) < PB_BYTES_ARRAY_T_ALLOCSIZE (ucast ?n)) \<longleftrightarrow>
      unat (pf_data_size f) < unat ?n + 4"
    by (simp add: word_less_nat_alt unat_ucast_up a)
  ultimately show ?thesis
    using False pb_encode_string_implements [of "ucast ?n" "load_bytes m (src + 4) (unat ?n)"] n
    by (auto simp: pb_enc_bytes_def Let_def oimplements_Some oimplements_error pb_bytes_array_offsetof_bytes_def)
qed

lemma pb_enc_string_implements:
  "oimplements (\<lambda>s. pb_enc_string m s f src)
    (if src = 0 then e_string []
     else e_string (c_string m src
       (if PB_ATYPE (pf_type f) = PB_ATYPE_POINTER then 2 ^ 64 - 1 else unat (pf_data_size f))))"
proof (cases "src = 0")
  case True
  then show ?thesis
    using pb_encode_string_implements [of 0 "[]"] by (simp add: pb_enc_string_def oimplements_Some)
next
  case False
  let ?max = "if PB_ATYPE (pf_type f) = PB_ATYPE_POINTER then - 1 else ucast (pf_data_size f) :: size_t"
  let ?sz = "strnlen_loop m ?max 0 src"
  have max: "unat ?max = (if PB_ATYPE (pf_type f) = PB_ATYPE_POINTER then 2 ^ 64 - 1 else unat (pf_data_size f))"
    by (simp add: unat_ucast_up unsigned_minus_1_eq_mask mask_eq_exp_minus_1)
  have sz: "unat ?sz = length (c_string m src (unat ?max))"
    using strnlen_loop_eq [of 0 ?max m src] by simp
  have "implements (\<lambda>s. pb_encode_string s (load_bytes m src (unat ?sz)) ?sz)
      (e_string (c_string m src (unat ?max)))"
    using pb_encode_string_implements [of ?sz "load_bytes m src (unat ?sz)"]
    by (simp add: sz load_bytes_c_string)
  with False show ?thesis by (simp only: pb_enc_string_def Let_def max if_False) (rule oimplements_Some)
qed

lemma implements_int:
  assumes "\<And>v. implements (\<lambda>s. enc s v) (e v)"
  shows "oimplements (\<lambda>s. Some (if c1 then enc s v1 else if c2 then enc s v2 else if c4 then enc s v4
      else if c8 then enc s v8 else os_return_error s msg))
    (case (if c1 then Some v1 else if c2 then Some v2 else if c4 then Some v4
           else if c8 then Some v8 else None) of None \<Rightarrow> Enc_error | Some v \<Rightarrow> e v)"
  using assms implements_error [of msg] by (intro oimplements_Some) auto

lemma PB_ENCODERS_implements:
  assumes sub: "\<And>flds a r. esub flds a = Some r \<Longrightarrow> oimplements (\<lambda>s. penc s flds a) r"
    and r: "e_value env esub f src = Some r"
  shows "oimplements (\<lambda>s. PB_ENCODERS env penc (PB_LTYPE (pf_type f)) s f src) r"
proof -
  let ?m = "ee_mem env" and ?lt = "PB_LTYPE (pf_type f)"
  note encs = PB_ENCODERS_def Let_def pb_consts
  show ?thesis
  proof (cases "?lt = PB_LTYPE_SUBMESSAGE")
    case True
    show ?thesis
    proof (cases "pf_ptr f = 0")
      case True
      with r \<open>?lt = PB_LTYPE_SUBMESSAGE\<close> show ?thesis
        by (simp add: e_value_def encs pb_enc_submessage_def oimplements_error)
    next
      case False
      with r \<open>?lt = PB_LTYPE_SUBMESSAGE\<close> obtain q where
        q: "esub (ee_fields env (pf_ptr f)) src = Some q" "r = e_delimited q"
        by (auto simp: e_value_def Let_def pb_consts)
      from pb_encode_submessage_implements [of penc, OF sub [OF q(1)]] q(2) False \<open>?lt = PB_LTYPE_SUBMESSAGE\<close>
      show ?thesis by (simp add: encs pb_enc_submessage_def)
    qed
  next
    case False
    consider "?lt = PB_LTYPE_BOOL" | "?lt = PB_LTYPE_VARINT" | "?lt = PB_LTYPE_UVARINT"
      | "?lt = PB_LTYPE_SVARINT" | "?lt = PB_LTYPE_FIXED32" | "?lt = PB_LTYPE_FIXED64"
      | "?lt = PB_LTYPE_BYTES" | "?lt = PB_LTYPE_STRING" | "?lt = PB_LTYPE_FIXED_LENGTH_BYTES"
      using r False by (auto simp: e_value_def Let_def split: if_splits)
    then show ?thesis
    proof cases
      case 1
      with r show ?thesis
        using pb_encode_varint_implements [of "if safe_read_bool ?m src then 1 else 0"]
        by (auto simp: e_value_def encs pb_enc_bool_def safe_read_bool_def intro: oimplements_Some)
    next
      case 2
      then have "r = (case e_int ?m (pf_data_size f) src of None \<Rightarrow> Enc_error | Some v \<Rightarrow> e_varint (unat v))"
        using r by (simp add: e_value_def Let_def pb_consts)
      then show ?thesis
        using 2 implements_int [of pb_encode_varint "\<lambda>v. e_varint (unat v)", OF pb_encode_varint_implements]
        by (simp add: encs pb_enc_varint_def e_int_def)
    next
      case 3
      then have "r = (case e_uint ?m (pf_data_size f) src of None \<Rightarrow> Enc_error | Some v \<Rightarrow> e_varint (unat v))"
        using r by (simp add: e_value_def Let_def pb_consts)
      then show ?thesis
        using 3 implements_int [of pb_encode_varint "\<lambda>v. e_varint (unat v)", OF pb_encode_varint_implements]
        by (simp add: encs pb_enc_uvarint_def e_uint_def)
    next
      case 4
      then have "r = (case e_int ?m (pf_data_size f) src of None \<Rightarrow> Enc_error | Some v \<Rightarrow> e_varint (zigzag (sint v)))"
        using r by (simp add: e_value_def Let_def pb_consts)
      then show ?thesis
        using 4 implements_int [of pb_encode_svarint "\<lambda>v. e_varint (zigzag (sint v))", OF pb_encode_svarint_implements]
        by (simp add: encs pb_enc_svarint_def e_int_def)
    next
      case 5
      with r pb_encode_fixed32_implements [of "load_u32 ?m src"] show ?thesis
        by (simp add: e_value_def encs pb_enc_fixed32_def load_u32_bytes oimplements_Some)
    next
      case 6
      with r pb_encode_fixed64_implements [of "load_u64 ?m src"] show ?thesis
        by (simp add: e_value_def encs pb_enc_fixed64_def load_u64_bytes oimplements_Some)
    next
      case 7
      with r pb_enc_bytes_implements [OF 7, of ?m src] show ?thesis
        by (simp add: e_value_def encs split: if_splits)
    next
      case 8
      with r pb_enc_string_implements [of ?m f src] show ?thesis
        by (simp add: e_value_def encs split: if_splits)
    next
      case 9
      with r pb_encode_string_implements [of "ucast (pf_data_size f)" "load_bytes ?m src (unat (pf_data_size f))"]
      show ?thesis
        by (simp add: e_value_def encs pb_enc_fixed_length_bytes_def unat_ucast_up oimplements_Some)
    qed
  qed
qed

end

end
