(* ===== verification/Pb_Encode_Correct.thy ===== *)
theory Pb_Encode_Correct
  imports Pb_Encode_Spec
begin

text \<open>
  Arrays, fields, extensions and whole messages: the specification of each, and the proof that
  the encoder implements it on every stream.
\<close>

section \<open>Arrays\<close>

lemma e_concat_fixed:
  assumes "\<And>r. r \<in> set rs \<Longrightarrow> \<exists>bs. r = Bytes bs \<and> length bs = k"
  shows "\<exists>bs. e_concat rs = Bytes bs \<and> length bs = k * length rs"
  using assms
proof (induction rs)
  case (Cons r rs)
  then obtain bs where "e_concat rs = Bytes bs" "length bs = k * length rs" by auto
  moreover from Cons.prems obtain b where "r = Bytes b" "length b = k" by auto
  ultimately show ?case by simp
qed simp

context ostream_callback
begin

lemma list_all2_map_upt:
  assumes "all_some (map e [0..<n]) = Some rs" "\<And>i r. i < n \<Longrightarrow> e i = Some r \<Longrightarrow> P (f i) r"
  shows "list_all2 P (map f [0..<n]) rs"
proof -
  from assms(1) have "map e [0..<n] = map Some rs" by (simp add: all_some_Some)
  then have len: "length rs = n" and nth: "\<And>i. i < n \<Longrightarrow> e i = Some (rs ! i)"
    by (metis diff_zero length_map length_upt, metis (no_types, lifting) add.left_neutral
        diff_zero length_map length_upt nth_map nth_upt)
  with assms(2) show ?thesis by (simp add: list_all2_conv_all_nth)
qed

lemma tagged_implements:
  assumes sub: "\<And>flds a r. esub flds a = Some r \<Longrightarrow> oimplements (\<lambda>s. penc s flds a) r"
    and r: "e_tagged env esub f a = Some r"
  shows "oimplements (\<lambda>s. oand_then (Some (pb_encode_tag_for_field s f))
    (\<lambda>s. PB_ENCODERS env penc (PB_LTYPE (pf_type f)) s f a)) r"
proof (cases "wire_type_of (pf_type f)")
  case None
  then show ?thesis
    using r oimplements_error [of "''invalid field type''"]
    by (auto simp: e_tagged_def pb_encode_tag_for_field_cases os_return_error_def)
next
  case (Some wt)
  with r obtain q where q: "e_value env esub f a = Some q" "r = enc_seq (e_field_tag f) q"
    by (auto simp: e_tagged_def)
  show ?thesis unfolding q(2)
    by (intro oimplements_seq oimplements_Some pb_encode_tag_for_field_implements
        PB_ENCODERS_implements [OF sub q(1)])
qed

text \<open>Packed items: the total size, then the items.\<close>

lemma packed_implements:
  assumes "oimplements h q"
    and "\<And>s bs. q = Bytes bs \<Longrightarrow> length bs < 2 ^ 63 \<Longrightarrow> sz s = Some (True, of_nat (length bs))"
    and "\<And>s. q = Enc_error \<Longrightarrow> \<exists>x. sz s = Some (False, x)"
    and "\<And>s. sz s \<noteq> None"
  shows "oimplements (\<lambda>s. case sz s of None \<Rightarrow> None | Some (False, n) \<Rightarrow> Some (False, s)
      | Some (True, n) \<Rightarrow> oand_then (Some (pb_encode_varint s n)) (\<lambda>s. case os_callback s of
          None \<Rightarrow> Some (pb_write s [] n) | Some _ \<Rightarrow> h s)) (e_delimited q)" (is "oimplements ?f _")
proof -
  from assms(1) obtain g where g: "h = (\<lambda>s. Some (g s))" "emits g q"
    by (auto simp: oimplements_def implements_def)
  have total: "\<exists>y. ?f s = Some y" for s
    using assms(4) [of s] unfolding g(1)
    by (auto simp: oand_then_def split: prod.splits option.splits bool.splits)
  show ?thesis
  proof (cases q)
    case (Bytes bs)
    show ?thesis
    proof (cases "length bs < 2 ^ 63")
      case True
      have "?f s = Some (and_then (pb_encode_varint s (of_nat (length bs)))
          (\<lambda>s. case os_callback s of None \<Rightarrow> pb_write s [] (of_nat (length bs)) | Some _ \<Rightarrow> g s))" for s
        using assms(2) [OF Bytes True, of s] unfolding g(1)
        by (auto simp: oand_then_def and_then_def split: prod.splits option.splits)
      with implements_delimited [OF g(2) [unfolded Bytes] True] Bytes show ?thesis
        by (simp only: oimplements_Some)
    next
      case False
      from total obtain y where "\<And>s. ?f s = Some (y s)" by metis
      with Bytes False show ?thesis by (simp only: oimplements_def fun_eq_iff e_delimited.simps if_False) auto
    qed
  next
    case Enc_error
    have "?f s = Some (False, s)" for s using assms(3) [OF Enc_error, of s] by auto
    moreover have "implements (\<lambda>s. (False, s)) Enc_error"
      by (auto simp: implements_def sizes_def emits_def aborted_def)
    ultimately show ?thesis using Enc_error by (simp only: e_delimited.simps oimplements_Some)
  next
    case Too_big
    from total obtain y where "\<And>s. ?f s = Some (y s)" by metis
    with Too_big show ?thesis by (simp only: oimplements_def fun_eq_iff e_delimited.simps) auto
  qed
qed


text \<open>The size of a packed array is computed without a sizing pass if its items have a fixed size.\<close>

definition packed_size :: "pb_type \<Rightarrow> size_t \<Rightarrow> ('s pb_ostream \<Rightarrow> (bool \<times> 's pb_ostream) option)
    \<Rightarrow> 's pb_ostream \<Rightarrow> (bool \<times> size_t) option" where
  "packed_size lt count h s =
     (if lt = PB_LTYPE_FIXED32 then Some (True, 4 * count)
      else if lt = PB_LTYPE_FIXED64 then Some (True, 8 * count)
      else map_option (map_prod id os_bytes_written) (h (PB_OSTREAM_SIZING (os_state s))))"

lemma packed_size_ok:
  assumes h: "oimplements h (e_concat rs)" and n: "length rs = unat count" "unat count < 2 ^ 32"
    and fixed: "\<forall>k. lt = PB_LTYPE_FIXED32 \<and> k = 4 \<or> lt = PB_LTYPE_FIXED64 \<and> k = 8 \<longrightarrow>
      (\<forall>r \<in> set rs. \<exists>bs. r = Bytes bs \<and> length bs = (k :: nat))"
  shows "e_concat rs = Bytes bs \<Longrightarrow> length bs < 2 ^ 63 \<Longrightarrow> packed_size lt count h s = Some (True, of_nat (length bs))"
    and "e_concat rs = Enc_error \<Longrightarrow> \<exists>x. packed_size lt count h s = Some (False, x)"
    and "packed_size lt count h s \<noteq> None"
proof -
  from h obtain g where g: "h = (\<lambda>s. Some (g s))" "sizes g (e_concat rs)"
    by (auto simp: oimplements_def implements_def)
  have sizing: "os_callback (PB_OSTREAM_SIZING st) = None" "os_bytes_written (PB_OSTREAM_SIZING st) = 0" for st
    by (simp_all add: PB_OSTREAM_SIZING_def)
  have nat_mult: "(of_nat k :: size_t) * count = of_nat (k * length rs)" for k
    by (simp add: n)
  show "packed_size lt count h s = Some (True, of_nat (length bs))"
    if "e_concat rs = Bytes bs"
  proof -
    have len: "length bs = k * length rs" if "lt = PB_LTYPE_FIXED32 \<and> k = 4 \<or> lt = PB_LTYPE_FIXED64 \<and> k = 8" for k
      using e_concat_fixed [of rs k] fixed that \<open>e_concat rs = Bytes bs\<close> by auto
    show ?thesis
      using len [of 4] len [of 8] nat_mult [of 4] nat_mult [of 8]
        sizes_BytesD [OF g(2) [unfolded that] sizing(1)]
      by (auto simp: packed_size_def g(1) sizing(2))
  qed
  show "\<exists>x. packed_size lt count h s = Some (False, x)" if "e_concat rs = Enc_error"
  proof -
    have "\<not> (lt = PB_LTYPE_FIXED32 \<and> k = 4 \<or> lt = PB_LTYPE_FIXED64 \<and> k = 8)" for k :: nat
      using e_concat_fixed [of rs k] fixed that by auto
    then have "lt \<noteq> PB_LTYPE_FIXED32" "lt \<noteq> PB_LTYPE_FIXED64" by auto
    with sizes_ErrorD [OF g(2) [unfolded that] sizing(1)] show ?thesis
      by (auto simp: packed_size_def g(1)) (metis fst_conv map_prod_simp id_apply)
  qed
  show "packed_size lt count h s \<noteq> None" by (auto simp: packed_size_def g(1))
qed

lemma encode_array_packed:
  assumes "count \<noteq> 0" "\<not> (PB_ATYPE (pf_type f) \<noteq> PB_ATYPE_POINTER \<and> unat (pf_array_size f) < unat count)"
    and "PB_LTYPE (pf_type f) \<le> PB_LTYPE_LAST_PACKABLE"
  shows "encode_array env s f p count func =
    (let h = array_loop (\<lambda>s a. func s f a) (ucast (pf_data_size f)) (unat count) p in
     oand_then (Some (pb_encode_tag s PB_WT_STRING (pf_tag f))) (\<lambda>s.
       case packed_size (PB_LTYPE (pf_type f)) count h s of
         None \<Rightarrow> None
       | Some (False, n) \<Rightarrow> Some (False, s)
       | Some (True, n) \<Rightarrow> oand_then (Some (pb_encode_varint s n)) (\<lambda>s. case os_callback s of
          None \<Rightarrow> Some (pb_write s [] n) | Some _ \<Rightarrow> h s)))"
proof -
  have "\<not> (PB_ATYPE (pf_type f) \<noteq> PB_ATYPE_POINTER \<and> ucast (pf_array_size f) < count)"
    using assms(2) by (simp add: word_less_nat_alt unat_ucast_up)
  with assms(1,3) show ?thesis
    unfolding encode_array_def packed_size_def Let_def by (simp only: if_True if_False)
qed

lemma encode_array_unpacked:
  assumes "count \<noteq> 0" "\<not> (PB_ATYPE (pf_type f) \<noteq> PB_ATYPE_POINTER \<and> unat (pf_array_size f) < unat count)"
    and "\<not> PB_LTYPE (pf_type f) \<le> PB_LTYPE_LAST_PACKABLE"
  shows "encode_array env s f p count func =
    array_loop (\<lambda>s a. oand_then (Some (pb_encode_tag_for_field s f)) (\<lambda>s. func s f
        (if PB_ATYPE (pf_type f) = PB_ATYPE_POINTER \<and>
            (PB_LTYPE (pf_type f) = PB_LTYPE_STRING \<or> PB_LTYPE (pf_type f) = PB_LTYPE_BYTES)
         then load_ptr (ee_mem env) a else a)))
      (ucast (pf_data_size f)) (unat count) p s"
proof -
  have "\<not> (PB_ATYPE (pf_type f) \<noteq> PB_ATYPE_POINTER \<and> ucast (pf_array_size f) < count)"
    using assms(2) by (simp add: word_less_nat_alt unat_ucast_up)
  with assms(1,3) show ?thesis
    unfolding encode_array_def Let_def by (simp only: if_True if_False if_distrib)
qed

lemma e_value_fixed:
  assumes "e_value env esub f p = Some r"
  shows "PB_LTYPE (pf_type f) = PB_LTYPE_FIXED32 \<Longrightarrow> \<exists>bs. r = Bytes bs \<and> length bs = 4"
    "PB_LTYPE (pf_type f) = PB_LTYPE_FIXED64 \<Longrightarrow> \<exists>bs. r = Bytes bs \<and> length bs = 8"
  using assms by (auto simp: e_value_def Let_def pb_consts)

lemma encode_array_implements:
  assumes sub: "\<And>flds a r. esub flds a = Some r \<Longrightarrow> oimplements (\<lambda>s. penc s flds a) r"
    and r: "e_array env esub f p (unat count) = Some r" and count: "unat count < 2 ^ 32"
  shows "oimplements (\<lambda>s. encode_array env s f p count (PB_ENCODERS env penc (PB_LTYPE (pf_type f)))) r"
proof -
  let ?lt = "PB_LTYPE (pf_type f)" and ?n = "unat count"
  let ?enc = "PB_ENCODERS env penc ?lt"
  consider (empty) "count = 0"
    | (big) "count \<noteq> 0" "PB_ATYPE (pf_type f) \<noteq> PB_ATYPE_POINTER" "unat (pf_array_size f) < ?n"
    | (ok) "count \<noteq> 0" "\<not> (PB_ATYPE (pf_type f) \<noteq> PB_ATYPE_POINTER \<and> unat (pf_array_size f) < ?n)"
    by blast
  then show ?thesis
  proof cases
    case empty
    with r oimplements_return show ?thesis by (auto simp: encode_array_def e_array_def)
  next
    case big
    with r oimplements_error [of "''array max size exceeded''"] show ?thesis
      by (auto simp: encode_array_def e_array_def unat_eq_0 word_less_nat_alt unat_ucast_up)
  next
    case ok
    show ?thesis
    proof (cases "?lt \<le> PB_LTYPE_LAST_PACKABLE")
      case True
      let ?h = "array_loop (\<lambda>s a. ?enc s f a) (ucast (pf_data_size f)) ?n p"
      from True ok r obtain rs where
        rs: "all_some (map (\<lambda>i. e_value env esub f (array_item f p i)) [0..<?n]) = Some rs"
          "r = enc_seq (e_tag PB_WT_STRING (pf_tag f)) (e_delimited (e_concat rs))"
        by (auto simp: e_array_def unat_eq_0)
      have "oimplements (oseq (map (\<lambda>i s. ?enc s f (array_item f p i)) [0..<?n])) (e_concat rs)"
        by (intro oimplements_oseq list_all2_map_upt [OF rs(1)] PB_ENCODERS_implements [OF sub])
      moreover have "?h = oseq (map (\<lambda>i s. ?enc s f (array_item f p i)) [0..<?n])"
        by (simp add: fun_eq_iff array_loop_oseq array_item_def)
      ultimately have h: "oimplements ?h (e_concat rs)" by simp
      have rs': "map (\<lambda>i. e_value env esub f (array_item f p i)) [0..<?n] = map Some rs"
        using rs(1) by (simp add: all_some_Some)
      have len: "length rs = ?n" using arg_cong [OF rs', of length] by simp
      have fixed: "\<forall>k. ?lt = PB_LTYPE_FIXED32 \<and> k = 4 \<or> ?lt = PB_LTYPE_FIXED64 \<and> k = 8 \<longrightarrow>
          (\<forall>q \<in> set rs. \<exists>bs. q = Bytes bs \<and> length bs = k)"
      proof (intro allI impI ballI)
        fix k :: nat and q assume k: "?lt = PB_LTYPE_FIXED32 \<and> k = 4 \<or> ?lt = PB_LTYPE_FIXED64 \<and> k = 8"
          and "q \<in> set rs"
        then have "Some q \<in> set (map (\<lambda>i. e_value env esub f (array_item f p i)) [0..<?n])"
          using rs' by simp
        then show "\<exists>bs. q = Bytes bs \<and> length bs = k"
          using e_value_fixed [of env esub f _ q] k by fastforce
      qed
      note pk = packed_implements [where sz = "packed_size ?lt count ?h", OF h packed_size_ok [OF h len count fixed]]
      have tag: "oimplements (\<lambda>s. Some (pb_encode_tag s PB_WT_STRING (pf_tag f))) (e_tag PB_WT_STRING (pf_tag f))"
        by (intro oimplements_Some pb_encode_tag_implements) simp
      from oimplements_seq [OF tag pk] show ?thesis
        unfolding rs(2) encode_array_packed [OF ok True] Let_def .
    next
      case False
      let ?a = "\<lambda>i. if PB_ATYPE (pf_type f) = PB_ATYPE_POINTER \<and> (?lt = PB_LTYPE_STRING \<or> ?lt = PB_LTYPE_BYTES)
          then load_ptr (ee_mem env) (array_item f p i) else array_item f p i"
      from False ok r obtain rs where
        rs: "all_some (map (\<lambda>i. e_tagged env esub f (?a i)) [0..<?n]) = Some rs" "r = e_concat rs"
        by (auto simp: e_array_def unat_eq_0)
      have "oimplements (oseq (map (\<lambda>i s. oand_then (Some (pb_encode_tag_for_field s f)) (\<lambda>s. ?enc s f (?a i))) [0..<?n])) r"
        unfolding rs(2)
        by (intro oimplements_oseq list_all2_map_upt [OF rs(1)] tagged_implements [OF sub])
      then show ?thesis
        unfolding encode_array_unpacked [OF ok False] array_loop_oseq array_item_def .
    qed
  qed
qed

end

section \<open>Fields and messages\<close>

text \<open>
  What the callbacks of a program write: \<open>cspec\<close> for the encoding callbacks of callback fields,
  \<open>xspec\<close> for custom extension encoders.
\<close>

type_synonym cb_spec = "addr \<Rightarrow> pb_field \<Rightarrow> addr \<Rightarrow> enc"
type_synonym ext_spec = "addr \<Rightarrow> addr \<Rightarrow> enc"

text \<open>Whether an optional field is present; \<open>None\<close> if the default check needs more depth.\<close>

definition e_present :: "nat \<Rightarrow> 's enc_env \<Rightarrow> pb_field \<Rightarrow> addr \<Rightarrow> bool option" where
  "e_present n env f p =
     (let m = ee_mem env in
      if pf_size_offset f \<noteq> 0 then Some (load_u8 m (p + scast (pf_size_offset f)) \<noteq> 0)
      else if PB_ATYPE (pf_type f) = PB_ATYPE_POINTER
      then map_option (\<lambda>_. load_ptr m p \<noteq> 0) (pb_check_proto3_default_value n env f p)
      else map_option Not (pb_check_proto3_default_value n env f p))"

definition e_basic_field :: "nat \<Rightarrow> 's enc_env \<Rightarrow> e_sub \<Rightarrow> pb_field \<Rightarrow> addr \<Rightarrow> enc option" where
  "e_basic_field n env esub f p =
     (let m = ee_mem env; ht = PB_HTYPE (pf_type f);
          data = (if PB_ATYPE (pf_type f) = PB_ATYPE_POINTER then load_ptr m p else p);
          count = (if pf_size_offset f \<noteq> 0 then load_u32 m (p + scast (pf_size_offset f))
                   else pf_array_size f)
      in if ht = PB_HTYPE_REQUIRED then
           (if data = 0 then Some Enc_error else e_tagged env esub f data)
         else if ht = PB_HTYPE_OPTIONAL then
           (case e_present n env f p of None \<Rightarrow> None
            | Some present \<Rightarrow> if present then e_tagged env esub f data else Some (Bytes []))
         else if ht = PB_HTYPE_REPEATED then e_array env esub f data (unat count)
         else (if (if pf_size_offset f \<noteq> 0 then load_u32 m (p + scast (pf_size_offset f))
                   else if PB_ATYPE (pf_type f) = PB_ATYPE_POINTER \<longrightarrow> data \<noteq> 0 then 1 else 0) = pf_tag f
               then e_tagged env esub f data else Some (Bytes [])))"

definition e_field :: "nat \<Rightarrow> 's enc_env \<Rightarrow> cb_spec \<Rightarrow> e_sub \<Rightarrow> pb_field \<Rightarrow> addr \<Rightarrow> enc option" where
  "e_field n env cspec esub f p =
     (let at = PB_ATYPE (pf_type f); fn = load_ptr (ee_mem env) p in
      if at = PB_ATYPE_STATIC \<or> at = PB_ATYPE_POINTER then e_basic_field n env esub f p
      else if at = PB_ATYPE_CALLBACK then Some (if fn = 0 then Bytes [] else cspec fn f (p + 8))
      else Some Enc_error)"

text \<open>The extensions of a message, in the order of the chain of length at most \<open>k\<close>.\<close>

primrec e_extensions ::
  "nat \<Rightarrow> nat \<Rightarrow> 's enc_env \<Rightarrow> cb_spec \<Rightarrow> ext_spec \<Rightarrow> e_sub \<Rightarrow> addr \<Rightarrow> enc option" where
  "e_extensions 0 n env cspec xspec esub x = (if x = 0 then Some (Bytes []) else None)"
| "e_extensions (Suc k) n env cspec xspec esub x =
     (if x = 0 then Some (Bytes [])
      else
        let m = ee_mem env; ty = ext_type m x; f = field_at (ee_fields env (exttype_arg m ty)) 0 in
        case (if exttype_encode m ty \<noteq> 0 then Some (xspec (exttype_encode m ty) x)
              else e_field n env cspec esub f
                (if PB_ATYPE (pf_type f) = PB_ATYPE_POINTER then ext_dest_addr x else ext_dest m x)) of
          None \<Rightarrow> None
        | Some r \<Rightarrow> map_option (enc_seq r) (e_extensions k n env cspec xspec esub (ext_next m x)))"

definition e_any_field ::
  "nat \<Rightarrow> 's enc_env \<Rightarrow> cb_spec \<Rightarrow> ext_spec \<Rightarrow> e_sub \<Rightarrow> pb_field \<Rightarrow> addr \<Rightarrow> enc option" where
  "e_any_field n env cspec xspec esub f p =
     (if PB_LTYPE (pf_type f) = PB_LTYPE_EXTENSION
      then e_extensions n n env cspec xspec esub (load_ptr (ee_mem env) p)
      else e_field n env cspec esub f p)"

text \<open>The address of the \<open>i\<close>-th field of a message at \<open>src\<close>.\<close>

definition field_addr :: "pb_field list \<Rightarrow> addr \<Rightarrow> nat \<Rightarrow> addr" where
  "field_addr flds src i = it_pData (iter_at flds src i)"

text \<open>
  A message is the concatenation of its fields in the order of the table. The depth is the one of
  \<open>pb_encode\<close>.
\<close>

primrec e_message :: "nat \<Rightarrow> 's enc_env \<Rightarrow> cb_spec \<Rightarrow> ext_spec \<Rightarrow> e_sub" where
  "e_message 0 env cspec xspec flds src = None"
| "e_message (Suc n) env cspec xspec flds src =
     map_option e_concat (all_some
       (map (\<lambda>i. e_any_field n env cspec xspec (e_message n env cspec xspec)
                   (field_at flds i) (field_addr flds src i)) [0..<nfields flds]))"

section \<open>The encoder implements the specification\<close>

context ostream_callback
begin

lemma implements_on_error:
  assumes "implements f r"
  shows "implements (\<lambda>s. if fst (f s) then f s else os_return_error (snd (f s)) msg) r"
proof -
  have s: "sizes f r" "emits f r" using assms by (simp_all add: implements_def)
  have ab: "aborted s s' \<Longrightarrow> aborted s (os_set_error msg s')" for s s'
    by (auto simp: aborted_def)
  show ?thesis
  proof (cases r)
    case (Bytes bs)
    then show ?thesis
      using s ab by (fastforce simp: implements_def sizes_def emits_def os_return_error_def)
  next
    case Enc_error
    let ?g = "\<lambda>s. if fst (f s) then f s else os_return_error (snd (f s)) msg"
    have "\<exists>s'. ?g s = (False, s') \<and> os_callback s' = None" if "os_callback s = None" for s
      using sizes_ErrorD [OF s(1) [unfolded Enc_error] that] by (auto simp: os_return_error_def)
    moreover have "\<exists>s'. ?g s = (False, s') \<and> aborted s s'" if "stream_ok s" for s
      by (rule emits_ErrorD [OF s(2) [unfolded Enc_error] that]) (simp add: os_return_error_def ab)
    ultimately show ?thesis using Enc_error by (simp add: implements_def sizes_def emits_def)
  qed simp
qed

end

text \<open>
  The interface to the program: every callback writes what its specification says, and does so
  on every stream, whether it sizes, writes or runs into the limit of the stream.
\<close>

locale encoder_env = ostream_callback cb written room okst
  for cb :: "'s \<Rightarrow> byte list \<Rightarrow> size_t \<Rightarrow> bool \<times> 's" and written room okst +
  fixes env :: "'s enc_env" and cspec :: cb_spec and xspec :: ext_spec
  assumes callback_implements: "implements (\<lambda>s. ee_callback env fn s f arg) (cspec fn f arg)"
    and ext_implements: "implements (\<lambda>s. ee_ext_encode env fn s x) (xspec fn x)"
begin

lemma encode_basic_field_implements:
  assumes sub: "\<And>flds a r. esub flds a = Some r \<Longrightarrow> oimplements (\<lambda>s. penc s flds a) r"
    and r: "e_basic_field n env esub f p = Some r"
  shows "oimplements (\<lambda>s. encode_basic_field n env penc s f p) r"
proof -
  let ?ht = "PB_HTYPE (pf_type f)" and ?m = "ee_mem env"
  let ?data = "if PB_ATYPE (pf_type f) = PB_ATYPE_POINTER then load_ptr ?m p else p"
  have tagged: "oimplements (\<lambda>s. oand_then (Some (pb_encode_tag_for_field s f))
      (\<lambda>s. PB_ENCODERS env penc (PB_LTYPE (pf_type f)) s f ?data)) q"
    if "e_tagged env esub f ?data = Some q" for q
    by (rule tagged_implements [of esub penc, OF _ that]) (rule sub)
  note unf = encode_basic_field_def e_basic_field_def Let_def
  have ht: "PB_HTYPE_OPTIONAL \<noteq> PB_HTYPE_REQUIRED" "PB_HTYPE_REPEATED \<noteq> PB_HTYPE_REQUIRED"
    "PB_HTYPE_REPEATED \<noteq> PB_HTYPE_OPTIONAL" by (simp_all add: pb_consts)
  consider (req) "?ht = PB_HTYPE_REQUIRED" | (opt) "?ht = PB_HTYPE_OPTIONAL" | (rep) "?ht = PB_HTYPE_REPEATED"
    | (one) "?ht \<noteq> PB_HTYPE_REQUIRED" "?ht \<noteq> PB_HTYPE_OPTIONAL" "?ht \<noteq> PB_HTYPE_REPEATED" by blast
  then show ?thesis
  proof cases
    case req
    then show ?thesis
      using r tagged oimplements_error [of "''missing required field''"] ht
      by (auto simp: unf split: if_splits)
  next
    case opt
    then show ?thesis
      using r tagged oimplements_return ht
      by (auto simp: unf e_present_def safe_read_bool_def split: if_splits option.splits)
  next
    case rep
    let ?c = "ucast (if pf_size_offset f \<noteq> 0 then load_u32 ?m (p + scast (pf_size_offset f)) else pf_array_size f) :: size_t"
    have "unat ?c < 2 ^ 32" using unat_lt_32 by (simp add: unat_ucast_up)
    have "e_array env esub f ?data (unat ?c) = Some r"
      using r rep ht by (simp add: e_basic_field_def Let_def unat_ucast_up)
    then have "oimplements (\<lambda>s. encode_array env s f ?data ?c (PB_ENCODERS env penc (PB_LTYPE (pf_type f)))) r"
      by (rule encode_array_implements [of esub penc, OF _ _ \<open>unat ?c < 2 ^ 32\<close>, rotated]) (rule sub)
    with rep ht show ?thesis by (auto simp: encode_basic_field_def Let_def split: if_splits)
  next
    case one
    then show ?thesis
      using r tagged oimplements_return
      by (auto simp: unf split: if_splits)
  qed
qed


lemma encode_callback_field_implements:
  "implements (\<lambda>s. encode_callback_field env s f p)
    (if load_ptr (ee_mem env) p = 0 then Bytes [] else cspec (load_ptr (ee_mem env) p) f (p + 8))"
proof (cases "load_ptr (ee_mem env) p = 0")
  case True
  then show ?thesis
    using implements_return by (simp add: encode_callback_field_def pb_callback_funcs_def Let_def)
next
  case False
  let ?cb = "\<lambda>s. ee_callback env (load_ptr (ee_mem env) p) s f (p + 8)"
  have "(\<lambda>s. encode_callback_field env s f p) =
      (\<lambda>s. if fst (?cb s) then ?cb s else os_return_error (snd (?cb s)) ''callback error'')"
    using False
    by (auto simp: fun_eq_iff encode_callback_field_def pb_callback_funcs_def pb_callback_arg_def Let_def
        split: prod.splits bool.splits)
  with implements_on_error [OF callback_implements] False show ?thesis by simp
qed

lemma encode_field_implements:
  assumes sub: "\<And>flds a r. esub flds a = Some r \<Longrightarrow> oimplements (\<lambda>s. penc s flds a) r"
    and r: "e_field n env cspec esub f p = Some r"
  shows "oimplements (\<lambda>s. encode_field n env penc s f p) r"
proof -
  let ?at = "PB_ATYPE (pf_type f)"
  have at: "PB_ATYPE_CALLBACK \<noteq> PB_ATYPE_STATIC" "PB_ATYPE_CALLBACK \<noteq> PB_ATYPE_POINTER"
    by (simp_all add: pb_consts)
  consider (basic) "?at = PB_ATYPE_STATIC \<or> ?at = PB_ATYPE_POINTER" | (callback) "?at = PB_ATYPE_CALLBACK"
    | (bad) "\<not> (?at = PB_ATYPE_STATIC \<or> ?at = PB_ATYPE_POINTER)" "?at \<noteq> PB_ATYPE_CALLBACK" by blast
  then show ?thesis
  proof cases
    case basic
    then have "e_basic_field n env esub f p = Some r" using r by (simp add: e_field_def)
    then have "oimplements (\<lambda>s. encode_basic_field n env penc s f p) r"
      by (rule encode_basic_field_implements [of esub penc, rotated]) (rule sub)
    with basic show ?thesis by (simp add: encode_field_def)
  next
    case callback
    with r at have "r = (if load_ptr (ee_mem env) p = 0 then Bytes []
        else cspec (load_ptr (ee_mem env) p) f (p + 8))" by (simp add: e_field_def Let_def)
    with callback at oimplements_Some [OF encode_callback_field_implements [of f p]] show ?thesis
      by (simp add: encode_field_def)
  next
    case bad
    with r have "r = Enc_error" by (simp add: e_field_def Let_def)
    with bad oimplements_error show ?thesis by (simp add: encode_field_def)
  qed
qed

lemma extension_loop_implements:
  assumes sub: "\<And>flds a r. esub flds a = Some r \<Longrightarrow> oimplements (\<lambda>s. penc s flds a) r"
    and r: "e_extensions k n env cspec xspec esub x = Some r"
  shows "oimplements (extension_loop k n env penc x) r"
  using r
proof (induction k arbitrary: x r)
  case 0
  then have "x = 0" "r = Bytes []" by (simp_all split: if_splits)
  then show ?case using oimplements_return by (simp add: extension_loop.simps [abs_def])
next
  case (Suc k)
  let ?m = "ee_mem env"
  let ?ty = "ext_type ?m x"
  let ?f = "field_at (ee_fields env (exttype_arg ?m ?ty)) 0"
  let ?p = "if PB_ATYPE (pf_type ?f) = PB_ATYPE_POINTER then ext_dest_addr x else ext_dest ?m x"
  show ?case
  proof (cases "x = 0")
    case True
    with Suc.prems have "r = Bytes []" by simp
    with True oimplements_return show ?thesis by (simp add: extension_loop.simps [abs_def])
  next
    case False
    with Suc.prems obtain q q' where
      q: "(if exttype_encode ?m ?ty \<noteq> 0 then Some (xspec (exttype_encode ?m ?ty) x)
           else e_field n env cspec esub ?f ?p) = Some q"
        and q': "e_extensions k n env cspec xspec esub (ext_next ?m x) = Some q'" and rq: "r = enc_seq q q'"
      by (auto simp: Let_def split: option.splits)
    have "oimplements (\<lambda>s. if exttype_encode ?m ?ty \<noteq> 0
        then Some (ee_ext_encode env (exttype_encode ?m ?ty) s x)
        else default_extension_encoder n env penc s x) q"
    proof (cases "exttype_encode ?m ?ty \<noteq> 0")
      case True
      with q oimplements_Some [OF ext_implements] show ?thesis by auto
    next
      case False
      with q have "e_field n env cspec esub ?f ?p = Some q" by simp
      then have "oimplements (\<lambda>s. encode_field n env penc s ?f ?p) q"
        by (rule encode_field_implements [of esub penc, rotated]) (rule sub)
      with False show ?thesis
        by (auto simp: default_extension_encoder_def Let_def split: if_splits)
    qed
    from oimplements_seq [OF this Suc.IH [OF q']] False rq show ?thesis
      by (simp add: extension_loop.simps [abs_def] Let_def)
  qed
qed

lemma encode_any_field_implements:
  assumes sub: "\<And>flds a r. esub flds a = Some r \<Longrightarrow> oimplements (\<lambda>s. penc s flds a) r"
    and r: "e_any_field n env cspec xspec esub f p = Some r"
  shows "oimplements (\<lambda>s. encode_any_field n env penc s f p) r"
proof (cases "PB_LTYPE (pf_type f) = PB_LTYPE_EXTENSION")
  case True
  with r have "e_extensions n n env cspec xspec esub (load_ptr (ee_mem env) p) = Some r"
    by (simp add: e_any_field_def)
  then have "oimplements (extension_loop n n env penc (load_ptr (ee_mem env) p)) r"
    by (rule extension_loop_implements [of esub penc, rotated]) (rule sub)
  with True show ?thesis by (simp add: encode_any_field_def encode_extension_field_def)
next
  case False
  with r have "e_field n env cspec esub f p = Some r" by (simp add: e_any_field_def)
  then have "oimplements (\<lambda>s. encode_field n env penc s f p) r"
    by (rule encode_field_implements [of esub penc, rotated]) (rule sub)
  with False show ?thesis by (simp add: encode_any_field_def)
qed

theorem pb_encode_implements:
  "e_message n env cspec xspec flds src = Some r \<Longrightarrow> oimplements (\<lambda>s. pb_encode n env s flds src) r"
proof (induction n arbitrary: flds src r)
  case (Suc n)
  from Suc.prems obtain rs where
    rs: "all_some (map (\<lambda>i. e_any_field n env cspec xspec (e_message n env cspec xspec)
        (field_at flds i) (field_addr flds src i)) [0..<nfields flds]) = Some rs" "r = e_concat rs" by auto
  have "oimplements (oseq (map (\<lambda>i s. encode_any_field n env (pb_encode n env) s
      (field_at flds i) (field_addr flds src i)) [0..<nfields flds])) r"
    unfolding rs(2)
  proof (intro oimplements_oseq list_all2_map_upt [OF rs(1)])
    fix i q assume "e_any_field n env cspec xspec (e_message n env cspec xspec)
      (field_at flds i) (field_addr flds src i) = Some q"
    then show "oimplements (\<lambda>s. encode_any_field n env (pb_encode n env) s
        (field_at flds i) (field_addr flds src i)) q"
      by (rule encode_any_field_implements [of "e_message n env cspec xspec", rotated]) (rule Suc.IH)
  qed
  moreover have "(\<lambda>s. pb_encode (Suc n) env s flds src) = oseq (map (\<lambda>i s. encode_any_field n env
      (pb_encode n env) s (field_at flds i) (field_addr flds src i)) [0..<nfields flds])"
  proof (cases "0 < nfields flds")
    case True
    let ?body = "\<lambda>s it. encode_any_field n env (pb_encode n env) s (it_field it) (it_pData it)"
    have maps: "map (\<lambda>i s. ?body s (iter_at flds src i)) [0..<nfields flds] =
        map (\<lambda>i s. encode_any_field n env (pb_encode n env) s (field_at flds i)
          (field_addr flds src i)) [0..<nfields flds]"
      by (rule map_cong) (simp_all add: iter_at_field field_addr_def)
    have "pb_encode (Suc n) env s flds src = iter_loop ?body (iter_at flds src 0) s" for s
      using True by (simp add: pb_field_iter_begin_eq del: iter_at.simps)
    then show ?thesis unfolding iter_loop_iter_at [OF True] maps by (rule ext)
  next
    case False
    then show ?thesis by (simp add: fun_eq_iff pb_field_iter_begin_eq del: iter_at.simps)
  qed
  ultimately show ?case by (simp only:)
qed simp

end

end
