(* ===== verification/Pb_Buffers.thy ===== *)
theory Pb_Buffers
  imports Pb_Decode_Basic Pb_Encode_Basic
begin

text \<open>
  Streams over memory buffers, from both sides: what an encoding routine leaves in a buffer, and
  the stream that reads it back.
\<close>

section \<open>Writing to a buffer\<close>

lemma bufcb_stream_ok:
  assumes "unat n \<le> length buf" "unat n < 2 ^ 63"
  shows "bufcb.stream_ok (pb_ostream_from_buffer buf n)"
  using assms
  by (simp add: bufcb.stream_ok_def pb_ostream_from_buffer_def ob_ok_def ob_room_def)

lemma from_buffer_simps [simp]:
  "os_bytes_written (pb_ostream_from_buffer buf n) = 0"
  "os_max_size (pb_ostream_from_buffer buf n) = n"
  "os_errmsg (pb_ostream_from_buffer buf n) = None"
  "ob_written (os_state (pb_ostream_from_buffer buf n)) = []"
  "ob_room (os_state (pb_ostream_from_buffer buf n)) = length buf"
  by (simp_all add: pb_ostream_from_buffer_def ob_written_def ob_room_def)

text \<open>The bytes a finished buffer stream has stored.\<close>

definition buffer_contents :: "obuf pb_ostream \<Rightarrow> byte list" where
  "buffer_contents s = take (unat (os_bytes_written s)) (ob_bytes (os_state s))"

lemma buffer_emitted:
  assumes "bufcb.emitted (pb_ostream_from_buffer buf n) bs s'" "length bs \<le> length buf"
  shows "buffer_contents s' = bs" "unat (os_bytes_written s') = length bs"
    "\<not> ob_oob (os_state s')" "length (ob_bytes (os_state s')) = length buf" "os_errmsg s' = None"
proof -
  have w: "take (ob_next (os_state s')) (ob_bytes (os_state s')) = bs"
    using assms(1) by (simp add: bufcb.emitted_def ob_written_def [symmetric])
  have ok: "ob_ok (os_state s')"
    and r: "length (ob_bytes (os_state s')) - ob_next (os_state s') = length buf - length bs"
    using assms(1) by (simp_all add: bufcb.emitted_def bufcb.stream_ok_def ob_room_def [symmetric])
  from w ok have n: "ob_next (os_state s') = length bs" by (auto simp: ob_ok_def min_absorb2)
  show len: "length (ob_bytes (os_state s')) = length buf" "\<not> ob_oob (os_state s')"
    using ok r n assms(2) by (auto simp: ob_ok_def)
  show "unat (os_bytes_written s') = length bs" "os_errmsg s' = None"
    using assms(1) by (simp_all add: bufcb.emitted_def)
  then show "buffer_contents s' = bs" using w n by (simp add: buffer_contents_def)
qed

lemma buffer_encode:
  assumes "bufcb.implements f (Bytes bs)" "length bs \<le> unat n" "unat n \<le> length buf" "unat n < 2 ^ 63"
  shows "\<exists>s'. f (pb_ostream_from_buffer buf n) = (True, s') \<and> buffer_contents s' = bs
    \<and> os_bytes_written s' = of_nat (length bs)
    \<and> \<not> ob_oob (os_state s') \<and> length (ob_bytes (os_state s')) = length buf"
proof -
  have "bufcb.emits f (Bytes bs)" using assms(1) by (simp add: bufcb.implements_def)
  from bufcb.emits_BytesD [OF this bufcb_stream_ok [OF assms(3,4)]] assms(2)
  obtain s' where s': "f (pb_ostream_from_buffer buf n) = (True, s')"
    "bufcb.emitted (pb_ostream_from_buffer buf n) bs s'" by auto
  have "length bs \<le> length buf" using assms(2,3) by simp
  note b = buffer_emitted [OF s'(2) this]
  moreover have "os_bytes_written s' = of_nat (length bs)" by (simp flip: b(2))
  ultimately show ?thesis using s'(1) by blast
qed

lemma bufin_ok:
  assumes "unat n \<le> length buf"
  shows "bufin.istream_ok (pb_istream_from_buffer buf n)"
    "bufin.input (pb_istream_from_buffer buf n) = take (unat n) buf"
  using assms
  by (simp_all add: bufin.istream_ok_def bufin.input_def pb_istream_from_buffer_def ib_ok_def ib_rest_def)

text \<open>Reading back what has been written to a buffer.\<close>

definition read_back :: "obuf pb_ostream \<Rightarrow> ibuf pb_istream" where
  "read_back s = pb_istream_from_buffer (ob_bytes (os_state s)) (os_bytes_written s)"

lemma read_back_ok:
  assumes "buffer_contents s = bs" "os_bytes_written s = of_nat (length bs)" "length bs < 2 ^ 64"
    "length bs \<le> length (ob_bytes (os_state s))"
  shows "bufin.istream_ok (read_back s)" "bufin.input (read_back s) = bs"
  using assms bufin_ok [of "os_bytes_written s" "ob_bytes (os_state s)"]
  by (simp_all add: read_back_def buffer_contents_def unat_of_nat_64)

lemma buffer_roundtrip:
  assumes impl: "bufcb.implements f (Bytes bs)"
    and sz: "length bs \<le> unat n" "unat n \<le> length buf" "unat n < 2 ^ 63"
    and rd: "\<And>s. bufin.istream_ok s \<Longrightarrow> bufin.input s = bs @ [] \<Longrightarrow> bufin.reads (g s) s (length bs) v"
  shows "\<exists>s' s''. f (pb_ostream_from_buffer buf n) = (True, s') \<and> \<not> ob_oob (os_state s')
    \<and> g (read_back s') = (Some v, s'') \<and> is_bytes_left s'' = 0"
proof -
  from buffer_encode [OF impl sz] obtain s' where
    s': "f (pb_ostream_from_buffer buf n) = (True, s')" "\<not> ob_oob (os_state s')"
      "buffer_contents s' = bs" "os_bytes_written s' = of_nat (length bs)"
      "length (ob_bytes (os_state s')) = length buf" by blast
  from sz have l: "length bs < 2 ^ 64" "length bs \<le> length (ob_bytes (os_state s'))" using s'(5) by simp_all
  note rb = read_back_ok [OF s'(3,4) l]
  from rd [OF rb(1)] rb(2) obtain s'' where
    s'': "g (read_back s') = (Some v, s'')" "bufin.consumed_ok (read_back s') (length bs) s''"
    by (auto simp: bufin.reads_def)
  have "unat (is_bytes_left (read_back s')) = length bs"
    using bufin.length_input [OF rb(1)] rb(2) by simp
  with s''(2) have "is_bytes_left s'' = 0"
    by (simp add: bufin.consumed_ok_def bufin.consumed_def unat_eq_0)
  with s'(1,2) s''(1) show ?thesis by blast
qed

end
