(* ===== verification/Pb_Encode_Calls.thy ===== *)
theory Pb_Encode_Calls
  imports Pb_Encode_Correct Pb_Buffers
begin

text \<open>
  The functions a program calls: encoding into a stream, delimited and null-terminated encoding,
  and the encoded size; that the encoder returns for every table whose nesting is bounded; and
  the instance of the encoder for buffer streams and messages without callbacks.
\<close>

section \<open>Whole calls\<close>

context encoder_env
begin

lemma pb_encode_delimited_implements:
  "e_message n env cspec xspec flds src = Some r \<Longrightarrow>
     oimplements (\<lambda>s. pb_encode_delimited n env s flds src) (e_delimited r)"
  unfolding pb_encode_delimited_def
  by (rule pb_encode_submessage_implements [of "pb_encode n env"]) (rule pb_encode_implements)

lemma pb_encode_nullterminated_implements:
  "e_message n env cspec xspec flds src = Some r \<Longrightarrow>
     oimplements (\<lambda>s. pb_encode_nullterminated n env s flds src) (enc_seq r (Bytes [0]))"
  unfolding pb_encode_nullterminated_def
  using pb_write_implements [of 1 "[0]"]
  by (intro oimplements_seq pb_encode_implements oimplements_Some) simp_all

lemma pb_get_encoded_size_result:
  assumes "e_message n env cspec xspec flds src = Some r"
  shows "r = Bytes bs \<Longrightarrow> pb_get_encoded_size n env st flds src = Some (Some (of_nat (length bs)))"
    and "r = Enc_error \<Longrightarrow> pb_get_encoded_size n env st flds src = Some None"
proof -
  from pb_encode_implements [OF assms] obtain g where
    g: "\<And>s. pb_encode n env s flds src = Some (g s)" "sizes g r"
    by (auto simp: oimplements_def implements_def fun_eq_iff)
  have sizing: "os_callback (PB_OSTREAM_SIZING st) = None" "os_bytes_written (PB_OSTREAM_SIZING st) = 0"
    by (simp_all add: PB_OSTREAM_SIZING_def)
  show "pb_get_encoded_size n env st flds src = Some (Some (of_nat (length bs)))" if "r = Bytes bs"
    using sizes_BytesD [OF g(2) [unfolded that] sizing(1)]
    by (simp add: pb_get_encoded_size_def g(1) sizing(2))
  show "pb_get_encoded_size n env st flds src = Some None" if "r = Enc_error"
    using sizes_ErrorD [OF g(2) [unfolded that] sizing(1)]
    by (auto simp: pb_get_encoded_size_def g(1))
qed

end

section \<open>Enough depth\<close>

text \<open>
  Descriptor tables without extension fields whose submessage nesting is bounded: \<open>rk\<close> ranks the
  tables of the set \<open>T\<close>, and a submessage has a smaller rank than the message it is part of.
\<close>

definition ranked :: "'s enc_env \<Rightarrow> pb_field list set \<Rightarrow> (pb_field list \<Rightarrow> nat) \<Rightarrow> bool" where
  "ranked env T rk \<longleftrightarrow> (\<forall>flds \<in> T. \<forall>i < nfields flds.
     PB_LTYPE (pf_type (field_at flds i)) \<noteq> PB_LTYPE_EXTENSION \<and>
     (PB_LTYPE (pf_type (field_at flds i)) = PB_LTYPE_SUBMESSAGE \<and> pf_ptr (field_at flds i) \<noteq> 0 \<longrightarrow>
       ee_fields env (pf_ptr (field_at flds i)) \<in> T \<and>
       rk (ee_fields env (pf_ptr (field_at flds i))) < rk flds))"

text \<open>A field whose submessages are all of small rank.\<close>

definition sub_ranked :: "'s enc_env \<Rightarrow> pb_field list set \<Rightarrow> (pb_field list \<Rightarrow> nat) \<Rightarrow> nat \<Rightarrow> pb_field \<Rightarrow> bool" where
  "sub_ranked env T rk n f \<longleftrightarrow> (PB_LTYPE (pf_type f) = PB_LTYPE_SUBMESSAGE \<and> pf_ptr f \<noteq> 0 \<longrightarrow>
     ee_fields env (pf_ptr f) \<in> T \<and> rk (ee_fields env (pf_ptr f)) < n)"

lemma rankedD:
  assumes "ranked env T rk" "flds \<in> T" "i < nfields flds"
  shows "PB_LTYPE (pf_type (field_at flds i)) \<noteq> PB_LTYPE_EXTENSION"
    "sub_ranked env T rk (rk flds) (field_at flds i)"
  using assms by (auto simp: ranked_def sub_ranked_def)

lemma sub_ranked_mono: "sub_ranked env T rk m f \<Longrightarrow> m \<le> n \<Longrightarrow> sub_ranked env T rk n f"
  by (auto simp: sub_ranked_def)

lemma all_some_total: "(\<And>x. x \<in> set xs \<Longrightarrow> f x \<noteq> None) \<Longrightarrow> \<exists>ys. all_some (map f xs) = Some ys"
  by (induction xs) (auto split: option.splits)

lemma e_tagged_total:
  assumes "PB_LTYPE (pf_type f) = PB_LTYPE_SUBMESSAGE \<Longrightarrow> pf_ptr f \<noteq> 0 \<Longrightarrow>
      esub (ee_fields env (pf_ptr f)) a \<noteq> None"
  shows "e_tagged env esub f a \<noteq> None"
  using assms
  by (auto simp: e_tagged_def wire_type_of_def e_value_def Let_def pb_consts word_le_3_cases split: if_splits)

lemma e_value_packable_total:
  "PB_LTYPE (pf_type f) \<le> PB_LTYPE_LAST_PACKABLE \<Longrightarrow> e_value env esub f a \<noteq> None"
proof -
  assume "PB_LTYPE (pf_type f) \<le> PB_LTYPE_LAST_PACKABLE"
  then have "unat (PB_LTYPE (pf_type f)) \<le> 5" by (simp add: pb_consts word_le_nat_alt)
  then have "unat (PB_LTYPE (pf_type f)) \<in> {0, 1, 2, 3, 4, 5}" by auto
  then have "PB_LTYPE (pf_type f) \<in> {0, 1, 2, 3, 4, 5}"
    by (auto simp: word_unat_eq_iff)
  then show ?thesis by (auto simp: e_value_def Let_def pb_consts)
qed

lemma e_array_total:
  assumes "\<And>a. PB_LTYPE (pf_type f) = PB_LTYPE_SUBMESSAGE \<Longrightarrow> pf_ptr f \<noteq> 0 \<Longrightarrow>
      esub (ee_fields env (pf_ptr f)) a \<noteq> None"
  shows "e_array env esub f p count \<noteq> None"
proof -
  have "\<exists>ys. all_some (map (\<lambda>i. e_tagged env esub f (g i)) [0..<count]) = Some ys" for g
    by (rule all_some_total) (rule e_tagged_total, rule assms)
  moreover have "\<exists>ys. all_some (map (\<lambda>i. e_value env esub f (array_item f p i)) [0..<count]) = Some ys"
    if "PB_LTYPE (pf_type f) \<le> PB_LTYPE_LAST_PACKABLE"
    by (rule all_some_total) (rule e_value_packable_total [OF that])
  ultimately show ?thesis by (auto simp: e_array_def)
qed

text \<open>The default check ends: the depth of nested static structures is bounded by the rank.\<close>

lemma iter_loop_total:
  assumes "\<And>i s. i < nfields flds \<Longrightarrow> body s (iter_at flds dest i) \<noteq> None" "0 < nfields flds"
  shows "iter_loop body (iter_at flds dest 0) s \<noteq> None"
proof -
  have "oseq (map (\<lambda>j s. body s (iter_at flds dest j)) xs) s \<noteq> None" if "set xs \<subseteq> {..<nfields flds}" for xs
    using that
  proof (induction xs arbitrary: s)
    case (Cons x xs)
    then obtain b s' where "body s (iter_at flds dest x) = Some (b, s')" using assms(1) [of x s] by auto
    with Cons show ?case by (cases b) auto
  qed simp
  then show ?thesis unfolding iter_loop_iter_at [OF assms(2)] by (simp add: subset_iff)
qed

lemma pb_check_proto3_total:
  assumes "ranked env T rk" "sub_ranked env T rk n f"
    and "PB_LTYPE (pf_type f) = PB_LTYPE_SUBMESSAGE \<Longrightarrow> pf_ptr f \<noteq> 0"
    and "\<And>flds i. flds \<in> T \<Longrightarrow> i < nfields flds \<Longrightarrow>
      PB_LTYPE (pf_type (field_at flds i)) = PB_LTYPE_SUBMESSAGE \<Longrightarrow> pf_ptr (field_at flds i) \<noteq> 0"
  shows "pb_check_proto3_default_value (Suc n) env f p \<noteq> None"
  using assms(2,3)
proof (induction n arbitrary: f p)
  case 0
  then have "PB_LTYPE (pf_type f) \<noteq> PB_LTYPE_SUBMESSAGE" by (auto simp: sub_ranked_def)
  then show ?case by (subst pb_check_proto3_default_value.simps) (simp add: Let_def del: not_None_eq)
next
  case (Suc n)
  have "iter_loop (\<lambda>u it. map_option (\<lambda>b. (b, u))
        (pb_check_proto3_default_value (Suc n) env (it_field it) (it_pData it)))
      (iter_at (ee_fields env (pf_ptr f)) p 0) () \<noteq> None"
    if sm: "PB_LTYPE (pf_type f) = PB_LTYPE_SUBMESSAGE" and ne: "0 < nfields (ee_fields env (pf_ptr f))"
  proof (rule iter_loop_total [OF _ ne])
    let ?flds = "ee_fields env (pf_ptr f)"
    have T: "?flds \<in> T" "rk ?flds \<le> n" using Suc.prems sm by (auto simp: sub_ranked_def)
    fix i s assume i: "i < nfields ?flds"
    have "sub_ranked env T rk n (field_at ?flds i)"
      using rankedD(2) [OF assms(1) T(1) i] T(2) by (rule sub_ranked_mono)
    then have "pb_check_proto3_default_value (Suc n) env (field_at ?flds i) q \<noteq> None" for q
      using assms(4) [OF T(1) i] by (rule Suc.IH)
    then show "map_option (\<lambda>b. (b, s)) (pb_check_proto3_default_value (Suc n) env
        (it_field (iter_at ?flds p i)) (it_pData (iter_at ?flds p i))) \<noteq> None"
      by (simp add: iter_at_field [OF i] del: pb_check_proto3_default_value.simps not_None_eq)
  qed
  then show ?case
    by (subst pb_check_proto3_default_value.simps)
      (simp add: Let_def pb_field_iter_begin_eq del: pb_check_proto3_default_value.simps iter_at.simps
        not_None_eq split: bool.split)
qed


text \<open>Tables in which every submessage field names its descriptor table.\<close>

definition subs_described :: "pb_field list set \<Rightarrow> bool" where
  "subs_described T \<longleftrightarrow> (\<forall>flds \<in> T. \<forall>i < nfields flds.
     PB_LTYPE (pf_type (field_at flds i)) = PB_LTYPE_SUBMESSAGE \<longrightarrow> pf_ptr (field_at flds i) \<noteq> 0)"

lemma e_field_total:
  assumes "\<And>a. PB_LTYPE (pf_type f) = PB_LTYPE_SUBMESSAGE \<Longrightarrow> pf_ptr f \<noteq> 0 \<Longrightarrow>
      esub (ee_fields env (pf_ptr f)) a \<noteq> None"
    and "\<And>a. pb_check_proto3_default_value n env f a \<noteq> None"
  shows "e_field n env cspec esub f p \<noteq> None"
proof -
  have "e_present n env f p \<noteq> None" using assms(2) [of p] by (auto simp: e_present_def Let_def)
  then obtain b where "e_present n env f p = Some b" by auto
  moreover have "e_tagged env esub f a \<noteq> None" for a using assms(1) by (rule e_tagged_total)
  moreover have "e_array env esub f a c \<noteq> None" for a c using assms(1) by (rule e_array_total)
  ultimately show ?thesis by (simp add: e_field_def e_basic_field_def Let_def del: not_None_eq)
qed

lemma e_message_total:
  assumes rk: "ranked env T rk" and sd: "subs_described T"
  shows "flds \<in> T \<Longrightarrow> rk flds + 1 < n \<Longrightarrow> e_message n env cspec xspec flds src \<noteq> None"
proof (induction n arbitrary: flds src)
  case (Suc n)
  have "e_any_field n env cspec xspec (e_message n env cspec xspec) (field_at flds i) (field_addr flds src i) \<noteq> None"
    if i: "i < nfields flds" for i
  proof -
    let ?f = "field_at flds i"
    note rd = rankedD [OF rk Suc.prems(1) i]
    obtain k where k: "n = Suc k" "rk flds \<le> k" using Suc.prems(2) by (cases n) auto
    have "sub_ranked env T rk k ?f" using rd(2) k(2) by (rule sub_ranked_mono)
    then have "pb_check_proto3_default_value n env ?f a \<noteq> None" for a
      unfolding k(1) using sd Suc.prems(1) i
      by (intro pb_check_proto3_total [OF rk]) (auto simp: subs_described_def)
    moreover have "e_message n env cspec xspec (ee_fields env (pf_ptr ?f)) a \<noteq> None"
      if "PB_LTYPE (pf_type ?f) = PB_LTYPE_SUBMESSAGE" "pf_ptr ?f \<noteq> 0" for a
      using rd(2) that Suc.prems(2) by (intro Suc.IH) (auto simp: sub_ranked_def)
    ultimately have "e_field n env cspec (e_message n env cspec xspec) ?f a \<noteq> None" for a
      by (intro e_field_total)
    with rd(1) show ?thesis by (simp add: e_any_field_def del: not_None_eq)
  qed
  then have "\<exists>ys. all_some (map (\<lambda>i. e_any_field n env cspec xspec (e_message n env cspec xspec)
      (field_at flds i) (field_addr flds src i)) [0..<nfields flds]) = Some ys"
    by (intro all_some_total) simp
  then show ?case by auto
qed simp

text \<open>Both conditions in a form that evaluates on concrete tables.\<close>

lemma ranked_list_all:
  "ranked env (set T) rk \<longleftrightarrow> list_all (\<lambda>flds. list_all (\<lambda>f.
     PB_LTYPE (pf_type f) \<noteq> PB_LTYPE_EXTENSION \<and>
     (PB_LTYPE (pf_type f) = PB_LTYPE_SUBMESSAGE \<and> pf_ptr f \<noteq> 0 \<longrightarrow>
       ee_fields env (pf_ptr f) \<in> set T \<and> rk (ee_fields env (pf_ptr f)) < rk flds))
     (takeWhile (\<lambda>f. pf_tag f \<noteq> 0) flds)) T"
  unfolding ranked_def list_all_iff [of _ T] by (intro ball_cong refl) (rule all_fields_iff)

lemma subs_described_list_all:
  "subs_described (set T) \<longleftrightarrow> list_all (\<lambda>flds. list_all (\<lambda>f.
     PB_LTYPE (pf_type f) = PB_LTYPE_SUBMESSAGE \<longrightarrow> pf_ptr f \<noteq> 0) (takeWhile (\<lambda>f. pf_tag f \<noteq> 0) flds)) T"
  unfolding subs_described_def list_all_iff [of _ T] by (intro ball_cong refl) (rule all_fields_iff)

section \<open>Messages without callbacks\<close>

text \<open>
  A program whose structures have no callback fields: the function pointers are never used, so
  any functions will do for them.
\<close>

definition pure_env :: "mem \<Rightarrow> (addr \<Rightarrow> pb_field list) \<Rightarrow> 's enc_env" where
  "pure_env m tables = \<lparr>ee_mem = m, ee_fields = tables, ee_callback = \<lambda>fn s f arg. (True, s),
     ee_ext_encode = \<lambda>fn s x. (True, s)\<rparr>"

definition no_callback :: cb_spec where
  "no_callback fn f arg = Bytes []"

definition no_extension :: ext_spec where
  "no_extension fn x = Bytes []"

interpretation bufenc: encoder_env buf_write ob_written ob_room ob_ok "pure_env m tables"
  no_callback no_extension for m tables
  by unfold_locales
    (simp_all add: pure_env_def no_callback_def no_extension_def bufcb.implements_return)

section \<open>Results in a buffer\<close>

lemma buffer_aborted:
  assumes "bufcb.aborted (pb_ostream_from_buffer buf n) s'"
  shows "\<not> ob_oob (os_state s')" "unat (os_bytes_written s') \<le> unat n"
  using assms by (auto simp: bufcb.aborted_def bufcb.stream_ok_def ob_ok_def word_le_nat_alt)

text \<open>What a call leaves in a buffer, by its abstract result.\<close>

definition buffer_result :: "(bool \<times> obuf pb_ostream) option \<Rightarrow> size_t \<Rightarrow> enc \<Rightarrow> bool" where
  "buffer_result res n r \<longleftrightarrow> (case r of
      Bytes bs \<Rightarrow>
        if length bs \<le> unat n
        then (\<exists>s'. res = Some (True, s') \<and> buffer_contents s' = bs
                \<and> os_bytes_written s' = of_nat (length bs) \<and> \<not> ob_oob (os_state s'))
        else (\<exists>s'. res = Some (False, s') \<and> \<not> ob_oob (os_state s') \<and> unat (os_bytes_written s') \<le> unat n)
    | Enc_error \<Rightarrow> \<exists>s'. res = Some (False, s') \<and> \<not> ob_oob (os_state s') \<and> unat (os_bytes_written s') \<le> unat n
    | Too_big \<Rightarrow> res \<noteq> None)"

lemma buffer_resultI:
  assumes "bufcb.oimplements f r" and n: "unat n \<le> length buf" "unat n < 2 ^ 63"
  shows "buffer_result (f (pb_ostream_from_buffer buf n)) n r"
proof -
  from assms(1) obtain g where f: "f = (\<lambda>s. Some (g s))" and g: "bufcb.implements g r"
    by (auto simp: bufcb.oimplements_def)
  have em: "bufcb.emits g r" using g by (simp add: bufcb.implements_def)
  note ok = bufcb_stream_ok [OF n]
  show ?thesis
  proof (cases r)
    case (Bytes bs)
    show ?thesis
    proof (cases "length bs \<le> unat n")
      case True
      then show ?thesis
        using buffer_encode [OF g [unfolded Bytes] _ n] by (auto simp: buffer_result_def Bytes f)
    next
      case False
      then obtain s' where "g (pb_ostream_from_buffer buf n) = (False, s')"
          "bufcb.aborted (pb_ostream_from_buffer buf n) s'"
        using bufcb.emits_fullD [OF em [unfolded Bytes] ok] by auto
      with False show ?thesis by (auto simp: buffer_result_def Bytes f buffer_aborted)
    qed
  next
    case Enc_error
    then obtain s' where "g (pb_ostream_from_buffer buf n) = (False, s')"
        "bufcb.aborted (pb_ostream_from_buffer buf n) s'"
      using bufcb.emits_ErrorD [OF em [unfolded Enc_error] ok] by auto
    then show ?thesis by (auto simp: buffer_result_def Enc_error f buffer_aborted)
  qed (simp add: buffer_result_def f)
qed

end
