(* ===== verification/Cct_Messages.thy ===== *)
theory Cct_Messages
  imports Cct_Tables Firebasecore_Tables Pb_Encode_Calls
begin

text \<open>
  The generated messages: the descriptor tables with the macros evaluated, the addresses of
  their members, and that their nesting is bounded.
\<close>

section \<open>The tables, evaluated\<close>

abbreviation fld ::
  "pb_size_t \<Rightarrow> pb_type \<Rightarrow> pb_size_t \<Rightarrow> pb_ssize_t \<Rightarrow> pb_size_t \<Rightarrow> pb_size_t \<Rightarrow> addr \<Rightarrow> pb_field" where
  "fld tag type doff soff dsize asize ptr \<equiv>
     \<lparr>pf_tag = tag, pf_type = type, pf_data_offset = doff, pf_size_offset = soff,
      pf_data_size = dsize, pf_array_size = asize, pf_ptr = ptr\<rparr>"

lemma LogEvent_table:
  "gdt_cct_LogEvent_fields lk =
    [fld 1 17 8 4294967288 8 0 0,
     fld 6 150 0 0 8 0 0,
     fld 11 17 4 4294967292 4 0 0,
     fld 15 19 8 4294967288 8 0 0,
     fld 17 17 8 4294967288 8 0 0,
     fld 23 24 4 4294967292 16 0 (lk_gdt_cct_NetworkConnectionInfo_fields lk),
     fld 0 0 0 0 0 0 0]"
  by code_simp

lemma NetworkConnectionInfo_table:
  "gdt_cct_NetworkConnectionInfo_fields lk =
    [fld 1 17 4 4294967292 4 0 (lk_gdt_cct_NetworkConnectionInfo_network_type_default lk),
     fld 2 18 4 4294967292 4 0 (lk_gdt_cct_NetworkConnectionInfo_mobile_subtype_default lk),
     fld 0 0 0 0 0 0 0]"
  by code_simp

lemma IosClientInfo_table:
  "gdt_cct_IosClientInfo_fields lk =
    [fld 3 150 0 0 8 0 0,
     fld 4 150 0 0 8 0 0,
     fld 5 150 0 0 8 0 0,
     fld 6 150 0 0 8 0 0,
     fld 7 150 0 0 8 0 0,
     fld 8 150 0 0 8 0 0,
     fld 11 150 0 0 8 0 0,
     fld 0 0 0 0 0 0 0]"
  by code_simp

lemma ClientInfo_table:
  "gdt_cct_ClientInfo_fields lk =
    [fld 1 18 4 4294967292 4 0 0,
     fld 4 24 8 4294967288 56 0 (lk_gdt_cct_IosClientInfo_fields lk),
     fld 0 0 0 0 0 0 0]"
  by code_simp

lemma BatchedLogRequest_table:
  "gdt_cct_BatchedLogRequest_fields lk =
    [fld 1 168 8 4294967288 144 0 (lk_gdt_cct_LogRequest_fields lk),
     fld 0 0 0 0 0 0 0]"
  by code_simp

lemma LogRequest_table:
  "gdt_cct_LogRequest_fields lk =
    [fld 1 24 8 4294967288 72 0 (lk_gdt_cct_ClientInfo_fields lk),
     fld 2 17 4 4294967292 4 0 0,
     fld 3 168 8 4294967288 88 0 (lk_gdt_cct_LogEvent_fields lk),
     fld 4 17 8 4294967288 8 0 0,
     fld 8 17 8 4294967288 8 0 0,
     fld 9 18 4 4294967292 4 0 (lk_gdt_cct_LogRequest_qos_tier_default lk),
     fld 0 0 0 0 0 0 0]"
  by code_simp

lemma QosTierConfiguration_table:
  "gdt_cct_QosTierConfiguration_fields lk =
    [fld 2 18 4 4294967292 4 0 0,
     fld 3 17 4 4294967292 4 0 (lk_gdt_cct_QosTierConfiguration_log_source_default lk),
     fld 0 0 0 0 0 0 0]"
  by code_simp

lemma QosTiersOverride_table:
  "gdt_cct_QosTiersOverride_fields lk =
    [fld 1 168 8 4294967288 16 0 (lk_gdt_cct_QosTierConfiguration_fields lk),
     fld 2 17 8 4294967288 8 0 0,
     fld 0 0 0 0 0 0 0]"
  by code_simp

lemma LogResponse_table:
  "gdt_cct_LogResponse_fields lk =
    [fld 1 17 8 4294967288 8 0 0,
     fld 3 24 8 4294967288 32 0 (lk_gdt_cct_QosTiersOverride_fields lk),
     fld 0 0 0 0 0 0 0]"
  by code_simp

lemma ICoreConfiguration_table:
  "logs_proto_mobilesdk_ios_ICoreConfiguration_fields =
    [fld 1 18 4 4294967292 4 0 0,
     fld 7 162 8 4294967288 4 0 0,
     fld 9 150 0 0 8 0 0,
     fld 10 150 0 0 8 0 0,
     fld 12 150 0 0 8 0 0,
     fld 16 18 4 4294967292 4 0 0,
     fld 18 150 0 0 8 0 0,
     fld 19 150 0 0 8 0 0,
     fld 20 18 4 4294967292 4 0 0,
     fld 21 17 4 4294967292 4 0 0,
     fld 22 150 0 0 8 0 0,
     fld 24 150 0 0 8 0 0,
     fld 25 16 1 4294967295 1 0 0,
     fld 26 16 1 4294967295 1 0 0,
     fld 27 17 4 4294967292 4 0 0,
     fld 28 150 4 0 8 0 0,
     fld 29 16 1 4294967295 1 0 0,
     fld 30 18 2 4294967294 4 0 0,
     fld 31 150 0 0 8 0 0,
     fld 33 16 1 4294967295 1 0 0,
     fld 36 16 1 4294967295 1 0 0,
     fld 0 0 0 0 0 0 0]"
  by code_simp

lemmas cct_table_eqs = LogEvent_table NetworkConnectionInfo_table IosClientInfo_table ClientInfo_table
  BatchedLogRequest_table LogRequest_table QosTierConfiguration_table QosTiersOverride_table
  LogResponse_table

section \<open>Bounded nesting\<close>

text \<open>The linker gives the tables different addresses, and none is null.\<close>

definition cct_link_ok :: "cct_link \<Rightarrow> bool" where
  "cct_link_ok lk \<longleftrightarrow> distinct [0, lk_gdt_cct_NetworkConnectionInfo_fields lk, lk_gdt_cct_IosClientInfo_fields lk,
     lk_gdt_cct_LogRequest_fields lk, lk_gdt_cct_ClientInfo_fields lk, lk_gdt_cct_LogEvent_fields lk,
     lk_gdt_cct_QosTierConfiguration_fields lk, lk_gdt_cct_QosTiersOverride_fields lk]"

definition cct_messages :: "cct_link \<Rightarrow> pb_field list list" where
  "cct_messages lk = [gdt_cct_LogEvent_fields lk, gdt_cct_NetworkConnectionInfo_fields lk,
     gdt_cct_IosClientInfo_fields lk, gdt_cct_ClientInfo_fields lk, gdt_cct_BatchedLogRequest_fields lk,
     gdt_cct_LogRequest_fields lk, gdt_cct_QosTierConfiguration_fields lk,
     gdt_cct_QosTiersOverride_fields lk, gdt_cct_LogResponse_fields lk]"

definition cct_rank :: "cct_link \<Rightarrow> pb_field list \<Rightarrow> nat" where
  "cct_rank lk flds =
     (if flds \<in> {gdt_cct_LogEvent_fields lk, gdt_cct_ClientInfo_fields lk, gdt_cct_QosTiersOverride_fields lk} then 1
      else if flds \<in> {gdt_cct_LogRequest_fields lk, gdt_cct_LogResponse_fields lk} then 2
      else if flds = gdt_cct_BatchedLogRequest_fields lk then 3 else 0)"

lemma cct_tables_at:
  assumes "cct_link_ok lk"
  shows "cct_tables lk (lk_gdt_cct_NetworkConnectionInfo_fields lk) = gdt_cct_NetworkConnectionInfo_fields lk"
    "cct_tables lk (lk_gdt_cct_IosClientInfo_fields lk) = gdt_cct_IosClientInfo_fields lk"
    "cct_tables lk (lk_gdt_cct_LogRequest_fields lk) = gdt_cct_LogRequest_fields lk"
    "cct_tables lk (lk_gdt_cct_ClientInfo_fields lk) = gdt_cct_ClientInfo_fields lk"
    "cct_tables lk (lk_gdt_cct_LogEvent_fields lk) = gdt_cct_LogEvent_fields lk"
    "cct_tables lk (lk_gdt_cct_QosTierConfiguration_fields lk) = gdt_cct_QosTierConfiguration_fields lk"
    "cct_tables lk (lk_gdt_cct_QosTiersOverride_fields lk) = gdt_cct_QosTiersOverride_fields lk"
  using assms by (auto simp: cct_link_ok_def cct_tables_def)

lemma cct_nfields:
  "nfields (gdt_cct_LogEvent_fields lk) = 6" "nfields (gdt_cct_NetworkConnectionInfo_fields lk) = 2"
  "nfields (gdt_cct_IosClientInfo_fields lk) = 7" "nfields (gdt_cct_ClientInfo_fields lk) = 2"
  "nfields (gdt_cct_BatchedLogRequest_fields lk) = 1" "nfields (gdt_cct_LogRequest_fields lk) = 6"
  "nfields (gdt_cct_QosTierConfiguration_fields lk) = 2" "nfields (gdt_cct_QosTiersOverride_fields lk) = 2"
  "nfields (gdt_cct_LogResponse_fields lk) = 2"
  by (simp_all add: nfields_def cct_table_eqs)

lemma cct_rank_eqs:
  "cct_rank lk (gdt_cct_LogEvent_fields lk) = 1" "cct_rank lk (gdt_cct_NetworkConnectionInfo_fields lk) = 0"
  "cct_rank lk (gdt_cct_IosClientInfo_fields lk) = 0" "cct_rank lk (gdt_cct_ClientInfo_fields lk) = 1"
  "cct_rank lk (gdt_cct_BatchedLogRequest_fields lk) = 3" "cct_rank lk (gdt_cct_LogRequest_fields lk) = 2"
  "cct_rank lk (gdt_cct_QosTierConfiguration_fields lk) = 0" "cct_rank lk (gdt_cct_QosTiersOverride_fields lk) = 1"
  "cct_rank lk (gdt_cct_LogResponse_fields lk) = 2"
  by (simp_all add: cct_rank_def cct_table_eqs)

lemma cct_messages_mem:
  "gdt_cct_LogEvent_fields lk \<in> set (cct_messages lk)" "gdt_cct_NetworkConnectionInfo_fields lk \<in> set (cct_messages lk)"
  "gdt_cct_IosClientInfo_fields lk \<in> set (cct_messages lk)" "gdt_cct_ClientInfo_fields lk \<in> set (cct_messages lk)"
  "gdt_cct_BatchedLogRequest_fields lk \<in> set (cct_messages lk)" "gdt_cct_LogRequest_fields lk \<in> set (cct_messages lk)"
  "gdt_cct_QosTierConfiguration_fields lk \<in> set (cct_messages lk)" "gdt_cct_QosTiersOverride_fields lk \<in> set (cct_messages lk)"
  "gdt_cct_LogResponse_fields lk \<in> set (cct_messages lk)"
  by (simp_all add: cct_messages_def)

lemma cct_ranked:
  assumes "cct_link_ok lk"
  shows "ranked (pure_env m (cct_tables lk)) (set (cct_messages lk)) (cct_rank lk)"
  unfolding ranked_list_all
  by (subst (1) cct_messages_def)
    (simp add: cct_table_eqs pure_env_def pb_type_defs cct_tables_at [OF assms, unfolded cct_table_eqs]
      cct_rank_eqs [unfolded cct_table_eqs] cct_messages_mem [unfolded cct_table_eqs])

lemma cct_subs_described:
  assumes "cct_link_ok lk"
  shows "subs_described (set (cct_messages lk))"
  using assms unfolding subs_described_list_all
  by (simp add: cct_messages_def cct_table_eqs pb_type_defs cct_link_ok_def)

section \<open>Addresses of the members\<close>

text \<open>The member that holds the presence flag or the number of items of a field.\<close>

definition size_member :: "pb_field \<Rightarrow> string \<Rightarrow> string" where
  "size_member f name =
     (if PB_HTYPE (pf_type f) = PB_HTYPE_REPEATED then name @ ''_count''
      else if PB_ATYPE (pf_type f) = PB_ATYPE_STATIC then ''has_'' @ name else name)"

text \<open>The offsets the iterator accumulates are those of the members \<open>names\<close> of the structure.\<close>

definition laid_out :: "cstruct \<Rightarrow> pb_field list \<Rightarrow> string list \<Rightarrow> bool" where
  "laid_out st flds names \<longleftrightarrow> length names = nfields flds
     \<and> map (field_off flds) [0..<nfields flds] = map (of_nat \<circ> offsetof st) names
     \<and> list_all (\<lambda>(f, name). pf_data_offset f \<noteq> PB_SIZE_MAX
          \<and> of_nat (offsetof st name) + scast (pf_size_offset f) = (of_nat (offsetof st (size_member f name)) :: addr))
        (zip flds names)"

lemma laid_out_iter:
  assumes "laid_out st flds names" "i < nfields flds"
  shows "it_pData (iter_at flds dest i) = dest + of_nat (offsetof st (names ! i))"
    "it_pSize (iter_at flds dest i) = dest + of_nat (offsetof st (size_member (field_at flds i) (names ! i)))"
proof -
  have n: "length names = nfields flds" using assms(1) by (simp add: laid_out_def)
  have "map (field_off flds) [0..<nfields flds] ! i = map (of_nat \<circ> offsetof st) names ! i"
    using assms(1) by (simp add: laid_out_def)
  then have off: "field_off flds i = of_nat (offsetof st (names ! i))" using assms(2) n by simp
  then show d: "it_pData (iter_at flds dest i) = dest + of_nat (offsetof st (names ! i))"
    using assms(2) by (simp add: iter_at_pData)
  have l: "i < length flds"
    using assms(2) length_takeWhile_le [of "\<lambda>f. pf_tag f \<noteq> 0" flds] unfolding nfields_def by linarith
  then have z: "zip flds names ! i = (field_at flds i, names ! i)" "i < length (zip flds names)"
    using assms(2) n by (simp_all add: field_at_def)
  have "pf_data_offset (field_at flds i) \<noteq> PB_SIZE_MAX
      \<and> of_nat (offsetof st (names ! i)) + scast (pf_size_offset (field_at flds i)) =
          (of_nat (offsetof st (size_member (field_at flds i) (names ! i))) :: addr)"
    using assms(1) z by (auto simp: laid_out_def list_all_length)
  then show "it_pSize (iter_at flds dest i) = dest + of_nat (offsetof st (size_member (field_at flds i) (names ! i)))"
    using assms(2) off by (simp add: iter_at_pSize add.assoc)
qed

definition cct_members :: "cct_link \<Rightarrow> (cstruct \<times> pb_field list \<times> string list) list" where
  "cct_members lk =
    [(gdt_cct_LogEvent, gdt_cct_LogEvent_fields lk,
       [''event_time_ms'', ''source_extension'', ''event_code'', ''timezone_offset_seconds'',
        ''event_uptime_ms'', ''network_connection_info'']),
     (gdt_cct_NetworkConnectionInfo, gdt_cct_NetworkConnectionInfo_fields lk,
       [''network_type'', ''mobile_subtype'']),
     (gdt_cct_IosClientInfo, gdt_cct_IosClientInfo_fields lk,
       [''os_major_version'', ''os_full_version'', ''application_build'', ''country'', ''model'',
        ''language_code'', ''application_bundle_id'']),
     (gdt_cct_ClientInfo, gdt_cct_ClientInfo_fields lk, [''client_type'', ''ios_client_info'']),
     (gdt_cct_BatchedLogRequest, gdt_cct_BatchedLogRequest_fields lk, [''log_request'']),
     (gdt_cct_LogRequest, gdt_cct_LogRequest_fields lk,
       [''client_info'', ''log_source'', ''log_event'', ''request_time_ms'', ''request_uptime_ms'', ''qos_tier'']),
     (gdt_cct_QosTierConfiguration, gdt_cct_QosTierConfiguration_fields lk, [''qos_tier'', ''log_source'']),
     (gdt_cct_QosTiersOverride, gdt_cct_QosTiersOverride_fields lk,
       [''qos_tier_configuration'', ''qos_tier_fingerprint'']),
     (gdt_cct_LogResponse, gdt_cct_LogResponse_fields lk, [''next_request_wait_millis'', ''qos_tier''])]"

lemma cct_laid_out: "list_all (\<lambda>(st, flds, names). laid_out st flds names) (cct_members lk)"
  unfolding cct_members_def cct_table_eqs ICoreConfiguration_table
  by code_simp

lemma ICore_laid_out:
  "laid_out logs_proto_mobilesdk_ios_ICoreConfiguration logs_proto_mobilesdk_ios_ICoreConfiguration_fields
     [''configuration_type'', ''sdk_service_installed'', ''device_model'', ''app_id'', ''bundle_id'',
      ''pod_name'', ''icore_version'', ''sdk_version'', ''sdk_name'', ''app_count'', ''os_version'',
      ''min_supported_ios_version'', ''use_default_app'', ''deployed_in_app_store'',
      ''dynamic_framework_count'', ''apple_framework_version'', ''using_zip_file'', ''deployment_type'',
      ''platform_info'', ''swizzling_enabled'', ''using_gdt'']"
  unfolding cct_members_def cct_table_eqs ICoreConfiguration_table
  by code_simp

section \<open>A sample\<close>

text \<open>
  Addresses and a memory for evaluating the model: a response at address 16 with the wait time
  300, and a batch at address 64 with one log request, at 96, whose log source is 5.
\<close>

definition sample_link :: cct_link where
  "sample_link = \<lparr>lk_gdt_cct_NetworkConnectionInfo_fields = 1000,
     lk_gdt_cct_NetworkConnectionInfo_network_type_default = 1100,
     lk_gdt_cct_NetworkConnectionInfo_mobile_subtype_default = 1104,
     lk_gdt_cct_IosClientInfo_fields = 2000, lk_gdt_cct_LogRequest_fields = 3000,
     lk_gdt_cct_ClientInfo_fields = 4000, lk_gdt_cct_LogEvent_fields = 5000,
     lk_gdt_cct_LogRequest_qos_tier_default = 1108,
     lk_gdt_cct_QosTierConfiguration_log_source_default = 1112,
     lk_gdt_cct_QosTierConfiguration_fields = 6000, lk_gdt_cct_QosTiersOverride_fields = 7000\<rparr>"

definition sample_mem :: mem where
  "sample_mem = (\<lambda>_. 0)(16 := 1, 24 := 44, 25 := 1, 64 := 1, 72 := 96, 176 := 1, 180 := 5)"

lemma sample_link_ok: "cct_link_ok sample_link"
  by (simp add: cct_link_ok_def sample_link_def)

lemma sample_log_request:
  "e_message 4 (pure_env sample_mem (cct_tables sample_link) :: obuf enc_env) no_callback no_extension
     (gdt_cct_LogRequest_fields sample_link) 96 = Some (Bytes [16, 5])"
  by code_simp

lemma sample_batch:
  "e_message 5 (pure_env sample_mem (cct_tables sample_link) :: obuf enc_env) no_callback no_extension
     (gdt_cct_BatchedLogRequest_fields sample_link) 64 = Some (Bytes [10, 2, 16, 5])"
proof -
  let ?env = "pure_env sample_mem (cct_tables sample_link) :: obuf enc_env"
  let ?f = "field_at (gdt_cct_BatchedLogRequest_fields sample_link) 0"
  have f: "?f = fld 1 168 8 4294967288 144 0 3000" by code_simp
  have a: "field_addr (gdt_cct_BatchedLogRequest_fields sample_link) 64 0 = 72" by code_simp
  have l: "load_u64 sample_mem 72 = 96" "load_u32 sample_mem 64 = 1" by code_simp+
  have t: "cct_tables sample_link 3000 = gdt_cct_LogRequest_fields sample_link" by code_simp
  have v: "varint_bytes 10 = [10]" "varint_bytes (Suc (Suc 0)) = [2]" by (simp_all add: varint_bytes_small)
  have "e_message (Suc 4) ?env no_callback no_extension (gdt_cct_BatchedLogRequest_fields sample_link) 64
    = Some (Bytes [10, 2, 16, 5])"
    by (simp only: e_message.simps, simp add: cct_nfields f a e_any_field_def e_field_def e_basic_field_def Let_def pb_type_defs
        pure_env_def l e_array_def e_tagged_def wire_type_of_def array_item_def e_value_def t v
        e_field_tag_def e_tag_def wire_key_def e_varint_def sample_log_request [unfolded pure_env_def])
  then show ?thesis by simp
qed

lemma sample_response:
  "e_message 5 (pure_env sample_mem (cct_tables sample_link) :: obuf enc_env) no_callback no_extension
     (gdt_cct_LogResponse_fields sample_link) 16 = Some (Bytes [8, 172, 2])"
  by code_simp

end
