(* ===== verification/Gdt_Helpers.thy ===== *)
theory Gdt_Helpers
  imports Cct_Messages Pb_Decode
begin

text \<open>
  The two places where the log transport uses the library, from \<^verbatim>\<open>GDTCCTNanopbHelpers.m\<close>: encoding
  a batch of log requests, which runs the encoder twice, and decoding a response.
\<close>

section \<open>Encoding a batch\<close>

text \<open>
  The result of a failing first pass is logged and otherwise ignored, so the second pass runs on a
  buffer of as many bytes as had been counted. \<open>CFDataSetLength\<close> fills the new data with zeros. The
  result is the contents of the data object; \<open>None\<close> means that the depth was too small.
\<close>

definition GDTCCTEncodeBatchedLogRequest :: "nat \<Rightarrow> mem \<Rightarrow> cct_link \<Rightarrow> addr \<Rightarrow> byte list option" where
  "GDTCCTEncodeBatchedLogRequest d m lk batchedLogRequest =
     (let env = pure_env m (cct_tables lk); flds = gdt_cct_BatchedLogRequest_fields lk;
          st0 = \<lparr>ob_bytes = [], ob_next = 0, ob_oob = False\<rparr>
      in case pb_encode d env (PB_OSTREAM_SIZING st0) flds batchedLogRequest of
           None \<Rightarrow> None
         | Some (_, sizestream) \<Rightarrow>
             let bufferSize = os_bytes_written sizestream;
                 ostream = pb_ostream_from_buffer (replicate (unat bufferSize) 0) bufferSize
             in map_option (\<lambda>(_, ostream). ob_bytes (os_state ostream))
                  (pb_encode d env ostream flds batchedLogRequest))"

text \<open>
  The second pass fills the buffer of the first pass exactly: both see the same memory.
\<close>

lemma two_pass_encode:
  fixes env :: "obuf enc_env"
  assumes f: "bufcb.oimplements (\<lambda>s. pb_encode d env s flds src) (Bytes bs)" and len: "length bs < 2 ^ 63"
  shows "pb_encode d env (PB_OSTREAM_SIZING st) flds src =
      Some (True, (PB_OSTREAM_SIZING st)\<lparr>os_bytes_written := of_nat (length bs)\<rparr>)"
    and "\<exists>s'. pb_encode d env (pb_ostream_from_buffer (replicate (length bs) 0) (of_nat (length bs))) flds src = Some (True, s')
      \<and> ob_bytes (os_state s') = bs \<and> \<not> ob_oob (os_state s')"
proof -
  from f obtain g where fg: "(\<lambda>s. pb_encode d env s flds src) = (\<lambda>s. Some (g s))"
    and g: "bufcb.implements g (Bytes bs)" by (auto simp: bufcb.oimplements_def)
  have fg': "pb_encode d env s flds src = Some (g s)" for s using fg by (rule fun_cong)
  have "sizes g (Bytes bs)" using g by (simp add: bufcb.implements_def)
  from sizes_BytesD [OF this, of "PB_OSTREAM_SIZING st"]
  show "pb_encode d env (PB_OSTREAM_SIZING st) flds src =
      Some (True, (PB_OSTREAM_SIZING st)\<lparr>os_bytes_written := of_nat (length bs)\<rparr>)"
    by (simp add: fg' PB_OSTREAM_SIZING_def)
  have u: "unat (of_nat (length bs) :: size_t) = length bs" using len by (simp add: unat_of_nat_64)
  from buffer_encode [OF g, of "of_nat (length bs)" "replicate (length bs) 0"] len
  obtain s' where s': "g (pb_ostream_from_buffer (replicate (length bs) 0) (of_nat (length bs))) = (True, s')"
    "buffer_contents s' = bs" "os_bytes_written s' = of_nat (length bs)" "\<not> ob_oob (os_state s')"
    "length (ob_bytes (os_state s')) = length bs" by (auto simp: u)
  then have "ob_bytes (os_state s') = bs" by (simp add: buffer_contents_def u)
  with s' show "\<exists>s'. pb_encode d env (pb_ostream_from_buffer (replicate (length bs) 0) (of_nat (length bs))) flds src = Some (True, s')
      \<and> ob_bytes (os_state s') = bs \<and> \<not> ob_oob (os_state s')" by (simp add: fg')
qed

lemma GDTCCTEncodeBatchedLogRequest_bytes:
  assumes "e_message d (pure_env m (cct_tables lk) :: obuf enc_env) no_callback no_extension
      (gdt_cct_BatchedLogRequest_fields lk) src = Some (Bytes bs)"
    and len: "length bs < 2 ^ 63"
  shows "GDTCCTEncodeBatchedLogRequest d m lk src = Some bs"
proof -
  note t = two_pass_encode [OF bufenc.pb_encode_implements [OF assms(1)] len]
  have u: "unat (of_nat (length bs) :: size_t) = length bs" using len by (simp add: unat_of_nat_64)
  from t(2) show ?thesis
    by (auto simp: GDTCCTEncodeBatchedLogRequest_def Let_def t(1) u)
qed

lemma GDTCCTEncodeBatchedLogRequest_returns:
  assumes "e_message d (pure_env m (cct_tables lk) :: obuf enc_env) no_callback no_extension
      (gdt_cct_BatchedLogRequest_fields lk) src = Some r"
  shows "GDTCCTEncodeBatchedLogRequest d m lk src \<noteq> None"
proof -
  have "pb_encode d (pure_env m (cct_tables lk)) s (gdt_cct_BatchedLogRequest_fields lk) src \<noteq> None"
    for s :: "obuf pb_ostream"
    using bufenc.pb_encode_implements [OF assms] by (auto simp: bufcb.oimplements_def fun_eq_iff)
  then show ?thesis
    by (auto simp: GDTCCTEncodeBatchedLogRequest_def Let_def split: option.splits)
qed

end
