(* ===== verification/Cct_Decode.thy ===== *)
theory Cct_Decode
  imports Pb_Decode_Safe Gdt_Helpers
begin

text \<open>
  The generated tables fit their structures, so that the decoder is safe on them. A structure with
  pointers is left out where another one points to it: the elements of an allocated array must
  not hold pointers of their own. These are the two request messages, which the transport only encodes.
\<close>

section \<open>The log transport messages\<close>

definition cct_size :: "cct_link \<Rightarrow> pb_field list \<Rightarrow> nat" where
  "cct_size lk flds = (case find (\<lambda>(st, fl, names). fl = flds) (cct_members lk) of
     Some (st, fl, names) \<Rightarrow> struct_size st | None \<Rightarrow> 0)"

lemma cct_sizes:
  "cct_size lk (gdt_cct_LogEvent_fields lk) = 88" "cct_size lk (gdt_cct_NetworkConnectionInfo_fields lk) = 16"
  "cct_size lk (gdt_cct_IosClientInfo_fields lk) = 56" "cct_size lk (gdt_cct_ClientInfo_fields lk) = 72"
  "cct_size lk (gdt_cct_QosTierConfiguration_fields lk) = 16" "cct_size lk (gdt_cct_QosTiersOverride_fields lk) = 32"
  "cct_size lk (gdt_cct_LogResponse_fields lk) = 56"
  unfolding cct_size_def cct_members_def cct_table_eqs by code_simp+


definition cct_decoded :: "cct_link \<Rightarrow> pb_field list set" where
  "cct_decoded lk = (if cct_link_ok lk
     then set (cct_messages lk) - {gdt_cct_LogRequest_fields lk, gdt_cct_BatchedLogRequest_fields lk} else {})"

definition cct_pointers :: "cct_link \<Rightarrow> pb_field list \<Rightarrow> bool" where
  "cct_pointers lk flds \<longleftrightarrow> flds \<notin> {gdt_cct_NetworkConnectionInfo_fields lk, gdt_cct_QosTierConfiguration_fields lk}"

lemma cct_decoded_mem:
  assumes "cct_link_ok lk"
  shows "gdt_cct_LogEvent_fields lk \<in> cct_decoded lk" "gdt_cct_NetworkConnectionInfo_fields lk \<in> cct_decoded lk"
    "gdt_cct_IosClientInfo_fields lk \<in> cct_decoded lk" "gdt_cct_ClientInfo_fields lk \<in> cct_decoded lk"
    "gdt_cct_QosTierConfiguration_fields lk \<in> cct_decoded lk" "gdt_cct_QosTiersOverride_fields lk \<in> cct_decoded lk"
    "gdt_cct_LogResponse_fields lk \<in> cct_decoded lk"
  using assms by (simp_all add: cct_decoded_def cct_messages_mem) (simp_all add: cct_table_eqs)

lemma cct_pointers_eqs:
  "cct_pointers lk (gdt_cct_LogEvent_fields lk)" "\<not> cct_pointers lk (gdt_cct_NetworkConnectionInfo_fields lk)"
  "cct_pointers lk (gdt_cct_IosClientInfo_fields lk)" "cct_pointers lk (gdt_cct_ClientInfo_fields lk)"
  "\<not> cct_pointers lk (gdt_cct_QosTierConfiguration_fields lk)" "cct_pointers lk (gdt_cct_QosTiersOverride_fields lk)"
  "cct_pointers lk (gdt_cct_LogResponse_fields lk)"
  by (simp_all add: cct_pointers_def cct_table_eqs)

lemma cct_sub_fits:
  assumes "cct_link_ok lk" "flds \<in> cct_decoded lk" "i < nfields flds"
  shows "sub_fits (cct_tables lk) (cct_decoded lk) (cct_size lk) (cct_rank lk) (cct_pointers lk) flds (field_at flds i)"
proof -
  have "list_all (\<lambda>flds. list_all (sub_fits (cct_tables lk) (cct_decoded lk) (cct_size lk) (cct_rank lk) (cct_pointers lk) flds)
      (takeWhile (\<lambda>f. pf_tag f \<noteq> 0) flds))
    [gdt_cct_LogEvent_fields lk, gdt_cct_NetworkConnectionInfo_fields lk,
     gdt_cct_IosClientInfo_fields lk, gdt_cct_ClientInfo_fields lk, gdt_cct_QosTierConfiguration_fields lk,
     gdt_cct_QosTiersOverride_fields lk, gdt_cct_LogResponse_fields lk]"
    using assms(1)
    by (simp add: sub_fits_def cct_table_eqs pb_type_defs cct_tables_at [OF assms(1), unfolded cct_table_eqs]
      cct_rank_eqs [unfolded cct_table_eqs] cct_decoded_mem [OF assms(1), unfolded cct_table_eqs] cct_sizes [unfolded cct_table_eqs]
      cct_pointers_eqs [unfolded cct_table_eqs] cct_link_ok_def)
  then show ?thesis
    using assms unfolding all_fields_iff [symmetric]
    by (auto simp: cct_decoded_def cct_messages_def)
qed

lemma array_fits_code [code]:
  "array_fits f off soff \<longleftrightarrow>
     (PB_HTYPE (pf_type f) = PB_HTYPE_REPEATED \<and> PB_ATYPE (pf_type f) = PB_ATYPE_STATIC \<longrightarrow>
        uint (pf_data_size f) * uint (pf_array_size f) < 2 ^ 32)
     \<and> (PB_HTYPE (pf_type f) = PB_HTYPE_REPEATED \<and> PB_ATYPE (pf_type f) = PB_ATYPE_POINTER \<longrightarrow>
        pf_data_size f \<noteq> 0 \<and> PB_LTYPE (pf_type f) \<noteq> PB_LTYPE_STRING \<and> PB_LTYPE (pf_type f) \<noteq> PB_LTYPE_BYTES
        \<and> (off + 8 \<le> soff \<or> soff + 4 \<le> off))"
proof -
  have "uint (pf_data_size f) * uint (pf_array_size f) = int (unat (pf_data_size f) * unat (pf_array_size f))" by simp
  then have "uint (pf_data_size f) * uint (pf_array_size f) < 2 ^ 32 \<longleftrightarrow> unat (pf_data_size f) * unat (pf_array_size f) < 2 ^ 32"
    by (simp only: of_nat_less_numeral_power_cancel_iff)
  then show ?thesis unfolding array_fits_def by simp
qed

definition shape_fits :: "pb_field list \<Rightarrow> nat \<Rightarrow> bool \<Rightarrow> nat \<Rightarrow> bool" where
  "shape_fits flds tsize ptr i \<longleftrightarrow>
     (let f = field_at flds i; off = unat (field_off flds i); soff = unat (field_soff flds i)
      in kind_fits f ptr \<and> item_fits f \<and> data_fits f off tsize \<and> size_fits f off soff tsize
         \<and> array_fits f off soff)"

lemma cct_shapes:
  "list_all (\<lambda>(flds, tsize, ptr, n). list_all (shape_fits flds tsize ptr) [0..<n])
    [(gdt_cct_LogEvent_fields lk, 88, True, 6), (gdt_cct_NetworkConnectionInfo_fields lk, 16, False, 2),
     (gdt_cct_IosClientInfo_fields lk, 56, True, 7), (gdt_cct_ClientInfo_fields lk, 72, True, 2),
     (gdt_cct_QosTierConfiguration_fields lk, 16, False, 2), (gdt_cct_QosTiersOverride_fields lk, 32, True, 2),
     (gdt_cct_LogResponse_fields lk, 56, True, 2)]"
  unfolding cct_table_eqs by code_simp

lemma cct_shape:
  assumes "flds \<in> cct_decoded lk" "i < nfields flds"
  shows "shape_fits flds (cct_size lk flds) (cct_pointers lk flds) i"
proof -
  from assms(1) have "flds \<in> {gdt_cct_LogEvent_fields lk, gdt_cct_NetworkConnectionInfo_fields lk,
     gdt_cct_IosClientInfo_fields lk, gdt_cct_ClientInfo_fields lk, gdt_cct_QosTierConfiguration_fields lk,
     gdt_cct_QosTiersOverride_fields lk, gdt_cct_LogResponse_fields lk}"
    by (auto simp: cct_decoded_def cct_messages_def split: if_splits)
  with cct_shapes [of lk] assms(2) show ?thesis
    by (auto simp: list_all_iff cct_sizes cct_pointers_eqs cct_nfields)
qed

interpretation cct: decode_tables "cct_tables lk" "cct_decoded lk" "cct_size lk" "cct_rank lk" "cct_pointers lk" for lk
proof
  fix flds i assume T: "flds \<in> cct_decoded lk" "i < nfields flds"
  then have "cct_link_ok lk" by (auto simp: cct_decoded_def split: if_splits)
  from cct_sub_fits [OF this T] cct_shape [OF T]
  show "field_fits (cct_tables lk) (cct_decoded lk) (cct_size lk) (cct_rank lk) (cct_pointers lk) flds i"
    by (simp add: field_fits_def shape_fits_def Let_def)
next
  fix flds assume T: "flds \<in> cct_decoded lk"
  then show "0 < nfields flds" by (auto simp: cct_decoded_def cct_messages_def cct_nfields split: if_splits)
  from T show "cct_size lk flds < 2 ^ 63"
    by (auto simp: cct_decoded_def cct_messages_def cct_sizes split: if_splits)
qed

section \<open>The diagnostics message\<close>

lemma ICore_size: "struct_size logs_proto_mobilesdk_ios_ICoreConfiguration = 152"
  by code_simp

lemma ICore_nfields: "nfields logs_proto_mobilesdk_ios_ICoreConfiguration_fields = 21"
  by (simp add: nfields_def ICoreConfiguration_table)

lemma ICore_shape:
  "list_all (shape_fits logs_proto_mobilesdk_ios_ICoreConfiguration_fields 152 True) [0..<21]"
  unfolding ICoreConfiguration_table by code_simp

interpretation icore: decode_tables tables "{logs_proto_mobilesdk_ios_ICoreConfiguration_fields}"
    "\<lambda>_. struct_size logs_proto_mobilesdk_ios_ICoreConfiguration" "\<lambda>_. 0" "\<lambda>_. True" for tables
proof
  fix flds i assume T: "flds \<in> {logs_proto_mobilesdk_ios_ICoreConfiguration_fields}" "i < nfields flds"
  have "\<forall>i < nfields flds. PB_LTYPE (pf_type (field_at flds i)) \<noteq> PB_LTYPE_SUBMESSAGE"
    using T(1) all_fields_iff [of flds "\<lambda>f. PB_LTYPE (pf_type f) \<noteq> PB_LTYPE_SUBMESSAGE"]
    by (simp add: ICoreConfiguration_table pb_type_defs)
  moreover have "shape_fits flds (struct_size logs_proto_mobilesdk_ios_ICoreConfiguration) True i"
    using ICore_shape T by (simp add: list_all_iff ICore_nfields ICore_size)
  ultimately show "field_fits tables {logs_proto_mobilesdk_ios_ICoreConfiguration_fields}
      (\<lambda>_. struct_size logs_proto_mobilesdk_ios_ICoreConfiguration) (\<lambda>_. 0) (\<lambda>_. True) flds i"
    using T(2) by (simp add: field_fits_def shape_fits_def Let_def sub_fits_def)
qed (simp_all add: ICore_nfields ICore_size)

end
