(* ===== verification/Pb_Roundtrip.thy ===== *)
theory Pb_Roundtrip
  imports Pb_Encode_Calls Pb_Frame Pb_Init
begin

text \<open>
  Encoder and decoder together: what the decoder makes of the encoding of a message of optional
  numbers, for any table of that kind.
\<close>

section \<open>Scalars\<close>

definition scalar_type :: "pb_type \<Rightarrow> pb_size_t \<Rightarrow> bool" where
  "scalar_type lt ds \<longleftrightarrow>
     lt = PB_LTYPE_BOOL \<and> ds = 1
     \<or> lt \<in> {PB_LTYPE_VARINT, PB_LTYPE_UVARINT, PB_LTYPE_SVARINT} \<and> ds \<in> {1, 2, 4, 8}
     \<or> lt = PB_LTYPE_FIXED32 \<and> ds = 4 \<or> lt = PB_LTYPE_FIXED64 \<and> ds = 8"

lemma load_u16_bytes: "le_bytes 2 (unat (load_u16 m a)) = load_bytes m a 2"
proof -
  have "le_val (load_bytes m a 2) < 2 ^ 16" using le_val_less [of "load_bytes m a 2"] by simp
  then have "unat (load_u16 m a) = le_val (load_bytes m a 2)"
    by (simp add: load_u16_def unsigned_of_nat take_bit_nat_eq_self)
  then show ?thesis using le_bytes_val [of "load_bytes m a 2"] by simp
qed

lemma store_load:
  "store_u8 m p (load_u8 m' q) = store_bytes m p (load_bytes m' q 1)"
  "store_u16 m p (load_u16 m' q) = store_bytes m p (load_bytes m' q 2)"
  "store_u32 m p (load_u32 m' q) = store_bytes m p (load_bytes m' q 4)"
  "store_u64 m p (load_u64 m' q) = store_bytes m p (load_bytes m' q 8)"
  by (simp_all add: store_u8_def store_u16_def store_u32_def store_u64_def load_u16_bytes load_u32_bytes load_u64_bytes
      load_u8_def load_bytes_def)

lemma ucast_scast_id:
  fixes x :: "'a :: len word"
  assumes "LENGTH('a) \<le> LENGTH('b :: len)"
  shows "ucast (scast x :: 'b word) = x"
proof (rule bit_word_eqI)
  fix n assume n: "n < LENGTH('a)"
  then have "min n (LENGTH('a) - 1) = n" by simp
  with n assms show "bit (ucast (scast x :: 'b word) :: 'a word) n = bit x n" by (simp add: bit_simps)
qed

lemma scast_ucast_scast:
  fixes x :: "'a :: len word"
  assumes "LENGTH('a) \<le> LENGTH('c :: len)" "LENGTH('c) \<le> LENGTH('b :: len)"
  shows "scast (ucast (scast x :: 'b word) :: 'c word) = (scast x :: 'b word)"
proof (rule bit_word_eqI)
  fix n assume n: "n < LENGTH('b)"
  have "min n (LENGTH('c) - 1) < LENGTH('b)" "min n (LENGTH('c) - 1) < LENGTH('c)" using n by (simp_all add: min_less_iff_disj)
  moreover have "min (min n (LENGTH('c) - 1)) (LENGTH('a) - 1) = min n (LENGTH('a) - 1)" using assms(1) by (simp add: min_def)
  ultimately show "bit (scast (ucast (scast x :: 'b word) :: 'c word) :: 'b word) n = bit (scast x :: 'b word) n"
    using n by (simp add: bit_simps min.commute)
qed

lemma ucast_ucast_id:
  fixes x :: "'a :: len word"
  assumes "LENGTH('a) \<le> LENGTH('b :: len)"
  shows "ucast (ucast x :: 'b word) = x"
  by (rule bit_word_eqI) (use assms in \<open>auto simp: bit_simps\<close>)

lemmas casts = ucast_scast_id scast_ucast_scast ucast_ucast_id

context istream_callback
begin

text \<open>The value that the decoder stores is the one that was encoded, byte by byte.\<close>

lemma pb_dec_int_stores:
  assumes "istream_ok s" "input s = varint_bytes (unat v) @ rst" "e_int m (pf_data_size f) src = Some v"
  shows "\<exists>s'. pb_dec_varint f dest (s, d) =
      Some (True, s', upd_mem (\<lambda>m'. store_bytes m' dest (load_bytes m src (unat (pf_data_size f)))) d)
    \<and> consumed_ok s (length (varint_bytes (unat v))) s'"
  using pb_decode_varint_reads [OF assms(1,2)] assms(3)
  by (auto simp: e_int_def pb_dec_varint_def dec_store_def reads_def dec_then_def casts store_load Let_def split: if_splits)

lemma pb_dec_uint_stores:
  assumes "istream_ok s" "input s = varint_bytes (unat v) @ rst" "e_uint m (pf_data_size f) src = Some v"
  shows "\<exists>s'. pb_dec_uvarint f dest (s, d) =
      Some (True, s', upd_mem (\<lambda>m'. store_bytes m' dest (load_bytes m src (unat (pf_data_size f)))) d)
    \<and> consumed_ok s (length (varint_bytes (unat v))) s'"
  using pb_decode_varint_reads [OF assms(1,2)] assms(3)
  by (auto simp: e_uint_def pb_dec_uvarint_def dec_store_def reads_def dec_then_def casts store_load Let_def split: if_splits)

lemma pb_dec_sint_stores:
  assumes "istream_ok s" "input s = varint_bytes (zigzag (sint v)) @ rst" "e_int m (pf_data_size f) src = Some v"
  shows "\<exists>s'. pb_dec_svarint f dest (s, d) =
      Some (True, s', upd_mem (\<lambda>m'. store_bytes m' dest (load_bytes m src (unat (pf_data_size f)))) d)
    \<and> consumed_ok s (length (varint_bytes (zigzag (sint v)))) s'"
  using pb_decode_svarint_reads [OF assms(1,2)] assms(3)
  by (auto simp: e_int_def pb_dec_svarint_def dec_store_def reads_def dec_then_def casts store_load Let_def split: if_splits)

lemma scalar_stores:
  assumes ty: "scalar_type (PB_LTYPE (pf_type f)) (pf_data_size f)" and ok: "istream_ok s"
    and e: "e_value env esub f src = Some (Bytes pl)" and inp: "input s = pl @ rst"
    and bool: "PB_LTYPE (pf_type f) = PB_LTYPE_BOOL \<Longrightarrow> load_u8 (ee_mem env) src \<in> {0, 1}"
  shows "\<exists>s'. PB_DECODERS denv pdecode pnoinit (PB_LTYPE (pf_type f)) f dest (s, d) =
      Some (True, s', upd_mem (\<lambda>m'. store_bytes m' dest (load_bytes (ee_mem env) src (unat (pf_data_size f)))) d)
    \<and> consumed_ok s (length pl) s'"
proof -
  let ?lt = "PB_LTYPE (pf_type f)" and ?m = "ee_mem env"
  from ty consider (bool) "?lt = PB_LTYPE_BOOL" "pf_data_size f = 1" | (int) "?lt = PB_LTYPE_VARINT" "pf_data_size f \<in> {1, 2, 4, 8}"
    | (uint) "?lt = PB_LTYPE_UVARINT" "pf_data_size f \<in> {1, 2, 4, 8}" | (sint) "?lt = PB_LTYPE_SVARINT" "pf_data_size f \<in> {1, 2, 4, 8}"
    | (f32) "?lt = PB_LTYPE_FIXED32" "pf_data_size f = 4" | (f64) "?lt = PB_LTYPE_FIXED64" "pf_data_size f = 8"
    by (auto simp: scalar_type_def)
  then show ?thesis
  proof cases
    case bool
    let ?b = "if load_u8 ?m src \<noteq> 0 then 1 else 0 :: u32"
    have pl: "pl = varint_bytes (unat ?b)" using e bool(1) by (auto simp: e_value_def Let_def pb_consts e_varint_def)
    have "load_bytes ?m src 1 = [if ?b \<noteq> 0 then 1 else 0]"
      using assms(5) [OF bool(1)] by (auto simp: load_u8_def load_bytes_def)
    then have "store_u8 m' dest (if ?b \<noteq> 0 then 1 else 0) = store_bytes m' dest (load_bytes ?m src 1)" for m'
      by (simp add: store_u8_def)
    with pb_decode_varint32_reads [OF ok inp [unfolded pl]] bool pl show ?thesis
      by (auto simp: PB_DECODERS_def pb_consts pb_dec_bool_def dec_store_def reads_def dec_then_def simp del: One_nat_def)
  next
    case int
    then obtain v where v: "e_int ?m (pf_data_size f) src = Some v" by (auto simp: e_int_def)
    then have "pl = varint_bytes (unat v)" using e int(1) by (auto simp: e_value_def Let_def pb_consts e_varint_def)
    with pb_dec_int_stores [OF ok _ v, of rst dest d] inp int(1) show ?thesis by (simp add: PB_DECODERS_def pb_consts)
  next
    case uint
    then obtain v where v: "e_uint ?m (pf_data_size f) src = Some v" by (auto simp: e_uint_def)
    then have "pl = varint_bytes (unat v)" using e uint(1) by (auto simp: e_value_def Let_def pb_consts e_varint_def)
    with pb_dec_uint_stores [OF ok _ v, of rst dest d] inp uint(1) show ?thesis by (simp add: PB_DECODERS_def pb_consts)
  next
    case sint
    then obtain v where v: "e_int ?m (pf_data_size f) src = Some v" by (auto simp: e_int_def)
    then have "pl = varint_bytes (zigzag (sint v))" using e sint(1) by (auto simp: e_value_def Let_def pb_consts e_varint_def)
    with pb_dec_sint_stores [OF ok _ v, of rst dest d] inp sint(1) show ?thesis by (simp add: PB_DECODERS_def pb_consts)
  next
    case f32
    then have pl: "pl = le_bytes 4 (unat (load_u32 ?m src))" using e by (simp add: e_value_def Let_def pb_consts load_u32_bytes)
    with pb_decode_fixed32_reads [OF ok inp [unfolded pl]] f32 show ?thesis
      by (auto simp: PB_DECODERS_def pb_consts pb_dec_fixed32_def dec_store_def reads_def dec_then_def store_load)
  next
    case f64
    then have pl: "pl = le_bytes 8 (unat (load_u64 ?m src))" using e by (simp add: e_value_def Let_def pb_consts load_u64_bytes)
    with pb_decode_fixed64_reads [OF ok inp [unfolded pl]] f64 show ?thesis
      by (auto simp: PB_DECODERS_def pb_consts pb_dec_fixed64_def dec_store_def reads_def dec_then_def store_load)
  qed
qed

end


section \<open>Flat tables\<close>

text \<open>
  Messages of optional numbers, each with its presence flag in front, as the generator lays
  them out.
\<close>

definition scalar_field :: "pb_field \<Rightarrow> bool" where
  "scalar_field f \<longleftrightarrow> PB_ATYPE (pf_type f) = PB_ATYPE_STATIC \<and> PB_HTYPE (pf_type f) = PB_HTYPE_OPTIONAL
     \<and> pf_size_offset f \<noteq> 0 \<and> scalar_type (PB_LTYPE (pf_type f)) (pf_data_size f) \<and> pf_tag f < 2 ^ 29"

definition flat_layout :: "pb_field list \<Rightarrow> nat \<Rightarrow> bool" where
  "flat_layout flds i \<longleftrightarrow>
     (let off = (\<lambda>j. unat (field_off flds j)); soff = (\<lambda>j. unat (field_soff flds j)) in
      soff i + 1 \<le> off i \<and> field_off flds i < 2 ^ 62
      \<and> list_all (\<lambda>j. off j + unat (pf_data_size (field_at flds j)) \<le> soff i) [0..<i])"

definition flat_table :: "pb_field list \<Rightarrow> bool" where
  "flat_table flds \<longleftrightarrow> 0 < nfields flds \<and> list_all scalar_field (takeWhile (\<lambda>f. pf_tag f \<noteq> 0) flds)
     \<and> distinct (map pf_tag (takeWhile (\<lambda>f. pf_tag f \<noteq> 0) flds)) \<and> list_all (flat_layout flds) [0..<nfields flds]"

text \<open>The addresses of the flag and the data of a field, and the memory they take.\<close>

definition flag_at :: "pb_field list \<Rightarrow> addr \<Rightarrow> nat \<Rightarrow> addr" where
  "flag_at flds p i = it_pSize (iter_at flds p i)"

definition data_at :: "pb_field list \<Rightarrow> addr \<Rightarrow> nat \<Rightarrow> addr" where
  "data_at flds p i = it_pData (iter_at flds p i)"

definition field_mem :: "pb_field list \<Rightarrow> addr \<Rightarrow> nat \<Rightarrow> addr set" where
  "field_mem flds p i = range_of (flag_at flds p i) 1 \<union> range_of (data_at flds p i) (unat (pf_data_size (field_at flds i)))"

lemma flat_field:
  assumes "flat_table flds" "i < nfields flds"
  shows "scalar_field (field_at flds i)"
  using assms unfolding flat_table_def all_fields_iff [symmetric] by blast

lemma scalar_size: "scalar_field f \<Longrightarrow> 1 \<le> unat (pf_data_size f) \<and> unat (pf_data_size f) \<le> 8"
  by (auto simp: scalar_field_def scalar_type_def)

lemma flat_layoutD:
  assumes "flat_table flds" "i < nfields flds"
  shows "unat (field_soff flds i) + 1 \<le> unat (field_off flds i)" "unat (field_off flds i) < 2 ^ 62"
    "j < i \<Longrightarrow> unat (field_off flds j) + unat (pf_data_size (field_at flds j)) \<le> unat (field_soff flds i)"
proof -
  have "flat_layout flds i" using assms by (simp add: flat_table_def list_all_iff)
  then show "unat (field_soff flds i) + 1 \<le> unat (field_off flds i)" "unat (field_off flds i) < 2 ^ 62"
    "j < i \<Longrightarrow> unat (field_off flds j) + unat (pf_data_size (field_at flds j)) \<le> unat (field_soff flds i)"
    by (simp_all add: flat_layout_def Let_def list_all_iff word_less_nat_alt)
qed

lemma flat_addresses:
  assumes "flat_table flds" "i < nfields flds"
  shows "flag_at flds p i = p + of_nat (unat (field_soff flds i))" "data_at flds p i = p + of_nat (unat (field_off flds i))"
    "flag_at flds p i = data_at flds p i + scast (pf_size_offset (field_at flds i))" "flag_at flds p i \<noteq> data_at flds p i"
proof -
  show 1: "flag_at flds p i = p + of_nat (unat (field_soff flds i))" "data_at flds p i = p + of_nat (unat (field_off flds i))"
    using assms(2) by (simp_all add: flag_at_def data_at_def iter_at_pData iter_at_pSize_soff)
  have "PB_HTYPE (pf_type (field_at flds i)) \<noteq> PB_HTYPE_ONEOF"
    using flat_field [OF assms] by (simp add: scalar_field_def pb_consts)
  then have "field_soff flds i = field_off flds i + scast (pf_size_offset (field_at flds i))"
    by (cases i) (simp_all add: Let_def)
  then show "flag_at flds p i = data_at flds p i + scast (pf_size_offset (field_at flds i))"
    using 1 by simp
  have "unat (field_soff flds i) < unat (field_off flds i)"
    using flat_layoutD(1) [OF assms] by simp
  then have "field_soff flds i \<noteq> field_off flds i" by auto
  then show "flag_at flds p i \<noteq> data_at flds p i" using 1 by simp
qed

lemma flat_disjoint:
  assumes "flat_table flds" "i < nfields flds"
  shows "range_of (flag_at flds p i) 1 \<inter> range_of (data_at flds p i) (unat (pf_data_size (field_at flds i))) = {}"
    and "j < nfields flds \<Longrightarrow> i \<noteq> j \<Longrightarrow> field_mem flds p i \<inter> field_mem flds p j = {}"
proof -
  note lay = flat_layoutD [OF assms(1)]
  have size: "unat (pf_data_size (field_at flds k)) \<le> 8" if "k < nfields flds" for k
    using scalar_size [OF flat_field [OF assms(1) that]] by simp
  show "range_of (flag_at flds p i) 1 \<inter> range_of (data_at flds p i) (unat (pf_data_size (field_at flds i))) = {}"
    unfolding flat_addresses(1,2) [OF assms] using lay(1,2) [OF assms(2)] size [OF assms(2)]
    by (intro range_of_disjoint) simp_all
  have less: "field_mem flds p k \<inter> field_mem flds p l = {}" if k: "k < l" and l: "l < nfields flds" for k l
  proof -
    have k': "k < nfields flds" using k l by simp
    note b = lay [OF k'] lay [OF l] lay(3) [OF l k] size [OF k'] size [OF l]
    show ?thesis
      unfolding field_mem_def flat_addresses(1,2) [OF assms(1) k'] flat_addresses(1,2) [OF assms(1) l] Int_Un_distrib Int_Un_distrib2
      using b by (simp only: Un_empty) (intro conjI range_of_disjoint; simp)
  qed
  show "j < nfields flds \<Longrightarrow> i \<noteq> j \<Longrightarrow> field_mem flds p i \<inter> field_mem flds p j = {}"
    using less [of i j] less [of j i] assms(2) by (cases "i < j") auto
qed

lemma flat_find:
  assumes "flat_table flds" "i < nfields flds" "j < nfields flds"
  shows "pb_field_iter_find (iter_at flds p j) (pf_tag (field_at flds i)) = Some (True, iter_at flds p i)"
proof (rule pb_field_iter_find_unique [OF assms(3,2)])
  let ?fs = "takeWhile (\<lambda>f. pf_tag f \<noteq> 0) flds"
  show "it_matches (pf_tag (field_at flds i)) (field_at flds i)"
    using flat_field [OF assms(1,2)] by (auto simp: it_matches_def scalar_field_def scalar_type_def pb_consts)
  fix k assume k: "k < nfields flds" "it_matches (pf_tag (field_at flds i)) (field_at flds k)"
  have at: "field_at flds l = ?fs ! l" if "l < nfields flds" for l
    using that length_takeWhile_le [of "\<lambda>f. pf_tag f \<noteq> 0" flds] by (simp add: field_at_def nfields_def takeWhile_nth)
  have "map pf_tag ?fs ! k = map pf_tag ?fs ! i" using k at assms(2) by (simp add: it_matches_def nfields_def)
  moreover have "distinct (map pf_tag ?fs)" using assms(1) by (simp add: flat_table_def)
  ultimately show "k = i" using k(1) assms(2) by (simp add: nth_eq_iff_index_eq nfields_def del: nth_map)
qed

section \<open>Decoding a flat message\<close>

text \<open>What a field of the source structure becomes in the destination structure.\<close>

definition copy_field :: "pb_field list \<Rightarrow> mem \<Rightarrow> addr \<Rightarrow> addr \<Rightarrow> nat \<Rightarrow> mem \<Rightarrow> mem" where
  "copy_field flds m src dest i m' =
     (if load_u8 m (flag_at flds src i) \<noteq> 0
      then store_bytes (store_u8 m' (flag_at flds dest i) 1) (data_at flds dest i)
             (load_bytes m (data_at flds src i) (unat (pf_data_size (field_at flds i))))
      else m')"

definition bools_ok :: "pb_field list \<Rightarrow> mem \<Rightarrow> addr \<Rightarrow> bool" where
  "bools_ok flds m src \<longleftrightarrow> (\<forall>i < nfields flds. PB_LTYPE (pf_type (field_at flds i)) = PB_LTYPE_BOOL \<longrightarrow>
     load_u8 m (data_at flds src i) \<in> {0, 1})"

text \<open>The bytes of a field: nothing if it is absent, otherwise the tag and the value.\<close>

lemma flat_field_bytes:
  fixes env :: "'t enc_env"
  assumes flat: "flat_table flds" "i < nfields flds"
    and e: "e_any_field n env cspec xspec esub (field_at flds i) (field_addr flds src i) = Some (Bytes bs)"
  shows "load_u8 (ee_mem env) (flag_at flds src i) = 0 \<Longrightarrow> bs = []"
    and "load_u8 (ee_mem env) (flag_at flds src i) \<noteq> 0 \<Longrightarrow>
      \<exists>wt pl. bs = varint_bytes (wire_key wt (pf_tag (field_at flds i))) @ pl \<and> unat wt < 8
        \<and> e_value env esub (field_at flds i) (data_at flds src i) = Some (Bytes pl)"
proof -
  let ?f = "field_at flds i" and ?m = "ee_mem env"
  have f: "scalar_field ?f" using flat by (rule flat_field)
  then have fd: "PB_ATYPE (pf_type ?f) = PB_ATYPE_STATIC" "PB_HTYPE (pf_type ?f) = PB_HTYPE_OPTIONAL" "pf_size_offset ?f \<noteq> 0"
    "scalar_type (PB_LTYPE (pf_type ?f)) (pf_data_size ?f)"
    by (simp_all add: scalar_field_def)
  have lt: "PB_LTYPE (pf_type ?f) \<noteq> PB_LTYPE_EXTENSION" using fd(4) by (auto simp: scalar_type_def pb_consts)
  obtain wt where wt: "wire_type_of (pf_type ?f) = Some wt"
    using fd(4) by (auto simp: scalar_type_def wire_type_of_def Let_def pb_consts)
  have flag: "flag_at flds src i = field_addr flds src i + scast (pf_size_offset ?f)"
    using flat_addresses(3) [OF flat, of src] by (simp add: field_addr_def data_at_def)
  have eq: "e_any_field n env cspec xspec esub ?f (field_addr flds src i) =
      (if load_u8 ?m (flag_at flds src i) \<noteq> 0 then e_tagged env esub ?f (data_at flds src i) else Some (Bytes []))"
    using fd lt by (simp add: e_any_field_def e_field_def e_basic_field_def e_present_def Let_def flag pb_consts
        field_addr_def data_at_def)
  show "load_u8 ?m (flag_at flds src i) = 0 \<Longrightarrow> bs = []" using e eq by simp
  assume "load_u8 ?m (flag_at flds src i) \<noteq> 0"
  then have "map_option (enc_seq (e_tag wt (pf_tag ?f))) (e_value env esub ?f (data_at flds src i)) = Some (Bytes bs)"
    using e eq wt by (simp add: e_tagged_def e_field_tag_def)
  then obtain v where v: "e_value env esub ?f (data_at flds src i) = Some v" "enc_seq (e_tag wt (pf_tag ?f)) v = Bytes bs" by auto
  then obtain pl where "v = Bytes pl" "bs = varint_bytes (wire_key wt (pf_tag ?f)) @ pl"
    by (cases v) (auto simp: e_tag_def e_varint_def)
  with v(1) wt wire_type_of_less show "\<exists>wt pl. bs = varint_bytes (wire_key wt (pf_tag ?f)) @ pl \<and> unat wt < 8
      \<and> e_value env esub ?f (data_at flds src i) = Some (Bytes pl)" by blast
qed

context istream_callback
begin

lemma flat_field_step:
  assumes flat: "flat_table flds" "i < nfields flds" and j: "j < nfields flds" "nl_iter l = iter_at flds dest j"
    and ok: "istream_ok s" and inp: "input s = varint_bytes (wire_key wt (pf_tag (field_at flds i))) @ pl @ rst" "unat wt < 8"
    and e: "e_value env esub (field_at flds i) (data_at flds src i) = Some (Bytes pl)"
    and bools: "bools_ok flds (ee_mem env) src" and pres: "load_u8 (ee_mem env) (flag_at flds src i) \<noteq> 0"
  shows "\<exists>s'. noinit_loop (Suc k) n denv pdecode pnoinit loc ((s, d), l) =
      noinit_loop k n denv pdecode pnoinit loc ((s', upd_mem (copy_field flds (ee_mem env) src dest i) d),
        l\<lparr>nl_iter := iter_at flds dest i\<rparr>)
    \<and> consumed_ok s (length (varint_bytes (wire_key wt (pf_tag (field_at flds i))) @ pl)) s'"
proof -
  let ?f = "field_at flds i" and ?it = "iter_at flds dest i"
  have f: "PB_ATYPE (pf_type ?f) = PB_ATYPE_STATIC" "PB_HTYPE (pf_type ?f) = PB_HTYPE_OPTIONAL"
    "scalar_type (PB_LTYPE (pf_type ?f)) (pf_data_size ?f)" "unat (pf_tag ?f) < 2 ^ 29" "pf_tag ?f \<noteq> 0"
    using flat_field [OF flat] field_at_tag_nonzero [OF flat(2)] by (simp_all add: scalar_field_def word_less_nat_alt)
  have fi: "it_field ?it = ?f" using flat(2) by (rule iter_at_field)
  from pb_decode_tag_ok [OF ok inp(1) _ f(4,5)] inp(2) obtain s1 where
    s1: "pb_decode_tag s = (True, wt, pf_tag ?f, False, s1)"
      "consumed_ok s (length (varint_bytes (wire_key wt (pf_tag ?f)))) s1" by auto
  have ok1: "istream_ok s1" "input s1 = pl @ rst" using consumed_okD [OF s1(2)] inp(1) by simp_all
  let ?d = "upd_mem (\<lambda>m. store_u8 m (it_pSize ?it) 1) d"
  have "PB_LTYPE (pf_type ?f) = PB_LTYPE_BOOL \<Longrightarrow> load_u8 (ee_mem env) (data_at flds src i) \<in> {0, 1}"
    using bools flat(2) by (simp add: bools_ok_def)
  from scalar_stores [OF f(3) ok1(1) e ok1(2) this, of denv pdecode pnoinit "it_pData ?it" ?d] obtain s2 where
    s2: "PB_DECODERS denv pdecode pnoinit (PB_LTYPE (pf_type ?f)) ?f (it_pData ?it) (s1, ?d) =
      Some (True, s2, upd_mem (\<lambda>m'. store_bytes m' (it_pData ?it) (load_bytes (ee_mem env) (data_at flds src i) (unat (pf_data_size ?f)))) ?d)"
    "consumed_ok s1 (length pl) s2" by blast
  have upd: "upd_mem (\<lambda>m'. store_bytes m' (it_pData ?it) (load_bytes (ee_mem env) (data_at flds src i) (unat (pf_data_size ?f)))) ?d
      = upd_mem (copy_field flds (ee_mem env) src dest i) d"
    using pres by (simp add: upd_mem_def copy_field_def flag_at_def data_at_def)
  have ne: "it_pSize ?it \<noteq> it_pData ?it" using flat_addresses(4) [OF flat, of dest] by (simp add: flag_at_def data_at_def)
  have "decode_static_field n denv pdecode pnoinit wt ?it (s1, d) = Some (True, s2, upd_mem (copy_field flds (ee_mem env) src dest i) d)"
    using f ne s2(1) upd by (simp add: decode_static_field_def fi Let_def pb_consts dec_store_def)
  then have "decode_known n denv pdecode pnoinit loc wt (l\<lparr>nl_iter := ?it\<rparr>) (s1, d) =
      Some (True, (s2, upd_mem (copy_field flds (ee_mem env) src dest i) d), l\<lparr>nl_iter := ?it\<rparr>)"
    using f by (simp add: decode_known_def decode_field_def fi Let_def pb_consts)
  moreover have "is_bytes_left s \<noteq> 0"
    using length_input [OF ok] inp(1) length_greater_0_conv [of "varint_bytes (wire_key wt (pf_tag ?f))"] by auto
  ultimately have "noinit_loop (Suc k) n denv pdecode pnoinit loc ((s, d), l) =
      noinit_loop k n denv pdecode pnoinit loc ((s2, upd_mem (copy_field flds (ee_mem env) src dest i) d), l\<lparr>nl_iter := ?it\<rparr>)"
    using s1(1) flat_find [OF flat j(1), of dest] j(2) by simp
  moreover have "consumed_ok s (length (varint_bytes (wire_key wt (pf_tag ?f)) @ pl)) s2"
    using consumed_ok_trans [OF s1(2) s2(2)] by simp
  ultimately show ?thesis by blast
qed

lemma flat_loop:
  fixes env :: "'t enc_env"
  assumes flat: "flat_table flds" and bools: "bools_ok flds (ee_mem env) src"
  shows "\<lbrakk>set xs \<subseteq> {..<nfields flds}; istream_ok s; input s = concat bss; unat (is_bytes_left s) < k;
      list_all2 (\<lambda>i bs. e_any_field n env cspec xspec esub (field_at flds i) (field_addr flds src i) = Some (Bytes bs)) xs bss;
      j < nfields flds; nl_iter l = iter_at flds dest j\<rbrakk> \<Longrightarrow>
    \<exists>s' j'. noinit_loop k nn denv pdecode pnoinit loc ((s, d), l) =
        Some (True, (s', upd_mem (fold (copy_field flds (ee_mem env) src dest) xs) d), l\<lparr>nl_iter := iter_at flds dest j'\<rparr>)
      \<and> j' < nfields flds \<and> is_bytes_left s' = 0"
proof (induction xs arbitrary: s bss k j l d)
  case Nil
  then have "is_bytes_left s = 0" "bss = []" using length_input [OF Nil.prems(2)] by (auto simp: unat_eq_0)
  moreover obtain k' where "k = Suc k'" using Nil.prems(4) by (cases k) auto
  moreover have "l\<lparr>nl_iter := iter_at flds dest j\<rparr> = l" using Nil.prems(7) by simp
  ultimately show ?case using Nil.prems(6) by (auto simp: upd_mem_def intro!: exI [of _ j])
next
  case (Cons i xs)
  then obtain bs bss' where bss: "bss = bs # bss'"
    "e_any_field n env cspec xspec esub (field_at flds i) (field_addr flds src i) = Some (Bytes bs)"
    "list_all2 (\<lambda>i bs. e_any_field n env cspec xspec esub (field_at flds i) (field_addr flds src i) = Some (Bytes bs)) xs bss'"
    by (auto simp: list_all2_Cons1)
  have i: "i < nfields flds" "set xs \<subseteq> {..<nfields flds}" using Cons.prems(1) by auto
  have fold: "upd_mem (fold (copy_field flds (ee_mem env) src dest) (i # xs)) d =
      upd_mem (fold (copy_field flds (ee_mem env) src dest) xs) (upd_mem (copy_field flds (ee_mem env) src dest i) d)"
    by (simp add: upd_mem_def)
  note fb = flat_field_bytes [OF flat i(1) bss(2)]
  show ?case
  proof (cases "load_u8 (ee_mem env) (flag_at flds src i) = 0")
    case True
    then have "input s = concat bss'" using Cons.prems(3) bss(1) fb(1) by simp
    moreover have "upd_mem (copy_field flds (ee_mem env) src dest i) d = d"
      using True by (simp add: copy_field_def upd_mem_def)
    ultimately show ?thesis
      using Cons.IH [OF i(2) Cons.prems(2) _ Cons.prems(4) bss(3) Cons.prems(6,7), of d] unfolding fold by simp
  next
    case False
    from fb(2) [OF this] obtain wt pl where w: "bs = varint_bytes (wire_key wt (pf_tag (field_at flds i))) @ pl" "unat wt < 8"
      "e_value env esub (field_at flds i) (data_at flds src i) = Some (Bytes pl)" by blast
    obtain k' where k': "k = Suc k'" using Cons.prems(4) by (cases k) auto
    have "input s = varint_bytes (wire_key wt (pf_tag (field_at flds i))) @ pl @ concat bss'"
      using Cons.prems(3) bss(1) w(1) by simp
    from flat_field_step [OF flat i(1) Cons.prems(6,7,2) this w(2,3) bools False] obtain s1 where
      s1: "noinit_loop (Suc k') nn denv pdecode pnoinit loc ((s, d), l) =
        noinit_loop k' nn denv pdecode pnoinit loc ((s1, upd_mem (copy_field flds (ee_mem env) src dest i) d),
          l\<lparr>nl_iter := iter_at flds dest i\<rparr>)" "consumed_ok s (length bs) s1" using w(1) by blast
    have "istream_ok s1" "input s1 = concat bss'" using consumed_okD [OF s1(2)] Cons.prems(3) bss(1) by simp_all
    moreover have "unat (is_bytes_left s1) < k'"
    proof -
      have "0 < length bs" using w(1) length_greater_0_conv [of "varint_bytes (wire_key wt (pf_tag (field_at flds i)))"] by simp
      moreover have "unat (is_bytes_left s1) + length bs = unat (is_bytes_left s)"
        using s1(2) by (simp add: consumed_ok_def consumed_def)
      ultimately show ?thesis using Cons.prems(4) k' by linarith
    qed
    ultimately show ?thesis
      using Cons.IH [OF i(2) _ _ _ bss(3) i(1), of s1 k' "l\<lparr>nl_iter := iter_at flds dest i\<rparr>"
          "upd_mem (copy_field flds (ee_mem env) src dest i) d"] unfolding fold k' s1(1) by simp
  qed
qed

end

text \<open>The memory after all the fields have been copied.\<close>

lemma copy_field_frame:
  assumes "flat_table flds" "i < nfields flds"
  shows "frame (field_mem flds dest i) m' (copy_field flds m src dest i m')"
proof -
  have "frame (field_mem flds dest i) m' (store_u8 m' (flag_at flds dest i) 1)"
    by (rule frame_store_u8) (simp add: field_mem_def)
  moreover have "frame (field_mem flds dest i) m'' (store_bytes m'' (data_at flds dest i)
      (load_bytes m (data_at flds src i) (unat (pf_data_size (field_at flds i)))))" for m''
    by (rule frame_store_bytes) (simp add: field_mem_def)
  ultimately show ?thesis unfolding copy_field_def by (auto intro: frame_trans)
qed

lemma copy_field_loads:
  assumes flat: "flat_table flds" "i < nfields flds" and pres: "load_u8 m (flag_at flds src i) \<noteq> 0"
  shows "load_u8 (copy_field flds m src dest i m') (flag_at flds dest i) = 1"
    and "load_bytes (copy_field flds m src dest i m') (data_at flds dest i) (unat (pf_data_size (field_at flds i))) =
      load_bytes m (data_at flds src i) (unat (pf_data_size (field_at flds i)))"
proof -
  let ?ds = "unat (pf_data_size (field_at flds i))"
  have "flag_at flds dest i \<notin> range_of (data_at flds dest i) ?ds"
    using flat_disjoint(1) [OF flat, of dest] by (auto simp: range_of_def)
  then show "load_u8 (copy_field flds m src dest i m') (flag_at flds dest i) = 1"
    using pres by (simp add: copy_field_def load_u8_def store_bytes_outside store_u8_def)
  have "?ds \<le> 2 ^ 64" using scalar_size [OF flat_field [OF flat]] by simp
  then show "load_bytes (copy_field flds m src dest i m') (data_at flds dest i) ?ds = load_bytes m (data_at flds src i) ?ds"
    using pres load_store_bytes [of "load_bytes m (data_at flds src i) ?ds"] by (simp add: copy_field_def)
qed

lemma copy_fields_frame:
  assumes "flat_table flds" "set xs \<subseteq> {..<nfields flds}"
  shows "frame (\<Union>i \<in> set xs. field_mem flds dest i) m' (fold (copy_field flds m src dest) xs m')"
  using assms(2)
proof (induction xs arbitrary: m')
  case (Cons i xs)
  have "frame (\<Union>i \<in> set (i # xs). field_mem flds dest i) m' (copy_field flds m src dest i m')"
    by (rule frame_mono [OF copy_field_frame [OF assms(1)]]) (use Cons.prems in auto)
  moreover have "frame (\<Union>i \<in> set (i # xs). field_mem flds dest i) m'' (fold (copy_field flds m src dest) xs m'')" for m''
    by (rule frame_mono [OF Cons.IH]) (use Cons.prems in auto)
  ultimately show ?case by (auto intro: frame_trans)
qed simp

lemma copied:
  assumes flat: "flat_table flds" and xs: "set xs \<subseteq> {..<nfields flds}" "distinct xs" and i: "i \<in> set xs"
    and pres: "load_u8 m (flag_at flds src i) \<noteq> 0"
  shows "load_u8 (fold (copy_field flds m src dest) xs m') (flag_at flds dest i) = 1"
    and "load_bytes (fold (copy_field flds m src dest) xs m') (data_at flds dest i) (unat (pf_data_size (field_at flds i))) =
      load_bytes m (data_at flds src i) (unat (pf_data_size (field_at flds i)))"
proof -
  from i obtain ys zs where split: "xs = ys @ i # zs" by (auto simp: in_set_conv_decomp)
  have i': "i < nfields flds" and zs: "set zs \<subseteq> {..<nfields flds}" "i \<notin> set zs" using xs split by auto
  let ?m = "copy_field flds m src dest i (fold (copy_field flds m src dest) ys m')"
  have fr: "frame (\<Union>j \<in> set zs. field_mem flds dest j) ?m (fold (copy_field flds m src dest) zs ?m)"
    by (rule copy_fields_frame [OF flat zs(1)])
  have "field_mem flds dest i \<inter> (\<Union>j \<in> set zs. field_mem flds dest j) = {}"
    using flat_disjoint(2) [OF flat i', of _ dest] zs by blast
  then have dis: "range_of (flag_at flds dest i) 1 \<inter> (\<Union>j \<in> set zs. field_mem flds dest j) = {}"
    "range_of (data_at flds dest i) (unat (pf_data_size (field_at flds i))) \<inter> (\<Union>j \<in> set zs. field_mem flds dest j) = {}"
    by (auto simp: field_mem_def)
  have eq: "fold (copy_field flds m src dest) xs m' = fold (copy_field flds m src dest) zs ?m" by (simp add: split)
  show "load_bytes (fold (copy_field flds m src dest) xs m') (data_at flds dest i) (unat (pf_data_size (field_at flds i))) =
      load_bytes m (data_at flds src i) (unat (pf_data_size (field_at flds i)))"
    unfolding eq using frame_load_bytes [OF fr dis(2)] copy_field_loads(2) [OF flat i' pres] by simp
  have "load_bytes (fold (copy_field flds m src dest) zs ?m) (flag_at flds dest i) 1 = load_bytes ?m (flag_at flds dest i) 1"
    using frame_load_bytes [OF fr dis(1)] .
  then have "load_u8 (fold (copy_field flds m src dest) zs ?m) (flag_at flds dest i) = load_u8 ?m (flag_at flds dest i)"
    by (simp add: load_u8_def load_bytes_def)
  then show "load_u8 (fold (copy_field flds m src dest) xs m') (flag_at flds dest i) = 1"
    unfolding eq using copy_field_loads(1) [OF flat i' pres] by simp
qed

lemma copied_absent:
  assumes flat: "flat_table flds" and xs: "set xs \<subseteq> {..<nfields flds}" and i: "i < nfields flds"
    and abs: "load_u8 m (flag_at flds src i) = 0"
  shows "load_u8 (fold (copy_field flds m src dest) xs m') (flag_at flds dest i) = load_u8 m' (flag_at flds dest i)"
  using xs
proof (induction xs arbitrary: m')
  case (Cons j xs)
  have "load_u8 (copy_field flds m src dest j m') (flag_at flds dest i) = load_u8 m' (flag_at flds dest i)"
  proof (cases "j = i")
    case True
    then show ?thesis using abs by (simp add: copy_field_def)
  next
    case False
    have j: "j < nfields flds" using Cons.prems by simp
    have "flag_at flds dest i \<notin> field_mem flds dest j"
      using flat_disjoint(2) [OF flat i j] False by (auto simp: field_mem_def range_of_def)
    then show ?thesis using copy_field_frame [OF flat j, of dest m' m src] by (simp add: frame_def load_u8_def)
  qed
  then show ?case using Cons by simp
qed simp

section \<open>Default values of a flat message\<close>

lemma flat_default:
  assumes flat: "flat_table flds" "i < nfields flds"
  shows "\<exists>m'. pb_field_set_to_default (Suc n) env (iter_at flds dest i) m = Some m'
    \<and> frame (field_mem flds dest i) m m' \<and> load_u8 m' (flag_at flds dest i) = 0"
proof -
  let ?f = "field_at flds i" and ?it = "iter_at flds dest i" let ?ds = "unat (pf_data_size ?f)"
  have f: "PB_ATYPE (pf_type ?f) = PB_ATYPE_STATIC" "PB_HTYPE (pf_type ?f) = PB_HTYPE_OPTIONAL"
    "PB_LTYPE (pf_type ?f) \<noteq> PB_LTYPE_EXTENSION" "PB_LTYPE (pf_type ?f) \<noteq> PB_LTYPE_SUBMESSAGE"
    using flat_field [OF flat] by (auto simp: scalar_field_def scalar_type_def pb_consts)
  have ne: "it_pSize ?it \<noteq> it_pData ?it" using flat_addresses(4) [OF flat, of dest] by (simp add: flag_at_def data_at_def)
  let ?m = "store_u8 m (flag_at flds dest i) 0"
  let ?m' = "if pf_ptr ?f \<noteq> 0 then mem_copy ?m (data_at flds dest i) (pf_ptr ?f) ?ds else mem_set ?m (data_at flds dest i) 0 ?ds"
  have "pb_field_set_to_default (Suc n) env ?it m = Some ?m'"
    using f ne by (simp add: field_set_to_default_def iter_at_field [OF flat(2)] Let_def pb_consts flag_at_def data_at_def)
  moreover have "frame (field_mem flds dest i) m ?m"
    by (rule frame_store_u8) (simp add: field_mem_def)
  moreover have fr: "frame (range_of (data_at flds dest i) ?ds) ?m ?m'" by (auto intro: frame_stores)
  moreover have "load_u8 ?m' (flag_at flds dest i) = 0"
  proof -
    have "flag_at flds dest i \<notin> range_of (data_at flds dest i) ?ds"
      using flat_disjoint(1) [OF flat, of dest] by (auto simp: range_of_def)
    then have "?m' (flag_at flds dest i) = ?m (flag_at flds dest i)" using fr unfolding frame_def by blast
    then show ?thesis by (simp add: load_u8_def store_u8_def)
  qed
  moreover have "frame (field_mem flds dest i) ?m ?m'" using fr by (rule frame_mono) (simp add: field_mem_def)
  ultimately show ?thesis by (blast intro: frame_trans)
qed

lemma flat_defaults:
  assumes flat: "flat_table flds"
  shows "\<exists>m'. pb_message_set_to_defaults (Suc (Suc n)) env flds dest m = Some m'
    \<and> (\<forall>i < nfields flds. load_u8 m' (flag_at flds dest i) = 0)"
proof -
  let ?body = "\<lambda>m it. map_option (Pair True) (pb_field_set_to_default (Suc n) env it m)"
  have "\<exists>m'. oseq (map (\<lambda>j m. ?body m (iter_at flds dest j)) xs) m = Some (True, m')
      \<and> (\<forall>i \<in> set xs. load_u8 m' (flag_at flds dest i) = 0)
      \<and> frame (\<Union>i \<in> set xs. field_mem flds dest i) m m'" if "set xs \<subseteq> {..<nfields flds}" "distinct xs" for xs
    using that
  proof (induction xs arbitrary: m)
    case (Cons i xs)
    have i: "i < nfields flds" using Cons.prems by simp
    from flat_default [OF flat i, of n env dest m] obtain m1 where
      m1: "pb_field_set_to_default (Suc n) env (iter_at flds dest i) m = Some m1"
        "frame (field_mem flds dest i) m m1" "load_u8 m1 (flag_at flds dest i) = 0" by blast
    from Cons.IH [of m1] Cons.prems obtain m2 where
      m2: "oseq (map (\<lambda>j m. ?body m (iter_at flds dest j)) xs) m1 = Some (True, m2)"
        "\<forall>i \<in> set xs. load_u8 m2 (flag_at flds dest i) = 0" "frame (\<Union>i \<in> set xs. field_mem flds dest i) m1 m2" by auto
    have "flag_at flds dest i \<notin> (\<Union>j \<in> set xs. field_mem flds dest j)"
      using flat_disjoint(2) [OF flat i, of _ dest] Cons.prems by (auto simp: field_mem_def range_of_def)
    then have "load_u8 m2 (flag_at flds dest i) = 0" using m1(3) m2(3) by (simp add: frame_def load_u8_def)
    moreover have "frame (\<Union>i \<in> set (i # xs). field_mem flds dest i) m m2"
      using frame_mono [OF m1(2)] frame_mono [OF m2(3)] by (auto intro!: frame_trans [of _ m m1 m2])
    ultimately show ?case using m1(1) m2(1,2) by (simp del: pb_field_set_to_default.simps)
  qed simp
  from this [of "[0..<nfields flds]"] obtain m' where
    m': "oseq (map (\<lambda>j m. ?body m (iter_at flds dest j)) [0..<nfields flds]) m = Some (True, m')"
      "\<forall>i < nfields flds. load_u8 m' (flag_at flds dest i) = 0" by (auto simp: subset_iff)
  have n: "0 < nfields flds" using flat by (simp add: flat_table_def)
  have "iter_loop ?body (iter_at flds dest 0) m = Some (True, m')" using iter_loop_iter_at [OF n, of ?body] m'(1) by simp
  then show ?thesis
    using m'(2) n by (simp add: pb_field_iter_begin_eq del: iter_at.simps pb_field_set_to_default.simps)
qed

section \<open>Required fields\<close>

text \<open>A flat message has no required fields, so none can be missing.\<close>

lemma flat_required_index:
  assumes "flat_table flds"
  shows "i < nfields flds \<Longrightarrow> it_required_field_index (iter_at flds p i) = 0"
proof (induction i)
  case 0
  then show ?case by (simp add: pb_field_iter_begin_def Let_def)
next
  case (Suc i)
  then have "PB_HTYPE (pf_type (it_field (iter_at flds p i))) \<noteq> PB_HTYPE_REQUIRED"
    using flat_field [OF assms, of i] by (simp add: iter_at_field scalar_field_def pb_consts)
  moreover have "pf_tag (it_field (iter_at flds p i)) \<noteq> 0" "pf_tag (field_at flds (Suc i)) \<noteq> 0"
    using Suc.prems by (simp_all add: iter_at_field field_at_tag_nonzero)
  moreover have "it_pos (iter_at flds p i) = i" using Suc.prems by (simp add: iter_at_pos)
  ultimately show ?case
    using Suc by (simp add: iter_at.simps(2) pb_field_iter_next_def it_field_def Let_def)
qed

lemma flat_seek_end:
  assumes "flat_table flds" "i < nfields flds"
  shows "\<exists>ty it. seek_end (iter_at flds p i) = (0, ty, it) \<and> PB_HTYPE ty \<noteq> PB_HTYPE_REQUIRED"
  using assms(2)
proof (induction "nfields flds - i" arbitrary: i)
  case (Suc k)
  show ?case
  proof (cases "Suc i < nfields flds")
    case True
    moreover have "k = nfields flds - Suc i" using Suc.hyps(2) by simp
    ultimately show ?thesis
      using Suc.hyps(1) by (subst seek_end.simps) (simp add: pb_field_iter_next_iter_at [OF Suc.prems])
  next
    case False
    then show ?thesis
      using flat_required_index [OF assms(1) Suc.prems] flat_field [OF assms(1) Suc.prems]
      by (subst seek_end.simps)
        (simp add: pb_field_iter_next_iter_at [OF Suc.prems] iter_at_field [OF Suc.prems] scalar_field_def pb_consts)
  qed
qed simp

lemma flat_required_seen:
  assumes "flat_table flds" "i < nfields flds"
  shows "required_seen (req_field_count (iter_at flds p i)) seen"
proof -
  from flat_seek_end [OF assms, of p] obtain ty it where
    "seek_end (iter_at flds p i) = (0, ty, it)" "PB_HTYPE ty \<noteq> PB_HTYPE_REQUIRED" by blast
  then have "req_field_count (iter_at flds p i) = 0" by (simp add: req_field_count_def Let_def pb_consts)
  then show ?thesis by (simp add: required_seen_def)
qed

section \<open>The round trip\<close>

context istream_callback
begin

theorem flat_decode:
  fixes env :: "'t enc_env"
  assumes flat: "flat_table flds" and bools: "bools_ok flds (ee_mem env) src"
    and e: "e_message d env cspec xspec flds src = Some (Bytes bs)"
    and s: "istream_ok s" "input s = bs" and n: "3 \<le> n"
    and loc: "\<And>k i. i < nfields flds \<Longrightarrow> range_of (de_local denv k) 4 \<inter> field_mem flds dest i = {}"
  shows "\<exists>s' d'. pb_decode n denv flds dest (s, dd) = Some (True, s', d') \<and> is_bytes_left s' = 0
    \<and> (\<forall>i < nfields flds.
         load_u8 (ds_mem d') (flag_at flds dest i) = (if load_u8 (ee_mem env) (flag_at flds src i) \<noteq> 0 then 1 else 0)
         \<and> (load_u8 (ee_mem env) (flag_at flds src i) \<noteq> 0 \<longrightarrow>
              load_bytes (ds_mem d') (data_at flds dest i) (unat (pf_data_size (field_at flds i))) =
              load_bytes (ee_mem env) (data_at flds src i) (unat (pf_data_size (field_at flds i)))))"
proof -
  let ?m = "ee_mem env" and ?xs = "[0..<nfields flds]"
  from le_Suc_ex [OF n] obtain k where "n = 3 + k" by blast
  then have k: "n = Suc (Suc (Suc k))" by simp
  have nf: "0 < nfields flds" using flat by (simp add: flat_table_def)
  from e obtain e' where e': "d = Suc e'" by (cases d) auto
  from e obtain rs where rs: "all_some (map (\<lambda>i. e_any_field e' env cspec xspec (e_message e' env cspec xspec)
      (field_at flds i) (field_addr flds src i)) ?xs) = Some rs" "e_concat rs = Bytes bs" by (auto simp: e')
  from rs(2) have "\<exists>bss. rs = map Bytes bss \<and> bs = concat bss"
  proof (induction rs arbitrary: bs)
    case (Cons r rs)
    then obtain b bs' where b: "r = Bytes b" "e_concat rs = Bytes bs'" "bs = b @ bs'"
      by (cases r; cases "e_concat rs") auto
    from Cons.IH [OF b(2)] obtain bss where "rs = map Bytes bss" "bs' = concat bss" by blast
    then show ?case using b by (intro exI [of _ "b # bss"]) simp
  qed simp
  then obtain bss where bss: "rs = map Bytes bss" "bs = concat bss" by blast
  have la: "list_all2 (\<lambda>i bs. e_any_field e' env cspec xspec (e_message e' env cspec xspec) (field_at flds i)
      (field_addr flds src i) = Some (Bytes bs)) ?xs bss"
  proof -
    have "list_all2 (=) (map (\<lambda>i. e_any_field e' env cspec xspec (e_message e' env cspec xspec) (field_at flds i)
        (field_addr flds src i)) ?xs) (map (\<lambda>bs. Some (Bytes bs)) bss)"
      using rs(1) unfolding all_some_Some bss(1) list.rel_eq map_map comp_def .
    then show ?thesis unfolding list.rel_map .
  qed
  from flat_defaults [OF flat, of k denv dest "ds_mem dd"] obtain m0 where
    m0: "pb_message_set_to_defaults (Suc (Suc k)) denv flds dest (ds_mem dd) = Some m0"
      "\<And>i. i < nfields flds \<Longrightarrow> load_u8 m0 (flag_at flds dest i) = 0" by blast
  let ?loc = "de_local denv (Suc k)"
  let ?l = "\<lparr>nl_iter = iter_at flds dest 0, nl_fields_seen = [0, 0],
               nl_extension_range_start = 0, nl_fixed_count_field = None\<rparr>"
  let ?d = "dd\<lparr>ds_mem := store_u32 m0 ?loc 0\<rparr>"
  have "set ?xs \<subseteq> {..<nfields flds}" by auto
  from flat_loop [OF flat bools this s(1) s(2) [unfolded bss(2)] _ la nf, of "Suc (unat (is_bytes_left s))" ?l dest
      "Suc k" denv "pb_decode (Suc k) denv" "pb_decode_noinit (Suc k) denv" ?loc ?d]
  obtain s' j where l: "noinit_loop (Suc (unat (is_bytes_left s))) (Suc k) denv (pb_decode (Suc k) denv)
      (pb_decode_noinit (Suc k) denv) ?loc ((s, ?d), ?l) =
      Some (True, (s', upd_mem (fold (copy_field flds ?m src dest) ?xs) ?d), ?l\<lparr>nl_iter := iter_at flds dest j\<rparr>)"
    "j < nfields flds" "is_bytes_left s' = 0" by auto
  let ?d' = "upd_mem (fold (copy_field flds ?m src dest) ?xs) ?d"
  have "pb_decode_noinit (Suc (Suc k)) denv flds dest (s, dd\<lparr>ds_mem := m0\<rparr>) = Some (True, s', ?d')"
    using l flat_required_seen [OF flat l(2)]
    by (simp add: decode_noinit_body_def Let_def dec_store_def upd_mem_def pb_field_iter_begin_eq fixed_count_wrong_def
        del: noinit_loop.simps iter_at.simps)
  then have dec: "pb_decode n denv flds dest (s, dd) = Some (True, s', ?d')"
    by (simp add: k decode_body_def m0(1) del: pb_decode_noinit.simps pb_message_set_to_defaults.simps)
  have flag0: "load_u8 (store_u32 m0 ?loc 0) (flag_at flds dest i) = 0" if "i < nfields flds" for i
  proof -
    have "flag_at flds dest i \<notin> range_of ?loc 4"
      using loc [OF that, of "Suc k"] by (auto simp: field_mem_def range_of_def)
    then show ?thesis
      using m0(2) [OF that] frame_store_u32 [of ?loc "range_of ?loc 4" m0 0] by (simp add: frame_def load_u8_def)
  qed
  have "load_u8 (ds_mem ?d') (flag_at flds dest i) = (if load_u8 ?m (flag_at flds src i) \<noteq> 0 then 1 else 0)"
    if "i < nfields flds" for i
    using copied(1) [OF flat, of ?xs i ?m src dest] copied_absent [OF flat _ that, of ?xs ?m src dest] flag0 [OF that] that
    by (auto simp: upd_mem_def subset_iff)
  moreover have "load_bytes (ds_mem ?d') (data_at flds dest i) (unat (pf_data_size (field_at flds i))) =
      load_bytes ?m (data_at flds src i) (unat (pf_data_size (field_at flds i)))"
    if "i < nfields flds" "load_u8 ?m (flag_at flds src i) \<noteq> 0" for i
    using copied(2) [OF flat, of ?xs i ?m src dest] that by (simp add: upd_mem_def subset_iff)
  ultimately show ?thesis using dec l(3) by blast
qed

end

text \<open>A flat message always has an encoding.\<close>

lemma scalar_value_bytes:
  assumes "scalar_type (PB_LTYPE (pf_type f)) (pf_data_size f)"
  shows "\<exists>pl. e_value env esub f src = Some (Bytes pl)"
proof -
  let ?lt = "PB_LTYPE (pf_type f)" and ?m = "ee_mem env"
  have ints: "\<exists>v. e_int ?m (pf_data_size f) src = Some v" "\<exists>v. e_uint ?m (pf_data_size f) src = Some v"
    if "pf_data_size f \<in> {1, 2, 4, 8}" using that by (auto simp: e_int_def e_uint_def)
  from assms consider "?lt = PB_LTYPE_BOOL \<or> ?lt = PB_LTYPE_FIXED32 \<or> ?lt = PB_LTYPE_FIXED64"
    | "?lt \<in> {PB_LTYPE_VARINT, PB_LTYPE_UVARINT, PB_LTYPE_SVARINT}" "pf_data_size f \<in> {1, 2, 4, 8}"
    by (auto simp: scalar_type_def)
  then show ?thesis
  proof cases
    case 1
    then show ?thesis by (auto simp: e_value_def Let_def pb_consts e_varint_def)
  next
    case 2
    from ints [OF 2(2)] 2(1) show ?thesis by (auto simp: e_value_def Let_def pb_consts e_varint_def)
  qed
qed

lemma flat_encoding:
  assumes flat: "flat_table flds"
  shows "\<exists>bs. e_message (Suc n) env cspec xspec flds src = Some (Bytes bs)"
proof -
  let ?e = "\<lambda>i. e_any_field n env cspec xspec (e_message n env cspec xspec) (field_at flds i) (field_addr flds src i)"
  have field: "\<exists>bs. ?e i = Some (Bytes bs)" if i: "i < nfields flds" for i
  proof -
    let ?f = "field_at flds i"
    have f: "PB_ATYPE (pf_type ?f) = PB_ATYPE_STATIC" "PB_HTYPE (pf_type ?f) = PB_HTYPE_OPTIONAL" "pf_size_offset ?f \<noteq> 0"
      "scalar_type (PB_LTYPE (pf_type ?f)) (pf_data_size ?f)" using flat_field [OF flat i] by (simp_all add: scalar_field_def)
    obtain wt where wt: "wire_type_of (pf_type ?f) = Some wt"
      using f(4) by (auto simp: scalar_type_def wire_type_of_def Let_def pb_consts)
    obtain pl where "e_value env (e_message n env cspec xspec) ?f (field_addr flds src i) = Some (Bytes pl)"
      using scalar_value_bytes [OF f(4)] by blast
    moreover have "PB_LTYPE (pf_type ?f) \<noteq> PB_LTYPE_EXTENSION" using f(4) by (auto simp: scalar_type_def pb_consts)
    ultimately show ?thesis
      using f(1-3) wt by (simp add: e_any_field_def e_field_def e_basic_field_def e_present_def Let_def pb_consts
          e_tagged_def e_field_tag_def e_tag_def e_varint_def)
  qed
  have "\<exists>bss. map ?e xs = map (\<lambda>bs. Some (Bytes bs)) bss" if "set xs \<subseteq> {..<nfields flds}" for xs
    using that
  proof (induction xs)
    case (Cons x xs)
    then obtain bss where bss: "map ?e xs = map (\<lambda>bs. Some (Bytes bs)) bss" by auto
    from field [of x] Cons.prems obtain b where "?e x = Some (Bytes b)" by auto
    with bss show ?case by (intro exI [of _ "b # bss"]) simp
  qed simp
  from this [of "[0..<nfields flds]"] obtain bss where bss: "map ?e [0..<nfields flds] = map (\<lambda>bs. Some (Bytes bs)) bss"
    by (auto simp: subset_iff)
  have "e_concat (map Bytes bss) = Bytes (concat bss)" by (induction bss) simp_all
  moreover have "all_some (map (\<lambda>bs. Some (Bytes bs)) bss) = Some (map Bytes bss)" by (simp add: all_some_Some)
  ultimately show ?thesis by (simp add: bss)
qed

text \<open>A message as the program sees it: which fields are present, and the bytes of those that are.\<close>

definition same_message :: "pb_field list \<Rightarrow> mem \<Rightarrow> addr \<Rightarrow> mem \<Rightarrow> addr \<Rightarrow> bool" where
  "same_message flds m src m' dest \<longleftrightarrow> (\<forall>i < nfields flds.
     (load_u8 m' (flag_at flds dest i) \<noteq> 0 \<longleftrightarrow> load_u8 m (flag_at flds src i) \<noteq> 0)
     \<and> (load_u8 m (flag_at flds src i) \<noteq> 0 \<longrightarrow>
          load_bytes m' (data_at flds dest i) (unat (pf_data_size (field_at flds i))) =
          load_bytes m (data_at flds src i) (unat (pf_data_size (field_at flds i)))))"

end
