(* ===== verification/Gdt_Response.thy ===== *)
theory Gdt_Response
  imports Cct_Decode Pb_Roundtrip
begin

text \<open>
  What the log transport does with the answer of the server: \<^verbatim>\<open>GDTCCTDecodeLogResponse\<close> of
  \<^verbatim>\<open>GDTCCTNanopbHelpers.m\<close> and its use in \<^verbatim>\<open>GDTCCTUploader.m\<close>.
\<close>

section \<open>Structure initialisers in memory\<close>

text \<open>
  A variable of structure type with a brace-enclosed initialiser. Padding is left as it is; the
  structure of a member is found by the name of the member.
\<close>

fun store_init :: "(string \<Rightarrow> cstruct) \<Rightarrow> string \<times> ctype \<Rightarrow> addr \<Rightarrow> cinit \<Rightarrow> mem \<Rightarrow> mem"
  and store_inits :: "(string \<Rightarrow> cstruct) \<Rightarrow> cstruct \<Rightarrow> (string \<times> ctype) list \<Rightarrow> addr \<Rightarrow> cinit list \<Rightarrow> mem \<Rightarrow> mem" where
  "store_init structs nt p (IBool b) m = store_u8 m p (if b then 1 else 0)"
| "store_init structs nt p (IInt i) m = store_bytes m p (int_bytes (csizeof (snd nt)) i)"
| "store_init structs nt p INull m = store_ptr m p 0"
| "store_init structs nt p (IStruct vs) m =
     store_inits structs (structs (fst nt)) (concat (structs (fst nt))) p vs m"
| "store_inits structs st (nt # ms) p (v # vs) m =
     store_inits structs st ms p vs (store_init structs nt (p + of_nat (offsetof st (fst nt))) v m)"
| "store_inits structs st _ p _ m = m"

definition cct_structs :: "string \<Rightarrow> cstruct" where
  "cct_structs name = (if name = ''client_info'' then gdt_cct_ClientInfo
     else if name = ''ios_client_info'' then gdt_cct_IosClientInfo
     else if name = ''network_connection_info'' then gdt_cct_NetworkConnectionInfo
     else gdt_cct_QosTiersOverride)"

definition store_LogResponse_default :: "addr \<Rightarrow> mem \<Rightarrow> mem" where
  "store_LogResponse_default p m =
     store_inits cct_structs gdt_cct_LogResponse (concat gdt_cct_LogResponse) p gdt_cct_LogResponse_init_default m"

section \<open>Decoding a response\<close>

definition GDTCCTDecodeLogResponse ::
  "nat \<Rightarrow> (ibuf, 'h) dec_env \<Rightarrow> cct_link \<Rightarrow> addr \<Rightarrow> byte list \<Rightarrow> 'h dst \<Rightarrow> (string option \<times> 'h dst) option" where
  "GDTCCTDecodeLogResponse n env lk response data d =
     (let d = upd_mem (store_LogResponse_default response) d;
          istream = pb_istream_from_buffer data (of_nat (length data))
      in case pb_decode n env (gdt_cct_LogResponse_fields lk) response (istream, d) of
           None \<Rightarrow> None
         | Some (True, istream, d) \<Rightarrow> Some (None, d)
         | Some (False, istream, d) \<Rightarrow>
             Some (Some (PB_GET_ERROR (is_errmsg istream)), upd_mem (store_LogResponse_default response) d))"

lemma LogResponse_default_stores:
  "store_LogResponse_default p m =
     store_u64 (store_u8 (store_u64 (store_u32 (store_u8 (store_u64 (store_u8 m p 0) (p + 8) 0) (p + 16) 0) (p + 24) 0) (p + 32) 0)
       (p + 40) 0) (p + 48) 0"
proof -
  have o: "map (offsetof gdt_cct_LogResponse \<circ> fst) (concat gdt_cct_LogResponse) = [0, 8, 16, 24]"
    "map (offsetof gdt_cct_QosTiersOverride \<circ> fst) (concat gdt_cct_QosTiersOverride) = [0, 8, 16, 24]"
    by code_simp+
  have b: "int_bytes 8 0 = le_bytes 8 (unat (0 :: u64))" "int_bytes 4 0 = le_bytes 4 (unat (0 :: u32))" by code_simp+
  show ?thesis
    using o b
    by (simp add: store_LogResponse_default_def gdt_cct_LogResponse_init_default_def gdt_cct_LogResponse_def memb_def
       gdt_cct_QosTiersOverride_init_default_def cct_structs_def gdt_cct_QosTiersOverride_def store_u64_def store_u32_def
       add.commute [of p])
qed

lemma LogResponse_default_frame: "frame (range_of p 56) m (store_LogResponse_default p m)"
proof -
  have r: "range_of (p + of_nat k) n \<subseteq> range_of p 56" if "k + n \<le> 56" for k n using that by (rule range_of_sub)
  have f: "frame (range_of p 56) m (store_u8 m p 0)" for m using r [of 0 1] by (intro frame_store_u8) simp
  have f1: "frame (range_of p 56) m (store_u64 m (p + 8) 0)" for m using r [of 8 8] by (intro frame_store_u64) simp
  have f2: "frame (range_of p 56) m (store_u8 m (p + 16) 0)" for m using r [of 16 1] by (intro frame_store_u8) simp
  have f3: "frame (range_of p 56) m (store_u32 m (p + 24) 0)" for m using r [of 24 4] by (intro frame_store_u32) simp
  have f4: "frame (range_of p 56) m (store_u64 m (p + 32) 0)" for m using r [of 32 8] by (intro frame_store_u64) simp
  have f5: "frame (range_of p 56) m (store_u8 m (p + 40) 0)" for m using r [of 40 1] by (intro frame_store_u8) simp
  have f6: "frame (range_of p 56) m (store_u64 m (p + 48) 0)" for m using r [of 48 8] by (intro frame_store_u64) simp
  show ?thesis unfolding LogResponse_default_stores
    by (rule frame_trans [rotated], rule f6, rule frame_trans [rotated], rule f5, rule frame_trans [rotated], rule f4,
        rule frame_trans [rotated], rule f3, rule frame_trans [rotated], rule f2, rule frame_trans [rotated], rule f1, rule f)
qed


text \<open>
  Whatever the response of the server is, decoding it returns, reads only the data, and changes only
  the structure, the heap and the local variables of the decoder.
\<close>

lemma GDTCCTDecodeLogResponse_safe:
  assumes env: "de_fields env = cct_tables lk" "cct_link_ok lk" "allocator_ok env H" "range_of response 56 \<inter> H = {}"
    and n: "7 \<le> n" and len: "length data < 2 ^ 64"
  shows "\<exists>r d'. GDTCCTDecodeLogResponse n env lk response data d = Some (r, d')
    \<and> frame (range_of response 56 \<union> H \<union> local_vars env) (ds_mem d) (ds_mem d')"
proof -
  let ?A = "range_of response 56 \<union> H \<union> local_vars env" and ?flds = "gdt_cct_LogResponse_fields lk"
  let ?d = "upd_mem (store_LogResponse_default response) d" and ?s = "pb_istream_from_buffer data (of_nat (length data))"
  have init: "frame ?A (ds_mem d) (ds_mem (upd_mem (store_LogResponse_default response) d))" for d :: "'a dst"
    using frame_mono [OF LogResponse_default_frame [of response "ds_mem d"], of ?A] by (auto simp: upd_mem_def)
  have u: "unat (of_nat (length data) :: size_t) = length data" using len by (simp add: unat_of_nat_64)
  from cct.decode_buffer_safe [OF env(1,3) cct_decoded_mem(7) [OF env(2)], of response n "of_nat (length data)" data ?d]
  obtain ok s d1 where d1: "pb_decode n env ?flds response (?s, ?d) = Some (ok, s, d1)" "frame ?A (ds_mem ?d) (ds_mem d1)"
    using env(4) n u by (auto simp: cct.apart_def cct.region_def cct_sizes cct_rank_eqs cct_pointers_eqs)
  from init d1(2) have 1: "frame ?A (ds_mem d) (ds_mem d1)" by (rule frame_trans)
  then have 2: "frame ?A (ds_mem d) (ds_mem (upd_mem (store_LogResponse_default response) d1))" using init by (rule frame_trans)
  show ?thesis using d1(1) 1 2 by (cases ok) (auto simp: GDTCCTDecodeLogResponse_def Let_def)
qed


section \<open>The time until the next upload\<close>

text \<open>
  The part of \<open>handleURLResponse\<close> that uses the response: the number of milliseconds given to the clock. The
  structure is released after use, whether or not it could be decoded.
\<close>

definition uploadWaitMillis ::
  "nat \<Rightarrow> (ibuf, 'h) dec_env \<Rightarrow> cct_link \<Rightarrow> addr \<Rightarrow> byte list option \<Rightarrow> 'h dst \<Rightarrow> (u64 \<times> 'h dst) option" where
  "uploadWaitMillis n env lk logResponse data d =
     (case data of
        None \<Rightarrow> Some (15 * 60 * 1000, d)
      | Some bytes \<Rightarrow>
          (case GDTCCTDecodeLogResponse n env lk logResponse bytes d of
             None \<Rightarrow> None
           | Some (decodingError, d) \<Rightarrow>
               let m = ds_mem d;
                   wait = (if decodingError = None \<and>
                              load_u8 m (logResponse + of_nat (offsetof gdt_cct_LogResponse ''has_next_request_wait_millis'')) \<noteq> 0
                           then load_u64 m (logResponse + of_nat (offsetof gdt_cct_LogResponse ''next_request_wait_millis''))
                           else 15 * 60 * 1000)
               in map_option (Pair wait) (pb_release n env (gdt_cct_LogResponse_fields lk) logResponse d)))"

lemma uploadWaitMillis_safe:
  assumes env: "de_fields env = cct_tables lk" "cct_link_ok lk" "allocator_ok env H" "range_of response 56 \<inter> H = {}"
    and n: "7 \<le> n" and len: "case data of None \<Rightarrow> True | Some bytes \<Rightarrow> length bytes < 2 ^ 64"
  shows "\<exists>w d'. uploadWaitMillis n env lk response data d = Some (w, d')
    \<and> frame (range_of response 56 \<union> H \<union> local_vars env) (ds_mem d) (ds_mem d')"
proof (cases data)
  case None
  then show ?thesis by (simp add: uploadWaitMillis_def)
next
  case (Some bs)
  let ?A = "range_of response 56 \<union> H \<union> local_vars env" and ?flds = "gdt_cct_LogResponse_fields lk"
  have "length bs < 2 ^ 64" using len Some by simp
  from GDTCCTDecodeLogResponse_safe [OF env n this] obtain r d1 where
    d1: "GDTCCTDecodeLogResponse n env lk response bs d = Some (r, d1)" "frame ?A (ds_mem d) (ds_mem d1)" by blast
  from cct.release_frame(2) [OF env(1,3) cct_decoded_mem(7) [OF env(2)], of n response d1] n
  obtain d2 where d2: "pb_release n env ?flds response d1 = Some d2" "frame ?A (ds_mem d1) (ds_mem d2)"
    using frame_mono [of "range_of response 56 \<union> H" "ds_mem d1" _ ?A]
    by (auto simp: cct.release_region_def cct_sizes cct_rank_eqs cct_pointers_eqs dframe_def)
  from d1(2) d2(2) have "frame ?A (ds_mem d) (ds_mem d2)" by (rule frame_trans)
  then show ?thesis using Some d1(1) d2(1) by (simp add: uploadWaitMillis_def Let_def)
qed

section \<open>A sample allocator\<close>

text \<open>
  For evaluating the model: a heap of 64 KB from address 65536 on, from which blocks are taken one after
  the other; a block that is reallocated is copied, and nothing is reused.
\<close>

definition sample_heap :: "addr set" where
  "sample_heap = range_of 65536 65536"

definition sample_realloc :: "nat dst \<Rightarrow> addr \<Rightarrow> size_t \<Rightarrow> addr \<times> nat dst" where
  "sample_realloc d p n =
     (if ds_heap d + unat n \<le> 65536 then
        let q = 65536 + of_nat (ds_heap d)
        in (q, d\<lparr>ds_mem := mem_copy (ds_mem d) q p (unat n), ds_heap := ds_heap d + unat n\<rparr>)
      else (0, d))"

definition sample_dec_env :: "('s, nat) dec_env" where
  "sample_dec_env = \<lparr>de_fields = cct_tables sample_link, de_realloc = sample_realloc, de_free = (\<lambda>d p. d),
     de_callback = (\<lambda>p f arg sd. (False, sd)), de_callback_buf = (\<lambda>p f arg sd. (False, sd)),
     de_ext_decode = (\<lambda>p x tag wt sd. (False, sd)), de_local = (\<lambda>n. 200000 + 4 * of_nat (n mod 64))\<rparr>"

lemma sample_allocator_ok: "allocator_ok sample_dec_env sample_heap"
proof -
  have "range_of (65536 + of_nat h) k \<subseteq> sample_heap" if "h + k \<le> 65536" for h k
    unfolding sample_heap_def using that by (rule range_of_sub)
  then show ?thesis
    by (auto simp: allocator_ok_def sample_dec_env_def sample_realloc_def Let_def intro!: frame_mem_copy)
qed

lemma sample_response_apart: "range_of 16 56 \<inter> sample_heap = {}"
proof -
  have "range_of (0 + of_nat 16) 56 \<inter> range_of (0 + of_nat 65536) 65536 = ({} :: addr set)"
    by (rule range_of_disjoint) simp_all
  then show ?thesis by (simp add: sample_heap_def)
qed

section \<open>Flat messages\<close>

text \<open>The messages that consist of optional numbers only, and a sample of one.\<close>

lemma NetworkConnectionInfo_flat: "flat_table (gdt_cct_NetworkConnectionInfo_fields lk)"
  unfolding cct_table_eqs by code_simp

lemma QosTierConfiguration_flat: "flat_table (gdt_cct_QosTierConfiguration_fields lk)"
  unfolding cct_table_eqs by code_simp


definition sample_info :: mem where
  "sample_info = sample_mem(300 := 1, 304 := 5)"

lemma sample_info_bytes:
  "e_message 1 (pure_env sample_info (cct_tables sample_link) :: obuf enc_env) no_callback no_extension
     (gdt_cct_NetworkConnectionInfo_fields sample_link) 300 = Some (Bytes [8, 5])"
  by code_simp

lemma sample_locals_apart:
  assumes "range_of p k \<subseteq> range_of 400 64"
  shows "range_of (de_local (sample_dec_env :: ('s, nat) dec_env) j) 4 \<inter> range_of p k = {}"
proof -
  have "j mod 64 < 64" by simp
  then have "4 * (j mod 64) + 4 \<le> 256" by linarith
  from range_of_sub [OF this, of 200000] have
    "range_of (de_local (sample_dec_env :: ('s, nat) dec_env) j) 4 \<subseteq> range_of 200000 256"
    by (simp add: sample_dec_env_def)
  moreover have "range_of (0 + of_nat 200000) 256 \<inter> range_of (0 + of_nat 400) 64 = ({} :: addr set)"
    by (rule range_of_disjoint) simp_all
  ultimately show ?thesis using assms by auto
qed

lemma sample_info_locals:
  assumes "i < nfields (gdt_cct_NetworkConnectionInfo_fields sample_link)"
  shows "range_of (de_local (sample_dec_env :: ('s, nat) dec_env) j) 4 \<inter> field_mem (gdt_cct_NetworkConnectionInfo_fields sample_link) 400 i = {}"
proof -
  let ?flds = "gdt_cct_NetworkConnectionInfo_fields sample_link"
  have "i = 0 \<or> i = 1" using assms by (auto simp: cct_nfields)
  moreover have "map (\<lambda>i. unat (field_soff ?flds i)) [0, 1] = [0, 8]" "map (\<lambda>i. unat (field_off ?flds i)) [0, 1] = [4, 12]"
    "map (\<lambda>i. unat (pf_data_size (field_at ?flds i))) [0, 1] = [4, 4]" by code_simp+
  ultimately have "unat (field_soff ?flds i) + 1 \<le> 64" "unat (field_off ?flds i) + unat (pf_data_size (field_at ?flds i)) \<le> 64" by auto
  then have "range_of (flag_at ?flds 400 i) 1 \<subseteq> range_of 400 64"
    "range_of (data_at ?flds 400 i) (unat (pf_data_size (field_at ?flds i))) \<subseteq> range_of 400 64"
    unfolding flat_addresses(1,2) [OF NetworkConnectionInfo_flat assms] by (auto intro!: range_of_sub simp del: of_nat_unat)
  then show ?thesis by (simp add: field_mem_def Int_Un_distrib sample_locals_apart del: One_nat_def)
qed

end
