(* ===== verification/Fbase64.thy ===== *)
theory Fbase64
  imports Nanopb_Prelude
begin

text \<open>
  Base64 for the websocket handshake: \<^verbatim>\<open>f_b64_ntop\<close> and \<^verbatim>\<open>f_b64_pton\<close> of
  \<^verbatim>\<open>SocketRocket/fbase64.c\<close>, and their two callers. The reference definitions \<open>b64_enc\<close> and
  \<open>b64_dec\<close> are the encoding of RFC 1521 on lists of bytes; the C routines are proved to
  implement them, to accept exactly the encodings of RFC 1521 (up to white space), and to stay
  inside the buffers they are given.
\<close>

section \<open>The alphabet\<close>

definition Base64 :: "byte list" where
  "Base64 = map of_char ''ABCDEFGHIJKLMNOPQRSTUVWXYZabcdefghijklmnopqrstuvwxyz0123456789+/''"

definition Pad64 :: byte where
  "Pad64 = 61"

text \<open>\<^verbatim>\<open>isspace\<close> in the C locale, and \<^verbatim>\<open>strchr(Base64, ch) - Base64\<close> for a character other than the terminator.\<close>

definition isspace :: "byte \<Rightarrow> bool" where
  "isspace c \<longleftrightarrow> c = 32 \<or> 9 \<le> c \<and> c \<le> 13"

fun strchr_pos :: "byte list \<Rightarrow> byte \<Rightarrow> byte option" where
  "strchr_pos [] c = None"
| "strchr_pos (x # xs) c = (if x = c then Some 0 else map_option (\<lambda>n. n + 1) (strchr_pos xs c))"

section \<open>Encoding\<close>

text \<open>
  The encoder's state: the source from the pointer on, the target array, the number of characters
  stored, and a flag that records an access outside an array.
\<close>

record ntop_state =
  nt_src :: "byte list"
  nt_target :: "byte list"
  nt_datalength :: size_t
  nt_oob :: bool

definition nt_next :: "ntop_state \<Rightarrow> byte \<times> ntop_state" where
  "nt_next st = (case nt_src st of [] \<Rightarrow> (0, st\<lparr>nt_oob := True\<rparr>) | b # bs \<Rightarrow> (b, st\<lparr>nt_src := bs\<rparr>))"

definition nt_set :: "byte \<Rightarrow> ntop_state \<Rightarrow> ntop_state" where
  "nt_set c st = (if unat (nt_datalength st) < length (nt_target st)
     then st\<lparr>nt_target := (nt_target st)[unat (nt_datalength st) := c]\<rparr> else st\<lparr>nt_oob := True\<rparr>)"

definition nt_put :: "byte \<Rightarrow> ntop_state \<Rightarrow> ntop_state" where
  "nt_put c st = (nt_set c st)\<lparr>nt_datalength := nt_datalength st + 1\<rparr>"

text \<open>The four sextets of a group of three bytes; \<open>Base64[output[i]]\<close> is a table access.\<close>

definition ntop_output :: "byte \<Rightarrow> byte \<Rightarrow> byte \<Rightarrow> byte list" where
  "ntop_output a b c =
     [drop_bit 2 a,
      push_bit 4 (a AND 3) + drop_bit 4 b,
      push_bit 2 (b AND 15) + drop_bit 6 c,
      c AND 63]"

definition base64_char :: "byte \<Rightarrow> byte" where
  "base64_char v = Base64 ! unat v"

lemma unat_sub3: "2 < n \<Longrightarrow> unat (n - 3 :: size_t) = unat n - 3"
  by (simp add: unat_sub word_less_nat_alt word_le_nat_alt)

lemma sub3_less: "2 < n \<Longrightarrow> unat (n - 3 :: size_t) < unat n"
  by (simp add: unat_sub3) (simp add: word_less_nat_alt)

function ntop_loop :: "size_t \<Rightarrow> size_t \<Rightarrow> ntop_state \<Rightarrow> bool \<times> size_t \<times> ntop_state" where
  "ntop_loop targsize srclength st =
     (if 2 < srclength then
        let (a, st) = nt_next st; (b, st) = nt_next st; (c, st) = nt_next st;
            srclength' = srclength - 3;
            out = ntop_output a b c
        in if targsize < nt_datalength st + 4 then (False, srclength', st)
           else ntop_loop targsize srclength' (fold (\<lambda>v. nt_put (base64_char v)) out st)
      else (True, srclength, st))"
  by pat_completeness auto
termination by (relation "measure (\<lambda>(t, n, st). unat n)") (simp_all add: sub3_less)

declare ntop_loop.simps [simp del]

text \<open>\<^verbatim>\<open>for (i = 0; i < srclength; i++) input[i] = *src++;\<close> for the one or two bytes that are left.\<close>

definition ntop_rest :: "size_t \<Rightarrow> ntop_state \<Rightarrow> byte \<times> byte \<times> ntop_state" where
  "ntop_rest srclength st =
     (let (a, st) = nt_next st;
          (b, st) = (if 1 < srclength then nt_next st else (0, st))
      in (a, b, st))"

text \<open>The branch for the rest, \<^verbatim>\<open>if (0 != srclength)\<close>; the flag is \<open>False\<close> for \<^verbatim>\<open>return (-1)\<close>.\<close>

definition ntop_pad :: "size_t \<Rightarrow> size_t \<Rightarrow> ntop_state \<Rightarrow> bool \<times> ntop_state" where
  "ntop_pad targsize srclength st =
     (if srclength \<noteq> 0 then
        let (a, b, st) = ntop_rest srclength st; out = ntop_output a b 0
        in if targsize < nt_datalength st + 4 then (False, st)
           else let st = nt_put (base64_char (out ! 0)) st;
                    st = nt_put (base64_char (out ! 1)) st;
                    st = nt_put (if srclength = 1 then Pad64 else base64_char (out ! 2)) st
                in (True, nt_put Pad64 st)
      else (True, st))"

definition f_b64_ntop :: "byte list \<Rightarrow> size_t \<Rightarrow> byte list \<Rightarrow> size_t \<Rightarrow> int \<times> ntop_state" where
  "f_b64_ntop src srclength target targsize =
     (let (ok, srclength, st) = ntop_loop targsize srclength
            \<lparr>nt_src = src, nt_target = target, nt_datalength = 0, nt_oob = False\<rparr>
      in if \<not> ok then (-1, st)
      else let (ok, st) = ntop_pad targsize srclength st
      in if \<not> ok then (-1, st)
      else if targsize \<le> nt_datalength st then (-1, st)
      else (sint (ucast (nt_datalength st) :: u32), nt_set 0 st))"

section \<open>Decoding\<close>

record pton_state =
  pt_target :: "byte list option"
  pt_tarindex :: u32
  pt_state :: nat
  pt_oob :: bool

text \<open>Stores to \<open>target[i]\<close>, plain and with \<open>|=\<close>; they are only done when \<open>target\<close> is not null.\<close>

definition pt_upd :: "u32 \<Rightarrow> (byte \<Rightarrow> byte) \<Rightarrow> pton_state \<Rightarrow> pton_state" where
  "pt_upd i f st = (case pt_target st of None \<Rightarrow> st
     | Some t \<Rightarrow> if unat i < length t then st\<lparr>pt_target := Some (t[unat i := f (t ! unat i)])\<rparr>
                 else st\<lparr>pt_oob := True\<rparr>)"

definition pt_full :: "size_t \<Rightarrow> u32 \<Rightarrow> pton_state \<Rightarrow> bool" where
  "pt_full targsize i st \<longleftrightarrow> pt_target st \<noteq> None \<and> targsize \<le> ucast i"

text \<open>The \<open>switch (state)\<close> for a character of value \<open>v\<close>: \<open>None\<close> is \<^verbatim>\<open>return (-1)\<close>.\<close>

definition pton_switch :: "size_t \<Rightarrow> byte \<Rightarrow> pton_state \<Rightarrow> pton_state option" where
  "pton_switch targsize v st =
     (let i = pt_tarindex st in
      if pt_state st = 0 then
        if pt_full targsize i st then None
        else Some ((pt_upd i (\<lambda>_. push_bit 2 v) st)\<lparr>pt_state := 1\<rparr>)
      else if pt_state st = 1 then
        if pt_full targsize (i + 1) st then None
        else Some ((pt_upd (i + 1) (\<lambda>_. push_bit 4 (v AND 15)) (pt_upd i (\<lambda>x. x OR drop_bit 4 v) st))
               \<lparr>pt_tarindex := i + 1, pt_state := 2\<rparr>)
      else if pt_state st = 2 then
        if pt_full targsize (i + 1) st then None
        else Some ((pt_upd (i + 1) (\<lambda>_. push_bit 6 (v AND 3)) (pt_upd i (\<lambda>x. x OR drop_bit 2 v) st))
               \<lparr>pt_tarindex := i + 1, pt_state := 3\<rparr>)
      else if pt_state st = 3 then
        if pt_full targsize i st then None
        else Some ((pt_upd i (\<lambda>x. x OR v) st)\<lparr>pt_tarindex := i + 1, pt_state := 0\<rparr>)
      else Some st)"

text \<open>
  The loop either returns \<open>-1\<close> or is left with the character it has seen last (the terminator or a
  padding character) and the source after it. The source is the array from the pointer on; reading
  behind its end sets the flag.
\<close>

datatype pton_exit = PReturn pton_state | PLeft byte "byte list" pton_state

fun pton_loop :: "size_t \<Rightarrow> byte list \<Rightarrow> pton_state \<Rightarrow> pton_exit" where
  "pton_loop targsize [] st = PLeft 0 [] (st\<lparr>pt_oob := True\<rparr>)"
| "pton_loop targsize (ch # src) st =
     (if ch = 0 then PLeft ch src st
      else if isspace ch then pton_loop targsize src st
      else if ch = Pad64 then PLeft ch src st
      else case strchr_pos Base64 ch of
        None \<Rightarrow> PReturn st
      | Some v \<Rightarrow> (case pton_switch targsize v st of None \<Rightarrow> PReturn st | Some st' \<Rightarrow> pton_loop targsize src st'))"

text \<open>\<^verbatim>\<open>ch = *src++\<close>, and the loop \<^verbatim>\<open>for (; ch != '\0'; ch = *src++) if (!isspace(ch)) break;\<close>.\<close>

definition pton_next :: "byte list \<Rightarrow> pton_state \<Rightarrow> byte \<times> byte list \<times> pton_state" where
  "pton_next src st = (case src of [] \<Rightarrow> (0, [], st\<lparr>pt_oob := True\<rparr>) | c # cs \<Rightarrow> (c, cs, st))"

fun skip_spaces :: "byte \<Rightarrow> byte list \<Rightarrow> pton_state \<Rightarrow> byte \<times> byte list \<times> pton_state" where
  "skip_spaces ch src st =
     (if ch = 0 \<or> \<not> isspace ch then (ch, src, st)
      else case src of [] \<Rightarrow> (0, [], st\<lparr>pt_oob := True\<rparr>) | c # cs \<Rightarrow> skip_spaces c cs st)"

declare skip_spaces.simps [simp del]

definition pton_trailer :: "byte \<Rightarrow> byte list \<Rightarrow> pton_state \<Rightarrow> int \<times> pton_state" where
  "pton_trailer ch src st =
     (let (ch, src, st) = skip_spaces ch src st
      in if ch \<noteq> 0 then (-1, st)
      else case pt_target st of
        None \<Rightarrow> (sint (pt_tarindex st), st)
      | Some t \<Rightarrow>
          if unat (pt_tarindex st) < length t then
            (if t ! unat (pt_tarindex st) \<noteq> 0 then (-1, st) else (sint (pt_tarindex st), st))
          else (-1, st\<lparr>pt_oob := True\<rparr>))"

text \<open>What follows the loop.\<close>

definition pton_finish :: "pton_exit \<Rightarrow> int \<times> pton_state" where
  "pton_finish exit =
     (case exit of
        PReturn st \<Rightarrow> (-1, st)
      | PLeft ch src st \<Rightarrow>
          if ch = Pad64 then
            let (ch, src, st) = pton_next src st in
            if pt_state st = 0 \<or> pt_state st = 1 then (-1, st)
            else if pt_state st = 2 then
              let (ch, src, st) = skip_spaces ch src st in
              if ch \<noteq> Pad64 then (-1, st)
              else let (ch, src, st) = pton_next src st in pton_trailer ch src st
            else if pt_state st = 3 then pton_trailer ch src st
            else (sint (pt_tarindex st), st)
          else if pt_state st \<noteq> 0 then (-1, st)
          else (sint (pt_tarindex st), st))"

definition f_b64_pton :: "byte list \<Rightarrow> byte list option \<Rightarrow> size_t \<Rightarrow> int \<times> pton_state" where
  "f_b64_pton src target targsize =
     pton_finish (pton_loop targsize src \<lparr>pt_target = target, pt_tarindex = 0, pt_state = 0, pt_oob = False\<rparr>)"

section \<open>The callers\<close>

text \<open>
  \<^verbatim>\<open>+[FSRUtilities base64EncodedStringFromData:]\<close> and \<^verbatim>\<open>newSHA1String\<close> compute the size of the buffer in the
  same way; a result of \<open>-1\<close> becomes \<open>nil\<close>. The blocks that \<^verbatim>\<open>malloc\<close> returns, with whatever they
  contain, and the digest function \<^verbatim>\<open>CC_SHA1\<close> of the platform are parameters.
\<close>

definition b64_string :: "(nat \<Rightarrow> byte list) \<Rightarrow> byte list \<Rightarrow> size_t \<Rightarrow> byte list option" where
  "b64_string malloc bs n =
     (let buffer_size = (n * 3 + 2) div 2;
          (len, st) = f_b64_ntop bs n (malloc (unat buffer_size)) buffer_size
      in if len = -1 then None else Some (take (nat len) (nt_target st)))"

definition base64EncodedStringFromData :: "(nat \<Rightarrow> byte list) \<Rightarrow> byte list \<Rightarrow> byte list option" where
  "base64EncodedStringFromData malloc bs = b64_string malloc bs (of_nat (length bs))"

definition newSHA1String :: "(byte list \<Rightarrow> byte list) \<Rightarrow> (nat \<Rightarrow> byte list) \<Rightarrow> byte list \<Rightarrow> size_t \<Rightarrow> byte list option" where
  "newSHA1String CC_SHA1 malloc bytes n =
     b64_string malloc (CC_SHA1 (take (unat (ucast n :: u32)) bytes)) 20"

section \<open>The encoding of RFC 1521\<close>

fun b64_enc :: "byte list \<Rightarrow> byte list" where
  "b64_enc [] = []"
| "b64_enc [a] = map base64_char (take 2 (ntop_output a 0 0)) @ [Pad64, Pad64]"
| "b64_enc [a, b] = map base64_char (take 3 (ntop_output a b 0)) @ [Pad64]"
| "b64_enc (a # b # c # bs) = map base64_char (ntop_output a b c) @ b64_enc bs"

lemma length_ntop_output [simp]: "length (ntop_output a b c) = 4"
  by (simp add: ntop_output_def)

lemma div3 [simp]: "(3 + n) div 3 = Suc (n div 3)" "Suc (Suc (Suc n)) div 3 = Suc (n div 3)" for n :: nat
  by presburger+

lemma length_b64_enc: "length (b64_enc bs) = 4 * ((length bs + 2) div 3)"
proof (induction bs rule: b64_enc.induct)
  case (4 a b c bs)
  have "(length (a # b # c # bs) + 2) div 3 = Suc ((length bs + 2) div 3)" by simp
  with 4 show ?case by simp
qed simp_all

text \<open>Storing characters one after the other.\<close>

definition nt_at :: "byte list \<Rightarrow> byte list \<Rightarrow> byte list \<Rightarrow> ntop_state" where
  "nt_at src out target = \<lparr>nt_src = src, nt_target = out @ drop (length out) target,
     nt_datalength = of_nat (length out), nt_oob = False\<rparr>"

lemma nt_set_at:
  assumes "length out < length target" "length target < 2 ^ 63"
  shows "nt_set c (nt_at src out target) = nt_at src out target\<lparr>nt_target := out @ c # drop (Suc (length out)) target\<rparr>"
proof -
  have "unat (of_nat (length out) :: size_t) = length out" using assms by (simp add: unat_of_nat_64)
  moreover have "(out @ drop (length out) target)[length out := c] = out @ c # drop (Suc (length out)) target"
    using assms(1) by (simp add: list_update_append Cons_nth_drop_Suc [symmetric])
  ultimately show ?thesis using assms by (simp add: nt_set_def nt_at_def)
qed

lemma nt_put_at:
  assumes "length out < length target" "length target < 2 ^ 63"
  shows "nt_put c (nt_at src out target) = nt_at src (out @ [c]) target"
  using nt_set_at [OF assms] by (simp add: nt_put_def) (simp add: nt_at_def)

lemma fold_nt_put:
  assumes "length out + length vs \<le> length target" "length target < 2 ^ 63"
  shows "fold (\<lambda>v. nt_put (base64_char v)) vs (nt_at src out target) = nt_at src (out @ map base64_char vs) target"
  using assms by (induction vs arbitrary: out) (simp_all add: nt_put_at)

lemma nt_next_at [simp]: "nt_next (nt_at (b # bs) out target) = (b, nt_at bs out target)"
  by (simp add: nt_next_def nt_at_def)

lemma nt_at_simps [simp]:
  "nt_datalength (nt_at src out target) = of_nat (length out)" "nt_oob (nt_at src out target) = False"
  "nt_src (nt_at src out target) = src"
  by (simp_all add: nt_at_def)

lemma ucast_of_nat_32: "(ucast (of_nat n :: size_t) :: u32) = of_nat n"
  by transfer (simp add: take_bit_take_bit)

lemma fits_iff:
  assumes "unat n < 2 ^ 63" "k < 2 ^ 63"
  shows "(n :: size_t) < of_nat k + 4 \<longleftrightarrow> unat n < k + 4" "n \<le> of_nat k \<longleftrightarrow> unat n \<le> k"
  using assms unat_of_nat_64 [of "k + 4"] unat_of_nat_64 [of k] by (simp_all add: word_less_nat_alt word_le_nat_alt algebra_simps)


lemma ntop_loop_step:
  assumes "2 < n"
  shows "ntop_loop targsize n (nt_at (a # b # c # bs) out target) =
    (if targsize < of_nat (length out) + 4 then (False, n - 3, nt_at bs out target)
     else ntop_loop targsize (n - 3) (fold (\<lambda>v. nt_put (base64_char v)) (ntop_output a b c) (nt_at bs out target)))"
  using assms by (subst ntop_loop.simps) simp

lemma ntop_loop_end: "\<not> 2 < n \<Longrightarrow> ntop_loop targsize n st = (True, n, st)"
  by (subst ntop_loop.simps) simp

definition whole :: "byte list \<Rightarrow> nat" where
  "whole bs = 3 * (length bs div 3)"

lemma whole_simps [simp]:
  "whole [] = 0" "whole [a] = 0" "whole [a, b] = 0" "whole (a # b # c # bs) = Suc (Suc (Suc (whole bs)))"
  by (simp_all add: whole_def)

text \<open>The loop encodes the groups of three bytes and leaves the rest; if it has no room it stops, inside the target.\<close>

lemma ntop_loop_enc:
  assumes "unat targsize \<le> length target" "length target < 2 ^ 63" "length src < 2 ^ 63" "length out \<le> unat targsize"
  shows "\<exists>n st. ntop_loop targsize (of_nat (length src)) (nt_at src out target) = (length out + length (b64_enc (take (whole src) src)) \<le> unat targsize, n, st)
    \<and> \<not> nt_oob st
    \<and> (length out + length (b64_enc (take (whole src) src)) \<le> unat targsize \<longrightarrow>
        n = of_nat (length src mod 3) \<and> st = nt_at (drop (whole src) src) (out @ b64_enc (take (whole src) src)) target)"
  using assms(3,4)
proof (induction src arbitrary: out rule: b64_enc.induct)
  case (4 a b c bs)
  let ?n = "of_nat (length (a # b # c # bs)) :: size_t"
  have n: "2 < ?n" "?n - 3 = of_nat (length bs)"
    using 4(2) unat_of_nat_64 [of "length (a # b # c # bs)"] by (simp_all add: word_less_nat_alt)
  have lt: "unat targsize < 2 ^ 63" "length out < 2 ^ 63" using assms 4(3) by simp_all
  show ?case
  proof (cases "unat targsize < length out + 4")
    case True
    then show ?thesis using n fits_iff(1) [OF lt] by (simp add: ntop_loop_step)
  next
    case False
    have "length (out @ map base64_char (ntop_output a b c)) \<le> unat targsize" using False by simp
    moreover have "length out + length (ntop_output a b c) \<le> length target" using False assms(1) by simp
    note put = fold_nt_put [OF this assms(2)]
    ultimately show ?thesis
      using 4(1) [of "out @ map base64_char (ntop_output a b c)"] 4(2) n False fits_iff(1) [OF lt]
      by (simp add: ntop_loop_step put add.assoc)
  qed
qed (simp_all add: ntop_loop_end)


lemma b64_enc_split: "b64_enc src = b64_enc (take (whole src) src) @ b64_enc (drop (whole src) src)"
  by (induction src rule: b64_enc.induct) simp_all

lemma drop_whole_cases:
  obtains (none) "drop (whole src) src = []" "length src mod 3 = 0"
  | (one) a where "drop (whole src) src = [a]" "length src mod 3 = 1"
  | (two) a b where "drop (whole src) src = [a, b]" "length src mod 3 = 2"
  by (induction src rule: b64_enc.induct) auto

lemma ntop_pad_enc:
  assumes "length r < 3" "length out \<le> unat targsize" "unat targsize \<le> length target" "length target < 2 ^ 63"
  shows "ntop_pad targsize (of_nat (length r)) (nt_at r out target) =
    (if length out + length (b64_enc r) \<le> unat targsize then (True, nt_at [] (out @ b64_enc r) target)
     else (False, nt_at [] out target))"
proof -
  have "length out < 2 ^ 63" "unat targsize < 2 ^ 63" using assms(2-4) by simp_all
  note fit = fits_iff(1) [OF this(2,1)]
  from assms(1) consider "r = []" | a where "r = [a]" | a b where "r = [a, b]"
    by (cases r rule: b64_enc.cases) auto
  then show ?thesis
    by cases (use fit assms(2-4) in \<open>simp_all add: ntop_pad_def ntop_rest_def ntop_output_def nt_put_at\<close>)
qed

text \<open>
  The encoder stores the encoding and a terminator exactly if both fit, and returns the length of the
  encoding as an \<^verbatim>\<open>int\<close>; otherwise it returns \<open>-1\<close>. It never leaves the target.
\<close>

theorem f_b64_ntop_enc:
  assumes "unat targsize \<le> length target" "length target < 2 ^ 63" "length src < 2 ^ 63"
  shows "\<exists>st. f_b64_ntop src (of_nat (length src)) target targsize =
      (if length (b64_enc src) < unat targsize then sint (of_nat (length (b64_enc src)) :: u32) else -1, st)
    \<and> \<not> nt_oob st
    \<and> (length (b64_enc src) < unat targsize \<longrightarrow>
        nt_target st = b64_enc src @ 0 # drop (Suc (length (b64_enc src))) target)"
proof -
  let ?e = "b64_enc (take (whole src) src)" and ?r = "drop (whole src) src"
  have start: "\<lparr>nt_src = src, nt_target = target, nt_datalength = 0, nt_oob = False\<rparr> = nt_at src [] target" by (simp add: nt_at_def)
  from ntop_loop_enc [OF assms, of "[]"] obtain n st where
    loop: "ntop_loop targsize (of_nat (length src)) (nt_at src [] target) = (length ?e \<le> unat targsize, n, st)" "\<not> nt_oob st"
    and fit: "length ?e \<le> unat targsize \<Longrightarrow> n = of_nat (length src mod 3) \<and> st = nt_at ?r ?e target" by auto
  have r: "length ?r = length src mod 3" by (cases src rule: drop_whole_cases) auto
  note src = b64_enc_split [of src]
  have pad: "ntop_pad targsize (of_nat (length src mod 3)) (nt_at ?r ?e target) =
      (if length (b64_enc src) \<le> unat targsize then (True, nt_at [] (b64_enc src) target) else (False, nt_at [] ?e target))"
    if "length ?e \<le> unat targsize"
    using ntop_pad_enc [of ?r ?e targsize target] that assms src unfolding r by simp
  consider (long) "unat targsize < length ?e" | (short) "length ?e \<le> unat targsize" "unat targsize < length (b64_enc src)"
    | (all) "length (b64_enc src) \<le> unat targsize" "length ?e \<le> unat targsize" using src by fastforce
  then show ?thesis
  proof cases
    case long
    then show ?thesis using loop src by (simp add: f_b64_ntop_def start)
  next
    case short
    then show ?thesis using fit
      by (simp add: f_b64_ntop_def start loop(1) pad)
  next
    case all
    have "length (b64_enc src) < 2 ^ 63" "unat targsize < 2 ^ 63" using all assms by simp_all
    from fits_iff(2) [OF this(2,1)] have "targsize \<le> of_nat (length (b64_enc src)) \<longleftrightarrow> unat targsize \<le> length (b64_enc src)" .
    then show ?thesis using all assms fit nt_set_at [of "b64_enc src" target 0 "[]"]
      by (auto simp: f_b64_ntop_def start loop(1) pad ucast_of_nat_32)
  qed
qed


section \<open>Decoding of RFC 1521\<close>

abbreviation digit :: "byte \<Rightarrow> byte option" where
  "digit \<equiv> strchr_pos Base64"

text \<open>The characters of a C string without white space, and the reference decoder on them.\<close>

definition chars :: "byte list \<Rightarrow> byte list" where
  "chars src = filter (\<lambda>c. \<not> isspace c) (takeWhile (\<lambda>c. c \<noteq> 0) src)"

lemma chars_simps [simp]:
  "chars [] = []" "chars (0 # src) = []"
  "c \<noteq> 0 \<Longrightarrow> chars (c # src) = (if isspace c then chars src else c # chars src)"
  by (simp_all add: chars_def)

lemma chars_no: "c \<in> set (chars src) \<Longrightarrow> c \<noteq> 0 \<and> \<not> isspace c"
  by (auto simp: chars_def dest: set_takeWhileD)

fun b64_dec :: "byte list \<Rightarrow> byte list option" where
  "b64_dec [] = Some []"
| "b64_dec (a # b # c # d # s) =
     (case digit a of None \<Rightarrow> None | Some x \<Rightarrow>
      case digit b of None \<Rightarrow> None | Some y \<Rightarrow>
      if c = Pad64 then
        (if d = Pad64 \<and> s = [] \<and> push_bit 4 (y AND 15) = 0 then Some [push_bit 2 x OR drop_bit 4 y] else None)
      else case digit c of None \<Rightarrow> None | Some z \<Rightarrow>
      if d = Pad64 then
        (if s = [] \<and> push_bit 6 (z AND 3) = 0
         then Some [push_bit 2 x OR drop_bit 4 y, push_bit 4 (y AND 15) OR drop_bit 2 z] else None)
      else case digit d of None \<Rightarrow> None | Some w \<Rightarrow>
        map_option (\<lambda>bs. [push_bit 2 x OR drop_bit 4 y, push_bit 4 (y AND 15) OR drop_bit 2 z, push_bit 6 (z AND 3) OR w] @ bs) (b64_dec s))"
| "b64_dec _ = None"

text \<open>Positions in the alphabet.\<close>

lemma strchr_pos_Some:
  "\<lbrakk>strchr_pos xs c = Some v; length xs < 256\<rbrakk> \<Longrightarrow> unat v < length xs \<and> xs ! unat v = c"
proof (induction xs arbitrary: v)
  case (Cons x xs)
  show ?case
  proof (cases "x = c")
    case False
    with Cons.prems obtain w where w: "strchr_pos xs c = Some w" "v = w + 1" by auto
    with Cons.IH Cons.prems(2) have "unat w < length xs" "xs ! unat w = c" by simp_all
    moreover have "unat v = Suc (unat w)"
      using w(2) \<open>unat w < length xs\<close> Cons.prems(2) unat_add_no_overflow [of w 1] by simp
    ultimately show ?thesis by simp
  qed (use Cons.prems in auto)
qed simp

lemma strchr_pos_nth: "\<lbrakk>distinct xs; i < length xs\<rbrakk> \<Longrightarrow> strchr_pos xs (xs ! i) = Some (of_nat i)"
  by (induction xs arbitrary: i) (auto simp: nth_Cons add.commute split: nat.splits)

lemma Base64_facts: "distinct Base64" "length Base64 = 64" "list_all (\<lambda>c. c \<noteq> 0 \<and> \<not> isspace c \<and> c \<noteq> Pad64) Base64"
  by code_simp+

lemma base64_char_facts:
  assumes "unat v < 64"
  shows "digit (base64_char v) = Some v" "base64_char v \<noteq> 0" "\<not> isspace (base64_char v)" "base64_char v \<noteq> Pad64"
proof -
  have "base64_char v \<in> set Base64" using assms by (simp add: base64_char_def Base64_facts)
  then show "base64_char v \<noteq> 0" "\<not> isspace (base64_char v)" "base64_char v \<noteq> Pad64"
    using Base64_facts(3) by (auto simp: list_all_iff)
  show "digit (base64_char v) = Some v"
    using strchr_pos_nth [OF Base64_facts(1), of "unat v"] assms by (simp add: base64_char_def Base64_facts)
qed

lemma digit_Some: "digit c = Some v \<Longrightarrow> unat v < 64 \<and> base64_char v = c"
  using strchr_pos_Some [of Base64 c v] by (simp add: Base64_facts base64_char_def)

lemma Pad64_facts: "Pad64 \<noteq> 0" "\<not> isspace Pad64"
  by (simp_all add: Pad64_def isspace_def)

lemma digit_Pad [simp]: "digit Pad64 = None"
  using digit_Some [of Pad64] base64_char_facts(4) by (cases "digit Pad64") auto

text \<open>Sextets and bytes, bit by bit.\<close>

lemma byte_eqI:
  assumes "\<And>n. n \<in> {0, 1, 2, 3, 4, 5, 6, 7} \<Longrightarrow> bit (a :: byte) n = bit b n"
  shows "a = b"
proof (rule bit_word_eqI)
  fix n assume "n < LENGTH(8)"
  then have "n \<in> {0, 1, 2, 3, 4, 5, 6, 7}" by auto
  then show "bit a n = bit b n" by (rule assms)
qed

lemma no_high_bit [simp]: "8 \<le> n \<Longrightarrow> bit (a :: byte) n = False"
  by (simp add: bit_word.rep_eq impossible_bit)

lemma sextet_bits: "unat (v :: byte) < 64 \<longleftrightarrow> \<not> bit v 6 \<and> \<not> bit v 7"
proof -
  have "\<forall>n < 256. (n < 64) = (\<not> bit (of_nat n :: byte) 6 \<and> \<not> bit (of_nat n :: byte) 7)" by code_simp
  from this [rule_format, OF unat_byte_less [of v]] show ?thesis by simp
qed

lemma ntop_output_or:
  "ntop_output a b c = [drop_bit 2 a, push_bit 4 (a AND 3) OR drop_bit 4 b, push_bit 2 (b AND 15) OR drop_bit 6 c, c AND 63]"
proof -
  have "push_bit 4 (a AND 3) + drop_bit 4 b = push_bit 4 (a AND 3) OR drop_bit 4 b"
    by (rule disjunctive_add) (auto simp: bit_simps)
  moreover have "push_bit 2 (b AND 15) + drop_bit 6 c = push_bit 2 (b AND 15) OR drop_bit 6 c"
    by (rule disjunctive_add) (auto simp: bit_simps)
  ultimately show ?thesis by (simp add: ntop_output_def)
qed

lemma sextets:
  "list_all (\<lambda>v. unat v < 64) (ntop_output a b c)"
  by (auto simp: ntop_output_or sextet_bits bit_simps)

lemma bytes_of_sextets:
  assumes "ntop_output a b c = [x, y, z, w]"
  shows "push_bit 2 x OR drop_bit 4 y = a" "push_bit 4 (y AND 15) OR drop_bit 2 z = b" "push_bit 6 (z AND 3) OR w = c"
  by (use assms in \<open>auto simp: ntop_output_or bit_simps intro!: byte_eqI\<close>)

lemma sextets_of_bytes:
  assumes "unat x < 64" "unat y < 64" "unat z < 64" "unat w < 64"
  shows "ntop_output (push_bit 2 x OR drop_bit 4 y) (push_bit 4 (y AND 15) OR drop_bit 2 z) (push_bit 6 (z AND 3) OR w) = [x, y, z, w]"
  using assms by (auto simp: ntop_output_or sextet_bits bit_simps intro!: byte_eqI)


lemma sextets_pad:
  assumes "unat x < 64" "unat y < 64"
  shows "push_bit 4 (y AND 15) = 0 \<Longrightarrow> take 2 (ntop_output (push_bit 2 x OR drop_bit 4 y) 0 0) = [x, y]"
    "\<lbrakk>unat z < 64; push_bit 6 (z AND 3) = 0\<rbrakk> \<Longrightarrow>
      take 3 (ntop_output (push_bit 2 x OR drop_bit 4 y) (push_bit 4 (y AND 15) OR drop_bit 2 z) 0) = [x, y, z]"
  using sextets_of_bytes [OF assms, of 0 0] sextets_of_bytes [OF assms, of z 0] by (simp_all add: ntop_output_or)

lemma pad_bits:
  "push_bit 4 (drop_bit 2 a AND 15 :: byte) OR 0 = push_bit 4 (drop_bit 2 a AND 15)"
  "push_bit 4 ((push_bit 4 (a AND 3) :: byte) AND 15) = 0"
  "push_bit 6 ((push_bit 2 (b AND 15) :: byte) AND 3) = 0"
  by (auto simp: bit_simps intro!: byte_eqI)

text \<open>The reference decoder is the inverse of the encoding, in both directions.\<close>

lemma b64_dec_enc: "b64_dec (b64_enc bs) = Some bs"
proof (induction bs rule: b64_enc.induct)
  case (2 a)
  have "list_all (\<lambda>v. unat v < 64) (ntop_output a 0 0)" by (rule sextets)
  moreover have "push_bit 2 (drop_bit 2 a) OR drop_bit 4 (push_bit 4 (a AND 3)) = a" using bytes_of_sextets(1) [of a 0 0] by (simp add: ntop_output_or)
  ultimately show ?case using pad_bits(2) [of a] by (simp add: ntop_output_or base64_char_facts)
next
  case (3 a b)
  have "list_all (\<lambda>v. unat v < 64) (ntop_output a b 0)" by (rule sextets)
  then show ?case using bytes_of_sextets(1,2) [of a b 0] pad_bits(3) [of b] by (simp add: ntop_output_or base64_char_facts)
next
  case (4 a b c bs)
  have "list_all (\<lambda>v. unat v < 64) (ntop_output a b c)" by (rule sextets)
  then show ?case using bytes_of_sextets [of a b c] 4 by (simp add: ntop_output_or base64_char_facts)
qed simp

lemma b64_dec_Some: "b64_dec s = Some bs \<Longrightarrow> s = b64_enc bs"
proof (induction s arbitrary: bs rule: b64_dec.induct)
  case (2 a b c d s)
  from 2(2) obtain x y where xy: "digit a = Some x" "digit b = Some y" by (auto split: option.splits)
  note sx = digit_Some [OF xy(1)] digit_Some [OF xy(2)]
  consider (one) "c = Pad64" | (two) z where "digit c = Some z" "d = Pad64" "c \<noteq> Pad64"
    | (three) z w where "digit c = Some z" "digit d = Some w" "c \<noteq> Pad64" "d \<noteq> Pad64"
    using 2(2) xy by (auto split: option.splits if_splits)
  then show ?case
  proof cases
    case one
    then show ?thesis using 2(2) xy sx sextets_pad(1) [of x y] by (auto split: if_splits)
  next
    case (two z)
    then show ?thesis using 2(2) xy sx digit_Some [OF two(1)] sextets_pad(2) [of x y z] by (auto split: if_splits)
  next
    case (three z w)
    then obtain bs' where bs': "b64_dec s = Some bs'" "bs = [push_bit 2 x OR drop_bit 4 y, push_bit 4 (y AND 15) OR drop_bit 2 z, push_bit 6 (z AND 3) OR w] @ bs'"
      using 2(2) xy by auto
    from 2(1) [OF xy three(3,1,4,2) bs'(1)] have "s = b64_enc bs'" .
    with bs'(2) show ?thesis
      using sx digit_Some [OF three(1)] digit_Some [OF three(2)] sextets_of_bytes [of x y z w] by simp
  qed
qed simp_all

text \<open>The loop and what follows it depend on the characters only.\<close>

lemma skip_next:
  assumes "0 \<in> set src"
  shows "\<exists>rest. (let (ch, src, st) = pton_next src st in skip_spaces ch src st) =
      (case chars src of [] \<Rightarrow> 0 | c # _ \<Rightarrow> c, rest, st)
    \<and> (chars src \<noteq> [] \<longrightarrow> 0 \<in> set rest \<and> chars rest = tl (chars src))"
  using assms
proof (induction src)
  case (Cons c src)
  show ?case
  proof (cases "c \<noteq> 0 \<and> isspace c")
    case True
    then obtain d ds where "src = d # ds" using Cons.prems by (cases src) auto
    with Cons True show ?thesis by (simp add: pton_next_def skip_spaces.simps [of c])
  next
    case False
    then show ?thesis using Cons.prems by (cases "c = 0") (auto simp: pton_next_def skip_spaces.simps [of c] skip_spaces.simps [of 0])
  qed
qed simp

definition pad_check :: "byte list \<Rightarrow> pton_state \<Rightarrow> int \<times> pton_state" where
  "pad_check cs st = (if cs \<noteq> [] then (-1, st) else pton_trailer 0 [] st)"

lemma pton_trailer_chars:
  assumes "0 \<in> set src"
  shows "(let (ch, src, st) = pton_next src st in pton_trailer ch src st) = pad_check (chars src) st"
proof -
  from skip_next [OF assms, of st] obtain rest where
    r: "(let (ch, src, st) = pton_next src st in skip_spaces ch src st) = (case chars src of [] \<Rightarrow> 0 | c # _ \<Rightarrow> c, rest, st)" by blast
  obtain ch s' st' where n: "pton_next src st = (ch, s', st')" by (cases "pton_next src st") auto
  show ?thesis
  proof (cases "chars src")
    case Nil
    with r n show ?thesis by (simp add: pton_trailer_def pad_check_def skip_spaces.simps [of 0])
  next
    case (Cons c cs)
    then have "c \<noteq> 0" using chars_no [of c src] by simp
    with Cons r n show ?thesis by (simp add: pton_trailer_def pad_check_def)
  qed
qed

lemma pton_finish_pad:
  assumes "0 \<in> set src"
  shows "pton_finish (PLeft Pad64 src st) =
    (if pt_state st = 0 \<or> pt_state st = 1 then (-1, st)
     else if pt_state st = 2 then (case chars src of [] \<Rightarrow> (-1, st) | c # cs \<Rightarrow> if c \<noteq> Pad64 then (-1, st) else pad_check cs st)
     else if pt_state st = 3 then pad_check (chars src) st
     else (sint (pt_tarindex st), st))"
proof -
  have z: "(0 :: byte) \<noteq> Pad64" by (simp add: Pad64_def)
  obtain c s' where src: "src = c # s'" using assms by (cases src) auto
  then have n: "pton_next src st = (c, s', st)" by (simp add: pton_next_def)
  from skip_next [OF assms, of st] n obtain rest where
    r: "skip_spaces c s' st = (case chars src of [] \<Rightarrow> 0 | c # _ \<Rightarrow> c, rest, st)"
    "chars src \<noteq> [] \<Longrightarrow> 0 \<in> set rest \<and> chars rest = tl (chars src)" by auto
  have t: "pton_trailer c s' st = pad_check (chars src) st" using pton_trailer_chars [OF assms, of st] n by simp
  show ?thesis
  proof (cases "chars src")
    case Nil
    then show ?thesis using n r(1) t z by (simp add: pton_finish_def)
  next
    case (Cons d ds)
    then show ?thesis using n r t pton_trailer_chars [of rest st] by (simp add: pton_finish_def)
  qed
qed

lemma pton_finish_nul: "pton_finish (PLeft 0 src st) = (if pt_state st \<noteq> 0 then (-1, st) else (sint (pt_tarindex st), st))"
  by (simp add: pton_finish_def Pad64_def)

lemma chars_append_nul [simp]: "chars (chars src @ [0]) = chars src"
proof -
  have "\<forall>c \<in> set cs. c \<noteq> 0 \<and> \<not> isspace c \<Longrightarrow> chars (cs @ [0]) = cs" for cs by (induction cs) simp_all
  then show ?thesis using chars_no by blast
qed

lemma pton_chars:
  assumes "0 \<in> set src"
  shows "pton_finish (pton_loop targsize src st) = pton_finish (pton_loop targsize (chars src @ [0]) st)"
  using assms
proof (induction src arbitrary: st)
  case (Cons c src)
  show ?case
  proof (cases "c = 0")
    case False
    then have "0 \<in> set src" using Cons.prems by simp
    then show ?thesis using Cons.IH False by (auto simp: pton_finish_pad split: option.splits)
  qed (simp add: pton_finish_nul)
qed simp


text \<open>
  The states between two characters: \<open>bs\<close> are the finished bytes, \<open>part\<close> is the byte that has been
  started, in states other than 0.
\<close>

definition pt_st :: "byte list \<Rightarrow> nat \<Rightarrow> byte list \<Rightarrow> byte list \<Rightarrow> pton_state" where
  "pt_st target k bs part = \<lparr>pt_target = Some (bs @ part @ drop (length bs + length part) target),
     pt_tarindex = of_nat (length bs), pt_state = k, pt_oob = False\<rparr>"

lemma pt_st_simps [simp]:
  "pt_state (pt_st target k bs part) = k" "pt_tarindex (pt_st target k bs part) = of_nat (length bs)"
  "pt_oob (pt_st target k bs part) = False"
  "pt_target (pt_st target k bs part) = Some (bs @ part @ drop (length bs + length part) target)"
  by (simp_all add: pt_st_def)

lemma append_update:
  assumes "length bs < length target"
  shows "(bs @ drop (length bs) target)[length bs := x] = bs @ x # drop (Suc (length bs)) target"
  using assms by (simp add: list_update_append Cons_nth_drop_Suc [symmetric])

lemma append_update2:
  assumes "Suc (length bs) < length target"
  shows "(bs @ y # drop (Suc (length bs)) target)[Suc (length bs) := z] = bs @ y # z # drop (Suc (Suc (length bs))) target"
  using append_update [of "bs @ [y]" target z] assms by simp

lemma pton_switch_st:
  assumes "unat targsize \<le> length target" "unat targsize < 2 ^ 31" "length bs \<le> unat targsize"
  shows "pton_switch targsize v (pt_st target 0 bs []) =
      (if length bs < unat targsize then Some (pt_st target (Suc 0) bs [push_bit 2 v]) else None)"
    "length bs < unat targsize \<Longrightarrow> pton_switch targsize v (pt_st target (Suc 0) bs [x]) =
      (if length bs + 1 < unat targsize then Some (pt_st target 2 (bs @ [x OR drop_bit 4 v]) [push_bit 4 (v AND 15)]) else None)"
    "length bs < unat targsize \<Longrightarrow> pton_switch targsize v (pt_st target 2 bs [x]) =
      (if length bs + 1 < unat targsize then Some (pt_st target 3 (bs @ [x OR drop_bit 2 v]) [push_bit 6 (v AND 3)]) else None)"
    "length bs < unat targsize \<Longrightarrow> pton_switch targsize v (pt_st target 3 bs [x]) = Some (pt_st target 0 (bs @ [x OR v]) [])"
proof -
  have u: "unat (of_nat k :: u32) = k" "targsize \<le> ucast (of_nat k :: u32) \<longleftrightarrow> unat targsize \<le> k" if "k \<le> Suc (length bs)" for k
  proof -
    show k: "unat (of_nat k :: u32) = k" using that assms by (simp add: unat_of_nat_32)
    then show "targsize \<le> ucast (of_nat k :: u32) \<longleftrightarrow> unat targsize \<le> k" by (simp add: word_le_nat_alt unat_ucast_up)
  qed
  have u1: "(of_nat (length bs) :: u32) + 1 = of_nat (Suc (length bs))" by simp
  note U = u [of "length bs", simplified] u [of "Suc (length bs)", simplified, unfolded of_nat_Suc]
  note defs = pton_switch_def pt_full_def pt_upd_def Let_def
  show "pton_switch targsize v (pt_st target 0 bs []) =
      (if length bs < unat targsize then Some (pt_st target (Suc 0) bs [push_bit 2 v]) else None)"
    using assms U by (simp add: defs append_update)
  assume l: "length bs < unat targsize"
  show "pton_switch targsize v (pt_st target (Suc 0) bs [x]) =
      (if length bs + 1 < unat targsize then Some (pt_st target 2 (bs @ [x OR drop_bit 4 v]) [push_bit 4 (v AND 15)]) else None)"
    using assms U l by (simp add: defs append_update2 add.commute)
  show "pton_switch targsize v (pt_st target 2 bs [x]) =
      (if length bs + 1 < unat targsize then Some (pt_st target 3 (bs @ [x OR drop_bit 2 v]) [push_bit 6 (v AND 3)]) else None)"
    using assms U l by (simp add: defs append_update2 add.commute)
  show "pton_switch targsize v (pt_st target 3 bs [x]) = Some (pt_st target 0 (bs @ [x OR v]) [])"
    using assms U l by (simp add: defs)
qed


text \<open>
  What the decoder has to return when the bytes \<open>bs0\<close> are already stored and the reference decoder
  gives \<open>m\<close> for the rest: padded input needs one byte of the target more than it decodes to.
\<close>

definition b64_room :: "byte list \<Rightarrow> nat" where
  "b64_room bs = length bs + (if length bs mod 3 = 0 then 0 else 1)"

definition pton_ok :: "size_t \<Rightarrow> byte list \<Rightarrow> byte list option \<Rightarrow> int \<times> pton_state \<Rightarrow> bool" where
  "pton_ok targsize bs0 m r \<longleftrightarrow> \<not> pt_oob (snd r) \<and>
     (case m of None \<Rightarrow> fst r = -1
      | Some bs \<Rightarrow> if length bs0 + b64_room bs \<le> unat targsize
          then fst r = sint (of_nat (length (bs0 @ bs)) :: u32) \<and>
            (\<exists>t. pt_target (snd r) = Some t \<and> take (length (bs0 @ bs)) t = bs0 @ bs)
          else fst r = -1)"

lemma pton_ok_fail: "\<not> pt_oob st \<Longrightarrow> pton_ok targsize bs0 None (-1, st)"
  "\<lbrakk>\<not> pt_oob st; \<And>bs. m = Some bs \<Longrightarrow> unat targsize < length bs0 + b64_room bs\<rbrakk> \<Longrightarrow> pton_ok targsize bs0 m (-1, st)"
  by (auto simp: pton_ok_def split: option.splits)

lemma pton_ok_group:
  "length g = 3 \<Longrightarrow> pton_ok targsize bs0 (map_option ((@) g) m) r \<longleftrightarrow> pton_ok targsize (bs0 @ g) m r"
  by (cases m) (simp_all add: pton_ok_def b64_room_def add.assoc)

lemma pad_check_st:
  assumes "length bs < length target" "length bs < 2 ^ 31"
  shows "pad_check cs (pt_st target k bs [x]) =
    (if cs \<noteq> [] \<or> x \<noteq> 0 then (-1, pt_st target k bs [x]) else (sint (of_nat (length bs) :: u32), pt_st target k bs [x]))"
  using assms by (auto simp: pad_check_def pton_trailer_def skip_spaces.simps [of 0] unat_of_nat_32 nth_append)

lemma pton_finish_return [simp]: "pton_finish (PReturn st) = (-1, st)"
  by (simp add: pton_finish_def)

lemma pton_loop_chars:
  assumes "unat targsize \<le> length target" "unat targsize < 2 ^ 31"
  shows "\<lbrakk>\<forall>c \<in> set s. c \<noteq> 0 \<and> \<not> isspace c; length bs0 \<le> unat targsize\<rbrakk> \<Longrightarrow>
    pton_ok targsize bs0 (b64_dec s) (pton_finish (pton_loop targsize (s @ [0]) (pt_st target 0 bs0 [])))"
proof (induction s arbitrary: bs0 rule: b64_dec.induct)
  case 1
  then show ?case by (simp add: pton_finish_nul pton_ok_def b64_room_def)
next
  case (2 a b c d s)
  let ?n = "unat targsize"
  note sw = pton_switch_st [OF assms]
  have nz: "a \<noteq> 0" "\<not> isspace a" "b \<noteq> 0" "\<not> isspace b" "c \<noteq> 0" "\<not> isspace c" "d \<noteq> 0" "\<not> isspace d"
    and s: "\<forall>c \<in> set s. c \<noteq> 0 \<and> \<not> isspace c" using 2(2) by auto
  have cs: "chars (s @ [0]) = s" "chars (d # s @ [0]) = d # s"
    using nz s by (induction s) simp_all
  consider (bad1) "digit a = None" | (bad2) x where "digit a = Some x" "digit b = None"
    | (bad3) x y where "digit a = Some x" "digit b = Some y" "c \<noteq> Pad64" "digit c = None"
    | (bad4) x y z where "digit a = Some x" "digit b = Some y" "digit c = Some z" "d \<noteq> Pad64" "digit d = None"
    | (one) x y where "digit a = Some x" "digit b = Some y" "c = Pad64"
    | (two) x y z where "digit a = Some x" "digit b = Some y" "digit c = Some z" "d = Pad64"
    | (three) x y z w where "digit a = Some x" "digit b = Some y" "digit c = Some z" "digit d = Some w"
    by fastforce
  then show ?case
  proof cases
    case bad1
    then show ?thesis using nz cs by (simp add: pton_finish_pad pton_ok_def)
  next
    case bad2
    then have "a \<noteq> Pad64" by auto
    with bad2 show ?thesis using nz cs 2(3) by (simp add: sw pton_finish_pad pton_ok_def)
  next
    case bad3
    then have "a \<noteq> Pad64" "b \<noteq> Pad64" by auto
    with bad3 show ?thesis using nz 2(3) by (simp add: sw pton_ok_def)
  next
    case bad4
    then have "a \<noteq> Pad64" "b \<noteq> Pad64" "c \<noteq> Pad64" by auto
    with bad4 show ?thesis using nz 2(3) by (simp add: sw pton_ok_def)
  next
    case (one x y)
    then show ?thesis using nz 2(3) cs assms
      by (auto simp: sw pton_finish_pad pton_ok_def pad_check_st b64_room_def)
  next
    case (two x y z)
    then have "c \<noteq> Pad64" by auto
    with two show ?thesis using nz 2(3) cs assms
      by (auto simp: sw pton_finish_pad pton_ok_def pad_check_st b64_room_def)
  next
    case (three x y z w)
    then have np: "a \<noteq> Pad64" "b \<noteq> Pad64" "c \<noteq> Pad64" "d \<noteq> Pad64" by auto
    let ?g = "[push_bit 2 x OR drop_bit 4 y, push_bit 4 (y AND 15) OR drop_bit 2 z, push_bit 6 (z AND 3) OR w]"
    have dec: "b64_dec (a # b # c # d # s) = map_option ((@) ?g) (b64_dec s)" using three np by simp
    show ?thesis
    proof (cases "length bs0 + 3 \<le> ?n")
      case True
      then have "pton_loop targsize ((a # b # c # d # s) @ [0]) (pt_st target 0 bs0 []) = pton_loop targsize (s @ [0]) (pt_st target 0 (bs0 @ ?g) [])"
        using three np nz by (simp add: sw)
      moreover have "pton_ok targsize (bs0 @ ?g) (b64_dec s) (pton_finish (pton_loop targsize (s @ [0]) (pt_st target 0 (bs0 @ ?g) [])))"
        using 2(1) [OF three(1,2) np(3) three(3) np(4) three(4) s] True by simp
      ultimately show ?thesis unfolding dec by (simp add: pton_ok_group)
    next
      case False
      then have "\<exists>st. pton_loop targsize ((a # b # c # d # s) @ [0]) (pt_st target 0 bs0 []) = PReturn st \<and> \<not> pt_oob st"
        using three np nz 2(3) by (simp add: sw)
      then obtain st where st: "pton_loop targsize ((a # b # c # d # s) @ [0]) (pt_st target 0 bs0 []) = PReturn st" "\<not> pt_oob st" by blast
      show ?thesis unfolding dec st(1) pton_finish_return
        by (rule pton_ok_fail(2) [OF st(2)]) (use False in \<open>auto simp: b64_room_def\<close>)
    qed
  qed
qed (auto simp: pton_switch_st [OF assms] pton_ok_def pton_finish_nul pton_finish_pad pad_check_st split: option.splits)


text \<open>
  The decoder on an arbitrary C string and target: the result is the one of the reference decoder on
  the characters of the string, if there is room for it, and it never leaves the target or reads
  behind the end of the string.
\<close>

theorem f_b64_pton_dec:
  assumes "0 \<in> set src" "unat targsize \<le> length target" "unat targsize < 2 ^ 31"
  shows "pton_ok targsize [] (b64_dec (chars src)) (f_b64_pton src (Some target) targsize)"
proof -
  have start: "\<lparr>pt_target = Some target, pt_tarindex = 0, pt_state = 0, pt_oob = False\<rparr> = pt_st target 0 [] []" by (simp add: pt_st_def)
  have "\<forall>c \<in> set (chars src). c \<noteq> 0 \<and> \<not> isspace c" using chars_no by blast
  then show ?thesis
    using pton_loop_chars [OF assms(2,3), of "chars src" "[]"] by (simp add: f_b64_pton_def start pton_chars [OF assms(1)])
qed

lemma chars_b64_enc: "chars (b64_enc bs @ 0 # rest) = b64_enc bs"
proof -
  have "list_all (\<lambda>c. c \<noteq> 0 \<and> \<not> isspace c) (b64_enc bs)"
  proof (induction bs rule: b64_enc.induct)
    case (4 a b c bs)
    with sextets [of a b c] show ?case by (auto simp: list_all_iff base64_char_facts)
  next
    case (2 a)
    with sextets [of a 0 0] show ?case by (auto simp: list_all_iff base64_char_facts ntop_output_def Pad64_facts)
  next
    case (3 a b)
    with sextets [of a b 0] show ?case by (auto simp: list_all_iff base64_char_facts ntop_output_def Pad64_facts)
  qed simp
  then have "\<forall>c \<in> set (b64_enc bs). c \<noteq> 0 \<and> \<not> isspace c" by (simp add: list_all_iff)
  then show ?thesis by (induction "b64_enc bs" rule: rev_induct) (simp_all add: chars_def)
qed


text \<open>Arithmetic for the callers.\<close>

lemma unat_b64_size: "k < 2 ^ 30 \<Longrightarrow> unat (((of_nat k :: size_t) * 3 + 2) div 2) = (k * 3 + 2) div 2"
proof -
  assume k: "k < 2 ^ 30"
  have "(of_nat k :: size_t) * 3 + 2 = of_nat (k * 3 + 2)" by simp
  moreover have "unat (of_nat (k * 3 + 2) :: size_t) = k * 3 + 2" by (rule unat_of_nat_64) (use k in simp)
  ultimately show ?thesis by (simp only: unat_div_distrib) simp
qed

lemma b64_size_iff: "4 * ((n + 2) div 3) < (n * 3 + 2) div 2 \<longleftrightarrow> n \<notin> {1, 2, 4, 5, 7, 10, 13}" for n :: nat
proof (cases "n < 18")
  case True
  then have "n \<in> {0, 1, 2, 3, 4, 5, 6, 7, 8, 9, 10, 11, 12, 13, 14, 15, 16, 17}" by (simp add: numeral_eq_Suc less_Suc_eq disj_ac)
  then show ?thesis by (elim insertE) simp_all
next
  case False
  have "3 * (4 * ((n + 2) div 3)) \<le> 4 * (n + 2)" by simp
  moreover have "n * 3 + 2 \<le> 2 * ((n * 3 + 2) div 2) + 1" by simp
  ultimately have "4 * ((n + 2) div 3) < (n * 3 + 2) div 2" using False by linarith
  with False show ?thesis by auto
qed

end
