(* ===== verification/Ldb_Coding.thy ===== *)
theory Ldb_Coding
  imports Pb_Wire
begin

text \<open>
  The binary encodings of leveldb, \<^verbatim>\<open>util/coding.h\<close> and \<^verbatim>\<open>util/coding.cc\<close>: fixed-width numbers, varints and
  length-prefixed slices. A \<open>Slice\<close> and a range \<open>[p, limit)\<close> are the list of their bytes; a parser returns the value and
  what follows it, and \<open>None\<close> for a null pointer or \<open>false\<close>. An \<^verbatim>\<open>Encode\<close> function returns the bytes it stores at
  \<open>dst\<close>; \<^verbatim>\<open>Put\<close> functions append them to a string.
\<close>

section \<open>Fixed-width numbers\<close>

text \<open>Both branches of the C++ code: the platform is little endian, so a copy of the object is the same.\<close>

definition EncodeFixed32 :: "u32 \<Rightarrow> byte list" where
  "EncodeFixed32 v =
     [ucast (v AND 255), ucast (drop_bit 8 v AND 255), ucast (drop_bit 16 v AND 255), ucast (drop_bit 24 v AND 255)]"

definition EncodeFixed64 :: "u64 \<Rightarrow> byte list" where
  "EncodeFixed64 v =
     [ucast (v AND 255), ucast (drop_bit 8 v AND 255), ucast (drop_bit 16 v AND 255), ucast (drop_bit 24 v AND 255),
      ucast (drop_bit 32 v AND 255), ucast (drop_bit 40 v AND 255), ucast (drop_bit 48 v AND 255), ucast (drop_bit 56 v AND 255)]"

definition PutFixed32 :: "byte list \<Rightarrow> u32 \<Rightarrow> byte list" where
  "PutFixed32 dst v = dst @ EncodeFixed32 v"

definition PutFixed64 :: "byte list \<Rightarrow> u64 \<Rightarrow> byte list" where
  "PutFixed64 dst v = dst @ EncodeFixed64 v"

text \<open>These read four and eight bytes at \<open>ptr\<close>; callers have to make sure that they are there.\<close>

definition DecodeFixed32 :: "byte list \<Rightarrow> u32" where
  "DecodeFixed32 p = ucast (p ! 0) OR push_bit 8 (ucast (p ! 1)) OR push_bit 16 (ucast (p ! 2)) OR push_bit 24 (ucast (p ! 3))"

definition DecodeFixed64 :: "byte list \<Rightarrow> u64" where
  "DecodeFixed64 p = push_bit 32 (ucast (DecodeFixed32 (drop 4 p))) OR ucast (DecodeFixed32 p)"

section \<open>Varints\<close>

definition EncodeVarint32 :: "u32 \<Rightarrow> byte list" where
  "EncodeVarint32 v =
     (if v < 2 ^ 7 then [ucast v]
      else if v < 2 ^ 14 then [ucast (v OR 128), ucast (drop_bit 7 v)]
      else if v < 2 ^ 21 then [ucast (v OR 128), ucast (drop_bit 7 v OR 128), ucast (drop_bit 14 v)]
      else if v < 2 ^ 28 then
        [ucast (v OR 128), ucast (drop_bit 7 v OR 128), ucast (drop_bit 14 v OR 128), ucast (drop_bit 21 v)]
      else
        [ucast (v OR 128), ucast (drop_bit 7 v OR 128), ucast (drop_bit 14 v OR 128), ucast (drop_bit 21 v OR 128),
         ucast (drop_bit 28 v)])"

definition PutVarint32 :: "byte list \<Rightarrow> u32 \<Rightarrow> byte list" where
  "PutVarint32 dst v = dst @ EncodeVarint32 v"

lemma shift7_less: "\<not> v < 128 \<Longrightarrow> unat (drop_bit 7 v) < unat (v :: u64)"
  by (simp add: unat_drop_bit_word word_less_nat_alt)

function EncodeVarint64 :: "u64 \<Rightarrow> byte list" where
  "EncodeVarint64 v = (if v \<ge> 128 then ucast (v OR 128) # EncodeVarint64 (drop_bit 7 v) else [ucast v])"
  by pat_completeness auto
termination by (relation "measure unat") (simp_all add: shift7_less not_less)

declare EncodeVarint64.simps [simp del]

definition PutVarint64 :: "byte list \<Rightarrow> u64 \<Rightarrow> byte list" where
  "PutVarint64 dst v = dst @ EncodeVarint64 v"

function VarintLength_loop :: "u64 \<Rightarrow> nat \<Rightarrow> nat" where
  "VarintLength_loop v len = (if v \<ge> 128 then VarintLength_loop (drop_bit 7 v) (len + 1) else len)"
  by pat_completeness auto
termination by (relation "measure (unat \<circ> fst)") (simp_all add: shift7_less not_less)

declare VarintLength_loop.simps [simp del]

definition VarintLength :: "u64 \<Rightarrow> nat" where
  "VarintLength v = VarintLength_loop v 1"

text \<open>The parsing loop, which is the same for both widths; \<open>shift\<close> runs up to 28 and up to 63.\<close>

fun varint_parse :: "nat \<Rightarrow> 'a::len word \<Rightarrow> nat \<Rightarrow> byte list \<Rightarrow> ('a word \<times> byte list) option" where
  "varint_parse lim result shift [] = None"
| "varint_parse lim result shift (b # p) =
     (if shift \<le> lim then
        if ucast b AND (128 :: 'a word) \<noteq> 0 then varint_parse lim (result OR push_bit shift (ucast b AND 127)) (shift + 7) p
        else Some (result OR push_bit shift (ucast b), p)
      else None)"

definition GetVarint32PtrFallback :: "byte list \<Rightarrow> (u32 \<times> byte list) option" where
  "GetVarint32PtrFallback p = varint_parse 28 0 0 p"

definition GetVarint32Ptr :: "byte list \<Rightarrow> (u32 \<times> byte list) option" where
  "GetVarint32Ptr p = (case p of
       b # p' \<Rightarrow> if ucast b AND (128 :: u32) = 0 then Some (ucast b, p') else GetVarint32PtrFallback p
     | [] \<Rightarrow> GetVarint32PtrFallback p)"

definition GetVarint32 :: "byte list \<Rightarrow> (u32 \<times> byte list) option" where
  "GetVarint32 input = GetVarint32Ptr input"

definition GetVarint64Ptr :: "byte list \<Rightarrow> (u64 \<times> byte list) option" where
  "GetVarint64Ptr p = varint_parse 63 0 0 p"

definition GetVarint64 :: "byte list \<Rightarrow> (u64 \<times> byte list) option" where
  "GetVarint64 input = GetVarint64Ptr input"

section \<open>Length-prefixed slices\<close>

text \<open>The length is converted to 32 bits when it is written.\<close>

definition PutLengthPrefixedSlice :: "byte list \<Rightarrow> byte list \<Rightarrow> byte list" where
  "PutLengthPrefixedSlice dst value = PutVarint32 dst (of_nat (length value)) @ value"

definition GetLengthPrefixedSlice :: "byte list \<Rightarrow> (byte list \<times> byte list) option" where
  "GetLengthPrefixedSlice input = (case GetVarint32 input of None \<Rightarrow> None
     | Some (len, input) \<Rightarrow> if unat len \<le> length input then Some (take (unat len) input, drop (unat len) input) else None)"

text \<open>The variant on pointers, which computes \<open>p + len > limit\<close>.\<close>

definition GetLengthPrefixedSlicePtr :: "byte list \<Rightarrow> (byte list \<times> byte list) option" where
  "GetLengthPrefixedSlicePtr p = (case GetVarint32Ptr p of None \<Rightarrow> None
     | Some (len, p) \<Rightarrow> if length p < unat len then None else Some (take (unat len) p, drop (unat len) p))"

section \<open>Fixed-width numbers are little endian\<close>

lemma ucast_byte_eq: "(ucast (x :: 'a::len word) :: byte) = of_nat (unat x mod 256)"
  by (simp add: word_unat_eq_iff unat_ucast_byte unat_of_nat_8)

lemma EncodeFixed32_le: "EncodeFixed32 v = le_bytes 4 (unat v)"
  by (simp add: EncodeFixed32_def le_bytes_4 ucast_byte_eq unat_and_255 unat_drop_bit_word)

lemma EncodeFixed64_le: "EncodeFixed64 v = le_bytes 8 (unat v)"
  by (simp add: EncodeFixed64_def le_bytes_8 ucast_byte_eq unat_and_255 unat_drop_bit_word)

lemma length_EncodeFixed [simp]: "length (EncodeFixed32 v) = 4" "length (EncodeFixed64 w) = 8"
  by (simp_all add: EncodeFixed32_le EncodeFixed64_le)

lemma list_of_4: "4 \<le> length p \<Longrightarrow> take 4 p = [p ! 0, p ! 1, p ! 2, p ! 3]"
  by (rule nth_equalityI) (auto simp: numeral_eq_Suc less_Suc_eq)

lemma DecodeFixed32_le: "4 \<le> length p \<Longrightarrow> DecodeFixed32 p = of_nat (le_val (take 4 p))"
  using le_word_4 [of "p ! 0" "p ! 1" "p ! 2" "p ! 3", where 'a = 32]
  by (simp only: list_of_4 DecodeFixed32_def) simp

lemma DecodeFixed32_Encode [simp]: "DecodeFixed32 (EncodeFixed32 v @ rest) = v"
  using unat_lt_32 [of v] by (simp add: DecodeFixed32_le EncodeFixed32_le le_val_bytes)

text \<open>Arrays of fixed-width numbers.\<close>

lemma fold_PutFixed32: "fold (\<lambda>v r. PutFixed32 r v) vs r = r @ concat (map EncodeFixed32 vs)"
  by (induction vs arbitrary: r) (simp_all add: PutFixed32_def)

lemma length_concat_Encode: "length (concat (map EncodeFixed32 vs)) = 4 * length vs"
  by (induction vs) simp_all

lemma DecodeFixed32_nth: "i < length vs \<Longrightarrow> DecodeFixed32 (drop (i * 4) (concat (map EncodeFixed32 vs) @ rest)) = vs ! i"
proof (induction vs arbitrary: i)
  case (Cons v vs)
  then show ?case by (cases i) simp_all
qed simp

lemma DecodeFixed64_le:
  assumes "8 \<le> length p"
  shows "DecodeFixed64 p = of_nat (le_val (take 8 p))"
proof -
  let ?lo = "le_val (take 4 p)" and ?hi = "le_val (take 4 (drop 4 p))"
  have b: "?lo < 2 ^ 32" "?hi < 2 ^ 32" using le_val_less [of "take 4 p"] le_val_less [of "take 4 (drop 4 p)"] assms by simp_all
  have "take 8 p = take 4 p @ take 4 (drop 4 p)" using take_add [of 4 4 p] by simp
  then have v: "le_val (take 8 p) = ?lo + 2 ^ 32 * ?hi" using assms by (simp add: le_val_append)
  have "(ucast (of_nat ?lo :: u32) :: u64) = of_nat ?lo" "(ucast (of_nat ?hi :: u32) :: u64) = of_nat ?hi"
    using b by (simp_all add: word_unat_eq_iff unat_ucast_up unat_of_nat_32 unat_of_nat_64)
  then have "DecodeFixed64 p = of_nat ?lo OR push_bit 32 (of_nat ?hi)"
    using assms by (simp add: DecodeFixed64_def DecodeFixed32_le or.commute)
  also have "\<dots> = of_nat ?lo + push_bit 32 (of_nat ?hi)" by (rule or_push_bit_add) (use b in \<open>simp add: unat_of_nat_64\<close>)
  finally show ?thesis by (simp add: v push_bit_of_nat_word)
qed

lemma DecodeFixed64_Encode [simp]: "DecodeFixed64 (EncodeFixed64 v @ rest) = v"
  using unat_lt_64 [of v] by (simp add: DecodeFixed64_le EncodeFixed64_le le_val_bytes)

lemma EncodeFixed64_Decode: "length p = 8 \<Longrightarrow> EncodeFixed64 (DecodeFixed64 p) = p"
  using le_val_less [of p] le_bytes_val [of p] by (simp add: EncodeFixed64_le DecodeFixed64_le unat_of_nat_64)

section \<open>Varints are the base-128 encoding\<close>

lemma ucast_or_128: "(ucast (v OR 128) :: byte) = of_nat (unat (v :: 'a::len word) mod 128 + 128)"
  if "8 \<le> LENGTH('a)"
proof -
  have "(ucast (v OR 128) :: byte) = ucast v OR 128"
    using that by (auto intro!: bit_word_eqI simp: bit_simps)
  moreover have "ucast v OR 128 = (ucast v AND 127) OR (128 :: byte)"
  proof -
    have "(127 :: byte) OR 128 = -1" by simp
    then show ?thesis by (simp only: bit.disj_conj_distrib2 bit.conj_one_right)
  qed
  moreover have "ucast v AND 127 = (of_nat (unat v mod 128) :: byte)"
    by (simp add: word_unat_eq_iff unat_and_127 unat_ucast_byte unat_of_nat_8 mod_mod_cancel)
  ultimately show ?thesis using byte_or_128 [of "unat v mod 128"] by simp
qed

lemma EncodeVarint64_bytes: "EncodeVarint64 v = varint_bytes (unat v)"
proof (induction v rule: EncodeVarint64.induct)
  case (1 v)
  show ?case
  proof (cases "v \<ge> 128")
    case True
    then have "128 \<le> unat v" by (simp add: word_le_nat_alt)
    with 1 True show ?thesis
      by (subst EncodeVarint64.simps) (simp add: varint_bytes_big ucast_or_128 unat_drop_bit_word)
  next
    case False
    then have "unat v < 128" by (simp add: word_le_nat_alt not_le)
    with False show ?thesis by (subst EncodeVarint64.simps) (simp add: varint_bytes_small)
  qed
qed

lemma varint_bytes_word:
  fixes v :: "'a::len word"
  assumes "8 \<le> LENGTH('a)"
  shows "varint_bytes (unat (drop_bit k v)) =
    (if unat v < 2 ^ (k + 7) then [ucast (drop_bit k v)]
     else ucast (drop_bit k v OR 128) # varint_bytes (unat (drop_bit (k + 7) v)))"
proof -
  have k: "unat (drop_bit k v) < 128 \<longleftrightarrow> unat v < 2 ^ (k + 7)"
    by (simp add: unat_drop_bit_word power_add div_less_iff_less_mult mult.commute)
  show ?thesis
  proof (cases "unat v < 2 ^ (k + 7)")
    case True
    with k show ?thesis by (simp add: varint_bytes_small)
  next
    case False
    with k have "128 \<le> unat (drop_bit k v)" by linarith
    moreover have "unat (drop_bit k v) div 128 = unat (drop_bit (k + 7) v)"
      by (simp add: unat_drop_bit_word power_add div_mult2_eq)
    ultimately show ?thesis using False assms by (simp add: varint_bytes_big ucast_or_128)
  qed
qed

lemma EncodeVarint32_bytes: "EncodeVarint32 v = varint_bytes (unat v)"
proof -
  have b: "unat v < 2 ^ 35" using unat_lt_32 [of v] by simp
  note st = varint_bytes_word [where v = v]
  show ?thesis
    using st [of 0] st [of 7] st [of 14] st [of 21] st [of 28] b
    by (simp add: EncodeVarint32_def word_less_nat_alt)
qed

lemma VarintLength_bytes: "VarintLength v = length (EncodeVarint64 v)"
proof -
  have "VarintLength_loop v n + 1 = n + length (EncodeVarint64 v)" for n
  proof (induction v n rule: VarintLength_loop.induct)
    case (1 v len)
    then show ?case by (subst VarintLength_loop.simps, subst EncodeVarint64.simps) simp
  qed
  from this [of 1] show ?thesis by (simp add: VarintLength_def)
qed

lemma length_EncodeVarint: "length (EncodeVarint32 v) \<le> 5" "length (EncodeVarint64 w) \<le> 10"
  using length_varint_bytes_32 [of "unat v"] length_varint_bytes_64 [of "unat w"] unat_lt_32 [of v] unat_lt_64 [of w]
  by (simp_all add: EncodeVarint32_bytes EncodeVarint64_bytes)

section \<open>Parsing\<close>

text \<open>The loops accept a varint of at most five and ten bytes, with its value truncated to the width.\<close>

lemma byte_bit_lt: "bit (b :: byte) n \<Longrightarrow> n < 8"
  using bit_imp_le_length [of b n] by simp

lemma ucast_and_128: "ucast (b :: byte) AND (128 :: 'a::len word) = 0 \<longleftrightarrow> unat b < 128" if "8 \<le> LENGTH('a)"
proof -
  have "ucast b AND (128 :: 'a word) = ucast (b AND 128)"
    using that by (auto intro!: bit_word_eqI simp: bit_simps dest: byte_bit_lt)
  moreover have "(ucast (b AND 128) :: 'a word) = 0 \<longleftrightarrow> b AND 128 = 0"
  proof -
    have "unat (ucast (b AND 128) :: 'a word) = unat (b AND 128)" by (rule unat_ucast_up) (use that in simp)
    then show ?thesis by (metis unat_eq_0)
  qed
  ultimately show ?thesis by (simp add: byte_and_128)
qed

lemma ucast_byte_and_127: "ucast (b :: byte) AND (127 :: 'a::len word) = ucast (b AND 127)" if "8 \<le> LENGTH('a)"
  using that by (auto intro!: bit_word_eqI simp: bit_simps dest: byte_bit_lt)

lemma varint_parse_varint:
  fixes v :: "'a::len word"
  assumes "8 \<le> LENGTH('a)" "r < 2 ^ (7 * k)"
  shows "is_varint bs \<Longrightarrow> 7 * (k + length bs) \<le> lim + 7 \<Longrightarrow>
    varint_parse lim (of_nat r :: 'a word) (7 * k) (bs @ rest) = Some (of_nat (r + 2 ^ (7 * k) * varint_val bs), rest)"
  using assms(2)
proof (induction bs arbitrary: r k)
  case (Cons b bs)
  have k: "7 * k \<le> lim" using Cons.prems(2) by simp
  show ?case
  proof (cases "bs = []")
    case True
    with Cons.prems k show ?thesis by (simp add: is_varint_Cons ucast_and_128 [OF assms(1)] or_push_byte)
  next
    case False
    with Cons.prems have b: "128 \<le> unat b" "is_varint bs" by (simp_all add: is_varint_Cons)
    let ?r = "r + 2 ^ (7 * k) * (unat b mod 128)"
    have "?r < 2 ^ (7 * Suc k)" using Cons.prems(3) by (rule varint_accum_less)
    from Cons.IH [OF b(2) _ this] Cons.prems(2) have
      "varint_parse lim (of_nat ?r :: 'a word) (7 * Suc k) (bs @ rest) = Some (of_nat (?r + 2 ^ (7 * Suc k) * varint_val bs), rest)" by simp
    moreover have "(of_nat r :: 'a word) OR push_bit (7 * k) (ucast b AND 127) = of_nat ?r"
      unfolding ucast_byte_and_127 [OF assms(1)] by (rule or_push_bit_accum [OF Cons.prems(3)])
    ultimately show ?thesis using b k
      by (simp add: ucast_and_128 [OF assms(1)] not_less power_add algebra_simps del: of_nat_add of_nat_mult push_bit_and)
  qed
qed simp

text \<open>And nothing else: whatever the loop returns came from a varint at the start of the input.\<close>

lemma varint_parse_Some:
  fixes x :: "'a::len word"
  assumes "8 \<le> LENGTH('a)"
  shows "varint_parse lim x (7 * k) p = Some (v, rest) \<Longrightarrow>
    \<exists>bs. p = bs @ rest \<and> is_varint bs \<and> 7 * (k + length bs) \<le> lim + 7"
proof (induction p arbitrary: x k)
  case (Cons b p)
  then have k: "7 * k \<le> lim" by (auto split: if_splits)
  show ?case
  proof (cases "unat b < 128")
    case True
    then have "p = rest" using Cons.prems k by (simp add: ucast_and_128 [OF assms])
    then show ?thesis using True k by (intro exI [of _ "[b]"]) simp
  next
    case False
    with Cons.prems k have "varint_parse lim (x OR push_bit (7 * k) (ucast b AND 127)) (7 * Suc k) p = Some (v, rest)"
      by (simp add: ucast_and_128 [OF assms] add.commute)
    from Cons.IH [OF this] obtain bs where "p = bs @ rest" "is_varint bs" "7 * (Suc k + length bs) \<le> lim + 7" by blast
    then show ?thesis using False by (intro exI [of _ "b # bs"]) (auto simp: is_varint_Cons)
  qed
qed simp

lemma GetVarint32_eq: "GetVarint32 p = varint_parse 28 0 0 p"
  by (cases p) (auto simp: GetVarint32_def GetVarint32Ptr_def GetVarint32PtrFallback_def)

lemma GetVarint32_varint:
  "is_varint bs \<Longrightarrow> length bs \<le> 5 \<Longrightarrow> GetVarint32 (bs @ rest) = Some (of_nat (varint_val bs), rest)"
  using varint_parse_varint [where 'a = 32, of 0 0 bs 28 rest] by (simp add: GetVarint32_eq)

lemma GetVarint64_varint:
  "is_varint bs \<Longrightarrow> length bs \<le> 10 \<Longrightarrow> GetVarint64 (bs @ rest) = Some (of_nat (varint_val bs), rest)"
  using varint_parse_varint [where 'a = 64, of 0 0 bs 63 rest] by (simp add: GetVarint64_def GetVarint64Ptr_def)

lemma GetVarint32_Encode [simp]: "GetVarint32 (EncodeVarint32 v @ rest) = Some (v, rest)"
  using GetVarint32_varint [OF is_varint_varint_bytes, of "unat v" rest] length_EncodeVarint(1) [of v]
  by (simp add: EncodeVarint32_bytes varint_val_varint_bytes)

lemma GetVarint64_Encode [simp]: "GetVarint64 (EncodeVarint64 v @ rest) = Some (v, rest)"
  using GetVarint64_varint [OF is_varint_varint_bytes, of "unat v" rest] length_EncodeVarint(2) [of v]
  by (simp add: EncodeVarint64_bytes varint_val_varint_bytes)

lemma GetVarint32_Some:
  assumes "GetVarint32 p = Some (v, rest)"
  obtains bs where "p = bs @ rest" "is_varint bs" "length bs \<le> 5" "v = of_nat (varint_val bs)"
proof -
  from varint_parse_Some [where 'a = 32, of 28 0 0 p v rest] assms obtain bs where
    "p = bs @ rest" "is_varint bs" "length bs \<le> 5" by (auto simp: GetVarint32_eq)
  moreover from this have "v = of_nat (varint_val bs)" using GetVarint32_varint assms by simp
  ultimately show ?thesis by (rule that)
qed

text \<open>
  An encoding whose parser returns the value and the rest of the input: such codecs chain. The
  contract is stated once and holds for all the encodings of this file.
\<close>

locale codec =
  fixes put :: "'a \<Rightarrow> byte list"
    and get :: "byte list \<Rightarrow> ('a \<times> byte list) option"
    and valid :: "'a \<Rightarrow> bool"
  assumes get_put: "valid x \<Longrightarrow> get (put x @ rest) = Some (x, rest)"
    and get_suffix: "get bs = Some (x, rest) \<Longrightarrow> \<exists>pre. bs = pre @ rest"
begin

lemma get_put_end: "valid x \<Longrightarrow> get (put x) = Some (x, [])"
  using get_put [of x "[]"] by simp

lemma put_injective:
  assumes "valid x" "valid y" "put x @ r = put y @ s"
  shows "x = y \<and> r = s"
proof -
  have "Some (x, r) = Some (y, s)" unfolding get_put [OF assms(1), symmetric] get_put [OF assms(2), symmetric] assms(3) ..
  then show ?thesis by simp
qed

lemma get_length: "get bs = Some (x, rest) \<Longrightarrow> length rest \<le> length bs"
  using get_suffix [of bs x rest] by auto

end

interpretation varint32: codec EncodeVarint32 GetVarint32 "\<lambda>_. True"
  by unfold_locales (auto elim: GetVarint32_Some)

interpretation varint64: codec EncodeVarint64 GetVarint64 "\<lambda>_. True"
proof unfold_locales
  show "\<exists>pre. bs = pre @ rest" if "GetVarint64 bs = Some (x, rest)" for bs x rest
    using that varint_parse_Some [where 'a = 64, of 63 0 0 bs x rest] by (auto simp: GetVarint64_def GetVarint64Ptr_def)
qed simp

lemma PutLengthPrefixedSlice_append: "PutLengthPrefixedSlice dst v = dst @ PutLengthPrefixedSlice [] v"
  by (simp add: PutLengthPrefixedSlice_def PutVarint32_def)

lemma GetLengthPrefixedSlice_Ptr: "GetLengthPrefixedSlicePtr p = GetLengthPrefixedSlice p"
  by (auto simp: GetLengthPrefixedSlicePtr_def GetLengthPrefixedSlice_def GetVarint32_def split: option.splits prod.splits)

interpretation slice: codec "PutLengthPrefixedSlice []" GetLengthPrefixedSlice "\<lambda>s. length s < 2 ^ 32"
proof unfold_locales
  fix x rest :: "byte list"
  assume "length x < 2 ^ 32"
  then show "GetLengthPrefixedSlice (PutLengthPrefixedSlice [] x @ rest) = Some (x, rest)"
    by (simp add: GetLengthPrefixedSlice_def PutLengthPrefixedSlice_def PutVarint32_def unat_of_nat_32)
next
  fix bs x rest
  assume "GetLengthPrefixedSlice bs = Some (x, rest)"
  then show "\<exists>pre. bs = pre @ rest"
    by (auto simp: GetLengthPrefixedSlice_def split: option.splits if_splits dest!: varint32.get_suffix)
      (metis append.assoc append_take_drop_id)
qed

end
