(* ===== verification/Ldb_Format.thy ===== *)
theory Ldb_Format
  imports Ldb_Coding
begin

text \<open>
  The order of keys in leveldb: slices (\<^verbatim>\<open>include/leveldb/slice.h\<close>), the bytewise comparator
  (\<^verbatim>\<open>util/comparator.cc\<close>) and the format of internal keys with their comparator (\<^verbatim>\<open>db/dbformat.h\<close>,
  \<^verbatim>\<open>db/dbformat.cc\<close>). An internal key is a user key followed by eight bytes, a sequence number of 56 bits and a type.
  The contract of a comparator, a total order together with short keys between two keys, is the locale \<open>comparator\<close>;
  the internal comparator keeps it over every user comparator that does.
\<close>

section \<open>Slices\<close>

text \<open>The standard fixes only the sign of \<open>memcmp\<close>; the code never uses more of it.\<close>

fun memcmp :: "byte list \<Rightarrow> byte list \<Rightarrow> nat \<Rightarrow> int" where
  "memcmp (a # as) (b # bs) (Suc n) = (if a < b then - 1 else if b < a then 1 else memcmp as bs n)"
| "memcmp as bs n = 0"

definition starts_with :: "byte list \<Rightarrow> byte list \<Rightarrow> bool" where
  "starts_with s x \<longleftrightarrow> length s \<ge> length x \<and> memcmp s x (length x) = 0"

definition Slice_compare :: "byte list \<Rightarrow> byte list \<Rightarrow> int" where
  "Slice_compare a b =
     (let min_len = (if length a < length b then length a else length b);
          r = memcmp a b min_len
      in if r = 0 then (if length a < length b then - 1 else if length a > length b then 1 else r) else r)"

section \<open>The bytewise comparator\<close>

function diff_index :: "byte list \<Rightarrow> byte list \<Rightarrow> nat \<Rightarrow> nat \<Rightarrow> nat" where
  "diff_index start limit min_length i =
     (if i < min_length \<and> start ! i = limit ! i then diff_index start limit min_length (i + 1) else i)"
  by pat_completeness auto
termination by (relation "measure (\<lambda>(_, _, n, i). n - i)") auto

declare diff_index.simps [simp del]

definition Bytewise_FindShortestSeparator :: "byte list \<Rightarrow> byte list \<Rightarrow> byte list" where
  "Bytewise_FindShortestSeparator start limit =
     (let min_length = min (length start) (length limit);
          i = diff_index start limit min_length 0
      in if i \<ge> min_length then start
         else let diff_byte = start ! i in
           if diff_byte < 0xff \<and> unat diff_byte + 1 < unat (limit ! i) then take (i + 1) (start[i := start ! i + 1])
           else start)"

primrec successor_loop :: "byte list \<Rightarrow> nat list \<Rightarrow> byte list" where
  "successor_loop key [] = key"
| "successor_loop key (i # is) =
     (let byt = key ! i in if byt \<noteq> 0xff then take (i + 1) (key[i := byt + 1]) else successor_loop key is)"

definition Bytewise_FindShortSuccessor :: "byte list \<Rightarrow> byte list" where
  "Bytewise_FindShortSuccessor key = successor_loop key [0..<length key]"

section \<open>Internal keys\<close>

datatype ValueType = kTypeDeletion | kTypeValue

definition value_type_code :: "ValueType \<Rightarrow> u64" where
  "value_type_code t = (case t of kTypeDeletion \<Rightarrow> 0 | kTypeValue \<Rightarrow> 1)"

abbreviation kValueTypeForSeek :: ValueType where "kValueTypeForSeek \<equiv> kTypeValue"

definition kMaxSequenceNumber :: u64 where "kMaxSequenceNumber = push_bit 56 1 - 1"

record ParsedInternalKey =
  pk_user_key :: "byte list"
  pk_sequence :: u64
  pk_type :: ValueType

definition PackSequenceAndType :: "u64 \<Rightarrow> ValueType \<Rightarrow> u64" where
  "PackSequenceAndType seq t = push_bit 8 seq OR value_type_code t"

definition AppendInternalKey :: "byte list \<Rightarrow> ParsedInternalKey \<Rightarrow> byte list" where
  "AppendInternalKey result key = PutFixed64 (result @ pk_user_key key) (PackSequenceAndType (pk_sequence key) (pk_type key))"

definition InternalKeyEncodingLength :: "ParsedInternalKey \<Rightarrow> nat" where
  "InternalKeyEncodingLength key = length (pk_user_key key) + 8"

definition ExtractUserKey :: "byte list \<Rightarrow> byte list" where
  "ExtractUserKey internal_key = take (length internal_key - 8) internal_key"

text \<open>The packed number at the end of an internal key.\<close>

definition key_tag :: "byte list \<Rightarrow> u64" where
  "key_tag internal_key = DecodeFixed64 (drop (length internal_key - 8) internal_key)"

definition ParseInternalKey :: "byte list \<Rightarrow> ParsedInternalKey option" where
  "ParseInternalKey internal_key =
     (let n = length internal_key in
      if n < 8 then None
      else let num = key_tag internal_key; c = num AND 255 in
        if c \<le> value_type_code kTypeValue then
          Some \<lparr>pk_user_key = take (n - 8) internal_key, pk_sequence = drop_bit 8 num,
                pk_type = (if c = 0 then kTypeDeletion else kTypeValue)\<rparr>
        else None)"

type_synonym compare_fn = "byte list \<Rightarrow> byte list \<Rightarrow> int"

definition Internal_Compare :: "compare_fn \<Rightarrow> compare_fn" where
  "Internal_Compare user_compare akey bkey =
     (let r = user_compare (ExtractUserKey akey) (ExtractUserKey bkey) in
      if r = 0 then
        let anum = key_tag akey; bnum = key_tag bkey
        in if anum > bnum then - 1 else if anum < bnum then 1 else r
      else r)"

definition Internal_FindShortestSeparator ::
  "compare_fn \<Rightarrow> (byte list \<Rightarrow> byte list \<Rightarrow> byte list) \<Rightarrow> byte list \<Rightarrow> byte list \<Rightarrow> byte list" where
  "Internal_FindShortestSeparator user_compare user_separator start limit =
     (let user_start = ExtractUserKey start; user_limit = ExtractUserKey limit;
          tmp = user_separator user_start user_limit
      in if length tmp < length user_start \<and> user_compare user_start tmp < 0 then
           PutFixed64 tmp (PackSequenceAndType kMaxSequenceNumber kValueTypeForSeek)
         else start)"

definition Internal_FindShortSuccessor :: "compare_fn \<Rightarrow> (byte list \<Rightarrow> byte list) \<Rightarrow> byte list \<Rightarrow> byte list" where
  "Internal_FindShortSuccessor user_compare user_successor key =
     (let user_key = ExtractUserKey key; tmp = user_successor user_key
      in if length tmp < length user_key \<and> user_compare user_key tmp < 0 then
           PutFixed64 tmp (PackSequenceAndType kMaxSequenceNumber kValueTypeForSeek)
         else key)"

text \<open>The array of a lookup key, with the two positions in it.\<close>

record LookupKey =
  lk_start :: "byte list"
  lk_kstart :: nat

definition new_LookupKey :: "byte list \<Rightarrow> u64 \<Rightarrow> LookupKey" where
  "new_LookupKey user_key s =
     (let len = EncodeVarint32 (of_nat (length user_key + 8))
      in \<lparr>lk_start = len @ user_key @ EncodeFixed64 (PackSequenceAndType s kValueTypeForSeek), lk_kstart = length len\<rparr>)"

definition memtable_key :: "LookupKey \<Rightarrow> byte list" where
  "memtable_key k = lk_start k"

definition internal_key :: "LookupKey \<Rightarrow> byte list" where
  "internal_key k = drop (lk_kstart k) (lk_start k)"

definition lookup_user_key :: "LookupKey \<Rightarrow> byte list" where
  "lookup_user_key k = take (length (lk_start k) - lk_kstart k - 8) (drop (lk_kstart k) (lk_start k))"

section \<open>The contract of a comparator\<close>

text \<open>A total order on the keys with \<open>valid\<close>; different keys may compare equal.\<close>

locale key_order =
  fixes compare :: "'k \<Rightarrow> 'k \<Rightarrow> int"
    and valid :: "'k \<Rightarrow> bool"
  assumes sign: "\<lbrakk>valid a; valid b\<rbrakk> \<Longrightarrow> sgn (compare b a) = - sgn (compare a b)"
    and trans: "\<lbrakk>valid a; valid b; valid c; compare a b \<le> 0; compare b c \<le> 0\<rbrakk> \<Longrightarrow> compare a c \<le> 0"
begin

lemma refl [simp]: "valid a \<Longrightarrow> compare a a = 0"
  using sign [of a a] by (simp add: sgn_if split: if_splits)

lemma flip: "\<lbrakk>valid a; valid b\<rbrakk> \<Longrightarrow> compare b a < 0 \<longleftrightarrow> 0 < compare a b" "\<lbrakk>valid a; valid b\<rbrakk> \<Longrightarrow> compare b a = 0 \<longleftrightarrow> compare a b = 0"
  using sign [of a b] by (auto simp: sgn_if split: if_splits)

lemma flip_le: "\<lbrakk>valid a; valid b\<rbrakk> \<Longrightarrow> compare b a \<le> 0 \<longleftrightarrow> 0 \<le> compare a b"
  using flip [of a b] by linarith

lemma less_le_trans: "\<lbrakk>valid a; valid b; valid c; compare a b < 0; compare b c \<le> 0\<rbrakk> \<Longrightarrow> compare a c < 0"
  using trans [of b c a] flip_le [of a c] flip_le [of a b] by force

lemma le_less_trans: "\<lbrakk>valid a; valid b; valid c; compare a b \<le> 0; compare b c < 0\<rbrakk> \<Longrightarrow> compare a c < 0"
  using trans [of c a b] flip_le [of a c] flip_le [of b c] by force

lemma eq_trans: "\<lbrakk>valid a; valid b; valid c; compare a b = 0; compare b c = 0\<rbrakk> \<Longrightarrow> compare a c = 0"
  using trans [of a b c] trans [of c b a] flip [of a b] flip [of b c] flip_le [of a c] by force

lemma equiv_left: "\<lbrakk>valid a; valid b; valid c; compare a b = 0\<rbrakk> \<Longrightarrow> compare a c < 0 \<longleftrightarrow> compare b c < 0"
  using le_less_trans [of a b c] le_less_trans [of b a c] flip(2) [of a b] by force

end

text \<open>
  A comparator also shortens keys. The last law is not in the documentation of the
  interface: the internal comparator relies on it when two keys have the same user key.
\<close>

locale comparator = key_order compare valid for compare :: compare_fn and valid +
  fixes separator :: "byte list \<Rightarrow> byte list \<Rightarrow> byte list"
    and successor :: "byte list \<Rightarrow> byte list"
  assumes separator_valid: "\<lbrakk>valid a; valid b\<rbrakk> \<Longrightarrow> valid (separator a b)"
    and successor_valid: "valid a \<Longrightarrow> valid (successor a)"
    and separator_less: "\<lbrakk>valid a; valid b; compare a b < 0\<rbrakk> \<Longrightarrow> compare a (separator a b) \<le> 0 \<and> compare (separator a b) b < 0"
    and successor_le: "valid a \<Longrightarrow> compare a (successor a) \<le> 0"
    and separator_other: "\<lbrakk>valid a; valid b; compare a b \<ge> 0\<rbrakk> \<Longrightarrow> separator a b = a"

section \<open>The bytewise comparator keeps the contract\<close>

lemma Slice_compare_simps [simp]:
  "Slice_compare [] [] = 0" "Slice_compare [] (b # bs) = - 1" "Slice_compare (a # as) [] = 1"
  "Slice_compare (a # as) (b # bs) = (if a < b then - 1 else if b < a then 1 else Slice_compare as bs)"
  by (simp_all add: Slice_compare_def Let_def)

lemma Slice_compare_flip: "Slice_compare b a = - Slice_compare a b"
proof (induction a arbitrary: b)
  case (Cons x a)
  then show ?case by (cases b) auto
qed (case_tac b, simp_all)

lemma Slice_compare_le_trans: "Slice_compare a b \<le> 0 \<Longrightarrow> Slice_compare b c \<le> 0 \<Longrightarrow> Slice_compare a c \<le> 0"
proof (induction a arbitrary: b c)
  case Nil
  show ?case by (cases c) simp_all
next
  case (Cons x a)
  then show ?case by (cases b; cases c) (auto split: if_splits)
qed

lemma Slice_compare_0 [simp]: "Slice_compare a b = 0 \<longleftrightarrow> a = b"
proof (induction a arbitrary: b)
  case (Cons x a)
  then show ?case by (cases b) auto
qed (case_tac b, simp_all)

lemma Slice_compare_self [simp]: "Slice_compare a a = 0"
  by simp

lemma Slice_compare_less: "Slice_compare a b < 0 \<longleftrightarrow> ord_class.lexordp a b"
proof (induction a arbitrary: b)
  case (Cons x a)
  then show ?case by (cases b) auto
qed (case_tac b, simp_all)

lemma Slice_compare_append [simp]: "Slice_compare (p @ a) (p @ b) = Slice_compare a b"
  by (induction p) simp_all

lemma diff_index_prefix:
  assumes "j \<le> min_length" "min_length = min (length start) (length limit)" "take j start = take j limit"
    "i = diff_index start limit min_length j"
  shows "take i start = take i limit \<and> i \<le> min_length \<and> (i < min_length \<longrightarrow> start ! i \<noteq> limit ! i)"
  using assms
proof (induction start limit min_length j rule: diff_index.induct)
  case (1 start limit min_length j)
  show ?case
  proof (cases "j < min_length \<and> start ! j = limit ! j")
    case True
    then have "take (j + 1) start = take (j + 1) limit" using 1(3,4) by (simp add: take_Suc_conv_app_nth)
    moreover have "i = diff_index start limit min_length (j + 1)" using 1(5) True by (subst (asm) diff_index.simps) simp
    ultimately show ?thesis using 1(1) [OF True] True 1(3) by simp
  next
    case False
    then have "i = j" using 1(5) by (subst (asm) diff_index.simps) auto
    then show ?thesis using False 1(2,4) by blast
  qed
qed

lemma unat_byte_Suc: "unat (x :: byte) < 255 \<Longrightarrow> unat (x + 1) = unat x + 1"
  using unat_add_no_overflow [of x 1] by simp

lemma take_update_last: "i < length xs \<Longrightarrow> take (Suc i) (xs[i := x]) = take i xs @ [x]"
  by (simp add: take_Suc_conv_app_nth)

lemma Bytewise_separator_cases:
  obtains "Bytewise_FindShortestSeparator a b = a"
  | p x as y bs where "x < x + 1" "x + 1 < y" "a = p @ x # as" "b = p @ y # bs" "Bytewise_FindShortestSeparator a b = p @ [x + 1]"
proof -
  define n where "n = min (length a) (length b)"
  define i where "i = diff_index a b n 0"
  have i: "take i a = take i b" "i \<le> n" using diff_index_prefix [of 0 n a b i] by (simp_all add: n_def i_def)
  show thesis
  proof (cases "i < n \<and> a ! i < 0xff \<and> unat (a ! i) + 1 < unat (b ! i)")
    case True
    then have len: "i < length a" "i < length b" by (simp_all add: n_def)
    have "unat (a ! i + 1) = unat (a ! i) + 1" using True unat_byte_less [of "b ! i"] by (intro unat_byte_Suc) linarith
    then have "a ! i < a ! i + 1" "a ! i + 1 < b ! i" using True by (simp_all add: word_less_nat_alt)
    moreover have "a = take i a @ a ! i # drop (Suc i) a" "b = take i a @ b ! i # drop (Suc i) b"
      using id_take_nth_drop [OF len(1)] id_take_nth_drop [OF len(2)] i(1) by simp_all
    moreover have "Bytewise_FindShortestSeparator a b = take i a @ [a ! i + 1]"
      using True len by (simp add: Bytewise_FindShortestSeparator_def Let_def take_update_last flip: n_def i_def)
    ultimately show thesis by (rule that(2))
  next
    case False
    then have "Bytewise_FindShortestSeparator a b = a" by (auto simp: Bytewise_FindShortestSeparator_def Let_def simp flip: n_def i_def)
    then show thesis by (rule that(1))
  qed
qed

lemma successor_loop_le: "set is \<subseteq> {0..<length key} \<Longrightarrow> Slice_compare key (successor_loop key is) \<le> 0"
proof (induction "is")
  case (Cons i "is")
  have "Slice_compare key (take i key @ [key ! i + 1]) \<le> 0" if "key ! i \<noteq> 0xff"
  proof -
    have "unat (key ! i) \<noteq> unat (0xff :: byte)" using that by (simp only: word_unat_eq_iff [symmetric] not_False_eq_True)
    then have "unat (key ! i) < 255" using unat_byte_less [of "key ! i"] by (simp del: unat_byte_less)
    then have "unat (key ! i + 1) = unat (key ! i) + 1" by (rule unat_byte_Suc)
    then have "key ! i < key ! i + 1" by (simp add: word_less_nat_alt)
    moreover have "key = take i key @ key ! i # drop (Suc i) key" using Cons.prems by (simp add: id_take_nth_drop)
    then have "Slice_compare key (take i key @ [key ! i + 1]) = Slice_compare (key ! i # drop (Suc i) key) [key ! i + 1]"
      by (metis Slice_compare_append)
    ultimately show ?thesis by simp
  qed
  with Cons show ?case by (auto simp: Let_def take_update_last)
qed simp

interpretation bytewise: comparator Slice_compare "\<lambda>_. True" Bytewise_FindShortestSeparator Bytewise_FindShortSuccessor
proof unfold_locales
  show "sgn (Slice_compare b a) = - sgn (Slice_compare a b)" for a b by (subst Slice_compare_flip) (simp add: sgn_minus)
  show "Slice_compare a c \<le> 0" if "Slice_compare a b \<le> 0" "Slice_compare b c \<le> 0" for a b c
    using that by (rule Slice_compare_le_trans)
  show "Slice_compare a (Bytewise_FindShortestSeparator a b) \<le> 0 \<and> Slice_compare (Bytewise_FindShortestSeparator a b) b < 0"
    if "Slice_compare a b < 0" for a b
    using that by (cases rule: Bytewise_separator_cases [of a b]) (simp_all add: order_less_imp_le Slice_compare_0 [THEN iffD2])
  show "Slice_compare a (Bytewise_FindShortSuccessor a) \<le> 0" for a
    unfolding Bytewise_FindShortSuccessor_def by (rule successor_loop_le) auto
  show "Bytewise_FindShortestSeparator a b = a" if "0 \<le> Slice_compare a b" for a b
    using that by (cases rule: Bytewise_separator_cases [of a b]) (simp_all split: if_splits)
qed simp_all

section \<open>Internal keys keep the contract\<close>

lemma ExtractUserKey_append [simp]: "length tag = 8 \<Longrightarrow> ExtractUserKey (user @ tag) = user"
  by (simp add: ExtractUserKey_def)

lemma PutFixed64_key [simp]:
  "ExtractUserKey (PutFixed64 user num) = user" "key_tag (PutFixed64 user num) = num" "length (PutFixed64 user num) = length user + 8"
  using DecodeFixed64_Encode [of num "[]"] by (simp_all add: PutFixed64_def ExtractUserKey_def key_tag_def)

lemma PackSequenceAndType_bounds:
  assumes "s \<le> kMaxSequenceNumber"
  shows "unat (PackSequenceAndType s t) = 256 * unat s + unat (value_type_code t)"
proof -
  have "unat s < 2 ^ 56" using assms by (simp add: kMaxSequenceNumber_def word_le_nat_alt)
  then have *: "unat (push_bit 8 s) = 256 * unat s" by (simp add: push_bit_eq_mult unat_word_ariths mult.commute)
  have "push_bit 8 s AND value_type_code t = 0"
    by (rule bit_word_eqI) (auto simp: bit_simps value_type_code_def bit_1_iff split: ValueType.splits)
  then have "PackSequenceAndType s t = push_bit 8 s + value_type_code t"
    by (simp add: PackSequenceAndType_def disjunctive_add_eq_or)
  moreover have "unat (value_type_code t) \<le> 1" by (simp add: value_type_code_def split: ValueType.split)
  ultimately show ?thesis using * \<open>unat s < 2 ^ 56\<close> by (simp add: unat_add_no_overflow)
qed

context comparator
begin

abbreviation internal_valid :: "byte list \<Rightarrow> bool" where
  "internal_valid k \<equiv> 8 \<le> length k \<and> valid (ExtractUserKey k)"

lemma internal_less:
  "\<lbrakk>internal_valid a; internal_valid b\<rbrakk> \<Longrightarrow>
    Internal_Compare compare a b < 0 \<longleftrightarrow> compare (ExtractUserKey a) (ExtractUserKey b) < 0 \<or>
      compare (ExtractUserKey a) (ExtractUserKey b) = 0 \<and> key_tag b < key_tag a"
  by (auto simp: Internal_Compare_def Let_def)

lemma internal_le:
  "Internal_Compare compare a b \<le> 0 \<longleftrightarrow> compare (ExtractUserKey a) (ExtractUserKey b) < 0 \<or>
      compare (ExtractUserKey a) (ExtractUserKey b) = 0 \<and> key_tag b \<le> key_tag a"
  by (auto simp: Internal_Compare_def Let_def)

lemma internal_sign:
  assumes "internal_valid a" "internal_valid b"
  shows "sgn (Internal_Compare compare b a) = - sgn (Internal_Compare compare a b)"
  using assms sign [of "ExtractUserKey a" "ExtractUserKey b"] by (auto simp: Internal_Compare_def Let_def sgn_if split: if_splits)

lemma internal_comp_self: "internal_valid a \<Longrightarrow> Internal_Compare compare a a = 0"
  by (simp add: Internal_Compare_def)

lemma internal_trans:
  assumes "internal_valid a" "internal_valid b" "internal_valid c" "Internal_Compare compare a b \<le> 0" "Internal_Compare compare b c \<le> 0"
  shows "Internal_Compare compare a c \<le> 0"
proof -
  let ?a = "ExtractUserKey a" and ?b = "ExtractUserKey b" and ?c = "ExtractUserKey c"
  have ab: "compare ?a ?b < 0 \<or> compare ?a ?b = 0 \<and> key_tag b \<le> key_tag a" and bc: "compare ?b ?c < 0 \<or> compare ?b ?c = 0 \<and> key_tag c \<le> key_tag b"
    using assms(4,5) by (simp_all only: internal_le)
  have v: "valid ?a" "valid ?b" "valid ?c" using assms by simp_all
  show ?thesis unfolding internal_le using ab bc less_le_trans [OF v] le_less_trans [OF v] eq_trans [OF v] order_trans [of "key_tag c" "key_tag b" "key_tag a"]
    by (metis less_imp_le order_refl)
qed

text \<open>A shortened user key, followed by the largest tag, lies strictly above every key of a smaller user key.\<close>

lemma internal_separator:
  assumes "internal_valid a" "internal_valid b" "Internal_Compare compare a b < 0"
  shows "Internal_Compare compare a (Internal_FindShortestSeparator compare separator a b) \<le> 0 \<and>
    Internal_Compare compare (Internal_FindShortestSeparator compare separator a b) b < 0"
proof (cases "compare (ExtractUserKey a) (ExtractUserKey b) < 0")
  case True
  have s: "compare (separator (ExtractUserKey a) (ExtractUserKey b)) (ExtractUserKey b) < 0"
    using separator_less [OF _ _ True] assms by simp
  show ?thesis
  proof (cases "Internal_FindShortestSeparator compare separator a b = a")
    case False
    then show ?thesis using s by (auto simp: Internal_FindShortestSeparator_def Let_def Internal_Compare_def split: if_splits)
  qed (use assms internal_comp_self in simp)
next
  case False
  then have "separator (ExtractUserKey a) (ExtractUserKey b) = ExtractUserKey a" using assms separator_other by simp
  then have "Internal_FindShortestSeparator compare separator a b = a" by (simp add: Internal_FindShortestSeparator_def Let_def)
  then show ?thesis using assms internal_comp_self by simp
qed

lemma internal_comparator:
  "comparator (Internal_Compare compare) internal_valid (Internal_FindShortestSeparator compare separator)
     (Internal_FindShortSuccessor compare successor)"
proof unfold_locales
  show "internal_valid (Internal_FindShortestSeparator compare separator a b)" if "internal_valid a" "internal_valid b" for a b
    using that separator_valid by (simp add: Internal_FindShortestSeparator_def Let_def)
  show "internal_valid (Internal_FindShortSuccessor compare successor a)" if "internal_valid a" for a
    using that successor_valid by (simp add: Internal_FindShortSuccessor_def Let_def)
  show "Internal_Compare compare a (Internal_FindShortSuccessor compare successor a) \<le> 0" if "internal_valid a" for a
    using that by (simp add: Internal_FindShortSuccessor_def Let_def internal_le)
  show "Internal_FindShortestSeparator compare separator a b = a" if "internal_valid a" "internal_valid b" "0 \<le> Internal_Compare compare a b" for a b
    using that separator_other [of "ExtractUserKey a" "ExtractUserKey b"]
    by (auto simp: Internal_FindShortestSeparator_def Let_def Internal_Compare_def split: if_splits)
qed (use internal_sign internal_trans internal_separator in blast)+

end

interpretation internal_bytewise: comparator "Internal_Compare Slice_compare" "\<lambda>k. 8 \<le> length k \<and> True"
  "Internal_FindShortestSeparator Slice_compare Bytewise_FindShortestSeparator"
  "Internal_FindShortSuccessor Slice_compare Bytewise_FindShortSuccessor"
  by (rule bytewise.internal_comparator)

section \<open>Encoding of internal keys\<close>

lemma ParseInternalKey_Append:
  assumes "pk_sequence k \<le> kMaxSequenceNumber"
  shows "ParseInternalKey (AppendInternalKey [] k) = Some k"
proof -
  let ?num = "PackSequenceAndType (pk_sequence k) (pk_type k)"
  have small: "unat (value_type_code (pk_type k)) < 256" by (simp add: value_type_code_def split: ValueType.split)
  have n: "unat ?num = 256 * unat (pk_sequence k) + unat (value_type_code (pk_type k))" using assms by (rule PackSequenceAndType_bounds)
  have "unat (?num AND 255) = unat (value_type_code (pk_type k))" using small by (simp add: unat_and_255 n)
  then have c: "?num AND 255 = value_type_code (pk_type k)" by (rule unsigned_word_eqI)
  have "unat (drop_bit 8 ?num) = unat (pk_sequence k)" using small by (simp add: unat_drop_bit_word n)
  then have "drop_bit 8 ?num = pk_sequence k" by (rule unsigned_word_eqI)
  moreover have "key_tag (AppendInternalKey [] k) = ?num" "ExtractUserKey (AppendInternalKey [] k) = pk_user_key k"
    "length (AppendInternalKey [] k) = length (pk_user_key k) + 8" by (simp_all only: AppendInternalKey_def PutFixed64_key append_Nil)
  ultimately show ?thesis using c
    by (cases k) (auto simp: ParseInternalKey_def Let_def ExtractUserKey_def value_type_code_def split: ValueType.splits)
qed

lemma ParseInternalKey_Some:
  assumes "ParseInternalKey ik = Some k"
  shows "AppendInternalKey [] k = ik" "pk_sequence k \<le> kMaxSequenceNumber"
proof -
  let ?num = "key_tag ik"
  from assms have n: "8 \<le> length ik" and c: "?num AND 255 \<le> value_type_code kTypeValue"
    and k: "k = \<lparr>pk_user_key = take (length ik - 8) ik, pk_sequence = drop_bit 8 ?num, pk_type = (if ?num AND 255 = 0 then kTypeDeletion else kTypeValue)\<rparr>"
    by (auto simp: ParseInternalKey_def Let_def split: if_splits)
  have "unat (?num AND 255) \<le> 1" using c by (simp add: value_type_code_def word_le_nat_alt)
  then have "unat (?num AND 255) = 0 \<or> unat (?num AND 255) = 1" by linarith
  then have "?num AND 255 = 0 \<or> ?num AND 255 = 1" by (metis unat_eq_zero unat_1 word_unat_eq_iff)
  then have t: "value_type_code (pk_type k) = ?num AND 255" by (auto simp: k value_type_code_def)
  have "PackSequenceAndType (pk_sequence k) (pk_type k) = ?num"
  proof -
    have "push_bit 8 (drop_bit 8 ?num) OR (?num AND 255) = ?num"
    proof (rule bit_word_eqI)
      fix i assume "i < LENGTH(64)"
      then show "bit (push_bit 8 (drop_bit 8 ?num) OR (?num AND 255)) i = bit ?num i"
        using bit_take_bit_iff [of 8 ?num i] by (auto simp: bit_simps take_bit_eq_mask mask_eq_exp_minus_1)
    qed
    then show ?thesis by (simp only: PackSequenceAndType_def t) (simp add: k)
  qed
  then have "AppendInternalKey [] k = take (length ik - 8) ik @ EncodeFixed64 (key_tag ik)"
    by (simp add: AppendInternalKey_def PutFixed64_def k)
  also have "EncodeFixed64 (key_tag ik) = drop (length ik - 8) ik" using n unfolding key_tag_def by (intro EncodeFixed64_Decode) simp
  finally show "AppendInternalKey [] k = ik" by simp
  have "unat (drop_bit 8 ?num) < 2 ^ 56" using unat_lt_64 [of ?num] by (simp add: unat_drop_bit_word)
  then show "pk_sequence k \<le> kMaxSequenceNumber" by (simp add: k kMaxSequenceNumber_def word_le_nat_alt)
qed

lemma LookupKey_parts:
  assumes "k = new_LookupKey user s"
  shows "lookup_user_key k = user" "internal_key k = AppendInternalKey [] \<lparr>pk_user_key = user, pk_sequence = s, pk_type = kTypeValue\<rparr>"
    "memtable_key k = EncodeVarint32 (of_nat (length (internal_key k))) @ internal_key k"
  by (simp_all add: assms new_LookupKey_def Let_def lookup_user_key_def internal_key_def memtable_key_def AppendInternalKey_def PutFixed64_def)

end
