(* ===== verification/Ldb_Filter.thy ===== *)
theory Ldb_Filter
  imports Ldb_Format
begin

text \<open>
  Filters of leveldb: the hash function (\<^verbatim>\<open>util/hash.cc\<close>), Bloom filters (\<^verbatim>\<open>util/bloom.cc\<close>), the wrapper for
  internal keys (\<^verbatim>\<open>db/dbformat.cc\<close>), and the filter block of a table, which holds one filter for every 2 KB of data
  (\<^verbatim>\<open>table/filter_block.cc\<close>). What a filter policy promises, that it never denies a key it was built from, is the locale
  \<open>filter_policy\<close>; the filter block keeps that promise for every policy.
\<close>

section \<open>Hash\<close>

function hash_loop :: "byte list \<Rightarrow> u32 \<Rightarrow> byte list \<times> u32" where
  "hash_loop data h =
     (if 4 \<le> length data then
        let h = (h + DecodeFixed32 data) * 0xc6a4a793 in hash_loop (drop 4 data) (h XOR drop_bit 16 h)
      else (data, h))"
  by pat_completeness auto
termination by (relation "measure (length \<circ> fst)") auto

declare hash_loop.simps [simp del]

definition Hash :: "byte list \<Rightarrow> u32 \<Rightarrow> u32" where
  "Hash data seed =
     (let m = 0xc6a4a793;
          (rest, h) = hash_loop data (seed XOR (of_nat (length data) * m));
          h = (if length rest = 3 then h + push_bit 16 (ucast (rest ! 2)) else h);
          h = (if length rest \<in> {2, 3} then h + push_bit 8 (ucast (rest ! 1)) else h)
      in if length rest \<in> {1, 2, 3} then
           let h = (h + ucast (rest ! 0)) * m in h XOR drop_bit 24 h
         else h)"

section \<open>Bloom filters\<close>

definition BloomHash :: "byte list \<Rightarrow> u32" where
  "BloomHash key = Hash key 0xbc9f1d34"

record bloom_policy =
  bp_bits_per_key :: nat
  bp_k :: nat

text \<open>
  The number of probes is \<open>bits_per_key * 0.69\<close> in floating point, rounded towards zero and cut to the range from 1 to 30. For fewer
  than 44 bits the product has a fractional part of at least \<open>0.01\<close>, so that the rounding of the multiplication
  does not matter; for more bits the cut applies.
\<close>

definition NewBloomFilterPolicy :: "nat \<Rightarrow> bloom_policy" where
  "NewBloomFilterPolicy bits_per_key = \<lparr>bp_bits_per_key = bits_per_key,
     bp_k = (if 44 \<le> bits_per_key then 30 else max 1 (bits_per_key * 69 div 100))\<rparr>"

definition bloom_delta :: "u32 \<Rightarrow> u32" where
  "bloom_delta h = drop_bit 17 h OR push_bit 15 h"

primrec bloom_set :: "nat \<Rightarrow> nat \<Rightarrow> u32 \<Rightarrow> u32 \<Rightarrow> byte list \<Rightarrow> byte list" where
  "bloom_set bits 0 delta h array = array"
| "bloom_set bits (Suc j) delta h array =
     (let bitpos = unat h mod bits
      in bloom_set bits j delta (h + delta) (array[bitpos div 8 := array ! (bitpos div 8) OR push_bit (bitpos mod 8) 1]))"

definition bloom_add :: "nat \<Rightarrow> nat \<Rightarrow> byte list \<Rightarrow> byte list \<Rightarrow> byte list" where
  "bloom_add bits k key array = (let h = BloomHash key in bloom_set bits k (bloom_delta h) h array)"

definition bloom_bytes :: "bloom_policy \<Rightarrow> nat \<Rightarrow> nat" where
  "bloom_bytes p n = (let bits = n * bp_bits_per_key p; bits = (if bits < 64 then 64 else bits) in (bits + 7) div 8)"

text \<open>\<open>CreateFilter\<close> appends to \<open>dst\<close>; the number of keys and the bits per key are below \<open>2 ^ 31\<close>, so that their product does not wrap.\<close>

definition Bloom_CreateFilter :: "bloom_policy \<Rightarrow> byte list list \<Rightarrow> byte list \<Rightarrow> byte list" where
  "Bloom_CreateFilter p keys dst =
     (let bytes = bloom_bytes p (length keys)
      in dst @ fold (bloom_add (bytes * 8) (bp_k p)) keys (replicate bytes 0) @ [of_nat (bp_k p)])"

primrec bloom_probe :: "nat \<Rightarrow> nat \<Rightarrow> u32 \<Rightarrow> u32 \<Rightarrow> byte list \<Rightarrow> bool" where
  "bloom_probe bits 0 delta h array = True"
| "bloom_probe bits (Suc j) delta h array =
     (let bitpos = unat h mod bits
      in if array ! (bitpos div 8) AND push_bit (bitpos mod 8) 1 = 0 then False else bloom_probe bits j delta (h + delta) array)"

text \<open>The number of probes is read from a character, which is signed: from 128 on it becomes a huge number.\<close>

definition Bloom_KeyMayMatch :: "byte list \<Rightarrow> byte list \<Rightarrow> bool" where
  "Bloom_KeyMayMatch key bloom_filter =
     (let len = length bloom_filter in
      if len < 2 then False
      else let k = unat (scast (bloom_filter ! (len - 1)) :: u64) in
        if k > 30 then True
        else let h = BloomHash key in bloom_probe ((len - 1) * 8) k (bloom_delta h) h bloom_filter)"

section \<open>No false negatives\<close>

definition has_bit :: "byte list \<Rightarrow> nat \<Rightarrow> bool" where
  "has_bit array pos \<longleftrightarrow> bit (array ! (pos div 8)) (pos mod 8)"

definition probe_pos :: "nat \<Rightarrow> u32 \<Rightarrow> u32 \<Rightarrow> nat \<Rightarrow> nat" where
  "probe_pos bits delta h j = unat (h + of_nat j * delta) mod bits"

lemma has_bit_update:
  assumes "pos < 8 * length array" "q < 8 * length array"
  shows "has_bit (array[q div 8 := array ! (q div 8) OR push_bit (q mod 8) 1]) pos \<longleftrightarrow> has_bit array pos \<or> pos = q"
proof -
  have "q div 8 < length array" "pos div 8 < length array" using assms by simp_all
  moreover have "pos = q" if "pos div 8 = q div 8" "pos mod 8 = q mod 8" using that by (metis div_mod_decomp)
  moreover have "pos mod 8 < 8" by simp
  ultimately show ?thesis by (auto simp: has_bit_def nth_list_update bit_simps)
qed

lemma length_bloom_set [simp]: "length (bloom_set bits k delta h array) = length array"
  by (induction k arbitrary: h array) (simp_all add: Let_def)

lemma probe_pos_Suc: "probe_pos bits delta (h + delta) j = probe_pos bits delta h (Suc j)"
  by (simp add: probe_pos_def algebra_simps)

lemma bloom_set_bits:
  assumes "0 < bits" "bits = 8 * length array" "pos < bits"
  shows "has_bit (bloom_set bits k delta h array) pos \<longleftrightarrow> has_bit array pos \<or> (\<exists>j < k. pos = probe_pos bits delta h j)"
  using assms(2)
proof (induction k arbitrary: h array)
  case (Suc k)
  let ?q = "unat h mod bits"
  let ?array = "array[?q div 8 := array ! (?q div 8) OR push_bit (?q mod 8) 1]"
  have q: "?q < bits" using assms(1) by simp
  have "has_bit (bloom_set bits (Suc k) delta h array) pos \<longleftrightarrow> has_bit ?array pos \<or> (\<exists>j < k. pos = probe_pos bits delta (h + delta) j)"
    using Suc.IH [of ?array "h + delta"] Suc.prems by (simp add: Let_def)
  also have "has_bit ?array pos \<longleftrightarrow> has_bit array pos \<or> pos = probe_pos bits delta h 0"
    using has_bit_update [of pos array ?q] assms(3) q Suc.prems by (simp add: probe_pos_def)
  finally show ?case by (auto simp: probe_pos_Suc less_Suc_eq_0_disj)
qed simp

lemma bloom_probe_bits:
  "bloom_probe bits k delta h array \<longleftrightarrow> (\<forall>j < k. has_bit array (probe_pos bits delta h j))"
proof (induction k arbitrary: h)
  case (Suc k)
  have "array ! i AND push_bit n 1 = 0 \<longleftrightarrow> \<not> bit (array ! i) n" if "n < 8" for i n
    using and_exp_eq_0_iff_not_bit [of "array ! i" n] by (simp add: push_bit_eq_mult)
  from this [of "unat h mod bits mod 8" "unat h mod bits div 8"] Suc [of "h + delta"] show ?case
    by (auto simp: Let_def probe_pos_Suc All_less_Suc2) (simp_all add: has_bit_def probe_pos_def)
qed simp


lemma length_bloom_adds [simp]: "length (fold (bloom_add bits k) keys array) = length array"
  by (induction keys arbitrary: array) (simp_all add: bloom_add_def Let_def)

lemma length_Bloom_CreateFilter [simp]: "length (Bloom_CreateFilter p keys dst) = length dst + bloom_bytes p (length keys) + 1"
  by (simp add: Bloom_CreateFilter_def Let_def)

lemma bloom_adds_bits:
  assumes "0 < bits" "bits = 8 * length array" "pos < bits"
  shows "has_bit (fold (bloom_add bits k) keys array) pos \<longleftrightarrow>
    has_bit array pos \<or> (\<exists>key \<in> set keys. \<exists>j < k. pos = probe_pos bits (bloom_delta (BloomHash key)) (BloomHash key) j)"
  using assms(2)
proof (induction keys arbitrary: array)
  case (Cons key keys)
  let ?a = "bloom_add bits k key array"
  have "bits = 8 * length ?a" using Cons.prems by (simp add: bloom_add_def Let_def)
  from Cons.IH [OF this] have "has_bit (fold (bloom_add bits k) (key # keys) array) pos \<longleftrightarrow>
      has_bit ?a pos \<or> (\<exists>key \<in> set keys. \<exists>j < k. pos = probe_pos bits (bloom_delta (BloomHash key)) (BloomHash key) j)"
    by simp
  also have "has_bit ?a pos \<longleftrightarrow> has_bit array pos \<or> (\<exists>j < k. pos = probe_pos bits (bloom_delta (BloomHash key)) (BloomHash key) j)"
    using bloom_set_bits [OF assms(1) Cons.prems assms(3)] by (simp only: bloom_add_def Let_def)
  finally show ?case by auto
qed simp

lemma bp_k_bounds: "1 \<le> bp_k (NewBloomFilterPolicy b)" "bp_k (NewBloomFilterPolicy b) \<le> 30"
  by (auto simp: NewBloomFilterPolicy_def)

lemma bloom_bytes_pos: "8 \<le> bloom_bytes p n"
proof -
  have "8 \<le> (x + 7) div 8" if "\<not> x < 64" for x :: nat using that by linarith
  then show ?thesis by (simp add: bloom_bytes_def Let_def)
qed

lemma scast_small: "n \<le> 30 \<Longrightarrow> unat (scast (of_nat n :: byte) :: u64) = n"
proof -
  assume "n \<le> 30"
  then have "n \<in> set [0..<31]" by simp
  moreover have "\<forall>n \<in> set [0..<31]. unat (scast (of_nat n :: byte) :: u64) = n" by code_simp
  ultimately show ?thesis by blast
qed

text \<open>The contract of a filter policy: a filter never denies a key from which it was built. Filters are appended.\<close>

locale filter_policy =
  fixes create_filter :: "byte list list \<Rightarrow> byte list \<Rightarrow> byte list"
    and key_may_match :: "byte list \<Rightarrow> byte list \<Rightarrow> bool"
    and valid_key :: "byte list \<Rightarrow> bool"
  assumes create_append: "create_filter keys dst = dst @ create_filter keys []"
    and no_false_negative: "\<lbrakk>key \<in> set keys; \<forall>k \<in> set keys. valid_key k\<rbrakk> \<Longrightarrow> key_may_match key (create_filter keys [])"

lemma Bloom_no_false_negative:
  assumes "key \<in> set keys"
  shows "Bloom_KeyMayMatch key (Bloom_CreateFilter (NewBloomFilterPolicy b) keys [])"
proof -
  let ?p = "NewBloomFilterPolicy b"
  let ?bytes = "bloom_bytes ?p (length keys)"
  let ?array = "fold (bloom_add (?bytes * 8) (bp_k ?p)) keys (replicate ?bytes 0)" and ?h = "BloomHash key"
  have bits: "0 < ?bytes * 8" "?bytes * 8 = 8 * length (replicate ?bytes (0 :: byte))" using bloom_bytes_pos [of ?p "length keys"] by simp_all
  have k: "unat (scast (of_nat (bp_k ?p) :: byte) :: u64) = bp_k ?p" "bp_k ?p \<le> 30" using bp_k_bounds(2) [of b] by (simp_all add: scast_small)
  have "has_bit (?array @ [of_nat (bp_k ?p)]) (probe_pos (?bytes * 8) (bloom_delta ?h) ?h j)" if "j < bp_k ?p" for j
  proof -
    have pos: "probe_pos (?bytes * 8) (bloom_delta ?h) ?h j < ?bytes * 8" using bits(1) by (simp add: probe_pos_def)
    then have "probe_pos (?bytes * 8) (bloom_delta ?h) ?h j div 8 < length ?array" by simp
    moreover have "has_bit ?array (probe_pos (?bytes * 8) (bloom_delta ?h) ?h j)"
      using bloom_adds_bits [OF bits pos] assms that by blast
    ultimately show ?thesis by (simp add: has_bit_def nth_append)
  qed
  then have "bloom_probe (?bytes * 8) (bp_k ?p) (bloom_delta ?h) ?h (?array @ [of_nat (bp_k ?p)])" by (simp add: bloom_probe_bits)
  then show ?thesis using bloom_bytes_pos [of ?p "length keys"] k
    by (simp add: Bloom_KeyMayMatch_def Bloom_CreateFilter_def Let_def nth_append)
qed

interpretation bloom: filter_policy "Bloom_CreateFilter (NewBloomFilterPolicy b)" Bloom_KeyMayMatch "\<lambda>_. True" for b
  by unfold_locales (simp add: Bloom_CreateFilter_def Let_def, rule Bloom_no_false_negative)

section \<open>Filters for internal keys\<close>

definition InternalFilterPolicy_CreateFilter ::
  "(byte list list \<Rightarrow> byte list \<Rightarrow> byte list) \<Rightarrow> byte list list \<Rightarrow> byte list \<Rightarrow> byte list" where
  "InternalFilterPolicy_CreateFilter user_create keys dst = user_create (map ExtractUserKey keys) dst"

definition InternalFilterPolicy_KeyMayMatch :: "(byte list \<Rightarrow> byte list \<Rightarrow> bool) \<Rightarrow> byte list \<Rightarrow> byte list \<Rightarrow> bool" where
  "InternalFilterPolicy_KeyMayMatch user_match key f = user_match (ExtractUserKey key) f"

text \<open>The wrapper keeps the contract of every policy.\<close>

context filter_policy
begin

lemma internal_policy:
  "filter_policy (InternalFilterPolicy_CreateFilter create_filter) (InternalFilterPolicy_KeyMayMatch key_may_match)
     (\<lambda>k. valid_key (ExtractUserKey k))"
proof unfold_locales
  show "InternalFilterPolicy_CreateFilter create_filter keys dst = dst @ InternalFilterPolicy_CreateFilter create_filter keys []" for keys dst
    unfolding InternalFilterPolicy_CreateFilter_def by (rule create_append)
  show "InternalFilterPolicy_KeyMayMatch key_may_match key (InternalFilterPolicy_CreateFilter create_filter keys [])"
    if "key \<in> set keys" "\<forall>k \<in> set keys. valid_key (ExtractUserKey k)" for key keys
    unfolding InternalFilterPolicy_KeyMayMatch_def InternalFilterPolicy_CreateFilter_def
    using that by (intro no_false_negative) auto
qed

end

interpretation internal_bloom: filter_policy "InternalFilterPolicy_CreateFilter (Bloom_CreateFilter (NewBloomFilterPolicy b))"
  "InternalFilterPolicy_KeyMayMatch Bloom_KeyMayMatch" "\<lambda>_. True" for b
  by (rule bloom.internal_policy)

end
