(* ===== verification/Ldb_Filter_Block.thy ===== *)
theory Ldb_Filter_Block
  imports Ldb_Filter
begin

text \<open>
  The filter block of a table (\<^verbatim>\<open>table/filter_block.cc\<close>): it holds one filter for every 2 KB of data. The policy is an
  argument of the operations; that the block denies no key that was added for a data block is proved for every policy that keeps
  the contract \<open>filter_policy\<close>. The assertion of \<open>StartBlock\<close>, that offsets do not decrease, is a hypothesis.
\<close>

section \<open>Builder\<close>

definition kFilterBaseLg :: nat where "kFilterBaseLg = 11"
definition kFilterBase :: u64 where "kFilterBase = push_bit kFilterBaseLg 1"

record filter_builder =
  fb_keys :: "byte list"
  fb_start :: "nat list"
  fb_result :: "byte list"
  fb_offsets :: "u32 list"

type_synonym policy_create = "byte list list \<Rightarrow> byte list \<Rightarrow> byte list"

definition new_FilterBlockBuilder :: filter_builder where
  "new_FilterBlockBuilder = \<lparr>fb_keys = [], fb_start = [], fb_result = [], fb_offsets = []\<rparr>"

definition tmp_keys :: "filter_builder \<Rightarrow> byte list list" where
  "tmp_keys b =
     (let start = fb_start b @ [length (fb_keys b)]
      in map (\<lambda>i. take (start ! (i + 1) - start ! i) (drop (start ! i) (fb_keys b))) [0..<length (fb_start b)])"

definition GenerateFilter :: "policy_create \<Rightarrow> filter_builder \<Rightarrow> filter_builder" where
  "GenerateFilter create b =
     (let b' = b\<lparr>fb_offsets := fb_offsets b @ [of_nat (length (fb_result b))]\<rparr>
      in if fb_start b = [] then b'
         else b'\<lparr>fb_result := create (tmp_keys b) (fb_result b), fb_keys := [], fb_start := []\<rparr>)"

lemma length_GenerateFilter [simp]: "length (fb_offsets (GenerateFilter create b)) = Suc (length (fb_offsets b))"
  by (simp add: GenerateFilter_def Let_def)

function start_loop :: "policy_create \<Rightarrow> nat \<Rightarrow> filter_builder \<Rightarrow> filter_builder" where
  "start_loop create filter_index b =
     (if filter_index > length (fb_offsets b) then start_loop create filter_index (GenerateFilter create b) else b)"
  by pat_completeness auto
termination by (relation "measure (\<lambda>(_, i, b). i - length (fb_offsets b))") auto

declare start_loop.simps [simp del]

definition StartBlock :: "policy_create \<Rightarrow> u64 \<Rightarrow> filter_builder \<Rightarrow> filter_builder" where
  "StartBlock create block_offset b = start_loop create (unat (block_offset div kFilterBase)) b"

definition AddKey :: "byte list \<Rightarrow> filter_builder \<Rightarrow> filter_builder" where
  "AddKey key b = b\<lparr>fb_start := fb_start b @ [length (fb_keys b)], fb_keys := fb_keys b @ key\<rparr>"

definition Filter_Finish :: "policy_create \<Rightarrow> filter_builder \<Rightarrow> byte list" where
  "Filter_Finish create b =
     (let b = (if fb_start b \<noteq> [] then GenerateFilter create b else b);
          array_offset = of_nat (length (fb_result b));
          result = fold (\<lambda>v r. PutFixed32 r v) (fb_offsets b) (fb_result b)
      in PutFixed32 result array_offset @ [of_nat kFilterBaseLg])"

section \<open>Reader\<close>

text \<open>
  The pointers \<open>data_\<close> and \<open>offset_\<close> are the contents and an index into them. The base is read from a signed
  character. A shift by 64 bits or more is undefined in C++; \<open>drop_bit\<close> gives 0 there.
\<close>

record filter_reader =
  fr_data :: "byte list"
  fr_offset :: nat
  fr_num :: nat
  fr_base_lg :: nat

definition new_FilterBlockReader :: "byte list \<Rightarrow> filter_reader" where
  "new_FilterBlockReader contents =
     (let n = length contents; r = \<lparr>fr_data = [], fr_offset = 0, fr_num = 0, fr_base_lg = 0\<rparr> in
      if n < 5 then r
      else
        let r = r\<lparr>fr_base_lg := unat (scast (contents ! (n - 1)) :: u64)\<rparr>;
            last_word = unat (DecodeFixed32 (drop (n - 5) contents))
        in if last_word > n - 5 then r
           else r\<lparr>fr_data := contents, fr_offset := last_word, fr_num := (n - 5 - last_word) div 4\<rparr>)"

definition Filter_KeyMayMatch :: "(byte list \<Rightarrow> byte list \<Rightarrow> bool) \<Rightarrow> filter_reader \<Rightarrow> u64 \<Rightarrow> byte list \<Rightarrow> bool" where
  "Filter_KeyMayMatch may_match r block_offset key =
     (let index = unat (drop_bit (fr_base_lg r) block_offset) in
      if index < fr_num r then
        let start = unat (DecodeFixed32 (drop (fr_offset r + index * 4) (fr_data r)));
            limit = unat (DecodeFixed32 (drop (fr_offset r + index * 4 + 4) (fr_data r)))
        in if start \<le> limit \<and> limit \<le> fr_offset r then may_match key (take (limit - start) (drop start (fr_data r)))
           else if start = limit then False
           else True
      else True)"

text \<open>Whatever the contents, the reads of the two offsets stay inside them.\<close>

lemma reader_in_bounds:
  assumes "r = new_FilterBlockReader contents" "i < fr_num r"
  shows "fr_offset r + i * 4 + 8 < length (fr_data r)" "fr_data r = contents" "fr_offset r \<le> length contents - 5"
  using assms by (auto simp: new_FilterBlockReader_def Let_def split: if_splits)

section \<open>The state of the builder\<close>

text \<open>
  \<open>builder_rep create b kss pend\<close>: \<open>b\<close> has made the filters of the key lists \<open>kss\<close>, and the keys \<open>pend\<close> wait
  for the next filter.
\<close>

definition filter_of :: "policy_create \<Rightarrow> byte list list \<Rightarrow> byte list" where
  "filter_of create ks = (if ks = [] then [] else create ks [])"

primrec starts :: "nat \<Rightarrow> 'a list list \<Rightarrow> nat list" where
  "starts n [] = []"
| "starts n (k # ks) = n # starts (n + length k) ks"

definition builder_rep :: "policy_create \<Rightarrow> filter_builder \<Rightarrow> byte list list list \<Rightarrow> byte list list \<Rightarrow> bool" where
  "builder_rep create b kss pend \<longleftrightarrow>
     fb_keys b = concat pend \<and> fb_start b = starts 0 pend \<and>
     fb_result b = concat (map (filter_of create) kss) \<and>
     fb_offsets b = map of_nat (starts 0 (map (filter_of create) kss))"

lemma length_starts [simp]: "length (starts n ks) = length ks"
  by (induction ks arbitrary: n) simp_all

lemma starts_append: "starts n (xs @ ys) = starts n xs @ starts (n + length (concat xs)) ys"
  by (induction xs arbitrary: n) (simp_all add: add.assoc)

lemma starts_nth: "i < length ks \<Longrightarrow> starts n ks ! i = n + length (concat (take i ks))"
  by (induction ks arbitrary: n i) (auto simp: nth_Cons split: nat.splits)

lemma starts_Nil_iff [simp]: "starts n ks = [] \<longleftrightarrow> ks = []"
  by (cases ks) simp_all

lemma starts_end_nth: "i \<le> length ks \<Longrightarrow> (starts 0 ks @ [length (concat ks)]) ! i = length (concat (take i ks))"
  by (cases "i = length ks") (simp_all add: nth_append starts_nth)

lemma concat_slice:
  assumes "i < length ks"
  shows "take (length (concat (take (Suc i) ks)) - length (concat (take i ks))) (drop (length (concat (take i ks))) (concat ks)) = ks ! i"
proof -
  have "concat ks = concat (take i ks) @ ks ! i @ concat (drop (Suc i) ks)"
    using assms by (metis append_assoc concat.simps(2) concat_append id_take_nth_drop)
  then show ?thesis using assms by (simp add: take_Suc_conv_app_nth)
qed

lemma tmp_keys_rep: "builder_rep create b kss pend \<Longrightarrow> tmp_keys b = pend"
  by (rule nth_equalityI) (simp_all add: tmp_keys_def builder_rep_def Let_def starts_end_nth concat_slice)

lemma builder_rep_new: "builder_rep create new_FilterBlockBuilder [] []"
  by (simp add: builder_rep_def new_FilterBlockBuilder_def)

lemma builder_rep_AddKey: "builder_rep create b kss pend \<Longrightarrow> builder_rep create (AddKey key b) kss (pend @ [key])"
  by (simp add: builder_rep_def AddKey_def starts_append)

lemma builder_rep_AddKeys: "builder_rep create b kss pend \<Longrightarrow> builder_rep create (fold AddKey keys b) kss (pend @ keys)"
proof (induction keys arbitrary: b pend)
  case (Cons key keys)
  from Cons.IH [OF builder_rep_AddKey [OF Cons.prems]] show ?case by simp
qed simp

context filter_policy
begin

lemma builder_rep_Generate:
  assumes "builder_rep create_filter b kss pend"
  shows "builder_rep create_filter (GenerateFilter create_filter b) (kss @ [pend]) []"
  using assms tmp_keys_rep [OF assms] create_append [of pend "fb_result b"]
  by (auto simp: builder_rep_def GenerateFilter_def Let_def filter_of_def starts_append)

lemma builder_rep_start:
  assumes "builder_rep create_filter b kss pend" "length kss < n"
  shows "builder_rep create_filter (start_loop create_filter n b) (kss @ pend # replicate (n - Suc (length kss)) []) []"
  using assms
proof (induction "n - Suc (length kss)" arbitrary: b kss pend)
  case 0
  then have "length (fb_offsets b) = length kss" "n = Suc (length kss)" by (simp_all add: builder_rep_def)
  then show ?case using builder_rep_Generate [OF 0(2)] by (simp add: start_loop.simps [of _ "Suc (length kss)"])
next
  case (Suc d)
  then have "length (fb_offsets b) = length kss" by (simp add: builder_rep_def)
  then have "start_loop create_filter n b = start_loop create_filter n (GenerateFilter create_filter b)"
    using Suc.prems(2) by (subst start_loop.simps) simp
  moreover have d: "d = n - Suc (length (kss @ [pend]))" "length (kss @ [pend]) < n" using Suc by simp_all
  note Suc.hyps(1) [OF d(1) builder_rep_Generate [OF Suc.prems(1)] d(2)]
  moreover have "n - Suc (length kss) = Suc (n - Suc (length (kss @ [pend])))" using d by simp
  ultimately show ?case by simp
qed

end

section \<open>The finished block\<close>

definition block_of :: "byte list list \<Rightarrow> byte list" where
  "block_of fs =
     concat fs @ concat (map EncodeFixed32 (map of_nat (starts 0 fs @ [length (concat fs)]))) @ [of_nat kFilterBaseLg]"

lemma length_block_of: "length (block_of fs) = length (concat fs) + 4 * length fs + 5"
  by (simp add: block_of_def length_concat_Encode del: map_map map_append)

lemma block_of_offset:
  assumes "i \<le> length fs"
  shows "DecodeFixed32 (drop (length (concat fs) + i * 4) (block_of fs)) = of_nat (length (concat (take i fs)))"
proof -
  let ?vs = "map of_nat (starts 0 fs @ [length (concat fs)]) :: u32 list"
  have "drop (length (concat fs) + i * 4) (block_of fs) = drop (4 * i) (concat (map EncodeFixed32 ?vs) @ [of_nat kFilterBaseLg])"
    by (simp only: block_of_def drop_append) (simp add: mult.commute)
  moreover have "DecodeFixed32 \<dots> = ?vs ! i" using assms DecodeFixed32_nth [of i ?vs] by (simp add: mult.commute)
  moreover have "?vs ! i = of_nat (length (concat (take i fs)))" using assms starts_end_nth [of i fs] by (simp only: nth_map length_append length_starts length_Cons list.size)
  ultimately show ?thesis by (simp only:)
qed

lemma reader_block_of:
  assumes "length (concat fs) < 2 ^ 32"
  shows "new_FilterBlockReader (block_of fs) =
    \<lparr>fr_data = block_of fs, fr_offset = length (concat fs), fr_num = length fs, fr_base_lg = 11\<rparr>"
proof -
  have "DecodeFixed32 (drop (length (block_of fs) - 5) (block_of fs)) = of_nat (length (concat fs))"
    using block_of_offset [of "length fs" fs] by (simp add: length_block_of mult.commute)
  moreover have "block_of fs ! (length (block_of fs) - 1) = 11"
    using last_conv_nth [of "block_of fs"] by (simp add: block_of_def kFilterBaseLg_def)
  moreover have "unat (scast (11 :: byte) :: u64) = 11" by code_simp
  ultimately show ?thesis using assms
    by (simp add: new_FilterBlockReader_def Let_def unat_of_nat_32 length_block_of)
qed

lemma length_take_concat: "length (concat (take i fs)) \<le> length (concat fs)"
  by (metis append_take_drop_id concat_append length_append le_add1)

lemma match_block_of:
  assumes "length (concat fs) < 2 ^ 32" "unat (drop_bit 11 block_offset) = i" "i < length fs"
  shows "Filter_KeyMayMatch may_match (new_FilterBlockReader (block_of fs)) block_offset key \<longleftrightarrow> may_match key (fs ! i)"
proof -
  have "length (concat (take j fs)) < 2 ^ 32" for j using length_take_concat [of j fs] assms(1) by (rule le_less_trans)
  note small = unat_of_nat_32 [OF this]
  have "drop (length (concat fs) + i * 4 + 4) (block_of fs) = drop (length (concat fs) + Suc i * 4) (block_of fs)" by (simp add: ac_simps)
  then have limit: "unat (DecodeFixed32 (drop (length (concat fs) + i * 4 + 4) (block_of fs))) = length (concat (take (Suc i) fs))"
    using block_of_offset [of "Suc i" fs] assms(3) small by simp
  have start: "unat (DecodeFixed32 (drop (length (concat fs) + i * 4) (block_of fs))) = length (concat (take i fs))"
    using block_of_offset [of i fs] assms(3) small by simp
  have le: "length (concat (take i fs)) \<le> length (concat (take (Suc i) fs))"
    using length_take_concat [of i "take (Suc i) fs"] by (simp add: min_def)
  have "take (length (concat (take (Suc i) fs)) - length (concat (take i fs))) (drop (length (concat (take i fs))) (block_of fs)) = fs ! i"
    using concat_slice [OF assms(3)] length_take_concat [of "Suc i" fs] le by (simp add: block_of_def)
  with start limit le assms(2,3) length_take_concat [of "Suc i" fs] show ?thesis
    by (simp add: Filter_KeyMayMatch_def reader_block_of [OF assms(1)])
qed

section \<open>No false negatives\<close>

text \<open>A table is built block by block: each data block announces its offset and then adds its keys.\<close>

definition add_block :: "policy_create \<Rightarrow> u64 \<times> byte list list \<Rightarrow> filter_builder \<Rightarrow> filter_builder" where
  "add_block create blk b = fold AddKey (snd blk) (StartBlock create (fst blk) b)"

definition filter_block :: "policy_create \<Rightarrow> (u64 \<times> byte list list) list \<Rightarrow> byte list" where
  "filter_block create blks = Filter_Finish create (fold (add_block create) blks new_FilterBlockBuilder)"

abbreviation filter_index :: "u64 \<Rightarrow> nat" where
  "filter_index off \<equiv> unat (off div kFilterBase)"

definition in_group :: "byte list list list \<Rightarrow> nat \<Rightarrow> byte list list \<Rightarrow> bool" where
  "in_group gs i keys \<longleftrightarrow> i < length gs \<and> set keys \<subseteq> set (gs ! i)"

definition covers :: "(u64 \<times> byte list list) list \<Rightarrow> byte list list list \<Rightarrow> bool" where
  "covers blks gs \<longleftrightarrow> (\<forall>(off, keys) \<in> set blks. in_group gs (filter_index off) keys) \<and> set (concat gs) = set (concat (map snd blks))"

lemma in_group_snoc: "in_group (gs @ [g]) i ks \<Longrightarrow> in_group (gs @ [g @ keys]) i ks"
  by (cases "i < length gs") (auto simp: in_group_def nth_append less_Suc_eq)

lemma in_group_new: "in_group (gs @ [g @ keys]) (length gs) keys"
  by (simp add: in_group_def)

lemma in_group_pad: "in_group gs i ks \<Longrightarrow> in_group (gs @ gs') i ks"
  by (simp add: in_group_def nth_append)

lemma covers_append:
  assumes "covers blks (gs @ [g])" "filter_index off = length gs"
  shows "covers (blks @ [(off, keys)]) (gs @ [g @ keys])"
proof -
  have "set (concat (gs @ [g @ keys])) = set (concat (map snd (blks @ [(off, keys)])))"
    using assms(1) by (simp add: covers_def Un_assoc [symmetric])
  then show ?thesis using assms by (auto simp: covers_def in_group_new intro: in_group_snoc)
qed

lemma covers_pad: "covers blks gs \<Longrightarrow> covers blks (gs @ replicate n [])"
  by (auto simp: covers_def intro: in_group_pad)

context filter_policy
begin

lemma builder_rep_block:
  assumes "builder_rep create_filter b kss pend" "covers blks (kss @ [pend])" "length kss \<le> filter_index off"
  shows "\<exists>kss' pend'. builder_rep create_filter (add_block create_filter (off, keys) b) kss' pend' \<and>
    covers (blks @ [(off, keys)]) (kss' @ [pend']) \<and> length kss' = filter_index off"
proof (cases "length kss = filter_index off")
  case True
  then have "StartBlock create_filter off b = b"
    using assms(1) by (simp add: StartBlock_def builder_rep_def start_loop.simps)
  with builder_rep_AddKeys [OF assms(1), of keys] covers_append [OF assms(2) True [symmetric]] True show ?thesis
    by (auto simp: add_block_def)
next
  case False
  let ?kss = "kss @ pend # replicate (filter_index off - Suc (length kss)) []"
  have "builder_rep create_filter (StartBlock create_filter off b) ?kss []"
    unfolding StartBlock_def using assms False by (intro builder_rep_start) simp_all
  from builder_rep_AddKeys [OF this, of keys]
  have "builder_rep create_filter (add_block create_filter (off, keys) b) ?kss keys" by (simp add: add_block_def)
  moreover have "covers blks (?kss @ [[]])"
    using covers_pad [OF assms(2), of "Suc (filter_index off - Suc (length kss))"] by (simp add: replicate_append_same)
  from covers_append [OF this, of off keys] assms(3) False have "covers (blks @ [(off, keys)]) (?kss @ [keys])" by simp
  moreover have "length ?kss = filter_index off" using assms(3) False by simp
  ultimately show ?thesis by blast
qed

lemma builder_rep_blocks:
  assumes "sorted (map fst blks)"
  shows "\<exists>kss pend. builder_rep create_filter (fold (add_block create_filter) blks new_FilterBlockBuilder) kss pend \<and>
    covers blks (kss @ [pend]) \<and> (\<forall>off. (\<forall>b \<in> set blks. fst b \<le> off) \<longrightarrow> length kss \<le> filter_index off)"
  using assms
proof (induction blks rule: rev_induct)
  case Nil
  show ?case using builder_rep_new [of create_filter] by (auto simp: covers_def intro!: exI [of _ "[]"])
next
  case (snoc blk blks)
  obtain off keys where blk: "blk = (off, keys)" by (cases blk)
  from snoc obtain kss pend where "builder_rep create_filter (fold (add_block create_filter) blks new_FilterBlockBuilder) kss pend"
    "covers blks (kss @ [pend])" "length kss \<le> filter_index off" by (auto simp: sorted_append blk)
  from builder_rep_block [OF this, of keys] obtain kss' pend' where
    "builder_rep create_filter (fold (add_block create_filter) (blks @ [blk]) new_FilterBlockBuilder) kss' pend'"
    "covers (blks @ [blk]) (kss' @ [pend'])" "length kss' = filter_index off" by (auto simp: blk)
  moreover have "filter_index off \<le> filter_index off'" if "off \<le> off'" for off'
    using that by (simp add: unat_div word_le_nat_alt div_le_mono)
  ultimately show ?case by (intro exI [of _ kss'] exI [of _ pend']) (auto simp: blk)
qed

lemma Finish_rep:
  assumes "builder_rep create_filter b kss pend"
  shows "Filter_Finish create_filter b = block_of (map (filter_of create_filter) (if pend = [] then kss else kss @ [pend]))"
proof -
  have "Filter_Finish create_filter b = block_of (map (filter_of create_filter) kss)" if "builder_rep create_filter b kss []" for b kss
    using that by (simp add: Filter_Finish_def Let_def builder_rep_def block_of_def fold_PutFixed32 PutFixed32_def [of "_ @ _"])
  moreover have "Filter_Finish create_filter b = Filter_Finish create_filter (GenerateFilter create_filter b)" if "pend \<noteq> []"
    using that assms builder_rep_Generate [OF assms] by (simp add: Filter_Finish_def builder_rep_def)
  ultimately show ?thesis using assms builder_rep_Generate [OF assms] by auto
qed

lemma filter_block_complete:
  assumes "sorted (map fst blks)" "\<forall>k \<in> set (concat (map snd blks)). valid_key k" "length (filter_block create_filter blks) < 2 ^ 32"
    "(off, keys) \<in> set blks" "key \<in> set keys"
  shows "Filter_KeyMayMatch key_may_match (new_FilterBlockReader (filter_block create_filter blks)) off key"
proof -
  from builder_rep_blocks [OF assms(1)] obtain kss pend where rep:
    "builder_rep create_filter (fold (add_block create_filter) blks new_FilterBlockBuilder) kss pend" and cov: "covers blks (kss @ [pend])"
    by blast
  define gs where "gs = (if pend = [] then kss else kss @ [pend])"
  have block: "filter_block create_filter blks = block_of (map (filter_of create_filter) gs)"
    unfolding filter_block_def gs_def by (rule Finish_rep [OF rep])
  let ?i = "filter_index off"
  have "in_group (kss @ [pend]) ?i keys" "set (concat (kss @ [pend])) = set (concat (map snd blks))"
    using cov assms(4) by (auto simp: covers_def)
  then have in_gs: "in_group gs ?i keys" and set_gs: "set (concat gs) = set (concat (map snd blks))"
    using assms(5) by (auto simp: gs_def in_group_def nth_append less_Suc_eq split: if_splits)
  have i: "?i < length gs" "key \<in> set (gs ! ?i)" "set (gs ! ?i) \<subseteq> set (concat (map snd blks))"
    using in_gs assms(5) set_gs by (auto simp: in_group_def)
  have "valid_key k" if "k \<in> set (gs ! ?i)" for k using that i(3) assms(2) by blast
  then have "key_may_match key (filter_of create_filter (gs ! ?i))"
    using i(2) no_false_negative [of key "gs ! ?i"] by (auto simp: filter_of_def)
  moreover have "length (concat (map (filter_of create_filter) gs)) < 2 ^ 32" using assms(3) by (simp add: block length_block_of)
  moreover have "unat (drop_bit 11 off) = ?i" by (simp add: unat_div unat_drop_bit_word kFilterBase_def kFilterBaseLg_def)
  ultimately show ?thesis using i(1) by (simp add: block match_block_of)
qed

end

end
