(* ===== verification/Ldb_Env.thy ===== *)
theory Ldb_Env
  imports Nanopb_Prelude
begin

text \<open>
  Status values and the file classes of leveldb's POSIX environment: \<^verbatim>\<open>include/leveldb/status.h\<close>, \<^verbatim>\<open>util/status.cc\<close> and the
  classes \<open>PosixSequentialFile\<close>, \<open>PosixMmapReadableFile\<close>, \<open>PosixWritableFile\<close> and \<open>Limiter\<close> of \<^verbatim>\<open>util/env_posix.cc\<close>. The system calls
  are a parameter: a record of functions on the state of the operating system. What the classes promise to
  their clients is stated as two locales, \<open>writable_file\<close> and \<open>sequential_file\<close>.
\<close>

section \<open>Status\<close>

datatype status = OK | NotFound string | Corruption string | NotSupported string | InvalidArgument string | IOError string

text \<open>The constructor joins two messages; the second is left out if it is empty.\<close>

definition status_msg :: "string \<Rightarrow> string \<Rightarrow> string" where
  "status_msg msg msg2 = msg @ (if msg2 = [] then [] else '': '' @ msg2)"

definition ToString :: "status \<Rightarrow> string" where
  "ToString s = (case s of OK \<Rightarrow> ''OK'' | NotFound m \<Rightarrow> ''NotFound: '' @ m | Corruption m \<Rightarrow> ''Corruption: '' @ m
     | NotSupported m \<Rightarrow> ''Not implemented: '' @ m | InvalidArgument m \<Rightarrow> ''Invalid argument: '' @ m | IOError m \<Rightarrow> ''IO error: '' @ m)"

section \<open>The operating system\<close>

text \<open>
  A failing call gives its \<open>errno\<close>. \<open>px_read\<close> and \<open>px_write\<close> are given the number of bytes and the bytes, and
  return the bytes read and the number of bytes written.
\<close>

record 'w posix =
  px_read :: "int \<Rightarrow> 'w \<Rightarrow> nat \<Rightarrow> (int + byte list) \<times> 'w"
  px_lseek_cur :: "int \<Rightarrow> 'w \<Rightarrow> u64 \<Rightarrow> int option \<times> 'w"
  px_write :: "int \<Rightarrow> 'w \<Rightarrow> byte list \<Rightarrow> (int + nat) \<times> 'w"
  px_open :: "string \<Rightarrow> 'w \<Rightarrow> (int + int) \<times> 'w"
  px_close :: "int \<Rightarrow> 'w \<Rightarrow> int option \<times> 'w"
  px_fullfsync :: "(int \<Rightarrow> 'w \<Rightarrow> int option \<times> 'w) option"
  px_fsync :: "int \<Rightarrow> 'w \<Rightarrow> int option \<times> 'w"
  px_strerror :: "int \<Rightarrow> string"

definition ENOENT :: int where "ENOENT = 2"

definition EINTR :: int where "EINTR = 4"

definition EINVAL :: int where "EINVAL = 22"

definition PosixError :: "'w posix \<Rightarrow> string \<Rightarrow> int \<Rightarrow> status" where
  "PosixError px context error_number =
     (if error_number = ENOENT then NotFound (status_msg context (px_strerror px error_number))
      else IOError (status_msg context (px_strerror px error_number)))"

section \<open>Limiter\<close>

text \<open>
  The counter is atomic; each operation below is one atomic step on it. \<open>Acquire\<close> takes two steps when it fails, and between them
  other threads may run.
\<close>

definition Acquire_sub :: "int \<Rightarrow> bool \<times> int" where
  "Acquire_sub acquires_allowed = (acquires_allowed > 0, acquires_allowed - 1)"

definition Acquire_undo :: "int \<Rightarrow> int" where
  "Acquire_undo acquires_allowed = acquires_allowed + 1"

definition Release :: "int \<Rightarrow> int" where
  "Release acquires_allowed = acquires_allowed + 1"

section \<open>Reading\<close>

partial_function (option) PosixSequentialFile_Read ::
  "'w posix \<Rightarrow> int \<Rightarrow> string \<Rightarrow> 'w \<Rightarrow> nat \<Rightarrow> (status \<times> byte list \<times> 'w) option" where
  "PosixSequentialFile_Read px fd filename w n =
     (case px_read px fd w n of
        (Inl errno, w') \<Rightarrow> if errno = EINTR then PosixSequentialFile_Read px fd filename w' n
          else Some (PosixError px filename errno, [], w')
      | (Inr data, w') \<Rightarrow> Some (OK, data, w'))"

definition PosixSequentialFile_Skip :: "'w posix \<Rightarrow> int \<Rightarrow> string \<Rightarrow> 'w \<Rightarrow> u64 \<Rightarrow> status \<times> 'w" where
  "PosixSequentialFile_Skip px fd filename w n =
     (case px_lseek_cur px fd w n of (Some errno, w') \<Rightarrow> (PosixError px filename errno, w') | (None, w') \<Rightarrow> (OK, w'))"

text \<open>
  A mapped file: the result is the range of offsets that the slice covers. The sum in the
  comparison is one of 64-bit numbers.
\<close>

definition PosixMmapReadableFile_Read :: "'w posix \<Rightarrow> string \<Rightarrow> u64 \<Rightarrow> u64 \<Rightarrow> u64 \<Rightarrow> status \<times> (u64 \<times> u64)" where
  "PosixMmapReadableFile_Read px filename len offset n =
     (if offset + n > len then (PosixError px filename EINVAL, (0, 0)) else (OK, (offset, n)))"

section \<open>Writing\<close>

definition kWritableFileBufferSize :: nat where
  "kWritableFileBufferSize = 65536"

text \<open>\<open>wf_buf\<close> is \<open>buf_[0, pos_ - 1]\<close>, the data that have not been passed to the system.\<close>

record wfile =
  wf_buf :: "byte list"
  wf_fd :: int
  wf_is_manifest :: bool
  wf_filename :: string
  wf_dirname :: string

text \<open>Positions of the last separator, counted from the end: what follows it and what precedes it.\<close>

definition Basename :: "string \<Rightarrow> string" where
  "Basename filename = rev (takeWhile (\<lambda>c. c \<noteq> CHR ''/'') (rev filename))"

definition Dirname :: "string \<Rightarrow> string" where
  "Dirname filename = (if CHR ''/'' \<in> set filename then rev (tl (dropWhile (\<lambda>c. c \<noteq> CHR ''/'') (rev filename))) else ''.'')"

definition IsManifest :: "string \<Rightarrow> bool" where
  "IsManifest filename \<longleftrightarrow> take 8 (Basename filename) = ''MANIFEST''"

definition new_PosixWritableFile :: "string \<Rightarrow> int \<Rightarrow> wfile" where
  "new_PosixWritableFile filename fd = \<lparr>wf_buf = [], wf_fd = fd, wf_is_manifest = IsManifest filename,
     wf_filename = filename, wf_dirname = Dirname filename\<rparr>"

partial_function (option) WriteUnbuffered :: "'w posix \<Rightarrow> int \<Rightarrow> string \<Rightarrow> byte list \<Rightarrow> 'w \<Rightarrow> (status \<times> 'w) option" where
  "WriteUnbuffered px fd filename data w =
     (if data = [] then Some (OK, w)
      else case px_write px fd w data of
        (Inl errno, w') \<Rightarrow> if errno = EINTR then WriteUnbuffered px fd filename data w'
          else Some (PosixError px filename errno, w')
      | (Inr n, w') \<Rightarrow> WriteUnbuffered px fd filename (drop n data) w')"

type_synonym 'w wstate = "wfile \<times> 'w"

definition FlushBuffer :: "'w posix \<Rightarrow> 'w wstate \<Rightarrow> (status \<times> 'w wstate) option" where
  "FlushBuffer px = (\<lambda>(f, w). case WriteUnbuffered px (wf_fd f) (wf_filename f) (wf_buf f) w of None \<Rightarrow> None
     | Some (s, w') \<Rightarrow> Some (s, (f\<lparr>wf_buf := []\<rparr>, w')))"

definition PosixWritableFile_Append :: "'w posix \<Rightarrow> 'w wstate \<Rightarrow> byte list \<Rightarrow> (status \<times> 'w wstate) option" where
  "PosixWritableFile_Append px st data =
     (let copy_size = min (length data) (kWritableFileBufferSize - length (wf_buf (fst st)));
          st = (\<lambda>(f, w). (f\<lparr>wf_buf := wf_buf f @ take copy_size data\<rparr>, w)) st;
          write_data = drop copy_size data
      in if write_data = [] then Some (OK, st)
      else case FlushBuffer px st of None \<Rightarrow> None
      | Some (status, st) \<Rightarrow>
          if status \<noteq> OK then Some (status, st)
          else if length write_data < kWritableFileBufferSize then Some (OK, (\<lambda>(f, w). (f\<lparr>wf_buf := write_data\<rparr>, w)) st)
          else case WriteUnbuffered px (wf_fd (fst st)) (wf_filename (fst st)) write_data (snd st) of None \<Rightarrow> None
            | Some (status, w) \<Rightarrow> Some (status, (fst st, w)))"

definition PosixWritableFile_Flush :: "'w posix \<Rightarrow> 'w wstate \<Rightarrow> (status \<times> 'w wstate) option" where
  "PosixWritableFile_Flush px st = FlushBuffer px st"

definition PosixWritableFile_Close :: "'w posix \<Rightarrow> 'w wstate \<Rightarrow> (status \<times> 'w wstate) option" where
  "PosixWritableFile_Close px st = (case FlushBuffer px st of None \<Rightarrow> None
     | Some (status, (f, w)) \<Rightarrow>
         (case px_close px (wf_fd f) w of
            (Some errno, w') \<Rightarrow> Some (if status = OK then PosixError px (wf_filename f) errno else status, (f\<lparr>wf_fd := -1\<rparr>, w'))
          | (None, w') \<Rightarrow> Some (status, (f\<lparr>wf_fd := -1\<rparr>, w'))))"

definition SyncFd :: "'w posix \<Rightarrow> int \<Rightarrow> string \<Rightarrow> 'w \<Rightarrow> status \<times> 'w" where
  "SyncFd px fd fd_path w =
     (let fallback = (\<lambda>w. case px_fsync px fd w of (None, w') \<Rightarrow> (OK, w') | (Some errno, w') \<Rightarrow> (PosixError px fd_path errno, w'))
      in case px_fullfsync px of None \<Rightarrow> fallback w
      | Some full \<Rightarrow> (case full fd w of (None, w') \<Rightarrow> (OK, w') | (Some errno, w') \<Rightarrow> fallback w'))"

definition SyncDirIfManifest :: "'w posix \<Rightarrow> 'w wstate \<Rightarrow> status \<times> 'w wstate" where
  "SyncDirIfManifest px = (\<lambda>(f, w).
     if \<not> wf_is_manifest f then (OK, (f, w))
     else case px_open px (wf_dirname f) w of
       (Inl errno, w') \<Rightarrow> (PosixError px (wf_dirname f) errno, (f, w'))
     | (Inr fd, w') \<Rightarrow> (case SyncFd px fd (wf_dirname f) w' of (s, w'') \<Rightarrow> (s, (f, snd (px_close px fd w'')))))"

definition PosixWritableFile_Sync :: "'w posix \<Rightarrow> 'w wstate \<Rightarrow> (status \<times> 'w wstate) option" where
  "PosixWritableFile_Sync px st =
     (case SyncDirIfManifest px st of (status, st) \<Rightarrow>
        if status \<noteq> OK then Some (status, st)
        else case FlushBuffer px st of None \<Rightarrow> None
        | Some (status, (f, w)) \<Rightarrow>
            if status \<noteq> OK then Some (status, (f, w))
            else (case SyncFd px (wf_fd f) (wf_filename f) w of (s, w') \<Rightarrow> Some (s, (f, w'))))"

section \<open>What the system calls promise\<close>

text \<open>
  \<open>disk w\<close> is what has been written through the descriptor: \<^verbatim>\<open>write\<close> stores a prefix of the data and
  returns its length, or it fails and stores nothing.
\<close>

definition write_ok :: "'w posix \<Rightarrow> int \<Rightarrow> ('w \<Rightarrow> byte list) \<Rightarrow> bool" where
  "write_ok px fd disk \<longleftrightarrow> (\<forall>w data. case px_write px fd w data of
     (Inl errno, w') \<Rightarrow> disk w' = disk w
   | (Inr n, w') \<Rightarrow> n \<le> length data \<and> disk w' = disk w @ take n data)"

text \<open>\<^verbatim>\<open>read\<close> on a regular file returns as many bytes as it is asked for, or all that are left.\<close>

definition read_ok :: "'w posix \<Rightarrow> int \<Rightarrow> ('w \<Rightarrow> byte list) \<Rightarrow> bool" where
  "read_ok px fd rest \<longleftrightarrow> (\<forall>w n. \<exists>w'. px_read px fd w n = (Inr (take n (rest w)), w') \<and> rest w' = drop n (rest w))"

definition prefix_written :: "('w \<Rightarrow> byte list) \<Rightarrow> 'w posix \<Rightarrow> int \<Rightarrow> byte list \<Rightarrow> 'w \<Rightarrow> status \<times> 'w \<Rightarrow> bool" where
  "prefix_written disk px fd data w r \<longleftrightarrow> (write_ok px fd disk \<longrightarrow>
     (\<exists>k \<le> length data. disk (snd r) = disk w @ take k data \<and> (fst r = OK \<longrightarrow> k = length data)))"

lemma WriteUnbuffered_written:
  assumes "WriteUnbuffered px fd filename data w = Some r"
  shows "prefix_written disk px fd data w r"
proof (rule WriteUnbuffered.raw_induct [where P = "\<lambda>px fd filename data w r. prefix_written disk px fd data w r", OF _ assms])
  fix f :: "'a posix \<Rightarrow> int \<Rightarrow> string \<Rightarrow> byte list \<Rightarrow> 'a \<Rightarrow> (status \<times> 'a) option" and px fd filename data w r
  assume IH: "\<And>px fd filename data w r. f px fd filename data w = Some r \<Longrightarrow> prefix_written disk px fd data w r"
    and body: "(if data = [] then Some (OK, w)
      else case px_write px fd w data of
        (Inl errno, w') \<Rightarrow> if errno = EINTR then f px fd filename data w' else Some (PosixError px filename errno, w')
      | (Inr n, w') \<Rightarrow> f px fd filename (drop n data) w') = Some r"
  show "prefix_written disk px fd data w r"
    unfolding prefix_written_def
  proof (intro impI)
    assume ok: "write_ok px fd disk"
    show "\<exists>k \<le> length data. disk (snd r) = disk w @ take k data \<and> (fst r = OK \<longrightarrow> k = length data)"
    proof (cases "data = []")
      case True
      then show ?thesis using body by auto
    next
      case False
      obtain x w' where x: "px_write px fd w data = (x, w')" by (rule prod.exhaust)
      show ?thesis
      proof (cases x)
        case (Inl e)
        then have "disk w' = disk w" using ok x by (auto simp: write_ok_def dest!: spec [of _ w] spec [of _ data])
        then show ?thesis using IH [of px fd filename data w' r] body ok False x Inl by (auto simp: PosixError_def prefix_written_def split: if_splits)
      next
        case (Inr n)
        then have n: "n \<le> length data" "disk w' = disk w @ take n data"
          using ok x by (auto simp: write_ok_def dest!: spec [of _ w] spec [of _ data])
        from body False x Inr have "f px fd filename (drop n data) w' = Some r" by simp
        from IH [OF this] ok obtain k where
          k: "k \<le> length data - n" "disk (snd r) = disk w' @ take k (drop n data)" "fst r = OK \<longrightarrow> k = length data - n" by (auto simp: prefix_written_def)
        then show ?thesis using n by (intro exI [of _ "n + k"]) (auto simp: take_add)
      qed
    qed
  qed
qed

section \<open>The contracts\<close>

text \<open>
  A file that is written: \<open>contents\<close> is everything that has been appended, \<open>stored\<close> what has reached the system. The laws
  hold if the environment keeps its promise \<open>env_ok\<close>.
\<close>

locale writable_file =
  fixes append :: "'f \<Rightarrow> byte list \<Rightarrow> (status \<times> 'f) option"
    and flush :: "'f \<Rightarrow> (status \<times> 'f) option"
    and contents :: "'f \<Rightarrow> byte list"
    and stored :: "'f \<Rightarrow> byte list"
    and env_ok :: bool
  assumes append_OK: "env_ok \<Longrightarrow> append f data = Some (OK, f') \<Longrightarrow> contents f' = contents f @ data"
    and flush_OK: "env_ok \<Longrightarrow> flush f = Some (OK, f') \<Longrightarrow> contents f' = contents f \<and> stored f' = contents f"
    and stored_prefix: "env_ok \<Longrightarrow> \<exists>b. contents f = stored f @ b"
begin

lemma append_flush:
  assumes "env_ok" "append f data = Some (OK, f1)" "flush f1 = Some (OK, f2)"
  shows "contents f2 = contents f @ data" "stored f2 = contents f @ data"
  using append_OK [OF assms(1,2)] flush_OK [OF assms(1,3)] by simp_all

end

definition wfile_contents :: "('w \<Rightarrow> byte list) \<Rightarrow> 'w wstate \<Rightarrow> byte list" where
  "wfile_contents disk = (\<lambda>(f, w). disk w @ wf_buf f)"

definition wfile_stored :: "('w \<Rightarrow> byte list) \<Rightarrow> 'w wstate \<Rightarrow> byte list" where
  "wfile_stored disk = (\<lambda>(f, w). disk w)"

text \<open>
  Whatever the descriptor, \<open>write\<close> keeps its promise: this is what the clients of the POSIX files assume.
\<close>

abbreviation writes_ok :: "'w posix \<Rightarrow> ('w \<Rightarrow> byte list) \<Rightarrow> bool" where
  "writes_ok px disk \<equiv> \<forall>fd. write_ok px fd disk"

lemma FlushBuffer_OK:
  assumes "writes_ok px disk" "FlushBuffer px st = Some (OK, st')"
  shows "wfile_contents disk st' = wfile_contents disk st" "wfile_stored disk st' = wfile_contents disk st" "wf_buf (fst st') = []"
proof -
  obtain f w where st: "st = (f, w)" by (rule prod.exhaust)
  from assms(2) st obtain w' where w': "WriteUnbuffered px (wf_fd f) (wf_filename f) (wf_buf f) w = Some (OK, w')" "st' = (f\<lparr>wf_buf := []\<rparr>, w')"
    by (auto simp: FlushBuffer_def split: option.splits)
  from WriteUnbuffered_written [OF w'(1), of disk] assms(1) have "disk w' = disk w @ wf_buf f" by (auto simp: prefix_written_def)
  then show "wfile_contents disk st' = wfile_contents disk st" "wfile_stored disk st' = wfile_contents disk st" "wf_buf (fst st') = []"
    using st w'(2) by (simp_all add: wfile_contents_def wfile_stored_def)
qed

lemma Append_OK:
  assumes ok: "writes_ok px disk" and app: "PosixWritableFile_Append px st data = Some (OK, st')"
  shows "wfile_contents disk st' = wfile_contents disk st @ data"
proof -
  obtain f w where st: "st = (f, w)" by (rule prod.exhaust)
  let ?c = "min (length data) (kWritableFileBufferSize - length (wf_buf f))"
  let ?st = "(f\<lparr>wf_buf := wf_buf f @ take ?c data\<rparr>, w)"
  have start: "wfile_contents disk ?st = wfile_contents disk st @ take ?c data" by (simp add: st wfile_contents_def)
  show ?thesis
  proof (cases "drop ?c data = []")
    case True
    then have "take ?c data = data" by simp
    with True app start st show ?thesis by (simp add: PosixWritableFile_Append_def Let_def)
  next
    case False
    with app st obtain f1 w1 where fl: "FlushBuffer px ?st = Some (OK, (f1, w1))"
      by (auto simp: PosixWritableFile_Append_def Let_def split: option.splits if_splits)
    note fl' = FlushBuffer_OK [OF ok fl]
    have d: "disk w1 = wfile_contents disk st @ take ?c data" using fl'(2) start by (simp add: wfile_stored_def)
    show ?thesis
    proof (cases "length (drop ?c data) < kWritableFileBufferSize")
      case True
      then have "st' = (f1\<lparr>wf_buf := drop ?c data\<rparr>, w1)" using False app st fl
        by (auto simp: PosixWritableFile_Append_def Let_def)
      then show ?thesis using d by (simp add: wfile_contents_def)
    next
      case long: False
      then obtain w2 where w2: "WriteUnbuffered px (wf_fd f1) (wf_filename f1) (drop ?c data) w1 = Some (OK, w2)" "st' = (f1, w2)"
        using False app st fl by (auto simp: PosixWritableFile_Append_def Let_def split: option.splits if_splits)
      from WriteUnbuffered_written [OF w2(1), of disk] ok have "disk w2 = disk w1 @ drop ?c data" by (auto simp: prefix_written_def)
      then show ?thesis using d w2(2) fl'(3) by (simp add: wfile_contents_def)
    qed
  qed
qed

text \<open>A file whose writes succeed and make progress: every operation returns with a good status.\<close>

definition progress :: "'w posix \<Rightarrow> bool" where
  "progress px \<longleftrightarrow> (\<forall>fd w data. \<exists>n w'. px_write px fd w data = (Inr n, w') \<and> (data \<noteq> [] \<longrightarrow> 0 < n))"

lemma WriteUnbuffered_progress:
  assumes "progress px"
  shows "\<exists>w'. WriteUnbuffered px fd filename data w = Some (OK, w')"
proof (induction "length data" arbitrary: data w rule: less_induct)
  case less
  show ?case
  proof (cases "data = []")
    case False
    from assms obtain n w' where n: "px_write px fd w data = (Inr n, w')" "data \<noteq> [] \<longrightarrow> 0 < n" unfolding progress_def by blast
    then have "length (drop n data) < length data" using False by simp
    from less [OF this, of w'] show ?thesis using False n(1) by (subst WriteUnbuffered.simps) simp
  qed (simp add: WriteUnbuffered.simps)
qed

lemma posix_progress:
  assumes "progress px"
  shows "\<exists>st'. PosixWritableFile_Append px st data = Some (OK, st')" "\<exists>st'. PosixWritableFile_Flush px st = Some (OK, st')"
proof -
  have fl: "\<exists>f' w'. FlushBuffer px st = Some (OK, (f', w'))" for st
    using WriteUnbuffered_progress [OF assms, of "wf_fd (fst st)" "wf_filename (fst st)" "wf_buf (fst st)" "snd st"]
    by (auto simp: FlushBuffer_def split: prod.splits)
  then show "\<exists>st'. PosixWritableFile_Flush px st = Some (OK, st')" by (auto simp: PosixWritableFile_Flush_def)
  obtain f w where st: "st = (f, w)" by (rule prod.exhaust)
  let ?c = "min (length data) (kWritableFileBufferSize - length (wf_buf f))"
  from fl obtain f1 w1 where f1: "FlushBuffer px (f\<lparr>wf_buf := wf_buf f @ take ?c data\<rparr>, w) = Some (OK, (f1, w1))" by blast
  moreover from WriteUnbuffered_progress [OF assms] obtain w2 where
    "WriteUnbuffered px (wf_fd f1) (wf_filename f1) (drop ?c data) w1 = Some (OK, w2)" by blast
  ultimately show "\<exists>st'. PosixWritableFile_Append px st data = Some (OK, st')"
    by (auto simp: PosixWritableFile_Append_def Let_def st)
qed

interpretation posix_file: writable_file "PosixWritableFile_Append px" "PosixWritableFile_Flush px"
  "wfile_contents disk" "wfile_stored disk" "writes_ok px disk" for px :: "'w posix" and disk
proof unfold_locales
  show "\<exists>b. wfile_contents disk f = wfile_stored disk f @ b" for f by (cases f) (simp add: wfile_contents_def wfile_stored_def)
qed (simp_all add: Append_OK PosixWritableFile_Flush_def FlushBuffer_OK)

text \<open>A file that can also be synchronised: none of the calls for that changes what has been written.\<close>

locale syncable_file = writable_file append flush contents stored env_ok
  for append :: "'f \<Rightarrow> byte list \<Rightarrow> (status \<times> 'f) option" and flush contents stored env_ok +
  fixes sync :: "'f \<Rightarrow> (status \<times> 'f) option"
  assumes sync_OK: "env_ok \<Longrightarrow> sync f = Some (OK, f') \<Longrightarrow> contents f' = contents f \<and> stored f' = contents f"

definition syncs_ok :: "'w posix \<Rightarrow> ('w \<Rightarrow> byte list) \<Rightarrow> bool" where
  "syncs_ok px disk \<longleftrightarrow> (\<forall>fd w. disk (snd (px_fsync px fd w)) = disk w \<and> disk (snd (px_close px fd w)) = disk w)
     \<and> (\<forall>full fd w. px_fullfsync px = Some full \<longrightarrow> disk (snd (full fd w)) = disk w) \<and> (\<forall>nm w. disk (snd (px_open px nm w)) = disk w)"

lemma SyncFd_disk: "syncs_ok px disk \<Longrightarrow> disk (snd (SyncFd px fd path w)) = disk w"
  unfolding syncs_ok_def SyncFd_def Let_def by (auto split: option.splits prod.splits) (metis snd_conv)+

lemma SyncDir_disk:
  assumes "syncs_ok px disk" "SyncDirIfManifest px (f, w) = (s, st)"
  shows "fst st = f" "disk (snd st) = disk w"
  using assms SyncFd_disk [OF assms(1)] unfolding SyncDirIfManifest_def
  by (auto simp: syncs_ok_def split: if_splits sum.splits prod.splits) (metis snd_conv)+

lemma Sync_OK:
  assumes ok: "writes_ok px disk" "syncs_ok px disk" and sync: "PosixWritableFile_Sync px st = Some (OK, st')"
  shows "wfile_contents disk st' = wfile_contents disk st \<and> wfile_stored disk st' = wfile_contents disk st"
proof -
  obtain f w where st: "st = (f, w)" by (rule prod.exhaust)
  obtain s1 f1 w1 where dir: "SyncDirIfManifest px (f, w) = (s1, (f1, w1))" by (metis prod.exhaust)
  with sync st obtain f2 w2 where fl: "FlushBuffer px (f1, w1) = Some (OK, (f2, w2))" and st': "\<exists>s. SyncFd px (wf_fd f2) (wf_filename f2) w2 = (s, snd st') \<and> fst st' = f2"
    by (auto simp: PosixWritableFile_Sync_def split: if_splits option.splits prod.splits)
  from SyncDir_disk [OF ok(2) dir] have "wfile_contents disk (f1, w1) = wfile_contents disk st" by (simp add: st wfile_contents_def)
  moreover have "disk (snd st') = disk w2" using SyncFd_disk [OF ok(2), of "wf_fd f2" "wf_filename f2" w2] st' by auto
  ultimately show ?thesis using FlushBuffer_OK [OF ok(1) fl] st' by (cases st') (auto simp: wfile_contents_def wfile_stored_def)
qed

interpretation posix_sync: syncable_file "PosixWritableFile_Append px" "PosixWritableFile_Flush px"
  "wfile_contents disk" "wfile_stored disk" "writes_ok px disk \<and> syncs_ok px disk" "PosixWritableFile_Sync px" for px :: "'w posix" and disk
  by unfold_locales (blast dest: posix_file.append_OK posix_file.flush_OK posix_file.stored_prefix Sync_OK)+

text \<open>A file that is read from the front: \<open>rest\<close> is what has not been read.\<close>

locale sequential_file =
  fixes read :: "'g \<Rightarrow> nat \<Rightarrow> (status \<times> byte list \<times> 'g) option"
    and rest :: "'g \<Rightarrow> byte list"
    and env_ok :: bool
  assumes read_OK: "env_ok \<Longrightarrow> \<exists>g'. read g n = Some (OK, take n (rest g), g') \<and> rest g' = drop n (rest g)"

interpretation posix_sequential: sequential_file "PosixSequentialFile_Read px fd filename" rest "read_ok px fd rest"
  for px :: "'w posix" and fd filename rest
proof unfold_locales
  fix g n
  assume "read_ok px fd rest"
  then obtain w' where "px_read px fd g n = (Inr (take n (rest g)), w')" "rest w' = drop n (rest g)" by (auto simp: read_ok_def)
  then show "\<exists>g'. PosixSequentialFile_Read px fd filename g n = Some (OK, take n (rest g), g') \<and> rest g' = drop n (rest g)"
    by (subst PosixSequentialFile_Read.simps) simp
qed


section \<open>A sample system\<close>

text \<open>
  A disk in memory, for evaluating the model: at most five bytes are written by one call, and a descriptor that is read from has the
  bytes that are left as its state.
\<close>

definition sample_posix :: "byte list posix" where
  "sample_posix = \<lparr>px_read = (\<lambda>fd w n. (Inr (take n w), drop n w)), px_lseek_cur = (\<lambda>fd w n. (None, drop (unat n) w)),
     px_write = (\<lambda>fd w data. (Inr (min 5 (length data)), w @ take 5 data)), px_open = (\<lambda>nm w. (Inl ENOENT, w)),
     px_close = (\<lambda>fd w. (None, w)), px_fullfsync = None, px_fsync = (\<lambda>fd w. (None, w)), px_strerror = (\<lambda>e. ''error'')\<rparr>"

lemma sample_posix_ok: "writes_ok sample_posix id" "read_ok sample_posix fd id" "progress sample_posix"
  by (simp_all add: write_ok_def read_ok_def progress_def sample_posix_def min_def)

end
