(* ===== verification/Ldb_Block.thy ===== *)
theory Ldb_Block
  imports Ldb_Env Ldb_Format
begin

text \<open>
  The blocks of a table: \<^verbatim>\<open>table/block_builder.cc\<close> and \<^verbatim>\<open>table/block.cc\<close>. Keys are stored without the prefix that they share with the key before them, except at
  restart points; the offsets of these come at the end of the block. An iterator decodes entries one after the other and searches the
  restart points by bisection. Offsets and restart indices are natural numbers: the code has them in 32 bits, which is
  enough for blocks below 4 GB; the lengths that are read from a block are kept as 32-bit numbers.
\<close>

section \<open>Building\<close>

record block_builder =
  bb_buffer :: "byte list"
  bb_restarts :: "u32 list"
  bb_counter :: nat
  bb_finished :: bool
  bb_last_key :: "byte list"

definition new_BlockBuilder :: block_builder where
  "new_BlockBuilder = \<lparr>bb_buffer = [], bb_restarts = [0], bb_counter = 0, bb_finished = False, bb_last_key = []\<rparr>"

definition Block_Reset :: "block_builder \<Rightarrow> block_builder" where
  "Block_Reset b = b\<lparr>bb_buffer := [], bb_restarts := [0], bb_counter := 0, bb_finished := False, bb_last_key := []\<rparr>"

definition CurrentSizeEstimate :: "block_builder \<Rightarrow> nat" where
  "CurrentSizeEstimate b = length (bb_buffer b) + length (bb_restarts b) * 4 + 4"

definition Block_Finish :: "block_builder \<Rightarrow> byte list \<times> block_builder" where
  "Block_Finish b =
     (let buffer = PutFixed32 (fold (\<lambda>r buf. PutFixed32 buf r) (bb_restarts b) (bb_buffer b)) (of_nat (length (bb_restarts b)))
      in (buffer, b\<lparr>bb_buffer := buffer, bb_finished := True\<rparr>))"

text \<open>The loop that counts the bytes shared with the last key.\<close>

fun shared_prefix :: "byte list \<Rightarrow> byte list \<Rightarrow> nat" where
  "shared_prefix (a # as) (b # bs) = (if a = b then Suc (shared_prefix as bs) else 0)"
| "shared_prefix _ _ = 0"

definition Block_Add :: "nat \<Rightarrow> byte list \<Rightarrow> byte list \<Rightarrow> block_builder \<Rightarrow> block_builder" where
  "Block_Add block_restart_interval key value b =
     (let (shared, restarts, counter) =
            (if bb_counter b < block_restart_interval then (shared_prefix (bb_last_key b) key, bb_restarts b, bb_counter b)
             else (0, bb_restarts b @ [of_nat (length (bb_buffer b))], 0));
          non_shared = length key - shared;
          buffer = PutVarint32 (bb_buffer b) (of_nat shared);
          buffer = PutVarint32 buffer (of_nat non_shared);
          buffer = PutVarint32 buffer (of_nat (length value));
          buffer = buffer @ drop shared key @ value
      in b\<lparr>bb_buffer := buffer, bb_restarts := restarts, bb_counter := counter + 1,
           bb_last_key := take shared (bb_last_key b) @ drop shared key\<rparr>)"

section \<open>Blocks\<close>

record block =
  bk_data :: "byte list"
  bk_size :: nat
  bk_restart_offset :: nat

definition NumRestarts :: "byte list \<Rightarrow> nat \<Rightarrow> nat" where
  "NumRestarts data n = unat (DecodeFixed32 (drop (n - 4) data))"

definition new_Block :: "byte list \<Rightarrow> block" where
  "new_Block contents =
     (let n = length contents in
      if n < 4 then \<lparr>bk_data = contents, bk_size = 0, bk_restart_offset = 0\<rparr>
      else if NumRestarts contents n > (n - 4) div 4 then \<lparr>bk_data = contents, bk_size = 0, bk_restart_offset = 0\<rparr>
      else \<lparr>bk_data = contents, bk_size = n, bk_restart_offset = n - (1 + NumRestarts contents n) * 4\<rparr>)"

text \<open>The bytes from \<open>p\<close> to \<open>limit\<close>; the result has what is left of them after the three numbers. The sum of the lengths is one of 32-bit numbers.\<close>

definition DecodeEntry :: "byte list \<Rightarrow> (u32 \<times> u32 \<times> u32 \<times> byte list) option" where
  "DecodeEntry p =
     (if length p < 3 then None
      else
        let shared = ucast (p ! 0); non_shared = ucast (p ! 1); value_length = ucast (p ! 2);
            entry = (if shared OR non_shared OR value_length < (128 :: u32) then Some (shared, non_shared, value_length, drop 3 p)
              else (case GetVarint32Ptr p of None \<Rightarrow> None
                | Some (shared, p) \<Rightarrow> (case GetVarint32Ptr p of None \<Rightarrow> None
                  | Some (non_shared, p) \<Rightarrow> (case GetVarint32Ptr p of None \<Rightarrow> None
                    | Some (value_length, p) \<Rightarrow> Some (shared, non_shared, value_length, p)))))
        in case entry of None \<Rightarrow> None
           | Some (shared, non_shared, value_length, p) \<Rightarrow>
               if of_nat (length p) < non_shared + value_length then None else Some (shared, non_shared, value_length, p))"

section \<open>Iterators\<close>

text \<open>The value is a slice of the block, given by its offset and length.\<close>

record block_iter =
  bi_data :: "byte list"
  bi_restarts :: nat
  bi_num_restarts :: nat
  bi_current :: nat
  bi_restart_index :: nat
  bi_key :: "byte list"
  bi_value :: "nat \<times> nat"
  bi_status :: status

definition new_block_iter :: "byte list \<Rightarrow> nat \<Rightarrow> nat \<Rightarrow> block_iter" where
  "new_block_iter data restarts num_restarts = \<lparr>bi_data = data, bi_restarts = restarts, bi_num_restarts = num_restarts, bi_current = restarts,
     bi_restart_index = num_restarts, bi_key = [], bi_value = (0, 0), bi_status = OK\<rparr>"

datatype new_iter = ErrorIterator status | EmptyIterator | BlockIterator block_iter

definition Block_NewIterator :: "block \<Rightarrow> new_iter" where
  "Block_NewIterator b =
     (if bk_size b < 4 then ErrorIterator (Corruption ''bad block contents'')
      else let num_restarts = NumRestarts (bk_data b) (bk_size b)
        in if num_restarts = 0 then EmptyIterator else BlockIterator (new_block_iter (bk_data b) (bk_restart_offset b) num_restarts))"

definition NextEntryOffset :: "block_iter \<Rightarrow> nat" where
  "NextEntryOffset it = fst (bi_value it) + snd (bi_value it)"

definition GetRestartPoint :: "block_iter \<Rightarrow> nat \<Rightarrow> nat" where
  "GetRestartPoint it index = unat (DecodeFixed32 (drop (bi_restarts it + index * 4) (bi_data it)))"

definition SeekToRestartPoint :: "nat \<Rightarrow> block_iter \<Rightarrow> block_iter" where
  "SeekToRestartPoint index it = it\<lparr>bi_key := [], bi_restart_index := index, bi_value := (GetRestartPoint it index, 0)\<rparr>"

definition BlockIter_Valid :: "block_iter \<Rightarrow> bool" where
  "BlockIter_Valid it \<longleftrightarrow> bi_current it < bi_restarts it"

definition BlockIter_value :: "block_iter \<Rightarrow> byte list" where
  "BlockIter_value it = take (snd (bi_value it)) (drop (fst (bi_value it)) (bi_data it))"

definition CorruptionError :: "block_iter \<Rightarrow> block_iter" where
  "CorruptionError it = it\<lparr>bi_current := bi_restarts it, bi_restart_index := bi_num_restarts it,
     bi_status := Corruption ''bad entry in block'', bi_key := [], bi_value := (0, 0)\<rparr>"

function advance_restart :: "block_iter \<Rightarrow> nat \<Rightarrow> nat \<Rightarrow> nat" where
  "advance_restart it current index =
     (if index + 1 < bi_num_restarts it \<and> GetRestartPoint it (index + 1) < current then advance_restart it current (index + 1) else index)"
  by pat_completeness auto
termination by (relation "measure (\<lambda>(it, _, index). bi_num_restarts it - index)") auto

declare advance_restart.simps [simp del]

definition ParseNextKey :: "block_iter \<Rightarrow> bool \<times> block_iter" where
  "ParseNextKey it =
     (let current = NextEntryOffset it; it = it\<lparr>bi_current := current\<rparr>
      in if current \<ge> bi_restarts it then (False, it\<lparr>bi_current := bi_restarts it, bi_restart_index := bi_num_restarts it\<rparr>)
         else case DecodeEntry (drop current (take (bi_restarts it) (bi_data it))) of None \<Rightarrow> (False, CorruptionError it)
           | Some (shared, non_shared, value_length, p) \<Rightarrow>
               if length (bi_key it) < unat shared then (False, CorruptionError it)
               else
                 let pos = bi_restarts it - length p
                 in (True, it\<lparr>bi_key := take (unat shared) (bi_key it) @ take (unat non_shared) (drop pos (bi_data it)),
                      bi_value := (pos + unat non_shared, unat value_length),
                      bi_restart_index := advance_restart it current (bi_restart_index it)\<rparr>))"

definition BlockIter_Next :: "block_iter \<Rightarrow> block_iter" where
  "BlockIter_Next it = snd (ParseNextKey it)"

text \<open>An entry takes at least three bytes, so that every loop over entries ends.\<close>

lemma DecodeEntry_length:
  assumes "DecodeEntry p = Some (shared, non_shared, value_length, p')"
  shows "length p' + 3 \<le> length p"
proof -
  have varint: "length r < length q" if g: "GetVarint32Ptr q = Some (v, r)" for q v r
  proof -
    from g have "GetVarint32 q = Some (v, r)" by (simp add: GetVarint32_def)
    then obtain bs where "q = bs @ r" "is_varint bs" by (rule GetVarint32_Some)
    then show ?thesis by (cases bs) auto
  qed
  show ?thesis
    using assms by (auto simp: DecodeEntry_def Let_def split: if_splits option.splits dest!: varint)
qed

lemma ParseNextKey_progress:
  assumes "ParseNextKey it = (True, it')"
  shows "NextEntryOffset it < bi_restarts it" "NextEntryOffset it < NextEntryOffset it'" "bi_restarts it' = bi_restarts it"
proof -
  from assms obtain shared non_shared value_length p where
    lt: "NextEntryOffset it < bi_restarts it" and
    d: "DecodeEntry (drop (NextEntryOffset it) (take (bi_restarts it) (bi_data it))) = Some (shared, non_shared, value_length, p)"
    and v: "bi_value it' = (bi_restarts it - length p + unat non_shared, unat value_length)" and r: "bi_restarts it' = bi_restarts it"
    by (auto simp: ParseNextKey_def Let_def split: if_splits option.splits prod.splits)
  from DecodeEntry_length [OF d] have "length p + 3 \<le> bi_restarts it - NextEntryOffset it" by simp
  then show "NextEntryOffset it < bi_restarts it" "NextEntryOffset it < NextEntryOffset it'" "bi_restarts it' = bi_restarts it"
    using lt v r by (auto simp: NextEntryOffset_def)
qed

text \<open>The loop of \<open>Prev\<close> and \<open>SeekToLast\<close>: entries are skipped until one ends at \<open>limit\<close> or after it.\<close>

function skip_until :: "nat \<Rightarrow> block_iter \<Rightarrow> block_iter" where
  "skip_until limit it = (let (ok, it') = ParseNextKey it in if ok \<and> NextEntryOffset it' < limit then skip_until limit it' else it')"
  by pat_completeness auto
termination
proof (relation "measure (\<lambda>(_, it). bi_restarts it - NextEntryOffset it)")
  fix limit it x ok it'
  assume "x = ParseNextKey it" "(ok, it') = x" "ok \<and> NextEntryOffset it' < limit"
  then show "((limit, it'), limit, it) \<in> measure (\<lambda>(_, it). bi_restarts it - NextEntryOffset it)"
    using ParseNextKey_progress [of it it'] by (cases ok) auto
qed simp

declare skip_until.simps [simp del]

fun prev_restart :: "block_iter \<Rightarrow> nat \<Rightarrow> nat \<Rightarrow> nat option" where
  "prev_restart it original 0 = (if GetRestartPoint it 0 \<ge> original then None else Some 0)"
| "prev_restart it original (Suc index) = (if GetRestartPoint it (Suc index) \<ge> original then prev_restart it original index else Some (Suc index))"

definition BlockIter_Prev :: "block_iter \<Rightarrow> block_iter" where
  "BlockIter_Prev it =
     (let original = bi_current it in
      case prev_restart it original (bi_restart_index it) of
        None \<Rightarrow> it\<lparr>bi_current := bi_restarts it, bi_restart_index := bi_num_restarts it\<rparr>
      | Some index \<Rightarrow> skip_until original (SeekToRestartPoint index it))"

text \<open>The bisection; \<open>None\<close> for a corrupted entry.\<close>

function bisect :: "compare_fn \<Rightarrow> byte list \<Rightarrow> block_iter \<Rightarrow> nat \<Rightarrow> nat \<Rightarrow> nat option" where
  "bisect compare target it left right =
     (if left < right then
        let mid = (left + right + 1) div 2; region_offset = GetRestartPoint it mid
        in case DecodeEntry (drop region_offset (take (bi_restarts it) (bi_data it))) of None \<Rightarrow> None
           | Some (shared, non_shared, value_length, p) \<Rightarrow>
               if shared \<noteq> 0 then None
               else
                 let mid_key = take (unat non_shared) (drop (bi_restarts it - length p) (bi_data it))
                 in if compare mid_key target < 0 then bisect compare target it mid right
                    else bisect compare target it left (mid - 1)
      else Some left)"
  by pat_completeness auto
termination by (relation "measure (\<lambda>(_, _, _, left, right). right - left)") auto

declare bisect.simps [simp del]

function scan_to :: "compare_fn \<Rightarrow> byte list \<Rightarrow> block_iter \<Rightarrow> block_iter" where
  "scan_to compare target it =
     (let (ok, it') = ParseNextKey it in if \<not> ok \<or> compare (bi_key it') target \<ge> 0 then it' else scan_to compare target it')"
  by pat_completeness auto
termination
proof (relation "measure (\<lambda>(_, _, it). bi_restarts it - NextEntryOffset it)")
  fix compare target it x ok it'
  assume "x = ParseNextKey it" "(ok, it') = x" "\<not> (\<not> ok \<or> compare (bi_key it') target \<ge> 0)"
  then show "((compare, target, it'), compare, target, it) \<in> measure (\<lambda>(_, _, it). bi_restarts it - NextEntryOffset it)"
    using ParseNextKey_progress [of it it'] by (cases ok) auto
qed simp

declare scan_to.simps [simp del]

definition BlockIter_Seek :: "compare_fn \<Rightarrow> byte list \<Rightarrow> block_iter \<Rightarrow> block_iter" where
  "BlockIter_Seek compare target it =
     (case bisect compare target it 0 (bi_num_restarts it - 1) of None \<Rightarrow> CorruptionError it
      | Some left \<Rightarrow> scan_to compare target (SeekToRestartPoint left it))"

definition BlockIter_SeekToFirst :: "block_iter \<Rightarrow> block_iter" where
  "BlockIter_SeekToFirst it = snd (ParseNextKey (SeekToRestartPoint 0 it))"

definition BlockIter_SeekToLast :: "block_iter \<Rightarrow> block_iter" where
  "BlockIter_SeekToLast it = skip_until (bi_restarts it) (SeekToRestartPoint (bi_num_restarts it - 1) it)"

end
