(* ===== verification/Ldb_Log.thy ===== *)
theory Ldb_Log
  imports Ldb_Crc32c Ldb_Env
begin

text \<open>
  The write-ahead log of leveldb: \<^verbatim>\<open>db/log_format.h\<close>, \<^verbatim>\<open>db/log_writer.cc\<close> and \<^verbatim>\<open>db/log_reader.cc\<close>. Records are cut into fragments that do not cross
  blocks of 32 KB; each fragment has a header of seven bytes with a checksum, a length and a type. The
  files are those of \<open>Ldb_Env\<close>: the writer is given the functions to append and flush, the reader those to read and skip.
\<close>

section \<open>The format\<close>

datatype RecordType = kZeroType | kFullType | kFirstType | kMiddleType | kLastType

fun type_code :: "RecordType \<Rightarrow> nat" where
  "type_code kZeroType = 0"
| "type_code kFullType = 1"
| "type_code kFirstType = 2"
| "type_code kMiddleType = 3"
| "type_code kLastType = 4"

definition kMaxRecordType :: nat where "kMaxRecordType = 4"

definition kBlockSize :: nat where "kBlockSize = 32768"

definition kHeaderSize :: nat where "kHeaderSize = 7"

lemmas log_consts = kMaxRecordType_def kBlockSize_def kHeaderSize_def

text \<open>
  The checksum routine depends on the alignment of its data (and is proved not to): \<open>ce_at\<close> gives the address at which
  bytes lie in memory, an arbitrary function.
\<close>

record crc_env =
  ce_acc :: accelerator
  ce_at :: "byte list \<Rightarrow> addr"

definition crc_extend :: "crc_env \<Rightarrow> u32 \<Rightarrow> byte list \<Rightarrow> u32" where
  "crc_extend e crc data = Extend (ce_acc e) (ce_at e data) crc data"

definition crc_value :: "crc_env \<Rightarrow> byte list \<Rightarrow> u32" where
  "crc_value e data = Value (ce_acc e) (ce_at e data) data"

section \<open>The writer\<close>

record 'f log_writer =
  lw_dest :: 'f
  lw_block_offset :: nat
  lw_type_crc :: "u32 list"

definition InitTypeCrc :: "crc_env \<Rightarrow> u32 list" where
  "InitTypeCrc e = map (\<lambda>i. crc_value e [of_nat i]) [0..<kMaxRecordType + 1]"

definition new_Writer :: "crc_env \<Rightarrow> 'f \<Rightarrow> u64 \<Rightarrow> 'f log_writer" where
  "new_Writer e dest dest_length = \<lparr>lw_dest = dest, lw_block_offset = unat dest_length mod kBlockSize, lw_type_crc = InitTypeCrc e\<rparr>"

type_synonym 'f append = "'f \<Rightarrow> byte list \<Rightarrow> (status \<times> 'f) option"
type_synonym 'f flush = "'f \<Rightarrow> (status \<times> 'f) option"

definition record_header :: "u32 \<Rightarrow> RecordType \<Rightarrow> nat \<Rightarrow> byte list" where
  "record_header crc t n = EncodeFixed32 crc @ [of_nat n AND 255, of_nat (n div 256), of_nat (type_code t)]"

definition EmitPhysicalRecord ::
  "crc_env \<Rightarrow> 'f append \<Rightarrow> 'f flush \<Rightarrow> RecordType \<Rightarrow> byte list \<Rightarrow> 'f log_writer \<Rightarrow> (status \<times> 'f log_writer) option" where
  "EmitPhysicalRecord e app flush t data w =
     (let crc = Mask (crc_extend e (lw_type_crc w ! type_code t) data);
          next = (\<lambda>(s, d). (s, w\<lparr>lw_dest := d, lw_block_offset := lw_block_offset w + (kHeaderSize + length data)\<rparr>))
      in map_option next
        (case app (lw_dest w) (record_header crc t (length data)) of None \<Rightarrow> None
         | Some (s, d) \<Rightarrow> if s \<noteq> OK then Some (s, d)
             else (case app d data of None \<Rightarrow> None
               | Some (s, d) \<Rightarrow> if s \<noteq> OK then Some (s, d) else flush d)))"

text \<open>The switch to a new block; the status of the append is not looked at.\<close>

definition switch_block :: "'f append \<Rightarrow> 'f log_writer \<Rightarrow> 'f log_writer option" where
  "switch_block app w =
     (let leftover = kBlockSize - lw_block_offset w in
      if leftover < kHeaderSize then
        if 0 < leftover then
          (case app (lw_dest w) (replicate leftover 0) of None \<Rightarrow> None
           | Some (_, d) \<Rightarrow> Some (w\<lparr>lw_dest := d, lw_block_offset := 0\<rparr>))
        else Some (w\<lparr>lw_block_offset := 0\<rparr>)
      else Some w)"

definition fragment_type :: "bool \<Rightarrow> bool \<Rightarrow> RecordType" where
  "fragment_type start fin = (if start \<and> fin then kFullType else if start then kFirstType
     else if fin then kLastType else kMiddleType)"

partial_function (option) AddRecord_loop ::
  "crc_env \<Rightarrow> 'f append \<Rightarrow> 'f flush \<Rightarrow> bool \<Rightarrow> byte list \<Rightarrow> 'f log_writer \<Rightarrow> (status \<times> 'f log_writer) option" where
  "AddRecord_loop e app flush start data w =
     (case switch_block app w of None \<Rightarrow> None
      | Some w \<Rightarrow>
          let avail = kBlockSize - lw_block_offset w - kHeaderSize;
              n = (if length data < avail then length data else avail)
          in case EmitPhysicalRecord e app flush (fragment_type start (length data = n)) (take n data) w of None \<Rightarrow> None
             | Some (s, w) \<Rightarrow>
                 if s = OK \<and> drop n data \<noteq> [] then AddRecord_loop e app flush False (drop n data) w
                 else Some (s, w))"

definition AddRecord :: "crc_env \<Rightarrow> 'f append \<Rightarrow> 'f flush \<Rightarrow> byte list \<Rightarrow> 'f log_writer \<Rightarrow> (status \<times> 'f log_writer) option" where
  "AddRecord e app flush data w = AddRecord_loop e app flush True data w"

section \<open>The reader\<close>

text \<open>A null reporter is \<open>None\<close>; otherwise the list has the calls it received, in order.\<close>

record 'g log_reader =
  lr_file :: 'g
  lr_checksum :: bool
  lr_buffer :: "byte list"
  lr_eof :: bool
  lr_last_record_offset :: u64
  lr_end_of_buffer_offset :: u64
  lr_initial_offset :: u64
  lr_resyncing :: bool
  lr_reports :: "(u64 \<times> status) list option"

definition new_Reader :: "'g \<Rightarrow> bool \<Rightarrow> bool \<Rightarrow> u64 \<Rightarrow> 'g log_reader" where
  "new_Reader file reporter checksum initial_offset =
     \<lparr>lr_file = file, lr_checksum = checksum, lr_buffer = [], lr_eof = False, lr_last_record_offset = 0,
      lr_end_of_buffer_offset = 0, lr_initial_offset = initial_offset, lr_resyncing = (initial_offset > 0),
      lr_reports = (if reporter then Some [] else None)\<rparr>"

definition kEof :: u32 where "kEof = 5"

definition kBadRecord :: u32 where "kBadRecord = 6"

definition ReportDrop :: "u64 \<Rightarrow> status \<Rightarrow> 'g log_reader \<Rightarrow> 'g log_reader" where
  "ReportDrop bytes reason r =
     (case lr_reports r of None \<Rightarrow> r
      | Some rs \<Rightarrow> if lr_end_of_buffer_offset r - of_nat (length (lr_buffer r)) - bytes \<ge> lr_initial_offset r
                  then r\<lparr>lr_reports := Some (rs @ [(bytes, reason)])\<rparr> else r)"

definition ReportCorruption :: "nat \<Rightarrow> string \<Rightarrow> 'g log_reader \<Rightarrow> 'g log_reader" where
  "ReportCorruption bytes reason r = ReportDrop (of_nat bytes) (Corruption reason) r"

type_synonym 'g fread = "'g \<Rightarrow> nat \<Rightarrow> (status \<times> byte list \<times> 'g) option"

text \<open>The part of \<open>ReadPhysicalRecord\<close> after the buffer has been filled. The type is a signed character.\<close>

definition parse_record :: "crc_env \<Rightarrow> byte list \<Rightarrow> 'g log_reader \<Rightarrow> u32 \<times> byte list \<times> 'g log_reader" where
  "parse_record e fragment r =
     (let header = lr_buffer r;
          ty = (scast (header ! 6) :: u32);
          len = unat ((ucast (header ! 4) :: u32) OR push_bit 8 (ucast (header ! 5)))
      in if kHeaderSize + len > length header then
           let r' = r\<lparr>lr_buffer := []\<rparr> in
           if \<not> lr_eof r then (kBadRecord, fragment, ReportCorruption (length header) ''bad record length'' r')
           else (kEof, fragment, r')
      else if ty = 0 \<and> len = 0 then (kBadRecord, fragment, r\<lparr>lr_buffer := []\<rparr>)
      else if lr_checksum r \<and> crc_value e (take (1 + len) (drop 6 header)) \<noteq> Unmask (DecodeFixed32 header) then
           (kBadRecord, fragment, ReportCorruption (length header) ''checksum mismatch'' (r\<lparr>lr_buffer := []\<rparr>))
      else
        let r' = r\<lparr>lr_buffer := drop (kHeaderSize + len) header\<rparr> in
        if lr_end_of_buffer_offset r - of_nat (length (lr_buffer r')) - of_nat kHeaderSize - of_nat len < lr_initial_offset r
        then (kBadRecord, [], r')
        else (ty, take len (drop kHeaderSize header), r'))"

partial_function (option) ReadPhysicalRecord ::
  "crc_env \<Rightarrow> 'g fread \<Rightarrow> byte list \<Rightarrow> 'g log_reader \<Rightarrow> (u32 \<times> byte list \<times> 'g log_reader) option" where
  "ReadPhysicalRecord e read fragment r =
     (if length (lr_buffer r) < kHeaderSize then
        if \<not> lr_eof r then
          (case read (lr_file r) kBlockSize of None \<Rightarrow> None
           | Some (status, data, g) \<Rightarrow>
               let r = r\<lparr>lr_file := g, lr_buffer := data, lr_end_of_buffer_offset := lr_end_of_buffer_offset r + of_nat (length data)\<rparr>
               in if status \<noteq> OK then
                    Some (kEof, fragment, (ReportDrop (of_nat kBlockSize) status (r\<lparr>lr_buffer := []\<rparr>))\<lparr>lr_eof := True\<rparr>)
                  else ReadPhysicalRecord e read fragment (if length data < kBlockSize then r\<lparr>lr_eof := True\<rparr> else r))
        else Some (kEof, fragment, r\<lparr>lr_buffer := []\<rparr>)
      else Some (parse_record e fragment r))"

definition SkipToInitialBlock :: "('g \<Rightarrow> u64 \<Rightarrow> status \<times> 'g) \<Rightarrow> 'g log_reader \<Rightarrow> bool \<times> 'g log_reader" where
  "SkipToInitialBlock skip r =
     (let offset_in_block = unat (lr_initial_offset r) mod kBlockSize;
          start = lr_initial_offset r - of_nat offset_in_block;
          start = (if offset_in_block > kBlockSize - 6 then start + of_nat kBlockSize else start);
          r = r\<lparr>lr_end_of_buffer_offset := start\<rparr>
      in if start > 0 then
           (case skip (lr_file r) start of (s, g) \<Rightarrow>
              let r = r\<lparr>lr_file := g\<rparr> in if s \<noteq> OK then (False, ReportDrop start s r) else (True, r))
         else (True, r))"

fun decimal :: "nat \<Rightarrow> string" where
  "decimal n = (if n < 10 then [] else decimal (n div 10)) @ [char_of (48 + n mod 10)]"

declare decimal.simps [simp del]

text \<open>
  One round of the loop of \<open>ReadRecord\<close>, after a physical record of type \<open>ty\<close> has been read: \<open>frag\<close> is \<open>in_fragmented_record\<close>,
  \<open>prosp\<close> is \<open>prospective_record_offset\<close>. The round ends the loop with a record (or \<open>None\<close> for \<open>false\<close>), or goes on.
\<close>

datatype 'g round = Return "byte list option" "'g log_reader" | Continue bool "byte list" u64 "'g log_reader"

definition record_switch :: "bool \<Rightarrow> byte list \<Rightarrow> u64 \<Rightarrow> u32 \<Rightarrow> byte list \<Rightarrow> u64 \<Rightarrow> 'g log_reader \<Rightarrow> 'g round" where
  "record_switch frag scratch prosp ty fragment off r =
     (if ty = 1 then
        let r = (if frag \<and> scratch \<noteq> [] then ReportCorruption (length scratch) ''partial record without end(1)'' r else r)
        in Return (Some fragment) (r\<lparr>lr_last_record_offset := off\<rparr>)
      else if ty = 2 then
        let r = (if frag \<and> scratch \<noteq> [] then ReportCorruption (length scratch) ''partial record without end(2)'' r else r)
        in Continue True fragment off r
      else if ty = 3 then
        if \<not> frag then Continue frag scratch prosp (ReportCorruption (length fragment) ''missing start of fragmented record(1)'' r)
        else Continue frag (scratch @ fragment) prosp r
      else if ty = 4 then
        if \<not> frag then Continue frag scratch prosp (ReportCorruption (length fragment) ''missing start of fragmented record(2)'' r)
        else Return (Some (scratch @ fragment)) (r\<lparr>lr_last_record_offset := prosp\<rparr>)
      else if ty = kEof then Return None r
      else if ty = kBadRecord then
        if frag then Continue False [] prosp (ReportCorruption (length scratch) ''error in middle of record'' r)
        else Continue frag scratch prosp r
      else Continue False [] prosp
        (ReportCorruption (length fragment + (if frag then length scratch else 0)) (''unknown record type '' @ decimal (unat ty)) r))"

definition record_round :: "bool \<Rightarrow> byte list \<Rightarrow> u64 \<Rightarrow> u32 \<Rightarrow> byte list \<Rightarrow> 'g log_reader \<Rightarrow> 'g round" where
  "record_round frag scratch prosp ty fragment r =
     (let off = lr_end_of_buffer_offset r - of_nat (length (lr_buffer r)) - of_nat kHeaderSize - of_nat (length fragment)
      in if lr_resyncing r \<and> ty = 3 then Continue frag scratch prosp r
      else if lr_resyncing r \<and> ty = 4 then Continue frag scratch prosp (r\<lparr>lr_resyncing := False\<rparr>)
      else record_switch frag scratch prosp ty fragment off (r\<lparr>lr_resyncing := False\<rparr>))"

partial_function (option) ReadRecord_loop ::
  "crc_env \<Rightarrow> 'g fread \<Rightarrow> bool \<Rightarrow> byte list \<Rightarrow> u64 \<Rightarrow> byte list \<Rightarrow> 'g log_reader \<Rightarrow> (byte list option \<times> 'g log_reader) option" where
  "ReadRecord_loop e read frag scratch prosp fragment r =
     (case ReadPhysicalRecord e read fragment r of None \<Rightarrow> None
      | Some (ty, fragment, r) \<Rightarrow>
          (case record_round frag scratch prosp ty fragment r of
             Return x r \<Rightarrow> Some (x, r)
           | Continue frag scratch prosp r \<Rightarrow> ReadRecord_loop e read frag scratch prosp fragment r))"

definition ReadRecord ::
  "crc_env \<Rightarrow> 'g fread \<Rightarrow> ('g \<Rightarrow> u64 \<Rightarrow> status \<times> 'g) \<Rightarrow> 'g log_reader \<Rightarrow> (byte list option \<times> 'g log_reader) option" where
  "ReadRecord e read skip r =
     (if lr_last_record_offset r < lr_initial_offset r then
        (case SkipToInitialBlock skip r of (ok, r) \<Rightarrow>
           if \<not> ok then Some (None, r) else ReadRecord_loop e read False [] 0 [] r)
      else ReadRecord_loop e read False [] 0 [] r)"

text \<open>A client that reads all records, as the recovery of the database does.\<close>

partial_function (option) read_all ::
  "crc_env \<Rightarrow> 'g fread \<Rightarrow> ('g \<Rightarrow> u64 \<Rightarrow> status \<times> 'g) \<Rightarrow> 'g log_reader \<Rightarrow> (byte list list \<times> 'g log_reader) option" where
  "read_all e read skip r =
     (case ReadRecord e read skip r of None \<Rightarrow> None
      | Some (None, r) \<Rightarrow> Some ([], r)
      | Some (Some x, r) \<Rightarrow> Option.bind (read_all e read skip r) (\<lambda>(rs, r). Some (x # rs, r)))"

end
