(* ===== verification/Ldb_Table.thy ===== *)
theory Ldb_Table
  imports Ldb_Block Ldb_Filter_Block Ldb_Log
begin

text \<open>
  Tables: the format of handles, footers and stored blocks (\<^verbatim>\<open>table/format.h\<close>, \<^verbatim>\<open>table/format.cc\<close>), building
  (\<^verbatim>\<open>table/table_builder.cc\<close>) and reading them (\<^verbatim>\<open>table/table.cc\<close>). A table is a file of data blocks, a filter block, a metaindex block, an index
  block and a footer. The file that is written is an argument, as for the log; a file that is read is a function, because it does not
  change. The block cache is a parameter. The build does not define \<open>HAVE_SNAPPY\<close>: the compression functions of \<^verbatim>\<open>port/port_stdcxx.h\<close> only
  return \<open>false\<close>.
\<close>

section \<open>Handles and footers\<close>

definition kBlockTrailerSize :: u64 where "kBlockTrailerSize = 5"

definition kTableMagicNumber :: u64 where "kTableMagicNumber = 0xdb4775248b80fb57"

definition kMaxEncodedLength :: nat where "kMaxEncodedLength = 10 + 10"

definition kEncodedLength :: nat where "kEncodedLength = 2 * kMaxEncodedLength + 8"

record block_handle =
  bh_offset :: u64
  bh_size :: u64

definition new_BlockHandle :: block_handle where
  "new_BlockHandle = \<lparr>bh_offset = NOT 0, bh_size = NOT 0\<rparr>"

definition BlockHandle_EncodeTo :: "block_handle \<Rightarrow> byte list \<Rightarrow> byte list" where
  "BlockHandle_EncodeTo h dst = PutVarint64 (PutVarint64 dst (bh_offset h)) (bh_size h)"

definition BlockHandle_DecodeFrom :: "byte list \<Rightarrow> status + block_handle \<times> byte list" where
  "BlockHandle_DecodeFrom input =
     (case GetVarint64 input of None \<Rightarrow> Inl (Corruption ''bad block handle'')
      | Some (offset, input) \<Rightarrow>
        (case GetVarint64 input of None \<Rightarrow> Inl (Corruption ''bad block handle'')
         | Some (sz, input) \<Rightarrow> Inr (\<lparr>bh_offset = offset, bh_size = sz\<rparr>, input)))"

record footer =
  ft_metaindex_handle :: block_handle
  ft_index_handle :: block_handle

definition string_resize :: "nat \<Rightarrow> byte list \<Rightarrow> byte list" where
  "string_resize n s = take n s @ replicate (n - length s) 0"

definition Footer_EncodeTo :: "footer \<Rightarrow> byte list \<Rightarrow> byte list" where
  "Footer_EncodeTo f dst =
     (let dst = BlockHandle_EncodeTo (ft_metaindex_handle f) dst;
          dst = BlockHandle_EncodeTo (ft_index_handle f) dst;
          dst = string_resize (2 * kMaxEncodedLength) dst;
          dst = PutFixed32 dst (ucast (kTableMagicNumber AND 0xffffffff))
      in PutFixed32 dst (ucast (drop_bit 32 kTableMagicNumber)))"

definition Footer_DecodeFrom :: "byte list \<Rightarrow> status + footer \<times> byte list" where
  "Footer_DecodeFrom input =
     (let magic_ptr = drop (kEncodedLength - 8) input;
          magic = push_bit 32 (ucast (DecodeFixed32 (drop 4 magic_ptr))) OR ucast (DecodeFixed32 magic_ptr)
      in if magic \<noteq> kTableMagicNumber then Inl (Corruption ''not an sstable (bad magic number)'')
         else case BlockHandle_DecodeFrom input of Inl s \<Rightarrow> Inl s
         | Inr (metaindex, rest) \<Rightarrow>
           (case BlockHandle_DecodeFrom rest of Inl s \<Rightarrow> Inl s
            | Inr (index, _) \<Rightarrow> Inr (\<lparr>ft_metaindex_handle = metaindex, ft_index_handle = index\<rparr>, drop kEncodedLength input)))"

section \<open>Compression\<close>

datatype CompressionType = kNoCompression | kSnappyCompression

definition compression_code :: "CompressionType \<Rightarrow> byte" where
  "compression_code t = (case t of kNoCompression \<Rightarrow> 0 | kSnappyCompression \<Rightarrow> 1)"

definition Snappy_Compress :: "byte list \<Rightarrow> byte list option" where
  "Snappy_Compress input = None"

definition Snappy_GetUncompressedLength :: "byte list \<Rightarrow> nat option" where
  "Snappy_GetUncompressedLength input = None"

definition Snappy_Uncompress :: "byte list \<Rightarrow> byte list option" where
  "Snappy_Uncompress input = None"

section \<open>Reading a block\<close>

text \<open>
  \<open>Read\<close> of a file gives a status, the bytes and whether they lie in memory of the file instead of the buffer of the caller. The
  result has the contents and whether they may be cached. The sum of size and trailer is one of 64-bit numbers.
\<close>

type_synonym random_read = "u64 \<Rightarrow> u64 \<Rightarrow> status \<times> byte list \<times> bool"

definition ReadBlock :: "crc_env \<Rightarrow> random_read \<Rightarrow> bool \<Rightarrow> block_handle \<Rightarrow> status + byte list \<times> bool" where
  "ReadBlock e read verify_checksums handle =
     (let n = bh_size handle; (s, contents, mapped) = read (bh_offset handle) (n + kBlockTrailerSize)
      in if s \<noteq> OK then Inl s
         else if of_nat (length contents) \<noteq> n + kBlockTrailerSize then Inl (Corruption ''truncated block read'')
         else if verify_checksums \<and> crc_value e (take (unat n + 1) contents) \<noteq> Unmask (DecodeFixed32 (drop (unat n + 1) contents))
         then Inl (Corruption ''block checksum mismatch'')
         else
           let typ = contents ! unat n; data = take (unat n) contents
           in if typ = compression_code kNoCompression then Inr (data, \<not> mapped)
              else if typ = compression_code kSnappyCompression then
                (case Snappy_GetUncompressedLength data of None \<Rightarrow> Inl (Corruption ''corrupted compressed block contents'')
                 | Some ulength \<Rightarrow> (case Snappy_Uncompress data of None \<Rightarrow> Inl (Corruption ''corrupted compressed block contents'')
                   | Some ubuf \<Rightarrow> Inr (ubuf, True)))
              else Inl (Corruption ''bad block type''))"

section \<open>Options\<close>

record filter_policy_ops =
  fp_name :: "byte list"
  fp_create :: policy_create
  fp_match :: "byte list \<Rightarrow> byte list \<Rightarrow> bool"

record table_options =
  to_compare :: compare_fn
  to_separator :: "byte list \<Rightarrow> byte list \<Rightarrow> byte list"
  to_successor :: "byte list \<Rightarrow> byte list"
  to_paranoid_checks :: bool
  to_block_size :: nat
  to_block_restart_interval :: nat
  to_compression :: CompressionType
  to_filter_policy :: "filter_policy_ops option"

section \<open>The builder\<close>

record 'f table_builder =
  tb_file :: 'f
  tb_offset :: u64
  tb_status :: status
  tb_data_block :: block_builder
  tb_index_block :: block_builder
  tb_last_key :: "byte list"
  tb_num_entries :: nat
  tb_closed :: bool
  tb_filter_block :: "filter_builder option"
  tb_pending_index_entry :: bool
  tb_pending_handle :: block_handle

definition tb_StartBlock :: "table_options \<Rightarrow> u64 \<Rightarrow> filter_builder option \<Rightarrow> filter_builder option" where
  "tb_StartBlock opts offset fb =
     (case to_filter_policy opts of None \<Rightarrow> fb | Some p \<Rightarrow> map_option (StartBlock (fp_create p) offset) fb)"

definition new_TableBuilder :: "table_options \<Rightarrow> 'f \<Rightarrow> 'f table_builder" where
  "new_TableBuilder opts f = \<lparr>tb_file = f, tb_offset = 0, tb_status = OK, tb_data_block = new_BlockBuilder,
     tb_index_block = new_BlockBuilder, tb_last_key = [], tb_num_entries = 0, tb_closed = False,
     tb_filter_block = tb_StartBlock opts 0 (map_option (\<lambda>_. new_FilterBlockBuilder) (to_filter_policy opts)),
     tb_pending_index_entry = False, tb_pending_handle = new_BlockHandle\<rparr>"

definition block_trailer :: "crc_env \<Rightarrow> CompressionType \<Rightarrow> byte list \<Rightarrow> byte list" where
  "block_trailer e typ block_contents =
     (let trailer = [compression_code typ];
          crc = crc_extend e (crc_value e block_contents) trailer
      in trailer @ EncodeFixed32 (Mask crc))"

definition WriteRawBlock ::
  "crc_env \<Rightarrow> 'f append \<Rightarrow> byte list \<Rightarrow> CompressionType \<Rightarrow> 'f table_builder \<Rightarrow> (block_handle \<times> 'f table_builder) option" where
  "WriteRawBlock e app block_contents typ r =
     (let handle = \<lparr>bh_offset = tb_offset r, bh_size = of_nat (length block_contents)\<rparr> in
      case app (tb_file r) block_contents of None \<Rightarrow> None
      | Some (status, f) \<Rightarrow>
        let r = r\<lparr>tb_file := f, tb_status := status\<rparr> in
        if status \<noteq> OK then Some (handle, r)
        else case app f (block_trailer e typ block_contents) of None \<Rightarrow> None
        | Some (status, f) \<Rightarrow>
          let r = r\<lparr>tb_file := f, tb_status := status\<rparr> in
          Some (handle, if status = OK then r\<lparr>tb_offset := tb_offset r + of_nat (length block_contents) + kBlockTrailerSize\<rparr> else r))"

text \<open>The block is given by the caller, who also resets it.\<close>

definition WriteBlock ::
  "crc_env \<Rightarrow> 'f append \<Rightarrow> table_options \<Rightarrow> block_builder \<Rightarrow> 'f table_builder \<Rightarrow> (block_handle \<times> block_builder \<times> 'f table_builder) option" where
  "WriteBlock e app opts block r =
     (let (raw, block) = Block_Finish block;
          (block_contents, typ) =
            (case to_compression opts of kNoCompression \<Rightarrow> (raw, kNoCompression)
             | kSnappyCompression \<Rightarrow>
               (case Snappy_Compress raw of None \<Rightarrow> (raw, kNoCompression)
                | Some compressed \<Rightarrow>
                    if length compressed < length raw - length raw div 8 then (compressed, kSnappyCompression) else (raw, kNoCompression)))
      in map_option (\<lambda>(handle, r). (handle, Block_Reset block, r)) (WriteRawBlock e app block_contents typ r))"

definition TableBuilder_Flush :: "crc_env \<Rightarrow> 'f append \<Rightarrow> 'f flush \<Rightarrow> table_options \<Rightarrow> 'f table_builder \<Rightarrow> 'f table_builder option" where
  "TableBuilder_Flush e app flush opts r =
     (if tb_status r \<noteq> OK then Some r
      else if bb_buffer (tb_data_block r) = [] then Some r
      else case WriteBlock e app opts (tb_data_block r) r of None \<Rightarrow> None
      | Some (handle, block, r) \<Rightarrow>
        let r = r\<lparr>tb_data_block := block, tb_pending_handle := handle\<rparr> in
        map_option (\<lambda>r. r\<lparr>tb_filter_block := tb_StartBlock opts (tb_offset r) (tb_filter_block r)\<rparr>)
          (if tb_status r = OK then
             map_option (\<lambda>(status, f). r\<lparr>tb_pending_index_entry := True, tb_status := status, tb_file := f\<rparr>) (flush (tb_file r))
           else Some r))"

text \<open>The index entry of the last block, with the key that separates it from what follows.\<close>

definition add_index_entry :: "byte list \<Rightarrow> 'f table_builder \<Rightarrow> 'f table_builder" where
  "add_index_entry key r =
     r\<lparr>tb_last_key := key, tb_index_block := Block_Add 1 key (BlockHandle_EncodeTo (tb_pending_handle r) []) (tb_index_block r),
       tb_pending_index_entry := False\<rparr>"

definition TableBuilder_Add ::
  "crc_env \<Rightarrow> 'f append \<Rightarrow> 'f flush \<Rightarrow> table_options \<Rightarrow> byte list \<Rightarrow> byte list \<Rightarrow> 'f table_builder \<Rightarrow> 'f table_builder option" where
  "TableBuilder_Add e app flush opts key value r =
     (if tb_status r \<noteq> OK then Some r
      else
        let r = (if tb_pending_index_entry r then add_index_entry (to_separator opts (tb_last_key r) key) r else r);
            r = r\<lparr>tb_filter_block := map_option (AddKey key) (tb_filter_block r)\<rparr>;
            r = r\<lparr>tb_last_key := key, tb_num_entries := tb_num_entries r + 1,
                  tb_data_block := Block_Add (to_block_restart_interval opts) key value (tb_data_block r)\<rparr>
        in if to_block_size opts \<le> CurrentSizeEstimate (tb_data_block r) then TableBuilder_Flush e app flush opts r else Some r)"

definition filter_prefix :: "byte list" where
  "filter_prefix = map (\<lambda>c. of_nat (of_char c)) ''filter.''"

text \<open>The steps of \<open>Finish\<close> after the data: each is skipped once the status is bad.\<close>

definition write_filter_block ::
  "crc_env \<Rightarrow> 'f append \<Rightarrow> table_options \<Rightarrow> 'f table_builder \<Rightarrow> (block_handle \<times> 'f table_builder) option" where
  "write_filter_block e app opts r =
     (case (to_filter_policy opts, tb_filter_block r) of
        (Some p, Some fb) \<Rightarrow>
          if tb_status r = OK then WriteRawBlock e app (Filter_Finish (fp_create p) fb) kNoCompression r else Some (new_BlockHandle, r)
      | _ \<Rightarrow> Some (new_BlockHandle, r))"

definition write_metaindex_block ::
  "crc_env \<Rightarrow> 'f append \<Rightarrow> table_options \<Rightarrow> block_handle \<Rightarrow> 'f table_builder \<Rightarrow> (block_handle \<times> 'f table_builder) option" where
  "write_metaindex_block e app opts filter_handle r =
     (if tb_status r \<noteq> OK then Some (new_BlockHandle, r)
      else
        let meta = (case to_filter_policy opts of None \<Rightarrow> new_BlockBuilder
                    | Some p \<Rightarrow> Block_Add (to_block_restart_interval opts) (filter_prefix @ fp_name p)
                        (BlockHandle_EncodeTo filter_handle []) new_BlockBuilder)
        in map_option (\<lambda>(handle, _, r). (handle, r)) (WriteBlock e app opts meta r))"

definition write_index_block ::
  "crc_env \<Rightarrow> 'f append \<Rightarrow> table_options \<Rightarrow> 'f table_builder \<Rightarrow> (block_handle \<times> 'f table_builder) option" where
  "write_index_block e app opts r =
     (if tb_status r \<noteq> OK then Some (new_BlockHandle, r)
      else
        let r = (if tb_pending_index_entry r then add_index_entry (to_successor opts (tb_last_key r)) r else r)
        in map_option (\<lambda>(handle, block, r). (handle, r\<lparr>tb_index_block := block\<rparr>)) (WriteBlock e app opts (tb_index_block r) r))"

definition write_footer :: "'f append \<Rightarrow> block_handle \<Rightarrow> block_handle \<Rightarrow> 'f table_builder \<Rightarrow> 'f table_builder option" where
  "write_footer app metaindex index r =
     (if tb_status r \<noteq> OK then Some r
      else
        let enc = Footer_EncodeTo \<lparr>ft_metaindex_handle = metaindex, ft_index_handle = index\<rparr> []
        in map_option (\<lambda>(status, f). let r = r\<lparr>tb_status := status, tb_file := f\<rparr>
             in if status = OK then r\<lparr>tb_offset := tb_offset r + of_nat (length enc)\<rparr> else r) (app (tb_file r) enc))"

definition TableBuilder_Finish ::
  "crc_env \<Rightarrow> 'f append \<Rightarrow> 'f flush \<Rightarrow> table_options \<Rightarrow> 'f table_builder \<Rightarrow> (status \<times> 'f table_builder) option" where
  "TableBuilder_Finish e app flush opts r =
     Option.bind (TableBuilder_Flush e app flush opts r) (\<lambda>r.
     let r = r\<lparr>tb_closed := True\<rparr> in
     Option.bind (write_filter_block e app opts r) (\<lambda>(filter_handle, r).
     Option.bind (write_metaindex_block e app opts filter_handle r) (\<lambda>(metaindex, r).
     Option.bind (write_index_block e app opts r) (\<lambda>(index, r).
     map_option (\<lambda>r. (tb_status r, r)) (write_footer app metaindex index r)))))"

definition TableBuilder_Abandon :: "'f table_builder \<Rightarrow> 'f table_builder" where
  "TableBuilder_Abandon r = r\<lparr>tb_closed := True\<rparr>"

definition TableBuilder_FileSize :: "'f table_builder \<Rightarrow> u64" where
  "TableBuilder_FileSize r = tb_offset r"

end
