(* ===== verification/Ldb_Table_Reader.thy ===== *)
theory Ldb_Table_Reader
  imports Ldb_Table
begin

text \<open>
  Reading tables (\<^verbatim>\<open>table/table.cc\<close>): opening, the filter, lookups and approximate offsets. The block cache is given by its
  operations; the state of the cache is passed through. The options with which the database uses tables and what it does with an entry
  that a lookup finds are here as well (\<^verbatim>\<open>db/db_impl.cc\<close>, \<^verbatim>\<open>db/version_set.cc\<close>).
\<close>

section \<open>Iterators that may be empty\<close>

text \<open>\<open>ErrorIterator\<close> and \<open>EmptyIterator\<close> are the class \<open>EmptyIterator\<close> of \<^verbatim>\<open>table/iterator.cc\<close>, whose operations do nothing.\<close>

definition map_iter :: "(block_iter \<Rightarrow> block_iter) \<Rightarrow> new_iter \<Rightarrow> new_iter" where
  "map_iter f it = (case it of BlockIterator b \<Rightarrow> BlockIterator (f b) | _ \<Rightarrow> it)"

definition Iter_Valid :: "new_iter \<Rightarrow> bool" where
  "Iter_Valid it = (case it of BlockIterator b \<Rightarrow> BlockIter_Valid b | _ \<Rightarrow> False)"

definition Iter_key :: "new_iter \<Rightarrow> byte list" where
  "Iter_key it = (case it of BlockIterator b \<Rightarrow> bi_key b | _ \<Rightarrow> [])"

definition Iter_value :: "new_iter \<Rightarrow> byte list" where
  "Iter_value it = (case it of BlockIterator b \<Rightarrow> BlockIter_value b | _ \<Rightarrow> [])"

definition Iter_status :: "new_iter \<Rightarrow> status" where
  "Iter_status it = (case it of BlockIterator b \<Rightarrow> bi_status b | EmptyIterator \<Rightarrow> OK | ErrorIterator s \<Rightarrow> s)"

definition Iter_Seek :: "compare_fn \<Rightarrow> byte list \<Rightarrow> new_iter \<Rightarrow> new_iter" where
  "Iter_Seek compare target = map_iter (BlockIter_Seek compare target)"

section \<open>Mapped files\<close>

text \<open>A read gives a range of the mapped bytes.\<close>

definition mmap_read :: "'w posix \<Rightarrow> string \<Rightarrow> byte list \<Rightarrow> random_read" where
  "mmap_read px filename bytes offset n =
     (case PosixMmapReadableFile_Read px filename (of_nat (length bytes)) offset n of
        (s, (start, len)) \<Rightarrow> (s, take (unat len) (drop (unat start) bytes), True))"

section \<open>Opening\<close>

record table =
  tbl_cache_id :: u64
  tbl_filter :: "filter_reader option"
  tbl_metaindex_handle :: block_handle
  tbl_index_block :: block

record 'c block_cache =
  bc_new_id :: "'c \<Rightarrow> u64 \<times> 'c"
  bc_lookup :: "byte list \<Rightarrow> 'c \<Rightarrow> block option \<times> 'c"
  bc_insert :: "byte list \<Rightarrow> block \<Rightarrow> nat \<Rightarrow> 'c \<Rightarrow> 'c"

definition ReadFilter :: "crc_env \<Rightarrow> random_read \<Rightarrow> table_options \<Rightarrow> byte list \<Rightarrow> table \<Rightarrow> table" where
  "ReadFilter e read opts v t =
     (case BlockHandle_DecodeFrom v of Inl _ \<Rightarrow> t
      | Inr (filter_handle, _) \<Rightarrow>
        (case ReadBlock e read (to_paranoid_checks opts) filter_handle of Inl _ \<Rightarrow> t
         | Inr (data, _) \<Rightarrow> t\<lparr>tbl_filter := Some (new_FilterBlockReader data)\<rparr>))"

definition ReadMeta :: "crc_env \<Rightarrow> random_read \<Rightarrow> table_options \<Rightarrow> footer \<Rightarrow> table \<Rightarrow> table" where
  "ReadMeta e read opts f t =
     (case to_filter_policy opts of None \<Rightarrow> t
      | Some p \<Rightarrow>
        (case ReadBlock e read (to_paranoid_checks opts) (ft_metaindex_handle f) of Inl _ \<Rightarrow> t
         | Inr (contents, _) \<Rightarrow>
           let key = filter_prefix @ fp_name p;
               iter = Iter_Seek Slice_compare key (Block_NewIterator (new_Block contents))
           in if Iter_Valid iter \<and> Iter_key iter = key then ReadFilter e read opts (Iter_value iter) t else t))"

definition Table_Open ::
  "crc_env \<Rightarrow> random_read \<Rightarrow> table_options \<Rightarrow> 'c block_cache option \<Rightarrow> u64 \<Rightarrow> 'c \<Rightarrow> (status + table) \<times> 'c" where
  "Table_Open e read opts cache sz c =
     (if sz < of_nat kEncodedLength then (Inl (Corruption ''file is too short to be an sstable''), c)
      else let (s, footer_input, _) = read (sz - of_nat kEncodedLength) (of_nat kEncodedLength) in
        if s \<noteq> OK then (Inl s, c)
        else case Footer_DecodeFrom footer_input of Inl s \<Rightarrow> (Inl s, c)
        | Inr (f, _) \<Rightarrow>
          (case ReadBlock e read (to_paranoid_checks opts) (ft_index_handle f) of Inl s \<Rightarrow> (Inl s, c)
           | Inr (contents, _) \<Rightarrow>
             let index_block = new_Block contents;
                 (cache_id, c) = (case cache of None \<Rightarrow> (0, c) | Some bc \<Rightarrow> bc_new_id bc c);
                 t = \<lparr>tbl_cache_id = cache_id, tbl_filter = None, tbl_metaindex_handle = ft_metaindex_handle f, tbl_index_block = index_block\<rparr>
             in (Inr (ReadMeta e read opts f t), c)))"

section \<open>Lookups\<close>

record read_options =
  ro_verify_checksums :: bool
  ro_fill_cache :: bool

definition BlockReader ::
  "crc_env \<Rightarrow> random_read \<Rightarrow> 'c block_cache option \<Rightarrow> read_options \<Rightarrow> table \<Rightarrow> byte list \<Rightarrow> 'c \<Rightarrow> new_iter \<times> 'c" where
  "BlockReader e read cache ro t index_value c =
     (case BlockHandle_DecodeFrom index_value of Inl s \<Rightarrow> (ErrorIterator s, c)
      | Inr (handle, _) \<Rightarrow>
        (case cache of
           None \<Rightarrow>
             (case ReadBlock e read (ro_verify_checksums ro) handle of Inl s \<Rightarrow> (ErrorIterator s, c)
              | Inr (contents, _) \<Rightarrow> (Block_NewIterator (new_Block contents), c))
         | Some bc \<Rightarrow>
             let key = EncodeFixed64 (tbl_cache_id t) @ EncodeFixed64 (bh_offset handle)
             in (case bc_lookup bc key c of
                   (Some block, c) \<Rightarrow> (Block_NewIterator block, c)
                 | (None, c) \<Rightarrow>
                   (case ReadBlock e read (ro_verify_checksums ro) handle of Inl s \<Rightarrow> (ErrorIterator s, c)
                    | Inr (contents, cachable) \<Rightarrow>
                      let block = new_Block contents;
                          c = (if cachable \<and> ro_fill_cache ro then bc_insert bc key block (bk_size block) c else c)
                      in (Block_NewIterator block, c)))))"

text \<open>The callback is called at most once: the result has its key and value.\<close>

definition InternalGet ::
  "crc_env \<Rightarrow> random_read \<Rightarrow> table_options \<Rightarrow> 'c block_cache option \<Rightarrow> read_options \<Rightarrow> byte list \<Rightarrow> table \<Rightarrow> 'c
     \<Rightarrow> status \<times> (byte list \<times> byte list) option \<times> 'c" where
  "InternalGet e read opts cache ro k t c =
     (let iiter = Iter_Seek (to_compare opts) k (Block_NewIterator (tbl_index_block t));
          (s, result, c) =
            (if Iter_Valid iiter then
               let handle_value = Iter_value iiter;
                   denied = (case (to_filter_policy opts, tbl_filter t) of
                       (Some p, Some filter_reader) \<Rightarrow>
                         (case BlockHandle_DecodeFrom handle_value of Inl _ \<Rightarrow> False
                          | Inr (handle, _) \<Rightarrow> \<not> Filter_KeyMayMatch (fp_match p) filter_reader (bh_offset handle) k)
                     | _ \<Rightarrow> False)
               in if denied then (OK, None, c)
                  else
                    let (block_iter, c) = BlockReader e read cache ro t handle_value c;
                        block_iter = Iter_Seek (to_compare opts) k block_iter
                    in (Iter_status block_iter,
                        if Iter_Valid block_iter then Some (Iter_key block_iter, Iter_value block_iter) else None, c)
             else (OK, None, c))
      in (if s = OK then Iter_status iiter else s, result, c))"

definition ApproximateOffsetOf :: "table_options \<Rightarrow> byte list \<Rightarrow> table \<Rightarrow> u64" where
  "ApproximateOffsetOf opts key t =
     (let index_iter = Iter_Seek (to_compare opts) key (Block_NewIterator (tbl_index_block t)) in
      if Iter_Valid index_iter then
        (case BlockHandle_DecodeFrom (Iter_value index_iter) of Inl _ \<Rightarrow> bh_offset (tbl_metaindex_handle t)
         | Inr (handle, _) \<Rightarrow> bh_offset handle)
      else bh_offset (tbl_metaindex_handle t))"

section \<open>The options of the database\<close>

text \<open>\<open>SanitizeOptions\<close> wraps comparator and filter policy of the user for internal keys; the values are compared as 32-bit integers.\<close>

definition ClipToRange :: "nat \<Rightarrow> int \<Rightarrow> int \<Rightarrow> nat" where
  "ClipToRange v minvalue maxvalue =
     (let v = (if sint (of_nat v :: u32) > maxvalue then nat maxvalue else v)
      in if sint (of_nat v :: u32) < minvalue then nat minvalue else v)"

definition InternalFilterPolicy :: "filter_policy_ops \<Rightarrow> filter_policy_ops" where
  "InternalFilterPolicy user_policy = \<lparr>fp_name = fp_name user_policy, fp_create = InternalFilterPolicy_CreateFilter (fp_create user_policy),
     fp_match = InternalFilterPolicy_KeyMayMatch (fp_match user_policy)\<rparr>"

definition BloomPolicy :: "nat \<Rightarrow> filter_policy_ops" where
  "BloomPolicy bits_per_key = \<lparr>fp_name = map (\<lambda>c. of_nat (of_char c)) ''leveldb.BuiltinBloomFilter2'',
     fp_create = Bloom_CreateFilter (NewBloomFilterPolicy bits_per_key), fp_match = Bloom_KeyMayMatch\<rparr>"

definition SanitizeOptions :: "table_options \<Rightarrow> table_options" where
  "SanitizeOptions src = src\<lparr>to_compare := Internal_Compare (to_compare src),
     to_separator := Internal_FindShortestSeparator (to_compare src) (to_separator src),
     to_successor := Internal_FindShortSuccessor (to_compare src) (to_successor src),
     to_filter_policy := map_option InternalFilterPolicy (to_filter_policy src),
     to_block_size := ClipToRange (to_block_size src) (2 ^ 10) (4 * 2 ^ 20)\<rparr>"

definition bytewise_options :: "nat option \<Rightarrow> nat \<Rightarrow> nat \<Rightarrow> CompressionType \<Rightarrow> bool \<Rightarrow> table_options" where
  "bytewise_options bits block_size k compression paranoid = \<lparr>to_compare = Slice_compare, to_separator = Bytewise_FindShortestSeparator,
     to_successor = Bytewise_FindShortSuccessor, to_paranoid_checks = paranoid, to_block_size = block_size, to_block_restart_interval = k,
     to_compression = compression, to_filter_policy = map_option BloomPolicy bits\<rparr>"

section \<open>What a lookup does with the entry\<close>

datatype SaverState = kNotFound | kFound | kDeleted | kCorrupt

definition SaveValue :: "compare_fn \<Rightarrow> byte list \<Rightarrow> byte list \<Rightarrow> byte list \<Rightarrow> SaverState \<times> byte list \<Rightarrow> SaverState \<times> byte list" where
  "SaveValue ucmp user_key ikey v s =
     (case ParseInternalKey ikey of None \<Rightarrow> (kCorrupt, snd s)
      | Some k \<Rightarrow>
          if ucmp (pk_user_key k) user_key = 0 then (if pk_type k = kTypeValue then (kFound, v) else (kDeleted, snd s))
          else s)"

text \<open>What \<open>Version::Get\<close> has after a lookup: it starts with nothing found and passes \<open>SaveValue\<close> to the lookup.\<close>

definition saver_result :: "byte list \<Rightarrow> (byte list \<times> byte list) option \<Rightarrow> SaverState \<times> byte list" where
  "saver_result user res =
     (case res of None \<Rightarrow> (kNotFound, []) | Some (k, v) \<Rightarrow> SaveValue Slice_compare user k v (kNotFound, []))"

end
