(* ===== verification/Ldb_Skiplist.thy ===== *)
theory Ldb_Skiplist
  imports Ldb_Format
begin

text \<open>
  The skip list under a memtable (\<^verbatim>\<open>db/skiplist.h\<close>) and the random numbers it draws its heights from (\<^verbatim>\<open>util/random.h\<close>).
  Nodes live in an arena and are never freed: the arena is a list of nodes, a pointer is an index into it, the null pointer
  is \<open>None\<close> and the head is node 0. The loops of the searches are partial functions; that they return is
  proved from the invariant.
\<close>

section \<open>Random numbers\<close>

definition new_Random :: "u32 \<Rightarrow> u32" where
  "new_Random s = (let seed = s AND 0x7fffffff in if seed = 0 \<or> seed = 2147483647 then 1 else seed)"

definition Random_Next :: "u32 \<Rightarrow> u32" where
  "Random_Next seed =
     (let M = 2147483647 :: u32; A = 16807 :: u64;
          product = ucast seed * A;
          seed = ucast (drop_bit 31 product + (product AND ucast M))
      in if seed > M then seed - M else seed)"

definition Random_Uniform :: "nat \<Rightarrow> u32 \<Rightarrow> nat \<times> u32" where
  "Random_Uniform n seed = (let seed = Random_Next seed in (unat seed mod n, seed))"

definition Random_OneIn :: "nat \<Rightarrow> u32 \<Rightarrow> bool \<times> u32" where
  "Random_OneIn n seed = (let seed = Random_Next seed in (unat seed mod n = 0, seed))"

definition Random_Skewed :: "nat \<Rightarrow> u32 \<Rightarrow> nat \<times> u32" where
  "Random_Skewed max_log seed = (let (n, seed) = Random_Uniform (max_log + 1) seed in Random_Uniform (2 ^ n) seed)"

text \<open>The generator multiplies by 16807 modulo the Mersenne prime \<open>2 ^ 31 - 1\<close>, and never leaves the range of good seeds.\<close>

lemma unat_Random_Next:
  assumes "1 \<le> unat s" "unat s < 2 ^ 31 - 1"
  shows "unat (Random_Next s) = unat s * 16807 mod (2 ^ 31 - 1)" "1 \<le> unat (Random_Next s)"
proof -
  define p where "p = unat s * 16807"
  define q r where "q = p div 2 ^ 31" and "r = p mod 2 ^ 31"
  let ?w = "ucast s * 16807 :: u64"
  have w: "unat ?w = p" using assms(2) unsigned_less [of s] by (simp add: p_def unat_word_ariths unsigned_ucast_eq take_bit_eq_mod)
  have M: "(2147483647 :: u64) = mask 31" by (simp add: mask_eq_exp_minus_1)
  have hi: "unat (drop_bit 31 ?w) = q" by (simp add: w q_def drop_bit_eq_div unat_div_distrib del: push_bit_of_1)
  have lo: "unat (?w AND 2147483647) = r" unfolding M by (simp add: take_bit_eq_mask [symmetric] w r_def take_bit_eq_mod unat_mod_distrib)
  have q: "q < 16807" using assms(2) by (simp add: q_def p_def)
  have r: "r < 2 ^ 31" by (simp add: r_def)
  have p: "p = q * (2 ^ 31 - 1) + (q + r)" using mult_div_mod_eq [of "2 ^ 31" p] by (simp add: q_def r_def)
  define v :: u32 where "v = ucast (drop_bit 31 ?w + (?w AND 2147483647))"
  have v: "unat v = q + r" using q r hi lo by (simp add: v_def unat_word_ariths unsigned_ucast_eq take_bit_eq_mod)
  have nz: "\<not> 2147483647 dvd p"
  proof
    assume "2147483647 dvd p"
    moreover have "coprime (2147483647 :: nat) 16807" by (simp add: coprime_iff_gcd_eq_1 gcd_non_0_nat)
    ultimately have "2147483647 dvd unat s" by (simp add: p_def coprime_dvd_mult_left_iff)
    then show False using assms by (auto dest: dvd_imp_le)
  qed
  have res: "unat (Random_Next s) = (if q + r > 2147483647 then q + r - 2147483647 else q + r)"
    using v q r by (simp add: Random_Next_def Let_def v_def [symmetric] word_less_nat_alt unat_sub word_le_nat_alt)
  have pM: "p = q * 2147483647 + (q + r)" using p by simp
  have ne: "q + r \<noteq> 2147483647" "q + r \<noteq> 0"
  proof -
    have "2147483647 dvd p \<longleftrightarrow> 2147483647 dvd q + r" unfolding pM by (rule dvd_add_right_iff) simp
    then show "q + r \<noteq> 2147483647" "q + r \<noteq> 0" using nz by (metis dvd_refl, metis dvd_0_right)
  qed
  have "p mod 2147483647 = (q + r) mod 2147483647" unfolding pM by (rule mod_mult_self3)
  also have "\<dots> = unat (Random_Next s)" using res ne(1) q r by (simp add: mod_if)
  finally show "unat (Random_Next s) = unat s * 16807 mod (2 ^ 31 - 1)" by (simp add: p_def)
  show "1 \<le> unat (Random_Next s)" using res ne by auto
qed

lemma unat_new_Random: "1 \<le> unat (new_Random s)" "unat (new_Random s) < 2 ^ 31 - 1"
proof -
  let ?w = "s AND 0x7fffffff"
  have "?w = take_bit 31 s" by (simp add: take_bit_eq_mask mask_eq_exp_minus_1)
  then have "unat ?w < 2 ^ 31" by (simp add: take_bit_eq_mod unat_mod_distrib)
  then have *: "?w \<noteq> 0 \<Longrightarrow> ?w \<noteq> 2147483647 \<Longrightarrow> 1 \<le> unat ?w \<and> unat ?w < 2 ^ 31 - 1"
    by (auto simp: word_unat_eq_iff Suc_le_eq)
  show "1 \<le> unat (new_Random s)" "unat (new_Random s) < 2 ^ 31 - 1"
    using * by (simp_all add: new_Random_def Let_def)
qed

section \<open>Nodes\<close>

definition kMaxHeight :: nat where "kMaxHeight = 12"

record 'k sk_node =
  sk_key :: 'k
  sk_next :: "nat option list"

record 'k skiplist =
  sl_nodes :: "'k sk_node list"
  sl_max_height :: nat
  sl_rnd :: u32

abbreviation (input) sk_head :: nat where "sk_head \<equiv> 0"

definition Node_Next :: "'k sk_node list \<Rightarrow> nat \<Rightarrow> nat \<Rightarrow> nat option" where
  "Node_Next nodes x n = sk_next (nodes ! x) ! n"

definition Node_SetNext :: "nat \<Rightarrow> nat \<Rightarrow> nat option \<Rightarrow> 'k sk_node list \<Rightarrow> 'k sk_node list" where
  "Node_SetNext x n y nodes = nodes[x := (nodes ! x)\<lparr>sk_next := (sk_next (nodes ! x))[n := y]\<rparr>]"

text \<open>The links of a new node are not initialised; nobody reads them before they are set.\<close>

definition NewNode :: "'k \<Rightarrow> nat \<Rightarrow> 'k sk_node list \<Rightarrow> nat \<times> 'k sk_node list" where
  "NewNode key height nodes = (length nodes, nodes @ [\<lparr>sk_key = key, sk_next = replicate height None\<rparr>])"

text \<open>The key of the head is arbitrary.\<close>

definition new_SkipList :: "'k \<Rightarrow> 'k skiplist" where
  "new_SkipList any = \<lparr>sl_nodes = fold (\<lambda>i. Node_SetNext sk_head i None) [0..<kMaxHeight] (snd (NewNode any kMaxHeight [])),
     sl_max_height = 1, sl_rnd = new_Random 0xdeadbeef\<rparr>"

section \<open>Searches\<close>

definition KeyIsAfterNode :: "('k \<Rightarrow> 'k \<Rightarrow> int) \<Rightarrow> 'k sk_node list \<Rightarrow> 'k \<Rightarrow> nat option \<Rightarrow> bool" where
  "KeyIsAfterNode compare nodes key n = (case n of None \<Rightarrow> False | Some x \<Rightarrow> compare (sk_key (nodes ! x)) key < 0)"

text \<open>
  The loop that the three searches share: it goes on in the list of a level as long as the next node is one it should pass, and then
  down a level. It returns the node where it ends, its successor and the last node passed at each level.
\<close>

partial_function (option) descend ::
  "'k sk_node list \<Rightarrow> (nat option \<Rightarrow> bool) \<Rightarrow> nat \<Rightarrow> nat \<Rightarrow> nat list \<Rightarrow> (nat \<times> nat option \<times> nat list) option" where
  "descend nodes pass x level prev =
     (if pass (Node_Next nodes x level) then descend nodes pass (the (Node_Next nodes x level)) level prev
      else if level = 0 then Some (x, Node_Next nodes x level, prev[level := x])
      else descend nodes pass x (level - 1) (prev[level := x]))"

definition FindGreaterOrEqual :: "('k \<Rightarrow> 'k \<Rightarrow> int) \<Rightarrow> 'k \<Rightarrow> 'k skiplist \<Rightarrow> (nat option \<times> nat list) option" where
  "FindGreaterOrEqual compare key sl = map_option snd
     (descend (sl_nodes sl) (KeyIsAfterNode compare (sl_nodes sl) key) sk_head (sl_max_height sl - 1) (replicate kMaxHeight 0))"

definition FindLessThan :: "('k \<Rightarrow> 'k \<Rightarrow> int) \<Rightarrow> 'k \<Rightarrow> 'k skiplist \<Rightarrow> nat option" where
  "FindLessThan compare key sl = map_option fst
     (descend (sl_nodes sl) (\<lambda>n. \<not> (case n of None \<Rightarrow> True | Some x \<Rightarrow> compare (sk_key (sl_nodes sl ! x)) key \<ge> 0))
        sk_head (sl_max_height sl - 1) (replicate kMaxHeight 0))"

definition FindLast :: "'k skiplist \<Rightarrow> nat option" where
  "FindLast sl = map_option fst (descend (sl_nodes sl) (\<lambda>n. n \<noteq> None) sk_head (sl_max_height sl - 1) (replicate kMaxHeight 0))"

definition SkipList_Contains :: "('k \<Rightarrow> 'k \<Rightarrow> int) \<Rightarrow> 'k \<Rightarrow> 'k skiplist \<Rightarrow> bool option" where
  "SkipList_Contains compare key sl = (case FindGreaterOrEqual compare key sl of None \<Rightarrow> None
     | Some (x, _) \<Rightarrow> Some (case x of None \<Rightarrow> False | Some x \<Rightarrow> compare key (sk_key (sl_nodes sl ! x)) = 0))"

section \<open>Insertion\<close>

function random_height_loop :: "nat \<Rightarrow> u32 \<Rightarrow> nat \<times> u32" where
  "random_height_loop height rnd =
     (if height < kMaxHeight then
        let rnd = Random_Next rnd in if unat rnd mod 4 = 0 then random_height_loop (height + 1) rnd else (height, rnd)
      else (height, rnd))"
  by pat_completeness auto
termination by (relation "measure (\<lambda>(h, _). kMaxHeight - h)") auto

declare random_height_loop.simps [simp del]

definition RandomHeight :: "u32 \<Rightarrow> nat \<times> u32" where
  "RandomHeight rnd = random_height_loop 1 rnd"

text \<open>Linking the new node at one level: first its own link, then the link that publishes it.\<close>

definition link_level :: "nat \<Rightarrow> nat list \<Rightarrow> nat \<Rightarrow> 'k sk_node list \<Rightarrow> 'k sk_node list" where
  "link_level x prev i nodes =
     (let nodes = Node_SetNext x i (Node_Next nodes (prev ! i) i) nodes in Node_SetNext (prev ! i) i (Some x) nodes)"

text \<open>An insertion first searches, draws a height and makes the node, and then links it level by level from below.\<close>

definition prepare_insert :: "('k \<Rightarrow> 'k \<Rightarrow> int) \<Rightarrow> 'k \<Rightarrow> 'k skiplist \<Rightarrow> (nat \<times> nat \<times> nat list \<times> 'k skiplist) option" where
  "prepare_insert compare key sl = (case FindGreaterOrEqual compare key sl of None \<Rightarrow> None
     | Some (_, prev) \<Rightarrow>
       let (height, rnd) = RandomHeight (sl_rnd sl);
           (prev, max_height) = (if height > sl_max_height sl
             then (fold (\<lambda>i p. p[i := sk_head]) [sl_max_height sl..<height] prev, height) else (prev, sl_max_height sl));
           (x, nodes) = NewNode key height (sl_nodes sl)
       in Some (x, height, prev, \<lparr>sl_nodes = nodes, sl_max_height = max_height, sl_rnd = rnd\<rparr>))"

definition SkipList_Insert :: "('k \<Rightarrow> 'k \<Rightarrow> int) \<Rightarrow> 'k \<Rightarrow> 'k skiplist \<Rightarrow> 'k skiplist option" where
  "SkipList_Insert compare key sl = (case prepare_insert compare key sl of None \<Rightarrow> None
     | Some (x, height, prev, sl) \<Rightarrow> Some (sl\<lparr>sl_nodes := fold (link_level x prev) [0..<height] (sl_nodes sl)\<rparr>))"

section \<open>Iterators\<close>

text \<open>An iterator is the node at which it stands; it is valid if there is one.\<close>

definition SkipIter_Next :: "'k skiplist \<Rightarrow> nat \<Rightarrow> nat option" where
  "SkipIter_Next sl node = Node_Next (sl_nodes sl) node 0"

definition null_head :: "nat \<Rightarrow> nat option" where
  "null_head x = (if x = sk_head then None else Some x)"

definition SkipIter_Prev :: "('k \<Rightarrow> 'k \<Rightarrow> int) \<Rightarrow> 'k skiplist \<Rightarrow> nat \<Rightarrow> nat option option" where
  "SkipIter_Prev compare sl node = map_option null_head (FindLessThan compare (sk_key (sl_nodes sl ! node)) sl)"

definition SkipIter_Seek :: "('k \<Rightarrow> 'k \<Rightarrow> int) \<Rightarrow> 'k \<Rightarrow> 'k skiplist \<Rightarrow> nat option option" where
  "SkipIter_Seek compare target sl = map_option fst (FindGreaterOrEqual compare target sl)"

definition SkipIter_SeekToFirst :: "'k skiplist \<Rightarrow> nat option" where
  "SkipIter_SeekToFirst sl = Node_Next (sl_nodes sl) sk_head 0"

definition SkipIter_SeekToLast :: "'k skiplist \<Rightarrow> nat option option" where
  "SkipIter_SeekToLast sl = map_option null_head (FindLast sl)"

section \<open>Lists of nodes\<close>

text \<open>\<open>path_to nodes i x ys\<close>: following the links of level \<open>i\<close> from \<open>x\<close> passes the nodes \<open>ys\<close>.\<close>

primrec path_to :: "'k sk_node list \<Rightarrow> nat \<Rightarrow> nat \<Rightarrow> nat list \<Rightarrow> bool" where
  "path_to nodes i x [] = True"
| "path_to nodes i x (y # ys) \<longleftrightarrow> Node_Next nodes x i = Some y \<and> path_to nodes i y ys"

definition chain :: "'k sk_node list \<Rightarrow> nat \<Rightarrow> nat list \<Rightarrow> bool" where
  "chain nodes i ys \<longleftrightarrow> path_to nodes i sk_head ys \<and> Node_Next nodes (last (sk_head # ys)) i = None"

definition first :: "'a list \<Rightarrow> 'a option" where
  "first xs = (case xs of [] \<Rightarrow> None | x # _ \<Rightarrow> Some x)"

lemma first_simps [simp]: "first [] = None" "first (x # xs) = Some x"
  by (simp_all add: first_def)

lemma path_to_append: "path_to nodes i x (us @ ws) \<longleftrightarrow> path_to nodes i x us \<and> path_to nodes i (last (x # us)) ws"
  by (induction us arbitrary: x) auto

lemma path_to_cong:
  "(\<And>z. z \<in> set (butlast (x # ys)) \<Longrightarrow> Node_Next nodes' z i = Node_Next nodes z i) \<Longrightarrow> path_to nodes' i x ys = path_to nodes i x ys"
  by (induction ys arbitrary: x) (auto split: if_splits)

lemma chain_split:
  assumes "chain nodes i (us @ ws)"
  shows "Node_Next nodes (last (sk_head # us)) i = first ws"
  using assms by (cases ws) (auto simp: chain_def path_to_append)

text \<open>A search passes the nodes of a level that it should pass, if these come first.\<close>

lemma descend_level:
  assumes "chain nodes i (us @ vs @ ws)" "\<forall>v \<in> set vs. pass (Some v)" "\<not> pass (first ws)"
  shows "descend nodes pass (last (sk_head # us)) i prev =
    (if i = 0 then Some (last (sk_head # us @ vs), first ws, prev[i := last (sk_head # us @ vs)])
     else descend nodes pass (last (sk_head # us @ vs)) (i - 1) (prev[i := last (sk_head # us @ vs)]))"
  using assms(1,2)
proof (induction vs arbitrary: us)
  case Nil
  then have "Node_Next nodes (last (sk_head # us)) i = first ws" using chain_split by fastforce
  then show ?case using assms(3) by (subst descend.simps) auto
next
  case (Cons v vs)
  have next_v: "Node_Next nodes (last (sk_head # us)) i = Some v" using chain_split [OF Cons.prems(1)] by simp
  have "chain nodes i ((us @ [v]) @ vs @ ws)" using Cons.prems(1) by simp
  from Cons.IH [OF this] Cons.prems(2) next_v show ?case by (subst descend.simps) simp
qed

definition down_closed :: "('a \<Rightarrow> bool) \<Rightarrow> 'a list \<Rightarrow> bool" where
  "down_closed P = sorted_wrt (\<lambda>x y. P y \<longrightarrow> P x)"

lemma down_closed_split: "down_closed P xs \<Longrightarrow> xs = filter P xs @ filter (\<lambda>x. \<not> P x) xs"
proof (induction xs)
  case (Cons x xs)
  then show ?case by (cases "P x") (auto simp: down_closed_def filter_empty_conv)
qed simp

lemma not_pass_first: "\<not> pass None \<Longrightarrow> \<not> pass (first (filter (\<lambda>x. \<not> pass (Some x)) xs))"
  by (induction xs) simp_all

lemma descend_one:
  assumes "chain nodes i xs" "down_closed (\<lambda>x. pass (Some x)) xs" "\<not> pass None" "x = sk_head \<or> x \<in> set xs \<and> pass (Some x)"
  defines "l \<equiv> last (sk_head # filter (\<lambda>x. pass (Some x)) xs)"
  shows "descend nodes pass x i prev =
    (if i = 0 then Some (l, first (filter (\<lambda>x. \<not> pass (Some x)) xs), prev[i := l]) else descend nodes pass l (i - 1) (prev[i := l]))"
proof -
  let ?A = "filter (\<lambda>x. pass (Some x)) xs" and ?B = "filter (\<lambda>x. \<not> pass (Some x)) xs"
  have "\<exists>us vs. ?A = us @ vs \<and> x = last (sk_head # us)"
  proof (cases "x = sk_head")
    case True
    then show ?thesis by (intro exI [of _ "[]"] exI [of _ ?A]) simp
  next
    case False
    then have "x \<in> set ?A" using assms(4) by simp
    then obtain us vs where "?A = (us @ [x]) @ vs" by (metis append_Cons append_Nil append_assoc split_list)
    then show ?thesis by (metis last.simps last_snoc snoc_eq_iff_butlast)
  qed
  then obtain us vs where uv: "?A = us @ vs" "x = last (sk_head # us)" by blast
  have "chain nodes i (us @ vs @ ?B)" using assms(1) down_closed_split [OF assms(2)] uv(1) by simp
  moreover have "\<forall>v \<in> set vs. pass (Some v)" using uv(1) by (metis (mono_tags, lifting) Un_iff mem_Collect_eq set_append set_filter)
  ultimately show ?thesis
    using descend_level [of nodes i us vs ?B pass prev] not_pass_first [of pass xs] assms(3) uv by (simp add: l_def)
qed

text \<open>What the levels have to be for a search: \<open>L i\<close> lists the nodes of level \<open>i\<close>.\<close>

definition levels :: "'k sk_node list \<Rightarrow> nat \<Rightarrow> (nat \<Rightarrow> nat list) \<Rightarrow> bool" where
  "levels nodes n L \<longleftrightarrow> (\<forall>i < n. chain nodes i (L i)) \<and> (\<forall>i. Suc i < n \<longrightarrow> set (L (Suc i)) \<subseteq> set (L i))"

lemma descend_correct:
  assumes "levels nodes n L" "level < n" "\<forall>i \<le> level. down_closed (\<lambda>x. pass (Some x)) (L i)" "\<not> pass None"
    "x = sk_head \<or> x \<in> set (L level) \<and> pass (Some x)" "level < length prev"
  shows "\<exists>prev'. descend nodes pass x level prev =
      Some (last (sk_head # filter (\<lambda>x. pass (Some x)) (L 0)), first (filter (\<lambda>x. \<not> pass (Some x)) (L 0)), prev')
    \<and> length prev' = length prev \<and> (\<forall>i \<le> level. prev' ! i = last (sk_head # filter (\<lambda>x. pass (Some x)) (L i)))
    \<and> (\<forall>i > level. prev' ! i = prev ! i)"
  using assms(2,3,5,6)
proof (induction level arbitrary: x prev)
  case (0 x prev)
  have "chain nodes 0 (L 0)" using assms(1) 0(1) by (simp add: levels_def)
  from descend_one [OF this _ assms(4) 0(3)] 0(2,4) show ?case by simp
next
  case (Suc level)
  let ?l = "last (sk_head # filter (\<lambda>x. pass (Some x)) (L (Suc level)))"
  have "chain nodes (Suc level) (L (Suc level))" using assms(1) Suc.prems(1) by (simp add: levels_def)
  from descend_one [OF this _ assms(4) Suc.prems(3)] Suc.prems(2)
  have step: "descend nodes pass x (Suc level) prev = descend nodes pass ?l level (prev[Suc level := ?l])" by simp
  have "?l = sk_head \<or> ?l \<in> set (filter (\<lambda>x. pass (Some x)) (L (Suc level)))" using last_in_set by fastforce
  moreover have "set (L (Suc level)) \<subseteq> set (L level)" using assms(1) Suc.prems(1) by (simp add: levels_def)
  ultimately have "?l = sk_head \<or> ?l \<in> set (L level) \<and> pass (Some ?l)" by auto
  from Suc.IH [OF _ _ this, of "prev[Suc level := ?l]"] Suc.prems step show ?case
    by (auto simp: le_Suc_eq nth_list_update)
qed

section \<open>The invariant\<close>

abbreviation node_key :: "'k sk_node list \<Rightarrow> nat \<Rightarrow> 'k" where
  "node_key nodes x \<equiv> sk_key (nodes ! x)"

abbreviation node_height :: "'k sk_node list \<Rightarrow> nat \<Rightarrow> nat" where
  "node_height nodes x \<equiv> length (sk_next (nodes ! x))"

definition node_ok :: "('k \<Rightarrow> bool) \<Rightarrow> 'k sk_node list \<Rightarrow> nat \<Rightarrow> nat \<Rightarrow> bool" where
  "node_ok valid nodes i x \<longleftrightarrow> x \<noteq> sk_head \<and> x < length nodes \<and> i < node_height nodes x \<and> valid (node_key nodes x)"

definition sorted_keys :: "('k \<Rightarrow> 'k \<Rightarrow> int) \<Rightarrow> 'k sk_node list \<Rightarrow> nat list \<Rightarrow> bool" where
  "sorted_keys compare nodes = sorted_wrt (\<lambda>x y. compare (node_key nodes x) (node_key nodes y) < 0)"

text \<open>
  The lists of all levels are linked and sorted, and each holds nodes of the level below only. This is
  true after every single store of an insertion.
\<close>

definition sl_lists :: "('k \<Rightarrow> 'k \<Rightarrow> int) \<Rightarrow> ('k \<Rightarrow> bool) \<Rightarrow> 'k sk_node list \<Rightarrow> (nat \<Rightarrow> nat list) \<Rightarrow> bool" where
  "sl_lists compare valid nodes L \<longleftrightarrow> nodes \<noteq> [] \<and> node_height nodes sk_head = kMaxHeight \<and> levels nodes kMaxHeight L \<and>
     (\<forall>i < kMaxHeight. (\<forall>x \<in> set (L i). node_ok valid nodes i x) \<and> sorted_keys compare nodes (L i))"

lemma SetNext_simps [simp]:
  "length (Node_SetNext x n y nodes) = length nodes"
  "node_key (Node_SetNext x n y nodes) z = node_key nodes z"
  "node_height (Node_SetNext x n y nodes) z = node_height nodes z"
proof -
  have "length (Node_SetNext x n y nodes) = length nodes \<and> node_key (Node_SetNext x n y nodes) z = node_key nodes z
    \<and> node_height (Node_SetNext x n y nodes) z = node_height nodes z"
    by (cases "x < length nodes"; cases "z = x") (simp_all add: Node_SetNext_def list_update_beyond)
  then show "length (Node_SetNext x n y nodes) = length nodes" "node_key (Node_SetNext x n y nodes) z = node_key nodes z"
    "node_height (Node_SetNext x n y nodes) z = node_height nodes z" by blast+
qed

lemma Next_SetNext:
  assumes "x < length nodes" "n < node_height nodes x"
  shows "Node_Next (Node_SetNext x n y nodes) z m = (if z = x \<and> m = n then y else Node_Next nodes z m)"
  using assms by (auto simp: Node_Next_def Node_SetNext_def nth_list_update)

lemma node_ok_SetNext [simp]: "node_ok valid (Node_SetNext x n y nodes) i z = node_ok valid nodes i z"
  unfolding node_ok_def by simp

lemma sorted_keys_SetNext [simp]: "sorted_keys compare (Node_SetNext x n y nodes) xs = sorted_keys compare nodes xs"
  unfolding sorted_keys_def by simp

lemma SetNext_not_Nil [simp]: "Node_SetNext x n y nodes \<noteq> [] \<longleftrightarrow> nodes \<noteq> []"
  by (simp add: Node_SetNext_def)

lemma chain_cong:
  "(\<And>z. z \<in> set (sk_head # ys) \<Longrightarrow> Node_Next nodes' z i = Node_Next nodes z i) \<Longrightarrow> chain nodes' i ys = chain nodes i ys"
  unfolding chain_def using path_to_cong [of sk_head ys nodes' i nodes] in_set_butlastD [of _ "sk_head # ys"] last_in_set [of "sk_head # ys"]
  by (metis list.distinct(1))

lemma sl_listsD:
  assumes "sl_lists compare valid nodes L" "i < kMaxHeight"
  shows "chain nodes i (L i)" "sorted_keys compare nodes (L i)" "x \<in> set (L i) \<Longrightarrow> node_ok valid nodes i x"
    "Suc i < kMaxHeight \<Longrightarrow> set (L (Suc i)) \<subseteq> set (L i)"
  using assms by (auto simp: sl_lists_def levels_def)

text \<open>Writing the links of a node that is in no list yet changes nothing.\<close>

lemma set_unlinked:
  assumes "sl_lists compare valid nodes L" "x < length nodes" "n < node_height nodes x" "x \<noteq> sk_head" "n < kMaxHeight" "x \<notin> set (L n)"
  shows "sl_lists compare valid (Node_SetNext x n y nodes) L"
proof -
  have "chain (Node_SetNext x n y nodes) i (L i)" if "i < kMaxHeight" for i
  proof -
    have "chain (Node_SetNext x n y nodes) i (L i) = chain nodes i (L i)"
      by (rule chain_cong) (use assms(2-) in \<open>auto simp: Next_SetNext\<close>)
    then show ?thesis using sl_listsD(1) [OF assms(1) that] by simp
  qed
  then show ?thesis using assms(1) by (simp add: sl_lists_def levels_def)
qed

text \<open>Publishing a node in the list of a level.\<close>

lemma chain_insert:
  assumes "chain nodes i (us @ vs)" "distinct (sk_head # us @ x # vs)" "p = last (sk_head # us)" "p < length nodes" "i < node_height nodes p"
    "Node_Next nodes x i = Node_Next nodes p i"
  shows "chain (Node_SetNext p i (Some x) nodes) i (us @ x # vs)"
proof -
  let ?nodes = "Node_SetNext p i (Some x) nodes"
  have path: "path_to nodes i sk_head us" "path_to nodes i p vs" "Node_Next nodes (last (p # vs)) i = None"
    using assms(1,3) by (auto simp: chain_def path_to_append)
  have other: "Node_Next ?nodes z i = Node_Next nodes z i" if "z \<noteq> p" for z using assms(4,5) that by (simp add: Next_SetNext)
  have p: "Node_Next ?nodes p i = Some x" using assms(4,5) by (simp add: Next_SetNext)
  have np: "p \<noteq> x" "p \<notin> set vs" using assms(2,3) by (cases us rule: rev_cases; auto)+
  have "p \<notin> set (butlast (sk_head # us))" using assms(2,3) by (induction us rule: rev_induct) (auto split: if_splits)
  then have "path_to ?nodes i sk_head us" using path(1) other path_to_cong by metis
  moreover have "path_to ?nodes i x vs \<and> Node_Next ?nodes (last (x # vs)) i = None"
  proof (cases vs)
    case Nil
    then show ?thesis using other [of x] np path(3) assms(6) by simp
  next
    case (Cons v vs')
    have "z \<noteq> p" if "z \<in> set (v # vs')" for z using that np Cons by auto
    then have "path_to ?nodes i v vs' = path_to nodes i v vs'" using other in_set_butlastD path_to_cong by metis
    moreover have "last (v # vs') \<noteq> p" using np(2) Cons last_in_set [of vs] by auto
    ultimately show ?thesis using path other [of x] other [of "last (v # vs')"] np assms(6) Cons by simp
  qed
  ultimately show ?thesis using p assms(3) by (auto simp: chain_def path_to_append)
qed

context key_order
begin

lemma sorted_keys_distinct:
  assumes "sorted_keys compare nodes xs" "\<forall>x \<in> set xs. valid (node_key nodes x)"
  shows "distinct xs"
  using assms by (induction xs) (auto simp: sorted_keys_def)

lemma publish:
  assumes "sl_lists compare valid nodes L" "i < kMaxHeight" "L i = us @ vs" "p = last (sk_head # us)" "node_ok valid nodes i x"
    "\<forall>u \<in> set us. compare (node_key nodes u) (node_key nodes x) < 0" "\<forall>v \<in> set vs. compare (node_key nodes x) (node_key nodes v) < 0"
    "Node_Next nodes x i = Node_Next nodes p i" "0 < i \<Longrightarrow> x \<in> set (L (i - 1))"
  shows "sl_lists compare valid (Node_SetNext p i (Some x) nodes) (L(i := us @ x # vs))"
proof -
  let ?nodes = "Node_SetNext p i (Some x) nodes" and ?L = "L(i := us @ x # vs)"
  note old = sl_listsD [OF assms(1)]
  have x: "x \<noteq> sk_head" "x < length nodes" "valid (node_key nodes x)" using assms(5) by (simp_all add: node_ok_def)
  have ok: "\<forall>z \<in> set (us @ vs). node_ok valid nodes i z" using old(3) [OF assms(2)] assms(3) by simp
  have p: "p < length nodes" "i < node_height nodes p"
    using ok assms(1,2,4) last_in_set [of us] by (auto simp: node_ok_def sl_lists_def)
  have sorted: "sorted_keys compare nodes (us @ x # vs)"
    using old(2) [OF assms(2)] assms(3,6,7) by (auto simp: sorted_keys_def sorted_wrt_append)
  have valid: "\<forall>z \<in> set (us @ x # vs). valid (node_key nodes z)" using ok x by (auto simp: node_ok_def)
  have "distinct (sk_head # us @ x # vs)"
    using sorted_keys_distinct [OF sorted valid] ok x(1) by (auto simp: node_ok_def)
  from chain_insert [OF _ this assms(4) p assms(8)] old(1) [OF assms(2)] assms(3)
  have new: "chain ?nodes i (us @ x # vs)" by simp
  have "chain ?nodes j (?L j)" if "j < kMaxHeight" for j
    using new old(1) [OF that] chain_cong [of "L j" ?nodes j nodes] p by (auto simp: Next_SetNext)
  moreover have "set (?L (Suc j)) \<subseteq> set (?L j)" if "Suc j < kMaxHeight" for j
    using old(4) [of j] that assms(3,9) by auto
  moreover have "node_ok valid nodes j z" if "j < kMaxHeight" "z \<in> set (?L j)" for j z
    using that old(3) [OF that(1), of z] assms(3,5) ok by (auto split: if_splits)
  moreover have "sorted_keys compare nodes (?L j)" if "j < kMaxHeight" for j using sorted old(2) [OF that] by simp
  ultimately show ?thesis using assms(1) by (simp add: sl_lists_def levels_def del: fun_upd_apply)
qed

text \<open>Linking at one level is the two stores after each other.\<close>

lemma link_level_ok:
  assumes "sl_lists compare valid nodes L" "i < kMaxHeight" "L i = us @ vs" "prev ! i = last (sk_head # us)" "node_ok valid nodes i x"
    "\<forall>u \<in> set us. compare (node_key nodes u) (node_key nodes x) < 0" "\<forall>v \<in> set vs. compare (node_key nodes x) (node_key nodes v) < 0"
    "0 < i \<Longrightarrow> x \<in> set (L (i - 1))"
  shows "sl_lists compare valid (link_level x prev i nodes) (L(i := us @ x # vs))"
proof -
  have x: "x < length nodes" "i < node_height nodes x" "x \<noteq> sk_head" "valid (node_key nodes x)" using assms(5) by (simp_all add: node_ok_def)
  have "x \<notin> set (L i)" using assms(3,6,7) refl [OF x(4)] by auto
  moreover from this x have "prev ! i \<noteq> x" using assms(3,4) by (cases us rule: rev_cases) auto
  ultimately show ?thesis unfolding link_level_def Let_def
    using assms x by (intro publish set_unlinked) (simp_all add: Next_SetNext)
qed

definition ins_lists :: "'k sk_node list \<Rightarrow> nat \<Rightarrow> nat \<Rightarrow> (nat \<Rightarrow> nat list) \<Rightarrow> nat \<Rightarrow> nat list" where
  "ins_lists nodes x k L i =
     (let P = \<lambda>z. compare (node_key nodes z) (node_key nodes x) < 0
      in if i < k then filter P (L i) @ x # filter (\<lambda>z. \<not> P z) (L i) else L i)"

lemma ins_lists_cong: "(\<And>z. node_key nodes' z = node_key nodes z) \<Longrightarrow> ins_lists nodes' = ins_lists nodes"
  by (intro ext) (simp add: ins_lists_def)

lemma ins_lists_Suc:
  "ins_lists nodes x (Suc k) L = (ins_lists nodes x k L)
     (k := filter (\<lambda>z. compare (node_key nodes z) (node_key nodes x) < 0) (L k) @
        x # filter (\<lambda>z. \<not> compare (node_key nodes z) (node_key nodes x) < 0) (L k))"
  by (rule ext) (auto simp: ins_lists_def Let_def less_Suc_eq)

lemma sorted_keys_down_closed:
  assumes "sorted_keys compare nodes xs" "\<forall>x \<in> set xs. valid (node_key nodes x)" "valid key"
  shows "down_closed (\<lambda>x. compare (node_key nodes x) key < 0) xs"
  unfolding down_closed_def
proof (rule sorted_wrt_mono_rel [rotated])
  show "sorted_wrt (\<lambda>x y. compare (node_key nodes x) (node_key nodes y) < 0) xs" using assms(1) by (simp add: sorted_keys_def)
  fix x y assume *: "x \<in> set xs" "y \<in> set xs" "compare (node_key nodes x) (node_key nodes y) < 0"
  then have v: "valid (node_key nodes x)" "valid (node_key nodes y)" using assms(2) by blast+
  show "compare (node_key nodes y) key < 0 \<longrightarrow> compare (node_key nodes x) key < 0"
    using less_le_trans [OF v assms(3) *(3)] by simp
qed

text \<open>What has to be known of the node that is linked in, before level \<open>k\<close> is linked.\<close>

definition linking :: "'k sk_node list \<Rightarrow> nat \<Rightarrow> nat \<Rightarrow> nat list \<Rightarrow> (nat \<Rightarrow> nat list) \<Rightarrow> bool" where
  "linking nodes x height prev L \<longleftrightarrow> height \<le> kMaxHeight \<and> node_height nodes x = height \<and> x \<noteq> sk_head \<and> x < length nodes
     \<and> valid (node_key nodes x) \<and> (\<forall>i < kMaxHeight. x \<notin> set (L i))
     \<and> (\<forall>z \<in> set (L 0). compare (node_key nodes z) (node_key nodes x) \<noteq> 0)
     \<and> (\<forall>i < height. prev ! i = last (sk_head # filter (\<lambda>z. compare (node_key nodes z) (node_key nodes x) < 0) (L i)))"

lemma linking_SetNext [simp]: "linking (Node_SetNext y n z nodes) x height prev L = linking nodes x height prev L"
  unfolding linking_def by simp

lemma levels_subset: "sl_lists compare valid nodes L \<Longrightarrow> i < kMaxHeight \<Longrightarrow> set (L i) \<subseteq> set (L 0)"
proof (induction i)
  case (Suc i)
  then have "set (L (Suc i)) \<subseteq> set (L i)" using sl_listsD(4) [of compare valid nodes L i] by simp
  then show ?case using Suc by simp
qed simp

text \<open>The state before and after the levels below \<open>k\<close> are linked, and between the two stores at level \<open>k\<close>.\<close>

lemma linking_split:
  assumes "sl_lists compare valid nodes (ins_lists nodes x k L)" "linking nodes x height prev L" "k < height"
  defines "P \<equiv> \<lambda>z. compare (node_key nodes z) (node_key nodes x) < 0"
  shows "ins_lists nodes x k L k = filter P (L k) @ filter (\<lambda>z. \<not> P z) (L k)" "k < kMaxHeight" "node_ok valid nodes k x"
    "x \<notin> set (ins_lists nodes x k L k)" "\<forall>v \<in> set (filter (\<lambda>z. \<not> P z) (L k)). compare (node_key nodes x) (node_key nodes v) < 0"
    "0 < k \<Longrightarrow> x \<in> set (ins_lists nodes x k L (k - 1))"
proof -
  show k: "k < kMaxHeight" using assms(2,3) by (simp add: linking_def)
  have here: "ins_lists nodes x k L k = L k" by (simp add: ins_lists_def Let_def)
  have valid: "valid (node_key nodes x)" using assms(2) by (simp add: linking_def)
  have ok: "\<forall>z \<in> set (L k). node_ok valid nodes k z" "sorted_keys compare nodes (L k)" using sl_listsD(2,3) [OF assms(1) k] here by simp_all
  then have "down_closed P (L k)" unfolding P_def using valid by (intro sorted_keys_down_closed) (auto simp: node_ok_def)
  from down_closed_split [OF this] here show "ins_lists nodes x k L k = filter P (L k) @ filter (\<lambda>z. \<not> P z) (L k)" by simp
  show "node_ok valid nodes k x" using assms(2,3) by (simp add: linking_def node_ok_def)
  show "x \<notin> set (ins_lists nodes x k L k)" using assms(2) k here by (simp add: linking_def)
  have "set (L k) \<subseteq> set (L 0) \<union> {x}" using levels_subset [OF assms(1) k] here by (auto simp: ins_lists_def Let_def split: if_splits)
  moreover have "x \<notin> set (L k)" using assms(2) k by (simp add: linking_def)
  ultimately have ne: "compare (node_key nodes z) (node_key nodes x) \<noteq> 0" if "z \<in> set (L k)" for z
    using that assms(2) by (auto simp: linking_def)
  show "\<forall>v \<in> set (filter (\<lambda>z. \<not> P z) (L k)). compare (node_key nodes x) (node_key nodes v) < 0"
  proof
    fix v assume v: "v \<in> set (filter (\<lambda>z. \<not> P z) (L k))"
    then have "valid (node_key nodes v)" using ok by (simp add: node_ok_def)
    from flip(1) [OF this valid] v ne [of v] show "compare (node_key nodes x) (node_key nodes v) < 0" by (auto simp: P_def)
  qed
  show "x \<in> set (ins_lists nodes x k L (k - 1))" if "0 < k" using that by (simp add: ins_lists_def Let_def)
qed

lemma link_step:
  assumes "sl_lists compare valid nodes (ins_lists nodes x k L)" "linking nodes x height prev L" "k < height"
  shows "sl_lists compare valid (link_level x prev k nodes) (ins_lists nodes x (Suc k) L)"
    "linking (link_level x prev k nodes) x height prev L" "node_key (link_level x prev k nodes) z = node_key nodes z"
proof -
  note s = linking_split [OF assms]
  have "prev ! k = last (sk_head # filter (\<lambda>z. compare (node_key nodes z) (node_key nodes x) < 0) (L k))"
    using assms(2,3) by (simp add: linking_def)
  from link_level_ok [OF assms(1) s(2,1) this s(3) _ s(5,6)]
  show "sl_lists compare valid (link_level x prev k nodes) (ins_lists nodes x (Suc k) L)" unfolding ins_lists_Suc by simp
  show "linking (link_level x prev k nodes) x height prev L" using assms(2) by (simp add: link_level_def Let_def)
  show "node_key (link_level x prev k nodes) z = node_key nodes z" by (simp add: link_level_def Let_def)
qed

lemma link_levels:
  assumes "sl_lists compare valid nodes L" "linking nodes x height prev L" "k \<le> height"
  defines "nodes' \<equiv> fold (link_level x prev) [0..<k] nodes"
  shows "sl_lists compare valid nodes' (ins_lists nodes x k L) \<and> linking nodes' x height prev L
    \<and> (\<forall>z. node_key nodes' z = node_key nodes z)"
  using assms(3) unfolding nodes'_def
proof (induction k)
  case 0
  have "ins_lists nodes x 0 L = L" by (rule ext) (simp add: ins_lists_def)
  then show ?case using assms(1,2) by simp
next
  case (Suc k)
  let ?n = "fold (link_level x prev) [0..<k] nodes"
  have IH: "sl_lists compare valid ?n (ins_lists nodes x k L)" "linking ?n x height prev L" "\<forall>z. node_key ?n z = node_key nodes z"
    using Suc by simp_all
  then have eq: "ins_lists ?n = ins_lists nodes" by (intro ins_lists_cong) simp
  from link_step [OF IH(1) [folded eq] IH(2)] Suc.prems IH(3) show ?case by (simp add: eq)
qed

end

section \<open>Functional behaviour\<close>

text \<open>The invariant of the whole list; levels from the maximal height on are empty.\<close>

definition sl_inv :: "('k \<Rightarrow> 'k \<Rightarrow> int) \<Rightarrow> ('k \<Rightarrow> bool) \<Rightarrow> 'k skiplist \<Rightarrow> (nat \<Rightarrow> nat list) \<Rightarrow> bool" where
  "sl_inv compare valid sl L \<longleftrightarrow> sl_lists compare valid (sl_nodes sl) L \<and> 1 \<le> sl_max_height sl \<and> sl_max_height sl \<le> kMaxHeight
     \<and> (\<forall>i. sl_max_height sl \<le> i \<longrightarrow> i < kMaxHeight \<longrightarrow> L i = [])"

text \<open>The keys in the list, in order: what a skip list stands for.\<close>

definition sl_keys :: "'k skiplist \<Rightarrow> (nat \<Rightarrow> nat list) \<Rightarrow> 'k list" where
  "sl_keys sl L = map (node_key (sl_nodes sl)) (L 0)"

definition sl_rep :: "('k \<Rightarrow> 'k \<Rightarrow> int) \<Rightarrow> ('k \<Rightarrow> bool) \<Rightarrow> 'k skiplist \<Rightarrow> 'k list \<Rightarrow> bool" where
  "sl_rep compare valid sl ks \<longleftrightarrow> (\<exists>L. sl_inv compare valid sl L \<and> ks = sl_keys sl L)"

lemma kMaxHeight_pos [simp]: "0 < kMaxHeight" "Suc 0 \<le> kMaxHeight"
  by (simp_all add: kMaxHeight_def)

lemma random_height_loop_bounds:
  "height \<le> kMaxHeight \<Longrightarrow> height \<le> fst (random_height_loop height rnd) \<and> fst (random_height_loop height rnd) \<le> kMaxHeight"
proof (induction height rnd rule: random_height_loop.induct)
  case (1 height rnd)
  then show ?case by (subst (1 2) random_height_loop.simps) (auto simp: Let_def)
qed

lemma RandomHeight_bounds: "RandomHeight rnd = (height, rnd') \<Longrightarrow> 1 \<le> height \<and> height \<le> kMaxHeight"
  using random_height_loop_bounds [of 1 rnd] by (simp add: RandomHeight_def)

lemma replicate_update_same: "(replicate n x)[i := x] = replicate n x"
  by (cases "i < n") (simp_all add: list_update_same_conv list_update_beyond)

lemma new_SkipList_inv: "sl_inv compare valid (new_SkipList any) (\<lambda>_. [])"
proof -
  have up: "[0..<kMaxHeight] = [0, 1, 2, 3, 4, 5, 6, 7, 8, 9, 10, 11]" by (simp add: kMaxHeight_def upt_rec)
  have nodes: "sl_nodes (new_SkipList any) = [\<lparr>sk_key = any, sk_next = replicate kMaxHeight None\<rparr>]"
    unfolding new_SkipList_def up by (simp add: NewNode_def Node_SetNext_def replicate_update_same)
  have "chain (sl_nodes (new_SkipList any)) i []" if "i < kMaxHeight" for i
    using that by (simp add: chain_def Node_Next_def nodes)
  then show ?thesis by (simp add: sl_inv_def sl_lists_def levels_def sorted_keys_def nodes) (simp add: new_SkipList_def)
qed

lemma fold_head: "length prev = kMaxHeight \<Longrightarrow> m \<le> kMaxHeight \<Longrightarrow> j < kMaxHeight \<Longrightarrow>
    fold (\<lambda>i p. p[i := sk_head]) [n..<m] prev ! j = (if n \<le> j \<and> j < m then sk_head else prev ! j)"
proof (induction m)
  case (Suc m)
  have "length (fold (\<lambda>i p. p[i := sk_head]) is p) = length p" for "is" and p :: "nat list" by (induction "is" arbitrary: p) simp_all
  then show ?case using Suc by (cases "n \<le> m") (auto simp: nth_list_update less_Suc_eq)
qed simp

lemma sl_lists_append:
  assumes "sl_lists compare valid nodes L"
  shows "sl_lists compare valid (nodes @ [n]) L"
proof -
  have nth: "(nodes @ [n]) ! z = nodes ! z" if "z = sk_head \<or> i < kMaxHeight \<and> z \<in> set (L i)" for z i
    using that assms sl_listsD(3) [OF assms, of i z] by (auto simp: nth_append node_ok_def sl_lists_def)
  have "chain (nodes @ [n]) i (L i)" if "i < kMaxHeight" for i
  proof -
    have "chain (nodes @ [n]) i (L i) = chain nodes i (L i)" by (rule chain_cong) (use nth [of _ i] that in \<open>auto simp: Node_Next_def\<close>)
    then show ?thesis using sl_listsD(1) [OF assms that] by simp
  qed
  moreover have "node_ok valid (nodes @ [n]) i x" if "i < kMaxHeight" "x \<in> set (L i)" for i x
    using sl_listsD(3) [OF assms that] nth [of x i] that by (simp add: node_ok_def)
  moreover have "sorted_keys compare (nodes @ [n]) (L i)" if "i < kMaxHeight" for i
    using sl_listsD(2) [OF assms that] nth [of _ i] that by (auto simp: sorted_keys_def intro: sorted_wrt_mono_rel [rotated])
  ultimately show ?thesis using assms nth [of sk_head] by (simp add: sl_lists_def levels_def)
qed

context key_order
begin

lemma search:
  assumes "sl_lists compare valid nodes L" "valid key" "1 \<le> height" "height \<le> kMaxHeight"
  defines "P \<equiv> \<lambda>z. compare (node_key nodes z) key < 0"
  shows "\<exists>prev. descend nodes (KeyIsAfterNode compare nodes key) sk_head (height - 1) (replicate kMaxHeight 0) =
      Some (last (sk_head # filter P (L 0)), first (filter (\<lambda>z. \<not> P z) (L 0)), prev)
    \<and> length prev = kMaxHeight \<and> (\<forall>i < height. prev ! i = last (sk_head # filter P (L i)))"
proof -
  have "levels nodes kMaxHeight L" using assms(1) by (simp add: sl_lists_def)
  moreover have "down_closed P (L i)" if "i < kMaxHeight" for i
    unfolding P_def using sl_listsD(2,3) [OF assms(1) that] assms(2) by (intro sorted_keys_down_closed) (auto simp: node_ok_def)
  moreover have height: "height - 1 < kMaxHeight" using assms(3,4) by simp
  moreover have pass: "KeyIsAfterNode compare nodes key (Some z) = P z" "\<not> KeyIsAfterNode compare nodes key None" for z
    by (simp_all add: KeyIsAfterNode_def P_def)
  ultimately obtain prev where "descend nodes (KeyIsAfterNode compare nodes key) sk_head (height - 1) (replicate kMaxHeight 0) =
      Some (last (sk_head # filter P (L 0)), first (filter (\<lambda>z. \<not> P z) (L 0)), prev)" "length prev = kMaxHeight"
    "\<forall>i \<le> height - 1. prev ! i = last (sk_head # filter P (L i))"
    using height descend_correct [of nodes kMaxHeight L "height - 1" "KeyIsAfterNode compare nodes key" sk_head "replicate kMaxHeight 0"]
    unfolding pass by fastforce
  moreover have "i \<le> height - 1" if "i < height" for i using that by simp
  ultimately show ?thesis by blast
qed

lemma FindGreaterOrEqual_inv:
  assumes "sl_inv compare valid sl L" "valid key"
  defines "P \<equiv> \<lambda>z. compare (node_key (sl_nodes sl) z) key < 0"
  shows "\<exists>prev. FindGreaterOrEqual compare key sl = Some (first (filter (\<lambda>z. \<not> P z) (L 0)), prev)
    \<and> length prev = kMaxHeight \<and> (\<forall>i < sl_max_height sl. prev ! i = last (sk_head # filter P (L i)))"
  using search [of "sl_nodes sl" L key "sl_max_height sl"] assms by (auto simp: FindGreaterOrEqual_def sl_inv_def)

lemma prepare_inv:
  assumes "sl_inv compare valid sl L" "valid key" "\<forall>z \<in> set (L 0). compare (node_key (sl_nodes sl) z) key \<noteq> 0"
  shows "\<exists>height prev sl'. prepare_insert compare key sl = Some (length (sl_nodes sl), height, prev, sl')
    \<and> sl_lists compare valid (sl_nodes sl') L \<and> linking (sl_nodes sl') (length (sl_nodes sl)) height prev L
    \<and> node_key (sl_nodes sl') (length (sl_nodes sl)) = key \<and> (\<forall>z < length (sl_nodes sl). node_key (sl_nodes sl') z = node_key (sl_nodes sl) z)
    \<and> sl_max_height sl' = max height (sl_max_height sl) \<and> 1 \<le> height \<and> height \<le> kMaxHeight"
proof -
  define P where "P = (\<lambda>z. compare (node_key (sl_nodes sl) z) key < 0)"
  from FindGreaterOrEqual_inv [OF assms(1,2)] obtain prev where prev:
    "FindGreaterOrEqual compare key sl = Some (first (filter (\<lambda>z. \<not> P z) (L 0)), prev)" "length prev = kMaxHeight"
    "\<forall>i < sl_max_height sl. prev ! i = last (sk_head # filter P (L i))" by (auto simp: P_def)
  obtain height rnd where rnd: "RandomHeight (sl_rnd sl) = (height, rnd)" by fastforce
  note height = RandomHeight_bounds [OF rnd]
  define prev' where "prev' = (if height > sl_max_height sl then fold (\<lambda>i p. p[i := sk_head]) [sl_max_height sl..<height] prev else prev)"
  define x where "x = length (sl_nodes sl)"
  define nodes where "nodes = sl_nodes sl @ [\<lparr>sk_key = key, sk_next = replicate height None\<rparr>]"
  have ins: "prepare_insert compare key sl = Some (x, height, prev', \<lparr>sl_nodes = nodes, sl_max_height = max height (sl_max_height sl), sl_rnd = rnd\<rparr>)"
    by (auto simp: prepare_insert_def prev(1) rnd NewNode_def x_def nodes_def prev'_def)
  have lists: "sl_lists compare valid nodes L" unfolding nodes_def using assms(1) by (intro sl_lists_append) (simp add: sl_inv_def)
  have ok: "z < x" if "i < kMaxHeight" "z \<in> set (L i)" for i z
    using sl_listsD(3) [of compare valid "sl_nodes sl" L i z] assms(1) that by (simp add: sl_inv_def node_ok_def x_def)
  have key: "node_key nodes x = key" "\<And>z. z < x \<Longrightarrow> node_key nodes z = node_key (sl_nodes sl) z"
    by (simp_all add: nodes_def x_def nth_append)
  have filters: "filter (\<lambda>z. compare (node_key nodes z) (node_key nodes x) < 0) (L i) = filter P (L i)" if "i < kMaxHeight" for i
    using ok [OF that] by (auto simp: P_def key intro!: filter_cong)
  have "prev' ! i = last (sk_head # filter P (L i))" if "i < height" for i
  proof (cases "i < sl_max_height sl")
    case False
    then have "L i = []" using assms(1) that height by (simp add: sl_inv_def)
    then show ?thesis using False that height fold_head [OF prev(2)] by (simp add: prev'_def)
  qed (use prev(2,3) that height fold_head [OF prev(2)] in \<open>auto simp: prev'_def\<close>)
  then have "\<forall>i < height. prev' ! i = last (sk_head # filter (\<lambda>z. compare (node_key nodes z) (node_key nodes x) < 0) (L i))"
    using filters height by simp
  moreover have "x < length nodes" "node_height nodes x = height" "x \<noteq> sk_head"
    using assms(1) by (simp_all add: nodes_def x_def sl_inv_def sl_lists_def)
  moreover have "x \<notin> set (L i)" if "i < kMaxHeight" for i using ok [OF that, of x] by blast
  moreover have "compare (node_key nodes z) (node_key nodes x) \<noteq> 0" if "z \<in> set (L 0)" for z
    using assms(3) that ok [of 0 z] by (simp add: key)
  ultimately have "linking nodes x height prev' L" using height assms(2) key(1) by (simp add: linking_def)
  then show ?thesis using ins lists key height by (simp flip: x_def)
qed

lemma Insert_inv:
  assumes "sl_inv compare valid sl L" "valid key" "\<forall>z \<in> set (L 0). compare (node_key (sl_nodes sl) z) key \<noteq> 0"
  shows "\<exists>sl' L'. SkipList_Insert compare key sl = Some sl' \<and> sl_inv compare valid sl' L'
    \<and> sl_keys sl' L' = filter (\<lambda>k. compare k key < 0) (sl_keys sl L) @ key # filter (\<lambda>k. \<not> compare k key < 0) (sl_keys sl L)"
proof -
  let ?x = "length (sl_nodes sl)"
  from prepare_inv [OF assms] obtain height prev sp where prep: "prepare_insert compare key sl = Some (?x, height, prev, sp)"
    and lists: "sl_lists compare valid (sl_nodes sp) L" and linking: "linking (sl_nodes sp) ?x height prev L"
    and key: "node_key (sl_nodes sp) ?x = key" "\<forall>z < ?x. node_key (sl_nodes sp) z = node_key (sl_nodes sl) z"
    and height: "sl_max_height sp = max height (sl_max_height sl)" "1 \<le> height" "height \<le> kMaxHeight" by blast
  let ?sl' = "sp\<lparr>sl_nodes := fold (link_level ?x prev) [0..<height] (sl_nodes sp)\<rparr>" and ?L' = "ins_lists (sl_nodes sp) ?x height L"
  from link_levels [OF lists linking order_refl]
  have *: "sl_lists compare valid (sl_nodes ?sl') ?L'"
    "\<And>z. node_key (fold (link_level ?x prev) [0..<height] (sl_nodes sp)) z = node_key (sl_nodes sp) z" by simp_all
  have "sl_inv compare valid ?sl' ?L'" using * height assms(1) by (auto simp: sl_inv_def ins_lists_def Let_def)
  moreover have "node_key (sl_nodes sp) z = node_key (sl_nodes sl) z" if "z \<in> set (L 0)" for z
    using sl_listsD(3) [of compare valid "sl_nodes sl" L 0 z] assms(1) that key(2) by (simp add: sl_inv_def node_ok_def)
  then have "sl_keys sl L = map (node_key (sl_nodes sp)) (L 0)" by (simp add: sl_keys_def)
  then have "sl_keys ?sl' ?L' = filter (\<lambda>k. compare k key < 0) (sl_keys sl L) @ key # filter (\<lambda>k. \<not> compare k key < 0) (sl_keys sl L)"
    using height by (simp add: sl_keys_def [of ?sl'] * ins_lists_def Let_def key(1) filter_map comp_def)
  ultimately show ?thesis using prep by (auto simp: SkipList_Insert_def)
qed

text \<open>Iterators: a position splits the list into the nodes before it and the nodes from it on.\<close>

lemma Seek_inv:
  assumes "sl_inv compare valid sl L" "valid key"
  shows "SkipIter_Seek compare key sl = Some (first (filter (\<lambda>z. \<not> compare (node_key (sl_nodes sl) z) key < 0) (L 0)))"
  using FindGreaterOrEqual_inv [OF assms] by (auto simp: SkipIter_Seek_def)

lemma first_SomeE:
  assumes "first xs = Some x"
  obtains ys where "xs = x # ys"
  using assms by (auto simp: first_def split: list.splits)

lemma keys_below:
  assumes "sl_inv compare valid sl L" "L 0 = us @ v # vs"
  defines "P \<equiv> \<lambda>z. compare (node_key (sl_nodes sl) z) (node_key (sl_nodes sl) v) < 0"
  shows "filter P (L 0) = us" "filter (\<lambda>z. \<not> P z) (L 0) = v # vs"
proof -
  have lists: "sl_lists compare valid (sl_nodes sl) L" using assms(1) by (simp add: sl_inv_def)
  then have ok: "valid (node_key (sl_nodes sl) z)" if "z \<in> set (L 0)" for z using sl_listsD(3) [OF lists _ that] by (simp add: node_ok_def)
  have sorted: "sorted_keys compare (sl_nodes sl) (us @ v # vs)" using sl_listsD(2) [OF lists, of 0] assms(2) by simp
  then have "\<forall>u \<in> set us. P u" "\<forall>w \<in> set vs. compare (node_key (sl_nodes sl) v) (node_key (sl_nodes sl) w) < 0"
    by (auto simp: sorted_keys_def sorted_wrt_append P_def)
  moreover have "\<not> P w" if "w \<in> set (v # vs)" for w
    using that calculation(2) flip(1) [of "node_key (sl_nodes sl) w" "node_key (sl_nodes sl) v"] ok refl assms(2) by (auto simp: P_def)
  ultimately show "filter P (L 0) = us" "filter (\<lambda>z. \<not> P z) (L 0) = v # vs"
    by (simp_all add: assms(2) filter_empty_conv)
qed

lemma Iter_moves:
  assumes "sl_inv compare valid sl L" "L 0 = us @ v # vs"
  shows "SkipIter_Next sl v = first vs" "SkipIter_Prev compare sl v = Some (first (rev us))"
    "SkipIter_SeekToFirst sl = first (us @ v # vs)"
proof -
  have lists: "sl_lists compare valid (sl_nodes sl) L" using assms(1) by (simp add: sl_inv_def)
  have chain: "chain (sl_nodes sl) 0 ((us @ [v]) @ vs)" "chain (sl_nodes sl) 0 ([] @ us @ v # vs)" using sl_listsD(1) [OF lists, of 0] assms(2) by simp_all
  from chain_split [OF chain(1)] show "SkipIter_Next sl v = first vs" by (simp add: SkipIter_Next_def)
  from chain_split [OF chain(2)] show "SkipIter_SeekToFirst sl = first (us @ v # vs)" by (simp add: SkipIter_SeekToFirst_def)
  have ok: "node_ok valid (sl_nodes sl) 0 z" if "z \<in> set (L 0)" for z using sl_listsD(3) [OF lists _ that] by simp
  then have "\<exists>prev. descend (sl_nodes sl) (KeyIsAfterNode compare (sl_nodes sl) (node_key (sl_nodes sl) v)) sk_head (sl_max_height sl - 1)
      (replicate kMaxHeight 0) = Some (last (sk_head # us), first (v # vs), prev)"
    using search [OF lists, of "node_key (sl_nodes sl) v" "sl_max_height sl"] assms(1,2) keys_below [OF assms]
    by (auto simp: sl_inv_def node_ok_def)
  moreover have "(\<lambda>n. \<not> (case n of None \<Rightarrow> True | Some x \<Rightarrow> compare (node_key (sl_nodes sl) x) key \<ge> 0)) = KeyIsAfterNode compare (sl_nodes sl) key" for key
    by (rule ext) (auto simp: KeyIsAfterNode_def split: option.splits)
  moreover have "null_head (last (sk_head # us)) = first (rev us)"
    using ok assms(2) by (cases us rule: rev_cases) (auto simp: null_head_def node_ok_def)
  ultimately show "SkipIter_Prev compare sl v = Some (first (rev us))" by (auto simp: SkipIter_Prev_def FindLessThan_def)
qed

lemma SeekToLast_inv:
  assumes "sl_inv compare valid sl L"
  shows "SkipIter_SeekToLast sl = Some (first (rev (L 0)))"
proof -
  have lists: "sl_lists compare valid (sl_nodes sl) L" using assms by (simp add: sl_inv_def)
  have "down_closed (\<lambda>x. (Some x) \<noteq> None) xs" for xs :: "nat list" by (simp add: down_closed_def sorted_wrt_true)
  moreover have "sl_max_height sl - 1 < kMaxHeight" using assms by (auto simp: sl_inv_def)
  ultimately have "\<exists>prev. descend (sl_nodes sl) (\<lambda>n. n \<noteq> None) sk_head (sl_max_height sl - 1) (replicate kMaxHeight 0) =
      Some (last (sk_head # L 0), None, prev)"
    using lists descend_correct [of "sl_nodes sl" kMaxHeight L "sl_max_height sl - 1" "\<lambda>n. n \<noteq> None" sk_head "replicate kMaxHeight 0"]
    by (auto simp: sl_lists_def)
  moreover have "null_head (last (sk_head # L 0)) = first (rev (L 0))"
    using sl_listsD(3) [OF lists, of 0] by (cases "L 0" rule: rev_cases) (auto simp: null_head_def node_ok_def)
  ultimately show ?thesis by (auto simp: SkipIter_SeekToLast_def FindLast_def)
qed

lemma Contains_inv:
  assumes "sl_inv compare valid sl L" "valid key"
  shows "SkipList_Contains compare key sl = Some (\<exists>k \<in> set (sl_keys sl L). compare key k = 0)"
proof -
  let ?key = "node_key (sl_nodes sl)" and ?B = "filter (\<lambda>z. \<not> compare (node_key (sl_nodes sl) z) key < 0) (L 0)"
  from FindGreaterOrEqual_inv [OF assms] obtain prev where find: "FindGreaterOrEqual compare key sl = Some (first ?B, prev)" by blast
  have lists: "sl_lists compare valid (sl_nodes sl) L" using assms by (simp add: sl_inv_def)
  then have ok: "valid (?key z)" if "z \<in> set (L 0)" for z using sl_listsD(3) [OF lists _ that] by (simp add: node_ok_def)
  have eq_B: "z \<in> set ?B" if "z \<in> set (L 0)" "compare key (?key z) = 0" for z
    using that flip(2) [OF assms(2) ok [OF that(1)]] by simp
  show ?thesis
  proof (cases ?B)
    case Nil
    then have "\<not> (\<exists>k \<in> set (sl_keys sl L). compare key k = 0)" using eq_B by (auto simp: sl_keys_def)
    then show ?thesis using find Nil by (simp add: SkipList_Contains_def)
  next
    case (Cons b B)
    have "sorted_keys compare (sl_nodes sl) ?B" using sl_listsD(2) [OF lists, of 0] by (simp add: sorted_keys_def sorted_wrt_filter)
    then have above: "compare (?key b) (?key z) < 0" if "z \<in> set B" for z using that by (simp add: Cons sorted_keys_def)
    have "set (b # B) = {z \<in> set (L 0). \<not> compare (?key z) key < 0}" using Cons by (metis set_filter)
    then have b: "b \<in> set (L 0)" "\<not> compare (?key b) key < 0" "set B \<subseteq> set (L 0)" by auto
    have "compare key (?key b) = 0" if "z \<in> set (L 0)" "compare key (?key z) = 0" for z
    proof (cases "z = b")
      case False
      then have "z \<in> set B" using eq_B [OF that] Cons by simp
      from above [OF this] b have "compare (?key b) key < 0"
        using less_le_trans [OF ok [OF b(1)] ok [OF that(1)] assms(2)] that flip(2) [OF assms(2) ok [OF that(1)]] by simp
      then show ?thesis using b by simp
    qed (use that in simp)
    then show ?thesis using find Cons b by (auto simp: SkipList_Contains_def sl_keys_def)
  qed
qed

end

end
