(* ===== verification/Ldb_Skiplist_Conc.thy ===== *)
theory Ldb_Skiplist_Conc
  imports Ldb_Skiplist
begin

text \<open>
  Concurrent readers of the skip list. \<^verbatim>\<open>db/skiplist.h\<close> lets readers run without a lock beside one writer: every link is stored
  atomically, and a node is published at a level by a release store only after its own link is set. Here one writer and one
  reader are interleaved store by store and load by load, with sequentially consistent links. The maximal height that a
  reader starts from may be stale. What a reader finds is right for the list at the moment of its last load.
\<close>

section \<open>Steps\<close>

text \<open>
  The writer is linking node \<open>x\<close> of some height at level \<open>k\<close>; the flag says that it has stored the node's own
  link of this level already. The reader stands at a node and a level of its search for a key.
\<close>

datatype writer = WIdle | WLink nat nat "nat list" nat bool

datatype 'k reader = RIdle | RAt 'k nat nat | RDone 'k "nat option"

type_synonym 'k conc = "'k skiplist \<times> writer \<times> 'k reader"

abbreviation with_nodes :: "'k skiplist \<Rightarrow> ('k sk_node list \<Rightarrow> 'k sk_node list) \<Rightarrow> 'k skiplist" where
  "with_nodes sl f \<equiv> sl\<lparr>sl_nodes := f (sl_nodes sl)\<rparr>"

inductive sk_step :: "('k \<Rightarrow> 'k \<Rightarrow> int) \<Rightarrow> ('k \<Rightarrow> bool) \<Rightarrow> 'k conc \<Rightarrow> 'k conc \<Rightarrow> bool" for compare valid where
  begin_write: "\<lbrakk>valid key; SkipList_Contains compare key sl = Some False; prepare_insert compare key sl = Some (x, height, prev, sl')\<rbrakk> \<Longrightarrow>
    sk_step compare valid (sl, WIdle, r) (sl', WLink x height prev 0 False, r)"
| own_link: "k < height \<Longrightarrow> sk_step compare valid (sl, WLink x height prev k False, r)
    (with_nodes sl (\<lambda>nodes. Node_SetNext x k (Node_Next nodes (prev ! k) k) nodes), WLink x height prev k True, r)"
| publish_link: "sk_step compare valid (sl, WLink x height prev k True, r)
    (with_nodes sl (Node_SetNext (prev ! k) k (Some x)), WLink x height prev (Suc k) False, r)"
| end_write: "sk_step compare valid (sl, WLink x height prev height False, r) (sl, WIdle, r)"
| begin_read: "\<lbrakk>valid key; 1 \<le> h; h \<le> sl_max_height sl\<rbrakk> \<Longrightarrow> sk_step compare valid (sl, w, r) (sl, w, RAt key sk_head (h - 1))"
| pass: "KeyIsAfterNode compare (sl_nodes sl) key (Node_Next (sl_nodes sl) x level) \<Longrightarrow>
    sk_step compare valid (sl, w, RAt key x level) (sl, w, RAt key (the (Node_Next (sl_nodes sl) x level)) level)"
| down: "\<not> KeyIsAfterNode compare (sl_nodes sl) key (Node_Next (sl_nodes sl) x (Suc level)) \<Longrightarrow>
    sk_step compare valid (sl, w, RAt key x (Suc level)) (sl, w, RAt key x level)"
| found: "\<not> KeyIsAfterNode compare (sl_nodes sl) key (Node_Next (sl_nodes sl) x 0) \<Longrightarrow>
    sk_step compare valid (sl, w, RAt key x 0) (sl, w, RDone key (Node_Next (sl_nodes sl) x 0))"

inductive_cases found_stepE: "sk_step compare valid (sl, w, RAt key x level) (sl', w', RDone key' n)"

text \<open>The runs of the system, from an empty list.\<close>

inductive sk_reach :: "('k \<Rightarrow> 'k \<Rightarrow> int) \<Rightarrow> ('k \<Rightarrow> bool) \<Rightarrow> 'k conc \<Rightarrow> bool" for compare valid where
  start: "sk_reach compare valid (new_SkipList any, WIdle, RIdle)"
| step: "sk_reach compare valid s \<Longrightarrow> sk_step compare valid s s' \<Longrightarrow> sk_reach compare valid s'"

section \<open>The invariant\<close>

context key_order
begin

fun writer_ok :: "'k skiplist \<Rightarrow> writer \<Rightarrow> (nat \<Rightarrow> nat list) \<Rightarrow> bool" where
  "writer_ok sl WIdle L \<longleftrightarrow> sl_inv compare valid sl L"
| "writer_ok sl (WLink x height prev k mid) L \<longleftrightarrow>
     sl_lists compare valid (sl_nodes sl) (ins_lists (sl_nodes sl) x k L) \<and> linking (sl_nodes sl) x height prev L \<and>
     k \<le> height \<and> height \<le> sl_max_height sl \<and> 1 \<le> sl_max_height sl \<and> sl_max_height sl \<le> kMaxHeight \<and>
     (\<forall>i. sl_max_height sl \<le> i \<longrightarrow> i < kMaxHeight \<longrightarrow> L i = []) \<and>
     (mid \<longrightarrow> k < height \<and> Node_Next (sl_nodes sl) x k = Node_Next (sl_nodes sl) (prev ! k) k)"

text \<open>The lists as a reader sees them now.\<close>

fun visible :: "'k skiplist \<Rightarrow> writer \<Rightarrow> (nat \<Rightarrow> nat list) \<Rightarrow> nat \<Rightarrow> nat list" where
  "visible sl WIdle L = L"
| "visible sl (WLink x height prev k mid) L = ins_lists (sl_nodes sl) x k L"

fun reader_ok :: "'k sk_node list \<Rightarrow> (nat \<Rightarrow> nat list) \<Rightarrow> 'k reader \<Rightarrow> bool" where
  "reader_ok nodes V (RAt key x level) \<longleftrightarrow>
     valid key \<and> level < kMaxHeight \<and> (x = sk_head \<or> x \<in> set (V level) \<and> compare (node_key nodes x) key < 0)"
| "reader_ok nodes V r \<longleftrightarrow> True"

definition conc_inv :: "'k conc \<Rightarrow> bool" where
  "conc_inv s = (case s of (sl, w, r) \<Rightarrow> \<exists>L. writer_ok sl w L \<and> reader_ok (sl_nodes sl) (visible sl w L) r)"

text \<open>Every node that a reader can see stays visible, with its key.\<close>

definition grows :: "'k sk_node list \<Rightarrow> (nat \<Rightarrow> nat list) \<Rightarrow> 'k sk_node list \<Rightarrow> (nat \<Rightarrow> nat list) \<Rightarrow> bool" where
  "grows nodes V nodes' V' \<longleftrightarrow> (\<forall>i < kMaxHeight. set (V i) \<subseteq> set (V' i) \<and> (\<forall>x \<in> set (V i). node_key nodes' x = node_key nodes x))"

lemma writer_ok_visible:
  assumes "writer_ok sl w L"
  shows "sl_lists compare valid (sl_nodes sl) (visible sl w L)" "sl_max_height sl \<le> kMaxHeight"
  using assms by (cases w; simp add: sl_inv_def)+

lemma reader_ok_mono: "reader_ok nodes V r \<Longrightarrow> grows nodes V nodes' V' \<Longrightarrow> reader_ok nodes' V' r"
  by (cases r) (auto simp: grows_def)

lemma grows_refl [simp]: "grows nodes V nodes V"
  by (simp add: grows_def)

lemma ins_lists_0: "ins_lists nodes x 0 L = L"
  by (rule ext) (simp add: ins_lists_def)

lemma ins_lists_mono: "set (ins_lists nodes x k L i) \<subseteq> set (ins_lists nodes x (Suc k) L i)"
  by (auto simp: ins_lists_def Let_def)

lemma chain_next_mem:
  assumes "chain nodes i ys" "x \<in> set (sk_head # ys)" "Node_Next nodes x i = Some y"
  shows "y \<in> set ys"
proof -
  have "\<exists>us vs. ys = us @ vs \<and> x = last (sk_head # us)"
  proof (cases "x = sk_head")
    case True
    then show ?thesis by (intro exI [of _ "[]"] exI [of _ ys]) simp
  next
    case False
    then obtain us vs where "ys = us @ x # vs" using assms(2) by (auto dest: split_list)
    then show ?thesis by (intro exI [of _ "us @ [x]"] exI [of _ vs]) simp
  qed
  then obtain us vs where "ys = us @ vs" "x = last (sk_head # us)" by blast
  with chain_split assms(1,3) have "first vs = Some y" by metis
  then show ?thesis using \<open>ys = us @ vs\<close> by (auto elim: first_SomeE)
qed

lemma writer_steps:
  assumes "writer_ok sl (WLink x height prev k mid) L"
  shows "\<not> mid \<Longrightarrow> k < height \<Longrightarrow>
      writer_ok (with_nodes sl (\<lambda>nodes. Node_SetNext x k (Node_Next nodes (prev ! k) k) nodes)) (WLink x height prev k True) L"
    and "mid \<Longrightarrow> writer_ok (with_nodes sl (Node_SetNext (prev ! k) k (Some x))) (WLink x height prev (Suc k) False) L"
proof -
  let ?n = "sl_nodes sl"
  have lists: "sl_lists compare valid ?n (ins_lists ?n x k L)" and linking: "linking ?n x height prev L" using assms by simp_all
  have cong: "ins_lists (Node_SetNext y n z nodes) = ins_lists nodes" for y n z nodes by (rule ins_lists_cong) simp
  {
    assume k: "k < height"
    note s = linking_split [OF lists linking k]
    have x: "x < length ?n" "k < node_height ?n x" "x \<noteq> sk_head" using s(3) by (simp_all add: node_ok_def)
    have prev: "prev ! k = last (sk_head # filter (\<lambda>z. compare (node_key ?n z) (node_key ?n x) < 0) (L k))"
      using linking k by (simp add: linking_def)
    have "prev ! k \<noteq> x"
      using prev x(3) s(4) unfolding s(1) by (cases "filter (\<lambda>z. compare (node_key ?n z) (node_key ?n x) < 0) (L k)" rule: rev_cases) auto
    then show "writer_ok (with_nodes sl (\<lambda>nodes. Node_SetNext x k (Node_Next nodes (prev ! k) k) nodes)) (WLink x height prev k True) L"
      if "\<not> mid" using set_unlinked [OF lists x s(2,4)] linking assms k x by (simp add: cong Next_SetNext)
  }
  {
    assume mid: mid
    then have k: "k < height" and own: "Node_Next ?n x k = Node_Next ?n (prev ! k) k" using assms by simp_all
    note s = linking_split [OF lists linking k]
    have prev: "prev ! k = last (sk_head # filter (\<lambda>z. compare (node_key ?n z) (node_key ?n x) < 0) (L k))"
      using linking k by (simp add: linking_def)
    from publish [OF lists s(2,1) prev s(3) _ s(5) own s(6)]
    have "sl_lists compare valid (Node_SetNext (prev ! k) k (Some x) ?n) (ins_lists ?n x (Suc k) L)"
      unfolding ins_lists_Suc by simp
    then show "writer_ok (with_nodes sl (Node_SetNext (prev ! k) k (Some x))) (WLink x height prev (Suc k) False) L"
      using linking assms k by (simp add: cong)
  }
qed

lemma begin_write_ok:
  assumes "writer_ok sl WIdle L" "valid key" "SkipList_Contains compare key sl = Some False"
    "prepare_insert compare key sl = Some (x, height, prev, sl')"
  shows "writer_ok sl' (WLink x height prev 0 False) L" "grows (sl_nodes sl) L (sl_nodes sl') L"
proof -
  have inv: "sl_inv compare valid sl L" using assms(1) by simp
  have ok: "node_ok valid (sl_nodes sl) i z" if "i < kMaxHeight" "z \<in> set (L i)" for i z
    using inv that sl_listsD(3) [of compare valid "sl_nodes sl" L i z] by (simp add: sl_inv_def)
  have "\<not> (\<exists>k \<in> set (sl_keys sl L). compare key k = 0)" using Contains_inv [OF inv assms(2)] assms(3) by simp
  then have "compare (node_key (sl_nodes sl) z) key \<noteq> 0" if "z \<in> set (L 0)" for z
    using that ok [of 0 z] flip(2) [of "node_key (sl_nodes sl) z" key] assms(2) by (auto simp: sl_keys_def node_ok_def)
  with prepare_inv [OF inv assms(2)] assms(4) have new: "x = length (sl_nodes sl)"
    "sl_lists compare valid (sl_nodes sl') L" "linking (sl_nodes sl') x height prev L"
    "\<forall>z < length (sl_nodes sl). node_key (sl_nodes sl') z = node_key (sl_nodes sl) z"
    "sl_max_height sl' = max height (sl_max_height sl)" "1 \<le> height" "height \<le> kMaxHeight" by auto
  show "writer_ok sl' (WLink x height prev 0 False) L" using new inv by (auto simp: ins_lists_0 sl_inv_def)
  show "grows (sl_nodes sl) L (sl_nodes sl') L" using new(4) ok by (simp add: grows_def node_ok_def)
qed

text \<open>The steps of the writer and those of the reader keep the invariant; the writer only lets the lists grow.\<close>

lemma step_visible:
  assumes "sk_step compare valid s s'" "s = (sl, w, r)" "s' = (sl', w', r')" "writer_ok sl w L"
  shows "\<exists>L'. writer_ok sl' w' L' \<and> grows (sl_nodes sl) (visible sl w L) (sl_nodes sl') (visible sl' w' L')"
  using assms
proof (induction rule: sk_step.induct)
  case (begin_write key sl1 x height prev sl2 r1)
  then show ?case using begin_write_ok [of sl1 L key x height prev sl2] by (auto simp: ins_lists_0 intro!: exI [of _ L])
next
  case (own_link k height sl1 x prev r1)
  let ?sl = "with_nodes sl1 (\<lambda>nodes. Node_SetNext x k (Node_Next nodes (prev ! k) k) nodes)"
  have "ins_lists (sl_nodes ?sl) = ins_lists (sl_nodes sl1)" by (rule ins_lists_cong) simp
  then have "grows (sl_nodes sl1) (ins_lists (sl_nodes sl1) x k L) (sl_nodes ?sl) (ins_lists (sl_nodes ?sl) x k L)" by (simp add: grows_def)
  then show ?case using writer_steps(1) [of sl1 x height prev k False L] own_link by (auto intro!: exI [of _ L])
next
  case (publish_link sl1 x height prev k r1)
  let ?sl = "with_nodes sl1 (Node_SetNext (prev ! k) k (Some x))"
  have "ins_lists (sl_nodes ?sl) = ins_lists (sl_nodes sl1)" by (rule ins_lists_cong) simp
  then have "grows (sl_nodes sl1) (ins_lists (sl_nodes sl1) x k L) (sl_nodes ?sl) (ins_lists (sl_nodes ?sl) x (Suc k) L)"
    using ins_lists_mono by (simp add: grows_def)
  then show ?case using writer_steps(2) [of sl1 x height prev k True L] publish_link by (auto intro!: exI [of _ L])
next
  case (end_write sl1 x height prev r1)
  then have "sl_inv compare valid sl1 (ins_lists (sl_nodes sl1) x height L)" by (auto simp: sl_inv_def ins_lists_def Let_def)
  then show ?case using end_write by (auto intro!: exI [of _ "ins_lists (sl_nodes sl1) x height L"])
qed (auto intro!: exI [of _ L])

lemma conc_inv_step:
  assumes "conc_inv s" "sk_step compare valid s s'"
  shows "conc_inv s'"
proof -
  obtain sl w r sl' w' r' where s: "s = (sl, w, r)" "s' = (sl', w', r')" by (cases s; cases s') auto
  from assms(1) obtain L where L: "writer_ok sl w L" "reader_ok (sl_nodes sl) (visible sl w L) r" by (auto simp: conc_inv_def s)
  from step_visible [OF assms(2) s L(1)] obtain L' where
    L': "writer_ok sl' w' L'" "grows (sl_nodes sl) (visible sl w L) (sl_nodes sl') (visible sl' w' L')" by blast
  note V = sl_listsD [OF writer_ok_visible(1) [OF L'(1)]]
  have r: "reader_ok (sl_nodes sl') (visible sl' w' L') r" by (rule reader_ok_mono [OF L(2) L'(2)])
  have "reader_ok (sl_nodes sl') (visible sl' w' L') r'" using assms(2) unfolding s
  proof (cases rule: sk_step.cases)
    case (begin_read key h)
    then have "h - 1 < kMaxHeight" using writer_ok_visible(2) [OF L'(1)] by simp
    then show ?thesis using begin_read by simp
  next
    case (pass key x level)
    then obtain y where y: "Node_Next (sl_nodes sl) x level = Some y" "compare (node_key (sl_nodes sl) y) key < 0"
      by (auto simp: KeyIsAfterNode_def split: option.splits)
    have x: "valid key" "level < kMaxHeight" "x \<in> set (sk_head # visible sl' w' L' level)" using r pass by auto
    have "y \<in> set (visible sl' w' L' level)" using chain_next_mem [OF V(1) [OF x(2)] x(3)] y(1) pass by simp
    then show ?thesis using x y pass by simp
  next
    case (down key x level)
    have x: "valid key" "Suc level < kMaxHeight" "x = sk_head \<or> x \<in> set (visible sl' w' L' (Suc level)) \<and> compare (node_key (sl_nodes sl') x) key < 0"
      using r down by simp_all
    then have "set (visible sl' w' L' (Suc level)) \<subseteq> set (visible sl' w' L' level)" by (intro V(4)) simp_all
    then show ?thesis using x down by auto
  qed (use r in simp_all)
  then show ?thesis using L'(1) by (auto simp: conc_inv_def s)
qed

lemma conc_invE:
  assumes "conc_inv (sl, w, r)"
  obtains L where "writer_ok sl w L" "reader_ok (sl_nodes sl) (visible sl w L) r"
  using assms by (auto simp: conc_inv_def)

lemma sk_reach_inv: "sk_reach compare valid s \<Longrightarrow> conc_inv s"
proof (induction rule: sk_reach.induct)
  case (start any)
  show ?case using new_SkipList_inv [of compare valid any] by (auto simp: conc_inv_def)
qed (rule conc_inv_step)

text \<open>The list that is visible at level 0, and that it only grows.\<close>

lemma chain_unique:
  assumes "chain nodes i xs" "chain nodes i ys"
  shows "xs = ys"
proof -
  have "xs = ys" if "path_to nodes i x xs" "Node_Next nodes (last (x # xs)) i = None" "path_to nodes i x ys" "Node_Next nodes (last (x # ys)) i = None" for x
    using that
  proof (induction xs arbitrary: x ys)
    case Nil
    then show ?case by (cases ys) auto
  next
    case (Cons z xs)
    then show ?case by (cases ys) (auto split: if_splits)
  qed
  then show ?thesis using assms unfolding chain_def by blast
qed

lemma visible_grows:
  assumes "conc_inv (sl, w, r)" "sk_step compare valid (sl, w, r) (sl', w', r')" "chain (sl_nodes sl) 0 xs"
  shows "\<exists>xs'. chain (sl_nodes sl') 0 xs' \<and> set xs \<subseteq> set xs' \<and> (\<forall>x \<in> set xs. node_key (sl_nodes sl') x = node_key (sl_nodes sl) x)"
proof -
  from assms(1) obtain L where L: "writer_ok sl w L" by (rule conc_invE)
  from step_visible [OF assms(2) HOL.refl HOL.refl L] obtain L' where
    L': "writer_ok sl' w' L'" "grows (sl_nodes sl) (visible sl w L) (sl_nodes sl') (visible sl' w' L')" by blast
  have "xs = visible sl w L 0" using chain_unique [OF assms(3)] sl_listsD(1) [OF writer_ok_visible(1) [OF L], of 0] by simp
  then show ?thesis using sl_listsD(1) [OF writer_ok_visible(1) [OF L'(1)], of 0] L'(2) kMaxHeight_pos(1)
    unfolding grows_def by blast
qed

lemma found_correct:
  assumes "conc_inv (sl, w, RAt key x level)" "sk_step compare valid (sl, w, RAt key x level) (sl', w', RDone key' n)"
  shows "\<exists>xs. chain (sl_nodes sl) 0 xs \<and> sorted_keys compare (sl_nodes sl) xs \<and> sl' = sl
    \<and> n = first (filter (\<lambda>z. \<not> compare (node_key (sl_nodes sl) z) key < 0) xs)"
proof -
  from assms(1) obtain L where L: "writer_ok sl w L" "reader_ok (sl_nodes sl) (visible sl w L) (RAt key x level)" by (rule conc_invE)
  let ?pass = "KeyIsAfterNode compare (sl_nodes sl) key" and ?xs = "visible sl w L 0"
  note lists = writer_ok_visible(1) [OF L(1)]
  from assms(2) have st: "level = 0" "sl' = sl" "n = Node_Next (sl_nodes sl) x 0" "\<not> ?pass (Node_Next (sl_nodes sl) x 0)"
    by (auto elim: found_stepE)
  have pass: "?pass (Some z) = (compare (node_key (sl_nodes sl) z) key < 0)" "\<not> ?pass None" for z by (simp_all add: KeyIsAfterNode_def)
  have chain: "chain (sl_nodes sl) 0 ?xs" and sorted: "sorted_keys compare (sl_nodes sl) ?xs"
    using sl_listsD(1,2) [OF lists, of 0] by simp_all
  have "down_closed (\<lambda>z. compare (node_key (sl_nodes sl) z) key < 0) ?xs"
    using sorted sl_listsD(3) [OF lists, of 0] L(2) by (intro sorted_keys_down_closed) (auto simp: node_ok_def)
  with descend_one [OF chain, of ?pass x "[]"] L(2) st(1)
  have "descend (sl_nodes sl) ?pass x 0 [] = Some (last (sk_head # filter (\<lambda>z. compare (node_key (sl_nodes sl) z) key < 0) ?xs),
      first (filter (\<lambda>z. \<not> compare (node_key (sl_nodes sl) z) key < 0) ?xs), [])"
    unfolding pass by (simp add: pass)
  moreover have "descend (sl_nodes sl) ?pass x 0 [] = Some (x, n, [])" using st by (subst descend.simps) simp
  ultimately have "n = first (filter (\<lambda>z. \<not> compare (node_key (sl_nodes sl) z) key < 0) ?xs)" by simp
  then show ?thesis using chain sorted st(2) by blast
qed

end

end
