(* ===== verification/Ldb_Memtable.thy ===== *)
theory Ldb_Memtable
  imports Ldb_Skiplist_Conc Ldb_Env
begin

text \<open>
  The memtable (\<^verbatim>\<open>db/memtable.cc\<close>): a skip list of encoded entries, each an internal key and a value with
  their lengths, ordered by internal key. A pointer to an entry is the list of bytes from there on. \<open>Get\<close> finds the newest entry of a
  user key that is not newer than the snapshot it is asked for.
\<close>

section \<open>Entries\<close>

text \<open>The static function that reads a slice from a pointer, with what follows the slice; \<open>[]\<close> for a corrupted length.\<close>

definition MemTable_GetSlice :: "byte list \<Rightarrow> byte list \<times> byte list" where
  "MemTable_GetSlice data = (case GetVarint32Ptr (take 5 data) of None \<Rightarrow> ([], [])
     | Some (len, rest) \<Rightarrow> let p = drop (length (take 5 data) - length rest) data in (take (unat len) p, drop (unat len) p))"

definition MemTable_KeyCompare :: "compare_fn \<Rightarrow> compare_fn" where
  "MemTable_KeyCompare icmp aptr bptr = (let a = fst (MemTable_GetSlice aptr); b = fst (MemTable_GetSlice bptr) in icmp a b)"

definition EncodeKey :: "byte list \<Rightarrow> byte list" where
  "EncodeKey target = PutVarint32 [] (of_nat (length target)) @ target"

definition mem_entry :: "u64 \<Rightarrow> ValueType \<Rightarrow> byte list \<Rightarrow> byte list \<Rightarrow> byte list" where
  "mem_entry s type key value =
     EncodeVarint32 (of_nat (length key + 8)) @ key @ EncodeFixed64 (push_bit 8 s OR value_type_code type) @
     EncodeVarint32 (of_nat (length value)) @ value"

text \<open>The number of bytes that \<open>Add\<close> allocates for an entry.\<close>

definition encoded_len :: "byte list \<Rightarrow> byte list \<Rightarrow> nat" where
  "encoded_len key value =
     (let internal_key_size = length key + 8
      in VarintLength (of_nat internal_key_size) + internal_key_size + VarintLength (of_nat (length value)) + length value)"

type_synonym memtable = "byte list skiplist"

definition new_MemTable :: memtable where
  "new_MemTable = new_SkipList []"

definition MemTable_Add :: "compare_fn \<Rightarrow> u64 \<Rightarrow> ValueType \<Rightarrow> byte list \<Rightarrow> byte list \<Rightarrow> memtable \<Rightarrow> memtable option" where
  "MemTable_Add icmp s type key value table =
     SkipList_Insert (MemTable_KeyCompare icmp) (mem_entry s type key value) table"

text \<open>What \<open>Get\<close> returns: \<open>true\<close> with a value, \<open>true\<close> with a status, or \<open>false\<close>.\<close>

datatype mem_get = Found "byte list" | Deleted status | Missing

definition MemTable_Get :: "compare_fn \<Rightarrow> compare_fn \<Rightarrow> LookupKey \<Rightarrow> memtable \<Rightarrow> mem_get option" where
  "MemTable_Get user_comparator icmp key table =
     (case SkipIter_Seek (MemTable_KeyCompare icmp) (memtable_key key) table of None \<Rightarrow> None
      | Some None \<Rightarrow> Some Missing
      | Some (Some x) \<Rightarrow>
        let entry = sk_key (sl_nodes table ! x); (ikey, rest) = MemTable_GetSlice entry
        in if user_comparator (take (length ikey - 8) ikey) (lookup_user_key key) = 0 then
             let tag = DecodeFixed64 (drop (length ikey - 8) ikey) in
             if tag AND 255 = 1 then Some (Found (fst (MemTable_GetSlice rest)))
             else if tag AND 255 = 0 then Some (Deleted (NotFound (status_msg [] [])))
             else Some Missing
           else Some Missing)"

section \<open>Iterators\<close>

definition MemIter_Seek :: "compare_fn \<Rightarrow> byte list \<Rightarrow> memtable \<Rightarrow> nat option option" where
  "MemIter_Seek icmp k table = SkipIter_Seek (MemTable_KeyCompare icmp) (EncodeKey k) table"

definition MemIter_key :: "memtable \<Rightarrow> nat \<Rightarrow> byte list" where
  "MemIter_key table x = fst (MemTable_GetSlice (sk_key (sl_nodes table ! x)))"

definition MemIter_value :: "memtable \<Rightarrow> nat \<Rightarrow> byte list" where
  "MemIter_value table x = fst (MemTable_GetSlice (snd (MemTable_GetSlice (sk_key (sl_nodes table ! x)))))"

section \<open>Encoding of entries\<close>

lemma GetSlice_Put:
  assumes "length k < 2 ^ 32"
  shows "MemTable_GetSlice (EncodeVarint32 (of_nat (length k)) @ k @ rest) = (k, rest)"
proof -
  let ?v = "of_nat (length k) :: u32"
  have n: "length (EncodeVarint32 ?v) \<le> 5" by (rule length_EncodeVarint)
  have "take 5 (EncodeVarint32 ?v @ k @ rest) = EncodeVarint32 ?v @ take (5 - length (EncodeVarint32 ?v)) (k @ rest)" using n by simp
  moreover have "GetVarint32Ptr (EncodeVarint32 ?v @ r) = Some (?v, r)" for r using GetVarint32_Encode [of ?v r] by (simp add: GetVarint32_def)
  ultimately have "GetVarint32Ptr (take 5 (EncodeVarint32 ?v @ k @ rest)) = Some (?v, take (5 - length (EncodeVarint32 ?v)) (k @ rest))" by simp
  moreover have "length (take 5 (EncodeVarint32 ?v @ k @ rest)) - length (take (5 - length (EncodeVarint32 ?v)) (k @ rest)) = length (EncodeVarint32 ?v)"
    using n by simp
  ultimately show ?thesis using assms by (simp add: MemTable_GetSlice_def Let_def unat_of_nat_32 del: length_take)
qed

lemma GetSlice_EncodeKey: "length k < 2 ^ 32 \<Longrightarrow> MemTable_GetSlice (EncodeKey k) = (k, [])"
  using GetSlice_Put [of k "[]"] by (simp add: EncodeKey_def PutVarint32_def)

text \<open>The entry of an operation as a record; its internal key.\<close>

record mem_op =
  op_seq :: u64
  op_type :: ValueType
  op_key :: "byte list"
  op_value :: "byte list"

abbreviation op_entry :: "mem_op \<Rightarrow> byte list" where
  "op_entry e \<equiv> mem_entry (op_seq e) (op_type e) (op_key e) (op_value e)"

definition op_ikey :: "mem_op \<Rightarrow> byte list" where
  "op_ikey e = AppendInternalKey [] \<lparr>pk_user_key = op_key e, pk_sequence = op_seq e, pk_type = op_type e\<rparr>"

definition op_ok :: "mem_op \<Rightarrow> bool" where
  "op_ok e \<longleftrightarrow> op_seq e \<le> kMaxSequenceNumber \<and> length (op_key e) + 8 < 2 ^ 32 \<and> length (op_value e) < 2 ^ 32"

lemma op_ikey_simps [simp]:
  "length (op_ikey e) = length (op_key e) + 8" "ExtractUserKey (op_ikey e) = op_key e"
  "key_tag (op_ikey e) = PackSequenceAndType (op_seq e) (op_type e)"
  by (simp_all add: op_ikey_def AppendInternalKey_def)

lemma op_entry_slices:
  assumes "op_ok e"
  shows "MemTable_GetSlice (op_entry e) = (op_ikey e, EncodeVarint32 (of_nat (length (op_value e))) @ op_value e)"
    "MemTable_GetSlice (snd (MemTable_GetSlice (op_entry e))) = (op_value e, [])"
proof -
  have "op_entry e = EncodeVarint32 (of_nat (length (op_ikey e))) @ op_ikey e @ EncodeVarint32 (of_nat (length (op_value e))) @ op_value e"
    by (simp add: mem_entry_def) (simp add: op_ikey_def AppendInternalKey_def PutFixed64_def PackSequenceAndType_def)
  then show *: "MemTable_GetSlice (op_entry e) = (op_ikey e, EncodeVarint32 (of_nat (length (op_value e))) @ op_value e)"
    using GetSlice_Put [of "op_ikey e"] assms by (simp add: op_ok_def)
  show "MemTable_GetSlice (snd (MemTable_GetSlice (op_entry e))) = (op_value e, [])"
    unfolding * using GetSlice_Put [of "op_value e" "[]"] assms by (simp add: op_ok_def)
qed

text \<open>The entry fills the allocated bytes exactly.\<close>

lemma length_mem_entry:
  assumes "length key + 8 < 2 ^ 32" "length value < 2 ^ 32"
  shows "length (mem_entry s type key value) = encoded_len key value"
proof -
  have "VarintLength (of_nat n) = length (EncodeVarint32 (of_nat n))" if "n < 2 ^ 32" for n
    using that by (simp add: VarintLength_bytes EncodeVarint64_bytes EncodeVarint32_bytes unat_of_nat_32 unat_of_nat_64)
  from this [OF assms(1)] this [OF assms(2)] show ?thesis by (simp add: mem_entry_def encoded_len_def Let_def del: of_nat_add)
qed

section \<open>The order of entries\<close>

text \<open>Entries are ordered as their internal keys: over every comparator the skip list gets an order.\<close>

context comparator
begin

lemma memtable_order:
  "key_order (MemTable_KeyCompare (Internal_Compare compare)) (\<lambda>e. internal_valid (fst (MemTable_GetSlice e)))"
  unfolding MemTable_KeyCompare_def Let_def by unfold_locales (blast intro: internal_sign, blast intro: internal_trans)

end

interpretation mem: key_order "MemTable_KeyCompare (Internal_Compare Slice_compare)"
  "\<lambda>e. 8 \<le> length (fst (MemTable_GetSlice e)) \<and> True"
  by (rule bytewise.memtable_order)

section \<open>What a memtable holds\<close>

abbreviation mem_compare :: compare_fn where
  "mem_compare \<equiv> MemTable_KeyCompare (Internal_Compare Slice_compare)"

abbreviation mem_valid :: "byte list \<Rightarrow> bool" where
  "mem_valid e \<equiv> 8 \<le> length (fst (MemTable_GetSlice e)) \<and> True"

text \<open>A writer can begin with any entry.\<close>

lemma start_write:
  assumes "mem_valid key"
  shows "\<exists>x height prev table. prepare_insert mem_compare key (new_SkipList []) = Some (x, height, prev, table) \<and> 1 \<le> sl_max_height table"
proof -
  have none: "\<forall>z \<in> set ((\<lambda>_ :: nat. [] :: nat list) 0). mem_compare (node_key (sl_nodes (new_SkipList [])) z) key \<noteq> 0" by simp
  from mem.prepare_inv [OF new_SkipList_inv assms none] show ?thesis by fastforce
qed

text \<open>The memtable holds the entries of the operations \<open>es\<close>, the oldest first.\<close>

definition mem_rep :: "memtable \<Rightarrow> mem_op list \<Rightarrow> bool" where
  "mem_rep table es \<longleftrightarrow> (\<forall>e \<in> set es. op_ok e) \<and> sorted_wrt (<) (map op_seq es) \<and>
     (\<exists>L. sl_inv mem_compare mem_valid table L \<and> set (sl_keys table L) = op_entry ` set es)"

text \<open>The answer of \<open>Get\<close>: the newest operation on the key up to the snapshot.\<close>

definition mem_lookup :: "mem_op list \<Rightarrow> byte list \<Rightarrow> u64 \<Rightarrow> mem_get" where
  "mem_lookup es user s =
     (case rev (filter (\<lambda>e. op_key e = user \<and> op_seq e \<le> s) es) of
        [] \<Rightarrow> Missing
      | e # _ \<Rightarrow> (case op_type e of kTypeValue \<Rightarrow> Found (op_value e) | kTypeDeletion \<Rightarrow> Deleted (NotFound (status_msg [] []))))"

lemma mem_lookup_append: "mem_lookup (xs @ ys) user s = (case mem_lookup ys user s of Missing \<Rightarrow> mem_lookup xs user s | r \<Rightarrow> r)"
  by (simp add: mem_lookup_def split: list.splits ValueType.splits)

lemma mem_rep_new: "mem_rep new_MemTable []"
  using new_SkipList_inv [of mem_compare mem_valid "[]"] by (auto simp: mem_rep_def new_MemTable_def sl_keys_def)

lemma tag_order:
  assumes "op_ok e" "op_ok e'"
  shows "PackSequenceAndType (op_seq e) (op_type e) < PackSequenceAndType (op_seq e') (op_type e') \<longleftrightarrow>
    op_seq e < op_seq e' \<or> op_seq e = op_seq e' \<and> op_type e = kTypeDeletion \<and> op_type e' = kTypeValue"
  using assms by (cases "op_type e"; cases "op_type e'")
    (auto simp: word_less_nat_alt PackSequenceAndType_bounds op_ok_def value_type_code_def word_unat_eq_iff)

lemma mem_rep_Add:
  assumes "mem_rep table es" "op_ok e" "\<forall>e' \<in> set es. op_seq e' < op_seq e"
  shows "\<exists>table'. MemTable_Add (Internal_Compare Slice_compare) (op_seq e) (op_type e) (op_key e) (op_value e) table = Some table'
    \<and> mem_rep table' (es @ [e])"
proof -
  from assms(1) obtain L where L: "sl_inv mem_compare mem_valid table L" "set (sl_keys table L) = op_entry ` set es"
    and es: "\<forall>e \<in> set es. op_ok e" "sorted_wrt (<) (map op_seq es)" by (auto simp: mem_rep_def)
  have "mem_compare (op_entry e') (op_entry e) \<noteq> 0" if "e' \<in> set es" for e'
  proof -
    have "PackSequenceAndType (op_seq e') (op_type e') < PackSequenceAndType (op_seq e) (op_type e)"
      using that es(1) assms(2,3) by (simp add: tag_order)
    then show ?thesis using that es(1) assms(2) by (simp add: MemTable_KeyCompare_def op_entry_slices Internal_Compare_def Let_def)
  qed
  then have "\<forall>z \<in> set (L 0). mem_compare (node_key (sl_nodes table) z) (op_entry e) \<noteq> 0"
  proof (intro ballI)
    fix z assume "z \<in> set (L 0)"
    then have "node_key (sl_nodes table) z \<in> set (sl_keys table L)" by (simp add: sl_keys_def)
    then show "mem_compare (node_key (sl_nodes table) z) (op_entry e) \<noteq> 0" using L(2) \<open>\<And>e'. e' \<in> set es \<Longrightarrow> _\<close> by auto
  qed
  moreover have "mem_valid (op_entry e)" using assms(2) by (simp add: op_entry_slices)
  ultimately obtain table' L' where "SkipList_Insert mem_compare (op_entry e) table = Some table'" "sl_inv mem_compare mem_valid table' L'"
    "sl_keys table' L' = filter (\<lambda>k. mem_compare k (op_entry e) < 0) (sl_keys table L) @ op_entry e #
       filter (\<lambda>k. \<not> mem_compare k (op_entry e) < 0) (sl_keys table L)"
    using mem.Insert_inv [OF L(1)] by metis
  moreover from this(3) have "set (sl_keys table' L') = op_entry ` set (es @ [e])" using L(2) by auto
  ultimately show ?thesis using es assms(2,3) by (auto simp: MemTable_Add_def mem_rep_def sorted_wrt_append)
qed

section \<open>Lookups\<close>

lemma PackSequenceAndType_and_255:
  assumes "s \<le> kMaxSequenceNumber"
  shows "PackSequenceAndType s t AND 255 = value_type_code t"
proof (rule unsigned_word_eqI)
  show "unat (PackSequenceAndType s t AND 255) = unat (value_type_code t)"
    using PackSequenceAndType_bounds [OF assms, of t] by (cases t) (simp_all add: unat_and_255 value_type_code_def)
qed

lemma lookup_slice:
  assumes "length user + 8 < 2 ^ 32"
  shows "MemTable_GetSlice (memtable_key (new_LookupKey user s)) =
    (op_ikey \<lparr>op_seq = s, op_type = kTypeValue, op_key = user, op_value = []\<rparr>, [])"
proof -
  let ?e = "\<lparr>op_seq = s, op_type = kTypeValue, op_key = user, op_value = []\<rparr>"
  have "internal_key (new_LookupKey user s) = op_ikey ?e" using LookupKey_parts(2) [OF HOL.refl, of user s] by (simp add: op_ikey_def)
  then have "memtable_key (new_LookupKey user s) = EncodeVarint32 (of_nat (length (op_ikey ?e))) @ op_ikey ?e @ []"
    using LookupKey_parts(3) [OF HOL.refl, of user s] by (simp only: append_Nil2)
  then show ?thesis using GetSlice_Put [of "op_ikey ?e" "[]"] assms by (simp only:) simp
qed

lemma below_lookup:
  assumes "op_ok e" "s \<le> kMaxSequenceNumber" "length user + 8 < 2 ^ 32"
  shows "mem_compare (op_entry e) (memtable_key (new_LookupKey user s)) < 0 \<longleftrightarrow>
    Slice_compare (op_key e) user < 0 \<or> op_key e = user \<and> s < op_seq e"
  using tag_order [of "\<lparr>op_seq = s, op_type = kTypeValue, op_key = user, op_value = []\<rparr>" e] assms
  by (auto simp: MemTable_KeyCompare_def op_entry_slices lookup_slice Internal_Compare_def Let_def op_ok_def)

lemma entry_less:
  assumes "op_ok e" "op_ok e'"
  shows "mem_compare (op_entry e) (op_entry e') < 0 \<longleftrightarrow> Slice_compare (op_key e) (op_key e') < 0 \<or>
    op_key e = op_key e' \<and> PackSequenceAndType (op_seq e') (op_type e') < PackSequenceAndType (op_seq e) (op_type e)"
  using assms by (auto simp: MemTable_KeyCompare_def op_entry_slices Internal_Compare_def Let_def)

lemma newest_last:
  assumes "sorted_wrt (<) (map op_seq es)" "e \<in> set es" "P e" "\<forall>e' \<in> set es. P e' \<longrightarrow> op_seq e' \<le> op_seq e"
  shows "\<exists>es'. rev (filter P es) = e # es'"
proof -
  have "e \<in> set (filter P es)" using assms(2,3) by simp
  then obtain xs ys where es: "filter P es = xs @ e # ys" by (auto dest: split_list)
  have "sorted_wrt (\<lambda>x y. op_seq x < op_seq y) (filter P es)" using assms(1) by (simp add: sorted_wrt_map sorted_wrt_filter)
  then have "\<forall>y \<in> set ys. op_seq e < op_seq y" by (simp add: es sorted_wrt_append)
  moreover have "set ys \<subseteq> set (filter P es)" unfolding es by auto
  then have "\<forall>y \<in> set ys. op_seq y \<le> op_seq e" using assms(4) by auto
  ultimately have "ys = []" by (cases ys) auto
  then show ?thesis by (simp add: es)
qed

lemma MemTable_Get_rep:
  assumes "mem_rep table es" "s \<le> kMaxSequenceNumber" "length user + 8 < 2 ^ 32"
  shows "MemTable_Get Slice_compare (Internal_Compare Slice_compare) (new_LookupKey user s) table = Some (mem_lookup es user s)"
proof -
  let ?q = "memtable_key (new_LookupKey user s)" and ?key = "node_key (sl_nodes table)"
  from assms(1) obtain L where L: "sl_inv mem_compare mem_valid table L" "set (sl_keys table L) = op_entry ` set es"
    and es: "\<forall>e \<in> set es. op_ok e" "sorted_wrt (<) (map op_seq es)" by (auto simp: mem_rep_def)
  define B where "B = filter (\<lambda>z. \<not> mem_compare (?key z) ?q < 0) (L 0)"
  have "mem_valid ?q" using assms(3) by (simp add: lookup_slice)
  from mem.Seek_inv [OF L(1) this] have seek: "SkipIter_Seek mem_compare ?q table = Some (first B)" by (simp add: B_def)
  have sorted: "sorted_keys mem_compare (sl_nodes table) B"
    using sl_listsD(2) [of mem_compare mem_valid "sl_nodes table" L 0] L(1) by (simp add: sl_inv_def B_def sorted_keys_def sorted_wrt_filter)
  define match where "match = (\<lambda>e :: mem_op. op_key e = user \<and> op_seq e \<le> s)"
  have matches: "\<exists>z \<in> set B. ?key z = op_entry e" if "e \<in> set es" "match e" for e
  proof -
    have "op_entry e \<in> set (sl_keys table L)" using L(2) that by blast
    then obtain z where "z \<in> set (L 0)" "?key z = op_entry e" by (auto simp: sl_keys_def)
    then show ?thesis using that es(1) assms(2,3) by (auto simp: B_def below_lookup match_def)
  qed
  show ?thesis
  proof (cases B)
    case Nil
    then have "filter match es = []" using matches by (auto simp: filter_empty_conv)
    then show ?thesis using seek Nil by (simp add: MemTable_Get_def mem_lookup_def match_def)
  next
    case (Cons b bs)
    have "?key b \<in> set (sl_keys table L)" using Cons by (auto simp: sl_keys_def B_def filter_eq_Cons_iff)
    then obtain e where e: "e \<in> set es" "?key b = op_entry e" using L(2) by auto
    have ok: "op_ok e" using e(1) es(1) by blast
    have "b \<in> set B" by (simp add: Cons)
    then have nb: "\<not> Slice_compare (op_key e) user < 0" "op_key e = user \<Longrightarrow> op_seq e \<le> s"
      using below_lookup [OF ok assms(2,3)] e(2) by (auto simp: B_def)
    have above: "e' = e \<or> op_entry e = op_entry e' \<or> mem_compare (op_entry e) (op_entry e') < 0" if "e' \<in> set es" "match e'" for e'
      using matches [OF that] sorted e(2) by (auto simp: Cons sorted_keys_def)
    have ikey: "op_ikey e = op_ikey e'" if "op_entry e = op_entry e'" "e' \<in> set es" for e'
      using op_entry_slices(1) [OF ok] op_entry_slices(1) [of e'] that es(1) by simp
    let ?r = "case op_type e of kTypeValue \<Rightarrow> Found (op_value e) | kTypeDeletion \<Rightarrow> Deleted (NotFound (status_msg [] []))"
    have tag: "DecodeFixed64 (drop (length (op_ikey e) - 8) (op_ikey e)) AND 255 = value_type_code (op_type e)"
      using op_ikey_simps(3) [of e] PackSequenceAndType_and_255 [of "op_seq e" "op_type e"] ok unfolding key_tag_def by (simp add: op_ok_def)
    have get: "MemTable_Get Slice_compare (Internal_Compare Slice_compare) (new_LookupKey user s) table = Some (if op_key e = user then ?r else Missing)"
      using seek Cons op_entry_slices [OF ok] op_ikey_simps(2) [of e] tag LookupKey_parts(1) [OF HOL.refl, of user s] e(2)
      by (cases "op_type e"; cases "op_key e = user") (simp_all add: MemTable_Get_def Let_def ExtractUserKey_def value_type_code_def)
    show ?thesis
    proof (cases "op_key e = user")
      case False
      have "\<not> match e'" if "e' \<in> set es" for e'
      proof
        assume m: "match e'"
        have "mem_compare (op_entry e) (op_entry e') < 0"
          using above [OF that m] ikey [OF _ that] False m op_ikey_simps(2) by (metis match_def)
        then show False using entry_less [OF ok] that es(1) nb(1) False m by (auto simp: match_def)
      qed
      then have "filter match es = []" by (simp add: filter_empty_conv)
      then show ?thesis using get False by (simp add: mem_lookup_def match_def)
    next
      case True
      have "op_seq e' \<le> op_seq e" if "e' \<in> set es" "match e'" for e'
      proof -
        have "\<not> PackSequenceAndType (op_seq e) (op_type e) < PackSequenceAndType (op_seq e') (op_type e')"
          using above [OF that]
        proof (elim disjE)
          assume "op_entry e = op_entry e'"
          then have "key_tag (op_ikey e) = key_tag (op_ikey e')" using ikey [OF _ that(1)] by simp
          then show ?thesis by simp
        next
          assume "mem_compare (op_entry e) (op_entry e') < 0"
          then show ?thesis using entry_less [OF ok, of e'] that es(1) True by (auto simp: match_def)
        qed simp
        then show ?thesis using tag_order [OF ok, of e'] that es(1) by (auto simp: not_less)
      qed
      then obtain es' where "rev (filter match es) = e # es'" using newest_last [OF es(2) e(1), of match] nb(2) True by (auto simp: match_def)
      then show ?thesis using get True by (simp add: mem_lookup_def match_def)
    qed
  qed
qed

end
