(* ===== verification/Ldb_Build.thy ===== *)
theory Ldb_Build
  imports Ldb_Table_Reader Ldb_Memtable
begin

text \<open>
  From a memtable to a table of the database (\<^verbatim>\<open>db/builder.cc\<close>) and lookups in it through the table cache (\<^verbatim>\<open>db/table_cache.cc\<close>), with the
  operations of the environment that they use: names (\<^verbatim>\<open>db/filename.cc\<close>), opening and deleting of files (\<^verbatim>\<open>util/env_posix.cc\<close>). The caches
  are given by their operations.
\<close>

section \<open>File names\<close>

fun decimal :: "nat \<Rightarrow> string" where
  "decimal n = (if n < 10 then [char_of (48 + n)] else decimal (n div 10) @ [char_of (48 + n mod 10)])"

declare decimal.simps [simp del]

definition MakeFileName :: "string \<Rightarrow> u64 \<Rightarrow> string \<Rightarrow> string" where
  "MakeFileName dbname number suffix =
     (let digits = decimal (unat number) in dbname @ ''/'' @ replicate (6 - length digits) (CHR ''0'') @ digits @ ''.'' @ suffix)"

definition TableFileName :: "string \<Rightarrow> u64 \<Rightarrow> string" where
  "TableFileName dbname number = MakeFileName dbname number ''ldb''"

definition SSTTableFileName :: "string \<Rightarrow> u64 \<Rightarrow> string" where
  "SSTTableFileName dbname number = MakeFileName dbname number ''sst''"

section \<open>The environment\<close>

text \<open>
  More calls of the system, beside those of \<open>posix\<close>: opening for writing with \<open>O_TRUNC\<close> and \<open>O_CREAT\<close>, the size of a file, mapping a
  file, unlinking, the limiter of mappings, files that are read with \<^verbatim>\<open>pread\<close> when there are too many mappings, and the destructor of a
  file that was opened for reading, which unmaps or closes it.
\<close>

record 'w posix_fs =
  fs_posix :: "'w posix"
  fs_create :: "string \<Rightarrow> 'w \<Rightarrow> (int + int) \<times> 'w"
  fs_stat_size :: "string \<Rightarrow> 'w \<Rightarrow> (int + u64) \<times> 'w"
  fs_mmap :: "int \<Rightarrow> u64 \<Rightarrow> 'w \<Rightarrow> (int + byte list) \<times> 'w"
  fs_unlink :: "string \<Rightarrow> 'w \<Rightarrow> int option \<times> 'w"
  fs_mmap_acquire :: "'w \<Rightarrow> bool \<times> 'w"
  fs_mmap_release :: "'w \<Rightarrow> 'w"
  fs_pread_file :: "string \<Rightarrow> int \<Rightarrow> 'w \<Rightarrow> random_read \<times> 'w"
  fs_delete_random :: "random_read \<Rightarrow> 'w \<Rightarrow> 'w"

definition GetFileSize :: "'w posix_fs \<Rightarrow> string \<Rightarrow> 'w \<Rightarrow> (status + u64) \<times> 'w" where
  "GetFileSize fs filename w = (case fs_stat_size fs filename w of
     (Inl errno, w) \<Rightarrow> (Inl (PosixError (fs_posix fs) filename errno), w) | (Inr sz, w) \<Rightarrow> (Inr sz, w))"

definition NewRandomAccessFile :: "'w posix_fs \<Rightarrow> string \<Rightarrow> 'w \<Rightarrow> (status + random_read) \<times> 'w" where
  "NewRandomAccessFile fs filename w =
     (let px = fs_posix fs in
      case px_open px filename w of
        (Inl errno, w) \<Rightarrow> (Inl (PosixError px filename errno), w)
      | (Inr fd, w) \<Rightarrow>
        (case fs_mmap_acquire fs w of
           (False, w) \<Rightarrow> (case fs_pread_file fs filename fd w of (read, w) \<Rightarrow> (Inr read, w))
         | (True, w) \<Rightarrow>
           (case (case GetFileSize fs filename w of
                    (Inl s, w) \<Rightarrow> (Inl s, w)
                  | (Inr file_size, w) \<Rightarrow>
                    (case fs_mmap fs fd file_size w of
                       (Inl errno, w) \<Rightarrow> (Inl (PosixError px filename errno), w)
                     | (Inr bytes, w) \<Rightarrow> (Inr (mmap_read px filename bytes), w))) of
              (Inl s, w) \<Rightarrow> (Inl s, fs_mmap_release fs (snd (px_close px fd w)))
            | (Inr read, w) \<Rightarrow> (Inr read, snd (px_close px fd w)))))"

definition NewWritableFile :: "'w posix_fs \<Rightarrow> string \<Rightarrow> 'w \<Rightarrow> (status + wfile) \<times> 'w" where
  "NewWritableFile fs filename w = (case fs_create fs filename w of
     (Inl errno, w) \<Rightarrow> (Inl (PosixError (fs_posix fs) filename errno), w) | (Inr fd, w) \<Rightarrow> (Inr (new_PosixWritableFile filename fd), w))"

definition DeleteFile :: "'w posix_fs \<Rightarrow> string \<Rightarrow> 'w \<Rightarrow> status \<times> 'w" where
  "DeleteFile fs filename w = (case fs_unlink fs filename w of
     (Some errno, w) \<Rightarrow> (PosixError (fs_posix fs) filename errno, w) | (None, w) \<Rightarrow> (OK, w))"

text \<open>The destructor closes a file that is open.\<close>

definition delete_PosixWritableFile :: "'w posix \<Rightarrow> 'w wstate \<Rightarrow> 'w option" where
  "delete_PosixWritableFile px st =
     (if wf_fd (fst st) \<ge> 0 then map_option (\<lambda>(_, st). snd st) (PosixWritableFile_Close px st) else Some (snd st))"

section \<open>The table cache\<close>

text \<open>The state: the block cache, the cache of open tables, the system.\<close>

type_synonym ('c, 't, 'w) tc_state = "'c \<times> 't \<times> 'w"

record 't table_cache =
  tc_lookup :: "byte list \<Rightarrow> 't \<Rightarrow> (random_read \<times> table) option \<times> 't"
  tc_insert :: "byte list \<Rightarrow> random_read \<times> table \<Rightarrow> 't \<Rightarrow> 't"
  tc_erase :: "byte list \<Rightarrow> 't \<Rightarrow> 't"

text \<open>What does not change: options, caches, the system.\<close>

record ('c, 't, 'w) table_env =
  te_crc :: crc_env
  te_fs :: "'w posix_fs"
  te_dbname :: string
  te_options :: table_options
  te_block_cache :: "'c block_cache option"
  te_cache :: "'t table_cache"

definition open_table_file :: "('c, 't, 'w) table_env \<Rightarrow> u64 \<Rightarrow> 'w \<Rightarrow> (status + random_read) \<times> 'w" where
  "open_table_file te number w =
     (case NewRandomAccessFile (te_fs te) (TableFileName (te_dbname te) number) w of
        (Inr read, w) \<Rightarrow> (Inr read, w)
      | (Inl s, w) \<Rightarrow>
        (case NewRandomAccessFile (te_fs te) (SSTTableFileName (te_dbname te) number) w of
           (Inr read, w) \<Rightarrow> (Inr read, w) | (Inl _, w) \<Rightarrow> (Inl s, w)))"

definition FindTable ::
  "('c, 't, 'w) table_env \<Rightarrow> u64 \<Rightarrow> u64 \<Rightarrow> ('c, 't, 'w) tc_state \<Rightarrow> (status + random_read \<times> table) \<times> ('c, 't, 'w) tc_state" where
  "FindTable te file_number file_size = (\<lambda>(c, tcs, w).
     let key = EncodeFixed64 file_number in
     case tc_lookup (te_cache te) key tcs of
       (Some tf, tcs) \<Rightarrow> (Inr tf, (c, tcs, w))
     | (None, tcs) \<Rightarrow>
       (case open_table_file te file_number w of
          (Inl s, w) \<Rightarrow> (Inl s, (c, tcs, w))
        | (Inr read, w) \<Rightarrow>
          (case Table_Open (te_crc te) read (te_options te) (te_block_cache te) file_size c of
             (Inl s, c) \<Rightarrow> (Inl s, (c, tcs, fs_delete_random (te_fs te) read w))
           | (Inr t, c) \<Rightarrow> (Inr (read, t), (c, tc_insert (te_cache te) key (read, t) tcs, w)))))"

text \<open>
  The status of the iterator that \<open>NewIterator\<close> gives before it is moved. The iterator over a table has two levels (\<^verbatim>\<open>table/two_level_iterator.cc\<close>);
  until it is moved, its status is that of its iterator over the index.
\<close>

definition TableCache_NewIterator_status ::
  "('c, 't, 'w) table_env \<Rightarrow> u64 \<Rightarrow> u64 \<Rightarrow> ('c, 't, 'w) tc_state \<Rightarrow> status \<times> ('c, 't, 'w) tc_state" where
  "TableCache_NewIterator_status te file_number file_size st =
     (case FindTable te file_number file_size st of
        (Inl s, st) \<Rightarrow> (s, st)
      | (Inr (read, t), st) \<Rightarrow> (Iter_status (Block_NewIterator (tbl_index_block t)), st))"

definition TableCache_Get ::
  "('c, 't, 'w) table_env \<Rightarrow> read_options \<Rightarrow> u64 \<Rightarrow> u64 \<Rightarrow> byte list \<Rightarrow> ('c, 't, 'w) tc_state
     \<Rightarrow> status \<times> (byte list \<times> byte list) option \<times> ('c, 't, 'w) tc_state" where
  "TableCache_Get te ro file_number file_size k st =
     (case FindTable te file_number file_size st of
        (Inl s, st) \<Rightarrow> (s, None, st)
      | (Inr (read, t), (c, tcs, w)) \<Rightarrow>
        (case InternalGet (te_crc te) read (te_options te) (te_block_cache te) ro k t c of (s, res, c) \<Rightarrow> (s, res, (c, tcs, w))))"

definition Evict :: "('c, 't, 'w) table_env \<Rightarrow> u64 \<Rightarrow> 't \<Rightarrow> 't" where
  "Evict te file_number = tc_erase (te_cache te) (EncodeFixed64 file_number)"

section \<open>Building a table\<close>

record file_meta =
  fm_refs :: int
  fm_allowed_seeks :: int
  fm_number :: u64
  fm_file_size :: u64
  fm_smallest :: "byte list"
  fm_largest :: "byte list"

definition new_FileMetaData :: "u64 \<Rightarrow> file_meta" where
  "new_FileMetaData number = \<lparr>fm_refs = 0, fm_allowed_seeks = 2 ^ 30, fm_number = number, fm_file_size = 0, fm_smallest = [], fm_largest = []\<rparr>"

text \<open>The loop over the iterator of the memtable.\<close>

partial_function (option) build_loop ::
  "crc_env \<Rightarrow> 'f append \<Rightarrow> 'f flush \<Rightarrow> table_options \<Rightarrow> memtable \<Rightarrow> nat option \<Rightarrow> file_meta \<Rightarrow> 'f table_builder
     \<Rightarrow> (file_meta \<times> 'f table_builder) option" where
  "build_loop e app flush opts mem node meta r =
     (case node of None \<Rightarrow> Some (meta, r)
      | Some x \<Rightarrow>
          Option.bind (TableBuilder_Add e app flush opts (MemIter_key mem x) (MemIter_value mem x) r)
            (\<lambda>r. build_loop e app flush opts mem (SkipIter_Next mem x) (meta\<lparr>fm_largest := MemIter_key mem x\<rparr>) r))"

definition keep_or_delete ::
  "'w posix_fs \<Rightarrow> string \<Rightarrow> status \<times> file_meta \<times> ('c, 't, 'w) tc_state \<Rightarrow> status \<times> file_meta \<times> ('c, 't, 'w) tc_state" where
  "keep_or_delete fs fname = (\<lambda>(s, meta, (c, tcs, w)).
     if s = OK \<and> fm_file_size meta > 0 then (s, meta, (c, tcs, w)) else (s, meta, (c, tcs, snd (DeleteFile fs fname w))))"

definition build_file ::
  "('c, 't, 'w) table_env \<Rightarrow> memtable \<Rightarrow> nat \<Rightarrow> file_meta \<Rightarrow> wfile \<Rightarrow> ('c, 't, 'w) tc_state
     \<Rightarrow> (status \<times> file_meta \<times> ('c, 't, 'w) tc_state) option" where
  "build_file te mem x meta f = (\<lambda>(c, tcs, w).
     let e = te_crc te; px = fs_posix (te_fs te); opts = te_options te;
         app = PosixWritableFile_Append px; flush = PosixWritableFile_Flush px
     in Option.bind (build_loop e app flush opts mem (Some x) (meta\<lparr>fm_smallest := MemIter_key mem x\<rparr>) (new_TableBuilder opts (f, w))) (\<lambda>(meta, r).
        Option.bind (TableBuilder_Finish e app flush opts r) (\<lambda>(s, r).
        let meta = (if s = OK then meta\<lparr>fm_file_size := TableBuilder_FileSize r\<rparr> else meta) in
        Option.bind (if s = OK then PosixWritableFile_Sync px (tb_file r) else Some (s, tb_file r)) (\<lambda>(s, file).
        Option.bind (if s = OK then PosixWritableFile_Close px file else Some (s, file)) (\<lambda>(s, file).
        map_option (\<lambda>w.
            if s = OK then
              (case TableCache_NewIterator_status te (fm_number meta) (fm_file_size meta) (c, tcs, w) of (s, st) \<Rightarrow> (s, meta, st))
            else (s, meta, (c, tcs, w)))
          (delete_PosixWritableFile px file))))))"

definition BuildTable ::
  "('c, 't, 'w) table_env \<Rightarrow> memtable \<Rightarrow> file_meta \<Rightarrow> ('c, 't, 'w) tc_state \<Rightarrow> (status \<times> file_meta \<times> ('c, 't, 'w) tc_state) option" where
  "BuildTable te mem meta = (\<lambda>(c, tcs, w).
     let meta = meta\<lparr>fm_file_size := 0\<rparr>; fname = TableFileName (te_dbname te) (fm_number meta) in
     case SkipIter_SeekToFirst mem of
       None \<Rightarrow> Some (keep_or_delete (te_fs te) fname (OK, meta, (c, tcs, w)))
     | Some x \<Rightarrow>
       (case NewWritableFile (te_fs te) fname w of
          (Inl s, w) \<Rightarrow> Some (s, meta, (c, tcs, w))
        | (Inr f, w) \<Rightarrow> map_option (keep_or_delete (te_fs te) fname) (build_file te mem x meta f (c, tcs, w))))"

end
