(* ===== verification/Ldb_Block_Correct.thy ===== *)
theory Ldb_Block_Correct
  imports Ldb_Block
begin

text \<open>
  Blocks are correct: the bytes that the builder makes from a list of entries, the offsets of entries and restart points in them, and what
  the iterator is at after each operation on a finished block. \<open>Next\<close> and \<open>Prev\<close> go to the neighbours, and \<open>Seek\<close> finds the first
  entry whose key is not below the target, for every comparator that keeps the contract \<open>key_order\<close>.
\<close>

section \<open>The layout of a block\<close>

type_synonym kv = "byte list \<times> byte list"

definition blk_shared :: "nat \<Rightarrow> kv list \<Rightarrow> nat \<Rightarrow> nat" where
  "blk_shared k kvs i = (if i mod k = 0 then 0 else shared_prefix (fst (kvs ! (i - 1))) (fst (kvs ! i)))"

definition blk_entry :: "nat \<Rightarrow> kv list \<Rightarrow> nat \<Rightarrow> byte list" where
  "blk_entry k kvs i =
     (let (key, value) = kvs ! i; shared = blk_shared k kvs i
      in EncodeVarint32 (of_nat shared) @ EncodeVarint32 (of_nat (length key - shared)) @ EncodeVarint32 (of_nat (length value)) @
         drop shared key @ value)"

definition blk_bytes :: "nat \<Rightarrow> kv list \<Rightarrow> nat \<Rightarrow> byte list" where
  "blk_bytes k kvs n = concat (map (blk_entry k kvs) [0..<n])"

definition blk_off :: "nat \<Rightarrow> kv list \<Rightarrow> nat \<Rightarrow> nat" where
  "blk_off k kvs i = length (blk_bytes k kvs i)"

definition blk_nres :: "nat \<Rightarrow> nat \<Rightarrow> nat" where
  "blk_nres k n = (if n = 0 then 1 else (n - 1) div k + 1)"

lemma blk_append:
  assumes "n \<le> length kvs"
  shows "i < length kvs \<Longrightarrow> blk_entry k (kvs @ xs) i = blk_entry k kvs i" "blk_bytes k (kvs @ xs) n = blk_bytes k kvs n"
    "blk_off k (kvs @ xs) n = blk_off k kvs n"
proof -
  show *: "blk_entry k (kvs @ xs) i = blk_entry k kvs i" if "i < length kvs" for i
    using that by (simp add: blk_entry_def blk_shared_def nth_append)
  show "blk_bytes k (kvs @ xs) n = blk_bytes k kvs n" unfolding blk_bytes_def
    by (intro arg_cong [of _ _ concat] map_cong) (use * assms in auto)
  then show "blk_off k (kvs @ xs) n = blk_off k kvs n" by (simp add: blk_off_def)
qed

lemma shared_prefix_take: "take (shared_prefix xs ys) xs = take (shared_prefix xs ys) ys"
  by (induction xs ys rule: shared_prefix.induct) simp_all

lemma shared_prefix_le: "shared_prefix xs ys \<le> length xs" "shared_prefix xs ys \<le> length ys"
  by (induction xs ys rule: shared_prefix.induct) simp_all

definition build_block :: "nat \<Rightarrow> kv list \<Rightarrow> block_builder" where
  "build_block k kvs = fold (\<lambda>(key, value). Block_Add k key value) kvs new_BlockBuilder"

lemma blk_nres_less: "0 < k \<Longrightarrow> r < blk_nres k n \<Longrightarrow> r * k \<le> n" "0 < k \<Longrightarrow> 0 < n \<Longrightarrow> r < blk_nres k n \<Longrightarrow> r * k < n"
proof -
  assume k: "0 < k"
  show less: "r * k < n" if "0 < n" "r < blk_nres k n"
  proof -
    have "r * k \<le> (n - 1) div k * k" using that by (intro mult_le_mono1) (simp add: blk_nres_def)
    also have "\<dots> \<le> n - 1" by (simp add: div_times_less_eq_dividend)
    finally show ?thesis using that(1) by simp
  qed
  show "r * k \<le> n" if "r < blk_nres k n" using that less k by (cases "n = 0") (auto simp: blk_nres_def)
qed

lemma blk_nres_Suc:
  assumes "0 < k"
  shows "blk_nres k (Suc n) = (if n mod k = 0 \<and> n \<noteq> 0 then Suc (blk_nres k n) else blk_nres k n)"
    "n mod k = 0 \<Longrightarrow> n \<noteq> 0 \<Longrightarrow> blk_nres k n * k = n"
proof -
  show "blk_nres k (Suc n) = (if n mod k = 0 \<and> n \<noteq> 0 then Suc (blk_nres k n) else blk_nres k n)"
    by (cases n) (simp_all add: blk_nres_def div_Suc)
  show "blk_nres k n * k = n" if "n mod k = 0" "n \<noteq> 0"
  proof -
    have "blk_nres k n = n div k" using that by (cases n) (simp_all add: blk_nres_def div_Suc)
    then show ?thesis using that(1) by (simp add: mod_0_imp_dvd)
  qed
qed

lemma build_block_state:
  assumes "0 < k"
  shows "build_block k kvs = \<lparr>bb_buffer = blk_bytes k kvs (length kvs),
    bb_restarts = map (\<lambda>r. of_nat (blk_off k kvs (r * k))) [0..<blk_nres k (length kvs)],
    bb_counter = (if kvs = [] then 0 else (length kvs - 1) mod k + 1), bb_finished = False,
    bb_last_key = (if kvs = [] then [] else fst (last kvs))\<rparr>"
proof (induction kvs rule: rev_induct)
  case Nil
  then show ?case by (simp add: build_block_def new_BlockBuilder_def blk_bytes_def blk_nres_def blk_off_def)
next
  case (snoc kv kvs)
  obtain key val where kv: "kv = (key, val)" by (rule prod.exhaust)
  let ?n = "length kvs"
  let ?new = "build_block k (kvs @ [kv])" and ?b = "build_block k kvs"
  have new: "?new = Block_Add k key val ?b" by (simp add: build_block_def kv)
  have restarts: "map (\<lambda>r. of_nat (blk_off k (kvs @ [kv]) (r * k))) [0..<blk_nres k ?n] = (map (\<lambda>r. of_nat (blk_off k kvs (r * k))) [0..<blk_nres k ?n] :: u32 list)"
    using blk_nres_less(1) [OF assms] by (intro map_cong) (auto simp: blk_append)
  have bytes: "blk_bytes k (kvs @ [kv]) (Suc ?n) = blk_bytes k kvs ?n @ blk_entry k (kvs @ [kv]) ?n"
    using blk_append(2) [of ?n kvs] by (simp add: blk_bytes_def)
  have entry: "blk_entry k (kvs @ [kv]) ?n = EncodeVarint32 (of_nat sh) @ EncodeVarint32 (of_nat (length key - sh)) @
      EncodeVarint32 (of_nat (length val)) @ drop sh key @ val" if "sh = blk_shared k (kvs @ [kv]) ?n" for sh
    by (simp add: blk_entry_def that kv Let_def)
  show ?case
  proof (cases "?n mod k = 0")
    case True
    then have sh: "blk_shared k (kvs @ [kv]) ?n = 0" by (simp add: blk_shared_def)
    show ?thesis
    proof (cases "kvs = []")
      case True
      then show ?thesis using assms entry [OF] bytes sh unfolding new snoc.IH
        by (simp add: Block_Add_def Let_def kv PutVarint32_def blk_nres_def blk_off_def blk_bytes_def)
    next
      case False
      then have c: "\<not> (?n - 1) mod k + 1 < k" using \<open>?n mod k = 0\<close> mod_Suc [of "?n - 1" k] assms by (cases "?n") (auto split: if_splits)
      have r: "blk_nres k (Suc ?n) = Suc (blk_nres k ?n)" "blk_nres k ?n * k = ?n"
        using blk_nres_Suc [OF assms, of ?n] False \<open>?n mod k = 0\<close> by simp_all
      have off: "blk_off k (kvs @ [kv]) ?n = length (blk_bytes k kvs ?n)" using blk_append(3) [of ?n kvs] by (simp add: blk_off_def)
      show ?thesis using False c entry [OF] bytes sh r restarts off \<open>?n mod k = 0\<close> unfolding new snoc.IH
        by (simp add: Block_Add_def Let_def kv PutVarint32_def)
    qed
  next
    case False
    then have ne: "kvs \<noteq> []" by auto
    then have c: "Suc ((?n - 1) mod k) < k" "?n mod k = Suc ((?n - 1) mod k)"
      using False mod_Suc [of "?n - 1" k] mod_less_divisor [OF assms, of "?n - 1"] by (auto split: if_splits)
    have sh: "blk_shared k (kvs @ [kv]) ?n = shared_prefix (fst (last kvs)) key"
      using False ne by (simp add: blk_shared_def nth_append kv last_conv_nth)
    show ?thesis using False ne c entry [OF] bytes sh restarts blk_nres_Suc(1) [OF assms, of ?n] unfolding new snoc.IH
      by (simp add: Block_Add_def Let_def kv PutVarint32_def shared_prefix_take)
  qed
qed

definition blk_restarts :: "nat \<Rightarrow> kv list \<Rightarrow> u32 list" where
  "blk_restarts k kvs = map (\<lambda>r. of_nat (blk_off k kvs (r * k))) [0..<blk_nres k (length kvs)]"

lemma blk_restarts_simps [simp]:
  "length (blk_restarts k kvs) = blk_nres k (length kvs)"
  "r < blk_nres k (length kvs) \<Longrightarrow> blk_restarts k kvs ! r = of_nat (blk_off k kvs (r * k))"
  by (simp_all add: blk_restarts_def)

definition block_contents :: "nat \<Rightarrow> kv list \<Rightarrow> byte list" where
  "block_contents k kvs = fst (Block_Finish (build_block k kvs))"

declare length_concat_Encode [simp]

lemma block_contents_eq:
  assumes "0 < k"
  shows "block_contents k kvs = blk_bytes k kvs (length kvs) @ concat (map EncodeFixed32 (blk_restarts k kvs)) @
      EncodeFixed32 (of_nat (blk_nres k (length kvs)))"
    "length (block_contents k kvs) = blk_off k kvs (length kvs) + 4 * blk_nres k (length kvs) + 4"
proof -
  have state: "bb_buffer (build_block k kvs) = blk_bytes k kvs (length kvs)" "bb_restarts (build_block k kvs) = blk_restarts k kvs"
    by (simp_all add: build_block_state [OF assms] blk_restarts_def)
  show eq: "block_contents k kvs = blk_bytes k kvs (length kvs) @ concat (map EncodeFixed32 (blk_restarts k kvs)) @
      EncodeFixed32 (of_nat (blk_nres k (length kvs)))"
    by (simp add: block_contents_def Block_Finish_def state fold_PutFixed32 Let_def) (simp add: PutFixed32_def)
  show "length (block_contents k kvs) = blk_off k kvs (length kvs) + 4 * blk_nres k (length kvs) + 4" unfolding eq by (simp add: blk_off_def)
qed

text \<open>Offsets grow, and the entry at an offset is followed by the rest of the block.\<close>

lemma blk_off_Suc: "blk_off k kvs (Suc i) = blk_off k kvs i + length (blk_entry k kvs i)"
  by (simp add: blk_off_def blk_bytes_def)

lemma EncodeVarint32_not_Nil [simp]: "EncodeVarint32 v \<noteq> []"
  by (simp add: EncodeVarint32_def)

lemma blk_entry_pos: "0 < length (blk_entry k kvs i)"
  by (simp add: blk_entry_def Let_def split: prod.split)

lemma blk_off_mono: "i < j \<Longrightarrow> blk_off k kvs i < blk_off k kvs j"
proof (induction j)
  case (Suc j)
  then show ?case using blk_entry_pos [of k kvs j] blk_off_Suc [of k kvs j] by (cases "i = j") auto
qed simp

lemma blk_off_le: "i \<le> j \<Longrightarrow> blk_off k kvs i \<le> blk_off k kvs j"
  using blk_off_mono [of i j k kvs] by (cases "i = j") simp_all

lemma blk_off_less_iff: "blk_off k kvs i < blk_off k kvs j \<longleftrightarrow> i < j"
  using blk_off_mono [of i j k kvs] blk_off_le [of j i k kvs] by (cases "i < j") auto

lemma blk_off_le_iff: "blk_off k kvs i \<le> blk_off k kvs j \<longleftrightarrow> i \<le> j"
  using blk_off_less_iff [of k kvs j i] by (simp add: not_less [symmetric])

lemma blk_drop:
  assumes "i < length kvs"
  shows "drop (blk_off k kvs i) (blk_bytes k kvs (length kvs)) = blk_entry k kvs i @ drop (blk_off k kvs (Suc i)) (blk_bytes k kvs (length kvs))"
proof -
  have "blk_bytes k kvs (length kvs) = blk_bytes k kvs i @ blk_entry k kvs i @ concat (map (blk_entry k kvs) [Suc i..<length kvs])"
  proof -
    have "[0..<length kvs] = [0..<i] @ i # [Suc i..<length kvs]" using assms upt_add_eq_append [of 0 i "length kvs - i"] by (simp add: upt_conv_Cons)
    then show ?thesis unfolding blk_bytes_def by simp
  qed
  then show ?thesis by (simp add: blk_off_Suc) (simp add: blk_off_def)
qed

section \<open>Reading a block that was built\<close>

text \<open>An iterator on the block.\<close>

definition on_block :: "nat \<Rightarrow> kv list \<Rightarrow> block_iter \<Rightarrow> bool" where
  "on_block k kvs it \<longleftrightarrow> bi_data it = block_contents k kvs \<and> bi_restarts it = blk_off k kvs (length kvs)
     \<and> bi_num_restarts it = blk_nres k (length kvs) \<and> bi_status it = OK"

lemma open_block:
  assumes "0 < k" "length (block_contents k kvs) < 2 ^ 32"
  shows "\<exists>it. Block_NewIterator (new_Block (block_contents k kvs)) = BlockIterator it \<and> on_block k kvs it \<and> \<not> BlockIter_Valid it"
proof -
  let ?c = "block_contents k kvs" and ?n = "length kvs"
  have len: "length ?c = blk_off k kvs ?n + 4 * blk_nres k ?n + 4" by (rule block_contents_eq(2) [OF assms(1)])
  have "drop (length ?c - 4) ?c = EncodeFixed32 (of_nat (blk_nres k ?n))"
    unfolding len by (simp add: block_contents_eq(1) [OF assms(1)] blk_off_def)
  then have num: "NumRestarts ?c (length ?c) = blk_nres k ?n"
    using DecodeFixed32_Encode [of "of_nat (blk_nres k ?n)" "[]"] assms(2) len by (simp add: NumRestarts_def unat_of_nat_32)
  have pos: "0 < blk_nres k ?n" by (simp add: blk_nres_def)
  have "new_Block ?c = \<lparr>bk_data = ?c, bk_size = length ?c, bk_restart_offset = blk_off k kvs ?n\<rparr>"
    using num len by (simp add: new_Block_def Let_def)
  then show ?thesis using num pos len
    by (simp add: Block_NewIterator_def Let_def on_block_def new_block_iter_def BlockIter_Valid_def)
qed

lemma restart_point:
  assumes "0 < k" "length (block_contents k kvs) < 2 ^ 32" "on_block k kvs it" "r < blk_nres k (length kvs)"
  shows "GetRestartPoint it r = blk_off k kvs (r * k)"
proof -
  have "drop (blk_off k kvs (length kvs) + r * 4) (block_contents k kvs) =
      drop (r * 4) (concat (map EncodeFixed32 (blk_restarts k kvs)) @ EncodeFixed32 (of_nat (blk_nres k (length kvs))))"
    by (simp add: block_contents_eq(1) [OF assms(1)] blk_off_def)
  then have "DecodeFixed32 (drop (blk_off k kvs (length kvs) + r * 4) (block_contents k kvs)) = of_nat (blk_off k kvs (r * k))"
    using DecodeFixed32_nth [of r "blk_restarts k kvs"] assms(4) by simp
  moreover have "blk_off k kvs (r * k) \<le> blk_off k kvs (length kvs)" using blk_nres_less(1) [OF assms(1,4)] by (rule blk_off_le)
  ultimately show ?thesis using assms(2,3) block_contents_eq(2) [OF assms(1), of kvs]
    by (simp add: GetRestartPoint_def on_block_def unat_of_nat_32)
qed

text \<open>The fast path decodes the same as the slow one.\<close>

lemma GetVarint32Ptr_byte: "ucast b < (128 :: u32) \<Longrightarrow> GetVarint32Ptr (b # p) = Some (ucast b, p)"
  by (simp add: GetVarint32Ptr_def ucast_and_128 word_less_nat_alt unat_ucast_up)

lemma DecodeEntry_encoded:
  assumes "unat y + unat z \<le> length t" "length t < 2 ^ 32"
  shows "DecodeEntry (EncodeVarint32 x @ EncodeVarint32 y @ EncodeVarint32 z @ t) = Some (x, y, z, t)"
proof -
  let ?p = "EncodeVarint32 x @ EncodeVarint32 y @ EncodeVarint32 z @ t"
  have ptr: "GetVarint32Ptr (EncodeVarint32 v @ r) = Some (v, r)" for v r using GetVarint32_Encode [of v r] by (simp add: GetVarint32_def)
  have fits: "\<not> of_nat (length t) < y + z"
    using assms by (simp add: word_less_nat_alt unat_of_nat_32 unat_add_no_overflow)
  have len: "1 \<le> length (EncodeVarint32 v)" for v by (simp add: Suc_le_eq)
  have n: "\<not> length ?p < 3" using len [of x] len [of y] len [of z] by simp
  have "\<exists>a b c p. xs = a # b # c # p" if "\<not> length xs < 3" for xs :: "byte list"
    using that by (cases xs; cases "tl xs"; cases "tl (tl xs)") auto
  from this [OF n] obtain a b c p where p: "?p = a # b # c # p" by blast
  show ?thesis
  proof (cases "ucast a OR ucast b OR ucast c < (128 :: u32)")
    case True
    have "ucast a < (128 :: u32)" "ucast b < (128 :: u32)" "ucast c < (128 :: u32)"
      using le_word_or2 [of "ucast a :: u32" "ucast b OR ucast c"] le_word_or1 [of "ucast b OR ucast c :: u32" "ucast a"]
        le_word_or2 [of "ucast b :: u32" "ucast c"] le_word_or1 [of "ucast c :: u32" "ucast b"] True by order+
    note fast = this [THEN GetVarint32Ptr_byte]
    have "Some (x, EncodeVarint32 y @ EncodeVarint32 z @ t) = Some (ucast a, b # c # p)" using ptr [of x "EncodeVarint32 y @ EncodeVarint32 z @ t"] fast(1) [of "b # c # p"] unfolding p by simp
    moreover from this have "Some (y, EncodeVarint32 z @ t) = Some (ucast b, c # p)" using ptr [of y "EncodeVarint32 z @ t"] fast(2) [of "c # p"] by simp
    moreover from this have "Some (z, t) = Some (ucast c, p)" using ptr [of z t] fast(3) [of p] by simp
    ultimately show ?thesis using n fits True unfolding p by (simp add: DecodeEntry_def Let_def)
  next
    case False
    moreover have "GetVarint32Ptr (a # b # c # p) = Some (x, EncodeVarint32 y @ EncodeVarint32 z @ t)"
      using ptr [of x "EncodeVarint32 y @ EncodeVarint32 z @ t"] unfolding p .
    ultimately show ?thesis using n fits ptr [of y "EncodeVarint32 z @ t"] ptr [of z t] unfolding p by (simp add: DecodeEntry_def Let_def)
  qed
qed

text \<open>The iterator at entry \<open>j\<close>, and in front of it: parsing the next key takes it there.\<close>

definition block_at :: "nat \<Rightarrow> kv list \<Rightarrow> nat \<Rightarrow> block_iter \<Rightarrow> bool" where
  "block_at k kvs j it \<longleftrightarrow> on_block k kvs it \<and> j < length kvs \<and> bi_current it = blk_off k kvs j \<and> bi_key it = fst (kvs ! j)
     \<and> bi_value it = (blk_off k kvs (Suc j) - length (snd (kvs ! j)), length (snd (kvs ! j)))
     \<and> bi_restart_index it < blk_nres k (length kvs) \<and> bi_restart_index it * k \<le> j"

definition iter_before :: "nat \<Rightarrow> kv list \<Rightarrow> nat \<Rightarrow> block_iter \<Rightarrow> bool" where
  "iter_before k kvs j it \<longleftrightarrow> on_block k kvs it \<and> j \<le> length kvs \<and> NextEntryOffset it = blk_off k kvs j
     \<and> bi_restart_index it < blk_nres k (length kvs) \<and> bi_restart_index it * k \<le> j
     \<and> (j mod k \<noteq> 0 \<longrightarrow> bi_key it = fst (kvs ! (j - 1)))"

definition block_end :: "nat \<Rightarrow> kv list \<Rightarrow> block_iter \<Rightarrow> bool" where
  "block_end k kvs it \<longleftrightarrow> on_block k kvs it \<and> bi_current it = bi_restarts it"

lemma entry_length: "length (snd (kvs ! j)) \<le> length (blk_entry k kvs j)"
  by (simp add: blk_entry_def Let_def split: prod.split)

lemma block_at_before: "block_at k kvs j it \<Longrightarrow> iter_before k kvs (Suc j) it"
  using entry_length [of kvs j k] by (auto simp: block_at_def iter_before_def NextEntryOffset_def blk_off_Suc)

lemma block_at_valid: "block_at k kvs j it \<Longrightarrow> BlockIter_Valid it"
  by (simp add: block_at_def BlockIter_Valid_def on_block_def blk_off_less_iff)

lemma block_end_invalid: "block_end k kvs it \<Longrightarrow> \<not> BlockIter_Valid it"
  by (simp add: block_end_def BlockIter_Valid_def)

lemma restart_before:
  assumes "0 < k" "length (block_contents k kvs) < 2 ^ 32" "on_block k kvs it" "r < blk_nres k (length kvs)"
  shows "iter_before k kvs (r * k) (SeekToRestartPoint r it)"
  using restart_point [OF assms] assms(3,4) blk_nres_less(1) [OF assms(1,4)]
  by (simp add: iter_before_def SeekToRestartPoint_def NextEntryOffset_def on_block_def)

lemma advance_restart_ok:
  assumes "0 < k" "length (block_contents k kvs) < 2 ^ 32" "on_block k kvs it"
  shows "r < blk_nres k (length kvs) \<Longrightarrow> r * k \<le> j \<Longrightarrow>
    advance_restart it (blk_off k kvs j) r < blk_nres k (length kvs) \<and> advance_restart it (blk_off k kvs j) r * k \<le> j"
  using assms(3)
proof (induction it "blk_off k kvs j" r rule: advance_restart.induct)
  case (1 it index)
  let ?more = "index + 1 < bi_num_restarts it \<and> GetRestartPoint it (index + 1) < blk_off k kvs j"
  have step: "advance_restart it (blk_off k kvs j) index = (if ?more then advance_restart it (blk_off k kvs j) (index + 1) else index)"
    by (rule advance_restart.simps)
  show ?case
  proof (cases ?more)
    case True
    then have n: "index + 1 < blk_nres k (length kvs)" using 1(4) by (simp add: on_block_def)
    then have "(index + 1) * k < j" using True restart_point [OF assms(1,2) 1(4) n] by (simp add: blk_off_less_iff)
    then show ?thesis using 1(1) [OF True n _ 1(4)] unfolding step if_P [OF True] by simp
  next
    case False
    show ?thesis using 1(2,3) unfolding step if_not_P [OF False] by simp
  qed
qed

lemma key_length: "length (fst (kvs ! j)) \<le> blk_off k kvs (Suc j)"
proof (induction j)
  case 0
  then show ?case by (simp add: blk_off_Suc blk_entry_def blk_shared_def Let_def split: prod.split)
next
  case (Suc j)
  have "length (fst (kvs ! Suc j)) - blk_shared k kvs (Suc j) \<le> length (blk_entry k kvs (Suc j))"
    by (simp add: blk_entry_def Let_def split: prod.split)
  moreover have "blk_shared k kvs (Suc j) \<le> length (fst (kvs ! j))" using shared_prefix_le(1) [of "fst (kvs ! j)" "fst (kvs ! Suc j)"] by (simp add: blk_shared_def)
  ultimately show ?case using Suc by (simp add: blk_off_Suc)
qed

lemma decode_at:
  assumes k: "0 < k" "length (block_contents k kvs) < 2 ^ 32" and it: "on_block k kvs it" "j < length kvs"
  defines "sh \<equiv> blk_shared k kvs j"
  shows "\<exists>y z t. DecodeEntry (drop (blk_off k kvs j) (take (bi_restarts it) (bi_data it))) = Some (of_nat sh, y, z, t)
    \<and> unat (of_nat sh :: u32) = sh \<and> unat z = length (snd (kvs ! j)) \<and> blk_off k kvs j < bi_restarts it
    \<and> take (unat y) (drop (bi_restarts it - length t) (bi_data it)) = drop sh (fst (kvs ! j))
    \<and> blk_off k kvs (Suc j) = bi_restarts it - length t + unat y + length (snd (kvs ! j))"
proof -
  obtain key val where kv: "kvs ! j = (key, val)" by (rule prod.exhaust)
  define n where "n = length kvs"
  define ns where "ns = length key - sh"
  define h where "h = EncodeVarint32 (of_nat sh) @ EncodeVarint32 (of_nat ns) @ EncodeVarint32 (of_nat (length val))"
  define t where "t = drop sh key @ val @ drop (blk_off k kvs (Suc j)) (blk_bytes k kvs n)"
  define pos where "pos = bi_restarts it - length t"
  have on: "bi_data it = block_contents k kvs" "bi_restarts it = length (blk_bytes k kvs n)"
    using it(1) by (simp_all add: on_block_def blk_off_def n_def)
  have entry: "blk_entry k kvs j = h @ drop sh key @ val" by (simp add: blk_entry_def kv Let_def h_def sh_def ns_def)
  have bytes: "drop (blk_off k kvs j) (blk_bytes k kvs n) = h @ t"
    unfolding n_def blk_drop [OF it(2)] entry by (simp add: t_def n_def)
  have lt: "blk_off k kvs j < bi_restarts it" using blk_off_mono [OF it(2), of k kvs] on(2) by (simp add: blk_off_def n_def)
  have small: "bi_restarts it < 2 ^ 32" using k(2) on(2) block_contents_eq(2) [OF k(1), of kvs] by (simp add: blk_off_def n_def)
  have total: "bi_restarts it = blk_off k kvs j + length h + length t"
  proof -
    have "bi_restarts it - blk_off k kvs j = length (h @ t)" unfolding bytes [symmetric] on(2) by simp
    then show ?thesis using lt by simp
  qed
  have sh: "sh \<le> length key" using shared_prefix_le(2) [of "fst (kvs ! (j - 1))" key] by (simp add: blk_shared_def kv sh_def)
  have "blk_off k kvs (Suc j) \<le> bi_restarts it" using blk_off_le [of "Suc j" n k kvs] it(2) on(2) by (simp add: blk_off_def n_def)
  then have "length key < 2 ^ 32" using key_length [of kvs j k] small kv by simp
  moreover have "length t < 2 ^ 32" "ns + length val \<le> length t" using total small by (simp_all add: t_def ns_def)
  ultimately have lens: "unat (of_nat sh :: u32) = sh" "unat (of_nat ns :: u32) = ns" "unat (of_nat (length val) :: u32) = length val"
    using sh by (simp_all add: unat_of_nat_32)
  have "take (bi_restarts it) (bi_data it) = blk_bytes k kvs n" unfolding on by (simp add: block_contents_eq(1) [OF k(1)] n_def)
  moreover have "DecodeEntry (h @ t) = Some (of_nat sh, of_nat ns, of_nat (length val), t)"
    using DecodeEntry_encoded [of "of_nat ns" "of_nat (length val)" t "of_nat sh"] lens \<open>length t < 2 ^ 32\<close> \<open>ns + length val \<le> length t\<close> by (simp add: h_def)
  ultimately have "DecodeEntry (drop (blk_off k kvs j) (take (bi_restarts it) (bi_data it))) = Some (of_nat sh, of_nat ns, of_nat (length val), t)"
    using bytes by simp
  moreover have "take ns (drop pos (bi_data it)) = drop sh key"
  proof -
    have p: "pos = blk_off k kvs j + length h" using total by (simp add: pos_def)
    have "drop pos (blk_bytes k kvs n) = t" unfolding p using bytes by (metis append_eq_conv_conj drop_drop add.commute)
    moreover have "pos \<le> length (blk_bytes k kvs n)" using on(2) by (simp add: pos_def)
    ultimately have "drop pos (bi_data it) = t @ drop (length (blk_bytes k kvs n)) (bi_data it)"
      unfolding on(1) block_contents_eq(1) [OF k(1)] by (simp add: n_def)
    then show ?thesis by (simp add: t_def ns_def)
  qed
  moreover have "blk_off k kvs (Suc j) = pos + ns + length val" using total by (simp add: blk_off_Suc entry ns_def pos_def)
  ultimately show ?thesis using lens lt kv by (intro exI [of _ "of_nat ns"] exI [of _ "of_nat (length val)"] exI [of _ t]) (simp add: pos_def)
qed

lemma parse_entry:
  assumes k: "0 < k" "length (block_contents k kvs) < 2 ^ 32" and it: "iter_before k kvs j it" "j < length kvs"
  shows "\<exists>it'. ParseNextKey it = (True, it') \<and> block_at k kvs j it'"
proof -
  obtain key val where kv: "kvs ! j = (key, val)" by (rule prod.exhaust)
  define sh where "sh = blk_shared k kvs j"
  have on: "on_block k kvs it" "NextEntryOffset it = blk_off k kvs j" using it(1) by (simp_all add: iter_before_def)
  from decode_at [OF k on(1) it(2)] kv obtain y z t where
    d: "DecodeEntry (drop (blk_off k kvs j) (take (bi_restarts it) (bi_data it))) = Some (of_nat sh, y, z, t)" "unat (of_nat sh :: u32) = sh"
      "unat z = length val" "blk_off k kvs j < bi_restarts it" "take (unat y) (drop (bi_restarts it - length t) (bi_data it)) = drop sh key"
      "blk_off k kvs (Suc j) = bi_restarts it - length t + unat y + length val"
    unfolding sh_def [symmetric] by auto
  have "sh = 0 \<or> bi_key it = fst (kvs ! (j - 1)) \<and> sh = shared_prefix (bi_key it) key"
    using it(1) by (auto simp: blk_shared_def iter_before_def kv sh_def)
  then have prefix: "sh \<le> length (bi_key it)" "take sh (bi_key it) @ drop sh key = key"
    using shared_prefix_le(1) [of "bi_key it" key] shared_prefix_take [of "bi_key it" key] by (auto simp: append_take_drop_id)
  define it' where "it' = it\<lparr>bi_current := blk_off k kvs j, bi_key := key, bi_value := (bi_restarts it - length t + unat y, length val),
    bi_restart_index := advance_restart (it\<lparr>bi_current := blk_off k kvs j\<rparr>) (blk_off k kvs j) (bi_restart_index it)\<rparr>"
  have "ParseNextKey it = (True, it')"
    using d prefix unfolding ParseNextKey_def Let_def on(2) it'_def by simp
  moreover have "on_block k kvs (it\<lparr>bi_current := blk_off k kvs j\<rparr>)" using on(1) by (simp add: on_block_def)
  from advance_restart_ok [OF k this, of "bi_restart_index it" j] it
  have "block_at k kvs j it'" using d(6) kv by (simp add: block_at_def iter_before_def it'_def on_block_def)
  ultimately show ?thesis by blast
qed

lemma parse_end:
  assumes "iter_before k kvs (length kvs) it"
  shows "\<exists>it'. ParseNextKey it = (False, it') \<and> block_end k kvs it'"
  using assms by (simp add: ParseNextKey_def Let_def iter_before_def block_end_def on_block_def)

lemma skip_until_at:
  assumes k: "0 < k" "length (block_contents k kvs) < 2 ^ 32"
  shows "iter_before k kvs j it \<Longrightarrow> j < m \<Longrightarrow> m \<le> length kvs \<Longrightarrow> block_at k kvs (m - 1) (skip_until (blk_off k kvs m) it)"
proof (induction "m - j" arbitrary: j it)
  case (Suc d)
  from parse_entry [OF k Suc(3)] Suc(4,5) obtain it' where it': "ParseNextKey it = (True, it')" "block_at k kvs j it'" by auto
  from block_at_before [OF it'(2)] have before: "iter_before k kvs (Suc j) it'" .
  then have next_off: "NextEntryOffset it' = blk_off k kvs (Suc j)" by (simp add: iter_before_def)
  show ?case
  proof (cases "Suc j < m")
    case True
    then have "block_at k kvs (m - 1) (skip_until (blk_off k kvs m) it')" using Suc(1) [of "Suc j" it'] Suc(2,5) before by simp
    then show ?thesis using it'(1) True next_off by (subst skip_until.simps) (simp add: blk_off_less_iff)
  next
    case False
    then have "m = Suc j" using Suc(4) by simp
    then show ?thesis using it' next_off by (subst skip_until.simps) simp
  qed
qed simp

lemma prev_restart_before:
  assumes k: "0 < k" "length (block_contents k kvs) < 2 ^ 32" and it: "on_block k kvs it" "0 < j"
  shows "r < blk_nres k (length kvs) \<Longrightarrow> r * k \<le> j \<Longrightarrow>
    \<exists>r'. prev_restart it (blk_off k kvs j) r = Some r' \<and> r' < blk_nres k (length kvs) \<and> r' * k < j"
proof (induction r)
  case 0
  then show ?case using restart_point [OF k it(1) 0(1)] it(2) by (simp add: not_le blk_off_less_iff)
next
  case (Suc r)
  show ?case
  proof (cases "Suc r * k < j")
    case True
    then show ?thesis using restart_point [OF k it(1) Suc.prems(1)] Suc.prems(1) by (simp add: blk_off_le_iff del: mult_Suc)
  next
    case False
    then have "r * k \<le> j" using Suc.prems by simp
    then show ?thesis using Suc False restart_point [OF k it(1) Suc.prems(1)] by (simp add: blk_off_le del: mult_Suc)
  qed
qed

text \<open>The moves of the iterator.\<close>

lemma block_moves:
  assumes k: "0 < k" "length (block_contents k kvs) < 2 ^ 32"
  shows "block_at k kvs j it \<Longrightarrow> Suc j < length kvs \<Longrightarrow> block_at k kvs (Suc j) (BlockIter_Next it)"
    "block_at k kvs j it \<Longrightarrow> Suc j = length kvs \<Longrightarrow> block_end k kvs (BlockIter_Next it)"
    "block_at k kvs j it \<Longrightarrow> 0 < j \<Longrightarrow> block_at k kvs (j - 1) (BlockIter_Prev it)"
    "block_at k kvs 0 it \<Longrightarrow> block_end k kvs (BlockIter_Prev it)"
    "on_block k kvs it \<Longrightarrow> kvs \<noteq> [] \<Longrightarrow> block_at k kvs 0 (BlockIter_SeekToFirst it)"
    "on_block k kvs it \<Longrightarrow> kvs \<noteq> [] \<Longrightarrow> block_at k kvs (length kvs - 1) (BlockIter_SeekToLast it)"
    "on_block k kvs it \<Longrightarrow> kvs = [] \<Longrightarrow> block_end k kvs (BlockIter_SeekToFirst it) \<and> block_end k kvs (BlockIter_SeekToLast it)"
proof -
  have pos: "0 < blk_nres k (length kvs)" by (simp add: blk_nres_def)
  show "block_at k kvs (Suc j) (BlockIter_Next it)" if "block_at k kvs j it" "Suc j < length kvs"
    using parse_entry [OF k block_at_before [OF that(1)] that(2)] by (auto simp: BlockIter_Next_def)
  show "block_end k kvs (BlockIter_Next it)" if "block_at k kvs j it" "Suc j = length kvs"
    using parse_end [of k kvs it] block_at_before [OF that(1)] that(2) by (auto simp: BlockIter_Next_def)
  show "block_at k kvs (j - 1) (BlockIter_Prev it)" if at: "block_at k kvs j it" and "0 < j"
  proof -
    have at': "on_block k kvs it" "j < length kvs" "bi_current it = blk_off k kvs j" "bi_restart_index it < blk_nres k (length kvs)" "bi_restart_index it * k \<le> j"
      using at by (simp_all add: block_at_def)
    from prev_restart_before [OF k at'(1) \<open>0 < j\<close> at'(4,5)] obtain r where
      r: "prev_restart it (blk_off k kvs j) (bi_restart_index it) = Some r" "r < blk_nres k (length kvs)" "r * k < j" by blast
    from skip_until_at [OF k restart_before [OF k at'(1) r(2)] r(3)] at'(2) show ?thesis using r(1) at'(3) by (simp add: BlockIter_Prev_def Let_def)
  qed
  show "block_end k kvs (BlockIter_Prev it)" if at: "block_at k kvs 0 it"
  proof -
    have "on_block k kvs it" "bi_restart_index it = 0" "bi_current it = blk_off k kvs 0" using at k(1) by (simp_all add: block_at_def)
    then show ?thesis using restart_point [OF k _ pos, of it] by (simp add: BlockIter_Prev_def Let_def block_end_def on_block_def)
  qed
  have first: "iter_before k kvs 0 (SeekToRestartPoint 0 it)" if "on_block k kvs it" for it using restart_before [OF k that pos] by simp
  show "block_at k kvs 0 (BlockIter_SeekToFirst it)" if "on_block k kvs it" "kvs \<noteq> []"
    using parse_entry [OF k first [OF that(1)]] that(2) by (auto simp: BlockIter_SeekToFirst_def)
  have last: "iter_before k kvs ((blk_nres k (length kvs) - 1) * k) (SeekToRestartPoint (bi_num_restarts it - 1) it)" if "on_block k kvs it" for it
    using restart_before [OF k that, of "blk_nres k (length kvs) - 1"] pos that by (simp add: on_block_def)
  show "block_at k kvs (length kvs - 1) (BlockIter_SeekToLast it)" if "on_block k kvs it" "kvs \<noteq> []"
    using skip_until_at [OF k last [OF that(1)], of "length kvs"] blk_nres_less(2) [OF k(1), of "length kvs" "blk_nres k (length kvs) - 1"] pos that
    by (simp add: BlockIter_SeekToLast_def on_block_def)
  show "block_end k kvs (BlockIter_SeekToFirst it) \<and> block_end k kvs (BlockIter_SeekToLast it)" if "on_block k kvs it" "kvs = []"
  proof -
    have b: "iter_before k kvs (length kvs) (SeekToRestartPoint 0 it)" using first [OF that(1)] that(2) by simp
    from parse_end [OF b] obtain it' where it': "ParseNextKey (SeekToRestartPoint 0 it) = (False, it')" "block_end k kvs it'" by blast
    moreover have "bi_num_restarts it = 1" using that by (simp add: on_block_def blk_nres_def)
    ultimately show ?thesis by (simp add: BlockIter_SeekToFirst_def BlockIter_SeekToLast_def skip_until.simps)
  qed
qed

section \<open>Searching\<close>

context key_order
begin

definition sorted_kvs :: "('k \<times> 'v) list \<Rightarrow> bool" where
  "sorted_kvs kvs \<longleftrightarrow> sorted_wrt (\<lambda>x y. compare (fst x) (fst y) < 0) kvs \<and> (\<forall>x \<in> set kvs. valid (fst x))"

text \<open>How many keys are below the target; they come first.\<close>

definition below :: "'k \<Rightarrow> ('k \<times> 'v) list \<Rightarrow> nat" where
  "below target kvs = length (takeWhile (\<lambda>x. compare (fst x) target < 0) kvs)"

lemma below_le: "below target kvs \<le> length kvs"
  by (simp add: below_def length_takeWhile_le)

lemma below_iff:
  assumes "sorted_kvs kvs" "valid target" "j < length kvs"
  shows "compare (fst (kvs ! j)) target < 0 \<longleftrightarrow> j < below target kvs"
proof
  assume less: "compare (fst (kvs ! j)) target < 0"
  show "j < below target kvs"
  proof (rule ccontr)
    assume "\<not> j < below target kvs"
    then have b: "below target kvs \<le> j" "below target kvs < length kvs" using assms(3) by simp_all
    then have "\<not> compare (fst (kvs ! below target kvs)) target < 0"
      using nth_length_takeWhile [of "\<lambda>x. compare (fst x) target < 0" kvs] by (simp add: below_def)
    moreover have "compare (fst (kvs ! below target kvs)) target < 0"
    proof (cases "below target kvs = j")
      case False
      then have "compare (fst (kvs ! below target kvs)) (fst (kvs ! j)) < 0" using assms(1,3) b by (simp add: sorted_kvs_def sorted_wrt_iff_nth_less)
      moreover have "valid (fst (kvs ! below target kvs))" "valid (fst (kvs ! j))" using assms(1,3) b by (simp_all add: sorted_kvs_def)
      ultimately show ?thesis using less assms(2) less_le_trans by (metis order_less_imp_le)
    qed (use less in simp)
    ultimately show False by simp
  qed
next
  assume "j < below target kvs"
  then show "compare (fst (kvs ! j)) target < 0" using nth_mem takeWhile_nth set_takeWhileD unfolding below_def by metis
qed

end

lemma bisect_ok:
  assumes order: "key_order compare valid" "key_order.sorted_kvs compare valid kvs" "valid target"
    and k: "0 < k" "length (block_contents k kvs) < 2 ^ 32" and it: "on_block k kvs it" "kvs \<noteq> []"
  defines "b \<equiv> key_order.below compare target kvs"
  shows "right < blk_nres k (length kvs) \<Longrightarrow> left \<le> right \<Longrightarrow> left = 0 \<or> left * k < b \<Longrightarrow>
    \<exists>l. bisect compare target it left right = Some l \<and> l < blk_nres k (length kvs) \<and> (l = 0 \<or> l * k < b)"
proof (induction "right - left" arbitrary: left right rule: less_induct)
  case less
  show ?case
  proof (cases "left < right")
    case True
    define mid where "mid = (left + right + 1) div 2"
    have mid: "left < mid" "mid \<le> right" "mid < blk_nres k (length kvs)" using True less.prems(1) by (auto simp: mid_def)
    have j: "mid * k < length kvs" using blk_nres_less(2) [OF k(1) _ mid(3)] it(2) by simp
    have sh: "blk_shared k kvs (mid * k) = 0" by (simp add: blk_shared_def)
    from decode_at [OF k it(1) j] sh obtain y z t where
      d: "DecodeEntry (drop (blk_off k kvs (mid * k)) (take (bi_restarts it) (bi_data it))) = Some (0, y, z, t)"
        "take (unat y) (drop (bi_restarts it - length t) (bi_data it)) = fst (kvs ! (mid * k))" by auto
    have less_iff: "compare (fst (kvs ! (mid * k))) target < 0 \<longleftrightarrow> mid * k < b"
      unfolding b_def by (rule key_order.below_iff [OF order j])
    have step: "bisect compare target it left right =
        (if mid * k < b then bisect compare target it mid right else bisect compare target it left (mid - 1))"
      unfolding bisect.simps [of compare target it left right] Let_def mid_def [symmetric]
      using True d restart_point [OF k it(1) mid(3)] less_iff by simp
    show ?thesis
    proof (cases "mid * k < b")
      case True
      have "right - mid < right - left" using mid by simp
      from less.hyps [OF this less.prems(1) mid(2)] True show ?thesis unfolding step by simp
    next
      case False
      have "mid - 1 - left < right - left" "mid - 1 < blk_nres k (length kvs)" "left \<le> mid - 1" using mid \<open>left < right\<close> by simp_all
      from less.hyps [OF this less.prems(3)] False show ?thesis unfolding step by simp
    qed
  next
    case False
    then show ?thesis using less.prems by (subst bisect.simps) simp
  qed
qed

lemma scan_to_ok:
  assumes order: "key_order compare valid" "key_order.sorted_kvs compare valid kvs" "valid target"
    and k: "0 < k" "length (block_contents k kvs) < 2 ^ 32"
  defines "b \<equiv> key_order.below compare target kvs"
  shows "iter_before k kvs j it \<Longrightarrow> j \<le> b \<Longrightarrow>
    (if b < length kvs then block_at k kvs b (scan_to compare target it) else block_end k kvs (scan_to compare target it))"
proof (induction "b - j" arbitrary: j it rule: less_induct)
  case less
  have bn: "b \<le> length kvs" unfolding b_def by (rule key_order.below_le [OF order(1)])
  show ?case
  proof (cases "j < length kvs")
    case True
    from parse_entry [OF k less.prems(1) True] obtain it' where it': "ParseNextKey it = (True, it')" "block_at k kvs j it'" by blast
    have "compare (bi_key it') target < 0 \<longleftrightarrow> j < b"
      using key_order.below_iff [OF order True] it'(2) by (simp add: b_def block_at_def)
    then have step: "scan_to compare target it = (if j < b then scan_to compare target it' else it')"
      using it'(1) by (subst scan_to.simps) auto
    show ?thesis
    proof (cases "j < b")
      case True
      have "b - Suc j < b - j" "Suc j \<le> b" using True by simp_all
      from less.hyps [OF this(1) block_at_before [OF it'(2)] this(2)] True show ?thesis unfolding step by simp
    next
      case False
      then show ?thesis using it'(2) less.prems(2) \<open>j < length kvs\<close> unfolding step by simp
    qed
  next
    case False
    then have j: "j = length kvs" "b = length kvs" using less.prems(2) bn by simp_all
    from parse_end [of k kvs it] less.prems(1) j(1) obtain it' where "ParseNextKey it = (False, it')" "block_end k kvs it'" by blast
    then show ?thesis using j(2) by (subst (1 2) scan_to.simps) simp
  qed
qed

lemma block_seek:
  assumes order: "key_order compare valid" "key_order.sorted_kvs compare valid kvs" "valid target"
    and k: "0 < k" "length (block_contents k kvs) < 2 ^ 32" and it: "on_block k kvs it"
  defines "b \<equiv> key_order.below compare target kvs"
  shows "if b < length kvs then block_at k kvs b (BlockIter_Seek compare target it) else block_end k kvs (BlockIter_Seek compare target it)"
proof -
  have num: "bi_num_restarts it = blk_nres k (length kvs)" "0 < blk_nres k (length kvs)" using it by (simp_all add: on_block_def blk_nres_def)
  have "\<exists>l. bisect compare target it 0 (bi_num_restarts it - 1) = Some l \<and> l < blk_nres k (length kvs) \<and> (l = 0 \<or> l * k < b)"
  proof (cases "kvs = []")
    case True
    then show ?thesis using num by (subst bisect.simps) (simp add: blk_nres_def)
  next
    case False
    show ?thesis using bisect_ok [OF order k it False, of "bi_num_restarts it - 1" 0] num by (simp add: b_def)
  qed
  then obtain l where l: "bisect compare target it 0 (bi_num_restarts it - 1) = Some l" "l < blk_nres k (length kvs)" "l = 0 \<or> l * k < b" by blast
  have "l * k \<le> b" using l(3) by auto
  from scan_to_ok [OF order k restart_before [OF k it l(2)]] this l(1) show ?thesis by (simp add: BlockIter_Seek_def b_def)
qed

section \<open>What the iterator returns\<close>

lemma block_at_value:
  assumes "0 < k" "block_at k kvs j it"
  shows "BlockIter_value it = snd (kvs ! j)"
proof -
  obtain key val where kv: "kvs ! j = (key, val)" by (rule prod.exhaust)
  have at: "on_block k kvs it" "j < length kvs" "bi_value it = (blk_off k kvs (Suc j) - length val, length val)"
    using assms(2) kv by (simp_all add: block_at_def)
  obtain h where h: "blk_entry k kvs j = h @ val" by (simp add: blk_entry_def kv Let_def)
  let ?bytes = "blk_bytes k kvs (length kvs)" and ?o = "blk_off k kvs j + length h"
  have "drop ?o ?bytes = drop (length h) (drop (blk_off k kvs j) ?bytes)" by (simp add: add.commute)
  also have "\<dots> = val @ drop (blk_off k kvs (Suc j)) ?bytes" unfolding blk_drop [OF at(2)] h by simp
  finally have d: "drop ?o ?bytes = val @ drop (blk_off k kvs (Suc j)) ?bytes" .
  have "?o \<le> length ?bytes"
    using blk_off_le [of "Suc j" "length kvs" k kvs] at(2) h by (simp add: blk_off_Suc) (simp add: blk_off_def)
  with d have "drop ?o (block_contents k kvs) = val @ drop (blk_off k kvs (Suc j)) ?bytes @ drop (length ?bytes) (block_contents k kvs)"
    unfolding block_contents_eq(1) [OF assms(1)] by simp
  moreover have "blk_off k kvs (Suc j) - length val = ?o" by (simp add: blk_off_Suc h)
  ultimately show ?thesis using at kv by (simp add: BlockIter_value_def on_block_def)
qed

text \<open>What a client sees of an iterator: the entry, or that there is none; the status is good.\<close>

definition block_entry :: "block_iter \<Rightarrow> kv option" where
  "block_entry it = (if BlockIter_Valid it then Some (bi_key it, BlockIter_value it) else None)"

lemma block_at_entry: "0 < k \<Longrightarrow> block_at k kvs j it \<Longrightarrow> block_entry it = Some (kvs ! j) \<and> bi_status it = OK"
  using block_at_value [of k kvs j it] block_at_valid [of k kvs j it] by (simp add: block_entry_def block_at_def on_block_def)

lemma block_end_entry: "block_end k kvs it \<Longrightarrow> block_entry it = None \<and> bi_status it = OK"
  using block_end_invalid [of k kvs it] by (simp add: block_entry_def block_end_def on_block_def)

lemma block_forward:
  assumes k: "0 < k" "length (block_contents k kvs) < 2 ^ 32" and it: "on_block k kvs it"
  shows "j < length kvs \<Longrightarrow> block_at k kvs j ((BlockIter_Next ^^ j) (BlockIter_SeekToFirst it))"
    "block_end k kvs ((BlockIter_Next ^^ length kvs) (BlockIter_SeekToFirst it))"
proof -
  show at: "block_at k kvs j ((BlockIter_Next ^^ j) (BlockIter_SeekToFirst it))" if "j < length kvs" for j
    using that
  proof (induction j)
    case 0
    then show ?case using block_moves(5) [OF k it] by simp
  next
    case (Suc j)
    then show ?case using block_moves(1) [OF k, of j] by simp
  qed
  show "block_end k kvs ((BlockIter_Next ^^ length kvs) (BlockIter_SeekToFirst it))"
  proof (cases "length kvs")
    case 0
    then show ?thesis using block_moves(7) [OF k it] by simp
  next
    case (Suc n)
    then have n: "n < length kvs" "Suc n = length kvs" by simp_all
    from block_moves(2) [OF k at [OF n(1)] n(2)] show ?thesis unfolding Suc by simp
  qed
qed

lemma block_backward:
  assumes k: "0 < k" "length (block_contents k kvs) < 2 ^ 32" and it: "on_block k kvs it"
  shows "j < length kvs \<Longrightarrow> block_at k kvs (length kvs - 1 - j) ((BlockIter_Prev ^^ j) (BlockIter_SeekToLast it))"
proof (induction j)
  case 0
  then show ?case using block_moves(6) [OF k it] by auto
next
  case (Suc j)
  then have "block_at k kvs (length kvs - 1 - j) ((BlockIter_Prev ^^ j) (BlockIter_SeekToLast it))" by simp
  from block_moves(3) [OF k this] Suc.prems have "block_at k kvs (length kvs - 1 - j - 1) (BlockIter_Prev ((BlockIter_Prev ^^ j) (BlockIter_SeekToLast it)))" by simp
  moreover have "length kvs - 1 - j - 1 = length kvs - 1 - Suc j" by simp
  ultimately show ?case by simp
qed

lemma find_takeWhile: "find (\<lambda>x. \<not> P x) xs = (if length (takeWhile P xs) < length xs then Some (xs ! length (takeWhile P xs)) else None)"
  by (induction xs) simp_all

lemma block_seek_find:
  assumes order: "key_order compare valid" "key_order.sorted_kvs compare valid kvs" "valid target"
    and k: "0 < k" "length (block_contents k kvs) < 2 ^ 32" and it: "on_block k kvs it"
  shows "block_entry (BlockIter_Seek compare target it) = find (\<lambda>x. \<not> compare (fst x) target < 0) kvs \<and> bi_status (BlockIter_Seek compare target it) = OK"
proof -
  define b where "b = key_order.below compare target kvs"
  have "find (\<lambda>x. \<not> compare (fst x) target < 0) kvs = (if b < length kvs then Some (kvs ! b) else None)"
    unfolding b_def key_order.below_def [OF order(1)] find_takeWhile by (rule HOL.refl)
  then show ?thesis using block_seek [OF order k it] block_at_entry [OF k(1)] block_end_entry by (cases "b < length kvs") (simp_all add: b_def)
qed

text \<open>A bound on the size of a block.\<close>

lemma block_size:
  assumes "0 < k"
  shows "length (block_contents k kvs) \<le> sum_list (map (\<lambda>(x, y). 15 + length x + length y) kvs) + 4 * length kvs + 8"
proof -
  have entry: "length (blk_entry k kvs i) \<le> (case kvs ! i of (x, y) \<Rightarrow> 15 + length x + length y)" for i
  proof -
    obtain x y where xy: "kvs ! i = (x, y)" by (rule prod.exhaust)
    define s where "s = blk_shared k kvs i"
    define e where "e v = length (EncodeVarint32 v)" for v :: u32
    have e: "e v \<le> 5" for v using length_EncodeVarint(1) [of v] by (simp add: e_def)
    have "length (blk_entry k kvs i) = e (of_nat s) + e (of_nat (length x - s)) + e (of_nat (length y)) + (length x - s) + length y"
      unfolding blk_entry_def xy Let_def prod.case s_def [symmetric] length_append length_drop e_def by simp
    with e [of "of_nat s"] e [of "of_nat (length x - s)"] e [of "of_nat (length y)"] show ?thesis unfolding xy prod.case by linarith
  qed
  have "i \<le> length kvs \<Longrightarrow> blk_off k kvs i \<le> sum_list (map (\<lambda>(x, y). 15 + length x + length y) (take i kvs))" for i
  proof (induction i)
    case (Suc i)
    then show ?case using entry [of i] by (simp add: blk_off_Suc take_Suc_conv_app_nth)
  qed (simp add: blk_off_def blk_bytes_def)
  from this [of "length kvs"] have "blk_off k kvs (length kvs) \<le> sum_list (map (\<lambda>(x, y). 15 + length x + length y) kvs)" by simp
  moreover have "blk_nres k (length kvs) \<le> length kvs + 1" using le_trans [OF div_le_dividend diff_le_self, of "length kvs" 1 k] by (simp add: blk_nres_def)
  ultimately show ?thesis by (simp add: block_contents_eq(2) [OF assms])
qed
end
