(* ===== verification/Ldb_Log_Correct.thy ===== *)
theory Ldb_Log_Correct
  imports Ldb_Log
begin

text \<open>
  Correctness of the log: the bytes the writer appends are described by \<open>log_bytes\<close>; the reader returns the records
  from them, and from every prefix of them those that are complete, without reporting a corruption.
\<close>

section \<open>The bytes of a record\<close>

definition trailer :: "nat \<Rightarrow> byte list" where
  "trailer off = (if kBlockSize - off < kHeaderSize then replicate (kBlockSize - off) 0 else [])"

definition record_at :: "nat \<Rightarrow> nat" where
  "record_at off = (if kBlockSize - off < kHeaderSize then 0 else off)"

definition record_bytes :: "RecordType \<Rightarrow> byte list \<Rightarrow> byte list" where
  "record_bytes t d = record_header (Mask (crc32c_ref 0 (of_nat (type_code t) # d))) t (length d) @ d"

text \<open>The fragments of the data of a record that starts at offset \<open>off\<close> of a block.\<close>

definition frag_size :: "nat \<Rightarrow> byte list \<Rightarrow> nat" where
  "frag_size off data = min (length data) (kBlockSize - record_at off - kHeaderSize)"

definition next_off :: "nat \<Rightarrow> byte list \<Rightarrow> nat" where
  "next_off off d = record_at off + (kHeaderSize + length d)"

lemma record_at_le: "record_at off + kHeaderSize \<le> kBlockSize"
  by (auto simp: record_at_def log_consts)

lemma frag_size_le: "frag_size off data \<le> length data" "record_at off + (kHeaderSize + frag_size off data) \<le> kBlockSize"
  using record_at_le [of off] by (auto simp: frag_size_def)

text \<open>A fragment without data only occurs when exactly the header fits in the block; the next one then has room.\<close>

function frags :: "bool \<Rightarrow> nat \<Rightarrow> byte list \<Rightarrow> (RecordType \<times> byte list) list" where
  "frags start off data =
     (let n = frag_size off data in
      (fragment_type start (length data = n), take n data) #
        (if drop n data = [] then [] else frags False (next_off off (take n data)) (drop n data)))"
  by pat_completeness auto
termination
proof (relation "measure (\<lambda>(start, off, data). 2 * length data + (if record_at off + kHeaderSize = kBlockSize then 1 else 0))")
  fix start :: bool and off :: nat and data :: "byte list" and n
  assume n: "n = frag_size off data" "drop n data \<noteq> []"
  let ?m = "\<lambda>off. if record_at off + kHeaderSize = kBlockSize then 1 else 0 :: nat"
  have lt: "n < length data" using n(2) by simp
  then have eq: "n = kBlockSize - record_at off - kHeaderSize" using n(1) by (simp add: frag_size_def min_def split: if_splits)
  have "2 * (length data - n) + ?m (next_off off (take n data)) < 2 * length data + ?m off"
  proof (cases "n = 0")
    case True
    then have "record_at off + kHeaderSize = kBlockSize" using eq record_at_le [of off] by simp
    moreover from this have "next_off off (take n data) = kBlockSize" using True by (simp add: next_off_def)
    then have "record_at (next_off off (take n data)) = 0" by (simp add: record_at_def log_consts)
    ultimately show ?thesis using True by (simp add: log_consts)
  qed (use lt in auto)
  then show "((False, next_off off (take n data), drop n data), start, off, data) \<in> measure (\<lambda>(start, off, data). 2 * length data + (if record_at off + kHeaderSize = kBlockSize then 1 else 0))"
    by simp
qed simp

declare frags.simps [simp del]

fun emits :: "nat \<Rightarrow> (RecordType \<times> byte list) list \<Rightarrow> byte list" where
  "emits off [] = []"
| "emits off ((t, d) # fs) = trailer off @ record_bytes t d @ emits (next_off off d) fs"

fun end_off :: "nat \<Rightarrow> (RecordType \<times> byte list) list \<Rightarrow> nat" where
  "end_off off [] = off"
| "end_off off ((t, d) # fs) = end_off (next_off off d) fs"

text \<open>The bytes of a log, and the offset in the block after them.\<close>

fun log_from :: "nat \<Rightarrow> byte list list \<Rightarrow> byte list" where
  "log_from off [] = []"
| "log_from off (r # rs) = emits off (frags True off r) @ log_from (end_off off (frags True off r)) rs"

definition log_bytes :: "byte list list \<Rightarrow> byte list" where
  "log_bytes rs = log_from 0 rs"

section \<open>The writer\<close>

definition crc_ok :: "crc_env \<Rightarrow> bool" where
  "crc_ok e \<longleftrightarrow> (\<forall>f. ce_acc e = Some f \<longrightarrow> f = crc32c_ref)"

lemma crc_ok_simps: "crc_ok e \<Longrightarrow> crc_extend e crc data = crc32c_ref crc data" "crc_ok e \<Longrightarrow> crc_value e data = crc32c_ref 0 data"
  by (simp_all add: crc_ok_def crc_extend_def crc_value_def Value_def Extend_ref)

lemma type_crc: "crc_ok e \<Longrightarrow> InitTypeCrc e ! type_code t = crc32c_ref 0 [of_nat (type_code t)]"
  by (cases t) (simp_all add: InitTypeCrc_def crc_ok_simps kMaxRecordType_def del: upt_Suc)

definition writer_ok :: "crc_env \<Rightarrow> 'f log_writer \<Rightarrow> bool" where
  "writer_ok e w \<longleftrightarrow> lw_block_offset w \<le> kBlockSize \<and> lw_type_crc w = InitTypeCrc e"

lemma AddRecord_loop_step:
  assumes "switch_block app w = Some w1" "lw_block_offset w1 = record_at (lw_block_offset w)"
  shows "AddRecord_loop e app flush start data w =
    (let n = frag_size (lw_block_offset w) data in
     case EmitPhysicalRecord e app flush (fragment_type start (length data = n)) (take n data) w1 of None \<Rightarrow> None
     | Some (s, w) \<Rightarrow> if s = OK \<and> drop n data \<noteq> [] then AddRecord_loop e app flush False (drop n data) w else Some (s, w))"
proof -
  have n: "(if length data < kBlockSize - lw_block_offset w1 - kHeaderSize then length data else kBlockSize - lw_block_offset w1 - kHeaderSize)
      = frag_size (lw_block_offset w) data"
    by (simp add: frag_size_def assms(2) min_def)
  show ?thesis by (subst AddRecord_loop.simps) (simp only: assms(1) option.case Let_def n)
qed

text \<open>The writer does not check the status of padding: it relies on these short writes not to fail.\<close>

definition padding_ok :: "'f append \<Rightarrow> bool" where
  "padding_ok app \<longleftrightarrow> (\<forall>f data s f'. length data < kHeaderSize \<longrightarrow> app f data = Some (s, f') \<longrightarrow> s = OK)"

context writable_file
begin

lemma switch_block_written:
  assumes "env_ok" "padding_ok append" "switch_block append w = Some w'"
  shows "contents (lw_dest w') = contents (lw_dest w) @ trailer (lw_block_offset w)"
    "lw_block_offset w' = record_at (lw_block_offset w)" "lw_type_crc w' = lw_type_crc w"
proof -
  have pad: "contents f' = contents f @ replicate n 0" if "append f (replicate n 0) = Some (s, f')" "n < kHeaderSize" for f f' s n
  proof -
    have "s = OK" using that assms(2) unfolding padding_ok_def by (metis length_replicate)
    then show ?thesis using that append_OK [OF assms(1)] by simp
  qed
  show "contents (lw_dest w') = contents (lw_dest w) @ trailer (lw_block_offset w)"
    "lw_block_offset w' = record_at (lw_block_offset w)" "lw_type_crc w' = lw_type_crc w"
    using assms(3) pad by (auto simp: switch_block_def trailer_def record_at_def Let_def split: if_splits option.splits)
qed

lemma Emit_written:
  assumes "env_ok" "crc_ok e" "lw_type_crc w = InitTypeCrc e"
    and "EmitPhysicalRecord e append flush t d w = Some (OK, w')"
  shows "contents (lw_dest w') = contents (lw_dest w) @ record_bytes t d"
    "stored (lw_dest w') = contents (lw_dest w')"
    "lw_block_offset w' = lw_block_offset w + (kHeaderSize + length d)" "lw_type_crc w' = lw_type_crc w"
proof -
  have crc: "crc_extend e (lw_type_crc w ! type_code t) d = crc32c_ref 0 (of_nat (type_code t) # d)"
    using crc32c_ref_append [of 0 "[of_nat (type_code t)]" d] by (simp add: assms(2,3) crc_ok_simps type_crc)
  from assms(4) obtain d1 d2 d3 where
    "append (lw_dest w) (record_header (Mask (crc32c_ref 0 (of_nat (type_code t) # d))) t (length d)) = Some (OK, d1)"
    "append d1 d = Some (OK, d2)" "flush d2 = Some (OK, d3)"
    "w' = w\<lparr>lw_dest := d3, lw_block_offset := lw_block_offset w + (kHeaderSize + length d)\<rparr>"
    by (auto simp: EmitPhysicalRecord_def Let_def crc split: option.splits if_splits)
  then show "contents (lw_dest w') = contents (lw_dest w) @ record_bytes t d" "stored (lw_dest w') = contents (lw_dest w')"
    "lw_block_offset w' = lw_block_offset w + (kHeaderSize + length d)" "lw_type_crc w' = lw_type_crc w"
    using append_OK [OF assms(1)] flush_OK [OF assms(1)] by (auto simp: record_bytes_def)
qed

lemma AddRecord_loop_written:
  assumes "env_ok" "padding_ok append" "crc_ok e"
  shows "\<lbrakk>AddRecord_loop e append flush start data w = Some (OK, w'); lw_block_offset w \<le> kBlockSize; lw_type_crc w = InitTypeCrc e\<rbrakk> \<Longrightarrow>
    contents (lw_dest w') = contents (lw_dest w) @ emits (lw_block_offset w) (frags start (lw_block_offset w) data)
    \<and> stored (lw_dest w') = contents (lw_dest w') \<and> writer_ok e w'
    \<and> lw_block_offset w' = end_off (lw_block_offset w) (frags start (lw_block_offset w) data)"
proof (induction start "lw_block_offset w" data arbitrary: w rule: frags.induct)
  case (1 start data)
  let ?o = "lw_block_offset w" and ?n = "frag_size (lw_block_offset w) data"
  from 1(2) obtain w1 where w1: "switch_block append w = Some w1"
    by (subst (asm) AddRecord_loop.simps) (auto split: option.splits)
  note sw = switch_block_written [OF assms(1,2) w1]
  note step = AddRecord_loop_step [OF w1 sw(2), of e flush start data]
  from 1(2) obtain s w2 where em: "EmitPhysicalRecord e append flush (fragment_type start (length data = ?n)) (take ?n data) w1 = Some (s, w2)"
    unfolding step Let_def by (auto split: option.splits)
  have rest: "(if s = OK \<and> drop ?n data \<noteq> [] then AddRecord_loop e append flush False (drop ?n data) w2 else Some (s, w2)) = Some (OK, w')"
    using 1(2) em unfolding step Let_def by simp
  then have s: "s = OK" by (auto split: if_splits)
  note em' = Emit_written [OF assms(1,3) _ em [unfolded s]]
  have tc: "lw_type_crc w1 = InitTypeCrc e" using 1(4) sw(3) by simp
  have off: "lw_block_offset w2 = next_off ?o (take ?n data)" using em'(3) [OF tc] sw(2) by (simp add: next_off_def)
  have le: "lw_block_offset w2 \<le> kBlockSize" using off frag_size_le [of ?o data] by (simp add: next_off_def)
  show ?case
  proof (cases "drop ?n data = []")
    case True
    then have "w' = w2" using rest s by simp
    then show ?thesis using True em' [OF tc] sw off le tc
      by (simp add: frags.simps [of start] Let_def writer_ok_def)
  next
    case False
    then have "AddRecord_loop e append flush False (drop ?n data) w2 = Some (OK, w')" using rest s by simp
    from 1(1) [OF refl False off [symmetric] this le] em'(1,4) [OF tc] sw(1) tc off show ?thesis
      using False by (simp add: frags.simps [of start] Let_def)
  qed
qed


text \<open>A client that adds records as long as the status is good.\<close>

end

fun add_records :: "crc_env \<Rightarrow> 'f append \<Rightarrow> 'f flush \<Rightarrow> byte list list \<Rightarrow> 'f log_writer \<Rightarrow> (status \<times> 'f log_writer) option" where
  "add_records e app flush [] w = Some (OK, w)"
| "add_records e app flush (r # rs) w = (case AddRecord e app flush r w of None \<Rightarrow> None
     | Some (s, w) \<Rightarrow> if s = OK then add_records e app flush rs w else Some (s, w))"

context writable_file
begin

lemma add_records_written:
  assumes "env_ok" "padding_ok append" "crc_ok e"
  shows "\<lbrakk>add_records e append flush rs w = Some (OK, w'); writer_ok e w; stored (lw_dest w) = contents (lw_dest w)\<rbrakk> \<Longrightarrow>
    contents (lw_dest w') = contents (lw_dest w) @ log_from (lw_block_offset w) rs
    \<and> stored (lw_dest w') = contents (lw_dest w') \<and> writer_ok e w'"
proof (induction rs arbitrary: w)
  case (Cons r rs)
  from Cons.prems(1) obtain w1 where w1: "AddRecord_loop e append flush True r w = Some (OK, w1)" "add_records e append flush rs w1 = Some (OK, w')"
    by (auto simp: AddRecord_def split: option.splits if_splits)
  from AddRecord_loop_written [OF assms w1(1)] Cons.prems(2) have
    c: "contents (lw_dest w1) = contents (lw_dest w) @ emits (lw_block_offset w) (frags True (lw_block_offset w) r)"
      "stored (lw_dest w1) = contents (lw_dest w1)" "writer_ok e w1"
      "lw_block_offset w1 = end_off (lw_block_offset w) (frags True (lw_block_offset w) r)"
    by (auto simp: writer_ok_def)
  from Cons.IH [OF w1(2) c(3,2)] c show ?case by simp
qed simp

end

text \<open>The writer returns with a good status if the file does.\<close>

lemma AddRecord_loop_returns:
  assumes app: "\<And>f data. \<exists>f'. app f data = Some (OK, f')" and fl: "\<And>f. \<exists>f'. flush f = Some (OK, f')"
  shows "\<exists>w'. AddRecord_loop e app flush start data w = Some (OK, w')"
proof (induction start "lw_block_offset w" data arbitrary: w rule: frags.induct)
  case (1 start data)
  let ?n = "frag_size (lw_block_offset w) data"
  obtain d1 where "app (lw_dest w) (replicate (kBlockSize - lw_block_offset w) 0) = Some (OK, d1)" using app by blast
  then have "\<exists>w1. switch_block app w = Some w1 \<and> lw_block_offset w1 = record_at (lw_block_offset w)"
    by (simp add: switch_block_def record_at_def Let_def)
  then obtain w1 where w1: "switch_block app w = Some w1" "lw_block_offset w1 = record_at (lw_block_offset w)" by blast
  have "\<exists>w2. EmitPhysicalRecord e app flush t d w1 = Some (OK, w2)
      \<and> lw_block_offset w2 = lw_block_offset w1 + (kHeaderSize + length d)" for t d
  proof -
    let ?h = "record_header (Mask (crc_extend e (lw_type_crc w1 ! type_code t) d)) t (length d)"
    obtain d1 where d1: "app (lw_dest w1) ?h = Some (OK, d1)" using app by blast
    obtain d2 where d2: "app d1 d = Some (OK, d2)" using app by blast
    obtain d3 where "flush d2 = Some (OK, d3)" using fl by blast
    with d1 d2 show ?thesis by (simp add: EmitPhysicalRecord_def)
  qed
  from this [of "fragment_type start (length data = ?n)" "take ?n data"] obtain w2 where w2: "EmitPhysicalRecord e app flush (fragment_type start (length data = ?n)) (take ?n data) w1 = Some (OK, w2)"
    "lw_block_offset w2 = next_off (lw_block_offset w) (take ?n data)" by (auto simp: next_off_def w1(2))
  show ?case
  proof (cases "drop ?n data = []")
    case False
    from 1(1) [OF refl False w2(2) [symmetric]] show ?thesis
      using False w2(1) by (simp add: AddRecord_loop_step [OF w1] Let_def)
  next
    case True
    then show ?thesis using w2(1) by (simp add: AddRecord_loop_step [OF w1] Let_def)
  qed
qed

lemma add_records_returns:
  assumes "\<And>f data. \<exists>f'. app f data = Some (OK, f')" "\<And>f. \<exists>f'. flush f = Some (OK, f')"
  shows "\<exists>w'. add_records e app flush rs w = Some (OK, w')"
proof (induction rs arbitrary: w)
  case (Cons r rs)
  have "\<exists>w1. AddRecord_loop e app flush True r w = Some (OK, w1)" by (rule AddRecord_loop_returns) (rule assms)+
  then obtain w1 where "AddRecord_loop e app flush True r w = Some (OK, w1)" by blast
  then show ?case using Cons [of w1] by (simp add: AddRecord_def)
qed simp

text \<open>Adding one record, and where the log ends.\<close>

fun log_end :: "nat \<Rightarrow> byte list list \<Rightarrow> nat" where
  "log_end off [] = off"
| "log_end off (r # rs) = log_end (end_off off (frags True off r)) rs"

lemma log_from_snoc:
  "log_from off (rs @ [r]) = log_from off rs @ emits (log_end off rs) (frags True (log_end off rs) r)"
  "log_end off (rs @ [r]) = end_off (log_end off rs) (frags True (log_end off rs) r)"
  by (induction rs arbitrary: off) simp_all

section \<open>The reader\<close>

text \<open>The reader returns the records \<open>xs\<close>, then the end, and reports nothing.\<close>

primrec reads :: "crc_env \<Rightarrow> 'g fread \<Rightarrow> ('g \<Rightarrow> u64 \<Rightarrow> status \<times> 'g) \<Rightarrow> byte list list \<Rightarrow> 'g log_reader \<Rightarrow> bool" where
  "reads e read skip [] r \<longleftrightarrow> (\<exists>r'. ReadRecord e read skip r = Some (None, r') \<and> lr_reports r' = lr_reports r)"
| "reads e read skip (x # xs) r \<longleftrightarrow>
     (\<exists>r'. ReadRecord e read skip r = Some (Some x, r') \<and> lr_reports r' = lr_reports r \<and> reads e read skip xs r')"

lemma reads_read_all: "reads e read skip xs r \<Longrightarrow> \<exists>r'. read_all e read skip r = Some (xs, r') \<and> lr_reports r' = lr_reports r"
proof (induction xs arbitrary: r)
  case Nil
  then show ?case by (subst read_all.simps) auto
next
  case (Cons x xs)
  from Cons.prems obtain r1 where r1: "ReadRecord e read skip r = Some (Some x, r1)" "lr_reports r1 = lr_reports r" "reads e read skip xs r1"
    by auto
  from Cons.IH [OF r1(3)] r1(1,2) show ?case by (subst read_all.simps) auto
qed


text \<open>What the reader has still to deliver, and the offset in the block it has reached.\<close>

lemma length_record_header [simp]: "length (record_header crc t n) = kHeaderSize"
  by (simp add: record_header_def kHeaderSize_def)

lemma record_bytes_length [simp]: "length (record_bytes t d) = kHeaderSize + length d"
  by (simp add: record_bytes_def)

lemma scast_type: "(scast (of_nat (type_code t) :: byte) :: u32) = of_nat (type_code t)"
  by (cases t) simp_all

lemma header_length:
  assumes "n < 65536"
  shows "unat ((ucast (of_nat n AND 255 :: byte) :: u32) OR push_bit 8 (ucast (of_nat (n div 256) :: byte))) = n"
proof -
  have a: "(ucast (of_nat n AND 255 :: byte) :: u32) = of_nat (n mod 256)"
    by (simp add: word_unat_eq_iff unat_ucast_up unat_and_255 unat_of_nat_32 unsigned_of_nat take_bit_eq_mod)
  have b: "(ucast (of_nat (n div 256) :: byte) :: u32) = of_nat (n div 256)"
    using assms by (simp add: word_unat_eq_iff unat_ucast_up unat_of_nat_32 unat_of_nat_8 less_mult_imp_div_less)
  have "unat (of_nat (n mod 256) :: u32) < 2 ^ 8" by (simp add: unat_of_nat_32)
  from or_push_bit_add [OF this, of "of_nat (n div 256)"]
  have "(of_nat (n mod 256) :: u32) OR push_bit 8 (of_nat (n div 256)) = of_nat (n mod 256 + 2 ^ 8 * (n div 256))"
    by (simp only: push_bit_of_nat_word of_nat_add)
  also have "n mod 256 + 2 ^ 8 * (n div 256) = n" by simp
  finally have eq: "(of_nat (n mod 256) :: u32) OR push_bit 8 (of_nat (n div 256)) = of_nat n" .
  show ?thesis unfolding a b eq using unat_of_nat_32 [of n] assms by simp
qed

text \<open>The header of a record at the front of the buffer.\<close>

lemma record_bytes_fields:
  assumes "length d < 65536"
  shows "scast ((record_bytes t d @ x) ! 6) = (of_nat (type_code t) :: u32)"
    "unat ((ucast ((record_bytes t d @ x) ! 4) :: u32) OR push_bit 8 (ucast ((record_bytes t d @ x) ! 5))) = length d"
    "Unmask (DecodeFixed32 (record_bytes t d @ x)) = crc32c_ref 0 (of_nat (type_code t) # d)"
    "take (1 + length d) (drop 6 (record_bytes t d @ x)) = of_nat (type_code t) # d"
    "take (length d) (drop kHeaderSize (record_bytes t d @ x)) = d"
    "drop (kHeaderSize + length d) (record_bytes t d @ x) = x"
proof -
  show "drop (kHeaderSize + length d) (record_bytes t d @ x) = x" by (metis append_eq_conv_conj record_bytes_length)
qed (use header_length [OF assms] in \<open>simp_all add: record_bytes_def record_header_def nth_append scast_type kHeaderSize_def\<close>)


context sequential_file
begin

definition unread :: "'g log_reader \<Rightarrow> byte list" where
  "unread r = lr_buffer r @ rest (lr_file r)"

text \<open>
  The state of a reader that started at the beginning of the file, at offset \<open>off\<close> of a block: the buffer reaches to the end of the
  block unless the file ends before.
\<close>

definition reader_at :: "nat \<Rightarrow> 'g log_reader \<Rightarrow> bool" where
  "reader_at off r \<longleftrightarrow> off \<le> kBlockSize \<and> lr_initial_offset r = 0 \<and> \<not> lr_resyncing r
     \<and> (if lr_eof r then rest (lr_file r) = [] \<and> off + length (lr_buffer r) \<le> kBlockSize
        else off + length (lr_buffer r) = kBlockSize)"

text \<open>A complete record in the buffer is returned.\<close>

lemma parse_record_ok:
  assumes "crc_ok e" "t \<noteq> kZeroType" "lr_buffer r = record_bytes t d @ x" "length d < 65536" "lr_initial_offset r = 0"
  shows "parse_record e fragment r = (of_nat (type_code t), d, r\<lparr>lr_buffer := x\<rparr>)"
proof -
  have "(of_nat (type_code t) :: u32) \<noteq> 0" using assms(2) by (cases t) simp_all
  then show ?thesis
    using record_bytes_fields [OF assms(4), of t x] assms(1,3,5)
    by (simp add: parse_record_def Let_def crc_ok_simps)
qed

text \<open>A record that is cut off by the end of the file is dropped silently.\<close>

lemma parse_record_cut:
  assumes "lr_buffer r = take k (record_bytes t d)" "kHeaderSize \<le> k" "k < kHeaderSize + length d" "length d < 65536" "lr_eof r"
  shows "parse_record e fragment r = (kEof, fragment, r\<lparr>lr_buffer := []\<rparr>)"
proof -
  have "take k (record_bytes t d) ! i = record_bytes t d ! i" if "i < 7" for i using that assms(2) by (simp add: kHeaderSize_def)
  then have "unat ((ucast (lr_buffer r ! 4) :: u32) OR push_bit 8 (ucast (lr_buffer r ! 5))) = length d"
    using record_bytes_fields(2) [OF assms(4), of t "[]"] assms(1) by simp
  then show ?thesis using assms by (simp add: parse_record_def Let_def)
qed

text \<open>Filling the buffer at the end of a block.\<close>

lemma refill:
  assumes "env_ok" "reader_at off r" "\<not> lr_eof r" "length (lr_buffer r) < kHeaderSize"
  shows "\<exists>r'. ReadPhysicalRecord e read fragment r = ReadPhysicalRecord e read fragment r'
    \<and> reader_at 0 r' \<and> unread r' = rest (lr_file r) \<and> lr_reports r' = lr_reports r
    \<and> (lr_eof r' \<or> kHeaderSize \<le> length (lr_buffer r'))"
proof -
  from read_OK [OF assms(1), of "lr_file r" kBlockSize] obtain g where
    g: "read (lr_file r) kBlockSize = Some (OK, take kBlockSize (rest (lr_file r)), g)" "rest g = drop kBlockSize (rest (lr_file r))" by blast
  let ?d = "take kBlockSize (rest (lr_file r))"
  let ?r1 = "r\<lparr>lr_file := g, lr_buffer := ?d, lr_end_of_buffer_offset := lr_end_of_buffer_offset r + of_nat (length ?d)\<rparr>"
  let ?r' = "if length ?d < kBlockSize then ?r1\<lparr>lr_eof := True\<rparr> else ?r1"
  have "ReadPhysicalRecord e read fragment r = ReadPhysicalRecord e read fragment ?r'"
    using assms(3,4) g(1) by (subst ReadPhysicalRecord.simps) (simp add: Let_def)
  moreover have "reader_at 0 ?r'" using assms(2,3) g(2) by (auto simp: reader_at_def)
  moreover have "unread ?r' = rest (lr_file r)" using g(2) by (simp add: unread_def)
  moreover have "lr_eof ?r' \<or> kHeaderSize \<le> length (lr_buffer ?r')" by (auto simp: log_consts)
  ultimately show ?thesis by (intro exI [of _ ?r']) simp
qed

lemma physical_full:
  assumes "env_ok" "crc_ok e" "t \<noteq> kZeroType" "reader_at off r" "unread r = trailer off @ record_bytes t d @ later"
    and fits: "record_at off + (kHeaderSize + length d) \<le> kBlockSize"
  shows "\<exists>r'. ReadPhysicalRecord e read fragment r = Some (of_nat (type_code t), d, r')
    \<and> reader_at (next_off off d) r' \<and> unread r' = later \<and> lr_reports r' = lr_reports r"
proof -
  have d: "length d < 65536" using fits by (simp add: log_consts)
  have main: "\<exists>r'. ReadPhysicalRecord e read fragment r = Some (of_nat (type_code t), d, r')
    \<and> reader_at (off + (kHeaderSize + length d)) r' \<and> unread r' = later \<and> lr_reports r' = lr_reports r"
    if "reader_at off r" "unread r = record_bytes t d @ later" "off + (kHeaderSize + length d) \<le> kBlockSize" "lr_eof r \<or> kHeaderSize \<le> length (lr_buffer r)" for off r
  proof -
    have len: "kHeaderSize + length d \<le> length (lr_buffer r)"
    proof (cases "lr_eof r")
      case True
      then have "lr_buffer r = record_bytes t d @ later" using that(1,2) by (simp add: reader_at_def unread_def)
      then show ?thesis by simp
    qed (use that(1,3) in \<open>simp add: reader_at_def\<close>)
    define x where "x = drop (kHeaderSize + length d) (lr_buffer r)"
    have "take (kHeaderSize + length d) (lr_buffer r) = record_bytes t d"
      using len arg_cong [OF that(2), of "take (kHeaderSize + length d)"] by (simp add: unread_def)
    then have b: "lr_buffer r = record_bytes t d @ x" by (metis append_take_drop_id x_def)
    have "ReadPhysicalRecord e read fragment r = Some (parse_record e fragment r)"
      using len by (subst ReadPhysicalRecord.simps) simp
    also have "parse_record e fragment r = (of_nat (type_code t), d, r\<lparr>lr_buffer := x\<rparr>)"
      using assms(2,3) b d that(1) by (intro parse_record_ok) (simp_all add: reader_at_def)
    finally show ?thesis using that(1-3) b by (auto simp: reader_at_def unread_def)
  qed
  show ?thesis
  proof (cases "kBlockSize - off < kHeaderSize")
    case False
    moreover have "lr_eof r \<or> kHeaderSize \<le> length (lr_buffer r)" using assms(4) False by (auto simp: reader_at_def split: if_splits)
    ultimately show ?thesis using main [of off r] assms(4,5) fits by (simp add: trailer_def record_at_def next_off_def)
  next
    case True
    then have at: "record_at off = 0" "trailer off = replicate (kBlockSize - off) 0" by (simp_all add: record_at_def trailer_def)
    have e: "\<not> lr_eof r"
    proof
      assume "lr_eof r"
      then have "length (unread r) < kHeaderSize" using True assms(4) by (auto simp: reader_at_def unread_def)
      then show False using assms(5) by simp
    qed
    then have l: "length (lr_buffer r) = kBlockSize - off" using assms(4) by (auto simp: reader_at_def)
    then have "rest (lr_file r) = record_bytes t d @ later"
      using assms(5) at(2) by (simp add: unread_def append_eq_append_conv)
    moreover from refill [OF assms(1,4) e, of e fragment] l True obtain r' where
      r': "ReadPhysicalRecord e read fragment r = ReadPhysicalRecord e read fragment r'" "reader_at 0 r'"
        "unread r' = rest (lr_file r)" "lr_reports r' = lr_reports r" "lr_eof r' \<or> kHeaderSize \<le> length (lr_buffer r')" by auto
    ultimately show ?thesis using main [of 0 r'] fits at(1) by (simp add: next_off_def)
  qed
qed


lemma physical_cut:
  assumes "env_ok" "reader_at off r" "unread r = take k (trailer off @ record_bytes t d)" "k < length (trailer off @ record_bytes t d)"
    and fits: "record_at off + (kHeaderSize + length d) \<le> kBlockSize"
  shows "\<exists>r'. ReadPhysicalRecord e read fragment r = Some (kEof, fragment, r') \<and> lr_reports r' = lr_reports r \<and> \<not> lr_resyncing r'"
proof -
  have d: "length d < 65536" using fits by (simp add: log_consts)
  have main: "\<exists>r'. ReadPhysicalRecord e read fragment r = Some (kEof, fragment, r') \<and> lr_reports r' = lr_reports r \<and> \<not> lr_resyncing r'"
    if "reader_at off r" "unread r = take k (record_bytes t d)" "k < kHeaderSize + length d" "off + (kHeaderSize + length d) \<le> kBlockSize"
      "lr_eof r \<or> kHeaderSize \<le> length (lr_buffer r)" for off r k
  proof -
    have "length (unread r) < kHeaderSize + length d" using that(2,3) by simp
    then have eof: "lr_eof r" using that(1,4) by (auto simp: reader_at_def unread_def split: if_splits)
    then have b: "lr_buffer r = take k (record_bytes t d)" using that(1,2) by (simp add: reader_at_def unread_def)
    show ?thesis
    proof (cases "k < kHeaderSize")
      case True
      then show ?thesis using eof b that(1) by (subst ReadPhysicalRecord.simps) (auto simp: reader_at_def)
    next
      case False
      then have "parse_record e fragment r = (kEof, fragment, r\<lparr>lr_buffer := []\<rparr>)"
        using b that(3) d eof by (intro parse_record_cut) simp_all
      then show ?thesis using b False that(1,3) by (subst ReadPhysicalRecord.simps) (auto simp: reader_at_def)
    qed
  qed
  show ?thesis
  proof (cases "kBlockSize - off < kHeaderSize")
    case False
    moreover have "lr_eof r \<or> kHeaderSize \<le> length (lr_buffer r)" using assms(2) False by (auto simp: reader_at_def split: if_splits)
    ultimately show ?thesis using main [of off r k] assms(2-4) fits by (simp add: trailer_def record_at_def)
  next
    case True
    then have at: "record_at off = 0" "trailer off = replicate (kBlockSize - off) 0" by (simp_all add: record_at_def trailer_def)
    show ?thesis
    proof (cases "lr_eof r")
      case eof: True
      then have "length (lr_buffer r) < kHeaderSize" using True assms(2) by (auto simp: reader_at_def)
      then show ?thesis using eof assms(2) by (subst ReadPhysicalRecord.simps) (auto simp: reader_at_def)
    next
      case e: False
      then have l: "length (lr_buffer r) = kBlockSize - off" using assms(2) by (auto simp: reader_at_def)
      have "rest (lr_file r) = drop (kBlockSize - off) (unread r)" by (simp add: unread_def l)
      also have "kBlockSize - off \<le> k"
        using arg_cong [OF assms(3), of length] l by (simp add: unread_def)
      then have "drop (kBlockSize - off) (unread r) = take (k - (kBlockSize - off)) (record_bytes t d)"
        unfolding assms(3) at(2) by (simp add: drop_take)
      finally have "rest (lr_file r) = take (k - (kBlockSize - off)) (record_bytes t d)" .
      moreover have "k - (kBlockSize - off) < kHeaderSize + length d" using assms(4) by (simp add: at(2)) (simp add: kHeaderSize_def)
      moreover from refill [OF assms(1,2) e, of e fragment] l True obtain r' where
        r': "ReadPhysicalRecord e read fragment r = ReadPhysicalRecord e read fragment r'" "reader_at 0 r'"
          "unread r' = rest (lr_file r)" "lr_reports r' = lr_reports r" "lr_eof r' \<or> kHeaderSize \<le> length (lr_buffer r')" by auto
      ultimately show ?thesis using main [of 0 r' "k - (kBlockSize - off)"] fits at(1) by simp
    qed
  qed
qed

lemma fragment_type_nz: "fragment_type start fin \<noteq> kZeroType"
  by (simp add: fragment_type_def)

lemma resync_same [simp]: "\<not> lr_resyncing r \<Longrightarrow> r\<lparr>lr_resyncing := False\<rparr> = r"
  by (cases r) simp

text \<open>The rounds of \<open>ReadRecord\<close> over the fragments of one record.\<close>

lemma frags_fits: "record_at off + (kHeaderSize + length (take (frag_size off data) data)) \<le> kBlockSize"
  using frag_size_le [of off data] by simp

lemma loop_full:
  assumes "env_ok" "crc_ok e"
  shows "\<lbrakk>reader_at off r; unread r = emits off (frags start off data) @ later; start \<longrightarrow> scratch = []\<rbrakk> \<Longrightarrow>
    \<exists>r'. ReadRecord_loop e read (\<not> start) scratch prosp fragment r = Some (Some (scratch @ data), r')
      \<and> reader_at (end_off off (frags start off data)) r' \<and> unread r' = later \<and> lr_reports r' = lr_reports r"
proof (induction start off data arbitrary: r scratch prosp fragment rule: frags.induct)
  case (1 start off data)
  let ?n = "frag_size off data"
  let ?d = "take ?n data" and ?t = "fragment_type start (length data = ?n)"
  let ?rest = "if drop ?n data = [] then [] else frags False (next_off off ?d) (drop ?n data)"
  have fr: "frags start off data = (?t, ?d) # ?rest" by (simp add: frags.simps [of start off data] Let_def)
  from physical_full [OF assms fragment_type_nz 1(2) _ frags_fits] 1(3) obtain r1 where
    r1: "ReadPhysicalRecord e read fragment r = Some (of_nat (type_code ?t), ?d, r1)" "reader_at (next_off off ?d) r1"
      "unread r1 = emits (next_off off ?d) ?rest @ later" "lr_reports r1 = lr_reports r"
    unfolding fr emits.simps append.assoc by blast
  have nr: "\<not> lr_resyncing r1" using r1(2) by (simp add: reader_at_def)
  show ?case
  proof (cases "drop ?n data = []")
    case True
    then have l: "length data = ?n" "?d = data" using frag_size_le(1) [of off data] by auto
    let ?off = "lr_end_of_buffer_offset r1 - of_nat (length (lr_buffer r1)) - of_nat kHeaderSize - of_nat (length ?d)"
    have "record_round (\<not> start) scratch prosp (of_nat (type_code ?t)) ?d r1 =
        Return (Some (scratch @ data)) (r1\<lparr>lr_last_record_offset := if start then ?off else prosp\<rparr>)"
      using l nr 1(4) by (simp add: record_round_def record_switch_def fragment_type_def Let_def)
    then show ?thesis using r1 True
      by (subst ReadRecord_loop.simps) (auto simp: fr reader_at_def unread_def)
  next
    case False
    then have l: "length data \<noteq> ?n" by auto
    have "\<exists>prosp'. record_round (\<not> start) scratch prosp (of_nat (type_code ?t)) ?d r1 = Continue True (scratch @ ?d) prosp' r1"
      using l nr 1(4) by (simp add: record_round_def record_switch_def fragment_type_def Let_def)
    then obtain prosp' where rr: "record_round (\<not> start) scratch prosp (of_nat (type_code ?t)) ?d r1 = Continue True (scratch @ ?d) prosp' r1" by blast
    have "unread r1 = emits (next_off off ?d) (frags False (next_off off ?d) (drop ?n data)) @ later" using r1(3) False by simp
    from 1(1) [OF refl False r1(2) this, of "scratch @ ?d" prosp' ?d] r1(1,4) rr False
    show ?thesis by (subst ReadRecord_loop.simps) (simp add: fr)
  qed
qed

lemma loop_cut:
  assumes "env_ok" "crc_ok e"
  shows "\<lbrakk>reader_at off r; unread r = take k (emits off (frags start off data)); k < length (emits off (frags start off data)); start \<longrightarrow> scratch = []\<rbrakk> \<Longrightarrow>
    \<exists>r'. ReadRecord_loop e read (\<not> start) scratch prosp fragment r = Some (None, r') \<and> lr_reports r' = lr_reports r"
proof (induction start off data arbitrary: r k scratch prosp fragment rule: frags.induct)
  case (1 start off data)
  let ?n = "frag_size off data"
  let ?d = "take ?n data" and ?t = "fragment_type start (length data = ?n)"
  let ?rest = "if drop ?n data = [] then [] else frags False (next_off off ?d) (drop ?n data)"
  let ?b = "trailer off @ record_bytes ?t ?d"
  have fr: "frags start off data = (?t, ?d) # ?rest" by (simp add: frags.simps [of start off data] Let_def)
  have em: "emits off (frags start off data) = ?b @ emits (next_off off ?d) ?rest" by (simp add: fr)
  show ?case
  proof (cases "k < length ?b")
    case True
    then have "unread r = take k ?b" using 1(3) unfolding em by simp
    from physical_cut [OF assms(1) 1(2) this True frags_fits, of e fragment] obtain r1 where
      "ReadPhysicalRecord e read fragment r = Some (kEof, fragment, r1)" "lr_reports r1 = lr_reports r" "\<not> lr_resyncing r1" by blast
    then show ?thesis
      by (subst ReadRecord_loop.simps) (simp add: record_round_def record_switch_def kEof_def Let_def)
  next
    case False
    let ?k = "k - length ?b"
    have "unread r = ?b @ take ?k (emits (next_off off ?d) ?rest)" using 1(3) False unfolding em by simp
    with physical_full [OF assms fragment_type_nz 1(2) _ frags_fits, of start "length data = ?n" data] obtain r1 where
      r1: "ReadPhysicalRecord e read fragment r = Some (of_nat (type_code ?t), ?d, r1)" "reader_at (next_off off ?d) r1"
        "unread r1 = take ?k (emits (next_off off ?d) ?rest)" "lr_reports r1 = lr_reports r"
      unfolding append.assoc by blast
    have nr: "\<not> lr_resyncing r1" using r1(2) by (simp add: reader_at_def)
    have ne: "drop ?n data \<noteq> []" using 1(4) False unfolding em by auto
    then have l: "length data \<noteq> ?n" by auto
    have "\<exists>prosp'. record_round (\<not> start) scratch prosp (of_nat (type_code ?t)) ?d r1 = Continue True (scratch @ ?d) prosp' r1"
      using l nr 1(5) by (simp add: record_round_def record_switch_def fragment_type_def Let_def)
    then obtain prosp' where rr: "record_round (\<not> start) scratch prosp (of_nat (type_code ?t)) ?d r1 = Continue True (scratch @ ?d) prosp' r1" by blast
    have u: "unread r1 = take ?k (emits (next_off off ?d) (frags False (next_off off ?d) (drop ?n data)))" using r1(3) ne by simp
    have "?k < length (emits (next_off off ?d) (frags False (next_off off ?d) (drop ?n data)))" using 1(4) False ne unfolding em by auto
    from 1(1) [OF refl ne r1(2) u this, of "scratch @ ?d" prosp' ?d] r1(1,4) rr
    show ?thesis by (subst ReadRecord_loop.simps) simp
  qed
qed

text \<open>All records of a log that has been cut off after \<open>n\<close> bytes.\<close>

lemma reads_cut:
  assumes "env_ok" "crc_ok e"
  shows "\<lbrakk>reader_at off r; unread r = take n (log_from off rs)\<rbrakk> \<Longrightarrow>
    \<exists>k. reads e read skip (take k rs) r \<and> k \<le> length rs \<and> length (log_from off (take k rs)) \<le> n \<and> (k < length rs \<longrightarrow> n < length (log_from off (take (Suc k) rs)))"
proof (induction rs arbitrary: off r n)
  case Nil
  then have u: "unread r = take 0 (emits off (frags True off []))" by simp
  have "0 < length (emits off (frags True off []))" by (simp add: frags.simps [of True off] Let_def kHeaderSize_def)
  from loop_cut [OF assms Nil(1) u this, of "[]" 0 "[]"] obtain r' where
    "ReadRecord_loop e read False [] 0 [] r = Some (None, r')" "lr_reports r' = lr_reports r" by auto
  moreover have "lr_initial_offset r = 0" using Nil(1) by (simp add: reader_at_def)
  ultimately have "reads e read skip [] r" by (simp add: ReadRecord_def)
  then show ?case by simp
next
  case (Cons x rs)
  have i: "lr_initial_offset r = 0" using Cons.prems(1) by (simp add: reader_at_def)
  let ?b = "emits off (frags True off x)" and ?off = "end_off off (frags True off x)"
  show ?case
  proof (cases "n < length ?b")
    case True
    then have "unread r = take n ?b" using Cons.prems(2) by simp
    from loop_cut [OF assms Cons.prems(1) this True, of "[]" 0 "[]"] obtain r' where
      "ReadRecord_loop e read False [] 0 [] r = Some (None, r')" "lr_reports r' = lr_reports r" by auto
    then show ?thesis using True i by (intro exI [of _ 0]) (simp add: ReadRecord_def)
  next
    case False
    then have "unread r = ?b @ take (n - length ?b) (log_from ?off rs)" using Cons.prems(2) by simp
    from loop_full [OF assms Cons.prems(1) this, of "[]" 0 "[]"] obtain r1 where
      r1: "ReadRecord_loop e read False [] 0 [] r = Some (Some x, r1)" "reader_at ?off r1"
        "unread r1 = take (n - length ?b) (log_from ?off rs)" "lr_reports r1 = lr_reports r" by auto
    from Cons.IH [OF r1(2,3)] obtain k where
      k: "reads e read skip (take k rs) r1" "k \<le> length rs"
        "length (log_from ?off (take k rs)) \<le> n - length ?b" "k < length rs \<longrightarrow> n - length ?b < length (log_from ?off (take (Suc k) rs))" by blast
    have "reads e read skip (x # take k rs) r" using r1(1,4) i k(1) by (simp add: ReadRecord_def)
    then show ?thesis using k False by (intro exI [of _ "Suc k"]) auto
  qed
qed

lemma read_all_cut:
  assumes "env_ok" "crc_ok e" "reader_at off r" "unread r = take n (log_from off rs)"
  shows "\<exists>k r'. read_all e read skip r = Some (take k rs, r') \<and> lr_reports r' = lr_reports r
      \<and> k \<le> length rs \<and> length (log_from off (take k rs)) \<le> n \<and> (k < length rs \<longrightarrow> n < length (log_from off (take (Suc k) rs)))"
  using reads_cut [OF assms, of skip] reads_read_all by metis

lemma reader_start:
  "reader_at kBlockSize (new_Reader g reporter checksum 0)" "unread (new_Reader g reporter checksum 0) = rest g"
  by (simp_all add: new_Reader_def reader_at_def unread_def)

end

lemma block_start: "frag_size kBlockSize x = frag_size 0 x" "next_off kBlockSize d = next_off 0 d" "trailer kBlockSize = trailer 0"
  by (simp_all add: frag_size_def next_off_def record_at_def trailer_def log_consts)

lemma frags_start: "frags True kBlockSize x = frags True 0 x"
  by (subst (1 2) frags.simps) (simp only: block_start)

lemma emits_start: "emits kBlockSize fs = emits 0 fs" "fs \<noteq> [] \<Longrightarrow> end_off kBlockSize fs = end_off 0 fs"
  by (cases fs; force simp: block_start)+

lemma log_from_start: "log_from kBlockSize rs = log_bytes rs"
proof -
  have "frags True 0 x \<noteq> []" for x by (simp add: frags.simps Let_def)
  then show ?thesis by (cases rs) (simp_all add: log_bytes_def frags_start emits_start)
qed


section \<open>The reader returns on every file\<close>

lemma ReportDrop_simps [simp]:
  "lr_buffer (ReportDrop n s r) = lr_buffer r" "lr_file (ReportDrop n s r) = lr_file r" "lr_eof (ReportDrop n s r) = lr_eof r"
  by (auto simp: ReportDrop_def split: option.splits)

lemma ReportCorruption_simps [simp]:
  "lr_buffer (ReportCorruption n s r) = lr_buffer r" "lr_file (ReportCorruption n s r) = lr_file r" "lr_eof (ReportCorruption n s r) = lr_eof r"
  by (simp_all add: ReportCorruption_def)

context sequential_file
begin

lemma unread_Report [simp]: "unread (ReportCorruption n s r) = unread r" "unread (r\<lparr>lr_resyncing := b\<rparr>) = unread r"
  "unread (r\<lparr>lr_last_record_offset := o1\<rparr>) = unread r"
  by (simp_all add: unread_def)

lemma parse_record_consumes:
  assumes "kHeaderSize \<le> length (lr_buffer r)" "parse_record e fragment r = (ty, fr, r')"
  shows "length (unread r') < length (unread r)"
proof -
  have "lr_file r' = lr_file r" "length (lr_buffer r') < length (lr_buffer r)"
    using assms by (auto simp: parse_record_def Let_def kHeaderSize_def split: if_splits)
  then show ?thesis by (simp add: unread_def)
qed

lemma physical_total:
  assumes "env_ok"
  shows "\<exists>ty fr r'. ReadPhysicalRecord e read fragment r = Some (ty, fr, r') \<and> (ty = kEof \<or> length (unread r') < length (unread r))"
proof -
  have main: "\<exists>ty fr r'. ReadPhysicalRecord e read fragment r = Some (ty, fr, r') \<and> (ty = kEof \<or> length (unread r') < length (unread r))"
    if "lr_eof r \<or> kHeaderSize \<le> length (lr_buffer r)" for r
  proof (cases "kHeaderSize \<le> length (lr_buffer r)")
    case True
    obtain ty fr r' where p: "parse_record e fragment r = (ty, fr, r')" by (rule prod_cases3)
    from parse_record_consumes [OF True p] show ?thesis using True p by (subst ReadPhysicalRecord.simps) simp
  qed (use that in \<open>subst ReadPhysicalRecord.simps, simp\<close>)
  show ?thesis
  proof (cases "lr_eof r \<or> kHeaderSize \<le> length (lr_buffer r)")
    case False
    from read_OK [OF assms, of "lr_file r" kBlockSize] obtain g where
      g: "read (lr_file r) kBlockSize = Some (OK, take kBlockSize (rest (lr_file r)), g)" "rest g = drop kBlockSize (rest (lr_file r))" by blast
    let ?d = "take kBlockSize (rest (lr_file r))"
    let ?r1 = "r\<lparr>lr_file := g, lr_buffer := ?d, lr_end_of_buffer_offset := lr_end_of_buffer_offset r + of_nat (length ?d)\<rparr>"
    let ?r' = "if length ?d < kBlockSize then ?r1\<lparr>lr_eof := True\<rparr> else ?r1"
    have "ReadPhysicalRecord e read fragment r = ReadPhysicalRecord e read fragment ?r'"
      using False g(1) by (subst ReadPhysicalRecord.simps) (simp add: Let_def)
    moreover have "unread ?r' = rest (lr_file r)" using g(2) by (simp add: unread_def)
    then have "length (unread ?r') \<le> length (unread r)" by (simp add: unread_def)
    moreover have "lr_eof ?r' \<or> kHeaderSize \<le> length (lr_buffer ?r')" by (auto simp: log_consts)
    from main [OF this] obtain ty fr r2 where
      "ReadPhysicalRecord e read fragment ?r' = Some (ty, fr, r2)" "ty = kEof \<or> length (unread r2) < length (unread ?r')" by blast
    ultimately show ?thesis by (intro exI [of _ ty] exI [of _ fr] exI [of _ r2] conjI) (simp, linarith)
  qed (rule main)
qed

lemma record_round_cases:
  "(\<exists>x r'. record_round frag scratch prosp ty fragment r = Return x r') \<or>
   (ty \<noteq> kEof \<and> (\<exists>f s p r'. record_round frag scratch prosp ty fragment r = Continue f s p r' \<and> unread r' = unread r))"
  by (auto simp: record_round_def record_switch_def Let_def kEof_def)

lemma ReadRecord_loop_total:
  assumes "env_ok"
  shows "\<exists>x r'. ReadRecord_loop e read frag scratch prosp fragment r = Some (x, r')"
proof (induction "length (unread r)" arbitrary: frag scratch prosp fragment r rule: less_induct)
  case less
  from physical_total [OF assms, of e fragment r] obtain ty fr r1 where
    r1: "ReadPhysicalRecord e read fragment r = Some (ty, fr, r1)" "ty = kEof \<or> length (unread r1) < length (unread r)" by blast
  from record_round_cases [of frag scratch prosp ty fr r1] show ?case
  proof (elim disjE conjE exE)
    fix x r' assume "record_round frag scratch prosp ty fr r1 = Return x r'"
    then show ?thesis using r1(1) by (subst ReadRecord_loop.simps) simp
  next
    fix f s p r' assume c: "ty \<noteq> kEof" "record_round frag scratch prosp ty fr r1 = Continue f s p r'" "unread r' = unread r1"
    then have "length (unread r') < length (unread r)" using r1(2) by simp
    from less [OF this, of f s p fr] show ?thesis using r1(1) c(2) by (subst ReadRecord_loop.simps) simp
  qed
qed

lemma ReadRecord_total: "env_ok \<Longrightarrow> \<exists>x r'. ReadRecord e read skip r = Some (x, r')"
  using ReadRecord_loop_total by (auto simp: ReadRecord_def split: prod.splits)

end

end
