(* ===== verification/Ldb_Table_Correct.thy ===== *)
theory Ldb_Table_Correct
  imports Ldb_Table_Reader Ldb_Block_Correct Ldb_Log_Correct
begin

text \<open>
  What the builder of a table writes: the bytes of a table as a function of the entries of its data blocks, the invariant of the
  builder, and that a file for which \<open>Finish\<close> returns a good status has these bytes. Blocks are read back from a file that keeps
  the contract \<open>random_file\<close>, which mapped files do.
\<close>

section \<open>Formats\<close>

lemma BlockHandle_Decode_Encode [simp]: "BlockHandle_DecodeFrom (BlockHandle_EncodeTo h [] @ rest) = Inr (h, rest)"
  by (simp add: BlockHandle_DecodeFrom_def BlockHandle_EncodeTo_def PutVarint64_def)

lemma BlockHandle_EncodeTo_append: "BlockHandle_EncodeTo h dst = dst @ BlockHandle_EncodeTo h []"
  by (simp add: BlockHandle_EncodeTo_def PutVarint64_def)

lemma length_BlockHandle: "length (BlockHandle_EncodeTo h []) \<le> 20"
  using length_EncodeVarint(2) [of "bh_offset h"] length_EncodeVarint(2) [of "bh_size h"]
  by (simp add: BlockHandle_EncodeTo_def PutVarint64_def)

lemma Footer_bytes:
  "\<exists>pad. Footer_EncodeTo f [] = (BlockHandle_EncodeTo (ft_metaindex_handle f) [] @ BlockHandle_EncodeTo (ft_index_handle f) [] @ pad)
      @ EncodeFixed32 0x8b80fb57 @ EncodeFixed32 0xdb477524
    \<and> length (BlockHandle_EncodeTo (ft_metaindex_handle f) [] @ BlockHandle_EncodeTo (ft_index_handle f) [] @ pad) = 40"
proof -
  define enc where "enc = BlockHandle_EncodeTo (ft_metaindex_handle f) [] @ BlockHandle_EncodeTo (ft_index_handle f) []"
  have len: "length enc \<le> 40"
    using length_BlockHandle [of "ft_metaindex_handle f"] length_BlockHandle [of "ft_index_handle f"] by (simp add: enc_def)
  have magic: "(ucast (kTableMagicNumber AND 0xffffffff) :: u32) = 0x8b80fb57" "(ucast (drop_bit 32 kTableMagicNumber) :: u32) = 0xdb477524"
    unfolding kTableMagicNumber_def by code_simp+
  have "Footer_EncodeTo f [] = (enc @ replicate (40 - length enc) 0) @ EncodeFixed32 0x8b80fb57 @ EncodeFixed32 0xdb477524"
    using len BlockHandle_EncodeTo_append [of "ft_index_handle f" "BlockHandle_EncodeTo (ft_metaindex_handle f) []"]
    by (simp add: Footer_EncodeTo_def Let_def magic string_resize_def kMaxEncodedLength_def PutFixed32_def enc_def)
  with len show ?thesis by (intro exI [of _ "replicate (40 - length enc) 0"]) (simp add: enc_def)
qed

lemma Footer_roundtrip: "length (Footer_EncodeTo f []) = 48" "Footer_DecodeFrom (Footer_EncodeTo f []) = Inr (f, [])"
proof -
  obtain x pad where x: "Footer_EncodeTo f [] = x @ EncodeFixed32 0x8b80fb57 @ EncodeFixed32 0xdb477524" "length x = 40"
    and pad: "x = BlockHandle_EncodeTo (ft_metaindex_handle f) [] @ BlockHandle_EncodeTo (ft_index_handle f) [] @ pad"
    using Footer_bytes [of f] by blast
  show "length (Footer_EncodeTo f []) = 48" by (simp add: x)
  then have d48: "drop kEncodedLength (Footer_EncodeTo f []) = []" by (simp add: kEncodedLength_def kMaxEncodedLength_def)
  have d40: "drop (kEncodedLength - 8) (Footer_EncodeTo f []) = EncodeFixed32 0x8b80fb57 @ EncodeFixed32 0xdb477524"
    by (simp add: x kEncodedLength_def kMaxEncodedLength_def)
  have magic: "push_bit 32 (ucast (0xdb477524 :: u32)) OR ucast (0x8b80fb57 :: u32) = (kTableMagicNumber :: u64)"
    unfolding kTableMagicNumber_def by code_simp
  have handles: "BlockHandle_DecodeFrom (Footer_EncodeTo f []) = Inr (ft_metaindex_handle f, BlockHandle_EncodeTo (ft_index_handle f) [] @
      pad @ EncodeFixed32 0x8b80fb57 @ EncodeFixed32 0xdb477524)" by (simp add: x(1) pad)
  show "Footer_DecodeFrom (Footer_EncodeTo f []) = Inr (f, [])"
    unfolding Footer_DecodeFrom_def Let_def d40 d48 handles
    using magic DecodeFixed32_Encode [of "0xdb477524" "[]"] by simp
qed

section \<open>Files that are read\<close>

text \<open>Reads inside the file succeed and return its bytes.\<close>

locale random_file =
  fixes read :: random_read
    and bytes :: "byte list"
    and env_ok :: bool
  assumes read_OK: "env_ok \<Longrightarrow> unat offset + unat n \<le> length bytes \<Longrightarrow>
    \<exists>mapped. read offset n = (OK, take (unat n) (drop (unat offset) bytes), mapped)"

interpretation mmap_file: random_file "mmap_read px filename bytes" bytes "length bytes < 2 ^ 63" for px :: "'w posix" and filename bytes
proof unfold_locales
  fix offset n :: u64
  assume a: "length bytes < 2 ^ 63" "unat offset + unat n \<le> length bytes"
  then have "unat (offset + n) = unat offset + unat n" by (intro unat_add_no_overflow) simp
  moreover have "unat (of_nat (length bytes) :: u64) = length bytes" using a(1) by (intro unat_of_nat_64) simp
  ultimately have "\<not> offset + n > of_nat (length bytes)" using a(2) by (simp add: word_less_nat_alt)
  then show "\<exists>mapped. mmap_read px filename bytes offset n = (OK, take (unat n) (drop (unat offset) bytes), mapped)"
    by (auto simp: mmap_read_def PosixMmapReadableFile_Read_def)
qed

definition raw_block :: "crc_env \<Rightarrow> byte list \<Rightarrow> byte list" where
  "raw_block e c = c @ block_trailer e kNoCompression c"

lemma length_raw_block [simp]: "length (raw_block e c) = length c + 5"
  by (simp add: raw_block_def block_trailer_def Let_def)

definition handle_at :: "nat \<Rightarrow> byte list \<Rightarrow> block_handle" where
  "handle_at pos c = \<lparr>bh_offset = of_nat pos, bh_size = of_nat (length c)\<rparr>"

context random_file
begin

lemma ReadBlock_raw:
  assumes "env_ok" "crc_ok e" "bytes = pre @ raw_block e c @ post" "length bytes < 2 ^ 63"
  shows "\<exists>cachable. ReadBlock e read verify (handle_at (length pre) c) = Inr (c, cachable)"
proof -
  let ?n = "of_nat (length c) :: u64"
  have small: "length pre + length c + 5 \<le> length bytes" "unat ?n = length c" "unat (of_nat (length pre) :: u64) = length pre"
    using assms(3,4) by (simp_all add: unat_of_nat_64)
  have n: "unat (?n + kBlockTrailerSize) = length c + 5"
    using small(1,2) assms(4) unat_add_no_overflow [of ?n kBlockTrailerSize] by (simp add: kBlockTrailerSize_def)
  have "unat (of_nat (length pre) :: u64) + unat (?n + kBlockTrailerSize) \<le> length bytes" using small n by simp
  from read_OK [OF assms(1) this] obtain mapped where
    "read (of_nat (length pre)) (?n + kBlockTrailerSize) = (OK, take (length c + 5) (drop (length pre) bytes), mapped)" unfolding n small(3) by blast
  then have r: "read (of_nat (length pre)) (?n + kBlockTrailerSize) = (OK, raw_block e c, mapped)" by (simp add: assms(3))
  have crc: "crc_value e (c @ [0]) = Unmask (DecodeFixed32 (EncodeFixed32 (Mask (crc_extend e (crc_value e c) [0]))))"
    using crc_ok_simps [OF assms(2)] DecodeFixed32_Encode [of _ "[]"] by (simp add: crc32c_ref_append Unmask_Mask)
  have parts: "raw_block e c = (c @ [0]) @ EncodeFixed32 (Mask (crc_extend e (crc_value e c) [0]))"
    by (simp add: raw_block_def block_trailer_def Let_def compression_code_def)
  have "take (length c + 1) (raw_block e c) = c @ [0]" "drop (length c + 1) (raw_block e c) = EncodeFixed32 (Mask (crc_extend e (crc_value e c) [0]))"
    "raw_block e c ! length c = 0" "take (length c) (raw_block e c) = c" unfolding parts by simp_all
  then show ?thesis using crc
    by (simp add: ReadBlock_def Let_def handle_at_def r [unfolded kBlockTrailerSize_def] small(2) kBlockTrailerSize_def compression_code_def)
qed

end

section \<open>The layout of a table\<close>

text \<open>\<open>bss\<close> are the entries of the data blocks, in order.\<close>

definition data_bytes :: "crc_env \<Rightarrow> nat \<Rightarrow> kv list list \<Rightarrow> byte list" where
  "data_bytes e k bss = concat (map (\<lambda>b. raw_block e (block_contents k b)) bss)"

definition data_handle :: "crc_env \<Rightarrow> nat \<Rightarrow> kv list list \<Rightarrow> nat \<Rightarrow> block_handle" where
  "data_handle e k bss i = handle_at (length (data_bytes e k (take i bss))) (block_contents k (bss ! i))"

definition sep_key :: "table_options \<Rightarrow> kv list list \<Rightarrow> nat \<Rightarrow> byte list" where
  "sep_key opts bss i =
     (if Suc i < length bss then to_separator opts (fst (last (bss ! i))) (fst (hd (bss ! Suc i))) else to_successor opts (fst (last (bss ! i))))"

definition index_kvs :: "crc_env \<Rightarrow> table_options \<Rightarrow> kv list list \<Rightarrow> nat \<Rightarrow> kv list" where
  "index_kvs e opts bss n = map (\<lambda>i. (sep_key opts bss i, BlockHandle_EncodeTo (data_handle e (to_block_restart_interval opts) bss i) [])) [0..<n]"

definition filter_blks :: "crc_env \<Rightarrow> nat \<Rightarrow> kv list list \<Rightarrow> kv list \<Rightarrow> (u64 \<times> byte list list) list" where
  "filter_blks e k bss cur =
     map (\<lambda>i. (of_nat (length (data_bytes e k (take i bss))), map fst (bss ! i))) [0..<length bss] @
     [(of_nat (length (data_bytes e k bss)), map fst cur)]"

definition blocks_with :: "kv list list \<Rightarrow> kv list \<Rightarrow> kv list list" where
  "blocks_with bss cur = (if cur = [] then bss else bss @ [cur])"

lemma data_bytes_append:
  "data_bytes e k (xs @ ys) = data_bytes e k xs @ data_bytes e k ys" "data_bytes e k (b # xs) = raw_block e (block_contents k b) @ data_bytes e k xs"
  by (simp_all add: data_bytes_def)

lemma data_bytes_split:
  "i < length bss \<Longrightarrow> data_bytes e k bss = data_bytes e k (take i bss) @ raw_block e (block_contents k (bss ! i)) @ data_bytes e k (drop (Suc i) bss)"
  using arg_cong [OF id_take_nth_drop, of i bss "data_bytes e k"] by (simp only: data_bytes_append)

lemma data_bytes_snoc: "data_bytes e k (bss @ [b]) = data_bytes e k bss @ raw_block e (block_contents k b)"
  by (simp add: data_bytes_def)

lemma data_handle_snoc: "i < length bss \<Longrightarrow> data_handle e k (bss @ [b]) i = data_handle e k bss i"
  "data_handle e k (bss @ [b]) (length bss) = handle_at (length (data_bytes e k bss)) (block_contents k b)"
  by (simp_all add: data_handle_def nth_append)

lemma index_kvs_snoc:
  "n < length bss \<Longrightarrow> index_kvs e opts (bss @ [b]) n = index_kvs e opts bss n"
  "index_kvs e opts bss (Suc n) = index_kvs e opts bss n @ [(sep_key opts bss n, BlockHandle_EncodeTo (data_handle e (to_block_restart_interval opts) bss n) [])]"
  by (simp_all add: index_kvs_def sep_key_def data_handle_snoc nth_append)

lemma index_kvs_grow: "cur \<noteq> [] \<Longrightarrow> index_kvs e opts (bss @ [cur @ xs]) (length bss) = index_kvs e opts (bss @ [cur]) (length bss)"
  by (auto simp: index_kvs_def sep_key_def data_handle_snoc nth_append less_Suc_eq)

lemma filter_blks_Cons:
  "fold (add_block create) (filter_blks e k bss (cur @ [kv])) b = AddKey (fst kv) (fold (add_block create) (filter_blks e k bss cur) b)"
  "fold (add_block create) (filter_blks e k (bss @ [cur]) []) b =
     StartBlock create (of_nat (length (data_bytes e k (bss @ [cur])))) (fold (add_block create) (filter_blks e k bss cur) b)"
proof -
  show "fold (add_block create) (filter_blks e k bss (cur @ [kv])) b = AddKey (fst kv) (fold (add_block create) (filter_blks e k bss cur) b)"
    by (simp add: filter_blks_def add_block_def)
  have "filter_blks e k (bss @ [cur]) [] = filter_blks e k bss cur @ [(of_nat (length (data_bytes e k (bss @ [cur]))), [])]"
    by (simp add: filter_blks_def nth_append)
  then show "fold (add_block create) (filter_blks e k (bss @ [cur]) []) b =
     StartBlock create (of_nat (length (data_bytes e k (bss @ [cur])))) (fold (add_block create) (filter_blks e k bss cur) b)"
    by (simp add: add_block_def)
qed

lemma build_block_snoc: "build_block k (kvs @ [(key, val)]) = Block_Add k key val (build_block k kvs)"
  by (simp add: build_block_def)

lemma Block_Reset_new [simp]: "Block_Reset b = new_BlockBuilder" "build_block k [] = new_BlockBuilder"
  by (simp_all add: Block_Reset_def new_BlockBuilder_def build_block_def)

lemma build_block_empty: "0 < k \<Longrightarrow> bb_buffer (build_block k kvs) = [] \<longleftrightarrow> kvs = []"
  using blk_off_mono [of 0 "length kvs" k kvs] by (cases "kvs = []") (auto simp: build_block_state blk_off_def blk_bytes_def new_BlockBuilder_def)

section \<open>What the builder has written\<close>

definition tb_rep :: "crc_env \<Rightarrow> table_options \<Rightarrow> ('f \<Rightarrow> byte list) \<Rightarrow> kv list list \<Rightarrow> kv list \<Rightarrow> 'f table_builder \<Rightarrow> bool" where
  "tb_rep e opts contents bss cur r \<longleftrightarrow>
     (let k = to_block_restart_interval opts in
      [] \<notin> set bss \<and> contents (tb_file r) = data_bytes e k bss \<and> tb_offset r = of_nat (length (data_bytes e k bss)) \<and>
      tb_data_block r = build_block k cur \<and>
      tb_index_block r = build_block 1 (index_kvs e opts (blocks_with bss cur) (length (blocks_with bss cur) - 1)) \<and>
      (tb_pending_index_entry r \<longleftrightarrow> cur = [] \<and> bss \<noteq> []) \<and>
      (bss \<noteq> [] \<longrightarrow> tb_pending_handle r = data_handle e k bss (length bss - 1)) \<and>
      (concat bss @ cur \<noteq> [] \<longrightarrow> tb_last_key r = fst (last (concat bss @ cur))) \<and>
      tb_filter_block r = map_option (\<lambda>p. fold (add_block (fp_create p)) (filter_blks e k bss cur) new_FilterBlockBuilder) (to_filter_policy opts))"

lemma tb_rep_new: "contents f = [] \<Longrightarrow> tb_rep e opts contents [] [] (new_TableBuilder opts f)"
  by (simp add: tb_rep_def new_TableBuilder_def data_bytes_def filter_blks_def blocks_with_def index_kvs_def
      tb_StartBlock_def add_block_def split: option.splits)

lemma WriteBlock_raw:
  "WriteBlock e app opts block r =
     map_option (\<lambda>(handle, r). (handle, new_BlockBuilder, r)) (WriteRawBlock e app (fst (Block_Finish block)) kNoCompression r)"
  by (simp add: WriteBlock_def Snappy_Compress_def Block_Finish_def Let_def split: CompressionType.splits)

context writable_file
begin

lemma WriteRawBlock_OK:
  assumes "env_ok" "WriteRawBlock e append c kNoCompression r = Some (h, r')" "tb_status r' = OK" "tb_offset r = of_nat n" "tb_status r = OK"
  shows "h = handle_at n c \<and> (\<exists>f. r' = r\<lparr>tb_file := f, tb_offset := of_nat (n + length (raw_block e c))\<rparr>
    \<and> contents f = contents (tb_file r) @ raw_block e c)"
proof -
  from assms(2,3) obtain f1 f2 where f: "append (tb_file r) c = Some (OK, f1)" "append f1 (block_trailer e kNoCompression c) = Some (OK, f2)"
    and h: "h = handle_at n c" and "r' = r\<lparr>tb_file := f2, tb_status := OK, tb_offset := of_nat (n + length (raw_block e c))\<rparr>"
    by (auto simp: WriteRawBlock_def Let_def handle_at_def assms(4) kBlockTrailerSize_def ac_simps split: option.splits if_splits)
  then have r': "r' = r\<lparr>tb_file := f2, tb_offset := of_nat (n + length (raw_block e c))\<rparr>" using assms(5) by (cases r) simp
  have "contents f2 = contents (tb_file r) @ raw_block e c"
    using append_OK [OF assms(1) f(1)] append_OK [OF assms(1) f(2)] by (simp add: raw_block_def)
  with h r' show ?thesis by blast
qed

lemma Flush_OK:
  assumes "env_ok" "TableBuilder_Flush e append flush opts r = Some r'" "tb_status r' = OK" "tb_status r = OK" "bb_buffer (tb_data_block r) \<noteq> []"
    and c: "fst (Block_Finish (tb_data_block r)) = c" and n: "tb_offset r = of_nat n"
  shows "\<exists>f. r' = r\<lparr>tb_file := f, tb_offset := of_nat (n + length (raw_block e c)), tb_data_block := new_BlockBuilder,
      tb_pending_handle := handle_at n c, tb_pending_index_entry := True,
      tb_filter_block := tb_StartBlock opts (of_nat (n + length (raw_block e c))) (tb_filter_block r)\<rparr>
    \<and> contents f = contents (tb_file r) @ raw_block e c"
proof -
  let ?set = "\<lambda>h r1. r1\<lparr>tb_data_block := new_BlockBuilder, tb_pending_handle := h\<rparr>"
  from assms(2,4,5) obtain h r1 where w: "WriteRawBlock e append c kNoCompression r = Some (h, r1)"
    by (cases "WriteRawBlock e append c kNoCompression r") (auto simp: TableBuilder_Flush_def WriteBlock_raw Let_def c)
  have next_r: "map_option (\<lambda>r. r\<lparr>tb_filter_block := tb_StartBlock opts (tb_offset r) (tb_filter_block r)\<rparr>)
      (if tb_status r1 = OK then map_option (\<lambda>(status, f). (?set h r1)\<lparr>tb_pending_index_entry := True, tb_status := status, tb_file := f\<rparr>) (flush (tb_file r1))
       else Some (?set h r1)) = Some r'"
    using assms(2,4,5) w by (simp add: TableBuilder_Flush_def WriteBlock_raw Let_def c cong: if_cong)
  have "tb_status r1 = OK" using next_r assms(3) by (auto split: if_splits)
  from WriteRawBlock_OK [OF assms(1) w this n assms(4)] obtain f where
    h: "h = handle_at n c" and r1: "r1 = r\<lparr>tb_file := f, tb_offset := of_nat (n + length (raw_block e c))\<rparr>"
    and f: "contents f = contents (tb_file r) @ raw_block e c" by blast
  from next_r r1 assms(4) obtain s f' where fl: "flush f = Some (s, f')" and r': "r' = (?set h r1)\<lparr>tb_pending_index_entry := True, tb_status := s, tb_file := f',
      tb_filter_block := tb_StartBlock opts (tb_offset r1) (tb_filter_block r1)\<rparr>"
    by (auto split: option.splits)
  have s: "s = OK" using r' assms(3) by simp
  have "contents f' = contents f" using flush_OK [OF assms(1)] fl s by blast
  then show ?thesis using r' r1 f h s assms(4) by (intro exI [of _ f'], cases r) simp
qed

lemma Flush_rep:
  assumes ok: "env_ok" "0 < to_block_restart_interval opts" and rep: "tb_rep e opts contents bss cur r" "tb_status r = OK"
    and run: "TableBuilder_Flush e append flush opts r = Some r'" "tb_status r' = OK"
  shows "tb_rep e opts contents (blocks_with bss cur) [] r'"
proof (cases "cur = []")
  case True
  then have "bb_buffer (tb_data_block r) = []" using rep(1) build_block_empty [OF ok(2), of "[]"] by (simp add: tb_rep_def Let_def del: Block_Reset_new)
  then have "r' = r" using run(1) rep(2) by (simp add: TableBuilder_Flush_def)
  then show ?thesis using rep(1) True by (simp add: blocks_with_def)
next
  case False
  let ?k = "to_block_restart_interval opts"
  have r: "tb_data_block r = build_block ?k cur" "tb_offset r = of_nat (length (data_bytes e ?k bss))" using rep(1) by (simp_all add: tb_rep_def Let_def)
  have "bb_buffer (tb_data_block r) \<noteq> []" "fst (Block_Finish (tb_data_block r)) = block_contents ?k cur"
    using False by (simp_all add: r build_block_empty [OF ok(2)] block_contents_def)
  from Flush_OK [OF ok(1) run rep(2) this r(2)] rep(1) False show ?thesis
    by (auto simp: tb_rep_def Let_def blocks_with_def data_bytes_snoc data_handle_snoc(2) tb_StartBlock_def filter_blks_Cons(2) ac_simps
      split: option.splits)
qed

end

lemma last_concat:
  assumes "[] \<notin> set bss" "length bss = Suc n"
  shows "last (concat bss) = last (bss ! n)"
proof -
  from assms(2) have ne: "bss \<noteq> []" by auto
  then have l: "last bss = bss ! n" "last bss \<noteq> []" using assms last_conv_nth [of bss] last_in_set [of bss] by (auto, metis)
  have "concat bss = concat (butlast bss) @ last bss" using concat_append [of "butlast bss" "[last bss]"] ne by simp
  then show ?thesis using l by simp
qed

lemma index_kvs_blocks:
  assumes "[] \<notin> set bss" "bss \<noteq> []"
  shows "index_kvs e opts (bss @ [[(key, val)]]) (length bss) = index_kvs e opts bss (length bss - 1) @
    [(to_separator opts (fst (last (concat bss))) key, BlockHandle_EncodeTo (data_handle e (to_block_restart_interval opts) bss (length bss - 1)) [])]"
proof -
  obtain n where n: "length bss = Suc n" using assms(2) by (cases bss) simp_all
  note l = last_concat [OF assms(1) n]
  have "index_kvs e opts (bss @ [[(key, val)]]) (Suc n) = index_kvs e opts bss n @
    [(sep_key opts (bss @ [[(key, val)]]) n, BlockHandle_EncodeTo (data_handle e (to_block_restart_interval opts) bss n) [])]"
    using n by (simp add: index_kvs_snoc data_handle_snoc(1))
  moreover have "sep_key opts (bss @ [[(key, val)]]) n = to_separator opts (fst (last (concat bss))) key"
    using n l by (simp add: sep_key_def nth_append)
  ultimately show ?thesis by (simp add: n)
qed

definition add_entry :: "table_options \<Rightarrow> byte list \<Rightarrow> byte list \<Rightarrow> 'f table_builder \<Rightarrow> 'f table_builder" where
  "add_entry opts key val r =
     (let r = (if tb_pending_index_entry r then add_index_entry (to_separator opts (tb_last_key r) key) r else r)
      in r\<lparr>tb_filter_block := map_option (AddKey key) (tb_filter_block r), tb_last_key := key, tb_num_entries := tb_num_entries r + 1,
           tb_data_block := Block_Add (to_block_restart_interval opts) key val (tb_data_block r)\<rparr>)"

lemma TableBuilder_Add_entry:
  "TableBuilder_Add e app flush opts key val r =
     (if tb_status r \<noteq> OK then Some r
      else if to_block_size opts \<le> CurrentSizeEstimate (tb_data_block (add_entry opts key val r))
      then TableBuilder_Flush e app flush opts (add_entry opts key val r) else Some (add_entry opts key val r))"
  by (simp add: TableBuilder_Add_def add_entry_def Let_def)

lemma add_entry_rep:
  assumes "tb_rep e opts contents bss cur r"
  shows "tb_rep e opts contents bss (cur @ [(key, val)]) (add_entry opts key val r)" "tb_status (add_entry opts key val r) = tb_status r"
proof -
  let ?k = "to_block_restart_interval opts"
  have bss: "[] \<notin> set bss" and pend: "tb_pending_index_entry r \<longleftrightarrow> cur = [] \<and> bss \<noteq> []"
    and idx: "tb_index_block r = build_block 1 (index_kvs e opts (blocks_with bss cur) (length (blocks_with bss cur) - 1))"
    and lk: "concat bss @ cur \<noteq> [] \<longrightarrow> tb_last_key r = fst (last (concat bss @ cur))"
    and h: "bss \<noteq> [] \<longrightarrow> tb_pending_handle r = data_handle e ?k bss (length bss - 1)"
    using assms by (simp_all add: tb_rep_def Let_def)
  show "tb_status (add_entry opts key val r) = tb_status r" by (simp add: add_entry_def add_index_entry_def Let_def)
  have "tb_index_block (add_entry opts key val r) = build_block 1 (index_kvs e opts (bss @ [cur @ [(key, val)]]) (length bss))"
  proof (cases "cur = []")
    case True
    show ?thesis
    proof (cases "bss = []")
      case False
      then have "concat bss \<noteq> []" using bss by (cases bss) auto
      with lk True have "tb_last_key r = fst (last (concat bss))" by simp
      with False True pend idx h show ?thesis
        by (simp add: add_entry_def add_index_entry_def Let_def blocks_with_def index_kvs_blocks [OF bss False] build_block_snoc)
    qed (use idx pend True in \<open>simp add: add_entry_def Let_def blocks_with_def index_kvs_def\<close>)
  next
    case False
    then show ?thesis using idx pend by (simp add: add_entry_def Let_def blocks_with_def index_kvs_grow)
  qed
  then show "tb_rep e opts contents bss (cur @ [(key, val)]) (add_entry opts key val r)"
    using assms by (simp add: tb_rep_def add_entry_def add_index_entry_def Let_def blocks_with_def build_block_snoc filter_blks_Cons(1) option.map_comp o_def)
qed

text \<open>Adding a list of entries.\<close>

primrec add_entries :: "crc_env \<Rightarrow> 'f append \<Rightarrow> 'f flush \<Rightarrow> table_options \<Rightarrow> kv list \<Rightarrow> 'f table_builder \<Rightarrow> 'f table_builder option" where
  "add_entries e app flush opts [] r = Some r"
| "add_entries e app flush opts (x # xs) r =
     Option.bind (TableBuilder_Add e app flush opts (fst x) (snd x) r) (add_entries e app flush opts xs)"

lemma add_entries_failed: "tb_status r \<noteq> OK \<Longrightarrow> add_entries e app flush opts xs r = Some r"
  by (induction xs) (simp_all add: TableBuilder_Add_def)

section \<open>The finished file\<close>

definition meta_kvs :: "table_options \<Rightarrow> block_handle \<Rightarrow> kv list" where
  "meta_kvs opts h = (case to_filter_policy opts of None \<Rightarrow> [] | Some p \<Rightarrow> [(filter_prefix @ fp_name p, BlockHandle_EncodeTo h [])])"

definition filter_contents :: "crc_env \<Rightarrow> table_options \<Rightarrow> kv list list \<Rightarrow> byte list" where
  "filter_contents e opts bss = (case to_filter_policy opts of None \<Rightarrow> []
     | Some p \<Rightarrow> filter_block (fp_create p) (filter_blks e (to_block_restart_interval opts) bss []))"

definition filter_part :: "crc_env \<Rightarrow> table_options \<Rightarrow> kv list list \<Rightarrow> byte list" where
  "filter_part e opts bss = (if to_filter_policy opts = None then [] else raw_block e (filter_contents e opts bss))"

definition filter_handle :: "crc_env \<Rightarrow> table_options \<Rightarrow> kv list list \<Rightarrow> block_handle" where
  "filter_handle e opts bss = (if to_filter_policy opts = None then new_BlockHandle
     else handle_at (length (data_bytes e (to_block_restart_interval opts) bss)) (filter_contents e opts bss))"

definition meta_contents :: "crc_env \<Rightarrow> table_options \<Rightarrow> kv list list \<Rightarrow> byte list" where
  "meta_contents e opts bss = block_contents (to_block_restart_interval opts) (meta_kvs opts (filter_handle e opts bss))"

definition index_contents :: "crc_env \<Rightarrow> table_options \<Rightarrow> kv list list \<Rightarrow> byte list" where
  "index_contents e opts bss = block_contents 1 (index_kvs e opts bss (length bss))"

definition table_bytes :: "crc_env \<Rightarrow> table_options \<Rightarrow> kv list list \<Rightarrow> byte list" where
  "table_bytes e opts bss =
     (let front = data_bytes e (to_block_restart_interval opts) bss @ filter_part e opts bss;
          front2 = front @ raw_block e (meta_contents e opts bss)
      in front2 @ raw_block e (index_contents e opts bss) @
         Footer_EncodeTo \<lparr>ft_metaindex_handle = handle_at (length front) (meta_contents e opts bss),
           ft_index_handle = handle_at (length front2) (index_contents e opts bss)\<rparr> [])"

context writable_file
begin

lemma Add_rep:
  assumes ok: "env_ok" "0 < to_block_restart_interval opts" and rep: "tb_rep e opts contents bss cur r" "tb_status r = OK"
    and run: "TableBuilder_Add e append flush opts key val r = Some r'" "tb_status r' = OK"
  shows "\<exists>bss' cur'. tb_rep e opts contents bss' cur' r' \<and> concat bss' @ cur' = concat bss @ cur @ [(key, val)]"
proof (cases "to_block_size opts \<le> CurrentSizeEstimate (tb_data_block (add_entry opts key val r))")
  case True
  then have "TableBuilder_Flush e append flush opts (add_entry opts key val r) = Some r'" using run(1) rep(2) by (simp add: TableBuilder_Add_entry)
  from Flush_rep [OF ok add_entry_rep(1) [OF rep(1)] _ this run(2)] rep(2) have
    "tb_rep e opts contents (blocks_with bss (cur @ [(key, val)])) [] r'" by (simp add: add_entry_rep(2) [OF rep(1)])
  then show ?thesis by (intro exI conjI) (assumption, simp add: blocks_with_def)
next
  case False
  then have "r' = add_entry opts key val r" using run(1) rep(2) by (simp add: TableBuilder_Add_entry)
  then show ?thesis using add_entry_rep(1) [OF rep(1)] by (intro exI conjI) (assumption | simp)+
qed

lemma add_entries_rep:
  assumes ok: "env_ok" "0 < to_block_restart_interval opts"
  shows "tb_rep e opts contents bss cur r \<Longrightarrow> tb_status r = OK \<Longrightarrow> add_entries e append flush opts kvs r = Some r' \<Longrightarrow> tb_status r' = OK \<Longrightarrow>
    \<exists>bss' cur'. tb_rep e opts contents bss' cur' r' \<and> concat bss' @ cur' = concat bss @ cur @ kvs"
proof (induction kvs arbitrary: bss cur r)
  case (Cons x xs)
  then obtain r1 where r1: "TableBuilder_Add e append flush opts (fst x) (snd x) r = Some r1" "add_entries e append flush opts xs r1 = Some r'"
    by (auto simp: bind_eq_Some_conv)
  then have s: "tb_status r1 = OK" using Cons.prems(4) add_entries_failed by fastforce
  from Add_rep [OF ok Cons.prems(1,2) r1(1) s] obtain bss1 cur1 where
    rep: "tb_rep e opts contents bss1 cur1 r1" "concat bss1 @ cur1 = concat bss @ cur @ [x]" by auto
  then have "concat bss1 @ cur1 @ xs = concat bss @ cur @ x # xs" by (simp flip: append_assoc)
  with Cons.IH [OF rep(1) s r1(2) Cons.prems(4)] show ?case by simp
qed auto

end

context writable_file
begin

text \<open>The steps of \<open>Finish\<close>: each leaves a bad status as it is.\<close>

lemma step_status:
  "write_filter_block e append opts r = Some (h, r') \<Longrightarrow> tb_status r' = OK \<Longrightarrow> tb_status r = OK"
  "write_metaindex_block e append opts fh r = Some (h, r') \<Longrightarrow> tb_status r' = OK \<Longrightarrow> tb_status r = OK"
  "write_index_block e append opts r = Some (h, r') \<Longrightarrow> tb_status r' = OK \<Longrightarrow> tb_status r = OK"
  "write_footer append metaindex index r = Some r' \<Longrightarrow> tb_status r' = OK \<Longrightarrow> tb_status r = OK"
  by (auto simp: write_filter_block_def write_metaindex_block_def write_index_block_def write_footer_def split: option.splits if_splits)

lemma Flush_status: "TableBuilder_Flush e append flush opts r = Some r' \<Longrightarrow> tb_status r' = OK \<Longrightarrow> tb_status r = OK"
  by (auto simp: TableBuilder_Flush_def split: if_splits)

lemma write_filter_OK:
  assumes "env_ok" "write_filter_block e append opts r = Some (h, r')" "tb_status r' = OK"
    and "tb_offset r = of_nat (length (data_bytes e (to_block_restart_interval opts) bss))"
      "tb_filter_block r = map_option (\<lambda>p. fold (add_block (fp_create p)) (filter_blks e (to_block_restart_interval opts) bss []) new_FilterBlockBuilder) (to_filter_policy opts)"
  shows "h = filter_handle e opts bss \<and>
    (\<exists>f. r' = r\<lparr>tb_file := f, tb_offset := of_nat (length (data_bytes e (to_block_restart_interval opts) bss @ filter_part e opts bss))\<rparr>
      \<and> contents f = contents (tb_file r) @ filter_part e opts bss)"
proof (cases "to_filter_policy opts")
  case None
  then show ?thesis using assms(2,4) by (auto simp: write_filter_block_def filter_handle_def filter_part_def intro!: exI [of _ "tb_file r"])
next
  case (Some p)
  have s: "tb_status r = OK" using step_status(1) [OF assms(2,3)] .
  have "WriteRawBlock e append (filter_contents e opts bss) kNoCompression r = Some (h, r')"
    using assms(2,5) s Some by (simp add: write_filter_block_def filter_contents_def filter_block_def)
  from WriteRawBlock_OK [OF assms(1) this assms(3,4) s] show ?thesis
    by (auto simp: filter_handle_def filter_part_def Some)
qed

lemma write_meta_OK:
  assumes "env_ok" "write_metaindex_block e append opts (filter_handle e opts bss) r = Some (h, r')" "tb_status r' = OK" "tb_offset r = of_nat n"
  shows "h = handle_at n (meta_contents e opts bss) \<and>
    (\<exists>f. r' = r\<lparr>tb_file := f, tb_offset := of_nat (n + length (raw_block e (meta_contents e opts bss)))\<rparr>
      \<and> contents f = contents (tb_file r) @ raw_block e (meta_contents e opts bss))"
proof -
  have s: "tb_status r = OK" using step_status(2) [OF assms(2,3)] .
  have "fst (Block_Finish (case to_filter_policy opts of None \<Rightarrow> new_BlockBuilder
      | Some p \<Rightarrow> Block_Add (to_block_restart_interval opts) (filter_prefix @ fp_name p) (BlockHandle_EncodeTo (filter_handle e opts bss) []) new_BlockBuilder))
    = meta_contents e opts bss"
    by (simp add: meta_contents_def meta_kvs_def block_contents_def build_block_def split: option.splits)
  then have "WriteRawBlock e append (meta_contents e opts bss) kNoCompression r = Some (h, r')"
    using assms(2) s by (auto simp: write_metaindex_block_def Let_def WriteBlock_raw)
  from WriteRawBlock_OK [OF assms(1) this assms(3,4) s] show ?thesis by auto
qed

lemma write_index_OK:
  assumes "env_ok" "write_index_block e append opts r = Some (h, r')" "tb_status r' = OK" "tb_offset r = of_nat n"
    and idx: "build_block 1 (index_kvs e opts bss (length bss)) =
      (if tb_pending_index_entry r then tb_index_block (add_index_entry (to_successor opts (tb_last_key r)) r) else tb_index_block r)"
  shows "h = handle_at n (index_contents e opts bss) \<and> tb_offset r' = of_nat (n + length (raw_block e (index_contents e opts bss)))
    \<and> contents (tb_file r') = contents (tb_file r) @ raw_block e (index_contents e opts bss)"
proof -
  have s: "tb_status r = OK" using step_status(3) [OF assms(2,3)] .
  define r0 where "r0 = (if tb_pending_index_entry r then add_index_entry (to_successor opts (tb_last_key r)) r else r)"
  have r0: "tb_offset r0 = of_nat n" "tb_file r0 = tb_file r" "tb_status r0 = OK" using assms(4) s by (simp_all add: r0_def add_index_entry_def)
  have "fst (Block_Finish (tb_index_block r0)) = index_contents e opts bss" using idx by (auto simp: r0_def index_contents_def block_contents_def)
  then obtain r1 where w: "WriteRawBlock e append (index_contents e opts bss) kNoCompression r0 = Some (h, r1)" "r' = r1\<lparr>tb_index_block := new_BlockBuilder\<rparr>"
    using assms(2) s by (auto simp: write_index_block_def Let_def WriteBlock_raw r0_def [symmetric])
  then have "tb_status r1 = OK" using assms(3) by simp
  from WriteRawBlock_OK [OF assms(1) w(1) this r0(1,3)] w(2) r0(2) show ?thesis by auto
qed

lemma build_finished:
  assumes ok: "env_ok" "0 < to_block_restart_interval opts" and rep: "tb_rep e opts contents bss cur r"
    and run: "TableBuilder_Finish e append flush opts r = Some (OK, r')"
  defines "bss' \<equiv> blocks_with bss cur"
  shows "contents (tb_file r') = table_bytes e opts bss' \<and> TableBuilder_FileSize r' = of_nat (length (table_bytes e opts bss')) \<and> [] \<notin> set bss'"
proof -
  let ?k = "to_block_restart_interval opts"
  from run obtain r1 fh r2 mh r3 ih r4 where steps: "TableBuilder_Flush e append flush opts r = Some r1"
    "write_filter_block e append opts (r1\<lparr>tb_closed := True\<rparr>) = Some (fh, r2)" "write_metaindex_block e append opts fh r2 = Some (mh, r3)"
    "write_index_block e append opts r3 = Some (ih, r4)" "write_footer append mh ih r4 = Some r'" and s': "tb_status r' = OK"
    by (auto simp: TableBuilder_Finish_def Let_def bind_eq_Some_conv)
  note s4 = step_status(4) [OF steps(5) s']
  note s3 = step_status(3) [OF steps(4) s4]
  note s2 = step_status(2) [OF steps(3) s3]
  have s1: "tb_status r1 = OK" using step_status(1) [OF steps(2) s2] by simp
  let ?data = "data_bytes e ?k bss'" and ?fp = "filter_part e opts bss'" and ?meta = "raw_block e (meta_contents e opts bss')"
  have "tb_rep e opts contents bss' [] r1" unfolding bss'_def by (rule Flush_rep [OF ok rep Flush_status [OF steps(1) s1] steps(1) s1])
  then have r1: "[] \<notin> set bss'" "contents (tb_file r1) = ?data" "tb_offset r1 = of_nat (length ?data)"
    "tb_index_block r1 = build_block 1 (index_kvs e opts bss' (length bss' - 1))" "tb_pending_index_entry r1 \<longleftrightarrow> bss' \<noteq> []"
    "bss' \<noteq> [] \<longrightarrow> tb_pending_handle r1 = data_handle e ?k bss' (length bss' - 1)" "concat bss' \<noteq> [] \<longrightarrow> tb_last_key r1 = fst (last (concat bss'))"
    "tb_filter_block r1 = map_option (\<lambda>p. fold (add_block (fp_create p)) (filter_blks e ?k bss' []) new_FilterBlockBuilder) (to_filter_policy opts)"
    by (simp_all add: tb_rep_def Let_def blocks_with_def del: concat_eq_Nil_conv)
  from write_filter_OK [OF ok(1) steps(2) s2, of bss'] r1 obtain f2 where fh: "fh = filter_handle e opts bss'"
    and r2: "r2 = r1\<lparr>tb_closed := True, tb_file := f2, tb_offset := of_nat (length (?data @ ?fp))\<rparr>" "contents f2 = ?data @ ?fp"
    by auto
  from write_meta_OK [OF ok(1) steps(3) [unfolded fh] s3, of "length (?data @ ?fp)"] obtain f3 where mh: "mh = handle_at (length (?data @ ?fp)) (meta_contents e opts bss')"
    and r3: "r3 = r2\<lparr>tb_file := f3, tb_offset := of_nat (length (?data @ ?fp @ ?meta))\<rparr>" "contents f3 = ?data @ ?fp @ ?meta"
    by (auto simp: r2 add.assoc)
  have idx: "build_block 1 (index_kvs e opts bss' (length bss')) =
      (if tb_pending_index_entry r3 then tb_index_block (add_index_entry (to_successor opts (tb_last_key r3)) r3) else tb_index_block r3)"
  proof (cases "bss' = []")
    case False
    then obtain n where n: "length bss' = Suc n" by (cases bss') simp_all
    then have "concat bss' \<noteq> []" using r1(1) by (cases bss') auto
    then have "tb_last_key r3 = fst (last (bss' ! n))" using r1(7) last_concat [OF r1(1) n] by (simp add: r3 r2)
    then show ?thesis using r1 False n
      by (simp add: r3 r2 add_index_entry_def index_kvs_snoc(2) build_block_snoc sep_key_def)
  qed (use r1 in \<open>simp add: r3 r2\<close>)
  have off3: "tb_offset r3 = of_nat (length (?data @ ?fp @ ?meta))" by (simp add: r3)
  from write_index_OK [OF ok(1) steps(4) s4 off3 idx] have
    ih: "ih = handle_at (length (?data @ ?fp @ ?meta)) (index_contents e opts bss')"
      and r4: "tb_offset r4 = of_nat (length (?data @ ?fp @ ?meta) + length (raw_block e (index_contents e opts bss')))"
      "contents (tb_file r4) = ?data @ ?fp @ ?meta @ raw_block e (index_contents e opts bss')"
    by (simp_all add: r3(2)) (simp_all add: r3)
  let ?foot = "Footer_EncodeTo \<lparr>ft_metaindex_handle = mh, ft_index_handle = ih\<rparr> []"
  from steps(5) s4 s' obtain f where f: "append (tb_file r4) ?foot = Some (OK, f)"
    "r' = r4\<lparr>tb_status := OK, tb_file := f, tb_offset := tb_offset r4 + of_nat (length ?foot)\<rparr>"
    by (auto simp: write_footer_def Let_def split: if_splits)
  have t: "table_bytes e opts bss' = contents (tb_file r4) @ ?foot"
    by (simp add: table_bytes_def Let_def r4(2) mh ih add.assoc)
  have "contents (tb_file r') = table_bytes e opts bss'" using append_OK [OF ok(1) f(1)] by (simp add: f(2) t)
  moreover have "TableBuilder_FileSize r' = of_nat (length (table_bytes e opts bss'))"
    by (simp add: TableBuilder_FileSize_def f(2) t r4)
  ultimately show ?thesis using r1(1) by blast
qed

text \<open>Building a table from a list of entries: whenever \<open>Finish\<close> returns a good status, the file has the bytes of a table with these entries.\<close>

lemma build_table:
  assumes "env_ok" "0 < to_block_restart_interval opts" "contents f = []"
    and "add_entries e append flush opts kvs (new_TableBuilder opts f) = Some r" "TableBuilder_Finish e append flush opts r = Some (OK, r')"
  shows "\<exists>bss. concat bss = kvs \<and> [] \<notin> set bss \<and> contents (tb_file r') = table_bytes e opts bss \<and>
    TableBuilder_FileSize r' = of_nat (length (table_bytes e opts bss))"
proof -
  have s: "tb_status (new_TableBuilder opts f) = OK" by (simp add: new_TableBuilder_def)
  have "tb_status r = OK"
  proof -
    from assms(5) obtain r1 r2 r3 r4 fh mh ih where "TableBuilder_Flush e append flush opts r = Some r1"
      "write_filter_block e append opts (r1\<lparr>tb_closed := True\<rparr>) = Some (fh, r2)" "write_metaindex_block e append opts fh r2 = Some (mh, r3)"
      "write_index_block e append opts r3 = Some (ih, r4)" "write_footer append mh ih r4 = Some r'" "tb_status r' = OK"
      by (auto simp: TableBuilder_Finish_def Let_def bind_eq_Some_conv)
    from Flush_status [OF this(1)] step_status(1) [OF this(2)] step_status(2) [OF this(3)] step_status(3) [OF this(4)] step_status(4) [OF this(5,6)]
    show ?thesis by simp
  qed
  from add_entries_rep [OF assms(1,2) tb_rep_new [where contents = contents, OF assms(3)] s assms(4) this] obtain bss cur where
    "tb_rep e opts contents bss cur r" "concat bss @ cur = kvs" by auto
  with build_finished [OF assms(1,2) this(1) assms(5)] show ?thesis by (intro exI [of _ "blocks_with bss cur"]) (auto simp: blocks_with_def)
qed

end

section \<open>Building succeeds on a file that takes every write\<close>

lemma build_total:
  assumes app: "\<And>f d. \<exists>f'. app f d = Some (OK, f')" and flush: "\<And>f. \<exists>f'. flush f = Some (OK, f')"
  shows "tb_status r = OK \<Longrightarrow> \<exists>r'. add_entries e app flush opts kvs r = Some r' \<and> tb_status r' = OK"
    "tb_status r = OK \<Longrightarrow> \<exists>r'. TableBuilder_Finish e app flush opts r = Some (OK, r')"
proof -
  have raw: "\<exists>h r'. WriteRawBlock e app c ct r = Some (h, r') \<and> tb_status r' = OK" for c ct and r :: "'a table_builder"
  proof -
    obtain f1 where f1: "app (tb_file r) c = Some (OK, f1)" using app by blast
    obtain f2 where "app f1 (block_trailer e ct c) = Some (OK, f2)" using app by blast
    with f1 show ?thesis by (simp add: WriteRawBlock_def Let_def)
  qed
  have fl: "\<exists>r'. TableBuilder_Flush e app flush opts r = Some r' \<and> tb_status r' = OK" if "tb_status r = OK" for r :: "'a table_builder"
  proof (cases "bb_buffer (tb_data_block r) = []")
    case False
    obtain h r1 where w: "WriteRawBlock e app (fst (Block_Finish (tb_data_block r))) kNoCompression r = Some (h, r1)" "tb_status r1 = OK" using raw by blast
    obtain f where "flush (tb_file r1) = Some (OK, f)" using flush by blast
    with w False that show ?thesis by (simp add: TableBuilder_Flush_def WriteBlock_raw Let_def)
  qed (use that in \<open>simp add: TableBuilder_Flush_def\<close>)
  show "\<exists>r'. add_entries e app flush opts kvs r = Some r' \<and> tb_status r' = OK" if "tb_status r = OK" for r
    using that
  proof (induction kvs arbitrary: r)
    case (Cons x xs)
    have ent: "tb_status (add_entry opts key val r) = OK" for key val using Cons.prems by (simp add: add_entry_def add_index_entry_def Let_def)
    have "\<exists>r1. TableBuilder_Add e app flush opts (fst x) (snd x) r = Some r1 \<and> tb_status r1 = OK"
      using fl [OF ent] ent Cons.prems by (cases "to_block_size opts \<le> CurrentSizeEstimate (tb_data_block (add_entry opts (fst x) (snd x) r))")
        (simp_all add: TableBuilder_Add_entry)
    then obtain r1 where "TableBuilder_Add e app flush opts (fst x) (snd x) r = Some r1" "tb_status r1 = OK" by blast
    with Cons.IH [OF this(2)] show ?case by simp
  qed simp
  show "\<exists>r'. TableBuilder_Finish e app flush opts r = Some (OK, r')" if ok: "tb_status r = OK"
  proof -
    from fl [OF ok] obtain r1 where r1: "TableBuilder_Flush e app flush opts r = Some r1" "tb_status r1 = OK" by blast
    let ?r1 = "r1\<lparr>tb_closed := True\<rparr>"
    have "\<exists>h r2. write_filter_block e app opts ?r1 = Some (h, r2) \<and> tb_status r2 = OK"
      using raw r1(2) by (auto simp: write_filter_block_def split: option.splits)
    then obtain h r2 where r2: "write_filter_block e app opts ?r1 = Some (h, r2)" "tb_status r2 = OK" by blast
    have "\<exists>mh r3. write_metaindex_block e app opts h r2 = Some (mh, r3) \<and> tb_status r3 = OK"
    proof -
      obtain h' r' where "WriteRawBlock e app (fst (Block_Finish (case to_filter_policy opts of None \<Rightarrow> new_BlockBuilder
          | Some p \<Rightarrow> Block_Add (to_block_restart_interval opts) (filter_prefix @ fp_name p) (BlockHandle_EncodeTo h []) new_BlockBuilder)))
          kNoCompression r2 = Some (h', r')" "tb_status r' = OK" using raw by blast
      then show ?thesis using r2(2) by (simp add: write_metaindex_block_def Let_def WriteBlock_raw)
    qed
    then obtain mh r3 where r3: "write_metaindex_block e app opts h r2 = Some (mh, r3)" "tb_status r3 = OK" by blast
    have "\<exists>ih r4. write_index_block e app opts r3 = Some (ih, r4) \<and> tb_status r4 = OK"
    proof -
      let ?r = "if tb_pending_index_entry r3 then add_index_entry (to_successor opts (tb_last_key r3)) r3 else r3"
      obtain h' r' where "WriteRawBlock e app (fst (Block_Finish (tb_index_block ?r))) kNoCompression ?r = Some (h', r')" "tb_status r' = OK" using raw by blast
      then show ?thesis using r3(2) by (simp add: write_index_block_def Let_def WriteBlock_raw)
    qed
    then obtain ih r4 where r4: "write_index_block e app opts r3 = Some (ih, r4)" "tb_status r4 = OK" by blast
    obtain f where "app (tb_file r4) (Footer_EncodeTo \<lparr>ft_metaindex_handle = mh, ft_index_handle = ih\<rparr> []) = Some (OK, f)" using app by blast
    with r4(2) have "\<exists>r5. write_footer app mh ih r4 = Some r5 \<and> tb_status r5 = OK" by (simp add: write_footer_def Let_def)
    with r1 r2 r3 r4 show ?thesis by (auto simp: TableBuilder_Finish_def Let_def)
  qed
qed

end
