(* ===== verification/Ldb_Table_Lookup.thy ===== *)
theory Ldb_Table_Lookup
  imports Ldb_Table_Correct Ldb_Memtable
begin

text \<open>
  Lookups in a finished table. Opening finds the index and the filter; a lookup goes through the index to one data block and returns the first entry that
  is not below the target, unless that has another user key, when it may return nothing. For the entries of
  operations this gives the answer of a memtable with the same operations.
\<close>

section \<open>Blocks as iterators may see them\<close>

definition iter_entry :: "new_iter \<Rightarrow> kv option" where
  "iter_entry it = (if Iter_Valid it then Some (Iter_key it, Iter_value it) else None)"

lemma iter_entry_block: "iter_entry (BlockIterator b) = block_entry b"
  by (simp add: iter_entry_def block_entry_def Iter_Valid_def Iter_key_def Iter_value_def)

lemma iter_entry_simps:
  "iter_entry it = Some (key, val) \<longleftrightarrow> Iter_Valid it \<and> Iter_key it = key \<and> Iter_value it = val"
  "iter_entry it = None \<longleftrightarrow> \<not> Iter_Valid it"
  by (auto simp: iter_entry_def)

lemma seek_entry:
  assumes order: "key_order compare valid" "key_order.sorted_kvs compare valid kvs" "valid target" and k: "0 < k" "length (block_contents k kvs) < 2 ^ 32"
  shows "iter_entry (Iter_Seek compare target (Block_NewIterator (new_Block (block_contents k kvs)))) = find (\<lambda>x. \<not> compare (fst x) target < 0) kvs
    \<and> Iter_status (Iter_Seek compare target (Block_NewIterator (new_Block (block_contents k kvs)))) = OK"
proof -
  from open_block [OF k] obtain it where it: "Block_NewIterator (new_Block (block_contents k kvs)) = BlockIterator it" "on_block k kvs it" by blast
  have "block_entry (BlockIter_Seek compare target it) = find (\<lambda>x. \<not> compare (fst x) target < 0) kvs \<and> bi_status (BlockIter_Seek compare target it) = OK"
    by (rule block_seek_find [OF order k it(2)])
  then show ?thesis by (simp add: Iter_Seek_def map_iter_def it(1) iter_entry_block Iter_status_def)
qed

section \<open>Opening\<close>

lemma bytewise_order: "key_order Slice_compare (\<lambda>_. True)"
  by (rule bytewise.key_order_axioms)

context random_file
begin

lemma ReadFilter_OK:
  assumes "env_ok" "crc_ok e" "bytes = pre @ raw_block e c @ post" "length bytes < 2 ^ 63"
  shows "ReadFilter e read opts (BlockHandle_EncodeTo (handle_at (length pre) c) []) t = t\<lparr>tbl_filter := Some (new_FilterBlockReader c)\<rparr>"
  using ReadBlock_raw [OF assms, of "to_paranoid_checks opts"] BlockHandle_Decode_Encode [of "handle_at (length pre) c" "[]"]
  by (auto simp: ReadFilter_def simp del: BlockHandle_Decode_Encode)

lemma Table_Open_OK:
  assumes ok: "env_ok" "crc_ok e" "0 < to_block_restart_interval opts" and bytes: "bytes = table_bytes e opts bss" "length bytes < 2 ^ 32"
  shows "\<exists>t c'. Table_Open e read opts cache (of_nat (length bytes)) c = (Inr t, c')
    \<and> (case cache of None \<Rightarrow> c' = c | Some bc \<Rightarrow> bc_new_id bc c = (tbl_cache_id t, c')) \<and> tbl_index_block t = new_Block (index_contents e opts bss)
    \<and> tbl_filter t = (if to_filter_policy opts = None then None else Some (new_FilterBlockReader (filter_contents e opts bss)))"
proof -
  let ?k = "to_block_restart_interval opts" and ?n = "length bytes"
  define data where "data = data_bytes e ?k bss"
  define flt where "flt = filter_part e opts bss"
  define meta where "meta = raw_block e (meta_contents e opts bss)"
  define idx where "idx = raw_block e (index_contents e opts bss)"
  define foot where "foot = \<lparr>ft_metaindex_handle = handle_at (length (data @ flt)) (meta_contents e opts bss),
    ft_index_handle = handle_at (length (data @ flt @ meta)) (index_contents e opts bss)\<rparr>"
  have b: "bytes = data @ flt @ meta @ idx @ Footer_EncodeTo foot []"
    by (simp add: bytes(1) table_bytes_def Let_def data_def flt_def meta_def idx_def foot_def add.assoc)
  have "?n < 2 ^ 63" "unat (of_nat ?n :: u64) = ?n" using bytes(2) by (simp_all add: unat_of_nat_64)
  moreover have "48 \<le> ?n" by (simp add: b Footer_roundtrip)
  ultimately have small: "?n < 2 ^ 63" "unat (of_nat ?n :: u64) = ?n" "48 \<le> ?n" by blast+
  have e48: "unat (of_nat kEncodedLength :: u64) = 48" by (simp add: kEncodedLength_def kMaxEncodedLength_def)
  have long: "\<not> (of_nat ?n :: u64) < of_nat kEncodedLength" using small e48 by (simp add: word_less_nat_alt)
  have off: "unat (of_nat ?n - of_nat kEncodedLength :: u64) = ?n - 48" using small e48 by (simp add: unat_sub word_le_nat_alt)
  have last48: "take 48 (drop (?n - 48) bytes) = Footer_EncodeTo foot []"
  proof -
    have "?n - 48 = length (data @ flt @ meta @ idx)" by (simp add: b Footer_roundtrip)
    then show ?thesis unfolding b by (simp add: Footer_roundtrip)
  qed
  have "unat (of_nat ?n - of_nat kEncodedLength :: u64) + unat (of_nat kEncodedLength :: u64) \<le> ?n" using off e48 small(3) by simp
  from read_OK [OF ok(1) this] last48 off e48 obtain mapped where
    r: "read (of_nat ?n - of_nat kEncodedLength) (of_nat kEncodedLength) = (OK, Footer_EncodeTo foot [], mapped)" by auto
  have fl: "Footer_DecodeFrom (Footer_EncodeTo foot []) = Inr (foot, [])" by (rule Footer_roundtrip)
  have "bytes = (data @ flt @ meta) @ raw_block e (index_contents e opts bss) @ Footer_EncodeTo foot []" by (simp add: b idx_def)
  from ReadBlock_raw [OF ok(1,2) this small(1)] obtain ci where
    ri: "ReadBlock e read (to_paranoid_checks opts) (ft_index_handle foot) = Inr (index_contents e opts bss, ci)" by (auto simp: foot_def)
  have "bytes = (data @ flt) @ raw_block e (meta_contents e opts bss) @ idx @ Footer_EncodeTo foot []" by (simp add: b meta_def)
  from ReadBlock_raw [OF ok(1,2) this small(1)] obtain cm where
    rm: "ReadBlock e read (to_paranoid_checks opts) (ft_metaindex_handle foot) = Inr (meta_contents e opts bss, cm)" by (auto simp: foot_def)
  define t0 where "t0 cid = \<lparr>tbl_cache_id = cid, tbl_filter = None, tbl_metaindex_handle = ft_metaindex_handle foot,
    tbl_index_block = new_Block (index_contents e opts bss)\<rparr>" for cid
  have meta_read: "ReadMeta e read opts foot (t0 cid) =
      (t0 cid)\<lparr>tbl_filter := if to_filter_policy opts = None then None else Some (new_FilterBlockReader (filter_contents e opts bss))\<rparr>" for cid
  proof (cases "to_filter_policy opts")
    case (Some p)
    let ?key = "filter_prefix @ fp_name p"
    let ?kvs = "[(?key, BlockHandle_EncodeTo (filter_handle e opts bss) [])]"
    have m: "meta_contents e opts bss = block_contents ?k ?kvs" by (simp add: meta_contents_def meta_kvs_def Some)
    have "key_order.sorted_kvs Slice_compare (\<lambda>_. True) ?kvs" by (simp add: key_order.sorted_kvs_def [OF bytewise_order])
    moreover have "length (block_contents ?k ?kvs) < 2 ^ 32" using bytes(2) by (simp add: b meta_def m)
    ultimately have "iter_entry (Iter_Seek Slice_compare ?key (Block_NewIterator (new_Block (meta_contents e opts bss)))) = Some (hd ?kvs)"
      using seek_entry [OF bytewise_order _ TrueI ok(3), of ?kvs ?key] by (simp add: m)
    then have it: "Iter_Valid (Iter_Seek Slice_compare ?key (Block_NewIterator (new_Block (meta_contents e opts bss))))"
      "Iter_key (Iter_Seek Slice_compare ?key (Block_NewIterator (new_Block (meta_contents e opts bss)))) = ?key"
      "Iter_value (Iter_Seek Slice_compare ?key (Block_NewIterator (new_Block (meta_contents e opts bss)))) = BlockHandle_EncodeTo (filter_handle e opts bss) []"
      by (simp_all add: iter_entry_simps)
    have "bytes = data @ raw_block e (filter_contents e opts bss) @ meta @ idx @ Footer_EncodeTo foot []" by (simp add: b flt_def filter_part_def Some)
    from ReadFilter_OK [OF ok(1,2) this small(1)] it rm Some show ?thesis
      by (simp add: ReadMeta_def Let_def filter_handle_def data_def)
  qed (simp add: ReadMeta_def t0_def)
  obtain cid c' where c': "(case cache of None \<Rightarrow> (0, c) | Some bc \<Rightarrow> bc_new_id bc c) = (cid, c')" by (rule prod.exhaust)
  have "Table_Open e read opts cache (of_nat ?n) c = (Inr (ReadMeta e read opts foot (t0 cid)), c')"
    unfolding Table_Open_def Let_def if_not_P [OF long] r prod.case fl sum.case ri c' t0_def by simp
  then show ?thesis using c' unfolding meta_read by (auto simp: t0_def split: option.splits)
qed

end

section \<open>Lookups\<close>

text \<open>
  A comparator under which keys that belong together lie side by side and are never parted by a separator: \<open>same\<close> relates internal keys with the same
  user key.
\<close>

locale lookup_keys = comparator compare valid separator successor for compare valid separator successor +
  fixes same :: "byte list \<Rightarrow> byte list \<Rightarrow> bool"
  assumes same_between: "\<lbrakk>valid a; valid b; valid c; compare a b \<le> 0; compare b c \<le> 0; same a c\<rbrakk> \<Longrightarrow> same a b"
    and same_separator: "\<lbrakk>valid a; valid b; valid t; compare a b < 0; compare a t < 0; compare t (separator a b) \<le> 0\<rbrakk> \<Longrightarrow> \<not> same t b"

context comparator
begin

lemma internal_same_between:
  assumes "internal_valid a" "internal_valid b" "internal_valid c" "Internal_Compare compare a b \<le> 0" "Internal_Compare compare b c \<le> 0"
    "compare (ExtractUserKey a) (ExtractUserKey c) = 0"
  shows "compare (ExtractUserKey a) (ExtractUserKey b) = 0"
proof -
  let ?a = "ExtractUserKey a" and ?b = "ExtractUserKey b" and ?c = "ExtractUserKey c"
  have le: "compare ?a ?b \<le> 0" "compare ?b ?c \<le> 0" using assms(4,5) by (auto simp: internal_le)
  have v: "valid ?a" "valid ?b" "valid ?c" using assms(1-3) by simp_all
  have "\<not> compare ?a ?b < 0" using less_le_trans [OF v _ le(2)] assms(6) by force
  with le(1) show ?thesis by linarith
qed

lemma internal_same_separator:
  assumes "internal_valid a" "internal_valid b" "internal_valid t" "Internal_Compare compare a b < 0" "Internal_Compare compare a t < 0"
    "Internal_Compare compare t (Internal_FindShortestSeparator compare separator a b) \<le> 0"
  shows "compare (ExtractUserKey t) (ExtractUserKey b) \<noteq> 0"
proof
  let ?sep = "Internal_FindShortestSeparator compare separator a b"
  let ?a = "ExtractUserKey a" and ?b = "ExtractUserKey b" and ?t = "ExtractUserKey t" and ?s = "ExtractUserKey ?sep"
  assume same: "compare ?t ?b = 0"
  have v: "valid ?a" "valid ?b" "valid ?t" using assms(1-3) by simp_all
  have "?sep \<noteq> a"
  proof
    assume "?sep = a"
    then have "Internal_Compare compare t a \<le> 0" using assms(6) by simp
    then show False using assms(5) internal_sign [OF assms(1,3)] by (auto simp: sgn_if split: if_splits)
  qed
  then have s: "?s = separator ?a ?b" "compare ?a ?b < 0"
    using assms(1-4) separator_other [OF v(1,2)] by (auto simp: Internal_FindShortestSeparator_def Let_def split: if_splits) force+
  have vs: "valid ?s" unfolding s(1) by (rule separator_valid [OF v(1,2)])
  have "compare ?s ?b < 0" using separator_less [OF v(1,2) s(2)] s(1) by simp
  moreover have "compare ?t ?s \<le> 0" using assms(6) by (auto simp: internal_le)
  ultimately have "compare ?t ?b < 0" using le_less_trans [OF v(3) vs v(2)] by blast
  then show False using same by simp
qed

lemma internal_lookup_keys:
  "lookup_keys (Internal_Compare compare) internal_valid (Internal_FindShortestSeparator compare separator)
     (Internal_FindShortSuccessor compare successor) (\<lambda>a b. compare (ExtractUserKey a) (ExtractUserKey b) = 0)"
  by (rule lookup_keys.intro [OF internal_comparator], unfold_locales) (use internal_same_between internal_same_separator in blast)+

end

interpretation internal_keys: lookup_keys "Internal_Compare Slice_compare" "\<lambda>k. 8 \<le> length k \<and> True"
  "Internal_FindShortestSeparator Slice_compare Bytewise_FindShortestSeparator" "Internal_FindShortSuccessor Slice_compare Bytewise_FindShortSuccessor"
  "\<lambda>a b. Slice_compare (ExtractUserKey a) (ExtractUserKey b) = 0"
  by (rule bytewise.internal_lookup_keys)

section \<open>The index\<close>

context lookup_keys
begin

definition order_opts :: "table_options \<Rightarrow> bool" where
  "order_opts opts \<longleftrightarrow> to_compare opts = compare \<and> to_separator opts = separator \<and> to_successor opts = successor"

lemma sorted_concat:
  assumes "sorted_kvs (concat bss)" "i < length bss"
  shows "sorted_kvs (bss ! i)" "\<lbrakk>i < j; j < length bss; x \<in> set (bss ! i); y \<in> set (bss ! j)\<rbrakk> \<Longrightarrow> compare (fst x) (fst y) < 0"
proof -
  have *: "sorted_kvs (xs @ ys) \<longleftrightarrow> sorted_kvs xs \<and> sorted_kvs ys \<and> (\<forall>x \<in> set xs. \<forall>y \<in> set ys. compare (fst x) (fst y) < 0)" for xs ys :: "(byte list \<times> 'c) list"
    by (auto simp: sorted_kvs_def sorted_wrt_append)
  have split: "concat bss = concat (take i bss) @ bss ! i @ concat (drop (Suc i) bss)"
    using assms(2) by (metis append_assoc concat.simps(2) concat_append id_take_nth_drop)
  show "sorted_kvs (bss ! i)" using assms(1) unfolding split * by blast
  assume j: "i < j" "j < length bss" "x \<in> set (bss ! i)" "y \<in> set (bss ! j)"
  have "bss ! j \<in> set (drop (Suc i) bss)" using j by (auto simp: in_set_conv_nth intro!: exI [of _ "j - Suc i"])
  then have "y \<in> set (concat (drop (Suc i) bss))" using j(4) by auto
  then show "compare (fst x) (fst y) < 0" using assms(1) j(3) unfolding split * by blast
qed

text \<open>The keys of the index lie between the blocks.\<close>

lemma sep_key_bounds:
  assumes opts: "order_opts opts" and s: "sorted_kvs (concat bss)" "[] \<notin> set bss" and i: "i < length bss"
  shows "valid (sep_key opts bss i)" "x \<in> set (bss ! i) \<Longrightarrow> compare (fst x) (sep_key opts bss i) \<le> 0"
    "\<lbrakk>i < j; j < length bss; y \<in> set (bss ! j)\<rbrakk> \<Longrightarrow> compare (sep_key opts bss i) (fst y) < 0"
proof -
  let ?l = "fst (last (bss ! i))" and ?f = "fst (hd (bss ! Suc i))"
  have ne: "bss ! j \<noteq> []" if "j < length bss" for j using s(2) that by (metis nth_mem)
  have v: "valid (fst y)" if "y \<in> set (bss ! j)" "j < length bss" for j y using sorted_concat(1) [OF s(1) that(2)] that(1) by (simp add: sorted_kvs_def)
  have l: "last (bss ! i) \<in> set (bss ! i)" "valid ?l" using ne [OF i] v [OF _ i, of "last (bss ! i)"] by simp_all
  have f: "hd (bss ! Suc i) \<in> set (bss ! Suc i)" "valid ?f" "compare ?l ?f < 0" if "Suc i < length bss"
    using ne [OF that] v [OF _ that, of "hd (bss ! Suc i)"] sorted_concat(2) [OF s(1) i lessI that l(1)] by simp_all
  have sep: "Suc i < length bss \<Longrightarrow> sep_key opts bss i = separator ?l ?f" "\<not> Suc i < length bss \<Longrightarrow> sep_key opts bss i = successor ?l"
    using opts by (simp_all add: sep_key_def order_opts_def)
  show vs: "valid (sep_key opts bss i)"
    by (cases "Suc i < length bss") (simp_all add: sep separator_valid l(2) f(2) successor_valid)
  have ls: "compare ?l (sep_key opts bss i) \<le> 0"
    by (cases "Suc i < length bss") (simp_all add: sep separator_less l(2) f(2,3) successor_le)
  show "compare (fst x) (sep_key opts bss i) \<le> 0" if "x \<in> set (bss ! i)"
  proof -
    have "compare (fst x) ?l \<le> 0"
    proof (cases "x = last (bss ! i)")
      case False
      obtain ys where ys: "bss ! i = ys @ [last (bss ! i)]" using ne [OF i] by (metis append_butlast_last_id)
      with that False have "x \<in> set ys" by (metis Un_iff empty_iff insert_iff list.set(1) list.set(2) set_append)
      moreover have "sorted_wrt (\<lambda>x y. compare (fst x) (fst y) < 0) (ys @ [last (bss ! i)])"
        using sorted_concat(1) [OF s(1) i] ys by (simp add: sorted_kvs_def)
      ultimately show ?thesis by (auto simp: sorted_wrt_append)
    qed (use l in simp)
    from trans [OF v [OF that i] l(2) vs this ls] show ?thesis .
  qed
  show "compare (sep_key opts bss i) (fst y) < 0" if "i < j" "j < length bss" "y \<in> set (bss ! j)"
  proof -
    have Si: "Suc i < length bss" using that by simp
    have sf: "compare (sep_key opts bss i) ?f < 0" using separator_less l(2) f(2,3) Si by (simp add: sep)
    show ?thesis
    proof (cases "j = Suc i")
      case True
      show ?thesis
      proof (cases "y = hd (bss ! Suc i)")
        case False
        obtain ys where ys: "bss ! Suc i = hd (bss ! Suc i) # ys" using ne [OF Si] by (metis list.collapse)
        with that(3) False True have "y \<in> set ys" by (metis set_ConsD)
        moreover have "sorted_wrt (\<lambda>x y. compare (fst x) (fst y) < 0) (hd (bss ! Suc i) # ys)"
          using sorted_concat(1) [OF s(1) Si] ys by (simp add: sorted_kvs_def)
        ultimately have "compare ?f (fst y) < 0" by auto
        with less_le_trans [OF vs f(2) [OF Si] v [OF that(3,2)] sf] show ?thesis by simp
      qed (use sf in simp)
    next
      case False
      then have "compare ?f (fst y) < 0" using sorted_concat(2) [OF s(1) Si _ that(2) f(1) [OF Si] that(3)] that(1) by simp
      with less_le_trans [OF vs f(2) [OF Si] v [OF that(3,2)] sf] show ?thesis by simp
    qed
  qed
qed

lemma index_sorted:
  assumes opts: "order_opts opts" and s: "sorted_kvs (concat bss)" "[] \<notin> set bss"
  shows "sorted_kvs (index_kvs e opts bss (length bss))"
proof -
  have "compare (sep_key opts bss i) (sep_key opts bss j) < 0" if ij: "i < j" "j < length bss" for i j
  proof -
    have i: "i < length bss" using ij by simp
    obtain y where y: "y \<in> set (bss ! j)" using s(2) ij(2) by (metis last_in_set nth_mem)
    have vy: "valid (fst y)" using sorted_concat(1) [OF s(1) ij(2)] y by (simp add: sorted_kvs_def)
    show ?thesis
      by (rule less_le_trans [OF sep_key_bounds(1) [OF opts s i] vy sep_key_bounds(1) [OF opts s ij(2)]
          sep_key_bounds(3) [OF opts s i ij y] sep_key_bounds(2) [OF opts s ij(2) y]])
  qed
  then show ?thesis
    using sep_key_bounds(1) [OF opts s] by (auto simp: sorted_kvs_def index_kvs_def sorted_wrt_iff_nth_less)
qed

end

section \<open>Lookups in a table\<close>

text \<open>
  What the block cache promises: it only gives out blocks that were put into it under the same key. \<open>holds c key b\<close> says that the
  cache may give \<open>b\<close> for \<open>key\<close>.
\<close>

definition cache_sound :: "'c block_cache \<Rightarrow> ('c \<Rightarrow> byte list \<Rightarrow> block \<Rightarrow> bool) \<Rightarrow> bool" where
  "cache_sound bc holds \<longleftrightarrow>
     (\<forall>key c r c'. bc_lookup bc key c = (r, c') \<longrightarrow> (\<forall>b. r = Some b \<longrightarrow> holds c key b) \<and> (\<forall>k b. holds c' k b \<longrightarrow> holds c k b)) \<and>
     (\<forall>key b n c k b'. holds (bc_insert bc key b n c) k b' \<longrightarrow> k = key \<and> b' = b \<or> holds c k b')"

definition cache_key :: "u64 \<Rightarrow> block_handle \<Rightarrow> byte list" where
  "cache_key cid h = EncodeFixed64 cid @ EncodeFixed64 (bh_offset h)"

text \<open>Whatever the cache holds for a data block of the table is that block.\<close>

definition cache_agrees :: "crc_env \<Rightarrow> nat \<Rightarrow> kv list list \<Rightarrow> u64 \<Rightarrow> 'c block_cache option \<Rightarrow> ('c \<Rightarrow> byte list \<Rightarrow> block \<Rightarrow> bool) \<Rightarrow> 'c \<Rightarrow> bool" where
  "cache_agrees e k bss cid cache holds c \<longleftrightarrow> (cache \<noteq> None \<longrightarrow>
     (\<forall>i < length bss. \<forall>b. holds c (cache_key cid (data_handle e k bss i)) b \<longrightarrow> b = new_Block (block_contents k (bss ! i))))"

lemma of_nat_inj_64: "a < 2 ^ 64 \<Longrightarrow> b < 2 ^ 64 \<Longrightarrow> of_nat a = (of_nat b :: u64) \<Longrightarrow> a = b"
  using unat_of_nat_64 by metis

lemma data_offset_inj:
  assumes "i < length bss" "j < length bss" "length (data_bytes e k bss) < 2 ^ 64" "bh_offset (data_handle e k bss i) = bh_offset (data_handle e k bss j)"
  shows "i = j"
proof -
  have mono: "length (data_bytes e k (take i bss)) < length (data_bytes e k (take j bss))" if "i < j" "j \<le> length bss" for i j
  proof -
    have "data_bytes e k (take j bss) = data_bytes e k (take i bss) @ data_bytes e k (take (j - i) (drop i bss))"
      using that take_add [of i "j - i" bss] by (simp add: data_bytes_def)
    moreover have "take (j - i) (drop i bss) = bss ! i # take (j - i - 1) (drop (Suc i) bss)"
      using that by (cases "j - i") (simp_all add: Cons_nth_drop_Suc [symmetric])
    ultimately show ?thesis by (simp add: data_bytes_def)
  qed
  have le: "length (data_bytes e k (take i bss)) \<le> length (data_bytes e k bss)" if "i < length bss" for i
    using mono [of i "length bss"] that by simp
  have "of_nat (length (data_bytes e k (take i bss))) = (of_nat (length (data_bytes e k (take j bss))) :: u64)"
    using assms(4) by (simp add: data_handle_def handle_at_def)
  from of_nat_inj_64 [OF le_less_trans [OF le [OF assms(1)] assms(3)] le_less_trans [OF le [OF assms(2)] assms(3)] this]
  have eq: "length (data_bytes e k (take i bss)) = length (data_bytes e k (take j bss))" .
  show ?thesis
  proof (rule ccontr)
    assume "i \<noteq> j"
    then consider "i < j" | "j < i" by linarith
    then show False by cases (use mono [of i j] mono [of j i] assms(1,2) eq in simp_all)
  qed
qed

lemma filter_covers:
  assumes "i < length bss"
  shows "(bh_offset (data_handle e k bss i), map fst (bss ! i)) \<in> set (filter_blks e k bss [])"
  using assms by (auto simp: filter_blks_def data_handle_def handle_at_def)

lemma filter_blks_sorted:
  assumes "length (data_bytes e k bss) < 2 ^ 64"
  shows "sorted (map fst (filter_blks e k bss []))"
proof -
  have mono: "length (data_bytes e k (take i bss)) \<le> length (data_bytes e k (take j bss))" if "i \<le> j" for i j
  proof -
    have "data_bytes e k (take j bss) = data_bytes e k (take i bss) @ data_bytes e k (take (j - i) (drop i bss))"
      using that take_add [of i "j - i" bss] by (simp add: data_bytes_def)
    then show ?thesis by simp
  qed
  have "filter_blks e k bss [] = map (\<lambda>i. (of_nat (length (data_bytes e k (take i bss))), if i < length bss then map fst (bss ! i) else [])) [0..<Suc (length bss)]"
    by (simp add: filter_blks_def)
  moreover have "(of_nat (length (data_bytes e k (take i bss))) :: u64) \<le> of_nat (length (data_bytes e k (take j bss)))" if "i \<le> j" for i j
  proof -
    have "length (data_bytes e k (take n bss)) < 2 ^ 64" for n using mono [of n "max n (length bss)"] assms by (cases "n \<le> length bss") (simp_all add: max_def)
    then show ?thesis using mono [OF that] by (simp add: word_le_nat_alt unat_of_nat_64)
  qed
  ultimately show ?thesis by (simp add: sorted_iff_nth_mono del: upt_Suc)
qed

locale table_lookup = random_file read bytes env_ok + lookup_keys compare valid separator successor same
  for read bytes env_ok compare valid separator successor same +
  fixes opts :: table_options
  assumes opts_order: "order_opts opts"
    and opts_policy: "to_filter_policy opts = Some p \<Longrightarrow> filter_policy (fp_create p) (fp_match p) valid"
    and match_same: "to_filter_policy opts = Some p \<Longrightarrow> same a b \<Longrightarrow> fp_match p a f = fp_match p b f"
begin

lemma BlockReader_OK:
  assumes ok: "env_ok" "crc_ok e" "0 < to_block_restart_interval opts" and bytes: "bytes = table_bytes e opts bss" "length bytes < 2 ^ 32"
    and i: "i < length bss" and cache: "\<And>bc. cache = Some bc \<Longrightarrow> cache_sound bc holds"
      "cache_agrees e (to_block_restart_interval opts) bss (tbl_cache_id t) cache holds c"
  shows "\<exists>c'. BlockReader e read cache ro t (BlockHandle_EncodeTo (data_handle e (to_block_restart_interval opts) bss i) []) c =
      (Block_NewIterator (new_Block (block_contents (to_block_restart_interval opts) (bss ! i))), c')
    \<and> cache_agrees e (to_block_restart_interval opts) bss (tbl_cache_id t) cache holds c'"
proof -
  let ?k = "to_block_restart_interval opts"
  let ?h = "data_handle e ?k bss i" and ?c = "block_contents ?k (bss ! i)"
  let ?data = "data_bytes e ?k bss"
  obtain post where b: "bytes = data_bytes e ?k (take i bss) @ raw_block e ?c @ post"
    by (auto simp: bytes(1) table_bytes_def Let_def data_bytes_split [OF i])
  have len: "length ?data < 2 ^ 64" using bytes by (simp add: table_bytes_def Let_def)
  have "length bytes < 2 ^ 63" using bytes(2) by simp
  from ReadBlock_raw [OF ok(1,2) b this] obtain cachable where r: "ReadBlock e read (ro_verify_checksums ro) ?h = Inr (?c, cachable)"
    by (auto simp: data_handle_def)
  have d: "BlockHandle_DecodeFrom (BlockHandle_EncodeTo ?h []) = Inr (?h, [])" using BlockHandle_Decode_Encode [of ?h "[]"] by simp
  show ?thesis
  proof (cases cache)
    case None
    then show ?thesis using cache(2) by (simp add: BlockReader_def d r)
  next
    case (Some bc)
    obtain l c1 where l: "bc_lookup bc (cache_key (tbl_cache_id t) ?h) c = (l, c1)" by (rule prod.exhaust)
    have snd: "\<forall>b. l = Some b \<longrightarrow> holds c (cache_key (tbl_cache_id t) ?h) b" "\<forall>k b. holds c1 k b \<longrightarrow> holds c k b"
      using cache(1) [OF Some] l unfolding cache_sound_def by blast+
    have ins: "\<forall>key b n c k b'. holds (bc_insert bc key b n c) k b' \<longrightarrow> k = key \<and> b' = b \<or> holds c k b'"
      using cache(1) [OF Some] unfolding cache_sound_def by blast
    have c1: "cache_agrees e ?k bss (tbl_cache_id t) cache holds c1" using cache(2) snd(2) by (simp add: cache_agrees_def)
    show ?thesis
    proof (cases l)
      case None
      let ?c2 = "if cachable \<and> ro_fill_cache ro then bc_insert bc (cache_key (tbl_cache_id t) ?h) (new_Block ?c) (bk_size (new_Block ?c)) c1 else c1"
      have inj: "j = i" if "j < length bss" "cache_key (tbl_cache_id t) (data_handle e ?k bss j) = cache_key (tbl_cache_id t) ?h" for j
      proof -
        have "EncodeFixed64 (bh_offset (data_handle e ?k bss j)) = EncodeFixed64 (bh_offset ?h)" using that(2) by (simp add: cache_key_def)
        then have "bh_offset (data_handle e ?k bss j) = bh_offset ?h" by (metis DecodeFixed64_Encode)
        then show ?thesis using data_offset_inj [OF that(1) i len] by simp
      qed
      have "cache_agrees e ?k bss (tbl_cache_id t) cache holds ?c2"
        using c1 ins inj by (auto simp: cache_agrees_def) blast+
      then show ?thesis using None l unfolding cache_key_def by (auto simp: BlockReader_def d r Some Let_def split: if_splits)
    next
      case (Some b)
      have "b = new_Block ?c" using cache(2) snd(1) i Some \<open>cache = Some bc\<close> by (simp add: cache_agrees_def)
      then show ?thesis using Some l c1 \<open>cache = Some bc\<close> by (simp add: BlockReader_def d Let_def cache_key_def)
    qed
  qed
qed

end

lemma in_concat_iff: "x \<in> set (concat bss) \<longleftrightarrow> (\<exists>j < length bss. x \<in> set (bss ! j))"
  by (metis UN_iff in_set_conv_nth set_concat)

lemma find_concat:
  "\<lbrakk>b < length bss; \<forall>i < b. \<forall>x \<in> set (bss ! i). \<not> P x; find P (bss ! b) = Some x\<rbrakk> \<Longrightarrow> find P (concat bss) = Some x"
proof (induction bss arbitrary: b)
  case (Cons xs bss)
  have app: "find P (xs @ ys) = (case find P xs of None \<Rightarrow> find P ys | r \<Rightarrow> r)" for ys by (induction xs) simp_all
  show ?case
  proof (cases b)
    case (Suc b')
    then have "\<forall>x \<in> set xs. \<not> P x" using Cons.prems(2) by force
    then have "find P xs = None" by (auto simp: find_None_iff)
    moreover have "\<forall>i < b'. \<forall>x \<in> set (bss ! i). \<not> P x" using Cons.prems(2) Suc by force
    with Cons.IH [of b'] Cons.prems(1,3) Suc have "find P (concat bss) = Some x" by simp
    ultimately show ?thesis by (simp add: app)
  qed (use Cons.prems(3) in \<open>simp add: app\<close>)
qed simp

context lookup_keys
begin

text \<open>No entry of the target lies outside the block that the index points to.\<close>

lemma entry_in_block:
  assumes opts: "order_opts opts" and s: "sorted_kvs (concat bss)" "[] \<notin> set bss" and t: "valid target" and b: "b < length bss"
    and low: "\<forall>i < b. compare (sep_key opts bss i) target < 0" and high: "\<not> compare (sep_key opts bss b) target < 0"
    and none: "\<forall>y \<in> set (bss ! b). same target (fst y) \<longrightarrow> compare (fst y) target < 0"
    and x: "x \<in> set (concat bss)" "same target (fst x)"
  shows "compare (fst x) target < 0"
proof (rule ccontr)
  assume nx: "\<not> compare (fst x) target < 0"
  from x(1) obtain j where j: "j < length bss" "x \<in> set (bss ! j)" unfolding in_concat_iff by blast
  have v: "valid (fst y)" if "y \<in> set (bss ! i)" "i < length bss" for i y using sorted_concat(1) [OF s(1) that(2)] that(1) by (simp add: sorted_kvs_def)
  note vs = sep_key_bounds(1) [OF opts s] and vx = v [OF j(2,1)]
  have "\<not> j < b"
  proof
    assume "j < b"
    then have "compare (sep_key opts bss j) target < 0" using low by blast
    from le_less_trans [OF vx vs [OF j(1)] t sep_key_bounds(2) [OF opts s j] this] nx show False by blast
  qed
  moreover have "j \<noteq> b" using none x(2) nx j(2) by blast
  ultimately have bj: "b < j" by simp
  show False
  proof (cases "\<exists>y \<in> set (bss ! b). \<not> compare (fst y) target < 0")
    case True
    then obtain y where y: "y \<in> set (bss ! b)" "\<not> compare (fst y) target < 0" by blast
    have "compare (fst y) (fst x) \<le> 0" using sorted_concat(2) [OF s(1) b bj j(1) y(1) j(2)] by simp
    moreover have "compare target (fst y) \<le> 0" using flip_le [OF v [OF y(1) b] t] y(2) by simp
    ultimately have "same target (fst y)" using same_between [OF t v [OF y(1) b] vx] x(2) by blast
    then show False using none y by blast
  next
    case False
    have Sb: "Suc b < length bss" using bj j(1) by simp
    have ne: "bss ! i \<noteq> []" if "i < length bss" for i using s(2) that by (metis nth_mem)
    let ?l = "last (bss ! b)" and ?f = "hd (bss ! Suc b)"
    have m: "?l \<in> set (bss ! b)" "?f \<in> set (bss ! Suc b)" using ne [OF b] ne [OF Sb] by simp_all
    have lf: "compare (fst ?l) (fst ?f) < 0" using sorted_concat(2) [OF s(1) b lessI Sb m] .
    have lt: "compare (fst ?l) target < 0" using False m(1) by blast
    have sep: "sep_key opts bss b = separator (fst ?l) (fst ?f)" using opts Sb by (simp add: sep_key_def order_opts_def)
    have ts: "compare target (sep_key opts bss b) \<le> 0" using flip_le [OF vs [OF b] t] high by simp
    from same_separator [OF v [OF m(1) b] v [OF m(2) Sb] t lf lt ts [unfolded sep]] have "\<not> same target (fst ?f)" .
    moreover have "compare target (fst ?f) \<le> 0"
      using le_less_trans [OF t vs [OF b] v [OF m(2) Sb] ts sep_key_bounds(3) [OF opts s b lessI Sb m(2)]] by simp
    moreover have "compare (fst ?f) (fst x) \<le> 0"
    proof (cases "j = Suc b")
      case True
      show ?thesis
      proof (cases "x = ?f")
        case False
        obtain ys where ys: "bss ! Suc b = ?f # ys" using ne [OF Sb] by (metis list.collapse)
        with j(2) False True have "x \<in> set ys" by (metis set_ConsD)
        moreover have "sorted_wrt (\<lambda>x y. compare (fst x) (fst y) < 0) (?f # ys)"
          using sorted_concat(1) [OF s(1) Sb] ys by (simp add: sorted_kvs_def)
        ultimately show ?thesis by auto
      qed (use vx in simp)
    next
      case False
      then show ?thesis using sorted_concat(2) [OF s(1) Sb _ j(1) m(2) j(2)] bj by simp
    qed
    ultimately show False using same_between [OF t v [OF m(2) Sb] vx] x(2) by blast
  qed
qed

end

context table_lookup
begin

definition opened :: "crc_env \<Rightarrow> kv list list \<Rightarrow> table \<Rightarrow> bool" where
  "opened e bss t \<longleftrightarrow> tbl_index_block t = new_Block (index_contents e opts bss) \<and>
     tbl_filter t = (if to_filter_policy opts = None then None else Some (new_FilterBlockReader (filter_contents e opts bss)))"

lemma filter_admits:
  assumes bytes: "bytes = table_bytes e opts bss" "length bytes < 2 ^ 32" and s: "sorted_kvs (concat bss)" and i: "i < length bss" "y \<in> set (bss ! i)"
    and p: "to_filter_policy opts = Some p" and same: "same target (fst y)"
  shows "Filter_KeyMayMatch (fp_match p) (new_FilterBlockReader (filter_contents e opts bss)) (bh_offset (data_handle e (to_block_restart_interval opts) bss i)) target"
proof -
  let ?k = "to_block_restart_interval opts"
  let ?blks = "filter_blks e ?k bss []"
  have fb: "filter_contents e opts bss = filter_block (fp_create p) ?blks" by (simp add: filter_contents_def p)
  have "length (data_bytes e ?k bss) < 2 ^ 64" "length (filter_block (fp_create p) ?blks) < 2 ^ 32"
    using bytes by (simp_all add: table_bytes_def Let_def filter_part_def p fb)
  moreover have "\<forall>k \<in> set (concat (map snd ?blks)). valid k"
    using s by (auto simp: filter_blks_def sorted_kvs_def)
  ultimately have "Filter_KeyMayMatch (fp_match p) (new_FilterBlockReader (filter_block (fp_create p) ?blks)) (bh_offset (data_handle e ?k bss i)) (fst y)"
    using filter_policy.filter_block_complete [OF opts_policy [OF p] filter_blks_sorted _ _ filter_covers [OF i(1)], of e ?k "fst y"] i(2) by simp
  moreover have "fp_match p target = fp_match p (fst y)" using match_same [OF p same] by blast
  then have "Filter_KeyMayMatch (fp_match p) r off target = Filter_KeyMayMatch (fp_match p) r off (fst y)" for r off
    unfolding Filter_KeyMayMatch_def Let_def by (simp only:)
  ultimately show ?thesis unfolding fb by blast
qed

lemma InternalGet_OK:
  assumes ok: "env_ok" "crc_ok e" "0 < to_block_restart_interval opts" and bytes: "bytes = table_bytes e opts bss" "length bytes < 2 ^ 32"
    and s: "sorted_kvs (concat bss)" "[] \<notin> set bss" and t: "opened e bss t" "valid target"
    and cache: "\<And>bc. cache = Some bc \<Longrightarrow> cache_sound bc holds"
      "cache_agrees e (to_block_restart_interval opts) bss (tbl_cache_id t) cache holds c"
  shows "\<exists>res c'. InternalGet e read opts cache ro target t c = (OK, res, c')
    \<and> cache_agrees e (to_block_restart_interval opts) bss (tbl_cache_id t) cache holds c'
    \<and> (case res of Some x \<Rightarrow> find (\<lambda>x. \<not> compare (fst x) target < 0) (concat bss) = Some x
       | None \<Rightarrow> \<forall>x \<in> set (concat bss). same target (fst x) \<longrightarrow> compare (fst x) target < 0)"
proof -
  let ?k = "to_block_restart_interval opts"
  let ?P = "\<lambda>x. \<not> compare (fst x) target < 0"
  let ?idx = "index_kvs e opts bss (length bss)"
  let ?enc = "\<lambda>i. BlockHandle_EncodeTo (data_handle e ?k bss i) []"
  define iiter where "iiter = Iter_Seek compare target (Block_NewIterator (tbl_index_block t))"
  have cmp: "to_compare opts = compare" using opts_order by (simp add: order_opts_def)
  have "length (block_contents 1 ?idx) < 2 ^ 32" using bytes by (simp add: table_bytes_def Let_def index_contents_def)
  from seek_entry [OF key_order_axioms index_sorted [OF opts_order s] t(2) _ this]
  have ii: "iter_entry iiter = find ?P ?idx" "Iter_status iiter = OK" using t(1) by (simp_all add: iiter_def opened_def index_contents_def)
  show ?thesis
  proof (cases "find ?P ?idx")
    case None
    have "compare (fst x) target < 0" if "x \<in> set (concat bss)" for x
    proof -
      from that obtain j where j: "j < length bss" "x \<in> set (bss ! j)" unfolding in_concat_iff by blast
      have "compare (sep_key opts bss j) target < 0" using None j(1) by (auto simp: find_None_iff index_kvs_def)
      moreover have "valid (fst x)" using s(1) that by (auto simp: sorted_kvs_def)
      ultimately show ?thesis using le_less_trans [OF _ sep_key_bounds(1) [OF opts_order s j(1)] t(2) sep_key_bounds(2) [OF opts_order s j]] by blast
    qed
    moreover have "\<not> Iter_Valid iiter" using ii(1) None by (simp add: iter_entry_simps)
    then have "InternalGet e read opts cache ro target t c = (OK, None, c)" using ii(2) by (simp add: InternalGet_def Let_def cmp iiter_def)
    ultimately show ?thesis using cache(2) by auto
  next
    case (Some kv)
    then obtain b where b: "b < length bss" "?P (?idx ! b)" "kv = ?idx ! b" "\<forall>j < b. \<not> ?P (?idx ! j)" by (auto simp: find_Some_iff index_kvs_def)
    then have kv: "kv = (sep_key opts bss b, ?enc b)" by (simp add: index_kvs_def)
    have low: "\<forall>i < b. compare (sep_key opts bss i) target < 0" and high: "\<not> compare (sep_key opts bss b) target < 0"
      using b by (auto simp: index_kvs_def)
    have iv: "Iter_Valid iiter" "Iter_value iiter = ?enc b" using ii(1) Some kv by (simp_all add: iter_entry_simps)
    define denied where "denied = (case (to_filter_policy opts, tbl_filter t) of
        (Some p, Some fr) \<Rightarrow> \<not> Filter_KeyMayMatch (fp_match p) fr (bh_offset (data_handle e ?k bss b)) target | _ \<Rightarrow> False)"
    have dec: "BlockHandle_DecodeFrom (?enc b) = Inr (data_handle e ?k bss b, [])" using BlockHandle_Decode_Encode [of _ "[]"] by simp
    from BlockReader_OK [OF ok bytes b(1) cache(1) cache(2), of ro] obtain c' where
      br: "BlockReader e read cache ro t (?enc b) c = (Block_NewIterator (new_Block (block_contents ?k (bss ! b))), c')"
      and c': "cache_agrees e ?k bss (tbl_cache_id t) cache holds c'" by blast
    define it where "it = Iter_Seek compare target (Block_NewIterator (new_Block (block_contents ?k (bss ! b))))"
    have get: "InternalGet e read opts cache ro target t c = (if denied then (OK, None, c) else (Iter_status it, iter_entry it, c'))"
      using ii(2) iv br by (auto simp: InternalGet_def Let_def cmp iiter_def [symmetric]) (auto simp: denied_def it_def dec iter_entry_def split: option.splits)
    have "length (block_contents ?k (bss ! b)) < 2 ^ 32" using bytes by (simp add: table_bytes_def Let_def data_bytes_split [OF b(1)])
    from seek_entry [OF key_order_axioms sorted_concat(1) [OF s(1) b(1)] t(2) ok(3) this]
    have it: "iter_entry it = find ?P (bss ! b)" "Iter_status it = OK" by (simp_all add: it_def)
    note none = entry_in_block [OF opts_order s t(2) b(1) low high]
    show ?thesis
    proof (cases denied)
      case True
      have "\<not> same target (fst y)" if "y \<in> set (bss ! b)" for y
      proof
        assume same: "same target (fst y)"
        from True t(1) obtain p where p: "to_filter_policy opts = Some p"
          "\<not> Filter_KeyMayMatch (fp_match p) (new_FilterBlockReader (filter_contents e opts bss)) (bh_offset (data_handle e ?k bss b)) target"
          by (auto simp: denied_def opened_def split: option.splits if_splits)
        with filter_admits [OF bytes s(1) b(1) that p(1) same] show False by blast
      qed
      then show ?thesis using get True none cache(2) by auto
    next
      case False
      show ?thesis
      proof (cases "find ?P (bss ! b)")
        case None
        then have "\<forall>y \<in> set (bss ! b). same target (fst y) \<longrightarrow> compare (fst y) target < 0" by (auto simp: find_None_iff)
        then show ?thesis using get False it None none c' by auto
      next
        case (Some x)
        have "\<not> ?P x" if "i < b" "x \<in> set (bss ! i)" for i x
        proof -
          have i: "i < length bss" using that(1) b(1) by simp
          have "valid (fst x)" using sorted_concat(1) [OF s(1) i] that(2) by (simp add: sorted_kvs_def)
          from le_less_trans [OF this sep_key_bounds(1) [OF opts_order s i] t(2) sep_key_bounds(2) [OF opts_order s i that(2)]] low that(1)
          show ?thesis by simp
        qed
        then have "find ?P (concat bss) = Some x" using find_concat [of b bss ?P x] b(1) Some by blast
        then show ?thesis using get False it Some c' by auto
      qed
    qed
  qed
qed

end

section \<open>Tables of the database\<close>

lemma db_table_lookup:
  assumes "random_file read bytes ok"
  shows "table_lookup read bytes ok (Internal_Compare Slice_compare) (\<lambda>k. 8 \<le> length k \<and> True)
    (Internal_FindShortestSeparator Slice_compare Bytewise_FindShortestSeparator) (Internal_FindShortSuccessor Slice_compare Bytewise_FindShortSuccessor)
    (\<lambda>a b. Slice_compare (ExtractUserKey a) (ExtractUserKey b) = 0) (SanitizeOptions (bytewise_options bits block_size k compression paranoid))"
proof (rule table_lookup.intro [OF assms internal_keys.lookup_keys_axioms], rule table_lookup_axioms.intro)
  let ?opts = "SanitizeOptions (bytewise_options bits block_size k compression paranoid)"
  show "internal_keys.order_opts ?opts" by (simp add: internal_keys.order_opts_def SanitizeOptions_def bytewise_options_def)
  fix p :: filter_policy_ops and a b f
  assume p: "to_filter_policy ?opts = Some p"
  then obtain n where n: "p = InternalFilterPolicy (BloomPolicy n)" by (auto simp: SanitizeOptions_def bytewise_options_def)
  have valid: "filter_policy c m (\<lambda>k. 8 \<le> length k \<and> True)" if "filter_policy c m (\<lambda>_. True)" for c m
    by (rule filter_policy.intro) (rule filter_policy.create_append [OF that], rule filter_policy.no_false_negative [OF that], simp_all)
  have "filter_policy (fp_create p) (fp_match p) (\<lambda>_. True)"
    using internal_bloom.filter_policy_axioms by (simp add: n InternalFilterPolicy_def BloomPolicy_def)
  then show "filter_policy (fp_create p) (fp_match p) (\<lambda>k. 8 \<le> length k \<and> True)" by (rule valid)
  assume "Slice_compare (ExtractUserKey a) (ExtractUserKey b) = 0"
  then show "fp_match p a f = fp_match p b f" by (simp add: n InternalFilterPolicy_def BloomPolicy_def InternalFilterPolicy_KeyMayMatch_def)
qed

interpretation db_table: table_lookup "mmap_read px filename bytes" bytes "length bytes < 2 ^ 63" "Internal_Compare Slice_compare" "\<lambda>k. 8 \<le> length k \<and> True"
  "Internal_FindShortestSeparator Slice_compare Bytewise_FindShortestSeparator" "Internal_FindShortSuccessor Slice_compare Bytewise_FindShortSuccessor"
  "\<lambda>a b. Slice_compare (ExtractUserKey a) (ExtractUserKey b) = 0" "SanitizeOptions (bytewise_options bits block_size k compression paranoid)"
  for px :: "'w posix" and filename bytes bits block_size k compression paranoid
  by (rule db_table_lookup [OF mmap_file.random_file_axioms])

section \<open>Operations in a table\<close>

text \<open>The entries of operations, as the memtable and the tables order them.\<close>

definition op_kv :: "mem_op \<Rightarrow> kv" where
  "op_kv e = (op_ikey e, op_value e)"

lemma below_target:
  assumes "op_ok e" "s \<le> kMaxSequenceNumber"
  shows "Internal_Compare Slice_compare (op_ikey e) (internal_key (new_LookupKey user s)) < 0 \<longleftrightarrow>
    Slice_compare (op_key e) user < 0 \<or> op_key e = user \<and> s < op_seq e"
proof -
  let ?t = "\<lparr>op_seq = s, op_type = kTypeValue, op_key = user, op_value = []\<rparr>"
  have t: "internal_key (new_LookupKey user s) = op_ikey ?t" using LookupKey_parts(2) [OF HOL.refl, of user s] by (simp add: op_ikey_def)
  have "PackSequenceAndType s kTypeValue < PackSequenceAndType (op_seq e) (op_type e) \<longleftrightarrow> s < op_seq e"
    using assms PackSequenceAndType_bounds [of s kTypeValue] PackSequenceAndType_bounds [of "op_seq e" "op_type e"]
    by (cases "op_type e") (auto simp: word_less_nat_alt op_ok_def value_type_code_def)
  then show ?thesis by (auto simp: t Internal_Compare_def Let_def)
qed

lemma ikey_le:
  assumes "op_ok e" "op_ok e'"
  shows "Internal_Compare Slice_compare (op_ikey e) (op_ikey e') \<le> 0 \<longleftrightarrow> Slice_compare (op_key e) (op_key e') < 0 \<or>
    op_key e = op_key e' \<and> PackSequenceAndType (op_seq e') (op_type e') \<le> PackSequenceAndType (op_seq e) (op_type e)"
  by (simp add: bytewise.internal_le)

text \<open>What a lookup in a table promises, for an internal key as the target.\<close>

definition table_answer :: "kv list \<Rightarrow> byte list \<Rightarrow> kv option \<Rightarrow> bool" where
  "table_answer kvs target res \<longleftrightarrow>
     (case res of Some x \<Rightarrow> find (\<lambda>x. \<not> Internal_Compare Slice_compare (fst x) target < 0) kvs = Some x
      | None \<Rightarrow> \<forall>x \<in> set kvs. ExtractUserKey (fst x) = ExtractUserKey target \<longrightarrow> Internal_Compare Slice_compare (fst x) target < 0)"

definition saved :: "mem_get \<Rightarrow> SaverState \<times> byte list" where
  "saved r = (case r of Found v \<Rightarrow> (kFound, v) | Deleted _ \<Rightarrow> (kDeleted, []) | Missing \<Rightarrow> (kNotFound, []))"

lemma SaveValue_op:
  assumes "op_ok e"
  shows "SaveValue Slice_compare user (op_ikey e) v (kNotFound, []) =
    (if op_key e = user then case op_type e of kTypeValue \<Rightarrow> (kFound, v) | kTypeDeletion \<Rightarrow> (kDeleted, []) else (kNotFound, []))"
  using ParseInternalKey_Append [of "\<lparr>pk_user_key = op_key e, pk_sequence = op_seq e, pk_type = op_type e\<rparr>"] assms
  by (simp add: SaveValue_def op_ikey_def op_ok_def split: ValueType.splits)

lemma SaveValue_lookup:
  assumes es: "\<forall>e \<in> set es. op_ok e" "sorted_wrt (<) (map op_seq es)" "set kvs = op_kv ` set es"
    and sorted: "sorted_wrt (\<lambda>x y. Internal_Compare Slice_compare (fst x) (fst y) < 0) kvs"
    and s: "s \<le> kMaxSequenceNumber" and res: "table_answer kvs (internal_key (new_LookupKey user s)) res"
  shows "saver_result user res = saved (mem_lookup es user s)"
proof -
  let ?t = "internal_key (new_LookupKey user s)"
  define match where "match = (\<lambda>e :: mem_op. op_key e = user \<and> op_seq e \<le> s)"
  have ut: "ExtractUserKey ?t = user" using LookupKey_parts(2) [OF HOL.refl, of user s] by (simp add: AppendInternalKey_def)
  have Missing: "mem_lookup es user s = Missing" if "\<forall>e \<in> set es. \<not> match e"
    using that by (simp add: mem_lookup_def match_def [symmetric] filter_empty_conv [THEN iffD2])
  show ?thesis
  proof (cases res)
    case None
    have "\<not> match e" if "e \<in> set es" for e
    proof
      assume m: "match e"
      have "op_kv e \<in> set kvs" using es(3) that by simp
      then have "Internal_Compare Slice_compare (op_ikey e) ?t < 0" using res None m ut by (auto simp: table_answer_def op_kv_def match_def)
      then show False using below_target [of e s user] es(1) that s m by (auto simp: match_def)
    qed
    then show ?thesis using Missing None by (simp add: saver_result_def saved_def)
  next
    case (Some x)
    then have f: "find (\<lambda>x. \<not> Internal_Compare Slice_compare (fst x) ?t < 0) kvs = Some x" using res by (simp add: table_answer_def)
    then obtain i where i: "i < length kvs" "\<not> Internal_Compare Slice_compare (fst (kvs ! i)) ?t < 0" "x = kvs ! i"
      "\<forall>j < i. Internal_Compare Slice_compare (fst (kvs ! j)) ?t < 0" by (auto simp: find_Some_iff)
    then have "x \<in> set kvs" by simp
    then obtain e where e: "e \<in> set es" "x = op_kv e" using es(3) by auto
    have ok: "op_ok e" using e(1) es(1) by blast
    have "kvs ! i = op_kv e" using i(3) e(2) by simp
    then have "fst (kvs ! i) = op_ikey e" by (simp add: op_kv_def)
    then have above: "\<not> Slice_compare (op_key e) user < 0" "op_key e = user \<Longrightarrow> op_seq e \<le> s"
      using i(2) below_target [OF ok s, of user] by auto
    have first: "Internal_Compare Slice_compare (op_ikey e) (op_ikey e') \<le> 0" if "e' \<in> set es" "match e'" for e'
    proof -
      have "op_kv e' \<in> set kvs" using es(3) that(1) by simp
      then obtain j where j: "j < length kvs" "kvs ! j = op_kv e'" by (auto simp: in_set_conv_nth)
      have "\<not> Internal_Compare Slice_compare (op_ikey e') ?t < 0"
        using below_target [of e' s user] es(1) that s by (auto simp: match_def)
      then have "i \<le> j" using i(4) j(2) by (metis fst_conv not_le op_kv_def)
      then consider "i = j" | "i < j" by linarith
      then show ?thesis
      proof cases
        case 1
        then have "op_ikey e = op_ikey e'" using e(2) i(3) j(2) by (simp add: op_kv_def)
        then show ?thesis by (simp add: Internal_Compare_def)
      next
        case 2
        then have "Internal_Compare Slice_compare (fst (kvs ! i)) (fst (kvs ! j)) < 0" using sorted j(1) by (simp add: sorted_wrt_iff_nth_less)
        then show ?thesis using e(2) i(3) j(2) by (simp add: op_kv_def)
      qed
    qed
    show ?thesis
    proof (cases "op_key e = user")
      case False
      have "\<not> match e'" if "e' \<in> set es" for e'
        using first [OF that] ikey_le [OF ok, of e'] es(1) that above(1) False by (auto simp: match_def)
      then show ?thesis using Missing Some e(2) False by (simp add: saver_result_def saved_def op_kv_def SaveValue_op [OF ok])
    next
      case True
      have "op_seq e' \<le> op_seq e" if "e' \<in> set es" "match e'" for e'
      proof -
        have "PackSequenceAndType (op_seq e') (op_type e') \<le> PackSequenceAndType (op_seq e) (op_type e)"
          using first [OF that] ikey_le [OF ok, of e'] es(1) that True by (auto simp: match_def)
        then have "\<not> PackSequenceAndType (op_seq e) (op_type e) < PackSequenceAndType (op_seq e') (op_type e')" by simp
        then show ?thesis using tag_order [OF ok, of e'] es(1) that(1) by (auto simp: not_less)
      qed
      then obtain es' where "rev (filter match es) = e # es'" using newest_last [OF es(2) e(1), of match] above(2) True by (auto simp: match_def)
      then have "mem_lookup es user s = (case op_type e of kTypeValue \<Rightarrow> Found (op_value e) | kTypeDeletion \<Rightarrow> Deleted (NotFound (status_msg [] [])))"
        by (simp add: mem_lookup_def match_def)
      then show ?thesis using Some e(2) True by (simp add: saver_result_def saved_def op_kv_def SaveValue_op [OF ok] split: ValueType.splits)
    qed
  qed
qed

section \<open>The lookups of a client\<close>

text \<open>The cache goes from one lookup to the next.\<close>

definition table_get ::
  "crc_env \<Rightarrow> random_read \<Rightarrow> table_options \<Rightarrow> 'c block_cache option \<Rightarrow> read_options \<Rightarrow> byte list \<Rightarrow> u64 \<Rightarrow> table \<Rightarrow> 'c
     \<Rightarrow> (status \<times> SaverState \<times> byte list) \<times> 'c" where
  "table_get e read opts cache ro user s t c =
     (case InternalGet e read opts cache ro (internal_key (new_LookupKey user s)) t c of
        (status, res, c) \<Rightarrow>
          ((status, saver_result user res), c))"

primrec table_gets ::
  "crc_env \<Rightarrow> random_read \<Rightarrow> table_options \<Rightarrow> 'c block_cache option \<Rightarrow> read_options \<Rightarrow> table \<Rightarrow> (byte list \<times> u64) list \<Rightarrow> 'c
     \<Rightarrow> (status \<times> SaverState \<times> byte list) list" where
  "table_gets e read opts cache ro t [] c = []"
| "table_gets e read opts cache ro t (q # qs) c =
     (case table_get e read opts cache ro (fst q) (snd q) t c of (r, c) \<Rightarrow> r # table_gets e read opts cache ro t qs c)"

text \<open>An id that the cache has just given out has no blocks.\<close>

definition cache_ok :: "('c \<Rightarrow> byte list \<Rightarrow> block \<Rightarrow> bool) \<Rightarrow> 'c block_cache option \<Rightarrow> bool" where
  "cache_ok holds cache \<longleftrightarrow> (case cache of None \<Rightarrow> True
     | Some bc \<Rightarrow> cache_sound bc holds \<and> (\<forall>c cid c' key b. bc_new_id bc c = (cid, c') \<longrightarrow> \<not> holds c' (EncodeFixed64 cid @ key) b))"

lemma internal_sorted:
  "key_order.sorted_kvs (Internal_Compare Slice_compare) (\<lambda>k. 8 \<le> length k \<and> True) kvs \<longleftrightarrow>
    (\<forall>x \<in> set kvs. 8 \<le> length (fst x)) \<and> sorted_wrt (\<lambda>x y. Internal_Compare Slice_compare (fst x) (fst y) < 0) kvs"
  unfolding key_order.sorted_kvs_def [OF comparator.axioms(1) [OF lookup_keys.axioms(1) [OF internal_keys.lookup_keys_axioms]]] by auto

lemma table_get_OK:
  assumes opts_def: "opts = SanitizeOptions (bytewise_options bits block_size k compression paranoid)" and rf: "random_file read bytes ok" ok
    and ok: "crc_ok e" "0 < k" "bytes = table_bytes e opts bss" "length bytes < 2 ^ 32" and cache: "cache_ok holds cache"
    and es: "\<forall>e \<in> set es. op_ok e" "sorted_wrt (<) (map op_seq es)" "set (concat bss) = op_kv ` set es" "[] \<notin> set bss"
      "sorted_wrt (\<lambda>x y. Internal_Compare Slice_compare (fst x) (fst y) < 0) (concat bss)"
    and t: "tbl_index_block t = new_Block (index_contents e opts bss)"
      "tbl_filter t = (if to_filter_policy opts = None then None else Some (new_FilterBlockReader (filter_contents e opts bss)))"
    and agrees: "cache_agrees e (to_block_restart_interval opts) bss (tbl_cache_id t) cache holds c" and s: "s \<le> kMaxSequenceNumber"
  obtains res c' where "InternalGet e read opts cache ro (internal_key (new_LookupKey user s)) t c = (OK, res, c')"
    "saver_result user res = saved (mem_lookup es user s)" "cache_agrees e (to_block_restart_interval opts) bss (tbl_cache_id t) cache holds c'"
proof -
  let ?t = "internal_key (new_LookupKey user s)"
  have ut: "8 \<le> length ?t \<and> True" using LookupKey_parts(2) [OF HOL.refl, of user s] by (simp add: AppendInternalKey_def)
  have "\<forall>x \<in> set (concat bss). 8 \<le> length (fst x)" unfolding es(3) by (auto simp: op_kv_def)
  with es(5) have sorted: "key_order.sorted_kvs (Internal_Compare Slice_compare) (\<lambda>k. 8 \<le> length k \<and> True) (concat bss)" unfolding internal_sorted by blast
  note tl = db_table_lookup [OF rf(1), of bits block_size k compression paranoid, folded opts_def]
  have op: "table_lookup.opened opts e bss t" using t by (simp add: table_lookup.opened_def [OF tl])
  have k: "0 < to_block_restart_interval opts" using ok(2) by (simp add: opts_def SanitizeOptions_def bytewise_options_def)
  have sound: "cache = Some bc \<Longrightarrow> cache_sound bc holds" for bc using cache by (simp add: cache_ok_def)
  from table_lookup.InternalGet_OK [OF tl rf(2) ok(1) k ok(3,4) sorted es(4) op ut sound agrees, where ro = ro]
  obtain res c' where r: "InternalGet e read opts cache ro ?t t c = (OK, res, c')"
    "cache_agrees e (to_block_restart_interval opts) bss (tbl_cache_id t) cache holds c'"
    and res: "case res of Some x \<Rightarrow> find (\<lambda>x. \<not> Internal_Compare Slice_compare (fst x) ?t < 0) (concat bss) = Some x
       | None \<Rightarrow> \<forall>x \<in> set (concat bss). Slice_compare (ExtractUserKey ?t) (ExtractUserKey (fst x)) = 0 \<longrightarrow> Internal_Compare Slice_compare (fst x) ?t < 0"
    by blast
  have "table_answer (concat bss) ?t res" using res by (cases res) (auto simp: table_answer_def)
  from that [OF r(1) SaveValue_lookup [OF es(1-3,5) s this] r(2)] show thesis .
qed

lemma table_gets_OK:
  assumes "opts = SanitizeOptions (bytewise_options bits block_size k compression paranoid)" "random_file read bytes ok" ok
    and "crc_ok e" "0 < k" "bytes = table_bytes e opts bss" "length bytes < 2 ^ 32" "cache_ok holds cache"
    and "\<forall>e \<in> set es. op_ok e" "sorted_wrt (<) (map op_seq es)" "set (concat bss) = op_kv ` set es" "[] \<notin> set bss"
      "sorted_wrt (\<lambda>x y. Internal_Compare Slice_compare (fst x) (fst y) < 0) (concat bss)"
    and "tbl_index_block t = new_Block (index_contents e opts bss)"
      "tbl_filter t = (if to_filter_policy opts = None then None else Some (new_FilterBlockReader (filter_contents e opts bss)))"
    and "cache_agrees e (to_block_restart_interval opts) bss (tbl_cache_id t) cache holds c" "\<forall>q \<in> set qs. snd q \<le> kMaxSequenceNumber"
  shows "table_gets e read opts cache ro t qs c = map (\<lambda>(user, s). (OK, saved (mem_lookup es user s))) qs"
  using assms(16-)
proof (induction qs arbitrary: c)
  case (Cons q qs)
  obtain user s where q: "q = (user, s)" by (rule prod.exhaust)
  from Cons.prems(2) q have "s \<le> kMaxSequenceNumber" by simp
  from table_get_OK [OF assms(1-15) Cons.prems(1) this, of ro user] obtain res c' where
    r: "InternalGet e read opts cache ro (internal_key (new_LookupKey user s)) t c = (OK, res, c')" "saver_result user res = saved (mem_lookup es user s)"
      "cache_agrees e (to_block_restart_interval opts) bss (tbl_cache_id t) cache holds c'" .
  have "table_get e read opts cache ro user s t c = ((OK, saved (mem_lookup es user s)), c')" by (simp add: table_get_def r(1,2))
  with Cons.IH [OF r(3)] Cons.prems(2) show ?case by (simp add: q)
qed simp

text \<open>A cache has nothing of a table that was opened just now.\<close>

lemma cache_agrees_new:
  assumes "cache_ok holds cache" "case cache of None \<Rightarrow> c' = c | Some bc \<Rightarrow> bc_new_id bc c = (cid, c')"
  shows "cache_agrees e k bss cid cache holds c'"
  using assms by (auto simp: cache_agrees_def cache_ok_def cache_key_def split: option.splits)

end
