(* ===== verification/Ldb_Write_Batch.thy ===== *)
theory Ldb_Write_Batch
  imports Ldb_Memtable
begin

text \<open>
  Write batches (\<^verbatim>\<open>db/write_batch.cc\<close>). A batch is one string: a sequence number, a count and the operations. A handler is
  its state with the two operations on it, which may fail to return; the memtable inserter is the handler of the
  database. Applying a batch to a memtable appends its operations to what the memtable holds.
\<close>

section \<open>The string of a batch\<close>

definition wb_kHeader :: nat where "wb_kHeader = 12"

type_synonym write_batch = "byte list"

definition WriteBatch_Clear :: write_batch where
  "WriteBatch_Clear = replicate wb_kHeader 0"

definition ApproximateSize :: "write_batch \<Rightarrow> nat" where
  "ApproximateSize rep = length rep"

definition WB_Count :: "write_batch \<Rightarrow> u32" where
  "WB_Count rep = DecodeFixed32 (drop 8 rep)"

definition WB_SetCount :: "u32 \<Rightarrow> write_batch \<Rightarrow> write_batch" where
  "WB_SetCount n rep = take 8 rep @ EncodeFixed32 n @ drop 12 rep"

definition WB_Sequence :: "write_batch \<Rightarrow> u64" where
  "WB_Sequence rep = DecodeFixed64 rep"

definition WB_SetSequence :: "u64 \<Rightarrow> write_batch \<Rightarrow> write_batch" where
  "WB_SetSequence seq rep = EncodeFixed64 seq @ drop 8 rep"

definition WB_SetContents :: "byte list \<Rightarrow> write_batch" where
  "WB_SetContents contents = contents"

definition WriteBatch_Put :: "byte list \<Rightarrow> byte list \<Rightarrow> write_batch \<Rightarrow> write_batch" where
  "WriteBatch_Put key value rep =
     (let rep = WB_SetCount (WB_Count rep + 1) rep; rep = rep @ [1]; rep = PutLengthPrefixedSlice rep key
      in PutLengthPrefixedSlice rep value)"

definition WriteBatch_Delete :: "byte list \<Rightarrow> write_batch \<Rightarrow> write_batch" where
  "WriteBatch_Delete key rep =
     (let rep = WB_SetCount (WB_Count rep + 1) rep; rep = rep @ [0] in PutLengthPrefixedSlice rep key)"

definition WB_Append :: "write_batch \<Rightarrow> write_batch \<Rightarrow> write_batch" where
  "WB_Append dst src = WB_SetCount (WB_Count dst + WB_Count src) dst @ drop wb_kHeader src"

section \<open>Iteration\<close>

record 'h handler =
  h_Put :: "byte list \<Rightarrow> byte list \<Rightarrow> 'h \<Rightarrow> 'h option"
  h_Delete :: "byte list \<Rightarrow> 'h \<Rightarrow> 'h option"

lemma GetLengthPrefixedSlice_length: "GetLengthPrefixedSlice bs = Some (x, rest) \<Longrightarrow> length rest \<le> length bs"
  by (auto dest: slice.get_suffix)

text \<open>The loop returns the status, the number of operations found and the handler.\<close>

function Iterate_loop :: "'h handler \<Rightarrow> byte list \<Rightarrow> nat \<Rightarrow> 'h \<Rightarrow> (status \<times> nat \<times> 'h) option" where
  "Iterate_loop hnd [] found h = Some (OK, found, h)"
| "Iterate_loop hnd (tag # input) found h =
     (if tag = 1 then
        (case GetLengthPrefixedSlice input of None \<Rightarrow> Some (Corruption ''bad WriteBatch Put'', found + 1, h)
         | Some (key, input2) \<Rightarrow>
           (case GetLengthPrefixedSlice input2 of None \<Rightarrow> Some (Corruption ''bad WriteBatch Put'', found + 1, h)
            | Some (val, input3) \<Rightarrow>
              (case h_Put hnd key val h of None \<Rightarrow> None | Some h2 \<Rightarrow> Iterate_loop hnd input3 (found + 1) h2)))
      else if tag = 0 then
        (case GetLengthPrefixedSlice input of None \<Rightarrow> Some (Corruption ''bad WriteBatch Delete'', found + 1, h)
         | Some (key, input2) \<Rightarrow>
           (case h_Delete hnd key h of None \<Rightarrow> None | Some h2 \<Rightarrow> Iterate_loop hnd input2 (found + 1) h2))
      else Some (Corruption ''unknown WriteBatch tag'', found + 1, h))"
  by pat_completeness auto
termination by (relation "measure (\<lambda>(_, input, _). length input)") (auto dest!: GetLengthPrefixedSlice_length)

definition WriteBatch_Iterate :: "'h handler \<Rightarrow> write_batch \<Rightarrow> 'h \<Rightarrow> (status \<times> 'h) option" where
  "WriteBatch_Iterate hnd rep h =
     (if length rep < wb_kHeader then Some (Corruption ''malformed WriteBatch (too small)'', h)
      else case Iterate_loop hnd (drop wb_kHeader rep) 0 h of None \<Rightarrow> None
        | Some (s, found, h) \<Rightarrow>
          if s \<noteq> OK then Some (s, h)
          else if int found \<noteq> sint (WB_Count rep) then Some (Corruption ''WriteBatch has wrong count'', h)
          else Some (OK, h))"

text \<open>The memtable inserter: the sequence number of the next operation and the memtable.\<close>

definition MemTableInserter :: "compare_fn \<Rightarrow> (u64 \<times> memtable) handler" where
  "MemTableInserter icmp = \<lparr>
     h_Put = (\<lambda>key value (seq, mem). map_option (\<lambda>mem. (seq + 1, mem)) (MemTable_Add icmp seq kTypeValue key value mem)),
     h_Delete = (\<lambda>key (seq, mem). map_option (\<lambda>mem. (seq + 1, mem)) (MemTable_Add icmp seq kTypeDeletion key [] mem))\<rparr>"

definition WB_InsertInto :: "compare_fn \<Rightarrow> write_batch \<Rightarrow> memtable \<Rightarrow> (status \<times> memtable) option" where
  "WB_InsertInto icmp rep memtable =
     map_option (\<lambda>(s, seq, mem). (s, mem)) (WriteBatch_Iterate (MemTableInserter icmp) rep (WB_Sequence rep, memtable))"

section \<open>The operations in a batch\<close>

datatype batch_op = PutOp "byte list" "byte list" | DeleteOp "byte list"

fun op_bytes :: "batch_op \<Rightarrow> byte list" where
  "op_bytes (PutOp key value) = 1 # PutLengthPrefixedSlice [] key @ PutLengthPrefixedSlice [] value"
| "op_bytes (DeleteOp key) = 0 # PutLengthPrefixedSlice [] key"

fun batch_op_ok :: "batch_op \<Rightarrow> bool" where
  "batch_op_ok (PutOp key value) \<longleftrightarrow> length key + 8 < 2 ^ 32 \<and> length value < 2 ^ 32"
| "batch_op_ok (DeleteOp key) \<longleftrightarrow> length key + 8 < 2 ^ 32"

fun add_op :: "batch_op \<Rightarrow> write_batch \<Rightarrow> write_batch" where
  "add_op (PutOp key value) = WriteBatch_Put key value"
| "add_op (DeleteOp key) = WriteBatch_Delete key"

text \<open>The string of a batch with the sequence number \<open>seq\<close> and the operations \<open>ops\<close>.\<close>

definition batch_bytes :: "u64 \<Rightarrow> batch_op list \<Rightarrow> write_batch" where
  "batch_bytes seq ops = EncodeFixed64 seq @ EncodeFixed32 (of_nat (length ops)) @ concat (map op_bytes ops)"

lemma batch_bytes_simps [simp]:
  "WB_Sequence (batch_bytes seq ops) = seq" "WB_Count (batch_bytes seq ops) = of_nat (length ops)"
  "drop 12 (batch_bytes seq ops) = concat (map op_bytes ops)" "12 \<le> length (batch_bytes seq ops)"
  "WB_SetSequence seq' (batch_bytes seq ops) = batch_bytes seq' ops"
  by (simp_all add: batch_bytes_def WB_Sequence_def WB_Count_def WB_SetSequence_def)

lemma WB_SetCount_batch: "WB_SetCount n (batch_bytes seq ops) = EncodeFixed64 seq @ EncodeFixed32 n @ concat (map op_bytes ops)"
  by (simp add: batch_bytes_def WB_SetCount_def)

lemma WriteBatch_Clear_bytes: "WriteBatch_Clear = batch_bytes 0 []"
  by (simp add: WriteBatch_Clear_def batch_bytes_def wb_kHeader_def EncodeFixed64_def EncodeFixed32_def eval_nat_numeral)

lemma add_op_bytes: "add_op x (batch_bytes seq ops) = batch_bytes seq (ops @ [x])"
  by (cases x) (simp_all add: WriteBatch_Put_def WriteBatch_Delete_def WB_SetCount_batch Let_def PutLengthPrefixedSlice_append [of "_ @ _"],
    simp_all add: batch_bytes_def add.commute)

lemma WB_Append_bytes: "WB_Append (batch_bytes seq ops) (batch_bytes seq' ops') = batch_bytes seq (ops @ ops')"
  by (simp add: WB_Append_def WB_SetCount_batch wb_kHeader_def) (simp add: batch_bytes_def)

lemma fold_add_op: "fold add_op ops (batch_bytes seq ops') = batch_bytes seq (ops' @ ops)"
  by (induction ops arbitrary: ops') (simp_all add: add_op_bytes)

lemma fold_add_op_Clear: "fold add_op ops WriteBatch_Clear = batch_bytes 0 ops"
  by (simp add: WriteBatch_Clear_bytes fold_add_op)

text \<open>Iteration calls the handler for each operation in order.\<close>

fun handle_op :: "'h handler \<Rightarrow> batch_op \<Rightarrow> 'h \<Rightarrow> 'h option" where
  "handle_op hnd (PutOp key value) h = h_Put hnd key value h"
| "handle_op hnd (DeleteOp key) h = h_Delete hnd key h"

fun handle_ops :: "'h handler \<Rightarrow> batch_op list \<Rightarrow> 'h \<Rightarrow> 'h option" where
  "handle_ops hnd [] h = Some h"
| "handle_ops hnd (x # xs) h = (case handle_op hnd x h of None \<Rightarrow> None | Some h \<Rightarrow> handle_ops hnd xs h)"

lemma Iterate_loop_ops:
  "\<forall>x \<in> set ops. batch_op_ok x \<Longrightarrow>
    Iterate_loop hnd (concat (map op_bytes ops)) found h = map_option (\<lambda>h. (OK, found + length ops, h)) (handle_ops hnd ops h)"
proof (induction ops arbitrary: found h)
  case (Cons x ops)
  show ?case
  proof (cases x)
    case (PutOp key val)
    then show ?thesis using Cons slice.get_put [of key "PutLengthPrefixedSlice [] val @ concat (map op_bytes ops)"]
        slice.get_put [of val "concat (map op_bytes ops)"]
      by (auto split: option.splits)
  next
    case (DeleteOp key)
    then show ?thesis using Cons slice.get_put [of key "concat (map op_bytes ops)"] by (auto split: option.splits)
  qed
qed simp

lemma Iterate_ops:
  assumes "\<forall>x \<in> set ops. batch_op_ok x" "length ops < 2 ^ 31"
  shows "WriteBatch_Iterate hnd (batch_bytes seq ops) h = map_option (Pair OK) (handle_ops hnd ops h)"
  using assms(2) Iterate_loop_ops [OF assms(1), of hnd 0 h] 
  by (simp add: WriteBatch_Iterate_def wb_kHeader_def sint_of_nat_32 not_less option.map_comp comp_def split: option.splits)

section \<open>Applying a batch to a memtable\<close>

text \<open>The operations as the memtable holds them, with consecutive sequence numbers.\<close>

fun mem_ops :: "u64 \<Rightarrow> batch_op list \<Rightarrow> mem_op list" where
  "mem_ops seq [] = []"
| "mem_ops seq (PutOp key value # ops) = \<lparr>op_seq = seq, op_type = kTypeValue, op_key = key, op_value = value\<rparr> # mem_ops (seq + 1) ops"
| "mem_ops seq (DeleteOp key # ops) = \<lparr>op_seq = seq, op_type = kTypeDeletion, op_key = key, op_value = []\<rparr> # mem_ops (seq + 1) ops"

lemma handle_ops_mem:
  assumes "mem_rep table es" "\<forall>e \<in> set es. op_seq e < seq" "\<forall>x \<in> set ops. batch_op_ok x" "unat seq + length ops \<le> 2 ^ 56"
  shows "\<exists>table'. handle_ops (MemTableInserter (Internal_Compare Slice_compare)) ops (seq, table) = Some (seq + of_nat (length ops), table')
    \<and> mem_rep table' (es @ mem_ops seq ops)"
  using assms
proof (induction ops arbitrary: seq table es)
  case (Cons x ops)
  define e where "e = (case x of PutOp key val \<Rightarrow> \<lparr>op_seq = seq, op_type = kTypeValue, op_key = key, op_value = val\<rparr>
    | DeleteOp key \<Rightarrow> \<lparr>op_seq = seq, op_type = kTypeDeletion, op_key = key, op_value = []\<rparr>)"
  have e: "op_seq e = seq" "mem_ops seq (x # ops) = e # mem_ops (seq + 1) ops" by (cases x; simp add: e_def)+
  have seq: "unat (seq + 1) = unat seq + 1" using Cons.prems(4) using unat_add_no_overflow [of seq 1] by simp
  have "op_ok e" using Cons.prems(3,4) by (cases x) (auto simp: op_ok_def e_def kMaxSequenceNumber_def word_le_nat_alt)
  from mem_rep_Add [OF Cons.prems(1) this] Cons.prems(2) obtain table1 where
    add: "MemTable_Add (Internal_Compare Slice_compare) (op_seq e) (op_type e) (op_key e) (op_value e) table = Some table1"
    and rep: "mem_rep table1 (es @ [e])" by (auto simp: e(1))
  have "seq < seq + 1" using seq by (simp add: word_less_nat_alt)
  then have "\<forall>e' \<in> set (es @ [e]). op_seq e' < seq + 1" using Cons.prems(2) e(1) by fastforce
  from Cons.IH [OF rep this] Cons.prems(3,4) seq obtain table' where
    "handle_ops (MemTableInserter (Internal_Compare Slice_compare)) ops (seq + 1, table1) = Some (seq + 1 + of_nat (length ops), table')"
    "mem_rep table' ((es @ [e]) @ mem_ops (seq + 1) ops)" by auto
  moreover have "handle_op (MemTableInserter (Internal_Compare Slice_compare)) x (seq, table) = Some (seq + 1, table1)"
    using add by (cases x) (simp_all add: MemTableInserter_def e_def)
  ultimately show ?case by (simp add: e(2) add.assoc)
qed simp

lemma InsertInto_rep:
  assumes "mem_rep table es" "\<forall>e \<in> set es. op_seq e < seq" "\<forall>x \<in> set ops. batch_op_ok x" "unat seq + length ops \<le> 2 ^ 56" "length ops < 2 ^ 31"
  shows "\<exists>table'. WB_InsertInto (Internal_Compare Slice_compare) (batch_bytes seq ops) table = Some (OK, table')
    \<and> mem_rep table' (es @ mem_ops seq ops)"
  using handle_ops_mem [OF assms(1-4)]
  by (auto simp: WB_InsertInto_def Iterate_ops [OF assms(3,5)])

end
