(* ===== verification/Ldb_Db.thy ===== *)
theory Ldb_Db
  imports Ldb_Write_Batch Ldb_Log
begin

text \<open>
  The write path and the recovery of the database (\<^verbatim>\<open>db/db_impl.cc\<close>). Writers queue up; the writer at the front makes room, builds
  one batch of its own batch and those behind it, adds it to the log and applies it to the memtable. Recovery reads the records of a log
  back into memtables. What the other threads do while the mutex is released, the memory that a memtable uses, new files and the tables that
  memtables are written to are parameters.
\<close>

section \<open>The state\<close>

record db_writer =
  dw_batch :: "write_batch option"
  dw_sync :: bool

text \<open>
  \<open>db_imm\<close> is the full memtable that waits for its compaction, \<open>db_next_file\<close> and \<open>db_last_sequence\<close> are counters of the version set and \<open>db_l0_files\<close> is its number of
  files at level 0. The log file is the destination of the log writer.
\<close>

record 'f db =
  db_mem :: memtable
  db_imm :: "memtable option"
  db_log :: "'f log_writer"
  db_logfile_number :: u64
  db_next_file :: u64
  db_last_sequence :: u64
  db_l0_files :: nat
  db_tmp_batch :: write_batch
  db_bg_error :: status

text \<open>
  \<open>dbe_wait\<close> is the effect of the other threads while the writer sleeps or waits for the background work.
\<close>

record 'f db_env =
  dbe_append :: "'f append"
  dbe_flush :: "'f flush"
  dbe_sync :: "'f flush"
  dbe_crc :: crc_env
  dbe_icmp :: compare_fn
  dbe_usage :: "memtable \<Rightarrow> nat"
  dbe_write_buffer_size :: nat
  dbe_new_log :: "u64 \<Rightarrow> 'f db \<Rightarrow> status \<times> 'f"
  dbe_wait :: "'f db \<Rightarrow> 'f db"

definition kL0_SlowdownWritesTrigger :: nat where "kL0_SlowdownWritesTrigger = 8"

definition kL0_StopWritesTrigger :: nat where "kL0_StopWritesTrigger = 12"

definition NewFileNumber :: "'f db \<Rightarrow> u64 \<times> 'f db" where
  "NewFileNumber db = (db_next_file db, db\<lparr>db_next_file := db_next_file db + 1\<rparr>)"

definition ReuseFileNumber :: "u64 \<Rightarrow> 'f db \<Rightarrow> 'f db" where
  "ReuseFileNumber n db = (if db_next_file db = n + 1 then db\<lparr>db_next_file := n\<rparr> else db)"

definition RecordBackgroundError :: "status \<Rightarrow> 'f db \<Rightarrow> 'f db" where
  "RecordBackgroundError s db = (if db_bg_error db = OK then db\<lparr>db_bg_error := s\<rparr> else db)"

section \<open>Writing\<close>

text \<open>A new log and a new memtable are switched to when the memtable is full. Closing of the old log file is left to the effect of \<open>dbe_new_log\<close>, and a compaction that is scheduled to \<open>dbe_wait\<close>.\<close>

partial_function (option) MakeRoom_loop :: "'f db_env \<Rightarrow> bool \<Rightarrow> bool \<Rightarrow> 'f db \<Rightarrow> (status \<times> 'f db) option" where
  "MakeRoom_loop env allow_delay force db =
     (if db_bg_error db \<noteq> OK then Some (db_bg_error db, db)
      else if allow_delay \<and> db_l0_files db \<ge> kL0_SlowdownWritesTrigger then MakeRoom_loop env False force (dbe_wait env db)
      else if \<not> force \<and> dbe_usage env (db_mem db) \<le> dbe_write_buffer_size env then Some (OK, db)
      else if db_imm db \<noteq> None then MakeRoom_loop env allow_delay force (dbe_wait env db)
      else if db_l0_files db \<ge> kL0_StopWritesTrigger then MakeRoom_loop env allow_delay force (dbe_wait env db)
      else
        let (n, db) = NewFileNumber db; (s, lfile) = dbe_new_log env n db
        in if s \<noteq> OK then Some (s, ReuseFileNumber n db)
           else MakeRoom_loop env allow_delay False
             (db\<lparr>db_logfile_number := n, db_log := new_Writer (dbe_crc env) lfile 0, db_imm := Some (db_mem db), db_mem := new_MemTable\<rparr>))"

definition MakeRoomForWrite :: "'f db_env \<Rightarrow> bool \<Rightarrow> 'f db \<Rightarrow> (status \<times> 'f db) option" where
  "MakeRoomForWrite env force db = MakeRoom_loop env (\<not> force) force db"

text \<open>
  The loop over the writers behind the first: \<open>tmp\<close> is the temporary batch as soon as it is used, \<open>n\<close> the number of writers in the
  group. The first batch is only copied if a second one joins it.
\<close>

fun group_loop :: "write_batch \<Rightarrow> write_batch \<Rightarrow> bool \<Rightarrow> nat \<Rightarrow> db_writer list \<Rightarrow> nat \<Rightarrow> write_batch option \<Rightarrow> nat \<Rightarrow> write_batch option \<times> nat" where
  "group_loop tmp_batch batch sync max_size [] len tmp n = (tmp, n)"
| "group_loop tmp_batch batch sync max_size (w # ws) len tmp n =
     (if dw_sync w \<and> \<not> sync then (tmp, n)
      else case dw_batch w of None \<Rightarrow> group_loop tmp_batch batch sync max_size ws len tmp (n + 1)
      | Some b \<Rightarrow>
        let len = len + length b
        in if len > max_size then (tmp, n)
           else let result = (case tmp of None \<Rightarrow> WB_Append tmp_batch batch | Some t \<Rightarrow> t)
                in group_loop tmp_batch batch sync max_size ws len (Some (WB_Append result b)) (n + 1))"

definition group_max_size :: "nat \<Rightarrow> nat" where
  "group_max_size len = (if len \<le> 131072 then len + 131072 else 1048576)"

text \<open>The batch, whether it is the temporary one, and the number of writers that it serves.\<close>

definition BuildBatchGroup :: "write_batch \<Rightarrow> db_writer \<Rightarrow> write_batch \<Rightarrow> db_writer list \<Rightarrow> write_batch \<times> bool \<times> nat" where
  "BuildBatchGroup tmp_batch w batch ws =
     (case group_loop tmp_batch batch (dw_sync w) (group_max_size (length batch)) ws (length batch) None 1 of
        (None, n) \<Rightarrow> (batch, False, n)
      | (Some t, n) \<Rightarrow> (t, True, n))"

text \<open>The part that runs without the mutex: the log and the memtable. The flag is \<open>sync_error\<close>.\<close>

definition log_and_apply :: "'f db_env \<Rightarrow> bool \<Rightarrow> write_batch \<Rightarrow> 'f db \<Rightarrow> (status \<times> bool \<times> 'f db) option" where
  "log_and_apply env sync updates db =
     (case AddRecord (dbe_crc env) (dbe_append env) (dbe_flush env) updates (db_log db) of None \<Rightarrow> None
      | Some (status, log) \<Rightarrow>
        let db = db\<lparr>db_log := log\<rparr> in
        if status \<noteq> OK then Some (status, False, db)
        else case (if sync then dbe_sync env (lw_dest log) else Some (OK, lw_dest log)) of None \<Rightarrow> None
        | Some (status, f) \<Rightarrow>
          let db = db\<lparr>db_log := log\<lparr>lw_dest := f\<rparr>\<rparr> in
          if status \<noteq> OK then Some (status, True, db)
          else map_option (\<lambda>(status, mem). (status, False, db\<lparr>db_mem := mem\<rparr>)) (WB_InsertInto (dbe_icmp env) updates (db_mem db)))"

text \<open>
  \<open>Write\<close> as the writer \<open>w\<close> at the front of the queue executes it, with the writers \<open>ws\<close> behind it: the result has the number of writers
  that leave the queue with the status. Writers that are not at the front only wait.
\<close>

definition DBImpl_Write :: "'f db_env \<Rightarrow> db_writer \<Rightarrow> db_writer list \<Rightarrow> 'f db \<Rightarrow> (status \<times> nat \<times> 'f db) option" where
  "DBImpl_Write env w ws db =
     (case MakeRoomForWrite env (dw_batch w = None) db of None \<Rightarrow> None
      | Some (status, db) \<Rightarrow>
        (case dw_batch w of
           Some batch \<Rightarrow>
             if status \<noteq> OK then Some (status, 1, db)
             else
               let (updates, is_tmp, n) = BuildBatchGroup (db_tmp_batch db) w batch ws;
                   updates = WB_SetSequence (db_last_sequence db + 1) updates;
                   last_sequence = db_last_sequence db + scast (WB_Count updates)
               in (case log_and_apply env (dw_sync w) updates db of None \<Rightarrow> None
                   | Some (status, sync_error, db) \<Rightarrow>
                     let db = (if sync_error then RecordBackgroundError status db else db);
                         db = (if is_tmp then db\<lparr>db_tmp_batch := WriteBatch_Clear\<rparr> else db)
                     in Some (status, n, db\<lparr>db_last_sequence := last_sequence\<rparr>))
         | None \<Rightarrow> Some (status, 1, db)))"

section \<open>Reading\<close>

text \<open>
  \<open>Get\<close> looks in the memtable, then in the one that is being compacted, then in the tables, which are a parameter here. The
  statistics of seeks and the compaction that they may schedule after the lookup do not change its answer and are left out.
\<close>

definition DBImpl_Get ::
  "compare_fn \<Rightarrow> compare_fn \<Rightarrow> (LookupKey \<Rightarrow> mem_get) \<Rightarrow> u64 option \<Rightarrow> byte list \<Rightarrow> 'f db \<Rightarrow> mem_get option" where
  "DBImpl_Get user_comparator icmp version_get snapshot key db =
     (let sequence = (case snapshot of None \<Rightarrow> db_last_sequence db | Some s \<Rightarrow> s);
          lkey = new_LookupKey key sequence
      in case MemTable_Get user_comparator icmp lkey (db_mem db) of None \<Rightarrow> None
         | Some Missing \<Rightarrow>
           (case db_imm db of None \<Rightarrow> Some (version_get lkey)
            | Some imm \<Rightarrow> (case MemTable_Get user_comparator icmp lkey imm of None \<Rightarrow> None
               | Some Missing \<Rightarrow> Some (version_get lkey)
               | Some r \<Rightarrow> Some r))
         | Some r \<Rightarrow> Some r)"

section \<open>Recovery\<close>

text \<open>
  \<open>'e\<close> stands for the version edit and what belongs to it; \<open>re_level0\<close> is \<open>WriteLevel0Table\<close>. \<open>re_reuse\<close> is what \<open>GetFileSize\<close> and \<open>NewAppendableFile\<close> give for the log
  file, if both succeed.
\<close>

record ('e, 'f) rec_env =
  re_paranoid_checks :: bool
  re_reuse_logs :: bool
  re_write_buffer_size :: nat
  re_usage :: "memtable \<Rightarrow> nat"
  re_icmp :: compare_fn
  re_level0 :: "memtable \<Rightarrow> 'e \<Rightarrow> status \<times> 'e"
  re_reuse :: "(u64 \<times> 'f) option"

record 'e rec_state =
  rs_status :: status
  rs_mem :: "memtable option"
  rs_max_sequence :: u64
  rs_compactions :: nat
  rs_save_manifest :: bool
  rs_edit :: 'e

definition MaybeIgnoreError :: "bool \<Rightarrow> status \<Rightarrow> status" where
  "MaybeIgnoreError paranoid_checks s = (if s = OK \<or> paranoid_checks then s else OK)"

text \<open>The reporter stores the first corruption in the status, if it is given the status.\<close>

definition reported_status :: "bool \<Rightarrow> 'g log_reader \<Rightarrow> status \<Rightarrow> status" where
  "reported_status paranoid_checks r s =
     (if paranoid_checks \<and> s = OK then (case lr_reports r of Some ((_, e) # _) \<Rightarrow> e | _ \<Rightarrow> s) else s)"

text \<open>What is done with one record; the flag says that the loop is left.\<close>

definition recover_record :: "('e, 'f) rec_env \<Rightarrow> byte list \<Rightarrow> 'e rec_state \<Rightarrow> (bool \<times> 'e rec_state) option" where
  "recover_record env record st =
     (let batch = WB_SetContents record;
          mem = (case rs_mem st of None \<Rightarrow> new_MemTable | Some mem \<Rightarrow> mem)
      in case WB_InsertInto (re_icmp env) batch mem of None \<Rightarrow> None
         | Some (status, mem) \<Rightarrow>
           let st = st\<lparr>rs_status := MaybeIgnoreError (re_paranoid_checks env) status, rs_mem := Some mem\<rparr>
           in if rs_status st \<noteq> OK then Some (True, st)
              else
                let last_seq = WB_Sequence batch + scast (WB_Count batch) - 1;
                    st = (if last_seq > rs_max_sequence st then st\<lparr>rs_max_sequence := last_seq\<rparr> else st)
                in if re_usage env mem > re_write_buffer_size env then
                     let (status, edit) = re_level0 env mem (rs_edit st)
                     in Some (status \<noteq> OK, st\<lparr>rs_compactions := rs_compactions st + 1, rs_save_manifest := True,
                          rs_status := status, rs_edit := edit, rs_mem := None\<rparr>)
                   else Some (False, st))"

partial_function (option) RecoverLogFile_loop ::
  "('e, 'f) rec_env \<Rightarrow> crc_env \<Rightarrow> 'g fread \<Rightarrow> ('g \<Rightarrow> u64 \<Rightarrow> status \<times> 'g) \<Rightarrow> 'g log_reader \<Rightarrow> 'e rec_state \<Rightarrow> 'e rec_state option" where
  "RecoverLogFile_loop env e read skip r st =
     (case ReadRecord e read skip r of None \<Rightarrow> None
      | Some (x, r) \<Rightarrow>
        let st = st\<lparr>rs_status := reported_status (re_paranoid_checks env) r (rs_status st)\<rparr> in
        (case x of None \<Rightarrow> Some st
         | Some record \<Rightarrow>
           if rs_status st \<noteq> OK then Some st
           else if length record < 12 then
             let r = r\<lparr>lr_reports := map_option (\<lambda>rs. rs @ [(of_nat (length record), Corruption ''log record too small'')]) (lr_reports r)\<rparr>
             in RecoverLogFile_loop env e read skip r (st\<lparr>rs_status := reported_status (re_paranoid_checks env) r (rs_status st)\<rparr>)
           else (case recover_record env record st of None \<Rightarrow> None
             | Some (leave, st) \<Rightarrow> if leave then Some st else RecoverLogFile_loop env e read skip r st)))"

text \<open>After the loop the log is reused, or the memtable is written to a table.\<close>

definition finish_recovery ::
  "('e, 'f) rec_env \<Rightarrow> crc_env \<Rightarrow> bool \<Rightarrow> 'e rec_state \<Rightarrow> 'e rec_state \<times> ('f log_writer \<times> memtable) option" where
  "finish_recovery env e last_log st =
     (let reused = (if rs_status st = OK \<and> re_reuse_logs env \<and> last_log \<and> rs_compactions st = 0
            then map_option (\<lambda>(lfile_size, file). (new_Writer e file lfile_size,
              case rs_mem st of None \<Rightarrow> new_MemTable | Some mem \<Rightarrow> mem)) (re_reuse env) else None);
          st = (if reused \<noteq> None then st\<lparr>rs_mem := None\<rparr> else st);
          st = (case rs_mem st of None \<Rightarrow> st
            | Some mem \<Rightarrow> if rs_status st = OK
                then let (status, edit) = re_level0 env mem (rs_edit st)
                     in st\<lparr>rs_save_manifest := True, rs_status := status, rs_edit := edit, rs_mem := None\<rparr>
                else st\<lparr>rs_mem := None\<rparr>)
      in (st, reused))"

text \<open>The file, or the status of opening it.\<close>

definition RecoverLogFile ::
  "('e, 'f) rec_env \<Rightarrow> crc_env \<Rightarrow> 'g fread \<Rightarrow> ('g \<Rightarrow> u64 \<Rightarrow> status \<times> 'g) \<Rightarrow> bool \<Rightarrow> bool \<Rightarrow> u64 \<Rightarrow> 'e \<Rightarrow> status + 'g
     \<Rightarrow> ('e rec_state \<times> ('f log_writer \<times> memtable) option) option" where
  "RecoverLogFile env e read skip last_log save_manifest max_sequence edit file =
     (let st = \<lparr>rs_status = OK, rs_mem = None, rs_max_sequence = max_sequence, rs_compactions = 0, rs_save_manifest = save_manifest, rs_edit = edit\<rparr>
      in case file of Inl status \<Rightarrow> Some (st\<lparr>rs_status := MaybeIgnoreError (re_paranoid_checks env) status\<rparr>, None)
         | Inr g \<Rightarrow> map_option (finish_recovery env e last_log)
             (RecoverLogFile_loop env e read skip (new_Reader g True True 0) st))"

end
