(* ===== verification/Ldb_Db_Correct.thy ===== *)
theory Ldb_Db_Correct
  imports Ldb_Db Ldb_Log_Correct
begin

text \<open>
  What the write path and the recovery promise together. A run of the database takes writers from the queue in groups; after every step the memtable holds
  the operations of all groups with consecutive sequence numbers, and the log has one record for each group. Recovery of any
  prefix of the log gives back the groups whose records are complete.
\<close>

section \<open>Groups of writers\<close>

text \<open>A client: the operations of its batch, or none for a writer that only forces a compaction, and whether it asks for a synchronised write.\<close>

type_synonym client = "batch_op list option \<times> bool"

text \<open>The writer that a client puts into the queue: its batch is built by \<open>Put\<close> and \<open>Delete\<close>.\<close>

definition client_writer :: "client \<Rightarrow> db_writer" where
  "client_writer c = \<lparr>dw_batch = map_option (\<lambda>ops. fold add_op ops WriteBatch_Clear) (fst c), dw_sync = snd c\<rparr>"

definition client_ops :: "client \<Rightarrow> batch_op list" where
  "client_ops c = (case fst c of None \<Rightarrow> [] | Some ops \<Rightarrow> ops)"

abbreviation group_ops :: "client list \<Rightarrow> batch_op list" where
  "group_ops cs \<equiv> concat (map client_ops cs)"

lemma client_writer_simps [simp]:
  "dw_sync (client_writer c) = snd c" "dw_batch (client_writer (Some ops, sync)) = Some (batch_bytes 0 ops)"
  "dw_batch (client_writer (None, sync)) = None"
  by (simp_all add: client_writer_def fold_add_op_Clear)

text \<open>The group is the operations of the first writers, in order.\<close>

lemma group_loop_clients:
  assumes "group_loop WriteBatch_Clear (batch_bytes 0 ops) sync max_size (map client_writer cs) len tmp n = (tmp', n')"
    and "(case tmp of None \<Rightarrow> batch_bytes 0 ops | Some t \<Rightarrow> t) = batch_bytes 0 acc" "tmp = None \<Longrightarrow> acc = ops"
    and "length (batch_bytes 0 acc) \<le> len"
  shows "\<exists>m \<le> length cs. n' = n + m \<and> (case tmp' of None \<Rightarrow> batch_bytes 0 ops | Some t \<Rightarrow> t) = batch_bytes 0 (acc @ group_ops (take m cs))
    \<and> (\<forall>c \<in> set (take m cs). snd c \<longrightarrow> sync) \<and> (group_ops (take m cs) = [] \<or> length (batch_bytes 0 (acc @ group_ops (take m cs))) \<le> max_size)"
  using assms
proof (induction cs arbitrary: len tmp n acc)
  case Nil
  then show ?case by auto
next
  case (Cons c cs)
  obtain o' sy where c: "c = (o', sy)" by (rule prod.exhaust)
  let ?stop = "\<exists>m \<le> length (c # cs). n' = n + m \<and> (case tmp' of None \<Rightarrow> batch_bytes 0 ops | Some t \<Rightarrow> t) = batch_bytes 0 (acc @ group_ops (take m (c # cs)))
    \<and> (\<forall>c \<in> set (take m (c # cs)). snd c \<longrightarrow> sync) \<and> (group_ops (take m (c # cs)) = [] \<or> length (batch_bytes 0 (acc @ group_ops (take m (c # cs)))) \<le> max_size)"
  have stop: ?stop if "tmp' = tmp" "n' = n" using that Cons.prems(2) by (intro exI [of _ 0]) simp
  have more: ?stop if "m \<le> length cs" "n' = n + 1 + m" "b = client_ops c" "sy \<longrightarrow> sync"
      "(case tmp' of None \<Rightarrow> batch_bytes 0 ops | Some t \<Rightarrow> t) = batch_bytes 0 ((acc @ b) @ group_ops (take m cs))" "\<forall>c \<in> set (take m cs). snd c \<longrightarrow> sync"
      "group_ops (take m cs) = [] \<or> length (batch_bytes 0 ((acc @ b) @ group_ops (take m cs))) \<le> max_size"
      "b = [] \<or> length (batch_bytes 0 (acc @ b)) \<le> max_size" for m b
    using that c by (intro exI [of _ "Suc m"]) (auto simp del: concat_eq_Nil_conv)
  show ?case
  proof (cases o')
    case None
    show ?thesis
    proof (cases "sy \<and> \<not> sync")
      case False
      from Cons.prems(1) None c False
      have "group_loop WriteBatch_Clear (batch_bytes 0 ops) sync max_size (map client_writer cs) len tmp (n + 1) = (tmp', n')" by simp
      from Cons.IH [OF this Cons.prems(2-4)] obtain m where "m \<le> length cs" "n' = n + 1 + m"
        "(case tmp' of None \<Rightarrow> batch_bytes 0 ops | Some t \<Rightarrow> t) = batch_bytes 0 (acc @ group_ops (take m cs))"
        "\<forall>c \<in> set (take m cs). snd c \<longrightarrow> sync" "group_ops (take m cs) = [] \<or> length (batch_bytes 0 (acc @ group_ops (take m cs))) \<le> max_size"
        by blast
      with False show ?thesis by (intro more [of m "[]"]) (simp_all add: c None client_ops_def)
    qed (use Cons.prems(1) c stop in simp)
  next
    case (Some b)
    let ?len = "len + length (batch_bytes 0 b)"
    show ?thesis
    proof (cases "sy \<and> \<not> sync \<or> ?len > max_size")
      case False
      have res: "WB_Append (case tmp of None \<Rightarrow> WB_Append WriteBatch_Clear (batch_bytes 0 ops) | Some t \<Rightarrow> t) (batch_bytes 0 b) = batch_bytes 0 (acc @ b)"
        using Cons.prems(2,3) by (auto simp: WriteBatch_Clear_bytes WB_Append_bytes split: option.splits)
      from Cons.prems(1) Some c False res
      have loop: "group_loop WriteBatch_Clear (batch_bytes 0 ops) sync max_size (map client_writer cs) ?len (Some (batch_bytes 0 (acc @ b))) (n + 1) = (tmp', n')"
        by (auto simp: Let_def)
      have len: "length (batch_bytes 0 (acc @ b)) \<le> ?len" using Cons.prems(4) by (simp add: batch_bytes_def)
      from Cons.IH [OF loop _ _ len] obtain m where "m \<le> length cs" "n' = n + 1 + m"
        "(case tmp' of None \<Rightarrow> batch_bytes 0 ops | Some t \<Rightarrow> t) = batch_bytes 0 ((acc @ b) @ group_ops (take m cs))"
        "\<forall>c \<in> set (take m cs). snd c \<longrightarrow> sync" "group_ops (take m cs) = [] \<or> length (batch_bytes 0 ((acc @ b) @ group_ops (take m cs))) \<le> max_size"
        by auto
      with False len show ?thesis by (intro more [of m b]) (simp_all add: c Some client_ops_def)
    next
      case True
      then have "tmp' = tmp" "n' = n" using Cons.prems(1) c Some by (auto simp: Let_def split: if_splits)
      then show ?thesis by (rule stop)
    qed
  qed
qed

lemma BuildBatchGroup_clients:
  assumes "BuildBatchGroup WriteBatch_Clear (client_writer (Some ops, sync)) (batch_bytes 0 ops) (map client_writer cs) = (updates, is_tmp, n)"
  shows "\<exists>m \<le> length cs. n = Suc m \<and> updates = batch_bytes 0 (group_ops (take n ((Some ops, sync) # cs)))
    \<and> (\<forall>c \<in> set (take m cs). snd c \<longrightarrow> sync) \<and> (group_ops (take m cs) = [] \<or> length updates \<le> group_max_size (length (batch_bytes 0 ops)))"
proof -
  obtain tmp' where loop: "group_loop WriteBatch_Clear (batch_bytes 0 ops) sync (group_max_size (length (batch_bytes 0 ops))) (map client_writer cs)
      (length (batch_bytes 0 ops)) None 1 = (tmp', n)" and u: "updates = (case tmp' of None \<Rightarrow> batch_bytes 0 ops | Some t \<Rightarrow> t)"
    using assms by (auto simp: BuildBatchGroup_def split: prod.splits option.splits)
  from group_loop_clients [OF loop, of ops] u show ?thesis by (auto simp: client_ops_def)
qed

section \<open>Runs\<close>

text \<open>What other threads may not change while a writer is at the front of the queue.\<close>

definition keeps :: "'f db \<Rightarrow> 'f db \<Rightarrow> bool" where
  "keeps db db' \<longleftrightarrow> db_mem db' = db_mem db \<and> db_log db' = db_log db \<and> db_last_sequence db' = db_last_sequence db
     \<and> db_tmp_batch db' = db_tmp_batch db"

lemma keeps_refl [simp]: "keeps db db"
  by (simp add: keeps_def)

lemma keeps_trans: "keeps db db' \<Longrightarrow> keeps db' db'' \<Longrightarrow> keeps db db''"
  by (simp add: keeps_def)

text \<open>While the memtable has room, making room changes neither it nor the log.\<close>

lemma MakeRoom_keeps:
  assumes "\<forall>db. keeps db (dbe_wait env db)" "dbe_usage env (db_mem db) \<le> dbe_write_buffer_size env"
  shows "\<exists>s db'. MakeRoomForWrite env False db = Some (s, db') \<and> keeps db db' \<and> (s = OK \<longrightarrow> db_bg_error db' = OK)"
proof -
  have 1: "\<exists>s db'. MakeRoom_loop env False False db = Some (s, db') \<and> keeps db db' \<and> (s = OK \<longrightarrow> db_bg_error db' = OK)"
    if "dbe_usage env (db_mem db) \<le> dbe_write_buffer_size env" for db
    using that by (subst MakeRoom_loop.simps) auto
  have "dbe_usage env (db_mem (dbe_wait env db)) \<le> dbe_write_buffer_size env" using assms by (simp add: keeps_def)
  from 1 [OF this] assms(1) have "\<exists>s db'. MakeRoom_loop env False False (dbe_wait env db) = Some (s, db') \<and> keeps db db' \<and> (s = OK \<longrightarrow> db_bg_error db' = OK)"
    using keeps_trans by blast
  then show ?thesis unfolding MakeRoomForWrite_def
    using assms(2) by (subst MakeRoom_loop.simps) auto
qed

text \<open>
  Clients join the queue, other threads run, and the front of the queue writes, as long as there is room in the memtable and the status
  is good. The groups that have been written are recorded.
\<close>

inductive db_run :: "'f db_env \<Rightarrow> 'f db \<Rightarrow> client list \<Rightarrow> 'f db \<Rightarrow> client list list \<Rightarrow> bool" for env db0 where
  start: "db_run env db0 [] db0 []"
| arrive: "db_run env db0 q db gs \<Longrightarrow> db_run env db0 (q @ [c]) db gs"
| background: "db_run env db0 q db gs \<Longrightarrow> keeps db db' \<Longrightarrow> db_run env db0 q db' gs"
| lead: "\<lbrakk>db_run env db0 ((Some ops, sync) # q) db gs; dbe_usage env (db_mem db) \<le> dbe_write_buffer_size env;
     DBImpl_Write env (client_writer (Some ops, sync)) (map client_writer q) db = Some (OK, n, db')\<rbrakk> \<Longrightarrow>
     db_run env db0 (drop n ((Some ops, sync) # q)) db' (gs @ [take n ((Some ops, sync) # q)])"

abbreviation groups_ops :: "client list list \<Rightarrow> batch_op list" where
  "groups_ops gs \<equiv> concat (map group_ops gs)"

text \<open>The records that the groups leave in the log.\<close>

fun group_records :: "u64 \<Rightarrow> client list list \<Rightarrow> byte list list" where
  "group_records seq [] = []"
| "group_records seq (g # gs) = batch_bytes (seq + 1) (group_ops g) # group_records (seq + of_nat (length (group_ops g))) gs"

lemma group_records_snoc:
  "group_records seq (gs @ [g]) = group_records seq gs @ [batch_bytes (seq + of_nat (length (groups_ops gs)) + 1) (group_ops g)]"
  by (induction gs arbitrary: seq) (simp_all add: add.assoc)

lemma mem_ops_append: "mem_ops seq (ops @ ops') = mem_ops seq ops @ mem_ops (seq + of_nat (length ops)) ops'"
  by (induction seq ops rule: mem_ops.induct) (simp_all add: add.assoc)

lemma mem_ops_seq:
  assumes "e \<in> set (mem_ops seq ops)" "unat seq + length ops < 2 ^ 64"
  shows "unat (op_seq e) < unat seq + length ops" "seq \<le> op_seq e"
proof -
  have "unat (op_seq e) < unat seq + length ops \<and> seq \<le> op_seq e" using assms
  proof (induction seq ops rule: mem_ops.induct)
    case (2 seq key val ops)
    then have "unat (seq + 1) = unat seq + 1" using unat_add_no_overflow [of seq 1] by simp
    then show ?case using 2 by (auto simp: word_le_nat_alt)
  next
    case (3 seq key ops)
    then have "unat (seq + 1) = unat seq + 1" using unat_add_no_overflow [of seq 1] by simp
    then show ?case using 3 by (auto simp: word_le_nat_alt)
  qed simp
  then show "unat (op_seq e) < unat seq + length ops" "seq \<le> op_seq e" by blast+
qed

lemma mem_ops_old:
  assumes "unat seq + 1 + length ops \<le> 2 ^ 56"
  shows "\<forall>e \<in> set (mem_ops (seq + 1) ops). unat (op_seq e) \<le> unat (seq + of_nat (length ops))"
proof -
  have "unat (seq + 1) = unat seq + 1" "unat (seq + of_nat (length ops)) = unat seq + length ops"
    using assms unat_add_no_overflow [of seq 1] unat_add_no_overflow [of seq "of_nat (length ops)"] by (simp_all add: unat_of_nat_64)
  then show ?thesis using mem_ops_seq(1) [of _ "seq + 1" ops] assms by fastforce
qed

text \<open>The sequence numbers stay within 56 bits, and the count of a batch within an integer.\<close>

definition ops_bounded :: "u64 \<Rightarrow> batch_op list \<Rightarrow> bool" where
  "ops_bounded seq ops \<longleftrightarrow> (\<forall>x \<in> set ops. batch_op_ok x) \<and> length ops < 2 ^ 31 \<and> unat seq + 1 + length ops \<le> 2 ^ 56"

text \<open>Inserting the next group.\<close>

lemma InsertInto_next:
  assumes "mem_rep table seg" "\<forall>e \<in> set seg. unat (op_seq e) \<le> unat seq" "ops_bounded seq ops"
  shows "\<exists>table'. WB_InsertInto (Internal_Compare Slice_compare) (batch_bytes (seq + 1) ops) table = Some (OK, table')
    \<and> mem_rep table' (seg @ mem_ops (seq + 1) ops)"
proof -
  have seq: "unat (seq + 1) = unat seq + 1" using assms(3) unat_add_no_overflow [of seq 1] by (simp add: ops_bounded_def)
  then have "\<forall>e \<in> set seg. op_seq e < seq + 1" using assms(2) by (auto simp: word_less_nat_alt less_Suc_eq_le)
  from InsertInto_rep [OF assms(1) this, of ops] assms(3) seq show ?thesis by (simp add: ops_bounded_def)
qed

lemma ops_bounded_append: "ops_bounded seq (ops @ ops') \<Longrightarrow> ops_bounded seq ops \<and> ops_bounded (seq + of_nat (length ops)) ops'"
proof -
  assume b: "ops_bounded seq (ops @ ops')"
  then have "unat (seq + of_nat (length ops)) = unat seq + length ops"
    using unat_add_no_overflow [of seq "of_nat (length ops)"] by (simp add: ops_bounded_def unat_of_nat_64)
  then show ?thesis using b by (simp add: ops_bounded_def)
qed

lemma scast_count: "n < 2 ^ 31 \<Longrightarrow> scast (of_nat n :: u32) = (of_nat n :: u64)"
  by (simp add: scast_eq sint_of_nat_32)

section \<open>The invariant of a run\<close>

context syncable_file
begin

definition db_inv :: "crc_env \<Rightarrow> u64 \<Rightarrow> 'f db \<Rightarrow> client list list \<Rightarrow> bool" where
  "db_inv e seq db gs \<longleftrightarrow> mem_rep (db_mem db) (mem_ops (seq + 1) (groups_ops gs))
     \<and> db_last_sequence db = seq + of_nat (length (groups_ops gs)) \<and> db_tmp_batch db = WriteBatch_Clear
     \<and> contents (lw_dest (db_log db)) = log_bytes (group_records seq gs) \<and> stored (lw_dest (db_log db)) = contents (lw_dest (db_log db))
     \<and> writer_ok e (db_log db) \<and> lw_block_offset (db_log db) = log_end 0 (group_records seq gs)"

lemma db_inv_keeps: "db_inv e seq db gs \<Longrightarrow> keeps db db' \<Longrightarrow> db_inv e seq db' gs"
  by (simp add: db_inv_def keeps_def)

lemma log_and_apply_inv:
  assumes env: "env_ok" "padding_ok append" "crc_ok e" "dbe_append env = append" "dbe_flush env = flush" "dbe_sync env = sync"
      "dbe_crc env = e" "dbe_icmp env = Internal_Compare Slice_compare"
    and inv: "db_inv e seq db gs" and ops: "ops_bounded seq (groups_ops gs @ group_ops g)"
    and run: "log_and_apply env sy (batch_bytes (db_last_sequence db + 1) (group_ops g)) db = Some (OK, sync_error, db')"
  shows "db_inv e seq (db'\<lparr>db_last_sequence := seq + of_nat (length (groups_ops (gs @ [g])))\<rparr>) (gs @ [g])"
    "db_tmp_batch db' = WriteBatch_Clear" "\<not> sync_error"
proof -
  let ?next = "seq + of_nat (length (groups_ops gs))" and ?rs = "group_records seq gs"
  let ?b = "batch_bytes (?next + 1) (group_ops g)"
  have last: "db_last_sequence db = ?next" using inv by (simp add: db_inv_def)
  from run obtain log f mem where log: "AddRecord_loop e append flush True ?b (db_log db) = Some (OK, log)"
    and sync: "(if sy then sync (lw_dest log) else Some (OK, lw_dest log)) = Some (OK, f)"
    and ins: "WB_InsertInto (Internal_Compare Slice_compare) ?b (db_mem db) = Some (OK, mem)"
    and db': "db' = db\<lparr>db_log := log\<lparr>lw_dest := f\<rparr>, db_mem := mem\<rparr>" "\<not> sync_error"
    by (auto simp: log_and_apply_def Let_def env AddRecord_def last split: option.splits if_splits)
  from AddRecord_loop_written [OF env(1-3) log] inv have
    l: "contents (lw_dest log) = log_bytes (group_records seq (gs @ [g]))" "stored (lw_dest log) = contents (lw_dest log)" "writer_ok e log"
      "lw_block_offset log = log_end 0 (group_records seq (gs @ [g]))"
    by (auto simp: db_inv_def writer_ok_def group_records_snoc log_from_snoc log_bytes_def)
  have f: "contents f = contents (lw_dest log) \<and> stored f = contents (lw_dest log)"
    using sync sync_OK [OF env(1)] l(2) by (auto split: if_splits)
  note b = ops_bounded_append [OF ops]
  have rep: "mem_rep (db_mem db) (mem_ops (seq + 1) (groups_ops gs))" using inv by (simp add: db_inv_def)
  have "\<forall>e \<in> set (mem_ops (seq + 1) (groups_ops gs)). unat (op_seq e) \<le> unat ?next"
    using mem_ops_old b by (simp add: ops_bounded_def)
  from InsertInto_next [OF rep this b [THEN conjunct2]] ins have
    "mem_rep mem (mem_ops (seq + 1) (groups_ops gs) @ mem_ops (?next + 1) (group_ops g))" by auto
  then have "mem_rep mem (mem_ops (seq + 1) (groups_ops (gs @ [g])))" by (simp add: mem_ops_append algebra_simps)
  then show "db_inv e seq (db'\<lparr>db_last_sequence := seq + of_nat (length (groups_ops (gs @ [g])))\<rparr>) (gs @ [g])"
    "db_tmp_batch db' = WriteBatch_Clear" "\<not> sync_error"
    using inv l f db' by (simp_all add: db_inv_def writer_ok_def del: map_append)
qed

lemma db_run_inv:
  assumes env: "env_ok" "padding_ok append" "crc_ok e" "dbe_append env = append" "dbe_flush env = flush" "dbe_sync env = sync"
      "dbe_crc env = e" "dbe_icmp env = Internal_Compare Slice_compare" "\<forall>db. keeps db (dbe_wait env db)"
    and start: "db_inv e seq db0 []"
  shows "db_run env db0 q db gs \<Longrightarrow> ops_bounded seq (groups_ops gs) \<Longrightarrow> db_inv e seq db gs"
proof (induction q db gs rule: db_run.induct)
  case (background q db gs db')
  then show ?case using db_inv_keeps by blast
next
  case (lead ops sy q db gs n db')
  let ?g = "take n ((Some ops, sy) # q)"
  have bnd: "ops_bounded seq (groups_ops gs @ group_ops ?g)" using lead.prems by simp
  then have inv: "db_inv e seq db gs" using lead.IH ops_bounded_append by blast
  from MakeRoom_keeps [OF env(9) lead.hyps(2)] obtain s db1 where
    room: "MakeRoomForWrite env False db = Some (s, db1)" "keeps db db1" by blast
  have inv1: "db_inv e seq db1 gs" using db_inv_keeps [OF inv room(2)] .
  obtain updates is_tmp m where grp: "BuildBatchGroup WriteBatch_Clear (client_writer (Some ops, sy)) (batch_bytes 0 ops) (map client_writer q) = (updates, is_tmp, m)"
    by (metis prod.exhaust)
  from BuildBatchGroup_clients [OF grp] have m: "updates = batch_bytes 0 (group_ops (take m ((Some ops, sy) # q)))" by blast
  let ?u = "batch_bytes (db_last_sequence db1 + 1) (group_ops (take m ((Some ops, sy) # q)))"
  have tmp: "db_tmp_batch db1 = WriteBatch_Clear" using inv1 by (simp add: db_inv_def)
  have "s = OK" using lead.hyps(3) room(1) by (auto simp: DBImpl_Write_def split: if_splits)
  with lead.hyps(3) room(1) grp tmp m obtain se db2 where
    la: "log_and_apply env sy ?u db1 = Some (OK, se, db2)" "m = n"
      and db': "db' = (let db3 = (if se then RecordBackgroundError OK db2 else db2);
          db4 = (if is_tmp then db3\<lparr>db_tmp_batch := WriteBatch_Clear\<rparr> else db3)
        in db4\<lparr>db_last_sequence := db_last_sequence db1 + scast (of_nat (length (group_ops ?g)) :: u32)\<rparr>)"
    by (auto simp: DBImpl_Write_def Let_def split: option.splits prod.splits)
  from log_and_apply_inv [OF env(1-8) inv1 bnd] la have
    new: "db_inv e seq (db2\<lparr>db_last_sequence := seq + of_nat (length (groups_ops (gs @ [?g])))\<rparr>) (gs @ [?g])"
      "db_tmp_batch db2 = WriteBatch_Clear" "\<not> se" by blast+
  have "length (group_ops ?g) < 2 ^ 31" using bnd by (simp add: ops_bounded_def)
  then have "db_last_sequence db1 + scast (of_nat (length (group_ops ?g)) :: u32) = seq + of_nat (length (groups_ops (gs @ [?g])))"
    using inv1 by (simp add: db_inv_def scast_count)
  then have "db' = db2\<lparr>db_last_sequence := seq + of_nat (length (groups_ops (gs @ [?g])))\<rparr>"
    using db' new(2,3) by simp
  then show ?case using new(1) by simp
qed (simp_all add: start)

end

section \<open>Recovery\<close>

text \<open>\<open>tables edit\<close> are the memtables that have been written to tables; writing another one succeeds.\<close>

definition level0_ok :: "('e, 'f) rec_env \<Rightarrow> ('e \<Rightarrow> memtable list) \<Rightarrow> bool" where
  "level0_ok env tables \<longleftrightarrow> (\<forall>mem edit. \<exists>edit'. re_level0 env mem edit = (OK, edit') \<and> tables edit' = tables edit @ [mem])"

text \<open>What has been recovered: the segments in the tables, and the one in the memtable.\<close>

definition recovered :: "('e \<Rightarrow> memtable list) \<Rightarrow> 'e rec_state \<Rightarrow> mem_op list list \<Rightarrow> mem_op list \<Rightarrow> bool" where
  "recovered tables st segs seg \<longleftrightarrow> rs_status st = OK \<and> list_all2 mem_rep (tables (rs_edit st)) segs
     \<and> (case rs_mem st of None \<Rightarrow> seg = [] | Some mem \<Rightarrow> mem_rep mem seg)"

lemma recover_record_next:
  assumes env: "level0_ok env tables" "re_icmp env = Internal_Compare Slice_compare"
    and st: "recovered tables st segs seg" "\<forall>e \<in> set seg. unat (op_seq e) \<le> unat seq" and ops: "ops_bounded seq ops"
  shows "\<exists>st' segs' seg'. recover_record env (batch_bytes (seq + 1) ops) st = Some (False, st') \<and> recovered tables st' segs' seg'
    \<and> concat segs' @ seg' = concat segs @ seg @ mem_ops (seq + 1) ops
    \<and> (\<forall>e \<in> set seg'. unat (op_seq e) \<le> unat (seq + of_nat (length ops)))
    \<and> rs_max_sequence st' = max (rs_max_sequence st) (seq + of_nat (length ops))"
proof -
  define mem where "mem = (case rs_mem st of None \<Rightarrow> new_MemTable | Some mem \<Rightarrow> mem)"
  let ?b = "batch_bytes (seq + 1) ops" and ?n = "seq + of_nat (length ops)"
  have rep: "mem_rep mem seg" using st(1) mem_rep_new by (auto simp: recovered_def mem_def split: option.splits)
  from InsertInto_next [OF rep st(2) ops] obtain mem' where
    ins: "WB_InsertInto (Internal_Compare Slice_compare) ?b mem = Some (OK, mem')" "mem_rep mem' (seg @ mem_ops (seq + 1) ops)" by blast
  have bnd: "length ops < 2 ^ 31" "unat seq + 1 + length ops \<le> 2 ^ 56" using ops by (simp_all add: ops_bounded_def)
  then have last: "WB_Sequence ?b + scast (WB_Count ?b) - 1 = ?n" by (simp add: scast_count)
  have n: "unat ?n = unat seq + length ops"
    using bnd unat_add_no_overflow [of seq "of_nat (length ops)"] by (simp add: unat_of_nat_64)
  let ?st = "st\<lparr>rs_status := OK, rs_mem := Some mem', rs_max_sequence := max (rs_max_sequence st) ?n\<rparr>"
  have run: "recover_record env ?b st = (if re_usage env mem' > re_write_buffer_size env
      then let (status, edit) = re_level0 env mem' (rs_edit st)
        in Some (status \<noteq> OK, ?st\<lparr>rs_compactions := rs_compactions st + 1, rs_save_manifest := True, rs_status := status, rs_edit := edit, rs_mem := None\<rparr>)
      else Some (False, ?st))"
    using ins(1) last by (auto simp: recover_record_def WB_SetContents_def env(2) MaybeIgnoreError_def Let_def mem_def [symmetric] max_def split: prod.splits)
  show ?thesis
  proof (cases "re_usage env mem' > re_write_buffer_size env")
    case True
    from env(1) obtain edit where edit: "re_level0 env mem' (rs_edit st) = (OK, edit)" "tables edit = tables (rs_edit st) @ [mem']"
      by (auto simp: level0_ok_def)
    show ?thesis using run True edit ins(2) st(1)
      by (intro exI [of _ "?st\<lparr>rs_compactions := rs_compactions st + 1, rs_save_manifest := True, rs_status := OK, rs_edit := edit, rs_mem := None\<rparr>"]
        exI [of _ "segs @ [seg @ mem_ops (seq + 1) ops]"] exI [of _ "[]"])
        (simp add: recovered_def list_all2_appendI)
  next
    case False
    have "\<forall>e \<in> set (seg @ mem_ops (seq + 1) ops). unat (op_seq e) \<le> unat ?n"
      using st(2) mem_ops_old [OF bnd(2)] n by fastforce
    then show ?thesis using run False ins(2) st(1)
      by (intro exI [of _ ?st] exI [of _ segs] exI [of _ "seg @ mem_ops (seq + 1) ops"]) (simp add: recovered_def)
  qed
qed

lemma recover_loop_groups:
  assumes env: "level0_ok env tables" "re_icmp env = Internal_Compare Slice_compare"
  shows "\<lbrakk>reads e read skip (group_records seq gs) r; lr_reports r = Some []; recovered tables st segs seg;
      \<forall>e \<in> set seg. unat (op_seq e) \<le> unat seq; ops_bounded seq (groups_ops gs)\<rbrakk> \<Longrightarrow>
    \<exists>st' segs' seg'. RecoverLogFile_loop env e read skip r st = Some st' \<and> recovered tables st' segs' seg'
      \<and> concat segs' @ seg' = concat segs @ seg @ mem_ops (seq + 1) (groups_ops gs)
      \<and> rs_max_sequence st' = (if gs = [] then rs_max_sequence st else max (rs_max_sequence st) (seq + of_nat (length (groups_ops gs))))"
proof (induction gs arbitrary: seq r st segs seg)
  case Nil
  then have "RecoverLogFile_loop env e read skip r st = Some st"
    by (subst RecoverLogFile_loop.simps) (auto simp: reported_status_def recovered_def)
  with Nil(3) show ?case by (intro exI [of _ st] exI [of _ segs] exI [of _ seg]) simp
next
  case (Cons g gs)
  from Cons.prems(1) obtain r1 where r1: "ReadRecord e read skip r = Some (Some (batch_bytes (seq + 1) (group_ops g)), r1)"
    "lr_reports r1 = lr_reports r" "reads e read skip (group_records (seq + of_nat (length (group_ops g))) gs) r1" by auto
  have b: "ops_bounded seq (group_ops g) \<and> ops_bounded (seq + of_nat (length (group_ops g))) (groups_ops gs)"
    using ops_bounded_append Cons.prems(5) by simp
  from recover_record_next [OF env Cons.prems(3,4) b [THEN conjunct1]] obtain st1 segs1 seg1 where
    1: "recover_record env (batch_bytes (seq + 1) (group_ops g)) st = Some (False, st1)" "recovered tables st1 segs1 seg1"
      "concat segs1 @ seg1 = concat segs @ seg @ mem_ops (seq + 1) (group_ops g)"
      "\<forall>e \<in> set seg1. unat (op_seq e) \<le> unat (seq + of_nat (length (group_ops g)))"
      "rs_max_sequence st1 = max (rs_max_sequence st) (seq + of_nat (length (group_ops g)))" by blast
  have loop: "RecoverLogFile_loop env e read skip r st = RecoverLogFile_loop env e read skip r1 st1"
  proof -
    have ok: "rs_status st = OK" "reported_status p r1 OK = OK" for p
      using Cons.prems(2,3) r1(2) by (simp_all add: recovered_def reported_status_def)
    then have same: "st\<lparr>rs_status := OK\<rparr> = st" by (cases st) simp
    have "\<not> length (batch_bytes (seq + 1) (group_ops g)) < 12" by (simp add: not_less)
    with ok show ?thesis using r1(1) 1(1) by (subst RecoverLogFile_loop.simps) (simp add: Let_def same)
  qed
  from Cons.IH [OF r1(3) _ 1(2,4) b [THEN conjunct2]] r1(2) Cons.prems(2) obtain st' segs' seg' where
    2: "RecoverLogFile_loop env e read skip r1 st1 = Some st'" "recovered tables st' segs' seg'"
      "concat segs' @ seg' = concat segs1 @ seg1 @ mem_ops (seq + of_nat (length (group_ops g)) + 1) (groups_ops gs)"
      "rs_max_sequence st' = (if gs = [] then rs_max_sequence st1
         else max (rs_max_sequence st1) (seq + of_nat (length (group_ops g)) + of_nat (length (groups_ops gs))))" by auto
  have "unat (seq + of_nat (length (group_ops g)) + of_nat (length (groups_ops gs))) = unat (seq + of_nat (length (group_ops g))) + length (groups_ops gs)"
    using b unat_add_no_overflow [of "seq + of_nat (length (group_ops g))" "of_nat (length (groups_ops gs))"]
    by (simp add: ops_bounded_def unat_of_nat_64)
  then have "seq + of_nat (length (group_ops g)) \<le> seq + of_nat (length (group_ops g)) + of_nat (length (groups_ops gs))"
    by (simp add: word_le_nat_alt)
  then have "rs_max_sequence st' = max (rs_max_sequence st) (seq + of_nat (length (groups_ops (g # gs))))"
    using 2(4) 1(5) by (auto simp: max_def add.assoc)
  moreover have "concat segs' @ seg' = concat segs @ seg @ mem_ops (seq + 1) (groups_ops (g # gs))"
    using 2(3) 1(3) by (simp add: mem_ops_append algebra_simps flip: append_assoc)
  ultimately show ?case using loop 2(1,2) by auto
qed

lemma RecoverLogFile_groups:
  assumes env: "level0_ok env tables" "re_icmp env = Internal_Compare Slice_compare" "\<not> re_reuse_logs env" "tables edit = []"
    and reads: "reads e read skip (group_records seq gs) (new_Reader g True True 0)" and bnd: "ops_bounded seq (groups_ops gs)"
  shows "\<exists>st segs. RecoverLogFile env e read skip last_log sm m edit (Inr g) = Some (st, None) \<and> rs_status st = OK
    \<and> list_all2 mem_rep (tables (rs_edit st)) segs \<and> concat segs = mem_ops (seq + 1) (groups_ops gs)
    \<and> rs_max_sequence st = (if gs = [] then m else max m (seq + of_nat (length (groups_ops gs))))"
proof -
  let ?st = "\<lparr>rs_status = OK, rs_mem = None, rs_max_sequence = m, rs_compactions = 0, rs_save_manifest = sm, rs_edit = edit\<rparr>"
  have "recovered tables ?st [] []" using env(4) by (simp add: recovered_def)
  from recover_loop_groups [OF env(1,2) reads _ this _ bnd] obtain st segs seg where
    loop: "RecoverLogFile_loop env e read skip (new_Reader g True True 0) ?st = Some st" and st: "recovered tables st segs seg"
      "concat segs @ seg = mem_ops (seq + 1) (groups_ops gs)"
      "rs_max_sequence st = (if gs = [] then m else max m (seq + of_nat (length (groups_ops gs))))"
    by (auto simp: new_Reader_def)
  have run: "RecoverLogFile env e read skip last_log sm m edit (Inr g) = Some (finish_recovery env e last_log st)"
    using loop by (simp add: RecoverLogFile_def)
  show ?thesis
  proof (cases "rs_mem st")
    case None
    then show ?thesis using run st env(3) by (intro exI [of _ st] exI [of _ segs]) (auto simp: finish_recovery_def recovered_def Let_def)
  next
    case (Some mem)
    from env(1) obtain edit' where e': "re_level0 env mem (rs_edit st) = (OK, edit')" "tables edit' = tables (rs_edit st) @ [mem]"
      by (auto simp: level0_ok_def)
    then have "finish_recovery env e last_log st = (st\<lparr>rs_save_manifest := True, rs_status := OK, rs_edit := edit', rs_mem := None\<rparr>, None)"
      using st(1) Some env(3) by (simp add: finish_recovery_def recovered_def Let_def)
    then show ?thesis using run st e' Some
      by (intro exI [of _ "st\<lparr>rs_save_manifest := True, rs_status := OK, rs_edit := edit', rs_mem := None\<rparr>"] exI [of _ "segs @ [seg]"])
        (simp add: recovered_def list_all2_appendI)
  qed
qed

section \<open>The database on POSIX files\<close>

definition posix_db :: "'w posix \<Rightarrow> crc_env \<Rightarrow> 'w wstate db_env \<Rightarrow> bool" where
  "posix_db px e env \<longleftrightarrow> dbe_append env = PosixWritableFile_Append px \<and> dbe_flush env = PosixWritableFile_Flush px
     \<and> dbe_sync env = PosixWritableFile_Sync px \<and> dbe_crc env = e \<and> dbe_icmp env = Internal_Compare Slice_compare
     \<and> (\<forall>db. keeps db (dbe_wait env db))"

definition new_db :: "crc_env \<Rightarrow> 'f \<Rightarrow> u64 \<Rightarrow> 'f db \<Rightarrow> bool" where
  "new_db e file seq db \<longleftrightarrow> db_mem db = new_MemTable \<and> db_log db = new_Writer e file 0 \<and> db_tmp_batch db = WriteBatch_Clear
     \<and> db_last_sequence db = seq"

lemma posix_run_inv:
  assumes "writes_ok px disk" "syncs_ok px disk" "padding_ok (PosixWritableFile_Append px)" "crc_ok e" "posix_db px e env"
    "new_db e (new_PosixWritableFile filename fd, w) seq db0" "disk w = []" "db_run env db0 q db gs" "ops_bounded seq (groups_ops gs)"
  shows "posix_sync.db_inv disk e seq db gs"
proof (rule posix_sync.db_run_inv [where px = px and env = env and q = q])
  show "posix_sync.db_inv disk e seq db0 []" using assms(6,7) mem_rep_new unfolding posix_sync.db_inv_def
    by (simp add: new_db_def log_bytes_def wfile_contents_def wfile_stored_def new_PosixWritableFile_def
        new_Writer_def writer_ok_def)
qed (use assms in \<open>simp_all add: posix_db_def\<close>)

lemma group_records_take: "take k (group_records seq gs) = group_records seq (take k gs)"
  by (induction gs arbitrary: k seq) (simp_all add: take_Cons split: nat.split)

lemma length_group_records [simp]: "length (group_records seq gs) = length gs"
  by (induction gs arbitrary: seq) simp_all

section \<open>Writes return\<close>

text \<open>A system on which synchronising succeeds.\<close>

definition syncs :: "'w posix \<Rightarrow> bool" where
  "syncs px \<longleftrightarrow> (\<forall>fd w. \<exists>w'. px_fsync px fd w = (None, w')) \<and> (\<forall>nm w. \<exists>fd w'. px_open px nm w = (Inr fd, w'))"

lemma sync_progress:
  assumes "progress px" "syncs px"
  shows "\<exists>st'. PosixWritableFile_Sync px st = Some (OK, st')"
proof -
  obtain f w where st: "st = (f, w)" by (rule prod.exhaust)
  have fd: "\<exists>w'. SyncFd px fd path w = (OK, w')" for fd path w
  proof -
    have fallback: "\<exists>w'. (case px_fsync px fd w of (None, w') \<Rightarrow> (OK, w') | (Some errno, w') \<Rightarrow> (PosixError px path errno, w')) = (OK, w')" for w
    proof -
      from assms(2) obtain w' where "px_fsync px fd w = (None, w')" unfolding syncs_def by blast
      then show ?thesis by simp
    qed
    then show ?thesis by (auto simp: SyncFd_def Let_def split: option.split prod.split)
  qed
  have "\<exists>w'. SyncDirIfManifest px (f, w) = (OK, (f, w'))"
  proof -
    from assms(2) obtain d w1 where "px_open px (wf_dirname f) w = (Inr d, w1)" unfolding syncs_def by blast
    then show ?thesis using fd [of d "wf_dirname f" w1] by (auto simp: SyncDirIfManifest_def)
  qed
  then obtain w1 where "SyncDirIfManifest px (f, w) = (OK, (f, w1))" by blast
  moreover from WriteUnbuffered_progress [OF assms(1)] obtain w2 where "WriteUnbuffered px (wf_fd f) (wf_filename f) (wf_buf f) w1 = Some (OK, w2)" by blast
  then have "FlushBuffer px (f, w1) = Some (OK, (f\<lparr>wf_buf := []\<rparr>, w2))" by (simp add: FlushBuffer_def)
  ultimately show ?thesis using fd [of "wf_fd f" "wf_filename f" w2] st by (auto simp: PosixWritableFile_Sync_def)
qed

lemma MakeRoom_OK:
  assumes "\<forall>db. keeps db (dbe_wait env db)" "dbe_usage env (db_mem db) \<le> dbe_write_buffer_size env"
    and "db_bg_error db = OK" "\<forall>db. db_bg_error db = OK \<longrightarrow> db_bg_error (dbe_wait env db) = OK"
  shows "\<exists>db'. MakeRoomForWrite env False db = Some (OK, db') \<and> keeps db db'"
proof -
  have "MakeRoom_loop env False False db = Some (OK, db)"
    if "dbe_usage env (db_mem db) \<le> dbe_write_buffer_size env" "db_bg_error db = OK" for db
    using that by (subst MakeRoom_loop.simps) simp
  moreover have "dbe_usage env (db_mem (dbe_wait env db)) \<le> dbe_write_buffer_size env" "db_bg_error (dbe_wait env db) = OK"
    using assms by (simp_all add: keeps_def)
  ultimately show ?thesis unfolding MakeRoomForWrite_def
    using assms by (subst MakeRoom_loop.simps) auto
qed

lemma Write_returns:
  assumes files: "\<And>f data. \<exists>f'. dbe_append env f data = Some (OK, f')" "\<And>f. \<exists>f'. dbe_flush env f = Some (OK, f')"
      "\<And>f. \<exists>f'. dbe_sync env f = Some (OK, f')"
    and room: "\<forall>db. keeps db (dbe_wait env db)" "dbe_usage env (db_mem db) \<le> dbe_write_buffer_size env"
      "db_bg_error db = OK" "\<forall>db. db_bg_error db = OK \<longrightarrow> db_bg_error (dbe_wait env db) = OK"
    and icmp: "dbe_icmp env = Internal_Compare Slice_compare"
    and db: "mem_rep (db_mem db) es" "\<forall>e \<in> set es. unat (op_seq e) \<le> unat (db_last_sequence db)" "db_tmp_batch db = WriteBatch_Clear"
    and ops: "ops_bounded (db_last_sequence db) (group_ops ((Some ops, sy) # q))"
  shows "\<exists>n db'. DBImpl_Write env (client_writer (Some ops, sy)) (map client_writer q) db = Some (OK, n, db') \<and> 1 \<le> n \<and> n \<le> Suc (length q)"
proof -
  from MakeRoom_OK [OF room] obtain db1 where r: "MakeRoomForWrite env False db = Some (OK, db1)" "keeps db db1" by blast
  obtain updates is_tmp n where grp: "BuildBatchGroup WriteBatch_Clear (client_writer (Some ops, sy)) (batch_bytes 0 ops) (map client_writer q) = (updates, is_tmp, n)"
    by (metis prod.exhaust)
  let ?g = "take n ((Some ops, sy) # q)"
  from BuildBatchGroup_clients [OF grp] have n: "1 \<le> n" "n \<le> Suc (length q)" "updates = batch_bytes 0 (group_ops ?g)" by auto
  have "group_ops ((Some ops, sy) # q) = group_ops ?g @ group_ops (drop n ((Some ops, sy) # q))"
    by (metis append_take_drop_id concat_append map_append)
  with ops ops_bounded_append have bnd: "ops_bounded (db_last_sequence db) (group_ops ?g)" by metis
  let ?u = "batch_bytes (db_last_sequence db1 + 1) (group_ops ?g)"
  have k: "db_mem db1 = db_mem db" "db_last_sequence db1 = db_last_sequence db" "db_tmp_batch db1 = WriteBatch_Clear"
    using r(2) db(3) by (simp_all add: keeps_def)
  have "\<exists>w'. AddRecord_loop (dbe_crc env) (dbe_append env) (dbe_flush env) True ?u (db_log db1) = Some (OK, w')"
    by (rule AddRecord_loop_returns) (rule files)+
  then obtain log where log: "AddRecord (dbe_crc env) (dbe_append env) (dbe_flush env) ?u (db_log db1) = Some (OK, log)" by (auto simp: AddRecord_def)
  obtain f where f: "(if sy then dbe_sync env (lw_dest log) else Some (OK, lw_dest log)) = Some (OK, f)" using files(3) by (cases sy) auto
  from InsertInto_next [OF db(1,2) bnd] k obtain mem where "WB_InsertInto (dbe_icmp env) ?u (db_mem db1) = Some (OK, mem)" by (auto simp: icmp)
  with log f have "log_and_apply env sy ?u db1 = Some (OK, False, db1\<lparr>db_log := log\<lparr>lw_dest := f\<rparr>, db_mem := mem\<rparr>)"
    by (simp add: log_and_apply_def Let_def)
  then have "\<exists>db'. DBImpl_Write env (client_writer (Some ops, sy)) (map client_writer q) db = Some (OK, n, db')"
    using r(1) grp k n(3) by (simp add: DBImpl_Write_def Let_def)
  then show ?thesis using n(1,2) by blast
qed

section \<open>A sample database\<close>

definition sample_crc :: crc_env where
  "sample_crc = \<lparr>ce_acc = None, ce_at = (\<lambda>_. 0)\<rparr>"

definition sample_sync_posix :: "byte list posix" where
  "sample_sync_posix = sample_posix\<lparr>px_open := \<lambda>nm w. (Inr 9, w)\<rparr>"

definition sample_db_env :: "byte list wstate db_env" where
  "sample_db_env = \<lparr>dbe_append = PosixWritableFile_Append sample_sync_posix, dbe_flush = PosixWritableFile_Flush sample_sync_posix,
     dbe_sync = PosixWritableFile_Sync sample_sync_posix, dbe_crc = sample_crc, dbe_icmp = Internal_Compare Slice_compare,
     dbe_usage = length \<circ> sl_nodes, dbe_write_buffer_size = 1000, dbe_new_log = (\<lambda>n db. (NotSupported ''no file'', lw_dest (db_log db))),
     dbe_wait = id\<rparr>"

definition sample_db :: "byte list wstate db" where
  "sample_db = \<lparr>db_mem = new_MemTable, db_imm = None, db_log = new_Writer sample_crc (new_PosixWritableFile ''000003.log'' 3, []) 0,
     db_logfile_number = 3, db_next_file = 4, db_last_sequence = 6, db_l0_files = 0, db_tmp_batch = WriteBatch_Clear, db_bg_error = OK\<rparr>"

definition sample_rec_env :: "(memtable list, nat) rec_env" where
  "sample_rec_env = \<lparr>re_paranoid_checks = True, re_reuse_logs = False, re_write_buffer_size = 1000, re_usage = length \<circ> sl_nodes,
     re_icmp = Internal_Compare Slice_compare, re_level0 = (\<lambda>mem ts. (OK, ts @ [mem])), re_reuse = None\<rparr>"

lemma sample_db_ok:
  "writes_ok sample_sync_posix id" "syncs_ok sample_sync_posix id" "read_ok sample_sync_posix fd id" "crc_ok sample_crc"
  "progress sample_sync_posix" "syncs sample_sync_posix"
  "padding_ok (PosixWritableFile_Append sample_sync_posix)" "posix_db sample_sync_posix sample_crc sample_db_env"
  "new_db sample_crc (new_PosixWritableFile ''000003.log'' 3, []) 6 sample_db" "level0_ok sample_rec_env id"
proof -
  show p: "progress sample_sync_posix" by (simp add: progress_def sample_sync_posix_def sample_posix_def)
  show "padding_ok (PosixWritableFile_Append sample_sync_posix)"
    unfolding padding_ok_def using posix_progress(1) [OF p] by (metis option.inject prod.inject)
qed (simp_all add: write_ok_def read_ok_def syncs_ok_def syncs_def crc_ok_def posix_db_def new_db_def level0_ok_def sample_sync_posix_def
    sample_posix_def sample_crc_def sample_db_env_def sample_db_def sample_rec_env_def min_def)

text \<open>A synchronised write of two clients at once.\<close>

abbreviation sample_clients :: "client list" where
  "sample_clients \<equiv> [(Some [PutOp [1] [2]], True), (Some [DeleteOp [3]], False)]"

lemma sample_db_room:
  "dbe_usage sample_db_env (db_mem sample_db) \<le> dbe_write_buffer_size sample_db_env" "db_bg_error sample_db = OK"
  "\<forall>db. db_bg_error db = OK \<longrightarrow> db_bg_error (dbe_wait sample_db_env db) = OK"
  by (simp_all add: sample_db_env_def sample_db_def new_MemTable_def new_SkipList_def NewNode_def Node_SetNext_def kMaxHeight_def eval_nat_numeral)

lemma sample_run:
  "\<exists>q db g. db_run sample_db_env sample_db q db [g] \<and> g @ q = sample_clients \<and> g \<noteq> []"
proof -
  have files: "\<exists>f'. dbe_append sample_db_env f data = Some (OK, f')" "\<exists>f'. dbe_flush sample_db_env f = Some (OK, f')"
    "\<exists>f'. dbe_sync sample_db_env f = Some (OK, f')" for f data
    using posix_progress [OF sample_db_ok(5)] sync_progress [OF sample_db_ok(5,6)] by (simp_all add: sample_db_env_def)
  have rep: "\<forall>db. keeps db (dbe_wait sample_db_env db)" "dbe_icmp sample_db_env = Internal_Compare Slice_compare" "mem_rep (db_mem sample_db) []"
    "db_tmp_batch sample_db = WriteBatch_Clear"
    using mem_rep_new by (simp_all add: sample_db_env_def sample_db_def)
  have "ops_bounded (db_last_sequence sample_db) (group_ops sample_clients)" by (simp add: ops_bounded_def sample_db_def client_ops_def)
  from Write_returns [OF files rep(1) sample_db_room rep(2,3) _ rep(4) this] obtain n db where
    w: "DBImpl_Write sample_db_env (client_writer (Some [PutOp [1] [2]], True)) (map client_writer [(Some [DeleteOp [3]], False)]) sample_db = Some (OK, n, db)"
      "1 \<le> n" by auto
  have "db_run sample_db_env sample_db ([] @ [(Some [PutOp [1] [2]], True)] @ [(Some [DeleteOp [3]], False)]) sample_db []"
    unfolding append_assoc [symmetric] by (intro db_run.arrive db_run.start)
  then have "db_run sample_db_env sample_db ((Some [PutOp [1] [2]], True) # [(Some [DeleteOp [3]], False)]) sample_db []" by simp
  from db_run.lead [OF this sample_db_room(1) w(1)] w(2) show ?thesis
    by (intro exI [of _ "drop n sample_clients"] exI [of _ db] exI [of _ "take n sample_clients"]) auto
qed

end
