(* ===== verification/Ldb_Build_Correct.thy ===== *)
theory Ldb_Build_Correct
  imports Ldb_Build Ldb_Table_Lookup Ldb_Db_Correct
begin

text \<open>
  A memtable that has been written to a table gives the same answers there. \<open>table_at\<close> is the invariant of the caches and the disk for one
  table: whatever the cache of tables has under its number is the table on the disk, opened, and whatever the block cache has for that table is one of its
  blocks. Building returns on a system whose calls succeed.
\<close>

section \<open>The entries of a memtable\<close>

definition mem_kv :: "memtable \<Rightarrow> nat \<Rightarrow> kv" where
  "mem_kv mem x = (MemIter_key mem x, MemIter_value mem x)"

text \<open>The loop of the builder adds what the list of the memtable has, in order.\<close>

lemma build_loop_entries:
  assumes "sl_inv mem_compare mem_valid table L" "L 0 = us @ vs"
  shows "build_loop e app flush opts table (first vs) meta r =
    map_option (\<lambda>r. (meta\<lparr>fm_largest := (if vs = [] then fm_largest meta else MemIter_key table (last vs))\<rparr>, r))
      (add_entries e app flush opts (map (mem_kv table) vs) r)"
  using assms(2)
proof (induction vs arbitrary: us meta r)
  case (Cons v vs)
  have next_node: "SkipIter_Next table v = first vs" by (rule mem.Iter_moves(1) [OF assms(1) Cons.prems])
  have tail: "build_loop e app flush opts table (first vs) meta r =
      map_option (\<lambda>r. (meta\<lparr>fm_largest := (if vs = [] then fm_largest meta else MemIter_key table (last vs))\<rparr>, r))
        (add_entries e app flush opts (map (mem_kv table) vs) r)" for meta r
    using Cons.IH [of "us @ [v]"] Cons.prems by simp
  show ?case
    by (subst build_loop.simps) (simp add: next_node tail mem_kv_def split: bind_splits, simp add: build_loop.simps)
qed (simp add: build_loop.simps)

lemma mem_kvs:
  assumes "mem_rep table es" "sl_inv mem_compare mem_valid table L" "set (sl_keys table L) = op_entry ` set es"
  shows "set (map (mem_kv table) (L 0)) = op_kv ` set es"
    "sorted_wrt (\<lambda>x y. Internal_Compare Slice_compare (fst x) (fst y) < 0) (map (mem_kv table) (L 0))"
proof -
  have es: "\<forall>e \<in> set es. op_ok e" using assms(1) by (simp add: mem_rep_def)
  have "set (map (mem_kv table) (L 0)) = (\<lambda>k. (fst (MemTable_GetSlice k), fst (MemTable_GetSlice (snd (MemTable_GetSlice k))))) ` set (sl_keys table L)"
    by (auto simp: sl_keys_def mem_kv_def MemIter_key_def MemIter_value_def)
  also have "\<dots> = op_kv ` set es" unfolding assms(3) image_image
    by (rule image_cong [OF HOL.refl], simp only: op_kv_def, metis es fst_conv op_entry_slices)
  finally show "set (map (mem_kv table) (L 0)) = op_kv ` set es" .
  have "sorted_keys mem_compare (sl_nodes table) (L 0)" using assms(2) sl_listsD(2) [of mem_compare mem_valid "sl_nodes table" L 0] by (simp add: sl_inv_def)
  then show "sorted_wrt (\<lambda>x y. Internal_Compare Slice_compare (fst x) (fst y) < 0) (map (mem_kv table) (L 0))"
    by (auto simp: sorted_keys_def sorted_wrt_map mem_kv_def MemIter_key_def MemTable_KeyCompare_def Let_def elim: sorted_wrt_mono_rel [rotated])
qed

section \<open>Table files\<close>

lemma Close_OK:
  assumes "writes_ok px disk" "syncs_ok px disk" "PosixWritableFile_Close px st = Some (OK, st')"
  shows "wfile_stored disk st' = wfile_contents disk st" "delete_PosixWritableFile px st' = Some (snd st')"
proof -
  from assms(3) obtain s f w where fl: "FlushBuffer px st = Some (s, (f, w))" by (auto simp: PosixWritableFile_Close_def split: option.splits)
  obtain r w' where c: "px_close px (wf_fd f) w = (r, w')" by (rule prod.exhaust)
  from assms(3) fl c have st': "s = OK" "st' = (f\<lparr>wf_fd := -1\<rparr>, w')"
    by (auto simp: PosixWritableFile_Close_def PosixError_def split: option.splits if_splits)
  have "disk w' = disk w" using assms(2) c unfolding syncs_ok_def by (metis snd_conv)
  then show "wfile_stored disk st' = wfile_contents disk st" using FlushBuffer_OK(2) [OF assms(1) fl [unfolded st'(1)]] st'(2) by (simp add: wfile_stored_def)
  show "delete_PosixWritableFile px st' = Some (snd st')" using st'(2) by (simp add: delete_PosixWritableFile_def)
qed

text \<open>
  What the system promises for the file of one table, whose contents are \<open>disk\<close>: it is empty when it has been created; it can be
  opened, and then its size, its mapping and reads with \<^verbatim>\<open>pread\<close> give these contents and leave them as they are.
\<close>

definition table_file :: "'w posix_fs \<Rightarrow> ('w \<Rightarrow> byte list) \<Rightarrow> string \<Rightarrow> bool" where
  "table_file fs disk fname \<longleftrightarrow>
     (\<forall>w fd w'. fs_create fs fname w = (Inr fd, w') \<longrightarrow> disk w' = []) \<and>
     (\<forall>w. \<exists>fd w'. px_open (fs_posix fs) fname w = (Inr fd, w') \<and> disk w' = disk w) \<and>
     (\<forall>w. disk (snd (fs_mmap_acquire fs w)) = disk w) \<and> (\<forall>read w. disk (fs_delete_random fs read w) = disk w) \<and>
     (\<forall>w. \<exists>w'. fs_stat_size fs fname w = (Inr (of_nat (length (disk w))), w') \<and> disk w' = disk w) \<and>
     (\<forall>fd w. \<exists>w'. fs_mmap fs fd (of_nat (length (disk w))) w = (Inr (disk w), w') \<and> disk w' = disk w) \<and>
     (\<forall>fd w. random_file (fst (fs_pread_file fs fname fd w)) (disk w) True \<and> disk (snd (fs_pread_file fs fname fd w)) = disk w)"

lemma NewRandomAccessFile_OK:
  assumes "table_file fs disk fname" "syncs_ok (fs_posix fs) disk"
  shows "\<exists>read w'. NewRandomAccessFile fs fname w = (Inr read, w') \<and> disk w' = disk w \<and> (length (disk w) < 2 ^ 63 \<longrightarrow> random_file read (disk w) True)"
proof -
  from assms(1) obtain fd w1 where o: "px_open (fs_posix fs) fname w = (Inr fd, w1)" "disk w1 = disk w" unfolding table_file_def by blast
  obtain b w2 where a: "fs_mmap_acquire fs w1 = (b, w2)" by (rule prod.exhaust)
  have d2: "disk w2 = disk w" using assms(1) a o(2) unfolding table_file_def by (metis snd_conv)
  show ?thesis
  proof (cases b)
    case False
    obtain read w3 where p: "fs_pread_file fs fname fd w2 = (read, w3)" by (rule prod.exhaust)
    then have "random_file read (disk w2) True" "disk w3 = disk w2" using assms(1) unfolding table_file_def by (metis fst_conv, metis snd_conv)
    then show ?thesis using o a False p d2 by (simp add: NewRandomAccessFile_def Let_def)
  next
    case True
    from assms(1) obtain w3 where s: "fs_stat_size fs fname w2 = (Inr (of_nat (length (disk w))), w3)" "disk w3 = disk w" unfolding table_file_def d2 [symmetric] by blast
    from assms(1) obtain w4 where m: "fs_mmap fs fd (of_nat (length (disk w))) w3 = (Inr (disk w), w4)" "disk w4 = disk w" unfolding table_file_def s(2) [symmetric] by blast
    have "disk (snd (px_close (fs_posix fs) fd w4)) = disk w" using assms(2) m(2) unfolding syncs_ok_def by metis
    moreover have "length (disk w) < 2 ^ 63 \<longrightarrow> random_file (mmap_read (fs_posix fs) fname (disk w)) (disk w) True"
      using mmap_file.random_file_axioms [of "fs_posix fs" fname "disk w"] by (simp add: random_file_def)
    ultimately show ?thesis using o a True s m by (simp add: NewRandomAccessFile_def GetFileSize_def Let_def)
  qed
qed

section \<open>Lookups through the table cache\<close>

lemma map_le_SomeD: "m \<subseteq>\<^sub>m m' \<Longrightarrow> m k = Some x \<Longrightarrow> m' k = Some x"
  by (metis domI map_le_def)

text \<open>What a lookup in the cache of tables may find for a key.\<close>

definition table_cache_ok :: "('t \<Rightarrow> byte list \<rightharpoonup> random_read \<times> table) \<Rightarrow> 't table_cache \<Rightarrow> bool" where
  "table_cache_ok view tc \<longleftrightarrow>
     (\<forall>key tcs r tcs'. tc_lookup tc key tcs = (r, tcs') \<longrightarrow> (\<forall>x. r = Some x \<longrightarrow> view tcs key = Some x) \<and> view tcs' \<subseteq>\<^sub>m view tcs) \<and>
     (\<forall>key x tcs. view (tc_insert tc key x tcs) \<subseteq>\<^sub>m (view tcs)(key \<mapsto> x))"

definition good_table ::
  "('c, 't, 'w) table_env \<Rightarrow> ('c \<Rightarrow> byte list \<Rightarrow> block \<Rightarrow> bool) \<Rightarrow> kv list list \<Rightarrow> 'c \<Rightarrow> random_read \<times> table \<Rightarrow> bool" where
  "good_table te holds bss c = (\<lambda>(read, t).
     random_file read (table_bytes (te_crc te) (te_options te) bss) True \<and>
     tbl_index_block t = new_Block (index_contents (te_crc te) (te_options te) bss) \<and>
     tbl_filter t = (if to_filter_policy (te_options te) = None then None
       else Some (new_FilterBlockReader (filter_contents (te_crc te) (te_options te) bss))) \<and>
     cache_agrees (te_crc te) (to_block_restart_interval (te_options te)) bss (tbl_cache_id t) (te_block_cache te) holds c)"

definition table_at ::
  "('c, 't, 'w) table_env \<Rightarrow> ('w \<Rightarrow> byte list) \<Rightarrow> ('c \<Rightarrow> byte list \<Rightarrow> block \<Rightarrow> bool) \<Rightarrow> ('t \<Rightarrow> byte list \<rightharpoonup> random_read \<times> table)
     \<Rightarrow> u64 \<Rightarrow> kv list list \<Rightarrow> ('c, 't, 'w) tc_state \<Rightarrow> bool" where
  "table_at te disk holds view number bss = (\<lambda>(c, tcs, w).
     disk w = table_bytes (te_crc te) (te_options te) bss \<and> (\<forall>x. view tcs (EncodeFixed64 number) = Some x \<longrightarrow> good_table te holds bss c x))"

lemma FindTable_OK:
  assumes fs: "table_file (te_fs te) disk (TableFileName (te_dbname te) number)" "syncs_ok (fs_posix (te_fs te)) disk" and e: "crc_ok (te_crc te)"
    and k: "0 < to_block_restart_interval (te_options te)" and caches: "cache_ok holds (te_block_cache te)" "table_cache_ok view (te_cache te)"
    and len: "length (table_bytes (te_crc te) (te_options te) bss) < 2 ^ 32" and at: "table_at te disk holds view number bss st"
  shows "\<exists>x c' tcs' w'. FindTable te number (of_nat (length (table_bytes (te_crc te) (te_options te) bss))) st = (Inr x, (c', tcs', w'))
    \<and> disk w' = table_bytes (te_crc te) (te_options te) bss \<and> good_table te holds bss c' x
    \<and> (\<forall>y. view tcs' (EncodeFixed64 number) = Some y \<longrightarrow> y = x)"
proof -
  let ?bytes = "table_bytes (te_crc te) (te_options te) bss" and ?key = "EncodeFixed64 number"
  obtain c tcs w where st: "st = (c, tcs, w)" by (rule prod_cases3)
  obtain r tcs1 where l: "tc_lookup (te_cache te) ?key tcs = (r, tcs1)" by (rule prod.exhaust)
  with caches(2) have sound: "r = Some x \<Longrightarrow> view tcs ?key = Some x" "view tcs1 \<subseteq>\<^sub>m view tcs" for x unfolding table_cache_ok_def by blast+
  have d: "disk w = ?bytes" using at by (simp add: table_at_def st)
  show ?thesis
  proof (cases r)
    case (Some x)
    have "good_table te holds bss c x" using at sound(1) [OF Some] by (cases x) (simp add: table_at_def st)
    moreover have "y = x" if "view tcs1 ?key = Some y" for y using sound(1) [OF Some] map_le_SomeD [OF sound(2) that] by simp
    ultimately show ?thesis using d l Some by (simp add: FindTable_def st)
  next
    case None
    have len63: "length (disk w) < 2 ^ 63" using len d by simp
    from NewRandomAccessFile_OK [OF fs, of w] len63 obtain read w1 where
      o: "NewRandomAccessFile (te_fs te) (TableFileName (te_dbname te) number) w = (Inr read, w1)" and rf: "random_file read ?bytes True" and d1: "disk w1 = ?bytes"
      unfolding d by blast
    from random_file.Table_Open_OK [OF rf _ e k HOL.refl len, of "te_block_cache te" c] obtain t c1 where
      t: "Table_Open (te_crc te) read (te_options te) (te_block_cache te) (of_nat (length ?bytes)) c = (Inr t, c1)"
      and new: "case te_block_cache te of None \<Rightarrow> c1 = c | Some bc \<Rightarrow> bc_new_id bc c = (tbl_cache_id t, c1)"
      and parts: "tbl_index_block t = new_Block (index_contents (te_crc te) (te_options te) bss)"
        "tbl_filter t = (if to_filter_policy (te_options te) = None then None else Some (new_FilterBlockReader (filter_contents (te_crc te) (te_options te) bss)))"
      by auto
    have "good_table te holds bss c1 (read, t)" using rf parts cache_agrees_new [OF caches(1) new] by (simp add: good_table_def)
    moreover have "y = (read, t)" if "view (tc_insert (te_cache te) ?key (read, t) tcs1) ?key = Some y" for y
    proof -
      have "view (tc_insert (te_cache te) ?key (read, t) tcs1) \<subseteq>\<^sub>m (view tcs1)(?key \<mapsto> (read, t))" using caches(2) unfolding table_cache_ok_def by blast
      from map_le_SomeD [OF this that] show ?thesis by simp
    qed
    ultimately show ?thesis using None l o t d1 by (auto simp: FindTable_def st open_table_file_def)
  qed
qed

lemma FindTable_disk:
  assumes "table_file (te_fs te) disk (TableFileName (te_dbname te) number)" "syncs_ok (fs_posix (te_fs te)) disk"
    and "FindTable te number sz (c, tcs, w) = (x, (c', tcs', w'))"
  shows "disk w' = disk w"
proof -
  from NewRandomAccessFile_OK [OF assms(1,2), of w] obtain read w1 where
    "NewRandomAccessFile (te_fs te) (TableFileName (te_dbname te) number) w = (Inr read, w1)" "disk w1 = disk w" by blast
  moreover have "disk (fs_delete_random (te_fs te) read w) = disk w" for read w using assms(1) unfolding table_file_def by blast
  ultimately show ?thesis using assms(3) by (auto simp: FindTable_def Let_def open_table_file_def split: option.splits prod.splits sum.splits)
qed

text \<open>A sequence of lookups through the table cache.\<close>

definition table_cache_get ::
  "('c, 't, 'w) table_env \<Rightarrow> read_options \<Rightarrow> u64 \<Rightarrow> u64 \<Rightarrow> byte list \<Rightarrow> u64 \<Rightarrow> ('c, 't, 'w) tc_state
     \<Rightarrow> (status \<times> SaverState \<times> byte list) \<times> ('c, 't, 'w) tc_state" where
  "table_cache_get te ro number sz user s st =
     (case TableCache_Get te ro number sz (internal_key (new_LookupKey user s)) st of (status, res, st) \<Rightarrow> ((status, saver_result user res), st))"

primrec table_cache_gets ::
  "('c, 't, 'w) table_env \<Rightarrow> read_options \<Rightarrow> u64 \<Rightarrow> u64 \<Rightarrow> (byte list \<times> u64) list \<Rightarrow> ('c, 't, 'w) tc_state
     \<Rightarrow> (status \<times> SaverState \<times> byte list) list" where
  "table_cache_gets te ro number sz [] st = []"
| "table_cache_gets te ro number sz (q # qs) st =
     (case table_cache_get te ro number sz (fst q) (snd q) st of (r, st) \<Rightarrow> r # table_cache_gets te ro number sz qs st)"

lemma table_cache_get_OK:
  assumes opts: "te_options te = SanitizeOptions (bytewise_options bits block_size k compression paranoid)" "0 < k"
    and fs: "table_file (te_fs te) disk (TableFileName (te_dbname te) number)" "syncs_ok (fs_posix (te_fs te)) disk" and e: "crc_ok (te_crc te)"
    and caches: "cache_ok holds (te_block_cache te)" "table_cache_ok view (te_cache te)"
    and len: "length (table_bytes (te_crc te) (te_options te) bss) < 2 ^ 32" and at: "table_at te disk holds view number bss st"
    and es: "\<forall>e \<in> set es. op_ok e" "sorted_wrt (<) (map op_seq es)" "set (concat bss) = op_kv ` set es" "[] \<notin> set bss"
      "sorted_wrt (\<lambda>x y. Internal_Compare Slice_compare (fst x) (fst y) < 0) (concat bss)"
    and s: "s \<le> kMaxSequenceNumber"
  shows "\<exists>st'. table_cache_get te ro number (of_nat (length (table_bytes (te_crc te) (te_options te) bss))) user s st = ((OK, saved (mem_lookup es user s)), st')
    \<and> table_at te disk holds view number bss st'"
proof -
  let ?bytes = "table_bytes (te_crc te) (te_options te) bss"
  have k': "0 < to_block_restart_interval (te_options te)" using opts by (simp add: SanitizeOptions_def bytewise_options_def)
  from FindTable_OK [OF fs e k' caches len at] obtain x c tcs w where
    f: "FindTable te number (of_nat (length ?bytes)) st = (Inr x, (c, tcs, w))" "disk w = ?bytes" "good_table te holds bss c x"
      "\<forall>y. view tcs (EncodeFixed64 number) = Some y \<longrightarrow> y = x" by blast
  obtain read t where x: "x = (read, t)" by (rule prod.exhaust)
  from f(3) have g: "random_file read ?bytes True" "tbl_index_block t = new_Block (index_contents (te_crc te) (te_options te) bss)"
    "tbl_filter t = (if to_filter_policy (te_options te) = None then None else Some (new_FilterBlockReader (filter_contents (te_crc te) (te_options te) bss)))"
    "cache_agrees (te_crc te) (to_block_restart_interval (te_options te)) bss (tbl_cache_id t) (te_block_cache te) holds c" by (simp_all add: good_table_def x)
  from table_get_OK [OF opts(1) g(1) TrueI e opts(2) HOL.refl len caches(1) es g(2-4) s, of ro user] obtain res c' where
    r: "InternalGet (te_crc te) read (te_options te) (te_block_cache te) ro (internal_key (new_LookupKey user s)) t c = (OK, res, c')"
      "saver_result user res = saved (mem_lookup es user s)"
      "cache_agrees (te_crc te) (to_block_restart_interval (te_options te)) bss (tbl_cache_id t) (te_block_cache te) holds c'" .
  have "good_table te holds bss c' x" using g r(3) by (simp add: good_table_def x)
  then have "table_at te disk holds view number bss (c', tcs, w)" using f(2,4) by (auto simp: table_at_def)
  then show ?thesis using f(1) r(1,2) by (simp add: table_cache_get_def TableCache_Get_def x)
qed

lemma table_cache_gets_OK:
  assumes "te_options te = SanitizeOptions (bytewise_options bits block_size k compression paranoid)" "0 < k"
    and "table_file (te_fs te) disk (TableFileName (te_dbname te) number)" "syncs_ok (fs_posix (te_fs te)) disk" "crc_ok (te_crc te)"
    and "cache_ok holds (te_block_cache te)" "table_cache_ok view (te_cache te)"
    and "length (table_bytes (te_crc te) (te_options te) bss) < 2 ^ 32" "table_at te disk holds view number bss st"
    and "\<forall>e \<in> set es. op_ok e" "sorted_wrt (<) (map op_seq es)" "set (concat bss) = op_kv ` set es" "[] \<notin> set bss"
      "sorted_wrt (\<lambda>x y. Internal_Compare Slice_compare (fst x) (fst y) < 0) (concat bss)"
    and "\<forall>q \<in> set qs. snd q \<le> kMaxSequenceNumber"
  shows "table_cache_gets te ro number (of_nat (length (table_bytes (te_crc te) (te_options te) bss))) qs st =
    map (\<lambda>(user, s). (OK, saved (mem_lookup es user s))) qs"
  using assms(9,15)
proof (induction qs arbitrary: st)
  case (Cons q qs)
  obtain user s where q: "q = (user, s)" by (rule prod.exhaust)
  from Cons.prems(2) q have "s \<le> kMaxSequenceNumber" by simp
  from table_cache_get_OK [OF assms(1-8) Cons.prems(1) assms(10-14) this, of ro user] obtain st' where
    "table_cache_get te ro number (of_nat (length (table_bytes (te_crc te) (te_options te) bss))) user s st = ((OK, saved (mem_lookup es user s)), st')"
    "table_at te disk holds view number bss st'" by blast
  with Cons.IH [OF this(2)] Cons.prems(2) show ?case by (simp add: q)
qed simp

section \<open>Building\<close>

lemma PosixError_not_OK [simp]: "PosixError px context errno \<noteq> OK"
  by (simp add: PosixError_def)

lemma build_file_OK:
  assumes opts: "0 < to_block_restart_interval (te_options te)"
    and os: "writes_ok (fs_posix (te_fs te)) disk" "syncs_ok (fs_posix (te_fs te)) disk" "crc_ok (te_crc te)"
    and num: "fm_number meta = number" and fs: "table_file (te_fs te) disk (TableFileName (te_dbname te) number)"
    and caches: "cache_ok holds (te_block_cache te)" "table_cache_ok view (te_cache te)" "view tcs (EncodeFixed64 number) = None"
    and mem: "sl_inv mem_compare mem_valid table L" "L 0 = v # vs"
    and start: "disk w = []" "wf_buf f = []"
    and run: "build_file te table v meta f (c, tcs, w) = Some (OK, meta', (c', tcs', w'))" and len: "length (disk w') < 2 ^ 32"
  shows "\<exists>bss. concat bss = map (mem_kv table) (L 0) \<and> [] \<notin> set bss \<and> table_at te disk holds view number bss (c', tcs', w')
    \<and> meta' = meta\<lparr>fm_file_size := of_nat (length (disk w')), fm_smallest := MemIter_key table v, fm_largest := MemIter_key table (last (v # vs))\<rparr>"
proof -
  let ?px = "fs_posix (te_fs te)" and ?opts = "te_options te" and ?e = "te_crc te"
  let ?app = "PosixWritableFile_Append (fs_posix (te_fs te))" and ?flush = "PosixWritableFile_Flush (fs_posix (te_fs te))"
  have loop: "build_loop ?e ?app ?flush ?opts table (Some v) meta r =
      map_option (\<lambda>r. (meta\<lparr>fm_largest := MemIter_key table (last (v # vs))\<rparr>, r)) (add_entries ?e ?app ?flush ?opts (map (mem_kv table) (L 0)) r)" for meta r
  proof -
    have "L 0 = [] @ v # vs" using mem(2) by simp
    note build_loop_entries [OF mem(1) this]
    then show ?thesis by (simp only: first_simps list.distinct if_False mem(2))
  qed
  let ?meta = "meta\<lparr>fm_smallest := MemIter_key table v, fm_largest := MemIter_key table (last (v # vs))\<rparr>"
  obtain r where r: "add_entries ?e ?app ?flush ?opts (map (mem_kv table) (L 0)) (new_TableBuilder ?opts (f, w)) = Some r"
    using run unfolding build_file_def Let_def prod.case loop by (auto simp: bind_eq_Some_conv)
  obtain s r' where fin: "TableBuilder_Finish ?e ?app ?flush ?opts r = Some (s, r')"
    using run unfolding build_file_def Let_def prod.case loop r by (auto simp: bind_eq_Some_conv)
  obtain s1 file2 where sy: "(if s = OK then PosixWritableFile_Sync ?px (tb_file r') else Some (s, tb_file r')) = Some (s1, file2)"
    using run unfolding build_file_def Let_def prod.case loop r option.map bind.bind_lunit fin by (auto simp: bind_eq_Some_conv)
  obtain s2 file3 where cl: "(if s1 = OK then PosixWritableFile_Close ?px file2 else Some (s1, file2)) = Some (s2, file3)"
    using run unfolding build_file_def Let_def prod.case loop r option.map bind.bind_lunit fin sy by (auto simp: bind_eq_Some_conv)
  obtain w3 where de: "delete_PosixWritableFile ?px file3 = Some w3"
    using run unfolding build_file_def Let_def prod.case loop r option.map bind.bind_lunit fin sy cl by (auto simp: bind_eq_Some_conv)
  define m where "m = (if s = OK then ?meta\<lparr>fm_file_size := TableBuilder_FileSize r'\<rparr> else ?meta)"
  have res: "(if s2 = OK then (case TableCache_NewIterator_status te (fm_number m) (fm_file_size m) (c, tcs, w3) of (s, st) \<Rightarrow> (s, m, st))
        else (s2, m, (c, tcs, w3))) = (OK, meta', (c', tcs', w'))"
    using run unfolding build_file_def Let_def prod.case loop r option.map bind.bind_lunit fin sy cl de m_def [symmetric] by simp
  note steps = r fin sy cl de
  have ok: "s2 = OK" "s1 = OK" "s = OK" using res steps(3,4) by (auto split: if_splits)
  have "wfile_contents disk (f, w) = []" using start by (simp add: wfile_contents_def)
  from posix_file.build_table [OF os(1) opts this steps(1) steps(2) [unfolded ok(3)]] obtain bss where bss: "concat bss = map (mem_kv table) (L 0)" "[] \<notin> set bss"
    "wfile_contents disk (tb_file r') = table_bytes ?e ?opts bss" "TableBuilder_FileSize r' = of_nat (length (table_bytes ?e ?opts bss))" by blast
  from steps(3) ok have "PosixWritableFile_Sync ?px (tb_file r') = Some (OK, file2)" by simp
  from posix_sync.sync_OK [OF conjI [OF os(1,2)] this] have "wfile_contents disk file2 = table_bytes ?e ?opts bss" by (simp add: bss(3))
  moreover from steps(4) ok have cl: "PosixWritableFile_Close ?px file2 = Some (OK, file3)" by simp
  ultimately have d3: "disk w3 = table_bytes ?e ?opts bss"
    using Close_OK [OF os(1,2) cl] steps(5) by (cases file3) (simp add: wfile_stored_def)
  have new: "TableCache_NewIterator_status te number (of_nat (length (table_bytes ?e ?opts bss))) (c, tcs, w3) = (OK, (c', tcs', w'))"
    and meta': "meta' = ?meta\<lparr>fm_file_size := of_nat (length (table_bytes ?e ?opts bss))\<rparr>"
    using res ok num by (auto simp: m_def bss(4) split: prod.splits)
  then obtain x where x: "FindTable te number (of_nat (length (table_bytes ?e ?opts bss))) (c, tcs, w3) = (x, (c', tcs', w'))"
    by (auto simp: TableCache_NewIterator_status_def split: prod.splits sum.splits)
  from FindTable_disk [OF fs os(2) x] d3 have d': "disk w' = table_bytes ?e ?opts bss" by simp
  have "table_at te disk holds view number bss (c, tcs, w3)" using d3 caches(3) by (simp add: table_at_def)
  from FindTable_OK [OF fs os(2,3) opts caches(1,2) len [unfolded d'] this] x have
    "table_at te disk holds view number bss (c', tcs', w')" by (auto simp: table_at_def)
  then show ?thesis using bss(1,2) meta' d' by (intro exI [of _ bss]) simp
qed

lemma BuildTable_OK:
  assumes opts: "0 < to_block_restart_interval (te_options te)"
    and os: "writes_ok (fs_posix (te_fs te)) disk" "syncs_ok (fs_posix (te_fs te)) disk" "crc_ok (te_crc te)"
    and fs: "table_file (te_fs te) disk (TableFileName (te_dbname te) (fm_number meta))"
    and caches: "cache_ok holds (te_block_cache te)" "table_cache_ok view (te_cache te)" "view tcs (EncodeFixed64 (fm_number meta)) = None"
    and mem: "sl_inv mem_compare mem_valid table L"
    and run: "BuildTable te table meta (c, tcs, w) = Some (OK, meta', (c', tcs', w'))" "0 < fm_file_size meta'" and len: "length (disk w') < 2 ^ 32"
  obtains bss v vs where "L 0 = v # vs" "concat bss = map (mem_kv table) (L 0)" "[] \<notin> set bss" "table_at te disk holds view (fm_number meta) bss (c', tcs', w')"
    "meta' = meta\<lparr>fm_file_size := of_nat (length (disk w')), fm_smallest := MemIter_key table v, fm_largest := MemIter_key table (last (v # vs))\<rparr>"
proof (cases "L 0")
  case Nil
  have chain: "chain (sl_nodes table) 0 []" using mem sl_listsD(1) [of mem_compare mem_valid "sl_nodes table" L 0] Nil by (simp add: sl_inv_def)
  then have "SkipIter_SeekToFirst table = None" by (simp add: SkipIter_SeekToFirst_def chain_def)
  then show thesis using run by (auto simp: BuildTable_def Let_def keep_or_delete_def split: if_splits)
next
  case (Cons v vs)
  let ?meta = "meta\<lparr>fm_file_size := 0\<rparr>"
  have first: "SkipIter_SeekToFirst table = Some v" using mem.Iter_moves(3) [OF mem, of "[]" v vs] Cons by simp
  obtain fd w1 where cr: "fs_create (te_fs te) (TableFileName (te_dbname te) (fm_number meta)) w = (Inr fd, w1)"
    using run(1) by (cases "fs_create (te_fs te) (TableFileName (te_dbname te) (fm_number meta)) w"; cases "fst (fs_create (te_fs te) (TableFileName (te_dbname te) (fm_number meta)) w)")
      (auto simp: BuildTable_def Let_def first NewWritableFile_def)
  let ?f = "new_PosixWritableFile (TableFileName (te_dbname te) (fm_number meta)) fd"
  from run cr have b: "build_file te table v ?meta ?f (c, tcs, w1) = Some (OK, meta', (c', tcs', w'))"
    by (auto simp: BuildTable_def Let_def first NewWritableFile_def keep_or_delete_def split: if_splits)
  have d1: "disk w1 = []" using fs cr unfolding table_file_def by blast
  have buf: "wf_buf ?f = []" by (simp add: new_PosixWritableFile_def)
  have num: "fm_number ?meta = fm_number meta" by simp
  from build_file_OK [OF opts os num fs caches mem Cons d1 buf b len] obtain bss where
    "concat bss = map (mem_kv table) (L 0)" "[] \<notin> set bss" "table_at te disk holds view (fm_number meta) bss (c', tcs', w')"
    "meta' = ?meta\<lparr>fm_file_size := of_nat (length (disk w')), fm_smallest := MemIter_key table v, fm_largest := MemIter_key table (last (v # vs))\<rparr>" by blast
  with that [OF Cons] show thesis by simp
qed

section \<open>Building returns\<close>

definition creates :: "'w posix_fs \<Rightarrow> bool" where
  "creates fs \<longleftrightarrow> (\<forall>nm w. \<exists>fd w'. fs_create fs nm w = (Inr fd, w')) \<and> (\<forall>fd w. \<exists>w'. px_close (fs_posix fs) fd w = (None, w'))"

lemma Close_progress:
  assumes "progress px" "\<forall>fd w. \<exists>w'. px_close px fd w = (None, w')"
  shows "\<exists>st'. PosixWritableFile_Close px st = Some (OK, st')"
proof -
  from posix_progress(2) [OF assms(1), of st] obtain f w where fl: "FlushBuffer px st = Some (OK, (f, w))" by (auto simp: PosixWritableFile_Flush_def)
  from assms(2) obtain w' where "px_close px (wf_fd f) w = (None, w')" by blast
  with fl show ?thesis by (simp add: PosixWritableFile_Close_def)
qed

lemma index_status:
  assumes "length (table_bytes e opts bss) < 2 ^ 32"
  shows "Iter_status (Block_NewIterator (new_Block (index_contents e opts bss))) = OK"
proof -
  have "length (block_contents 1 (index_kvs e opts bss (length bss))) < 2 ^ 32" using assms by (simp add: table_bytes_def Let_def index_contents_def)
  from open_block [OF _ this] obtain it where "Block_NewIterator (new_Block (index_contents e opts bss)) = BlockIterator it" "on_block 1 (index_kvs e opts bss (length bss)) it"
    by (auto simp: index_contents_def)
  then show ?thesis by (simp add: Iter_status_def on_block_def)
qed

lemma BuildTable_returns:
  assumes opts: "0 < to_block_restart_interval (te_options te)"
    and os: "writes_ok (fs_posix (te_fs te)) disk" "syncs_ok (fs_posix (te_fs te)) disk" "crc_ok (te_crc te)"
    and fs: "table_file (te_fs te) disk (TableFileName (te_dbname te) (fm_number meta))"
    and caches: "cache_ok holds (te_block_cache te)" "table_cache_ok view (te_cache te)" "view tcs (EncodeFixed64 (fm_number meta)) = None"
    and mem: "sl_inv mem_compare mem_valid table L" "L 0 \<noteq> []"
    and works: "progress (fs_posix (te_fs te))" "syncs (fs_posix (te_fs te))" "creates (te_fs te)"
  shows "\<exists>s meta' st' bss. BuildTable te table meta (c, tcs, w) = Some (s, meta', st') \<and> concat bss = map (mem_kv table) (L 0) \<and> [] \<notin> set bss
    \<and> (length (table_bytes (te_crc te) (te_options te) bss) < 2 ^ 32 \<longrightarrow> s = OK \<and> 0 < fm_file_size meta' \<and>
        disk (snd (snd st')) = table_bytes (te_crc te) (te_options te) bss)"
proof -
  let ?px = "fs_posix (te_fs te)" and ?opts = "te_options te" and ?e = "te_crc te"
  let ?app = "PosixWritableFile_Append (fs_posix (te_fs te))" and ?flush = "PosixWritableFile_Flush (fs_posix (te_fs te))"
  obtain v vs where L: "L 0 = v # vs" using mem(2) by (cases "L 0") simp_all
  have L': "L 0 = [] @ v # vs" using L by simp
  have first: "SkipIter_SeekToFirst table = Some v" using mem.Iter_moves(3) [OF mem(1) L'] by simp
  from works(3) obtain fd w1 where cr: "fs_create (te_fs te) (TableFileName (te_dbname te) (fm_number meta)) w = (Inr fd, w1)" unfolding creates_def by blast
  let ?f = "new_PosixWritableFile (TableFileName (te_dbname te) (fm_number meta)) fd"
  have start: "tb_status (new_TableBuilder ?opts (?f, w1)) = OK" by (simp add: new_TableBuilder_def)
  note total = build_total [where app = ?app and flush = ?flush and e = ?e and opts = ?opts, OF posix_progress [OF works(1)]]
  from total(1) [OF start, where kvs = "map (mem_kv table) (L 0)"] obtain r where
    r: "add_entries ?e ?app ?flush ?opts (map (mem_kv table) (L 0)) (new_TableBuilder ?opts (?f, w1)) = Some r" "tb_status r = OK" by blast
  from total(2) [OF r(2)] obtain r' where fin: "TableBuilder_Finish ?e ?app ?flush ?opts r = Some (OK, r')" by blast
  from sync_progress [OF works(1,2)] obtain file2 where sy: "PosixWritableFile_Sync ?px (tb_file r') = Some (OK, file2)" by blast
  from Close_progress [OF works(1)] works(3) obtain file3 where cl: "PosixWritableFile_Close ?px file2 = Some (OK, file3)" unfolding creates_def by blast
  have "wfile_contents disk (?f, w1) = []" using fs cr unfolding table_file_def by (simp add: wfile_contents_def new_PosixWritableFile_def)
  from posix_file.build_table [OF os(1) opts this r(1) fin] obtain bss where bss: "concat bss = map (mem_kv table) (L 0)" "[] \<notin> set bss"
    "wfile_contents disk (tb_file r') = table_bytes ?e ?opts bss" "TableBuilder_FileSize r' = of_nat (length (table_bytes ?e ?opts bss))" by blast
  from posix_sync.sync_OK [OF conjI [OF os(1,2)] sy] Close_OK(1) [OF os(1,2) cl] have d3: "disk (snd file3) = table_bytes ?e ?opts bss"
    by (cases file3) (simp add: bss(3) wfile_stored_def)
  define m where "m = meta\<lparr>fm_smallest := MemIter_key table v, fm_largest := MemIter_key table (last (v # vs)), fm_file_size := of_nat (length (table_bytes ?e ?opts bss))\<rparr>"
  have loop: "build_loop ?e ?app ?flush ?opts table (Some v) meta' (new_TableBuilder ?opts (?f, w1)) = Some (meta'\<lparr>fm_largest := MemIter_key table (last (v # vs))\<rparr>, r)" for meta'
    using build_loop_entries [OF mem(1) L', where e = ?e and app = ?app and flush = ?flush and opts = ?opts and meta = meta' and r = "new_TableBuilder ?opts (?f, w1)"] r(1)
    by (simp only: first_simps list.distinct if_False L option.map)
  obtain s st' where check: "TableCache_NewIterator_status te (fm_number meta) (of_nat (length (table_bytes ?e ?opts bss))) (c, tcs, snd file3) = (s, st')"
    by (rule prod.exhaust)
  have run: "BuildTable te table meta (c, tcs, w) = Some (keep_or_delete (te_fs te) (TableFileName (te_dbname te) (fm_number meta)) (s, m, st'))"
    by (simp add: BuildTable_def Let_def first NewWritableFile_def cr build_file_def loop fin sy cl Close_OK(2) [OF os(1,2) cl] bss(4) check m_def)
  have good: "s = OK \<and> 0 < fm_file_size m \<and> disk (snd (snd st')) = table_bytes ?e ?opts bss" if len: "length (table_bytes ?e ?opts bss) < 2 ^ 32"
  proof -
    have "table_at te disk holds view (fm_number meta) bss (c, tcs, snd file3)" using d3 caches(3) by (simp add: table_at_def)
    from FindTable_OK [OF fs os(2,3) opts caches(1,2) len this] check index_status [OF len] have "s = OK" "disk (snd (snd st')) = table_bytes ?e ?opts bss"
      by (auto simp: TableCache_NewIterator_status_def good_table_def)
    moreover have "unat (of_nat (length (table_bytes ?e ?opts bss)) :: u64) = length (table_bytes ?e ?opts bss)" using len by (intro unat_of_nat_64) simp
    moreover have "0 < length (table_bytes ?e ?opts bss)" by (simp add: table_bytes_def Let_def Footer_roundtrip)
    ultimately show ?thesis by (simp add: m_def word_less_nat_alt)
  qed
  have kept: "keep_or_delete (te_fs te) fname (s, m, st') = (s, m, st')" if "s = OK \<and> 0 < fm_file_size m" for fname
    using that by (cases st') (simp add: keep_or_delete_def)
  show ?thesis
  proof (cases "s = OK \<and> 0 < fm_file_size m")
    case True
    with run good bss(1,2) show ?thesis unfolding kept [OF True] by blast
  next
    case False
    obtain s' m' st'' where "keep_or_delete (te_fs te) (TableFileName (te_dbname te) (fm_number meta)) (s, m, st') = (s', m', st'')" by (rule prod_cases3)
    moreover have "\<not> length (table_bytes ?e ?opts bss) < 2 ^ 32" using good False by blast
    ultimately show ?thesis using run bss(1,2) by (intro exI conjI impI) (simp | blast)+
  qed
qed

end
