(* ===== verification/Spec2Isabelle.thy ===== *)
theory Spec2Isabelle
  imports Gdt_Response Fbase64 Ldb_Filter_Block Ldb_Build_Correct
begin

text \<open>
  This library is a model of the C and C++ code that the iOS application WaterMyPlants ships and that does its own computing: the
  protocol buffer library nanopb with the generated tables and the two helper functions through which the Google log transport uses it, the
  base64 routines of the Firebase websocket, and leveldb, in which Firebase Realtime Database keeps its offline copy.
  Paths below are relative to \<^verbatim>\<open>src/WaterMyPlants/Pods/\<close>; a definition has the name of the C function it models, with a prefix where the name
  is taken.

  \<^bold>\<open>The parts and how they interact.\<close> The log transport fills message structures in memory and calls \<^verbatim>\<open>pb_encode\<close>, which walks a generated table of
  field descriptors with the field iterator and writes through an output stream; \<^verbatim>\<open>pb_decode\<close> does the opposite for the answer of the server.
  A database of leveldb queues its writers; the first of them joins the batches of several into one record, appends it to the
  write-ahead log in a file, and inserts its operations into the memtable, a skip list over internal keys. Lookups read the memtable. After a crash the
  log is read and replayed. Full memtables go into tables, files of sorted blocks with an index and a filter block, and a lookup that the memtables do not answer goes to them. All formats rest on the coding functions, and log
  records and blocks carry a masked CRC-32C.

  \<^bold>\<open>Conventions.\<close> A C structure is a record or, for the messages of nanopb, bytes in a memory from addresses to bytes (\<open>Pb_Memory\<close>); machine
  integers are words of their width; a string or a slice is a list of bytes; \<open>None\<close> as the result of a whole operation means that it does not
  return. A loop that may run forever is a partial function or has fuel, and that it returns is proved as such. Interfaces are locales, each interpreted on
  the model of the code that provides it: stream callbacks and descriptor tables of nanopb, and for leveldb files (\<open>writable_file\<close>,
  \<open>sequential_file\<close>, \<open>syncable_file\<close>, \<open>random_file\<close>), comparators (\<open>key_order\<close>, \<open>comparator\<close>, \<open>lookup_keys\<close>), filter policies (\<open>filter_policy\<close>)
  and tables (\<open>table_lookup\<close>).

  \<^bold>\<open>nanopb\<close> (\<^verbatim>\<open>nanopb/\<close>).
  \<^item> \<open>Nanopb_Prelude\<close>: machine types, sequencing combinators, facts on words and lists. \<open>Pb_Types\<close>: \<^verbatim>\<open>pb.h\<close>, with the macros that build descriptor tables and the
    layout of structures. \<open>Pb_Memory\<close>, \<open>Pb_Frame\<close>: memory, and what a step may change. \<open>Pb_Wire\<close>: the wire format, as the specification of both directions.
  \<^item> \<open>Pb_Iter\<close>: \<^verbatim>\<open>pb_common.c\<close>; the search for a tag ends and finds the field.
  \<^item> \<open>Pb_Ostream\<close>, \<open>Pb_Encode_Basic\<close>, \<open>Pb_Encode\<close>: \<^verbatim>\<open>pb_encode.c\<close>. \<open>Pb_Encode_Spec\<close> says which bytes a message has, without streams or sizing
    passes; \<open>Pb_Encode_Correct\<close> and \<open>Pb_Encode_Calls\<close> prove that every encoding call on every stream implements it, and that encoding returns.
  \<^item> \<open>Pb_Istream\<close>, \<open>Pb_Decode_Basic\<close>, \<open>Pb_Decode_Mem\<close>, \<open>Pb_Decode\<close>: \<^verbatim>\<open>pb_decode.c\<close>. \<open>Pb_Decode_Fits\<close>, \<open>Pb_Decode_Items\<close>, \<open>Pb_Decode_Fields\<close>,
    \<open>Pb_Decode_Safe\<close> prove that decoding returns and stays in its memory on every input, for all tables that fit their structures.
  \<^item> \<open>Pb_Init\<close>, \<open>Pb_Buffers\<close>, \<open>Pb_Roundtrip\<close>: initialisers, streams over buffers, and decoding of what was encoded.
  \<^item> \<open>Cct_Tables\<close>, \<open>Cct_Messages\<close>, \<open>Cct_Decode\<close> and \<open>Firebasecore_Tables\<close>: the generated files \<^verbatim>\<open>cct.nanopb.[ch]\<close> and
    \<^verbatim>\<open>firebasecore.nanopb.[ch]\<close>, and that their tables meet what the theorems ask of a table. \<open>Gdt_Helpers\<close>, \<open>Gdt_Response\<close>: the calls in
    \<^verbatim>\<open>GDTCCTNanopbHelpers.m\<close> and \<^verbatim>\<open>GDTCCTUploader.m\<close>.

  Encoding and decoding recurse through submessages; the model bounds the depth with a number \<open>n\<close> and gives \<open>None\<close> when it is reached. A message whose
  tables nest to rank \<open>r\<close> needs \<open>2 * r + 2\<close> for \<open>pb_decode_noinit\<close> and \<open>2 * r + 3\<close> for \<open>pb_decode\<close>; the decoded messages of
  the transport have rank at most 2, so that 7 is enough, and the theorems say that the result is then not \<open>None\<close>.

  \<^bold>\<open>base64\<close>: \<open>Fbase64\<close> is \<^verbatim>\<open>fbase64.c\<close> and its callers, proved against RFC 1521 on lists of bytes.

  \<^bold>\<open>leveldb\<close> (\<^verbatim>\<open>leveldb-library/\<close>).
  \<^item> \<open>Ldb_Coding\<close> (\<^verbatim>\<open>util/coding.cc\<close>) and \<open>Ldb_Crc32c\<close> (\<^verbatim>\<open>util/crc32c.cc\<close>): encodings with their round trips; the four-lane checksum equals the bitwise one.
  \<^item> \<open>Ldb_Env\<close> (\<^verbatim>\<open>util/env_posix.cc\<close>, \<^verbatim>\<open>util/status.cc\<close>): the file classes over the POSIX calls, and the locales that their clients use.
  \<^item> \<open>Ldb_Log\<close>, \<open>Ldb_Log_Correct\<close> (\<^verbatim>\<open>db/log_writer.cc\<close>, \<^verbatim>\<open>db/log_reader.cc\<close>): the reader returns the records written, and after a cut of the file those that are complete.
  \<^item> \<open>Ldb_Format\<close> (\<^verbatim>\<open>db/dbformat.cc\<close>, \<^verbatim>\<open>util/comparator.cc\<close>): keys and their orders, separators and successors.
  \<^item> \<open>Ldb_Filter\<close>, \<open>Ldb_Filter_Block\<close> (\<^verbatim>\<open>util/hash.cc\<close>, \<^verbatim>\<open>util/bloom.cc\<close>, \<^verbatim>\<open>table/filter_block.cc\<close>): filters deny no key that was added.
  \<^item> \<open>Ldb_Block\<close>, \<open>Ldb_Block_Correct\<close> (\<^verbatim>\<open>table/block_builder.cc\<close>, \<^verbatim>\<open>table/block.cc\<close>): the iterator of a block is one over the list of its entries.
  \<^item> \<open>Ldb_Table\<close>, \<open>Ldb_Table_Reader\<close>, \<open>Ldb_Table_Correct\<close>, \<open>Ldb_Table_Lookup\<close> (\<^verbatim>\<open>table/format.cc\<close>, \<^verbatim>\<open>table/table_builder.cc\<close>, \<^verbatim>\<open>table/table.cc\<close>): \<open>table_bytes\<close> is the
    layout of a file with given data blocks, \<open>tb_rep\<close> the invariant of the builder that writes it; lookups find the entries of the blocks.
  \<^item> \<open>Ldb_Build\<close>, \<open>Ldb_Build_Correct\<close> (\<^verbatim>\<open>db/builder.cc\<close>, \<^verbatim>\<open>db/table_cache.cc\<close>, \<^verbatim>\<open>db/filename.cc\<close>): a memtable that is written to a table answers lookups
    through the cache of tables as before; \<open>table_at\<close> is the invariant of caches and disk for one table.
  \<^item> \<open>Ldb_Skiplist\<close>, \<open>Ldb_Skiplist_Conc\<close>, \<open>Ldb_Memtable\<close> (\<^verbatim>\<open>db/skiplist.h\<close>, \<^verbatim>\<open>util/random.h\<close>, \<^verbatim>\<open>db/memtable.cc\<close>): the linked lists of the skip list stay sorted and
    nested through every insertion; searches return; a reader beside a writer, whose stores are the steps of a relation, finds what the list holds.
  \<^item> \<open>Ldb_Write_Batch\<close> (\<^verbatim>\<open>db/write_batch.cc\<close>): a batch is the list of its operations, and inserting it appends them to the memtable.
  \<^item> \<open>Ldb_Db\<close>, \<open>Ldb_Db_Correct\<close> (\<^verbatim>\<open>db/db_impl.cc\<close>): writes, lookups and recovery. The relation \<open>db_run\<close> has the arrivals and group commits of a
    database; \<open>db_inv\<close> is its invariant on log, memtable and sequence numbers.

  \<^bold>\<open>Parameters of the model\<close>, with what is assumed of them stated at each theorem: the allocator and user callbacks of nanopb, the addresses of tables and default
  values, the POSIX calls, \<^verbatim>\<open>malloc\<close> and SHA-1 for the websocket, the accelerated CRC routine, the memory usage of a memtable, what other threads do to the state of
  the database while the mutex is released, new log files, the block cache and the cache of tables, and, for the recovery of a log, the writing of a memtable to a table.

  \<^bold>\<open>Not modelled.\<close> Swift and Objective-C code other than the functions named above (user interface, bindings to network services); of leveldb,
  the iterator over a whole table, versions, compaction, the merging iterators, opening and closing of a database, the caches, locks, directory operations and
  random access with \<^verbatim>\<open>pread\<close> of the environment, and background threads are not modelled: they make up most of \<^verbatim>\<open>db/version_set.cc\<close> and the rest of
  \<^verbatim>\<open>db/db_impl.cc\<close>. The variants of nanopb behind compile-time
  switches that the build does not set are left out as well. Links of the skip list are sequentially consistent in the model, which is more than
  the release and acquire operations of the code promise. Assertions of the code are hypotheses where a theorem needs them.
\<close>


section \<open>Round trips of the primitive items\<close>

text \<open>
  C34. An encoded varint is decoded to the same 64-bit number: written to any buffer of at least
  ten bytes, it never touches memory outside the buffer, and reading it back consumes exactly
  the bytes written.
\<close>

theorem varint_roundtrip:
  assumes "10 \<le> unat n" "unat n \<le> length buf" "unat n < 2 ^ 63"
  shows "\<exists>s' s''. pb_encode_varint (pb_ostream_from_buffer buf n) v = (True, s')
    \<and> \<not> ob_oob (os_state s')
    \<and> pb_decode_varint (read_back s') = (Some v, s'') \<and> is_bytes_left s'' = 0"
proof (rule buffer_roundtrip [OF _ _ assms(2,3)])
  show "bufcb.implements (\<lambda>s. pb_encode_varint s v) (Bytes (varint_bytes (unat v)))"
    using bufcb.pb_encode_varint_implements by (simp add: e_varint_def)
  show "length (varint_bytes (unat v)) \<le> unat n"
    using assms(1) length_varint_bytes_64 [of "unat v"] unat_lt_64 [of v] by simp
qed (rule bufin.pb_decode_varint_reads)

theorem varint_roundtrip_witness:
  "\<exists>s' s''. pb_encode_varint (pb_ostream_from_buffer (replicate 10 0) 10) 300 = (True, s')
    \<and> \<not> ob_oob (os_state s')
    \<and> pb_decode_varint (read_back s') = (Some 300, s'') \<and> is_bytes_left s'' = 0"
  by (rule varint_roundtrip) simp_all

text \<open>
  C39. A field header (wire type and tag) is read back as it was written, for all tags of the
  protocol buffer format (1 to 2^29 - 1).
\<close>

theorem tag_roundtrip:
  assumes "5 \<le> unat n" "unat n \<le> length buf" "unat n < 2 ^ 63"
    and "unat wt < 8" "tag \<noteq> 0" "unat tag < 2 ^ 29"
  shows "\<exists>s' s''. pb_encode_tag (pb_ostream_from_buffer buf n) wt tag = (True, s')
    \<and> \<not> ob_oob (os_state s')
    \<and> pb_decode_tag (read_back s') = (True, wt, tag, False, s'') \<and> is_bytes_left s'' = 0"
proof -
  define g where "g s = (case pb_decode_tag s of (ok, wt, tag, eof, s') \<Rightarrow> (if ok then Some (wt, tag, eof) else None, s'))"
    for s :: "ibuf pb_istream"
  have "\<exists>s' s''. pb_encode_tag (pb_ostream_from_buffer buf n) wt tag = (True, s') \<and> \<not> ob_oob (os_state s')
    \<and> g (read_back s') = (Some (wt, tag, False), s'') \<and> is_bytes_left s'' = 0"
  proof (rule buffer_roundtrip [OF _ _ assms(2,3)])
    show "bufcb.implements (\<lambda>s. pb_encode_tag s wt tag) (Bytes (varint_bytes (wire_key wt tag)))"
      using bufcb.pb_encode_tag_implements [OF assms(4)] by (simp add: e_tag_def e_varint_def)
    show "length (varint_bytes (wire_key wt tag)) \<le> unat n"
      using assms(1,4,6) length_varint_bytes_32 [of "wire_key wt tag"] by (simp add: wire_key_def)
    fix s assume "bufin.istream_ok s" "bufin.input s = varint_bytes (wire_key wt tag) @ []"
    from bufin.pb_decode_tag_ok [OF this assms(4,6,5)]
    show "bufin.reads (g s) s (length (varint_bytes (wire_key wt tag))) (wt, tag, False)"
      by (auto simp: bufin.reads_def g_def)
  qed
  then show ?thesis by (fastforce simp: g_def split: prod.splits if_splits)
qed

theorem tag_roundtrip_witness:
  "\<exists>s' s''. pb_encode_tag (pb_ostream_from_buffer (replicate 8 0) 8) PB_WT_STRING 23 = (True, s')
    \<and> \<not> ob_oob (os_state s')
    \<and> pb_decode_tag (read_back s') = (True, PB_WT_STRING, 23, False, s'') \<and> is_bytes_left s'' = 0"
  by (rule tag_roundtrip) simp_all

section \<open>Reading from arbitrary input\<close>

text \<open>
  C35. The 32-bit varint decoder: on the encoding of a number below 2^32 it returns the number; on
  the ten-byte encoding of a negative 32-bit number it returns the number's low half; on any
  other number below 2^63 it fails with an error message.
\<close>

theorem varint32_cases:
  assumes "unat n \<le> length buf" "take (unat n) buf = varint_bytes v @ rst" "v < 2 ^ 63 \<or> 2 ^ 64 - 2 ^ 31 \<le> v" "v < 2 ^ 64"
  shows "\<exists>s'. pb_decode_varint32 (pb_istream_from_buffer buf n) =
    (if v < 2 ^ 32 \<or> 2 ^ 64 - 2 ^ 31 \<le> v then Some (of_nat v) else None, s')
    \<and> (is_errmsg s' = None \<longleftrightarrow> v < 2 ^ 32 \<or> 2 ^ 64 - 2 ^ 31 \<le> v)"
proof -
  let ?s = "pb_istream_from_buffer buf n"
  have ok: "bufin.istream_ok ?s" and inp: "bufin.input ?s = varint_bytes v @ rst"
    using bufin_ok [OF assms(1)] assms(2) by simp_all
  have e0: "is_errmsg ?s = None" by (simp add: pb_istream_from_buffer_def)
  consider (small) "v < 2 ^ 32" | (big) "2 ^ 32 \<le> v" "v < 2 ^ 63" | (neg) "2 ^ 64 - 2 ^ 31 \<le> v" "2 ^ 32 \<le> v"
    using assms(3) by linarith
  then show ?thesis
  proof cases
    case small
    with bufin.pb_decode_varint32_eof_ok [OF ok inp] e0 show ?thesis
      by (auto simp: pb_decode_varint32_def bufin.consumed_ok_def)
  next
    case big
    with bufin.pb_decode_varint32_eof_overflow [OF ok inp] e0 show ?thesis
      by (auto simp: pb_decode_varint32_def)
  next
    case neg
    define j where "j = 2 ^ 64 - v"
    have j: "v = 2 ^ 64 - j" "0 < j" "j \<le> 2 ^ 31" using neg assms(4) by (auto simp: j_def)
    have ofv: "(of_nat v :: u32) = - of_nat j"
    proof -
      have "v + j = 2 ^ 64" using j(3) unfolding j(1) by simp
      then have "(of_nat v + of_nat j :: u32) = of_nat (2 ^ 64)" by (metis of_nat_add)
      also have "\<dots> = 0" by simp
      finally show ?thesis by (simp add: eq_neg_iff_add_eq_0)
    qed
    from bufin.pb_decode_varint32_eof_negative [OF ok inp [unfolded j(1)] j(2,3)] e0 neg(1)
    show ?thesis by (auto simp: pb_decode_varint32_def bufin.consumed_ok_def ofv)
  qed
qed

theorem varint32_cases_witness:
  "\<exists>s'. pb_decode_varint32 (pb_istream_from_buffer [172, 2, 9] 3) =
    (if (300 :: nat) < 2 ^ 32 \<or> 2 ^ 64 - 2 ^ 31 \<le> (300 :: nat) then Some (of_nat 300) else None, s')
    \<and> (is_errmsg s' = None \<longleftrightarrow> (300 :: nat) < 2 ^ 32 \<or> 2 ^ 64 - 2 ^ 31 \<le> (300 :: nat))"
proof -
  have "varint_bytes 300 = [172, 2]" by (simp add: varint_bytes.simps)
  then show ?thesis by (intro varint32_cases [where rst = "[9]"]) simp_all
qed

text \<open>
  C37. The overflow test of the 32-bit varint decoder looks at the last byte only if it is the fifth. Any five bytes that continue, followed by up to 31
  bytes of padding and a zero byte, are accepted without an error, and the result is their number modulo 2^32; the same number in its shortest
  encoding is refused on every input if it is 2^32 or more.
\<close>

theorem varint32_missed_overflow:
  assumes "unat n \<le> length buf" "take (unat n) buf = cs @ replicate j 0x80 @ 0 # rst" "length cs = 5" "\<forall>c \<in> set cs. 128 \<le> unat c" "j < 32"
  shows "\<exists>s'. pb_decode_varint32 (pb_istream_from_buffer buf n) = (Some (of_nat (varint_val cs)), s') \<and> is_errmsg s' = None \<and> bufin.input s' = rst
    \<and> varint_val (cs @ replicate j 0x80 @ [0]) = varint_val cs
    \<and> (2 ^ 32 \<le> varint_val cs \<longrightarrow> (\<forall>buf' n' rst'. unat n' \<le> length buf' \<longrightarrow> take (unat n') buf' = varint_bytes (varint_val cs) @ rst' \<longrightarrow>
        fst (pb_decode_varint32 (pb_istream_from_buffer buf' n')) = None))"
proof -
  let ?s = "pb_istream_from_buffer buf n"
  have ok: "bufin.istream_ok ?s" and inp: "bufin.input ?s = cs @ replicate j 128 @ 0 # rst" using bufin_ok [OF assms(1)] assms(2) by simp_all
  from bufin.pb_decode_varint32_padded [OF ok inp assms(3,4)] assms(5) obtain s' where
    s': "pb_decode_varint32 ?s = (Some (of_nat (varint_val cs)), s')" "bufin.consumed_ok ?s (6 + j) s'" by auto
  have "bufin.input s' = rst" using bufin.consumed_okD [OF s'(2)] inp assms(3) by simp
  moreover have "is_errmsg s' = None" using s'(2) by (simp add: bufin.consumed_ok_def pb_istream_from_buffer_def)
  moreover have zero: "varint_val (replicate k 0x80 @ [0]) = 0" for k by (induction k) simp_all
  moreover have "fst (pb_decode_varint32 (pb_istream_from_buffer buf' n')) = None"
    if "2 ^ 32 \<le> varint_val cs" "unat n' \<le> length buf'" "take (unat n') buf' = varint_bytes (varint_val cs) @ rst'" for buf' n' rst'
  proof -
    have ok': "bufin.istream_ok (pb_istream_from_buffer buf' n')" and inp': "bufin.input (pb_istream_from_buffer buf' n') = varint_bytes (varint_val cs) @ rst'"
      using bufin_ok [OF that(2)] that(3) by simp_all
    have "varint_val cs < 2 ^ 63" using varint_val_less [of cs] assms(3) by simp
    from bufin.pb_decode_varint32_eof_overflow [OF ok' inp' that(1) this] show ?thesis by (auto simp: pb_decode_varint32_def)
  qed
  ultimately show ?thesis using s'(1) by (auto simp: varint_val_append)
qed

theorem varint32_missed_overflow_witness:
  "\<exists>s'. pb_decode_varint32 (pb_istream_from_buffer [0x80, 0x80, 0x80, 0x80, 0xF0, 0x80, 0x00, 7] 8) = (Some 0, s') \<and> is_errmsg s' = None \<and> bufin.input s' = [7]
    \<and> fst (pb_decode_varint32 (pb_istream_from_buffer (varint_bytes (7 * 2 ^ 32)) 5)) = None"
proof -
  let ?cs = "[0x80, 0x80, 0x80, 0x80, 0xF0] :: byte list"
  have v: "varint_val ?cs = 7 * 2 ^ 32" by simp
  have len: "length (varint_bytes (7 * 2 ^ 32)) = 5" by (simp add: varint_bytes.simps)
  from varint32_missed_overflow [of 8 "[0x80, 0x80, 0x80, 0x80, 0xF0, 0x80, 0x00, 7]" ?cs 1 "[7]"] obtain s' where
    s': "pb_decode_varint32 (pb_istream_from_buffer [0x80, 0x80, 0x80, 0x80, 0xF0, 0x80, 0x00, 7] 8) = (Some (of_nat (7 * 2 ^ 32)), s')"
      "is_errmsg s' = None" "bufin.input s' = [7]"
    and short: "\<forall>buf' n' rst'. unat n' \<le> length buf' \<longrightarrow> take (unat n') buf' = varint_bytes (7 * 2 ^ 32) @ rst' \<longrightarrow>
        fst (pb_decode_varint32 (pb_istream_from_buffer buf' n')) = None"
    unfolding v by auto
  have "(of_nat (7 * 2 ^ 32) :: u32) = 0" by simp
  moreover have "fst (pb_decode_varint32 (pb_istream_from_buffer (varint_bytes (7 * 2 ^ 32)) 5)) = None"
  proof (rule short [rule_format, where rst' = "[]"])
    show "unat (5 :: size_t) \<le> length (varint_bytes (7 * 2 ^ 32))" unfolding len by simp
    show "take (unat (5 :: size_t)) (varint_bytes (7 * 2 ^ 32)) = varint_bytes (7 * 2 ^ 32) @ []" unfolding append_Nil2 by (rule take_all) (unfold len, simp)
  qed
  ultimately show ?thesis using s' by metis
qed

text \<open>
  C38. The bit position of the 32-bit varint decoder is an 8-bit number. Whatever the five bytes that carry the number are, after 32
  bytes of padding it has wrapped to 3: a further byte \<open>e\<close>, which stands for \<open>2 ^ 259 * e\<close>, is accepted without an error and changes bits 3 to 9 of the result.
\<close>

theorem varint32_wrapped_position:
  assumes "unat n \<le> length buf" "take (unat n) buf = cs @ replicate 32 0x80 @ e # rst" "length cs = 5" "\<forall>c \<in> set cs. 128 \<le> unat c" "unat e < 128"
  shows "\<exists>s'. pb_decode_varint32 (pb_istream_from_buffer buf n) = (Some (of_nat (varint_val cs) OR push_bit 3 (ucast e)), s')
    \<and> is_errmsg s' = None \<and> bufin.input s' = rst \<and> varint_val (cs @ replicate 32 0x80 @ [e]) = varint_val cs + 2 ^ 259 * unat e"
proof -
  let ?s = "pb_istream_from_buffer buf n"
  have ok: "bufin.istream_ok ?s" and inp: "bufin.input ?s = cs @ replicate 32 128 @ e # rst" using bufin_ok [OF assms(1)] assms(2) by simp_all
  from bufin.pb_decode_varint32_padded [OF ok inp assms(3-5)] obtain s' where
    s': "pb_decode_varint32 ?s = (Some (of_nat (varint_val cs) OR push_bit 3 (ucast e)), s')" "bufin.consumed_ok ?s 38 s'" by auto
  have "bufin.input s' = rst" using bufin.consumed_okD [OF s'(2)] inp assms(3) by simp
  moreover have "is_errmsg s' = None" using s'(2) by (simp add: bufin.consumed_ok_def pb_istream_from_buffer_def)
  moreover have "varint_val (replicate k 0x80) = 0" for k by (induction k) simp_all
  then have "varint_val (cs @ replicate 32 0x80 @ [e]) = varint_val cs + 128 ^ 5 * (128 ^ 32 * unat e)" using assms(3,5) by (simp add: varint_val_append)
  moreover have "(128 :: nat) ^ 5 * (128 ^ 32 * m) = 2 ^ 259 * m" for m by simp
  ultimately show ?thesis using s'(1) by metis
qed

theorem varint32_wrapped_position_witness:
  "\<exists>s'. pb_decode_varint32 (pb_istream_from_buffer (0x81 # replicate 36 0x80 @ [0x01]) 38) = (Some 9, s')
    \<and> varint_val (0x81 # replicate 36 0x80 @ [0x01]) = 1 + 2 ^ 259"
proof -
  have "0x81 # replicate 36 0x80 @ [0x01] = [0x81, 0x80, 0x80, 0x80, 0x80] @ replicate 32 0x80 @ [0x01 :: byte]" by (simp add: eval_nat_numeral)
  with varint32_wrapped_position [of 38 "0x81 # replicate 36 0x80 @ [0x01]" "[0x81, 0x80, 0x80, 0x80, 0x80]" 1 "[]"] show ?thesis by auto
qed

text \<open>
  C31. Skipping a field takes exactly its payload from the stream, whatever follows, for each of
  the four wire types.
\<close>

theorem skip_field_exact:
  assumes "unat n \<le> length buf" "take (unat n) buf = bs @ rst" "is_payload wt bs"
  shows "\<exists>s'. pb_skip_field (pb_istream_from_buffer buf n) wt = (Some (), s')
    \<and> bufin.input s' = rst \<and> \<not> ib_oob (is_state s')"
proof -
  let ?s = "pb_istream_from_buffer buf n"
  have "bufin.istream_ok ?s" "bufin.input ?s = bs @ rst" using bufin_ok [OF assms(1)] assms(2) by simp_all
  from bufin.pb_skip_field_reads [OF this assms(3)] this(2) show ?thesis
    by (auto simp: bufin.reads_def bufin.consumed_ok_input bufin.consumed_ok_def bufin.consumed_def
        bufin.istream_ok_def ib_ok_def)
qed

theorem skip_field_exact_witness:
  "\<exists>s'. pb_skip_field (pb_istream_from_buffer [2, 65, 66, 9] 4) PB_WT_STRING = (Some (), s')
    \<and> bufin.input s' = [9] \<and> \<not> ib_oob (is_state s')"
proof (rule skip_field_exact)
  have "varint_bytes (Suc (Suc 0)) = [2]" by (simp add: varint_bytes_small)
  then show "is_payload PB_WT_STRING [2, 65, 66]" by (auto simp: is_payload_def pb_consts intro!: exI [of _ "[65, 66]"])
qed simp_all

section \<open>Encoding messages\<close>

text \<open>
  C13. Encoding a message into a buffer. The specification \<open>e_message\<close> gives the bytes of the message, in
  the order of the descriptor table. For every table whose nesting is bounded by \<open>rk\<close>,
  whatever the memory holds, the encoder returns; it succeeds exactly if the bytes fit, it has
  then stored exactly these bytes, and it never writes past the end of the buffer, also not when it fails.
\<close>

theorem pb_encode_to_buffer:
  assumes "ranked (pure_env m tables :: obuf enc_env) T rk" "subs_described T" "flds \<in> T" "rk flds + 1 < d"
    and "unat n \<le> length buf" "unat n < 2 ^ 63"
  shows "\<exists>r. e_message d (pure_env m tables :: obuf enc_env) no_callback no_extension flds src = Some r
    \<and> buffer_result (pb_encode d (pure_env m tables) (pb_ostream_from_buffer buf n) flds src) n r"
  using e_message_total [OF assms(1-4), of no_callback no_extension src]
    buffer_resultI [OF bufenc.pb_encode_implements assms(5,6)] by blast

theorem pb_encode_to_buffer_witness:
  "\<exists>r. e_message 3 (pure_env (\<lambda>a. 1) (\<lambda>_. []) :: obuf enc_env) no_callback no_extension
      logs_proto_mobilesdk_ios_ICoreConfiguration_fields 4096 = Some r
    \<and> buffer_result (pb_encode 3 (pure_env (\<lambda>a. 1) (\<lambda>_. [])) (pb_ostream_from_buffer (replicate 64 0) 64)
         logs_proto_mobilesdk_ios_ICoreConfiguration_fields 4096) 64 r"
proof (rule pb_encode_to_buffer [where rk = "\<lambda>_. 0" and T = "set [logs_proto_mobilesdk_ios_ICoreConfiguration_fields]"])
  show "ranked (pure_env (\<lambda>a. 1) (\<lambda>_. []) :: obuf enc_env) (set [logs_proto_mobilesdk_ios_ICoreConfiguration_fields]) (\<lambda>_. 0)"
    unfolding ranked_list_all by (simp add: ICoreConfiguration_table pb_type_defs)
  show "subs_described (set [logs_proto_mobilesdk_ios_ICoreConfiguration_fields])"
    unfolding subs_described_list_all by (simp add: ICoreConfiguration_table pb_type_defs)
qed simp_all

text \<open>
  C18. The size computed by \<open>pb_get_encoded_size\<close> is the number of bytes the message takes: a
  buffer of that size or more holds the message afterwards, and a smaller one makes \<open>pb_encode\<close> fail.
\<close>

theorem encoded_size_exact:
  assumes "e_message d (pure_env m tables :: obuf enc_env) no_callback no_extension flds src = Some (Bytes bs)"
    and "length bs < 2 ^ 63" "unat n \<le> length buf" "unat n < 2 ^ 63"
  shows "\<exists>sz ok s'. pb_get_encoded_size d (pure_env m tables :: obuf enc_env) st flds src = Some (Some sz)
    \<and> unat sz = length bs
    \<and> pb_encode d (pure_env m tables) (pb_ostream_from_buffer buf n) flds src = Some (ok, s')
    \<and> (ok \<longleftrightarrow> sz \<le> n) \<and> (ok \<longrightarrow> buffer_contents s' = bs)"
proof -
  have "pb_get_encoded_size d (pure_env m tables :: obuf enc_env) st flds src = Some (Some (of_nat (length bs)))"
    using assms(1) refl by (rule bufenc.pb_get_encoded_size_result(1))
  moreover have "unat (of_nat (length bs) :: size_t) = length bs" using assms(2) by (simp add: unat_of_nat_64)
  moreover have "buffer_result (pb_encode d (pure_env m tables) (pb_ostream_from_buffer buf n) flds src) n (Bytes bs)"
    using bufenc.pb_encode_implements [OF assms(1)] assms(3,4) by (rule buffer_resultI)
  ultimately show ?thesis by (auto simp: buffer_result_def word_le_nat_alt split: if_splits)
qed

theorem encoded_size_exact_witness:
  "\<exists>sz ok s'. pb_get_encoded_size 5 (pure_env sample_mem (cct_tables sample_link) :: obuf enc_env)
      \<lparr>ob_bytes = [], ob_next = 0, ob_oob = False\<rparr> (gdt_cct_LogResponse_fields sample_link) 16 = Some (Some sz)
    \<and> unat sz = length [8, 172, 2 :: byte]
    \<and> pb_encode 5 (pure_env sample_mem (cct_tables sample_link)) (pb_ostream_from_buffer [0, 0, 0, 0] 4)
        (gdt_cct_LogResponse_fields sample_link) 16 = Some (ok, s')
    \<and> (ok \<longleftrightarrow> sz \<le> 4) \<and> (ok \<longrightarrow> buffer_contents s' = [8, 172, 2])"
  by (rule encoded_size_exact) (simp_all add: sample_response)

text \<open>
  C32. Delimited encoding: the message can be recovered from the buffer as a substream that holds
  exactly its bytes.
\<close>

theorem delimited_roundtrip:
  assumes "e_message d (pure_env m tables :: obuf enc_env) no_callback no_extension flds src = Some (Bytes bs)"
    and "length bs < 2 ^ 32" "length bs + 5 \<le> unat n" "unat n \<le> length buf" "unat n < 2 ^ 63"
  shows "\<exists>s' sub s''. pb_encode_delimited d (pure_env m tables) (pb_ostream_from_buffer buf n) flds src = Some (True, s')
    \<and> \<not> ob_oob (os_state s')
    \<and> pb_make_string_substream (read_back s') = (Some sub, s'')
    \<and> bufin.input sub = bs
    \<and> (\<exists>t. pb_close_string_substream s'' sub = (Some (), t) \<and> is_bytes_left t = 0)"
proof -
  let ?w = "varint_bytes (length bs) @ bs"
  have "length bs < 2 ^ 63" "length ?w \<le> unat n"
    using assms(2,3) length_varint_bytes_32 [of "length bs"] by simp_all
  moreover have "buffer_result (pb_encode_delimited d (pure_env m tables) (pb_ostream_from_buffer buf n) flds src) n
      (e_delimited (Bytes bs))"
    using bufenc.pb_encode_delimited_implements [OF assms(1)] assms(4,5) by (rule buffer_resultI)
  ultimately obtain s' where s': "pb_encode_delimited d (pure_env m tables) (pb_ostream_from_buffer buf n) flds src = Some (True, s')"
    "buffer_contents s' = ?w" "os_bytes_written s' = of_nat (length ?w)" "\<not> ob_oob (os_state s')"
    by (auto simp: buffer_result_def split: if_splits)
  have w: "length ?w < 2 ^ 64" using \<open>length ?w \<le> unat n\<close> assms(5) by simp
  moreover have "length ?w \<le> length (ob_bytes (os_state s'))"
    using arg_cong [OF s'(2), of length] by (simp add: buffer_contents_def)
  ultimately have rb: "bufin.istream_ok (read_back s')" "bufin.input (read_back s') = varint_bytes (length bs) @ bs @ []"
    using read_back_ok [OF s'(2,3)] by simp_all
  from bufin.substream_roundtrip [OF rb assms(2)] obtain sub s'' where
    sub: "pb_make_string_substream (read_back s') = (Some sub, s'')" "bufin.input sub = bs" "bufin.istream_ok sub"
    and cl: "\<And>k sub'. bufin.consumed sub k sub' \<Longrightarrow> \<exists>t. pb_close_string_substream s'' sub' = (Some (), t)
      \<and> bufin.consumed (read_back s') (length (varint_bytes (length bs)) + length bs) t" by blast
  have "unat (is_bytes_left (read_back s')) = length ?w" using bufin.length_input [OF rb(1)] rb(2) by simp
  with cl [OF bufin.consumed_0 [OF sub(3)]] have "\<exists>t. pb_close_string_substream s'' sub = (Some (), t) \<and> is_bytes_left t = 0"
    by (auto simp: bufin.consumed_def unat_eq_0)
  with s' sub show ?thesis by blast
qed

theorem delimited_roundtrip_witness:
  "\<exists>s' sub s''. pb_encode_delimited 5 (pure_env sample_mem (cct_tables sample_link))
      (pb_ostream_from_buffer (replicate 12 0) 12) (gdt_cct_LogResponse_fields sample_link) 16 = Some (True, s')
    \<and> \<not> ob_oob (os_state s')
    \<and> pb_make_string_substream (read_back s') = (Some sub, s'')
    \<and> bufin.input sub = [8, 172, 2]
    \<and> (\<exists>t. pb_close_string_substream s'' sub = (Some (), t) \<and> is_bytes_left t = 0)"
  by (rule delimited_roundtrip) (simp_all add: sample_response)

text \<open>
  C23. The batch encoder of the log transport runs the encoder twice, first to count and then on a
  buffer of the counted size. For every linked program and every memory contents it returns, and
  if the batch has an encoding, the data it returns is exactly that encoding.
\<close>

theorem batch_encoding:
  assumes "cct_link_ok lk" "5 \<le> d"
  shows "\<exists>r data. e_message d (pure_env m (cct_tables lk) :: obuf enc_env) no_callback no_extension
        (gdt_cct_BatchedLogRequest_fields lk) src = Some r
    \<and> GDTCCTEncodeBatchedLogRequest d m lk src = Some data
    \<and> (\<forall>bs. r = Bytes bs \<and> length bs < 2 ^ 63 \<longrightarrow> data = bs)"
proof -
  have "cct_rank lk (gdt_cct_BatchedLogRequest_fields lk) + 1 < d" using assms(2) by (simp add: cct_rank_eqs)
  then obtain r where "e_message d (pure_env m (cct_tables lk) :: obuf enc_env) no_callback no_extension
      (gdt_cct_BatchedLogRequest_fields lk) src = Some r"
    using e_message_total [OF cct_ranked [OF assms(1)] cct_subs_described [OF assms(1)] cct_messages_mem(5)] by blast
  then show ?thesis
    using GDTCCTEncodeBatchedLogRequest_returns [of d m lk src r] GDTCCTEncodeBatchedLogRequest_bytes [of d m lk src]
    by auto
qed

theorem batch_encoding_witness:
  "GDTCCTEncodeBatchedLogRequest 5 sample_mem sample_link 64 = Some [10, 2, 16, 5]"
  using batch_encoding [OF sample_link_ok, of 5 sample_mem 64] by (simp add: sample_batch)

text \<open>
  C30. Searching the descriptor table from any position ends, finds a field with the wanted tag if
  there is one (extension ranges excepted), and otherwise comes back to where it started.
\<close>

theorem find_correct:
  assumes "i < nfields flds"
  shows "\<exists>found it. pb_field_iter_find (iter_at flds dest i) tag = Some (found, it)
    \<and> (found \<longleftrightarrow> (\<exists>j < nfields flds. it_matches tag (field_at flds j)))
    \<and> (if found then it_matches tag (it_field it) \<and> (\<exists>j < nfields flds. it = iter_at flds dest j)
       else it = iter_at flds dest i)"
  using pb_field_iter_find_result [OF assms, of tag dest] by (auto simp: iter_at_field)

theorem find_correct_witness:
  "\<exists>found it. pb_field_iter_find (iter_at (gdt_cct_LogRequest_fields sample_link) 96 2) 9 = Some (found, it)
    \<and> (found \<longleftrightarrow> (\<exists>j < nfields (gdt_cct_LogRequest_fields sample_link).
          it_matches 9 (field_at (gdt_cct_LogRequest_fields sample_link) j)))
    \<and> (if found then it_matches 9 (it_field it)
          \<and> (\<exists>j < nfields (gdt_cct_LogRequest_fields sample_link). it = iter_at (gdt_cct_LogRequest_fields sample_link) 96 j)
       else it = iter_at (gdt_cct_LogRequest_fields sample_link) 96 2)"
  by (rule find_correct) (simp add: cct_nfields)

section \<open>Round trip of messages\<close>

text \<open>
  C12. Round trip of whole messages: if \<open>pb_encode\<close> has written a message of optional numbers to a buffer, \<open>pb_decode\<close> on
  the buffer succeeds, consumes all of it, and the structure it fills has the same fields present, with the
  same values, as the one that was encoded. This holds for every table of such a message (booleans, integers of
  all sizes, signed, unsigned and zigzag, fixed-width numbers), whatever the memory at the destination held before.
\<close>

theorem message_roundtrip:
  fixes denv :: "(ibuf, 'h) dec_env"
  assumes flat: "flat_table flds" "bools_ok flds m src"
    and enc: "pb_encode e (pure_env m tables) (pb_ostream_from_buffer buf n) flds src = Some (True, s)"
    and buf: "unat n \<le> length buf" "unat n < 2 ^ 63"
    and dec: "3 \<le> k" "\<forall>j. \<forall>i < nfields flds. range_of (de_local denv j) 4 \<inter> field_mem flds dest i = {}"
  shows "\<exists>t d'. pb_decode k denv flds dest (read_back s, d) = Some (True, t, d') \<and> is_bytes_left t = 0
    \<and> same_message flds m src (ds_mem d') dest"
proof -
  from enc obtain e' where e': "e = Suc e'" by (cases e) auto
  from flat_encoding [OF flat(1)] obtain bs where
    bs: "e_message e (pure_env m tables :: obuf enc_env) no_callback no_extension flds src = Some (Bytes bs)"
    unfolding e' by blast
  from buffer_resultI [OF bufenc.pb_encode_implements [OF bs] buf] enc have
    s: "buffer_contents s = bs" "os_bytes_written s = of_nat (length bs)" "length bs \<le> unat n"
    by (auto simp: buffer_result_def split: if_splits)
  have "length bs < 2 ^ 64" using s(3) buf(2) by simp
  moreover have "length bs \<le> length (ob_bytes (os_state s))"
    using arg_cong [OF s(1), of length] by (simp add: buffer_contents_def)
  ultimately have rb: "bufin.istream_ok (read_back s)" "bufin.input (read_back s) = bs" using read_back_ok [OF s(1,2)] by simp_all
  have loc: "range_of (de_local denv j) 4 \<inter> field_mem flds dest i = {}" if "i < nfields flds" for i j using dec(2) that by blast
  have "bools_ok flds (ee_mem (pure_env m tables :: obuf enc_env)) src" using flat(2) by (simp add: pure_env_def)
  from bufin.flat_decode [OF flat(1) this bs rb dec(1) loc, of d]
  show ?thesis by (auto simp: same_message_def pure_env_def)
qed

theorem message_roundtrip_witness:
  "\<exists>s t d'. pb_encode 1 (pure_env sample_info (cct_tables sample_link)) (pb_ostream_from_buffer (replicate 8 0) 8)
        (gdt_cct_NetworkConnectionInfo_fields sample_link) 300 = Some (True, s)
    \<and> pb_decode 3 (sample_dec_env :: (ibuf, nat) dec_env) (gdt_cct_NetworkConnectionInfo_fields sample_link) 400
        (read_back s, \<lparr>ds_mem = (\<lambda>a. 255), ds_heap = 0\<rparr>) = Some (True, t, d')
    \<and> is_bytes_left t = 0 \<and> same_message (gdt_cct_NetworkConnectionInfo_fields sample_link) sample_info 300 (ds_mem d') 400"
proof -
  let ?flds = "gdt_cct_NetworkConnectionInfo_fields sample_link"
  have "buffer_result (pb_encode 1 (pure_env sample_info (cct_tables sample_link)) (pb_ostream_from_buffer (replicate 8 0) 8) ?flds 300) 8 (Bytes [8, 5])"
    by (rule buffer_resultI [OF bufenc.pb_encode_implements [OF sample_info_bytes]]) simp_all
  then obtain s where s: "pb_encode 1 (pure_env sample_info (cct_tables sample_link)) (pb_ostream_from_buffer (replicate 8 0) 8) ?flds 300 = Some (True, s)"
    by (auto simp: buffer_result_def)
  have "bools_ok ?flds sample_info 300" unfolding bools_ok_def cct_table_eqs by code_simp
  moreover have "\<forall>j. \<forall>i < nfields ?flds. range_of (de_local (sample_dec_env :: (ibuf, nat) dec_env) j) 4 \<inter> field_mem ?flds 400 i = {}"
    using sample_info_locals by blast
  ultimately show ?thesis
    using s message_roundtrip [OF NetworkConnectionInfo_flat _ s, of 3 sample_dec_env 400 "\<lparr>ds_mem = (\<lambda>a. 255), ds_heap = 0\<rparr>"] by auto
qed

section \<open>Generated tables\<close>

text \<open>
  C29. The field iterator, which adds up sizes and gaps, arrives at the address of the member that
  each descriptor stands for, and at the address of its presence flag or counter: for all nine
  message types of the log transport, as the macros of \<^verbatim>\<open>pb.h\<close> generate their tables.
\<close>

theorem cct_member_addresses:
  assumes "(st, flds, names) \<in> set (cct_members lk)" "i < nfields flds"
  shows "it_pData (iter_at flds dest i) = dest + of_nat (offsetof st (names ! i))
    \<and> it_pSize (iter_at flds dest i) = dest + of_nat (offsetof st (size_member (field_at flds i) (names ! i)))"
proof -
  have "laid_out st flds names" using cct_laid_out [of lk] assms(1) by (auto simp: list_all_iff)
  then show ?thesis using assms(2) by (simp add: laid_out_iter)
qed

theorem cct_member_addresses_witness:
  "it_pData (iter_at (gdt_cct_LogResponse_fields sample_link) 16 1) = 16 + of_nat (offsetof gdt_cct_LogResponse ''qos_tier'')
    \<and> it_pSize (iter_at (gdt_cct_LogResponse_fields sample_link) 16 1) =
        16 + of_nat (offsetof gdt_cct_LogResponse (size_member (field_at (gdt_cct_LogResponse_fields sample_link) 1) ''qos_tier''))"
  using cct_member_addresses [of gdt_cct_LogResponse "gdt_cct_LogResponse_fields sample_link"
      "[''next_request_wait_millis'', ''qos_tier'']" sample_link 1 16]
  by (simp add: cct_members_def cct_nfields)

section \<open>Safety of the decoder\<close>

text \<open>
  C11. Decoding is safe on every input: for each of the log transport messages without nested
  allocations, whatever the bytes in the buffer, \<open>pb_decode\<close> returns, no byte outside the buffer is read, and
  no memory is changed outside the structure, the heap and the decoder's local variables. The allocator is
  only assumed to write inside the heap and to return blocks of it of the size asked for, or null.
\<close>

theorem decode_safe:
  fixes env :: "(ibuf, 'h) dec_env"
  assumes "flds \<in> cct_decoded lk" "de_fields env = cct_tables lk" "allocator_ok env H"
    and "range_of dest (cct_size lk flds) \<inter> H = {}" "unat bufsize \<le> length buf" "7 \<le> n"
  shows "\<exists>ok s d'. pb_decode n env flds dest (pb_istream_from_buffer buf bufsize, d) = Some (ok, s, d')
    \<and> \<not> ib_oob (is_state s) \<and> ib_next (is_state s) + unat (is_bytes_left s) \<le> unat bufsize
    \<and> frame (range_of dest (cct_size lk flds) \<union> H \<union> local_vars env) (ds_mem d) (ds_mem d')"
proof -
  let ?A = "range_of dest (cct_size lk flds) \<union> H \<union> local_vars env"
  have "cct_rank lk flds \<le> 2"
    using assms(1) by (auto simp: cct_decoded_def cct_messages_def cct_rank_eqs split: if_splits)
  then have n: "2 * cct_rank lk flds + 3 \<le> n" using assms(6) by simp
  have "cct.apart lk H flds dest" using assms(4) by (simp add: cct.apart_def)
  from cct.decode_buffer_safe [OF assms(2,3,1) this n assms(5), of d] obtain ok s d' where
    r: "pb_decode n env flds dest (pb_istream_from_buffer buf bufsize, d) = Some (ok, s, d')"
      "buffer_inv buf (unat bufsize) (is_state s) (unat (is_bytes_left s))"
      "frame (cct.region lk env H flds dest) (ds_mem d) (ds_mem d')" by blast
  have "frame ?A (ds_mem d) (ds_mem d')" using r(3) by (rule frame_mono) (auto simp: cct.region_def)
  with r show ?thesis by (simp add: buffer_inv_def)
qed

theorem decode_safe_witness:
  "\<exists>ok s d'. pb_decode 7 (sample_dec_env :: (ibuf, nat) dec_env) (gdt_cct_LogResponse_fields sample_link) 16
        (pb_istream_from_buffer [26, 255, 255, 255, 255, 15] 6, \<lparr>ds_mem = sample_mem, ds_heap = 0\<rparr>) = Some (ok, s, d')
    \<and> \<not> ib_oob (is_state s) \<and> ib_next (is_state s) + unat (is_bytes_left s) \<le> unat (6 :: size_t)
    \<and> frame (range_of 16 (cct_size sample_link (gdt_cct_LogResponse_fields sample_link)) \<union> sample_heap
          \<union> local_vars (sample_dec_env :: (ibuf, nat) dec_env)) sample_mem (ds_mem d')"
proof -
  have "de_fields (sample_dec_env :: (ibuf, nat) dec_env) = cct_tables sample_link" by (simp add: sample_dec_env_def)
  moreover have "range_of 16 (cct_size sample_link (gdt_cct_LogResponse_fields sample_link)) \<inter> sample_heap = {}"
    using sample_response_apart by (simp add: cct_sizes)
  ultimately show ?thesis
    using decode_safe [OF cct_decoded_mem(7) [OF sample_link_ok] _ sample_allocator_ok, of 16 6
        "[26, 255, 255, 255, 255, 15]" 7 "\<lparr>ds_mem = sample_mem, ds_heap = 0\<rparr>"] by simp
qed

text \<open>
  C21. The same for the message of the diagnostics component, whose strings and arrays are all
  allocated: decoding it is safe whatever the input.
\<close>

theorem diagnostics_decode_safe:
  fixes env :: "(ibuf, 'h) dec_env"
  assumes "allocator_ok env H"
    and "range_of dest (struct_size logs_proto_mobilesdk_ios_ICoreConfiguration) \<inter> H = {}"
    and "unat bufsize \<le> length buf" "3 \<le> n"
  shows "\<exists>ok s d'. pb_decode n env logs_proto_mobilesdk_ios_ICoreConfiguration_fields dest
        (pb_istream_from_buffer buf bufsize, d) = Some (ok, s, d')
    \<and> \<not> ib_oob (is_state s) \<and> ib_next (is_state s) + unat (is_bytes_left s) \<le> unat bufsize
    \<and> frame (range_of dest (struct_size logs_proto_mobilesdk_ios_ICoreConfiguration) \<union> H \<union> local_vars env)
        (ds_mem d) (ds_mem d')"
proof -
  let ?flds = logs_proto_mobilesdk_ios_ICoreConfiguration_fields
  have n: "2 * 0 + 3 \<le> n" using assms(4) by simp
  have "icore.apart H ?flds dest" using assms(2) by (simp add: icore.apart_def)
  from icore.decode_buffer_safe [OF refl assms(1) _ this n assms(3), of d] obtain ok s d' where
    r: "pb_decode n env ?flds dest (pb_istream_from_buffer buf bufsize, d) = Some (ok, s, d')"
      "buffer_inv buf (unat bufsize) (is_state s) (unat (is_bytes_left s))"
      "frame (icore.region env H ?flds dest) (ds_mem d) (ds_mem d')" by blast
  from r show ?thesis by (simp add: buffer_inv_def icore.region_def)
qed

theorem diagnostics_decode_safe_witness:
  "\<exists>ok s d'. pb_decode 3 (sample_dec_env :: (ibuf, nat) dec_env) logs_proto_mobilesdk_ios_ICoreConfiguration_fields 16
        (pb_istream_from_buffer [58, 3, 1, 2, 3, 74, 2, 104, 105] 9, \<lparr>ds_mem = sample_mem, ds_heap = 0\<rparr>) = Some (ok, s, d')
    \<and> \<not> ib_oob (is_state s) \<and> ib_next (is_state s) + unat (is_bytes_left s) \<le> unat (9 :: size_t)
    \<and> frame (range_of 16 (struct_size logs_proto_mobilesdk_ios_ICoreConfiguration) \<union> sample_heap
          \<union> local_vars (sample_dec_env :: (ibuf, nat) dec_env)) sample_mem (ds_mem d')"
proof -
  have "range_of (0 + of_nat 16) 152 \<inter> range_of (0 + of_nat 65536) 65536 = ({} :: addr set)"
    by (rule range_of_disjoint) simp_all
  then show ?thesis
    using diagnostics_decode_safe [OF sample_allocator_ok, of 16 9 "[58, 3, 1, 2, 3, 74, 2, 104, 105]" 3
        "\<lparr>ds_mem = sample_mem, ds_heap = 0\<rparr>"] by (simp add: ICore_size sample_heap_def)
qed

text \<open>
  C22. Decoding the answer of the log server and using it: \<open>GDTCCTDecodeLogResponse\<close> and the code that takes
  the time until the next upload from the answer and releases it return for every answer, and
  change nothing but the structure, the heap and the decoder's local variables.
\<close>

theorem response_handling_safe:
  fixes env :: "(ibuf, 'h) dec_env"
  assumes "de_fields env = cct_tables lk" "cct_link_ok lk" "allocator_ok env H" "range_of response 56 \<inter> H = {}"
    and "7 \<le> n" "length bytes < 2 ^ 64"
  shows "\<exists>w d'. uploadWaitMillis n env lk response (Some bytes) d = Some (w, d')
    \<and> frame (range_of response 56 \<union> H \<union> local_vars env) (ds_mem d) (ds_mem d')"
  using uploadWaitMillis_safe [OF assms(1-5), of "Some bytes"] assms(6) by simp

theorem response_handling_safe_witness:
  "\<exists>w d'. uploadWaitMillis 7 (sample_dec_env :: (ibuf, nat) dec_env) sample_link 16 (Some [8, 172, 2])
        \<lparr>ds_mem = sample_mem, ds_heap = 0\<rparr> = Some (w, d')
    \<and> frame (range_of 16 56 \<union> sample_heap \<union> local_vars (sample_dec_env :: (ibuf, nat) dec_env)) sample_mem (ds_mem d')"
proof -
  have "de_fields (sample_dec_env :: (ibuf, nat) dec_env) = cct_tables sample_link" by (simp add: sample_dec_env_def)
  from response_handling_safe [OF this sample_link_ok sample_allocator_ok sample_response_apart, of 7 "[8, 172, 2]"
      "\<lparr>ds_mem = sample_mem, ds_heap = 0\<rparr>"] show ?thesis by simp
qed

text \<open>
  C26. The overflow check before an allocation is exact, although it divides only if one of the factors
  has more than 32 bits: if the product of the sizes does not fit into 64 bits, \<open>allocate_field\<close> reports an error and
  leaves the memory alone; otherwise it asks for exactly the product and succeeds if and only if the
  allocator does, and the pointer it stores has room for all the items.
\<close>

theorem allocation_exact:
  fixes env :: "('s, 'h) dec_env"
  assumes "allocator_ok env H" "data_size \<noteq> 0" "array_size \<noteq> 0"
    and "allocate_field env pData data_size array_size sd = (ok, sd')"
  shows "if 2 ^ 64 \<le> unat data_size * unat array_size then \<not> ok \<and> snd sd' = snd sd
    else unat (array_size * data_size) = unat data_size * unat array_size
      \<and> (ok \<longleftrightarrow> fst (de_realloc env (snd sd) (load_ptr (ds_mem (snd sd)) pData) (array_size * data_size)) \<noteq> 0)
      \<and> (ok \<longrightarrow> range_of (load_ptr (ds_mem (snd sd')) pData) (unat data_size * unat array_size) \<subseteq> H)"
proof (cases "2 ^ 64 \<le> unat data_size * unat array_size")
  case True
  then have "\<not> ok \<and> snd sd' = snd sd"
    using assms(2-4) alloc_too_large_iff [OF assms(3), of data_size]
    by (auto simp: allocate_field_def Let_def dec_error_def)
  with True show ?thesis by simp
next
  case False
  then have n: "\<not> alloc_too_large data_size array_size" using alloc_too_large_iff [OF assms(3)] by simp
  have "ok \<longleftrightarrow> fst (de_realloc env (snd sd) (load_ptr (ds_mem (snd sd)) pData) (array_size * data_size)) \<noteq> 0"
    using assms(2-4) n by (auto simp: allocate_field_def Let_def dec_error_def split: prod.splits if_splits)
  then show ?thesis
    using False allocate_field_post(3) [OF assms(1,4)] unat_alloc_size [OF assms(3) n] by simp
qed

theorem allocation_exact_witness:
  "\<exists>sd'. allocate_field (sample_dec_env :: (ibuf, nat) dec_env) 0 (2 ^ 40) (2 ^ 24)
      (pb_istream_from_buffer [] 0, \<lparr>ds_mem = sample_mem, ds_heap = 0\<rparr>) = (False, sd')"
proof -
  obtain ok sd' where r: "allocate_field (sample_dec_env :: (ibuf, nat) dec_env) 0 (2 ^ 40) (2 ^ 24)
      (pb_istream_from_buffer [] 0, \<lparr>ds_mem = sample_mem, ds_heap = 0\<rparr>) = (ok, sd')"
    by (cases "allocate_field (sample_dec_env :: (ibuf, nat) dec_env) 0 (2 ^ 40) (2 ^ 24)
      (pb_istream_from_buffer [] 0, \<lparr>ds_mem = sample_mem, ds_heap = 0\<rparr>)")
  from allocation_exact [OF sample_allocator_ok _ _ r] show ?thesis using r by simp
qed

section \<open>Base64\<close>

text \<open>
  C27. Base64 round trip: what \<open>f_b64_ntop\<close> stores in a buffer that is large enough is decoded by
  \<open>f_b64_pton\<close> to the original bytes, with a target of one byte more than the data; neither routine
  leaves its buffers.
\<close>

theorem base64_roundtrip:
  assumes "length (b64_enc bs) < unat n" "unat n \<le> length buf" "length buf < 2 ^ 63" "length bs < 2 ^ 30"
    and "length bs < unat k" "unat k \<le> length target" "unat k < 2 ^ 31"
  shows "\<exists>st st' t. f_b64_ntop bs (of_nat (length bs)) buf n = (int (4 * ((length bs + 2) div 3)), st) \<and> \<not> nt_oob st
    \<and> f_b64_pton (nt_target st) (Some target) k = (int (length bs), st') \<and> \<not> pt_oob st'
    \<and> pt_target st' = Some t \<and> take (length bs) t = bs"
proof -
  from f_b64_ntop_enc [OF assms(2,3), of bs] assms(1,4) obtain st where
    st: "f_b64_ntop bs (of_nat (length bs)) buf n = (sint (of_nat (length (b64_enc bs)) :: u32), st)" "\<not> nt_oob st"
      "nt_target st = b64_enc bs @ 0 # drop (Suc (length (b64_enc bs))) buf" by auto
  have len: "length (b64_enc bs) < 2 ^ 31" using assms(4) by (simp add: length_b64_enc)
  from st(3) have "0 \<in> set (nt_target st)" by simp
  from f_b64_pton_dec [OF this assms(6,7)] st(3) have
    "pton_ok k [] (Some bs) (f_b64_pton (nt_target st) (Some target) k)" by (simp add: chars_b64_enc b64_dec_enc)
  moreover have "b64_room bs \<le> unat k" using assms(5) by (simp add: b64_room_def)
  moreover have "f_b64_ntop bs (of_nat (length bs)) buf n = (int (4 * ((length bs + 2) div 3)), st)"
    using st(1) by (simp only: sint_of_nat_32 [OF len]) (simp only: length_b64_enc)
  moreover have "sint (of_nat (length bs) :: u32) = int (length bs)" using assms(4) by (simp add: sint_of_nat_32)
  ultimately show ?thesis using st(2) by (auto simp: pton_ok_def prod_eq_iff)
qed

theorem base64_roundtrip_witness:
  "\<exists>st st' t. f_b64_ntop [1, 2, 255, 7] (of_nat (length [1, 2, 255, 7 :: byte])) (replicate 16 99) 16 =
      (int (4 * ((length [1, 2, 255, 7 :: byte] + 2) div 3)), st) \<and> \<not> nt_oob st
    \<and> f_b64_pton (nt_target st) (Some (replicate 5 99)) 5 = (int (length [1, 2, 255, 7 :: byte]), st') \<and> \<not> pt_oob st'
    \<and> pt_target st' = Some t \<and> take (length [1, 2, 255, 7 :: byte]) t = [1, 2, 255, 7]"
  by (rule base64_roundtrip) (simp_all add: length_b64_enc)

text \<open>
  C17. The decoder accepts exactly base64. For every C string and every target, the result is a
  length if and only if the characters of the string other than white space are the encoding of some
  bytes in the sense of RFC 1521 (complete groups, padding in the right places, no stray bits) for which the target has
  room; these bytes are then stored, and it returns their number. It never writes outside the
  target and never reads behind the terminator.
\<close>

theorem base64_decode_exact:
  assumes "0 \<in> set src" "unat n \<le> length target" "unat n < 2 ^ 31"
  shows "\<exists>r st. f_b64_pton src (Some target) n = (r, st) \<and> \<not> pt_oob st
    \<and> (r \<noteq> -1 \<longleftrightarrow> (\<exists>bs. chars src = b64_enc bs \<and> b64_room bs \<le> unat n))
    \<and> (\<forall>bs. chars src = b64_enc bs \<and> b64_room bs \<le> unat n \<longrightarrow>
          r = int (length bs) \<and> (\<exists>t. pt_target st = Some t \<and> take (length bs) t = bs))"
proof -
  obtain r st where rst: "f_b64_pton src (Some target) n = (r, st)" by fastforce
  with f_b64_pton_dec [OF assms] have ok: "pton_ok n [] (b64_dec (chars src)) (r, st)" by simp
  have fit: "r = int (length bs) \<and> (\<exists>t. pt_target st = Some t \<and> take (length bs) t = bs)"
    if "chars src = b64_enc bs" "b64_room bs \<le> unat n" for bs
  proof -
    have "length bs < 2 ^ 31" using that(2) assms(3) by (simp add: b64_room_def split: if_splits)
    then show ?thesis using ok that by (simp add: pton_ok_def b64_dec_enc sint_of_nat_32)
  qed
  have ex: "\<exists>bs. chars src = b64_enc bs \<and> b64_room bs \<le> unat n" if "r \<noteq> -1"
    using ok that b64_dec_Some [of "chars src"] by (auto simp: pton_ok_def split: option.splits if_splits)
  have "r \<noteq> -1" if "chars src = b64_enc bs" "b64_room bs \<le> unat n" for bs using fit [OF that] by auto
  with ex have "r \<noteq> -1 \<longleftrightarrow> (\<exists>bs. chars src = b64_enc bs \<and> b64_room bs \<le> unat n)" by blast
  moreover have "\<not> pt_oob st" using ok by (simp add: pton_ok_def)
  ultimately show ?thesis using rst fit by blast
qed

theorem base64_decode_exact_witness:
  "\<exists>r st. f_b64_pton [32, 81, 85, 74, 68, 10, 0] (Some [9, 9, 9, 9]) 4 = (r, st) \<and> \<not> pt_oob st
    \<and> (r \<noteq> -1 \<longleftrightarrow> (\<exists>bs. chars [32, 81, 85, 74, 68, 10, 0] = b64_enc bs \<and> b64_room bs \<le> unat (4 :: size_t)))
    \<and> (\<forall>bs. chars [32, 81, 85, 74, 68, 10, 0] = b64_enc bs \<and> b64_room bs \<le> unat (4 :: size_t) \<longrightarrow>
          r = int (length bs) \<and> (\<exists>t. pt_target st = Some t \<and> take (length bs) t = bs))"
  by (rule base64_decode_exact) simp_all

text \<open>
  C28. The callers compute the size of the buffer as half of three times the length, rounded up by one:
  this is too small for short data. \<open>base64EncodedStringFromData\<close> returns \<open>nil\<close> exactly for data of 1, 2, 4, 5, 7, 10 or
  13 bytes and the encoding of the data otherwise. The digests and the 16-byte keys the
  websocket encodes are of lengths for which it works.
\<close>

theorem base64_string_nil:
  assumes "\<forall>k. length (malloc k) = k" "length bs < 2 ^ 30"
  shows "base64EncodedStringFromData malloc bs = (if length bs \<in> {1, 2, 4, 5, 7, 10, 13} then None else Some (b64_enc bs))"
proof -
  let ?n = "of_nat (length bs) :: size_t"
  have n: "unat ((?n * 3 + 2) div 2) = (length bs * 3 + 2) div 2" using assms(2) by (rule unat_b64_size)
  let ?m = "unat ((?n * 3 + 2) div 2)"
  have "?m < 2 ^ 63" using n assms(2) by simp
  with f_b64_ntop_enc [of "(?n * 3 + 2) div 2" "malloc ?m" bs] assms obtain st where
    st: "f_b64_ntop bs ?n (malloc ?m) ((?n * 3 + 2) div 2) = (if length (b64_enc bs) < ?m then sint (of_nat (length (b64_enc bs)) :: u32) else -1, st)"
      "length (b64_enc bs) < ?m \<Longrightarrow> nt_target st = b64_enc bs @ 0 # drop (Suc (length (b64_enc bs))) (malloc ?m)" by auto
  have "length (b64_enc bs) < 2 ^ 31" using assms(2) by (simp add: length_b64_enc)
  then have len: "sint (of_nat (length (b64_enc bs)) :: u32) = int (length (b64_enc bs))" by (rule sint_of_nat_32)
  have "length (b64_enc bs) < ?m \<longleftrightarrow> length bs \<notin> {1, 2, 4, 5, 7, 10, 13}"
    unfolding n length_b64_enc by (rule b64_size_iff)
  then show ?thesis using st len by (auto simp: base64EncodedStringFromData_def b64_string_def Let_def)
qed

theorem base64_string_nil_witness:
  "base64EncodedStringFromData (\<lambda>k. replicate k 0) [1, 2] = None"
  using base64_string_nil [of "\<lambda>k. replicate k 0" "[1, 2]"] by simp

section \<open>The log of the key-value store\<close>

text \<open>
  C2. Recovery of the write-ahead log. Records are added to a log in a POSIX file, each with a good status; the file then holds the
  bytes of the log. A reader of the file, even if only the first \<open>n\<close> bytes of it have reached the disk, returns exactly the
  records that are complete in these bytes, in order, and reports no corruption. The whole file gives all records.
\<close>

theorem log_recovery:
  fixes px :: "'w posix" and py :: "'v posix"
  assumes os: "writes_ok px disk" "padding_ok (PosixWritableFile_Append px)" "read_ok py fd' rest" and crc: "crc_ok e"
    and add: "add_records e (PosixWritableFile_Append px) (PosixWritableFile_Flush px) rs
      (new_Writer e (new_PosixWritableFile filename fd, w) 0) = Some (OK, wr)" "disk w = []"
    and cut: "rest v = take n (disk (snd (lw_dest wr)))"
  shows "disk (snd (lw_dest wr)) = log_bytes rs
    \<and> (\<exists>k r. read_all e (PosixSequentialFile_Read py fd' filename') skip (new_Reader v True True 0) = Some (take k rs, r)
      \<and> lr_reports r = Some [] \<and> k \<le> length rs
      \<and> length (log_bytes (take k rs)) \<le> n \<and> (k < length rs \<longrightarrow> n < length (log_bytes (take (Suc k) rs))))"
proof -
  have start: "wfile_contents disk (new_PosixWritableFile filename fd, w) = []" "wfile_stored disk (new_PosixWritableFile filename fd, w) = []"
    using add(2) by (simp_all add: wfile_contents_def wfile_stored_def new_PosixWritableFile_def)
  have "writer_ok e (new_Writer e (new_PosixWritableFile filename fd, w) 0)" by (simp add: writer_ok_def new_Writer_def)
  from posix_file.add_records_written [OF os(1,2) crc add(1) this] start
  have "wfile_stored disk (lw_dest wr) = log_bytes rs" by (simp add: new_Writer_def log_bytes_def)
  then have disk: "disk (snd (lw_dest wr)) = log_bytes rs" by (simp add: wfile_stored_def split: prod.splits)
  let ?r = "new_Reader v True True 0 :: 'v log_reader"
  have "posix_sequential.reader_at rest kBlockSize ?r" "posix_sequential.unread rest ?r = take n (log_from kBlockSize rs)"
    using cut by (simp_all add: posix_sequential.reader_start disk log_from_start)
  from posix_sequential.read_all_cut [OF os(3) crc this]
  show ?thesis using disk by (simp add: new_Reader_def log_from_start)
qed

definition sample_crc_env :: crc_env where
  "sample_crc_env = \<lparr>ce_acc = None, ce_at = (\<lambda>bs. 1)\<rparr>"

theorem log_recovery_witness:
  "\<exists>wr. add_records sample_crc_env (PosixWritableFile_Append sample_posix) (PosixWritableFile_Flush sample_posix)
      [[1, 2, 3], [], [4]] (new_Writer sample_crc_env (new_PosixWritableFile ''000003.log'' 3, []) 0) = Some (OK, wr)
    \<and> id (snd (lw_dest wr)) = log_bytes [[1, 2, 3], [], [4]]
    \<and> (\<exists>k r. read_all sample_crc_env (PosixSequentialFile_Read sample_posix 4 ''000003.log'') (PosixSequentialFile_Skip sample_posix 4 ''000003.log'')
          (new_Reader (take 12 (snd (lw_dest wr))) True True 0) = Some (take k [[1, 2, 3], [], [4]], r)
      \<and> lr_reports r = Some [] \<and> k \<le> length [[1, 2, 3], [], [4 :: byte]]
      \<and> length (log_bytes (take k [[1, 2, 3], [], [4]])) \<le> 12
      \<and> (k < length [[1, 2, 3], [], [4 :: byte]] \<longrightarrow> 12 < length (log_bytes (take (Suc k) [[1, 2, 3], [], [4]]))))"
proof -
  have "\<exists>wr. add_records sample_crc_env (PosixWritableFile_Append sample_posix) (PosixWritableFile_Flush sample_posix)
      [[1, 2, 3], [], [4]] (new_Writer sample_crc_env (new_PosixWritableFile ''000003.log'' 3, []) 0) = Some (OK, wr)"
    by (rule add_records_returns) (rule posix_progress [OF sample_posix_ok(3)])+
  then obtain wr where wr: "add_records sample_crc_env (PosixWritableFile_Append sample_posix) (PosixWritableFile_Flush sample_posix)
      [[1, 2, 3], [], [4]] (new_Writer sample_crc_env (new_PosixWritableFile ''000003.log'' 3, []) 0) = Some (OK, wr)" by blast
  have pad: "padding_ok (PosixWritableFile_Append sample_posix)"
    unfolding padding_ok_def using posix_progress(1) [OF sample_posix_ok(3)] by (metis option.inject prod.inject)
  have crc: "crc_ok sample_crc_env" by (simp add: crc_ok_def sample_crc_env_def)
  have cut: "id (take 12 (snd (lw_dest wr))) = take 12 (id (snd (lw_dest wr)))" by simp
  note log_recovery [OF sample_posix_ok(1) pad sample_posix_ok(2) [of 4] crc wr id_apply cut,
    where filename' = "''000003.log''" and skip = "PosixSequentialFile_Skip sample_posix 4 ''000003.log''"]
  with wr show ?thesis by blast
qed

text \<open>
  C24. The reader returns on every file: whatever the bytes are, and in every state of the reader, \<open>ReadRecord\<close> returns a record or
  \<open>false\<close> after finitely many rounds.
\<close>

theorem log_reader_total:
  fixes px :: "'w posix"
  assumes "read_ok px fd rest"
  shows "\<exists>x r'. ReadRecord e (PosixSequentialFile_Read px fd filename) (PosixSequentialFile_Skip px fd filename) r = Some (x, r')"
  using assms by (rule posix_sequential.ReadRecord_total)

theorem log_reader_total_witness:
  "\<exists>x r'. ReadRecord sample_crc_env (PosixSequentialFile_Read sample_posix 4 ''LOG'') (PosixSequentialFile_Skip sample_posix 4 ''LOG'')
     (new_Reader (replicate 100 7) True True 0) = Some (x, r')"
  using sample_posix_ok(2) by (rule log_reader_total)

text \<open>
  C25. Progress of the writer: if every call of \<^verbatim>\<open>write\<close> stores at least one byte, adding a record to the log returns, with a good status.
\<close>

theorem log_writer_progress:
  fixes px :: "'w posix"
  assumes "progress px"
  shows "\<exists>wr'. AddRecord e (PosixWritableFile_Append px) (PosixWritableFile_Flush px) data wr = Some (OK, wr')"
  unfolding AddRecord_def by (rule AddRecord_loop_returns) (rule posix_progress [OF assms])+

theorem log_writer_progress_witness:
  "\<exists>wr'. AddRecord sample_crc_env (PosixWritableFile_Append sample_posix) (PosixWritableFile_Flush sample_posix) (replicate 70000 9)
     (new_Writer sample_crc_env (new_PosixWritableFile ''000003.log'' 3, []) 0) = Some (OK, wr')"
  using sample_posix_ok(3) by (rule log_writer_progress)

text \<open>
  C16. The checksum routine, which handles four interleaved lanes of aligned words with five tables, computes CRC-32C as it is
  defined bit by bit, for data of every length at every address, whether or not the processor accelerates
  it. Masking of stored checksums is undone by unmasking.
\<close>

theorem crc32c_equivalence:
  assumes "\<forall>f. acc = Some f \<longrightarrow> f = crc32c_ref"
  shows "Extend acc p crc data = crc32c_ref crc data \<and> Unmask (Mask (Extend acc p crc data)) = crc32c_ref crc data"
  using assms by (simp add: Extend_ref)

theorem crc32c_equivalence_witness:
  "Extend None 3 0 (replicate 50 7) = crc32c_ref 0 (replicate 50 7) \<and> Unmask (Mask (Extend None 3 0 (replicate 50 7))) = crc32c_ref 0 (replicate 50 7)"
  using crc32c_equivalence [of None 3 0 "replicate 50 7"] by simp

text \<open>
  C33. The binary encodings of the store are self-delimiting: numbers of both widths, as varints and with fixed width, and
  strings with their length are read back, with what follows them.
\<close>

theorem coding_roundtrip:
  assumes "length s < 2 ^ 32"
  shows "GetVarint32 (PutVarint32 [] v @ rest) = Some (v, rest)
    \<and> GetVarint64 (PutVarint64 [] x @ rest) = Some (x, rest)
    \<and> VarintLength x = length (PutVarint64 [] x)
    \<and> DecodeFixed32 (PutFixed32 [] v @ rest) = v \<and> DecodeFixed64 (PutFixed64 [] x @ rest) = x
    \<and> GetLengthPrefixedSlice (PutLengthPrefixedSlice [] s @ rest) = Some (s, rest)"
  using slice.get_put [OF assms]
  by (simp add: PutVarint32_def PutVarint64_def PutFixed32_def PutFixed64_def VarintLength_bytes)

theorem coding_roundtrip_witness:
  "GetVarint32 (PutVarint32 [] 300 @ [9]) = Some (300, [9])
    \<and> GetVarint64 (PutVarint64 [] (2 ^ 40) @ [9]) = Some (2 ^ 40, [9])
    \<and> VarintLength (2 ^ 40) = length (PutVarint64 [] (2 ^ 40))
    \<and> DecodeFixed32 (PutFixed32 [] 300 @ [9]) = 300 \<and> DecodeFixed64 (PutFixed64 [] (2 ^ 40) @ [9]) = 2 ^ 40
    \<and> GetLengthPrefixedSlice (PutLengthPrefixedSlice [] [1, 2] @ [9]) = Some ([1, 2], [9])"
  by (rule coding_roundtrip) simp

section \<open>Keys and filters of the key-value store\<close>

text \<open>
  C19. Internal keys. An encoded key is parsed to its parts; the comparator orders encoded keys by user key in lexicographic order of the
  bytes, then newest sequence number first, then values before deletions, although it compares only
  a 64-bit number taken from the end of the keys.
\<close>

theorem internal_key_order:
  assumes "pk_sequence a \<le> kMaxSequenceNumber" "pk_sequence b \<le> kMaxSequenceNumber"
  shows "ParseInternalKey (AppendInternalKey [] a) = Some a
    \<and> (Internal_Compare Slice_compare (AppendInternalKey [] a) (AppendInternalKey [] b) < 0 \<longleftrightarrow>
        ord_class.lexordp (pk_user_key a) (pk_user_key b) \<or>
        pk_user_key a = pk_user_key b \<and> (pk_sequence b < pk_sequence a \<or>
          pk_sequence a = pk_sequence b \<and> pk_type a = kTypeValue \<and> pk_type b = kTypeDeletion))"
proof -
  have "PackSequenceAndType (pk_sequence b) (pk_type b) < PackSequenceAndType (pk_sequence a) (pk_type a) \<longleftrightarrow>
      pk_sequence b < pk_sequence a \<or> pk_sequence a = pk_sequence b \<and> pk_type a = kTypeValue \<and> pk_type b = kTypeDeletion"
    by (cases "pk_type a"; cases "pk_type b")
      (auto simp: word_less_nat_alt PackSequenceAndType_bounds [OF assms(1)] PackSequenceAndType_bounds [OF assms(2)] value_type_code_def
        word_unat_eq_iff)
  then show ?thesis using ParseInternalKey_Append [OF assms(1)]
    by (auto simp: Internal_Compare_def AppendInternalKey_def Let_def simp flip: Slice_compare_less)
qed

theorem internal_key_order_witness:
  "ParseInternalKey (AppendInternalKey [] \<lparr>pk_user_key = [7], pk_sequence = 9, pk_type = kTypeDeletion\<rparr>) =
      Some \<lparr>pk_user_key = [7], pk_sequence = 9, pk_type = kTypeDeletion\<rparr>
    \<and> Internal_Compare Slice_compare (AppendInternalKey [] \<lparr>pk_user_key = [7], pk_sequence = 9, pk_type = kTypeDeletion\<rparr>)
       (AppendInternalKey [] \<lparr>pk_user_key = [7], pk_sequence = 8, pk_type = kTypeValue\<rparr>) < 0"
  using internal_key_order [of "\<lparr>pk_user_key = [7], pk_sequence = 9, pk_type = kTypeDeletion\<rparr>"
      "\<lparr>pk_user_key = [7], pk_sequence = 8, pk_type = kTypeValue\<rparr>"]
  by (simp add: kMaxSequenceNumber_def)

text \<open>
  C20. Short keys for the index of a table. The separator of two internal keys lies between them, the first included and the second
  excluded, and the successor of a key is not below it; both are internal keys again. The comparator is a total order on
  internal keys, so that nothing of a table is lost when it is found through these keys.
\<close>

theorem internal_separator_between:
  assumes "8 \<le> length a" "8 \<le> length b" "8 \<le> length c"
  defines "compare \<equiv> Internal_Compare Slice_compare"
    and "sep \<equiv> Internal_FindShortestSeparator Slice_compare Bytewise_FindShortestSeparator a b"
    and "succ \<equiv> Internal_FindShortSuccessor Slice_compare Bytewise_FindShortSuccessor a"
  shows "(compare a b < 0 \<longrightarrow> compare a sep \<le> 0 \<and> compare sep b < 0 \<and> 8 \<le> length sep)
    \<and> compare a succ \<le> 0 \<and> 8 \<le> length succ
    \<and> sgn (compare b a) = - sgn (compare a b) \<and> (compare a b \<le> 0 \<longrightarrow> compare b c \<le> 0 \<longrightarrow> compare a c \<le> 0)"
  using internal_bytewise.separator_less [of a b] internal_bytewise.separator_valid [of a b] internal_bytewise.successor_le [of a]
    internal_bytewise.successor_valid [of a] internal_bytewise.sign [of a b] internal_bytewise.trans [of a b c] assms(1-3)
  unfolding compare_def sep_def succ_def by auto

theorem internal_separator_between_witness:
  "Internal_Compare Slice_compare
     (Internal_FindShortestSeparator Slice_compare Bytewise_FindShortestSeparator ([1, 2, 3] @ replicate 8 1) ([1, 9] @ replicate 8 1))
     ([1, 9] @ replicate 8 1) < 0"
proof -
  have "Internal_Compare Slice_compare ([1, 2, 3] @ replicate 8 1) ([1, 9] @ replicate 8 1) < 0" by code_simp
  then show ?thesis
    using internal_separator_between [of "[1, 2, 3] @ replicate 8 1" "[1, 9] @ replicate 8 1" "replicate 8 0"] by simp
qed

text \<open>
  C15. Filters never hide a key. A table is built block by block, at offsets that do not decrease, and every key of a block is
  added to its filter block with a Bloom filter on user keys. Looking up any of these keys at
  the offset of its data block answers that it may be there, as long as the filter block stays below 4 GB.
\<close>

theorem filter_block_no_false_negatives:
  assumes "sorted (map fst blks)" "(off, keys) \<in> set blks" "key \<in> set keys"
    "length (filter_block (InternalFilterPolicy_CreateFilter (Bloom_CreateFilter (NewBloomFilterPolicy b))) blks) < 2 ^ 32"
  shows "Filter_KeyMayMatch (InternalFilterPolicy_KeyMayMatch Bloom_KeyMayMatch)
    (new_FilterBlockReader (filter_block (InternalFilterPolicy_CreateFilter (Bloom_CreateFilter (NewBloomFilterPolicy b))) blks)) off key"
  using internal_bloom.filter_block_complete [OF assms(1) _ assms(4,2,3)] by simp

theorem filter_block_no_false_negatives_witness:
  "Filter_KeyMayMatch (InternalFilterPolicy_KeyMayMatch Bloom_KeyMayMatch)
    (new_FilterBlockReader (filter_block (InternalFilterPolicy_CreateFilter (Bloom_CreateFilter (NewBloomFilterPolicy 10)))
      [(0, [replicate 9 1]), (5000, [replicate 9 2, replicate 10 3])])) 5000 (replicate 10 3)"
proof -
  have "length (filter_block (InternalFilterPolicy_CreateFilter (Bloom_CreateFilter (NewBloomFilterPolicy 10)))
      [(0, [replicate 9 1]), (5000, [replicate 9 2, replicate 10 3])]) < 2 ^ 32"
    by (simp add: filter_block_def add_block_def StartBlock_def start_loop.simps kFilterBase_def kFilterBaseLg_def
      new_FilterBlockBuilder_def AddKey_def Filter_Finish_def PutFixed32_def Let_def GenerateFilter_def
      InternalFilterPolicy_CreateFilter_def tmp_keys_def bloom_bytes_def NewBloomFilterPolicy_def)
  then show ?thesis by (rule filter_block_no_false_negatives [rotated 3, where keys = "[replicate 9 2, replicate 10 3]"]) simp_all
qed

section \<open>The memtable of the key-value store\<close>

text \<open>
  C6. Readers of a memtable need no lock. In every state that one writer and one reader can reach, between any two stores or loads, the lowest
  level of the skip list is a chain of nodes sorted by the order of entries; a step of the
  writer or the reader removes no node from it and changes no key; and when a search for a key ends, it has found the first
  entry that is not below the key among all that are in the list at that moment.
\<close>

theorem concurrent_readers:
  assumes "sk_reach mem_compare mem_valid (table, w, r)"
  shows "\<exists>xs. chain (sl_nodes table) 0 xs \<and> sorted_keys mem_compare (sl_nodes table) xs
    \<and> (\<forall>table' w' r'. sk_step mem_compare mem_valid (table, w, r) (table', w', r') \<longrightarrow>
        (\<exists>xs'. chain (sl_nodes table') 0 xs' \<and> set xs \<subseteq> set xs'
          \<and> (\<forall>x \<in> set xs. node_key (sl_nodes table') x = node_key (sl_nodes table) x))
        \<and> (\<forall>key x key' n. r = RAt key x 0 \<and> r' = RDone key' n \<longrightarrow>
            n = first (filter (\<lambda>z. \<not> mem_compare (node_key (sl_nodes table) z) key < 0) xs)))"
proof -
  note inv = mem.sk_reach_inv [OF assms]
  from inv obtain L where L: "mem.writer_ok table w L" by (rule mem.conc_invE)
  note V = sl_listsD(1,2) [OF mem.writer_ok_visible(1) [OF L] kMaxHeight_pos(1)]
  let ?xs = "mem.visible table w L 0"
  show ?thesis
  proof (rule exI [of _ ?xs], intro conjI allI impI V)
    fix table' w' r'
    assume step: "sk_step mem_compare mem_valid (table, w, r) (table', w', r')"
    from mem.visible_grows [OF inv step V(1)]
    show "\<exists>xs'. chain (sl_nodes table') 0 xs' \<and> set ?xs \<subseteq> set xs'
      \<and> (\<forall>x \<in> set ?xs. node_key (sl_nodes table') x = node_key (sl_nodes table) x)" .
    fix key x key' n
    assume "r = RAt key x 0 \<and> r' = RDone key' n"
    with mem.found_correct [of table w key x 0 table' w' key' n] inv step mem.chain_unique [OF V(1)]
    show "n = first (filter (\<lambda>z. \<not> mem_compare (node_key (sl_nodes table) z) key < 0) ?xs)" by blast
  qed
qed


theorem concurrent_readers_witness:
  "\<exists>table w xs. w \<noteq> WIdle \<and> chain (sl_nodes table) 0 xs \<and> sorted_keys mem_compare (sl_nodes table) xs
    \<and> (\<forall>table' w' key' n. sk_step mem_compare mem_valid (table, w, RAt (mem_entry 1 kTypeValue [7] [8]) 0 0) (table', w', RDone key' n) \<longrightarrow>
         n = first (filter (\<lambda>z. \<not> mem_compare (node_key (sl_nodes table) z) (mem_entry 1 kTypeValue [7] [8]) < 0) xs))"
proof -
  let ?e = "\<lparr>op_seq = 1, op_type = kTypeValue, op_key = [7], op_value = [8]\<rparr>" and ?new = "new_SkipList [] :: memtable"
  let ?key = "op_entry ?e"
  have valid: "mem_valid ?key" using op_entry_slices(1) [of ?e] by (simp add: op_ok_def kMaxSequenceNumber_def)
  note inv = new_SkipList_inv [of mem_compare mem_valid "[]"]
  have "SkipList_Contains mem_compare ?key ?new = Some False" using mem.Contains_inv [OF inv valid] by (simp add: sl_keys_def)
  note wstep = sk_step.begin_write [where valid = mem_valid and compare = mem_compare and key = ?key and sl = ?new, OF valid this]
  from start_write [OF valid] obtain x height prev table where
    prep: "prepare_insert mem_compare ?key ?new = Some (x, height, prev, table)" "1 \<le> sl_max_height table" by blast
  from sk_reach.step [OF sk_reach.start wstep [OF prep(1)]]
  have "sk_reach mem_compare mem_valid (table, WLink x height prev 0 False, RIdle)" .
  from sk_reach.step [OF this sk_step.begin_read [where valid = mem_valid and compare = mem_compare and key = ?key and h = 1, OF valid order.refl prep(2)]]
  have "sk_reach mem_compare mem_valid (table, WLink x height prev 0 False, RAt ?key 0 0)" by simp
  from concurrent_readers [OF this] show ?thesis by (intro exI [of _ table] exI [of _ "WLink x height prev 0 False"]) auto
qed

text \<open>
  C7. A write batch in the memtable. The string that \<open>Put\<close> and \<open>Delete\<close> build from a cleared batch, with a sequence number set, is inserted into a new memtable with a
  good status; \<open>Get\<close> then answers for every user key and every snapshot with the newest operation on the key that the snapshot sees: its value, or
  that the key is deleted, or nothing if there is none.
\<close>

theorem batch_in_memtable:
  assumes "\<forall>x \<in> set ops. batch_op_ok x" "length ops < 2 ^ 31" "unat seq + length ops \<le> 2 ^ 56"
    and "s \<le> kMaxSequenceNumber" "length user + 8 < 2 ^ 32"
  shows "\<exists>table. WB_InsertInto (Internal_Compare Slice_compare) (WB_SetSequence seq (fold add_op ops WriteBatch_Clear)) new_MemTable = Some (OK, table)
    \<and> MemTable_Get Slice_compare (Internal_Compare Slice_compare) (new_LookupKey user s) table = Some (mem_lookup (mem_ops seq ops) user s)"
proof -
  from InsertInto_rep [OF mem_rep_new _ assms(1,3,2)] obtain table where
    "WB_InsertInto (Internal_Compare Slice_compare) (batch_bytes seq ops) new_MemTable = Some (OK, table)" "mem_rep table (mem_ops seq ops)" by auto
  with MemTable_Get_rep [OF this(2) assms(4,5)] show ?thesis by (simp add: fold_add_op_Clear)
qed

theorem batch_in_memtable_witness:
  "\<exists>table. WB_InsertInto (Internal_Compare Slice_compare)
      (WB_SetSequence 5 (fold add_op [PutOp [1] [2], DeleteOp [3], PutOp [1] [4]] WriteBatch_Clear)) new_MemTable = Some (OK, table)
    \<and> MemTable_Get Slice_compare (Internal_Compare Slice_compare) (new_LookupKey [1] 9) table = Some (Found [4])"
  using batch_in_memtable [of "[PutOp [1] [2], DeleteOp [3], PutOp [1] [4]]" 5 9 "[1]"]
  by (simp add: kMaxSequenceNumber_def mem_lookup_def)

text \<open>
  C40. Iterating over a batch gives back what was put into it: the batch that \<open>Append\<close> makes of two batches calls the
  handler for the operations of the first and then of the second, in order and each once, and the status is good.
\<close>

theorem batch_iteration:
  assumes "\<forall>x \<in> set (ops @ ops'). batch_op_ok x" "length (ops @ ops') < 2 ^ 31"
  shows "WriteBatch_Iterate hnd (WB_Append (fold add_op ops WriteBatch_Clear) (fold add_op ops' WriteBatch_Clear)) h
    = map_option (Pair OK) (handle_ops hnd (ops @ ops') h)"
  using Iterate_ops [OF assms, of hnd 0 h] by (simp only: fold_add_op_Clear WB_Append_bytes)

theorem batch_iteration_witness:
  "WriteBatch_Iterate \<lparr>h_Put = \<lambda>key val h. Some (h @ [(key, val)]), h_Delete = \<lambda>key h. Some (h @ [(key, [])])\<rparr>
     (WB_Append (fold add_op [PutOp [1] [2], DeleteOp [3]] WriteBatch_Clear) (fold add_op [PutOp [4] [5]] WriteBatch_Clear)) []
   = Some (OK, [([1], [2]), ([3], []), ([4], [5])])"
  by (subst batch_iteration) simp_all

section \<open>The database\<close>

text \<open>
  C1. Recovery of the database, for one log and its memtable, in which every write has succeeded. Writers join the queue, the front of the queue writes for groups of
  them, and other threads run in between, in any order.
  If the system stops with any prefix of the log on the disk, recovery succeeds and gives back exactly the operations of the
  first \<open>k\<close> groups, for the largest \<open>k\<close> whose records are complete in the prefix: no group is recovered in part, none before it is
  lost. The tables it writes answer every lookup like the list of their operations, and the
  sequence number continues after the last one.
\<close>

theorem db_recovery:
  fixes px :: "'w posix" and py :: "'v posix" and env :: "'w wstate db_env" and renv :: "('e, 'f) rec_env"
  assumes os: "writes_ok px disk" "syncs_ok px disk" "padding_ok (PosixWritableFile_Append px)" "read_ok py fd' rest" "crc_ok e"
    and db: "posix_db px e env" "new_db e (new_PosixWritableFile filename fd, w) seq db0" "disk w = []"
    and run: "db_run env db0 q db gs" "ops_bounded seq (groups_ops gs)"
    and re: "re_icmp renv = Internal_Compare Slice_compare" "level0_ok renv tables" "\<not> re_reuse_logs renv" "tables edit = []"
    and cut: "rest v = take n (disk (snd (lw_dest (db_log db))))"
  shows "\<exists>k segs st. RecoverLogFile renv e (PosixSequentialFile_Read py fd' filename') skip last_log save m edit (Inr v) = Some (st, None)
    \<and> rs_status st = OK \<and> concat segs = mem_ops (seq + 1) (groups_ops (take k gs)) \<and> length (tables (rs_edit st)) = length segs
    \<and> (\<forall>i < length segs. \<forall>user s. s \<le> kMaxSequenceNumber \<longrightarrow> length user + 8 < 2 ^ 32 \<longrightarrow>
        MemTable_Get Slice_compare (Internal_Compare Slice_compare) (new_LookupKey user s) (tables (rs_edit st) ! i) = Some (mem_lookup (segs ! i) user s))
    \<and> rs_max_sequence st = (if k = 0 then m else max m (seq + of_nat (length (groups_ops (take k gs)))))
    \<and> k \<le> length gs \<and> length (log_bytes (group_records seq (take k gs))) \<le> n
    \<and> (k < length gs \<longrightarrow> n < length (log_bytes (group_records seq (take (Suc k) gs))))"
proof -
  have inv: "posix_sync.db_inv disk e seq db gs" by (rule posix_run_inv [OF os(1-3,5) db run])
  then have "wfile_stored disk (lw_dest (db_log db)) = log_bytes (group_records seq gs)" unfolding posix_sync.db_inv_def by simp
  then have disk: "disk (snd (lw_dest (db_log db))) = log_bytes (group_records seq gs)" by (simp add: wfile_stored_def split: prod.splits)
  let ?r = "new_Reader v True True 0 :: 'v log_reader"
  have "posix_sequential.reader_at rest kBlockSize ?r" "posix_sequential.unread rest ?r = take n (log_from kBlockSize (group_records seq gs))"
    using cut by (simp_all add: posix_sequential.reader_start disk log_from_start)
  from posix_sequential.reads_cut [OF os(4,5) this, where filename = filename' and skip = skip] obtain k where
    k: "reads e (PosixSequentialFile_Read py fd' filename') skip (group_records seq (take k gs)) ?r" "k \<le> length gs"
      "length (log_bytes (group_records seq (take k gs))) \<le> n"
      "k < length gs \<longrightarrow> n < length (log_bytes (group_records seq (take (Suc k) gs)))"
    by (auto simp: log_from_start group_records_take)
  have "groups_ops gs = groups_ops (take k gs) @ groups_ops (drop k gs)" by (metis append_take_drop_id concat_append map_append)
  with run(2) ops_bounded_append have bnd: "ops_bounded seq (groups_ops (take k gs))" by metis
  from RecoverLogFile_groups [OF re(2,1,3,4) k(1) bnd] obtain st segs where
    st: "RecoverLogFile renv e (PosixSequentialFile_Read py fd' filename') skip last_log save m edit (Inr v) = Some (st, None)" "rs_status st = OK"
      "list_all2 mem_rep (tables (rs_edit st)) segs" "concat segs = mem_ops (seq + 1) (groups_ops (take k gs))"
      "rs_max_sequence st = (if take k gs = [] then m else max m (seq + of_nat (length (groups_ops (take k gs)))))" by blast
  have "MemTable_Get Slice_compare (Internal_Compare Slice_compare) (new_LookupKey user s) (tables (rs_edit st) ! i) = Some (mem_lookup (segs ! i) user s)"
    if "i < length segs" "s \<le> kMaxSequenceNumber" "length user + 8 < 2 ^ 32" for i user s
    using MemTable_Get_rep [OF list_all2_nthD2 [OF st(3) that(1)] that(2,3)] .
  moreover have "rs_max_sequence st = (if k = 0 then m else max m (seq + of_nat (length (groups_ops (take k gs)))))"
    using st(5) k(2) by (cases gs) auto
  ultimately show ?thesis using st(1-4) k(2-4) list_all2_lengthD [OF st(3)] by blast
qed

theorem db_recovery_witness:
  "\<exists>gs. (\<exists>q db. db_run sample_db_env sample_db q db gs) \<and> gs \<noteq> []
    \<and> (\<exists>k segs st v. RecoverLogFile sample_rec_env sample_crc (PosixSequentialFile_Read sample_sync_posix 4 ''000003.log'')
        (PosixSequentialFile_Skip sample_sync_posix 4 ''000003.log'') True False 0 [] (Inr v) = Some (st, None)
    \<and> rs_status st = OK \<and> concat segs = mem_ops (6 + 1) (groups_ops (take k gs)) \<and> length (rs_edit st) = length segs \<and> k \<le> length gs)"
proof -
  from sample_run obtain q db g where run: "db_run sample_db_env sample_db q db [g]" "g @ q = sample_clients" by blast
  have "ops_bounded 6 (group_ops (g @ q))" unfolding run(2) by (simp add: ops_bounded_def client_ops_def)
  then have "ops_bounded 6 (groups_ops [g])" using ops_bounded_append by fastforce
  from db_recovery [OF sample_db_ok(1,2,7,3,4,8,9) _ run(1) this _ sample_db_ok(10), where fd' = 4 and v = "take 30 (snd (lw_dest (db_log db)))" and n = 30
    and filename' = "''000003.log''" and skip = "PosixSequentialFile_Skip sample_sync_posix 4 ''000003.log''" and edit = "[]" and m = 0 and last_log = True and save = False]
  obtain k segs st where "RecoverLogFile sample_rec_env sample_crc (PosixSequentialFile_Read sample_sync_posix 4 ''000003.log'')
      (PosixSequentialFile_Skip sample_sync_posix 4 ''000003.log'') True False 0 [] (Inr (take 30 (snd (lw_dest (db_log db))))) = Some (st, None)"
    "rs_status st = OK" "concat segs = mem_ops (6 + 1) (groups_ops (take k [g]))" "length (rs_edit st) = length segs" "k \<le> length [g]"
    by (auto simp: sample_rec_env_def)
  with run(1) show ?thesis by blast
qed

text \<open>
  C8. Reads see the writes. In every state of a run of one log and memtable, with or without a full memtable that waits for its compaction, \<open>Get\<close>
  answers from the operations of that memtable, which are older, and those of all writers that have been served, in the order of their groups: with
  the newest one on the key that the snapshot sees (all of them, without a snapshot), and only if neither memtable has one does it look in the tables.
\<close>

theorem db_get_after_writes:
  fixes px :: "'w posix" and env :: "'w wstate db_env"
  assumes os: "writes_ok px disk" "syncs_ok px disk" "padding_ok (PosixWritableFile_Append px)" "crc_ok e"
    and db: "posix_db px e env" "new_db e (new_PosixWritableFile filename fd, w) seq db0" "disk w = []"
    and run: "db_run env db0 q db gs" "ops_bounded seq (groups_ops gs)"
    and imm: "case db_imm db of None \<Rightarrow> old = [] | Some imm \<Rightarrow> mem_rep imm old" and key: "length user + 8 < 2 ^ 32"
    and s: "s = (case snapshot of None \<Rightarrow> db_last_sequence db | Some s \<Rightarrow> s)" "s \<le> kMaxSequenceNumber"
  shows "DBImpl_Get Slice_compare (Internal_Compare Slice_compare) version_get snapshot user db =
    Some (case mem_lookup (old @ mem_ops (seq + 1) (groups_ops gs)) user s of Missing \<Rightarrow> version_get (new_LookupKey user s) | r \<Rightarrow> r)"
proof -
  have "posix_sync.db_inv disk e seq db gs" by (rule posix_run_inv [OF os db run])
  then have "mem_rep (db_mem db) (mem_ops (seq + 1) (groups_ops gs))" unfolding posix_sync.db_inv_def by simp
  note mem = MemTable_Get_rep [OF this s(2) key]
  show ?thesis
  proof (cases "db_imm db")
    case None
    then show ?thesis using mem imm s(1) by (simp add: DBImpl_Get_def Let_def split: mem_get.splits)
  next
    case (Some m)
    with imm have "mem_rep m old" by simp
    note MemTable_Get_rep [OF this s(2) key]
    then show ?thesis using mem Some s(1) by (simp add: DBImpl_Get_def Let_def mem_lookup_append split: mem_get.splits)
  qed
qed

theorem db_get_after_writes_witness:
  "\<exists>q db gs imm. db_run sample_db_env sample_db q db gs \<and> db_imm db = Some imm
    \<and> MemTable_Add (Internal_Compare Slice_compare) 5 kTypeValue [1] [8] new_MemTable = Some imm
    \<and> DBImpl_Get Slice_compare (Internal_Compare Slice_compare) (\<lambda>_. Missing) (Some 7) [1] db = Some (Found [2])
    \<and> DBImpl_Get Slice_compare (Internal_Compare Slice_compare) (\<lambda>_. Missing) (Some 6) [1] db = Some (Found [8])"
proof -
  let ?old = "\<lparr>op_seq = 5, op_type = kTypeValue, op_key = [1], op_value = [8]\<rparr>"
  have "op_ok ?old" by (simp add: op_ok_def kMaxSequenceNumber_def)
  from mem_rep_Add [OF mem_rep_new this] obtain imm where
    imm: "MemTable_Add (Internal_Compare Slice_compare) 5 kTypeValue [1] [8] new_MemTable = Some imm" "mem_rep imm [?old]" by auto
  from sample_run obtain q db0 g where run0: "db_run sample_db_env sample_db q db0 [g]" "g @ q = sample_clients" "g \<noteq> []" by blast
  define db where "db = db0\<lparr>db_imm := Some imm\<rparr>"
  have run: "db_run sample_db_env sample_db q db [g]" "g @ q = sample_clients" "g \<noteq> []" "db_imm db = Some imm"
    using db_run.background [OF run0(1), of db] run0(2,3) by (simp_all add: db_def keeps_def)
  have "ops_bounded 6 (group_ops (g @ q))" unfolding run(2) by (simp add: ops_bounded_def client_ops_def)
  then have b: "ops_bounded 6 (groups_ops [g])" using ops_bounded_append by fastforce
  have "g = [(Some [PutOp [1] [2]], True)] \<or> g = sample_clients" using run(2,3) by (cases g) (auto simp: append_eq_Cons_conv)
  then have m: "mem_lookup (?old # mem_ops (6 + 1) (groups_ops [g])) [1] 7 = Found [2]" "mem_lookup (?old # mem_ops (6 + 1) (groups_ops [g])) [1] 6 = Found [8]"
    by (auto simp: client_ops_def mem_lookup_def)
  have im: "case db_imm db of None \<Rightarrow> [?old] = [] | Some imm \<Rightarrow> mem_rep imm [?old]" using run(4) imm(2) by simp
  note get = db_get_after_writes [OF sample_db_ok(1,2,7,4,8,9) _ run(1) b im]
  have "DBImpl_Get Slice_compare (Internal_Compare Slice_compare) (\<lambda>_. Missing) (Some 7) [1] db = Some (Found [2])"
    using get [of "[1]" 7 "Some 7" "\<lambda>_. Missing"] m(1) by (simp add: kMaxSequenceNumber_def)
  moreover have "DBImpl_Get Slice_compare (Internal_Compare Slice_compare) (\<lambda>_. Missing) (Some 6) [1] db = Some (Found [8])"
    using get [of "[1]" 6 "Some 6" "\<lambda>_. Missing"] m(2) by (simp add: kMaxSequenceNumber_def)
  ultimately show ?thesis using run(1,4) imm(1) by blast
qed

text \<open>
  C9. Writes return. If the system calls make progress and succeed, the write of the front of the queue returns with a good status
  after every run, as long as there is room in the memtable and no background error: it serves at least its own writer, and never one that is not in the
  queue.
\<close>

theorem db_write_returns:
  fixes px :: "'w posix" and env :: "'w wstate db_env"
  assumes os: "writes_ok px disk" "syncs_ok px disk" "padding_ok (PosixWritableFile_Append px)" "crc_ok e" "progress px" "syncs px"
    and db: "posix_db px e env" "new_db e (new_PosixWritableFile filename fd, w) seq db0" "disk w = []"
    and run: "db_run env db0 ((Some ops, sync) # q) db gs" "ops_bounded seq (groups_ops gs @ group_ops ((Some ops, sync) # q))"
    and room: "dbe_usage env (db_mem db) \<le> dbe_write_buffer_size env" "db_bg_error db = OK"
      "\<forall>db. db_bg_error db = OK \<longrightarrow> db_bg_error (dbe_wait env db) = OK"
  shows "\<exists>n db'. DBImpl_Write env (client_writer (Some ops, sync)) (map client_writer q) db = Some (OK, n, db') \<and> 1 \<le> n \<and> n \<le> Suc (length q)"
proof -
  note b = ops_bounded_append [OF run(2)]
  have "posix_sync.db_inv disk e seq db gs" by (rule posix_run_inv [OF os(1-4) db run(1) b [THEN conjunct1]])
  then have inv: "mem_rep (db_mem db) (mem_ops (seq + 1) (groups_ops gs))" "db_last_sequence db = seq + of_nat (length (groups_ops gs))"
    "db_tmp_batch db = WriteBatch_Clear" unfolding posix_sync.db_inv_def by simp_all
  have old: "\<forall>e \<in> set (mem_ops (seq + 1) (groups_ops gs)). unat (op_seq e) \<le> unat (db_last_sequence db)"
    using mem_ops_old b inv(2) by (simp add: ops_bounded_def)
  show ?thesis
    using posix_progress [OF os(5)] sync_progress [OF os(5,6)] db(1) b room
    by (intro Write_returns [OF _ _ _ _ _ _ _ _ inv(1) old inv(3)]) (simp_all add: posix_db_def inv(2))
qed

theorem db_write_returns_witness:
  "\<exists>n db'. DBImpl_Write sample_db_env (client_writer (Some [PutOp [1] [2]], True)) (map client_writer [(Some [DeleteOp [3]], False)]) sample_db
    = Some (OK, n, db') \<and> 1 \<le> n \<and> n \<le> Suc (length [(Some [DeleteOp [3]], False)])"
proof -
  have "db_run sample_db_env sample_db ([] @ [(Some [PutOp [1] [2]], True)] @ [(Some [DeleteOp [3]], False)]) sample_db []"
    unfolding append_assoc [symmetric] by (intro db_run.arrive db_run.start)
  then have run: "db_run sample_db_env sample_db ((Some [PutOp [1] [2]], True) # [(Some [DeleteOp [3]], False)]) sample_db []" by simp
  have b: "ops_bounded 6 (groups_ops [] @ group_ops sample_clients)" by (simp add: ops_bounded_def client_ops_def)
  show ?thesis
    by (rule db_write_returns [OF sample_db_ok(1,2,7,4,5,6,8,9) _ run b sample_db_room]) simp
qed

text \<open>
  C10. Group commit. The batch that \<open>BuildBatchGroup\<close> builds for the writers in the queue has the operations of the first of them, in
  order, each batch as a whole; a writer that asks for a synchronised write is never served by one that does not; and unless it has only the
  operations of the first writer, the batch stays below the limit, which is low if the first batch is small.
\<close>

theorem group_commit:
  assumes "BuildBatchGroup WriteBatch_Clear (client_writer (Some ops, sync)) (fold add_op ops WriteBatch_Clear) (map client_writer cs) = (updates, is_tmp, n)"
  shows "1 \<le> n \<and> n \<le> Suc (length cs) \<and> updates = fold add_op (group_ops (take n ((Some ops, sync) # cs))) WriteBatch_Clear
    \<and> (\<forall>c \<in> set (take n ((Some ops, sync) # cs)). snd c \<longrightarrow> sync)
    \<and> (group_ops (take (n - 1) cs) = [] \<or> ApproximateSize updates \<le> group_max_size (ApproximateSize (fold add_op ops WriteBatch_Clear)))"
  using BuildBatchGroup_clients [OF assms [unfolded fold_add_op_Clear]] unfolding fold_add_op_Clear ApproximateSize_def by auto

theorem group_commit_witness:
  "batch_bytes 0 [PutOp [1] [2], DeleteOp [3]] = fold add_op (group_ops (take 3 [(Some [PutOp [1] [2]], False), (None, False), (Some [DeleteOp [3]], False),
     (Some [DeleteOp [4]], True)])) WriteBatch_Clear"
proof -
  have l: "length (PutVarint32 [] v) \<le> 5" for v using length_EncodeVarint(1) [of v] by (simp add: PutVarint32_def)
  have "length (batch_bytes 0 [PutOp [1] [2]]) \<le> 131072" "length (batch_bytes 0 [DeleteOp [3]]) \<le> 131072"
    using l [of 1] by (simp_all add: batch_bytes_def PutLengthPrefixedSlice_def)
  then have "BuildBatchGroup WriteBatch_Clear (client_writer (Some [PutOp [1] [2]], False)) (fold add_op [PutOp [1] [2]] WriteBatch_Clear)
      (map client_writer [(None, False), (Some [DeleteOp [3]], False), (Some [DeleteOp [4]], True)]) =
    (batch_bytes 0 [PutOp [1] [2], DeleteOp [3]], True, 3)"
    unfolding fold_add_op_Clear by (simp add: BuildBatchGroup_def group_max_size_def not_less) (simp add: WriteBatch_Clear_bytes WB_Append_bytes Let_def)
  from group_commit [OF this] show ?thesis by simp
qed

section \<open>Blocks of tables\<close>

text \<open>
  C14. A block that was built from sorted entries opens, and its iterator answers as the list of entries would: \<open>Seek\<close> stops at the first entry
  whose key is not below the target, or is not valid if there is none, \<open>SeekToFirst\<close> and \<open>Next\<close> go through all entries and stop after the last,
  and \<open>SeekToLast\<close> and \<open>Prev\<close> go through them backwards. No restart interval or prefix compression shows, and no corruption is reported.
\<close>

theorem block_iterator_correct:
  fixes kvs :: "(byte list \<times> byte list) list"
  defines "compare \<equiv> Internal_Compare Slice_compare"
  assumes "0 < block_restart_interval" "length (block_contents block_restart_interval kvs) < 2 ^ 32"
    and "sorted_wrt (\<lambda>x y. compare (fst x) (fst y) < 0) kvs" "\<forall>x \<in> set kvs. 8 \<le> length (fst x)" "8 \<le> length target"
  shows "\<exists>it. Block_NewIterator (new_Block (block_contents block_restart_interval kvs)) = BlockIterator it
    \<and> block_entry (BlockIter_Seek compare target it) = find (\<lambda>x. \<not> compare (fst x) target < 0) kvs
    \<and> bi_status (BlockIter_Seek compare target it) = OK
    \<and> map (\<lambda>j. block_entry ((BlockIter_Next ^^ j) (BlockIter_SeekToFirst it))) [0..<Suc (length kvs)] = map Some kvs @ [None]
    \<and> map (\<lambda>j. block_entry ((BlockIter_Prev ^^ j) (BlockIter_SeekToLast it))) [0..<length kvs] = map Some (rev kvs)"
proof -
  note k = assms(2,3)
  note order = internal_bytewise.key_order_axioms [folded compare_def]
  have sorted: "key_order.sorted_kvs compare (\<lambda>x. 8 \<le> length x \<and> True) kvs" using assms(4,5) unfolding key_order.sorted_kvs_def [OF order] by simp
  from open_block [OF k] obtain it where it: "Block_NewIterator (new_Block (block_contents block_restart_interval kvs)) = BlockIterator it" "on_block block_restart_interval kvs it" by blast
  define b where "b = key_order.below compare target kvs"
  have seek: "if b < length kvs then block_at block_restart_interval kvs b (BlockIter_Seek compare target it) else block_end block_restart_interval kvs (BlockIter_Seek compare target it)"
    using block_seek [OF order sorted _ k it(2), of target] assms(6) by (simp add: b_def)
  have find: "find (\<lambda>x. \<not> compare (fst x) target < 0) kvs = (if b < length kvs then Some (kvs ! b) else None)"
    unfolding b_def key_order.below_def [OF order] find_takeWhile by (rule HOL.refl)
  have "block_entry (BlockIter_Seek compare target it) = find (\<lambda>x. \<not> compare (fst x) target < 0) kvs \<and> bi_status (BlockIter_Seek compare target it) = OK"
    using seek block_at_entry [OF k(1)] block_end_entry unfolding find by (cases "b < length kvs") simp_all
  moreover have "map (\<lambda>j. block_entry ((BlockIter_Next ^^ j) (BlockIter_SeekToFirst it))) [0..<Suc (length kvs)] = map Some kvs @ [None]"
  proof -
    have "map (\<lambda>j. block_entry ((BlockIter_Next ^^ j) (BlockIter_SeekToFirst it))) [0..<length kvs] = map Some kvs"
      by (rule nth_equalityI) (simp_all add: block_at_entry [OF k(1) block_forward(1) [OF k it(2)]])
    then show ?thesis by (simp add: block_end_entry [OF block_forward(2) [OF k it(2)]])
  qed
  moreover have "map (\<lambda>j. block_entry ((BlockIter_Prev ^^ j) (BlockIter_SeekToLast it))) [0..<length kvs] = map Some (rev kvs)"
    by (rule nth_equalityI) (simp_all add: block_at_entry [OF k(1) block_backward [OF k it(2)]] rev_nth)
  ultimately show ?thesis using it(1) by blast
qed

theorem block_iterator_correct_witness:
  "\<exists>it. Block_NewIterator (new_Block (block_contents 2 [([7] @ replicate 8 1, [1]), ([7, 2] @ replicate 8 1, [2]), ([8] @ replicate 8 1, [3])])) = BlockIterator it
    \<and> block_entry (BlockIter_Seek (Internal_Compare Slice_compare) ([7, 1] @ replicate 8 1) it) = Some ([7, 2] @ replicate 8 1, [2])"
proof -
  let ?kvs = "[([7] @ replicate 8 1, [1]), ([7, 2] @ replicate 8 1, [2]), ([8] @ replicate 8 1, [3])] :: kv list"
  let ?cmp = "Internal_Compare Slice_compare"
  have size: "length (block_contents 2 ?kvs) < 2 ^ 32" using block_size [of 2 ?kvs] by simp
  have lt: "?cmp ([7] @ replicate 8 1) ([7, 2] @ replicate 8 1) < 0" "?cmp ([7] @ replicate 8 1) ([8] @ replicate 8 1) < 0"
    "?cmp ([7, 2] @ replicate 8 1) ([8] @ replicate 8 1) < 0" "?cmp ([7] @ replicate 8 1) ([7, 1] @ replicate 8 1) < 0"
    "\<not> ?cmp ([7, 2] @ replicate 8 1) ([7, 1] @ replicate 8 1) < 0" by code_simp+
  have sorted: "sorted_wrt (\<lambda>x y. ?cmp (fst x) (fst y) < 0) ?kvs" using lt(1-3) by simp
  have len: "\<forall>x \<in> set ?kvs. 8 \<le> length (fst x)" "8 \<le> length ([7, 1 :: byte] @ replicate 8 1)" by simp_all
  have "find (\<lambda>x. \<not> ?cmp (fst x) ([7, 1] @ replicate 8 1) < 0) ?kvs = Some ([7, 2] @ replicate 8 1, [2])"
    using lt(4,5) by simp
  with block_iterator_correct [OF _ size sorted len] show ?thesis by auto
qed


section \<open>Tables\<close>

text \<open>
  C4. Tables hold their operations. A table is built from the entries of operations in the order of their internal keys, with any block size, restart
  interval, compression and filter; \<open>Finish\<close> and \<open>Sync\<close> return good statuses. Then the file on the disk opens, and every sequence of lookups, with
  any cache and any read options, finds for each key and snapshot exactly what a memtable with the same operations answers: the value of the
  newest operation that the snapshot sees, a deletion, or nothing.
\<close>

theorem table_holds_operations:
  fixes px :: "'w posix" and py :: "'v posix" and cache :: "'c block_cache option"
  assumes opts: "opts = SanitizeOptions (bytewise_options bits block_size k compression paranoid)" "0 < k"
    and os: "writes_ok px disk" "syncs_ok px disk" "crc_ok e" and cache: "cache_ok holds cache"
    and es: "\<forall>e \<in> set es. op_ok e" "sorted_wrt (<) (map op_seq es)" "set kvs = op_kv ` set es"
      "sorted_wrt (\<lambda>x y. Internal_Compare Slice_compare (fst x) (fst y) < 0) kvs"
    and build: "disk w = []" "add_entries e (PosixWritableFile_Append px) (PosixWritableFile_Flush px) opts kvs
        (new_TableBuilder opts (new_PosixWritableFile filename fd, w)) = Some r"
      "TableBuilder_Finish e (PosixWritableFile_Append px) (PosixWritableFile_Flush px) opts r = Some (OK, r')"
      "PosixWritableFile_Sync px (tb_file r') = Some (OK, (f, w'))" "length (disk w') < 2 ^ 32"
  shows "\<exists>t c'. Table_Open e (mmap_read py filename (disk w')) opts cache (TableBuilder_FileSize r') c = (Inr t, c')
    \<and> (\<forall>ro qs. (\<forall>q \<in> set qs. snd q \<le> kMaxSequenceNumber) \<longrightarrow>
        table_gets e (mmap_read py filename (disk w')) opts cache ro t qs c' = map (\<lambda>(user, s). (OK, saved (mem_lookup es user s))) qs)"
proof -
  have k: "0 < to_block_restart_interval opts" using opts by (simp add: SanitizeOptions_def bytewise_options_def)
  have "wfile_contents disk (new_PosixWritableFile filename fd, w) = []" using build(1) by (simp add: wfile_contents_def new_PosixWritableFile_def)
  from posix_file.build_table [OF os(1) k this build(2,3)] obtain bss where bss: "concat bss = kvs" "[] \<notin> set bss"
    "wfile_contents disk (tb_file r') = table_bytes e opts bss" "TableBuilder_FileSize r' = of_nat (length (table_bytes e opts bss))" by blast
  from posix_sync.sync_OK [OF conjI [OF os(1,2)] build(4)] bss(3) have d: "disk w' = table_bytes e opts bss" by (simp add: wfile_stored_def)
  have sz: "length (disk w') < 2 ^ 63" using build(5) by simp
  from mmap_file.Table_Open_OK [OF sz os(3) k d build(5), of py filename cache c] obtain t c' where
    t: "Table_Open e (mmap_read py filename (disk w')) opts cache (TableBuilder_FileSize r') c = (Inr t, c')"
      "case cache of None \<Rightarrow> c' = c | Some bc \<Rightarrow> bc_new_id bc c = (tbl_cache_id t, c')"
      "tbl_index_block t = new_Block (index_contents e opts bss)"
      "tbl_filter t = (if to_filter_policy opts = None then None else Some (new_FilterBlockReader (filter_contents e opts bss)))"
    unfolding bss(4) d by blast
  note agrees = cache_agrees_new [OF cache t(2)]
  note gets = table_gets_OK [OF opts(1) mmap_file.random_file_axioms sz os(3) opts(2) d build(5) cache es(1,2) _ bss(2) _ t(3,4) agrees, unfolded bss(1), OF es(3,4)]
  show ?thesis using t(1) gets by blast
qed

text \<open>A table with one operation, and a cache that never keeps anything.\<close>

definition sample_op :: mem_op where
  "sample_op = \<lparr>op_seq = 7, op_type = kTypeValue, op_key = [1], op_value = [2, 3]\<rparr>"

definition sample_table_opts :: table_options where
  "sample_table_opts = SanitizeOptions (bytewise_options None 4096 16 kSnappyCompression True)"

definition sample_cache :: "nat block_cache" where
  "sample_cache = \<lparr>bc_new_id = \<lambda>n. (of_nat n, Suc n), bc_lookup = \<lambda>_ n. (None, n), bc_insert = \<lambda>_ _ _ n. n\<rparr>"

lemma sample_table_size:
  "length (table_bytes sample_crc sample_table_opts [[op_kv sample_op]]) < 2 ^ 32"
proof -
  let ?bss = "[[op_kv sample_op]]"
  have "length (block_contents 16 (hd ?bss)) < 1000" by code_simp
  moreover have "length (index_contents sample_crc sample_table_opts ?bss) < 1000" by code_simp
  moreover have "length (meta_contents sample_crc sample_table_opts ?bss) < 1000" by code_simp
  moreover have "to_block_restart_interval sample_table_opts = 16" "to_filter_policy sample_table_opts = None"
    by (simp_all add: sample_table_opts_def SanitizeOptions_def bytewise_options_def)
  ultimately show ?thesis by (simp add: table_bytes_def Let_def data_bytes_def filter_part_def Footer_roundtrip)
qed

theorem table_holds_operations_witness:
  "\<exists>r r' f w' t c'.
    add_entries sample_crc (PosixWritableFile_Append sample_sync_posix) (PosixWritableFile_Flush sample_sync_posix) sample_table_opts [op_kv sample_op]
      (new_TableBuilder sample_table_opts (new_PosixWritableFile ''/000005.ldb'' 3, [])) = Some r
    \<and> TableBuilder_Finish sample_crc (PosixWritableFile_Append sample_sync_posix) (PosixWritableFile_Flush sample_sync_posix) sample_table_opts r = Some (OK, r')
    \<and> PosixWritableFile_Sync sample_sync_posix (tb_file r') = Some (OK, (f, w'))
    \<and> Table_Open sample_crc (mmap_read sample_sync_posix ''/000005.ldb'' w') sample_table_opts (Some sample_cache) (TableBuilder_FileSize r') 4 = (Inr t, c')
    \<and> table_gets sample_crc (mmap_read sample_sync_posix ''/000005.ldb'' w') sample_table_opts (Some sample_cache) \<lparr>ro_verify_checksums = True, ro_fill_cache = True\<rparr>
        t [([1], 6), ([1], 8), ([2], 8)] c' = [(OK, kNotFound, []), (OK, kFound, [2, 3]), (OK, kNotFound, [])]"
proof -
  let ?px = sample_sync_posix and ?opts = sample_table_opts and ?f = "(new_PosixWritableFile ''/000005.ldb'' 3, [])"
  have start: "tb_status (new_TableBuilder ?opts ?f) = OK" by (simp add: new_TableBuilder_def)
  note total = build_total [where app = "PosixWritableFile_Append ?px" and flush = "PosixWritableFile_Flush ?px" and e = sample_crc and opts = ?opts,
      OF posix_progress [OF sample_db_ok(5)]]
  from total(1) [OF start, where kvs = "[op_kv sample_op]"] obtain r where
    r: "add_entries sample_crc (PosixWritableFile_Append ?px) (PosixWritableFile_Flush ?px) ?opts [op_kv sample_op] (new_TableBuilder ?opts ?f) = Some r"
      "tb_status r = OK" by blast
  from total(2) [OF r(2)] obtain r' where
    r': "TableBuilder_Finish sample_crc (PosixWritableFile_Append ?px) (PosixWritableFile_Flush ?px) ?opts r = Some (OK, r')" by blast
  from sync_progress [OF sample_db_ok(5,6)] obtain f w' where s: "PosixWritableFile_Sync ?px (tb_file r') = Some (OK, (f, w'))" by (metis prod.exhaust)
  have k: "0 < to_block_restart_interval ?opts" by (simp add: sample_table_opts_def SanitizeOptions_def bytewise_options_def)
  have "wfile_contents id ?f = []" by (simp add: wfile_contents_def new_PosixWritableFile_def)
  from posix_file.build_table [OF sample_db_ok(1) k this r(1) r'] obtain bss where bss: "concat bss = [op_kv sample_op]" "[] \<notin> set bss"
    "wfile_contents id (tb_file r') = table_bytes sample_crc ?opts bss" by blast
  from bss(1,2) have "bss = [[op_kv sample_op]]" by (cases bss; cases "tl bss") (auto simp: append_eq_Cons_conv)
  with posix_sync.sync_OK [OF conjI [OF sample_db_ok(1,2)] s] bss(3) have size: "length (id w') < 2 ^ 32" using sample_table_size by (simp add: wfile_stored_def)
  have cache: "cache_ok (\<lambda>_ _ _. False) (Some sample_cache)" by (simp add: cache_ok_def cache_sound_def sample_cache_def)
  have ops: "\<forall>e \<in> set [sample_op]. op_ok e" "sorted_wrt (<) (map op_seq [sample_op])" by (simp_all add: op_ok_def sample_op_def kMaxSequenceNumber_def)
  from table_holds_operations [OF sample_table_opts_def _ sample_db_ok(1,2,4) cache ops _ _ _ r(1) r' s size, where c = 4 and py = ?px]
  obtain t c' where t: "Table_Open sample_crc (mmap_read ?px ''/000005.ldb'' w') ?opts (Some sample_cache) (TableBuilder_FileSize r') 4 = (Inr t, c')"
    "\<And>ro qs. \<forall>q \<in> set qs. snd q \<le> kMaxSequenceNumber \<Longrightarrow> table_gets sample_crc (mmap_read ?px ''/000005.ldb'' w') ?opts (Some sample_cache) ro t qs c' =
      map (\<lambda>(user, s). (OK, saved (mem_lookup [sample_op] user s))) qs" by auto
  have "\<forall>q \<in> set [([1] :: byte list, 6 :: u64), ([1], 8), ([2], 8)]. snd q \<le> kMaxSequenceNumber" by (simp add: kMaxSequenceNumber_def)
  note t(2) [OF this, of "\<lparr>ro_verify_checksums = True, ro_fill_cache = True\<rparr>"]
  then show ?thesis using r(1) r' s t(1) by (fastforce simp: mem_lookup_def saved_def sample_op_def)
qed

section \<open>From the memtable to a table\<close>

text \<open>
  C3. A flushed memtable. When \<open>BuildTable\<close> returns a good status and a file that is not empty, the file is the memtable: its size is that of the file, all
  keys lie between the smallest and the largest key of the metadata, and every sequence of lookups through the cache of tables, with any
  read options and whatever the caches keep or drop, gives for each key and snapshot the answer that \<open>Get\<close> of the memtable gives.
\<close>

theorem memtable_flush:
  fixes te :: "('c, 't, 'w) table_env"
  assumes opts: "te_options te = SanitizeOptions (bytewise_options bits block_size k compression paranoid)" "0 < k"
    and os: "writes_ok (fs_posix (te_fs te)) disk" "syncs_ok (fs_posix (te_fs te)) disk" "crc_ok (te_crc te)"
    and fs: "table_file (te_fs te) disk (TableFileName (te_dbname te) number)"
    and caches: "cache_ok holds (te_block_cache te)" "table_cache_ok view (te_cache te)" "view tcs (EncodeFixed64 number) = None"
    and mem: "mem_rep table es"
    and run: "BuildTable te table (new_FileMetaData number) (c, tcs, w) = Some (OK, meta, (c', tcs', w'))" "0 < fm_file_size meta" "length (disk w') < 2 ^ 32"
  shows "fm_number meta = number \<and> fm_file_size meta = of_nat (length (disk w'))
    \<and> (\<forall>e \<in> set es. Internal_Compare Slice_compare (fm_smallest meta) (op_ikey e) \<le> 0 \<and> Internal_Compare Slice_compare (op_ikey e) (fm_largest meta) \<le> 0)
    \<and> (\<forall>ro qs. (\<forall>(user, s) \<in> set qs. s \<le> kMaxSequenceNumber \<and> length user + 8 < 2 ^ 32) \<longrightarrow>
        map Some (table_cache_gets te ro number (fm_file_size meta) qs (c', tcs', w')) =
        map (\<lambda>(user, s). map_option (\<lambda>g. (OK, saved g)) (MemTable_Get Slice_compare (Internal_Compare Slice_compare) (new_LookupKey user s) table)) qs)"
proof -
  obtain L where L: "sl_inv mem_compare mem_valid table L" "set (sl_keys table L) = op_entry ` set es"
    and es: "\<forall>e \<in> set es. op_ok e" "sorted_wrt (<) (map op_seq es)" using mem by (auto simp: mem_rep_def)
  have k: "0 < to_block_restart_interval (te_options te)" using opts by (simp add: SanitizeOptions_def bytewise_options_def)
  have num: "fm_number (new_FileMetaData number) = number" by (simp add: new_FileMetaData_def)
  from BuildTable_OK [OF k os, of "new_FileMetaData number", unfolded num, OF fs caches L(1) run] obtain bss v vs where b: "L 0 = v # vs"
    "concat bss = map (mem_kv table) (L 0)" "[] \<notin> set bss" "table_at te disk holds view number bss (c', tcs', w')"
    "meta = (new_FileMetaData number)\<lparr>fm_file_size := of_nat (length (disk w')), fm_smallest := MemIter_key table v, fm_largest := MemIter_key table (last (v # vs))\<rparr>" .
  note kvs = mem_kvs [OF mem L]
  have bytes: "disk w' = table_bytes (te_crc te) (te_options te) bss" using b(4) by (simp add: table_at_def)
  have range: "Internal_Compare Slice_compare (fm_smallest meta) (op_ikey e) \<le> 0 \<and> Internal_Compare Slice_compare (op_ikey e) (fm_largest meta) \<le> 0" if "e \<in> set es" for e
  proof -
    have "op_kv e \<in> set (map (mem_kv table) (L 0))" using kvs(1) that by simp
    then obtain x where x: "x \<in> set (v # vs)" "op_ikey e = MemIter_key table x" by (auto simp: b(1) op_kv_def mem_kv_def)
    have sorted: "sorted_wrt (\<lambda>x y. Internal_Compare Slice_compare (MemIter_key table x) (MemIter_key table y) < 0) (v # vs)"
      using kvs(2) by (simp add: b(1) sorted_wrt_map mem_kv_def)
    then have "x = v \<or> Internal_Compare Slice_compare (MemIter_key table v) (MemIter_key table x) < 0" using x(1) by auto
    moreover have "x = last (v # vs) \<or> Internal_Compare Slice_compare (MemIter_key table x) (MemIter_key table (last (v # vs))) < 0"
      using sorted x(1) by (cases "v # vs" rule: rev_cases) (auto simp: sorted_wrt_append)
    moreover have "Internal_Compare Slice_compare a a = 0" for a by (simp add: Internal_Compare_def)
    ultimately show ?thesis unfolding b(5) x(2) by (auto simp del: last.simps)
  qed
  have gets: "map Some (table_cache_gets te ro number (fm_file_size meta) qs (c', tcs', w')) =
      map (\<lambda>(user, s). map_option (\<lambda>g. (OK, saved g)) (MemTable_Get Slice_compare (Internal_Compare Slice_compare) (new_LookupKey user s) table)) qs"
    if q: "\<forall>(user, s) \<in> set qs. s \<le> kMaxSequenceNumber \<and> length user + 8 < 2 ^ 32" for ro qs
  proof -
    have "table_cache_gets te ro number (of_nat (length (table_bytes (te_crc te) (te_options te) bss))) qs (c', tcs', w') =
        map (\<lambda>(user, s). (OK, saved (mem_lookup es user s))) qs"
      using q by (intro table_cache_gets_OK [OF opts fs os(2,3) caches(1,2) run(3) [unfolded bytes] b(4) es kvs(1) [folded b(2)] b(3) kvs(2) [folded b(2)]]) auto
    moreover have "MemTable_Get Slice_compare (Internal_Compare Slice_compare) (new_LookupKey user s) table = Some (mem_lookup es user s)" if "(user, s) \<in> set qs" for user s
      using MemTable_Get_rep [OF mem] q that by auto
    ultimately show ?thesis using b(5) by (auto simp: bytes)
  qed
  show ?thesis using range gets b(5) by (simp add: num)
qed

text \<open>A file system with one file, and a cache of tables that keeps everything.\<close>

definition sample_fs :: "byte list posix_fs" where
  "sample_fs = \<lparr>fs_posix = sample_sync_posix, fs_create = (\<lambda>nm w. (Inr 3, [])), fs_stat_size = (\<lambda>nm w. (Inr (of_nat (length w)), w)),
     fs_mmap = (\<lambda>fd n w. (Inr w, w)), fs_unlink = (\<lambda>nm w. (None, [])), fs_mmap_acquire = (\<lambda>w. (True, w)), fs_mmap_release = id,
     fs_pread_file = (\<lambda>nm fd w. (\<lambda>offset n. (OK, take (unat n) (drop (unat offset) w), False), w)),
     fs_delete_random = (\<lambda>_ w. w)\<rparr>"

definition sample_table_env :: "(nat, byte list \<rightharpoonup> random_read \<times> table, byte list) table_env" where
  "sample_table_env = \<lparr>te_crc = sample_crc, te_fs = sample_fs, te_dbname = ''/db'', te_options = sample_table_opts, te_block_cache = Some sample_cache,
     te_cache = \<lparr>tc_lookup = \<lambda>key m. (m key, m), tc_insert = \<lambda>key x m. m(key \<mapsto> x), tc_erase = \<lambda>key m. m(key := None)\<rparr>\<rparr>"

lemma sample_table_env_ok:
  "writes_ok (fs_posix (te_fs sample_table_env)) id" "syncs_ok (fs_posix (te_fs sample_table_env)) id" "crc_ok (te_crc sample_table_env)"
  "table_file (te_fs sample_table_env) id fname" "cache_ok (\<lambda>_ _ _. False) (te_block_cache sample_table_env)" "table_cache_ok id (te_cache sample_table_env)"
  "progress (fs_posix (te_fs sample_table_env))" "syncs (fs_posix (te_fs sample_table_env))" "creates (te_fs sample_table_env)"
  "te_options sample_table_env = SanitizeOptions (bytewise_options None 4096 16 kSnappyCompression True)"
  using sample_db_ok(1,2,4-6)
  by (simp_all add: sample_table_env_def sample_fs_def table_file_def random_file_def cache_ok_def cache_sound_def sample_cache_def table_cache_ok_def
      creates_def sample_sync_posix_def sample_posix_def sample_table_opts_def) (intro impI exI [of _ False], simp)

lemma sample_memtable:
  obtains table where "MemTable_Add (Internal_Compare Slice_compare) 7 kTypeValue [1] [2, 3] new_MemTable = Some table" "mem_rep table [sample_op]"
proof -
  have "op_ok sample_op" by (simp add: op_ok_def sample_op_def kMaxSequenceNumber_def)
  from mem_rep_Add [OF mem_rep_new this] that show thesis by (auto simp: sample_op_def)
qed

text \<open>
  C5. Flushing a memtable returns. If all calls of the system succeed and make progress, \<open>BuildTable\<close> of a memtable that is not empty returns; if
  the table with the entries of the memtable, in the blocks that the builder has chosen, has less than \<open>2 ^ 32\<close> bytes, then its status is good and these bytes are on the disk.
\<close>

theorem build_table_returns:
  fixes te :: "('c, 't, 'w) table_env"
  assumes opts: "te_options te = SanitizeOptions (bytewise_options bits block_size k compression paranoid)" "0 < k"
    and os: "writes_ok (fs_posix (te_fs te)) disk" "syncs_ok (fs_posix (te_fs te)) disk" "crc_ok (te_crc te)"
    and fs: "table_file (te_fs te) disk (TableFileName (te_dbname te) number)"
    and caches: "cache_ok holds (te_block_cache te)" "table_cache_ok view (te_cache te)" "view tcs (EncodeFixed64 number) = None"
    and mem: "mem_rep table es" "es \<noteq> []"
    and works: "progress (fs_posix (te_fs te))" "syncs (fs_posix (te_fs te))" "creates (te_fs te)"
  shows "\<exists>s meta c' tcs' w' bss. BuildTable te table (new_FileMetaData number) (c, tcs, w) = Some (s, meta, (c', tcs', w'))
    \<and> set (concat bss) = op_kv ` set es \<and> sorted_wrt (\<lambda>x y. Internal_Compare Slice_compare (fst x) (fst y) < 0) (concat bss) \<and> [] \<notin> set bss
    \<and> (length (table_bytes (te_crc te) (te_options te) bss) < 2 ^ 32 \<longrightarrow>
        s = OK \<and> 0 < fm_file_size meta \<and> disk w' = table_bytes (te_crc te) (te_options te) bss)"
proof -
  obtain L where L: "sl_inv mem_compare mem_valid table L" "set (sl_keys table L) = op_entry ` set es" using mem(1) by (auto simp: mem_rep_def)
  note kvs = mem_kvs [OF mem(1) L]
  have ne: "L 0 \<noteq> []" using kvs(1) mem(2) by auto
  have k: "0 < to_block_restart_interval (te_options te)" using opts by (simp add: SanitizeOptions_def bytewise_options_def)
  have num: "fm_number (new_FileMetaData number) = number" by (simp add: new_FileMetaData_def)
  from BuildTable_returns [OF k os, of "new_FileMetaData number", unfolded num, OF fs caches L(1) ne works, of c w] kvs
  show ?thesis by (metis prod.collapse)
qed

theorem build_table_returns_witness:
  "\<exists>table s meta c' tcs' w'. MemTable_Add (Internal_Compare Slice_compare) 7 kTypeValue [1] [2, 3] new_MemTable = Some table
    \<and> BuildTable sample_table_env table (new_FileMetaData 5) (4, Map.empty, []) = Some (s, meta, (c', tcs', w'))"
proof -
  obtain table where t: "MemTable_Add (Internal_Compare Slice_compare) 7 kTypeValue [1] [2, 3] new_MemTable = Some table" "mem_rep table [sample_op]"
    by (rule sample_memtable)
  from build_table_returns [OF sample_table_env_ok(10) _ sample_table_env_ok(1-6) _ t(2) _ sample_table_env_ok(7-9), of Map.empty 5 4 "[]"] t(1)
  show ?thesis by auto
qed

theorem memtable_flush_witness:
  "\<exists>table meta st. MemTable_Add (Internal_Compare Slice_compare) 7 kTypeValue [1] [2, 3] new_MemTable = Some table
    \<and> BuildTable sample_table_env table (new_FileMetaData 5) (4, Map.empty, []) = Some (OK, meta, st)
    \<and> table_cache_gets sample_table_env \<lparr>ro_verify_checksums = True, ro_fill_cache = True\<rparr> 5 (fm_file_size meta) [([1], 6), ([1], 8), ([2], 8)] st =
        [(OK, kNotFound, []), (OK, kFound, [2, 3]), (OK, kNotFound, [])]
    \<and> Internal_Compare Slice_compare (fm_smallest meta) (op_ikey sample_op) \<le> 0"
proof -
  let ?te = sample_table_env
  obtain table where t: "MemTable_Add (Internal_Compare Slice_compare) 7 kTypeValue [1] [2, 3] new_MemTable = Some table" "mem_rep table [sample_op]"
    by (rule sample_memtable)
  obtain L where L: "sl_inv mem_compare mem_valid table L" "set (sl_keys table L) = op_entry ` set [sample_op]" using t(2) by (auto simp: mem_rep_def)
  note kvs = mem_kvs [OF t(2) L]
  have one: "map (mem_kv table) (L 0) = [op_kv sample_op]"
  proof (cases "map (mem_kv table) (L 0)")
    case (Cons x xs)
    have "Internal_Compare Slice_compare a a = 0" for a by (simp add: Internal_Compare_def)
    then show ?thesis using kvs unfolding Cons by (cases xs) auto
  qed (use kvs(1) in simp)
  have k: "0 < to_block_restart_interval (te_options ?te)" by (simp add: sample_table_env_ok(10) SanitizeOptions_def bytewise_options_def)
  have ne: "L 0 \<noteq> []" using one by auto
  have num: "fm_number (new_FileMetaData 5) = 5" by (simp add: new_FileMetaData_def)
  from BuildTable_returns [OF k sample_table_env_ok(1-3), of "new_FileMetaData 5", OF sample_table_env_ok(4-6) _ L(1) ne sample_table_env_ok(7-9), of Map.empty 4 "[]"]
  obtain s meta c' tcs' w' bss where b: "BuildTable ?te table (new_FileMetaData 5) (4, Map.empty, []) = Some (s, meta, (c', tcs', w'))"
    "concat bss = [op_kv sample_op]" "[] \<notin> set bss" "length (table_bytes (te_crc ?te) (te_options ?te) bss) < 2 ^ 32 \<longrightarrow>
        s = OK \<and> 0 < fm_file_size meta \<and> w' = table_bytes (te_crc ?te) (te_options ?te) bss"
    unfolding one by (metis (no_types, lifting) id_apply prod.collapse)
  from b(2,3) have "bss = [[op_kv sample_op]]" by (cases bss; cases "tl bss") (auto simp: append_eq_Cons_conv)
  then have "length (table_bytes (te_crc ?te) (te_options ?te) bss) < 2 ^ 32" using sample_table_size by (simp add: sample_table_env_def)
  with b(4) have r: "s = OK" "0 < fm_file_size meta" "length (id w') < 2 ^ 32" by auto
  have pos: "0 < (16 :: nat)" and no_table: "id (Map.empty :: byte list \<rightharpoonup> random_read \<times> table) (EncodeFixed64 5) = None" by simp_all
  note flush = memtable_flush [OF sample_table_env_ok(10) pos sample_table_env_ok(1-6) no_table t(2) b(1) [unfolded r(1)] r(2,3)]
  let ?qs = "[([1] :: byte list, 6 :: u64), ([1], 8), ([2], 8)]" and ?ro = "\<lparr>ro_verify_checksums = True, ro_fill_cache = True\<rparr>"
  have q: "\<forall>(user, s) \<in> set ?qs. s \<le> kMaxSequenceNumber \<and> length user + 8 < 2 ^ 32" by (simp add: kMaxSequenceNumber_def)
  then have get: "MemTable_Get Slice_compare (Internal_Compare Slice_compare) (new_LookupKey user s) table = Some (mem_lookup [sample_op] user s)"
    if "(user, s) \<in> set ?qs" for user s using MemTable_Get_rep [OF t(2)] that by blast
  have "map Some (table_cache_gets ?te ?ro 5 (fm_file_size meta) ?qs (c', tcs', w')) =
      map (\<lambda>(user, s). map_option (\<lambda>g. (OK, saved g)) (MemTable_Get Slice_compare (Internal_Compare Slice_compare) (new_LookupKey user s) table)) ?qs"
    using flush [THEN conjunct2, THEN conjunct2, THEN conjunct2, THEN spec, THEN spec, THEN mp, OF q] .
  also have "\<dots> = map Some [(OK, kNotFound, []), (OK, kFound, [2, 3]), (OK, kNotFound, [])]"
    by (simp add: get mem_lookup_def saved_def sample_op_def)
  finally have "table_cache_gets ?te ?ro 5 (fm_file_size meta) ?qs (c', tcs', w') = [(OK, kNotFound, []), (OK, kFound, [2, 3]), (OK, kNotFound, [])]"
    by (rule map_injective) simp
  moreover have "Internal_Compare Slice_compare (fm_smallest meta) (op_ikey sample_op) \<le> 0" using flush by simp
  ultimately show ?thesis using t(1) b(1) r(1) by blast
qed

end
